(* ===== verification/Prelude.thy ===== *)
theory Prelude
  imports Main "HOL-Library.AList"
begin

text \<open>
  Shared vocabulary of the development: results of fallible code, JavaScript's
  safe integers, insertion-ordered keyed collections (the code's \<open>Map\<close> objects
  whose values carry their own key), JSON values, and the lemma collections the
  component theories use for automation.
\<close>

named_theorems keyed "rewriting rules of insertion-ordered keyed collections"
named_theorems result_simps "evaluation of results and their sequencing"

subsection \<open>Results\<close>

text \<open>A call that may throw returns \<open>Inl\<close> the error or \<open>Inr\<close> the value.\<close>

type_synonym ('e, 'a) outcome = "'e + 'a"

fun bindE :: "('e, 'a) outcome \<Rightarrow> ('a \<Rightarrow> ('e, 'b) outcome) \<Rightarrow> ('e, 'b) outcome" where
  "bindE (Inl e) f = Inl e"
| "bindE (Inr x) f = f x"

lemma bindE_Inr_iff [result_simps]:
  "bindE m f = Inr y \<longleftrightarrow> (\<exists>x. m = Inr x \<and> f x = Inr y)"
  by (cases m) auto

lemma bindE_Inl_iff:
  "bindE m f = Inl e \<longleftrightarrow> m = Inl e \<or> (\<exists>x. m = Inr x \<and> f x = Inl e)"
  by (cases m) auto

lemma bindE_Inr_right [simp]: "bindE m Inr = m"
  by (cases m) auto

text \<open>\<open>require b e\<close> is the source's \<open>if (!b) throw e\<close>.\<close>

definition require :: "bool \<Rightarrow> 'e \<Rightarrow> ('e, unit) outcome" where
  "require b e = (if b then Inr () else Inl e)"

lemma require_Inr [simp]: "require b e = Inr u \<longleftrightarrow> b"
  by (simp add: require_def)

lemma require_bind [simp]:
  "bindE (require b e) f = (if b then f () else Inl e)"
  by (simp add: require_def)

text \<open>
  A stateful call that may throw returns the state it leaves behind, thrown
  error or not, since the code mutates before it throws in several places.
  \<open>andThen\<close> sequences two of them: an error ends the sequence.
\<close>

type_synonym ('s, 'e, 'a) step_result = "'s \<times> ('e, 'a) outcome"

fun andThen :: "('s, 'e, 'a) step_result \<Rightarrow> ('s \<Rightarrow> 'a \<Rightarrow> ('s, 'e, 'b) step_result)
    \<Rightarrow> ('s, 'e, 'b) step_result" where
  "andThen (s, Inl e) f = (s, Inl e)"
| "andThen (s, Inr x) f = f s x"

lemma andThen_Inr_iff [result_simps]:
  "andThen m f = (t, Inr y) \<longleftrightarrow> (\<exists>s x. m = (s, Inr x) \<and> f s x = (t, Inr y))"
  by (cases m rule: prod.exhaust, rename_tac a b, case_tac b) auto

text \<open>Mapping a fallible function over a list stops at the first error.\<close>

fun mapE :: "('a \<Rightarrow> ('e, 'b) outcome) \<Rightarrow> 'a list \<Rightarrow> ('e, 'b list) outcome" where
  "mapE f [] = Inr []"
| "mapE f (x # xs) = bindE (f x) (\<lambda>y. bindE (mapE f xs) (\<lambda>ys. Inr (y # ys)))"

lemma mapE_values: "\<forall>x \<in> set xs. f x = Inr (g x) \<Longrightarrow> mapE f xs = Inr (map g xs)"
  by (induction xs) auto

text \<open>Threading an accumulator through a list, stopping at the first error.\<close>

fun foldE :: "('s \<Rightarrow> 'a \<Rightarrow> ('e, 's) outcome) \<Rightarrow> 's \<Rightarrow> 'a list \<Rightarrow> ('e, 's) outcome" where
  "foldE f s [] = Inr s"
| "foldE f s (x # xs) = bindE (f s x) (\<lambda>s'. foldE f s' xs)"

lemma foldE_append:
  "foldE f s (xs @ ys) = bindE (foldE f s xs) (\<lambda>s'. foldE f s' ys)"
proof (induction xs arbitrary: s)
  case (Cons x xs)
  then show ?case by (cases "f s x") auto
qed simp

subsection \<open>Safe integers\<close>

text \<open>\<open>Number.MAX_SAFE_INTEGER\<close>: integers up to it are exact in JavaScript.\<close>

definition max_safe_integer :: int where
  "max_safe_integer = 9007199254740991"

definition safe_count :: "int \<Rightarrow> bool" where
  "safe_count n \<longleftrightarrow> 0 \<le> n \<and> n \<le> max_safe_integer"

lemma safe_count_0 [simp]: "safe_count 0"
  by (simp add: safe_count_def max_safe_integer_def)

lemma safe_count_nonneg: "safe_count n \<Longrightarrow> 0 \<le> n"
  by (simp add: safe_count_def)

lemma safe_count_mono: "safe_count n \<Longrightarrow> 0 \<le> m \<Longrightarrow> m \<le> n \<Longrightarrow> safe_count m"
  by (simp add: safe_count_def)

lemma safe_count_max: "safe_count m \<Longrightarrow> safe_count n \<Longrightarrow> safe_count (max m n)"
  by (simp add: max_def)

subsection \<open>Keyed collections\<close>

text \<open>
  A JavaScript \<open>Map\<close> iterates in insertion order, and setting an existing key
  keeps its place. The maps of the modelled code hold objects under one of
  their own fields, so a list of the objects, in order, and the field are the
  whole map.
\<close>

definition kfind :: "('a \<Rightarrow> 'k) \<Rightarrow> 'k \<Rightarrow> 'a list \<Rightarrow> 'a option" where
  "kfind key k xs = List.find (\<lambda>x. key x = k) xs"

definition khas :: "('a \<Rightarrow> 'k) \<Rightarrow> 'k \<Rightarrow> 'a list \<Rightarrow> bool" where
  "khas key k xs \<longleftrightarrow> k \<in> set (map key xs)"

fun kput :: "('a \<Rightarrow> 'k) \<Rightarrow> 'a \<Rightarrow> 'a list \<Rightarrow> 'a list" where
  "kput key v [] = [v]"
| "kput key v (x # xs) = (if key x = key v then v # xs else x # kput key v xs)"

definition kdel :: "('a \<Rightarrow> 'k) \<Rightarrow> 'k \<Rightarrow> 'a list \<Rightarrow> 'a list" where
  "kdel key k xs = filter (\<lambda>x. key x \<noteq> k) xs"

abbreviation distinct_keys :: "('a \<Rightarrow> 'k) \<Rightarrow> 'a list \<Rightarrow> bool" where
  "distinct_keys key xs \<equiv> distinct (map key xs)"

lemma kfind_Nil [simp]: "kfind key k [] = None"
  by (simp add: kfind_def)

lemma kfind_Cons [simp]:
  "kfind key k (x # xs) = (if key x = k then Some x else kfind key k xs)"
  by (simp add: kfind_def)

lemma kfind_SomeD: "kfind key k xs = Some x \<Longrightarrow> x \<in> set xs \<and> key x = k"
  by (induction xs) (auto split: if_splits)

lemma kfind_mem: "kfind key k xs = Some x \<Longrightarrow> x \<in> set xs"
  by (drule kfind_SomeD) (erule conjunct1)

lemma kfind_key: "kfind key k xs = Some x \<Longrightarrow> key x = k"
  by (drule kfind_SomeD) (erule conjunct2)

lemma kfind_None_iff: "kfind key k xs = None \<longleftrightarrow> k \<notin> key ` set xs"
  by (induction xs) auto

lemma kfind_Some_ex: "k \<in> key ` set xs \<Longrightarrow> \<exists>x. kfind key k xs = Some x"
  using kfind_None_iff [of key k xs] by (cases "kfind key k xs") auto

lemma kfind_distinct:
  "distinct_keys key xs \<Longrightarrow> x \<in> set xs \<Longrightarrow> kfind key (key x) xs = Some x"
  by (induction xs) auto

lemma kfind_iff:
  "distinct_keys key xs \<Longrightarrow> kfind key k xs = Some x \<longleftrightarrow> x \<in> set xs \<and> key x = k"
  using kfind_distinct kfind_SomeD by fastforce

lemma distinct_keys_inj:
  "distinct_keys key xs \<Longrightarrow> x \<in> set xs \<Longrightarrow> y \<in> set xs \<Longrightarrow> key x = key y \<Longrightarrow> x = y"
  by (simp add: distinct_map inj_on_def)

lemma khas_iff: "khas key k xs \<longleftrightarrow> (\<exists>x. kfind key k xs = Some x)"
  using kfind_None_iff [of key k xs] by (auto simp: khas_def)

lemma khas_set: "khas key k xs \<longleftrightarrow> k \<in> key ` set xs"
  by (simp add: khas_def)

lemma kfind_kput [simp]:
  "kfind key k (kput key v xs) = (if k = key v then Some v else kfind key k xs)"
  by (induction xs) auto

lemma keys_kput:
  "map key (kput key v xs) = (if key v \<in> key ` set xs then map key xs else map key xs @ [key v])"
  by (induction xs) auto

lemma distinct_kput [simp]:
  "distinct_keys key xs \<Longrightarrow> distinct_keys key (kput key v xs)"
  by (simp add: keys_kput)

lemma set_kput:
  "distinct_keys key xs \<Longrightarrow> set (kput key v xs) = insert v {x \<in> set xs. key x \<noteq> key v}"
  by (induction xs) (auto simp: rev_image_eqI)

lemma set_kput_subset: "set (kput key v xs) \<subseteq> insert v (set xs)"
  by (induction xs) auto

lemma kput_new: "key v \<notin> key ` set xs \<Longrightarrow> kput key v xs = xs @ [v]"
  by (induction xs) auto

lemma length_kput_present: "key v \<in> key ` set xs \<Longrightarrow> length (kput key v xs) = length xs"
  by (induction xs) auto

lemma kput_as_map:
  "distinct_keys key xs \<Longrightarrow> key v \<in> key ` set xs
   \<Longrightarrow> kput key v xs = map (\<lambda>x. if key x = key v then v else x) xs"
proof (induction xs)
  case (Cons x xs)
  show ?case
  proof (cases "key x = key v")
    case True
    with Cons.prems have "key v \<notin> key ` set xs" by auto
    then have "map (\<lambda>x. if key x = key v then v else x) xs = xs"
      by (intro map_idI) (auto simp: rev_image_eqI)
    with True show ?thesis by simp
  next
    case False
    with Cons show ?thesis by auto
  qed
qed simp

lemma kfind_kdel [simp]:
  "kfind key k (kdel key k' xs) = (if k = k' then None else kfind key k xs)"
  by (induction xs) (auto simp: kdel_def)

lemma set_kdel: "set (kdel key k xs) = {x \<in> set xs. key x \<noteq> k}"
  by (simp add: kdel_def)

lemma distinct_kdel [simp]: "distinct_keys key xs \<Longrightarrow> distinct_keys key (kdel key k xs)"
  by (induction xs) (auto simp: kdel_def)

lemma kput_kput [simp]: "key v = key w \<Longrightarrow> kput key v (kput key w xs) = kput key v xs"
  by (induction xs) auto

lemma kdel_kput [simp]: "key v = k \<Longrightarrow> kdel key k (kput key v xs) = kdel key k xs"
  by (induction xs) (auto simp: kdel_def)

lemma kput_present: "distinct_keys key xs \<Longrightarrow> v \<in> set xs \<Longrightarrow> kput key v xs = xs"
  by (induction xs) (auto simp: rev_image_eqI)

lemma kdel_absent: "k \<notin> key ` set xs \<Longrightarrow> kdel key k xs = xs"
  by (auto simp: kdel_def intro: filter_True)

lemmas keyed_rules [keyed] =
  kfind_kput kfind_kdel set_kdel distinct_kput distinct_kdel set_kput khas_set

subsection \<open>JSON values\<close>

text \<open>
  What a JSON document can hold, with \<open>undefined\<close> for an absent property. A
  number that is not an integer is one value: no branch of the modelled code
  reads more of it than that it is not a safe integer.
\<close>

datatype json =
    JUndefined
  | JNull
  | JBool bool
  | JNum int
  | JFraction
  | JStr string
  | JArr "json list"
  | JObj "(string \<times> json) list"

text \<open>Property access on an object: an absent property reads \<open>undefined\<close>.\<close>

definition jget :: "(string \<times> json) list \<Rightarrow> string \<Rightarrow> json" where
  "jget fields name = (case map_of fields name of None \<Rightarrow> JUndefined | Some v \<Rightarrow> v)"

subsection \<open>Lists\<close>

lemma find_SomeD: "List.find P xs = Some x \<Longrightarrow> x \<in> set xs \<and> P x"
  by (induction xs) (auto split: if_splits)

lemma sum_list_map_nonneg:
  fixes f :: "'a \<Rightarrow> int"
  shows "(\<And>x. x \<in> set xs \<Longrightarrow> 0 \<le> f x) \<Longrightarrow> 0 \<le> sum_list (map f xs)"
  by (induction xs) auto

lemma sum_list_map_mono_int:
  fixes f :: "'a \<Rightarrow> int"
  shows "(\<And>x. x \<in> set xs \<Longrightarrow> f x \<le> g x) \<Longrightarrow> sum_list (map f xs) \<le> sum_list (map g xs)"
  by (induction xs) (auto simp: add_mono)

lemma sum_list_map_filter_split:
  fixes f :: "'a \<Rightarrow> int"
  shows "sum_list (map f xs)
    = sum_list (map f (filter P xs)) + sum_list (map f (filter (\<lambda>x. \<not> P x) xs))"
  by (induction xs) auto

lemma sum_list_kput_change:
  fixes f :: "'a \<Rightarrow> int"
  assumes "distinct_keys key xs" and "x \<in> set xs" and "key v = key x"
  shows "sum_list (map f (kput key v xs)) = sum_list (map f xs) - f x + f v"
  using assms
proof (induction xs)
  case (Cons y ys)
  show ?case
  proof (cases "key y = key v")
    case True
    with Cons.prems have "x = y" by (auto simp: rev_image_eqI)
    with True show ?thesis by simp
  next
    case False
    with Cons.prems have "x \<in> set ys" by auto
    with False Cons show ?thesis by simp
  qed
qed simp

end
