(* ===== verification/Text.thy ===== *)
theory Text
  imports Prelude
begin

text \<open>
  Operations on texts that the program takes from the language's library: decimal
  numbers, white space, letter case, splitting. Texts are lists of characters with
  codes below 256; \<open>Number\<close> of a run of digits is exact (as it is in the code up to
  \<open>2 ^ 53\<close>).
\<close>

subsection \<open>Decimal numbers\<close>

fun decimal :: "nat \<Rightarrow> string" where
  "decimal n = (if n < 10 then [char_of (48 + n)] else decimal (n div 10) @ [char_of (48 + n mod 10)])"

declare decimal.simps [simp del]

definition char_code :: "char \<Rightarrow> nat" where
  "char_code c = of_char c"

definition is_digit :: "char \<Rightarrow> bool" where
  "is_digit c \<longleftrightarrow> 48 \<le> char_code c \<and> char_code c \<le> 57"

text \<open>\<open>/^\d+$/.test(text)\<close>\<close>

definition is_number :: "string \<Rightarrow> bool" where
  "is_number s \<longleftrightarrow> s \<noteq> [] \<and> list_all is_digit s"

text \<open>\<open>Number(text)\<close>, for a run of digits\<close>

fun number_from :: "nat \<Rightarrow> string \<Rightarrow> nat" where
  "number_from n [] = n"
| "number_from n (c # s) = number_from (10 * n + (char_code c - 48)) s"

definition number_of :: "string \<Rightarrow> nat" where
  "number_of s = number_from 0 s"

text \<open>\<open>String(n)\<close>, for an integer\<close>

definition int_text :: "int \<Rightarrow> string" where
  "int_text i = (if i < 0 then ''-'' @ decimal (nat (- i)) else decimal (nat i))"

lemma digit_char: "d < 10 \<Longrightarrow> char_code (char_of (48 + d)) = 48 + d"
  by (simp add: char_code_def)

lemma number_from_append: "number_from n (s @ t) = number_from (number_from n s) t"
  by (induction s arbitrary: n) auto

lemma is_digit_decimal: "list_all is_digit (decimal n)"
proof (induction n rule: decimal.induct)
  case (1 n)
  then show ?case
    using mod_less_divisor [of 10 n]
    by (subst decimal.simps) (auto simp: digit_char is_digit_def [of "char_of _"])
qed

lemma decimal_not_Nil [simp]: "decimal n \<noteq> []"
  by (subst decimal.simps) simp

lemma is_number_decimal [simp]: "is_number (decimal n)"
  by (simp add: is_number_def is_digit_decimal)

lemma number_of_decimal [simp]: "number_of (decimal n) = n"
proof (induction n rule: decimal.induct)
  case (1 n)
  show ?case
  proof (cases "n < 10")
    case True
    then show ?thesis by (subst decimal.simps) (simp add: number_of_def digit_char)
  next
    case False
    then have "number_of (decimal n) = 10 * number_of (decimal (n div 10)) + n mod 10"
      by (subst decimal.simps) (simp add: number_of_def number_from_append digit_char)
    then show ?thesis using 1 False by simp
  qed
qed

lemma decimal_inject [simp]: "decimal m = decimal n \<longleftrightarrow> m = n"
  by (metis number_of_decimal)

lemma digit_not: "is_digit c \<Longrightarrow> \<not> is_digit d \<Longrightarrow> c \<noteq> d"
  by auto

lemma decimal_no: "\<not> is_digit c \<Longrightarrow> c \<notin> set (decimal n)"
  using is_digit_decimal [of n] by (auto simp: list_all_iff)

lemma int_text_inject [simp]: "int_text i = int_text j \<longleftrightarrow> i = j"
proof -
  have "\<not> is_digit (CHR ''-'')"
    by (simp add: is_digit_def char_code_def)
  then have "''-'' @ u \<noteq> decimal n" for u n
    by (metis append_Cons decimal_no list.set_intros(1))
  then show ?thesis
    by (auto simp: int_text_def dest: sym)
qed

subsection \<open>Letter case and white space\<close>

definition is_space :: "char \<Rightarrow> bool" where
  "is_space c \<longleftrightarrow> (9 \<le> char_code c \<and> char_code c \<le> 13) \<or> char_code c = 32 \<or> char_code c = 160"

definition is_letter :: "char \<Rightarrow> bool" where
  "is_letter c \<longleftrightarrow> (65 \<le> char_code c \<and> char_code c \<le> 90) \<or> (97 \<le> char_code c \<and> char_code c \<le> 122)"

definition lower_char :: "char \<Rightarrow> char" where
  "lower_char c = (if (65 \<le> char_code c \<and> char_code c \<le> 90)
      \<or> (192 \<le> char_code c \<and> char_code c \<le> 222 \<and> char_code c \<noteq> 215)
    then char_of (char_code c + 32) else c)"

definition to_lower :: "string \<Rightarrow> string" where
  "to_lower s = map lower_char s"

definition trim :: "string \<Rightarrow> string" where
  "trim s = rev (dropWhile is_space (rev (dropWhile is_space s)))"

definition starts_with :: "string \<Rightarrow> string \<Rightarrow> bool" where
  "starts_with p s \<longleftrightarrow> take (length p) s = p"

lemma trim_id:
  assumes "s \<noteq> []" "\<not> is_space (hd s)" "\<not> is_space (last s)"
  shows "trim s = s"
proof -
  have "dropWhile is_space s = s" using assms by (cases s) auto
  moreover have "dropWhile is_space (rev s) = rev s"
    using assms by (cases s rule: rev_cases) auto
  ultimately show ?thesis by (simp add: trim_def)
qed

subsection \<open>Splitting\<close>

text \<open>\<open>text.split(c)\<close>, for a single character\<close>

fun split_on :: "char \<Rightarrow> string \<Rightarrow> string list" where
  "split_on c [] = [[]]"
| "split_on c (d # s) = (if d = c then [] # split_on c s
    else case split_on c s of [] \<Rightarrow> [[d]] | x # xs \<Rightarrow> (d # x) # xs)"

text \<open>\<open>text.split(/\s+/)\<close>\<close>

lemma length_dropWhile_less [termination_simp]: "length (dropWhile P s) < Suc (length s)"
  by (simp add: length_dropWhile_le less_Suc_eq_le)

fun split_spaces :: "string \<Rightarrow> string list" where
  "split_spaces [] = [[]]"
| "split_spaces (d # s) = (if is_space d then [] # split_spaces (dropWhile is_space s)
    else case split_spaces s of [] \<Rightarrow> [[d]] | x # xs \<Rightarrow> (d # x) # xs)"

fun join_with :: "string \<Rightarrow> string list \<Rightarrow> string" where
  "join_with g [] = []"
| "join_with g [x] = x"
| "join_with g (x # y # xs) = x @ g @ join_with g (y # xs)"

lemma split_on_not_Nil [simp]: "split_on c s \<noteq> []"
  by (cases s) (auto split: list.splits)

lemma split_on_free [simp]: "c \<notin> set s \<Longrightarrow> split_on c s = [s]"
  by (induction s) auto

lemma split_on_sep: "c \<notin> set s \<Longrightarrow> split_on c (s @ c # t) = s # split_on c t"
  by (induction s) auto

lemma split_on_join:
  "xs \<noteq> [] \<Longrightarrow> \<forall>x \<in> set xs. c \<notin> set x \<Longrightarrow> split_on c (join_with [c] xs) = xs"
  by (induction "[c]" xs rule: join_with.induct) (auto simp: split_on_sep)

lemma split_on_parts: "\<forall>x \<in> set (split_on c s). c \<notin> set x"
proof (induction s)
  case (Cons d s)
  then show ?case by (cases "split_on c s") auto
qed simp

lemma split_spaces_free: "\<forall>c \<in> set s. \<not> is_space c \<Longrightarrow> split_spaces s = [s]"
  by (induction s) auto

lemma split_spaces_sep:
  "\<forall>c \<in> set s. \<not> is_space c \<Longrightarrow> is_space d \<Longrightarrow> t \<noteq> [] \<Longrightarrow> \<not> is_space (hd t)
    \<Longrightarrow> split_spaces (s @ d # t) = s # split_spaces t"
  by (induction s) (auto simp: neq_Nil_conv)

lemma join_with_not_Nil: "xs \<noteq> [] \<Longrightarrow> hd xs \<noteq> [] \<Longrightarrow> join_with g xs \<noteq> [] \<and> hd (join_with g xs) = hd (hd xs)"
  by (cases "(g, xs)" rule: join_with.cases) auto

lemma last_join_with: "g \<noteq> [] \<Longrightarrow> xs \<noteq> [] \<Longrightarrow> last xs \<noteq> [] \<Longrightarrow> last (join_with g xs) = last (last xs)"
proof (induction g xs rule: join_with.induct)
  case (3 g x y xs)
  then have "join_with g (y # xs) \<noteq> []"
    by (cases xs) (auto split: if_splits)
  then show ?case using 3 by simp
qed auto

lemma split_spaces_join:
  "xs \<noteq> [] \<Longrightarrow> \<forall>x \<in> set xs. x \<noteq> [] \<and> (\<forall>c \<in> set x. \<not> is_space c) \<Longrightarrow> split_spaces (join_with '' '' xs) = xs"
proof (induction "'' ''" xs rule: join_with.induct)
  case (3 x y xs)
  have "is_space (CHR '' '')" by (simp add: is_space_def char_code_def)
  moreover have "join_with '' '' (y # xs) \<noteq> []" "\<not> is_space (hd (join_with '' '' (y # xs)))"
    using 3 join_with_not_Nil [of "y # xs" "'' ''"] by auto
  ultimately show ?case using 3 split_spaces_sep [of x "CHR '' ''" "join_with '' '' (y # xs)"] by simp
qed (auto simp: split_spaces_free)

end
