(* ===== verification/ToolCall.thy ===== *)
theory ToolCall
  imports Text "HOL-Library.List_Lexorder" "HOL-Library.Char_ord"
begin

text \<open>
  What a tool call is to the code that authorizes it: its input, a value decoded from
  JSON, with the two texts the code makes of it (\<open>JSON.stringify\<close>, and
  \<open>stableStringify\<close> of \<open>runtime/query/tool-grants.ts\<close>); the declarations of the tool
  (\<open>types/tool/index.ts\<close>) and of the toolset that owns it (\<open>toolsets/types.ts\<close>); and the
  grants of a turn.
\<close>

subsection \<open>Values\<close>

text \<open>A finite number stands as its decimal text, which is what every reader makes of it.\<close>

datatype "value" =
    V_undefined
  | V_null
  | V_bool bool
  | V_number string
  | V_string string
  | V_array "value list"
  | V_object "(string \<times> value) list"

text \<open>
  Reading a property. Only objects have one under a name of the model: the names are those
  tools declare for their arguments, and no name inherited from \<open>Object.prototype\<close>.
\<close>

fun property :: "value \<Rightarrow> string \<Rightarrow> value" where
  "property (V_object fs) k = (case map_of fs k of Some v \<Rightarrow> v | None \<Rightarrow> V_undefined)"
| "property _ k = V_undefined"

definition hex_digit :: "nat \<Rightarrow> char" where
  "hex_digit n = (if n < 10 then char_of (48 + n) else char_of (87 + n))"

definition json_char :: "char \<Rightarrow> string" where
  "json_char c =
    (let n = char_code c; bs = CHR 0x5C in
     if n = 34 then [bs, CHR 0x22] else if n = 92 then [bs, bs]
     else if n = 8 then [bs, CHR ''b''] else if n = 9 then [bs, CHR ''t'']
     else if n = 10 then [bs, CHR ''n''] else if n = 12 then [bs, CHR ''f'']
     else if n = 13 then [bs, CHR ''r'']
     else if n < 32 then [bs, CHR ''u'', CHR ''0'', CHR ''0'', hex_digit (n div 16), hex_digit (n mod 16)]
     else [c])"

definition json_string :: "string \<Rightarrow> string" where
  "json_string s = CHR 0x22 # concat (map json_char s) @ [CHR 0x22]"

text \<open>\<open>JSON.stringify\<close>: \<open>undefined\<close> has no text, is left out of objects and is null in arrays.\<close>

fun json_text :: "value \<Rightarrow> string option" where
  "json_text V_undefined = None"
| "json_text V_null = Some ''null''"
| "json_text (V_bool b) = Some (if b then ''true'' else ''false'')"
| "json_text (V_number s) = Some s"
| "json_text (V_string s) = Some (json_string s)"
| "json_text (V_array vs) = Some (''['' @ join_with '',''
    (map (\<lambda>v. case json_text v of Some t \<Rightarrow> t | None \<Rightarrow> ''null'') vs) @ '']'')"
| "json_text (V_object fs) = Some (''{'' @ join_with '',''
    (concat (map (\<lambda>(k, v). case json_text v of Some t \<Rightarrow> [json_string k @ '':'' @ t] | None \<Rightarrow> []) fs)) @ ''}'')"

subsection \<open>Tools and their sources\<close>

datatype dialect = Bash | Sh | Cmd

datatype source_kind = Host_tool | Provider_builtin | Mcp_server | Skill | Plugin | Connector

record tool_source =
  ts_id :: string
  ts_kind :: source_kind
  ts_read_only_trusted :: "bool option"

text \<open>A method a tool may declare; \<open>None\<close> is a call that throws.\<close>

type_synonym declared = "(value \<Rightarrow> bool option) option"

record tool_def =
  td_command_argument :: "string option"
  td_path_argument :: "string option"
  td_url_argument :: "string option"
  td_category :: "string option"
  td_tier :: "string option"
  td_is_read_only :: declared
  td_captures_screen :: declared

text \<open>
  \<open>isTrustedReadOnly\<close>: a server's own claim to be read-only counts only where the operator trusts it.
  Throwing is \<open>None\<close>.
\<close>

definition is_trusted_read_only :: "tool_def option \<Rightarrow> value \<Rightarrow> tool_source option \<Rightarrow> bool option" where
  "is_trusted_read_only tool input source =
    (case tool of
       None \<Rightarrow> Some False
     | Some d \<Rightarrow> (case td_is_read_only d of
          None \<Rightarrow> Some False
        | Some f \<Rightarrow>
            (case source of
               Some s \<Rightarrow> if ts_kind s = Mcp_server \<and> ts_read_only_trusted s \<noteq> Some True then Some False else f input
             | None \<Rightarrow> f input)))"

subsection \<open>The grants of a turn\<close>

text \<open>\<open>stableStringify\<close>: the same text with the keys sorted at every depth.\<close>

fun stable_stringify :: "value \<Rightarrow> string" where
  "stable_stringify V_undefined = ''null''"
| "stable_stringify V_null = ''null''"
| "stable_stringify (V_bool b) = (if b then ''true'' else ''false'')"
| "stable_stringify (V_number s) = s"
| "stable_stringify (V_string s) = json_string s"
| "stable_stringify (V_array vs) = ''['' @ join_with '','' (map stable_stringify vs) @ '']''"
| "stable_stringify (V_object fs) = ''{'' @ join_with '',''
    (map (\<lambda>(k, t). json_string k @ '':'' @ t) (sort_key fst
      (map (\<lambda>(k, v). (k, stable_stringify v)) (filter (\<lambda>(k, v). v \<noteq> V_undefined) fs)))) @ ''}''"

record tool_grant_keys =
  tk_call :: string
  tk_tool :: string

definition tool_grant_keys_of :: "string \<Rightarrow> value \<Rightarrow> tool_grant_keys" where
  "tool_grant_keys_of name input = \<lparr>tk_call = name @ '':'' @ stable_stringify input, tk_tool = name\<rparr>"

text \<open>\<open>ToolGrantSet\<close>: the keys recorded so far.\<close>

definition grant_keys :: "string list \<Rightarrow> string list \<Rightarrow> string list" where
  "grant_keys granted ks = fold (\<lambda>k g. if k \<noteq> [] \<and> k \<notin> set g then g @ [k] else g) ks granted"

definition grants_cover :: "string list \<Rightarrow> string \<Rightarrow> value \<Rightarrow> bool" where
  "grants_cover granted name input =
    (tk_call (tool_grant_keys_of name input) \<in> set granted \<or> tk_tool (tool_grant_keys_of name input) \<in> set granted)"

end
