(* ===== verification/RepeatCall.thy ===== *)
theory RepeatCall
  imports ToolCall
begin

text \<open>
  The tracker of repeated calls (\<open>runtime/query/repeat-call.ts\<close>): it counts identical calls of a turn, gives a notice when a count
  reaches a threshold, and refuses a call that keeps failing with the same result. The digest of a result is a parameter; the wording of
  notices and refusals stands for itself. How a notice is attached to the messages (\<open>attachRepeatNotice\<close>) is left out.
  Then what the tracker says of a turn, as statements about its history: when a call is refused, and when a notice is given.
\<close>

record thresholds =
  th_notify :: int
  th_escalate :: int
  th_refuse_failed :: int

definition default_thresholds :: thresholds where
  "default_thresholds = \<lparr>th_notify = 3, th_escalate = 5, th_refuse_failed = 4\<rparr>"

datatype notice_level = Mild | Escalated

record notice =
  nt_tool :: string
  nt_count :: nat
  nt_level :: notice_level

text \<open>What an execution came to: whether it failed, and its result, which may be missing.\<close>

record call_outcome =
  co_failed :: bool
  co_result :: "value option"

record failure_run =
  fr_fingerprint :: string
  fr_count :: nat

record tracker =
  tr_counts :: "string \<rightharpoonup> nat"
  tr_announced :: "string \<rightharpoonup> notice_level"
  tr_failures :: "string \<rightharpoonup> failure_run"

definition new_tracker :: tracker where
  "new_tracker = \<lparr>tr_counts = Map.empty, tr_announced = Map.empty, tr_failures = Map.empty\<rparr>"

definition key_for :: "string \<Rightarrow> value \<Rightarrow> string" where
  "key_for name input = name @ '':'' @ stable_stringify input"

definition fingerprint :: "(string \<Rightarrow> string) \<Rightarrow> call_outcome \<Rightarrow> string" where
  "fingerprint digest out = digest (stable_stringify (case co_result out of
      None \<Rightarrow> V_null | Some V_undefined \<Rightarrow> V_null | Some v \<Rightarrow> v))"

definition record_outcome :: "(string \<Rightarrow> string) \<Rightarrow> string \<Rightarrow> value \<Rightarrow> call_outcome \<Rightarrow> tracker \<Rightarrow> tracker" where
  "record_outcome digest name input out tr =
    (let k = key_for name input; fp = fingerprint digest out in
     if \<not> co_failed out then tr\<lparr>tr_failures := (tr_failures tr)(k := None)\<rparr>
     else tr\<lparr>tr_failures := (tr_failures tr)(k \<mapsto> \<lparr>fr_fingerprint = fp,
       fr_count = (case tr_failures tr k of
           Some p \<Rightarrow> if fr_fingerprint p = fp then fr_count p + 1 else 1
         | None \<Rightarrow> 1)\<rparr>)\<rparr>)"

definition announce :: "thresholds \<Rightarrow> string \<Rightarrow> string \<Rightarrow> nat \<Rightarrow> tracker \<Rightarrow> notice option \<times> tracker" where
  "announce th name k n tr =
    (if th_escalate th \<le> int n \<and> tr_announced tr k \<noteq> Some Escalated
     then (Some \<lparr>nt_tool = name, nt_count = n, nt_level = Escalated\<rparr>, tr\<lparr>tr_announced := (tr_announced tr)(k \<mapsto> Escalated)\<rparr>)
     else if th_notify th \<le> int n \<and> tr_announced tr k = None
     then (Some \<lparr>nt_tool = name, nt_count = n, nt_level = Mild\<rparr>, tr\<lparr>tr_announced := (tr_announced tr)(k \<mapsto> Mild)\<rparr>)
     else (None, tr))"

definition record_call :: "thresholds \<Rightarrow> (string \<Rightarrow> string) \<Rightarrow> string \<Rightarrow> value \<Rightarrow> call_outcome option \<Rightarrow> tracker \<Rightarrow> notice option \<times> tracker" where
  "record_call th digest name input out tr =
    (let k = key_for name input;
         n = (case tr_counts tr k of None \<Rightarrow> 0 | Some m \<Rightarrow> m) + 1;
         tr1 = tr\<lparr>tr_counts := (tr_counts tr)(k \<mapsto> n)\<rparr>;
         tr2 = (case out of None \<Rightarrow> tr1 | Some o1 \<Rightarrow> record_outcome digest name input o1 tr1)
     in announce th name k n tr2)"

definition state_may_have_changed :: "tracker \<Rightarrow> tracker" where
  "state_may_have_changed tr = tr\<lparr>tr_failures := Map.empty\<rparr>"

definition count_of :: "string \<Rightarrow> value \<Rightarrow> tracker \<Rightarrow> nat" where
  "count_of name input tr = (case tr_counts tr (key_for name input) of None \<Rightarrow> 0 | Some n \<Rightarrow> n)"

text \<open>A refusal names how often the call failed.\<close>

definition refusal :: "thresholds \<Rightarrow> string \<Rightarrow> value \<Rightarrow> tracker \<Rightarrow> nat option" where
  "refusal th name input tr =
    (let n = (case tr_failures tr (key_for name input) of None \<Rightarrow> 0 | Some p \<Rightarrow> fr_count p) in
     if int n < th_refuse_failed th then None else Some n)"

subsection \<open>What happens to a tracker in a turn\<close>

datatype tracker_event =
    Called string "value" "call_outcome option"
  | Executed_as string "value" call_outcome
  | State_changed

fun observe :: "thresholds \<Rightarrow> (string \<Rightarrow> string) \<Rightarrow> tracker_event \<Rightarrow> tracker \<Rightarrow> tracker" where
  "observe th digest (Called name input out) tr = snd (record_call th digest name input out tr)"
| "observe th digest (Executed_as name input out) tr = record_outcome digest name input out tr"
| "observe th digest State_changed tr = state_may_have_changed tr"

definition observe_all :: "thresholds \<Rightarrow> (string \<Rightarrow> string) \<Rightarrow> tracker_event list \<Rightarrow> tracker" where
  "observe_all th digest es = fold (observe th digest) es new_tracker"

subsection \<open>Runs of failures\<close>

text \<open>The outcomes recorded for a key since the last possible change of state, the newest first\<close>

fun outcome_for :: "string \<Rightarrow> tracker_event \<Rightarrow> call_outcome list" where
  "outcome_for k (Called name input (Some out)) = (if key_for name input = k then [out] else [])"
| "outcome_for k (Executed_as name input out) = (if key_for name input = k then [out] else [])"
| "outcome_for k _ = []"

definition recent_outcomes :: "string \<Rightarrow> tracker_event list \<Rightarrow> call_outcome list" where
  "recent_outcomes k es = concat (map (outcome_for k) (takeWhile (\<lambda>e. e \<noteq> State_changed) (rev es)))"

fun run_of :: "(string \<Rightarrow> string) \<Rightarrow> call_outcome list \<Rightarrow> failure_run option" where
  "run_of digest [] = None"
| "run_of digest (out # outs) = (if \<not> co_failed out then None
    else Some \<lparr>fr_fingerprint = fingerprint digest out, fr_count = (case run_of digest outs of
        Some p \<Rightarrow> if fr_fingerprint p = fingerprint digest out then fr_count p + 1 else 1
      | None \<Rightarrow> 1)\<rparr>)"

lemma record_outcome_failures:
  "tr_failures (record_outcome digest name input out tr) k =
    (if key_for name input = k then
       (if \<not> co_failed out then None
        else Some \<lparr>fr_fingerprint = fingerprint digest out, fr_count = (case tr_failures tr k of
            Some p \<Rightarrow> if fr_fingerprint p = fingerprint digest out then fr_count p + 1 else 1
          | None \<Rightarrow> 1)\<rparr>)
     else tr_failures tr k)"
  by (simp add: record_outcome_def Let_def)

lemma record_outcome_keeps [simp]:
  "tr_counts (record_outcome digest name input out tr) = tr_counts tr"
  "tr_announced (record_outcome digest name input out tr) = tr_announced tr"
  by (simp_all add: record_outcome_def Let_def)

lemma announce_keeps [simp]:
  "tr_counts (snd (announce th name k n tr)) = tr_counts tr" "tr_failures (snd (announce th name k n tr)) = tr_failures tr"
  by (simp_all add: announce_def)

lemma record_call_failures:
  "tr_failures (snd (record_call th digest name input out tr)) =
    (case out of None \<Rightarrow> tr_failures tr | Some o1 \<Rightarrow> tr_failures (record_outcome digest name input o1 tr))"
  by (cases out) (simp_all add: record_call_def Let_def record_outcome_def)

lemma observed_failures:
  "tr_failures (observe_all th digest es) k = run_of digest (recent_outcomes k es)"
proof (induction es rule: rev_induct)
  case Nil
  then show ?case by (simp add: observe_all_def new_tracker_def recent_outcomes_def)
next
  case (snoc e es)
  have s: "observe_all th digest (es @ [e]) = observe th digest e (observe_all th digest es)" by (simp add: observe_all_def)
  show ?case
  proof (cases e)
    case (Called name input out)
    show ?thesis using snoc unfolding s unfolding Called
      by (cases out) (simp_all add: recent_outcomes_def record_call_failures record_outcome_failures)
  next
    case (Executed_as name input out)
    show ?thesis using snoc unfolding s unfolding Executed_as by (simp add: recent_outcomes_def record_outcome_failures)
  next
    case State_changed
    show ?thesis unfolding s unfolding State_changed by (simp add: recent_outcomes_def state_may_have_changed_def)
  qed
qed

text \<open>A run is long when the newest outcomes all failed alike.\<close>

definition failed_alike :: "(string \<Rightarrow> string) \<Rightarrow> call_outcome list \<Rightarrow> bool" where
  "failed_alike digest outs \<longleftrightarrow> (\<exists>fp. \<forall>out \<in> set outs. co_failed out \<and> fingerprint digest out = fp)"

lemma run_long:
  "0 < r \<Longrightarrow> (\<exists>p. run_of digest outs = Some p \<and> r \<le> fr_count p) \<longleftrightarrow> r \<le> length outs \<and> failed_alike digest (take r outs)"
proof (induction outs arbitrary: r)
  case Nil
  then show ?case by simp
next
  case (Cons out outs)
  show ?case
  proof (cases "r = 1")
    case True
    then show ?thesis by (auto simp: failed_alike_def split: option.split)
  next
    case False
    then obtain q where q: "r = Suc q" "0 < q" using Cons.prems by (cases r) auto
    note ih = Cons.IH [OF q(2)]
    have first: "failed_alike digest (take q outs) \<Longrightarrow> q \<le> length outs \<Longrightarrow>
        \<exists>p. run_of digest outs = Some p \<and> (\<forall>o1 \<in> set (take q outs). fingerprint digest o1 = fr_fingerprint p)"
    proof -
      assume a: "failed_alike digest (take q outs)" "q \<le> length outs"
      then obtain o1 os where o: "outs = o1 # os" using q(2) by (cases outs) auto
      have "o1 \<in> set (take q outs)" using o q(2) by (cases q) auto
      then have "co_failed o1" "\<forall>o2 \<in> set (take q outs). fingerprint digest o2 = fingerprint digest o1"
        using a(1) unfolding failed_alike_def by metis+
      then show ?thesis using o by simp
    qed
    have alike: "failed_alike digest (take r (out # outs)) \<longleftrightarrow>
        co_failed out \<and> (\<forall>o1 \<in> set (take q outs). co_failed o1 \<and> fingerprint digest o1 = fingerprint digest out)"
      unfolding failed_alike_def q(1) by auto
    show ?thesis
    proof (cases "co_failed out")
      case f: True
      show ?thesis
      proof (cases "\<exists>p. run_of digest outs = Some p \<and> fr_fingerprint p = fingerprint digest out")
        case True
        then obtain p where p: "run_of digest outs = Some p" "fr_fingerprint p = fingerprint digest out" by blast
        have "(\<exists>p. run_of digest (out # outs) = Some p \<and> r \<le> fr_count p) \<longleftrightarrow> q \<le> fr_count p"
          using f p q(1) by simp
        also have "\<dots> \<longleftrightarrow> q \<le> length outs \<and> failed_alike digest (take q outs)" using ih p(1) by simp
        also have "\<dots> \<longleftrightarrow> r \<le> length (out # outs) \<and> failed_alike digest (take r (out # outs))"
          using alike f first p q(1) unfolding failed_alike_def by auto
        finally show ?thesis .
      next
        case n: False
        then have "fr_count (the (run_of digest (out # outs))) = 1" using f by (auto split: option.splits)
        then have "\<not> (\<exists>p. run_of digest (out # outs) = Some p \<and> r \<le> fr_count p)" using q f by auto
        moreover have "\<not> (r \<le> length (out # outs) \<and> failed_alike digest (take r (out # outs)))"
        proof
          assume a: "r \<le> length (out # outs) \<and> failed_alike digest (take r (out # outs))"
          then have l: "q \<le> length outs" and all: "\<forall>o1 \<in> set (take q outs). co_failed o1 \<and> fingerprint digest o1 = fingerprint digest out"
            using alike q(1) by auto
          then have "failed_alike digest (take q outs)" unfolding failed_alike_def by blast
          then obtain p where p: "run_of digest outs = Some p" "\<forall>o1 \<in> set (take q outs). fingerprint digest o1 = fr_fingerprint p"
            using first l by blast
          have "take q outs \<noteq> []" using q(2) l by auto
          then obtain o1 where "o1 \<in> set (take q outs)" by (cases "take q outs") auto
          then have "fr_fingerprint p = fingerprint digest out" using all p(2) by metis
          then show False using n p(1) by blast
        qed
        ultimately show ?thesis by blast
      qed
    next
      case False
      then show ?thesis using alike by simp
    qed
  qed
qed

text \<open>C19: A call is refused exactly when the newest recorded executions of the same call since the last possible change of state, as many
  as the threshold says, all failed and with the same result; a success or a different failure among them lets it run.\<close>

theorem refused_iff_failed_alike:
  assumes "0 < r" "th_refuse_failed th = int r"
  shows "refusal th name input (observe_all th digest es) \<noteq> None \<longleftrightarrow>
    (let outs = recent_outcomes (key_for name input) es in
      r \<le> length outs \<and> (\<exists>fp. \<forall>out \<in> set (take r outs). co_failed out \<and> fingerprint digest out = fp))"
proof -
  have "refusal th name input (observe_all th digest es) \<noteq> None \<longleftrightarrow>
      (\<exists>p. run_of digest (recent_outcomes (key_for name input) es) = Some p \<and> r \<le> fr_count p)"
    using assms by (auto simp: refusal_def Let_def observed_failures split: option.splits)
  then show ?thesis using run_long [OF assms(1)] by (simp add: Let_def failed_alike_def)
qed

definition failing :: tracker_event where
  "failing = Called ''ls'' V_null (Some \<lparr>co_failed = True, co_result = None\<rparr>)"

theorem refused_iff_failed_alike_witness:
  "refusal default_thresholds ''ls'' V_null (observe_all default_thresholds id [failing, failing, failing, failing]) \<noteq> None
    \<and> refusal default_thresholds ''ls'' V_null (observe_all default_thresholds id [failing, failing, State_changed, failing, failing]) = None"
proof -
  have t: "th_refuse_failed default_thresholds = int 4" by (simp add: default_thresholds_def)
  have a: "4 \<le> length (recent_outcomes (key_for ''ls'' V_null) [failing, failing, failing, failing])"
    "\<forall>out \<in> set (take 4 (recent_outcomes (key_for ''ls'' V_null) [failing, failing, failing, failing])).
      co_failed out \<and> fingerprint id out = fingerprint id \<lparr>co_failed = True, co_result = None\<rparr>"
    by (simp_all add: recent_outcomes_def failing_def)
  have b: "length (recent_outcomes (key_for ''ls'' V_null) [failing, failing, State_changed, failing, failing]) = 2"
    by (simp add: recent_outcomes_def failing_def)
  show ?thesis
    using refused_iff_failed_alike [OF _ t, of "''ls''" V_null id "[failing, failing, failing, failing]"]
      refused_iff_failed_alike [OF _ t, of "''ls''" V_null id "[failing, failing, State_changed, failing, failing]"] a b
    by (auto simp: Let_def)
qed

subsection \<open>Notices\<close>

definition times_called :: "string \<Rightarrow> tracker_event list \<Rightarrow> nat" where
  "times_called k es = length (filter (\<lambda>e. case e of Called name input _ \<Rightarrow> key_for name input = k | _ \<Rightarrow> False) es)"

definition announced_at :: "thresholds \<Rightarrow> nat \<Rightarrow> notice_level option" where
  "announced_at th n = (if th_escalate th \<le> int n then Some Escalated else if th_notify th \<le> int n then Some Mild else None)"

lemma announce_announced:
  assumes "tr_announced tr k = announced_at th n" "th_notify th < th_escalate th"
  shows "tr_announced (snd (announce th name k (n + 1) tr)) k' = (if k' = k then announced_at th (n + 1) else tr_announced tr k')"
  using assms by (auto simp: announce_def announced_at_def split: if_splits)

lemma record_call_announce:
  "record_call th digest name input out tr =
    announce th name (key_for name input) (count_of name input tr + 1)
      (case out of None \<Rightarrow> tr\<lparr>tr_counts := (tr_counts tr)(key_for name input \<mapsto> count_of name input tr + 1)\<rparr>
       | Some o1 \<Rightarrow> record_outcome digest name input o1
           (tr\<lparr>tr_counts := (tr_counts tr)(key_for name input \<mapsto> count_of name input tr + 1)\<rparr>))"
  unfolding record_call_def Let_def count_of_def ..

lemma observed_counts:
  assumes "1 \<le> th_notify th" "th_notify th < th_escalate th"
  shows "tr_counts (observe_all th digest es) k = (if times_called k es = 0 then None else Some (times_called k es))
    \<and> tr_announced (observe_all th digest es) k = announced_at th (times_called k es)"
proof (induction es arbitrary: k rule: rev_induct)
  case Nil
  then show ?case using assms by (simp add: observe_all_def new_tracker_def times_called_def announced_at_def)
next
  case (snoc e es)
  let ?t = "observe_all th digest es"
  have s: "observe_all th digest (es @ [e]) = observe th digest e ?t" by (simp add: observe_all_def)
  show ?case
  proof (cases e)
    case (Called name input out)
    let ?k = "key_for name input"
    have c: "count_of name input ?t = times_called ?k es" using snoc [of ?k] by (simp add: count_of_def)
    have n: "times_called k (es @ [e]) = (if k = ?k then times_called k es + 1 else times_called k es)"
      using Called by (auto simp: times_called_def)
    let ?u = "case out of None \<Rightarrow> ?t\<lparr>tr_counts := (tr_counts ?t)(?k \<mapsto> times_called ?k es + 1)\<rparr>
       | Some o1 \<Rightarrow> record_outcome digest name input o1 (?t\<lparr>tr_counts := (tr_counts ?t)(?k \<mapsto> times_called ?k es + 1)\<rparr>)"
    have u: "tr_announced ?u = tr_announced ?t" "tr_counts ?u = (tr_counts ?t)(?k \<mapsto> times_called ?k es + 1)"
      by (cases out; simp)+
    have r: "observe_all th digest (es @ [e]) = snd (announce th name ?k (times_called ?k es + 1) ?u)"
      unfolding s unfolding Called observe.simps record_call_announce c ..
    have a: "tr_announced ?u ?k = announced_at th (times_called ?k es)" using u(1) snoc [of ?k] by simp
    show ?thesis using announce_announced [OF a assms(2), of name k] snoc [of k] u n unfolding r by auto
  next
    case (Executed_as name input out)
    show ?thesis using snoc [of k] unfolding s unfolding Executed_as by (simp add: times_called_def)
  next
    case State_changed
    show ?thesis using snoc [of k] unfolding s unfolding State_changed by (simp add: times_called_def state_may_have_changed_def)
  qed
qed

text \<open>A recorded call brings a notice exactly when its count in the turn reaches a threshold: a mild one at the first, an escalated one
  at the second, and none at any other count, however the calls are mixed.\<close>

theorem notice_at_thresholds:
  assumes "1 \<le> th_notify th" "th_notify th < th_escalate th"
  shows "fst (record_call th digest name input out (observe_all th digest es)) =
    (let n = times_called (key_for name input) es + 1 in
      if int n = th_escalate th then Some \<lparr>nt_tool = name, nt_count = n, nt_level = Escalated\<rparr>
      else if int n = th_notify th then Some \<lparr>nt_tool = name, nt_count = n, nt_level = Mild\<rparr>
      else None)"
proof -
  let ?t = "observe_all th digest es" and ?k = "key_for name input"
  note o = observed_counts [OF assms, of digest es ?k]
  have c: "count_of name input ?t = times_called ?k es" using o by (simp add: count_of_def)
  have a: "tr_announced (case out of None \<Rightarrow> ?t\<lparr>tr_counts := (tr_counts ?t)(?k \<mapsto> times_called ?k es + 1)\<rparr>
       | Some o1 \<Rightarrow> record_outcome digest name input o1 (?t\<lparr>tr_counts := (tr_counts ?t)(?k \<mapsto> times_called ?k es + 1)\<rparr>)) ?k
      = announced_at th (times_called ?k es)" using o by (cases out) simp_all
  show ?thesis unfolding record_call_announce c Let_def announce_def a
    using assms by (auto simp: announced_at_def)
qed

theorem notice_at_thresholds_witness:
  "fst (record_call default_thresholds id ''ls'' V_null None (observe_all default_thresholds id [failing, failing]))
    = Some \<lparr>nt_tool = ''ls'', nt_count = 3, nt_level = Mild\<rparr>"
proof -
  have t: "1 \<le> th_notify default_thresholds" "th_notify default_thresholds < th_escalate default_thresholds"
    by (simp_all add: default_thresholds_def)
  have n: "times_called (key_for ''ls'' V_null) [failing, failing] = 2" by (simp add: times_called_def failing_def)
  show ?thesis using notice_at_thresholds [OF t, of id "''ls''" V_null None "[failing, failing]"]
    by (simp add: n Let_def default_thresholds_def)
qed

end
