(* ===== verification/CallBudget.thy ===== *)
theory CallBudget
  imports Prelude
begin

text \<open>
  The budget of tool calls of a turn (\<open>runtime/query/tool-call-budget.ts\<close>). What is admitted is first appended to the session log; a
  budget that starts over an existing log reads it back. Admissions wait for one another, so each runs alone; the signal of the turn may
  abort it at each of the points where it is asked, and the append may fail, with the record written or not.
  Then what it keeps across failures and restarts: what it grants is in the log before it is granted, and never more than the limit.
\<close>

datatype admission_kind = Initialize | Batch_calls | Nested_call | Retry_call

record admission =
  ad_kind :: admission_kind
  ad_count :: int
  ad_used :: int
  ad_limit :: int

text \<open>The records of the turn in the log, of which others than these say nothing about calls.\<close>

datatype turn_record = Calls_admitted admission | Tool_executing | Tool_completed | Other_record

datatype budget_error = Bad_limit | Too_many_records | Invalid_ledger | Unknown_usage | Aborted | Write_failed

definition max_records :: nat where
  "max_records = 100000"

definition assert_max_tool_calls :: "int \<Rightarrow> (budget_error, unit) Prelude.outcome" where
  "assert_max_tool_calls limit = require (safe_count limit) Bad_limit"

definition admission_ok :: "bool \<Rightarrow> int \<Rightarrow> admission \<Rightarrow> bool" where
  "admission_ok initialized used a \<longleftrightarrow>
    safe_count (ad_count a) \<and> \<bar>ad_used a\<bar> \<le> max_safe_integer \<and> ad_used a = used + ad_count a
    \<and> \<bar>ad_limit a\<bar> \<le> max_safe_integer \<and> ad_used a \<le> ad_limit a
    \<and> (if ad_kind a = Initialize then \<not> initialized \<and> ad_count a = 0 else initialized \<and> ad_count a \<noteq> 0)"

fun read_records :: "turn_record list \<Rightarrow> bool \<Rightarrow> int \<Rightarrow> (budget_error, bool \<times> int) Prelude.outcome" where
  "read_records [] initialized used = Inr (initialized, used)"
| "read_records (Calls_admitted a # rs) initialized used =
    (if admission_ok initialized used a then read_records rs True (ad_used a) else Inl Invalid_ledger)"
| "read_records (Tool_executing # rs) initialized used =
    (if initialized then read_records rs initialized used else Inl Unknown_usage)"
| "read_records (Tool_completed # rs) initialized used =
    (if initialized then read_records rs initialized used else Inl Unknown_usage)"
| "read_records (Other_record # rs) initialized used = read_records rs initialized used"

text \<open>Whether an append succeeds, and if it does not, whether the record is in the log.\<close>

datatype append_result = Appended | Lost_append | Kept_append

definition append_record :: "turn_record \<Rightarrow> append_result \<Rightarrow> turn_record list \<Rightarrow> turn_record list \<times> bool" where
  "append_record r how log = (case how of
      Appended \<Rightarrow> (log @ [r], True) | Lost_append \<Rightarrow> (log, False) | Kept_append \<Rightarrow> (log @ [r], False))"

text \<open>The budget object: \<open>bu_start\<close> is the settled promise of its initialization, \<open>bu_failed\<close> an append that failed.\<close>

record call_budget =
  bu_limit :: int
  bu_used :: int
  bu_start :: "(budget_error, unit) Prelude.outcome option"
  bu_failed :: bool

definition new_budget :: "int \<Rightarrow> (budget_error, call_budget) Prelude.outcome" where
  "new_budget limit = bindE (assert_max_tool_calls limit)
     (\<lambda>u. Inr \<lparr>bu_limit = limit, bu_used = 0, bu_start = None, bu_failed = False\<rparr>)"

text \<open>Used counts what was read so far, also when the reading fails; an object whose start failed admits nothing more.\<close>

fun used_so_far :: "turn_record list \<Rightarrow> bool \<Rightarrow> int \<Rightarrow> int" where
  "used_so_far [] initialized used = used"
| "used_so_far (Calls_admitted a # rs) initialized used =
    (if admission_ok initialized used a then used_so_far rs True (ad_used a) else used)"
| "used_so_far (Tool_executing # rs) initialized used = (if initialized then used_so_far rs initialized used else used)"
| "used_so_far (Tool_completed # rs) initialized used = (if initialized then used_so_far rs initialized used else used)"
| "used_so_far (Other_record # rs) initialized used = used_so_far rs initialized used"

definition initialize :: "append_result \<Rightarrow> turn_record list \<Rightarrow> call_budget \<Rightarrow> turn_record list \<times> call_budget" where
  "initialize how log bu =
    (if length log > max_records then (log, bu\<lparr>bu_start := Some (Inl Too_many_records)\<rparr>)
     else let bu1 = bu\<lparr>bu_used := used_so_far log False (bu_used bu)\<rparr> in
     (case read_records log False (bu_used bu) of
        Inl e \<Rightarrow> (log, bu1\<lparr>bu_start := Some (Inl e)\<rparr>)
      | Inr (initialized, used) \<Rightarrow>
          if initialized then (log, bu1\<lparr>bu_start := Some (Inr ())\<rparr>)
          else (let (log2, done_ok) = append_record
                     (Calls_admitted \<lparr>ad_kind = Initialize, ad_count = 0, ad_used = 0, ad_limit = bu_limit bu\<rparr>) how log
                in (log2, bu1\<lparr>bu_start := Some (if done_ok then Inr () else Inl Write_failed)\<rparr>))))"

datatype admitted = Granted | Exhausted int

text \<open>
  \<open>aborts\<close> says of the four points where the signal is asked whether it has aborted. The result is thrown or returned; \<open>Granted\<close> is the
  \<open>undefined\<close> on which the executor runs the calls.
\<close>

record abort_points =
  ab_first :: bool
  ab_turn :: bool
  ab_started :: bool
  ab_written :: bool

definition admit :: "int \<Rightarrow> admission_kind \<Rightarrow> abort_points \<Rightarrow> append_result \<Rightarrow> append_result \<Rightarrow> turn_record list \<Rightarrow> call_budget
    \<Rightarrow> (turn_record list \<times> call_budget) \<times> (budget_error, admitted) Prelude.outcome" where
  "admit count kind ab how_start how log bu =
    (if ab_first ab \<or> ab_turn ab then ((log, bu), Inl Aborted)
     else if bu_failed bu then ((log, bu), Inl Write_failed)
     else let (log1, bu1) = (if bu_start bu = None then initialize how_start log bu else (log, bu)) in
     (case the (bu_start bu1) of
        Inl e \<Rightarrow> ((log1, bu1), Inl e)
      | Inr _ \<Rightarrow>
         if ab_started ab then ((log1, bu1), Inl Aborted)
         else if count > max 0 (bu_limit bu1 - bu_used bu1) then ((log1, bu1), Inr (Exhausted (max 0 (bu_limit bu1 - bu_used bu1))))
         else if count = 0 then ((log1, bu1), Inr Granted)
         else (let used = bu_used bu1 + count;
                   (log2, written) = append_record
                     (Calls_admitted \<lparr>ad_kind = kind, ad_count = count, ad_used = used, ad_limit = bu_limit bu1\<rparr>) how log1
               in if \<not> written then ((log2, bu1\<lparr>bu_failed := True\<rparr>), Inl Write_failed)
                  else ((log2, bu1\<lparr>bu_used := used\<rparr>), if ab_written ab then Inl Aborted else Inr Granted))))"

lemma used_so_far_read: "read_records log i u = Inr (i', u') \<Longrightarrow> used_so_far log i u = u'"
  by (induction log i u rule: read_records.induct) (auto split: if_splits)

text \<open>Reading on from what was read\<close>

lemma read_append:
  "read_records (xs @ ys) i u = bindE (read_records xs i u) (\<lambda>p. read_records ys (fst p) (snd p))"
  by (induction xs i u rule: read_records.induct) auto

lemma read_nonneg: "read_records log i u = Inr (i', u') \<Longrightarrow> 0 \<le> u \<Longrightarrow> 0 \<le> u'"
  by (induction log i u rule: read_records.induct) (auto simp: admission_ok_def safe_count_def split: if_splits)

lemma read_mono: "read_records log i u = Inr (i', u') \<Longrightarrow> u \<le> u'"
  by (induction log i u rule: read_records.induct) (auto simp: admission_ok_def safe_count_def split: if_splits)

lemma read_initialized: "read_records log i u = Inr (i', u') \<Longrightarrow> i \<Longrightarrow> i'"
  by (induction log i u rule: read_records.induct) (auto split: if_splits)

text \<open>A run of the budget objects of one turn over its log, one process after another; the number is how many calls were granted.\<close>

inductive budget_run :: "turn_record list \<times> call_budget \<times> int \<Rightarrow> bool" where
  run_start: "new_budget limit = Inr bu \<Longrightarrow> budget_run (log, bu, 0)"
| run_restart: "budget_run (log, old, g) \<Longrightarrow> new_budget limit = Inr bu \<Longrightarrow> budget_run (log, bu, g)"
| run_record: "budget_run (log, bu, g) \<Longrightarrow> r \<in> {Tool_executing, Tool_completed, Other_record} \<Longrightarrow> budget_run (log @ [r], bu, g)"
| run_admit: "budget_run (log, bu, g) \<Longrightarrow> 0 \<le> count \<Longrightarrow> kind \<noteq> Initialize
    \<Longrightarrow> admit count kind ab how_start how log bu = ((log', bu'), r) \<Longrightarrow> budget_run (log', bu', if r = Inr Granted then g + count else g)"

text \<open>An object that has started knows what the log says; more than that was never granted.\<close>

definition budget_ok :: "turn_record list \<times> call_budget \<times> int \<Rightarrow> bool" where
  "budget_ok st \<longleftrightarrow> (case st of (log, bu, g) \<Rightarrow>
    safe_count (bu_limit bu) \<and> 0 \<le> g \<and> (bu_start bu = None \<longrightarrow> bu_used bu = 0 \<and> \<not> bu_failed bu)
    \<and> (0 < g \<longrightarrow> (\<exists>u. read_records log False 0 = Inr (True, u) \<and> g \<le> u))
    \<and> (bu_start bu = Some (Inr ()) \<and> \<not> bu_failed bu \<longrightarrow> read_records log False 0 = Inr (True, bu_used bu)))"

lemma record_reads:
  assumes "read_records log False 0 = Inr (True, u)" "r \<in> {Tool_executing, Tool_completed, Other_record}"
  shows "read_records (log @ [r]) False 0 = Inr (True, u)"
  using assms by (auto simp: read_append)

lemma safe_small: "0 \<le> n \<Longrightarrow> n \<le> m \<Longrightarrow> safe_count m \<Longrightarrow> \<bar>n\<bar> \<le> max_safe_integer"
  by (simp add: safe_count_def)

text \<open>What an admission appends can be read.\<close>

lemma admission_reads:
  assumes "read_records log False 0 = Inr (True, u)" "0 < count" "u + count \<le> limit" "safe_count limit" "kind \<noteq> Initialize"
  shows "read_records (log @ [Calls_admitted \<lparr>ad_kind = kind, ad_count = count, ad_used = u + count, ad_limit = limit\<rparr>]) False 0
    = Inr (True, u + count)"
proof -
  have u: "0 \<le> u" using read_nonneg [OF assms(1)] by simp
  have "safe_count count" using assms(2-4) u by (auto intro: safe_count_mono)
  then have "admission_ok True u \<lparr>ad_kind = kind, ad_count = count, ad_used = u + count, ad_limit = limit\<rparr>"
    using assms u safe_small [of "u + count" limit] safe_small [of limit limit] by (simp add: admission_ok_def safe_count_def)
  then show ?thesis using assms(1) by (simp add: read_append)
qed

lemma first_record_reads:
  assumes "read_records log False 0 = Inr (False, u)" "safe_count limit"
  shows "u = 0" "read_records (log @ [Calls_admitted \<lparr>ad_kind = Initialize, ad_count = 0, ad_used = 0, ad_limit = limit\<rparr>]) False 0 = Inr (True, 0)"
proof -
  have "read_records log i w = Inr (False, u) \<Longrightarrow> u = w" for i w
  proof (induction log i w rule: read_records.induct)
    case (2 a rs i w)
    then show ?case using read_initialized by (fastforce split: if_splits)
  qed (auto split: if_splits)
  then show u: "u = 0" using assms(1) by blast
  show "read_records (log @ [Calls_admitted \<lparr>ad_kind = Initialize, ad_count = 0, ad_used = 0, ad_limit = limit\<rparr>]) False 0 = Inr (True, 0)"
    using assms u by (simp add: read_append admission_ok_def safe_count_def max_safe_integer_def)
qed

lemma initialize_ok:
  assumes ok: "budget_ok (log, bu, g)" and none: "bu_start bu = None" and i: "initialize how log bu = (log', bu')"
  shows "budget_ok (log', bu', g)" "bu_limit bu' = bu_limit bu" "bu_failed bu' = bu_failed bu" "bu_start bu' \<noteq> None"
proof -
  have b: "safe_count (bu_limit bu)" "bu_used bu = 0" "0 \<le> g" "\<not> bu_failed bu"
    and g: "0 < g \<Longrightarrow> \<exists>u. read_records log False 0 = Inr (True, u) \<and> g \<le> u" using ok none by (auto simp: budget_ok_def)
  consider (many) "log' = log" "bu_start bu' = Some (Inl Too_many_records)" "bu_limit bu' = bu_limit bu" "bu_failed bu' = bu_failed bu"
    | (bad) e where "log' = log" "bu_start bu' = Some (Inl e)" "bu_limit bu' = bu_limit bu" "bu_failed bu' = bu_failed bu"
    | (old) u where "read_records log False 0 = Inr (True, u)" "log' = log" "bu' = bu\<lparr>bu_used := u, bu_start := Some (Inr ())\<rparr>"
    | (new) u done_ok where "read_records log False 0 = Inr (False, u)"
        "append_record (Calls_admitted \<lparr>ad_kind = Initialize, ad_count = 0, ad_used = 0, ad_limit = bu_limit bu\<rparr>) how log = (log', done_ok)"
        "bu' = bu\<lparr>bu_used := u, bu_start := Some (if done_ok then Inr () else Inl Write_failed)\<rparr>"
  proof (cases "length log > max_records")
    case True
    then show ?thesis using i many by (auto simp: initialize_def)
  next
    case False
    show ?thesis
    proof (cases "read_records log False 0")
      case (Inl e)
      then show ?thesis using i False b(2) bad by (auto simp: initialize_def Let_def)
    next
      case (Inr p)
      obtain x u where p: "p = (x, u)" by fastforce
      have r: "read_records log False 0 = Inr (x, u)" and u: "used_so_far log False 0 = u"
        using Inr p used_so_far_read [of log False 0 x u] by simp_all
      show ?thesis
      proof (cases x)
        case True
        have "(log, bu\<lparr>bu_used := u, bu_start := Some (Inr ())\<rparr>) = (log', bu')"
          using i False r u True by (simp add: initialize_def b(2))
        then have e: "log' = log" "bu' = bu\<lparr>bu_used := u, bu_start := Some (Inr ())\<rparr>" by blast+
        have "read_records log False 0 = Inr (True, u)" using r True by simp
        then show ?thesis by (rule old [OF _ e])
      next
        case x: False
        obtain log2 done_ok where a: "append_record (Calls_admitted \<lparr>ad_kind = Initialize, ad_count = 0, ad_used = 0,
            ad_limit = bu_limit bu\<rparr>) how log = (log2, done_ok)" by fastforce
        have "(log2, bu\<lparr>bu_used := u, bu_start := Some (if done_ok then Inr () else Inl Write_failed)\<rparr>) = (log', bu')"
          using i False r u x a by (simp add: initialize_def b(2))
        then have e: "log' = log2" "bu' = bu\<lparr>bu_used := u, bu_start := Some (if done_ok then Inr () else Inl Write_failed)\<rparr>" by blast+
        have "read_records log False 0 = Inr (False, u)" using r x by simp
        then show ?thesis by (rule new [OF _ a [folded e(1)] e(2)])
      qed
    qed
  qed
  then have "budget_ok (log', bu', g) \<and> bu_limit bu' = bu_limit bu \<and> bu_failed bu' = bu_failed bu \<and> bu_start bu' \<noteq> None"
  proof cases
    case many
    then show ?thesis using b g by (auto simp: budget_ok_def)
  next
    case bad
    then show ?thesis using b g by (auto simp: budget_ok_def)
  next
    case old
    then show ?thesis using b g by (auto simp: budget_ok_def)
  next
    case new
    have "g = 0" using g new(1) b(3) by force
    then show ?thesis using new(2,3) b first_record_reads [OF new(1) b(1)]
      by (cases how) (auto simp: budget_ok_def append_record_def)
  qed
  then show "budget_ok (log', bu', g)" "bu_limit bu' = bu_limit bu" "bu_failed bu' = bu_failed bu" "bu_start bu' \<noteq> None" by blast+
qed

text \<open>The ways an admission ends\<close>

lemma admit_cases:
  assumes ok: "budget_ok (log, bu, g)" and a: "admit count kind ab how_start how log bu = ((log', bu'), r)"
  obtains (early) "r \<noteq> Inr Granted \<or> count = 0" "budget_ok (log', bu', g)" "bu_limit bu' = bu_limit bu"
  | (written) log1 bu1 ok1 where "budget_ok (log1, bu1, g)" "bu_start bu1 = Some (Inr ())" "\<not> bu_failed bu1" "bu_limit bu1 = bu_limit bu"
      "count \<le> max 0 (bu_limit bu1 - bu_used bu1)" "count \<noteq> 0"
      "append_record (Calls_admitted \<lparr>ad_kind = kind, ad_count = count, ad_used = bu_used bu1 + count, ad_limit = bu_limit bu1\<rparr>) how log1 = (log', ok1)"
      "bu' = (if ok1 then bu1\<lparr>bu_used := bu_used bu1 + count\<rparr> else bu1\<lparr>bu_failed := True\<rparr>)" "r = Inr Granted \<Longrightarrow> ok1"
proof (cases "ab_first ab \<or> ab_turn ab \<or> bu_failed bu")
  case True
  then show ?thesis using a ok early by (auto simp: admit_def split: if_splits)
next
  case False
  obtain log1 bu1 where s: "(if bu_start bu = None then initialize how_start log bu else (log, bu)) = (log1, bu1)" by fastforce
  have one: "budget_ok (log1, bu1, g)" "bu_limit bu1 = bu_limit bu" "\<not> bu_failed bu1" "bu_start bu1 \<noteq> None"
    using s ok initialize_ok [OF ok] False by (auto split: if_splits)
  show ?thesis
  proof (cases "the (bu_start bu1)")
    case (Inl e)
    have "((log1, bu1), Inl e) = ((log', bu'), r)" using a False s Inl by (simp add: admit_def)
    then show ?thesis using one early by auto
  next
    case (Inr u)
    then have st: "bu_start bu1 = Some (Inr ())" using one(4) by auto
    show ?thesis
    proof (cases "ab_started ab \<or> count > max 0 (bu_limit bu1 - bu_used bu1) \<or> count = 0")
      case True
      then show ?thesis using a False s one early st by (auto simp: admit_def Let_def split: if_splits)
    next
      case w: False
      obtain log2 ok1 where p: "append_record (Calls_admitted \<lparr>ad_kind = kind, ad_count = count, ad_used = bu_used bu1 + count,
          ad_limit = bu_limit bu1\<rparr>) how log1 = (log2, ok1)" by fastforce
      have e: "log' = log2" "bu' = (if ok1 then bu1\<lparr>bu_used := bu_used bu1 + count\<rparr> else bu1\<lparr>bu_failed := True\<rparr>)"
        "r = Inr Granted \<Longrightarrow> ok1"
        using a False s st w p by (auto simp: admit_def Let_def split: if_splits)
      show ?thesis by (rule written [OF one(1) st one(3,2) _ _ p [folded e(1)] e(2,3)]) (use w in auto)
    qed
  qed
qed

lemma admit_ok:
  assumes ok: "budget_ok (log, bu, g)" and c: "0 \<le> count" "kind \<noteq> Initialize" and a: "admit count kind ab how_start how log bu = ((log', bu'), r)"
  shows "budget_ok (log', bu', if r = Inr Granted then g + count else g)"
    "r = Inr Granted \<Longrightarrow> 0 < count \<Longrightarrow> g + count \<le> bu_limit bu"
    "r = Inr Granted \<Longrightarrow> 0 < count \<Longrightarrow> \<exists>u. read_records log' False 0 = Inr (True, u) \<and> g + count \<le> u"
proof -
  have "budget_ok (log', bu', if r = Inr Granted then g + count else g)
    \<and> (r = Inr Granted \<and> 0 < count \<longrightarrow> g + count \<le> bu_limit bu \<and> (\<exists>u. read_records log' False 0 = Inr (True, u) \<and> g + count \<le> u))"
    using ok a
  proof (cases rule: admit_cases)
    case early
    then show ?thesis using c by auto
  next
    case (written log1 bu1 ok1)
    have read: "read_records log1 False 0 = Inr (True, bu_used bu1)" and l: "safe_count (bu_limit bu1)" and g: "0 \<le> g" "0 < g \<Longrightarrow> g \<le> bu_used bu1"
      using written(1-3) by (auto simp: budget_ok_def)
    have u: "0 \<le> bu_used bu1" using read_nonneg [OF read] by simp
    have fits: "0 < count" "bu_used bu1 + count \<le> bu_limit bu1" using written(5,6) c(1) by auto
    note reads = admission_reads [OF read fits l c(2)]
    have "g \<le> bu_used bu1" using g u by force
    then show ?thesis using written(2,4,7,8,9) reads read l g fits
      by (cases how) (auto simp: budget_ok_def append_record_def)
  qed
  then show "budget_ok (log', bu', if r = Inr Granted then g + count else g)"
    "r = Inr Granted \<Longrightarrow> 0 < count \<Longrightarrow> g + count \<le> bu_limit bu"
    "r = Inr Granted \<Longrightarrow> 0 < count \<Longrightarrow> \<exists>u. read_records log' False 0 = Inr (True, u) \<and> g + count \<le> u" by blast+
qed

lemma new_budget_ok: "new_budget limit = Inr bu \<Longrightarrow> bu = \<lparr>bu_limit = limit, bu_used = 0, bu_start = None, bu_failed = False\<rparr> \<and> safe_count limit"
  by (auto simp: new_budget_def assert_max_tool_calls_def split: if_splits)

lemma run_budget_ok: "budget_run st \<Longrightarrow> budget_ok st"
proof (induction rule: budget_run.induct)
  case (run_start limit bu log)
  then show ?case using new_budget_ok [OF run_start] by (auto simp: budget_ok_def)
next
  case (run_restart log old g limit bu)
  then show ?case using new_budget_ok [OF run_restart(2)] by (auto simp: budget_ok_def)
next
  case (run_record log bu g r)
  then show ?case using record_reads [of log _ r] by (auto simp: budget_ok_def)
next
  case (run_admit log bu g count kind ab how_start how log' bu' r)
  then show ?case using admit_ok(1) by blast
qed

text \<open>C18: Over all the processes that ever run a turn, and whatever appends fail, are lost or abort, the calls a budget grants, with
  those granted before, never exceed its limit, and when it grants some the log already accounts for all of them, so that a restart cannot
  grant them again.\<close>

theorem granted_calls_within_limit:
  assumes "budget_run (log, bu, granted)" "0 < count" "kind \<noteq> Initialize"
    and "admit count kind ab how_start how log bu = ((log', bu'), Inr Granted)"
  shows "granted + count \<le> bu_limit bu \<and> (\<exists>used. read_records log' False 0 = Inr (True, used) \<and> granted + count \<le> used)"
  using admit_ok(2,3) [OF run_budget_ok [OF assms(1)] _ assms(3,4)] assms(2) by simp

definition two_calls :: call_budget where
  "two_calls = \<lparr>bu_limit = 2, bu_used = 0, bu_start = None, bu_failed = False\<rparr>"

definition no_aborts :: abort_points where
  "no_aborts = \<lparr>ab_first = False, ab_turn = False, ab_started = False, ab_written = False\<rparr>"

definition log_of_two :: "turn_record list" where
  "log_of_two = [Calls_admitted \<lparr>ad_kind = Initialize, ad_count = 0, ad_used = 0, ad_limit = 2\<rparr>,
    Calls_admitted \<lparr>ad_kind = Batch_calls, ad_count = 2, ad_used = 2, ad_limit = 2\<rparr>]"

theorem granted_calls_within_limit_witness:
  "\<exists>bu'. admit 2 Batch_calls no_aborts Appended Appended [] two_calls = ((log_of_two, bu'), Inr Granted)
    \<and> (\<exists>used. read_records log_of_two False 0 = Inr (True, used) \<and> 2 \<le> used)"
proof -
  have "new_budget 2 = Inr two_calls" by (simp add: new_budget_def assert_max_tool_calls_def safe_count_def max_safe_integer_def two_calls_def)
  then have r: "budget_run ([], two_calls, 0)" by (rule run_start)
  obtain bu' where a: "admit 2 Batch_calls no_aborts Appended Appended [] two_calls = ((log_of_two, bu'), Inr Granted)"
    by (simp add: admit_def initialize_def append_record_def no_aborts_def two_calls_def log_of_two_def max_records_def Let_def)
  show ?thesis using granted_calls_within_limit [OF r _ _ a] a by auto
qed

end
