(* ===== verification/CommandLine.thy ===== *)
theory CommandLine
  imports ToolCall
begin

text \<open>
  The commands of a command line as the permission rules read them
  (\<open>authorization/command-line.ts\<close>). The lexer they view (\<open>shell-lexer.ts\<close>) is an argument:
  every statement holds whatever it reads from a line.
\<close>

subsection \<open>What the lexer hands over\<close>

record shell_word =
  sw_text :: string
  sw_value :: string
  sw_expands :: bool

record shell_redirection =
  sr_operator :: string
  sr_target :: shell_word

datatype origin = In_line | In_substitution | In_shell

record shell_command =
  sc_words :: "shell_word list"
  sc_assignments :: nat
  sc_text :: string
  sc_origin :: origin

record lex_result =
  lx_commands :: "shell_command list"
  lx_redirections :: "shell_redirection list"
  lx_opaque :: bool
  lx_complete :: bool
  lx_reasons :: "string list"

type_synonym lexer = "string \<Rightarrow> dialect \<Rightarrow> lex_result"

subsection \<open>Views of the lexer's result\<close>

text \<open>The text after the last slash.\<close>

definition basename :: "string \<Rightarrow> string" where
  "basename s = rev (takeWhile (\<lambda>c. c \<noteq> CHR ''/'') (rev s))"

definition runtime_evaluators :: "string list" where
  "runtime_evaluators = [''eval'', ''source'', ''.'']"

definition max_segments :: nat where
  "max_segments = 64"

text \<open>The command name, when there is one, starts code assembled at run time.\<close>

definition evaluates_at_runtime :: "shell_command \<Rightarrow> bool" where
  "evaluates_at_runtime c \<longleftrightarrow>
    sc_assignments c < length (sc_words c) \<and>
    (let head = sc_words c ! sc_assignments c in
     \<not> sw_expands head \<and> basename (sw_value head) \<in> set runtime_evaluators)"

record decomposition =
  dc_segments :: "string list"
  dc_opaque :: bool

definition decompose_command_line :: "lexer \<Rightarrow> string \<Rightarrow> dialect \<Rightarrow> decomposition" where
  "decompose_command_line rd command dialect =
    (let lexed = rd command dialect; cs = lx_commands lexed;
         is_opaque = (lx_opaque lexed \<or> list_ex evaluates_at_runtime cs)
     in if \<not> lx_complete lexed \<or> cs = [] then \<lparr>dc_segments = [command], dc_opaque = is_opaque\<rparr>
        else if length cs = 1 \<and> sc_origin (hd cs) = In_line \<and> sc_text (hd cs) = trim command
          then \<lparr>dc_segments = [command], dc_opaque = is_opaque\<rparr>
        else let segments = map sc_text cs in
          if length segments > max_segments then \<lparr>dc_segments = take max_segments segments, dc_opaque = True\<rparr>
          else \<lparr>dc_segments = segments, dc_opaque = is_opaque\<rparr>)"

definition decoded_command :: "shell_command \<Rightarrow> string list" where
  "decoded_command c =
    (let words = sc_words c; values = map sw_value words in
     if words = [] then []
     else join_with '' '' values
       # (if 0 < sc_assignments c \<and> sc_assignments c < length words
          then [join_with '' '' (drop (sc_assignments c) values)] else []))"

definition decoded_commands :: "lexer \<Rightarrow> string \<Rightarrow> dialect \<Rightarrow> string list" where
  "decoded_commands rd command dialect = concat (map decoded_command (lx_commands (rd command dialect)))"

subsection \<open>Redirections that write\<close>

text \<open>\<open>/^(?:\d+-?|-)$/\<close>\<close>

definition descriptor_text :: "string \<Rightarrow> bool" where
  "descriptor_text s \<longleftrightarrow> s = ''-'' \<or>
    (let ds = takeWhile is_digit s in ds \<noteq> [] \<and> drop (length ds) s \<in> {[], ''-''})"

definition redirection_writes :: "shell_redirection \<Rightarrow> bool" where
  "redirection_writes r =
    (let operator = sr_operator r; target = sr_target r in
     if operator \<in> {''<'', ''<&'', ''<<'', ''<<-'', ''<<<''} then False
     else if operator = ''>&'' then
       (if \<not> sw_expands target \<and> descriptor_text (sw_value target) then False
        else sw_expands target \<or> sw_value target \<noteq> ''/dev/null'')
     else sw_expands target \<or> sw_value target \<noteq> ''/dev/null'')"

definition writes_through_redirection :: "lexer \<Rightarrow> string \<Rightarrow> dialect \<Rightarrow> bool" where
  "writes_through_redirection rd command dialect =
    (let lexed = rd command dialect in
     if \<not> lx_complete lexed then True
     else if ''process substitution'' \<in> set (lx_reasons lexed) then True
     else list_ex redirection_writes (lx_redirections lexed))"

text \<open>A line that is not opaque is made of its segments: each is the line itself or one command of it, in order.\<close>

lemma decompose_opaque:
  "\<not> dc_opaque (decompose_command_line rd s d) \<Longrightarrow> \<not> lx_opaque (rd s d) \<and> \<not> list_ex evaluates_at_runtime (lx_commands (rd s d))"
  by (auto simp: decompose_command_line_def Let_def split: if_splits)

lemma decompose_not_Nil: "dc_segments (decompose_command_line rd s d) \<noteq> []"
  by (auto simp: decompose_command_line_def Let_def max_segments_def split: if_splits)

lemma decompose_covers:
  assumes "\<not> dc_opaque (decompose_command_line rd s d)" "c \<in> set (lx_commands (rd s d))" "lx_complete (rd s d)"
  shows "sc_text c \<in> set (dc_segments (decompose_command_line rd s d))
    \<or> (dc_segments (decompose_command_line rd s d) = [s] \<and> lx_commands (rd s d) = [c] \<and> sc_text c = trim s)"
  using assms by (auto simp: decompose_command_line_def Let_def length_Suc_conv split: if_splits)

end
