(* ===== verification/AuthRule.thy ===== *)
theory AuthRule
  imports CommandLine
begin

text \<open>
  The rules of the authorization gate and what one rule says of one call
  (\<open>authorization/rules.ts\<close>, \<open>types/authorization\<close>, \<open>toolsets/source-glob.ts\<close>).
  \<open>RegExp\<close> is an argument: a compiler from a pattern's source to the test it makes, which fails
  on a pattern that is no regular expression. The patterns have no flags, so a test keeps
  no state.
\<close>

type_synonym pattern = "string \<Rightarrow> bool"
type_synonym regexp = "string \<Rightarrow> pattern option"

datatype gate_decision = Allow | Deny | Review

datatype pattern_target = On_name | On_args | On_both

record predicate_call =
  pr_tool_name :: string
  pr_tool_input :: "value"
  pr_tool_def :: "tool_def option"
  pr_dialect :: dialect

text \<open>A predicate decides, passes, or throws; its description of a call may throw too.\<close>

datatype 'a answer = Threw | Answered 'a

datatype rule =
    Allow_read_only "string list option"
  | Deny_dangerous_patterns
  | Allow_by_category "string list"
  | Allow_by_name "string list"
  | Deny_by_name "string list"
  | By_source "string list" gate_decision
  | Custom_pattern string pattern_target gate_decision
  | Argument_pattern "string list" string string gate_decision
  | Allow_by_tier "string list"
  | Predicate string "predicate_call \<Rightarrow> gate_decision option answer"
      "(predicate_call \<Rightarrow> string option answer) option"

subsection \<open>Source ids\<close>

text \<open>
  \<open>new RegExp('^' + pieces.join('.*') + '$')\<close> over the pieces between the stars, each escaped:
  a run between two pieces is any text without a line end.
\<close>

definition line_end :: "char \<Rightarrow> bool" where
  "line_end c \<longleftrightarrow> char_code c = 10 \<or> char_code c = 13"

fun matches_pieces :: "string list \<Rightarrow> string \<Rightarrow> bool" where
  "matches_pieces [] s = (s = [])"
| "matches_pieces [p] s = (s = p)"
| "matches_pieces (p # q # ps) s =
    (starts_with p s \<and>
     (let r = drop (length p) s in
      list_ex (\<lambda>n. list_all (\<lambda>c. \<not> line_end c) (take n r) \<and> matches_pieces (q # ps) (drop n r))
        [0..<Suc (length r)]))"

definition matches_source_id_glob :: "string \<Rightarrow> string \<Rightarrow> bool" where
  "matches_source_id_glob sid glob =
    (if CHR ''*'' \<notin> set glob then sid = glob else matches_pieces (split_on (CHR ''*'') glob) sid)"

subsection \<open>Dangerous patterns\<close>

text \<open>The sources of \<open>DANGEROUS_PATTERNS\<close>; a backslash is written out as a character.\<close>

definition bsl :: string where "bsl = [CHR 0x5C]"

definition gap :: string where "gap = ''[ '' @ bsl @ ''t]{0,8}''"

definition fork_bomb :: string where
  "fork_bomb = ''(['' @ bsl @ ''w.]{1,32}|:)'' @ gap @ bsl @ ''('' @ gap @ bsl @ '')'' @ gap @ bsl @ ''{'' @ gap @ bsl @ ''1''
    @ gap @ bsl @ ''|'' @ gap @ bsl @ ''1'' @ gap @ ''&'' @ gap @ '';?'' @ gap @ bsl @ ''}'' @ gap @ '';?'' @ gap @ bsl @ ''1''"

definition shell_pipe :: "string \<Rightarrow> string" where
  "shell_pipe fetch = bsl @ ''b'' @ fetch @ bsl @ ''b[^|]*'' @ bsl @ ''|'' @ bsl @ ''s*(?:sh|bash|zsh)'' @ bsl @ ''b''"

definition dangerous_patterns :: "string list" where
  "dangerous_patterns =
    [''rm'' @ bsl @ ''s+-rf'' @ bsl @ ''s+'' @ bsl @ ''/'', ''mkfs'', ''dd'' @ bsl @ ''s+if='', fork_bomb,
     bsl @ ''bsudo'' @ bsl @ ''b'', bsl @ ''bsu'' @ bsl @ ''s+-'',
     ''chmod'' @ bsl @ ''s+(?:-R'' @ bsl @ ''s+)?777'' @ bsl @ ''s+'' @ bsl @ ''/'',
     shell_pipe ''curl'', shell_pipe ''wget'', bsl @ ''bssh'' @ bsl @ ''s+'' @ bsl @ ''S+@'',
     bsl @ ''beval'' @ bsl @ ''s+['' @ [CHR 0x22, CHR 0x27, CHR 0x60] @ ''$]'']"

definition test_source :: "regexp \<Rightarrow> string \<Rightarrow> string \<Rightarrow> bool" where
  "test_source re source text = (case re source of Some test \<Rightarrow> test text | None \<Rightarrow> False)"

text \<open>\<open>JSON.stringify(toolInput)\<close> as the subject of a test, which reads \<open>undefined\<close> as that word.\<close>

definition args_text :: "value \<Rightarrow> string" where
  "args_text input = (case json_text input of Some t \<Rightarrow> t | None \<Rightarrow> ''undefined'')"

text \<open>The text a call executes, and nothing that merely talks about it.\<close>

definition executed_text :: "tool_def option \<Rightarrow> value \<Rightarrow> string option" where
  "executed_text tool input =
    (let whole = Some (case json_text input of Some t \<Rightarrow> t | None \<Rightarrow> []) in
     case tool of
       None \<Rightarrow> whole
     | Some d \<Rightarrow>
        (case td_command_argument d of
           Some argument \<Rightarrow>
             (case property input argument of
                V_undefined \<Rightarrow> None
              | V_null \<Rightarrow> None
              | V_string s \<Rightarrow> Some s
              | v \<Rightarrow> Some (case json_text v of Some t \<Rightarrow> t | None \<Rightarrow> []))
         | None \<Rightarrow> if td_category d = Some ''shell'' then whole else None))"

subsection \<open>One rule\<close>

record rule_options =
  ro_dialect :: "dialect option"
  ro_source :: "tool_source option"

definition captures_screen :: "tool_def option \<Rightarrow> value \<Rightarrow> bool" where
  "captures_screen tool input =
    (case Option.bind tool td_captures_screen of
       None \<Rightarrow> False
     | Some f \<Rightarrow> (case f input of Some b \<Rightarrow> b | None \<Rightarrow> True))"

text \<open>The subject of an argument pattern: a value a pattern can say something true about.\<close>

definition argument_subject :: "value \<Rightarrow> string \<Rightarrow> string option" where
  "argument_subject input argument =
    (case input of
       V_object _ \<Rightarrow> (case property input argument of
           V_string s \<Rightarrow> Some s
         | V_number s \<Rightarrow> Some s
         | V_bool b \<Rightarrow> Some (if b then ''true'' else ''false'')
         | _ \<Rightarrow> None)
     | _ \<Rightarrow> None)"

definition declared_path :: "tool_def option \<Rightarrow> value \<Rightarrow> string \<Rightarrow> bool" where
  "declared_path tool input argument \<longleftrightarrow>
    (case property input argument of V_string _ \<Rightarrow> True | _ \<Rightarrow> False)
    \<and> (case tool of None \<Rightarrow> False
       | Some d \<Rightarrow> td_path_argument d = Some argument \<and> td_command_argument d \<noteq> Some argument)"

text \<open>An argument pattern over a subject that is no declared path.\<close>

definition pattern_verdict :: "lexer \<Rightarrow> pattern \<Rightarrow> gate_decision \<Rightarrow> bool \<Rightarrow> dialect \<Rightarrow> string \<Rightarrow> gate_decision option" where
  "pattern_verdict rd test decision is_url dialect subject =
    (let dc = (if is_url then \<lparr>dc_segments = [subject], dc_opaque = False\<rparr>
               else decompose_command_line rd subject dialect)
     in if decision \<noteq> Allow then
          (if test subject then Some decision
           else if list_ex test (dc_segments dc) then Some decision
           else if is_url then None
           else if list_ex test (decoded_commands rd subject dialect) then Some decision else None)
        else if dc_opaque dc then None
        else if list_all test (dc_segments dc) then Some Allow else None)"

definition argument_pattern_verdict :: "lexer \<Rightarrow> string \<Rightarrow> gate_decision \<Rightarrow> string \<Rightarrow> value \<Rightarrow> tool_def option
    \<Rightarrow> pattern option \<Rightarrow> string list option \<Rightarrow> dialect \<Rightarrow> gate_decision option" where
  "argument_pattern_verdict rd argument decision name input tool compiled names dialect =
    (case compiled of
       None \<Rightarrow> None
     | Some test \<Rightarrow>
        if \<not> (case names of Some ns \<Rightarrow> name \<in> set ns | None \<Rightarrow> False) then None
        else (case argument_subject input argument of
           None \<Rightarrow> None
         | Some subject \<Rightarrow>
             if declared_path tool input argument then (if test subject then Some decision else None)
             else pattern_verdict rd test decision
               (Option.bind tool td_url_argument = Some argument) dialect subject))"

text \<open>\<open>Threw\<close> is an exception out of the tool's own \<open>isReadOnly\<close>; nothing else of a rule throws.\<close>

definition evaluate_rule :: "regexp \<Rightarrow> lexer \<Rightarrow> rule \<Rightarrow> string \<Rightarrow> value \<Rightarrow> tool_def option \<Rightarrow> pattern option
    \<Rightarrow> string list option \<Rightarrow> rule_options \<Rightarrow> gate_decision option answer" where
  "evaluate_rule re rd rule name input tool compiled names opts =
    (let dialect = (case ro_dialect opts of Some d \<Rightarrow> d | None \<Rightarrow> Sh);
         named = (case names of Some ns \<Rightarrow> name \<in> set ns | None \<Rightarrow> False)
     in case rule of
       Allow_read_only excluded \<Rightarrow>
         (case is_trusted_read_only tool input (ro_source opts) of
            None \<Rightarrow> Threw
          | Some False \<Rightarrow> Answered None
          | Some True \<Rightarrow> Answered
              (case Option.bind tool td_category of
                 Some c \<Rightarrow> if c \<noteq> [] \<and> (case excluded of Some cs \<Rightarrow> c \<in> set cs | None \<Rightarrow> False) then None
                           else if captures_screen tool input then None else Some Allow
               | None \<Rightarrow> if captures_screen tool input then None else Some Allow))
     | Deny_dangerous_patterns \<Rightarrow> Answered (case executed_text tool input of
           None \<Rightarrow> None
         | Some executed \<Rightarrow> if list_ex (\<lambda>p. test_source re p executed) dangerous_patterns then Some Deny else None)
     | Allow_by_category cs \<Rightarrow> Answered (case Option.bind tool td_category of
           Some c \<Rightarrow> if c \<noteq> [] \<and> c \<in> set cs then Some Allow else None
         | None \<Rightarrow> None)
     | Allow_by_name _ \<Rightarrow> Answered (if named then Some Allow else None)
     | Deny_by_name _ \<Rightarrow> Answered (if named then Some Deny else None)
     | By_source ids decision \<Rightarrow> Answered (case ro_source opts of
           Some s \<Rightarrow> if list_ex (matches_source_id_glob (ts_id s)) ids then Some decision else None
         | None \<Rightarrow> None)
     | Custom_pattern _ target decision \<Rightarrow> Answered (case compiled of
           None \<Rightarrow> None
         | Some test \<Rightarrow>
             if test (case target of On_name \<Rightarrow> name | On_args \<Rightarrow> args_text input | On_both \<Rightarrow> name @ '' '' @ args_text input)
             then Some decision else None)
     | Argument_pattern _ argument _ decision \<Rightarrow>
         Answered (argument_pattern_verdict rd argument decision name input tool compiled names dialect)
     | Allow_by_tier ts \<Rightarrow> Answered (case Option.bind tool td_tier of
           Some t \<Rightarrow> if t \<noteq> [] \<and> t \<in> set ts then Some Allow else None
         | None \<Rightarrow> None)
     | Predicate _ decide _ \<Rightarrow>
         (case decide \<lparr>pr_tool_name = name, pr_tool_input = input, pr_tool_def = tool, pr_dialect = dialect\<rparr> of
            Threw \<Rightarrow> Answered (Some Deny)
          | Answered d \<Rightarrow> Answered d))"

end
