(* ===== verification/AuthGate.thy ===== *)
theory AuthGate
  imports AuthRule
begin

text \<open>
  The authorization gate (\<open>authorization/gate.ts\<close>): the list of rules a configuration stands
  for, the patterns and name sets compiled for it by position, and the evaluation of a call, in
  which the first rule with a decision decides. The wording of a reason is left out, except that of a
  predicate, which is computed.
\<close>

record gate_config =
  gc_enabled :: bool
  gc_rules :: "rule list"
  gc_allow_read_only :: bool
  gc_exclude_categories :: "string list option"
  gc_deny_dangerous :: bool

definition max_custom_pattern_length :: nat where
  "max_custom_pattern_length = 500"

text \<open>What the schema of a configuration requires of a rule.\<close>

definition rule_schema :: "rule \<Rightarrow> bool" where
  "rule_schema r = (case r of
      By_source ids _ \<Rightarrow> ids \<noteq> [] \<and> [] \<notin> set ids
    | Custom_pattern p _ _ \<Rightarrow> length p \<le> max_custom_pattern_length
    | Argument_pattern names argument p _ \<Rightarrow>
        names \<noteq> [] \<and> argument \<noteq> [] \<and> length p \<le> max_custom_pattern_length
    | Predicate description _ _ \<Rightarrow> description \<noteq> []
    | _ \<Rightarrow> True)"

text \<open>The floor first, the operator's rules, the default for read-only tools last.\<close>

definition expanded_rules :: "gate_config \<Rightarrow> rule list" where
  "expanded_rules cfg =
    (if gc_deny_dangerous cfg then [Deny_dangerous_patterns] else []) @ gc_rules cfg
    @ (if gc_allow_read_only cfg then [Allow_read_only (gc_exclude_categories cfg)] else [])"

type_synonym rule_index = "(nat \<rightharpoonup> pattern) \<times> (nat \<rightharpoonup> string list)"

text \<open>What the constructor records for the rule at a position.\<close>

definition index_rule :: "regexp \<Rightarrow> nat \<Rightarrow> rule \<Rightarrow> rule_index \<Rightarrow> rule_index" where
  "index_rule re i r idx =
    (let (compiled, names) = idx in
     case r of
       Custom_pattern p _ _ \<Rightarrow>
         if length p > max_custom_pattern_length then idx
         else (case re p of Some test \<Rightarrow> (compiled(i \<mapsto> test), names) | None \<Rightarrow> idx)
     | Argument_pattern ns _ p _ \<Rightarrow>
         if length p > max_custom_pattern_length then idx
         else (case re p of Some test \<Rightarrow> (compiled(i \<mapsto> test), names(i \<mapsto> ns)) | None \<Rightarrow> idx)
     | Allow_by_name ns \<Rightarrow> (compiled, names(i \<mapsto> ns))
     | Deny_by_name ns \<Rightarrow> (compiled, names(i \<mapsto> ns))
     | _ \<Rightarrow> idx)"

fun index_rules :: "regexp \<Rightarrow> nat \<Rightarrow> rule list \<Rightarrow> rule_index \<Rightarrow> rule_index" where
  "index_rules re i [] idx = idx"
| "index_rules re i (r # rs) idx = index_rules re (Suc i) rs (index_rule re i r idx)"

record gate =
  ga_rules :: "rule list"
  ga_compiled :: "nat \<rightharpoonup> pattern"
  ga_names :: "nat \<rightharpoonup> string list"
  ga_enabled :: bool

text \<open>\<open>None\<close> is the exception of a configuration the schema refuses.\<close>

definition new_gate :: "regexp \<Rightarrow> gate_config \<Rightarrow> gate option" where
  "new_gate re cfg =
    (if \<not> list_all rule_schema (gc_rules cfg) then None
     else let rules = expanded_rules cfg; (compiled, names) = index_rules re 0 rules (Map.empty, Map.empty)
       in Some \<lparr>ga_rules = rules, ga_compiled = compiled, ga_names = names, ga_enabled = gc_enabled cfg\<rparr>)"

record call_context =
  cc_tool_name :: string
  cc_tool_input :: "value"
  cc_tool_def :: "tool_def option"
  cc_dialect :: "dialect option"
  cc_source :: "tool_source option"

datatype gate_reason = Gate_disabled | No_matching_rule | Rule_reason rule | Predicate_reason string

record gate_result =
  gr_decision :: gate_decision
  gr_rule :: "rule option"
  gr_reason :: gate_reason

definition predicate_call_of :: "call_context \<Rightarrow> predicate_call" where
  "predicate_call_of ctx = \<lparr>pr_tool_name = cc_tool_name ctx, pr_tool_input = cc_tool_input ctx,
    pr_tool_def = cc_tool_def ctx, pr_dialect = (case cc_dialect ctx of Some d \<Rightarrow> d | None \<Rightarrow> Sh)\<rparr>"

definition describe_rule :: "rule \<Rightarrow> call_context \<Rightarrow> gate_reason" where
  "describe_rule r ctx = (case r of
      Predicate description _ describe \<Rightarrow> Predicate_reason
        (case describe of
           None \<Rightarrow> description
         | Some f \<Rightarrow> (case f (predicate_call_of ctx) of
              Answered (Some s) \<Rightarrow> if s = [] then description else s
            | _ \<Rightarrow> description))
    | _ \<Rightarrow> Rule_reason r)"

fun evaluate_from :: "regexp \<Rightarrow> lexer \<Rightarrow> gate \<Rightarrow> call_context \<Rightarrow> nat \<Rightarrow> rule list \<Rightarrow> gate_result answer" where
  "evaluate_from re rd G ctx i [] =
    Answered \<lparr>gr_decision = Review, gr_rule = None, gr_reason = No_matching_rule\<rparr>"
| "evaluate_from re rd G ctx i (r # rs) =
    (case evaluate_rule re rd r (cc_tool_name ctx) (cc_tool_input ctx) (cc_tool_def ctx)
        (ga_compiled G i) (ga_names G i) \<lparr>ro_dialect = cc_dialect ctx, ro_source = cc_source ctx\<rparr> of
       Threw \<Rightarrow> Threw
     | Answered None \<Rightarrow> evaluate_from re rd G ctx (Suc i) rs
     | Answered (Some d) \<Rightarrow> Answered \<lparr>gr_decision = d, gr_rule = Some r, gr_reason = describe_rule r ctx\<rparr>)"

definition evaluate :: "regexp \<Rightarrow> lexer \<Rightarrow> gate \<Rightarrow> call_context \<Rightarrow> gate_result answer" where
  "evaluate re rd G ctx =
    (if \<not> ga_enabled G then Answered \<lparr>gr_decision = Review, gr_rule = None, gr_reason = Gate_disabled\<rparr>
     else evaluate_from re rd G ctx 0 (ga_rules G))"

subsection \<open>How wide an allowance is\<close>

text \<open>The finite set of texts that \<open>matchesEverything\<close> recognises.\<close>

definition everything_patterns :: "string list" where
  "everything_patterns = concat (map (\<lambda>start. concat (map (\<lambda>body.
      [start @ body, start @ body @ ''$'']) [[], ''.*'', ''*'', ''(?:.*)'', ''['' @ bsl @ ''s'' @ bsl @ ''S]*'']))
    [[], ''^''])"

definition matches_everything :: "string \<Rightarrow> bool" where
  "matches_everything p \<longleftrightarrow> trim p \<in> set everything_patterns"

datatype allow_scope = Tool_scope | Pattern_scope

definition allow_rule_scope :: "rule option \<Rightarrow> allow_scope option" where
  "allow_rule_scope r = (case r of
      None \<Rightarrow> None
    | Some r \<Rightarrow> (case r of
        Allow_by_name _ \<Rightarrow> Some Tool_scope
      | Allow_by_category _ \<Rightarrow> Some Tool_scope
      | Allow_by_tier _ \<Rightarrow> Some Tool_scope
      | By_source _ d \<Rightarrow> if d = Allow then Some Tool_scope else None
      | Argument_pattern _ _ p d \<Rightarrow> if d \<noteq> Allow then None
          else Some (if matches_everything p then Tool_scope else Pattern_scope)
      | Custom_pattern p _ d \<Rightarrow> if d \<noteq> Allow then None
          else Some (if matches_everything p then Tool_scope else Pattern_scope)
      | Predicate _ _ _ \<Rightarrow> Some Pattern_scope
      | _ \<Rightarrow> None))"

end
