(* ===== verification/ReviewCall.thy ===== *)
theory ReviewCall
  imports AuthGate
begin

text \<open>
  A tool call as it is put to review (\<open>types/hitl\<close>): the summary of a call with
  everything the kernel found about it, the answers a person gives, and the decisions a review ends in.
\<close>

subsection \<open>Summaries\<close>

text \<open>What a call reaches beyond the boundary of its turn. An absent list of paths and an empty one read the same.\<close>

record escalation =
  es_outside_paths :: "string list"
  es_sandbox_escape :: bool
  es_unknown_program :: "string option"
  es_protected_paths :: "string list"
  es_dangerous_removal :: "string option"
  es_unfinished_check :: "string option"

record authorization =
  au_decision :: gate_decision
  au_explicit_review :: bool
  au_ask_rule :: bool
  au_allow_scope :: "allow_scope option"

datatype hook_permission = Hook_allow | Hook_ask

record call_summary =
  sm_id :: string
  sm_name :: string
  sm_input :: "value"
  sm_destructive :: bool
  sm_authorization :: "authorization option"
  sm_escalation :: "escalation option"
  sm_requires_approval :: bool
  sm_skill_grant :: "string option"
  sm_scratchpad_write :: bool
  sm_hook_permission :: "hook_permission option"
  sm_hook_grant :: bool

definition explicit_review :: "call_summary \<Rightarrow> bool" where
  "explicit_review tc = (case sm_authorization tc of Some a \<Rightarrow> au_explicit_review a | None \<Rightarrow> False)"

definition ask_rule :: "call_summary \<Rightarrow> bool" where
  "ask_rule tc = (case sm_authorization tc of Some a \<Rightarrow> au_ask_rule a | None \<Rightarrow> False)"

definition authorized :: "gate_decision \<Rightarrow> call_summary \<Rightarrow> bool" where
  "authorized d tc = (case sm_authorization tc of Some a \<Rightarrow> au_decision a = d | None \<Rightarrow> False)"

definition sandbox_escape :: "call_summary \<Rightarrow> bool" where
  "sandbox_escape tc = (case sm_escalation tc of Some e \<Rightarrow> es_sandbox_escape e | None \<Rightarrow> False)"

definition protected_write :: "call_summary \<Rightarrow> bool" where
  "protected_write tc = (case sm_escalation tc of Some e \<Rightarrow> es_protected_paths e \<noteq> [] | None \<Rightarrow> False)"

definition outside_roots :: "call_summary \<Rightarrow> bool" where
  "outside_roots tc = (case sm_escalation tc of Some e \<Rightarrow> es_outside_paths e \<noteq> [] | None \<Rightarrow> False)"

definition dangerous_removal :: "call_summary \<Rightarrow> bool" where
  "dangerous_removal tc = (case sm_escalation tc of Some e \<Rightarrow> es_dangerous_removal e \<noteq> None | None \<Rightarrow> False)"

definition unfinished_check :: "call_summary \<Rightarrow> bool" where
  "unfinished_check tc = (case sm_escalation tc of Some e \<Rightarrow> es_unfinished_check e \<noteq> None | None \<Rightarrow> False)"

definition unknown_program :: "call_summary \<Rightarrow> bool" where
  "unknown_program tc = (case sm_escalation tc of Some e \<Rightarrow> es_unknown_program e \<noteq> None | None \<Rightarrow> False)"

lemmas summary_defs = explicit_review_def ask_rule_def authorized_def sandbox_escape_def protected_write_def
  outside_roots_def dangerous_removal_def unfinished_check_def unknown_program_def

lemma not_escalated [simp]:
  assumes "sm_escalation tc = None"
  shows "\<not> sandbox_escape tc" "\<not> protected_write tc" "\<not> outside_roots tc" "\<not> dangerous_removal tc"
    "\<not> unfinished_check tc" "\<not> unknown_program tc"
  using assms by (simp_all add: summary_defs)

subsection \<open>Answers and decisions\<close>

text \<open>The texts the model is told stand under the names the code gives them.\<close>

datatype feedback =
    Strict_mode_refusal | Plan_mode_refusal | Declined_tool_call
  | Sandbox_escape_unattended | Outside_roots_unattended | Requires_approval_unattended
  | Unknown_program_unattended | Protected_path_unattended | Dangerous_removal_unattended
  | Unfinished_check_unattended | Ask_rule_unattended
  | Screen_consent_unattended | Screen_consent_declined
  | Classifier_transcript_too_long | Classifier_blocked string
  | Own_words string

record rejection =
  rj_feedback :: "string option"
  rj_declined :: "string option option"
  rj_end_turn :: bool

datatype review_answer = Approve | Approve_all | Reject rejection

datatype modification = Keep_call string | Deny_call string | Modify_call string "value option"

datatype resume_decision =
    Continue
  | Approve_plan
  | Reject_plan
  | Answer_question
  | Approve_tools "string list" "string list" "string list" "string list"
  | Modify_tools "modification list" "string list"
  | Reject_tools feedback "string option option" bool
  | Pause string
  | Abort string

text \<open>\<open>Approve_tools\<close> lists the keys to remember, the escapes confirmed, and the calls granted by a skill and by a hook.\<close>

abbreviation approve_plain :: resume_decision where
  "approve_plain \<equiv> Approve_tools [] [] [] []"

abbreviation approve_escapes :: "string list \<Rightarrow> resume_decision" where
  "approve_escapes ids \<equiv> Approve_tools [] ids [] []"

abbreviation refuse :: "feedback \<Rightarrow> resume_decision" where
  "refuse f \<equiv> Reject_tools f None False"

end
