(* ===== verification/ReviewShell.thy ===== *)
theory ReviewShell
  imports ReviewCall
begin

text \<open>
  What the review policy reads of a call beyond its summary
  (\<open>runtime/query/review-policy.ts\<close>): whether it is exempt from review, whether a shell line only
  edits files inside the roots, whether it starts a program that runs whatever it is given.
  The readers of a shell line and of the file system (\<open>shell-paths.ts\<close>, \<open>program.ts\<close>,
  \<open>path-escalation.ts\<close>, \<open>bash-cwd.ts\<close>) are arguments, as is \<open>RegExp\<close>. A declaration of a tool is
  taken to answer; one that throws makes the handler's promise fail without a decision.
\<close>

record tool_registry =
  rg_get :: "string \<Rightarrow> tool_def option"
  rg_source_of :: "string \<Rightarrow> tool_source option"
  rg_dialect :: "string \<Rightarrow> dialect"
  rg_shipped_bash :: "string \<Rightarrow> bool"

record shell_invocation =
  si_program :: string
  si_args :: "shell_word list"

record shell_reading =
  rd_invocations :: "shell_invocation list"
  rd_complete :: bool

record path_escalations =
  pe_outside :: "string list"
  pe_protected :: "string list"
  pe_removal :: "string option"

record shell_reader =
  sh_unknown_program :: "string \<Rightarrow> dialect \<Rightarrow> string option"
  sh_read_line :: "string \<Rightarrow> dialect \<Rightarrow> shell_reading"
  sh_unresolved :: "shell_reading \<Rightarrow> bool"
  sh_escalations :: "string \<Rightarrow> dialect \<Rightarrow> string list \<Rightarrow> string option \<Rightarrow> path_escalations"
  sh_bash_directory :: "string option \<Rightarrow> string \<Rightarrow> string"

subsection \<open>Exemptions\<close>

definition review_exempt_writes :: "string list" where
  "review_exempt_writes = [''task_create'', ''task_update'', ''update_goal'']"

text \<open>The name a call's tool is found under: as written, or in lower case.\<close>

definition resolved_name :: "tool_registry \<Rightarrow> string \<Rightarrow> string" where
  "resolved_name reg name = (if rg_get reg name \<noteq> None then name else to_lower name)"

definition tool_of :: "tool_registry \<Rightarrow> string \<Rightarrow> tool_def option" where
  "tool_of reg name = rg_get reg (resolved_name reg name)"

definition is_review_exempt :: "tool_registry \<Rightarrow> string \<Rightarrow> value \<Rightarrow> bool" where
  "is_review_exempt reg name input =
    (if to_lower name \<in> set review_exempt_writes then True
     else let tool = tool_of reg name in
       if Option.bind tool td_category = Some ''network'' then False
       else is_trusted_read_only tool input
         (if tool = None then None else rg_source_of reg (resolved_name reg name)) = Some True)"

subsection \<open>Programs that run what they are given\<close>

definition classifier_launchers :: "string list" where
  "classifier_launchers =
    [''node'', ''nodejs'', ''deno'', ''tsx'', ''ts-node'', ''ruby'', ''perl'', ''php'', ''lua'', ''rscript'', ''julia'',
     ''osascript'', ''npx'', ''bunx'', ''uvx'', ''pipx'', ''bash'', ''sh'', ''dash'', ''ash'', ''ksh'', ''zsh'', ''fish'',
     ''csh'', ''tcsh'', ''pwsh'', ''powershell'', ''cmd'', ''busybox'', ''ssh'', ''eval'', ''exec'', ''env'', ''xargs'',
     ''sudo'', ''doas'', ''make'', ''gmake'', ''awk'', ''gawk'', ''mawk'', ''nawk'']"

text \<open>\<open>/^python[0-9.]*$/\<close> and its like\<close>

definition versioned :: "string \<Rightarrow> string \<Rightarrow> bool" where
  "versioned name p \<longleftrightarrow> starts_with name p \<and> list_all (\<lambda>c. is_digit c \<or> c = CHR ''.'') (drop (length name) p)"

definition npm_script_verbs :: "string list" where
  "npm_script_verbs = [''run'', ''run-script'', ''rum'', ''urn'', ''test'', ''t'', ''tst'', ''start'', ''stop'', ''restart'',
    ''exec'', ''x'', ''init'', ''create'', ''innit'', ''explore'']"

definition own_verbs :: "(string \<times> string list) list" where
  "own_verbs =
    [(''pnpm'', [''install'', ''i'', ''add'', ''remove'', ''rm'', ''uninstall'', ''un'', ''update'', ''up'', ''upgrade'']),
     (''yarn'', [''install'', ''add'', ''remove'', ''upgrade'', ''up'', ''info'', ''why'', ''list'', ''config'']),
     (''bun'', [''install'', ''i'', ''add'', ''a'', ''remove'', ''rm'', ''update'', ''pm'', ''outdated'', ''info''])]"

definition flags_with_a_value :: "string list" where
  "flags_with_a_value = [''-C'', ''--dir'', ''--cwd'', ''--prefix'', ''--filter'', ''-F'', ''-w'', ''--workspace'', ''--registry'',
    ''--userconfig'', ''--cache'', ''--loglevel'', ''--config'', ''--cd'']"

text \<open>The first word that is neither an option nor the value of one.\<close>

fun verb_of :: "shell_word list \<Rightarrow> string option" where
  "verb_of [] = None"
| "verb_of (w # ws) =
    (let v = sw_value w in
     if v = ''--'' then (case ws of [] \<Rightarrow> None | x # _ \<Rightarrow> Some (sw_value x))
     else if \<not> starts_with ''-'' v then Some v
     else if CHR ''='' \<notin> set v \<and> v \<in> set flags_with_a_value
       then (case ws of [] \<Rightarrow> None | x # xs \<Rightarrow> verb_of xs)
     else verb_of ws)"

definition program_name :: "string \<Rightarrow> string" where
  "program_name p =
    (let q = to_lower (rev (takeWhile (\<lambda>c. c \<noteq> CHR ''/'' \<and> c \<noteq> CHR 0x5C) (rev p)))
     in if starts_with (rev ''.exe'') (rev q) then take (length q - 4) q else q)"

definition launches_code :: "shell_invocation \<Rightarrow> bool" where
  "launches_code iv =
    (let program = program_name (si_program iv); verb = verb_of (si_args iv) in
     if program \<in> set classifier_launchers then True
     else if versioned ''python'' program \<or> versioned ''pypy'' program then True
     else if program = ''npm'' then (case verb of Some v \<Rightarrow> v \<in> set npm_script_verbs | None \<Rightarrow> False)
     else if program \<in> {''pnpm'', ''yarn'', ''bun''} then
       (case verb of None \<Rightarrow> False
        | Some v \<Rightarrow> v \<notin> set (case map_of own_verbs program of Some vs \<Rightarrow> vs | None \<Rightarrow> []))
     else if program = ''uv'' then verb \<in> {Some ''run'', Some ''tool'', Some ''x''}
     else if program \<in> {''poetry'', ''pipenv'', ''cargo'', ''go''} then verb = Some ''run''
     else if program = ''git'' then
       list_ex (\<lambda>a. starts_with ''-c'' (sw_value a) \<or> starts_with ''--config-env'' (sw_value a)) (si_args iv)
     else if program = ''find'' then
       list_ex (\<lambda>a. list_ex (\<lambda>f. starts_with f (sw_value a)) [''-exec'', ''-ok'', ''-fprint'', ''-fls'']) (si_args iv)
     else False)"

definition classifier_delegation_tools :: "string list" where
  "classifier_delegation_tools = [''agent'', ''create_task'', ''continue_task'']"

text \<open>An allow rule that the classifier should not defer to.\<close>

definition allow_rule_too_wide :: "shell_reader \<Rightarrow> tool_registry \<Rightarrow> call_summary \<Rightarrow> bool" where
  "allow_rule_too_wide sh reg tc =
    (if to_lower (sm_name tc) \<in> set classifier_delegation_tools then True
     else case Option.bind (tool_of reg (sm_name tc)) td_command_argument of
       None \<Rightarrow> False
     | Some argument \<Rightarrow>
         if (case sm_authorization tc of Some a \<Rightarrow> au_allow_scope a = Some Tool_scope | None \<Rightarrow> False) then True
         else (case property (sm_input tc) argument of
             V_string line \<Rightarrow>
               (let reading = sh_read_line sh line (rg_dialect reg (resolved_name reg (sm_name tc)))
                in \<not> rd_complete reading \<or> list_ex launches_code (rd_invocations reading))
           | _ \<Rightarrow> True))"

subsection \<open>Shell lines that only edit files\<close>

definition accept_edits_shell_commands :: "string list" where
  "accept_edits_shell_commands = [''mkdir'', ''touch'', ''rm'', ''rmdir'', ''mv'', ''cp'', ''sed'']"

text \<open>The source of \<open>SAFE_SED_COMMAND\<close>\<close>

definition safe_sed_command :: string where
  "safe_sed_command =
    ''^'' @ bsl @ ''s*(?:'' @ bsl @ ''d+(?:,'' @ bsl @ ''d+)?|'' @ bsl @ ''$|'' @ bsl @ ''/[^/]*'' @ bsl @ ''/)?'' @ bsl
    @ ''s*(?:s(.)(?:(?!'' @ bsl @ ''1)[^'' @ bsl @ bsl @ '']|'' @ bsl @ bsl @ ''.)*'' @ bsl @ ''1(?:(?!'' @ bsl @ ''1)[^'' @ bsl @ bsl
    @ '']|'' @ bsl @ bsl @ ''.)*'' @ bsl @ ''1[gpiI0-9]*|[dpP=])'' @ bsl @ ''s*$''"

text \<open>\<open>/^-(?:[nErszi]+|i\S*|-in-place(?:=\S*)?|-quiet|-silent|-regexp-extended|-separate|-null-data)$/\<close>\<close>

definition sed_flag :: "string \<Rightarrow> bool" where
  "sed_flag t = (case t of
      [] \<Rightarrow> False
    | d # r \<Rightarrow> d = CHR ''-'' \<and>
       ((r \<noteq> [] \<and> list_all (\<lambda>c. c \<in> set ''nErszi'') r)
        \<or> (starts_with ''i'' r \<and> list_all (\<lambda>c. \<not> is_space c) r)
        \<or> (starts_with ''-in-place='' r \<and> list_all (\<lambda>c. \<not> is_space c) r)
        \<or> r \<in> {''-in-place'', ''-quiet'', ''-silent'', ''-regexp-extended'', ''-separate'', ''-null-data''}))"

text \<open>
  The scripts of a \<open>sed\<close> call, or nothing where an argument rules it out. The number counts the positional
  arguments so far.
\<close>

fun sed_scripts :: "shell_word list \<Rightarrow> nat \<Rightarrow> string list \<Rightarrow> string list option" where
  "sed_scripts [] n scripts = Some scripts"
| "sed_scripts (w # ws) n scripts =
    (let t = sw_value w in
     if sw_expands w then None
     else if t = ''-e'' then
       (case ws of [] \<Rightarrow> None
        | x # xs \<Rightarrow> if sw_expands x then None else sed_scripts xs n (scripts @ [sw_value x]))
     else if starts_with ''--expression='' t then sed_scripts ws n (scripts @ [drop 13 t])
     else if t = ''-f'' \<or> starts_with ''--file'' t \<or> t = ''--follow-symlinks'' then None
     else if starts_with ''-'' t then (if \<not> sed_flag t then None else sed_scripts ws n scripts)
     else sed_scripts ws (Suc n) (if n = 0 \<and> scripts = [] then scripts @ [t] else scripts))"

definition script_parts :: "string \<Rightarrow> string list" where
  "script_parts script = filter (\<lambda>part. trim part \<noteq> []) (concat (map (split_on (CHR '';'')) (split_on (CHR 0x0A) script)))"

definition sed_only_edits :: "regexp \<Rightarrow> shell_word list \<Rightarrow> bool" where
  "sed_only_edits re args = (case sed_scripts args 0 [] of
      None \<Rightarrow> False
    | Some scripts \<Rightarrow> scripts \<noteq> [] \<and>
        list_all (\<lambda>script. list_all (test_source re safe_sed_command) (script_parts script)) scripts)"

definition inside_roots :: "path_escalations \<Rightarrow> bool" where
  "inside_roots f \<longleftrightarrow> pe_outside f = [] \<and> pe_protected f = [] \<and> pe_removal f = None"

definition shell_file_commands_in_roots :: "regexp \<Rightarrow> shell_reader \<Rightarrow> tool_registry \<Rightarrow> string list \<Rightarrow> string option
    \<Rightarrow> call_summary \<Rightarrow> bool" where
  "shell_file_commands_in_roots re sh reg roots session tc =
    (if roots = [] then False
     else if sm_escalation tc \<noteq> None \<or> sm_destructive tc \<or> sm_requires_approval tc \<or> explicit_review tc \<or> ask_rule tc then False
     else case Option.bind (tool_of reg (sm_name tc)) td_command_argument of
       None \<Rightarrow> False
     | Some argument \<Rightarrow>
        (case property (sm_input tc) argument of
           V_string line \<Rightarrow>
             (let name = resolved_name reg (sm_name tc); dialect = rg_dialect reg name;
                  reading = sh_read_line sh line dialect;
                  cwd = (if rg_shipped_bash reg name then Some (sh_bash_directory sh session (hd roots)) else None);
                  found = sh_escalations sh line dialect roots cwd;
                  baseline = (if cwd \<noteq> None \<and> cwd \<noteq> Some (hd roots) then sh_escalations sh line dialect roots None else found)
              in if sh_unknown_program sh line dialect \<noteq> None then False
                 else if \<not> rd_complete reading \<or> rd_invocations reading = [] then False
                 else if \<not> list_all (\<lambda>iv. si_program iv = ''cd''
                       \<or> (si_program iv \<in> set accept_edits_shell_commands
                          \<and> (si_program iv = ''sed'' \<longrightarrow> sed_only_edits re (si_args iv)))) (rd_invocations reading) then False
                 else if sh_unresolved sh reading then False
                 else inside_roots found \<and> inside_roots baseline)
         | _ \<Rightarrow> False))"

end
