(* ===== verification/ReviewPolicy.thy ===== *)
theory ReviewPolicy
  imports ReviewShell
begin

text \<open>
  How a turn resolves the calls routed to review (\<open>runtime/query/review-policy.ts\<close>): the handler
  that \<open>createReviewHandler\<close> makes of its options, one branch of the model per branch of
  the code. The host's prompt and the classifier are functions of the options; what was asked of
  them, and answered, is the trace the handler leaves.
\<close>

datatype review_mode =
  Mode_prompt | Mode_auto | Mode_accept_edits | Mode_plan | Mode_strict | Mode_bypass | Mode_classify

datatype verdict = Verdict_allow | Verdict_too_long | Verdict_block string "string option"

datatype policy_event =
    Prompted bool review_answer
  | Classified string verdict
  | Told_too_long
  | Told_limit string

record review_options =
  po_mode :: "review_mode option"
  po_prompt :: "(call_summary list \<Rightarrow> bool \<Rightarrow> review_answer) option"
  po_exempt :: "(string \<Rightarrow> value \<Rightarrow> bool) option"
  po_registry :: "tool_registry option"
  po_escape_unattended :: bool
  po_skills_honoured :: bool
  po_screen_consent :: bool
  po_captures_screen :: "(string \<Rightarrow> value \<Rightarrow> bool) option"
  po_plan_mode_write :: "(call_summary \<Rightarrow> bool) option"
  po_classifier :: "(call_summary \<Rightarrow> verdict) option"
  po_safe_tools :: "string list"
  po_roots :: "string list"
  po_regexp :: regexp
  po_shell :: shell_reader

text \<open>What the handler remembers, and the sessions of the host's consent record.\<close>

record policy_state =
  ps_remembered_all :: bool
  ps_too_long :: bool
  ps_consented :: "string list"

datatype review_request =
    Plan_approval_request
  | Other_request
  | Tool_review_request string "call_summary list"

type_synonym reply = "resume_decision \<times> policy_state \<times> policy_event list"

subsection \<open>Modes and exemptions\<close>

definition mode_of :: "review_options \<Rightarrow> review_mode" where
  "mode_of opts = (case po_mode opts of Some m \<Rightarrow> m
    | None \<Rightarrow> if po_prompt opts \<noteq> None then Mode_prompt else Mode_auto)"

definition mode_reviews_allowed_calls :: "review_mode \<Rightarrow> bool" where
  "mode_reviews_allowed_calls m \<longleftrightarrow> m \<in> {Mode_plan, Mode_classify}"

definition is_permissive :: "review_mode \<Rightarrow> bool" where
  "is_permissive m \<longleftrightarrow> m \<in> {Mode_bypass, Mode_classify}"

definition exempt :: "review_options \<Rightarrow> call_summary \<Rightarrow> bool" where
  "exempt opts tc = (case po_exempt opts of
      Some f \<Rightarrow> f (sm_name tc) (sm_input tc)
    | None \<Rightarrow> (case po_registry opts of
         Some reg \<Rightarrow> is_review_exempt reg (sm_name tc) (sm_input tc)
       | None \<Rightarrow> False))"

definition shows_screen :: "review_options \<Rightarrow> call_summary \<Rightarrow> bool" where
  "shows_screen opts tc = (case po_captures_screen opts of
      Some f \<Rightarrow> f (sm_name tc) (sm_input tc)
    | None \<Rightarrow> (case po_registry opts of
         Some reg \<Rightarrow> (case Option.bind (tool_of reg (sm_name tc)) td_captures_screen of
              Some f \<Rightarrow> f (sm_input tc) = Some True
            | None \<Rightarrow> False)
       | None \<Rightarrow> False))"

definition needs_review :: "review_options \<Rightarrow> call_summary \<Rightarrow> bool" where
  "needs_review opts tc \<longleftrightarrow> explicit_review tc \<or> sm_escalation tc \<noteq> None \<or> sm_destructive tc
    \<or> sm_requires_approval tc \<or> \<not> exempt opts tc"

definition batch_needs_review :: "review_options \<Rightarrow> call_summary list \<Rightarrow> bool" where
  "batch_needs_review opts calls = list_ex (needs_review opts) calls"

definition only_reads_outside_roots :: "review_options \<Rightarrow> call_summary list \<Rightarrow> bool" where
  "only_reads_outside_roots opts calls = list_all (\<lambda>tc. \<not> explicit_review tc \<and> \<not> sm_destructive tc
    \<and> \<not> sandbox_escape tc \<and> exempt opts tc) calls"

definition classifier_safe_tools :: "string list" where
  "classifier_safe_tools =
    [''read'', ''grep'', ''glob'', ''ls'', ''lsp'', ''code_analysis'', ''search_tools'', ''view_image'', ''task_create'',
     ''task_update'', ''task_list'', ''agent_task_list'', ''get_goal'', ''update_goal'', ''exit_plan_mode'']"

definition accept_edits_tools :: "string list" where
  "accept_edits_tools = [''edit'', ''write'']"

subsection \<open>The questions no mode settles in advance\<close>

definition reaches_a_floor :: "call_summary \<Rightarrow> bool" where
  "reaches_a_floor tc \<longleftrightarrow> protected_write tc \<or> dangerous_removal tc \<or> unfinished_check tc"

definition floor_refusal :: "call_summary list \<Rightarrow> feedback" where
  "floor_refusal calls =
    (if list_ex protected_write calls then Protected_path_unattended
     else if list_ex dangerous_removal calls then Dangerous_removal_unattended
     else Unfinished_check_unattended)"

definition is_bypass_immune :: "call_summary \<Rightarrow> bool" where
  "is_bypass_immune tc \<longleftrightarrow> ask_rule tc \<or> sandbox_escape tc \<or> protected_write tc \<or> dangerous_removal tc
    \<or> unfinished_check tc \<or> sm_requires_approval tc"

definition immune_refusal :: "call_summary list \<Rightarrow> bool \<Rightarrow> feedback option" where
  "immune_refusal calls escape_confirmed =
    (if \<not> escape_confirmed \<and> list_ex sandbox_escape calls then Some Sandbox_escape_unattended
     else if list_ex protected_write calls then Some Protected_path_unattended
     else if list_ex dangerous_removal calls then Some Dangerous_removal_unattended
     else if list_ex unfinished_check calls then Some Unfinished_check_unattended
     else if list_ex sm_requires_approval calls then Some Requires_approval_unattended
     else if list_ex ask_rule calls then Some Ask_rule_unattended
     else None)"

subsection \<open>Grants\<close>

definition is_skill_granted :: "call_summary \<Rightarrow> bool" where
  "is_skill_granted tc \<longleftrightarrow> sm_skill_grant tc \<noteq> None \<and> \<not> explicit_review tc \<and> \<not> authorized Deny tc
    \<and> \<not> sm_destructive tc \<and> sm_escalation tc = None \<and> \<not> sm_requires_approval tc"

definition is_hook_granted :: "call_summary \<Rightarrow> bool" where
  "is_hook_granted tc \<longleftrightarrow> sm_hook_grant tc \<and> sm_hook_permission tc \<noteq> Some Hook_ask \<and> \<not> explicit_review tc
    \<and> \<not> authorized Deny tc \<and> \<not> sm_destructive tc \<and> sm_escalation tc = None \<and> \<not> sm_requires_approval tc"

subsection \<open>What \<open>accept-edits\<close> and \<open>classify\<close> let through\<close>

definition accept_edits_allows :: "review_options \<Rightarrow> string \<Rightarrow> call_summary \<Rightarrow> bool" where
  "accept_edits_allows opts session tc \<longleftrightarrow> \<not> explicit_review tc \<and> sm_escalation tc = None \<and> \<not> sm_destructive tc
    \<and> \<not> sm_requires_approval tc
    \<and> (sm_name tc \<in> set accept_edits_tools \<or> exempt opts tc
       \<or> (case po_registry opts of None \<Rightarrow> False
          | Some reg \<Rightarrow> shell_file_commands_in_roots (po_regexp opts) (po_shell opts) reg (po_roots opts) (Some session) tc))"

definition too_wide :: "review_options \<Rightarrow> call_summary \<Rightarrow> bool" where
  "too_wide opts tc = (case po_registry opts of
      Some reg \<Rightarrow> allow_rule_too_wide (po_shell opts) reg tc
    | None \<Rightarrow> to_lower (sm_name tc) \<in> set classifier_delegation_tools)"

definition never_sent :: "review_options \<Rightarrow> string \<Rightarrow> call_summary \<Rightarrow> bool" where
  "never_sent opts session tc \<longleftrightarrow>
    (authorized Allow tc \<and> \<not> too_wide opts tc)
    \<or> (to_lower (sm_name tc) \<in> set (classifier_safe_tools @ po_safe_tools opts)
        \<and> sm_escalation tc = None \<and> \<not> explicit_review tc)
    \<or> (sm_escalation tc = None \<and> \<not> sm_destructive tc \<and> \<not> explicit_review tc \<and> exempt opts tc)
    \<or> accept_edits_allows opts session tc"

subsection \<open>Asking\<close>

definition rejected :: "feedback \<Rightarrow> rejection \<Rightarrow> resume_decision" where
  "rejected fallback r = Reject_tools (case rj_feedback r of Some t \<Rightarrow> Own_words t | None \<Rightarrow> fallback)
    (rj_declined r) (rj_end_turn r)"

text \<open>The one answer a person gives for a batch: the one already given to the screen question, or that of the prompt now.\<close>

definition ask :: "(call_summary list \<Rightarrow> bool \<Rightarrow> review_answer) \<Rightarrow> call_summary list \<Rightarrow> review_answer option
    \<Rightarrow> review_answer \<times> policy_event list" where
  "ask prompt calls answered = (case answered of
      Some a \<Rightarrow> (a, [])
    | None \<Rightarrow> let a = prompt calls False in (a, [Prompted False a]))"

definition remember_all :: "review_answer \<Rightarrow> policy_state \<Rightarrow> policy_state" where
  "remember_all a st = (if a = Approve_all then st\<lparr>ps_remembered_all := True\<rparr> else st)"

definition settle_answer :: "resume_decision \<Rightarrow> policy_state \<Rightarrow> policy_event list \<Rightarrow> review_answer \<times> policy_event list \<Rightarrow> reply" where
  "settle_answer approved st evs ans = (case fst ans of
      Reject r \<Rightarrow> (rejected Declined_tool_call r, st, evs @ snd ans)
    | a \<Rightarrow> (approved, remember_all a st, evs @ snd ans))"

text \<open>A question for a person; with nobody to ask it is refused.\<close>

definition question :: "review_options \<Rightarrow> call_summary list \<Rightarrow> review_answer option \<Rightarrow> resume_decision \<Rightarrow> feedback
    \<Rightarrow> policy_state \<Rightarrow> policy_event list \<Rightarrow> reply" where
  "question opts calls answered approved refusal st evs = (case po_prompt opts of
      None \<Rightarrow> (refuse refusal, st, evs)
    | Some prompt \<Rightarrow> settle_answer approved st evs (ask prompt calls answered))"

subsection \<open>The permissive modes\<close>

text \<open>The classifier reads the calls in turn; \<open>Inl\<close> goes on, \<open>Inr\<close> is a reply. \<open>person\<close> asks a person about the batch, \<open>None\<close> where nobody can be asked.\<close>

fun classify_calls :: "review_options \<Rightarrow> string \<Rightarrow> (call_summary \<Rightarrow> verdict)
    \<Rightarrow> (policy_state \<Rightarrow> policy_event list \<Rightarrow> reply) option
    \<Rightarrow> call_summary list \<Rightarrow> policy_state \<Rightarrow> policy_event list \<Rightarrow> policy_state \<times> policy_event list + reply" where
  "classify_calls opts session classifier person [] st evs = Inl (st, evs)"
| "classify_calls opts session classifier person (tc # calls) st evs =
    (if is_bypass_immune tc \<or> never_sent opts session tc
     then classify_calls opts session classifier person calls st evs
     else let v = classifier tc; evs' = evs @ [Classified (sm_id tc) v] in
       case v of
         Verdict_allow \<Rightarrow> classify_calls opts session classifier person calls (st\<lparr>ps_too_long := False\<rparr>) evs'
       | Verdict_too_long \<Rightarrow>
           if \<not> ps_too_long st then Inr (refuse Classifier_transcript_too_long, st\<lparr>ps_too_long := True\<rparr>, evs' @ [Told_too_long])
           else (case person of
               None \<Rightarrow> Inr (Abort ''auto mode stopped: the conversation is too long for the safety check'', st, evs')
             | Some f \<Rightarrow> Inr (f st evs'))
       | Verdict_block reason limit \<Rightarrow>
           let st' = st\<lparr>ps_too_long := False\<rparr> in
           (case limit of
              None \<Rightarrow> Inr (refuse (Classifier_blocked reason), st', evs')
            | Some l \<Rightarrow> (case person of
                 None \<Rightarrow> Inr (Abort (''auto mode stopped: too many actions were blocked ('' @ reason @ '')''), st', evs' @ [Told_limit l])
               | Some f \<Rightarrow> Inr (f st' (evs' @ [Told_limit l])))))"

definition review_permissive :: "review_options \<Rightarrow> string \<Rightarrow> call_summary list \<Rightarrow> review_answer option
    \<Rightarrow> policy_state \<Rightarrow> policy_event list \<Rightarrow> reply" where
  "review_permissive opts session calls answered st evs =
    (let live = filter (\<lambda>tc. \<not> authorized Deny tc) calls;
         escapes = map sm_id (filter sandbox_escape live);
         person = map_option (\<lambda>prompt st evs. settle_answer (approve_escapes escapes) st evs (ask prompt calls answered))
           (po_prompt opts);
         classified = (if mode_of opts = Mode_classify
           then (case po_classifier opts of
               Some classifier \<Rightarrow> classify_calls opts session classifier person live st evs
             | None \<Rightarrow> Inl (st, evs))
           else Inl (st, evs))
     in case classified of
          Inr r \<Rightarrow> r
        | Inl (st', evs') \<Rightarrow>
            if \<not> list_ex is_bypass_immune live then (approve_plain, st', evs')
            else (case person of
               Some f \<Rightarrow> f st' evs'
             | None \<Rightarrow> (case immune_refusal live (po_escape_unattended opts) of
                  Some r \<Rightarrow> (refuse r, st', evs')
                | None \<Rightarrow> (approve_escapes escapes, st', evs'))))"

subsection \<open>The modes that ask\<close>

definition needs_person :: "review_options \<Rightarrow> call_summary \<Rightarrow> bool" where
  "needs_person opts tc \<longleftrightarrow> explicit_review tc \<or> sm_destructive tc \<or> sm_escalation tc \<noteq> None
    \<or> \<not> (exempt opts tc \<or> (mode_of opts = Mode_accept_edits \<and> sm_name tc \<in> set accept_edits_tools))"

text \<open>With nobody to ask, an operator's setting may confirm an escape, and nothing else of the batch.\<close>

definition unattended_escape :: "review_options \<Rightarrow> call_summary list \<Rightarrow> string list \<Rightarrow> resume_decision" where
  "unattended_escape opts calls escapes =
    (if \<not> po_escape_unattended opts then refuse Sandbox_escape_unattended
     else if list_ex reaches_a_floor calls then refuse (floor_refusal calls)
     else if list_ex outside_roots calls then refuse Outside_roots_unattended
     else if list_ex sm_requires_approval calls then refuse Requires_approval_unattended
     else if list_ex unknown_program calls then refuse Unknown_program_unattended
     else approve_escapes escapes)"

definition review_asking :: "review_options \<Rightarrow> call_summary list \<Rightarrow> review_answer option
    \<Rightarrow> policy_state \<Rightarrow> policy_event list \<Rightarrow> reply" where
  "review_asking opts calls answered st evs =
    (let escapes = map sm_id (filter sandbox_escape calls) in
     if escapes \<noteq> [] then (case po_prompt opts of
         None \<Rightarrow> (unattended_escape opts calls escapes, st, evs)
       | Some prompt \<Rightarrow> settle_answer (approve_escapes escapes) st evs (ask prompt calls answered))
     else if list_ex reaches_a_floor calls then question opts calls answered approve_plain (floor_refusal calls) st evs
     else if list_ex outside_roots calls then question opts calls answered approve_plain Outside_roots_unattended st evs
     else if list_ex sm_requires_approval calls then question opts calls answered approve_plain Requires_approval_unattended st evs
     else if list_ex unknown_program calls then question opts calls answered approve_plain Unknown_program_unattended st evs
     else if mode_of opts = Mode_auto \<or> po_prompt opts = None \<or> ps_remembered_all st then (approve_plain, st, evs)
     else let persons = filter (needs_person opts) calls in
       if answered = None \<and> persons \<noteq> []
          \<and> list_all (\<lambda>tc. is_hook_granted tc \<or> (po_skills_honoured opts \<and> is_skill_granted tc)) persons
       then (Approve_tools [] [] (map sm_id (filter (\<lambda>tc. \<not> is_hook_granted tc) persons))
               (map sm_id (filter is_hook_granted persons)), st, evs)
       else question opts calls answered approve_plain Declined_tool_call st evs)"

subsection \<open>The handler\<close>

definition is_plan_file_write :: "review_options \<Rightarrow> call_summary \<Rightarrow> bool" where
  "is_plan_file_write opts tc \<longleftrightarrow> mode_of opts = Mode_plan
    \<and> (case po_plan_mode_write opts of Some f \<Rightarrow> f tc | None \<Rightarrow> False) \<and> \<not> authorized Deny tc"

definition is_scratchpad_write :: "review_options \<Rightarrow> call_summary \<Rightarrow> bool" where
  "is_scratchpad_write opts tc \<longleftrightarrow> mode_of opts \<noteq> Mode_strict \<and> sm_scratchpad_write tc \<and> sm_escalation tc = None
    \<and> \<not> sm_requires_approval tc \<and> \<not> explicit_review tc \<and> \<not> authorized Deny tc"

definition reviewable :: "review_options \<Rightarrow> call_summary list \<Rightarrow> call_summary list" where
  "reviewable opts calls =
    filter (\<lambda>tc. \<not> (is_plan_file_write opts tc \<and> \<not> explicit_review tc) \<and> \<not> is_scratchpad_write opts tc) calls"

definition edit_only :: "call_summary \<Rightarrow> call_summary" where
  "edit_only tc = (if sm_name tc = ''write'' then tc\<lparr>sm_destructive := False\<rparr> else tc)"

definition after_screen :: "review_options \<Rightarrow> string \<Rightarrow> call_summary list \<Rightarrow> review_answer option
    \<Rightarrow> policy_state \<Rightarrow> policy_event list \<Rightarrow> reply" where
  "after_screen opts session calls answered st evs =
    (let batch = reviewable opts calls; mode = mode_of opts in
     if \<not> batch_needs_review opts batch then (approve_plain, st, evs)
     else if mode = Mode_accept_edits \<and> list_all (\<lambda>tc. accept_edits_allows opts session (edit_only tc)) calls
       then (approve_plain, st, evs)
     else if mode = Mode_plan \<and> \<not> only_reads_outside_roots opts
           (filter (\<lambda>tc. \<not> is_plan_file_write opts tc \<and> \<not> is_scratchpad_write opts tc) batch)
       then (refuse Plan_mode_refusal, st, evs)
     else if mode = Mode_strict then (refuse Strict_mode_refusal, st, evs)
     else if is_permissive mode then review_permissive opts session calls answered st evs
     else review_asking opts calls answered st evs)"

definition screen_question :: "review_options \<Rightarrow> string \<Rightarrow> call_summary list \<Rightarrow> policy_state \<Rightarrow> bool" where
  "screen_question opts session calls st \<longleftrightarrow> po_screen_consent opts \<and> mode_of opts \<noteq> Mode_auto
    \<and> session \<notin> set (ps_consented st)
    \<and> list_ex (\<lambda>tc. \<not> authorized Allow tc \<and> \<not> authorized Deny tc \<and> shows_screen opts tc) calls"

definition review_tools :: "review_options \<Rightarrow> string \<Rightarrow> call_summary list \<Rightarrow> policy_state \<Rightarrow> reply" where
  "review_tools opts session calls st =
    (if screen_question opts session calls st then
       (if mode_of opts = Mode_strict then (refuse Strict_mode_refusal, st, [])
        else case po_prompt opts of
          None \<Rightarrow> (refuse Screen_consent_unattended, st, [])
        | Some prompt \<Rightarrow>
            let a = prompt calls True in
            (case a of
               Reject r \<Rightarrow> (rejected Screen_consent_declined r, st, [Prompted True a])
             | _ \<Rightarrow> after_screen opts session calls (Some a)
                 (remember_all a (st\<lparr>ps_consented := session # ps_consented st\<rparr>)) [Prompted True a]))
     else after_screen opts session calls None st [])"

definition review_handler :: "review_options \<Rightarrow> review_request \<Rightarrow> policy_state \<Rightarrow> reply" where
  "review_handler opts request st = (case request of
      Plan_approval_request \<Rightarrow> (Approve_plan, st, [])
    | Other_request \<Rightarrow> (Continue, st, [])
    | Tool_review_request session calls \<Rightarrow> review_tools opts session calls st)"

text \<open>\<open>createReviewHandler\<close>: a classifying policy without a classifier is not made.\<close>

definition create_review_handler :: "review_options \<Rightarrow> (review_request \<Rightarrow> policy_state \<Rightarrow> reply) option" where
  "create_review_handler opts =
    (if mode_of opts = Mode_classify \<and> po_classifier opts = None then None else Some (review_handler opts))"

end
