(* ===== verification/ToolReview.thy ===== *)
theory ToolReview
  imports ReviewPolicy
begin

text \<open>
  The review of the tool calls of one model response
  (\<open>runtime/query/iteration/phases/tool-review.ts\<close>, \<open>runToolReview\<close>): the gate, the marks of skills
  and hooks, the grants of the turn, the hooks asked before a person, the decision of the review
  handler, and what of the batch then runs. What the executor prepares of the calls, the
  answers of hooks, the tracker of repeated calls and the budget of the executor are given. The review of one call at
  a time, a host's option, is left out, and so are events, notices and the reasons of records.
\<close>

subsection \<open>The batch and its surroundings\<close>

record tool_call =
  ca_id :: string
  ca_name :: string

text \<open>A call as the executor prepared it; one it could not prepare is answered without a review.\<close>

record prepared_call =
  pc_id :: string
  pc_name :: string
  pc_input :: "value"
  pc_escalation :: "escalation option"
  pc_hook_permission :: "hook_permission option"
  pc_scratchpad_write :: bool

datatype hook_answer = Hook_continues "hook_permission option" | Hook_skips string

record review_context =
  rc_regexp :: regexp
  rc_lexer :: lexer
  rc_gate :: "gate option"
  rc_tools :: tool_registry
  rc_destructive :: "string \<Rightarrow> value \<Rightarrow> bool"
  rc_requires_approval :: "string \<Rightarrow> value \<Rightarrow> bool"
  rc_prepared :: "prepared_call list"
  rc_reprepared :: "(string \<times> value) list \<Rightarrow> prepared_call list"
  rc_covering_skill :: "(call_summary \<Rightarrow> string option) option"
  rc_permission_hooks :: "(call_summary \<Rightarrow> hook_answer list) option"
  rc_review_allowed :: bool
  rc_repeat_refusal :: "call_summary \<Rightarrow> string option"
  rc_budget_refusal :: "string option"

datatype audit = Audit string string string bool

text \<open>An audit record: the action, the tool, the resource, and whether it was approved.\<close>

datatype review_end = Executed | Rejected | Stopped

record review_outcome =
  rv_end :: review_end
  rv_answered :: bool
  rv_ran :: "call_summary list"
  rv_denied :: "string list"
  rv_audits :: "audit list"
  rv_grants :: "string list option"

subsection \<open>Summaries and the gate\<close>

definition summary_of :: "review_context \<Rightarrow> prepared_call \<Rightarrow> call_summary" where
  "summary_of ctx p =
    (let asked = (pc_hook_permission p = Some Hook_ask) in
     \<lparr>sm_id = pc_id p, sm_name = pc_name p, sm_input = pc_input p,
      sm_destructive = rc_destructive ctx (pc_name p) (pc_input p),
      sm_authorization = Some \<lparr>au_decision = Review, au_explicit_review = asked, au_ask_rule = asked, au_allow_scope = None\<rparr>,
      sm_escalation = pc_escalation p,
      sm_requires_approval = rc_requires_approval ctx (pc_name p) (pc_input p),
      sm_skill_grant = None, sm_scratchpad_write = pc_scratchpad_write p,
      sm_hook_permission = pc_hook_permission p, sm_hook_grant = False\<rparr>)"

definition gate_context :: "review_context \<Rightarrow> call_summary \<Rightarrow> call_context" where
  "gate_context ctx tc = \<lparr>cc_tool_name = sm_name tc, cc_tool_input = sm_input tc, cc_tool_def = rg_get (rc_tools ctx) (sm_name tc),
    cc_dialect = Some (rg_dialect (rc_tools ctx) (sm_name tc)),
    cc_source = (if rg_get (rc_tools ctx) (sm_name tc) \<noteq> None then rg_source_of (rc_tools ctx) (sm_name tc) else None)\<rparr>"

definition gate_verdict :: "review_context \<Rightarrow> gate \<Rightarrow> call_summary \<Rightarrow> gate_result answer" where
  "gate_verdict ctx G tc = evaluate (rc_regexp ctx) (rc_lexer ctx) G (gate_context ctx tc)"

text \<open>
  The gate's decision on a call. An allowance never settles a call that reaches past its boundary, that the tool
  says always needs a person, or that a hook asked a person about: it becomes a review.
\<close>

definition authorize :: "call_summary \<Rightarrow> gate_result \<Rightarrow> call_summary" where
  "authorize tc g =
    (let hook_asked = (sm_hook_permission tc = Some Hook_ask);
         asked = (gr_decision g = Review \<and> gr_rule g \<noteq> None) \<or> hook_asked;
         d = (if gr_decision g = Allow \<and> (sm_escalation tc \<noteq> None \<or> sm_requires_approval tc \<or> hook_asked)
              then Review else gr_decision g)
     in tc\<lparr>sm_authorization := Some \<lparr>au_decision = d, au_explicit_review = asked, au_ask_rule = asked,
          au_allow_scope = (if d = Allow then allow_rule_scope (gr_rule g) else None)\<rparr>\<rparr>)"

fun authorize_all :: "review_context \<Rightarrow> gate \<Rightarrow> call_summary list \<Rightarrow> call_summary list option" where
  "authorize_all ctx G [] = Some []"
| "authorize_all ctx G (tc # tcs) = (case gate_verdict ctx G tc of
      Threw \<Rightarrow> None
    | Answered g \<Rightarrow> map_option (\<lambda>rest. authorize tc g # rest) (authorize_all ctx G tcs))"

subsection \<open>Records of crossings\<close>

definition crossing_audits :: "bool \<Rightarrow> call_summary \<Rightarrow> audit list" where
  "crossing_audits approved tc = (case sm_escalation tc of
      None \<Rightarrow> []
    | Some e \<Rightarrow>
        (if es_sandbox_escape e then [Audit ''sandbox_escape'' (sm_name tc) [] approved] else [])
        @ map (\<lambda>p. Audit ''outside_root_access'' (sm_name tc) p approved) (es_outside_paths e)
        @ (case es_unknown_program e of Some r \<Rightarrow> [Audit ''unknown_program'' (sm_name tc) r approved] | None \<Rightarrow> [])
        @ map (\<lambda>p. Audit ''protected_path_write'' (sm_name tc) p approved) (es_protected_paths e)
        @ (case es_dangerous_removal e of Some r \<Rightarrow> [Audit ''dangerous_removal'' (sm_name tc) r approved] | None \<Rightarrow> [])
        @ (case es_unfinished_check e of Some r \<Rightarrow> [Audit ''unfinished_check'' (sm_name tc) r approved] | None \<Rightarrow> []))"

definition add_id :: "string \<Rightarrow> string list \<Rightarrow> string list" where
  "add_id i ids = (if i \<in> set ids then ids else ids @ [i])"

text \<open>The escalations a decision lets through, on record, and the escapes it did not confirm, refused.\<close>

fun settle_escalations :: "string list \<Rightarrow> call_summary list \<Rightarrow> string list \<Rightarrow> audit list \<Rightarrow> string list \<times> audit list" where
  "settle_escalations confirmed [] denied audits = (denied, audits)"
| "settle_escalations confirmed (tc # tcs) denied audits =
    (if sm_escalation tc = None then settle_escalations confirmed tcs denied audits
     else if sm_id tc \<in> set denied then settle_escalations confirmed tcs denied (audits @ crossing_audits False tc)
     else if sandbox_escape tc \<and> sm_id tc \<notin> set confirmed
       then settle_escalations confirmed tcs (add_id (sm_id tc) denied)
              (audits @ [Audit ''sandbox_escape'' (sm_name tc) [] False])
     else settle_escalations confirmed tcs denied (audits @ crossing_audits True tc))"

definition tool_audit :: "bool \<Rightarrow> call_summary \<Rightarrow> audit" where
  "tool_audit approved tc = Audit ''tool_call'' (sm_name tc) [] approved"

subsection \<open>Running a batch\<close>

text \<open>Of the prepared calls, those the executor runs: not denied, not refused as a repetition, within the budget.\<close>

definition runs :: "review_context \<Rightarrow> string list \<Rightarrow> call_summary list \<Rightarrow> call_summary list" where
  "runs ctx denied sums = (if rc_budget_refusal ctx \<noteq> None then []
    else filter (\<lambda>tc. sm_id tc \<notin> set denied \<and> rc_repeat_refusal ctx tc = None) sums)"

definition settle_batch :: "review_context \<Rightarrow> review_end \<Rightarrow> string list \<Rightarrow> call_summary list \<Rightarrow> audit list
    \<Rightarrow> string list option \<Rightarrow> review_outcome" where
  "settle_batch ctx e denied sums audits grants =
    \<lparr>rv_end = e, rv_answered = True, rv_ran = runs ctx denied sums, rv_denied = denied, rv_audits = audits, rv_grants = grants\<rparr>"

definition unanswered :: "audit list \<Rightarrow> string list option \<Rightarrow> review_outcome" where
  "unanswered audits grants =
    \<lparr>rv_end = Stopped, rv_answered = False, rv_ran = [], rv_denied = [], rv_audits = audits, rv_grants = grants\<rparr>"

subsection \<open>Marks\<close>

definition may_mark :: "string list \<Rightarrow> call_summary \<Rightarrow> bool" where
  "may_mark gate_denied tc \<longleftrightarrow> sm_id tc \<notin> set gate_denied \<and> \<not> authorized Deny tc \<and> \<not> explicit_review tc
    \<and> \<not> sm_destructive tc \<and> sm_escalation tc = None \<and> \<not> sm_requires_approval tc"

definition mark_skill :: "review_context \<Rightarrow> string list \<Rightarrow> call_summary \<Rightarrow> call_summary" where
  "mark_skill ctx gate_denied tc = (case rc_covering_skill ctx of
      None \<Rightarrow> tc
    | Some covering \<Rightarrow>
        if may_mark gate_denied tc then (case covering tc of Some skill \<Rightarrow> tc\<lparr>sm_skill_grant := Some skill\<rparr> | None \<Rightarrow> tc)
        else tc)"

definition mark_hook :: "string list \<Rightarrow> call_summary \<Rightarrow> call_summary" where
  "mark_hook gate_denied tc =
    (if sm_hook_permission tc = Some Hook_allow \<and> may_mark gate_denied tc then tc\<lparr>sm_hook_grant := True\<rparr> else tc)"

subsection \<open>Hooks asked before a person\<close>

definition is_question :: "review_context \<Rightarrow> string list \<Rightarrow> call_summary \<Rightarrow> bool" where
  "is_question ctx gate_denied tc \<longleftrightarrow> sm_id tc \<notin> set gate_denied \<and> \<not> authorized Deny tc \<and> \<not> authorized Allow tc
    \<and> (explicit_review tc \<or> sm_escalation tc \<noteq> None \<or> sm_requires_approval tc \<or> sm_destructive tc
       \<or> \<not> is_review_exempt (rc_tools ctx) (sm_name tc) (sm_input tc))"

definition skips :: "hook_answer \<Rightarrow> bool" where
  "skips a = (case a of Hook_skips _ \<Rightarrow> True | _ \<Rightarrow> False)"

definition refused_authorization :: authorization where
  "refused_authorization = \<lparr>au_decision = Deny, au_explicit_review = False, au_ask_rule = False, au_allow_scope = None\<rparr>"

text \<open>The hooks asked about the questions of a batch, in order; a refusal of one of them stands.\<close>

fun ask_hooks :: "review_context \<Rightarrow> (call_summary \<Rightarrow> hook_answer list) \<Rightarrow> call_summary list \<Rightarrow> string list \<Rightarrow> audit list
    \<Rightarrow> call_summary list \<times> string list \<times> audit list" where
  "ask_hooks ctx hooks [] gate_denied audits = ([], gate_denied, audits)"
| "ask_hooks ctx hooks (tc # tcs) gate_denied audits =
    (let (tc', denied', audits') =
       (if \<not> is_question ctx gate_denied tc then (tc, gate_denied, audits)
        else if list_ex skips (hooks tc) then
          (tc\<lparr>sm_authorization := Some refused_authorization\<rparr>, add_id (sm_id tc) gate_denied, audits @ [tool_audit False tc])
        else if Hook_continues (Some Hook_allow) \<in> set (hooks tc) \<and> may_mark gate_denied tc
          then (tc\<lparr>sm_hook_grant := True\<rparr>, gate_denied, audits)
        else (tc, gate_denied, audits));
         (rest, denied'', audits'') = ask_hooks ctx hooks tcs denied' audits'
     in (tc' # rest, denied'', audits''))"

subsection \<open>What a decision comes to\<close>

text \<open>The records of calls approved with nobody asked, by a skill or a hook that marked them.\<close>

definition grant_audits :: "string list \<Rightarrow> string list \<Rightarrow> string list \<Rightarrow> call_summary list \<Rightarrow> audit list" where
  "grant_audits by_skill by_hook gate_denied sums =
    map (tool_audit True) (filter (\<lambda>tc. sm_id tc \<in> set by_skill \<and> sm_skill_grant tc \<noteq> None \<and> sm_id tc \<notin> set gate_denied) sums)
    @ map (tool_audit True) (filter (\<lambda>tc. sm_id tc \<in> set by_hook \<and> sm_hook_grant tc \<and> sm_id tc \<notin> set gate_denied) sums)"

text \<open>The modifications of a person: the calls rewritten, and the ids denied, a denial standing against what comes after it.\<close>

fun apply_modifications :: "string list \<Rightarrow> modification list \<Rightarrow> string list \<Rightarrow> (string \<times> value) list
    \<Rightarrow> string list \<times> (string \<times> value) list" where
  "apply_modifications ids [] denied modified = (denied, modified)"
| "apply_modifications ids (m # ms) denied modified = (case m of
      Keep_call _ \<Rightarrow> apply_modifications ids ms denied modified
    | Deny_call i \<Rightarrow> apply_modifications ids ms (add_id i denied) modified
    | Modify_call i (Some v) \<Rightarrow>
        (if i \<in> set ids \<and> i \<notin> set denied
         then apply_modifications ids ms denied (AList.update i v modified)
         else apply_modifications ids ms denied modified)
    | Modify_call i None \<Rightarrow> apply_modifications ids ms denied modified)"

text \<open>The gate over the calls a person rewrote: anything but an allowance refuses the call.\<close>

fun recheck :: "review_context \<Rightarrow> string list \<Rightarrow> call_summary list \<Rightarrow> string list \<Rightarrow> audit list
    \<Rightarrow> (string list \<times> audit list) option" where
  "recheck ctx modified [] denied audits = Some (denied, audits)"
| "recheck ctx modified (tc # tcs) denied audits =
    (case rc_gate ctx of
       None \<Rightarrow> Some (denied, audits)
     | Some G \<Rightarrow>
        if sm_id tc \<notin> set modified \<or> sm_id tc \<in> set denied then recheck ctx modified tcs denied audits
        else (case gate_verdict ctx G tc of
            Threw \<Rightarrow> None
          | Answered g \<Rightarrow>
              if gr_decision g = Allow then recheck ctx modified tcs denied audits
              else recheck ctx modified tcs (add_id (sm_id tc) denied) (audits @ [tool_audit False tc])))"

definition everything_denied :: "tool_call list \<Rightarrow> string list \<Rightarrow> review_end" where
  "everything_denied calls denied = (if length denied = length calls then Rejected else Executed)"

definition conclude :: "review_context \<Rightarrow> tool_call list \<Rightarrow> call_summary list \<Rightarrow> string list \<Rightarrow> audit list
    \<Rightarrow> string list option \<Rightarrow> resume_decision \<Rightarrow> review_outcome option" where
  "conclude ctx calls sums gate_denied audits grants decision = (case decision of
      Reject_tools _ _ end_turn \<Rightarrow>
        let (denied, audits') = settle_escalations [] sums (map ca_id calls) audits
        in Some (settle_batch ctx (if end_turn then Stopped else Rejected) denied sums audits' grants)
    | Modify_tools ms confirmed_ids \<Rightarrow>
        let (denied, modified) = apply_modifications (map ca_id calls) ms gate_denied [];
            sums' = (if modified = [] then sums else map (summary_of ctx) (rc_reprepared ctx modified))
        in map_option (\<lambda>(denied', audits').
             let (denied'', audits'') = settle_escalations confirmed_ids sums' denied' audits'
             in settle_batch ctx (everything_denied calls denied'') denied'' sums' audits'' grants)
           (recheck ctx (map fst modified) sums' denied audits)
    | Pause _ \<Rightarrow> Some (unanswered audits grants)
    | Abort _ \<Rightarrow> Some (unanswered audits grants)
    | Approve_tools remembered confirmed_ids by_skill by_hook \<Rightarrow>
        let (denied, audits') = settle_escalations confirmed_ids sums gate_denied
              (audits @ grant_audits by_skill by_hook gate_denied sums)
        in Some (settle_batch ctx (everything_denied calls denied) denied sums audits'
             (map_option (\<lambda>g. grant_keys g remembered) grants))
    | Continue \<Rightarrow>
        let (denied, audits') = settle_escalations [] sums gate_denied audits
        in Some (settle_batch ctx (everything_denied calls denied) denied sums audits' grants)
    | _ \<Rightarrow>
        let (denied, audits') = settle_escalations [] sums gate_denied audits
        in Some (settle_batch ctx Executed denied sums audits' grants))"

subsection \<open>The review\<close>

text \<open>A reviewer: what it decides of a batch, the state it keeps, and what it asked.\<close>

type_synonym 's reviewer = "call_summary list \<Rightarrow> 's \<Rightarrow> resume_decision \<times> 's \<times> policy_event list"

text \<open>From the grants of the turn to the end. \<open>None\<close> is an exception out of a tool's declaration.\<close>

definition covered_by_grants :: "review_context \<Rightarrow> string list option \<Rightarrow> string list \<Rightarrow> call_summary list \<Rightarrow> bool" where
  "covered_by_grants ctx grants gate_denied sums \<longleftrightarrow>
    (case grants of None \<Rightarrow> False | Some g \<Rightarrow>
       \<not> rc_review_allowed ctx \<and> gate_denied = []
       \<and> list_all (\<lambda>tc. sm_escalation tc = None \<and> \<not> sm_requires_approval tc \<and> \<not> ask_rule tc \<and> \<not> explicit_review tc
            \<and> grants_cover g (sm_name tc) (sm_input tc)) sums)"

definition after_gate :: "review_context \<Rightarrow> 's reviewer \<Rightarrow> tool_call list \<Rightarrow> call_summary list \<Rightarrow> string list \<Rightarrow> audit list
    \<Rightarrow> string list option \<Rightarrow> 's \<Rightarrow> (review_outcome \<times> 's \<times> policy_event list) option" where
  "after_gate ctx decide calls sums gate_denied audits grants s =
    (let marked = map (\<lambda>tc. mark_hook gate_denied (mark_skill ctx gate_denied tc)) sums in
     if covered_by_grants ctx grants gate_denied marked then Some (settle_batch ctx Executed [] marked audits grants, s, [])
     else let (asked, denied, audits') = (case rc_permission_hooks ctx of
             None \<Rightarrow> (marked, gate_denied, audits)
           | Some hooks \<Rightarrow> ask_hooks ctx hooks marked gate_denied audits)
       in if rc_permission_hooks ctx \<noteq> None \<and> list_all (\<lambda>tc. sm_id tc \<in> set denied) asked then
            Some (settle_batch ctx Rejected denied asked
              (audits' @ concat (map (crossing_audits False) asked)) grants, s, [])
          else let (d, s', evs) = decide asked s
            in map_option (\<lambda>r. (r, s', evs)) (conclude ctx calls asked denied audits' grants d))"

definition run_tool_review :: "review_context \<Rightarrow> 's reviewer \<Rightarrow> tool_call list \<Rightarrow> string list option \<Rightarrow> 's
    \<Rightarrow> (review_outcome \<times> 's \<times> policy_event list) option" where
  "run_tool_review ctx decide calls grants s =
    (let sums = map (summary_of ctx) (rc_prepared ctx) in
     if calls = [] then
       Some (\<lparr>rv_end = Executed, rv_answered = True, rv_ran = [], rv_denied = [], rv_audits = [], rv_grants = grants\<rparr>, s, [])
     else if \<not> distinct (map ca_id calls) then None
     else if sums = [] then Some (settle_batch ctx Executed [] [] [] grants, s, [])
     else case rc_gate ctx of
       None \<Rightarrow> after_gate ctx decide calls sums [] [] grants s
     | Some G \<Rightarrow> (case authorize_all ctx G sums of
          None \<Rightarrow> None
        | Some authorized_sums \<Rightarrow>
            let refused = filter (authorized Deny) authorized_sums;
                gate_denied = map sm_id refused;
                audits = map (tool_audit False) refused
            in if list_all (authorized Allow) authorized_sums \<and> \<not> rc_review_allowed ctx
               then Some (settle_batch ctx Executed [] authorized_sums audits grants, s, [])
               else if list_all (authorized Deny) authorized_sums
               then Some (settle_batch ctx Rejected gate_denied authorized_sums
                 (audits @ concat (map (crossing_audits False) authorized_sums)) grants, s, [])
               else after_gate ctx decide calls authorized_sums gate_denied audits grants s))"

end
