(* ===== verification/CallReview.thy ===== *)
theory CallReview
  imports ToolReview Text
begin

text \<open>
  The review of one call at a time (\<open>runtime/query/iteration/phases/per-call-review.ts\<close>): which calls need
  a question, what an answer means for each call it was given for, and what follows from it. How the questions of a
  batch interleave is the subject of CallWalk.
\<close>

subsection \<open>Verdicts\<close>

datatype reason =
    Told feedback
  | Refused_with_the_turn
  | Refused_after_end
  | Unanswered_call
  | Edit_not_offered
  | Paused_call
  | Not_this_question
  | Unconfirmed_escape
  | Approval_not_completed

text \<open>A person who declined may have left a note.\<close>

record refusal =
  rf_reason :: reason
  rf_declined :: "string option option"

datatype verdict = May_run | May_not refusal

abbreviation refuse_for :: "reason \<Rightarrow> verdict" where
  "refuse_for r \<equiv> May_not \<lparr>rf_reason = r, rf_declined = None\<rparr>"

subsection \<open>A person's note\<close>

definition note_limit :: nat where
  "note_limit = 4000"

definition is_control :: "char \<Rightarrow> bool" where
  "is_control c \<longleftrightarrow> char_code c \<le> 8 \<or> (11 \<le> char_code c \<and> char_code c \<le> 31) \<or> (127 \<le> char_code c \<and> char_code c \<le> 159)"

text \<open>A run of control characters becomes one space.\<close>

fun blank_controls :: "bool \<Rightarrow> string \<Rightarrow> string" where
  "blank_controls in_gap [] = []"
| "blank_controls in_gap (c # cs) =
    (if is_control c then (if in_gap then [] else '' '') @ blank_controls True cs
     else c # blank_controls False cs)"

definition clean_person_note :: "string option \<Rightarrow> string" where
  "clean_person_note note = (case note of None \<Rightarrow> [] | Some t \<Rightarrow> take note_limit (trim (blank_controls False t)))"

subsection \<open>What an answer means\<close>

definition told :: "feedback \<Rightarrow> feedback" where
  "told f = (case f of Own_words t \<Rightarrow> if t = [] then Declined_tool_call else Own_words (take (note_limit * 2) t) | _ \<Rightarrow> f)"

definition declined_note :: "string option option \<Rightarrow> string option option" where
  "declined_note d = map_option (\<lambda>note. let t = clean_person_note note in if t = [] then None else Some t) d"

fun modification_id :: "modification \<Rightarrow> string" where
  "modification_id (Keep_call i) = i"
| "modification_id (Deny_call i) = i"
| "modification_id (Modify_call i v) = i"

definition verdict_by_modifications :: "modification list \<Rightarrow> string \<Rightarrow> verdict" where
  "verdict_by_modifications ms i =
    (let mods = filter (\<lambda>m. modification_id m = i) ms in
     if Deny_call i \<in> set mods then May_not \<lparr>rf_reason = Told Declined_tool_call, rf_declined = Some None\<rparr>
     else if list_ex (\<lambda>m. case m of Modify_call _ _ \<Rightarrow> True | _ \<Rightarrow> False) mods then refuse_for Edit_not_offered
     else if Keep_call i \<in> set mods then May_run
     else refuse_for Unanswered_call)"

definition interpret_decision :: "resume_decision \<Rightarrow> call_summary \<Rightarrow> verdict" where
  "interpret_decision d tc = (case d of
      Approve_tools _ _ _ _ \<Rightarrow> May_run
    | Continue \<Rightarrow> May_run
    | Reject_tools f declined _ \<Rightarrow> May_not \<lparr>rf_reason = Told (told f), rf_declined = declined_note declined\<rparr>
    | Modify_tools ms _ \<Rightarrow> verdict_by_modifications ms (sm_id tc)
    | Pause _ \<Rightarrow> refuse_for Paused_call
    | Abort _ \<Rightarrow> refuse_for Refused_with_the_turn
    | _ \<Rightarrow> refuse_for Not_this_question)"

definition ends_turn :: "resume_decision \<Rightarrow> bool" where
  "ends_turn d = (case d of Reject_tools _ _ e \<Rightarrow> e | _ \<Rightarrow> False)"

definition cancels :: "resume_decision \<Rightarrow> bool" where
  "cancels d = (case d of Abort _ \<Rightarrow> True | _ \<Rightarrow> False)"

subsection \<open>Which calls are asked about\<close>

definition always_asked :: "call_summary \<Rightarrow> bool" where
  "always_asked tc \<longleftrightarrow> sm_escalation tc \<noteq> None \<or> sm_requires_approval tc \<or> ask_rule tc \<or> explicit_review tc
    \<or> sm_hook_permission tc = Some Hook_ask"

text \<open>What the rules, the mode and the host say of calls at one moment.\<close>

record moment =
  mo_review_allowed :: bool
  mo_gate :: "call_summary \<Rightarrow> gate_decision option answer"
  mo_never_cover :: "(call_summary \<Rightarrow> bool answer) option"
  mo_covers :: "(call_summary \<Rightarrow> bool answer) option"

definition covered_by :: "string list option \<Rightarrow> call_summary \<Rightarrow> bool" where
  "covered_by grants tc = (case grants of None \<Rightarrow> False | Some g \<Rightarrow> grants_cover g (sm_name tc) (sm_input tc))"

definition skips_ask :: "bool \<Rightarrow> string list option \<Rightarrow> call_summary \<Rightarrow> bool" where
  "skips_ask review_allowed grants tc \<longleftrightarrow> \<not> review_allowed \<and> \<not> always_asked tc \<and> (authorized Allow tc \<or> covered_by grants tc)"

definition vetoed :: "(call_summary \<Rightarrow> bool answer) option \<Rightarrow> call_summary \<Rightarrow> bool" where
  "vetoed veto tc = (case veto of None \<Rightarrow> False | Some f \<Rightarrow> (case f tc of Answered v \<Rightarrow> v | Threw \<Rightarrow> True))"

definition host_covers :: "moment \<Rightarrow> call_summary \<Rightarrow> bool" where
  "host_covers m tc = (case mo_covers m of None \<Rightarrow> False | Some f \<Rightarrow> f tc = Answered True)"

definition covered_now :: "string list \<Rightarrow> moment \<Rightarrow> string list option \<Rightarrow> call_summary \<Rightarrow> bool answer" where
  "covered_now gate_denied m grants tc =
    (if always_asked tc \<or> sm_id tc \<in> set gate_denied then Answered False
     else if vetoed (mo_never_cover m) tc then Answered False
     else if mo_review_allowed m then Answered (host_covers m tc)
     else (case mo_gate m tc of
         Threw \<Rightarrow> Threw
       | Answered d \<Rightarrow> Answered (d = Some Allow \<or> covered_by grants tc \<or> host_covers m tc)))"

subsection \<open>After an answer\<close>

definition confirmed_by :: "resume_decision \<Rightarrow> string list" where
  "confirmed_by d = (case d of Approve_tools _ ids _ _ \<Rightarrow> ids | Modify_tools _ ids \<Rightarrow> ids | _ \<Rightarrow> [])"

definition declined_audits :: "(call_summary \<Rightarrow> verdict) \<Rightarrow> call_summary list \<Rightarrow> audit list" where
  "declined_audits v tcs = map (tool_audit False)
    (filter (\<lambda>tc. case v tc of May_not r \<Rightarrow> rf_declined r \<noteq> None | May_run \<Rightarrow> False) tcs)"

text \<open>\<open>#settle\<close>: escapes that were not confirmed, grants to remember, the audit log.\<close>

definition settle_answer :: "string list \<Rightarrow> resume_decision \<Rightarrow> (call_summary \<Rightarrow> verdict) \<Rightarrow> call_summary list \<Rightarrow> string list option
    \<Rightarrow> audit list \<Rightarrow> (call_summary \<Rightarrow> verdict) \<times> string list option \<times> audit list" where
  "settle_answer gate_denied d verdict_of tcs grants audits =
    (let refused = map sm_id (filter (\<lambda>tc. verdict_of tc \<noteq> May_run) tcs);
         (denied, audits1) = settle_escalations (confirmed_by d) tcs refused audits;
         result = (\<lambda>tc. if verdict_of tc = May_run \<and> sm_id tc \<in> set denied then refuse_for Unconfirmed_escape else verdict_of tc);
         approved = filter (\<lambda>tc. result tc = May_run) tcs;
         (grants2, audits2) = (case d of
             Approve_tools remembered _ by_skill by_hook \<Rightarrow>
               (if approved = [] then (grants, audits1)
                else (map_option (\<lambda>g. grant_keys g remembered) grants,
                  audits1 @ grant_audits by_skill by_hook gate_denied approved))
           | _ \<Rightarrow> (grants, audits1))
     in (result, grants2, audits2 @ declined_audits result tcs))"

text \<open>How a question closes: a re-check found it covered, the turn ended, or the host answered.\<close>

datatype closing = By_cover | By_end | By_answer resume_decision

definition settle_closing :: "string list \<Rightarrow> closing \<Rightarrow> call_summary list \<Rightarrow> string list option \<Rightarrow> audit list
    \<Rightarrow> (call_summary \<Rightarrow> verdict) \<times> string list option \<times> audit list" where
  "settle_closing gate_denied c tcs grants audits = (case c of
      By_cover \<Rightarrow> settle_answer gate_denied approve_plain (\<lambda>tc. May_run) tcs grants (audits @ map (tool_audit True) tcs)
    | By_end \<Rightarrow> (\<lambda>tc. refuse_for Refused_with_the_turn, grants, audits)
    | By_answer d \<Rightarrow> settle_answer gate_denied d (interpret_decision d) tcs grants audits)"

definition closing_ends :: "closing \<Rightarrow> bool" where
  "closing_ends c = (case c of By_answer d \<Rightarrow> ends_turn d \<or> cancels d | _ \<Rightarrow> False)"

definition closing_cancels :: "closing \<Rightarrow> bool" where
  "closing_cancels c = (case c of By_answer d \<Rightarrow> cancels d | _ \<Rightarrow> False)"

end
