(* ===== verification/CallWalk.thy ===== *)
theory CallWalk
  imports CallReview
begin

text \<open>
  A batch under a review of each call: the executor's walk over the calls (\<open>runtime/query/executor.ts\<close>,
  \<open>walkReviewed\<close>) together with the review that answers it (\<open>PerCallReview\<close>). Every await is a point where other calls go on: a
  transition is what one call does between two of them. The host's rules may change at any moment; persons
  answer when they like. The wait of a safe call for a permit belongs to its run; what is told to the host by events is left out.
\<close>

subsection \<open>The batch\<close>

text \<open>A call that is safe here is safe to run beside others and no barrier.\<close>

record walk_call =
  wc_id :: string
  wc_safe :: bool

record call_batch =
  cb_calls :: "walk_call list"
  cb_summaries :: "call_summary list"
  cb_gate_denied :: "string list"
  cb_unprepared :: "string list"
  cb_ask_together :: "(call_summary list \<Rightarrow> string list) option"

definition summary_for :: "call_batch \<Rightarrow> string \<Rightarrow> call_summary option" where
  "summary_for b i = find (\<lambda>tc. sm_id tc = i) (cb_summaries b)"

subsection \<open>States\<close>

text \<open>
  Where a call stands: not started; waiting for the calls before it to have opened their questions; being held against the rules;
  its question being prepared; open; answered; decided; running; being refused, after the calls before it if the flag says so; settled.
\<close>

datatype stage =
    Untouched
  | Lined_up
  | Looking
  | Preparing
  | Asking
  | Settling closing
  | Decided verdict
  | Executing
  | Refusing bool refusal
  | Finished

datatype call_result = Ran_to_end | Not_run refusal

record walk_state =
  ws_units :: "walk_call list"
  ws_cursor :: nat
  ws_stage :: "nat \<Rightarrow> stage"
  ws_ended :: bool
  ws_cancelled :: bool
  ws_refused :: nat
  ws_together :: "string list"
  ws_grants :: "string list option"
  ws_results :: "nat \<rightharpoonup> call_result"
  ws_order :: "nat list"
  ws_failure :: bool
  ws_answers :: "(call_summary list \<times> resume_decision) list"
  ws_audits :: "audit list"

definition move :: "nat \<Rightarrow> stage \<Rightarrow> walk_state \<Rightarrow> walk_state" where
  "move i st s = s\<lparr>ws_stage := (ws_stage s)(i := st)\<rparr>"

text \<open>\<open>#end\<close>: the open questions close. A question that is answered already is not open.\<close>

definition end_turn :: "bool \<Rightarrow> walk_state \<Rightarrow> walk_state" where
  "end_turn cancelled s = (if ws_ended s then s
    else s\<lparr>ws_ended := True, ws_cancelled := cancelled,
      ws_stage := (\<lambda>i. if ws_stage s i = Asking then Settling By_end else ws_stage s i)\<rparr>)"

definition note_end :: "closing \<Rightarrow> walk_state \<Rightarrow> walk_state" where
  "note_end c s = (if closing_ends c then end_turn (closing_cancels c) s else s)"

subsection \<open>The question asked first\<close>

definition asked_first :: "call_batch \<Rightarrow> bool \<Rightarrow> string list option \<Rightarrow> call_summary list" where
  "asked_first b review_allowed grants = (case cb_ask_together b of
      None \<Rightarrow> []
    | Some wanted \<Rightarrow>
        let askable = filter (\<lambda>tc. sm_id tc \<notin> set (cb_gate_denied b) \<and> \<not> skips_ask review_allowed grants tc) (cb_summaries b)
        in filter (\<lambda>tc. sm_id tc \<in> set (wanted askable)) askable)"

definition no_walk :: "string list option \<Rightarrow> walk_state" where
  "no_walk grants = \<lparr>ws_units = [], ws_cursor = 0, ws_stage = (\<lambda>i. Untouched), ws_ended = False, ws_cancelled = False, ws_refused = 0,
    ws_together = [], ws_grants = grants, ws_results = Map.empty, ws_order = [], ws_failure = False, ws_answers = [], ws_audits = []\<rparr>"

text \<open>The calls that are not refused before the walk are its units.\<close>

definition begin_walk :: "call_batch \<Rightarrow> string list \<Rightarrow> walk_state \<Rightarrow> walk_state" where
  "begin_walk b denied s = s\<lparr>ws_units := filter (\<lambda>c. wc_id c \<notin> set denied) (cb_calls b)\<rparr>"

definition log_answer :: "call_summary list \<Rightarrow> closing \<Rightarrow> walk_state \<Rightarrow> walk_state" where
  "log_answer tcs c s = (case c of By_answer d \<Rightarrow> s\<lparr>ws_answers := ws_answers s @ [(tcs, d)]\<rparr> | _ \<Rightarrow> s)"

definition ask_together_first :: "call_batch \<Rightarrow> call_summary list \<Rightarrow> closing \<Rightarrow> walk_state \<Rightarrow> walk_state" where
  "ask_together_first b tcs c s =
    (let (verdict_of, grants, audits) = settle_closing (cb_gate_denied b) c tcs (ws_grants s) (ws_audits s);
         refused = map sm_id (filter (\<lambda>tc. verdict_of tc \<noteq> May_run) tcs);
         approved = map sm_id (filter (\<lambda>tc. verdict_of tc = May_run) tcs)
     in begin_walk b (cb_gate_denied b @ refused)
          (note_end c ((log_answer tcs c s)\<lparr>ws_together := approved, ws_grants := grants, ws_audits := audits\<rparr>)))"

subsection \<open>The walk\<close>

definition in_flight :: "walk_state \<Rightarrow> nat \<Rightarrow> bool" where
  "in_flight s i \<longleftrightarrow> ws_stage s i \<noteq> Untouched \<and> ws_stage s i \<noteq> Finished"

definition unit_safe :: "walk_state \<Rightarrow> nat \<Rightarrow> bool" where
  "unit_safe s i = wc_safe (ws_units s ! i)"

definition may_begin :: "walk_state \<Rightarrow> nat \<Rightarrow> bool" where
  "may_begin s i \<longleftrightarrow> (let others = filter (in_flight s) [0..<length (ws_units s)]
     in others = [] \<or> (unit_safe s i \<and> list_all (unit_safe s) others))"

definition begin_unit :: "walk_state \<Rightarrow> walk_state" where
  "begin_unit s = (move (ws_cursor s) Lined_up s)\<lparr>ws_cursor := ws_cursor s + 1\<rparr>"

text \<open>A call leaves the line when the host has been given its question or the review is done with it.\<close>

definition has_left :: "stage \<Rightarrow> bool" where
  "has_left st \<longleftrightarrow> st \<notin> {Untouched, Lined_up, Looking, Preparing}"

definition decide :: "nat \<Rightarrow> verdict \<Rightarrow> walk_state \<Rightarrow> walk_state" where
  "decide i v s = (move i (Decided v) s)\<lparr>ws_refused := (if v = May_run then ws_refused s else ws_refused s + 1)\<rparr>"

text \<open>\<open>#decide\<close>, up to its first check against the rules of the moment\<close>

definition look_up :: "call_batch \<Rightarrow> bool \<Rightarrow> nat \<Rightarrow> walk_state \<Rightarrow> walk_state" where
  "look_up b review_allowed i s =
    (let k = wc_id (ws_units s ! i) in
     if ws_ended s then decide i (refuse_for Refused_with_the_turn) s
     else if k \<in> set (ws_together s) then decide i May_run s
     else (case summary_for b k of
         None \<Rightarrow> decide i (if k \<in> set (cb_unprepared b) then May_run else refuse_for Unanswered_call) s
       | Some tc \<Rightarrow> if skips_ask review_allowed (ws_grants s) tc then decide i May_run s else move i Looking s))"

definition the_summary :: "call_batch \<Rightarrow> walk_state \<Rightarrow> nat \<Rightarrow> call_summary" where
  "the_summary b s i = the (summary_for b (wc_id (ws_units s ! i)))"

text \<open>An exception on the way to a verdict refuses the call, in the walk.\<close>

definition give_up :: "nat \<Rightarrow> walk_state \<Rightarrow> walk_state" where
  "give_up i s = move i (Decided (refuse_for Approval_not_completed)) s"

definition check_rules :: "call_batch \<Rightarrow> moment \<Rightarrow> nat \<Rightarrow> walk_state \<Rightarrow> walk_state" where
  "check_rules b m i s = (case covered_now (cb_gate_denied b) m (ws_grants s) (the_summary b s i) of
      Threw \<Rightarrow> give_up i s
    | Answered True \<Rightarrow> decide i May_run (s\<lparr>ws_audits := ws_audits s @ [tool_audit True (the_summary b s i)]\<rparr>)
    | Answered False \<Rightarrow> move i Preparing s)"

definition receive :: "call_batch \<Rightarrow> closing \<Rightarrow> nat \<Rightarrow> walk_state \<Rightarrow> walk_state" where
  "receive b c i s = log_answer [the_summary b s i] c (move i (Settling c) s)"

text \<open>What an answer does to grants and the audit log, then the end it may bring, then the verdict\<close>

definition after_answer :: "call_batch \<Rightarrow> closing \<Rightarrow> nat \<Rightarrow> walk_state \<Rightarrow> walk_state" where
  "after_answer b c i s =
    (let (verdict_of, grants, audits) = settle_closing (cb_gate_denied b) c [the_summary b s i] (ws_grants s) (ws_audits s)
     in s\<lparr>ws_grants := grants, ws_audits := audits\<rparr>)"

definition answer_verdict :: "call_batch \<Rightarrow> closing \<Rightarrow> nat \<Rightarrow> walk_state \<Rightarrow> verdict" where
  "answer_verdict b c i s =
    fst (settle_closing (cb_gate_denied b) c [the_summary b s i] (ws_grants s) (ws_audits s)) (the_summary b s i)"

definition conclude_answer :: "call_batch \<Rightarrow> closing \<Rightarrow> nat \<Rightarrow> walk_state \<Rightarrow> walk_state" where
  "conclude_answer b c i s = decide i (answer_verdict b c i s) (note_end c (after_answer b c i s))"

text \<open>The walk takes a verdict: a yes counts only while the turn has not ended.\<close>

definition take_verdict :: "nat \<Rightarrow> verdict \<Rightarrow> walk_state \<Rightarrow> walk_state" where
  "take_verdict i v s = (case v of
      May_run \<Rightarrow> if ws_ended s then move i (Refusing True \<lparr>rf_reason = Refused_after_end, rf_declined = None\<rparr>) s else move i Executing s
    | May_not r \<Rightarrow> move i (Refusing (ws_ended s) r) s)"

definition finish :: "nat \<Rightarrow> call_result \<Rightarrow> walk_state \<Rightarrow> walk_state" where
  "finish i r s = (move i Finished s)\<lparr>ws_results := (ws_results s)(i \<mapsto> r), ws_order := ws_order s @ [i]\<rparr>"

definition fail :: "nat \<Rightarrow> walk_state \<Rightarrow> walk_state" where
  "fail i s = (move i Finished s)\<lparr>ws_failure := True\<rparr>"

definition earlier_finished :: "walk_state \<Rightarrow> nat \<Rightarrow> bool" where
  "earlier_finished s i = list_all (\<lambda>j. ws_stage s j = Finished) [0..<i]"

subsection \<open>Transitions\<close>

inductive walk_step :: "call_batch \<Rightarrow> walk_state \<Rightarrow> walk_state \<Rightarrow> bool" for b where
  walk_begin: "ws_cursor s < length (ws_units s) \<Longrightarrow> ws_ended s \<or> may_begin s (ws_cursor s) \<Longrightarrow> walk_step b s (begin_unit s)"
| walk_look_up: "ws_stage s i = Lined_up \<Longrightarrow> i = 0 \<or> has_left (ws_stage s (i - 1)) \<Longrightarrow> walk_step b s (look_up b ra i s)"
| walk_check: "ws_stage s i = Looking \<Longrightarrow> walk_step b s (check_rules b m i s)"
| walk_open: "ws_stage s i = Preparing \<Longrightarrow> walk_step b s (move i Asking s)"
| walk_no_open: "ws_stage s i = Preparing \<Longrightarrow> walk_step b s (give_up i s)"
| walk_answer: "ws_stage s i = Asking \<Longrightarrow> walk_step b s (receive b (By_answer d) i s)"
| walk_cover: "ws_stage s i = Asking \<Longrightarrow> \<not> ws_ended s
    \<Longrightarrow> covered_now (cb_gate_denied b) m (ws_grants s) (the_summary b s i) = Answered True \<Longrightarrow> walk_step b s (receive b By_cover i s)"
| walk_conclude: "ws_stage s i = Settling c \<Longrightarrow> walk_step b s (conclude_answer b c i s)"
| walk_no_conclude: "ws_stage s i = Settling c \<Longrightarrow> s' = s \<or> s' = after_answer b c i s \<Longrightarrow> walk_step b s (give_up i s')"
| walk_take: "ws_stage s i = Decided v \<Longrightarrow> walk_step b s (take_verdict i v s)"
| walk_ran: "ws_stage s i = Executing \<Longrightarrow> walk_step b s (finish i Ran_to_end s)"
| walk_refused: "ws_stage s i = Refusing wait r \<Longrightarrow> \<not> wait \<or> earlier_finished s i \<Longrightarrow> walk_step b s (finish i (Not_run r) s)"
| walk_fail: "ws_stage s i = Executing \<or> (\<exists>wait r. ws_stage s i = Refusing wait r \<and> (\<not> wait \<or> earlier_finished s i)) \<Longrightarrow> walk_step b s (fail i s)"

text \<open>A question about several calls is closed by its answer only; one about a single call also by a re-check.\<close>

inductive walk_reach :: "call_batch \<Rightarrow> walk_state \<Rightarrow> bool" for b where
  reach_alone: "asked_first b ra grants = [] \<Longrightarrow> walk_reach b (begin_walk b (cb_gate_denied b) (no_walk grants))"
| reach_together: "asked_first b ra grants = tcs \<Longrightarrow> tcs \<noteq> []
    \<Longrightarrow> (\<exists>d. c = By_answer d) \<or> (c = By_cover \<and> (\<exists>tc m. tcs = [tc] \<and> covered_now (cb_gate_denied b) m grants tc = Answered True))
    \<Longrightarrow> walk_reach b (ask_together_first b tcs c (no_walk grants))"
| reach_walk: "walk_reach b s \<Longrightarrow> walk_step b s s' \<Longrightarrow> walk_reach b s'"

end
