(* ===== verification/CallWalkProofs.thy ===== *)
theory CallWalkProofs
  imports CallWalk
begin

text \<open>
  What a walk keeps: calls move one way through their stages and questions open in the order of the calls; which calls are under
  way together; that nothing runs once the turn has ended; and that a walk ends when its questions are answered.
\<close>

subsection \<open>What the parts of a transition change\<close>

lemmas walk_defs = move_def end_turn_def note_end_def begin_unit_def decide_def give_up_def log_answer_def
  receive_def after_answer_def finish_def fail_def

lemma move_simps [simp]:
  "ws_stage (move i st s) = (ws_stage s)(i := st)" "ws_units (move i st s) = ws_units s" "ws_cursor (move i st s) = ws_cursor s"
  "ws_ended (move i st s) = ws_ended s" "ws_together (move i st s) = ws_together s" "ws_results (move i st s) = ws_results s"
  "ws_answers (move i st s) = ws_answers s" "ws_grants (move i st s) = ws_grants s" "ws_audits (move i st s) = ws_audits s"
  "ws_failure (move i st s) = ws_failure s"
  by (simp_all add: move_def)

lemma decide_simps [simp]:
  "ws_stage (decide i v s) = (ws_stage s)(i := Decided v)" "ws_units (decide i v s) = ws_units s" "ws_cursor (decide i v s) = ws_cursor s"
  "ws_ended (decide i v s) = ws_ended s" "ws_together (decide i v s) = ws_together s" "ws_results (decide i v s) = ws_results s"
  "ws_answers (decide i v s) = ws_answers s" "ws_failure (decide i v s) = ws_failure s"
  by (simp_all add: decide_def)

lemma give_up_simps [simp]:
  "ws_stage (give_up i s) = (ws_stage s)(i := Decided (refuse_for Approval_not_completed))" "ws_units (give_up i s) = ws_units s"
  "ws_cursor (give_up i s) = ws_cursor s" "ws_ended (give_up i s) = ws_ended s" "ws_together (give_up i s) = ws_together s"
  "ws_results (give_up i s) = ws_results s" "ws_answers (give_up i s) = ws_answers s" "ws_failure (give_up i s) = ws_failure s"
  by (simp_all add: give_up_def)

lemma log_answer_simps [simp]:
  "ws_stage (log_answer tcs c s) = ws_stage s" "ws_units (log_answer tcs c s) = ws_units s" "ws_cursor (log_answer tcs c s) = ws_cursor s"
  "ws_ended (log_answer tcs c s) = ws_ended s" "ws_together (log_answer tcs c s) = ws_together s" "ws_results (log_answer tcs c s) = ws_results s"
  "ws_failure (log_answer tcs c s) = ws_failure s"
  "ws_answers (log_answer tcs c s) = ws_answers s @ (case c of By_answer d \<Rightarrow> [(tcs, d)] | _ \<Rightarrow> [])"
  by (simp_all add: log_answer_def split: closing.split)

lemma after_answer_simps [simp]:
  "ws_stage (after_answer b c i s) = ws_stage s" "ws_units (after_answer b c i s) = ws_units s" "ws_cursor (after_answer b c i s) = ws_cursor s"
  "ws_ended (after_answer b c i s) = ws_ended s" "ws_together (after_answer b c i s) = ws_together s"
  "ws_results (after_answer b c i s) = ws_results s" "ws_answers (after_answer b c i s) = ws_answers s" "ws_failure (after_answer b c i s) = ws_failure s"
  by (simp_all add: after_answer_def split_beta)

lemma note_end_simps [simp]:
  "ws_units (note_end c s) = ws_units s" "ws_cursor (note_end c s) = ws_cursor s" "ws_together (note_end c s) = ws_together s"
  "ws_results (note_end c s) = ws_results s" "ws_answers (note_end c s) = ws_answers s" "ws_failure (note_end c s) = ws_failure s"
  "ws_ended (note_end c s) \<longleftrightarrow> ws_ended s \<or> closing_ends c"
  by (auto simp: note_end_def end_turn_def)

lemma note_end_stage:
  "ws_stage (note_end c s) j = (if closing_ends c \<and> \<not> ws_ended s \<and> ws_stage s j = Asking then Settling By_end else ws_stage s j)"
  by (simp add: note_end_def end_turn_def)

lemma finish_simps [simp]:
  "ws_stage (finish i r s) = (ws_stage s)(i := Finished)" "ws_units (finish i r s) = ws_units s" "ws_cursor (finish i r s) = ws_cursor s"
  "ws_ended (finish i r s) = ws_ended s" "ws_together (finish i r s) = ws_together s" "ws_results (finish i r s) = (ws_results s)(i \<mapsto> r)"
  "ws_answers (finish i r s) = ws_answers s" "ws_failure (finish i r s) = ws_failure s"
  by (simp_all add: finish_def)

lemma fail_simps [simp]:
  "ws_stage (fail i s) = (ws_stage s)(i := Finished)" "ws_units (fail i s) = ws_units s" "ws_cursor (fail i s) = ws_cursor s"
  "ws_ended (fail i s) = ws_ended s" "ws_together (fail i s) = ws_together s" "ws_results (fail i s) = ws_results s"
  "ws_answers (fail i s) = ws_answers s" "ws_failure (fail i s)"
  by (simp_all add: fail_def)

text \<open>Looking a call up and holding it against the rules end in one of a few moves.\<close>

lemma look_up_cases:
  obtains (ended) "ws_ended s" "look_up b ra i s = decide i (refuse_for Refused_with_the_turn) s"
  | (together) "\<not> ws_ended s" "wc_id (ws_units s ! i) \<in> set (ws_together s)" "look_up b ra i s = decide i May_run s"
  | (unseen) v where "\<not> ws_ended s" "summary_for b (wc_id (ws_units s ! i)) = None" "look_up b ra i s = decide i v s"
      "v = May_run \<Longrightarrow> wc_id (ws_units s ! i) \<in> set (cb_unprepared b)"
  | (allowed) tc where "\<not> ws_ended s" "summary_for b (wc_id (ws_units s ! i)) = Some tc" "\<not> always_asked tc" "look_up b ra i s = decide i May_run s"
  | (looks) tc where "\<not> ws_ended s" "wc_id (ws_units s ! i) \<notin> set (ws_together s)" "summary_for b (wc_id (ws_units s ! i)) = Some tc"
      "look_up b ra i s = move i Looking s"
proof (cases "ws_ended s \<or> wc_id (ws_units s ! i) \<in> set (ws_together s)")
  case True
  then show ?thesis using ended together by (cases "ws_ended s") (simp_all add: look_up_def Let_def)
next
  case False
  show ?thesis
  proof (cases "summary_for b (wc_id (ws_units s ! i))")
    case None
    then show ?thesis using False unseen [of May_run] unseen [of "refuse_for Unanswered_call"]
      by (cases "wc_id (ws_units s ! i) \<in> set (cb_unprepared b)") (simp_all add: look_up_def Let_def)
  next
    case (Some tc)
    note tc = Some
    show ?thesis
    proof (cases "skips_ask ra (ws_grants s) tc")
      case True
      then have "\<not> always_asked tc" by (simp add: skips_ask_def)
      then show ?thesis using allowed [OF _ tc] False tc True by (simp add: look_up_def Let_def)
    next
      case n: False
      then show ?thesis using looks [OF _ _ tc] False tc by (simp add: look_up_def Let_def)
    qed
  qed
qed

lemma check_rules_cases:
  obtains (threw) "check_rules b m i s = give_up i s"
  | (covered) a where "covered_now (cb_gate_denied b) m (ws_grants s) (the_summary b s i) = Answered True"
      "check_rules b m i s = decide i May_run (s\<lparr>ws_audits := a\<rparr>)"
  | (asks) "check_rules b m i s = move i Preparing s"
proof (cases "covered_now (cb_gate_denied b) m (ws_grants s) (the_summary b s i)")
  case Threw
  then show ?thesis using threw by (simp add: check_rules_def)
next
  case (Answered a)
  then show ?thesis using covered asks by (cases a) (simp_all add: check_rules_def)
qed

lemma covered_not_asked: "covered_now gd m g tc = Answered True \<Longrightarrow> \<not> always_asked tc"
  by (auto simp: covered_now_def split: if_splits)

lemma take_verdict_cases:
  obtains (runs) "v = May_run" "\<not> ws_ended s" "take_verdict i v s = move i Executing s"
  | (late) "v = May_run" "ws_ended s" "take_verdict i v s = move i (Refusing True \<lparr>rf_reason = Refused_after_end, rf_declined = None\<rparr>) s"
  | (refused) r where "v = May_not r" "take_verdict i v s = move i (Refusing (ws_ended s) r) s"
  by (cases v; cases "ws_ended s") (simp_all add: take_verdict_def)

subsection \<open>Stages\<close>

fun rank :: "stage \<Rightarrow> nat" where
  "rank Untouched = 0"
| "rank Lined_up = 1"
| "rank Looking = 2"
| "rank Preparing = 3"
| "rank Asking = 4"
| "rank (Settling c) = 5"
| "rank (Decided v) = 6"
| "rank Executing = 7"
| "rank (Refusing wait r) = 7"
| "rank Finished = 8"

text \<open>One call moves on; when the turn ends with it, open questions close.\<close>

definition moved :: "nat \<Rightarrow> walk_state \<Rightarrow> walk_state \<Rightarrow> bool" where
  "moved i s s' \<longleftrightarrow> ws_units s' = ws_units s \<and> rank (ws_stage s i) < rank (ws_stage s' i) \<and> (ws_ended s \<longrightarrow> ws_ended s')
    \<and> (\<forall>j. j \<noteq> i \<longrightarrow> ws_stage s' j = ws_stage s j \<or> (ws_stage s j = Asking \<and> ws_stage s' j = Settling By_end \<and> \<not> ws_ended s \<and> ws_ended s'))
    \<and> (ws_stage s i = Untouched \<longrightarrow> i = ws_cursor s \<and> i < length (ws_units s) \<and> ws_cursor s' = Suc i \<and> ws_stage s' i = Lined_up
        \<and> (ws_ended s \<or> may_begin s i))
    \<and> (ws_stage s i \<noteq> Untouched \<longrightarrow> ws_cursor s' = ws_cursor s)
    \<and> (ws_stage s i = Lined_up \<longrightarrow> i = 0 \<or> has_left (ws_stage s (i - 1)))
    \<and> (ws_stage s' i = Executing \<longrightarrow> \<not> ws_ended s)"

lemma movedD:
  assumes "moved i s s'"
  shows "ws_units s' = ws_units s" "rank (ws_stage s i) < rank (ws_stage s' i)" "ws_ended s \<Longrightarrow> ws_ended s'"
    "j \<noteq> i \<Longrightarrow> ws_stage s' j = ws_stage s j \<or> (ws_stage s j = Asking \<and> ws_stage s' j = Settling By_end \<and> \<not> ws_ended s \<and> ws_ended s')"
    "ws_stage s i = Untouched \<Longrightarrow> i = ws_cursor s \<and> i < length (ws_units s) \<and> ws_cursor s' = Suc i \<and> ws_stage s' i = Lined_up
        \<and> (ws_ended s \<or> may_begin s i)"
    "ws_stage s i \<noteq> Untouched \<Longrightarrow> ws_cursor s' = ws_cursor s"
    "ws_stage s i = Lined_up \<Longrightarrow> i = 0 \<or> has_left (ws_stage s (i - 1))"
    "ws_stage s' i = Executing \<Longrightarrow> \<not> ws_ended s"
  using assms unfolding moved_def by blast+

lemma moved_one:
  assumes "ws_stage s' = (ws_stage s)(i := st)" "ws_units s' = ws_units s" "ws_ended s' = ws_ended s" "ws_cursor s' = ws_cursor s"
    "ws_stage s i \<noteq> Untouched" "rank (ws_stage s i) < rank st" "ws_stage s i = Lined_up \<Longrightarrow> i = 0 \<or> has_left (ws_stage s (i - 1))"
    "st = Executing \<Longrightarrow> \<not> ws_ended s"
  shows "moved i s s'"
  using assms by (simp add: moved_def)

lemma walk_step_moved:
  assumes "walk_step b s s'" "ws_stage s (ws_cursor s) = Untouched"
  shows "\<exists>i. moved i s s'"
  using assms(1)
proof cases
  case walk_begin
  then show ?thesis using assms(2) by (intro exI [of _ "ws_cursor s"]) (simp add: moved_def begin_unit_def)
next
  case (walk_look_up i ra)
  have "moved i s (look_up b ra i s)"
    by (cases rule: look_up_cases [of s b ra i]) (use walk_look_up in \<open>auto intro!: moved_one\<close>)
  then show ?thesis using walk_look_up(1) by blast
next
  case (walk_check i m)
  have "moved i s (check_rules b m i s)"
    by (cases rule: check_rules_cases [of b m i s]) (use walk_check in \<open>auto intro!: moved_one\<close>)
  then show ?thesis using walk_check(1) by blast
next
  case (walk_open i)
  then show ?thesis by (intro exI [of _ i] moved_one [where st = Asking]) auto
next
  case (walk_no_open i)
  then show ?thesis by (intro exI [of _ i] moved_one [where st = "Decided (refuse_for Approval_not_completed)"]) auto
next
  case (walk_answer i d)
  then show ?thesis by (intro exI [of _ i] moved_one [where st = "Settling (By_answer d)"]) (auto simp: receive_def)
next
  case (walk_cover i m)
  then show ?thesis by (intro exI [of _ i] moved_one [where st = "Settling By_cover"]) (auto simp: receive_def)
next
  case (walk_conclude i c)
  then have "moved i s s'" by (auto simp: moved_def conclude_answer_def note_end_stage)
  then show ?thesis by blast
next
  case (walk_no_conclude i c s'')
  then show ?thesis by (intro exI [of _ i] moved_one [where st = "Decided (refuse_for Approval_not_completed)"]) auto
next
  case (walk_take i v)
  have "moved i s (take_verdict i v s)"
    by (cases rule: take_verdict_cases [of v s i]) (use walk_take in \<open>auto intro!: moved_one\<close>)
  then show ?thesis using walk_take(1) by blast
next
  case (walk_ran i)
  then show ?thesis by (intro exI [of _ i] moved_one [where st = Finished]) auto
next
  case (walk_refused i wait r)
  then show ?thesis by (intro exI [of _ i] moved_one [where st = Finished]) auto
next
  case (walk_fail i)
  then show ?thesis by (intro exI [of _ i] moved_one [where st = Finished]) auto
qed

text \<open>The calls before the cursor have started, and a call past the line has all before it past their questions.\<close>

definition stages_ok :: "walk_state \<Rightarrow> bool" where
  "stages_ok s \<longleftrightarrow> ws_cursor s \<le> length (ws_units s)
    \<and> (\<forall>i. ws_stage s i = Untouched \<longleftrightarrow> ws_cursor s \<le> i)
    \<and> (\<forall>i j. 1 < rank (ws_stage s i) \<longrightarrow> j < i \<longrightarrow> has_left (ws_stage s j))"

lemma has_left_rank: "has_left st \<longleftrightarrow> 4 \<le> rank st"
  by (cases st) (simp_all add: has_left_def)

lemma moved_ranks: "moved i s s' \<Longrightarrow> rank (ws_stage s j) \<le> rank (ws_stage s' j)"
  using movedD(2,4) [of i s s'] by (cases "j = i") force+

lemma moved_untouched:
  assumes "moved i s s'" "stages_ok s"
  shows "ws_stage s' j = Untouched \<longleftrightarrow> ws_cursor s' \<le> j"
proof (cases "j = i")
  case True
  show ?thesis
  proof (cases "ws_stage s i = Untouched")
    case True
    then show ?thesis using movedD(5) [OF assms(1) True] \<open>j = i\<close> by auto
  next
    case False
    then have "ws_cursor s' = ws_cursor s" "rank (ws_stage s' i) > 0" using movedD(2,6) [OF assms(1)] by auto
    moreover have "i < ws_cursor s" using False assms(2) by (simp add: stages_ok_def not_le)
    ultimately show ?thesis using \<open>j = i\<close> by auto
  qed
next
  case False
  have u: "ws_stage s' j = Untouched \<longleftrightarrow> ws_stage s j = Untouched" using movedD(4) [OF assms(1) False] by auto
  also have "\<dots> \<longleftrightarrow> ws_cursor s \<le> j" using assms(2) by (simp add: stages_ok_def)
  also have "\<dots> \<longleftrightarrow> ws_cursor s' \<le> j"
  proof (cases "ws_stage s i = Untouched")
    case True
    then have "i = ws_cursor s" "ws_cursor s' = Suc i" using movedD(5) [OF assms(1)] by blast+
    then show ?thesis using False by auto
  next
    case n: False
    then have "ws_cursor s' = ws_cursor s" using movedD(6) [OF assms(1)] by blast
    then show ?thesis by simp
  qed
  finally show ?thesis .
qed

lemma rank_one: "rank st \<le> 1 \<longleftrightarrow> st = Untouched \<or> st = Lined_up"
  by (cases st) simp_all

lemma moved_stages_ok:
  assumes "moved i s s'" "stages_ok s"
  shows "stages_ok s'"
  unfolding stages_ok_def
proof (intro conjI allI impI)
  show "ws_stage s' j = Untouched \<longleftrightarrow> ws_cursor s' \<le> j" for j by (rule moved_untouched [OF assms])
  show "ws_cursor s' \<le> length (ws_units s')"
    using assms(2) movedD(1,5,6) [OF assms(1)] unfolding stages_ok_def by (cases "ws_stage s i = Untouched") auto
  have line: "has_left (ws_stage s j)" if "1 < rank (ws_stage s k)" "j < k" for j k using assms(2) that unfolding stages_ok_def by blast
  have keep: "has_left (ws_stage s' j)" if "has_left (ws_stage s j)" for j
    using that moved_ranks [OF assms(1), of j] by (simp add: has_left_rank)
  fix k j assume k: "1 < rank (ws_stage s' k)" and j: "j < k"
  show "has_left (ws_stage s' j)"
  proof (cases "1 < rank (ws_stage s k)")
    case True
    then show ?thesis using line j keep by blast
  next
    case False
    then have low: "ws_stage s k = Untouched \<or> ws_stage s k = Lined_up" using rank_one [of "ws_stage s k"] by simp
    have "k = i"
    proof (rule ccontr)
      assume "k \<noteq> i"
      then have "ws_stage s' k = ws_stage s k" using movedD(4) [OF assms(1), of k] low by auto
      then show False using k False by simp
    qed
    then have "ws_stage s k = Lined_up" using movedD(5) [OF assms(1)] low k by auto
    then have "has_left (ws_stage s (k - 1))" "0 < k" using movedD(7) [OF assms(1)] \<open>k = i\<close> j by auto
    then show ?thesis using line [of "k - 1" j] keep j by (cases "j = k - 1") (auto simp: has_left_rank)
  qed
qed

lemma begin_walk_stage [simp]: "ws_stage (begin_walk b ds s) = ws_stage s" "ws_cursor (begin_walk b ds s) = ws_cursor s"
  "ws_ended (begin_walk b ds s) = ws_ended s" "ws_together (begin_walk b ds s) = ws_together s" "ws_answers (begin_walk b ds s) = ws_answers s"
  "ws_results (begin_walk b ds s) = ws_results s" "ws_failure (begin_walk b ds s) = ws_failure s"
  "ws_units (begin_walk b ds s) = filter (\<lambda>c. wc_id c \<notin> set ds) (cb_calls b)"
  by (simp_all add: begin_walk_def)

lemma no_walk_simps [simp]: "ws_stage (no_walk g) = (\<lambda>i. Untouched)" "ws_cursor (no_walk g) = 0" "ws_ended (no_walk g) = False"
  "ws_answers (no_walk g) = []" "ws_results (no_walk g) = Map.empty" "ws_failure (no_walk g) = False" "ws_together (no_walk g) = []"
  by (simp_all add: no_walk_def)

lemma together_start:
  "ws_stage (ask_together_first b tcs c (no_walk g)) = (\<lambda>i. Untouched)" "ws_cursor (ask_together_first b tcs c (no_walk g)) = 0"
  "ws_results (ask_together_first b tcs c (no_walk g)) = Map.empty" "\<not> ws_failure (ask_together_first b tcs c (no_walk g))"
  by (auto simp: ask_together_first_def split_beta Let_def note_end_stage fun_eq_iff)

lemma fresh_stages_ok: "ws_stage s = (\<lambda>i. Untouched) \<Longrightarrow> ws_cursor s = 0 \<Longrightarrow> stages_ok s"
  by (simp add: stages_ok_def)

lemma stages_ok_cursor: "stages_ok s \<Longrightarrow> ws_stage s (ws_cursor s) = Untouched"
  by (simp add: stages_ok_def)

lemma reach_stages_ok: "walk_reach b s \<Longrightarrow> stages_ok s"
proof (induction rule: walk_reach.induct)
  case (reach_alone ra grants)
  show ?case by (rule fresh_stages_ok) simp_all
next
  case (reach_together ra grants tcs c)
  show ?case by (rule fresh_stages_ok) (simp_all add: together_start)
next
  case (reach_walk s s')
  then show ?case using walk_step_moved [OF reach_walk(2) stages_ok_cursor] moved_stages_ok by blast
qed

lemma reach_moved: "walk_reach b s \<Longrightarrow> walk_step b s s' \<Longrightarrow> \<exists>i. moved i s s'"
  using walk_step_moved stages_ok_cursor reach_stages_ok by blast

subsection \<open>Side by side\<close>

definition beside_ok :: "walk_state \<Rightarrow> bool" where
  "beside_ok s \<longleftrightarrow> (\<forall>i j. i \<noteq> j \<longrightarrow>
      (\<not> ws_ended s \<and> in_flight s i \<and> in_flight s j \<longrightarrow> unit_safe s i \<and> unit_safe s j)
      \<and> (ws_stage s i = Executing \<and> ws_stage s j = Executing \<longrightarrow> unit_safe s i \<and> unit_safe s j))"

lemma beside_okD:
  assumes "beside_ok s" "i \<noteq> j"
  shows "\<not> ws_ended s \<Longrightarrow> in_flight s i \<Longrightarrow> in_flight s j \<Longrightarrow> unit_safe s i \<and> unit_safe s j"
    "ws_stage s i = Executing \<Longrightarrow> ws_stage s j = Executing \<Longrightarrow> unit_safe s i \<and> unit_safe s j"
  using assms unfolding beside_ok_def by blast+

lemma moved_unit_safe: "moved i s s' \<Longrightarrow> unit_safe s' j = unit_safe s j"
  by (simp add: unit_safe_def movedD(1))

text \<open>A call that is under way was so before, or is the one that began.\<close>

lemma moved_in_flight:
  assumes "moved i s s'" "in_flight s' j"
  shows "in_flight s j \<or> (j = i \<and> ws_stage s i = Untouched)"
proof (cases "j = i")
  case True
  have "ws_stage s i \<noteq> Finished"
  proof
    assume "ws_stage s i = Finished"
    then have "8 < rank (ws_stage s' i)" using movedD(2) [OF assms(1)] by simp
    then show False by (cases "ws_stage s' i") simp_all
  qed
  then show ?thesis using True by (auto simp: in_flight_def)
next
  case False
  then show ?thesis using movedD(4) [OF assms(1) False] assms(2) by (auto simp: in_flight_def)
qed

lemma moved_executing:
  assumes "moved i s s'" "ws_stage s' j = Executing"
  shows "in_flight s' j" "ws_stage s j = Executing \<or> (j = i \<and> \<not> ws_ended s)" "j \<noteq> i \<Longrightarrow> ws_stage s j = Executing"
proof -
  show "in_flight s' j" using assms(2) by (simp add: in_flight_def)
  show "ws_stage s j = Executing \<or> (j = i \<and> \<not> ws_ended s)"
    using movedD(4) [OF assms(1), of j] movedD(8) [OF assms(1)] assms(2) by (cases "j = i") auto
  show "j \<noteq> i \<Longrightarrow> ws_stage s j = Executing" using movedD(4) [OF assms(1), of j] assms(2) by auto
qed

lemma in_flight_below: "stages_ok s \<Longrightarrow> in_flight s i \<Longrightarrow> i < length (ws_units s)"
  by (auto simp: stages_ok_def in_flight_def not_le [symmetric])

lemma may_begin_safe:
  assumes "may_begin s i" "in_flight s j" "j < length (ws_units s)"
  shows "unit_safe s i \<and> unit_safe s j"
proof -
  have "j \<in> set (filter (in_flight s) [0..<length (ws_units s)])" using assms(2,3) by simp
  then show ?thesis using assms(1) unfolding may_begin_def Let_def list_all_iff by (metis empty_iff empty_set)
qed

lemma moved_beside_ok:
  assumes m: "moved i s s'" and st: "stages_ok s" and ok: "beside_ok s"
  shows "beside_ok s'"
  unfolding beside_ok_def
proof (intro allI impI conjI)
  fix j k :: nat assume jk: "j \<noteq> k"
  have pair: "unit_safe s j' \<and> unit_safe s k'"
    if e: "\<not> ws_ended s'" and f: "in_flight s' j'" "in_flight s' k'" and d: "j' \<noteq> k'" and b: "ws_stage s i = Untouched" "k' = i" for j' k'
  proof -
    have "\<not> ws_ended s" using e movedD(3) [OF m] by blast
    then have b': "may_begin s i" using movedD(5) [OF m b(1)] by blast
    have "in_flight s j'" using moved_in_flight [OF m f(1)] d b(2) by blast
    then show ?thesis using may_begin_safe [OF b' _ in_flight_below [OF st]] b(2) by blast
  qed
  { assume a: "\<not> ws_ended s' \<and> in_flight s' j \<and> in_flight s' k"
    have e: "\<not> ws_ended s" using a movedD(3) [OF m] by blast
    have "unit_safe s j \<and> unit_safe s k"
    proof (cases "in_flight s j \<and> in_flight s k")
      case True
      then show ?thesis using beside_okD(1) [OF ok jk e] by blast
    next
      case False
      then consider "k = i" "ws_stage s i = Untouched" | "j = i" "ws_stage s i = Untouched"
        using a moved_in_flight [OF m] by blast
      then show ?thesis
      proof cases
        case 1
        then show ?thesis using pair [of j k] a jk by blast
      next
        case 2
        then show ?thesis using pair [of k j] a jk by blast
      qed
    qed
    then show "unit_safe s' j" "unit_safe s' k" by (simp_all add: moved_unit_safe [OF m]) }
  { assume a: "ws_stage s' j = Executing \<and> ws_stage s' k = Executing"
    have "unit_safe s j \<and> unit_safe s k"
    proof (cases "ws_stage s j = Executing \<and> ws_stage s k = Executing")
      case True
      then show ?thesis using beside_okD(2) [OF ok jk] by blast
    next
      case False
      then have "\<not> ws_ended s" "j = i \<or> k = i" using a moved_executing(2) [OF m] by blast+
      moreover have "ws_stage s i \<noteq> Untouched"
      proof
        assume "ws_stage s i = Untouched"
        then have "ws_stage s' i = Lined_up" using movedD(5) [OF m] by blast
        then show False using a \<open>j = i \<or> k = i\<close> by auto
      qed
      then have "in_flight s j" "in_flight s k"
        using moved_in_flight [OF m moved_executing(1) [OF m]] a by blast+
      ultimately show ?thesis using beside_okD(1) [OF ok jk] by blast
    qed
    then show "unit_safe s' j" "unit_safe s' k" by (simp_all add: moved_unit_safe [OF m]) }
qed

lemma fresh_beside_ok: "ws_stage s = (\<lambda>i. Untouched) \<Longrightarrow> beside_ok s"
  by (simp add: beside_ok_def in_flight_def)

lemma reach_beside_ok: "walk_reach b s \<Longrightarrow> beside_ok s"
proof (induction rule: walk_reach.induct)
  case (reach_alone ra grants)
  show ?case by (rule fresh_beside_ok) simp
next
  case (reach_together ra grants tcs c)
  show ?case by (rule fresh_beside_ok) (simp add: together_start)
next
  case (reach_walk s s')
  then show ?case using reach_moved [OF reach_walk(1,2)] moved_beside_ok [OF _ reach_stages_ok [OF reach_walk(1)]] by blast
qed

subsection \<open>The end of a walk\<close>

definition walk_left :: "walk_state \<Rightarrow> nat" where
  "walk_left s = (\<Sum>i < length (ws_units s). 8 - rank (ws_stage s i))"

lemma rank_le: "rank st \<le> 8"
  by (cases st) simp_all

lemma moved_left:
  assumes m: "moved i s s'" and ok: "stages_ok s"
  shows "walk_left s' < walk_left s"
proof -
  have i: "i < length (ws_units s)"
  proof (cases "ws_stage s i = Untouched")
    case True
    then show ?thesis using movedD(5) [OF m] by blast
  next
    case False
    then show ?thesis using ok by (auto simp: stages_ok_def not_le [symmetric])
  qed
  have "8 - rank (ws_stage s' j) \<le> 8 - rank (ws_stage s j)" for j using moved_ranks [OF m, of j] by simp
  moreover have "8 - rank (ws_stage s' i) < 8 - rank (ws_stage s i)"
    using movedD(2) [OF m] rank_le [of "ws_stage s' i"] by linarith
  ultimately show ?thesis unfolding walk_left_def movedD(1) [OF m] using i by (intro sum_strict_mono_ex1) auto
qed

definition walk_over :: "walk_state \<Rightarrow> bool" where
  "walk_over s \<longleftrightarrow> ws_cursor s = length (ws_units s) \<and> (\<forall>i < length (ws_units s). ws_stage s i = Finished)"

text \<open>The first call that is not settled can always move.\<close>

lemma first_moves:
  assumes ok: "stages_ok s" and i: "ws_stage s i \<noteq> Untouched" "ws_stage s i \<noteq> Finished" "\<And>j. j < i \<Longrightarrow> ws_stage s j = Finished"
  shows "\<exists>s'. walk_step b s s'"
proof (cases "ws_stage s i")
  case Lined_up
  have "i = 0 \<or> has_left (ws_stage s (i - 1))" using i(3) [of "i - 1"] by (cases i) (auto simp: has_left_def)
  then show ?thesis using walk_look_up [OF Lined_up] by blast
next
  case (Refusing wait r)
  have "earlier_finished s i" using i(3) by (simp add: earlier_finished_def list_all_iff)
  then show ?thesis using walk_refused [OF Refusing] by blast
next
  case Looking
  then show ?thesis using walk_check by (intro exI)
next
  case Preparing
  then show ?thesis using walk_open by (intro exI)
next
  case Asking
  then show ?thesis using walk_answer by (intro exI)
next
  case (Settling c)
  then show ?thesis using walk_conclude by (intro exI)
next
  case (Decided v)
  then show ?thesis using walk_take by (intro exI)
next
  case Executing
  then show ?thesis using walk_ran by (intro exI)
qed (use i in simp_all)

lemma walk_not_stuck:
  assumes ok: "stages_ok s" and n: "\<not> walk_over s"
  shows "\<exists>s'. walk_step b s s'"
proof (cases "\<exists>i. ws_stage s i \<noteq> Untouched \<and> ws_stage s i \<noteq> Finished")
  case True
  define i where "i = (LEAST i. ws_stage s i \<noteq> Untouched \<and> ws_stage s i \<noteq> Finished)"
  have i: "ws_stage s i \<noteq> Untouched" "ws_stage s i \<noteq> Finished" using LeastI_ex [OF True] by (simp_all add: i_def)
  have "ws_stage s j = Finished" if "j < i" for j
  proof -
    have "ws_stage s j \<noteq> Untouched" using i(1) that ok by (auto simp: stages_ok_def)
    then show ?thesis using not_less_Least [OF that [unfolded i_def]] by blast
  qed
  then show ?thesis using first_moves [OF ok i] by blast
next
  case False
  then have none: "ws_stage s i = Untouched \<or> ws_stage s i = Finished" for i by blast
  have u: "ws_stage s i = Untouched \<longleftrightarrow> ws_cursor s \<le> i" for i using ok by (simp add: stages_ok_def)
  have "ws_cursor s < length (ws_units s)"
  proof (rule ccontr)
    assume "\<not> ws_cursor s < length (ws_units s)"
    then have c: "ws_cursor s = length (ws_units s)" using ok by (simp add: stages_ok_def)
    have "ws_stage s i = Finished" if "i < length (ws_units s)" for i using none [of i] u [of i] that c by simp
    then show False using n c by (simp add: walk_over_def)
  qed
  moreover have "may_begin s (ws_cursor s)" using none by (simp add: may_begin_def in_flight_def filter_empty_conv)
  ultimately show ?thesis using walk_begin by blast
qed

subsection \<open>Results\<close>

definition settled_ok :: "walk_state \<Rightarrow> bool" where
  "settled_ok s \<longleftrightarrow> (\<forall>i. ws_stage s i = Finished \<longrightarrow> ws_failure s \<or> ws_results s i \<noteq> None)"

lemma walk_step_failure: "walk_step b s s' \<Longrightarrow> ws_failure s \<Longrightarrow> ws_failure s'"
proof (induction rule: walk_step.induct)
  case (walk_look_up s i ra)
  then show ?case by (cases rule: look_up_cases [of s b ra i]) simp_all
next
  case (walk_check s i m)
  then show ?case by (cases rule: check_rules_cases [of b m i s]) simp_all
next
  case (walk_take s i v)
  then show ?case by (cases rule: take_verdict_cases [of v s i]) simp_all
qed (auto simp: begin_unit_def receive_def conclude_answer_def)

lemma settled_step:
  assumes "walk_step b s s'" "settled_ok s"
  shows "settled_ok s'"
  using assms
proof (induction rule: walk_step.induct)
  case (walk_look_up s i ra)
  then show ?case by (cases rule: look_up_cases [of s b ra i]) (simp_all add: settled_ok_def)
next
  case (walk_check s i m)
  then show ?case by (cases rule: check_rules_cases [of b m i s]) (simp_all add: settled_ok_def)
next
  case (walk_take s i v)
  then show ?case by (cases rule: take_verdict_cases [of v s i]) (simp_all add: settled_ok_def)
next
  case (walk_conclude s i c)
  then show ?case by (simp add: settled_ok_def conclude_answer_def note_end_stage)
next
  case (walk_no_conclude s i c s'')
  then show ?case by (auto simp: settled_ok_def)
qed (auto simp: settled_ok_def begin_unit_def receive_def)

lemma reach_settled_ok: "walk_reach b s \<Longrightarrow> settled_ok s"
proof (induction rule: walk_reach.induct)
  case (reach_walk s s')
  then show ?case using settled_step by blast
qed (simp_all add: settled_ok_def together_start)

end
