(* ===== verification/ReviewPolicyProofs.thy ===== *)
theory ReviewPolicyProofs
  imports ReviewPolicy
begin

text \<open>
  What an approving reply of the review policy rests on, branch by branch: an answer of a person
  to this batch, or that no call of it carries a question only a person may answer.
\<close>

fun approves :: "resume_decision \<Rightarrow> bool" where
  "approves (Approve_tools _ _ _ _) = True"
| "approves _ = False"

fun confirmed :: "resume_decision \<Rightarrow> string list" where
  "confirmed (Approve_tools _ ids _ _) = ids"
| "confirmed (Modify_tools _ ids) = ids"
| "confirmed _ = []"

definition says_yes :: "review_answer \<Rightarrow> bool" where
  "says_yes a \<longleftrightarrow> a = Approve \<or> a = Approve_all"

fun approval :: "policy_event \<Rightarrow> bool" where
  "approval (Prompted screen a) = says_yes a"
| "approval _ = False"

definition person_approved :: "policy_event list \<Rightarrow> bool" where
  "person_approved evs = list_ex approval evs"

lemma person_approved_append [simp]: "person_approved (evs @ evs') \<longleftrightarrow> person_approved evs \<or> person_approved evs'"
  by (simp add: person_approved_def)

lemma person_approvedI: "Prompted screen a \<in> set evs \<Longrightarrow> says_yes a \<Longrightarrow> person_approved evs"
  by (force simp: person_approved_def list_ex_iff)

text \<open>An answer already given is one a person gave to this batch.\<close>

definition known :: "review_answer option \<Rightarrow> policy_event list \<Rightarrow> bool" where
  "known answered evs \<longleftrightarrow> (case answered of Some a \<Rightarrow> Prompted True a \<in> set evs \<and> says_yes a | None \<Rightarrow> True)"

lemma known_mono: "known answered evs \<Longrightarrow> set evs \<subseteq> set evs' \<Longrightarrow> known answered evs'"
  by (auto simp: known_def split: option.splits)

lemma rejected_not [simp]: "\<not> approves (rejected f r)" "confirmed (rejected f r) = []"
  by (simp_all add: rejected_def)

lemma settled:
  assumes "settle_answer app st evs (ask prompt calls answered) = (d, st', evs')" "known answered evs"
  shows "approves d \<Longrightarrow> d = app \<and> person_approved evs'"
    and "confirmed d \<noteq> [] \<Longrightarrow> d = app \<and> person_approved evs'"
    and "set evs \<subseteq> set evs'"
  using assms
  by (auto simp: settle_answer_def ask_def known_def says_yes_def person_approved_def [of "[_]"] Let_def
      split: review_answer.splits option.splits intro: person_approvedI)

lemma questioned:
  assumes "question opts calls answered app refusal st evs = (d, st', evs')" "known answered evs"
  shows "approves d \<Longrightarrow> d = app \<and> person_approved evs'"
    and "confirmed d \<noteq> [] \<Longrightarrow> d = app \<and> person_approved evs'"
proof -
  show "d = app \<and> person_approved evs'" if "approves d"
    using assms that by (auto simp: question_def split: option.splits dest: settled(1))
  show "d = app \<and> person_approved evs'" if "confirmed d \<noteq> []"
    using assms that by (auto simp: question_def split: option.splits dest: settled(2))
qed

text \<open>The loop over the classifier ends in a reply only by a refusal, an abort, or the question to a person.\<close>

lemma classified:
  "classify_calls opts session classifier person calls st evs = r \<Longrightarrow>
    (case r of
       Inl (st', evs') \<Rightarrow> set evs \<subseteq> set evs'
     | Inr (d, st', evs') \<Rightarrow> (\<not> approves d \<and> confirmed d = [])
         \<or> (\<exists>f st'' evs''. person = Some f \<and> f st'' evs'' = (d, st', evs') \<and> set evs \<subseteq> set evs''))"
proof (induction calls arbitrary: st evs)
  case (Cons tc calls)
  show ?case
  proof (cases "is_bypass_immune tc \<or> never_sent opts session tc")
    case True
    then show ?thesis using Cons by simp
  next
    case False
    show ?thesis
    proof (cases "classifier tc")
      case Verdict_allow
      with False Cons.prems have r: "classify_calls opts session classifier person calls (st\<lparr>ps_too_long := False\<rparr>)
          (evs @ [Classified (sm_id tc) Verdict_allow]) = r" by (simp add: Let_def)
      show ?thesis using Cons.IH [OF r] by (auto split: sum.splits)
    next
      case Verdict_too_long
      with False Cons.prems show ?thesis
        by (fastforce simp: Let_def split: if_splits option.splits sum.splits)
    next
      case (Verdict_block reason limit)
      with False Cons.prems show ?thesis
        by (fastforce simp: Let_def split: option.splits sum.splits)
    qed
  qed
qed auto

lemma classified_on: "classify_calls opts session classifier person calls st evs = Inl (st', evs') \<Longrightarrow> set evs \<subseteq> set evs'"
  using classified [of opts session classifier person calls st evs "Inl (st', evs')"] by simp

subsection \<open>The permissive modes\<close>

definition live_calls :: "call_summary list \<Rightarrow> call_summary list" where
  "live_calls calls = filter (\<lambda>tc. \<not> authorized Deny tc) calls"

definition escape_ids :: "call_summary list \<Rightarrow> string list" where
  "escape_ids calls = map sm_id (filter sandbox_escape calls)"

text \<open>Either a person approved, or nothing in the batch but an escape that the operator confirmed needed one.\<close>

lemma permissive_reply:
  assumes "review_permissive opts session calls answered st evs = (d, st', evs')" "known answered evs"
  shows "approves d \<Longrightarrow> person_approved evs' \<or> (\<forall>tc \<in> set (live_calls calls). \<not> is_bypass_immune tc)
      \<or> (po_prompt opts = None \<and> immune_refusal (live_calls calls) (po_escape_unattended opts) = None)"
    and "confirmed d \<noteq> [] \<Longrightarrow> set (confirmed d) \<subseteq> set (escape_ids calls)
      \<and> (person_approved evs' \<or> (po_prompt opts = None \<and> po_escape_unattended opts))"
proof -
  let ?live = "live_calls calls"
  let ?person = "map_option (\<lambda>prompt st evs. settle_answer (approve_escapes (escape_ids ?live)) st evs (ask prompt calls answered))
           (po_prompt opts)"
  let ?c = "if mode_of opts = Mode_classify
           then (case po_classifier opts of
               Some classifier \<Rightarrow> classify_calls opts session classifier ?person ?live st evs
             | None \<Rightarrow> Inl (st, evs))
           else Inl (st, evs)"
  have eq: "(case ?c of Inr r \<Rightarrow> r
        | Inl (st', evs') \<Rightarrow>
            if \<not> list_ex is_bypass_immune ?live then (approve_plain, st', evs')
            else (case ?person of
               Some f \<Rightarrow> f st' evs'
             | None \<Rightarrow> (case immune_refusal ?live (po_escape_unattended opts) of
                  Some r \<Rightarrow> (refuse r, st', evs')
                | None \<Rightarrow> (approve_escapes (escape_ids ?live), st', evs')))) = (d, st', evs')"
    using assms(1) unfolding review_permissive_def Let_def live_calls_def escape_ids_def .
  have sub: "set (escape_ids ?live) \<subseteq> set (escape_ids calls)" by (auto simp: escape_ids_def live_calls_def)
  have asked: "(approves d \<longrightarrow> person_approved evs') \<and>
      (confirmed d \<noteq> [] \<longrightarrow> confirmed d = escape_ids ?live \<and> person_approved evs')"
    if f: "?person = Some f" "f s e = (d, st', evs')" and e: "set evs \<subseteq> set e" for f s e
  proof -
    obtain prompt where "settle_answer (approve_escapes (escape_ids ?live)) s e (ask prompt calls answered) = (d, st', evs')"
      using f by auto
    note s = settled [OF this known_mono [OF assms(2) e]]
    show ?thesis using s(1,2) by (auto dest!: s(1) s(2))
  qed
  show "person_approved evs' \<or> (\<forall>tc \<in> set ?live. \<not> is_bypass_immune tc)
      \<or> (po_prompt opts = None \<and> immune_refusal ?live (po_escape_unattended opts) = None)" if "approves d"
  proof (cases ?c)
    case (Inr r)
    then obtain classifier where c: "classify_calls opts session classifier ?person ?live st evs = Inr (d, st', evs')"
      using eq by (auto split: if_splits option.splits)
    then show ?thesis using classified [OF c] asked that by auto
  next
    case (Inl p)
    obtain s e where p: "p = (s, e)" by (cases p)
    have e: "set evs \<subseteq> set e"
      using Inl p by (auto split: if_splits option.splits dest: classified_on)
    show ?thesis
      using eq Inl p that asked [OF _ _ e, of _ s]
      by (auto simp: list_ex_iff split: if_splits option.splits)
  qed
  show "set (confirmed d) \<subseteq> set (escape_ids calls)
      \<and> (person_approved evs' \<or> (po_prompt opts = None \<and> po_escape_unattended opts))" if "confirmed d \<noteq> []"
  proof (cases ?c)
    case (Inr r)
    then obtain classifier where c: "classify_calls opts session classifier ?person ?live st evs = Inr (d, st', evs')"
      using eq by (auto split: if_splits option.splits)
    then show ?thesis using classified [OF c] asked that sub by auto
  next
    case (Inl p)
    obtain s e where p: "p = (s, e)" by (cases p)
    have e: "set evs \<subseteq> set e"
      using Inl p by (auto split: if_splits option.splits dest: classified_on)
    have u: "po_escape_unattended opts" if "immune_refusal ?live (po_escape_unattended opts) = None" "escape_ids ?live \<noteq> []"
      using that by (auto simp: immune_refusal_def escape_ids_def list_ex_iff filter_empty_conv split: if_splits)
    show ?thesis
      using eq Inl p that asked [OF _ _ e, of _ s] sub u
      by (auto split: if_splits option.splits)
  qed
qed

end
