(* ===== verification/ToolReviewProofs.thy ===== *)
theory ToolReviewProofs
  imports ToolReview ReviewPolicyProofs
begin

text \<open>
  The ways a review of a batch ends, as one case rule over what was denied before the reviewer was
  asked, and what settling the escalations and the modifications of a person leaves denied.
\<close>

subsection \<open>Denials only grow\<close>

lemma set_add_id [simp]: "set (add_id i ids) = insert i (set ids)"
  by (auto simp: add_id_def)

lemma settle_escalations_mono:
  "settle_escalations c sums denied audits = (denied', audits') \<Longrightarrow> set denied \<subseteq> set denied' \<and> set audits \<subseteq> set audits'"
proof (induction sums arbitrary: denied audits)
  case (Cons tc sums)
  then show ?case by (fastforce split: if_splits)
qed simp

text \<open>Once settled, an escape that is not confirmed is denied, and what is not denied is on record.\<close>

lemma settle_escalations_escape:
  "settle_escalations c sums denied audits = (denied', audits') \<Longrightarrow> tc \<in> set sums \<Longrightarrow> sandbox_escape tc
    \<Longrightarrow> sm_id tc \<in> set denied' \<or> sm_id tc \<in> set c"
proof (induction sums arbitrary: denied audits)
  case (Cons t sums)
  show ?case
  proof (cases "tc = t")
    case True
    have "sm_escalation tc \<noteq> None" using Cons.prems(3) by (auto simp: sandbox_escape_def split: option.splits)
    then show ?thesis using Cons.prems True settle_escalations_mono by (fastforce split: if_splits)
  next
    case False
    then show ?thesis using Cons by (auto split: if_splits)
  qed
qed simp

lemma settle_escalations_recorded:
  "settle_escalations c sums denied audits = (denied', audits') \<Longrightarrow> tc \<in> set sums \<Longrightarrow> sm_id tc \<notin> set denied'
    \<Longrightarrow> set (crossing_audits True tc) \<subseteq> set audits'"
proof (induction sums arbitrary: denied audits)
  case (Cons t sums)
  show ?case
  proof (cases "tc = t")
    case True
    note m = settle_escalations_mono
    show ?thesis
    proof (cases "sm_escalation tc = None")
      case False
      have "sm_id tc \<notin> set denied"
        using Cons.prems(1,3) m [of c "t # sums" denied audits denied' audits'] by auto
      moreover have "\<not> (sandbox_escape tc \<and> sm_id tc \<notin> set c)"
        using settle_escalations_escape [OF Cons.prems(1,2)] Cons.prems(3) by blast
      ultimately have "settle_escalations c sums denied (audits @ crossing_audits True tc) = (denied', audits')"
        using Cons.prems(1) True False by (auto split: if_splits)
      then show ?thesis using m by fastforce
    qed (simp add: crossing_audits_def)
  next
    case False
    then show ?thesis using Cons by (auto split: if_splits)
  qed
qed simp

lemma apply_modifications_mono:
  "apply_modifications ids ms denied modified = (denied', modified') \<Longrightarrow> i \<in> set denied \<Longrightarrow> i \<in> set denied'"
  by (induction ids ms denied modified rule: apply_modifications.induct)
    (auto split: modification.splits option.splits if_splits)

lemma apply_modifications_keys:
  "apply_modifications ids ms denied modified = (denied', modified') \<Longrightarrow> i \<in> fst ` set modified \<Longrightarrow> i \<in> fst ` set modified'"
proof (induction ms arbitrary: denied modified)
  case (Cons m ms)
  have "i \<in> fst ` set (AList.update j w modified)" for j w
    using Cons.prems(2) by (simp add: dom_update)
  then show ?case
    using Cons.IH Cons.prems by (auto split: modification.splits option.splits if_splits simp del: set_map)
qed simp

lemma apply_modifications_rewritten:
  "apply_modifications ids ms denied modified = (denied', modified') \<Longrightarrow> Modify_call i (Some v) \<in> set ms \<Longrightarrow> i \<in> set ids
    \<Longrightarrow> i \<in> set denied' \<or> i \<in> fst ` set modified'"
proof (induction ms arbitrary: denied modified)
  case (Cons m ms)
  show ?case
  proof (cases "m = Modify_call i (Some v)")
    case True
    show ?thesis
    proof (cases "i \<in> set denied")
      case True
      then show ?thesis using apply_modifications_mono [OF Cons.prems(1)] by simp
    next
      case False
      then have "apply_modifications ids ms denied (AList.update i v modified) = (denied', modified')"
        using Cons.prems(1,3) True by simp
      from apply_modifications_keys [OF this] show ?thesis by (simp add: dom_update)
    qed
  next
    case False
    then have "Modify_call i (Some v) \<in> set ms" using Cons.prems(2) by auto
    then show ?thesis using Cons.IH Cons.prems(1,3)
      by (simp split: modification.splits option.splits if_splits)
  qed
qed simp

lemma recheck_mono:
  "recheck ctx modified sums denied audits = Some (denied', audits') \<Longrightarrow> set denied \<subseteq> set denied'"
proof (induction sums arbitrary: denied audits)
  case (Cons tc sums)
  then show ?case by (fastforce split: option.splits if_splits answer.splits)
qed simp

lemma recheck_allows:
  "recheck ctx modified sums denied audits = Some (denied', audits') \<Longrightarrow> rc_gate ctx = Some G \<Longrightarrow> tc \<in> set sums
    \<Longrightarrow> sm_id tc \<in> set modified \<Longrightarrow> sm_id tc \<notin> set denied'
    \<Longrightarrow> \<exists>g. gate_verdict ctx G tc = Answered g \<and> gr_decision g = Allow"
proof (induction sums arbitrary: denied audits)
  case (Cons t sums)
  show ?case
  proof (cases "tc = t")
    case True
    then show ?thesis using Cons.prems recheck_mono
      by (fastforce split: if_splits answer.splits)
  next
    case False
    then show ?thesis using Cons by (auto split: if_splits answer.splits)
  qed
qed simp

subsection \<open>What is denied before a reviewer is asked\<close>

definition gate_denies :: "review_context \<Rightarrow> prepared_call \<Rightarrow> bool" where
  "gate_denies ctx p = (case rc_gate ctx of
      None \<Rightarrow> False
    | Some G \<Rightarrow> (case gate_verdict ctx G (summary_of ctx p) of Answered g \<Rightarrow> gr_decision g = Deny | Threw \<Rightarrow> False))"

text \<open>A call that carries something a mark or a remembered answer may not settle.\<close>

definition reviewed_anew :: "call_summary \<Rightarrow> bool" where
  "reviewed_anew tc \<longleftrightarrow> sm_escalation tc \<noteq> None \<or> sm_requires_approval tc \<or> explicit_review tc"

lemma authorize_simps [simp]:
  "sm_id (authorize tc g) = sm_id tc" "sm_escalation (authorize tc g) = sm_escalation tc"
  "sm_requires_approval (authorize tc g) = sm_requires_approval tc"
  "authorized Deny (authorize tc g) \<longleftrightarrow> gr_decision g = Deny"
  by (simp_all add: authorize_def Let_def authorized_def)

lemma authorize_allows: "authorized Allow (authorize tc g) \<Longrightarrow> \<not> reviewed_anew (authorize tc g)"
  by (auto simp: authorize_def Let_def authorized_def explicit_review_def reviewed_anew_def split: if_splits)

lemma authorize_all_eq:
  "authorize_all ctx G tcs = Some as \<Longrightarrow> list_all2 (\<lambda>tc a. \<exists>g. gate_verdict ctx G tc = Answered g \<and> a = authorize tc g) tcs as"
  by (induction tcs arbitrary: as) (auto split: answer.splits)

lemma marks_simps [simp]:
  "sm_id (mark_hook ds (mark_skill ctx ds tc)) = sm_id tc"
  "authorized d (mark_hook ds (mark_skill ctx ds tc)) = authorized d tc"
  "reviewed_anew (mark_hook ds (mark_skill ctx ds tc)) = reviewed_anew tc"
  by (auto simp: mark_hook_def mark_skill_def authorized_def reviewed_anew_def explicit_review_def
      split: option.splits if_splits)

text \<open>What the hooks leave: the same calls, each with its question, and a refused one denied.\<close>

lemma ask_hooks_leave:
  "ask_hooks ctx hooks sums denied audits = (sums', denied', audits') \<Longrightarrow>
    map sm_id sums' = map sm_id sums \<and> set denied \<subseteq> set denied'
    \<and> ((\<forall>tc \<in> set sums. authorized Deny tc \<longrightarrow> sm_id tc \<in> set denied) \<longrightarrow>
       (\<forall>tc \<in> set sums'. authorized Deny tc \<longrightarrow> sm_id tc \<in> set denied'))"
proof (induction sums arbitrary: denied audits sums' denied' audits')
  case (Cons tc sums)
  define step where "step = (if \<not> is_question ctx denied tc then (tc, denied, audits)
        else if list_ex skips (hooks tc) then
          (tc\<lparr>sm_authorization := Some refused_authorization\<rparr>, add_id (sm_id tc) denied, audits @ [tool_audit False tc])
        else if Hook_continues (Some Hook_allow) \<in> set (hooks tc) \<and> may_mark denied tc
          then (tc\<lparr>sm_hook_grant := True\<rparr>, denied, audits)
        else (tc, denied, audits))"
  obtain tc1 denied1 audits1 where s: "step = (tc1, denied1, audits1)" by (cases step) auto
  obtain rest denied2 audits2 where r: "ask_hooks ctx hooks sums denied1 audits1 = (rest, denied2, audits2)"
    by (cases "ask_hooks ctx hooks sums denied1 audits1") auto
  have res: "sums' = tc1 # rest" "denied' = denied2"
    using Cons.prems r s unfolding ask_hooks.simps step_def [symmetric] by simp_all
  have one: "sm_id tc1 = sm_id tc" "set denied \<subseteq> set denied1"
    using s unfolding step_def by (auto split: if_splits)
  have refused: "sm_id tc \<in> set denied1" if "authorized Deny tc1" "\<not> authorized Deny tc"
    using s that unfolding step_def by (auto simp: authorized_def split: if_splits)
  have tail: "map sm_id rest = map sm_id sums" "set denied1 \<subseteq> set denied2"
    using Cons.IH [OF r] by blast+
  have deny: "\<forall>t \<in> set sums'. authorized Deny t \<longrightarrow> sm_id t \<in> set denied'"
    if d: "\<forall>t \<in> set (tc # sums). authorized Deny t \<longrightarrow> sm_id t \<in> set denied"
  proof -
    have "\<forall>t \<in> set sums. authorized Deny t \<longrightarrow> sm_id t \<in> set denied1" using d one(2) by auto
    then have rest: "\<forall>t \<in> set rest. authorized Deny t \<longrightarrow> sm_id t \<in> set denied2" using Cons.IH [OF r] by blast
    have "authorized Deny tc1 \<longrightarrow> sm_id tc1 \<in> set denied2"
      using d refused one tail(2) by (metis list.set_intros(1) subsetD)
    then show ?thesis using rest unfolding res by simp
  qed
  show ?case using deny one tail unfolding res by simp
qed simp

text \<open>The ways a decision comes to an outcome.\<close>

fun stops :: "resume_decision \<Rightarrow> bool" where
  "stops (Pause _) = True"
| "stops (Abort _) = True"
| "stops _ = False"

fun rejects :: "resume_decision \<Rightarrow> bool" where
  "rejects (Reject_tools _ _ _) = True"
| "rejects _ = False"

lemma conclude_cases:
  assumes "conclude ctx calls sums denied audits grants d = Some r"
  obtains (stopped) "stops d" "r = unanswered audits grants"
  | (rejected) ds as e where "rejects d" "settle_escalations [] sums (map ca_id calls) audits = (ds, as)"
      "r = settle_batch ctx e ds sums as grants"
  | (modified) ms ids ds m sums' ds1 as1 ds2 as2 e where "d = Modify_tools ms ids"
      "apply_modifications (map ca_id calls) ms denied [] = (ds, m)"
      "sums' = (if m = [] then sums else map (summary_of ctx) (rc_reprepared ctx m))"
      "recheck ctx (map fst m) sums' ds audits = Some (ds1, as1)" "settle_escalations ids sums' ds1 as1 = (ds2, as2)"
      "r = settle_batch ctx e ds2 sums' as2 grants"
  | (settled) as0 ds as e gs where "\<not> stops d" "\<not> rejects d" "\<forall>ms ids. d \<noteq> Modify_tools ms ids"
      "settle_escalations (confirmed d) sums denied as0 = (ds, as)" "r = settle_batch ctx e ds sums as gs"
proof (cases d)
  case (Reject_tools f dc e)
  obtain ds as where s: "settle_escalations [] sums (map ca_id calls) audits = (ds, as)"
    by (cases "settle_escalations [] sums (map ca_id calls) audits")
  then have "r = settle_batch ctx (if e then Stopped else Rejected) ds sums as grants"
    using assms Reject_tools by (simp add: conclude_def)
  then show ?thesis using that(2) [OF _ s] Reject_tools by simp
next
  case (Modify_tools ms ids)
  obtain ds m where a: "apply_modifications (map ca_id calls) ms denied [] = (ds, m)"
    by (cases "apply_modifications (map ca_id calls) ms denied []")
  define sums' where "sums' = (if m = [] then sums else map (summary_of ctx) (rc_reprepared ctx m))"
  obtain ds1 as1 where r: "recheck ctx (map fst m) sums' ds audits = Some (ds1, as1)"
    using assms Modify_tools a unfolding sums'_def by (auto simp: conclude_def Let_def)
  obtain ds2 as2 where s: "settle_escalations ids sums' ds1 as1 = (ds2, as2)"
    by (cases "settle_escalations ids sums' ds1 as1")
  have "r = settle_batch ctx (everything_denied calls ds2) ds2 sums' as2 grants"
    using assms unfolding conclude_def Modify_tools resume_decision.case a Let_def prod.case sums'_def [symmetric] r
    by (simp add: s)
  then show ?thesis using that(3) [OF Modify_tools a sums'_def r s] by blast
next
  case (Approve_tools remembered confirmed_ids by_skill by_hook)
  define as0 where "as0 = audits @ grant_audits by_skill by_hook denied sums"
  obtain ds as where s: "settle_escalations confirmed_ids sums denied as0 = (ds, as)"
    by (cases "settle_escalations confirmed_ids sums denied as0")
  then have r: "r = settle_batch ctx (everything_denied calls ds) ds sums as (map_option (\<lambda>g. grant_keys g remembered) grants)"
    using assms Approve_tools by (simp add: conclude_def as0_def)
  have "settle_escalations (confirmed d) sums denied as0 = (ds, as)" using s Approve_tools by simp
  from that(4) [OF _ _ _ this r] show ?thesis using Approve_tools by simp
qed (use assms that in \<open>auto simp: conclude_def case_prod_beta prod_eq_iff\<close>)

lemma ran_not_denied: "tc \<in> set (rv_ran (settle_batch ctx e ds sums as gs)) \<Longrightarrow> tc \<in> set sums \<and> sm_id tc \<notin> set ds"
  by (auto simp: settle_batch_def runs_def split: if_splits)

lemma ran_settled: "r = settle_batch ctx e ds sums as gs \<Longrightarrow> tc \<in> set (rv_ran r) \<Longrightarrow> tc \<in> set sums \<and> sm_id tc \<notin> set ds"
  using ran_not_denied by blast

lemma none_ran [simp]: "rv_ran (unanswered as gs) = []" "rv_answered (settle_batch ctx e ds sums as gs)"
  "rv_audits (settle_batch ctx e ds sums as gs) = as" "\<not> rv_answered (unanswered as gs)"
  by (simp_all add: unanswered_def settle_batch_def)

lemma conclude_denied:
  assumes "conclude ctx calls sums denied audits grants d = Some r" "tc \<in> set (rv_ran r)"
    and "rejects d \<Longrightarrow> set denied \<subseteq> ca_id ` set calls"
  shows "sm_id tc \<notin> set denied"
  using assms(1)
proof (cases rule: conclude_cases)
  case (rejected ds as e)
  then show ?thesis
    using assms(2,3) settle_escalations_mono [OF rejected(2)] ran_not_denied by fastforce
next
  case (modified ms ids ds m sums' ds1 as1 ds2 as2 e)
  have "i \<in> set ds2" if "i \<in> set denied" for i
    using that apply_modifications_mono [OF modified(2)] recheck_mono [OF modified(4)]
      settle_escalations_mono [OF modified(5)] by blast
  then show ?thesis using assms(2) modified(6) ran_not_denied by fastforce
next
  case (settled as0 ds as e gs)
  then show ?thesis using assms(2) settle_escalations_mono [OF settled(4)] ran_not_denied by fastforce
qed (use assms(2) in simp)

subsection \<open>The ways a review ends\<close>

definition prepared_denied :: "review_context \<Rightarrow> string set" where
  "prepared_denied ctx = pc_id ` {p \<in> set (rc_prepared ctx). gate_denies ctx p}"

text \<open>The calls a reviewer is asked about, or that run unasked: a refused one is denied, and they are calls of the batch.\<close>

definition put_to_review :: "review_context \<Rightarrow> call_summary list \<Rightarrow> string list \<Rightarrow> bool" where
  "put_to_review ctx sums denied \<longleftrightarrow> set (map sm_id sums) = pc_id ` set (rc_prepared ctx) \<and> prepared_denied ctx \<subseteq> set denied
    \<and> set denied \<subseteq> pc_id ` set (rc_prepared ctx) \<and> (\<forall>tc \<in> set sums. authorized Deny tc \<longrightarrow> sm_id tc \<in> set denied)"

lemma ask_hooks_denied:
  "ask_hooks ctx hooks sums denied audits = (sums', denied', audits') \<Longrightarrow> set denied' \<subseteq> set denied \<union> sm_id ` set sums"
proof (induction sums arbitrary: denied audits sums' denied' audits')
  case (Cons tc sums)
  then show ?case by (fastforce simp: Let_def split: if_splits prod.splits)
qed simp

lemma after_gate_cases:
  assumes "after_gate ctx decide calls sums denied audits grants s = Some (r, s', evs)" "put_to_review ctx sums denied"
  obtains (covered) sums' where "r = settle_batch ctx Executed [] sums' audits grants" "put_to_review ctx sums' []"
      "\<forall>tc \<in> set sums'. \<not> reviewed_anew tc" "s' = s" "evs = []"
  | (refused) asked denied' as where "r = settle_batch ctx Rejected denied' asked as grants"
      "\<forall>tc \<in> set asked. sm_id tc \<in> set denied'" "s' = s" "evs = []"
  | (decided) asked denied' audits' d where "decide asked s = (d, s', evs)" "put_to_review ctx asked denied'"
      "conclude ctx calls asked denied' audits' grants d = Some r"
proof -
  define marked where "marked = map (\<lambda>tc. mark_hook denied (mark_skill ctx denied tc)) sums"
  have m: "put_to_review ctx marked denied"
    using assms(2) by (auto simp: put_to_review_def marked_def image_image)
  show ?thesis
  proof (cases "covered_by_grants ctx grants denied marked")
    case True
    have c: "denied = []" "\<forall>tc \<in> set marked. \<not> reviewed_anew tc"
      using True by (auto simp: covered_by_grants_def list_all_iff reviewed_anew_def split: option.splits)
    have "r = settle_batch ctx Executed [] marked audits grants \<and> s' = s \<and> evs = []"
      using True assms(1) unfolding after_gate_def marked_def [symmetric] Let_def by simp
    then show ?thesis using m c that(1) [of marked] by (metis (no_types))
  next
    case False
    obtain asked denied' audits' where h: "(case rc_permission_hooks ctx of
             None \<Rightarrow> (marked, denied, audits)
           | Some hooks \<Rightarrow> ask_hooks ctx hooks marked denied audits) = (asked, denied', audits')"
      by (cases "case rc_permission_hooks ctx of
             None \<Rightarrow> (marked, denied, audits)
           | Some hooks \<Rightarrow> ask_hooks ctx hooks marked denied audits") auto
    have a: "put_to_review ctx asked denied'"
    proof (cases "rc_permission_hooks ctx")
      case None
      then show ?thesis using h m by simp
    next
      case (Some hooks)
      then have "ask_hooks ctx hooks marked denied audits = (asked, denied', audits')" using h by simp
      from ask_hooks_leave [OF this] ask_hooks_denied [OF this] m show ?thesis
        unfolding put_to_review_def by (auto simp flip: set_map)
    qed
    obtain d s1 evs1 where dec: "decide asked s = (d, s1, evs1)" by (cases "decide asked s") auto
    show ?thesis
    proof (cases "rc_permission_hooks ctx \<noteq> None \<and> list_all (\<lambda>tc. sm_id tc \<in> set denied') asked")
      case True
      then have "r = settle_batch ctx Rejected denied' asked
          (audits' @ concat (map (crossing_audits False) asked)) grants \<and> s' = s \<and> evs = []"
        using assms(1) False unfolding after_gate_def marked_def [symmetric] Let_def h by simp
      then show ?thesis using True that(2) by (metis (no_types) list_all_iff)
    next
      case asks: False
      have "conclude ctx calls asked denied' audits' grants d = Some r \<and> s1 = s' \<and> evs1 = evs"
        using assms(1) asks False dec unfolding after_gate_def marked_def [symmetric] Let_def h by auto
      then show ?thesis using a dec that(3) by (metis (no_types))
    qed
  qed
qed

lemma gate_put_to_review:
  assumes "authorize_all ctx G (map (summary_of ctx) (rc_prepared ctx)) = Some as" "rc_gate ctx = Some G"
  shows "put_to_review ctx as (map sm_id (filter (authorized Deny) as))"
proof -
  note l = list_all2_lengthD [OF authorize_all_eq [OF assms(1)]] list_all2_nthD [OF authorize_all_eq [OF assms(1)]]
  have ids: "map sm_id as = map pc_id (rc_prepared ctx)"
  proof (rule nth_equalityI)
    fix i assume "i < length (map sm_id as)"
    then show "map sm_id as ! i = map pc_id (rc_prepared ctx) ! i" using l(1) l(2) [of i]
      by (auto simp: summary_of_def Let_def)
  qed (use l(1) in simp)
  have "pc_id p \<in> sm_id ` {tc \<in> set as. authorized Deny tc}" if p: "p \<in> set (rc_prepared ctx)" "gate_denies ctx p" for p
  proof -
    obtain i where i: "i < length (rc_prepared ctx)" "p = rc_prepared ctx ! i" using p(1) by (auto simp: in_set_conv_nth)
    obtain g where g: "gate_verdict ctx G (summary_of ctx p) = Answered g" "as ! i = authorize (summary_of ctx p) g"
      using l(2) [of i] i by auto
    then have "authorized Deny (as ! i)" using p(2) assms(2) by (simp add: gate_denies_def)
    moreover have "sm_id (as ! i) = pc_id p" using g(2) by (simp add: summary_of_def Let_def)
    ultimately show ?thesis using i(1) l(1) by (metis (mono_tags, lifting) image_eqI length_map mem_Collect_eq nth_mem)
  qed
  moreover have "set (map sm_id as) = pc_id ` set (rc_prepared ctx)" unfolding ids by simp
  ultimately show ?thesis by (auto simp: put_to_review_def prepared_denied_def)
qed

lemma run_tool_review_cases:
  assumes "run_tool_review ctx decide calls grants s = Some (r, s', evs)"
  obtains (idle) "rv_ran r = []" "rv_answered r"
  | (unasked) e ds sums as where "r = settle_batch ctx e ds sums as grants" "put_to_review ctx sums ds"
      "\<forall>tc \<in> set sums. \<not> reviewed_anew tc"
  | (decided) asked denied audits d where "decide asked s = (d, s', evs)" "put_to_review ctx asked denied"
      "conclude ctx calls asked denied audits grants d = Some r"
proof -
  note on_idle = that(1) and on_unasked = that(2) and on_decided = that(3)
  define sums where "sums = map (summary_of ctx) (rc_prepared ctx)"
  have idle_batch: thesis if b: "r = settle_batch ctx e ds ts as gs" "\<forall>tc \<in> set ts. sm_id tc \<in> set ds" for e ds ts as gs
  proof -
    have "rv_ran r = []" using ran_not_denied b by (metis list.set_intros(1) neq_Nil_conv)
    then show ?thesis using b(1) on_idle none_ran(2) by blast
  qed
  have after: thesis if a: "after_gate ctx decide calls ts ds as grants s = Some (r, s', evs)" and p: "put_to_review ctx ts ds" for ts ds as
    using a p
  proof (cases rule: after_gate_cases)
    case (covered sums')
    then show ?thesis using on_unasked by blast
  next
    case (refused asked denied' as)
    then show ?thesis using idle_batch by blast
  next
    case (decided asked denied' audits' d)
    then show ?thesis using on_decided by blast
  qed
  show ?thesis
  proof (cases "calls = [] \<or> sums = []")
    case True
    then show ?thesis using assms on_idle
      by (auto simp: run_tool_review_def sums_def [symmetric] Let_def settle_batch_def runs_def split: if_splits)
  next
    case False
    then have d: "distinct (map ca_id calls)"
      using assms by (auto simp: run_tool_review_def sums_def [symmetric] Let_def split: if_splits)
    show ?thesis
    proof (cases "rc_gate ctx")
      case None
      have "put_to_review ctx sums []"
        using None by (auto simp: put_to_review_def sums_def prepared_denied_def gate_denies_def summary_of_def
            authorized_def Let_def image_image)
      moreover have "after_gate ctx decide calls sums [] [] grants s = Some (r, s', evs)"
        using assms False d None unfolding run_tool_review_def sums_def [symmetric] Let_def by simp
      ultimately show ?thesis using after by blast
    next
      case (Some G)
      obtain ts where ts: "authorize_all ctx G sums = Some ts"
        using assms False d Some unfolding run_tool_review_def sums_def [symmetric] Let_def
        by (auto split: option.splits)
      define refused where "refused = filter (authorized Deny) ts"
      have p: "put_to_review ctx ts (map sm_id refused)"
        using gate_put_to_review ts Some unfolding sums_def refused_def by blast
      have e: "(if list_all (authorized Allow) ts \<and> \<not> rc_review_allowed ctx
               then Some (settle_batch ctx Executed [] ts (map (tool_audit False) refused) grants, s, [])
               else if list_all (authorized Deny) ts
               then Some (settle_batch ctx Rejected (map sm_id refused) ts
                 (map (tool_audit False) refused @ concat (map (crossing_audits False) ts)) grants, s, [])
               else after_gate ctx decide calls ts (map sm_id refused) (map (tool_audit False) refused) grants s) = Some (r, s', evs)"
        using assms False d Some ts unfolding run_tool_review_def sums_def [symmetric] refused_def Let_def by simp
      consider "list_all (authorized Allow) ts \<and> \<not> rc_review_allowed ctx" | "list_all (authorized Deny) ts"
        | "after_gate ctx decide calls ts (map sm_id refused) (map (tool_audit False) refused) grants s = Some (r, s', evs)"
        using e by (auto split: if_splits)
      then show ?thesis
      proof cases
        case 1
        then have "r = settle_batch ctx Executed [] ts (map (tool_audit False) refused) grants" using e by simp
        moreover have n: "refused = []"
          using 1 by (auto simp: refused_def filter_empty_conv list_all_iff authorized_def split: option.splits)
        moreover have "\<forall>tc \<in> set ts. \<not> reviewed_anew tc"
          using 1 authorize_all_eq [OF ts] authorize_allows
          by (fastforce simp: list_all2_conv_all_nth list_all_iff in_set_conv_nth)
        ultimately show ?thesis using p on_unasked by (metis (no_types) list.simps(8))
      next
        case 2
        then have a: "refused = ts" by (simp add: refused_def list_all_iff)
        show ?thesis
        proof (cases "list_all (authorized Allow) ts \<and> \<not> rc_review_allowed ctx")
          case True
          with 2 have "ts = []" by (cases ts) (auto simp: authorized_def split: option.splits)
          moreover have "r = settle_batch ctx Executed [] ts (map (tool_audit False) refused) grants" using e True by simp
          ultimately show ?thesis using idle_batch by simp
        next
          case False
          then have "r = settle_batch ctx Rejected (map sm_id refused) ts
              (map (tool_audit False) refused @ concat (map (crossing_audits False) ts)) grants"
            using e 2 by (simp only: if_False if_True) simp
          then show ?thesis using idle_batch a by simp
        qed
      next
        case 3
        then show ?thesis using after p by blast
      qed
    qed
  qed
qed

end
