(* ===== verification/CallWalkGrounds.thy ===== *)
theory CallWalkGrounds
  imports CallWalkProofs ToolReviewProofs
begin

text \<open>
  What a call that runs rests on: the answers given about it. A yes is an answer that allows the call and, where it leaves the sandbox, confirms that.
\<close>

definition allows_call :: "resume_decision \<Rightarrow> call_summary \<Rightarrow> bool" where
  "allows_call d tc \<longleftrightarrow> interpret_decision d tc = May_run \<and> (sandbox_escape tc \<longrightarrow> sm_id tc \<in> set (confirmed_by d))"

definition answers_about :: "walk_state \<Rightarrow> call_summary \<Rightarrow> resume_decision set" where
  "answers_about s tc = {d. \<exists>tcs. (tcs, d) \<in> set (ws_answers s) \<and> tc \<in> set tcs}"

lemma settle_answer_yes:
  assumes "settle_answer gd d (interpret_decision d) tcs g a = (v, g', a')" "tc \<in> set tcs" "v tc = May_run"
  shows "allows_call d tc"
proof -
  let ?refused = "map sm_id (filter (\<lambda>tc. interpret_decision d tc \<noteq> May_run) tcs)"
  obtain denied audits where e: "settle_escalations (confirmed_by d) tcs ?refused a = (denied, audits)" by fastforce
  have v: "v = (\<lambda>tc. if interpret_decision d tc = May_run \<and> sm_id tc \<in> set denied then refuse_for Unconfirmed_escape else interpret_decision d tc)"
    using assms(1) unfolding settle_answer_def Let_def e by (auto split: resume_decision.splits if_splits)
  then have "interpret_decision d tc = May_run" "sm_id tc \<notin> set denied" using assms(3) by (auto split: if_splits)
  then show ?thesis using settle_escalations_escape [OF e assms(2)] unfolding allows_call_def by blast
qed

lemma settle_closing_yes:
  assumes "settle_closing gd c tcs g a = (v, g', a')" "tc \<in> set tcs" "v tc = May_run"
  shows "c = By_cover \<or> (\<exists>d. c = By_answer d \<and> allows_call d tc)"
  using assms settle_answer_yes by (cases c) (auto simp: settle_closing_def)

subsection \<open>One call\<close>

definition refused_at :: "stage \<Rightarrow> call_result option \<Rightarrow> bool" where
  "refused_at st r \<longleftrightarrow> (case st of Decided v \<Rightarrow> v \<noteq> May_run | Refusing _ _ \<Rightarrow> True | Finished \<Rightarrow> r \<noteq> Some Ran_to_end | _ \<Rightarrow> False)"

definition allowed_at :: "stage \<Rightarrow> call_result option \<Rightarrow> bool" where
  "allowed_at st r \<longleftrightarrow> st = Decided May_run \<or> st = Executing \<or> r = Some Ran_to_end"

text \<open>A call, the answers about it, its stage and its result\<close>

definition fits :: "call_summary \<Rightarrow> resume_decision set \<Rightarrow> stage \<Rightarrow> call_result option \<Rightarrow> bool" where
  "fits tc ds st r \<longleftrightarrow> (always_asked tc \<and> allowed_at st r \<longrightarrow> (\<exists>d \<in> ds. allows_call d tc))
    \<and> (\<forall>d \<in> ds. allows_call d tc \<or> st = Settling (By_answer d) \<or> refused_at st r)
    \<and> (\<forall>d. st = Settling (By_answer d) \<longrightarrow> d \<in> ds)
    \<and> (st = Settling By_cover \<longrightarrow> \<not> always_asked tc)
    \<and> (r \<noteq> None \<longrightarrow> st = Finished)"

lemmas fits_defs = fits_def refused_at_def allowed_at_def

text \<open>Before its verdict a call keeps to its place, or is refused.\<close>

lemma fits_early:
  assumes "fits tc ds st r" "rank st \<le> 4" "rank st' \<le> 4 \<or> st' = Settling By_end \<or> (st' = Settling By_cover \<and> \<not> always_asked tc) \<or> (\<exists>x. st' = Decided (May_not x))"
  shows "fits tc ds st' r"
  using assms by (cases st; cases st'; auto simp: fits_defs)

lemma fits_allowed:
  assumes "fits tc ds st r" "rank st \<le> 4" "\<not> always_asked tc \<or> (\<exists>d \<in> ds. allows_call d tc)"
  shows "fits tc ds (Decided May_run) r"
  using assms by (cases st; auto simp: fits_defs)

lemma fits_answer:
  assumes "fits tc ds Asking r"
  shows "fits tc (insert d ds) (Settling (By_answer d)) r"
  using assms by (auto simp: fits_defs)

lemma fits_verdict:
  assumes "fits tc ds (Settling c) r" "v = May_run \<Longrightarrow> c = By_cover \<or> (\<exists>d. c = By_answer d \<and> allows_call d tc)"
  shows "fits tc ds (Decided v) r"
  using assms by (cases v; cases c; auto simp: fits_defs)

lemma fits_gives_up:
  assumes "fits tc ds st r" "rank st \<le> 5"
  shows "fits tc ds (Decided (refuse_for Approval_not_completed)) r"
  using assms by (cases st; auto simp: fits_defs)

lemma fits_taken:
  assumes "fits tc ds (Decided v) r" "(st = Executing \<and> v = May_run) \<or> (\<exists>w x. st = Refusing w x)"
  shows "fits tc ds st r"
  using assms by (auto simp: fits_defs)

lemma fits_finished:
  "fits tc ds Executing r \<Longrightarrow> fits tc ds Finished (Some Ran_to_end)"
  "fits tc ds (Refusing w x) r \<Longrightarrow> fits tc ds Finished (Some (Not_run y))"
  "fits tc ds Executing r \<Longrightarrow> fits tc ds Finished r"
  "fits tc ds (Refusing w x) r \<Longrightarrow> fits tc ds Finished r"
  by (auto simp: fits_defs)

subsection \<open>All calls\<close>

definition batch_ok :: "call_batch \<Rightarrow> bool" where
  "batch_ok b \<longleftrightarrow> distinct (map wc_id (cb_calls b)) \<and> distinct (map sm_id (cb_summaries b))"

definition unit_summary :: "call_batch \<Rightarrow> walk_state \<Rightarrow> nat \<Rightarrow> call_summary \<Rightarrow> bool" where
  "unit_summary b s i tc \<longleftrightarrow> i < length (ws_units s) \<and> summary_for b (wc_id (ws_units s ! i)) = Some tc"

definition grounds_ok :: "call_batch \<Rightarrow> walk_state \<Rightarrow> bool" where
  "grounds_ok b s \<longleftrightarrow> distinct (map wc_id (ws_units s))
    \<and> (\<forall>i tc. unit_summary b s i tc \<longrightarrow> fits tc (answers_about s tc) (ws_stage s i) (ws_results s i))
    \<and> (\<forall>i tc. unit_summary b s i tc \<longrightarrow> sm_id tc \<in> set (ws_together s) \<longrightarrow> always_asked tc \<longrightarrow> (\<exists>d \<in> answers_about s tc. allows_call d tc))"

lemma grounds_okD:
  assumes "grounds_ok b s"
  shows "distinct (map wc_id (ws_units s))"
    "unit_summary b s i tc \<Longrightarrow> fits tc (answers_about s tc) (ws_stage s i) (ws_results s i)"
    "unit_summary b s i tc \<Longrightarrow> sm_id tc \<in> set (ws_together s) \<Longrightarrow> always_asked tc \<Longrightarrow> \<exists>d \<in> answers_about s tc. allows_call d tc"
  using assms unfolding grounds_ok_def by blast+

lemma summary_for_id: "summary_for b k = Some tc \<Longrightarrow> sm_id tc = k"
  by (auto simp: summary_for_def find_Some_iff)

lemma unit_summary_id: "unit_summary b s i tc \<Longrightarrow> sm_id tc = wc_id (ws_units s ! i)"
  unfolding unit_summary_def using summary_for_id by blast

lemma unit_summary_unique:
  assumes "grounds_ok b s" "unit_summary b s i tc" "unit_summary b s j tc"
  shows "i = j"
proof -
  have "wc_id (ws_units s ! i) = wc_id (ws_units s ! j)" using unit_summary_id assms(2,3) by metis
  then have "map wc_id (ws_units s) ! i = map wc_id (ws_units s) ! j" using assms(2,3) by (simp add: unit_summary_def)
  moreover have "i < length (map wc_id (ws_units s))" "j < length (map wc_id (ws_units s))" using assms(2,3) by (simp_all add: unit_summary_def)
  ultimately show ?thesis using nth_eq_iff_index_eq [OF grounds_okD(1) [OF assms(1)]] by blast
qed

lemma the_summary: "unit_summary b s i tc \<Longrightarrow> the_summary b s i = tc"
  by (simp add: unit_summary_def the_summary_def)

text \<open>A move of one call that leaves the answers about the others\<close>

lemma grounds_move:
  assumes ok: "grounds_ok b s"
    and same: "ws_units s' = ws_units s" "ws_together s' = ws_together s"
    and others: "\<And>j. j \<noteq> i \<Longrightarrow> ws_results s' j = ws_results s j
      \<and> (ws_stage s' j = ws_stage s j \<or> (ws_stage s j = Asking \<and> ws_stage s' j = Settling By_end))"
    and about: "\<And>tc. \<not> unit_summary b s i tc \<Longrightarrow> (\<exists>j. unit_summary b s j tc) \<Longrightarrow> answers_about s' tc = answers_about s tc"
    and more: "\<And>tc. answers_about s tc \<subseteq> answers_about s' tc"
    and here: "\<And>tc. unit_summary b s i tc \<Longrightarrow> fits tc (answers_about s tc) (ws_stage s i) (ws_results s i)
      \<Longrightarrow> fits tc (answers_about s' tc) (ws_stage s' i) (ws_results s' i)"
  shows "grounds_ok b s'"
  unfolding grounds_ok_def
proof (intro conjI allI impI)
  have u: "unit_summary b s' j tc = unit_summary b s j tc" for j tc using same(1) by (simp add: unit_summary_def)
  show "distinct (map wc_id (ws_units s'))" using grounds_okD(1) [OF ok] same(1) by simp
  fix j tc assume j: "unit_summary b s' j tc"
  then have js: "unit_summary b s j tc" using u by simp
  note f = grounds_okD(2) [OF ok js]
  show "fits tc (answers_about s' tc) (ws_stage s' j) (ws_results s' j)"
  proof (cases "j = i")
    case True
    then show ?thesis using here f js by blast
  next
    case False
    then have "\<not> unit_summary b s i tc" using unit_summary_unique [OF ok js] by blast
    then have a: "answers_about s' tc = answers_about s tc" using about js by blast
    have "fits tc (answers_about s tc) (ws_stage s' j) (ws_results s j)"
      using others [OF False] f fits_early [of tc "answers_about s tc" Asking "ws_results s j" "Settling By_end"] by auto
    then show ?thesis using a others [OF False] by simp
  qed
  show "\<exists>d \<in> answers_about s' tc. allows_call d tc" if "sm_id tc \<in> set (ws_together s')" "always_asked tc"
    using grounds_okD(3) [OF ok js _ that(2)] that(1) same(2) more [of tc] by auto
qed

text \<open>A move without an answer\<close>

lemma grounds_plain:
  assumes ok: "grounds_ok b s"
    and same: "ws_units s' = ws_units s" "ws_together s' = ws_together s" "ws_answers s' = ws_answers s"
    and stage: "ws_stage s' = (ws_stage s)(i := st)" and results: "ws_results s' = ws_results s \<or> ws_results s' = (ws_results s)(i \<mapsto> r)"
    and here: "\<And>tc. unit_summary b s i tc \<Longrightarrow> fits tc (answers_about s tc) (ws_stage s i) (ws_results s i)
      \<Longrightarrow> fits tc (answers_about s tc) st (ws_results s' i)"
  shows "grounds_ok b s'"
proof -
  have a: "answers_about s' tc = answers_about s tc" for tc using same(3) by (simp add: answers_about_def)
  show ?thesis
    by (rule grounds_move [OF ok same(1,2), where i = i]) (use results here in \<open>auto simp: a stage\<close>)
qed

subsection \<open>Every transition\<close>

lemma grounds_decide:
  assumes ok: "grounds_ok b s" and st: "rank (ws_stage s i) \<le> 4"
    and v: "\<And>tc. unit_summary b s i tc \<Longrightarrow> v = May_run \<Longrightarrow> \<not> always_asked tc \<or> (\<exists>d \<in> answers_about s tc. allows_call d tc)"
  shows "grounds_ok b (decide i v s)"
proof (rule grounds_plain [OF ok])
  show "fits tc (answers_about s tc) (Decided v) (ws_results (decide i v s) i)"
    if u: "unit_summary b s i tc" and f: "fits tc (answers_about s tc) (ws_stage s i) (ws_results s i)" for tc
  proof (cases v)
    case May_run
    then show ?thesis using fits_allowed [OF f st v [OF u]] by simp
  next
    case (May_not x)
    then show ?thesis using fits_early [OF f st] by simp
  qed
qed simp_all

lemma grounds_look_up:
  assumes ok: "grounds_ok b s" and st: "ws_stage s i = Lined_up"
  shows "grounds_ok b (look_up b ra i s)"
proof (cases rule: look_up_cases [of s b ra i])
  case ended
  show ?thesis unfolding ended(2) by (rule grounds_decide [OF ok]) (simp_all add: st)
next
  case together
  show ?thesis unfolding together(3)
    by (rule grounds_decide [OF ok]) (use st grounds_okD(3) [OF ok] together(2) unit_summary_id in auto)
next
  case (unseen v)
  show ?thesis unfolding unseen(3) by (rule grounds_decide [OF ok]) (use st unseen(2) in \<open>simp_all add: unit_summary_def\<close>)
next
  case (allowed tc)
  show ?thesis unfolding allowed(4) by (rule grounds_decide [OF ok]) (use st allowed(2,3) in \<open>simp_all add: unit_summary_def\<close>)
next
  case (looks tc)
  show ?thesis unfolding looks(4)
    by (rule grounds_plain [OF ok, where i = i and st = Looking]) (use st fits_early in \<open>simp_all\<close>)
qed

lemma grounds_check:
  assumes ok: "grounds_ok b s" and st: "ws_stage s i = Looking"
  shows "grounds_ok b (check_rules b m i s)"
proof (cases rule: check_rules_cases [of b m i s])
  case threw
  show ?thesis unfolding threw
    by (rule grounds_plain [OF ok, where i = i and st = "Decided (refuse_for Approval_not_completed)"]) (use st fits_gives_up in \<open>simp_all\<close>)
next
  case (covered a)
  have a: "grounds_ok b (s\<lparr>ws_audits := a\<rparr>)" using ok by (simp add: grounds_ok_def unit_summary_def answers_about_def)
  show ?thesis unfolding covered(2)
    by (rule grounds_decide [OF a]) (use st covered_not_asked [OF covered(1)] the_summary in \<open>auto simp: unit_summary_def the_summary_def\<close>)
next
  case asks
  show ?thesis unfolding asks
    by (rule grounds_plain [OF ok, where i = i and st = Preparing]) (use st fits_early in \<open>simp_all\<close>)
qed

lemma about_receive:
  "answers_about (receive b c i s) tc =
    (case c of By_answer d \<Rightarrow> if tc = the_summary b s i then insert d (answers_about s tc) else answers_about s tc | _ \<Rightarrow> answers_about s tc)"
  by (cases c) (auto simp: answers_about_def receive_def the_summary_def)

lemma receive_simps: "ws_stage (receive b c i s) = (ws_stage s)(i := Settling c)" "ws_units (receive b c i s) = ws_units s"
  "ws_together (receive b c i s) = ws_together s" "ws_results (receive b c i s) = ws_results s"
  by (simp_all add: receive_def)

lemma grounds_receive:
  assumes ok: "grounds_ok b s" and st: "ws_stage s i = Asking"
    and c: "(\<exists>d. c = By_answer d) \<or> (c = By_cover \<and> \<not> always_asked (the_summary b s i))"
    and seen: "\<exists>tc. unit_summary b s i tc"
  shows "grounds_ok b (receive b c i s)"
proof (rule grounds_move [OF ok, where i = i])
  obtain tc0 where tc0: "unit_summary b s i tc0" using seen by blast
  show "answers_about (receive b c i s) tc = answers_about s tc" if "\<not> unit_summary b s i tc" for tc
    using that tc0 the_summary [OF tc0] by (auto simp: about_receive split: closing.split)
  show "answers_about s tc \<subseteq> answers_about (receive b c i s) tc" for tc by (auto simp: about_receive split: closing.split)
  show "fits tc (answers_about (receive b c i s) tc) (ws_stage (receive b c i s) i) (ws_results (receive b c i s) i)"
    if u: "unit_summary b s i tc" and f: "fits tc (answers_about s tc) (ws_stage s i) (ws_results s i)" for tc
  proof -
    have t: "the_summary b s i = tc" by (rule the_summary [OF u])
    have f': "fits tc (answers_about s tc) Asking (ws_results s i)" using f st by simp
    show ?thesis using c fits_answer [OF f'] fits_early [OF f', of "Settling By_cover"] t
      by (auto simp: about_receive receive_simps)
  qed
qed (simp_all add: receive_simps)

lemma grounds_conclude:
  assumes ok: "grounds_ok b s" and st: "ws_stage s i = Settling c"
  shows "grounds_ok b (conclude_answer b c i s)"
proof (rule grounds_move [OF ok, where i = i])
  have a: "ws_answers (conclude_answer b c i s) = ws_answers s" by (simp add: conclude_answer_def)
  then have a': "answers_about (conclude_answer b c i s) tc = answers_about s tc" for tc by (simp add: answers_about_def)
  then show "answers_about (conclude_answer b c i s) tc = answers_about s tc" "answers_about s tc \<subseteq> answers_about (conclude_answer b c i s) tc" for tc
    by simp_all
  show "fits tc (answers_about (conclude_answer b c i s) tc) (ws_stage (conclude_answer b c i s) i) (ws_results (conclude_answer b c i s) i)"
    if u: "unit_summary b s i tc" and f: "fits tc (answers_about s tc) (ws_stage s i) (ws_results s i)" for tc
  proof -
    obtain v g aud where v: "settle_closing (cb_gate_denied b) c [tc] (ws_grants s) (ws_audits s) = (v, g, aud)" by (rule prod_cases3)
    have y: "answer_verdict b c i s = v tc" using the_summary [OF u] v by (simp add: answer_verdict_def)
    have "fits tc (answers_about s tc) (Decided (v tc)) (ws_results s i)"
      using f settle_closing_yes [OF v] unfolding st by (intro fits_verdict) auto
    then show ?thesis unfolding a' by (simp add: conclude_answer_def y)
  qed
qed (auto simp: conclude_answer_def note_end_stage)

lemma asking_seen:
  assumes "walk_reach b s" "rank (ws_stage s i) \<in> {2, 3, 4}"
  shows "\<exists>tc. unit_summary b s i tc"
  using assms
proof (induction rule: walk_reach.induct)
  case (reach_walk s s')
  note ok = reach_stages_ok [OF reach_walk(1)]
  have later: "\<exists>tc. unit_summary b s' i tc" if "ws_units s' = ws_units s" "\<exists>tc. unit_summary b s i tc"
    using that by (simp add: unit_summary_def)
  obtain k where m: "moved k s s'" using reach_moved [OF reach_walk(1,2)] by blast
  show ?case
  proof (cases "rank (ws_stage s i) \<in> {2, 3, 4}")
    case True
    then show ?thesis using later [OF movedD(1) [OF m]] reach_walk(3) by blast
  next
    case False
    then have n: "ws_stage s' i \<noteq> ws_stage s i" using reach_walk(4) by auto
    show ?thesis using reach_walk(2)
    proof cases
      case (walk_look_up j ra)
      have j: "j < length (ws_units s)" using walk_look_up(2) in_flight_below [OF ok, of j] by (simp add: in_flight_def)
      show ?thesis unfolding walk_look_up(1)
        by (cases rule: look_up_cases [of s b ra j]) (use n reach_walk(4) walk_look_up(1) j in \<open>auto simp: unit_summary_def split: if_splits\<close>)
    next
      case (walk_check j m)
      then have "j \<noteq> i" using False by auto
      then show ?thesis using n walk_check(1) by (cases rule: check_rules_cases [of b m j s]) simp_all
    next
      case (walk_take j v)
      show ?thesis using reach_walk(4) n walk_take(1) by (cases rule: take_verdict_cases [of v s j]) (auto split: if_splits)
    qed (use n reach_walk(4) False in \<open>auto simp: begin_unit_def receive_def conclude_answer_def note_end_stage split: if_splits\<close>)
  qed
qed (simp_all add: together_start)

lemma grounds_step:
  assumes r: "walk_reach b s" and step: "walk_step b s s'" and ok: "grounds_ok b s"
  shows "grounds_ok b s'"
  using step
proof cases
  case walk_begin
  have u: "ws_stage s (ws_cursor s) = Untouched" by (rule stages_ok_cursor [OF reach_stages_ok [OF r]])
  show ?thesis unfolding walk_begin(1)
    by (rule grounds_plain [OF ok, where i = "ws_cursor s" and st = Lined_up]) (use u fits_early in \<open>simp_all add: begin_unit_def\<close>)
next
  case (walk_look_up i ra)
  show ?thesis unfolding walk_look_up(1) by (rule grounds_look_up [OF ok walk_look_up(2)])
next
  case (walk_check i m)
  show ?thesis unfolding walk_check(1) by (rule grounds_check [OF ok walk_check(2)])
next
  case (walk_open i)
  show ?thesis unfolding walk_open(1)
    by (rule grounds_plain [OF ok, where i = i and st = Asking]) (use walk_open(2) fits_early in simp_all)
next
  case (walk_no_open i)
  show ?thesis unfolding walk_no_open(1)
    by (rule grounds_plain [OF ok, where i = i and st = "Decided (refuse_for Approval_not_completed)"])
      (use walk_no_open(2) fits_gives_up in simp_all)
next
  case (walk_answer i d)
  show ?thesis unfolding walk_answer(1) using grounds_receive [OF ok walk_answer(2)] asking_seen [OF r, of i] walk_answer(2) by simp
next
  case (walk_cover i m)
  show ?thesis unfolding walk_cover(1)
    using grounds_receive [OF ok walk_cover(2)] asking_seen [OF r, of i] walk_cover(2) covered_not_asked [OF walk_cover(4)] by simp
next
  case (walk_conclude i c)
  show ?thesis unfolding walk_conclude(1) by (rule grounds_conclude [OF ok walk_conclude(2)])
next
  case (walk_no_conclude i c s2)
  show ?thesis unfolding walk_no_conclude(1)
    by (rule grounds_plain [OF ok, where i = i and st = "Decided (refuse_for Approval_not_completed)"])
      (use walk_no_conclude(2,3) fits_gives_up in auto)
next
  case (walk_take i v)
  have "grounds_ok b (move i st s)" if "(st = Executing \<and> v = May_run) \<or> (\<exists>w x. st = Refusing w x)" for st
    by (rule grounds_plain [OF ok, where i = i and st = st]) (use walk_take(2) fits_taken that in simp_all)
  then show ?thesis unfolding walk_take(1) by (cases rule: take_verdict_cases [of v s i]) auto
next
  case (walk_ran i)
  show ?thesis unfolding walk_ran(1)
    by (rule grounds_plain [OF ok, where i = i and st = Finished and r = Ran_to_end]) (use walk_ran(2) fits_finished(1) in simp_all)
next
  case (walk_refused i w x)
  show ?thesis unfolding walk_refused(1)
    by (rule grounds_plain [OF ok, where i = i and st = Finished and r = "Not_run x"]) (use walk_refused(2) fits_finished(2) in simp_all)
next
  case (walk_fail i)
  show ?thesis unfolding walk_fail(1)
    by (rule grounds_plain [OF ok, where i = i and st = Finished]) (use walk_fail(2) in \<open>auto dest: fits_finished(3,4)\<close>)
qed

lemma fits_untouched: "ds = {} \<or> (\<forall>d \<in> ds. allows_call d tc) \<Longrightarrow> fits tc ds Untouched None"
  by (auto simp: fits_defs)

lemma summary_for_mem: "summary_for b k = Some tc \<Longrightarrow> tc \<in> set (cb_summaries b)"
  by (auto simp: summary_for_def find_Some_iff)

lemma asked_first_sub: "set (asked_first b ra g) \<subseteq> set (cb_summaries b)"
  by (auto simp: asked_first_def Let_def split: option.splits)

lemma grounds_together:
  assumes b: "batch_ok b" and tcs: "set tcs \<subseteq> set (cb_summaries b)"
    and c: "(\<exists>d. c = By_answer d) \<or> (c = By_cover \<and> (\<exists>tc m. tcs = [tc] \<and> covered_now (cb_gate_denied b) m g tc = Answered True))"
  shows "grounds_ok b (ask_together_first b tcs c (no_walk g))" (is "grounds_ok b ?s")
proof -
  obtain v g2 aud where v: "settle_closing (cb_gate_denied b) c tcs (ws_grants (no_walk g)) (ws_audits (no_walk g)) = (v, g2, aud)"
    by (rule prod_cases3)
  have units: "ws_units ?s = filter (\<lambda>k. wc_id k \<notin> set (cb_gate_denied b @ map sm_id (filter (\<lambda>tc. v tc \<noteq> May_run) tcs))) (cb_calls b)"
    and together: "ws_together ?s = map sm_id (filter (\<lambda>tc. v tc = May_run) tcs)"
    and answers: "ws_answers ?s = (case c of By_answer d \<Rightarrow> [(tcs, d)] | _ \<Rightarrow> [])"
    unfolding ask_together_first_def Let_def v by simp_all
  have about: "answers_about ?s tc = (case c of By_answer d \<Rightarrow> if tc \<in> set tcs then {d} else {} | _ \<Rightarrow> {})" for tc
    unfolding answers_about_def answers by (cases c) auto
  have same: "tc = tc'" if "summary_for b k = Some tc" "tc' \<in> set tcs" "sm_id tc' = k" for k tc tc'
  proof -
    have "tc \<in> set (cb_summaries b)" "tc' \<in> set (cb_summaries b)" "sm_id tc = sm_id tc'"
      using that tcs summary_for_mem [OF that(1)] summary_for_id [OF that(1)] by auto
    then show ?thesis using b by (auto simp: batch_ok_def distinct_map dest: inj_onD)
  qed
  have yes: "allows_call d tc" if u: "unit_summary b ?s i tc" and a: "d \<in> answers_about ?s tc" for i tc d
  proof -
    have c': "c = By_answer d" "tc \<in> set tcs" using a by (auto simp: about split: closing.splits if_splits)
    have "wc_id (ws_units ?s ! i) \<notin> set (map sm_id (filter (\<lambda>tc. v tc \<noteq> May_run) tcs))"
      using u nth_mem [of i "ws_units ?s"] unfolding unit_summary_def units by auto
    then have "sm_id tc \<notin> set (map sm_id (filter (\<lambda>tc. v tc \<noteq> May_run) tcs))" using unit_summary_id [OF u] by simp
    then have "v tc = May_run" using c'(2) by auto
    then show ?thesis using settle_closing_yes [OF v c'(2)] c'(1) by simp
  qed
  show ?thesis unfolding grounds_ok_def
  proof (intro conjI allI impI)
    show "distinct (map wc_id (ws_units ?s))" using b unfolding units by (simp add: batch_ok_def distinct_map_filter)
    show "fits tc (answers_about ?s tc) (ws_stage ?s i) (ws_results ?s i)" if "unit_summary b ?s i tc" for i tc
      using fits_untouched yes [OF that] by (simp add: together_start)
    show "\<exists>d \<in> answers_about ?s tc. allows_call d tc"
      if u: "unit_summary b ?s i tc" and t: "sm_id tc \<in> set (ws_together ?s)" and a: "always_asked tc" for i tc
    proof -
      obtain tc' where "tc' \<in> set tcs" "v tc' = May_run" "sm_id tc' = sm_id tc" using t by (auto simp: together)
      moreover have "tc = tc'" using same [of "sm_id tc" tc tc'] u unit_summary_id [OF u] calculation by (simp add: unit_summary_def)
      ultimately have m: "tc \<in> set tcs" "v tc = May_run" by simp_all
      have "c \<noteq> By_cover" using c a m(1) covered_not_asked by fastforce
      then obtain d where d: "c = By_answer d" "allows_call d tc" using settle_closing_yes [OF v m] by blast
      then have "d \<in> answers_about ?s tc" unfolding about using m(1) by simp
      then show ?thesis using d(2) by blast
    qed
  qed
qed

lemma reach_grounds_ok: "walk_reach b s \<Longrightarrow> batch_ok b \<Longrightarrow> grounds_ok b s"
proof (induction rule: walk_reach.induct)
  case (reach_alone ra grants)
  then show ?case
    by (auto simp: grounds_ok_def batch_ok_def distinct_map_filter answers_about_def intro: fits_untouched)
next
  case (reach_together ra grants tcs c)
  then show ?case using grounds_together asked_first_sub by blast
next
  case (reach_walk s s')
  then show ?case using grounds_step by blast
qed

end
