(* ===== verification/CallWalkProperties.thy ===== *)
theory CallWalkProperties
  imports CallWalkGrounds
begin

text \<open>
  What a batch under a review of each call promises, in every order in which its calls are asked about, answered, re-checked
  and run. The witnesses follow two calls that may run side by side and that a tool wants approved.
\<close>

subsection \<open>One walk\<close>

definition demo_summary :: "string \<Rightarrow> call_summary" where
  "demo_summary i = \<lparr>sm_id = i, sm_name = ''send'', sm_input = V_null, sm_destructive = False, sm_authorization = None, sm_escalation = None,
    sm_requires_approval = True, sm_skill_grant = None, sm_scratchpad_write = False, sm_hook_permission = None, sm_hook_grant = False\<rparr>"

definition demo_calls :: call_batch where
  "demo_calls = \<lparr>cb_calls = [\<lparr>wc_id = ''a'', wc_safe = True\<rparr>, \<lparr>wc_id = ''b'', wc_safe = True\<rparr>],
    cb_summaries = [demo_summary ''a'', demo_summary ''b''], cb_gate_denied = [], cb_unprepared = [], cb_ask_together = None\<rparr>"

definition quiet :: moment where
  "quiet = \<lparr>mo_review_allowed = False, mo_gate = (\<lambda>tc. Answered None), mo_never_cover = None, mo_covers = None\<rparr>"

definition demo_asking :: walk_state where
  "demo_asking = move 0 Asking (check_rules demo_calls quiet 0 (look_up demo_calls False 0
    (begin_unit (begin_walk demo_calls [] (no_walk None)))))"

definition demo_two :: walk_state where
  "demo_two = check_rules demo_calls quiet 1 (look_up demo_calls False 1 (begin_unit demo_asking))"

definition demo_answered :: "resume_decision \<Rightarrow> walk_state" where
  "demo_answered d = conclude_answer demo_calls (By_answer d) 0 (receive demo_calls (By_answer d) 0 demo_two)"

lemma demo_asking_reach: "walk_reach demo_calls demo_asking"
proof -
  let ?s0 = "begin_walk demo_calls [] (no_walk None)"
  have g: "cb_gate_denied demo_calls = []" by (simp add: demo_calls_def)
  have r0: "walk_reach demo_calls ?s0"
    using walk_reach.reach_alone [of demo_calls False None] unfolding g by (simp add: asked_first_def demo_calls_def)
  have "ws_cursor ?s0 < length (ws_units ?s0)" "may_begin ?s0 (ws_cursor ?s0)" by code_simp+
  then have r1: "walk_reach demo_calls (begin_unit ?s0)" using reach_walk [OF r0] walk_begin by blast
  have "ws_stage (begin_unit ?s0) 0 = Lined_up" by code_simp
  then have r2: "walk_reach demo_calls (look_up demo_calls False 0 (begin_unit ?s0))"
    using reach_walk [OF r1] walk_look_up by blast
  have "ws_stage (look_up demo_calls False 0 (begin_unit ?s0)) 0 = Looking" by code_simp
  then have r3: "walk_reach demo_calls (check_rules demo_calls quiet 0 (look_up demo_calls False 0 (begin_unit ?s0)))"
    using reach_walk [OF r2] walk_check by blast
  have "ws_stage (check_rules demo_calls quiet 0 (look_up demo_calls False 0 (begin_unit ?s0))) 0 = Preparing" by code_simp
  then show ?thesis unfolding demo_asking_def using reach_walk [OF r3] walk_open by blast
qed

lemma demo_two_reach: "walk_reach demo_calls demo_two"
proof -
  have "ws_cursor demo_asking < length (ws_units demo_asking)" "may_begin demo_asking (ws_cursor demo_asking)" by code_simp+
  then have r1: "walk_reach demo_calls (begin_unit demo_asking)" using reach_walk [OF demo_asking_reach] walk_begin by blast
  have "ws_stage (begin_unit demo_asking) 1 = Lined_up" "has_left (ws_stage (begin_unit demo_asking) (1 - 1))" by code_simp+
  then have r2: "walk_reach demo_calls (look_up demo_calls False 1 (begin_unit demo_asking))"
    using reach_walk [OF r1] walk_look_up by blast
  have "ws_stage (look_up demo_calls False 1 (begin_unit demo_asking)) 1 = Looking" by code_simp
  then show ?thesis unfolding demo_two_def using reach_walk [OF r2] walk_check by blast
qed

lemma demo_answered_reach: "walk_reach demo_calls (demo_answered d)"
proof -
  have "ws_stage demo_two 0 = Asking" by code_simp
  then have r: "walk_reach demo_calls (receive demo_calls (By_answer d) 0 demo_two)" using reach_walk [OF demo_two_reach] walk_answer by blast
  have "ws_stage (receive demo_calls (By_answer d) 0 demo_two) 0 = Settling (By_answer d)" by (simp add: receive_def)
  then show ?thesis unfolding demo_answered_def using reach_walk [OF r] walk_conclude by blast
qed

lemma demo_runs_reach: "walk_reach demo_calls (take_verdict 0 May_run (demo_answered approve_plain))"
proof -
  have "ws_stage (demo_answered approve_plain) 0 = Decided May_run" by code_simp
  then show ?thesis using reach_walk [OF demo_answered_reach] walk_take by blast
qed

subsection \<open>What a call that runs rests on\<close>

text \<open>C14: A call with a question only a person may answer runs only when an answer about it allows it, and then every answer
  that was given about it does, and confirms it by its id where it leaves the sandbox: no re-check, rule, grant or mode stands for
  the answer, none turns a No into a yes, and the absence of an answer allows nothing.\<close>

theorem answers_decide_what_runs:
  assumes "walk_reach b s"
    and "distinct (map wc_id (cb_calls b))" "distinct (map sm_id (cb_summaries b))"
    and "i < length (ws_units s)" "summary_for b (wc_id (ws_units s ! i)) = Some tc" "always_asked tc"
    and "ws_stage s i = Executing \<or> ws_results s i = Some Ran_to_end"
  shows "(\<exists>(tcs, d) \<in> set (ws_answers s). tc \<in> set tcs)
    \<and> (\<forall>(tcs, d) \<in> set (ws_answers s). tc \<in> set tcs \<longrightarrow>
        interpret_decision d tc = May_run \<and> (sandbox_escape tc \<longrightarrow> sm_id tc \<in> set (confirmed_by d)))"
proof -
  have ok: "grounds_ok b s" using reach_grounds_ok [OF assms(1)] assms(2,3) by (simp add: batch_ok_def)
  have u: "unit_summary b s i tc" using assms(4,5) by (simp add: unit_summary_def)
  have f: "fits tc (answers_about s tc) (ws_stage s i) (ws_results s i)" by (rule grounds_okD(2) [OF ok u])
  then have yes: "\<exists>d \<in> answers_about s tc. allows_call d tc" using assms(6,7) by (auto simp: fits_def allowed_at_def)
  have "allows_call d tc" if "d \<in> answers_about s tc" for d
    using f that assms(7) by (auto simp: fits_def refused_at_def)
  then show ?thesis using yes by (fastforce simp: answers_about_def allows_call_def)
qed

theorem answers_decide_what_runs_witness:
  "ws_stage (take_verdict 0 May_run (demo_answered approve_plain)) 0 = Executing
    \<and> (\<exists>(tcs, d) \<in> set (ws_answers (take_verdict 0 May_run (demo_answered approve_plain))). demo_summary ''a'' \<in> set tcs)"
proof -
  let ?s = "take_verdict 0 May_run (demo_answered approve_plain)"
  have "distinct (map wc_id (cb_calls demo_calls))" "distinct (map sm_id (cb_summaries demo_calls))" "0 < length (ws_units ?s)"
    "summary_for demo_calls (wc_id (ws_units ?s ! 0)) = Some (demo_summary ''a'')" "always_asked (demo_summary ''a'')"
    "ws_stage ?s 0 = Executing" by code_simp+
  then show ?thesis using answers_decide_what_runs [OF demo_runs_reach] by blast
qed

subsection \<open>Side by side, and after the end\<close>

text \<open>While the turn goes on, two calls are under way together, from the first look at them to their result, only when both are
  safe to run beside others; and at no time, ended or not, does a call that is not safe run while another runs.\<close>

theorem walked_calls_side_by_side:
  assumes "walk_reach b s" "i \<noteq> j"
    and "(\<not> ws_ended s \<and> in_flight s i \<and> in_flight s j) \<or> (ws_stage s i = Executing \<and> ws_stage s j = Executing)"
  shows "wc_safe (ws_units s ! i) \<and> wc_safe (ws_units s ! j)"
  using beside_okD [OF reach_beside_ok [OF assms(1)] assms(2)] assms(3) by (auto simp: unit_safe_def)

theorem walked_calls_side_by_side_witness:
  "in_flight demo_two 0 \<and> in_flight demo_two 1 \<and> wc_safe (ws_units demo_two ! 0) \<and> wc_safe (ws_units demo_two ! 1)"
proof -
  have "\<not> ws_ended demo_two" "in_flight demo_two 0" "in_flight demo_two 1" by code_simp+
  then show ?thesis using walked_calls_side_by_side [OF demo_two_reach, of 0 1] by simp
qed

lemma ran_from_executing: "walk_step b s s' \<Longrightarrow> ws_results s' i = Some Ran_to_end \<Longrightarrow> ws_results s i = Some Ran_to_end \<or> ws_stage s i = Executing"
proof (induction rule: walk_step.induct)
  case (walk_look_up s j ra)
  then show ?case by (cases rule: look_up_cases [of s b ra j]) simp_all
next
  case (walk_check s j m)
  then show ?case by (cases rule: check_rules_cases [of b m j s]) simp_all
next
  case (walk_take s j v)
  then show ?case by (cases rule: take_verdict_cases [of v s j]) simp_all
qed (auto simp: begin_unit_def receive_def conclude_answer_def split: if_splits)

text \<open>C15: Once a refusal has ended the turn no call begins to run, however many were allowed already, are allowed later, or are still
  to be looked at: what runs afterwards was running when the turn ended.\<close>

theorem nothing_runs_after_the_end:
  assumes "walk_reach b s" "ws_ended s" "(walk_step b)\<^sup>*\<^sup>* s s'"
  shows "ws_ended s' \<and> (\<forall>i. ws_stage s' i = Executing \<longrightarrow> ws_stage s i = Executing)
    \<and> (\<forall>i. ws_results s' i = Some Ran_to_end \<longrightarrow> ws_results s i = Some Ran_to_end \<or> ws_stage s i = Executing)"
  using assms(3)
proof (induction rule: rtranclp_induct)
  case base
  then show ?case using assms(2) by blast
next
  case (step t u)
  have r: "walk_reach b t" using step(1) by (induction rule: rtranclp_induct) (use assms(1) reach_walk in blast)+
  obtain k where m: "moved k t u" using reach_moved [OF r step(2)] by blast
  have e: "ws_ended t" using step(3) by blast
  have x: "ws_stage t i = Executing" if "ws_stage u i = Executing" for i using moved_executing(2) [OF m that] e by blast
  show ?case using x ran_from_executing [OF step(2)] movedD(3) [OF m e] step(3) by blast
qed

definition stopping :: resume_decision where
  "stopping = Reject_tools Declined_tool_call None True"

theorem nothing_runs_after_the_end_witness:
  "ws_ended (demo_answered stopping) \<and> ws_ended (move 1 Asking (demo_answered stopping))
    \<and> ws_stage (move 1 Asking (demo_answered stopping)) 0 \<noteq> Executing"
proof -
  have e: "ws_ended (demo_answered stopping)" "ws_stage (demo_answered stopping) 0 \<noteq> Executing"
    "ws_stage (demo_answered stopping) 1 = Preparing" by code_simp+
  have "(walk_step demo_calls)\<^sup>*\<^sup>* (demo_answered stopping) (move 1 Asking (demo_answered stopping))"
    using walk_open [OF e(3)] by (rule r_into_rtranclp)
  then show ?thesis using nothing_runs_after_the_end [OF demo_answered_reach e(1)] e(1,2) by blast
qed

subsection \<open>The end\<close>

text \<open>C16: A walk whose questions are answered comes to its end: each transition brings it nearer, at most eight for a call, and a state
  without one has every call settled, with its result or the refusal it was given, or with a failure of the host that fails the batch.\<close>

theorem walk_comes_to_its_end:
  assumes "walk_reach b s"
  shows "(\<forall>s'. walk_step b s s' \<longrightarrow> walk_left s' < walk_left s) \<and> walk_left s \<le> 8 * length (ws_units s)
    \<and> ((\<forall>s'. \<not> walk_step b s s') \<longrightarrow> ws_cursor s = length (ws_units s)
        \<and> (\<forall>i < length (ws_units s). ws_stage s i = Finished \<and> (ws_failure s \<or> ws_results s i \<noteq> None)))"
proof (intro conjI allI impI)
  note ok = reach_stages_ok [OF assms]
  show "walk_left s' < walk_left s" if "walk_step b s s'" for s' using reach_moved [OF assms that] moved_left [OF _ ok] by blast
  have "walk_left s \<le> (\<Sum>i < length (ws_units s). 8)" unfolding walk_left_def by (intro sum_mono) simp
  then show "walk_left s \<le> 8 * length (ws_units s)" by simp
  assume "\<forall>s'. \<not> walk_step b s s'"
  then have over: "walk_over s" using walk_not_stuck [OF ok] by blast
  show "ws_cursor s = length (ws_units s)" using over by (simp add: walk_over_def)
  show "ws_stage s i = Finished" if "i < length (ws_units s)" for i using over that by (simp add: walk_over_def)
  then show "ws_failure s \<or> ws_results s i \<noteq> None" if "i < length (ws_units s)" for i
    using reach_settled_ok [OF assms] that by (simp add: settled_ok_def)
qed

theorem walk_comes_to_its_end_witness: "walk_left demo_asking \<le> 16 \<and> (\<exists>s'. walk_step demo_calls demo_asking s' \<and> walk_left s' < walk_left demo_asking)"
proof -
  have "ws_stage demo_asking 0 = Asking" "length (ws_units demo_asking) = 2" by code_simp+
  then show ?thesis using walk_comes_to_its_end [OF demo_asking_reach] walk_answer [of demo_asking 0 demo_calls stopping] by auto
qed

subsection \<open>A question after the end\<close>

text \<open>Answers are only added, and once the turn has ended a question that is open leaves that stage by an answer to it.\<close>

lemma answers_added: "walk_step b s s' \<Longrightarrow> \<exists>new. ws_answers s' = ws_answers s @ new"
proof (induction rule: walk_step.induct)
  case (walk_look_up s j ra)
  then show ?case by (cases rule: look_up_cases [of s b ra j]) simp_all
next
  case (walk_check s j m)
  then show ?case by (cases rule: check_rules_cases [of b m j s]) simp_all
next
  case (walk_take s j v)
  then show ?case by (cases rule: take_verdict_cases [of v s j]) simp_all
qed (auto simp: begin_unit_def receive_def conclude_answer_def log_answer_def)

lemma open_until_answered:
  assumes "walk_step b s s'" "ws_ended s" "ws_stage s i = Asking" "ws_stage s (ws_cursor s) = Untouched"
  shows "ws_stage s' i = Asking \<or> (\<exists>d. ws_answers s' = ws_answers s @ [([the_summary b s i], d)])"
  using assms
proof (induction rule: walk_step.induct)
  case (walk_begin s)
  then have "ws_cursor s \<noteq> i" by auto
  then show ?case using walk_begin by (simp add: begin_unit_def)
next
  case (walk_look_up s j ra)
  then show ?case by (cases rule: look_up_cases [of s b ra j]) auto
next
  case (walk_check s j m)
  then show ?case by (cases rule: check_rules_cases [of b m j s]) auto
next
  case (walk_answer s j d)
  then show ?case by (cases "j = i") (simp_all add: receive_def log_answer_def move_def the_summary_def)
next
  case (walk_take s j v)
  then show ?case by (cases rule: take_verdict_cases [of v s j]) auto
next
  case (walk_conclude s j c)
  then show ?case by (cases "j = i") (simp_all add: conclude_answer_def note_end_stage)
qed auto

text \<open>C17: A question that is being prepared when a refusal ends the turn is opened afterwards, although the end closes those
  that are open; and from there on, whatever the other calls do, the batch is not over until somebody answers it:
  nothing but an answer to it, given after the end, takes the call out of the wait.\<close>

theorem question_opens_after_the_end:
  assumes "walk_reach b s" "ws_ended s" "ws_stage s i = Preparing" "(walk_step b)\<^sup>*\<^sup>* (move i Asking s) s'"
  shows "walk_step b s (move i Asking s)
    \<and> ((ws_stage s' i = Asking \<and> \<not> walk_over s')
      \<or> (\<exists>d. ([the_summary b s i], d) \<in> set (drop (length (ws_answers s)) (ws_answers s'))))"
proof (rule conjI)
  show o: "walk_step b s (move i Asking s)" by (rule walk_open [OF assms(3)])
  let ?q = "the_summary b s i"
  have i: "i < length (ws_units s)"
    using in_flight_below [OF reach_stages_ok [OF assms(1)], of i] assms(3) by (simp add: in_flight_def)
  have "walk_reach b s' \<and> ws_ended s' \<and> ws_units s' = ws_units s \<and> (\<exists>new. ws_answers s' = ws_answers s @ new
      \<and> (ws_stage s' i = Asking \<or> (\<exists>d. ([?q], d) \<in> set new)))"
    using assms(4)
  proof (induction rule: rtranclp_induct)
    case base
    show ?case using reach_walk [OF assms(1) o] assms(2) by simp
  next
    case (step t u)
    then obtain new where t: "walk_reach b t" "ws_ended t" "ws_units t = ws_units s" "ws_answers t = ws_answers s @ new"
      "ws_stage t i = Asking \<or> (\<exists>d. ([?q], d) \<in> set new)" by blast
    obtain k where m: "moved k t u" using reach_moved [OF t(1) step(2)] by blast
    obtain more where a: "ws_answers u = ws_answers t @ more" using answers_added [OF step(2)] by blast
    have q: "the_summary b t i = ?q" using t(3) by (simp add: the_summary_def)
    have "ws_stage u i = Asking \<or> (\<exists>d. ([?q], d) \<in> set (new @ more))"
    proof (cases "\<exists>d. ([?q], d) \<in> set new")
      case False
      then have "ws_stage t i = Asking" using t(5) by blast
      from open_until_answered [OF step(2) t(2) this stages_ok_cursor [OF reach_stages_ok [OF t(1)]]]
      show ?thesis unfolding q a by auto
    qed auto
    then show ?case using reach_walk [OF t(1) step(2)] movedD(1,3) [OF m] t(2-4) a by auto
  qed
  then show "(ws_stage s' i = Asking \<and> \<not> walk_over s')
      \<or> (\<exists>d. ([?q], d) \<in> set (drop (length (ws_answers s)) (ws_answers s')))"
    using i by (auto simp: walk_over_def)
qed

text \<open>The first of the two calls is refused, which ends the turn while the second is being prepared. Its question opens, the
  first call gets its refusal, and the batch waits.\<close>

abbreviation declined :: refusal where
  "declined \<equiv> \<lparr>rf_reason = Told Declined_tool_call, rf_declined = None\<rparr>"

definition demo_late :: walk_state where
  "demo_late = finish 0 (Not_run declined) (take_verdict 0 (May_not declined) (move 1 Asking (demo_answered stopping)))"

theorem question_opens_after_the_end_witness:
  "ws_stage demo_late 0 = Finished \<and> ws_stage demo_late 1 = Asking \<and> \<not> walk_over demo_late"
proof -
  let ?s = "move 1 Asking (demo_answered stopping)" and ?v = "take_verdict 0 (May_not declined) (move 1 Asking (demo_answered stopping))"
  have e: "ws_ended (demo_answered stopping)" "ws_stage (demo_answered stopping) 1 = Preparing" by code_simp+
  have "ws_stage ?s 0 = Decided (May_not declined)" "ws_stage ?v 0 = Refusing True declined" "earlier_finished ?v 0" by code_simp+
  then have "walk_step demo_calls ?s ?v" "walk_step demo_calls ?v demo_late"
    unfolding demo_late_def using walk_take walk_refused by blast+
  then have "(walk_step demo_calls)\<^sup>*\<^sup>* ?s demo_late" by (meson r_into_rtranclp rtranclp.rtrancl_into_rtrancl)
  note late = question_opens_after_the_end [OF demo_answered_reach e this]
  have "ws_stage demo_late 0 = Finished" "length (ws_answers demo_late) = length (ws_answers (demo_answered stopping))" by code_simp+
  then show ?thesis using late by auto
qed

subsection \<open>Notes\<close>

lemma blank_controls_plain: "c \<in> set (blank_controls g t) \<Longrightarrow> \<not> is_control c"
proof (induction g t rule: blank_controls.induct)
  case (2 g x xs)
  have "\<not> is_control (CHR '' '')" by code_simp
  then show ?case using 2 by (auto split: if_splits)
qed simp

lemma set_trim: "set (trim t) \<subseteq> set t"
  unfolding trim_def by (auto dest!: set_dropWhileD)

text \<open>A person's note reaches the model and the audit log without control characters, whatever was typed, and no longer than the limit.\<close>

theorem note_is_plain: "length (clean_person_note said) \<le> 4000 \<and> (\<forall>c. c \<in> set (clean_person_note said) \<longrightarrow> \<not> is_control c)"
proof (cases said)
  case (Some t)
  have "set (clean_person_note said) \<subseteq> set (blank_controls False t)"
    using set_take_subset [of note_limit "trim (blank_controls False t)"] set_trim [of "blank_controls False t"] Some
    by (auto simp: clean_person_note_def)
  then show ?thesis using blank_controls_plain Some by (auto simp: clean_person_note_def note_limit_def)
qed (simp add: clean_person_note_def)

theorem note_is_plain_witness:
  "clean_person_note (Some [CHR ''a'', char_of (27::nat), char_of (7::nat), CHR ''b'']) = ''a b'' \<and> \<not> is_control (CHR ''b'')"
proof -
  have e: "clean_person_note (Some [CHR ''a'', char_of (27::nat), char_of (7::nat), CHR ''b'']) = ''a b''" by code_simp
  then show ?thesis using note_is_plain [of "Some [CHR ''a'', char_of (27::nat), char_of (7::nat), CHR ''b'']"] by simp
qed

end
