(* ===== verification/BatchRun.thy ===== *)
theory BatchRun
  imports Prelude
begin

text \<open>
  How the executor runs the calls of one batch (\<open>runtime/query/executor.ts\<close>, \<open>runBatch\<close> without a per-call
  review; \<open>runtime/query/detached-calls.ts\<close>). A first pass makes a chain of promises: calls that are
  safe side by side run in parallel, the others one after the other, a barrier waits for everything
  before it and everything after it waits for the barrier. The runs then interleave: a transition is one begin, one
  end, one failure of a task, the end of the batch, or its hand-back when the operator writes while calls still run. What a tool returns is
  left out but for its being an error; events and the fitting of long outputs are left out.
\<close>

subsection \<open>The plan\<close>

record batch_call =
  bc_id :: string
  bc_barrier :: bool
  bc_safe :: bool

record batch =
  ba_calls :: "batch_call list"
  ba_prior :: "string list"
  ba_denials :: "string list"
  ba_limit :: int
  ba_detach :: bool

text \<open>The number is the position of the call in the batch. A recovered barrier keeps its place with nothing to do.\<close>

datatype work = Keep_place | Record_denial nat | Run_call nat

record task =
  tk_work :: work
  tk_gated :: bool
  tk_safe :: bool
  tk_barrier :: bool
  tk_after :: "nat list"

record plan =
  pl_tasks :: "task list"
  pl_parallel :: "nat list"
  pl_serial :: "nat option"
  pl_barrier :: "nat option"

definition of_option :: "'a option \<Rightarrow> 'a list" where
  "of_option x = (case x of None \<Rightarrow> [] | Some y \<Rightarrow> [y])"

text \<open>\<open>schedule\<close>: a task is a promise, named by its position; it runs after the promises it waits for.\<close>

definition schedule :: "work \<Rightarrow> bool \<Rightarrow> bool \<Rightarrow> bool \<Rightarrow> plan \<Rightarrow> plan" where
  "schedule w gated safe barrier p =
    (let n = length (pl_tasks p);
         task = (\<lambda>after. \<lparr>tk_work = w, tk_gated = gated, tk_safe = safe, tk_barrier = barrier, tk_after = after\<rparr>)
     in if barrier then
          p\<lparr>pl_tasks := pl_tasks p @ [task (pl_parallel p @ of_option (pl_serial p))],
            pl_parallel := [], pl_serial := Some n, pl_barrier := Some n\<rparr>
        else if safe then
          p\<lparr>pl_tasks := pl_tasks p @ [task (of_option (pl_barrier p))], pl_parallel := pl_parallel p @ [n]\<rparr>
        else
          p\<lparr>pl_tasks := pl_tasks p @ [task (of_option (pl_serial p))], pl_serial := Some n\<rparr>)"

definition plan_call :: "batch \<Rightarrow> nat \<Rightarrow> batch_call \<Rightarrow> plan \<Rightarrow> plan" where
  "plan_call b i c p =
    (if bc_id c \<in> set (ba_prior b) then (if bc_barrier c then schedule Keep_place False True True p else p)
     else if bc_id c \<in> set (ba_denials b) then schedule (Record_denial i) False True (bc_barrier c) p
     else schedule (Run_call i) (bc_safe c) (bc_safe c) (bc_barrier c) p)"

fun plan_calls :: "batch \<Rightarrow> nat \<Rightarrow> batch_call list \<Rightarrow> plan \<Rightarrow> plan" where
  "plan_calls b i [] p = p"
| "plan_calls b i (c # cs) p = plan_calls b (Suc i) cs (plan_call b i c p)"

definition no_plan :: plan where
  "no_plan = \<lparr>pl_tasks = [], pl_parallel = [], pl_serial = None, pl_barrier = None\<rparr>"

definition plan_of :: "batch \<Rightarrow> plan" where
  "plan_of b = plan_calls b 0 (ba_calls b) no_plan"

subsection \<open>The state of a run\<close>

datatype status = Waiting | Queued | Running | Fulfilled | Broken

datatype outcome_kind = Recovered | Refused | Ran bool | Still_running bool | Failed_late | Lost

record outcome =
  oc_call :: string
  oc_kind :: outcome_kind

datatype phase = Gathering | Returned | Threw

text \<open>
  The semaphore with its waiters, the results by position, the calls that began, those handed back and reported,
  and of the turn's detached calls the open ones and what has arrived.
\<close>

record run_state =
  rn_status :: "nat \<Rightarrow> status"
  rn_available :: nat
  rn_waiters :: "nat list"
  rn_results :: "nat \<rightharpoonup> outcome"
  rn_started :: "string set"
  rn_phase :: phase
  rn_handed :: "string list"
  rn_reported :: "string list"
  rn_open :: "string list"
  rn_arrived :: "outcome list"
  rn_rest :: bool

text \<open>A set or a map of the code, by its keys in their order\<close>

definition put_key :: "string \<Rightarrow> string list \<Rightarrow> string list" where
  "put_key k ks = (if k \<in> set ks then ks else ks @ [k])"

definition drop_key :: "string \<Rightarrow> string list \<Rightarrow> string list" where
  "drop_key k ks = filter (\<lambda>x. x \<noteq> k) ks"

definition call_id :: "batch \<Rightarrow> nat \<Rightarrow> string" where
  "call_id b i = bc_id (ba_calls b ! i)"

definition answer_of :: "batch \<Rightarrow> nat \<Rightarrow> outcome_kind \<Rightarrow> outcome" where
  "answer_of b i k = \<lparr>oc_call = call_id b i, oc_kind = k\<rparr>"

definition permits :: "batch \<Rightarrow> nat" where
  "permits b = nat (max 1 (ba_limit b))"

definition begin_batch :: "batch \<Rightarrow> run_state" where
  "begin_batch b =
    \<lparr>rn_status = (\<lambda>t. Waiting), rn_available = permits b, rn_waiters = [],
     rn_results = (\<lambda>i. if i < length (ba_calls b) \<and> call_id b i \<in> set (ba_prior b) then Some (answer_of b i Recovered) else None),
     rn_started = {}, rn_phase = Gathering, rn_handed = [], rn_reported = [], rn_open = [], rn_arrived = [], rn_rest = False\<rparr>"

definition task_at :: "batch \<Rightarrow> nat \<Rightarrow> task" where
  "task_at b t = pl_tasks (plan_of b) ! t"

definition settled :: "run_state \<Rightarrow> nat \<Rightarrow> bool" where
  "settled s t \<longleftrightarrow> rn_status s t = Fulfilled \<or> rn_status s t = Broken"

subsection \<open>Tasks begin and end\<close>

text \<open>A task that runs: a call begins.\<close>

definition run_now :: "batch \<Rightarrow> nat \<Rightarrow> run_state \<Rightarrow> run_state" where
  "run_now b t s = s\<lparr>rn_status := (rn_status s)(t := Running),
     rn_started := (case tk_work (task_at b t) of Run_call i \<Rightarrow> insert (call_id b i) (rn_started s) | _ \<Rightarrow> rn_started s)\<rparr>"

definition begin_task :: "batch \<Rightarrow> nat \<Rightarrow> run_state \<Rightarrow> run_state" where
  "begin_task b t s =
    (if \<not> tk_gated (task_at b t) then run_now b t s
     else if rn_available s = 0 then s\<lparr>rn_status := (rn_status s)(t := Queued), rn_waiters := rn_waiters s @ [t]\<rparr>
     else run_now b t (s\<lparr>rn_available := rn_available s - 1\<rparr>))"

definition release :: "batch \<Rightarrow> run_state \<Rightarrow> run_state" where
  "release b s = (case rn_waiters s of
      [] \<Rightarrow> s\<lparr>rn_available := rn_available s + 1\<rparr>
    | w # ws \<Rightarrow> run_now b w (s\<lparr>rn_waiters := ws\<rparr>))"

text \<open>\<open>DetachedCalls.begin\<close> and \<open>settle\<close>\<close>

definition detach_call :: "string \<Rightarrow> run_state \<Rightarrow> run_state" where
  "detach_call k s = s\<lparr>rn_open := put_key k (rn_open s)\<rparr>"

definition settle_call :: "outcome \<Rightarrow> run_state \<Rightarrow> run_state" where
  "settle_call out s =
    (if oc_call out \<in> set (rn_open s)
     then s\<lparr>rn_open := drop_key (oc_call out) (rn_open s), rn_arrived := rn_arrived s @ [out]\<rparr>
     else s)"

definition report_late :: "outcome \<Rightarrow> run_state \<Rightarrow> run_state" where
  "report_late out s =
    (if oc_call out \<in> set (rn_reported s) then s
     else settle_call out (s\<lparr>rn_reported := put_key (oc_call out) (rn_reported s)\<rparr>))"

definition end_task :: "batch \<Rightarrow> nat \<Rightarrow> status \<Rightarrow> run_state \<Rightarrow> run_state" where
  "end_task b t st s =
    (let s1 = s\<lparr>rn_status := (rn_status s)(t := st)\<rparr>
     in if tk_gated (task_at b t) then release b s1 else s1)"

text \<open>A task that comes to its end; the flag says whether the tool reported an error.\<close>

definition succeed :: "batch \<Rightarrow> nat \<Rightarrow> bool \<Rightarrow> run_state \<Rightarrow> run_state" where
  "succeed b t err s = end_task b t Fulfilled (case tk_work (task_at b t) of
      Keep_place \<Rightarrow> s
    | Record_denial i \<Rightarrow> s\<lparr>rn_results := (rn_results s)(i \<mapsto> answer_of b i Refused)\<rparr>
    | Run_call i \<Rightarrow>
        if call_id b i \<in> set (rn_handed s) then report_late (answer_of b i (Ran err)) s
        else s\<lparr>rn_results := (rn_results s)(i \<mapsto> answer_of b i (Ran err))\<rparr>)"

text \<open>Host plumbing that rejects; for a call handed back that is its outcome.\<close>

definition break_task :: "batch \<Rightarrow> nat \<Rightarrow> run_state \<Rightarrow> run_state" where
  "break_task b t s = (case tk_work (task_at b t) of
      Run_call i \<Rightarrow>
        if call_id b i \<in> set (rn_handed s) then end_task b t Fulfilled (report_late (answer_of b i Failed_late) s)
        else end_task b t Broken s
    | _ \<Rightarrow> end_task b t Broken s)"

subsection \<open>The batch ends\<close>

definition final_tasks :: "batch \<Rightarrow> nat list" where
  "final_tasks b = pl_parallel (plan_of b) @ of_option (pl_serial (plan_of b))"

definition completed :: "batch \<Rightarrow> run_state \<Rightarrow> bool" where
  "completed b s = list_all (\<lambda>t. rn_status s t = Fulfilled) (final_tasks b)"

definition failed :: "batch \<Rightarrow> run_state \<Rightarrow> bool" where
  "failed b s = list_ex (\<lambda>t. rn_status s t = Broken) (final_tasks b)"

definition holes :: "batch \<Rightarrow> run_state \<Rightarrow> nat list" where
  "holes b s = filter (\<lambda>i. rn_results s i = None) [0..<length (ba_calls b)]"

definition fill :: "batch \<Rightarrow> nat list \<Rightarrow> (nat \<Rightarrow> outcome_kind) \<Rightarrow> (nat \<rightharpoonup> outcome) \<Rightarrow> (nat \<rightharpoonup> outcome)" where
  "fill b is kind results = (\<lambda>i. if i \<in> set is then Some (answer_of b i (kind i)) else results i)"

definition return_batch :: "batch \<Rightarrow> run_state \<Rightarrow> run_state" where
  "return_batch b s = s\<lparr>rn_results := fill b (holes b s) (\<lambda>i. Lost) (rn_results s), rn_phase := Returned\<rparr>"

text \<open>The operator wrote: each unfinished call is answered with a placeholder and goes on.\<close>

fun detach_calls :: "string list \<Rightarrow> run_state \<Rightarrow> run_state" where
  "detach_calls [] s = s"
| "detach_calls (k # ks) s = detach_calls ks (detach_call k (s\<lparr>rn_handed := put_key k (rn_handed s)\<rparr>))"

definition hand_back :: "batch \<Rightarrow> run_state \<Rightarrow> run_state" where
  "hand_back b s = (detach_calls (map (call_id b) (holes b s)) s)
    \<lparr>rn_results := fill b (holes b s) (\<lambda>i. Still_running (call_id b i \<in> rn_started s)) (rn_results s), rn_phase := Returned\<rparr>"

fun report_all :: "string list \<Rightarrow> run_state \<Rightarrow> run_state" where
  "report_all [] s = s"
| "report_all (k # ks) s = report_all ks (report_late \<lparr>oc_call = k, oc_kind = Lost\<rparr> s)"

definition settle_rest :: "batch \<Rightarrow> run_state \<Rightarrow> run_state" where
  "settle_rest b s = (report_all (rn_handed s) s)\<lparr>rn_rest := True\<rparr>"

definition messages :: "batch \<Rightarrow> run_state \<Rightarrow> outcome option list" where
  "messages b s = map (rn_results s) [0..<length (ba_calls b)]"

subsection \<open>Transitions\<close>

definition can_begin :: "batch \<Rightarrow> run_state \<Rightarrow> nat \<Rightarrow> bool" where
  "can_begin b s t \<longleftrightarrow> t < length (pl_tasks (plan_of b)) \<and> rn_status s t = Waiting
    \<and> list_all (\<lambda>u. rn_status s u = Fulfilled) (tk_after (task_at b t))"

text \<open>A promise that waited for one that is broken: it is broken once all it waited for have settled.\<close>

definition must_break :: "batch \<Rightarrow> run_state \<Rightarrow> nat \<Rightarrow> bool" where
  "must_break b s t \<longleftrightarrow> t < length (pl_tasks (plan_of b)) \<and> rn_status s t = Waiting
    \<and> list_all (settled s) (tk_after (task_at b t)) \<and> list_ex (\<lambda>u. rn_status s u = Broken) (tk_after (task_at b t))"

inductive batch_step :: "batch \<Rightarrow> run_state \<Rightarrow> run_state \<Rightarrow> bool" for b where
  step_begin: "can_begin b s t \<Longrightarrow> batch_step b s (begin_task b t s)"
| step_skip: "must_break b s t \<Longrightarrow> batch_step b s (s\<lparr>rn_status := (rn_status s)(t := Broken)\<rparr>)"
| step_succeed: "t < length (pl_tasks (plan_of b)) \<Longrightarrow> rn_status s t = Running \<Longrightarrow> batch_step b s (succeed b t err s)"
| step_break: "t < length (pl_tasks (plan_of b)) \<Longrightarrow> rn_status s t = Running \<Longrightarrow> tk_work (task_at b t) \<noteq> Keep_place
    \<Longrightarrow> batch_step b s (break_task b t s)"
| step_return: "rn_phase s = Gathering \<Longrightarrow> completed b s \<Longrightarrow> batch_step b s (return_batch b s)"
| step_throw: "rn_phase s = Gathering \<Longrightarrow> failed b s \<Longrightarrow> batch_step b s (s\<lparr>rn_phase := Threw\<rparr>)"
| step_hand_back: "rn_phase s = Gathering \<Longrightarrow> ba_detach b \<Longrightarrow> holes b s \<noteq> [] \<Longrightarrow> batch_step b s (hand_back b s)"
| step_settle_rest: "rn_handed s \<noteq> [] \<Longrightarrow> \<not> rn_rest s \<Longrightarrow> completed b s \<or> failed b s \<Longrightarrow> batch_step b s (settle_rest b s)"

inductive batch_reach :: "batch \<Rightarrow> run_state \<Rightarrow> bool" for b where
  reach_begin: "batch_reach b (begin_batch b)"
| reach_step: "batch_reach b s \<Longrightarrow> batch_step b s s' \<Longrightarrow> batch_reach b s'"

end
