(* ===== verification/BatchPlanProofs.thy ===== *)
theory BatchPlanProofs
  imports BatchRun
begin

text \<open>
  The plan of a batch: which tasks wait for which, directly or through others, and which call each
  task answers. Two tasks that must not overlap are ordered by the promises between them.
\<close>

subsection \<open>The order of the promises\<close>

definition waits :: "task list \<Rightarrow> (nat \<times> nat) set" where
  "waits ts = {(u, t). t < length ts \<and> u \<in> set (tk_after (ts ! t))}"

lemma waits_snoc: "waits (ts @ [x]) = waits ts \<union> (\<lambda>u. (u, length ts)) ` set (tk_after x)"
  by (auto simp: waits_def nth_append less_Suc_eq split: if_splits)

lemma waits_mono: "(u, t) \<in> (waits ts)\<^sup>* \<Longrightarrow> (u, t) \<in> (waits (ts @ [x]))\<^sup>*"
  "(u, t) \<in> (waits ts)\<^sup>+ \<Longrightarrow> (u, t) \<in> (waits (ts @ [x]))\<^sup>+"
  by (rule rtrancl_mono [THEN subsetD]; force simp: waits_snoc) (rule trancl_mono, assumption, force simp: waits_snoc)

lemma waits_new:
  assumes "(t, u) \<in> (waits ts)\<^sup>*" "u \<in> set (tk_after x)"
  shows "(t, length ts) \<in> (waits (ts @ [x]))\<^sup>+"
  using rtrancl_into_trancl1 [OF waits_mono(1) [OF assms(1), where x = x]] assms(2) by (auto simp: waits_snoc)

text \<open>Tasks that may not run side by side: a barrier and any other, two that are not safe.\<close>

definition apart :: "task \<Rightarrow> task \<Rightarrow> bool" where
  "apart x y \<longleftrightarrow> tk_barrier x \<or> tk_barrier y \<or> (\<not> tk_safe x \<and> \<not> tk_safe y)"

definition plan_ordered :: "plan \<Rightarrow> bool" where
  "plan_ordered p \<longleftrightarrow>
    (let ts = pl_tasks p; n = length ts; W = waits ts in
      (\<forall>(u, t) \<in> W. u < t)
      \<and> (\<forall>t \<in> set (pl_parallel p @ of_option (pl_serial p) @ of_option (pl_barrier p)). t < n)
      \<and> (\<forall>t < n. t \<in> set (pl_parallel p) \<or> (\<exists>s. pl_serial p = Some s \<and> (t, s) \<in> W\<^sup>*))
      \<and> (\<forall>t < n. \<not> tk_safe (ts ! t) \<or> tk_barrier (ts ! t) \<longrightarrow> (\<exists>s. pl_serial p = Some s \<and> (t, s) \<in> W\<^sup>*))
      \<and> (\<forall>t < n. tk_barrier (ts ! t) \<longrightarrow> (\<exists>b. pl_barrier p = Some b \<and> (t, b) \<in> W\<^sup>*))
      \<and> (\<forall>u < n. \<forall>t < u. apart (ts ! t) (ts ! u) \<longrightarrow> (t, u) \<in> W\<^sup>+))"

lemma set_of_option [simp]: "set (of_option x) = set_option x"
  by (cases x) (auto simp: of_option_def)

lemma schedule_ordered:
  assumes "plan_ordered p"
  shows "plan_ordered (schedule w gated safe barrier p)"
proof -
  define ts where "ts = pl_tasks p"
  define n where "n = length ts"
  note ok = assms [unfolded plan_ordered_def Let_def, folded ts_def, folded n_def]
  have below: "\<forall>(u, t) \<in> waits ts. u < t" and names: "\<forall>t \<in> set (pl_parallel p @ of_option (pl_serial p) @ of_option (pl_barrier p)). t < n"
    and reach: "\<forall>t < n. t \<in> set (pl_parallel p) \<or> (\<exists>s. pl_serial p = Some s \<and> (t, s) \<in> (waits ts)\<^sup>*)"
    and chain: "\<forall>t < n. \<not> tk_safe (ts ! t) \<or> tk_barrier (ts ! t) \<longrightarrow> (\<exists>s. pl_serial p = Some s \<and> (t, s) \<in> (waits ts)\<^sup>*)"
    and walls: "\<forall>t < n. tk_barrier (ts ! t) \<longrightarrow> (\<exists>b. pl_barrier p = Some b \<and> (t, b) \<in> (waits ts)\<^sup>*)"
    and pairs: "\<forall>u < n. \<forall>t < u. apart (ts ! t) (ts ! u) \<longrightarrow> (t, u) \<in> (waits ts)\<^sup>+"
    using ok by blast+
  define task where "task = (\<lambda>after. \<lparr>tk_work = w, tk_gated = gated, tk_safe = safe, tk_barrier = barrier, tk_after = after\<rparr>)"
  have old: "\<forall>u < n. \<forall>t < u. apart ((ts @ [x]) ! t) ((ts @ [x]) ! u) \<longrightarrow> (t, u) \<in> (waits (ts @ [x]))\<^sup>+" for x
    using pairs waits_mono(2) by (auto simp: nth_append n_def)
  have kept: "\<exists>s. v = Some s \<and> (t, s) \<in> (waits (ts @ [x]))\<^sup>*" if "\<exists>s. v = Some s \<and> (t, s) \<in> (waits ts)\<^sup>*" for v t x
    using that waits_mono(1) by blast
  have new_below: "\<forall>(u, t) \<in> waits (ts @ [task after]). u < t" if "\<forall>u \<in> set after. u < n" for after
    using below that by (auto simp: waits_snoc task_def n_def)
  have new: "(t, n) \<in> (waits (ts @ [task after]))\<^sup>+" if "(t, u) \<in> (waits ts)\<^sup>*" "u \<in> set after" for t u after
    using waits_new [of t u ts "task after"] that by (simp add: task_def n_def)
  consider "barrier" | "\<not> barrier" "safe" | "\<not> barrier" "\<not> safe" by blast
  then show ?thesis
  proof cases
    case 1
    let ?after = "pl_parallel p @ of_option (pl_serial p)"
    let ?ts = "ts @ [task ?after]"
    have all: "(t, n) \<in> (waits ?ts)\<^sup>+" if "t < n" for t
      using reach that new [of t t ?after] new [of t _ ?after] by fastforce
    have p': "schedule w gated safe barrier p = p\<lparr>pl_tasks := ?ts, pl_parallel := [], pl_serial := Some n, pl_barrier := Some n\<rparr>"
      using 1 by (simp add: schedule_def task_def ts_def n_def Let_def)
    have all': "(t, n) \<in> (waits ?ts)\<^sup>*" if "t < Suc n" for t
      using all [of t] that by (cases "t = n") auto
    have "\<forall>u < Suc n. \<forall>t < u. apart (?ts ! t) (?ts ! u) \<longrightarrow> (t, u) \<in> (waits ?ts)\<^sup>+"
      using old [of "task ?after"] all by (auto simp: less_Suc_eq)
    moreover have "\<forall>(u, t) \<in> waits ?ts. u < t" using new_below [of ?after] names by auto
    ultimately show ?thesis
      using names all'
      unfolding p' plan_ordered_def by (simp add: Let_def n_def [symmetric])
  next
    case 2
    let ?after = "of_option (pl_barrier p)"
    let ?ts = "ts @ [task ?after]"
    have p': "schedule w gated safe barrier p = p\<lparr>pl_tasks := ?ts, pl_parallel := pl_parallel p @ [n]\<rparr>"
      using 2 by (simp add: schedule_def task_def ts_def n_def Let_def)
    have last: "tk_safe (?ts ! n) = safe" "tk_barrier (?ts ! n) = barrier" by (simp_all add: n_def task_def)
    have at: "?ts ! t = ts ! t" if "t < n" for t using that by (simp add: nth_append n_def)
    have "(t, n) \<in> (waits ?ts)\<^sup>+" if "t < n" "apart (?ts ! t) (?ts ! n)" for t
      using walls new [of t _ ?after] that 2 by (auto simp: apart_def last at)
    then have "\<forall>u < Suc n. \<forall>t < u. apart (?ts ! t) (?ts ! u) \<longrightarrow> (t, u) \<in> (waits ?ts)\<^sup>+"
      using old [of "task ?after"] by (auto simp: less_Suc_eq)
    moreover have "\<exists>s. pl_serial p = Some s \<and> (t, s) \<in> (waits ?ts)\<^sup>*"
      if "t < Suc n" "\<not> tk_safe (?ts ! t) \<or> tk_barrier (?ts ! t)" for t
    proof (rule kept)
      have "t < n" using that 2 last by (cases "t = n") auto
      then show "\<exists>s. pl_serial p = Some s \<and> (t, s) \<in> (waits ts)\<^sup>*" using chain that(2) at by simp
    qed
    moreover have "\<exists>s. pl_barrier p = Some s \<and> (t, s) \<in> (waits ?ts)\<^sup>*" if "t < Suc n" "tk_barrier (?ts ! t)" for t
    proof (rule kept)
      have "t < n" using that 2 last by (cases "t = n") auto
      then show "\<exists>s. pl_barrier p = Some s \<and> (t, s) \<in> (waits ts)\<^sup>*" using walls that(2) at by simp
    qed
    moreover have "t \<in> set (pl_parallel p @ [n]) \<or> (\<exists>s. pl_serial p = Some s \<and> (t, s) \<in> (waits ?ts)\<^sup>*)" if "t < Suc n" for t
    proof (cases "t = n")
      case False
      then have "t < n" using that by simp
      then show ?thesis using reach kept [of "pl_serial p" t "task ?after"] by auto
    qed simp
    moreover have "\<forall>(u, t) \<in> waits ?ts. u < t" using new_below [of ?after] names by simp
    moreover have "\<forall>t \<in> set ((pl_parallel p @ [n]) @ of_option (pl_serial p) @ of_option (pl_barrier p)). t < Suc n"
      using names by (auto simp: less_SucI)
    ultimately show ?thesis unfolding p' plan_ordered_def by (simp add: Let_def n_def [symmetric])
  next
    case 3
    let ?after = "of_option (pl_serial p)"
    let ?ts = "ts @ [task ?after]"
    have p': "schedule w gated safe barrier p = p\<lparr>pl_tasks := ?ts, pl_serial := Some n\<rparr>"
      using 3 by (simp add: schedule_def task_def ts_def n_def Let_def)
    have last: "tk_safe (?ts ! n) = safe" "tk_barrier (?ts ! n) = barrier" by (simp_all add: n_def task_def)
    have at: "?ts ! t = ts ! t" if "t < n" for t using that by (simp add: nth_append n_def)
    have serial: "(t, n) \<in> (waits ?ts)\<^sup>+" if "pl_serial p = Some s" "(t, s) \<in> (waits ts)\<^sup>*" for t s
      using new [of t s ?after] that by simp
    have "(t, n) \<in> (waits ?ts)\<^sup>+" if "t < n" "apart (?ts ! t) (?ts ! n)" for t
      using chain serial that 3 by (auto simp: apart_def last at)
    then have "\<forall>u < Suc n. \<forall>t < u. apart (?ts ! t) (?ts ! u) \<longrightarrow> (t, u) \<in> (waits ?ts)\<^sup>+"
      using old [of "task ?after"] by (auto simp: less_Suc_eq)
    moreover have "(t, n) \<in> (waits ?ts)\<^sup>*" if b: "t < Suc n" and x: "\<not> tk_safe (?ts ! t) \<or> tk_barrier (?ts ! t)" for t
    proof (cases "t = n")
      case False
      then have "t < n" using b by simp
      then obtain s where "pl_serial p = Some s" "(t, s) \<in> (waits ts)\<^sup>*" using chain x at by auto
      then show ?thesis using serial by (simp add: trancl_into_rtrancl)
    qed simp
    moreover have "\<exists>s. pl_barrier p = Some s \<and> (t, s) \<in> (waits ?ts)\<^sup>*" if "t < Suc n" "tk_barrier (?ts ! t)" for t
    proof (rule kept)
      have "t < n" using that 3 last by (cases "t = n") auto
      then show "\<exists>s. pl_barrier p = Some s \<and> (t, s) \<in> (waits ts)\<^sup>*" using walls that(2) at by simp
    qed
    moreover have "t \<in> set (pl_parallel p) \<or> (t, n) \<in> (waits ?ts)\<^sup>*" if "t < Suc n" for t
    proof (cases "t = n")
      case False
      then have "t < n" using that by simp
      then show ?thesis using reach serial by (metis trancl_into_rtrancl)
    qed simp
    moreover have "\<forall>(u, t) \<in> waits ?ts. u < t" using new_below [of ?after] names by simp
    moreover have "\<forall>t \<in> set (pl_parallel p @ [n] @ of_option (pl_barrier p)). t < Suc n" using names by (auto simp: less_SucI)
    ultimately show ?thesis unfolding p' plan_ordered_def by (simp add: Let_def n_def [symmetric])
  qed
qed

lemma no_plan_ordered: "plan_ordered no_plan"
  by (simp add: plan_ordered_def no_plan_def waits_def of_option_def)

lemma plan_call_ordered: "plan_ordered p \<Longrightarrow> plan_ordered (plan_call b i c p)"
  by (simp add: plan_call_def schedule_ordered)

lemma plan_calls_ordered: "plan_ordered p \<Longrightarrow> plan_ordered (plan_calls b i cs p)"
  by (induction b i cs p rule: plan_calls.induct) (simp_all add: plan_call_ordered)

lemma plan_of_ordered: "plan_ordered (plan_of b)"
  by (simp add: plan_of_def plan_calls_ordered no_plan_ordered)

abbreviation tasks :: "batch \<Rightarrow> task list" where
  "tasks b \<equiv> pl_tasks (plan_of b)"

lemmas plan_facts = plan_of_ordered [unfolded plan_ordered_def Let_def]

lemma waits_below: "t < length (tasks b) \<Longrightarrow> u \<in> set (tk_after (task_at b t)) \<Longrightarrow> u < t"
  using plan_facts [of b] by (force simp: waits_def task_at_def)

lemma apart_ordered: "t < u \<Longrightarrow> u < length (tasks b) \<Longrightarrow> apart (task_at b t) (task_at b u) \<Longrightarrow> (t, u) \<in> (waits (tasks b))\<^sup>+"
  using plan_facts [of b] by (simp add: task_at_def)

text \<open>Every task is final or waited for by a final one.\<close>

lemma reaches_final:
  assumes "t < length (tasks b)"
  shows "\<exists>u \<in> set (final_tasks b). (t, u) \<in> (waits (tasks b))\<^sup>*"
  using plan_facts [of b] assms by (auto simp: final_tasks_def)

lemma final_below: "t \<in> set (final_tasks b) \<Longrightarrow> t < length (tasks b)"
  using plan_facts [of b] by (auto simp: final_tasks_def)

subsection \<open>The calls and their tasks\<close>

fun work_call :: "work \<Rightarrow> nat option" where
  "work_call Keep_place = None"
| "work_call (Record_denial i) = Some i"
| "work_call (Run_call i) = Some i"

definition recovered :: "batch \<Rightarrow> nat \<Rightarrow> bool" where
  "recovered b i \<longleftrightarrow> call_id b i \<in> set (ba_prior b)"

definition denied :: "batch \<Rightarrow> nat \<Rightarrow> bool" where
  "denied b i \<longleftrightarrow> \<not> recovered b i \<and> call_id b i \<in> set (ba_denials b)"

text \<open>The work of the tasks for the calls before \<open>k\<close>: one task for each call that is not recovered, in the order of the calls.\<close>

definition task_fits :: "batch \<Rightarrow> nat \<Rightarrow> task \<Rightarrow> bool" where
  "task_fits b k x \<longleftrightarrow> (case tk_work x of
      Keep_place \<Rightarrow> tk_barrier x \<and> tk_safe x \<and> \<not> tk_gated x
    | Record_denial i \<Rightarrow> i < k \<and> denied b i \<and> tk_safe x \<and> \<not> tk_gated x \<and> tk_barrier x = bc_barrier (ba_calls b ! i)
    | Run_call i \<Rightarrow> i < k \<and> \<not> recovered b i \<and> \<not> denied b i \<and> tk_safe x = bc_safe (ba_calls b ! i)
        \<and> tk_gated x = tk_safe x \<and> tk_barrier x = bc_barrier (ba_calls b ! i))"

definition plan_works :: "batch \<Rightarrow> nat \<Rightarrow> task list \<Rightarrow> bool" where
  "plan_works b k ts \<longleftrightarrow> (\<forall>x \<in> set ts. task_fits b k x)
    \<and> (\<forall>i < k. \<not> recovered b i \<longrightarrow> (\<exists>x \<in> set ts. work_call (tk_work x) = Some i))
    \<and> (\<forall>u < length ts. \<forall>t < u. \<forall>i j. work_call (tk_work (ts ! t)) = Some i \<longrightarrow> work_call (tk_work (ts ! u)) = Some j \<longrightarrow> i < j)"

lemma task_fits_mono: "task_fits b k x \<Longrightarrow> k \<le> k' \<Longrightarrow> task_fits b k' x"
  by (auto simp: task_fits_def split: work.splits)

lemma plan_worksI:
  assumes "\<And>x. x \<in> set ts \<Longrightarrow> task_fits b k x"
    and "\<And>i. i < k \<Longrightarrow> \<not> recovered b i \<Longrightarrow> \<exists>x \<in> set ts. work_call (tk_work x) = Some i"
    and "\<And>t u i j. u < length ts \<Longrightarrow> t < u \<Longrightarrow> work_call (tk_work (ts ! t)) = Some i
      \<Longrightarrow> work_call (tk_work (ts ! u)) = Some j \<Longrightarrow> i < j"
  shows "plan_works b k ts"
  unfolding plan_works_def using assms by blast

lemma works_below: "plan_works b k ts \<Longrightarrow> x \<in> set ts \<Longrightarrow> work_call (tk_work x) = Some i \<Longrightarrow> i < k"
  by (cases "tk_work x") (auto simp: plan_works_def task_fits_def)

lemma works_ordered:
  "plan_works b k ts \<Longrightarrow> u < length ts \<Longrightarrow> t < u \<Longrightarrow> work_call (tk_work (ts ! t)) = Some i
    \<Longrightarrow> work_call (tk_work (ts ! u)) = Some j \<Longrightarrow> i < j"
  unfolding plan_works_def by blast

lemma plan_call_works:
  assumes "plan_works b k (pl_tasks p)" "k < length (ba_calls b)"
  shows "plan_works b (Suc k) (pl_tasks (plan_call b k (ba_calls b ! k) p))"
proof -
  note old = assms(1) [unfolded plan_works_def]
  have fits: "\<forall>x \<in> set (pl_tasks p). task_fits b (Suc k) x" using old task_fits_mono by fastforce
  have sorted: "i < j" if x: "work_call (tk_work x) \<in> {None, Some k}" and u: "u < length (pl_tasks p @ [x])" "t < u"
    "work_call (tk_work ((pl_tasks p @ [x]) ! t)) = Some i" "work_call (tk_work ((pl_tasks p @ [x]) ! u)) = Some j" for x t u i j
  proof (cases "u < length (pl_tasks p)")
    case True
    then have "(pl_tasks p @ [x]) ! u = pl_tasks p ! u" "(pl_tasks p @ [x]) ! t = pl_tasks p ! t" using u(2) by (simp_all add: nth_append)
    then show ?thesis using works_ordered [OF assms(1) True u(2)] u(3,4) by simp
  next
    case False
    then have "u = length (pl_tasks p)" using u(1) by simp
    then have "j = k" "pl_tasks p ! t \<in> set (pl_tasks p)" "work_call (tk_work (pl_tasks p ! t)) = Some i"
      using u x by (auto simp: nth_append)
    then show ?thesis using works_below [OF assms(1)] by simp
  qed
  obtain x where x: "pl_tasks (plan_call b k (ba_calls b ! k) p) =
      (if recovered b k \<and> \<not> bc_barrier (ba_calls b ! k) then pl_tasks p else pl_tasks p @ [x])"
    "task_fits b (Suc k) x" "work_call (tk_work x) = (if recovered b k then None else Some k)"
  proof (cases "recovered b k")
    case True
    then show ?thesis
      using that [of "\<lparr>tk_work = Keep_place, tk_gated = False, tk_safe = True, tk_barrier = True,
          tk_after = pl_parallel p @ of_option (pl_serial p)\<rparr>"]
      by (simp add: plan_call_def recovered_def call_id_def schedule_def task_fits_def Let_def)
  next
    case False
    then show ?thesis
    proof (cases "denied b k")
      case True
      then show ?thesis
        using that [of "last (pl_tasks (plan_call b k (ba_calls b ! k) p))"] False
        by (auto simp: plan_call_def recovered_def denied_def call_id_def schedule_def task_fits_def Let_def)
    next
      case d: False
      then show ?thesis
        using that [of "last (pl_tasks (plan_call b k (ba_calls b ! k) p))"] False
        by (auto simp: plan_call_def recovered_def denied_def call_id_def schedule_def task_fits_def Let_def)
    qed
  qed
  show ?thesis
  proof -
    have has: "\<exists>y \<in> set (pl_tasks p). work_call (tk_work y) = Some i" if "i < k" "\<not> recovered b i" for i
      using old that by blast
    show ?thesis
    proof (cases "recovered b k \<and> \<not> bc_barrier (ba_calls b ! k)")
      case True
      have h: "\<exists>y \<in> set (pl_tasks p). work_call (tk_work y) = Some i" if "i < Suc k" "\<not> recovered b i" for i
        using has [of i] that True by (cases "i = k") auto
      have "plan_works b (Suc k) (pl_tasks p)"
      proof (rule plan_worksI)
        show "task_fits b (Suc k) y" if "y \<in> set (pl_tasks p)" for y using that fits by blast
      qed (use h works_ordered [OF assms(1)] in blast)+
      then show ?thesis using x(1) True by simp
    next
      case False
      then have p': "pl_tasks (plan_call b k (ba_calls b ! k) p) = pl_tasks p @ [x]" using x(1) by auto
      have "work_call (tk_work x) \<in> {None, Some k}" using x(3) by simp
      note o = sorted [OF this]
      have h: "\<exists>y \<in> set (pl_tasks p @ [x]). work_call (tk_work y) = Some i" if "i < Suc k" "\<not> recovered b i" for i
        using has [of i] that x(3) by (cases "i = k") auto
      show ?thesis unfolding p'
      proof (rule plan_worksI)
        show "task_fits b (Suc k) y" if "y \<in> set (pl_tasks p @ [x])" for y using that fits x(2) by auto
        show "\<exists>y \<in> set (pl_tasks p @ [x]). work_call (tk_work y) = Some i" if "i < Suc k" "\<not> recovered b i" for i
          using h [OF that] .
        show "i < j" if "u < length (pl_tasks p @ [x])" "t < u" "work_call (tk_work ((pl_tasks p @ [x]) ! t)) = Some i"
          "work_call (tk_work ((pl_tasks p @ [x]) ! u)) = Some j" for t u i j
          using o [OF that] .
      qed
    qed
  qed
qed

lemma plan_calls_works:
  "plan_works b k (pl_tasks p) \<Longrightarrow> k + length cs = length (ba_calls b) \<Longrightarrow> cs = drop k (ba_calls b)
    \<Longrightarrow> plan_works b (length (ba_calls b)) (pl_tasks (plan_calls b k cs p))"
proof (induction b k cs p rule: plan_calls.induct)
  case (2 b k c cs p)
  have k: "k < length (ba_calls b)" "c = ba_calls b ! k" "cs = drop (Suc k) (ba_calls b)"
  proof -
    show "k < length (ba_calls b)" using 2(3) by simp
    then have "drop k (ba_calls b) = ba_calls b ! k # drop (Suc k) (ba_calls b)" by (simp add: Cons_nth_drop_Suc)
    then show "c = ba_calls b ! k" "cs = drop (Suc k) (ba_calls b)" using 2(4) by simp_all
  qed
  have w: "plan_works b (Suc k) (pl_tasks (plan_call b k c p))" using plan_call_works [OF 2(2) k(1)] k(2) by simp
  show ?case unfolding plan_calls.simps by (rule 2(1) [OF w _ k(3)]) (use 2(3) in simp)
qed simp

lemma plan_of_works: "plan_works b (length (ba_calls b)) (tasks b)"
  unfolding plan_of_def by (rule plan_calls_works) (auto simp: plan_works_def no_plan_def)

end
