(* ===== verification/BatchRunProofs.thy ===== *)
theory BatchRunProofs
  imports BatchPlanProofs
begin

text \<open>
  What every reachable state of a run keeps: tasks move one way and in the order of the promises, the
  semaphore counts the gated tasks that run, and each result is that of its call.
\<close>

subsection \<open>The part of a state that tasks move in\<close>

definition core :: "run_state \<Rightarrow> (nat \<Rightarrow> status) \<times> nat \<times> nat list" where
  "core s = (rn_status s, rn_available s, rn_waiters s)"

lemma core_simps:
  "core s1 = core s2 \<longleftrightarrow> rn_status s1 = rn_status s2 \<and> rn_available s1 = rn_available s2 \<and> rn_waiters s1 = rn_waiters s2"
  by (simp add: core_def)

lemma report_late_core [simp]: "core (report_late out s) = core s"
  by (simp add: report_late_def settle_call_def core_def)

lemma report_all_core [simp]: "core (report_all ks s) = core s"
  by (induction ks s rule: report_all.induct) simp_all

lemma detach_calls_core [simp]: "core (detach_calls ks s) = core s"
  by (induction ks s rule: detach_calls.induct) (simp_all add: detach_call_def core_def)

text \<open>What a transition does to the tasks: it begins one, ends one, breaks one that waited in vain, or leaves them.\<close>

inductive task_step :: "batch \<Rightarrow> run_state \<Rightarrow> run_state \<Rightarrow> bool" for b where
  task_begin: "can_begin b s t \<Longrightarrow> core s' = core (begin_task b t s) \<Longrightarrow> task_step b s s'"
| task_skip: "must_break b s t \<Longrightarrow> core s' = core (s\<lparr>rn_status := (rn_status s)(t := Broken)\<rparr>) \<Longrightarrow> task_step b s s'"
| task_end: "t < length (tasks b) \<Longrightarrow> rn_status s t = Running \<Longrightarrow> st = Fulfilled \<or> st = Broken
    \<Longrightarrow> core s' = core (end_task b t st s) \<Longrightarrow> task_step b s s'"
| task_none: "core s' = core s \<Longrightarrow> task_step b s s'"

lemma end_task_core: "core s1 = core s \<Longrightarrow> core (end_task b t st s1) = core (end_task b t st s)"
  by (auto simp: end_task_def release_def run_now_def core_def Let_def split: list.split)

lemma batch_task_step:
  assumes "batch_step b s s'"
  shows "task_step b s s'"
  using assms
proof cases
  case (step_succeed t err)
  then have "core s' = core (end_task b t Fulfilled s)"
    unfolding step_succeed(1) succeed_def by (intro end_task_core) (auto simp: core_simps report_late_def settle_call_def split: work.split)
  then show ?thesis using step_succeed by (intro task_end) auto
next
  case (step_break t)
  then have "core s' = core (end_task b t Fulfilled s) \<or> core s' = core (end_task b t Broken s)"
    unfolding step_break(1) break_task_def using end_task_core [OF report_late_core]
    by (auto split: work.split)
  then show ?thesis using step_break by (auto intro: task_end)
next
  case step_settle_rest
  then show ?thesis using report_all_core [of "rn_handed s" s]
    by (intro task_none) (simp add: settle_rest_def core_def)
next
  case step_hand_back
  then show ?thesis using detach_calls_core [of "map (call_id b) (holes b s)" s]
    by (intro task_none) (simp add: hand_back_def core_def)
qed (auto intro: task_begin task_skip task_none simp: core_def return_batch_def)

subsection \<open>Order\<close>

definition over :: "status \<Rightarrow> bool" where
  "over st \<longleftrightarrow> st = Fulfilled \<or> st = Broken"

definition under_way :: "status \<Rightarrow> bool" where
  "under_way st \<longleftrightarrow> st = Queued \<or> st = Running"

text \<open>A task is past waiting only when what it waits for is over, and it went its way only when that went well.\<close>

definition ordered_run :: "batch \<Rightarrow> (nat \<Rightarrow> status) \<Rightarrow> bool" where
  "ordered_run b f \<longleftrightarrow> (\<forall>t. f t \<noteq> Waiting \<longrightarrow> t < length (tasks b)
    \<and> (\<forall>u \<in> set (tk_after (task_at b t)). over (f u) \<and> (f t \<noteq> Broken \<longrightarrow> f u = Fulfilled)))"

lemma ordered_runD:
  assumes "ordered_run b f" "f t \<noteq> Waiting"
  shows "t < length (tasks b)" "u \<in> set (tk_after (task_at b t)) \<Longrightarrow> over (f u)"
    "u \<in> set (tk_after (task_at b t)) \<Longrightarrow> f t \<noteq> Broken \<Longrightarrow> f u = Fulfilled"
  using assms unfolding ordered_run_def by blast+

lemma ordered_move:
  assumes "ordered_run b f" "t < length (tasks b)" "\<not> over (f t)"
    and "\<And>u. u \<in> set (tk_after (task_at b t)) \<Longrightarrow> over (f u) \<and> (st \<noteq> Broken \<longrightarrow> f u = Fulfilled)"
  shows "ordered_run b (f(t := st))"
  unfolding ordered_run_def
proof (intro allI impI conjI ballI)
  have keep: "u \<noteq> t" if "over (f u)" for u using assms(3) that by blast
  fix x assume x: "(f(t := st)) x \<noteq> Waiting"
  show "x < length (tasks b)" using x assms(2) ordered_runD(1) [OF assms(1), of x] by (cases "x = t") auto
  fix u assume u: "u \<in> set (tk_after (task_at b x))"
  have o: "over (f u)" using x u assms(4) ordered_runD(2) [OF assms(1), of x] by (cases "x = t") auto
  then show "over ((f(t := st)) u)" using keep by simp
  assume nb: "(f(t := st)) x \<noteq> Broken"
  have "f u = Fulfilled"
  proof (cases "x = t")
    case True
    then show ?thesis using nb u assms(4) by simp
  next
    case False
    then show ?thesis using nb x u ordered_runD(3) [OF assms(1), of x] by simp
  qed
  then show "(f(t := st)) u = Fulfilled" using keep [OF o] by simp
qed

text \<open>Forward from a task under way: what it waits for has not changed.\<close>

lemma ordered_forward:
  assumes "ordered_run b f" "under_way (f t)"
  shows "ordered_run b (f(t := st))"
proof (rule ordered_move [OF assms(1)])
  have w: "f t \<noteq> Waiting" "f t \<noteq> Broken" using assms(2) by (auto simp: under_way_def)
  show "t < length (tasks b)" using ordered_runD(1) [OF assms(1)] w(1) .
  show "\<not> over (f t)" using assms(2) by (auto simp: under_way_def over_def)
  show "over (f u) \<and> (st \<noteq> Broken \<longrightarrow> f u = Fulfilled)" if "u \<in> set (tk_after (task_at b t))" for u
    using ordered_runD(2,3) [OF assms(1) w(1) that] w(2) by blast
qed

subsection \<open>Permits\<close>

definition gated_running :: "batch \<Rightarrow> (nat \<Rightarrow> status) \<Rightarrow> nat set" where
  "gated_running b f = {t. f t = Running \<and> tk_gated (task_at b t)}"

definition queue_ok :: "batch \<Rightarrow> (nat \<Rightarrow> status) \<Rightarrow> nat list \<Rightarrow> bool" where
  "queue_ok b f ws \<longleftrightarrow> set ws = {t. f t = Queued} \<and> distinct ws \<and> (\<forall>t \<in> set ws. tk_gated (task_at b t))"

lemma queue_ok_upd: "queue_ok b f ws \<Longrightarrow> f t \<noteq> Queued \<Longrightarrow> st \<noteq> Queued \<Longrightarrow> queue_ok b (f(t := st)) ws"
  by (auto simp: queue_ok_def)

lemma queue_ok_push: "queue_ok b f ws \<Longrightarrow> f t \<noteq> Queued \<Longrightarrow> tk_gated (task_at b t) \<Longrightarrow> queue_ok b (f(t := Queued)) (ws @ [t])"
  by (auto simp: queue_ok_def)

lemma queue_ok_pop: "queue_ok b f (w # ws) \<Longrightarrow> queue_ok b (f(w := Running)) ws"
proof -
  assume q: "queue_ok b f (w # ws)"
  then have "set ws = {t. f t = Queued} - {w}" by (auto simp: queue_ok_def)
  also have "\<dots> = {t. (f(w := Running)) t = Queued}" by auto
  finally show ?thesis using q by (simp add: queue_ok_def)
qed

definition permits_kept :: "batch \<Rightarrow> (nat \<Rightarrow> status) \<times> nat \<times> nat list \<Rightarrow> bool" where
  "permits_kept b c \<longleftrightarrow> (case c of (f, available, waiters) \<Rightarrow>
     queue_ok b f waiters \<and> finite (gated_running b f) \<and> available + card (gated_running b f) = permits b \<and> (waiters \<noteq> [] \<longrightarrow> available = 0))"

definition tasks_ok :: "batch \<Rightarrow> run_state \<Rightarrow> bool" where
  "tasks_ok b s \<longleftrightarrow> ordered_run b (rn_status s) \<and> permits_kept b (core s)"

lemma tasks_ok_core: "core s1 = core s2 \<Longrightarrow> tasks_ok b s1 = tasks_ok b s2"
  by (simp add: tasks_ok_def core_def)

lemma gated_running_upd:
  "gated_running b (f(t := Running)) = (if tk_gated (task_at b t) then insert t (gated_running b f) else gated_running b f - {t})"
  "st \<noteq> Running \<Longrightarrow> gated_running b (f(t := st)) = gated_running b f - {t}"
  by (auto simp: gated_running_def)

lemma run_now_core: "core (run_now b t s) = ((rn_status s)(t := Running), rn_available s, rn_waiters s)"
  by (simp add: run_now_def core_def)

lemma begin_core:
  "core (begin_task b t s) =
    (if \<not> tk_gated (task_at b t) then ((rn_status s)(t := Running), rn_available s, rn_waiters s)
     else if rn_available s = 0 then ((rn_status s)(t := Queued), 0, rn_waiters s @ [t])
     else ((rn_status s)(t := Running), rn_available s - 1, rn_waiters s))"
  by (simp add: begin_task_def run_now_def core_def)

lemma end_core:
  "core (end_task b t st s) =
    (let f = (rn_status s)(t := st) in
     if \<not> tk_gated (task_at b t) then (f, rn_available s, rn_waiters s)
     else (case rn_waiters s of [] \<Rightarrow> (f, rn_available s + 1, []) | w # ws \<Rightarrow> (f(w := Running), rn_available s, ws)))"
  by (simp add: end_task_def Let_def release_def run_now_def core_def split: list.split)

lemma permits_begin:
  assumes "permits_kept b (core s)" "rn_status s t = Waiting"
  shows "permits_kept b (core (begin_task b t s))"
proof -
  let ?f = "rn_status s" and ?R = "gated_running b (rn_status s)"
  have q: "queue_ok b ?f (rn_waiters s)" and fin: "finite ?R" and n: "rn_available s + card ?R = permits b"
    and z: "rn_waiters s \<noteq> [] \<Longrightarrow> rn_available s = 0"
    using assms(1) by (simp_all add: permits_kept_def core_def)
  have t: "t \<notin> ?R" using assms(2) by (simp add: gated_running_def)
  have run: "queue_ok b (?f(t := Running)) (rn_waiters s)" using queue_ok_upd [OF q] assms(2) by simp
  have push: "tk_gated (task_at b t) \<Longrightarrow> queue_ok b (?f(t := Queued)) (rn_waiters s @ [t])"
    using queue_ok_push [OF q] assms(2) by simp
  show ?thesis
    using run push fin n z t unfolding begin_core permits_kept_def by (simp add: gated_running_upd)
qed

lemma permits_end:
  assumes "permits_kept b (core s)" "rn_status s t = Running" "over st"
  shows "permits_kept b (core (end_task b t st s))"
proof -
  let ?f = "rn_status s" and ?R = "gated_running b (rn_status s)"
  have q: "queue_ok b ?f (rn_waiters s)" and fin: "finite ?R" and n: "rn_available s + card ?R = permits b"
    and z: "rn_waiters s \<noteq> [] \<Longrightarrow> rn_available s = 0"
    using assms(1) by (simp_all add: permits_kept_def core_def)
  have st: "st \<noteq> Running" "st \<noteq> Queued" using assms(3) by (auto simp: over_def)
  have q': "queue_ok b (?f(t := st)) (rn_waiters s)" using queue_ok_upd [OF q] assms(2) st by simp
  show ?thesis
  proof (cases "tk_gated (task_at b t)")
    case False
    then have "t \<notin> ?R" by (simp add: gated_running_def)
    then show ?thesis using False q' fin n z st unfolding end_core permits_kept_def Let_def
      by (simp add: gated_running_upd)
  next
    case True
    then have t: "t \<in> ?R" using assms(2) by (simp add: gated_running_def)
    then have R: "Suc (card (?R - {t})) = card ?R" using card.remove [OF fin t] by simp
    show ?thesis
    proof (cases "rn_waiters s")
      case Nil
      then show ?thesis using True q' fin n R st unfolding end_core permits_kept_def Let_def
        by (simp add: gated_running_upd)
    next
      case (Cons w ws)
      have w: "?f w = Queued" "tk_gated (task_at b w)" using q Cons by (auto simp: queue_ok_def)
      then have wr: "w \<notin> ?R" by (simp add: gated_running_def)
      have pop: "queue_ok b (?f(t := st, w := Running)) ws" using queue_ok_pop q' Cons by simp
      have g: "gated_running b (?f(t := st, w := Running)) = insert w (?R - {t})"
        using w(2) st by (simp add: gated_running_upd)
      have "card (insert w (?R - {t})) = card ?R" using wr R fin by simp
      then show ?thesis using True Cons pop fin n z g unfolding end_core permits_kept_def Let_def by simp
    qed
  qed
qed

lemma task_step_ok:
  assumes "task_step b s s'" "tasks_ok b s"
  shows "tasks_ok b s'"
  using assms(1)
proof cases
  case (task_begin t)
  have o: "ordered_run b (rn_status s)" and p: "permits_kept b (core s)" using assms(2) by (simp_all add: tasks_ok_def)
  have r: "t < length (tasks b)" "rn_status s t = Waiting" "\<And>u. u \<in> set (tk_after (task_at b t)) \<Longrightarrow> rn_status s u = Fulfilled"
    using task_begin(1) by (auto simp: can_begin_def list_all_iff)
  have m: "ordered_run b ((rn_status s)(t := st))" for st
    using r by (intro ordered_move [OF o]) (auto simp: over_def)
  have "rn_status (begin_task b t s) \<in> {(rn_status s)(t := Running), (rn_status s)(t := Queued)}"
    by (simp add: begin_task_def run_now_def)
  then have "tasks_ok b (begin_task b t s)" using m permits_begin [OF p r(2)] by (auto simp: tasks_ok_def)
  then show ?thesis using tasks_ok_core [OF task_begin(2)] by simp
next
  case (task_skip t)
  have o: "ordered_run b (rn_status s)" and p: "permits_kept b (core s)" using assms(2) by (simp_all add: tasks_ok_def)
  have r: "t < length (tasks b)" "rn_status s t = Waiting" "\<And>u. u \<in> set (tk_after (task_at b t)) \<Longrightarrow> over (rn_status s u)"
    using task_skip(1) by (auto simp: must_break_def settled_def over_def list_all_iff)
  have m: "ordered_run b ((rn_status s)(t := Broken))"
    using r by (intro ordered_move [OF o]) (auto simp: over_def)
  have t: "t \<notin> gated_running b (rn_status s)" using r(2) by (simp add: gated_running_def)
  have "permits_kept b ((rn_status s)(t := Broken), rn_available s, rn_waiters s)"
    using p t r(2) by (simp add: permits_kept_def core_def gated_running_upd queue_ok_upd)
  then have "tasks_ok b (s\<lparr>rn_status := (rn_status s)(t := Broken)\<rparr>)" using m by (simp add: tasks_ok_def core_def)
  then show ?thesis using tasks_ok_core [OF task_skip(2)] by simp
next
  case (task_end t st)
  have o: "ordered_run b (rn_status s)" and p: "permits_kept b (core s)" using assms(2) by (simp_all add: tasks_ok_def)
  have st: "over st" using task_end(3) by (auto simp: over_def)
  have m: "ordered_run b ((rn_status s)(t := st))" using task_end(2) by (intro ordered_forward [OF o]) (simp add: under_way_def)
  have m': "ordered_run b ((rn_status s)(t := st, w := Running))" if "w \<in> set (rn_waiters s)" for w
  proof (rule ordered_forward [OF m])
    have "rn_status s w = Queued" using p that by (auto simp: permits_kept_def core_def queue_ok_def)
    then show "under_way (((rn_status s)(t := st)) w)" using task_end(2) by (auto simp: under_way_def)
  qed
  have "ordered_run b (fst (core (end_task b t st s)))"
    unfolding end_core using m m' by (auto simp: Let_def split: list.split)
  then have "tasks_ok b (end_task b t st s)" using permits_end [OF p task_end(2) st] by (simp add: tasks_ok_def core_def)
  then show ?thesis using tasks_ok_core [OF task_end(4)] by simp
next
  case task_none
  then show ?thesis using tasks_ok_core assms(2) by blast
qed

lemma reach_tasks_ok: "batch_reach b s \<Longrightarrow> tasks_ok b s"
proof (induction rule: batch_reach.induct)
  case reach_begin
  show ?case
    by (simp add: tasks_ok_def ordered_run_def permits_kept_def core_def begin_batch_def gated_running_def queue_ok_def)
next
  case (reach_step s s')
  show ?case using task_step_ok [OF batch_task_step [OF reach_step(2)] reach_step(3)] .
qed

subsection \<open>Consequences of the order\<close>

lemma earlier_over:
  assumes "ordered_run b f" "(u, t) \<in> (waits (tasks b))\<^sup>+" "f t \<noteq> Waiting"
  shows "over (f u)" "f t \<noteq> Broken \<Longrightarrow> f u = Fulfilled"
proof -
  have one: "over (f x) \<and> (f y \<noteq> Broken \<longrightarrow> f x = Fulfilled)" if w: "(x, y) \<in> waits (tasks b)" "f y \<noteq> Waiting" for x y
    using ordered_runD(2,3) [OF assms(1) w(2)] w(1) by (auto simp: waits_def task_at_def)
  have "f t \<noteq> Waiting \<longrightarrow> over (f u) \<and> (f t \<noteq> Broken \<longrightarrow> f u = Fulfilled)"
    using assms(2)
  proof (induction rule: trancl_induct)
    case (step y z)
    then show ?case using one [of y z] by (auto simp: over_def)
  qed (use one in blast)
  then show "over (f u)" "f t \<noteq> Broken \<Longrightarrow> f u = Fulfilled" using assms(3) by blast+
qed

text \<open>When the final tasks went well, every task did.\<close>

lemma completed_all:
  assumes "ordered_run b (rn_status s)" "completed b s" "t < length (tasks b)"
  shows "rn_status s t = Fulfilled"
proof -
  obtain u where u: "u \<in> set (final_tasks b)" "(t, u) \<in> (waits (tasks b))\<^sup>*" using reaches_final [OF assms(3)] by blast
  then have "rn_status s u = Fulfilled" using assms(2) by (simp add: completed_def list_all_iff)
  then show ?thesis using earlier_over(2) [OF assms(1), of t u] u(2) by (auto simp: rtrancl_eq_or_trancl)
qed

subsection \<open>Tasks and calls\<close>

lemma task_fits_at: "t < length (tasks b) \<Longrightarrow> task_fits b (length (ba_calls b)) (task_at b t)"
  using plan_of_works [of b] by (simp add: plan_works_def task_at_def)

lemma task_of_call:
  assumes "i < length (ba_calls b)" "\<not> recovered b i"
  shows "\<exists>t < length (tasks b). tk_work (task_at b t) = (if denied b i then Record_denial i else Run_call i)"
proof -
  obtain x where x: "x \<in> set (tasks b)" "work_call (tk_work x) = Some i"
    using plan_of_works [of b] assms by (auto simp: plan_works_def)
  then obtain t where t: "t < length (tasks b)" "x = task_at b t" by (auto simp: in_set_conv_nth task_at_def)
  have "tk_work x = (if denied b i then Record_denial i else Run_call i)"
    using task_fits_at [OF t(1)] x(2) t(2) by (cases "tk_work x") (auto simp: task_fits_def)
  then show ?thesis using t by blast
qed

text \<open>The tasks of two calls stand in the order of the calls.\<close>

lemma call_order:
  assumes "t < length (tasks b)" "u < length (tasks b)" "work_call (tk_work (task_at b t)) = Some i"
    "work_call (tk_work (task_at b u)) = Some j"
  shows "t < u \<longleftrightarrow> i < j"
proof -
  have o: "i' < j'" if "t' < u'" "u' < length (tasks b)" "work_call (tk_work (task_at b t')) = Some i'"
    "work_call (tk_work (task_at b u')) = Some j'" for t' u' i' j'
    using works_ordered [OF plan_of_works that(2,1)] that(3,4) by (simp add: task_at_def)
  show ?thesis
  proof (cases t u rule: linorder_cases)
    case less
    then show ?thesis using o [OF less assms(2,3,4)] by simp
  next
    case equal
    then show ?thesis using assms(3,4) by simp
  next
    case greater
    then show ?thesis using o [OF greater assms(1,4,3)] by simp
  qed
qed

end
