(* ===== verification/BatchAnswerProofs.thy ===== *)
theory BatchAnswerProofs
  imports BatchRunProofs
begin

text \<open>
  The answers of a batch: every result is that of its call, and when the batch returns every call has one.
  Then the calls handed back: each is open until it is reported, and is reported once.
\<close>

subsection \<open>What the parts of a transition leave alone\<close>

lemma run_now_keeps [simp]:
  "rn_results (run_now b t s) = rn_results s" "rn_phase (run_now b t s) = rn_phase s"
  "rn_handed (run_now b t s) = rn_handed s" "rn_reported (run_now b t s) = rn_reported s"
  "rn_open (run_now b t s) = rn_open s" "rn_arrived (run_now b t s) = rn_arrived s" "rn_rest (run_now b t s) = rn_rest s"
  by (simp_all add: run_now_def)

lemma release_keeps [simp]:
  "rn_results (release b s) = rn_results s" "rn_phase (release b s) = rn_phase s"
  "rn_handed (release b s) = rn_handed s" "rn_reported (release b s) = rn_reported s"
  "rn_open (release b s) = rn_open s" "rn_arrived (release b s) = rn_arrived s" "rn_rest (release b s) = rn_rest s"
  by (simp_all add: release_def split: list.split)

lemma begin_task_keeps [simp]:
  "rn_results (begin_task b t s) = rn_results s" "rn_phase (begin_task b t s) = rn_phase s"
  "rn_handed (begin_task b t s) = rn_handed s" "rn_reported (begin_task b t s) = rn_reported s"
  "rn_open (begin_task b t s) = rn_open s" "rn_arrived (begin_task b t s) = rn_arrived s" "rn_rest (begin_task b t s) = rn_rest s"
  by (simp_all add: begin_task_def)

lemma end_task_keeps [simp]:
  "rn_results (end_task b t st s) = rn_results s" "rn_phase (end_task b t st s) = rn_phase s"
  "rn_handed (end_task b t st s) = rn_handed s" "rn_reported (end_task b t st s) = rn_reported s"
  "rn_open (end_task b t st s) = rn_open s" "rn_arrived (end_task b t st s) = rn_arrived s" "rn_rest (end_task b t st s) = rn_rest s"
  by (simp_all add: end_task_def Let_def)

lemma report_late_keeps [simp]:
  "rn_results (report_late out s) = rn_results s" "rn_phase (report_late out s) = rn_phase s"
  "rn_handed (report_late out s) = rn_handed s" "rn_started (report_late out s) = rn_started s"
  "rn_status (report_late out s) = rn_status s" "rn_rest (report_late out s) = rn_rest s"
  by (simp_all add: report_late_def settle_call_def)

lemma report_all_keeps [simp]:
  "rn_results (report_all ks s) = rn_results s" "rn_phase (report_all ks s) = rn_phase s"
  "rn_handed (report_all ks s) = rn_handed s" "rn_started (report_all ks s) = rn_started s"
  "rn_status (report_all ks s) = rn_status s" "rn_rest (report_all ks s) = rn_rest s"
  by (induction ks s rule: report_all.induct) simp_all

lemma detach_calls_keeps [simp]:
  "rn_results (detach_calls ks s) = rn_results s" "rn_reported (detach_calls ks s) = rn_reported s"
  "rn_started (detach_calls ks s) = rn_started s" "rn_status (detach_calls ks s) = rn_status s"
  "rn_arrived (detach_calls ks s) = rn_arrived s" "rn_rest (detach_calls ks s) = rn_rest s"
  by (induction ks s rule: detach_calls.induct) (simp_all add: detach_call_def)

lemma set_put_key [simp]: "set (put_key k ks) = insert k (set ks)"
  by (auto simp: put_key_def)

lemma distinct_put_key [simp]: "distinct (put_key k ks) = distinct ks"
  by (simp add: put_key_def)

lemma set_drop_key [simp]: "set (drop_key k ks) = set ks - {k}"
  by (auto simp: drop_key_def)

lemma detach_calls_sets [simp]:
  "set (rn_handed (detach_calls ks s)) = set (rn_handed s) \<union> set ks"
  "set (rn_open (detach_calls ks s)) = set (rn_open s) \<union> set ks"
  by (induction ks s rule: detach_calls.induct) (auto simp: detach_call_def)

lemma fulfilled_begin: "rn_status (begin_task b t s) x = Fulfilled \<Longrightarrow> rn_status s x = Fulfilled"
  by (auto simp: begin_task_def run_now_def split: if_splits)

lemma fulfilled_end: "rn_status (end_task b t st s) x = Fulfilled \<Longrightarrow> x = t \<and> st = Fulfilled \<or> rn_status s x = Fulfilled"
  by (auto simp: end_task_def release_def run_now_def Let_def split: if_splits list.splits)

subsection \<open>Results\<close>

definition outcome_ok :: "batch \<Rightarrow> nat \<Rightarrow> outcome \<Rightarrow> bool" where
  "outcome_ok b i out \<longleftrightarrow> oc_call out = call_id b i \<and> (case oc_kind out of
      Recovered \<Rightarrow> recovered b i
    | Refused \<Rightarrow> denied b i
    | Ran err \<Rightarrow> \<not> recovered b i \<and> \<not> denied b i
    | Still_running begun \<Rightarrow> \<not> recovered b i \<and> (begun \<longrightarrow> \<not> denied b i)
    | _ \<Rightarrow> False)"

definition answered :: "run_state \<Rightarrow> nat \<Rightarrow> bool" where
  "answered s i \<longleftrightarrow> rn_results s i \<noteq> None"

definition sound_results :: "batch \<Rightarrow> (nat \<rightharpoonup> outcome) \<Rightarrow> bool" where
  "sound_results b r \<longleftrightarrow> (\<forall>i < length (ba_calls b). \<forall>out. r i = Some out \<longrightarrow> outcome_ok b i out)"

definition may_start :: "batch \<Rightarrow> string \<Rightarrow> bool" where
  "may_start b k \<longleftrightarrow> k \<notin> set (ba_prior b) \<and> k \<notin> set (ba_denials b)"

definition answers_ok :: "batch \<Rightarrow> run_state \<Rightarrow> bool" where
  "answers_ok b s \<longleftrightarrow> sound_results b (rn_results s)
    \<and> (\<forall>i < length (ba_calls b). recovered b i \<longrightarrow> answered s i)
    \<and> (\<forall>t < length (tasks b). \<forall>i. work_call (tk_work (task_at b t)) = Some i \<longrightarrow> rn_status s t = Fulfilled \<longrightarrow> answered s i)
    \<and> (rn_phase s = Returned \<longrightarrow> (\<forall>i < length (ba_calls b). answered s i))
    \<and> (rn_handed s \<noteq> [] \<longrightarrow> rn_phase s = Returned)
    \<and> (\<forall>k \<in> rn_started s. may_start b k)"

lemma answers_okI:
  assumes "sound_results b (rn_results s)"
    and "\<And>i. i < length (ba_calls b) \<Longrightarrow> recovered b i \<Longrightarrow> answered s i"
    and "\<And>t i. t < length (tasks b) \<Longrightarrow> work_call (tk_work (task_at b t)) = Some i \<Longrightarrow> rn_status s t = Fulfilled \<Longrightarrow> answered s i"
    and "\<And>i. rn_phase s = Returned \<Longrightarrow> i < length (ba_calls b) \<Longrightarrow> answered s i"
    and "rn_handed s \<noteq> [] \<Longrightarrow> rn_phase s = Returned"
    and "\<And>k. k \<in> rn_started s \<Longrightarrow> may_start b k"
  shows "answers_ok b s"
  unfolding answers_ok_def using assms by blast

lemma answers_okD:
  assumes "answers_ok b s"
  shows "sound_results b (rn_results s)"
    and "i < length (ba_calls b) \<Longrightarrow> recovered b i \<Longrightarrow> answered s i"
    and "t < length (tasks b) \<Longrightarrow> work_call (tk_work (task_at b t)) = Some i \<Longrightarrow> rn_status s t = Fulfilled \<Longrightarrow> answered s i"
    and "rn_phase s = Returned \<Longrightarrow> i < length (ba_calls b) \<Longrightarrow> answered s i"
    and "rn_handed s \<noteq> [] \<Longrightarrow> rn_phase s = Returned"
    and "k \<in> rn_started s \<Longrightarrow> may_start b k"
  using assms unfolding answers_ok_def by blast+

lemma work_below: "t < length (tasks b) \<Longrightarrow> work_call (tk_work (task_at b t)) = Some i \<Longrightarrow> i < length (ba_calls b)"
  using task_fits_at [of t b] by (cases "tk_work (task_at b t)") (auto simp: task_fits_def)

lemma run_call_may_start: "t < length (tasks b) \<Longrightarrow> tk_work (task_at b t) = Run_call i \<Longrightarrow> may_start b (call_id b i)"
  using task_fits_at [of t b] by (auto simp: task_fits_def may_start_def recovered_def denied_def)

text \<open>What only begins tasks, or ends one that has its answer, keeps the answers.\<close>

lemma answers_move:
  assumes ok: "answers_ok b s"
    and same: "rn_results s' = rn_results s" "rn_phase s' = rn_phase s" "rn_handed s' = rn_handed s"
    and new: "\<And>t i. t < length (tasks b) \<Longrightarrow> work_call (tk_work (task_at b t)) = Some i \<Longrightarrow> rn_status s' t = Fulfilled
      \<Longrightarrow> rn_status s t = Fulfilled \<or> answered s i"
    and begun: "\<And>k. k \<in> rn_started s' \<Longrightarrow> may_start b k"
  shows "answers_ok b s'"
proof -
  have a: "answered s' i = answered s i" for i using same(1) by (simp add: answered_def)
  show ?thesis
  proof (rule answers_okI)
    show "sound_results b (rn_results s')" using answers_okD(1) [OF ok] same(1) by simp
    show "answered s' i" if "t < length (tasks b)" "work_call (tk_work (task_at b t)) = Some i" "rn_status s' t = Fulfilled" for t i
      using new [OF that] answers_okD(3) [OF ok that(1,2)] a by blast
    show "answered s' i" if "i < length (ba_calls b)" "recovered b i" for i using answers_okD(2) [OF ok that] a by blast
    show "answered s' i" if "rn_phase s' = Returned" "i < length (ba_calls b)" for i
      using answers_okD(4) [OF ok] that same(2) a by simp
    show "rn_phase s' = Returned" if "rn_handed s' \<noteq> []" using answers_okD(5) [OF ok] that same(2,3) by simp
  qed (rule begun)
qed

lemma started_run_now:
  assumes "\<forall>k \<in> rn_started s. may_start b k" "t < length (tasks b)" "k \<in> rn_started (run_now b t s)"
  shows "may_start b k"
  using assms run_call_may_start [OF assms(2)] by (auto simp: run_now_def split: work.splits)

lemma started_end:
  assumes "\<forall>k \<in> rn_started s. may_start b k" "tasks_ok b s" "k \<in> rn_started (end_task b t st s)"
  shows "may_start b k"
proof -
  have w: "w < length (tasks b)" if "w \<in> set (rn_waiters s)" for w
  proof -
    have "rn_status s w = Queued" using assms(2) that by (auto simp: tasks_ok_def permits_kept_def core_def queue_ok_def)
    then show ?thesis using assms(2) ordered_runD(1) [of b "rn_status s" w] by (simp add: tasks_ok_def)
  qed
  show ?thesis
  proof (cases "tk_gated (task_at b t) \<and> rn_waiters s \<noteq> []")
    case True
    then obtain x xs where x: "rn_waiters s = x # xs" by (cases "rn_waiters s") auto
    then have "end_task b t st s = run_now b x (s\<lparr>rn_status := (rn_status s)(t := st), rn_waiters := xs\<rparr>)"
      using True by (simp add: end_task_def release_def Let_def)
    then have k: "k \<in> rn_started (run_now b x (s\<lparr>rn_status := (rn_status s)(t := st), rn_waiters := xs\<rparr>))" using assms(3) by simp
    show ?thesis by (rule started_run_now [OF _ _ k]) (use assms(1) w x in simp_all)
  next
    case False
    then have "rn_started (end_task b t st s) = rn_started s"
      by (cases "rn_waiters s") (auto simp: end_task_def release_def Let_def)
    then show ?thesis using assms(1,3) by simp
  qed
qed

lemma started_begin:
  assumes "\<forall>k \<in> rn_started s. may_start b k" "t < length (tasks b)" "k \<in> rn_started (begin_task b t s)"
  shows "may_start b k"
  using assms(3) started_run_now [OF assms(1,2)] started_run_now [of "s\<lparr>rn_available := rn_available s - 1\<rparr>" b t k] assms(1,2)
  by (auto simp: begin_task_def split: if_splits)

lemma sound_upd: "sound_results b r \<Longrightarrow> outcome_ok b i out \<Longrightarrow> sound_results b (r(i \<mapsto> out))"
  by (simp add: sound_results_def)

lemma answers_record:
  assumes "answers_ok b s" "outcome_ok b i out"
  shows "answers_ok b (s\<lparr>rn_results := (rn_results s)(i \<mapsto> out)\<rparr>)" (is "answers_ok b ?s")
proof -
  have a: "answered ?s j \<longleftrightarrow> j = i \<or> answered s j" for j by (simp add: answered_def)
  show ?thesis
    by (rule answers_okI) (use assms sound_upd answers_okD [OF assms(1)] a in auto)
qed

lemma answers_end:
  assumes ok: "answers_ok b s" and t: "tasks_ok b s"
    and w: "\<And>i. st = Fulfilled \<Longrightarrow> work_call (tk_work (task_at b t)) = Some i \<Longrightarrow> answered s i"
  shows "answers_ok b (end_task b t st s)"
proof (rule answers_move [OF ok])
  show "rn_status s x = Fulfilled \<or> answered s i"
    if "work_call (tk_work (task_at b x)) = Some i" "rn_status (end_task b t st s) x = Fulfilled" for x i
    using fulfilled_end [OF that(2)] w that(1) by blast
  show "may_start b k" if "k \<in> rn_started (end_task b t st s)" for k
    using started_end [OF _ t that] answers_okD(6) [OF ok] by blast
qed simp_all

lemma answers_report:
  assumes "answers_ok b s"
  shows "answers_ok b (report_late out s)"
  by (rule answers_move [OF assms]) (use answers_okD(6) [OF assms] in simp_all)

lemma tasks_ok_results: "tasks_ok b (s\<lparr>rn_results := r\<rparr>) = tasks_ok b s"
  by (rule tasks_ok_core) (simp add: core_def)

lemma tasks_ok_report: "tasks_ok b (report_late out s) = tasks_ok b s"
  by (rule tasks_ok_core) simp

text \<open>Filling the holes\<close>

lemma holes_set: "i \<in> set (holes b s) \<longleftrightarrow> i < length (ba_calls b) \<and> \<not> answered s i"
  by (auto simp: holes_def answered_def)

lemma fill_answers: "i < length (ba_calls b) \<Longrightarrow> fill b (holes b s) f (rn_results s) i \<noteq> None"
  using holes_set [of i b s] by (auto simp: fill_def answered_def)

lemma fill_keeps: "answered s i \<Longrightarrow> fill b (holes b s) f (rn_results s) i = rn_results s i"
  by (simp add: fill_def holes_set)

lemma sound_fill:
  assumes "sound_results b (rn_results s)" "\<And>i. i \<in> set (holes b s) \<Longrightarrow> outcome_ok b i (answer_of b i (f i))"
  shows "sound_results b (fill b (holes b s) f (rn_results s))"
  using assms by (auto simp: sound_results_def fill_def)

lemma completed_no_holes:
  assumes "answers_ok b s" "tasks_ok b s" "completed b s"
  shows "holes b s = []"
proof -
  have "answered s i" if i: "i < length (ba_calls b)" for i
  proof (cases "recovered b i")
    case False
    then obtain t where t: "t < length (tasks b)" "work_call (tk_work (task_at b t)) = Some i"
      using task_of_call [OF i] by (auto split: if_splits)
    then have "rn_status s t = Fulfilled" using completed_all [OF _ assms(3) t(1)] assms(2) by (simp add: tasks_ok_def)
    then show ?thesis using answers_okD(3) [OF assms(1) t] by blast
  qed (use answers_okD(2) [OF assms(1) i] in blast)
  then show ?thesis using holes_set [of _ b s] by (metis list.set_intros(1) neq_Nil_conv)
qed

lemma recovered_upd: "outcome_ok b i (answer_of b i (Ran err)) \<longleftrightarrow> \<not> recovered b i \<and> \<not> denied b i"
  "outcome_ok b i (answer_of b i Refused) \<longleftrightarrow> denied b i"
  "outcome_ok b i (answer_of b i Recovered) \<longleftrightarrow> recovered b i"
  "outcome_ok b i (answer_of b i (Still_running begun)) \<longleftrightarrow> \<not> recovered b i \<and> (begun \<longrightarrow> \<not> denied b i)"
  by (simp_all add: outcome_ok_def answer_of_def)

lemma answered_record: "answered (s\<lparr>rn_results := (rn_results s)(i \<mapsto> out)\<rparr>) i"
  by (simp add: answered_def)

lemma handed_returned:
  assumes "answers_ok b s" "k \<in> set (rn_handed s)"
  shows "rn_phase s = Returned"
  using answers_okD(5) [OF assms(1)] assms(2) by (cases "rn_handed s") auto

lemma answers_succeed:
  assumes "answers_ok b s" "tasks_ok b s" "t < length (tasks b)"
  shows "answers_ok b (succeed b t err s)"
proof (cases "tk_work (task_at b t)")
  case Keep_place
  then show ?thesis unfolding succeed_def Keep_place work.case by (intro answers_end [OF assms(1,2)]) (simp add: Keep_place)
next
  case (Record_denial i)
  have "outcome_ok b i (answer_of b i Refused)"
    using task_fits_at [OF assms(3)] Record_denial by (simp add: task_fits_def recovered_upd)
  note r = answers_record [OF assms(1) this]
  show ?thesis unfolding succeed_def Record_denial work.case
    by (rule answers_end [OF r]) (use assms(2) answered_record Record_denial in \<open>simp_all add: tasks_ok_results\<close>)
next
  case (Run_call i)
  show ?thesis
  proof (cases "call_id b i \<in> set (rn_handed s)")
    case True
    have "i < length (ba_calls b)" using work_below [OF assms(3)] Run_call by simp
    then have i: "answered s i" using answers_okD(4) [OF assms(1) handed_returned [OF assms(1) True]] by blast
    then have i': "answered (report_late out s) i" for out by (simp add: answered_def)
    show ?thesis unfolding succeed_def Run_call work.case if_P [OF True]
      by (rule answers_end [OF answers_report [OF assms(1)]]) (use assms(2) i' Run_call in \<open>simp_all add: tasks_ok_report\<close>)
  next
    case False
    have "outcome_ok b i (answer_of b i (Ran err))"
      using task_fits_at [OF assms(3)] Run_call by (simp add: task_fits_def recovered_upd)
    note r = answers_record [OF assms(1) this]
    show ?thesis unfolding succeed_def Run_call work.case if_not_P [OF False]
      by (rule answers_end [OF r]) (use assms(2) answered_record Run_call in \<open>simp_all add: tasks_ok_results\<close>)
  qed
qed

lemma answers_break:
  assumes "answers_ok b s" "tasks_ok b s" "t < length (tasks b)"
  shows "answers_ok b (break_task b t s)"
proof -
  have plain: "answers_ok b (end_task b t Broken s)" by (rule answers_end [OF assms(1,2)]) simp
  show ?thesis
  proof (cases "tk_work (task_at b t)")
    case (Run_call i)
    show ?thesis
    proof (cases "call_id b i \<in> set (rn_handed s)")
      case True
      have "i < length (ba_calls b)" using work_below [OF assms(3)] Run_call by simp
      then have i: "answered s i" using answers_okD(4) [OF assms(1) handed_returned [OF assms(1) True]] by blast
      then have i': "answered (report_late out s) i" for out by (simp add: answered_def)
      show ?thesis unfolding break_task_def Run_call work.case if_P [OF True]
        by (rule answers_end [OF answers_report [OF assms(1)]]) (use assms(2) i' Run_call in \<open>simp_all add: tasks_ok_report\<close>)
    qed (use plain Run_call in \<open>simp add: break_task_def\<close>)
  qed (use plain in \<open>simp_all add: break_task_def\<close>)
qed

lemma answers_phase:
  assumes "answers_ok b s" "sound_results b r" "ph = Returned \<or> (r = rn_results s \<and> rn_phase s = Gathering)"
    "\<And>i. answered s i \<Longrightarrow> r i = rn_results s i" "\<And>i. ph = Returned \<Longrightarrow> i < length (ba_calls b) \<Longrightarrow> r i \<noteq> None"
    "rn_results s' = r" "rn_phase s' = ph" "rn_status s' = rn_status s" "rn_started s' = rn_started s"
    "ph \<noteq> Returned \<Longrightarrow> rn_handed s' = rn_handed s"
  shows "answers_ok b s'"
proof (rule answers_okI)
  have a: "answered s' i" if "answered s i" for i using assms(4) [OF that] assms(6) that by (simp add: answered_def)
  show "sound_results b (rn_results s')" using assms(2,6) by simp
  show "answered s' i" if "i < length (ba_calls b)" "recovered b i" for i using answers_okD(2) [OF assms(1) that] a by blast
  show "answered s' i" if "t < length (tasks b)" "work_call (tk_work (task_at b t)) = Some i" "rn_status s' t = Fulfilled" for t i
    using answers_okD(3) [OF assms(1) that(1,2)] that(3) assms(8) a by simp
  show "answered s' i" if "rn_phase s' = Returned" "i < length (ba_calls b)" for i
    using assms(5) that assms(6,7) by (simp add: answered_def)
  show "rn_phase s' = Returned" if "rn_handed s' \<noteq> []"
  proof (rule ccontr)
    assume n: "rn_phase s' \<noteq> Returned"
    then have "rn_handed s \<noteq> []" using that assms(7,10) by simp
    then have "rn_phase s = Returned" using answers_okD(5) [OF assms(1)] by blast
    then show False using n assms(3,7) by simp
  qed
  show "may_start b k" if "k \<in> rn_started s'" for k using answers_okD(6) [OF assms(1)] that assms(9) by simp
qed

lemma answers_step:
  assumes "batch_step b s s'" "answers_ok b s" "tasks_ok b s"
  shows "answers_ok b s'"
  using assms(1)
proof cases
  case (step_begin t)
  show ?thesis unfolding step_begin(1)
  proof (rule answers_move [OF assms(2)])
    show "may_start b k" if "k \<in> rn_started (begin_task b t s)" for k
      by (rule started_begin [OF _ _ that]) (use answers_okD(6) [OF assms(2)] step_begin(2) in \<open>auto simp: can_begin_def\<close>)
  qed (use fulfilled_begin in auto)
next
  case (step_skip t)
  show ?thesis unfolding step_skip(1)
    by (rule answers_move [OF assms(2)]) (use answers_okD(6) [OF assms(2)] in \<open>auto split: if_splits\<close>)
next
  case (step_succeed t err)
  show ?thesis unfolding step_succeed(1) by (rule answers_succeed [OF assms(2,3) step_succeed(2)])
next
  case (step_break t)
  show ?thesis unfolding step_break(1) by (rule answers_break [OF assms(2,3) step_break(2)])
next
  case step_return
  have h: "holes b s = []" by (rule completed_no_holes [OF assms(2,3) step_return(3)])
  have o: "outcome_ok b i (answer_of b i Lost)" if "i \<in> set (holes b s)" for i using that h by simp
  show ?thesis unfolding step_return(1)
    by (rule answers_phase [OF assms(2), where r = "fill b (holes b s) (\<lambda>i. Lost) (rn_results s)" and ph = Returned])
      (use fill_answers fill_keeps sound_fill [OF answers_okD(1) [OF assms(2)] o] in \<open>simp_all add: return_batch_def\<close>)
next
  case step_throw
  show ?thesis unfolding step_throw(1)
    by (rule answers_phase [OF assms(2) answers_okD(1) [OF assms(2)], where ph = Threw]) (use step_throw(2) in simp_all)
next
  case step_hand_back
  have o: "outcome_ok b i (answer_of b i (Still_running (call_id b i \<in> rn_started s)))" if "i \<in> set (holes b s)" for i
  proof -
    have "\<not> recovered b i" using that answers_okD(2) [OF assms(2)] holes_set by blast
    moreover have "call_id b i \<in> rn_started s \<Longrightarrow> \<not> denied b i"
      using answers_okD(6) [OF assms(2)] by (auto simp: may_start_def denied_def)
    ultimately show ?thesis by (simp add: recovered_upd)
  qed
  show ?thesis unfolding step_hand_back(1)
    by (rule answers_phase [OF assms(2), where ph = Returned
        and r = "fill b (holes b s) (\<lambda>i. Still_running (call_id b i \<in> rn_started s)) (rn_results s)"])
      (use fill_answers fill_keeps sound_fill [OF answers_okD(1) [OF assms(2)] o] in \<open>simp_all add: hand_back_def\<close>)
next
  case step_settle_rest
  show ?thesis unfolding step_settle_rest(1)
    by (rule answers_move [OF assms(2)]) (use answers_okD(6) [OF assms(2)] in \<open>simp_all add: settle_rest_def\<close>)
qed

lemma reach_answers_ok: "batch_reach b s \<Longrightarrow> answers_ok b s"
proof (induction rule: batch_reach.induct)
  case reach_begin
  show ?case
    by (rule answers_okI)
      (auto simp: begin_batch_def sound_results_def outcome_ok_def answer_of_def recovered_def answered_def)
next
  case (reach_step s s')
  show ?case using answers_step [OF reach_step(2,3) reach_tasks_ok [OF reach_step(1)]] .
qed

end
