(* ===== verification/BatchLateProofs.thy ===== *)
theory BatchLateProofs
  imports BatchAnswerProofs
begin

text \<open>
  The calls that a batch handed back: each stays open until it is reported, and what is reported of it is
  what became of it. Then the end of a run: each transition brings it nearer, and it does not stop before.
\<close>

subsection \<open>Reports\<close>

definition late_ok :: "run_state \<Rightarrow> bool" where
  "late_ok s \<longleftrightarrow> distinct (rn_open s) \<and> distinct (map oc_call (rn_arrived s))
    \<and> set (rn_open s) \<inter> set (map oc_call (rn_arrived s)) = {}
    \<and> set (rn_handed s) = set (rn_open s) \<union> set (map oc_call (rn_arrived s))
    \<and> set (rn_reported s) = set (map oc_call (rn_arrived s))"

definition late_part :: "run_state \<Rightarrow> string list \<times> string list \<times> string list \<times> outcome list" where
  "late_part s = (rn_handed s, rn_reported s, rn_open s, rn_arrived s)"

lemma late_ok_part: "late_part s1 = late_part s2 \<Longrightarrow> late_ok s1 = late_ok s2"
  by (simp add: late_ok_def late_part_def)

lemma late_part_keeps [simp]:
  "late_part (end_task b t st s) = late_part s" "late_part (begin_task b t s) = late_part s"
  "late_part (s\<lparr>rn_status := f\<rparr>) = late_part s" "late_part (s\<lparr>rn_results := r\<rparr>) = late_part s"
  "late_part (s\<lparr>rn_phase := ph\<rparr>) = late_part s" "late_part (s\<lparr>rn_rest := d\<rparr>) = late_part s"
  by (simp_all add: late_part_def)

lemma distinct_drop_key [simp]: "distinct ks \<Longrightarrow> distinct (drop_key k ks)"
  by (simp add: drop_key_def)

text \<open>A report of a call that was handed back: the first one arrives, another does nothing.\<close>

lemma report_late_new:
  assumes "late_ok s" "oc_call out \<in> set (rn_handed s)" "oc_call out \<notin> set (rn_reported s)"
  shows "rn_arrived (report_late out s) = rn_arrived s @ [out]" "rn_open (report_late out s) = drop_key (oc_call out) (rn_open s)"
    "set (rn_reported (report_late out s)) = insert (oc_call out) (set (rn_reported s))"
proof -
  have "oc_call out \<in> set (rn_open s)" using assms by (auto simp: late_ok_def)
  then show "rn_arrived (report_late out s) = rn_arrived s @ [out]" "rn_open (report_late out s) = drop_key (oc_call out) (rn_open s)"
    "set (rn_reported (report_late out s)) = insert (oc_call out) (set (rn_reported s))"
    using assms(3) by (simp_all add: report_late_def settle_call_def)
qed

lemma report_late_again: "oc_call out \<in> set (rn_reported s) \<Longrightarrow> report_late out s = s"
  by (simp add: report_late_def)

lemma late_ok_report:
  assumes "late_ok s" "oc_call out \<in> set (rn_handed s)"
  shows "late_ok (report_late out s)" "oc_call out \<in> set (rn_reported (report_late out s))"
    "set (rn_reported s) \<subseteq> set (rn_reported (report_late out s))"
    "rn_arrived (report_late out s) = rn_arrived s \<or> rn_arrived (report_late out s) = rn_arrived s @ [out]"
proof -
  show "late_ok (report_late out s)"
  proof (cases "oc_call out \<in> set (rn_reported s)")
    case False
    note n = report_late_new [OF assms False]
    show ?thesis using assms False unfolding late_ok_def n report_late_keeps by auto
  qed (use assms(1) report_late_again in simp)
  show "oc_call out \<in> set (rn_reported (report_late out s))" "set (rn_reported s) \<subseteq> set (rn_reported (report_late out s))"
    "rn_arrived (report_late out s) = rn_arrived s \<or> rn_arrived (report_late out s) = rn_arrived s @ [out]"
    using report_late_new [OF assms] report_late_again [of out s] by (cases "oc_call out \<in> set (rn_reported s)"; force)+
qed

lemma report_all_late:
  "late_ok s \<Longrightarrow> set ks \<subseteq> set (rn_handed s) \<Longrightarrow>
    late_ok (report_all ks s) \<and> set ks \<union> set (rn_reported s) \<subseteq> set (rn_reported (report_all ks s))
    \<and> (\<exists>outs. rn_arrived (report_all ks s) = rn_arrived s @ outs
      \<and> (\<forall>out \<in> set outs. oc_kind out = Lost \<and> oc_call out \<in> set ks - set (rn_reported s)))"
proof (induction ks s rule: report_all.induct)
  case (2 k ks s)
  let ?out = "\<lparr>oc_call = k, oc_kind = Lost\<rparr>"
  let ?s = "report_late ?out s"
  have h: "oc_call ?out \<in> set (rn_handed s)" using 2(3) by simp
  note r = late_ok_report [OF 2(2) h]
  have ih: "late_ok (report_all ks ?s)" "set ks \<union> set (rn_reported ?s) \<subseteq> set (rn_reported (report_all ks ?s))"
    "\<exists>outs. rn_arrived (report_all ks ?s) = rn_arrived ?s @ outs
      \<and> (\<forall>out \<in> set outs. oc_kind out = Lost \<and> oc_call out \<in> set ks - set (rn_reported ?s))"
    using 2(1) [OF r(1)] 2(3) by simp_all
  then obtain outs where o: "rn_arrived (report_all ks ?s) = rn_arrived ?s @ outs"
    "\<forall>out \<in> set outs. oc_kind out = Lost \<and> oc_call out \<in> set ks - set (rn_reported ?s)" by blast
  have "\<exists>outs. rn_arrived (report_all ks ?s) = rn_arrived s @ outs
      \<and> (\<forall>out \<in> set outs. oc_kind out = Lost \<and> oc_call out \<in> set (k # ks) - set (rn_reported s))"
  proof (cases "k \<in> set (rn_reported s)")
    case True
    then show ?thesis using o report_late_again [of ?out s] by auto
  next
    case False
    then have "rn_arrived ?s = rn_arrived s @ [?out]" using report_late_new(1) [OF 2(2) h] by simp
    then show ?thesis using o r(3) False by (intro exI [of _ "?out # outs"]) auto
  qed
  then show ?case using ih(1,2) r(2,3) by auto
qed simp

lemmas report_all_ok = report_all_late [THEN conjunct1] report_all_late [THEN conjunct2, THEN conjunct1]
  report_all_late [THEN conjunct2, THEN conjunct2]

lemma detach_calls_late:
  assumes "rn_open s = rn_handed s" "distinct (rn_open s)"
  shows "rn_open (detach_calls ks s) = rn_handed (detach_calls ks s) \<and> distinct (rn_handed (detach_calls ks s))"
  using assms by (induction ks s rule: detach_calls.induct) (simp_all add: detach_call_def)

lemma late_ok_hand_back:
  assumes "late_ok s" "rn_handed s = []"
  shows "late_ok (hand_back b s)"
proof -
  have e: "rn_open s = []" "rn_arrived s = []" "rn_reported s = []" using assms by (auto simp: late_ok_def)
  show ?thesis using detach_calls_late [of s "map (call_id b) (holes b s)"] e assms(2)
    by (simp add: late_ok_def hand_back_def)
qed

text \<open>A task that ends reports a call that was handed back, and no other.\<close>

lemma succeed_cases:
  obtains (late) i where "tk_work (task_at b t) = Run_call i" "call_id b i \<in> set (rn_handed s)"
    "succeed b t err s = end_task b t Fulfilled (report_late (answer_of b i (Ran err)) s)"
  | (plain) r where "succeed b t err s = end_task b t Fulfilled (s\<lparr>rn_results := r\<rparr>)"
    "\<And>i. tk_work (task_at b t) = Run_call i \<Longrightarrow> call_id b i \<notin> set (rn_handed s)"
proof (cases "tk_work (task_at b t)")
  case Keep_place
  then show ?thesis using plain [of "rn_results s"] by (simp add: succeed_def)
next
  case (Record_denial i)
  then show ?thesis using plain by (simp add: succeed_def)
next
  case (Run_call i)
  then show ?thesis using plain late by (cases "call_id b i \<in> set (rn_handed s)") (simp_all add: succeed_def)
qed

lemma break_cases:
  obtains (late) i where "tk_work (task_at b t) = Run_call i" "call_id b i \<in> set (rn_handed s)"
    "break_task b t s = end_task b t Fulfilled (report_late (answer_of b i Failed_late) s)"
  | (plain) "break_task b t s = end_task b t Broken s"
proof (cases "tk_work (task_at b t)")
  case (Run_call i)
  then show ?thesis using plain late by (cases "call_id b i \<in> set (rn_handed s)") (simp_all add: break_task_def)
qed (use plain in \<open>simp_all add: break_task_def\<close>)

lemma answer_of_call [simp]: "oc_call (answer_of b i k) = call_id b i" "oc_kind (answer_of b i k) = k"
  by (simp_all add: answer_of_def)

lemma late_step:
  assumes "batch_step b s s'" "late_ok s" "answers_ok b s"
  shows "late_ok s'"
  using assms(1)
proof cases
  case (step_succeed t err)
  show ?thesis unfolding step_succeed(1)
    by (cases rule: succeed_cases [of b t s err]) (use assms(2) late_ok_report(1) late_ok_part [OF late_part_keeps(1)]
        late_ok_part [OF late_part_keeps(4)] in \<open>simp_all\<close>)
next
  case (step_break t)
  show ?thesis unfolding step_break(1)
    by (cases rule: break_cases [of b t s]) (use assms(2) late_ok_report(1) late_ok_part [OF late_part_keeps(1)] in \<open>simp_all\<close>)
next
  case step_hand_back
  have "rn_handed s = []" using answers_okD(5) [OF assms(3)] step_hand_back(2) by force
  then show ?thesis unfolding step_hand_back(1) by (rule late_ok_hand_back [OF assms(2)])
next
  case step_settle_rest
  show ?thesis using report_all_ok(1) [OF assms(2)] late_ok_part [OF late_part_keeps(6)]
    unfolding step_settle_rest(1) settle_rest_def by simp
next
  case (step_begin t)
  then show ?thesis using assms(2) late_ok_part [OF late_part_keeps(2)] by simp
qed (use assms(2) late_ok_part [OF late_part_keeps(3)] late_ok_part [OF late_part_keeps(5)] in
    \<open>simp_all add: return_batch_def late_ok_def\<close>)

lemma reach_late_ok: "batch_reach b s \<Longrightarrow> late_ok s"
proof (induction rule: batch_reach.induct)
  case reach_begin
  show ?case by (simp add: late_ok_def begin_batch_def)
next
  case (reach_step s s')
  show ?case using late_step [OF reach_step(2,3) reach_answers_ok [OF reach_step(1)]] .
qed

subsection \<open>What a report says\<close>

lemma over_stays:
  assumes "task_step b s s'" "tasks_ok b s" "over (rn_status s t)"
  shows "rn_status s' t = rn_status s t"
  using assms(1)
proof cases
  case (task_begin u)
  then have "u \<noteq> t" using assms(3) by (auto simp: can_begin_def over_def)
  moreover have "rn_status s' = rn_status (begin_task b u s)" using task_begin(2) by (simp add: core_simps)
  ultimately show ?thesis by (simp add: begin_task_def run_now_def)
next
  case (task_skip u)
  then have "u \<noteq> t" using assms(3) by (auto simp: must_break_def over_def)
  then show ?thesis using task_skip(2) by (simp add: core_simps)
next
  case (task_end u st)
  have u: "u \<noteq> t" using task_end(2) assms(3) by (auto simp: over_def)
  have w: "t \<notin> set (rn_waiters s)"
    using assms(2,3) by (auto simp: tasks_ok_def permits_kept_def core_def queue_ok_def over_def)
  have "rn_status s' = rn_status (end_task b u st s)" using task_end(4) by (simp add: core_simps)
  then show ?thesis using u w by (auto simp: end_task_def release_def run_now_def Let_def split: list.split)
qed (simp add: core_simps)

lemma failed_stays:
  assumes "batch_step b s s'" "tasks_ok b s" "failed b s"
  shows "failed b s'"
  using assms(3) over_stays [OF batch_task_step [OF assms(1)] assms(2)]
  by (fastforce simp: failed_def list_ex_iff over_def)

definition report_ok :: "batch \<Rightarrow> run_state \<Rightarrow> outcome \<Rightarrow> bool" where
  "report_ok b s out \<longleftrightarrow> (case oc_kind out of
      Ran err \<Rightarrow> may_start b (oc_call out)
    | Failed_late \<Rightarrow> may_start b (oc_call out)
    | Lost \<Rightarrow> oc_call out \<in> set (ba_denials b) \<or> failed b s
    | _ \<Rightarrow> False)"

lemma report_ok_stays: "report_ok b s out \<Longrightarrow> (failed b s \<Longrightarrow> failed b s') \<Longrightarrow> report_ok b s' out"
  by (auto simp: report_ok_def split: outcome_kind.splits)

text \<open>Behind a call that was handed back stands one that had no answer, and once that has ended well it is reported.\<close>

definition owed :: "batch \<Rightarrow> run_state \<Rightarrow> string \<Rightarrow> bool" where
  "owed b s k \<longleftrightarrow> (\<exists>i < length (ba_calls b). call_id b i = k \<and> \<not> recovered b i
    \<and> (\<forall>t < length (tasks b). tk_work (task_at b t) = Run_call i \<longrightarrow> rn_status s t = Fulfilled \<longrightarrow> k \<in> set (rn_reported s)))"

lemma owed_stays:
  assumes "owed b s k" "set (rn_reported s) \<subseteq> set (rn_reported s')"
    and "\<And>i t. t < length (tasks b) \<Longrightarrow> tk_work (task_at b t) = Run_call i \<Longrightarrow> call_id b i = k \<Longrightarrow> rn_status s' t = Fulfilled
      \<Longrightarrow> rn_status s t = Fulfilled \<or> k \<in> set (rn_reported s')"
  shows "owed b s' k"
  using assms unfolding owed_def by blast

definition reports_ok :: "batch \<Rightarrow> run_state \<Rightarrow> bool" where
  "reports_ok b s \<longleftrightarrow> (\<forall>k \<in> set (rn_handed s). owed b s k) \<and> (\<forall>out \<in> set (rn_arrived s). report_ok b s out)
    \<and> (rn_rest s \<longrightarrow> set (rn_handed s) \<subseteq> set (rn_reported s))"

lemma reports_okD:
  assumes "reports_ok b s"
  shows "k \<in> set (rn_handed s) \<Longrightarrow> owed b s k" "out \<in> set (rn_arrived s) \<Longrightarrow> report_ok b s out"
    "rn_rest s \<Longrightarrow> set (rn_handed s) \<subseteq> set (rn_reported s)"
  using assms unfolding reports_ok_def by blast+

lemma reports_move:
  assumes ok: "reports_ok b s" and failed: "failed b s \<Longrightarrow> failed b s'"
    and same: "rn_handed s' = rn_handed s" "rn_rest s' = rn_rest s"
    and more: "set (rn_reported s) \<subseteq> set (rn_reported s')"
    and new: "\<And>out. out \<in> set (rn_arrived s') \<Longrightarrow> out \<in> set (rn_arrived s) \<or> report_ok b s' out"
    and ended: "\<And>i t. t < length (tasks b) \<Longrightarrow> tk_work (task_at b t) = Run_call i \<Longrightarrow> call_id b i \<in> set (rn_handed s)
      \<Longrightarrow> rn_status s' t = Fulfilled \<Longrightarrow> rn_status s t = Fulfilled \<or> call_id b i \<in> set (rn_reported s')"
  shows "reports_ok b s'"
  unfolding reports_ok_def
proof (intro conjI ballI impI)
  show "owed b s' k" if k: "k \<in> set (rn_handed s')" for k
  proof (rule owed_stays [OF _ more])
    show "owed b s k" using reports_okD(1) [OF ok] k same(1) by simp
    show "rn_status s t = Fulfilled \<or> k \<in> set (rn_reported s')"
      if "t < length (tasks b)" "tk_work (task_at b t) = Run_call i" "call_id b i = k" "rn_status s' t = Fulfilled" for i t
      using ended [OF that(1,2) _ that(4)] that(3) k same(1) by simp
  qed
  show "report_ok b s' out" if "out \<in> set (rn_arrived s')" for out
    using new [OF that] reports_okD(2) [OF ok] report_ok_stays failed by blast
  show "set (rn_handed s') \<subseteq> set (rn_reported s')" if "rn_rest s'"
    using reports_okD(3) [OF ok] that same more by auto
qed

text \<open>A task that ends with a report, or without one that is due\<close>

lemma reports_end:
  assumes ok: "reports_ok b s" and late: "late_ok s" and failed: "failed b s \<Longrightarrow> failed b (end_task b t Fulfilled (report_late (answer_of b i k) s))"
    and t: "t < length (tasks b)" "tk_work (task_at b t) = Run_call i" "call_id b i \<in> set (rn_handed s)"
    and k: "k = Failed_late \<or> (\<exists>err. k = Ran err)"
  shows "reports_ok b (end_task b t Fulfilled (report_late (answer_of b i k) s))" (is "reports_ok b ?s")
proof (rule reports_move [OF ok failed])
  have h: "oc_call (answer_of b i k) \<in> set (rn_handed s)" using t(3) by simp
  note r = late_ok_report [OF late h]
  show "set (rn_reported s) \<subseteq> set (rn_reported ?s)" using r(3) by simp
  have n: "report_ok b ?s (answer_of b i k)" using run_call_may_start [OF t(1,2)] k by (auto simp: report_ok_def)
  show "out \<in> set (rn_arrived s) \<or> report_ok b ?s out" if "out \<in> set (rn_arrived ?s)" for out
    using that r(4) n by auto
  show "rn_status s u = Fulfilled \<or> call_id b j \<in> set (rn_reported ?s)"
    if u: "tk_work (task_at b u) = Run_call j" "rn_status ?s u = Fulfilled" for j u
  proof (cases "u = t")
    case True
    then have "j = i" using u(1) t(2) by simp
    then show ?thesis using r(2) by simp
  next
    case False
    then show ?thesis using fulfilled_end [OF u(2)] by simp
  qed
qed simp_all

lemma reports_plain:
  assumes ok: "reports_ok b s" and failed: "failed b s \<Longrightarrow> failed b (end_task b t st (s\<lparr>rn_results := r\<rparr>))"
    and t: "\<And>i. st = Fulfilled \<Longrightarrow> tk_work (task_at b t) = Run_call i \<Longrightarrow> call_id b i \<notin> set (rn_handed s)"
  shows "reports_ok b (end_task b t st (s\<lparr>rn_results := r\<rparr>))"
proof (rule reports_move [OF ok failed])
  show "rn_status s u = Fulfilled \<or> call_id b j \<in> set (rn_reported (end_task b t st (s\<lparr>rn_results := r\<rparr>)))"
    if "tk_work (task_at b u) = Run_call j" "call_id b j \<in> set (rn_handed s)"
      "rn_status (end_task b t st (s\<lparr>rn_results := r\<rparr>)) u = Fulfilled" for j u
    using fulfilled_end [OF that(3)] t that(1,2) by auto
qed simp_all

lemma reports_hand_back:
  assumes "answers_ok b s" "late_ok s" "rn_handed s = []" "rn_phase s = Gathering" "\<not> rn_rest s"
  shows "reports_ok b (hand_back b s)"
proof -
  have h: "set (rn_handed (hand_back b s)) = call_id b ` set (holes b s)" using assms(3) by (simp add: hand_back_def)
  have e: "rn_arrived (hand_back b s) = []" using assms(2,3) by (simp add: late_ok_def hand_back_def)
  have o: "owed b (hand_back b s) (call_id b i)" if "i \<in> set (holes b s)" for i
  proof -
    have i: "i < length (ba_calls b)" "\<not> answered s i" using that holes_set by blast+
    then have "\<not> recovered b i" using answers_okD(2) [OF assms(1)] by blast
    moreover have "rn_status (hand_back b s) t \<noteq> Fulfilled" if "t < length (tasks b)" "tk_work (task_at b t) = Run_call i" for t
      using answers_okD(3) [OF assms(1) that(1), of i] that(2) i(2) by (auto simp: hand_back_def)
    ultimately show ?thesis using i(1) unfolding owed_def by blast
  qed
  show ?thesis unfolding reports_ok_def using o assms(5) by (simp add: h e) (simp add: hand_back_def)
qed

text \<open>At the end of the batch: what was not reported was denied, or the batch failed.\<close>

lemma reports_rest:
  assumes ok: "reports_ok b s" and late: "late_ok s" and t: "tasks_ok b s" and e: "completed b s \<or> failed b s"
  shows "reports_ok b (settle_rest b s)"
proof -
  let ?s = "report_all (rn_handed s) s"
  note r = report_all_ok [OF late subset_refl]
  have f: "failed b (settle_rest b s) = failed b s" by (simp add: settle_rest_def failed_def)
  obtain outs where outs: "rn_arrived ?s = rn_arrived s @ outs"
    "\<forall>out \<in> set outs. oc_kind out = Lost \<and> oc_call out \<in> set (rn_handed s) - set (rn_reported s)" using r(3) by blast
  have n: "report_ok b s out" if out: "out \<in> set outs" for out
  proof -
    have k: "oc_call out \<in> set (rn_handed s)" "oc_call out \<notin> set (rn_reported s)" "oc_kind out = Lost"
      using outs(2) out by auto
    obtain i where i: "i < length (ba_calls b)" "call_id b i = oc_call out" "\<not> recovered b i"
      "\<forall>t < length (tasks b). tk_work (task_at b t) = Run_call i \<longrightarrow> rn_status s t = Fulfilled \<longrightarrow> oc_call out \<in> set (rn_reported s)"
      using reports_okD(1) [OF ok k(1)] unfolding owed_def by blast
    have "oc_call out \<in> set (ba_denials b)" if "completed b s"
    proof (rule ccontr)
      assume "oc_call out \<notin> set (ba_denials b)"
      then have "\<not> denied b i" using i(2) by (simp add: denied_def)
      then obtain u where u: "u < length (tasks b)" "tk_work (task_at b u) = Run_call i" using task_of_call [OF i(1,3)] by auto
      then have "rn_status s u = Fulfilled" using completed_all [OF _ that u(1)] t by (simp add: tasks_ok_def)
      then show False using i(4) u k(2) by blast
    qed
    then show ?thesis using e k(3) by (auto simp: report_ok_def)
  qed
  show ?thesis unfolding reports_ok_def
  proof (intro conjI ballI impI)
    show "owed b (settle_rest b s) k" if "k \<in> set (rn_handed (settle_rest b s))" for k
      by (rule owed_stays [of b s]) (use reports_okD(1) [OF ok] that r(2) in \<open>auto simp: settle_rest_def\<close>)
    show "report_ok b (settle_rest b s) out" if "out \<in> set (rn_arrived (settle_rest b s))" for out
    proof -
      have "out \<in> set (rn_arrived s) \<or> out \<in> set outs" using that outs(1) by (auto simp: settle_rest_def)
      then show ?thesis using report_ok_stays n reports_okD(2) [OF ok] f by blast
    qed
    show "set (rn_handed (settle_rest b s)) \<subseteq> set (rn_reported (settle_rest b s))" using r(2) by (auto simp: settle_rest_def)
  qed
qed

lemma reports_step:
  assumes step: "batch_step b s s'" and ok: "reports_ok b s" and late: "late_ok s" and a: "answers_ok b s" and t: "tasks_ok b s"
    and rest: "rn_rest s \<Longrightarrow> rn_phase s = Returned"
  shows "reports_ok b s'"
  using step
proof cases
  case (step_begin u)
  show ?thesis unfolding step_begin(1)
    by (rule reports_move [OF ok]) (use failed_stays [OF step t] step_begin(1) fulfilled_begin in \<open>auto simp: late_part_def\<close>)
next
  case (step_skip u)
  show ?thesis unfolding step_skip(1)
    by (rule reports_move [OF ok]) (use failed_stays [OF step t] step_skip(1) in \<open>auto split: if_splits\<close>)
next
  case (step_succeed u err)
  have f: "failed b s \<Longrightarrow> failed b (succeed b u err s)" using failed_stays [OF step t] step_succeed(1) by simp
  show ?thesis unfolding step_succeed(1)
  proof (cases rule: succeed_cases [of b u s err])
    case (late i)
    show "reports_ok b (succeed b u err s)" unfolding late(3)
      by (rule reports_end [OF ok \<open>late_ok s\<close> _ step_succeed(2) late(1,2)]) (use f late(3) in simp_all)
  next
    case (plain r)
    show "reports_ok b (succeed b u err s)" unfolding plain(1)
      by (rule reports_plain [OF ok]) (use f plain in simp_all)
  qed
next
  case (step_break u)
  have f: "failed b s \<Longrightarrow> failed b (break_task b u s)" using failed_stays [OF step t] step_break(1) by simp
  show ?thesis unfolding step_break(1)
  proof (cases rule: break_cases [of b u s])
    case (late i)
    show "reports_ok b (break_task b u s)" unfolding late(3)
      by (rule reports_end [OF ok \<open>late_ok s\<close> _ step_break(2) late(1,2)]) (use f late(3) in simp_all)
  next
    case plain
    have "reports_ok b (end_task b u Broken (s\<lparr>rn_results := rn_results s\<rparr>))"
      by (rule reports_plain [OF ok]) (use f plain in simp_all)
    then show "reports_ok b (break_task b u s)" unfolding plain by simp
  qed
next
  case step_return
  show ?thesis unfolding step_return(1)
    by (rule reports_move [OF ok]) (simp_all add: return_batch_def failed_def)
next
  case step_throw
  show ?thesis unfolding step_throw(1) by (rule reports_move [OF ok]) (simp_all add: failed_def)
next
  case step_hand_back
  have "rn_handed s = []" "\<not> rn_rest s" using answers_okD(5) [OF a] rest step_hand_back(2) by force+
  then show ?thesis unfolding step_hand_back(1) using reports_hand_back [OF a late _ step_hand_back(2)] by blast
next
  case step_settle_rest
  show ?thesis unfolding step_settle_rest(1) by (rule reports_rest [OF ok late t step_settle_rest(4)])
qed

lemma reach_rest: "batch_reach b s \<Longrightarrow> rn_rest s \<Longrightarrow> rn_phase s = Returned"
proof (induction rule: batch_reach.induct)
  case reach_begin
  then show ?case by (simp add: begin_batch_def)
next
  case (reach_step s s')
  show ?case using reach_step(2)
  proof cases
    case (step_succeed t err)
    then show ?thesis using reach_step(3,4) by (cases rule: succeed_cases [of b t s err]) simp_all
  next
    case (step_break t)
    then show ?thesis using reach_step(3,4) by (cases rule: break_cases [of b t s]) simp_all
  next
    case step_settle_rest
    then show ?thesis using answers_okD(5) [OF reach_answers_ok [OF reach_step(1)]] by (simp add: settle_rest_def)
  qed (use reach_step(3,4) in \<open>simp_all add: return_batch_def hand_back_def\<close>)
qed

lemma reach_reports_ok: "batch_reach b s \<Longrightarrow> reports_ok b s"
proof (induction rule: batch_reach.induct)
  case reach_begin
  show ?case by (simp add: reports_ok_def begin_batch_def)
next
  case (reach_step s s')
  note r = reach_step(1)
  show ?case
    by (rule reports_step [OF reach_step(2,3) reach_late_ok [OF r] reach_answers_ok [OF r] reach_tasks_ok [OF r] reach_rest [OF r]])
qed

subsection \<open>How the executions ended\<close>

text \<open>
  The same transitions with a label where an execution comes to its end: the task, and whether the tool reported an
  error, or nothing when it rejected. A history is the list of these labels along a run.
\<close>

inductive batch_move :: "batch \<Rightarrow> run_state \<Rightarrow> (nat \<times> bool option) option \<Rightarrow> run_state \<Rightarrow> bool" for b where
  move_succeed: "t < length (tasks b) \<Longrightarrow> rn_status s t = Running \<Longrightarrow> batch_move b s (Some (t, Some err)) (succeed b t err s)"
| move_break: "t < length (tasks b) \<Longrightarrow> rn_status s t = Running \<Longrightarrow> tk_work (task_at b t) \<noteq> Keep_place
    \<Longrightarrow> batch_move b s (Some (t, None)) (break_task b t s)"
| move_begin: "can_begin b s t \<Longrightarrow> batch_move b s None (begin_task b t s)"
| move_skip: "must_break b s t \<Longrightarrow> batch_move b s None (s\<lparr>rn_status := (rn_status s)(t := Broken)\<rparr>)"
| move_return: "rn_phase s = Gathering \<Longrightarrow> completed b s \<Longrightarrow> batch_move b s None (return_batch b s)"
| move_throw: "rn_phase s = Gathering \<Longrightarrow> failed b s \<Longrightarrow> batch_move b s None (s\<lparr>rn_phase := Threw\<rparr>)"
| move_hand_back: "rn_phase s = Gathering \<Longrightarrow> ba_detach b \<Longrightarrow> holes b s \<noteq> [] \<Longrightarrow> batch_move b s None (hand_back b s)"
| move_settle_rest: "rn_handed s \<noteq> [] \<Longrightarrow> \<not> rn_rest s \<Longrightarrow> completed b s \<or> failed b s \<Longrightarrow> batch_move b s None (settle_rest b s)"

lemma batch_step_moves: "batch_step b s s' \<longleftrightarrow> (\<exists>l. batch_move b s l s')"
  by (auto elim!: batch_step.cases batch_move.cases intro: batch_step.intros batch_move.intros)

inductive batch_history :: "batch \<Rightarrow> (nat \<times> bool option) list \<Rightarrow> run_state \<Rightarrow> bool" for b where
  history_begin: "batch_history b [] (begin_batch b)"
| history_move: "batch_history b h s \<Longrightarrow> batch_move b s l s' \<Longrightarrow> batch_history b (h @ of_option l) s'"

lemma history_reach: "batch_history b h s \<Longrightarrow> batch_reach b s"
  by (induction rule: batch_history.induct) (use batch_step_moves in \<open>blast intro: batch_reach.intros\<close>)+

lemma reach_history: "batch_reach b s \<Longrightarrow> \<exists>h. batch_history b h s"
  by (induction rule: batch_reach.induct) (auto simp: batch_step_moves intro: batch_history.intros)

text \<open>A report that tells how the execution of the call ended.\<close>

definition told :: "batch \<Rightarrow> (nat \<times> bool option) list \<Rightarrow> outcome \<Rightarrow> bool" where
  "told b h out \<longleftrightarrow> (\<exists>t i e. tk_work (task_at b t) = Run_call i \<and> (t, e) \<in> set h
    \<and> out = answer_of b i (case e of Some err \<Rightarrow> Ran err | None \<Rightarrow> Failed_late))"

lemma told_append: "told b h out \<Longrightarrow> told b (h @ h') out"
  unfolding told_def by fastforce

definition history_ok :: "batch \<Rightarrow> (nat \<times> bool option) list \<Rightarrow> run_state \<Rightarrow> bool" where
  "history_ok b h s \<longleftrightarrow> distinct (map fst h) \<and> (\<forall>t \<in> fst ` set h. over (rn_status s t))
    \<and> (\<forall>out \<in> set (rn_arrived s). told b h out \<or> oc_kind out = Lost)"

lemma arrived_late: "out \<in> set (rn_arrived (report_late o1 s)) \<Longrightarrow> out \<in> set (rn_arrived s) \<or> out = o1"
  by (auto simp: report_late_def settle_call_def split: if_splits)

lemma report_all_lost: "out \<in> set (rn_arrived (report_all ks s)) \<Longrightarrow> out \<in> set (rn_arrived s) \<or> oc_kind out = Lost"
proof (induction ks arbitrary: s)
  case (Cons k ks)
  then have "out \<in> set (rn_arrived (report_late \<lparr>oc_call = k, oc_kind = Lost\<rparr> s)) \<or> oc_kind out = Lost" by simp
  then show ?case using arrived_late [of out "\<lparr>oc_call = k, oc_kind = Lost\<rparr>" s] by (cases "oc_kind out = Lost") auto
qed simp

lemma arrived_quietly:
  assumes "batch_move b s None s'" "out \<in> set (rn_arrived s')"
  shows "out \<in> set (rn_arrived s) \<or> oc_kind out = Lost"
  using assms(1)
proof cases
  case move_settle_rest
  then show ?thesis using assms(2) report_all_lost by (simp add: settle_rest_def)
qed (use assms(2) in \<open>simp_all add: return_batch_def hand_back_def late_part_keeps [unfolded late_part_def]\<close>)

lemma ended_status:
  assumes "over st" "rn_status s t = Running" "tasks_ok b s" "core s' = core (end_task b t st s)"
  shows "over (rn_status s' t)"
proof -
  have "t \<notin> set (rn_waiters s)"
    using assms(2,3) by (auto simp: tasks_ok_def permits_kept_def core_def queue_ok_def)
  moreover have "rn_status s' = rn_status (end_task b t st s)" using assms(4) by (simp add: core_simps)
  ultimately show ?thesis
    using assms(1) by (auto simp: end_task_def release_def run_now_def Let_def split: list.split)
qed

lemma succeed_core: "core (succeed b t err s) = core (end_task b t Fulfilled s)"
  unfolding succeed_def by (intro end_task_core) (auto simp: core_simps report_late_def settle_call_def split: work.split)

lemma break_core: "\<exists>st. over st \<and> core (break_task b t s) = core (end_task b t st s)"
  by (cases rule: break_cases [of b t s]) (use end_task_core [OF report_late_core] in \<open>auto simp: over_def\<close>)

lemma history_quiet:
  assumes "history_ok b h s" "tasks_ok b s" "batch_move b s None s'"
  shows "history_ok b h s'"
proof -
  have "batch_step b s s'" using assms(3) batch_step_moves by blast
  then have "over (rn_status s' t)" if "t \<in> fst ` set h" for t
    using over_stays [OF batch_task_step assms(2)] assms(1) that by (fastforce simp: history_ok_def)
  then show ?thesis using assms(1) arrived_quietly [OF assms(3)] unfolding history_ok_def by blast
qed

lemma history_end:
  assumes ok: "history_ok b h s" and t: "tasks_ok b s" and m: "batch_move b s (Some (t, e)) s'" and r: "rn_status s t = Running"
    and o: "over (rn_status s' t)"
    and n: "\<And>out. out \<in> set (rn_arrived s') \<Longrightarrow> out \<in> set (rn_arrived s) \<or> told b [(t, e)] out"
  shows "history_ok b (h @ [(t, e)]) s'"
proof -
  have st: "batch_step b s s'" using m batch_step_moves by blast
  have old: "over (rn_status s' u)" if "u \<in> fst ` set h" for u
    using over_stays [OF batch_task_step [OF st] t] ok that by (fastforce simp: history_ok_def)
  have "t \<notin> fst ` set h" using ok r by (fastforce simp: history_ok_def over_def)
  moreover have "told b (h @ [(t, e)]) out \<or> oc_kind out = Lost" if "out \<in> set (rn_arrived s')" for out
    using n [OF that] ok told_append [of b h out] unfolding history_ok_def told_def by fastforce
  ultimately show ?thesis using ok old o unfolding history_ok_def by auto
qed

lemma history_step:
  assumes "history_ok b h s" "tasks_ok b s" "batch_move b s l s'"
  shows "history_ok b (h @ of_option l) s'"
  using assms(3)
proof cases
  case (move_succeed t err)
  have "out \<in> set (rn_arrived s) \<or> told b [(t, Some err)] out" if "out \<in> set (rn_arrived (succeed b t err s))" for out
  proof (cases rule: succeed_cases [of b t s err])
    case (late i)
    then show ?thesis using that arrived_late by (auto simp: told_def)
  qed (use that in simp)
  then show ?thesis
    using history_end [OF assms(1,2), of t "Some err" s'] assms(3) move_succeed
      ended_status [OF _ _ assms(2) succeed_core] by (simp add: of_option_def over_def)
next
  case (move_break t)
  have "out \<in> set (rn_arrived s) \<or> told b [(t, None)] out" if "out \<in> set (rn_arrived (break_task b t s))" for out
  proof (cases rule: break_cases [of b t s])
    case (late i)
    then show ?thesis using that arrived_late by (auto simp: told_def)
  qed (use that in simp)
  moreover have "over (rn_status s' t)" using break_core [of b t s] ended_status [OF _ move_break(4) assms(2)] move_break(2) by blast
  ultimately show ?thesis
    using history_end [OF assms(1,2), of t None s'] assms(3) move_break by (simp add: of_option_def)
qed (use history_quiet [OF assms(1,2)] assms(3) in \<open>simp_all add: of_option_def\<close>)

lemma history_kept: "batch_history b h s \<Longrightarrow> history_ok b h s"
proof (induction rule: batch_history.induct)
  case history_begin
  show ?case by (simp add: history_ok_def begin_batch_def)
next
  case (history_move h s l s')
  show ?case by (rule history_step [OF history_move(3) reach_tasks_ok [OF history_reach [OF history_move(1)]] history_move(2)])
qed

end
