(* ===== verification/BatchRunProperties.thy ===== *)
theory BatchRunProperties
  imports BatchLateProofs
begin

text \<open>
  First the end of a run: a weight of tasks and phase falls with every transition, and a state without one is an end; and which calls run
  side by side. Then what a batch of calls promises, in any order in which its calls may begin and end. The witnesses follow
  one run: a call that changes things and a read side by side, a barrier behind both, and a denied call behind
  the barrier; the operator writes when the first two are over.
\<close>

subsection \<open>The weight of a state\<close>

fun weight :: "status \<Rightarrow> nat" where
  "weight Waiting = 3"
| "weight Queued = 2"
| "weight Running = 1"
| "weight Fulfilled = 0"
| "weight Broken = 0"

definition task_weight :: "batch \<Rightarrow> (nat \<Rightarrow> status) \<Rightarrow> nat" where
  "task_weight b f = (\<Sum>t < length (tasks b). weight (f t))"

definition steps_left :: "batch \<Rightarrow> run_state \<Rightarrow> nat" where
  "steps_left b s = task_weight b (rn_status s) + (if rn_phase s = Gathering then 1 else 0) + (if rn_rest s then 0 else 1)"

lemma task_weight_less:
  assumes "t < length (tasks b)" "weight st < weight (f t)"
  shows "task_weight b (f(t := st)) < task_weight b f"
  unfolding task_weight_def using assms by (intro sum_strict_mono_ex1) auto

lemma task_weight_end:
  assumes t: "tasks_ok b s" and r: "t < length (tasks b)" "rn_status s t = Running" and st: "over st"
    and c: "core s' = core (end_task b t st s)"
  shows "task_weight b (rn_status s') < task_weight b (rn_status s)"
proof -
  let ?f = "(rn_status s)(t := st)"
  have one: "task_weight b ?f < task_weight b (rn_status s)"
    using r st by (intro task_weight_less) (auto simp: over_def)
  have wake: "task_weight b (?f(w := Running)) < task_weight b (rn_status s)" if "w \<in> set (rn_waiters s)" for w
  proof -
    have q: "rn_status s w = Queued" using t that by (auto simp: tasks_ok_def permits_kept_def core_def queue_ok_def)
    then have "w < length (tasks b)" using t ordered_runD(1) [of b "rn_status s" w] by (simp add: tasks_ok_def)
    then have "task_weight b (?f(w := Running)) < task_weight b ?f" using q r(2) by (intro task_weight_less) auto
    then show ?thesis using one by simp
  qed
  have "rn_status s' = ?f \<or> (\<exists>w \<in> set (rn_waiters s). rn_status s' = ?f(w := Running))"
    using c unfolding end_core by (auto simp: core_def Let_def split: if_splits list.splits)
  then show ?thesis using one wake by auto
qed

lemma begin_lighter:
  assumes "can_begin b s t"
  shows "task_weight b (rn_status (begin_task b t s)) < task_weight b (rn_status s)"
proof -
  have t: "t < length (tasks b)" "rn_status s t = Waiting" using assms by (simp_all add: can_begin_def)
  have "rn_status (begin_task b t s) \<in> {(rn_status s)(t := Running), (rn_status s)(t := Queued)}"
    by (simp add: begin_task_def run_now_def)
  then show ?thesis using t task_weight_less [OF t(1), of _ "rn_status s"] by auto
qed

lemma succeed_phase [simp]: "rn_phase (succeed b t err s) = rn_phase s" "rn_rest (succeed b t err s) = rn_rest s"
  by (cases rule: succeed_cases [of b t s err]; simp)+

lemma break_phase [simp]: "rn_phase (break_task b t s) = rn_phase s" "rn_rest (break_task b t s) = rn_rest s"
  by (cases rule: break_cases [of b t s]; simp)+

lemma step_lighter:
  assumes "batch_step b s s'" "tasks_ok b s"
  shows "steps_left b s' < steps_left b s"
  using assms(1)
proof cases
  case (step_begin t)
  then show ?thesis using begin_lighter [OF step_begin(2)] by (simp add: steps_left_def)
next
  case (step_skip t)
  then have "task_weight b (rn_status s') < task_weight b (rn_status s)"
    by (auto intro: task_weight_less simp: must_break_def)
  then show ?thesis using step_skip(1) by (simp add: steps_left_def)
next
  case (step_succeed t err)
  then show ?thesis
    using task_weight_end [OF assms(2) step_succeed(2,3) _ succeed_core] by (simp add: steps_left_def over_def)
next
  case (step_break t)
  obtain st where "over st" "core (break_task b t s) = core (end_task b t st s)" using break_core by blast
  then show ?thesis
    using task_weight_end [OF assms(2) step_break(2,3)] step_break(1) by (simp add: steps_left_def)
qed (simp_all add: steps_left_def return_batch_def hand_back_def settle_rest_def)

lemma weight_of_begin: "steps_left b (begin_batch b) = 3 * length (tasks b) + 2"
  by (simp add: steps_left_def task_weight_def begin_batch_def)

subsection \<open>No transition left\<close>

definition stuck :: "batch \<Rightarrow> run_state \<Rightarrow> bool" where
  "stuck b s \<longleftrightarrow> (\<forall>s'. \<not> batch_step b s s')"

lemma stuck_not_running:
  assumes "stuck b s" "tasks_ok b s"
  shows "rn_status s t \<noteq> Running"
proof
  assume r: "rn_status s t = Running"
  then have "t < length (tasks b)" using ordered_runD(1) [of b "rn_status s" t] assms(2) by (simp add: tasks_ok_def)
  then show False using step_succeed [OF _ r] assms(1) by (auto simp: stuck_def)
qed

text \<open>Without a task that runs every permit is there, so no task is queued for one.\<close>

lemma stuck_not_queued:
  assumes "stuck b s" "tasks_ok b s"
  shows "rn_status s t \<noteq> Queued"
proof
  assume q: "rn_status s t = Queued"
  have "gated_running b (rn_status s) = {}" using stuck_not_running [OF assms] by (simp add: gated_running_def)
  then have "rn_available s = permits b" using assms(2) by (simp add: tasks_ok_def permits_kept_def core_def)
  moreover have "t \<in> set (rn_waiters s)" using q assms(2) by (auto simp: tasks_ok_def permits_kept_def core_def queue_ok_def)
  then have "rn_available s = 0" using assms(2) by (auto simp: tasks_ok_def permits_kept_def core_def)
  ultimately show False by (simp add: permits_def)
qed

lemma stuck_settled:
  assumes "stuck b s" "tasks_ok b s" "t < length (tasks b)"
  shows "over (rn_status s t)"
  using assms(3)
proof (induction t rule: less_induct)
  case (less t)
  have before: "over (rn_status s u)" if "u \<in> set (tk_after (task_at b t))" for u
    using less waits_below [OF less.prems that] by simp
  have "rn_status s t \<noteq> Waiting"
  proof
    assume w: "rn_status s t = Waiting"
    show False
    proof (cases "\<forall>u \<in> set (tk_after (task_at b t)). rn_status s u = Fulfilled")
      case True
      then have "can_begin b s t" using w less.prems by (simp add: can_begin_def list_all_iff)
      then show False using step_begin assms(1) by (auto simp: stuck_def)
    next
      case False
      then have "must_break b s t" using w less.prems before
        by (auto simp: must_break_def list_all_iff list_ex_iff settled_def over_def)
      then show False using step_skip assms(1) by (auto simp: stuck_def)
    qed
  qed
  then show ?case using stuck_not_running [OF assms(1,2)] stuck_not_queued [OF assms(1,2)]
    by (cases "rn_status s t") (auto simp: over_def)
qed

lemma stuck_end:
  assumes "stuck b s" "tasks_ok b s"
  shows "completed b s \<or> failed b s" "rn_phase s \<noteq> Gathering" "rn_handed s = [] \<or> rn_rest s"
proof -
  show e: "completed b s \<or> failed b s"
    using stuck_settled [OF assms] final_below [of _ b] by (force simp: completed_def failed_def list_all_iff list_ex_iff over_def)
  show "rn_phase s \<noteq> Gathering" using e step_return [of s b] step_throw [of s b] assms(1) unfolding stuck_def by blast
  show "rn_handed s = [] \<or> rn_rest s" using e step_settle_rest [of s b] assms(1) unfolding stuck_def by blast
qed

subsection \<open>Calls that run side by side\<close>

definition call_running :: "batch \<Rightarrow> run_state \<Rightarrow> nat \<Rightarrow> bool" where
  "call_running b s i \<longleftrightarrow> (\<exists>t < length (tasks b). tk_work (task_at b t) = Run_call i \<and> rn_status s t = Running)"

lemma running_not_apart:
  assumes "tasks_ok b s" "t < u" "rn_status s t = Running" "rn_status s u = Running"
  shows "\<not> apart (task_at b t) (task_at b u)"
proof
  assume a: "apart (task_at b t) (task_at b u)"
  have o: "ordered_run b (rn_status s)" using assms(1) by (simp add: tasks_ok_def)
  have "u < length (tasks b)" using ordered_runD(1) [OF o, of u] assms(4) by simp
  then have "over (rn_status s t)" using earlier_over(1) [OF o apart_ordered [OF assms(2) _ a]] assms(4) by simp
  then show False using assms(3) by (simp add: over_def)
qed

lemma running_pair:
  assumes "tasks_ok b s" "call_running b s i" "call_running b s j" "i \<noteq> j"
  shows "\<not> bc_barrier (ba_calls b ! i)" "bc_safe (ba_calls b ! i) \<or> bc_safe (ba_calls b ! j)"
proof -
  obtain t u where t: "t < length (tasks b)" "tk_work (task_at b t) = Run_call i" "rn_status s t = Running"
    and u: "u < length (tasks b)" "tk_work (task_at b u) = Run_call j" "rn_status s u = Running"
    using assms(2,3) unfolding call_running_def by blast
  have "t \<noteq> u" using t u assms(4) by auto
  then have "\<not> apart (task_at b t) (task_at b u)"
    using running_not_apart [OF assms(1), of t u] running_not_apart [OF assms(1), of u t] t(3) u(3)
    by (cases t u rule: linorder_cases) (auto simp: apart_def)
  then show "\<not> bc_barrier (ba_calls b ! i)" "bc_safe (ba_calls b ! i) \<or> bc_safe (ba_calls b ! j)"
    using task_fits_at [OF t(1)] task_fits_at [OF u(1)] t(2) u(2) by (simp_all add: task_fits_def apart_def)
qed

lemma running_below: "call_running b s i \<Longrightarrow> i < length (ba_calls b)"
  using work_below unfolding call_running_def by fastforce

text \<open>The safe calls that run hold a permit each.\<close>

lemma safe_running_bounded:
  assumes "tasks_ok b s"
  shows "card {i. call_running b s i \<and> bc_safe (ba_calls b ! i)} \<le> permits b"
proof -
  let ?R = "gated_running b (rn_status s)"
  have fin: "finite ?R" and n: "rn_available s + card ?R = permits b"
    using assms by (simp_all add: tasks_ok_def permits_kept_def core_def)
  have "{i. call_running b s i \<and> bc_safe (ba_calls b ! i)} \<subseteq> (\<lambda>t. the (work_call (tk_work (task_at b t)))) ` ?R"
  proof
    fix i assume "i \<in> {i. call_running b s i \<and> bc_safe (ba_calls b ! i)}"
    then obtain t where t: "t < length (tasks b)" "tk_work (task_at b t) = Run_call i" "rn_status s t = Running"
      and safe: "bc_safe (ba_calls b ! i)" by (auto simp: call_running_def)
    have "tk_gated (task_at b t)" using task_fits_at [OF t(1)] t(2) safe by (simp add: task_fits_def)
    then have "t \<in> ?R" using t(3) by (simp add: gated_running_def)
    then show "i \<in> (\<lambda>t. the (work_call (tk_work (task_at b t)))) ` ?R" using t(2) by force
  qed
  then have "card {i. call_running b s i \<and> bc_safe (ba_calls b ! i)} \<le> card ?R"
    by (rule surj_card_le [OF fin])
  then show ?thesis using n by simp
qed

lemma unsafe_running_one:
  assumes "tasks_ok b s"
  shows "card {i. call_running b s i \<and> \<not> bc_safe (ba_calls b ! i)} \<le> 1"
proof (rule card_le_Suc0_iff_eq [THEN iffD2, folded One_nat_def])
  show "finite {i. call_running b s i \<and> \<not> bc_safe (ba_calls b ! i)}"
    by (rule finite_subset [of _ "{..<length (ba_calls b)}"]) (auto dest: running_below)
  show "\<forall>i \<in> {i. call_running b s i \<and> \<not> bc_safe (ba_calls b ! i)}.
      \<forall>j \<in> {i. call_running b s i \<and> \<not> bc_safe (ba_calls b ! i)}. i = j"
    using running_pair(2) [OF assms] by blast
qed

text \<open>Of two calls that may not overlap the second begins when the first has its result.\<close>

definition call_begun :: "batch \<Rightarrow> run_state \<Rightarrow> nat \<Rightarrow> bool" where
  "call_begun b s i \<longleftrightarrow> (\<exists>t < length (tasks b). work_call (tk_work (task_at b t)) = Some i \<and> (rn_status s t = Running \<or> rn_status s t = Fulfilled))"

definition call_ended :: "batch \<Rightarrow> run_state \<Rightarrow> nat \<Rightarrow> bool" where
  "call_ended b s i \<longleftrightarrow> (\<exists>t < length (tasks b). work_call (tk_work (task_at b t)) = Some i \<and> rn_status s t = Fulfilled)"

definition separate :: "batch \<Rightarrow> nat \<Rightarrow> nat \<Rightarrow> bool" where
  "separate b i j \<longleftrightarrow> bc_barrier (ba_calls b ! i) \<or> bc_barrier (ba_calls b ! j)
    \<or> \<not> (denied b i \<or> denied b j \<or> bc_safe (ba_calls b ! i) \<or> bc_safe (ba_calls b ! j))"

lemma separate_in_order:
  assumes "tasks_ok b s" "i < j" "\<not> recovered b i" "separate b i j" "call_begun b s j"
  shows "call_ended b s i"
proof -
  have o: "ordered_run b (rn_status s)" using assms(1) by (simp add: tasks_ok_def)
  obtain u where u: "u < length (tasks b)" "work_call (tk_work (task_at b u)) = Some j"
    "rn_status s u = Running \<or> rn_status s u = Fulfilled" using assms(5) unfolding call_begun_def by blast
  have i: "i < length (ba_calls b)" using work_below [OF u(1,2)] assms(2) by simp
  obtain t where t: "t < length (tasks b)" "tk_work (task_at b t) = (if denied b i then Record_denial i else Run_call i)"
    using task_of_call [OF i assms(3)] by blast
  have w: "work_call (tk_work (task_at b t)) = Some i" using t(2) by simp
  have "t < u" using call_order [OF t(1) u(1) w u(2)] assms(2) by simp
  moreover have "apart (task_at b t) (task_at b u)"
    using task_fits_at [OF t(1)] task_fits_at [OF u(1)] t(2) u(2) assms(4)
    by (cases "tk_work (task_at b u)") (auto simp: task_fits_def apart_def separate_def split: if_splits)
  ultimately have "rn_status s t = Fulfilled"
    using earlier_over(2) [OF o apart_ordered [OF _ u(1)]] u(3) by fastforce
  then show ?thesis using t(1) w unfolding call_ended_def by blast
qed

subsection \<open>One run\<close>

definition demo :: batch where
  "demo = \<lparr>ba_calls = [\<lparr>bc_id = ''w'', bc_barrier = False, bc_safe = False\<rparr>, \<lparr>bc_id = ''r'', bc_barrier = False, bc_safe = True\<rparr>,
      \<lparr>bc_id = ''x'', bc_barrier = True, bc_safe = True\<rparr>, \<lparr>bc_id = ''d'', bc_barrier = False, bc_safe = True\<rparr>],
    ba_prior = [], ba_denials = [''d''], ba_limit = 0, ba_detach = True\<rparr>"

definition demo_pair :: run_state where
  "demo_pair = begin_task demo 1 (begin_task demo 0 (begin_batch demo))"

definition demo_barrier :: run_state where
  "demo_barrier = begin_task demo 2 (succeed demo 1 False (succeed demo 0 False demo_pair))"

definition demo_handed :: run_state where
  "demo_handed = hand_back demo demo_barrier"

definition demo_end :: run_state where
  "demo_end = settle_rest demo (succeed demo 3 False (begin_task demo 3 (succeed demo 2 True demo_handed)))"

lemma demo_tasks: "pl_tasks (plan_of demo) =
    [\<lparr>tk_work = Run_call 0, tk_gated = False, tk_safe = False, tk_barrier = False, tk_after = []\<rparr>,
     \<lparr>tk_work = Run_call 1, tk_gated = True, tk_safe = True, tk_barrier = False, tk_after = []\<rparr>,
     \<lparr>tk_work = Run_call 2, tk_gated = True, tk_safe = True, tk_barrier = True, tk_after = [1, 0]\<rparr>,
     \<lparr>tk_work = Record_denial 3, tk_gated = False, tk_safe = True, tk_barrier = False, tk_after = [2]\<rparr>]"
  by code_simp

lemma reach_task_begin: "batch_reach b s \<Longrightarrow> can_begin b s t \<Longrightarrow> batch_reach b (begin_task b t s)"
  using reach_step step_begin by blast

lemma reach_succeed:
  "batch_reach b s \<Longrightarrow> t < length (pl_tasks (plan_of b)) \<Longrightarrow> rn_status s t = Running \<Longrightarrow> batch_reach b (succeed b t err s)"
  using reach_step step_succeed by blast

lemma demo_pair_reach: "batch_reach demo demo_pair"
proof -
  have "can_begin demo (begin_batch demo) 0" "can_begin demo (begin_task demo 0 (begin_batch demo)) 1" by code_simp+
  then show ?thesis unfolding demo_pair_def by (intro reach_task_begin reach_begin)
qed

lemma demo_barrier_reach: "batch_reach demo demo_barrier"
proof -
  have "rn_status demo_pair 0 = Running" "rn_status (succeed demo 0 False demo_pair) 1 = Running"
    "can_begin demo (succeed demo 1 False (succeed demo 0 False demo_pair)) 2" by code_simp+
  then show ?thesis unfolding demo_barrier_def
    by (intro reach_task_begin reach_succeed demo_pair_reach) (simp_all add: demo_tasks)
qed

lemma demo_handed_reach: "batch_reach demo demo_handed"
proof -
  have "rn_phase demo_barrier = Gathering" "ba_detach demo" "holes demo demo_barrier \<noteq> []" by code_simp+
  then show ?thesis unfolding demo_handed_def using reach_step [OF demo_barrier_reach] step_hand_back by blast
qed

lemma demo_end_reach: "batch_reach demo demo_end"
proof -
  let ?s = "succeed demo 3 False (begin_task demo 3 (succeed demo 2 True demo_handed))"
  have "rn_status demo_handed 2 = Running" "can_begin demo (succeed demo 2 True demo_handed) 3"
    "rn_status (begin_task demo 3 (succeed demo 2 True demo_handed)) 3 = Running" by code_simp+
  then have r: "batch_reach demo ?s" by (intro reach_succeed reach_task_begin demo_handed_reach) (simp_all add: demo_tasks)
  have "rn_handed ?s \<noteq> []" "\<not> rn_rest ?s" "completed demo ?s" by code_simp+
  then show ?thesis unfolding demo_end_def using reach_step [OF r] step_settle_rest by blast
qed

subsection \<open>Side by side and one after the other\<close>

text \<open>C9: Whenever two calls of a batch run at the same time, neither is a barrier and at least one of them is safe to
  run side by side; of the safe calls no more run than the limit allows (one, when the limit is below one), and of the others at most one.\<close>

theorem calls_side_by_side:
  assumes "batch_reach b s"
  shows "(\<forall>i j. call_running b s i \<and> call_running b s j \<and> i \<noteq> j \<longrightarrow>
      \<not> bc_barrier (ba_calls b ! i) \<and> \<not> bc_barrier (ba_calls b ! j) \<and> (bc_safe (ba_calls b ! i) \<or> bc_safe (ba_calls b ! j)))
    \<and> card {i. call_running b s i \<and> bc_safe (ba_calls b ! i)} \<le> nat (max 1 (ba_limit b))
    \<and> card {i. call_running b s i \<and> \<not> bc_safe (ba_calls b ! i)} \<le> 1"
proof (intro conjI allI impI)
  note t = reach_tasks_ok [OF assms]
  show "card {i. call_running b s i \<and> bc_safe (ba_calls b ! i)} \<le> nat (max 1 (ba_limit b))"
    using safe_running_bounded [OF t] by (simp add: permits_def)
  show "card {i. call_running b s i \<and> \<not> bc_safe (ba_calls b ! i)} \<le> 1" by (rule unsafe_running_one [OF t])
  fix i j assume "call_running b s i \<and> call_running b s j \<and> i \<noteq> j"
  then show "\<not> bc_barrier (ba_calls b ! i)" "\<not> bc_barrier (ba_calls b ! j)" "bc_safe (ba_calls b ! i) \<or> bc_safe (ba_calls b ! j)"
    using running_pair [OF t, of i j] running_pair [OF t, of j i] by simp_all
qed

lemma demo_pair_running: "call_running demo demo_pair 0" "call_running demo demo_pair 1"
proof -
  have "rn_status demo_pair 0 = Running" "rn_status demo_pair 1 = Running" by code_simp+
  then show "call_running demo demo_pair 0" "call_running demo demo_pair 1"
    unfolding call_running_def by (auto intro: exI [of _ 0] exI [of _ 1] simp: task_at_def demo_tasks)
qed

theorem calls_side_by_side_witness:
  "call_running demo demo_pair 0 \<and> call_running demo demo_pair 1 \<and> bc_safe (ba_calls demo ! 1)
    \<and> card {i. call_running demo demo_pair i \<and> bc_safe (ba_calls demo ! i)} \<le> 1"
  using calls_side_by_side [OF demo_pair_reach] demo_pair_running by (simp add: demo_def)

text \<open>C8: A call that is a barrier, or that follows one, or that is not safe and follows one that is not, begins only when
  the earlier call has ended with its result; a recovered call has its result before the batch begins.\<close>

theorem calls_in_order:
  assumes "batch_reach b s" "i < j" "call_begun b s j"
    and "bc_barrier (ba_calls b ! i) \<or> bc_barrier (ba_calls b ! j)
      \<or> \<not> (denied b i \<or> denied b j \<or> bc_safe (ba_calls b ! i) \<or> bc_safe (ba_calls b ! j))"
  shows "rn_results s i \<noteq> None \<and> (recovered b i \<or> call_ended b s i)"
proof (cases "recovered b i")
  case True
  obtain u where "u < length (tasks b)" "work_call (tk_work (task_at b u)) = Some j" using assms(3) unfolding call_begun_def by blast
  then have "i < length (ba_calls b)" using work_below assms(2) by fastforce
  then show ?thesis using answers_okD(2) [OF reach_answers_ok [OF assms(1)]] True by (simp add: answered_def)
next
  case False
  have e: "call_ended b s i"
    using separate_in_order [OF reach_tasks_ok [OF assms(1)] assms(2) False _ assms(3)] assms(4) by (simp add: separate_def)
  then show ?thesis using answers_okD(3) [OF reach_answers_ok [OF assms(1)]] unfolding call_ended_def answered_def by blast
qed

lemma demo_barrier_begun: "call_begun demo demo_barrier 2"
proof -
  have "rn_status demo_barrier 2 = Running" by code_simp
  then show ?thesis unfolding call_begun_def by (auto intro: exI [of _ 2] simp: task_at_def demo_tasks)
qed

theorem calls_in_order_witness: "call_begun demo demo_barrier 2 \<and> rn_results demo_barrier 1 \<noteq> None \<and> call_ended demo demo_barrier 1"
  using calls_in_order [OF demo_barrier_reach, of 1 2] demo_barrier_begun by (auto simp: demo_def recovered_def)

subsection \<open>Answers\<close>

text \<open>C10: A batch that returns answers each of its calls exactly once and in the order of the calls: a recovered call with
  the recorded result, a denied one with its refusal or the notice that it has not begun, any other with what it returned or the notice
  that it is still to come. The fallback for a call without a result is never used.\<close>

theorem batch_answers_every_call:
  assumes "batch_reach b s" "rn_phase s = Returned"
  shows "\<exists>outs. messages b s = map Some outs \<and> map oc_call outs = map bc_id (ba_calls b) \<and>
    (\<forall>out \<in> set outs. case oc_kind out of
        Recovered \<Rightarrow> oc_call out \<in> set (ba_prior b)
      | Refused \<Rightarrow> oc_call out \<notin> set (ba_prior b) \<and> oc_call out \<in> set (ba_denials b)
      | Ran err \<Rightarrow> oc_call out \<notin> set (ba_prior b) \<and> oc_call out \<notin> set (ba_denials b)
      | Still_running begun \<Rightarrow> oc_call out \<notin> set (ba_prior b) \<and> (begun \<longrightarrow> oc_call out \<notin> set (ba_denials b))
      | Failed_late \<Rightarrow> False | Lost \<Rightarrow> False)"
proof (intro exI conjI ballI)
  let ?n = "length (ba_calls b)"
  let ?outs = "map (\<lambda>i. the (rn_results s i)) [0..<?n]"
  note ok = reach_answers_ok [OF assms(1)]
  have has: "rn_results s i = Some (the (rn_results s i))" if "i < ?n" for i
    using answers_okD(4) [OF ok assms(2) that] by (auto simp: answered_def)
  have good: "outcome_ok b i (the (rn_results s i))" if "i < ?n" for i
    using answers_okD(1) [OF ok] has [OF that] that unfolding sound_results_def by blast
  show "messages b s = map Some ?outs" using has by (simp add: messages_def)
  have "map oc_call ?outs = map (call_id b) [0..<?n]" using good by (simp add: outcome_ok_def)
  also have "\<dots> = map bc_id (ba_calls b)" by (intro nth_equalityI) (simp_all add: call_id_def)
  finally show "map oc_call ?outs = map bc_id (ba_calls b)" .
  fix out assume "out \<in> set ?outs"
  then obtain i where "i < ?n" "out = the (rn_results s i)" by auto
  then have "outcome_ok b i out" using good by blast
  then show "case oc_kind out of
        Recovered \<Rightarrow> oc_call out \<in> set (ba_prior b)
      | Refused \<Rightarrow> oc_call out \<notin> set (ba_prior b) \<and> oc_call out \<in> set (ba_denials b)
      | Ran err \<Rightarrow> oc_call out \<notin> set (ba_prior b) \<and> oc_call out \<notin> set (ba_denials b)
      | Still_running begun \<Rightarrow> oc_call out \<notin> set (ba_prior b) \<and> (begun \<longrightarrow> oc_call out \<notin> set (ba_denials b))
      | Failed_late \<Rightarrow> False | Lost \<Rightarrow> False"
    by (auto simp: outcome_ok_def recovered_def denied_def split: outcome_kind.splits)
qed

theorem batch_answers_every_call_witness:
  "\<exists>outs. messages demo demo_handed = map Some outs \<and> map oc_call outs = [''w'', ''r'', ''x'', ''d'']"
proof -
  have "rn_phase demo_handed = Returned" by code_simp
  then show ?thesis using batch_answers_every_call [OF demo_handed_reach] by (auto simp: demo_def)
qed

text \<open>C11: No run of a batch goes on for ever or stops short: each transition lowers the number of steps left, at most three
  for a task and two more, and in a reachable state without a transition the batch has returned or thrown, every task has settled
  and no call that was handed back is still open.\<close>

theorem batch_ends:
  assumes "batch_reach b s"
  shows "(\<forall>s'. batch_step b s s' \<longrightarrow> steps_left b s' < steps_left b s)
    \<and> steps_left b (begin_batch b) = 3 * length (pl_tasks (plan_of b)) + 2
    \<and> ((\<forall>s'. \<not> batch_step b s s') \<longrightarrow> (rn_phase s = Returned \<or> rn_phase s = Threw)
        \<and> (\<forall>t < length (pl_tasks (plan_of b)). settled s t) \<and> rn_open s = [])"
proof (intro conjI allI impI)
  note t = reach_tasks_ok [OF assms]
  show "steps_left b s' < steps_left b s" if "batch_step b s s'" for s' by (rule step_lighter [OF that t])
  show "steps_left b (begin_batch b) = 3 * length (pl_tasks (plan_of b)) + 2" by (rule weight_of_begin)
  assume "\<forall>s'. \<not> batch_step b s s'"
  then have stuck: "stuck b s" by (simp add: stuck_def)
  show "rn_phase s = Returned \<or> rn_phase s = Threw" using stuck_end(2) [OF stuck t] by (cases "rn_phase s") auto
  show "settled s u" if "u < length (pl_tasks (plan_of b))" for u
    using stuck_settled [OF stuck t that] by (simp add: over_def settled_def)
  have late: "late_ok s" by (rule reach_late_ok [OF assms])
  have "set (rn_handed s) \<subseteq> set (rn_reported s)"
    using stuck_end(3) [OF stuck t] reports_okD(3) [OF reach_reports_ok [OF assms]] by auto
  then show "rn_open s = []" using late by (cases "rn_open s") (auto simp: late_ok_def)
qed

theorem batch_ends_witness: "steps_left demo (begin_batch demo) = 14 \<and> (\<exists>s'. batch_step demo (begin_batch demo) s' \<and> steps_left demo s' < 14)"
proof -
  have "can_begin demo (begin_batch demo) 0" by code_simp
  then have "batch_step demo (begin_batch demo) (begin_task demo 0 (begin_batch demo))" by (rule step_begin)
  then show ?thesis using batch_ends [OF reach_begin [of demo]] by (auto simp: demo_tasks)
qed

subsection \<open>Calls handed back\<close>

text \<open>C12: A call that was handed back as still running is at every moment either open or has arrived, exactly once, whatever
  ends first, and none is open when the rest of the batch is settled. What arrives of a call is how its execution came
  to its end, which happens once for each: with the tool's own result or error, or with a rejection of the host. The
  only other report says that the call was lost: of a denied call, or once the batch has failed.\<close>

theorem handed_back_reported_once:
  assumes "batch_history b h s"
  shows "distinct (rn_open s @ map oc_call (rn_arrived s)) \<and> set (rn_handed s) = set (rn_open s @ map oc_call (rn_arrived s))
    \<and> (rn_rest s \<longrightarrow> rn_open s = []) \<and> distinct (map fst h)
    \<and> (\<forall>out \<in> set (rn_arrived s).
          (told b h out \<and> oc_call out \<notin> set (ba_prior b) \<and> oc_call out \<notin> set (ba_denials b))
        \<or> (oc_kind out = Lost \<and> (oc_call out \<in> set (ba_denials b) \<or> failed b s)))"
proof (intro conjI ballI impI)
  note reach = history_reach [OF assms]
  note late = reach_late_ok [OF reach] and ok = reach_reports_ok [OF reach] and past = history_kept [OF assms]
  show "distinct (rn_open s @ map oc_call (rn_arrived s))" "set (rn_handed s) = set (rn_open s @ map oc_call (rn_arrived s))"
    using late by (simp_all add: late_ok_def)
  show "rn_open s = []" if "rn_rest s"
    using reports_okD(3) [OF ok that] late by (cases "rn_open s") (auto simp: late_ok_def)
  show "distinct (map fst h)" using past by (simp add: history_ok_def)
  show "(told b h out \<and> oc_call out \<notin> set (ba_prior b) \<and> oc_call out \<notin> set (ba_denials b))
      \<or> (oc_kind out = Lost \<and> (oc_call out \<in> set (ba_denials b) \<or> failed b s))" if out: "out \<in> set (rn_arrived s)" for out
  proof -
    have "told b h out \<or> oc_kind out = Lost" using past out by (simp add: history_ok_def)
    then show ?thesis using reports_okD(2) [OF ok out]
      by (auto simp: report_ok_def may_start_def told_def split: outcome_kind.splits option.splits)
  qed
qed

lemma history_task_begin: "batch_history b h s \<Longrightarrow> can_begin b s t \<Longrightarrow> batch_history b h (begin_task b t s)"
  using history_move [of b h s None] move_begin by (simp add: of_option_def)

lemma history_succeed:
  "batch_history b h s \<Longrightarrow> t < length (pl_tasks (plan_of b)) \<Longrightarrow> rn_status s t = Running
    \<Longrightarrow> batch_history b (h @ [(t, Some err)]) (succeed b t err s)"
  using history_move [of b h s "Some (t, Some err)"] move_succeed by (simp add: of_option_def)

lemma demo_history: "batch_history demo ((([] @ [(0, Some False)]) @ [(1, Some False)]) @ [(2, Some True)]) (succeed demo 2 True demo_handed)"
proof -
  have c: "can_begin demo (begin_batch demo) 0" "can_begin demo (begin_task demo 0 (begin_batch demo)) 1"
    "rn_status demo_pair 0 = Running" "rn_status (succeed demo 0 False demo_pair) 1 = Running"
    "can_begin demo (succeed demo 1 False (succeed demo 0 False demo_pair)) 2"
    "rn_phase demo_barrier = Gathering" "ba_detach demo" "holes demo demo_barrier \<noteq> []" "rn_status demo_handed 2 = Running"
    by code_simp+
  have p: "batch_history demo [] demo_pair"
    using c(1,2) unfolding demo_pair_def by (intro history_task_begin history_begin)
  have "batch_history demo (([] @ [(0, Some False)]) @ [(1, Some False)]) demo_barrier"
    using c(3-5) unfolding demo_barrier_def by (intro history_task_begin history_succeed p) (simp_all add: demo_tasks)
  from history_move [OF this move_hand_back [OF c(6-8)]]
  have "batch_history demo (([] @ [(0, Some False)]) @ [(1, Some False)]) demo_handed"
    by (simp add: of_option_def demo_handed_def)
  from history_succeed [OF this _ c(9)] show ?thesis by (simp add: demo_tasks)
qed

theorem handed_back_reported_once_witness:
  "rn_handed (succeed demo 2 True demo_handed) = [''x'', ''d''] \<and> rn_open (succeed demo 2 True demo_handed) = [''d'']
    \<and> told demo [(0, Some False), (1, Some False), (2, Some True)] \<lparr>oc_call = ''x'', oc_kind = Ran True\<rparr>"
proof -
  have "rn_handed (succeed demo 2 True demo_handed) = [''x'', ''d'']" "rn_open (succeed demo 2 True demo_handed) = [''d'']"
    "rn_arrived (succeed demo 2 True demo_handed) = [\<lparr>oc_call = ''x'', oc_kind = Ran True\<rparr>]" by code_simp+
  then show ?thesis using handed_back_reported_once [OF demo_history] by simp
qed

text \<open>C13: A denied call that waits behind others when the operator writes is handed back as one that has not begun, and in the end it is
  reported as lost with a failed batch, although the batch has not failed and its refusal was recorded: recording a refusal reports nothing.\<close>

theorem denied_call_reported_as_lost:
  assumes "batch_reach b s" "rn_rest s" "k \<in> set (rn_handed s)" "k \<in> set (ba_denials b)"
  shows "\<lparr>oc_call = k, oc_kind = Lost\<rparr> \<in> set (rn_arrived s)"
proof -
  note late = reach_late_ok [OF assms(1)] and ok = reach_reports_ok [OF assms(1)]
  have "k \<in> oc_call ` set (rn_arrived s)"
    using reports_okD(3) [OF ok assms(2)] assms(3) late by (auto simp: late_ok_def)
  then obtain out where out: "out \<in> set (rn_arrived s)" "oc_call out = k" by blast
  then have "oc_kind out = Lost"
    using reports_okD(2) [OF ok out(1)] assms(4) by (auto simp: report_ok_def may_start_def split: outcome_kind.splits)
  then have "out = \<lparr>oc_call = k, oc_kind = Lost\<rparr>" using out(2) by (cases out) simp
  then show ?thesis using out(1) by simp
qed

theorem denied_call_reported_as_lost_witness:
  "\<not> failed demo demo_end \<and> rn_results demo_end 3 = Some \<lparr>oc_call = ''d'', oc_kind = Refused\<rparr>
    \<and> \<lparr>oc_call = ''d'', oc_kind = Lost\<rparr> \<in> set (rn_arrived demo_end)"
proof -
  have "rn_rest demo_end" "\<not> failed demo demo_end" "rn_results demo_end 3 = Some \<lparr>oc_call = ''d'', oc_kind = Refused\<rparr>"
    "''d'' \<in> set (rn_handed demo_end)" "''d'' \<in> set (ba_denials demo)" by code_simp+
  then show ?thesis using denied_call_reported_as_lost [OF demo_end_reach, of "''d''"] by blast
qed

end
