(* ===== verification/Usage.thy ===== *)
theory Usage
  imports Prelude
begin

text \<open>
  Token usage, as \<open>types/common/index.ts\<close> declares it and as the ledger
  (\<open>store/budget/ledger.ts\<close>) checks, adds and merges it. Also the entity ids
  (\<open>utils/id-format.ts\<close>) and the ledger's errors.
\<close>

subsection \<open>Entity ids\<close>

definition is_hex :: "char \<Rightarrow> bool" where
  "is_hex c \<longleftrightarrow> c \<in> set ''0123456789abcdefABCDEF''"

text \<open>
  The pattern of \<open>entityIdPattern\<close>: 8-4-4-4-12 hex digits, a version digit
  1 to 8 and a variant digit, nothing before or after.
\<close>

definition is_uuid :: "string \<Rightarrow> bool" where
  "is_uuid s \<longleftrightarrow>
     length s = 36
     \<and> (\<forall>i \<in> set [0..<36].
          (if i \<in> {8, 13, 18, 23} then s ! i = CHR ''-''
           else if i = 14 then s ! i \<in> set ''12345678''
           else if i = 19 then s ! i \<in> set ''89abAB''
           else is_hex (s ! i)))"

subsection \<open>Errors the ledger throws\<close>

datatype ledger_error =
    InvalidCount string               \<comment> \<open>expected a nonnegative safe integer\<close>
  | ExpectedObject string
  | ExpectedUuid string
  | OldSnapshotVersion
  | NotATokenBudget
  | UnsupportedSnapshotVersion
  | InvalidAccountsOrRequests
  | InvalidPoisonedFlag
  | InvalidSettledFlag
  | TurnInTwoAccounts
  | BoundTurnWithoutUsage
  | UnboundWithUsage
  | DuplicateAccount
  | InvalidRootAccount
  | LimitDisagreesWithRoot
  | CycleInAccounts
  | DisconnectedAccount
  | InvalidUnresolvedMarker
  | DuplicateRequest
  | RequestWithoutOwningTurn
  | MultipleRequestsOnAccount
  | RequestExceedsWatermark
  | UnknownAccount
  | AccountOutsideSubtree
  | TurnBelongsToAnother
  | BindingImmutable
  | BudgetSettled
  | RequestInFlight
  | CannotReserve
  | CannotWiden
  | AdmissionBlocked
  | BudgetExhausted
  | TurnNotBound
  | UnboundSettlesUsage
  | ReceiptOfAnother
  | UnknownRequest
  | PersistenceFailed

text \<open>\<open>count\<close> on a value that is a number.\<close>

definition count_int :: "int \<Rightarrow> string \<Rightarrow> (ledger_error, int) outcome" where
  "count_int n what = (if safe_count n then Inr n else Inl (InvalidCount what))"

fun count_json :: "json \<Rightarrow> string \<Rightarrow> (ledger_error, int) outcome" where
  "count_json (JNum n) what = count_int n what"
| "count_json _ what = Inl (InvalidCount what)"

fun object_json :: "json \<Rightarrow> string \<Rightarrow> (ledger_error, (string \<times> json) list) outcome" where
  "object_json (JObj fields) what = Inr fields"
| "object_json _ what = Inl (ExpectedObject what)"

text \<open>\<open>uuid\<close>, \<open>turnId\<close> and \<open>sessionId\<close> accept the same strings.\<close>

fun uuid_json :: "json \<Rightarrow> string \<Rightarrow> (ledger_error, string) outcome" where
  "uuid_json (JStr s) what = (if is_uuid s then Inr s else Inl (ExpectedUuid what))"
| "uuid_json _ what = Inl (ExpectedUuid what)"

definition check_uuid :: "string \<Rightarrow> string \<Rightarrow> (ledger_error, string) outcome" where
  "check_uuid s what = (if is_uuid s then Inr s else Inl (ExpectedUuid what))"

lemma count_int_Inr [simp]: "count_int n what = Inr m \<longleftrightarrow> safe_count n \<and> m = n"
  by (auto simp: count_int_def)

lemma check_uuid_Inr [simp]: "check_uuid s what = Inr t \<longleftrightarrow> is_uuid s \<and> t = s"
  by (auto simp: check_uuid_def)

subsection \<open>Usage\<close>

record token_usage =
  prompt_tokens :: int
  completion_tokens :: int
  total_tokens :: int
  cached_tokens :: int
  cache_write_tokens :: int
  reasoning_tokens :: "int option"

definition empty_usage :: token_usage where
  "empty_usage = \<lparr>prompt_tokens = 0, completion_tokens = 0, total_tokens = 0,
     cached_tokens = 0, cache_write_tokens = 0, reasoning_tokens = None\<rparr>"

definition accumulate_usage :: "token_usage \<Rightarrow> token_usage \<Rightarrow> token_usage" where
  "accumulate_usage c a =
     \<lparr>prompt_tokens = prompt_tokens c + prompt_tokens a,
      completion_tokens = completion_tokens c + completion_tokens a,
      total_tokens = total_tokens c + total_tokens a,
      cached_tokens = cached_tokens c + cached_tokens a,
      cache_write_tokens = cache_write_tokens c + cache_write_tokens a,
      reasoning_tokens =
        (if reasoning_tokens c \<noteq> None \<or> reasoning_tokens a \<noteq> None
         then Some (case_option 0 id (reasoning_tokens c) + case_option 0 id (reasoning_tokens a))
         else None)\<rparr>"

text \<open>
  \<open>usageValue\<close> on a usage object: every counter is a count, and the total is
  raised to the sum of prompt and completion.
\<close>

definition usage_value :: "token_usage \<Rightarrow> (ledger_error, token_usage) outcome" where
  "usage_value u =
     bindE (count_int (prompt_tokens u) ''promptTokens'') (\<lambda>p.
     bindE (count_int (completion_tokens u) ''completionTokens'') (\<lambda>c.
     bindE (count_int (total_tokens u) ''totalTokens'') (\<lambda>t.
     bindE (count_int (cached_tokens u) ''cachedTokens'') (\<lambda>ca.
     bindE (count_int (cache_write_tokens u) ''cacheWriteTokens'') (\<lambda>cw.
     bindE (case reasoning_tokens u of None \<Rightarrow> Inr None
            | Some r \<Rightarrow> bindE (count_int r ''reasoningTokens'') (\<lambda>x. Inr (Some x))) (\<lambda>r.
     bindE (count_int (p + c) ''usage component sum'') (\<lambda>s.
       Inr \<lparr>prompt_tokens = p, completion_tokens = c, total_tokens = max t s,
            cached_tokens = ca, cache_write_tokens = cw, reasoning_tokens = r\<rparr>)))))))"

text \<open>The same on a JSON value: an absent \<open>reasoningTokens\<close> stays absent.\<close>

definition usage_json :: "json \<Rightarrow> (ledger_error, token_usage) outcome" where
  "usage_json v =
     bindE (object_json v ''usage'') (\<lambda>src.
     bindE (count_json (jget src ''promptTokens'') ''promptTokens'') (\<lambda>p.
     bindE (count_json (jget src ''completionTokens'') ''completionTokens'') (\<lambda>c.
     bindE (count_json (jget src ''totalTokens'') ''totalTokens'') (\<lambda>t.
     bindE (count_json (jget src ''cachedTokens'') ''cachedTokens'') (\<lambda>ca.
     bindE (count_json (jget src ''cacheWriteTokens'') ''cacheWriteTokens'') (\<lambda>cw.
     bindE (if jget src ''reasoningTokens'' = JUndefined then Inr None
            else bindE (count_json (jget src ''reasoningTokens'') ''reasoningTokens'')
                   (\<lambda>x. Inr (Some x))) (\<lambda>r.
     bindE (count_int (p + c) ''usage component sum'') (\<lambda>s.
       Inr \<lparr>prompt_tokens = p, completion_tokens = c, total_tokens = max t s,
            cached_tokens = ca, cache_write_tokens = cw, reasoning_tokens = r\<rparr>))))))))"

definition add_usage :: "token_usage \<Rightarrow> token_usage \<Rightarrow> (ledger_error, token_usage) outcome" where
  "add_usage l r = usage_value (accumulate_usage l r)"

definition max_usage :: "token_usage \<Rightarrow> token_usage \<Rightarrow> (ledger_error, token_usage) outcome" where
  "max_usage l r = usage_value
     \<lparr>prompt_tokens = max (prompt_tokens l) (prompt_tokens r),
      completion_tokens = max (completion_tokens l) (completion_tokens r),
      total_tokens = max (total_tokens l) (total_tokens r),
      cached_tokens = max (cached_tokens l) (cached_tokens r),
      cache_write_tokens = max (cache_write_tokens l) (cache_write_tokens r),
      reasoning_tokens =
        (if reasoning_tokens l = None \<and> reasoning_tokens r = None then None
         else Some (max (case_option 0 id (reasoning_tokens l))
                        (case_option 0 id (reasoning_tokens r))))\<rparr>"

text \<open>The difference the ledger charges between two measurements of a request.\<close>

definition usage_delta :: "token_usage \<Rightarrow> token_usage \<Rightarrow> token_usage" where
  "usage_delta m obs =
     \<lparr>prompt_tokens = prompt_tokens m - prompt_tokens obs,
      completion_tokens = completion_tokens m - completion_tokens obs,
      total_tokens = total_tokens m - total_tokens obs,
      cached_tokens = cached_tokens m - cached_tokens obs,
      cache_write_tokens = cache_write_tokens m - cache_write_tokens obs,
      reasoning_tokens = (case reasoning_tokens m of None \<Rightarrow> None
        | Some x \<Rightarrow> Some (x - case_option 0 id (reasoning_tokens obs)))\<rparr>"

text \<open>
  \<open>usageAtLeast\<close> of the store: every counter the earlier usage carried is at
  least as large now; an absent counter reads 0.
\<close>

definition usage_at_least :: "token_usage option \<Rightarrow> token_usage option \<Rightarrow> bool" where
  "usage_at_least current previous =
     (case previous of None \<Rightarrow> True
      | Some p \<Rightarrow> (case current of None \<Rightarrow> False
          | Some c \<Rightarrow>
              prompt_tokens c \<ge> prompt_tokens p
              \<and> completion_tokens c \<ge> completion_tokens p
              \<and> total_tokens c \<ge> total_tokens p
              \<and> cached_tokens c \<ge> cached_tokens p
              \<and> cache_write_tokens c \<ge> cache_write_tokens p
              \<and> (case reasoning_tokens p of None \<Rightarrow> True
                 | Some r \<Rightarrow> case_option 0 id (reasoning_tokens c) \<ge> r)))"

subsection \<open>Usage facts\<close>

text \<open>What \<open>usageValue\<close> returns: counts, and a total no smaller than its parts.\<close>

definition usage_ok :: "token_usage \<Rightarrow> bool" where
  "usage_ok u \<longleftrightarrow>
     safe_count (prompt_tokens u) \<and> safe_count (completion_tokens u)
     \<and> safe_count (total_tokens u) \<and> safe_count (cached_tokens u)
     \<and> safe_count (cache_write_tokens u)
     \<and> (case reasoning_tokens u of None \<Rightarrow> True | Some r \<Rightarrow> safe_count r)
     \<and> prompt_tokens u + completion_tokens u \<le> total_tokens u"

lemma usage_ok_empty [simp]: "usage_ok empty_usage"
  by (simp add: usage_ok_def empty_usage_def)

lemma usage_ok_nonneg:
  assumes "usage_ok u"
  shows "0 \<le> prompt_tokens u" "0 \<le> completion_tokens u" "0 \<le> total_tokens u"
    "0 \<le> cached_tokens u" "0 \<le> cache_write_tokens u"
  using assms by (simp_all add: usage_ok_def safe_count_def)

lemma usage_value_Inr:
  "usage_value u = Inr v \<longleftrightarrow>
     safe_count (prompt_tokens u) \<and> safe_count (completion_tokens u)
     \<and> safe_count (total_tokens u) \<and> safe_count (cached_tokens u)
     \<and> safe_count (cache_write_tokens u)
     \<and> (case reasoning_tokens u of None \<Rightarrow> True | Some r \<Rightarrow> safe_count r)
     \<and> safe_count (prompt_tokens u + completion_tokens u)
     \<and> v = u\<lparr>total_tokens := max (total_tokens u) (prompt_tokens u + completion_tokens u)\<rparr>"
  by (cases "reasoning_tokens u") (auto simp: usage_value_def result_simps)

lemma usage_value_ok: "usage_value u = Inr v \<Longrightarrow> usage_ok v"
  by (auto simp: usage_value_Inr usage_ok_def safe_count_max)

lemma usage_value_id: "usage_ok u \<Longrightarrow> usage_value u = Inr u"
  unfolding usage_value_Inr
  by (auto simp: usage_ok_def max_absorb1 safe_count_def)

lemma max_usage_ok: "max_usage l r = Inr v \<Longrightarrow> usage_ok v"
  by (auto simp: max_usage_def dest: usage_value_ok)

lemma add_usage_ok: "add_usage l r = Inr v \<Longrightarrow> usage_ok v"
  by (auto simp: add_usage_def dest: usage_value_ok)

lemma usage_at_least_refl [simp]: "usage_at_least (Some u) (Some u)"
  by (auto simp: usage_at_least_def split: option.splits)

lemma usage_at_least_None [simp]: "usage_at_least u None"
  by (simp add: usage_at_least_def)

lemma usage_at_least_opt_refl [simp]: "usage_at_least u u"
  by (cases u) auto

lemma max_usage_at_least:
  "max_usage l r = Inr v \<Longrightarrow> usage_at_least (Some v) (Some l)"
  by (auto simp: max_usage_def usage_value_Inr usage_at_least_def split: option.splits)

lemma max_usage_total:
  "usage_ok l \<Longrightarrow> max_usage l r = Inr v \<Longrightarrow> total_tokens l \<le> total_tokens v"
  by (auto simp: max_usage_def usage_value_Inr)

text \<open>A merge with a usage that is no larger anywhere changes nothing.\<close>

lemma max_usage_absorb:
  assumes "usage_ok l" and "usage_at_least (Some l) (Some r)"
    and "reasoning_tokens l = None \<Longrightarrow> reasoning_tokens r = None"
  shows "max_usage l r = Inr l"
  using assms unfolding max_usage_def usage_value_Inr
  by (cases "reasoning_tokens l"; cases "reasoning_tokens r")
    (auto simp: usage_ok_def usage_at_least_def max_absorb1 safe_count_def)

lemma accumulate_delta_at_least:
  assumes "usage_ok p" and "usage_at_least (Some m) (Some obs)"
    and "add_usage p (usage_delta m obs) = Inr v"
    and "\<And>r. reasoning_tokens m = Some r \<Longrightarrow> case_option 0 id (reasoning_tokens obs) \<le> r"
  shows "usage_at_least (Some v) (Some p)"
  using assms
  by (cases "reasoning_tokens p"; cases "reasoning_tokens m")
    (auto simp: add_usage_def usage_value_Inr accumulate_usage_def usage_delta_def
      usage_at_least_def le_max_iff_disj split: option.splits)

lemma empty_usage_delta [simp]:
  "total_tokens (usage_delta m empty_usage) = total_tokens m"
  by (simp add: usage_delta_def empty_usage_def)

end
