(* ===== verification/Ledger.thy ===== *)
theory Ledger
  imports Usage
begin

text \<open>
  The session token budget of \<open>store/budget/ledger.ts\<close>: the shared ledger of a
  root turn, the accounts of the turn and of every child session turn under it,
  the requests in flight and the receipts of finished ones, and every method of
  \<open>SessionTokenBudget\<close>. A handle of the class is the ledger and an account id;
  each method takes both and returns the ledger it leaves, error or not.
\<close>

subsection \<open>State\<close>

record account =
  acc_id :: string
  acc_parent :: "string option"
  acc_limit :: int
  acc_settled :: bool
  acc_turn :: "(string \<times> string) option"        \<comment> \<open>session id, turn id\<close>
  acc_usage :: "(string \<times> token_usage) list"    \<comment> \<open>keyed by turn id\<close>

record request =
  req_id :: string
  req_account :: string
  req_turn :: string
  req_usage :: "token_usage option"
  req_unresolved :: bool

record snapshot =
  sn_root_session :: string
  sn_root_turn :: string
  sn_limit :: int
  sn_root_account :: string
  sn_accounts :: "account list"
  sn_requests :: "request list"
  sn_completed :: "request list"
  sn_poisoned :: bool

text \<open>
  The ledger shared by all handles. \<open>lg_queue\<close> holds the snapshots chained onto
  \<open>writes\<close> and not yet saved, \<open>lg_stored\<close> the last one a save accepted;
  \<open>lg_persistent\<close> says whether a persistence was given.
\<close>

record ledger =
  lg_root :: string
  lg_root_session :: string
  lg_root_turn :: string
  lg_accounts :: "account list"
  lg_requests :: "request list"
  lg_finished :: "request list"
  lg_poisoned :: bool
  lg_persistent :: bool
  lg_queue :: "snapshot list"
  lg_stored :: "snapshot option"
  lg_persist_error :: bool

text \<open>A token amount that may be \<open>Number.POSITIVE_INFINITY\<close>.\<close>

datatype amount = Tokens int | Infinite

fun amount_min :: "amount \<Rightarrow> amount \<Rightarrow> amount" where
  "amount_min Infinite b = b"
| "amount_min a Infinite = a"
| "amount_min (Tokens m) (Tokens n) = Tokens (min m n)"

fun amount_plus :: "amount \<Rightarrow> int \<Rightarrow> amount" where
  "amount_plus Infinite n = Infinite"
| "amount_plus (Tokens m) n = Tokens (m + n)"

fun amount_max0 :: "amount \<Rightarrow> amount" where
  "amount_max0 Infinite = Infinite"
| "amount_max0 (Tokens m) = Tokens (max 0 m)"

text \<open>\<open>covers a n\<close>: \<open>n\<close> tokens are no more than the amount \<open>a\<close>.\<close>

fun covers :: "amount \<Rightarrow> int \<Rightarrow> bool" where
  "covers Infinite n = True"
| "covers (Tokens m) n = (n \<le> m)"

subsection \<open>Reading the tree of accounts\<close>

definition find_account :: "ledger \<Rightarrow> string \<Rightarrow> account option" where
  "find_account L i = kfind acc_id i (lg_accounts L)"

definition children :: "ledger \<Rightarrow> account \<Rightarrow> account list" where
  "children L a = filter (\<lambda>c. acc_parent c = Some (acc_id a)) (lg_accounts L)"

definition has_request :: "ledger \<Rightarrow> account \<Rightarrow> bool" where
  "has_request L a \<longleftrightarrow> list_ex (\<lambda>r. req_account r = acc_id a) (lg_requests L)"

record account_totals =
  tot_own :: int
  tot_tree :: int
  tot_reserved :: int
  tot_closed :: bool

definition own_tokens :: "account \<Rightarrow> int" where
  "own_tokens a = sum_list (map (\<lambda>(_, u). total_tokens u) (acc_usage a))"

definition held_by :: "account \<Rightarrow> account_totals \<Rightarrow> int" where
  "held_by c t = (if tot_closed t then 0 else max 0 (acc_limit c - tot_tree t))"

text \<open>
  \<open>totals\<close> recurses over the children. The recursion of the source ends because
  the accounts form a tree; here it descends at most as deep as there are
  accounts, and \<open>totals_unfold\<close> (in LedgerTree) shows that this depth is always
  enough on a well-formed ledger, where the source's equation holds exactly.
\<close>

fun totals_depth :: "nat \<Rightarrow> ledger \<Rightarrow> account \<Rightarrow> account_totals" where
  "totals_depth 0 L a = \<lparr>tot_own = 0, tot_tree = 0, tot_reserved = 0, tot_closed = False\<rparr>"
| "totals_depth (Suc n) L a =
     (let kids = map (\<lambda>c. (c, totals_depth n L c)) (children L a) in
      \<lparr>tot_own = own_tokens a,
       tot_tree = own_tokens a + sum_list (map (\<lambda>(c, t). tot_tree t) kids),
       tot_reserved = sum_list (map (\<lambda>(c, t). held_by c t) kids),
       tot_closed = (acc_settled a \<and> \<not> has_request L a \<and> list_all (\<lambda>(c, t). tot_closed t) kids)\<rparr>)"

definition totals :: "ledger \<Rightarrow> account \<Rightarrow> account_totals" where
  "totals L a = totals_depth (length (lg_accounts L)) L a"

fun descendants_depth :: "nat \<Rightarrow> ledger \<Rightarrow> account \<Rightarrow> string list" where
  "descendants_depth 0 L a = [acc_id a]"
| "descendants_depth (Suc n) L a =
     acc_id a # concat (map (descendants_depth n L) (children L a))"

definition descendants :: "ledger \<Rightarrow> account \<Rightarrow> string list" where
  "descendants L a = descendants_depth (length (lg_accounts L)) L a"

text \<open>
  The accounts a loop \<open>cursor = requireAccount(cursor.parentId)\<close> visits, from the
  account itself up to the root.
\<close>

fun lineage_depth :: "nat \<Rightarrow> ledger \<Rightarrow> account \<Rightarrow> account list" where
  "lineage_depth 0 L a = [a]"
| "lineage_depth (Suc n) L a =
     a # (case acc_parent a of None \<Rightarrow> []
          | Some p \<Rightarrow> (case find_account L p of None \<Rightarrow> [] | Some b \<Rightarrow> lineage_depth n L b))"

definition lineage :: "ledger \<Rightarrow> account \<Rightarrow> account list" where
  "lineage L a = lineage_depth (length (lg_accounts L)) L a"

definition bounded :: "ledger \<Rightarrow> account \<Rightarrow> bool" where
  "bounded L a \<longleftrightarrow> list_ex (\<lambda>b. acc_limit b > 0) (lineage L a)"

definition free :: "ledger \<Rightarrow> account \<Rightarrow> amount" where
  "free L a = (if acc_limit a = 0 then Infinite
     else Tokens (acc_limit a - tot_tree (totals L a) - tot_reserved (totals L a)))"

definition uncertain_requests :: "ledger \<Rightarrow> request list" where
  "uncertain_requests L = filter req_unresolved (lg_requests L @ lg_finished L)"

definition admission_blocked :: "ledger \<Rightarrow> account \<Rightarrow> bool" where
  "admission_blocked L a \<longleftrightarrow>
     lg_poisoned L \<or> lg_persist_error L
     \<or> (uncertain_requests L \<noteq> []
        \<and> list_ex (\<lambda>b. acc_limit b > 0
             \<and> list_ex (\<lambda>r. req_account r \<in> set (descendants L b)) (uncertain_requests L))
           (lineage L a))"

text \<open>
  The climb of \<open>remaining\<close>: at each step the branch just left keeps what it
  holds, and its parent offers that and its own free tokens.
\<close>

fun climb :: "ledger \<Rightarrow> amount \<Rightarrow> account list \<Rightarrow> amount" where
  "climb L available (c # p # up) =
     climb L (amount_min available (amount_plus (free L p) (held_by c (totals L c)))) (p # up)"
| "climb L available _ = available"

definition remaining :: "ledger \<Rightarrow> account \<Rightarrow> amount" where
  "remaining L a =
     (if admission_blocked L a \<or> acc_settled a then Tokens 0
      else amount_max0 (climb L (free L a) (lineage L a)))"

subsection \<open>Snapshots and persistence\<close>

definition root_limit :: "ledger \<Rightarrow> int" where
  "root_limit L = (case find_account L (lg_root L) of None \<Rightarrow> 0 | Some r \<Rightarrow> acc_limit r)"

definition take_snapshot :: "ledger \<Rightarrow> snapshot" where
  "take_snapshot L =
     \<lparr>sn_root_session = lg_root_session L, sn_root_turn = lg_root_turn L,
      sn_limit = root_limit L, sn_root_account = lg_root L,
      sn_accounts = lg_accounts L, sn_requests = lg_requests L,
      sn_completed = lg_finished L, sn_poisoned = lg_poisoned L\<rparr>"

definition persist :: "ledger \<Rightarrow> ledger" where
  "persist L = (if lg_persistent L then L\<lparr>lg_queue := lg_queue L @ [take_snapshot L]\<rparr> else L)"

text \<open>
  One chained write: skipped after a failure; otherwise the persistence saves
  the snapshot over what it holds, or the ledger is poisoned.
\<close>

type_synonym save_rule = "snapshot option \<Rightarrow> snapshot \<Rightarrow> bool"

definition run_write :: "save_rule \<Rightarrow> snapshot \<Rightarrow> ledger \<Rightarrow> ledger" where
  "run_write save s L =
     (if lg_persist_error L then L
      else if save (lg_stored L) s then L\<lparr>lg_stored := Some s\<rparr>
      else L\<lparr>lg_persist_error := True, lg_poisoned := True\<rparr>)"

definition drain_writes :: "save_rule \<Rightarrow> ledger \<Rightarrow> ledger" where
  "drain_writes save L = (fold (run_write save) (lg_queue L) L)\<lparr>lg_queue := []\<rparr>"

definition flush_writes :: "save_rule \<Rightarrow> ledger \<Rightarrow> (ledger, ledger_error, unit) step_result" where
  "flush_writes save L =
     (let L' = drain_writes save L
      in (L', if lg_persist_error L' then Inl PersistenceFailed else Inr ()))"

text \<open>\<open>this.persist(); await this.flush(); throw error\<close>.\<close>

definition persist_and_flush :: "save_rule \<Rightarrow> ledger \<Rightarrow> (ledger, ledger_error, unit) step_result" where
  "persist_and_flush save L = flush_writes save (persist L)"

definition poison_and_throw ::
    "save_rule \<Rightarrow> ledger_error \<Rightarrow> ledger \<Rightarrow> (ledger, ledger_error, 'a) step_result" where
  "poison_and_throw save e L =
     andThen (persist_and_flush save (L\<lparr>lg_poisoned := True\<rparr>)) (\<lambda>L' _. (L', Inl e))"

subsection \<open>Helpers of the operations\<close>

text \<open>\<open>this.node\<close>: every method first finds its account.\<close>

definition with_node ::
    "ledger \<Rightarrow> string \<Rightarrow> (account \<Rightarrow> (ledger, ledger_error, 'a) step_result)
     \<Rightarrow> (ledger, ledger_error, 'a) step_result" where
  "with_node L i f = (case find_account L i of None \<Rightarrow> (L, Inl UnknownAccount) | Some a \<Rightarrow> f a)"

text \<open>A check that may throw before anything is changed.\<close>

definition guard_step ::
    "ledger \<Rightarrow> (ledger_error, 'b) outcome \<Rightarrow> ('b \<Rightarrow> (ledger, ledger_error, 'a) step_result)
     \<Rightarrow> (ledger, ledger_error, 'a) step_result" where
  "guard_step L m f = (case m of Inl e \<Rightarrow> (L, Inl e) | Inr x \<Rightarrow> f x)"

definition put_account :: "account \<Rightarrow> ledger \<Rightarrow> ledger" where
  "put_account a L = L\<lparr>lg_accounts := kput acc_id a (lg_accounts L)\<rparr>"

definition turn_of :: "account \<Rightarrow> string option" where
  "turn_of a = map_option snd (acc_turn a)"

definition own_usage_of :: "account \<Rightarrow> string option \<Rightarrow> (ledger_error, token_usage) outcome" where
  "own_usage_of a turn =
     (case turn of None \<Rightarrow> Inl TurnNotBound
      | Some t \<Rightarrow> (case map_of (acc_usage a) t of None \<Rightarrow> Inl TurnNotBound | Some u \<Rightarrow> Inr u))"

definition tree_total :: "ledger \<Rightarrow> int" where
  "tree_total L = (case find_account L (lg_root L) of None \<Rightarrow> 0 | Some r \<Rightarrow> tot_tree (totals L r))"

definition check_aggregate :: "ledger \<Rightarrow> token_usage \<Rightarrow> token_usage \<Rightarrow> (ledger_error, int) outcome" where
  "check_aggregate L previous next_u =
     count_int (tree_total L - total_tokens previous + total_tokens next_u) ''tree usage''"

definition set_usage :: "string \<Rightarrow> token_usage \<Rightarrow> account \<Rightarrow> account" where
  "set_usage t u a = a\<lparr>acc_usage := AList.update t u (acc_usage a)\<rparr>"

text \<open>
  \<open>recordRequestUsage\<close>: charge to the account only what this measurement adds to
  the request's earlier one. Returns the changed account and request; on an
  error neither has changed.
\<close>

definition record_request_usage ::
    "ledger \<Rightarrow> account \<Rightarrow> request \<Rightarrow> token_usage \<Rightarrow> (ledger_error, account \<times> request) outcome" where
  "record_request_usage L a r usage =
     (let observed = case_option empty_usage id (req_usage r) in
      bindE (bindE (usage_value usage) (max_usage observed)) (\<lambda>measured.
      bindE (own_usage_of a (Some (req_turn r))) (\<lambda>previous.
      bindE (add_usage previous (usage_delta measured observed)) (\<lambda>next_u.
      bindE (check_aggregate L previous next_u) (\<lambda>_.
        Inr (set_usage (req_turn r) next_u a, r\<lparr>req_usage := Some measured\<rparr>))))))"

definition has_receipt :: "ledger \<Rightarrow> string \<Rightarrow> string \<Rightarrow> (ledger_error, request option) outcome" where
  "has_receipt L i rid =
     (case kfind req_id rid (lg_finished L) of None \<Rightarrow> Inr None
      | Some r \<Rightarrow> if req_account r \<noteq> i then Inl ReceiptOfAnother else Inr (Some r))"

definition require_request :: "ledger \<Rightarrow> string \<Rightarrow> string \<Rightarrow> (ledger_error, request) outcome" where
  "require_request L i rid =
     (case kfind req_id rid (lg_requests L) of None \<Rightarrow> Inl UnknownRequest
      | Some r \<Rightarrow> if req_account r \<noteq> i then Inl UnknownRequest else Inr r)"

definition retain_unresolved :: "request \<Rightarrow> ledger \<Rightarrow> ledger" where
  "retain_unresolved r L =
     L\<lparr>lg_requests := kdel req_id (req_id r) (lg_requests L),
       lg_finished := kput req_id (r\<lparr>req_unresolved := True\<rparr>) (lg_finished L)\<rparr>"

subsection \<open>Operations of a handle\<close>

text \<open>\<open>SessionTokenBudget.create\<close>; \<open>fresh\<close> is the id \<open>uuidv7\<close> returns.\<close>

definition create_ledger ::
    "string \<Rightarrow> bool \<Rightarrow> int \<Rightarrow> string \<Rightarrow> string \<Rightarrow> (ledger_error, ledger) outcome" where
  "create_ledger fresh persistent limit session turn =
     bindE (count_int limit ''limit'') (\<lambda>_.
     bindE (check_uuid session ''root session id'') (\<lambda>s.
     bindE (check_uuid turn ''root turn id'') (\<lambda>t.
       Inr (persist \<lparr>lg_root = fresh, lg_root_session = s, lg_root_turn = t,
         lg_accounts = [\<lparr>acc_id = fresh, acc_parent = None, acc_limit = limit,
           acc_settled = False, acc_turn = Some (s, t), acc_usage = [(t, empty_usage)]\<rparr>],
         lg_requests = [], lg_finished = [], lg_poisoned = False,
         lg_persistent = persistent, lg_queue = [], lg_stored = None,
         lg_persist_error = False\<rparr>))))"

text \<open>\<open>account\<close>: a handle on an account of this subtree.\<close>

definition sub_account :: "ledger \<Rightarrow> string \<Rightarrow> string \<Rightarrow> (ledger_error, string) outcome" where
  "sub_account L i j =
     (case find_account L i of None \<Rightarrow> Inl UnknownAccount
      | Some a \<Rightarrow> if j \<in> set (descendants L a) then Inr j else Inl AccountOutsideSubtree)"

definition find_turn :: "ledger \<Rightarrow> string \<Rightarrow> string \<Rightarrow> (ledger_error, string option) outcome" where
  "find_turn L i t =
     (case find_account L i of None \<Rightarrow> Inl UnknownAccount
      | Some a \<Rightarrow>
          (case List.find (\<lambda>b. acc_id b \<in> set (descendants L a) \<and> map_of (acc_usage b) t \<noteq> None)
                  (lg_accounts L) of
             None \<Rightarrow> Inr None | Some b \<Rightarrow> bindE (sub_account L i (acc_id b)) (\<lambda>j. Inr (Some j))))"

definition bind_turn ::
    "ledger \<Rightarrow> string \<Rightarrow> string \<Rightarrow> string \<Rightarrow> (ledger, ledger_error, unit) step_result" where
  "bind_turn L i session turn =
     guard_step L (check_uuid session ''bound session id'') (\<lambda>_.
     guard_step L (check_uuid turn ''bound turn id'') (\<lambda>_.
     guard_step L (case List.find (\<lambda>b. map_of (acc_usage b) turn \<noteq> None) (lg_accounts L) of
                     None \<Rightarrow> Inr () | Some b \<Rightarrow> require (acc_id b = i) TurnBelongsToAnother) (\<lambda>_.
     with_node L i (\<lambda>a.
     guard_step L (case acc_turn a of None \<Rightarrow> Inr ()
                   | Some (s, t) \<Rightarrow> require (t = turn \<and> s = session) BindingImmutable) (\<lambda>_.
     guard_step L (require (\<not> (acc_settled a \<and> acc_turn a = None)) BudgetSettled) (\<lambda>_.
       (persist (put_account
          (a\<lparr>acc_turn := Some (session, turn),
             acc_usage := (if map_of (acc_usage a) turn = None
                           then AList.update turn empty_usage (acc_usage a) else acc_usage a)\<rparr>) L),
        Inr ())))))))"

definition reserve ::
    "ledger \<Rightarrow> string \<Rightarrow> string \<Rightarrow> int \<Rightarrow> (ledger, ledger_error, string) step_result" where
  "reserve L i fresh tokens =
     guard_step L (count_int tokens ''reservation'') (\<lambda>_.
     with_node L i (\<lambda>a.
     guard_step L (require (\<not> has_request L a) RequestInFlight) (\<lambda>_.
     guard_step L (require (\<not> ((tokens = 0 \<and> remaining L a \<noteq> Infinite)
                               \<or> \<not> covers (remaining L a) tokens)) CannotReserve) (\<lambda>_.
     guard_step L (count_int (tot_reserved (totals L a) + tokens) ''reserved allowance'') (\<lambda>_.
       (let L' = persist (put_account
              \<lparr>acc_id = fresh, acc_parent = Some i, acc_limit = tokens, acc_settled = False,
               acc_turn = None, acc_usage = []\<rparr> L)
        in (L', sub_account L' i fresh)))))))"

definition narrow ::
    "ledger \<Rightarrow> string \<Rightarrow> int \<Rightarrow> (ledger, ledger_error, unit) step_result" where
  "narrow L i limit =
     guard_step L (count_int limit ''limit'') (\<lambda>_.
     with_node L i (\<lambda>a.
       if limit = 0 \<or> limit = acc_limit a then (L, Inr ())
       else guard_step L (require (\<not> (acc_limit a \<noteq> 0 \<and> limit > acc_limit a)) CannotWiden) (\<lambda>_.
         (persist (put_account (a\<lparr>acc_limit := limit\<rparr>) L), Inr ()))))"

text \<open>\<open>turn\<close> is \<open>None\<close> when the argument is left to its default, this account's turn.\<close>

definition record_usage ::
    "ledger \<Rightarrow> string \<Rightarrow> token_usage \<Rightarrow> string option \<Rightarrow> (ledger, ledger_error, unit) step_result" where
  "record_usage L i usage turn =
     with_node L i (\<lambda>a.
       (let t = (case turn of None \<Rightarrow> turn_of a | Some x \<Rightarrow> Some x) in
        guard_step L (own_usage_of a t) (\<lambda>previous.
        guard_step L (bindE (usage_value usage) (max_usage previous)) (\<lambda>next_u.
        guard_step L (check_aggregate L previous next_u) (\<lambda>_.
          (persist (put_account (set_usage (the t) next_u a) L), Inr ()))))))"

definition begin_request ::
    "save_rule \<Rightarrow> ledger \<Rightarrow> string \<Rightarrow> string \<Rightarrow> (ledger, ledger_error, string) step_result" where
  "begin_request save L i fresh =
     with_node L i (\<lambda>a.
     guard_step L (require (\<not> admission_blocked L a) AdmissionBlocked) (\<lambda>_.
     guard_step L (require (\<not> acc_settled a) BudgetSettled) (\<lambda>_.
     guard_step L (require (covers (remaining L a) 1) BudgetExhausted) (\<lambda>_.
     guard_step L (case turn_of a of None \<Rightarrow> Inl TurnNotBound | Some t \<Rightarrow> Inr t) (\<lambda>t.
     guard_step L (require (\<not> has_request L a) RequestInFlight) (\<lambda>_.
       andThen (persist_and_flush save
           (L\<lparr>lg_requests := kput req_id
                \<lparr>req_id = fresh, req_account = i, req_turn = t, req_usage = None,
                 req_unresolved = False\<rparr> (lg_requests L)\<rparr>))
         (\<lambda>L' _. (L', Inr fresh))))))))"

text \<open>\<open>failRequest\<close> on a request that already has a receipt: late usage is kept.\<close>

definition fail_receipt ::
    "save_rule \<Rightarrow> ledger \<Rightarrow> string \<Rightarrow> request \<Rightarrow> token_usage option
     \<Rightarrow> (ledger, ledger_error, unit) step_result" where
  "fail_receipt save L i r usage =
     (case usage of
        Some u \<Rightarrow>
          if req_unresolved r then
            with_node L i (\<lambda>a.
              case record_request_usage L a r u of
                Inl e \<Rightarrow> poison_and_throw save e L
              | Inr (a', r') \<Rightarrow> persist_and_flush save
                  (put_account a' L\<lparr>lg_finished := kput req_id r' (lg_finished L)\<rparr>))
          else flush_writes save L
      | None \<Rightarrow> flush_writes save L)"

text \<open>\<open>failRequest\<close> on a request in flight: marked unresolved, then measured if usage came.\<close>

definition fail_active ::
    "save_rule \<Rightarrow> ledger \<Rightarrow> string \<Rightarrow> request \<Rightarrow> token_usage option
     \<Rightarrow> (ledger, ledger_error, unit) step_result" where
  "fail_active save L i r0 usage =
     (let r = r0\<lparr>req_unresolved := True\<rparr>;
          L1 = L\<lparr>lg_requests := kput req_id r (lg_requests L)\<rparr> in
      with_node L1 i (\<lambda>a.
        case (case usage of None \<Rightarrow> Inr (a, r) | Some u \<Rightarrow> record_request_usage L1 a r u) of
          Inl e \<Rightarrow> poison_and_throw save e L1
        | Inr (a', r') \<Rightarrow>
            (let L2 = put_account a' L1\<lparr>lg_requests := kput req_id r' (lg_requests L1)\<rparr> in
             persist_and_flush save (if bounded L2 a' then L2 else retain_unresolved r' L2))))"

definition fail_request ::
    "save_rule \<Rightarrow> ledger \<Rightarrow> string \<Rightarrow> string \<Rightarrow> token_usage option
     \<Rightarrow> (ledger, ledger_error, unit) step_result" where
  "fail_request save L i rid usage =
     guard_step L (has_receipt L i rid) (\<lambda>receipt.
       case receipt of
         Some r \<Rightarrow> fail_receipt save L i r usage
       | None \<Rightarrow> guard_step L (require_request L i rid) (\<lambda>r. fail_active save L i r usage))"

definition finish_request ::
    "save_rule \<Rightarrow> ledger \<Rightarrow> string \<Rightarrow> string \<Rightarrow> token_usage
     \<Rightarrow> (ledger, ledger_error, unit) step_result" where
  "finish_request save L i rid usage =
     guard_step L (has_receipt L i rid) (\<lambda>receipt.
       case receipt of
         Some r \<Rightarrow> if req_unresolved r then fail_request save L i rid (Some usage)
                   else flush_writes save L
       | None \<Rightarrow>
           guard_step L (require_request L i rid) (\<lambda>r.
             with_node L i (\<lambda>a.
               case record_request_usage L a r usage of
                 Inl e \<Rightarrow> poison_and_throw save e L
               | Inr (a', r') \<Rightarrow> persist_and_flush save
                   (put_account a' L\<lparr>lg_requests := kdel req_id rid (lg_requests L),
                      lg_finished := kput req_id r' (lg_finished L)\<rparr>))))"

text \<open>The tail of \<open>reconcileRequest\<close>: clear the marker, then the poison if nothing is in flight.\<close>

definition clear_marker :: "save_rule \<Rightarrow> string \<Rightarrow> ledger \<Rightarrow> (ledger, ledger_error, unit) step_result" where
  "clear_marker save rid L =
     (let L1 = (case kfind req_id rid (lg_finished L) of None \<Rightarrow> L
                | Some r \<Rightarrow> L\<lparr>lg_finished := kput req_id (r\<lparr>req_unresolved := False\<rparr>) (lg_finished L)\<rparr>)
      in andThen (persist_and_flush save L1) (\<lambda>L2 _.
           if lg_requests L2 = [] \<and> \<not> lg_persist_error L2
           then persist_and_flush save (L2\<lparr>lg_poisoned := False\<rparr>)
           else (L2, Inr ())))"

definition reconcile_request ::
    "save_rule \<Rightarrow> ledger \<Rightarrow> string \<Rightarrow> string \<Rightarrow> token_usage
     \<Rightarrow> (ledger, ledger_error, unit) step_result" where
  "reconcile_request save L i rid usage =
     guard_step L (usage_value usage) (\<lambda>measured.
     guard_step L (has_receipt L i rid) (\<lambda>receipt.
       andThen
         (case receipt of
            Some r \<Rightarrow> with_node L i (\<lambda>a.
              guard_step L (record_request_usage L a r measured) (\<lambda>(a', r').
                persist_and_flush save
                  (put_account a' L\<lparr>lg_finished := kput req_id r' (lg_finished L)\<rparr>)))
          | None \<Rightarrow> finish_request save L i rid measured)
         (\<lambda>L' _. clear_marker save rid L')))"

text \<open>\<open>ownUsage\<close> and \<open>settle\<close>; \<open>own_total\<close> is the optional argument of \<open>settle\<close>.\<close>

definition own_usage :: "account \<Rightarrow> (ledger_error, token_usage) outcome" where
  "own_usage a = foldE add_usage empty_usage (map snd (acc_usage a))"

definition mark_settled :: "ledger \<Rightarrow> string \<Rightarrow> (ledger, ledger_error, unit) step_result" where
  "mark_settled L i = with_node L i (\<lambda>a.
     (persist (put_account (a\<lparr>acc_settled := True\<rparr>) L), Inr ()))"

definition settle ::
    "ledger \<Rightarrow> string \<Rightarrow> int option \<Rightarrow> (ledger, ledger_error, unit) step_result" where
  "settle L i own_total =
     (case own_total of
        None \<Rightarrow> mark_settled L i
      | Some n \<Rightarrow>
          guard_step L (count_int n ''settled own tokens'') (\<lambda>_.
          with_node L i (\<lambda>a.
          guard_step L (own_usage a) (\<lambda>own.
            if n > total_tokens own then
              guard_step L (case turn_of a of None \<Rightarrow> Inl UnboundSettlesUsage | Some t \<Rightarrow> Inr t) (\<lambda>t.
              guard_step L (own_usage_of a (Some t)) (\<lambda>previous.
                andThen (record_usage L i
                    (previous\<lparr>total_tokens := total_tokens previous + n - total_tokens own\<rparr>) None)
                  (\<lambda>L' _. mark_settled L' i)))
            else mark_settled L i))))"

record budget_summary =
  sum_limit :: int
  sum_own :: int
  sum_tree :: int
  sum_reserved :: int
  sum_remaining :: "int option"     \<comment> \<open>\<open>None\<close> is the source's \<open>null\<close>: unlimited\<close>
  sum_in_flight :: nat
  sum_unsettled_children :: nat
  sum_poisoned :: bool
  sum_unresolved :: nat

definition summary :: "ledger \<Rightarrow> account \<Rightarrow> budget_summary" where
  "summary L a =
     (let t = totals L a; ds = set (descendants L a) in
      \<lparr>sum_limit = acc_limit a, sum_own = tot_own t, sum_tree = tot_tree t,
       sum_reserved = tot_reserved t,
       sum_remaining = (case remaining L a of Infinite \<Rightarrow> None | Tokens n \<Rightarrow> Some n),
       sum_in_flight = length (filter (\<lambda>r. req_account r \<in> ds) (lg_requests L)),
       sum_unsettled_children =
         length (filter (\<lambda>c. \<not> tot_closed (totals L c)) (children L a)),
       sum_poisoned = admission_blocked L a,
       sum_unresolved = length (filter (\<lambda>r. req_account r \<in> ds) (uncertain_requests L))\<rparr>)"

end
