(* ===== verification/LedgerSnapshot.thy ===== *)
theory LedgerSnapshot
  imports Ledger
begin

text \<open>
  The token-budget document: how a snapshot is written as JSON and how
  \<open>validateSessionTokenBudgetSnapshot\<close> reads one back, check by check; and
  \<open>restore\<close>, which turns a validated snapshot into a ledger.
\<close>

subsection \<open>Writing\<close>

definition encode_usage :: "token_usage \<Rightarrow> json" where
  "encode_usage u = JObj
     ([(''promptTokens'', JNum (prompt_tokens u)),
       (''completionTokens'', JNum (completion_tokens u)),
       (''totalTokens'', JNum (total_tokens u)),
       (''cachedTokens'', JNum (cached_tokens u)),
       (''cacheWriteTokens'', JNum (cache_write_tokens u))]
      @ (case reasoning_tokens u of None \<Rightarrow> [] | Some r \<Rightarrow> [(''reasoningTokens'', JNum r)]))"

definition encode_account :: "account \<Rightarrow> json" where
  "encode_account a = JObj
     ([(''id'', JStr (acc_id a))]
      @ (case acc_parent a of None \<Rightarrow> [] | Some p \<Rightarrow> [(''parentId'', JStr p)])
      @ [(''limit'', JNum (acc_limit a)), (''settled'', JBool (acc_settled a))]
      @ (case acc_turn a of None \<Rightarrow> []
         | Some (s, t) \<Rightarrow> [(''turn'', JObj [(''sessionId'', JStr s), (''turnId'', JStr t)])])
      @ [(''usage'', JObj (map (\<lambda>(t, u). (t, encode_usage u)) (acc_usage a)))])"

definition encode_request :: "request \<Rightarrow> json" where
  "encode_request r = JObj
     ([(''id'', JStr (req_id r)), (''accountId'', JStr (req_account r)), (''turnId'', JStr (req_turn r))]
      @ (case req_usage r of None \<Rightarrow> [] | Some u \<Rightarrow> [(''usage'', encode_usage u)])
      @ (if req_unresolved r then [(''unresolved'', JBool True)] else []))"

definition encode_snapshot :: "snapshot \<Rightarrow> json" where
  "encode_snapshot s = JObj
     ([(''v'', JNum 2), (''kind'', JStr ''token-budget''),
       (''rootSessionId'', JStr (sn_root_session s)), (''rootTurnId'', JStr (sn_root_turn s)),
       (''limit'', JNum (sn_limit s)), (''rootAccountId'', JStr (sn_root_account s)),
       (''accounts'', JArr (map encode_account (sn_accounts s))),
       (''requests'', JArr (map encode_request (sn_requests s))),
       (''completedRequests'', JArr (map encode_request (sn_completed s)))]
      @ (if sn_poisoned s then [(''poisoned'', JBool True)] else []))"

subsection \<open>Reading\<close>

definition check_version :: "(string \<times> json) list \<Rightarrow> (ledger_error, unit) outcome" where
  "check_version src =
     (if jget src ''v'' = JNum 2 \<and> jget src ''kind'' = JStr ''token-budget'' then Inr ()
      else if jget src ''version'' = JNum 1 then Inl OldSnapshotVersion
      else if jget src ''kind'' \<noteq> JStr ''token-budget'' then Inl NotATokenBudget
      else Inl UnsupportedSnapshotVersion)"

fun array_json :: "json \<Rightarrow> (ledger_error, json list) outcome" where
  "array_json (JArr xs) = Inr xs"
| "array_json _ = Inl InvalidAccountsOrRequests"

definition optional_bool :: "json \<Rightarrow> ledger_error \<Rightarrow> (ledger_error, bool) outcome" where
  "optional_bool v e = (case v of JUndefined \<Rightarrow> Inr False | JBool b \<Rightarrow> Inr b | _ \<Rightarrow> Inl e)"

text \<open>
  The usage of one account. \<open>owners\<close> records which account each turn was seen
  in, over the accounts read so far.
\<close>

fun parse_usages ::
    "string \<Rightarrow> (string \<times> string) list \<Rightarrow> (string \<times> token_usage) list \<Rightarrow> (string \<times> json) list
     \<Rightarrow> (ledger_error, (string \<times> string) list \<times> (string \<times> token_usage) list) outcome" where
  "parse_usages i owners usage [] = Inr (owners, usage)"
| "parse_usages i owners usage ((owner, raw) # rest) =
     bindE (check_uuid owner ''usage turn id'') (\<lambda>_.
     bindE (require (map_of owners owner = None) TurnInTwoAccounts) (\<lambda>_.
     bindE (usage_json raw) (\<lambda>u.
       parse_usages i ((owner, i) # owners) (usage @ [(owner, u)]) rest)))"

definition parse_turn ::
    "json \<Rightarrow> (string \<times> token_usage) list \<Rightarrow> (ledger_error, (string \<times> string) option) outcome" where
  "parse_turn v usage =
     (if v \<noteq> JUndefined then
        bindE (object_json v ''bound turn'') (\<lambda>bound.
        bindE (uuid_json (jget bound ''sessionId'') ''bound session id'') (\<lambda>s.
        bindE (uuid_json (jget bound ''turnId'') ''bound turn id'') (\<lambda>t.
        bindE (require (map_of usage t \<noteq> None \<and> length usage = 1) BoundTurnWithoutUsage) (\<lambda>_.
          Inr (Some (s, t))))))
      else bindE (require (length usage = 0) UnboundWithUsage) (\<lambda>_. Inr None))"

type_synonym parse_state = "(string \<times> string) list \<times> account list"

definition parse_account :: "parse_state \<Rightarrow> json \<Rightarrow> (ledger_error, parse_state) outcome" where
  "parse_account st raw =
     bindE (object_json raw ''account'') (\<lambda>src.
     bindE (uuid_json (jget src ''id'') ''account id'') (\<lambda>i.
     bindE (case jget src ''settled'' of JBool b \<Rightarrow> Inr b | _ \<Rightarrow> Inl InvalidSettledFlag) (\<lambda>settled.
     bindE (count_json (jget src ''limit'') ''limit'') (\<lambda>limit.
     bindE (object_json (jget src ''usage'') ''account usage'') (\<lambda>us.
     bindE (parse_usages i (fst st) [] us) (\<lambda>(owners, usage).
     bindE (parse_turn (jget src ''turn'') usage) (\<lambda>turn.
     bindE (if jget src ''parentId'' = JUndefined then Inr None
            else bindE (uuid_json (jget src ''parentId'') ''parent id'') (\<lambda>p. Inr (Some p))) (\<lambda>parent.
       Inr (owners, snd st @
         [\<lparr>acc_id = i, acc_parent = parent, acc_limit = limit, acc_settled = settled,
           acc_turn = turn, acc_usage = usage\<rparr>])))))))))"

text \<open>The walk from an account to the root, with the accounts visited.\<close>

function walk_to_root :: "account list \<Rightarrow> string \<Rightarrow> string list \<Rightarrow> account \<Rightarrow> (ledger_error, unit) outcome" where
  "walk_to_root accs root visited cursor =
     (if acc_id cursor = root then Inr ()
      else if acc_id cursor \<in> set visited then Inl CycleInAccounts
      else (case acc_parent cursor of None \<Rightarrow> Inl DisconnectedAccount
            | Some p \<Rightarrow> (case kfind acc_id p accs of None \<Rightarrow> Inl DisconnectedAccount
                | Some c \<Rightarrow> walk_to_root accs root (acc_id cursor # visited) c)))"
  by pat_completeness auto
termination
proof (relation "measure (\<lambda>(accs, root, visited, cursor).
    card (insert (acc_id cursor) (acc_id ` set accs) - set visited))", goal_cases)
  case (2 accs root visited cursor p c)
  then have "c \<in> set accs" by (auto dest: kfind_SomeD)
  then have "insert (acc_id c) (acc_id ` set accs) - set (acc_id cursor # visited)
      \<subset> insert (acc_id cursor) (acc_id ` set accs) - set visited"
    using 2(2) by auto
  then show ?case by (simp add: psubset_card_mono)
qed simp

declare walk_to_root.simps [simp del]

definition parse_request ::
    "(string \<times> string) list \<Rightarrow> account list \<Rightarrow> string list \<times> request list \<Rightarrow> json
     \<Rightarrow> (ledger_error, string list \<times> request list) outcome" where
  "parse_request owners accs st raw =
     bindE (object_json raw ''request'') (\<lambda>src.
     bindE (uuid_json (jget src ''id'') ''request id'') (\<lambda>i.
     bindE (uuid_json (jget src ''accountId'') ''request account id'') (\<lambda>acct.
     bindE (optional_bool (jget src ''unresolved'') InvalidUnresolvedMarker) (\<lambda>unresolved.
     bindE (uuid_json (jget src ''turnId'') ''request turn id'') (\<lambda>owner.
     bindE (require (i \<notin> set (fst st)) DuplicateRequest) (\<lambda>_.
     bindE (require (khas acc_id acct accs \<and> map_of owners owner = Some acct)
              RequestWithoutOwningTurn) (\<lambda>_.
     bindE (if jget src ''usage'' = JUndefined then Inr None
            else bindE (usage_json (jget src ''usage'')) (\<lambda>u. Inr (Some u))) (\<lambda>usage.
       Inr (i # fst st, snd st @
         [\<lparr>req_id = i, req_account = acct, req_turn = owner, req_usage = usage,
           req_unresolved = unresolved\<rparr>])))))))))"

definition check_one_request :: "string list \<Rightarrow> request \<Rightarrow> (ledger_error, string list) outcome" where
  "check_one_request seen r =
     bindE (require (req_account r \<notin> set seen) MultipleRequestsOnAccount) (\<lambda>_. Inr (req_account r # seen))"

text \<open>What the requests of a turn measured together may not exceed what the turn was charged.\<close>

definition check_measured ::
    "account list \<Rightarrow> (string \<times> token_usage) list \<Rightarrow> request \<Rightarrow> (ledger_error, (string \<times> token_usage) list) outcome" where
  "check_measured accs by_turn r =
     (case req_usage r of None \<Rightarrow> Inr by_turn
      | Some u \<Rightarrow>
          bindE (add_usage (case_option empty_usage id (map_of by_turn (req_turn r))) u) (\<lambda>m.
          (case Option.bind (kfind acc_id (req_account r) accs) (\<lambda>a. map_of (acc_usage a) (req_turn r)) of
             None \<Rightarrow> Inl RequestExceedsWatermark
           | Some own \<Rightarrow>
               bindE (require (total_tokens m \<le> total_tokens own \<and> prompt_tokens m \<le> prompt_tokens own
                   \<and> completion_tokens m \<le> completion_tokens own) RequestExceedsWatermark)
                 (\<lambda>_. Inr (AList.update (req_turn r) m by_turn)))))"

text \<open>\<open>checkReservations\<close>: the tree total and whether the account is closed, each reserve a count.\<close>

fun check_reservations ::
    "nat \<Rightarrow> account list \<Rightarrow> request list \<Rightarrow> account \<Rightarrow> (ledger_error, int \<times> bool) outcome" where
  "check_reservations 0 accs rs a = Inr (0, False)"
| "check_reservations (Suc n) accs rs a =
     bindE (mapE (\<lambda>c. bindE (check_reservations n accs rs c) (\<lambda>m. Inr (c, m)))
              (filter (\<lambda>c. acc_parent c = Some (acc_id a)) accs)) (\<lambda>ds.
     bindE (count_int (\<Sum>(c, tree, closed)\<leftarrow>ds. if closed then 0 else max 0 (acc_limit c - tree))
              ''reserved allowance'') (\<lambda>_.
       Inr (own_tokens a + (\<Sum>(c, tree, closed)\<leftarrow>ds. tree),
            acc_settled a \<and> \<not> list_ex (\<lambda>r. req_account r = acc_id a) rs
            \<and> list_all (\<lambda>(c, tree, closed). closed) ds)))"

definition check_root :: "account list \<Rightarrow> string \<Rightarrow> string \<Rightarrow> string \<Rightarrow> (ledger_error, account) outcome" where
  "check_root accs root_account session turn =
     (case kfind acc_id root_account accs of None \<Rightarrow> Inl InvalidRootAccount
      | Some r \<Rightarrow> if acc_parent r \<noteq> None \<or> acc_turn r \<noteq> Some (session, turn)
                  then Inl InvalidRootAccount else Inr r)"

definition validate_snapshot :: "json \<Rightarrow> (ledger_error, snapshot) outcome" where
  "validate_snapshot v =
     bindE (object_json v ''snapshot'') (\<lambda>src.
     bindE (check_version src) (\<lambda>_.
     bindE (uuid_json (jget src ''rootSessionId'') ''rootSessionId'') (\<lambda>session.
     bindE (uuid_json (jget src ''rootTurnId'') ''rootTurnId'') (\<lambda>turn.
     bindE (uuid_json (jget src ''rootAccountId'') ''rootAccountId'') (\<lambda>root_account.
     bindE (count_json (jget src ''limit'') ''limit'') (\<lambda>limit.
     bindE (array_json (jget src ''accounts'')) (\<lambda>raw_accounts.
     bindE (array_json (jget src ''requests'')) (\<lambda>raw_requests.
     bindE (array_json (jget src ''completedRequests'')) (\<lambda>raw_completed.
     bindE (optional_bool (jget src ''poisoned'') InvalidPoisonedFlag) (\<lambda>poisoned.
     bindE (foldE parse_account ([], []) raw_accounts) (\<lambda>(owners, accs).
     bindE (require (distinct (map acc_id accs)) DuplicateAccount) (\<lambda>_.
     bindE (check_root accs root_account session turn) (\<lambda>r.
     bindE (require (acc_limit r = limit) LimitDisagreesWithRoot) (\<lambda>_.
     bindE (mapE (walk_to_root accs root_account []) accs) (\<lambda>_.
     bindE (foldE (parse_request owners accs) ([], []) raw_requests) (\<lambda>(ids, requests).
     bindE (foldE (parse_request owners accs) (ids, []) raw_completed) (\<lambda>(_, completed).
     bindE (foldE check_one_request [] requests) (\<lambda>_.
     bindE (foldE (check_measured accs) [] (requests @ completed)) (\<lambda>_.
     bindE (foldE add_usage empty_usage (concat (map (\<lambda>a. map snd (acc_usage a)) accs))) (\<lambda>_.
     bindE (check_reservations (length accs) accs requests r) (\<lambda>_.
       Inr \<lparr>sn_root_session = session, sn_root_turn = turn, sn_limit = limit,
            sn_root_account = root_account, sn_accounts = accs, sn_requests = requests,
            sn_completed = completed, sn_poisoned = poisoned\<rparr>)))))))))))))))))))))"

subsection \<open>Restoring\<close>

definition ledger_of_snapshot :: "bool \<Rightarrow> snapshot \<Rightarrow> ledger" where
  "ledger_of_snapshot persistent s =
     \<lparr>lg_root = sn_root_account s, lg_root_session = sn_root_session s,
      lg_root_turn = sn_root_turn s, lg_accounts = sn_accounts s,
      lg_requests = map (\<lambda>r. r\<lparr>req_unresolved := True\<rparr>) (sn_requests s),
      lg_finished = sn_completed s, lg_poisoned = sn_poisoned s,
      lg_persistent = persistent, lg_queue = [],
      lg_stored = (if persistent then Some s else None), lg_persist_error = False\<rparr>"

text \<open>A request in flight on an account without a finite limit above it becomes a receipt.\<close>

definition retain_unbounded :: "request \<Rightarrow> ledger \<Rightarrow> ledger" where
  "retain_unbounded r L =
     (case find_account L (req_account r) of None \<Rightarrow> L
      | Some a \<Rightarrow> if bounded L a then L else retain_unresolved r L)"

definition restore_ledger :: "bool \<Rightarrow> snapshot \<Rightarrow> (ledger_error, ledger) outcome" where
  "restore_ledger persistent s =
     bindE (validate_snapshot (encode_snapshot s)) (\<lambda>checked.
       (let L = ledger_of_snapshot persistent checked
        in Inr (fold retain_unbounded (lg_requests L) L)))"

end
