(* ===== verification/LedgerCodec.thy ===== *)
theory LedgerCodec
  imports LedgerSnapshot
begin

text \<open>
  What validation accepts and what it returns. Each reader is related to the
  writer of the same value: a value in the shape the reader promises is read back
  from its encoding, and whatever the reader accepts has that shape. Together:
  an accepted document, written again, is accepted as the same snapshot.
\<close>

subsection \<open>Readers of one value\<close>

lemma object_json_Inr: "object_json v what = Inr fs \<longleftrightarrow> v = JObj fs"
  by (cases v) auto

lemma uuid_json_Inr: "uuid_json v what = Inr s \<longleftrightarrow> v = JStr s \<and> is_uuid s"
  by (cases v) auto

lemma count_json_Inr: "count_json v what = Inr n \<longleftrightarrow> v = JNum n \<and> safe_count n"
  by (cases v) auto

lemma array_json_Inr: "array_json v = Inr xs \<longleftrightarrow> v = JArr xs"
  by (cases v) auto

lemmas readers = object_json_Inr uuid_json_Inr count_json_Inr array_json_Inr bindE_Inr_iff

lemma jget_simps [simp]:
  "jget [] k = JUndefined"
  "jget ((k', v) # fs) k = (if k = k' then v else jget fs k)"
  by (simp_all add: jget_def)

lemma usage_json_ok: "usage_json v = Inr u \<Longrightarrow> usage_ok u"
  unfolding usage_json_def readers
  by (auto simp: usage_ok_def safe_count_max readers split: if_splits option.splits)

lemma usage_json_encode:
  assumes "usage_ok u"
  shows "usage_json (encode_usage u) = Inr u"
proof (cases "reasoning_tokens u")
  case None
  with assms have "safe_count (prompt_tokens u + completion_tokens u)"
    by (auto simp: usage_ok_def safe_count_def)
  with assms None show ?thesis
    by (auto simp: usage_json_def encode_usage_def usage_ok_def readers count_int_def max_absorb1)
next
  case (Some r)
  with assms have "safe_count (prompt_tokens u + completion_tokens u)"
    by (auto simp: usage_ok_def safe_count_def)
  with assms Some show ?thesis
    by (auto simp: usage_json_def encode_usage_def usage_ok_def readers count_int_def max_absorb1)
qed

subsection \<open>Accounts\<close>

text \<open>The shape of an account: bound to at most one turn, whose usage it holds.\<close>

definition bound_ok :: "account \<Rightarrow> bool" where
  "bound_ok a \<longleftrightarrow> (case acc_turn a of None \<Rightarrow> acc_usage a = []
     | Some (s, t) \<Rightarrow> is_uuid s \<and> is_uuid t \<and> (\<exists>u. acc_usage a = [(t, u)] \<and> usage_ok u))"

definition account_ok :: "account \<Rightarrow> bool" where
  "account_ok a \<longleftrightarrow> is_uuid (acc_id a) \<and> safe_count (acc_limit a) \<and> bound_ok a
     \<and> (\<forall>p. acc_parent a = Some p \<longrightarrow> is_uuid p)"

definition turns_of :: "account list \<Rightarrow> string list" where
  "turns_of accs = concat (map (\<lambda>a. map fst (acc_usage a)) accs)"

text \<open>The turn owners validation collects, latest first.\<close>

definition owners_of :: "account list \<Rightarrow> (string \<times> string) list" where
  "owners_of accs = rev (concat (map (\<lambda>a. map (\<lambda>(t, u). (t, acc_id a)) (acc_usage a)) accs))"

lemma bound_cases:
  assumes "bound_ok a"
  obtains (unbound) "acc_turn a = None" "acc_usage a = []"
  | (bound) s t u where "acc_turn a = Some (s, t)" "acc_usage a = [(t, u)]" "usage_ok u"
      "is_uuid s" "is_uuid t"
  using assms by (auto simp: bound_ok_def split: option.splits)

lemma account_usage_ok: "account_ok a \<Longrightarrow> (t, u) \<in> set (acc_usage a) \<Longrightarrow> usage_ok u"
  by (auto simp: account_ok_def bound_ok_def split: option.splits)

lemma owners_of_Nil [simp]: "owners_of [] = []"
  by (simp add: owners_of_def)

lemma owners_of_snoc:
  "owners_of (accs @ [a]) = rev (map (\<lambda>(t, u). (t, acc_id a)) (acc_usage a)) @ owners_of accs"
  by (simp add: owners_of_def)

lemma turns_of_append [simp]: "turns_of (xs @ ys) = turns_of xs @ turns_of ys"
  by (simp add: turns_of_def)

lemma turns_of_Nil [simp]: "turns_of [] = []"
  by (simp add: turns_of_def)

lemma turns_of_one [simp]: "turns_of [a] = map fst (acc_usage a)"
  by (simp add: turns_of_def)

lemma owners_turns: "fst ` set (owners_of accs) = set (turns_of accs)"
  by (force simp: owners_of_def turns_of_def)

lemma owners_none_iff: "map_of (owners_of accs) t = None \<longleftrightarrow> t \<notin> set (turns_of accs)"
  by (simp add: map_of_eq_None_iff owners_turns)

lemma owners_mem:
  "(t, i) \<in> set (owners_of accs) \<longleftrightarrow> (\<exists>a \<in> set accs. acc_id a = i \<and> t \<in> fst ` set (acc_usage a))"
  by (force simp: owners_of_def)

lemma owners_distinct:
  "distinct (turns_of accs) \<Longrightarrow> distinct (map fst (owners_of accs))"
  by (simp add: owners_of_def turns_of_def map_concat o_def split_def rev_map [symmetric])

lemma owners_lookup:
  "distinct (turns_of accs) \<Longrightarrow> a \<in> set accs \<Longrightarrow> t \<in> fst ` set (acc_usage a)
   \<Longrightarrow> map_of (owners_of accs) t = Some (acc_id a)"
  using owners_distinct owners_mem by (auto intro!: map_of_is_SomeI)

lemma parse_usages_accepts:
  "parse_usages i ow us0 xs = Inr (ow', us) \<Longrightarrow>
   \<exists>l. us = us0 @ l \<and> ow' = rev (map (\<lambda>(t, u). (t, i)) l) @ ow \<and> distinct (map fst l)
     \<and> (\<forall>(t, u) \<in> set l. is_uuid t \<and> usage_ok u \<and> map_of ow t = None)"
proof (induction xs arbitrary: ow us0)
  case (Cons x xs)
  obtain t raw where x: "x = (t, raw)" by (cases x)
  with Cons.prems obtain u where u: "is_uuid t" "map_of ow t = None" "usage_json raw = Inr u"
    "parse_usages i ((t, i) # ow) (us0 @ [(t, u)]) xs = Inr (ow', us)"
    by (auto simp: readers split: if_splits)
  from Cons.IH [OF u(4)] obtain l where l: "us = (us0 @ [(t, u)]) @ l"
    "ow' = rev (map (\<lambda>(t, u). (t, i)) l) @ (t, i) # ow" "distinct (map fst l)"
    "\<forall>(t', u') \<in> set l. is_uuid t' \<and> usage_ok u' \<and> map_of ((t, i) # ow) t' = None"
    by blast
  then have "us = us0 @ ((t, u) # l) \<and> ow' = rev (map (\<lambda>(t, u). (t, i)) ((t, u) # l)) @ ow
      \<and> distinct (map fst ((t, u) # l))
      \<and> (\<forall>(t', u') \<in> set ((t, u) # l). is_uuid t' \<and> usage_ok u' \<and> map_of ow t' = None)"
    using u usage_json_ok by (fastforce split: if_splits)
  then show ?case by blast
qed auto

lemma parse_account_accepts:
  assumes "parse_account (owners_of accs, accs) raw = Inr st" and "distinct (turns_of accs)"
  shows "\<exists>a. st = (owners_of (accs @ [a]), accs @ [a]) \<and> account_ok a
    \<and> distinct (turns_of (accs @ [a]))"
proof -
  from assms obtain src i settled limit us ow usage turn parent where
    i: "is_uuid i" and lim: "safe_count limit"
    and us: "parse_usages i (owners_of accs) [] us = Inr (ow, usage)"
    and turn: "parse_turn (jget src ''turn'') usage = Inr turn"
    and parent: "\<forall>p. parent = Some p \<longrightarrow> is_uuid p"
    and st: "st = (ow, accs @ [\<lparr>acc_id = i, acc_parent = parent, acc_limit = limit,
        acc_settled = settled, acc_turn = turn, acc_usage = usage\<rparr>])"
    unfolding parse_account_def readers by (auto simp: readers split: if_splits)
  let ?a = "\<lparr>acc_id = i, acc_parent = parent, acc_limit = limit,
        acc_settled = settled, acc_turn = turn, acc_usage = usage\<rparr>"
  from parse_usages_accepts [OF us]
  have l: "ow = rev (map (\<lambda>(t, u). (t, i)) usage) @ owners_of accs" "distinct (map fst usage)"
    "\<forall>(t, u) \<in> set usage. is_uuid t \<and> usage_ok u \<and> map_of (owners_of accs) t = None" by auto
  have "bound_ok ?a"
  proof (cases turn)
    case None
    with turn show ?thesis by (auto simp: parse_turn_def bound_ok_def readers split: if_splits)
  next
    case (Some st')
    obtain s t where "st' = (s, t)" by (cases st')
    with turn Some have "is_uuid s" "is_uuid t" "map_of usage t \<noteq> None" "length usage = 1"
      by (auto simp: parse_turn_def readers split: if_splits)
    then show ?thesis using l(3) Some \<open>st' = (s, t)\<close>
      by (auto simp: bound_ok_def length_Suc_conv split: if_splits)
  qed
  moreover have "set (map fst usage) \<inter> set (turns_of accs) = {}"
    using l(3) owners_none_iff [of accs] by fastforce
  ultimately show ?thesis
    using i lim parent st l(1,2) assms(2)
    by (intro exI [of _ ?a]) (auto simp: account_ok_def owners_of_snoc)
qed

lemma encode_account_fields:
  "encode_account a = JObj fs \<Longrightarrow>
     jget fs ''id'' = JStr (acc_id a) \<and> jget fs ''settled'' = JBool (acc_settled a)
   \<and> jget fs ''limit'' = JNum (acc_limit a)
   \<and> jget fs ''parentId'' = (case acc_parent a of None \<Rightarrow> JUndefined | Some p \<Rightarrow> JStr p)
   \<and> jget fs ''usage'' = JObj (map (\<lambda>(t, u). (t, encode_usage u)) (acc_usage a))
   \<and> jget fs ''turn'' = (case acc_turn a of None \<Rightarrow> JUndefined
       | Some (s, t) \<Rightarrow> JObj [(''sessionId'', JStr s), (''turnId'', JStr t)])"
  unfolding encode_account_def
  by (cases "acc_parent a"; cases "acc_turn a") auto

lemma parse_account_encode:
  assumes ok: "account_ok a" and d: "distinct (turns_of (accs @ [a]))"
  shows "parse_account (owners_of accs, accs) (encode_account a)
    = Inr (owners_of (accs @ [a]), accs @ [a])"
proof -
  obtain fs where fs: "encode_account a = JObj fs" by (simp add: encode_account_def)
  note f = encode_account_fields [OF fs]
  have b: "bound_ok a" and i: "check_uuid (acc_id a) what = Inr (acc_id a)" for what
    using ok by (simp_all add: account_ok_def)
  have us: "parse_usages (acc_id a) (owners_of accs) [] (map (\<lambda>(t, u). (t, encode_usage u)) (acc_usage a))
      = Inr (owners_of (accs @ [a]), acc_usage a)"
    using b
  proof (cases rule: bound_cases)
    case (bound s t u)
    then have "map_of (owners_of accs) t = None" using d by (simp add: owners_none_iff)
    with bound show ?thesis
      by (simp add: usage_json_encode owners_of_snoc check_uuid_def)
  qed (simp add: owners_of_snoc)
  have turn: "parse_turn (case acc_turn a of None \<Rightarrow> JUndefined
      | Some (s, t) \<Rightarrow> JObj [(''sessionId'', JStr s), (''turnId'', JStr t)]) (acc_usage a)
      = Inr (acc_turn a)"
    using b by (cases rule: bound_cases) (auto simp: parse_turn_def)
  show ?thesis
    using ok by (cases "acc_parent a")
      (simp_all add: parse_account_def fs f us turn account_ok_def count_int_def)
qed

lemma parse_accounts_accepts:
  "foldE parse_account (owners_of pre, pre) raws = Inr (ow, accs) \<Longrightarrow> distinct (turns_of pre)
   \<Longrightarrow> \<exists>post. accs = pre @ post \<and> ow = owners_of accs \<and> (\<forall>a \<in> set post. account_ok a)
      \<and> distinct (turns_of accs)"
proof (induction raws arbitrary: pre)
  case (Cons raw raws)
  then obtain st where "parse_account (owners_of pre, pre) raw = Inr st"
    "foldE parse_account st raws = Inr (ow, accs)" by (auto simp: bindE_Inr_iff)
  moreover from parse_account_accepts [OF this(1) Cons.prems(2)] obtain a where
    a: "st = (owners_of (pre @ [a]), pre @ [a])" "account_ok a" "distinct (turns_of (pre @ [a]))" by blast
  ultimately obtain post where "accs = (pre @ [a]) @ post" "ow = owners_of accs"
    "\<forall>b \<in> set post. account_ok b" "distinct (turns_of accs)"
    using Cons.IH [of "pre @ [a]"] by auto
  with a show ?case by (intro exI [of _ "a # post"]) auto
qed auto

lemma parse_accounts_encode:
  "\<forall>a \<in> set post. account_ok a \<Longrightarrow> distinct (turns_of (pre @ post))
   \<Longrightarrow> foldE parse_account (owners_of pre, pre) (map encode_account post)
      = Inr (owners_of (pre @ post), pre @ post)"
proof (induction post arbitrary: pre)
  case (Cons a post)
  have "turns_of (pre @ a # post) = turns_of (pre @ [a]) @ turns_of post"
    by (simp add: turns_of_def)
  then have "distinct (turns_of (pre @ [a]))" using Cons.prems(2) by (metis distinct_append)
  then show ?case
    using Cons.IH [of "pre @ [a]"] Cons.prems by (simp add: parse_account_encode)
qed simp

subsection \<open>Requests\<close>

definition request_ok :: "(string \<times> string) list \<Rightarrow> account list \<Rightarrow> request \<Rightarrow> bool" where
  "request_ok ow accs r \<longleftrightarrow> is_uuid (req_id r) \<and> is_uuid (req_account r) \<and> is_uuid (req_turn r)
     \<and> khas acc_id (req_account r) accs \<and> map_of ow (req_turn r) = Some (req_account r)
     \<and> (\<forall>u. req_usage r = Some u \<longrightarrow> usage_ok u)"

lemma parse_request_accepts:
  assumes "parse_request ow accs (ids, rs) raw = Inr st"
  shows "\<exists>r. st = (req_id r # ids, rs @ [r]) \<and> request_ok ow accs r \<and> req_id r \<notin> set ids"
proof -
  from assms obtain i acct unres owner usage where
    "is_uuid i" "is_uuid acct" "is_uuid owner" "i \<notin> set ids" "khas acc_id acct accs"
    "map_of ow owner = Some acct" "\<forall>u. usage = Some u \<longrightarrow> usage_ok u"
    "st = (i # ids, rs @ [\<lparr>req_id = i, req_account = acct, req_turn = owner, req_usage = usage,
       req_unresolved = unres\<rparr>])"
    unfolding parse_request_def readers
    by (auto simp: readers dest: usage_json_ok split: if_splits)
  then show ?thesis
    by (intro exI [of _ "\<lparr>req_id = i, req_account = acct, req_turn = owner, req_usage = usage,
       req_unresolved = unres\<rparr>"]) (simp add: request_ok_def)
qed

lemma encode_request_fields:
  "encode_request r = JObj fs \<Longrightarrow>
     jget fs ''id'' = JStr (req_id r) \<and> jget fs ''accountId'' = JStr (req_account r)
   \<and> jget fs ''turnId'' = JStr (req_turn r)
   \<and> jget fs ''usage'' = (case req_usage r of None \<Rightarrow> JUndefined | Some u \<Rightarrow> encode_usage u)
   \<and> jget fs ''unresolved'' = (if req_unresolved r then JBool True else JUndefined)"
  unfolding encode_request_def
  by (cases "req_usage r") auto

lemma encode_usage_defined [simp]: "encode_usage u \<noteq> JUndefined"
  by (simp add: encode_usage_def)

lemma parse_request_encode:
  assumes "request_ok ow accs r" and "req_id r \<notin> set ids"
  shows "parse_request ow accs (ids, rs) (encode_request r) = Inr (req_id r # ids, rs @ [r])"
proof -
  obtain fs where fs: "encode_request r = JObj fs" by (simp add: encode_request_def)
  show ?thesis
    using assms
    by (cases "req_usage r")
      (auto simp: parse_request_def fs encode_request_fields [OF fs] request_ok_def optional_bool_def
        usage_json_encode)
qed

lemma parse_requests_accepts:
  "foldE (parse_request ow accs) (ids, rs) raws = Inr (ids', rs') \<Longrightarrow>
   \<exists>new. rs' = rs @ new \<and> ids' = rev (map req_id new) @ ids \<and> (\<forall>r \<in> set new. request_ok ow accs r)
     \<and> distinct (map req_id new) \<and> set (map req_id new) \<inter> set ids = {}"
proof (induction raws arbitrary: ids rs)
  case (Cons raw raws)
  then obtain st where "parse_request ow accs (ids, rs) raw = Inr st"
    "foldE (parse_request ow accs) st raws = Inr (ids', rs')" by (auto simp: bindE_Inr_iff)
  moreover from parse_request_accepts [OF this(1)] obtain r where
    r: "st = (req_id r # ids, rs @ [r])" "request_ok ow accs r" "req_id r \<notin> set ids" by blast
  ultimately obtain new where "rs' = (rs @ [r]) @ new" "ids' = rev (map req_id new) @ req_id r # ids"
    "\<forall>r \<in> set new. request_ok ow accs r" "distinct (map req_id new)"
    "set (map req_id new) \<inter> set (req_id r # ids) = {}"
    using Cons.IH [of "req_id r # ids" "rs @ [r]"] by auto
  with r show ?case by (intro exI [of _ "r # new"]) auto
qed auto

lemma parse_requests_encode:
  "\<forall>r \<in> set new. request_ok ow accs r \<Longrightarrow> distinct (map req_id new)
   \<Longrightarrow> set (map req_id new) \<inter> set ids = {}
   \<Longrightarrow> foldE (parse_request ow accs) (ids, rs) (map encode_request new)
      = Inr (rev (map req_id new) @ ids, rs @ new)"
proof (induction new arbitrary: ids rs)
  case (Cons r new)
  then have "foldE (parse_request ow accs) (req_id r # ids, rs @ [r]) (map encode_request new)
      = Inr (rev (map req_id new) @ req_id r # ids, (rs @ [r]) @ new)"
    by (intro Cons.IH) auto
  with Cons.prems show ?case by (simp add: parse_request_encode)
qed simp

subsection \<open>The whole document\<close>

text \<open>What every snapshot has that validation returned.\<close>

definition snapshot_ok :: "snapshot \<Rightarrow> bool" where
  "snapshot_ok s \<longleftrightarrow>
     is_uuid (sn_root_session s) \<and> is_uuid (sn_root_turn s) \<and> is_uuid (sn_root_account s)
     \<and> safe_count (sn_limit s)
     \<and> (\<forall>a \<in> set (sn_accounts s). account_ok a) \<and> distinct (turns_of (sn_accounts s))
     \<and> distinct (map acc_id (sn_accounts s))
     \<and> (\<exists>r. check_root (sn_accounts s) (sn_root_account s) (sn_root_session s) (sn_root_turn s) = Inr r
          \<and> acc_limit r = sn_limit s
          \<and> (\<exists>m. check_reservations (length (sn_accounts s)) (sn_accounts s) (sn_requests s) r = Inr m))
     \<and> (\<exists>us. mapE (walk_to_root (sn_accounts s) (sn_root_account s) []) (sn_accounts s) = Inr us)
     \<and> (\<forall>r \<in> set (sn_requests s @ sn_completed s). request_ok (owners_of (sn_accounts s)) (sn_accounts s) r)
     \<and> distinct (map req_id (sn_requests s @ sn_completed s))
     \<and> (\<exists>seen. foldE check_one_request [] (sn_requests s) = Inr seen)
     \<and> (\<exists>m. foldE (check_measured (sn_accounts s)) [] (sn_requests s @ sn_completed s) = Inr m)
     \<and> (\<exists>u. foldE add_usage empty_usage (concat (map (\<lambda>a. map snd (acc_usage a)) (sn_accounts s))) = Inr u)"

lemma encode_snapshot_fields:
  "encode_snapshot s = JObj fs \<Longrightarrow>
     jget fs ''v'' = JNum 2 \<and> jget fs ''kind'' = JStr ''token-budget''
   \<and> jget fs ''rootSessionId'' = JStr (sn_root_session s)
   \<and> jget fs ''rootTurnId'' = JStr (sn_root_turn s)
   \<and> jget fs ''rootAccountId'' = JStr (sn_root_account s)
   \<and> jget fs ''limit'' = JNum (sn_limit s)
   \<and> jget fs ''accounts'' = JArr (map encode_account (sn_accounts s))
   \<and> jget fs ''requests'' = JArr (map encode_request (sn_requests s))
   \<and> jget fs ''completedRequests'' = JArr (map encode_request (sn_completed s))
   \<and> jget fs ''poisoned'' = (if sn_poisoned s then JBool True else JUndefined)"
  unfolding encode_snapshot_def by auto

lemma validate_encode:
  assumes ok: "snapshot_ok s"
  shows "validate_snapshot (encode_snapshot s) = Inr s"
proof -
  obtain fs where fs: "encode_snapshot s = JObj fs" by (simp add: encode_snapshot_def)
  note f = encode_snapshot_fields [OF fs]
  let ?accs = "sn_accounts s" and ?ow = "owners_of (sn_accounts s)"
  have accs: "foldE parse_account ([], []) (map encode_account ?accs) = Inr (?ow, ?accs)"
    using parse_accounts_encode [of ?accs "[]"] ok by (simp add: snapshot_ok_def)
  have rq: "foldE (parse_request ?ow ?accs) ([], []) (map encode_request (sn_requests s))
      = Inr (rev (map req_id (sn_requests s)), sn_requests s)"
    using parse_requests_encode [of "sn_requests s" ?ow ?accs "[]" "[]"] ok
    by (simp add: snapshot_ok_def)
  have cp: "foldE (parse_request ?ow ?accs) (rev (map req_id (sn_requests s)), [])
      (map encode_request (sn_completed s))
      = Inr (rev (map req_id (sn_completed s)) @ rev (map req_id (sn_requests s)), sn_completed s)"
    using parse_requests_encode [of "sn_completed s" ?ow ?accs "rev (map req_id (sn_requests s))" "[]"] ok
    by (auto simp: snapshot_ok_def)
  have ver: "check_version fs = Inr ()" by (simp add: check_version_def f)
  from ok obtain r us seen m u k where
    "check_root ?accs (sn_root_account s) (sn_root_session s) (sn_root_turn s) = Inr r"
    "acc_limit r = sn_limit s" "mapE (walk_to_root ?accs (sn_root_account s) []) ?accs = Inr us"
    "foldE check_one_request [] (sn_requests s) = Inr seen"
    "foldE (check_measured ?accs) [] (sn_requests s @ sn_completed s) = Inr m"
    "foldE add_usage empty_usage (concat (map (\<lambda>a. map snd (acc_usage a)) ?accs)) = Inr u"
    "check_reservations (length ?accs) ?accs (sn_requests s) r = Inr k"
    unfolding snapshot_ok_def by blast
  then show ?thesis
    using ok
    by (simp add: validate_snapshot_def fs f ver accs rq cp optional_bool_def snapshot_ok_def
        count_int_def)
qed

text \<open>Written and read again, accounts and requests that are well formed come back as they are, whatever the checks then say.\<close>

lemma encoded_comes_back:
  assumes "\<forall>a \<in> set (sn_accounts s). account_ok a" "distinct (turns_of (sn_accounts s))"
    and "\<forall>r \<in> set (sn_requests s @ sn_completed s). request_ok (owners_of (sn_accounts s)) (sn_accounts s) r"
    and "distinct (map req_id (sn_requests s @ sn_completed s))"
    and "validate_snapshot (encode_snapshot s) = Inr s'"
  shows "s' = s"
proof -
  obtain fs where fs: "encode_snapshot s = JObj fs" by (simp add: encode_snapshot_def)
  note f = encode_snapshot_fields [OF fs]
  let ?accs = "sn_accounts s" and ?ow = "owners_of (sn_accounts s)"
  have accs: "foldE parse_account ([], []) (map encode_account ?accs) = Inr (?ow, ?accs)"
    using parse_accounts_encode [of ?accs "[]"] assms(1,2) by simp
  have rq: "foldE (parse_request ?ow ?accs) ([], []) (map encode_request (sn_requests s))
      = Inr (rev (map req_id (sn_requests s)), sn_requests s)"
    using parse_requests_encode [of "sn_requests s" ?ow ?accs "[]" "[]"] assms(3,4) by simp
  have cp: "foldE (parse_request ?ow ?accs) (rev (map req_id (sn_requests s)), [])
      (map encode_request (sn_completed s))
      = Inr (rev (map req_id (sn_completed s)) @ rev (map req_id (sn_requests s)), sn_completed s)"
    using parse_requests_encode [of "sn_completed s" ?ow ?accs "rev (map req_id (sn_requests s))" "[]"] assms(3,4)
    by auto
  show ?thesis using assms(5) unfolding validate_snapshot_def fs
    by (auto simp: f accs rq cp bindE_Inr_iff readers optional_bool_def split: if_splits)
qed

lemma validate_accepts:
  assumes "validate_snapshot v = Inr s"
  shows "snapshot_ok s"
proof -
  from assms obtain raws_a raws_r raws_c ow ids ids' where
    u: "is_uuid (sn_root_session s)" "is_uuid (sn_root_turn s)" "is_uuid (sn_root_account s)"
      "safe_count (sn_limit s)"
    and accs: "foldE parse_account ([], []) raws_a = Inr (ow, sn_accounts s)"
    and d: "distinct (map acc_id (sn_accounts s))"
    and rest: "\<exists>r. check_root (sn_accounts s) (sn_root_account s) (sn_root_session s) (sn_root_turn s) = Inr r
          \<and> acc_limit r = sn_limit s
          \<and> (\<exists>m. check_reservations (length (sn_accounts s)) (sn_accounts s) (sn_requests s) r = Inr m)"
      "\<exists>us. mapE (walk_to_root (sn_accounts s) (sn_root_account s) []) (sn_accounts s) = Inr us"
      "\<exists>seen. foldE check_one_request [] (sn_requests s) = Inr seen"
      "\<exists>m. foldE (check_measured (sn_accounts s)) [] (sn_requests s @ sn_completed s) = Inr m"
      "\<exists>u. foldE add_usage empty_usage (concat (map (\<lambda>a. map snd (acc_usage a)) (sn_accounts s))) = Inr u"
    and rq: "foldE (parse_request ow (sn_accounts s)) ([], []) raws_r = Inr (ids, sn_requests s)"
    and cp: "foldE (parse_request ow (sn_accounts s)) (ids, []) raws_c = Inr (ids', sn_completed s)"
    unfolding validate_snapshot_def readers by (auto simp: readers split: if_splits)
  from parse_accounts_accepts [of "[]" raws_a ow "sn_accounts s"] accs
  have a: "ow = owners_of (sn_accounts s)" "\<forall>a \<in> set (sn_accounts s). account_ok a"
    "distinct (turns_of (sn_accounts s))" by auto
  from parse_requests_accepts [OF rq] have r: "ids = rev (map req_id (sn_requests s))"
    "\<forall>r \<in> set (sn_requests s). request_ok ow (sn_accounts s) r" "distinct (map req_id (sn_requests s))" by auto
  from parse_requests_accepts [OF cp] have c:
    "\<forall>r \<in> set (sn_completed s). request_ok ow (sn_accounts s) r" "distinct (map req_id (sn_completed s))"
    "set (map req_id (sn_completed s)) \<inter> set ids = {}" by auto
  show ?thesis
    unfolding snapshot_ok_def using u d rest a r c by auto
qed

end
