(* ===== verification/LedgerTree.thy ===== *)
theory LedgerTree
  imports Ledger
begin

text \<open>
  The accounts of a ledger form a tree under the root. Here that shape is stated
  (\<open>tree_ok\<close>), the depth bound of the recursions in Ledger is shown to be enough
  on it, and the recursions are given the equations the source writes.
\<close>

named_theorems tree_rules "facts of accounts that form a tree"

subsection \<open>Depth\<close>

inductive anchored :: "ledger \<Rightarrow> string \<Rightarrow> nat \<Rightarrow> bool" for L where
  anchored_root: "find_account L (lg_root L) = Some a \<Longrightarrow> anchored L (lg_root L) 0"
| anchored_child: "find_account L i = Some a \<Longrightarrow> acc_parent a = Some p \<Longrightarrow> anchored L p n
    \<Longrightarrow> anchored L i (Suc n)"

inductive_cases anchored_ZeroE: "anchored L i 0"
inductive_cases anchored_SucE: "anchored L i (Suc n)"

definition root_ok :: "ledger \<Rightarrow> bool" where
  "root_ok L \<longleftrightarrow> (\<exists>r. find_account L (lg_root L) = Some r \<and> acc_parent r = None)"

definition tree_ok :: "ledger \<Rightarrow> bool" where
  "tree_ok L \<longleftrightarrow> distinct_keys acc_id (lg_accounts L) \<and> root_ok L
     \<and> (\<forall>a \<in> set (lg_accounts L). \<exists>n. anchored L (acc_id a) n)"

lemma find_account_mem [tree_rules]:
  "find_account L i = Some a \<Longrightarrow> a \<in> set (lg_accounts L) \<and> acc_id a = i"
  unfolding find_account_def by (rule kfind_SomeD)

lemma tree_find:
  "tree_ok L \<Longrightarrow> a \<in> set (lg_accounts L) \<Longrightarrow> find_account L (acc_id a) = Some a"
  by (simp add: tree_ok_def find_account_def kfind_distinct)

lemma tree_same_id:
  "tree_ok L \<Longrightarrow> a \<in> set (lg_accounts L) \<Longrightarrow> b \<in> set (lg_accounts L) \<Longrightarrow> acc_id a = acc_id b \<Longrightarrow> a = b"
  by (metis tree_find option.inject)

lemma anchored_found: "anchored L i n \<Longrightarrow> \<exists>a. find_account L i = Some a"
  by (induction rule: anchored.induct) auto

lemma anchored_unique:
  assumes "root_ok L" and "anchored L i n" and "anchored L i m"
  shows "n = m"
  using assms(2,3)
proof (induction arbitrary: m rule: anchored.induct)
  case (anchored_root a)
  from anchored_root.prems show ?case
    by (cases rule: anchored.cases) (use assms(1) in \<open>auto simp: root_ok_def\<close>)
next
  case (anchored_child i a p n)
  from anchored_child.prems show ?case
  proof (cases rule: anchored.cases)
    case (anchored_root b)
    with anchored_child.hyps assms(1) show ?thesis by (auto simp: root_ok_def)
  next
    case (anchored_child b q k)
    with \<open>find_account L i = Some a\<close> \<open>acc_parent a = Some p\<close> have "anchored L p k" by simp
    with anchored_child(1) show ?thesis by (simp add: \<open>\<And>m. anchored L p m \<Longrightarrow> n = m\<close>)
  qed
qed

lemma anchored_levels: "anchored L i n \<Longrightarrow> m \<le> n \<Longrightarrow> \<exists>j. anchored L j m"
proof (induction arbitrary: m rule: anchored.induct)
  case (anchored_root a)
  then show ?case by (auto intro: anchored.anchored_root)
next
  case (anchored_child i a p n)
  then show ?case
    by (cases "m = Suc n") (auto intro: anchored.anchored_child)
qed

text \<open>One account per level at least, so the depth is below the number of accounts.\<close>

lemma anchored_depth:
  assumes "root_ok L" and "anchored L i n"
  shows "n < length (lg_accounts L)"
proof -
  define level where "level m = (SOME j. anchored L j m)" for m
  have lev: "anchored L (level m) m" if "m \<le> n" for m
    unfolding level_def using anchored_levels [OF assms(2) that] by (rule someI_ex)
  have "inj_on level {0..n}"
  proof (rule inj_onI)
    fix x y
    assume "x \<in> {0..n}" "y \<in> {0..n}" "level x = level y"
    then show "x = y"
      using lev [of x] lev [of y] anchored_unique [OF assms(1)] by auto
  qed
  moreover have "level m \<in> acc_id ` set (lg_accounts L)" if "m \<le> n" for m
    using anchored_found [OF lev [OF that]] find_account_mem by (metis imageI)
  then have "level ` {0..n} \<subseteq> acc_id ` set (lg_accounts L)" by auto
  ultimately have "card {0..n} \<le> card (acc_id ` set (lg_accounts L))"
    by (metis card_inj_on_le finite_imageI finite_set)
  also have "\<dots> \<le> length (lg_accounts L)"
    using card_image_le card_length le_trans finite_set by blast
  finally show ?thesis by simp
qed

lemma tree_depth:
  "tree_ok L \<Longrightarrow> a \<in> set (lg_accounts L) \<Longrightarrow> \<exists>n. anchored L (acc_id a) n \<and> n < length (lg_accounts L)"
  using anchored_depth unfolding tree_ok_def by blast

lemma child_anchored:
  "tree_ok L \<Longrightarrow> c \<in> set (children L a) \<Longrightarrow> anchored L (acc_id a) n \<Longrightarrow> anchored L (acc_id c) (Suc n)"
  by (auto simp: children_def intro: anchored_child tree_find)

lemma child_mem: "c \<in> set (children L a) \<Longrightarrow> c \<in> set (lg_accounts L)"
  by (auto simp: children_def)

lemma child_parent: "c \<in> set (children L a) \<Longrightarrow> acc_parent c = Some (acc_id a)"
  by (auto simp: children_def)

lemma parent_found:
  assumes "tree_ok L" and "a \<in> set (lg_accounts L)" and "acc_parent a = Some p"
  shows "\<exists>b. find_account L p = Some b \<and> b \<in> set (lg_accounts L) \<and> a \<in> set (children L b)"
proof -
  obtain n where "anchored L (acc_id a) n" using tree_depth [OF assms(1,2)] by blast
  then show ?thesis
  proof (cases rule: anchored.cases)
    case (anchored_root r)
    with assms tree_find [OF assms(1,2)] show ?thesis by (auto simp: tree_ok_def root_ok_def)
  next
    case (anchored_child a' p' m)
    with assms(3) tree_find [OF assms(1,2)] have "p' = p" by simp
    with anchored_child obtain b where "find_account L p = Some b"
      using anchored_found by blast
    with assms(2,3) show ?thesis
      using find_account_mem by (fastforce simp: children_def)
  qed
qed

text \<open>Induction from the leaves: a property that passes from the children to an account.\<close>

lemma tree_induct [consumes 2, case_names node]:
  assumes "tree_ok L" and "a \<in> set (lg_accounts L)"
    and node: "\<And>a. a \<in> set (lg_accounts L) \<Longrightarrow> (\<And>c. c \<in> set (children L a) \<Longrightarrow> P c) \<Longrightarrow> P a"
  shows "P a"
proof -
  have "\<forall>a n. anchored L (acc_id a) n \<longrightarrow> a \<in> set (lg_accounts L) \<longrightarrow> length (lg_accounts L) \<le> k + n \<longrightarrow> P a" for k
  proof (induction k)
    case 0
    then show ?case
      using assms(1) anchored_depth by (fastforce simp: tree_ok_def)
  next
    case (Suc k)
    show ?case
    proof (intro allI impI)
      fix a n
      assume a: "anchored L (acc_id a) n" "a \<in> set (lg_accounts L)"
        and "length (lg_accounts L) \<le> Suc k + n"
      then have "P c" if "c \<in> set (children L a)" for c
        using Suc child_anchored [OF assms(1) that a(1)] child_mem [OF that] by simp
      then show "P a" by (rule node [OF a(2)])
    qed
  qed
  then show ?thesis using tree_depth [OF assms(1,2)] assms(2) by (meson le_add1)
qed

subsection \<open>The depth bound is enough\<close>

lemma totals_depth_enough:
  "tree_ok L \<Longrightarrow> a \<in> set (lg_accounts L) \<Longrightarrow> anchored L (acc_id a) n
   \<Longrightarrow> length (lg_accounts L) \<le> k + n \<Longrightarrow> totals_depth (Suc k) L a = totals_depth k L a"
proof (induction k arbitrary: a n)
  case 0
  then show ?case using anchored_depth by (fastforce simp: tree_ok_def)
next
  case (Suc k)
  have "map (\<lambda>c. (c, totals_depth (Suc k) L c)) (children L a)
      = map (\<lambda>c. (c, totals_depth k L c)) (children L a)"
  proof (rule map_cong [OF refl])
    fix c assume c: "c \<in> set (children L a)"
    from Suc.IH [OF Suc.prems(1) child_mem [OF c] child_anchored [OF Suc.prems(1) c Suc.prems(3)]]
    show "(c, totals_depth (Suc k) L c) = (c, totals_depth k L c)"
      using Suc.prems(4) by simp
  qed
  then show ?case
    by (simp only: totals_depth.simps(2) [of "Suc k" L a] totals_depth.simps(2) [of k L a])
qed

lemma totals_unfold:
  assumes "tree_ok L" and "a \<in> set (lg_accounts L)"
  shows "totals L a =
    \<lparr>tot_own = own_tokens a,
     tot_tree = own_tokens a + (\<Sum>c\<leftarrow>children L a. tot_tree (totals L c)),
     tot_reserved = (\<Sum>c\<leftarrow>children L a. held_by c (totals L c)),
     tot_closed = (acc_settled a \<and> \<not> has_request L a
       \<and> (\<forall>c \<in> set (children L a). tot_closed (totals L c)))\<rparr>"
proof -
  obtain n where "anchored L (acc_id a) n" using tree_depth [OF assms] by blast
  from totals_depth_enough [OF assms this, of "length (lg_accounts L)"]
  have "totals L a = totals_depth (Suc (length (lg_accounts L))) L a"
    by (simp add: totals_def)
  then show ?thesis
    by (simp add: Let_def o_def list_all_iff totals_def [symmetric])
qed

lemma descendants_depth_enough:
  "tree_ok L \<Longrightarrow> a \<in> set (lg_accounts L) \<Longrightarrow> anchored L (acc_id a) n
   \<Longrightarrow> length (lg_accounts L) \<le> k + n
   \<Longrightarrow> descendants_depth (Suc k) L a = descendants_depth k L a"
proof (induction k arbitrary: a n)
  case 0
  then show ?case using anchored_depth by (fastforce simp: tree_ok_def)
next
  case (Suc k)
  have "map (descendants_depth (Suc k) L) (children L a) = map (descendants_depth k L) (children L a)"
  proof (rule map_cong [OF refl])
    fix c assume c: "c \<in> set (children L a)"
    from Suc.IH [OF Suc.prems(1) child_mem [OF c] child_anchored [OF Suc.prems(1) c Suc.prems(3)]]
    show "descendants_depth (Suc k) L c = descendants_depth k L c"
      using Suc.prems(4) by simp
  qed
  then show ?case
    by (simp only: descendants_depth.simps(2) [of "Suc k" L a] descendants_depth.simps(2) [of k L a])
qed

lemma descendants_unfold:
  assumes "tree_ok L" and "a \<in> set (lg_accounts L)"
  shows "set (descendants L a) = insert (acc_id a) (\<Union>c \<in> set (children L a). set (descendants L c))"
proof -
  obtain n where "anchored L (acc_id a) n" using tree_depth [OF assms] by blast
  from descendants_depth_enough [OF assms this, of "length (lg_accounts L)"]
  have "descendants L a = descendants_depth (Suc (length (lg_accounts L))) L a"
    by (simp add: descendants_def)
  then show ?thesis by (auto simp: descendants_def)
qed

lemma lineage_depth_enough:
  "tree_ok L \<Longrightarrow> a \<in> set (lg_accounts L) \<Longrightarrow> anchored L (acc_id a) n \<Longrightarrow> n \<le> k
   \<Longrightarrow> lineage_depth (Suc k) L a = lineage_depth k L a"
proof (induction n arbitrary: a k)
  case 0
  then have "acc_id a = lg_root L" by (auto elim: anchored_ZeroE)
  with 0 have "acc_parent a = None"
    using tree_find [of L a] by (auto simp: tree_ok_def root_ok_def)
  then show ?case by (cases k) auto
next
  case (Suc n)
  from Suc.prems(3) obtain p where p: "acc_parent a = Some p" "anchored L p n"
    using tree_find [OF Suc.prems(1,2)] by (auto elim: anchored_SucE)
  from Suc.prems(4) obtain k' where k': "k = Suc k'" "n \<le> k'" by (cases k) auto
  obtain b where b: "find_account L p = Some b" "b \<in> set (lg_accounts L)"
    using parent_found [OF Suc.prems(1,2) p(1)] by blast
  with p(2) have "anchored L (acc_id b) n" using find_account_mem by fastforce
  from Suc.IH [OF Suc.prems(1) b(2) this k'(2)] show ?case
    using p b k' by simp
qed

lemma lineage_unfold:
  assumes "tree_ok L" and "a \<in> set (lg_accounts L)"
  shows "lineage L a = a # (case acc_parent a of None \<Rightarrow> []
    | Some p \<Rightarrow> (case find_account L p of None \<Rightarrow> [] | Some b \<Rightarrow> lineage L b))"
proof -
  obtain n where "anchored L (acc_id a) n" "n < length (lg_accounts L)"
    using tree_depth [OF assms] by blast
  from lineage_depth_enough [OF assms this(1), of "length (lg_accounts L)"] this(2)
  have "lineage L a = lineage_depth (Suc (length (lg_accounts L))) L a"
    by (simp add: lineage_def)
  then show ?thesis by (simp add: lineage_def split: option.splits)
qed

subsection \<open>Being under an account\<close>

inductive under :: "ledger \<Rightarrow> account \<Rightarrow> account \<Rightarrow> bool" for L where
  under_self: "a \<in> set (lg_accounts L) \<Longrightarrow> under L a a"
| under_up: "a \<in> set (children L b) \<Longrightarrow> under L b c \<Longrightarrow> under L a c"

lemma under_mem: "under L a b \<Longrightarrow> a \<in> set (lg_accounts L) \<and> b \<in> set (lg_accounts L)"
  by (induction rule: under.induct) (auto dest: child_mem)

lemma under_trans: "under L a b \<Longrightarrow> under L b c \<Longrightarrow> under L a c"
  by (induction rule: under.induct) (auto intro: under_up)

lemma under_child: "c \<in> set (children L a) \<Longrightarrow> a \<in> set (lg_accounts L) \<Longrightarrow> under L c a"
  by (auto intro: under_up under_self)

lemma lineage_under:
  assumes "tree_ok L"
  shows "anchored L (acc_id a) n \<Longrightarrow> a \<in> set (lg_accounts L) \<Longrightarrow> b \<in> set (lineage L a) \<Longrightarrow> under L a b"
proof (induction n arbitrary: a)
  case 0
  then have "acc_id a = lg_root L" by (auto elim: anchored_ZeroE)
  with 0 assms have "acc_parent a = None"
    using tree_find [of L a] by (auto simp: tree_ok_def root_ok_def)
  with 0 lineage_unfold [OF assms 0(2)] show ?case by (auto intro: under_self)
next
  case (Suc n)
  then obtain p where p: "acc_parent a = Some p" "anchored L p n"
    using tree_find [OF assms Suc.prems(2)] by (auto elim: anchored_SucE)
  obtain c where c: "find_account L p = Some c" "c \<in> set (lg_accounts L)" "a \<in> set (children L c)"
    using parent_found [OF assms Suc.prems(2) p(1)] by blast
  then have "anchored L (acc_id c) n" using p(2) find_account_mem by metis
  with Suc.IH [OF this c(2)] Suc.prems lineage_unfold [OF assms Suc.prems(2)] p c
  show ?case by (auto intro: under_self under_up)
qed

lemma under_lineage:
  assumes "tree_ok L" and "a \<in> set (lg_accounts L)"
  shows "b \<in> set (lineage L a) \<longleftrightarrow> under L a b"
proof
  assume "b \<in> set (lineage L a)"
  then show "under L a b"
    using tree_depth [OF assms] lineage_under [OF assms(1) _ assms(2)] by blast
next
  show "under L a b \<Longrightarrow> b \<in> set (lineage L a)"
  proof (induction rule: under.induct)
    case (under_self a)
    then show ?case using lineage_unfold [OF assms(1)] by simp
  next
    case (under_up a b c)
    then have "find_account L (acc_id b) = Some b"
      using tree_find [OF assms(1)] under_mem by blast
    with under_up lineage_unfold [OF assms(1) child_mem [OF under_up(1)]] child_parent [OF under_up(1)]
    show ?case by auto
  qed
qed

lemma under_last:
  "under L a c \<Longrightarrow> a = c \<or> (\<exists>b. under L a b \<and> b \<in> set (children L c))"
proof (induction rule: under.induct)
  case (under_up a b c)
  then show ?case by (metis child_mem under.under_self under.under_up)
qed simp

lemma under_descendants:
  assumes "tree_ok L" and "c \<in> set (lg_accounts L)"
  shows "i \<in> set (descendants L c) \<longleftrightarrow> (\<exists>a. under L a c \<and> acc_id a = i)"
  using assms
proof (induction rule: tree_induct)
  case (node c)
  have "i \<in> set (descendants L c) \<longleftrightarrow> acc_id c = i \<or> (\<exists>b \<in> set (children L c). \<exists>a. under L a b \<and> acc_id a = i)"
    using node descendants_unfold [OF assms(1) node(1)] by auto
  also have "\<dots> \<longleftrightarrow> (\<exists>a. under L a c \<and> acc_id a = i)"
    using node(1) under_last under_child under_trans under_self by metis
  finally show ?case .
qed

lemma under_depth:
  "under L a c \<Longrightarrow> tree_ok L \<Longrightarrow> anchored L (acc_id c) m
   \<Longrightarrow> \<exists>n \<ge> m. anchored L (acc_id a) n \<and> (n = m \<longrightarrow> a = c)"
proof (induction rule: under.induct)
  case (under_self a)
  then show ?case by blast
next
  case (under_up a b c)
  then obtain n where "n \<ge> m" "anchored L (acc_id b) n" by blast
  then have "anchored L (acc_id a) (Suc n)" using child_anchored under_up by blast
  with \<open>n \<ge> m\<close> show ?case by (intro exI [of _ "Suc n"]) auto
qed

text \<open>The accounts above one account are in line: at one depth there is one of them.\<close>

lemma under_same_depth:
  assumes "tree_ok L"
  shows "under L a b \<Longrightarrow> under L a c \<Longrightarrow> anchored L (acc_id b) m \<Longrightarrow> anchored L (acc_id c) m \<Longrightarrow> b = c"
proof (induction rule: under.induct)
  case (under_self a)
  then show ?case
    using under_depth [OF under_self(2) assms under_self(4)] anchored_unique assms
    by (metis tree_ok_def)
next
  case (under_up a d b)
  from under_up.prems(1) show ?case
  proof (cases rule: under.cases)
    case under_self
    obtain n where n: "n \<ge> m" "anchored L (acc_id d) n"
      using under_depth [OF under_up(2) assms under_up(5)] by blast
    then have "anchored L (acc_id a) (Suc n)" using child_anchored [OF assms] under_up by blast
    with under_self under_up.prems(3) have "Suc n = m"
      using anchored_unique assms by (metis tree_ok_def)
    with n show ?thesis by simp
  next
    case (under_up e)
    then have "e = d"
      using \<open>a \<in> set (children L d)\<close> child_parent tree_same_id [OF assms]
      by (metis option.inject under_mem \<open>under L d b\<close>)
    with under_up under_up.prems show ?thesis
      using \<open>\<lbrakk>under L d c; anchored L (acc_id b) m; anchored L (acc_id c) m\<rbrakk> \<Longrightarrow> b = c\<close>
        \<open>anchored L (acc_id b) m\<close> \<open>anchored L (acc_id c) m\<close> by blast
  qed
qed

lemma under_one_child:
  assumes "tree_ok L" and "a \<in> set (lg_accounts L)"
    and "b \<in> set (children L a)" and "c \<in> set (children L a)"
    and "under L x b" and "under L x c"
  shows "b = c"
proof -
  obtain n where "anchored L (acc_id a) n" using tree_depth [OF assms(1,2)] by blast
  then have "anchored L (acc_id b) (Suc n)" "anchored L (acc_id c) (Suc n)"
    using child_anchored [OF assms(1)] assms(3,4) by blast+
  then show ?thesis using under_same_depth [OF assms(1,5,6)] by blast
qed

lemma not_under_child:
  assumes "tree_ok L" and "a \<in> set (lg_accounts L)" and "c \<in> set (children L a)"
  shows "\<not> under L a c"
proof
  assume u: "under L a c"
  obtain n where n: "anchored L (acc_id a) n" using tree_depth [OF assms(1,2)] by blast
  then have "anchored L (acc_id c) (Suc n)" using child_anchored [OF assms(1,3)] by blast
  from under_depth [OF u assms(1) this] obtain k where "k \<ge> Suc n" "anchored L (acc_id a) k" by blast
  with n show False using anchored_unique assms(1) by (fastforce simp: tree_ok_def)
qed

lemma distinct_children: "tree_ok L \<Longrightarrow> distinct (children L a)"
  by (simp add: children_def tree_ok_def distinct_map)

end
