(* ===== verification/LedgerTotals.thy ===== *)
theory LedgerTotals
  imports LedgerTree
begin

text \<open>
  What the recursion \<open>totals\<close> computes, said over the accounts under an account:
  the tree total is the sum of what they spent, and an account is closed when all
  of them are settled with nothing in flight. With it, the effect of each kind of
  change of the ledger on every account's totals.
\<close>

named_theorems core_cong "values that do not read the write queue"

subsection \<open>Sums over the tree\<close>

lemma totals_simps:
  assumes "tree_ok L" and "a \<in> set (lg_accounts L)"
  shows "tot_own (totals L a) = own_tokens a"
    and "tot_tree (totals L a) = own_tokens a + (\<Sum>c\<leftarrow>children L a. tot_tree (totals L c))"
    and "tot_reserved (totals L a) = (\<Sum>c\<leftarrow>children L a. held_by c (totals L c))"
    and "tot_closed (totals L a) \<longleftrightarrow> acc_settled a \<and> \<not> has_request L a
       \<and> (\<forall>c \<in> set (children L a). tot_closed (totals L c))"
  by (simp_all add: totals_unfold [OF assms])

definition under_set :: "ledger \<Rightarrow> account \<Rightarrow> account set" where
  "under_set L a = {b. under L b a}"

lemma under_set_finite [simp]: "finite (under_set L a)"
proof (rule finite_subset)
  show "under_set L a \<subseteq> set (lg_accounts L)"
    by (auto simp: under_set_def dest: under_mem)
qed simp

lemma under_set_unfold:
  assumes "tree_ok L" and "a \<in> set (lg_accounts L)"
  shows "under_set L a = insert a (\<Union>c \<in> set (children L a). under_set L c)"
proof (intro set_eqI iffI)
  fix b
  assume "b \<in> under_set L a"
  then show "b \<in> insert a (\<Union>c \<in> set (children L a). under_set L c)"
    using under_last [of L b a] by (auto simp: under_set_def)
next
  fix b
  assume "b \<in> insert a (\<Union>c \<in> set (children L a). under_set L c)"
  then consider "b = a" | c where "c \<in> set (children L a)" "under L b c"
    by (auto simp: under_set_def)
  then show "b \<in> under_set L a"
    unfolding under_set_def using under_self assms(2) under_child under_trans by cases blast+
qed

lemma sum_under_set:
  fixes f :: "account \<Rightarrow> int"
  assumes "tree_ok L" and "a \<in> set (lg_accounts L)"
  shows "sum f (under_set L a) = f a + (\<Sum>c\<leftarrow>children L a. sum f (under_set L c))"
proof -
  have "a \<notin> (\<Union>c \<in> set (children L a). under_set L c)"
    using not_under_child [OF assms] by (auto simp: under_set_def)
  then have "sum f (under_set L a) = f a + sum f (\<Union>c \<in> set (children L a). under_set L c)"
    by (simp add: under_set_unfold [OF assms])
  also have "sum f (\<Union>c \<in> set (children L a). under_set L c)
      = (\<Sum>c \<in> set (children L a). sum f (under_set L c))"
    using under_one_child [OF assms] under_set_finite
    by (intro sum.UNION_disjoint) (fastforce simp: under_set_def)+
  also have "\<dots> = (\<Sum>c\<leftarrow>children L a. sum f (under_set L c))"
    using distinct_children [OF assms(1)] by (simp add: sum_list_distinct_conv_sum_set)
  finally show ?thesis .
qed

theorem tree_is_sum:
  assumes "tree_ok L" and "a \<in> set (lg_accounts L)"
  shows "tot_tree (totals L a) = sum own_tokens (under_set L a)"
  using assms
proof (induction rule: tree_induct)
  case (node a)
  then have "(\<Sum>c\<leftarrow>children L a. tot_tree (totals L c)) = (\<Sum>c\<leftarrow>children L a. sum own_tokens (under_set L c))"
    by (intro arg_cong [where f = sum_list] map_cong) auto
  then show ?case
    by (simp add: totals_simps [OF assms(1) node(1)] sum_under_set [OF assms(1) node(1)])
qed

theorem closed_iff:
  assumes "tree_ok L" and "a \<in> set (lg_accounts L)"
  shows "tot_closed (totals L a) \<longleftrightarrow> (\<forall>b. under L b a \<longrightarrow> acc_settled b \<and> \<not> has_request L b)"
  using assms
proof (induction rule: tree_induct)
  case (node a)
  have "tot_closed (totals L a) \<longleftrightarrow> acc_settled a \<and> \<not> has_request L a
      \<and> (\<forall>c \<in> set (children L a). \<forall>b. under L b c \<longrightarrow> acc_settled b \<and> \<not> has_request L b)"
    using node by (simp add: totals_simps [OF assms(1) node(1)])
  also have "\<dots> \<longleftrightarrow> (\<forall>b \<in> under_set L a. acc_settled b \<and> \<not> has_request L b)"
    unfolding under_set_unfold [OF assms(1) node(1)] by (auto simp: under_set_def)
  finally show ?case by (simp add: under_set_def)
qed

lemma root_above_all:
  assumes "tree_ok L" and "find_account L (lg_root L) = Some r" and "a \<in> set (lg_accounts L)"
  shows "under L a r"
proof -
  have "\<forall>a. anchored L (acc_id a) n \<longrightarrow> a \<in> set (lg_accounts L) \<longrightarrow> under L a r" for n
  proof (induction n)
    case 0
    show ?case
    proof (intro allI impI)
      fix a
      assume a: "anchored L (acc_id a) 0" "a \<in> set (lg_accounts L)"
      then have "acc_id a = lg_root L" by (auto elim: anchored_ZeroE)
      with assms(2) tree_find [OF assms(1) a(2)] have "a = r" by simp
      with a(2) show "under L a r" by (auto intro: under_self)
    qed
  next
    case (Suc n)
    show ?case
    proof (intro allI impI)
      fix a
      assume a: "anchored L (acc_id a) (Suc n)" "a \<in> set (lg_accounts L)"
      then obtain p where p: "acc_parent a = Some p" "anchored L p n"
        using tree_find [OF assms(1) a(2)] by (auto elim: anchored_SucE)
      obtain c where c: "find_account L p = Some c" "c \<in> set (lg_accounts L)" "a \<in> set (children L c)"
        using parent_found [OF assms(1) a(2) p(1)] by blast
      then have "anchored L (acc_id c) n" using p(2) find_account_mem by metis
      with Suc c show "under L a r" by (blast intro: under_up)
    qed
  qed
  then show ?thesis using tree_depth [OF assms(1,3)] assms(3) by blast
qed

theorem tree_total_is_sum:
  assumes "tree_ok L"
  shows "tree_total L = (\<Sum>a\<leftarrow>lg_accounts L. own_tokens a)"
proof -
  obtain r where r: "find_account L (lg_root L) = Some r"
    using assms by (auto simp: tree_ok_def root_ok_def)
  then have rm: "r \<in> set (lg_accounts L)" using find_account_mem by blast
  have "under_set L r = set (lg_accounts L)"
    using root_above_all [OF assms r] by (auto simp: under_set_def dest: under_mem)
  moreover have "distinct (lg_accounts L)"
    using assms by (simp add: tree_ok_def distinct_map)
  ultimately show ?thesis
    by (simp add: tree_total_def r tree_is_sum [OF assms rm] sum_list_distinct_conv_sum_set)
qed

subsection \<open>Only the accounts and the requests in flight matter\<close>

definition same_tree :: "ledger \<Rightarrow> ledger \<Rightarrow> bool" where
  "same_tree L M \<longleftrightarrow> lg_accounts L = lg_accounts M \<and> lg_root L = lg_root M"

lemma same_tree_find: "same_tree L M \<Longrightarrow> find_account L = find_account M"
  by (auto simp: same_tree_def find_account_def)

lemma same_tree_children: "same_tree L M \<Longrightarrow> children L = children M"
  by (auto simp: same_tree_def children_def)

lemma same_tree_sym: "same_tree L M \<Longrightarrow> same_tree M L"
  by (simp add: same_tree_def)

lemma same_tree_anchored: "anchored L i n \<Longrightarrow> same_tree L M \<Longrightarrow> anchored M i n"
proof (induction rule: anchored.induct)
  case (anchored_root a)
  then have "find_account M (lg_root M) = Some a" and "lg_root L = lg_root M"
    by (simp_all add: same_tree_def find_account_def)
  then show ?case using anchored.anchored_root by simp
next
  case (anchored_child i a p n)
  then have "find_account M i = Some a" by (simp add: same_tree_def find_account_def)
  with anchored_child show ?case by (blast intro: anchored.anchored_child)
qed

lemma same_tree_ok: "same_tree L M \<Longrightarrow> tree_ok L \<Longrightarrow> tree_ok M"
proof -
  assume st: "same_tree L M" and ok: "tree_ok L"
  have "root_ok M"
    using ok same_tree_find [OF st] st by (simp add: tree_ok_def root_ok_def same_tree_def)
  moreover have "\<exists>n. anchored M (acc_id a) n" if "a \<in> set (lg_accounts M)" for a
    using ok that st same_tree_anchored [OF _ st] unfolding tree_ok_def same_tree_def by metis
  ultimately show ?thesis using ok st by (simp add: tree_ok_def same_tree_def)
qed

lemma same_tree_totals_depth:
  assumes "same_tree L M" and "lg_requests L = lg_requests M"
  shows "totals_depth n L a = totals_depth n M a"
proof (induction n arbitrary: a)
  case (Suc n)
  have "children M a = children L a" and "has_request M a = has_request L a"
    using same_tree_children [OF assms(1)] assms(2) by (simp_all add: has_request_def)
  then show ?case by (simp add: Suc)
qed simp

lemma same_tree_totals:
  "same_tree L M \<Longrightarrow> lg_requests L = lg_requests M \<Longrightarrow> totals L = totals M"
  by (rule ext) (simp add: totals_def same_tree_totals_depth [of L M], simp add: same_tree_def)

lemma same_tree_under: "under L a b \<Longrightarrow> same_tree L M \<Longrightarrow> under M a b"
proof (induction rule: under.induct)
  case (under_self a)
  then show ?case by (auto simp: same_tree_def intro: under.under_self)
next
  case (under_up a b c)
  then show ?case using same_tree_children by (auto intro: under.under_up)
qed

lemma same_tree_tree_total:
  "same_tree L M \<Longrightarrow> tree_ok L \<Longrightarrow> tree_total L = tree_total M"
  using tree_total_is_sum same_tree_ok by (metis same_tree_def)

subsection \<open>Changing one account in place\<close>

text \<open>An account replaced by one with the same id and parent.\<close>

definition swap_to :: "account \<Rightarrow> account \<Rightarrow> account" where
  "swap_to a' x = (if acc_id x = acc_id a' then a' else x)"

definition in_place :: "ledger \<Rightarrow> account \<Rightarrow> account \<Rightarrow> bool" where
  "in_place L a a' \<longleftrightarrow> tree_ok L \<and> a \<in> set (lg_accounts L) \<and> acc_id a' = acc_id a
     \<and> acc_parent a' = acc_parent a"

lemma in_placeI:
  "tree_ok L \<Longrightarrow> find_account L i = Some a \<Longrightarrow> acc_id a' = acc_id a \<Longrightarrow> acc_parent a' = acc_parent a
   \<Longrightarrow> in_place L a a'"
  by (simp add: in_place_def find_account_mem)

lemma put_fields [simp]:
  "lg_root (put_account a' L) = lg_root L"
  "lg_root_session (put_account a' L) = lg_root_session L"
  "lg_root_turn (put_account a' L) = lg_root_turn L"
  "lg_requests (put_account a' L) = lg_requests L"
  "lg_finished (put_account a' L) = lg_finished L"
  "lg_poisoned (put_account a' L) = lg_poisoned L"
  "lg_persist_error (put_account a' L) = lg_persist_error L"
  by (simp_all add: put_account_def)

lemma swap_id [simp]: "acc_id (swap_to a' x) = acc_id x"
  by (simp add: swap_to_def)

lemma put_accounts:
  "in_place L a a' \<Longrightarrow> lg_accounts (put_account a' L) = map (swap_to a') (lg_accounts L)"
  by (auto simp: in_place_def put_account_def kput_as_map tree_ok_def swap_to_def intro!: rev_image_eqI)

lemma swap_self: "in_place L a a' \<Longrightarrow> swap_to a' a = a'"
  by (simp add: swap_to_def in_place_def)

lemma swap_other: "in_place L a a' \<Longrightarrow> x \<in> set (lg_accounts L) \<Longrightarrow> x \<noteq> a \<Longrightarrow> swap_to a' x = x"
  using tree_same_id [of L x a] by (auto simp: swap_to_def in_place_def)

lemma swap_parent:
  "in_place L a a' \<Longrightarrow> x \<in> set (lg_accounts L) \<Longrightarrow> acc_parent (swap_to a' x) = acc_parent x"
  by (cases "x = a") (simp_all add: swap_self swap_other, simp add: in_place_def)

lemma find_put:
  assumes "in_place L a a'"
  shows "find_account (put_account a' L) i = map_option (swap_to a') (find_account L i)"
proof (cases "find_account L i")
  case None
  then have "acc_id a' \<noteq> i"
    using assms by (auto simp: find_account_def kfind_None_iff in_place_def)
  with None show ?thesis by (simp add: find_account_def put_account_def)
next
  case (Some b)
  then have "acc_id b = i" using find_account_mem by blast
  with Some show ?thesis by (auto simp: find_account_def put_account_def swap_to_def)
qed

lemma children_put:
  assumes "in_place L a a'"
  shows "children (put_account a' L) (swap_to a' b) = map (swap_to a') (children L b)"
proof -
  have "filter (\<lambda>c. acc_parent (swap_to a' c) = Some (acc_id b)) (lg_accounts L)
      = filter (\<lambda>c. acc_parent c = Some (acc_id b)) (lg_accounts L)"
    by (rule filter_cong) (auto simp: swap_parent [OF assms])
  then show ?thesis
    by (simp add: children_def put_accounts [OF assms] filter_map o_def)
qed

lemma anchored_put: "anchored L i n \<Longrightarrow> in_place L a a' \<Longrightarrow> anchored (put_account a' L) i n"
proof (induction rule: anchored.induct)
  case (anchored_root b)
  then show ?case
    using anchored.anchored_root [of "put_account a' L"] by (simp add: find_put)
next
  case (anchored_child i b p n)
  then have "acc_parent (swap_to a' b) = Some p"
    using swap_parent [OF anchored_child.prems] find_account_mem by fastforce
  with anchored_child show ?case
    using anchored.anchored_child [of "put_account a' L" i "swap_to a' b" p n]
    by (simp add: find_put)
qed

lemma tree_put:
  assumes ip: "in_place L a a'"
  shows "tree_ok (put_account a' L)"
proof -
  have tree: "tree_ok L" using ip by (simp add: in_place_def)
  have "distinct_keys acc_id (map (swap_to a') (lg_accounts L))"
    using tree by (simp add: tree_ok_def o_def)
  moreover obtain r where r: "find_account L (lg_root L) = Some r" "acc_parent r = None"
    using tree by (auto simp: tree_ok_def root_ok_def)
  then have "root_ok (put_account a' L)"
    using find_account_mem [OF r(1)] by (auto simp: root_ok_def find_put [OF ip] swap_parent [OF ip])
  moreover have "\<exists>n. anchored (put_account a' L) (acc_id b) n" if "b \<in> set (lg_accounts L)" for b
    using that tree_depth [OF tree that] anchored_put [OF _ ip] by blast
  ultimately show ?thesis by (auto simp: tree_ok_def put_accounts [OF ip])
qed

lemma mem_put:
  "in_place L a a' \<Longrightarrow> x \<in> set (lg_accounts L) \<Longrightarrow> swap_to a' x \<in> set (lg_accounts (put_account a' L))"
  by (simp add: put_accounts)

lemma under_put:
  "under L x y \<Longrightarrow> in_place L a a' \<Longrightarrow> under (put_account a' L) (swap_to a' x) (swap_to a' y)"
proof (induction rule: under.induct)
  case (under_self x)
  then show ?case by (intro under.under_self mem_put)
next
  case (under_up x y z)
  then have "swap_to a' x \<in> set (children (put_account a' L) (swap_to a' y))"
    by (simp add: children_put)
  then show ?case using under_up by (blast intro: under.under_up)
qed

lemma under_put_back:
  "under (put_account a' L) x' y' \<Longrightarrow> in_place L a a'
   \<Longrightarrow> \<exists>x y. under L x y \<and> x' = swap_to a' x \<and> y' = swap_to a' y"
proof (induction rule: under.induct)
  case (under_self x')
  then obtain x where "x \<in> set (lg_accounts L)" "x' = swap_to a' x"
    by (auto simp: put_accounts)
  then show ?case by (blast intro: under.under_self)
next
  case (under_up x' y' z')
  then obtain y z where yz: "under L y z" "y' = swap_to a' y" "z' = swap_to a' z" by blast
  with under_up(1) obtain x where "x \<in> set (children L y)" "x' = swap_to a' x"
    by (auto simp: children_put [OF under_up.prems])
  with yz show ?case by (blast intro: under.under_up)
qed

lemma swap_inj:
  "in_place L a a' \<Longrightarrow> x \<in> set (lg_accounts L) \<Longrightarrow> y \<in> set (lg_accounts L)
   \<Longrightarrow> swap_to a' x = swap_to a' y \<Longrightarrow> x = y"
  unfolding in_place_def by (metis swap_id tree_same_id)

lemma under_set_put:
  assumes ip: "in_place L a a'" and "x \<in> set (lg_accounts L)"
  shows "under_set (put_account a' L) (swap_to a' x) = swap_to a' ` under_set L x"
proof (intro set_eqI iffI)
  fix b
  assume "b \<in> under_set (put_account a' L) (swap_to a' x)"
  then have "under (put_account a' L) b (swap_to a' x)" by (simp add: under_set_def)
  then obtain y z where yz: "under L y z" "b = swap_to a' y" "swap_to a' x = swap_to a' z"
    using under_put_back [OF _ ip] by blast
  moreover have "x = z" using swap_inj [OF ip assms(2) _ yz(3)] under_mem [OF yz(1)] by blast
  ultimately show "b \<in> swap_to a' ` under_set L x" by (auto simp: under_set_def)
next
  fix b
  assume "b \<in> swap_to a' ` under_set L x"
  then show "b \<in> under_set (put_account a' L) (swap_to a' x)"
    using under_put [OF _ ip] by (auto simp: under_set_def)
qed

lemma under_put_iff:
  assumes ip: "in_place L a a'" and "x \<in> set (lg_accounts L)" and "y \<in> set (lg_accounts L)"
  shows "under (put_account a' L) (swap_to a' x) (swap_to a' y) \<longleftrightarrow> under L x y"
proof -
  have "swap_to a' x \<in> swap_to a' ` under_set L y \<longleftrightarrow> x \<in> under_set L y"
    using swap_inj [OF ip assms(2)] under_mem by (auto simp: under_set_def image_iff)
  then show ?thesis
    using under_set_put [OF ip assms(3)] by (simp add: under_set_def set_eq_iff)
qed

lemma tree_total_put:
  assumes ip: "in_place L a a'" and "x \<in> set (lg_accounts L)"
  shows "tot_tree (totals (put_account a' L) (swap_to a' x))
    = tot_tree (totals L x) + (if under L a x then own_tokens a' - own_tokens a else 0)"
proof -
  let ?f = "\<lambda>b. own_tokens (swap_to a' b)"
  have inj: "inj_on (swap_to a') (under_set L x)"
    using swap_inj [OF ip] under_mem by (intro inj_onI) (auto simp: under_set_def)
  have same: "?f b = own_tokens b" if "b \<in> under_set L x" "b \<noteq> a" for b
    using swap_other [OF ip] that under_mem by (fastforce simp: under_set_def)
  have "tot_tree (totals (put_account a' L) (swap_to a' x)) = sum ?f (under_set L x)"
    by (simp add: tree_is_sum [OF tree_put [OF ip] mem_put [OF assms]] under_set_put [OF assms]
        sum.reindex [OF inj] o_def)
  also have "\<dots> = sum own_tokens (under_set L x)
      + (if under L a x then own_tokens a' - own_tokens a else 0)"
  proof (cases "under L a x")
    case True
    then have mem: "a \<in> under_set L x" by (simp add: under_set_def)
    have "sum ?f (under_set L x - {a}) = sum own_tokens (under_set L x - {a})"
      using same by (intro sum.cong) auto
    with True show ?thesis
      using sum.remove [OF under_set_finite mem, of ?f]
        sum.remove [OF under_set_finite mem, of own_tokens]
      by (simp add: swap_self [OF ip])
  next
    case False
    then have "sum ?f (under_set L x) = sum own_tokens (under_set L x)"
      using same by (intro sum.cong) (auto simp: under_set_def)
    with False show ?thesis by simp
  qed
  finally show ?thesis using ip by (simp add: tree_is_sum [OF _ assms(2)] in_place_def)
qed

lemma has_request_put [simp]: "has_request (put_account a' L) (swap_to a' x) = has_request L x"
  by (simp add: has_request_def)

lemma closed_put:
  assumes ip: "in_place L a a'" and "x \<in> set (lg_accounts L)" and "acc_settled a' = acc_settled a"
  shows "tot_closed (totals (put_account a' L) (swap_to a' x)) = tot_closed (totals L x)"
proof -
  have s: "acc_settled (swap_to a' b) = acc_settled b" if "b \<in> set (lg_accounts L)" for b
    using swap_other [OF ip that] swap_self [OF ip] assms(3) by (cases "b = a") auto
  have tree: "tree_ok L" using ip by (simp add: in_place_def)
  have "tot_closed (totals (put_account a' L) (swap_to a' x))
      \<longleftrightarrow> (\<forall>b \<in> swap_to a' ` under_set L x. acc_settled b \<and> \<not> has_request (put_account a' L) b)"
    unfolding closed_iff [OF tree_put [OF ip] mem_put [OF ip assms(2)]]
      under_set_put [OF ip assms(2), symmetric]
    by (auto simp: under_set_def)
  also have "\<dots> \<longleftrightarrow> (\<forall>b \<in> under_set L x. acc_settled b \<and> \<not> has_request L b)"
    using s under_mem by (auto simp: under_set_def)
  finally show ?thesis by (simp add: closed_iff [OF tree assms(2)] under_set_def)
qed

subsection \<open>The climb of \<open>remaining\<close>\<close>

lemma covers_min [simp]: "covers (amount_min x y) n \<longleftrightarrow> covers x n \<and> covers y n"
  by (cases x; cases y) auto

lemma covers_max0 [simp]: "covers (amount_max0 x) n \<longleftrightarrow> n \<le> 0 \<or> covers x n"
  by (cases x) auto

lemma covers_mono: "covers x n \<Longrightarrow> m \<le> n \<Longrightarrow> covers x m"
  by (cases x) auto

lemma climb_covers_start: "covers (climb L av xs) n \<Longrightarrow> covers av n"
  by (induction L av xs rule: climb.induct) auto

lemma climb_covers_step:
  assumes "tree_ok L"
  shows "anchored L (acc_id a) k \<Longrightarrow> a \<in> set (lg_accounts L) \<Longrightarrow> covers (climb L av (lineage L a)) n
    \<Longrightarrow> under L a c \<Longrightarrow> c \<in> set (children L p) \<Longrightarrow> p \<in> set (lg_accounts L)
    \<Longrightarrow> covers (amount_plus (free L p) (held_by c (totals L c))) n"
proof (induction k arbitrary: a av)
  case 0
  then have "acc_id a = lg_root L" by (auto elim: anchored_ZeroE)
  with 0(2) assms have "acc_parent a = None"
    using tree_find [of L a] by (auto simp: tree_ok_def root_ok_def)
  moreover have "acc_parent c = Some (acc_id p)" using 0(5) by (rule child_parent)
  moreover have "a = c \<or> (\<exists>b. a \<in> set (children L b))"
    using 0(4) by (auto elim: under.cases)
  ultimately show ?case by (auto dest: child_parent)
next
  case (Suc k)
  obtain q where q: "acc_parent a = Some q" "anchored L q k"
    using Suc.prems(1) tree_find [OF assms Suc.prems(2)] by (auto elim: anchored_SucE)
  obtain b where b: "find_account L q = Some b" "b \<in> set (lg_accounts L)" "a \<in> set (children L b)"
    using parent_found [OF assms Suc.prems(2) q(1)] by blast
  then have bk: "anchored L (acc_id b) k" using q(2) find_account_mem by metis
  have lin: "lineage L a = a # lineage L b"
    using lineage_unfold [OF assms Suc.prems(2)] q b by simp
  obtain bs where bs: "lineage L b = b # bs"
    using lineage_unfold [OF assms b(2)] by blast
  have cl: "covers (climb L (amount_min av (amount_plus (free L b) (held_by a (totals L a)))) (lineage L b)) n"
    using Suc.prems(3) by (simp add: lin bs)
  from Suc.prems(4) show ?case
  proof (cases rule: under.cases)
    case under_self
    then have "p = b"
      using child_parent [OF Suc.prems(5)] child_parent [OF b(3)]
        tree_same_id [OF assms Suc.prems(6) b(2)] by simp
    with under_self cl climb_covers_start show ?thesis by fastforce
  next
    case (under_up d)
    then have "d = b"
      using child_parent [OF under_up(1)] child_parent [OF b(3)] under_mem
        tree_same_id [OF assms _ b(2)] by (metis option.inject)
    with under_up show ?thesis using Suc.IH [OF bk b(2) cl _ Suc.prems(5,6)] by simp
  qed
qed

text \<open>A positive amount that \<open>remaining\<close> covers is covered at the account and at every step above it.\<close>

lemma remaining_covers:
  assumes "tree_ok L" and "a \<in> set (lg_accounts L)" and "covers (remaining L a) n" and "0 < n"
  shows "\<not> admission_blocked L a" and "\<not> acc_settled a" and "covers (free L a) n"
    and "\<And>c p. under L a c \<Longrightarrow> c \<in> set (children L p) \<Longrightarrow> p \<in> set (lg_accounts L)
      \<Longrightarrow> covers (amount_plus (free L p) (held_by c (totals L c))) n"
proof -
  from assms(3,4) have c: "covers (climb L (free L a) (lineage L a)) n"
    and *: "\<not> admission_blocked L a" "\<not> acc_settled a"
    by (auto simp: remaining_def split: if_splits)
  from * show "\<not> admission_blocked L a" and "\<not> acc_settled a" by auto
  from c show "covers (free L a) n" by (rule climb_covers_start)
  obtain k where "anchored L (acc_id a) k" using tree_depth [OF assms(1,2)] by blast
  with climb_covers_step [OF assms(1) this assms(2) c]
  show "\<And>c p. under L a c \<Longrightarrow> c \<in> set (children L p) \<Longrightarrow> p \<in> set (lg_accounts L)
      \<Longrightarrow> covers (amount_plus (free L p) (held_by c (totals L c))) n" by blast
qed

end
