(* ===== verification/LedgerSpend.thy ===== *)
theory LedgerSpend
  imports LedgerTotals
begin

text \<open>
  Conservation: what a spend, a reservation and the end of a request do to the
  free tokens of every account, and the invariant that no finite account is
  overdrawn as long as each spend is within what \<open>remaining\<close> offered.
\<close>

definition no_overdraft :: "ledger \<Rightarrow> bool" where
  "no_overdraft L \<longleftrightarrow> (\<forall>a \<in> set (lg_accounts L). acc_limit a > 0
     \<longrightarrow> tot_tree (totals L a) + tot_reserved (totals L a) \<le> acc_limit a)"

subsection \<open>Requests that end\<close>

lemma fewer_requests_closed:
  assumes "tree_ok L" and st: "same_tree L M" and "\<And>x. has_request M x \<Longrightarrow> has_request L x"
    and "a \<in> set (lg_accounts L)" and "tot_closed (totals L a)"
  shows "tot_closed (totals M a)"
proof -
  have "a \<in> set (lg_accounts M)" using st assms(4) by (simp add: same_tree_def)
  then show ?thesis
    using assms same_tree_under [OF _ same_tree_sym [OF st]]
    by (auto simp: closed_iff [OF assms(1,4)] closed_iff [OF same_tree_ok [OF st assms(1)]])
qed

lemma same_tree_tree:
  assumes "tree_ok L" and st: "same_tree L M" and "a \<in> set (lg_accounts L)"
  shows "tot_tree (totals M a) = tot_tree (totals L a)"
proof -
  have m: "a \<in> set (lg_accounts M)" using st assms(3) by (simp add: same_tree_def)
  have "under_set M a = under_set L a"
    using same_tree_under [OF _ st] same_tree_under [OF _ same_tree_sym [OF st]]
    by (auto simp: under_set_def)
  then show ?thesis
    by (simp add: tree_is_sum [OF assms(1,3)] tree_is_sum [OF same_tree_ok [OF st assms(1)] m])
qed

lemma fewer_requests_reserved:
  assumes "tree_ok L" and st: "same_tree L M" and "\<And>x. has_request M x \<Longrightarrow> has_request L x"
    and "a \<in> set (lg_accounts L)"
  shows "tot_reserved (totals M a) \<le> tot_reserved (totals L a)"
proof -
  have m: "a \<in> set (lg_accounts M)" using st assms(4) by (simp add: same_tree_def)
  have "(\<Sum>c\<leftarrow>children L a. held_by c (totals M c)) \<le> (\<Sum>c\<leftarrow>children L a. held_by c (totals L c))"
    using same_tree_tree [OF assms(1) st] fewer_requests_closed [OF assms(1-3)] child_mem
    by (intro sum_list_map_mono_int) (auto simp: held_by_def)
  then show ?thesis
    by (simp add: totals_simps [OF assms(1,4)] totals_simps [OF same_tree_ok [OF st assms(1)] m]
        same_tree_children [OF st, symmetric])
qed

lemma fewer_requests_no_overdraft:
  assumes "tree_ok L" and "same_tree L M" and "\<And>x. has_request M x \<Longrightarrow> has_request L x"
    and "no_overdraft L"
  shows "no_overdraft M"
proof -
  have "lg_accounts M = lg_accounts L" using assms(2) by (simp add: same_tree_def)
  with assms show ?thesis
    using fewer_requests_reserved [OF assms(1-3)] same_tree_tree [OF assms(1,2)]
    unfolding no_overdraft_def by fastforce
qed

subsection \<open>Spending\<close>

text \<open>An account that spends \<open>d\<close> more, everything else of it unchanged.\<close>

definition spends :: "ledger \<Rightarrow> account \<Rightarrow> account \<Rightarrow> int \<Rightarrow> bool" where
  "spends L a a' d \<longleftrightarrow> in_place L a a' \<and> acc_limit a' = acc_limit a
     \<and> acc_settled a' = acc_settled a \<and> own_tokens a' = own_tokens a + d \<and> 0 \<le> d"

lemma spend_tree:
  assumes "spends L a a' d" and "x \<in> set (lg_accounts L)"
  shows "tot_tree (totals (put_account a' L) (swap_to a' x))
    = tot_tree (totals L x) + (if under L a x then d else 0)"
  using tree_total_put [of L a a' x] assms by (simp add: spends_def)

lemma spend_closed:
  assumes "spends L a a' d" and "x \<in> set (lg_accounts L)"
  shows "tot_closed (totals (put_account a' L) (swap_to a' x)) = tot_closed (totals L x)"
  using closed_put [of L a a' x] assms by (simp add: spends_def)

lemma spend_limit:
  assumes "spends L a a' d" and "x \<in> set (lg_accounts L)"
  shows "acc_limit (swap_to a' x) = acc_limit x"
  using assms swap_other [of L a a' x] swap_self [of L a a'] by (cases "x = a") (auto simp: spends_def)

lemma spend_held:
  assumes "spends L a a' d" and "x \<in> set (lg_accounts L)"
  shows "held_by (swap_to a' x) (totals (put_account a' L) (swap_to a' x))
    = (if tot_closed (totals L x) then 0
       else max 0 (acc_limit x - tot_tree (totals L x) - (if under L a x then d else 0)))"
  using spend_tree [OF assms] spend_closed [OF assms] spend_limit [OF assms]
  by (simp add: held_by_def algebra_simps)

lemma spend_reserved_sum:
  assumes sp: "spends L a a' d" and "x \<in> set (lg_accounts L)"
  shows "tot_reserved (totals (put_account a' L) (swap_to a' x))
    = (\<Sum>c\<leftarrow>children L x. held_by (swap_to a' c) (totals (put_account a' L) (swap_to a' c)))"
proof -
  have ip: "in_place L a a'" using sp by (simp add: spends_def)
  show ?thesis
    by (simp add: totals_simps [OF tree_put [OF ip] mem_put [OF ip assms(2)]]
        children_put [OF ip] o_def)
qed

text \<open>
  Above the spender, the branch it is in gives up what it held for the spend and
  no more; every other branch keeps what it held.
\<close>

lemma spend_reserved_above:
  assumes sp: "spends L a a' d" and x: "x \<in> set (lg_accounts L)"
    and c: "c \<in> set (children L x)" "under L a c"
  shows "tot_reserved (totals (put_account a' L) (swap_to a' x))
    = tot_reserved (totals L x) - held_by c (totals L c)
      + (if tot_closed (totals L c) then 0 else max 0 (acc_limit c - tot_tree (totals L c) - d))"
proof -
  let ?h = "\<lambda>b. held_by (swap_to a' b) (totals (put_account a' L) (swap_to a' b))"
  have tree: "tree_ok L" using sp by (simp add: spends_def in_place_def)
  have other: "?h b = held_by b (totals L b)" if "b \<in> set (children L x)" "b \<noteq> c" for b
  proof -
    have "\<not> under L a b" using under_one_child [OF tree x that(1) c(1) _ c(2)] that(2) by blast
    then show ?thesis
      using spend_held [OF sp child_mem [OF that(1)]] by (simp add: held_by_def)
  qed
  have split: "sum_list (map f (children L x)) = f c + sum f (set (children L x) - {c})"
    for f :: "account \<Rightarrow> int"
    using distinct_children [OF tree] c(1)
    by (simp add: sum_list_distinct_conv_sum_set sum.remove [OF _ c(1)])
  have "tot_reserved (totals (put_account a' L) (swap_to a' x))
      = ?h c + sum ?h (set (children L x) - {c})"
    using spend_reserved_sum [OF sp x] split [of ?h] by simp
  also have "sum ?h (set (children L x) - {c}) = (\<Sum>b \<in> set (children L x) - {c}. held_by b (totals L b))"
    using other by (intro sum.cong) auto
  also have "\<dots> = tot_reserved (totals L x) - held_by c (totals L c)"
    using totals_simps(3) [OF tree x] split [of "\<lambda>b. held_by b (totals L b)"] by simp
  finally show ?thesis
    using spend_held [OF sp child_mem [OF c(1)]] c(2) by simp
qed

lemma spend_reserved_elsewhere:
  assumes sp: "spends L a a' d" and x: "x \<in> set (lg_accounts L)"
    and "\<And>c. c \<in> set (children L x) \<Longrightarrow> \<not> under L a c"
  shows "tot_reserved (totals (put_account a' L) (swap_to a' x)) = tot_reserved (totals L x)"
proof -
  have tree: "tree_ok L" using sp by (simp add: spends_def in_place_def)
  have "held_by (swap_to a' c) (totals (put_account a' L) (swap_to a' c)) = held_by c (totals L c)"
    if "c \<in> set (children L x)" for c
    using spend_held [OF sp child_mem [OF that]] assms(3) [OF that] by (simp add: held_by_def)
  then show ?thesis
    unfolding spend_reserved_sum [OF sp x] totals_simps(3) [OF tree x]
    by (metis (no_types, lifting) map_cong)
qed

theorem spend_within_remaining:
  assumes sp: "spends L a a' d" and cov: "covers (remaining L a) d" and ok: "no_overdraft L"
  shows "no_overdraft (put_account a' L)"
proof (cases "d = 0")
  case True
  have ip: "in_place L a a'" using sp by (simp add: spends_def)
  have tree: "tree_ok L" using ip by (simp add: in_place_def)
  have "tot_reserved (totals (put_account a' L) (swap_to a' x)) = tot_reserved (totals L x)"
    if "x \<in> set (lg_accounts L)" for x
  proof -
    have "held_by (swap_to a' c) (totals (put_account a' L) (swap_to a' c)) = held_by c (totals L c)"
      if "c \<in> set (children L x)" for c
      using spend_held [OF sp child_mem [OF that]] True by (simp add: held_by_def)
    then show ?thesis
      unfolding spend_reserved_sum [OF sp \<open>x \<in> _\<close>] totals_simps(3) [OF tree \<open>x \<in> _\<close>]
      by (metis (no_types, lifting) map_cong)
  qed
  with ok True show ?thesis
    by (auto simp: no_overdraft_def put_accounts [OF ip] spend_tree [OF sp] spend_limit [OF sp])
next
  case False
  then have d: "0 < d" using sp by (simp add: spends_def)
  have ip: "in_place L a a'" using sp by (simp add: spends_def)
  have tree: "tree_ok L" and am: "a \<in> set (lg_accounts L)" using ip by (simp_all add: in_place_def)
  note rc = remaining_covers [OF tree am cov d]
  have "tot_tree (totals (put_account a' L) (swap_to a' x))
      + tot_reserved (totals (put_account a' L) (swap_to a' x)) \<le> acc_limit x"
    if x: "x \<in> set (lg_accounts L)" and lim: "0 < acc_limit x" for x
  proof -
    have base: "tot_tree (totals L x) + tot_reserved (totals L x) \<le> acc_limit x"
      using ok x lim by (simp add: no_overdraft_def)
    consider (apart) "\<not> under L a x" | (self) "x = a"
      | (above) c where "c \<in> set (children L x)" "under L a c"
      using under_last [of L a x] by blast
    then show ?thesis
    proof cases
      case apart
      then have "\<not> under L a c" if "c \<in> set (children L x)" for c
        using under_trans under_child [OF that x] by blast
      with apart base show ?thesis
        using spend_reserved_elsewhere [OF sp x] spend_tree [OF sp x] by simp
    next
      case self
      then have "\<not> under L a c" if "c \<in> set (children L x)" for c
        using not_under_child [OF tree x that] by simp
      moreover have "covers (free L x) d" using rc(3) self by simp
      moreover have "under L a x" using self am by (simp add: under_self)
      ultimately show ?thesis
        using spend_reserved_elsewhere [OF sp x] spend_tree [OF sp x] lim by (simp add: free_def)
    next
      case above
      have "under L a x" using above under_trans under_child [OF above(1) x] by blast
      moreover have "covers (amount_plus (free L x) (held_by c (totals L c))) d"
        using rc(4) [OF above(2,1) x] .
      ultimately show ?thesis
        using spend_reserved_above [OF sp x above] spend_tree [OF sp x] lim base d
        by (auto simp: free_def held_by_def max_def split: if_splits)
    qed
  qed
  then show ?thesis
    by (auto simp: no_overdraft_def put_accounts [OF ip] spend_limit [OF sp])
qed

text \<open>
  Isolation: a spend inside a branch that covers it from what the branch holds
  leaves the free tokens above unchanged.
\<close>

theorem spend_isolated:
  assumes sp: "spends L a a' d" and x: "x \<in> set (lg_accounts L)"
    and c: "c \<in> set (children L x)" "under L a c"
    and "\<not> tot_closed (totals L c)" and "tot_tree (totals L c) + d \<le> acc_limit c"
  shows "free (put_account a' L) (swap_to a' x) = free L x"
proof -
  have "under L a x" using c under_trans under_child [OF c(1) x] by blast
  with assms show ?thesis
    using spend_reserved_above [OF sp x c] spend_tree [OF sp x] spend_limit [OF sp x]
    by (auto simp: free_def held_by_def spends_def)
qed

subsection \<open>Opening a child account\<close>

definition opens :: "ledger \<Rightarrow> account \<Rightarrow> account \<Rightarrow> bool" where
  "opens L i n \<longleftrightarrow> tree_ok L \<and> i \<in> set (lg_accounts L) \<and> find_account L (acc_id n) = None
     \<and> acc_parent n = Some (acc_id i)"

lemma opens_fresh: "opens L i n \<Longrightarrow> x \<in> set (lg_accounts L) \<Longrightarrow> acc_id x \<noteq> acc_id n"
  using tree_find by (fastforce simp: opens_def)

lemma opens_accounts: "opens L i n \<Longrightarrow> lg_accounts (put_account n L) = lg_accounts L @ [n]"
  by (auto simp: opens_def find_account_def kfind_None_iff put_account_def intro: kput_new)

lemma opens_find:
  "opens L i n \<Longrightarrow> find_account (put_account n L) j
     = (if j = acc_id n then Some n else find_account L j)"
  by (simp add: find_account_def put_account_def)

lemma opens_children:
  assumes op: "opens L i n" and x: "x \<in> set (lg_accounts L)"
  shows "children (put_account n L) x = children L x @ (if x = i then [n] else [])"
proof -
  have "acc_id i = acc_id x \<longleftrightarrow> x = i"
    using op x tree_same_id by (fastforce simp: opens_def)
  with op show ?thesis by (auto simp: children_def opens_accounts opens_def)
qed

lemma opens_children_new:
  assumes op: "opens L i n"
  shows "children (put_account n L) n = []"
proof -
  have "acc_parent x \<noteq> Some (acc_id n)" if x: "x \<in> set (lg_accounts L)" for x
    using parent_found [OF _ x] op by (auto simp: opens_def)
  moreover have "acc_id i \<noteq> acc_id n" using opens_fresh [OF op] op by (simp add: opens_def)
  ultimately show ?thesis
    using op by (auto simp: children_def opens_accounts opens_def filter_empty_conv)
qed

lemma anchored_open: "anchored L j k \<Longrightarrow> opens L i n \<Longrightarrow> anchored (put_account n L) j k"
proof (induction rule: anchored.induct)
  case (anchored_root b)
  then have "find_account (put_account n L) (lg_root (put_account n L)) = Some b"
    by (auto simp: opens_find opens_def)
  from anchored.anchored_root [OF this] show ?case by simp
next
  case (anchored_child j b p k)
  then have "find_account (put_account n L) j = Some b"
    by (auto simp: opens_find opens_def)
  with anchored_child show ?case by (blast intro: anchored.anchored_child)
qed

lemma tree_open:
  assumes op: "opens L i n"
  shows "tree_ok (put_account n L)"
proof -
  have tree: "tree_ok L" and im: "i \<in> set (lg_accounts L)" using op by (simp_all add: opens_def)
  have "distinct_keys acc_id (lg_accounts L @ [n])"
    using tree opens_fresh [OF op] by (force simp: tree_ok_def)
  moreover have "root_ok (put_account n L)"
    using tree op by (auto simp: tree_ok_def root_ok_def opens_find opens_def)
  moreover have "\<exists>k. anchored (put_account n L) (acc_id b) k" if "b \<in> set (lg_accounts L)" for b
    using tree_depth [OF tree that] anchored_open [OF _ op] by blast
  moreover from this [OF im] obtain k where "anchored (put_account n L) (acc_id i) k" by blast
  then have "anchored (put_account n L) (acc_id n) (Suc k)"
    using op by (intro anchored_child [of _ _ n]) (auto simp: opens_find opens_def)
  ultimately show ?thesis by (auto simp: tree_ok_def opens_accounts [OF op])
qed

lemma opens_mem:
  "opens L i n \<Longrightarrow> x \<in> set (lg_accounts L) \<Longrightarrow> x \<in> set (lg_accounts (put_account n L))"
  by (simp add: opens_accounts)

lemma open_totals:
  assumes op: "opens L i n" and own: "own_tokens n = 0" and uns: "\<not> acc_settled n" "\<not> acc_settled i"
    and "x \<in> set (lg_accounts L)"
  shows "tot_tree (totals (put_account n L) x) = tot_tree (totals L x)
    \<and> tot_closed (totals (put_account n L) x) = tot_closed (totals L x)
    \<and> tot_reserved (totals (put_account n L) x)
       = tot_reserved (totals L x) + (if x = i then max 0 (acc_limit n) else 0)"
proof -
  have tree: "tree_ok L" using op by (simp add: opens_def)
  have tree': "tree_ok (put_account n L)" by (rule tree_open [OF op])
  have nm: "n \<in> set (lg_accounts (put_account n L))" by (simp add: opens_accounts [OF op])
  have new: "tot_tree (totals (put_account n L) n) = 0" "\<not> tot_closed (totals (put_account n L) n)"
    using own uns by (simp_all add: totals_simps [OF tree' nm] opens_children_new [OF op])
  have hr: "has_request (put_account n L) y = has_request L y" for y by (simp add: has_request_def)
  from tree \<open>x \<in> _\<close> show ?thesis
  proof (induction rule: tree_induct)
    case (node x)
    note u = totals_simps [OF tree node(1)] totals_simps [OF tree' opens_mem [OF op node(1)]]
      opens_children [OF op node(1)]
    have t: "map (\<lambda>c. tot_tree (totals (put_account n L) c)) (children L x)
        = map (\<lambda>c. tot_tree (totals L c)) (children L x)"
      and h: "map (\<lambda>c. held_by c (totals (put_account n L) c)) (children L x)
        = map (\<lambda>c. held_by c (totals L c)) (children L x)"
      using node(2) by (auto simp: held_by_def)
    have "held_by n (totals (put_account n L) n) = max 0 (acc_limit n)"
      using new by (simp add: held_by_def)
    moreover have "(\<forall>c \<in> set (children L x). tot_closed (totals (put_account n L) c))
        = (\<forall>c \<in> set (children L x). tot_closed (totals L c))"
      using node(2) by blast
    ultimately show ?case
      using new uns hr by (simp add: u t h)
  qed
qed

theorem open_free:
  assumes op: "opens L i n" and own: "own_tokens n = 0" and uns: "\<not> acc_settled n" "\<not> acc_settled i"
    and "0 \<le> acc_limit n" and "x \<in> set (lg_accounts L)"
  shows "free (put_account n L) x = (if x = i then amount_plus (free L x) (- acc_limit n) else free L x)"
  using open_totals [OF assms(1-4,6)] assms(5) by (auto simp: free_def)

theorem open_no_overdraft:
  assumes op: "opens L i n" and own: "own_tokens n = 0" and uns: "\<not> acc_settled n" "\<not> acc_settled i"
    and "0 \<le> acc_limit n" and "covers (free L i) (acc_limit n)" and "no_overdraft L"
  shows "no_overdraft (put_account n L)"
proof -
  have nm: "n \<in> set (lg_accounts (put_account n L))" by (simp add: opens_accounts [OF op])
  have "tot_tree (totals (put_account n L) n) + tot_reserved (totals (put_account n L) n) = 0"
    using own by (simp add: totals_simps [OF tree_open [OF op] nm] opens_children_new [OF op])
  moreover have "acc_limit x > 0 \<Longrightarrow> tot_tree (totals (put_account n L) x)
      + tot_reserved (totals (put_account n L) x) \<le> acc_limit x" if "x \<in> set (lg_accounts L)" for x
    using open_totals [OF assms(1-4) that] assms(5-7) that
    by (auto simp: no_overdraft_def free_def split: if_splits)
  ultimately show ?thesis by (auto simp: no_overdraft_def opens_accounts [OF op])
qed

end
