(* ===== verification/LedgerCore.thy ===== *)
theory LedgerCore
  imports LedgerCodec LedgerSpend
begin

text \<open>
  The abstract budget: the invariant every ledger keeps (\<open>ledger_inv\<close>) and the
  steps an operation may make on what a snapshot holds (\<open>core_step\<close>). Each kind of
  step keeps the invariant; LedgerRefine shows that the operations make no others.
\<close>

subsection \<open>Counters\<close>

definition reasoning_count :: "token_usage \<Rightarrow> int" where
  "reasoning_count u = case_option 0 id (reasoning_tokens u)"

definition counters :: "(token_usage \<Rightarrow> int) set" where
  "counters = {prompt_tokens, completion_tokens, total_tokens, cached_tokens, cache_write_tokens,
     reasoning_count}"

definition observed_usage :: "request \<Rightarrow> token_usage" where
  "observed_usage r = case_option empty_usage id (req_usage r)"

lemma counter_cases:
  assumes "f \<in> counters"
  obtains "f = prompt_tokens" | "f = completion_tokens" | "f = total_tokens" | "f = cached_tokens"
  | "f = cache_write_tokens" | "f = reasoning_count"
  using assms by (auto simp: counters_def)

lemma counter_empty [simp]: "f \<in> counters \<Longrightarrow> f empty_usage = 0"
  by (auto simp: counters_def empty_usage_def reasoning_count_def)

lemma counter_nonneg: "f \<in> counters \<Longrightarrow> usage_ok u \<Longrightarrow> 0 \<le> f u"
  by (auto simp: counters_def usage_ok_def safe_count_def reasoning_count_def split: option.splits)

lemma counter_safe: "f \<in> counters \<Longrightarrow> usage_ok u \<Longrightarrow> safe_count (f u)"
  by (auto simp: counters_def usage_ok_def reasoning_count_def split: option.splits)

lemma counter_at_least:
  "f \<in> counters \<Longrightarrow> usage_ok v \<Longrightarrow> usage_at_least (Some v) (Some u) \<Longrightarrow> f u \<le> f v"
  by (auto simp: counters_def usage_at_least_def reasoning_count_def usage_ok_def safe_count_def
      split: option.splits)

subsection \<open>The invariant\<close>

definition own_of :: "account \<Rightarrow> token_usage" where
  "own_of a = (case acc_usage a of [] \<Rightarrow> empty_usage | (t, u) # _ \<Rightarrow> u)"

definition all_requests :: "ledger \<Rightarrow> request list" where
  "all_requests L = lg_requests L @ lg_finished L"

definition charged :: "(token_usage \<Rightarrow> int) \<Rightarrow> string \<Rightarrow> request list \<Rightarrow> int" where
  "charged f i rs = (\<Sum>r\<leftarrow>rs. if req_account r = i then f (observed_usage r) else 0)"

definition accounts_inv :: "ledger \<Rightarrow> bool" where
  "accounts_inv L \<longleftrightarrow> tree_ok L \<and> (\<forall>a \<in> set (lg_accounts L). account_ok a)
     \<and> distinct (turns_of (lg_accounts L))
     \<and> (\<forall>r. find_account L (lg_root L) = Some r \<longrightarrow> acc_turn r = Some (lg_root_session L, lg_root_turn L))
     \<and> safe_count (\<Sum>a\<leftarrow>lg_accounts L. own_tokens a)"

definition belongs :: "ledger \<Rightarrow> request \<Rightarrow> bool" where
  "belongs L r \<longleftrightarrow> is_uuid (req_id r) \<and> (\<forall>u. req_usage r = Some u \<longrightarrow> usage_ok u)
     \<and> (\<exists>a. find_account L (req_account r) = Some a \<and> turn_of a = Some (req_turn r))"

definition requests_inv :: "ledger \<Rightarrow> bool" where
  "requests_inv L \<longleftrightarrow> (\<forall>r \<in> set (all_requests L). belongs L r)
     \<and> distinct_keys req_id (all_requests L) \<and> distinct_keys req_account (lg_requests L)"

text \<open>What an account was charged covers what its requests measured.\<close>

definition watermark_inv :: "ledger \<Rightarrow> bool" where
  "watermark_inv L \<longleftrightarrow> (\<forall>a \<in> set (lg_accounts L). \<forall>f \<in> counters.
     charged f (acc_id a) (all_requests L) \<le> f (own_of a))"

definition ledger_inv :: "ledger \<Rightarrow> bool" where
  "ledger_inv L \<longleftrightarrow> accounts_inv L \<and> requests_inv L \<and> watermark_inv L"

subsection \<open>Steps of the abstract budget\<close>

text \<open>A change of label: the limit narrowed or the account settled.\<close>

definition relabels :: "account \<Rightarrow> account \<Rightarrow> bool" where
  "relabels a a' \<longleftrightarrow> (\<exists>lim settled. a' = a\<lparr>acc_limit := lim, acc_settled := settled\<rparr>
     \<and> safe_count lim \<and> (acc_settled a \<longrightarrow> settled)
     \<and> (acc_limit a > 0 \<longrightarrow> lim \<noteq> 0 \<and> lim \<le> acc_limit a))"

text \<open>
  A charge: request \<open>r\<close> measured as \<open>r'\<close>, its account \<open>a\<close> charged as \<open>a'\<close>, no counter
  of the account growing by less than the request's.
\<close>

definition charges :: "ledger \<Rightarrow> account \<Rightarrow> request \<Rightarrow> account \<Rightarrow> request \<Rightarrow> bool" where
  "charges L a r a' r' \<longleftrightarrow> find_account L (req_account r) = Some a
     \<and> req_id r' = req_id r \<and> req_account r' = req_account r \<and> req_turn r' = req_turn r
     \<and> usage_at_least (req_usage r') (req_usage r) \<and> (\<forall>u. req_usage r' = Some u \<longrightarrow> usage_ok u)
     \<and> (\<exists>u u'. own_usage_of a (Some (req_turn r)) = Inr u \<and> a' = set_usage (req_turn r) u' a
          \<and> usage_ok u' \<and> usage_at_least (Some u') (Some u)
          \<and> safe_count (tree_total L - total_tokens u + total_tokens u')
          \<and> (\<forall>f \<in> counters. f u + f (observed_usage r') - f (observed_usage r) \<le> f u'))"

inductive core_step :: "ledger \<Rightarrow> ledger \<Rightarrow> bool" where
  cs_flags: "(lg_poisoned L \<longrightarrow> b \<or> lg_requests L = []) \<Longrightarrow> core_step L (L\<lparr>lg_poisoned := b\<rparr>)"
| cs_label: "find_account L i = Some a \<Longrightarrow> relabels a a' \<Longrightarrow> core_step L (put_account a' L)"
| cs_bind: "find_account L i = Some a \<Longrightarrow> acc_turn a = None \<Longrightarrow> is_uuid s \<Longrightarrow> is_uuid t
    \<Longrightarrow> t \<notin> set (turns_of (lg_accounts L))
    \<Longrightarrow> core_step L (put_account (a\<lparr>acc_turn := Some (s, t), acc_usage := [(t, empty_usage)]\<rparr>) L)"
| cs_open: "opens L a n \<Longrightarrow> account_ok n \<Longrightarrow> acc_turn n = None \<Longrightarrow> core_step L (put_account n L)"
| cs_spend: "find_account L i = Some a \<Longrightarrow> own_usage_of a (Some t) = Inr u \<Longrightarrow> usage_ok u'
    \<Longrightarrow> usage_at_least (Some u') (Some u) \<Longrightarrow> safe_count (tree_total L - total_tokens u + total_tokens u')
    \<Longrightarrow> core_step L (put_account (set_usage t u' a) L)"
| cs_begin: "find_account L (req_account r) = Some a \<Longrightarrow> turn_of a = Some (req_turn r)
    \<Longrightarrow> req_usage r = None \<Longrightarrow> is_uuid (req_id r) \<Longrightarrow> req_id r \<notin> req_id ` set (all_requests L)
    \<Longrightarrow> \<not> has_request L a
    \<Longrightarrow> core_step L (L\<lparr>lg_requests := kput req_id r (lg_requests L)\<rparr>)"
| cs_active: "r \<in> set (lg_requests L) \<Longrightarrow> charges L a r a' r' \<Longrightarrow> (req_unresolved r \<longrightarrow> req_unresolved r')
    \<Longrightarrow> (lg_poisoned L \<longrightarrow> b)
    \<Longrightarrow> core_step L (put_account a' L\<lparr>lg_requests := kput req_id r' (lg_requests L), lg_poisoned := b\<rparr>)"
| cs_finish: "r \<in> set (lg_requests L) \<Longrightarrow> charges L a r a' r'
    \<Longrightarrow> (req_unresolved r \<longrightarrow> req_unresolved r' \<or> req_usage r' \<noteq> None)
    \<Longrightarrow> core_step L (put_account a' L\<lparr>lg_requests := kdel req_id (req_id r) (lg_requests L),
          lg_finished := kput req_id r' (lg_finished L)\<rparr>)"
| cs_receipt: "r \<in> set (lg_finished L) \<Longrightarrow> charges L a r a' r'
    \<Longrightarrow> core_step L (put_account a' L\<lparr>lg_finished := kput req_id r' (lg_finished L)\<rparr>)"

subsection \<open>The accounts part\<close>

lemma inv_tree: "accounts_inv L \<Longrightarrow> tree_ok L"
  by (simp add: accounts_inv_def)

lemma inv_account: "accounts_inv L \<Longrightarrow> find_account L i = Some a \<Longrightarrow> account_ok a"
  using find_account_mem by (auto simp: accounts_inv_def)

lemma put_split:
  assumes "in_place L a a'"
  shows "\<exists>ys zs. lg_accounts L = ys @ a # zs \<and> lg_accounts (put_account a' L) = ys @ a' # zs"
proof -
  obtain ys zs where s: "lg_accounts L = ys @ a # zs"
    using assms split_list by (fastforce simp: in_place_def)
  have "distinct_keys acc_id (lg_accounts L)" using assms by (simp add: in_place_def tree_ok_def)
  with s have "acc_id a \<notin> acc_id ` set ys" "acc_id a \<notin> acc_id ` set zs" by auto
  with assms have "map (swap_to a') ys = ys" "map (swap_to a') zs = zs"
    by (auto intro!: map_idI simp: swap_to_def in_place_def rev_image_eqI)
  moreover have "swap_to a' a = a'" using assms by (rule swap_self)
  ultimately have "lg_accounts (put_account a' L) = ys @ a' # zs"
    using put_accounts [OF assms] s by simp
  with s show ?thesis by blast
qed

lemma own_of_tokens: "bound_ok a \<Longrightarrow> own_tokens a = total_tokens (own_of a)"
  by (cases rule: bound_cases) (auto simp: own_tokens_def own_of_def empty_usage_def)

lemma own_of_lookup:
  "bound_ok a \<Longrightarrow> own_usage_of a (Some t) = Inr u
   \<Longrightarrow> own_of a = u \<and> acc_usage a = [(t, u)] \<and> turn_of a = Some t \<and> usage_ok u"
  by (erule bound_cases) (auto simp: own_usage_of_def own_of_def turn_of_def split: if_splits)

lemma own_of_ok: "bound_ok a \<Longrightarrow> usage_ok (own_of a)"
  by (cases rule: bound_cases) (auto simp: own_of_def)

lemma accounts_put:
  assumes inv: "accounts_inv L" and find: "find_account L i = Some a"
    and keep: "acc_id a' = acc_id a" "acc_parent a' = acc_parent a" "account_ok a'"
    and turn: "acc_turn a \<noteq> None \<longrightarrow> acc_turn a' = acc_turn a"
    and fresh: "set (map fst (acc_usage a')) - set (map fst (acc_usage a))
      \<subseteq> - set (turns_of (lg_accounts L))"
    and own: "safe_count ((\<Sum>a\<leftarrow>lg_accounts L. own_tokens a) - own_tokens a + own_tokens a')"
  shows "accounts_inv (put_account a' L)"
proof -
  have ip: "in_place L a a'" using in_placeI [OF inv_tree [OF inv] find keep(1,2)] .
  obtain ys zs where s: "lg_accounts L = ys @ a # zs" "lg_accounts (put_account a' L) = ys @ a' # zs"
    using put_split [OF ip] by blast
  have ok: "account_ok b" if "b \<in> set (lg_accounts L)" for b using inv that by (simp add: accounts_inv_def)
  have mid: "turns_of (ys @ x # zs) = turns_of ys @ map fst (acc_usage x) @ turns_of zs" for x
    by (simp add: turns_of_def)
  have "distinct (map fst (acc_usage a'))"
    using keep(3) unfolding account_ok_def by (auto elim: bound_cases)
  moreover have d: "distinct (turns_of (ys @ a # zs))" using inv s by (simp add: accounts_inv_def)
  moreover from d have "set (map fst (acc_usage a)) \<inter> (set (turns_of ys) \<union> set (turns_of zs)) = {}"
    unfolding mid distinct_append set_append by blast
  then have "set (map fst (acc_usage a')) \<inter> (set (turns_of ys) \<union> set (turns_of zs)) = {}"
    using fresh unfolding s(1) mid set_append by blast
  ultimately have "distinct (turns_of (ys @ a' # zs))"
    unfolding mid distinct_append set_append by blast
  moreover have "acc_turn r = Some (lg_root_session L, lg_root_turn L)"
    if f: "find_account (put_account a' L) (lg_root L) = Some r" for r
  proof -
    obtain x where x: "find_account L (lg_root L) = Some x" "r = swap_to a' x"
      using f unfolding find_put [OF ip] by auto
    then have "acc_turn x = Some (lg_root_session L, lg_root_turn L)" using inv by (simp add: accounts_inv_def)
    moreover have "acc_id x = lg_root L" "x \<in> set (lg_accounts L)" using x find_account_mem by auto
    ultimately show ?thesis
      using turn x(2) swap_self [OF ip] swap_other [OF ip] by (cases "x = a") auto
  qed
  ultimately show ?thesis
    using tree_put [OF ip] ok keep(3) own unfolding accounts_inv_def s by (auto simp: algebra_simps)
qed

lemma accounts_open:
  assumes inv: "accounts_inv L" and op: "opens L a n" and ok: "account_ok n" "acc_turn n = None"
  shows "accounts_inv (put_account n L)"
proof -
  have us: "acc_usage n = []" using ok by (auto simp: account_ok_def bound_ok_def)
  have "find_account (put_account n L) (lg_root L) = find_account L (lg_root L)"
    using op inv by (auto simp: opens_find [OF op] opens_def accounts_inv_def tree_ok_def root_ok_def)
  then show ?thesis
    using inv tree_open [OF op] ok us unfolding accounts_inv_def opens_accounts [OF op]
    by (auto simp: own_tokens_def)
qed

subsection \<open>The requests part\<close>

lemma charged_append [simp]: "charged f i (xs @ ys) = charged f i xs + charged f i ys"
  by (simp add: charged_def)

lemma charged_none: "(\<And>r. r \<in> set rs \<Longrightarrow> req_account r \<noteq> i) \<Longrightarrow> charged f i rs = 0"
  by (induction rs) (auto simp: charged_def)

lemma charged_kput:
  "distinct_keys req_id rs \<Longrightarrow> r \<in> set rs \<Longrightarrow> req_id r' = req_id r
   \<Longrightarrow> charged f i (kput req_id r' rs) = charged f i rs - charged f i [r] + charged f i [r']"
  unfolding charged_def by (subst sum_list_kput_change [of req_id rs r]) auto

lemma charged_kput_new:
  "req_id r \<notin> req_id ` set rs \<Longrightarrow> charged f i (kput req_id r rs) = charged f i rs + charged f i [r]"
  by (simp add: kput_new)

lemma charged_kdel:
  "distinct_keys req_id rs \<Longrightarrow> r \<in> set rs
   \<Longrightarrow> charged f i (kdel req_id (req_id r) rs) = charged f i rs - charged f i [r]"
proof (induction rs)
  case (Cons x xs)
  show ?case
  proof (cases "req_id x = req_id r")
    case True
    with Cons.prems have "x = r" "req_id r \<notin> req_id ` set xs" by (auto simp: rev_image_eqI)
    moreover from this have "kdel req_id (req_id r) xs = xs" by (simp add: kdel_absent)
    ultimately show ?thesis by (simp add: kdel_def charged_def)
  next
    case False
    with Cons show ?thesis by (auto simp: kdel_def charged_def)
  qed
qed simp

lemma charged_nonneg:
  "f \<in> counters \<Longrightarrow> (\<And>r u. r \<in> set rs \<Longrightarrow> req_usage r = Some u \<Longrightarrow> usage_ok u) \<Longrightarrow> 0 \<le> charged f i rs"
  unfolding charged_def
  by (rule sum_list_map_nonneg) (auto simp: observed_usage_def counter_nonneg split: option.splits)

lemma kput_set: "distinct_keys req_id rs \<Longrightarrow> r \<in> set rs \<Longrightarrow> req_id r' = req_id r
   \<Longrightarrow> set (kput req_id r' rs) = insert r' (set rs - {r})"
  by (auto simp: set_kput distinct_map inj_on_def)

lemma kput_ids: "r \<in> set rs \<Longrightarrow> req_id r' = req_id r \<Longrightarrow> map req_id (kput req_id r' rs) = map req_id rs"
  by (auto simp: keys_kput rev_image_eqI)

text \<open>Changing an account in place, same turn: the requests still have their owners.\<close>

lemma belongs_put:
  assumes ip: "in_place L a a'" and turn: "turn_of a \<noteq> None \<longrightarrow> turn_of a' = turn_of a"
  shows "belongs L r \<Longrightarrow> belongs (put_account a' L) r"
proof -
  assume "belongs L r"
  then obtain x where x: "find_account L (req_account r) = Some x" "turn_of x = Some (req_turn r)"
    and rest: "is_uuid (req_id r)" "\<forall>u. req_usage r = Some u \<longrightarrow> usage_ok u"
    by (auto simp: belongs_def)
  then have "turn_of (swap_to a' x) = Some (req_turn r)"
    using turn swap_self [OF ip] swap_other [OF ip] find_account_mem [OF x(1)] by (cases "x = a") auto
  with x rest show ?thesis by (simp add: belongs_def find_put [OF ip])
qed

lemma belongs_core:
  "lg_accounts M = lg_accounts L \<Longrightarrow> belongs M r = belongs L r"
  by (simp add: belongs_def find_account_def)

lemma belongs_same:
  "belongs L r \<Longrightarrow> req_id r' = req_id r \<Longrightarrow> req_account r' = req_account r \<Longrightarrow> req_turn r' = req_turn r
   \<Longrightarrow> (\<forall>u. req_usage r' = Some u \<longrightarrow> usage_ok u) \<Longrightarrow> belongs L r'"
  by (auto simp: belongs_def)

subsection \<open>Steps keep the invariant\<close>

lemma watermark_put:
  assumes ip: "in_place L a a'" and wm: "watermark_inv L"
    and own: "\<And>f. f \<in> counters \<Longrightarrow> f (own_of a) + ex f \<le> f (own_of a')"
    and ch: "\<And>f i. f \<in> counters \<Longrightarrow> i \<in> acc_id ` set (lg_accounts L) \<Longrightarrow>
      charged f i rs = charged f i (all_requests L) + (if i = acc_id a then ex f else 0)"
    and m: "lg_accounts M = lg_accounts (put_account a' L)" "all_requests M = rs"
  shows "watermark_inv M"
proof -
  have "charged f (acc_id x) rs \<le> f (own_of (swap_to a' x))"
    if f: "f \<in> counters" and x: "x \<in> set (lg_accounts L)" for f x
  proof -
    have base: "charged f (acc_id x) (all_requests L) \<le> f (own_of x)"
      using wm f x by (simp add: watermark_inv_def)
    have c: "charged f (acc_id x) rs = charged f (acc_id x) (all_requests L)
        + (if acc_id x = acc_id a then ex f else 0)" using ch [OF f] x by simp
    show ?thesis
    proof (cases "x = a")
      case True
      with base c own [OF f] swap_self [OF ip] show ?thesis by simp
    next
      case False
      then have "acc_id x \<noteq> acc_id a"
        using ip x tree_same_id [of L x a] by (auto simp: in_place_def)
      with False base c swap_other [OF ip x] show ?thesis by simp
    qed
  qed
  then show ?thesis by (auto simp: watermark_inv_def m put_accounts [OF ip])
qed

lemma set_usage_fields [simp]:
  "acc_id (set_usage t u a) = acc_id a" "acc_parent (set_usage t u a) = acc_parent a"
  "acc_limit (set_usage t u a) = acc_limit a" "acc_settled (set_usage t u a) = acc_settled a"
  "acc_turn (set_usage t u a) = acc_turn a" "turn_of (set_usage t u a) = turn_of a"
  by (simp_all add: set_usage_def turn_of_def)

text \<open>The account part of recording usage: spent directly or charged by a request.\<close>

lemma usage_change:
  assumes inv: "accounts_inv L" and find: "find_account L i = Some a"
    and own: "own_usage_of a (Some t) = Inr u" and u': "usage_ok u'"
    and safe: "safe_count (tree_total L - total_tokens u + total_tokens u')"
  shows "in_place L a (set_usage t u' a)" and "accounts_inv (put_account (set_usage t u' a) L)"
    and "own_of a = u" and "own_of (set_usage t u' a) = u'" and "turn_of a = Some t"
proof -
  have ok: "account_ok a" using inv_account [OF inv find] .
  then have b: "bound_ok a" by (simp add: account_ok_def)
  note l = own_of_lookup [OF b own]
  show ip: "in_place L a (set_usage t u' a)"
    using in_placeI [OF inv_tree [OF inv] find] by simp
  show o: "own_of a = u" "turn_of a = Some t" using l by simp_all
  show o': "own_of (set_usage t u' a) = u'" using l by (simp add: own_of_def set_usage_def)
  have us: "acc_usage (set_usage t u' a) = [(t, u')]" using l by (simp add: set_usage_def)
  have b': "bound_ok (set_usage t u' a)"
    using b l u' unfolding bound_ok_def us by (auto split: option.splits)
  have ok': "account_ok (set_usage t u' a)" using ok b' by (simp add: account_ok_def)
  show "accounts_inv (put_account (set_usage t u' a) L)"
  proof (rule accounts_put [OF inv find _ _ ok'])
    show "set (map fst (acc_usage (set_usage t u' a))) - set (map fst (acc_usage a))
        \<subseteq> - set (turns_of (lg_accounts L))" using l us by simp
    show "safe_count ((\<Sum>a\<leftarrow>lg_accounts L. own_tokens a) - own_tokens a + own_tokens (set_usage t u' a))"
      using safe tree_total_is_sum [OF inv_tree [OF inv]] own_of_tokens [OF b] own_of_tokens [OF b'] o o'
      by simp
  qed simp_all
qed

lemma charge_change:
  assumes inv: "accounts_inv L" and ch: "charges L a r a' r'"
  shows "in_place L a a'" and "accounts_inv (put_account a' L)" and "turn_of a' = turn_of a"
    and "acc_id a = req_account r"
    and "f \<in> counters \<Longrightarrow> f (own_of a) + (f (observed_usage r') - f (observed_usage r)) \<le> f (own_of a')"
proof -
  from ch obtain u u' where find: "find_account L (req_account r) = Some a"
    and own: "own_usage_of a (Some (req_turn r)) = Inr u" and a': "a' = set_usage (req_turn r) u' a"
    and u': "usage_ok u'" "safe_count (tree_total L - total_tokens u + total_tokens u')"
    and f: "\<forall>f \<in> counters. f u + f (observed_usage r') - f (observed_usage r) \<le> f u'"
    by (auto simp: charges_def)
  note c = usage_change [OF inv find own u', folded a']
  show "in_place L a a'" "accounts_inv (put_account a' L)" using c by simp_all
  show "turn_of a' = turn_of a" by (simp add: a')
  show "acc_id a = req_account r" using find_account_mem [OF find] by simp
  show "f \<in> counters \<Longrightarrow> f (own_of a) + (f (observed_usage r') - f (observed_usage r)) \<le> f (own_of a')"
    using f c by (simp add: add_diff_eq)
qed

lemma accounts_core:
  "accounts_inv L \<Longrightarrow> lg_accounts M = lg_accounts L \<Longrightarrow> lg_root M = lg_root L
   \<Longrightarrow> lg_root_session M = lg_root_session L \<Longrightarrow> lg_root_turn M = lg_root_turn L \<Longrightarrow> accounts_inv M"
  using same_tree_ok [of L M] same_tree_find [of L M] by (simp add: accounts_inv_def same_tree_def)

lemma charge_invariant:
  assumes inv: "ledger_inv L" and ch: "charges L a r a' r'" and r: "r \<in> set (all_requests L)"
    and m: "lg_accounts M = lg_accounts (put_account a' L)" "lg_root M = lg_root L"
      "lg_root_session M = lg_root_session L" "lg_root_turn M = lg_root_turn L"
    and rq: "set (all_requests M) \<subseteq> insert r'' (set (all_requests L))"
      "distinct_keys req_id (all_requests M)" "distinct_keys req_account (lg_requests M)"
      "\<And>f i. charged f i (all_requests M)
         = charged f i (all_requests L) - charged f i [r] + charged f i [r']"
    and r'': "r'' = r'\<lparr>req_unresolved := b\<rparr>"
  shows "ledger_inv M"
proof -
  have ai: "accounts_inv L" and ri: "requests_inv L" and wi: "watermark_inv L"
    using inv by (simp_all add: ledger_inv_def)
  note c = charge_change [OF ai ch]
  have am: "accounts_inv M" by (rule accounts_core [OF c(2)]) (simp_all add: m)
  have "belongs L r''"
    using ri r ch unfolding requests_inv_def r'' by (auto simp: charges_def belongs_def)
  then have "\<forall>x \<in> set (all_requests M). belongs L x" using rq(1) ri by (auto simp: requests_inv_def)
  then have "\<forall>x \<in> set (all_requests M). belongs M x"
    using belongs_put [OF c(1)] c(3) belongs_core [OF m(1)] by auto
  then have rm: "requests_inv M" using rq by (simp add: requests_inv_def)
  have "watermark_inv M"
  proof (rule watermark_put [OF c(1) wi _ _ m(1) refl])
    show "f (own_of a) + (f (observed_usage r') - f (observed_usage r)) \<le> f (own_of a')"
      if "f \<in> counters" for f using c(5) [OF that] .
    show "charged f i (all_requests M) = charged f i (all_requests L)
        + (if i = acc_id a then f (observed_usage r') - f (observed_usage r) else 0)" for f i
      using rq(4) c(4) ch by (auto simp: charged_def charges_def)
  qed
  with am rm show ?thesis by (simp add: ledger_inv_def)
qed

lemma requests_distinct:
  "requests_inv L \<Longrightarrow> distinct_keys req_id (lg_requests L) \<and> distinct_keys req_id (lg_finished L)
   \<and> req_id ` set (lg_requests L) \<inter> req_id ` set (lg_finished L) = {}"
  by (auto simp: requests_inv_def all_requests_def)

lemma step_active:
  assumes inv: "ledger_inv L" and r: "r \<in> set (lg_requests L)" and ch: "charges L a r a' r'"
  shows "ledger_inv (put_account a' L\<lparr>lg_requests := kput req_id r' (lg_requests L), lg_poisoned := b\<rparr>)"
    (is "ledger_inv ?M")
proof (rule charge_invariant [OF inv ch, where r'' = r' and b = "req_unresolved r'"])
  have ri: "requests_inv L" using inv by (simp add: ledger_inv_def)
  note d = requests_distinct [OF ri]
  have id: "req_id r' = req_id r" "req_account r' = req_account r" using ch by (simp_all add: charges_def)
  show "r \<in> set (all_requests L)" using r by (simp add: all_requests_def)
  show "set (all_requests ?M) \<subseteq> insert r' (set (all_requests L))"
    using set_kput_subset by (fastforce simp: all_requests_def)
  show "distinct_keys req_id (all_requests ?M)"
    using ri kput_ids [OF r id(1)] by (simp add: requests_inv_def all_requests_def)
  have "map req_account (kput req_id r' (lg_requests L)) = map req_account (lg_requests L)"
    using d r id by (subst kput_as_map) (auto simp: rev_image_eqI distinct_map inj_on_def)
  then show "distinct_keys req_account (lg_requests ?M)" using ri by (simp add: requests_inv_def)
  show "charged f i (all_requests ?M) = charged f i (all_requests L) - charged f i [r] + charged f i [r']" for f i
    using charged_kput [OF _ r id(1)] d by (simp add: all_requests_def)
qed simp_all

lemma step_finish:
  assumes inv: "ledger_inv L" and r: "r \<in> set (lg_requests L)" and ch: "charges L a r a' r'"
  shows "ledger_inv (put_account a' L\<lparr>lg_requests := kdel req_id (req_id r) (lg_requests L),
          lg_finished := kput req_id r' (lg_finished L)\<rparr>)"
    (is "ledger_inv ?M")
proof (rule charge_invariant [OF inv ch, where r'' = r' and b = "req_unresolved r'"])
  have ri: "requests_inv L" using inv by (simp add: ledger_inv_def)
  note d = requests_distinct [OF ri]
  have id: "req_id r' = req_id r" using ch by (simp add: charges_def)
  have "req_id r \<in> req_id ` set (lg_requests L)" using r by simp
  then have new: "req_id r' \<notin> req_id ` set (lg_finished L)"
    unfolding id using d by (meson disjoint_iff)
  note fin = kput_new [OF new]
  show "r \<in> set (all_requests L)" using r by (simp add: all_requests_def)
  show "set (all_requests ?M) \<subseteq> insert r' (set (all_requests L))"
    by (auto simp: all_requests_def set_kdel fin)
  have "distinct_keys req_id (kdel req_id (req_id r) (lg_requests L))" using d by simp
  then show "distinct_keys req_id (all_requests ?M)"
    using d id new by (auto simp: all_requests_def set_kdel fin)
  show "distinct_keys req_account (lg_requests ?M)"
    using ri by (simp add: requests_inv_def kdel_def distinct_map_filter)
  show "charged f i (all_requests ?M) = charged f i (all_requests L) - charged f i [r] + charged f i [r']" for f i
    using charged_kdel [OF _ r] d charged_kput_new [OF new] by (simp add: all_requests_def)
qed simp_all

lemma step_receipt:
  assumes inv: "ledger_inv L" and r: "r \<in> set (lg_finished L)" and ch: "charges L a r a' r'"
  shows "ledger_inv (put_account a' L\<lparr>lg_finished := kput req_id r' (lg_finished L)\<rparr>)"
    (is "ledger_inv ?M")
proof (rule charge_invariant [OF inv ch, where r'' = r' and b = "req_unresolved r'"])
  have ri: "requests_inv L" using inv by (simp add: ledger_inv_def)
  note d = requests_distinct [OF ri]
  have id: "req_id r' = req_id r" using ch by (simp add: charges_def)
  show "r \<in> set (all_requests L)" using r by (simp add: all_requests_def)
  show "set (all_requests ?M) \<subseteq> insert r' (set (all_requests L))"
    using set_kput_subset by (fastforce simp: all_requests_def)
  show "distinct_keys req_id (all_requests ?M)"
    using ri kput_ids [OF r id(1)] by (simp add: requests_inv_def all_requests_def)
  show "distinct_keys req_account (lg_requests ?M)" using ri by (simp add: requests_inv_def)
  show "charged f i (all_requests ?M) = charged f i (all_requests L) - charged f i [r] + charged f i [r']" for f i
    using charged_kput [OF _ r id(1)] d by (simp add: all_requests_def)
qed simp_all

text \<open>The steps without a charge.\<close>

lemma ledger_core:
  assumes "ledger_inv L" and "lg_accounts M = lg_accounts L" and "lg_root M = lg_root L"
    and "lg_root_session M = lg_root_session L" and "lg_root_turn M = lg_root_turn L"
    and "lg_requests M = lg_requests L" and "lg_finished M = lg_finished L"
  shows "ledger_inv M"
proof -
  have "all_requests M = all_requests L" using assms by (simp add: all_requests_def)
  then show ?thesis
    using assms accounts_core [of L M] belongs_core [of M L]
    by (simp add: ledger_inv_def requests_inv_def watermark_inv_def)
qed

lemma quiet_put:
  assumes inv: "ledger_inv L" and ip: "in_place L a a'"
    and ai: "accounts_inv (put_account a' L)" and turn: "turn_of a \<noteq> None \<longrightarrow> turn_of a' = turn_of a"
    and own: "\<And>f. f \<in> counters \<Longrightarrow> f (own_of a) \<le> f (own_of a')"
  shows "ledger_inv (put_account a' L)"
proof -
  have eq: "all_requests (put_account a' L) = all_requests L" by (simp add: all_requests_def)
  have "watermark_inv (put_account a' L)"
    by (rule watermark_put [OF ip, where ex = "\<lambda>_. 0" and rs = "all_requests L"])
      (use inv own eq in \<open>auto simp: ledger_inv_def\<close>)
  moreover have "requests_inv (put_account a' L)"
    using inv belongs_put [OF ip turn] by (auto simp: ledger_inv_def requests_inv_def eq)
  ultimately show ?thesis using ai by (simp add: ledger_inv_def)
qed

lemma step_label:
  assumes inv: "ledger_inv L" and find: "find_account L i = Some a" and rl: "relabels a a'"
  shows "ledger_inv (put_account a' L)"
proof -
  have ai: "accounts_inv L" using inv by (simp add: ledger_inv_def)
  from rl obtain lim st where a': "a' = a\<lparr>acc_limit := lim, acc_settled := st\<rparr>" and lim: "safe_count lim"
    by (auto simp: relabels_def)
  have ok: "account_ok a'" using inv_account [OF ai find] lim
    by (auto simp: a' account_ok_def bound_ok_def split: option.splits)
  have eq: "own_tokens a' = own_tokens a" "own_of a' = own_of a" "turn_of a' = turn_of a"
    by (simp_all add: a' own_tokens_def own_of_def turn_of_def)
  have "accounts_inv (put_account a' L)"
    by (rule accounts_put [OF ai find]) (use ok eq ai in \<open>auto simp: a' accounts_inv_def\<close>)
  moreover have "in_place L a a'" using in_placeI [OF inv_tree [OF ai] find] by (simp add: a')
  ultimately show ?thesis using quiet_put [OF inv] eq by simp
qed

lemma step_bind:
  assumes inv: "ledger_inv L" and find: "find_account L i = Some a" and none: "acc_turn a = None"
    and id: "is_uuid s" "is_uuid t" and fresh: "t \<notin> set (turns_of (lg_accounts L))"
  shows "ledger_inv (put_account (a\<lparr>acc_turn := Some (s, t), acc_usage := [(t, empty_usage)]\<rparr>) L)"
    (is "ledger_inv (put_account ?a L)")
proof -
  have ai: "accounts_inv L" using inv by (simp add: ledger_inv_def)
  have us: "acc_usage a = []" using inv_account [OF ai find] none by (simp add: account_ok_def bound_ok_def)
  have ok: "account_ok ?a" using inv_account [OF ai find] id by (simp add: account_ok_def bound_ok_def)
  have eq: "own_tokens ?a = own_tokens a" "own_of ?a = own_of a"
    by (simp_all add: own_tokens_def own_of_def us empty_usage_def)
  have "accounts_inv (put_account ?a L)"
    by (rule accounts_put [OF ai find]) (use ok eq ai none fresh us in \<open>auto simp: accounts_inv_def\<close>)
  moreover have "in_place L a ?a" using in_placeI [OF inv_tree [OF ai] find] by simp
  moreover have "turn_of a = None" by (simp add: turn_of_def none)
  ultimately show ?thesis using quiet_put [OF inv] eq by simp
qed

lemma step_open:
  assumes inv: "ledger_inv L" and op: "opens L a n" and ok: "account_ok n" and none: "acc_turn n = None"
  shows "ledger_inv (put_account n L)"
proof -
  have ai: "accounts_inv L" using inv by (simp add: ledger_inv_def)
  have eq: "all_requests (put_account n L) = all_requests L" by (simp add: all_requests_def)
  have us: "acc_usage n = []" using ok none by (simp add: account_ok_def bound_ok_def)
  have bel: "belongs (put_account n L) r" if "belongs L r" for r
    using that op by (auto simp: belongs_def opens_find [OF op] opens_def)
  have "req_account r \<noteq> acc_id n" if "r \<in> set (all_requests L)" for r
    using inv that op by (auto simp: ledger_inv_def requests_inv_def belongs_def opens_def)
  then have "charged f (acc_id n) (all_requests L) = 0" for f
    by (intro charged_none) auto
  then have "watermark_inv (put_account n L)"
    using inv us by (auto simp: ledger_inv_def watermark_inv_def eq opens_accounts [OF op] own_of_def)
  then show ?thesis
    using accounts_open [OF ai op ok none] bel inv by (auto simp: ledger_inv_def requests_inv_def eq)
qed

lemma step_spend:
  assumes inv: "ledger_inv L" and find: "find_account L i = Some a"
    and own: "own_usage_of a (Some t) = Inr u" and u': "usage_ok u'"
    and more: "usage_at_least (Some u') (Some u)"
    and safe: "safe_count (tree_total L - total_tokens u + total_tokens u')"
  shows "ledger_inv (put_account (set_usage t u' a) L)"
proof -
  have "accounts_inv L" using inv by (simp add: ledger_inv_def)
  note c = usage_change [OF this find own u' safe]
  show ?thesis
    by (rule quiet_put [OF inv c(1,2)]) (simp_all add: c counter_at_least [OF _ u' more])
qed

lemma step_begin:
  assumes inv: "ledger_inv L" and find: "find_account L (req_account r) = Some a"
    and turn: "turn_of a = Some (req_turn r)" and none: "req_usage r = None" and id: "is_uuid (req_id r)"
    and fresh: "req_id r \<notin> req_id ` set (all_requests L)" and free: "\<not> has_request L a"
  shows "ledger_inv (L\<lparr>lg_requests := kput req_id r (lg_requests L)\<rparr>)" (is "ledger_inv ?M")
proof -
  have new: "kput req_id r (lg_requests L) = lg_requests L @ [r]"
    using fresh by (intro kput_new) (auto simp: all_requests_def)
  have "accounts_inv L" using inv by (simp add: ledger_inv_def)
  then have am: "accounts_inv ?M" by (rule accounts_core) simp_all
  have bel: "belongs ?M = belongs L" by (intro ext belongs_core) simp
  have all: "all_requests ?M = lg_requests L @ r # lg_finished L" "lg_requests ?M = lg_requests L @ [r]"
    by (simp_all add: all_requests_def new)
  have "belongs L r" using find turn none id by (auto simp: belongs_def)
  moreover have "req_account r \<notin> req_account ` set (lg_requests L)"
    using free find_account_mem [OF find] by (auto simp: has_request_def list_ex_iff)
  moreover have "requests_inv L" using inv by (simp add: ledger_inv_def)
  ultimately have rm: "requests_inv ?M"
    using fresh unfolding requests_inv_def bel all by (auto simp: all_requests_def)
  have "charged f i (all_requests ?M) = charged f i (all_requests L)" if "f \<in> counters" for f i
    unfolding all using that none by (simp add: all_requests_def charged_def observed_usage_def)
  then have "watermark_inv ?M" using inv by (simp add: ledger_inv_def watermark_inv_def)
  with am rm show ?thesis by (simp add: ledger_inv_def)
qed

theorem core_step_inv:
  assumes "core_step L M" and inv: "ledger_inv L"
  shows "ledger_inv M"
  using assms(1)
proof cases
  case (cs_flags b)
  with inv show ?thesis by (auto intro: ledger_core)
next
  case (cs_label i a a')
  with inv show ?thesis by (simp add: step_label)
next
  case (cs_bind i a s t)
  with inv show ?thesis by (simp add: step_bind)
next
  case (cs_open a n)
  with inv show ?thesis by (simp add: step_open)
next
  case (cs_spend i a t u u')
  with inv show ?thesis by (simp add: step_spend)
next
  case (cs_begin r a)
  with inv show ?thesis by (simp add: step_begin)
next
  case (cs_active r a r' a' b)
  with inv show ?thesis by (simp add: step_active)
next
  case (cs_finish r a r' a')
  with inv show ?thesis by (simp add: step_finish)
next
  case (cs_receipt r a r' a')
  with inv show ?thesis by (simp add: step_receipt)
qed

end
