(* ===== verification/LedgerStore.thy ===== *)
theory LedgerStore
  imports LedgerCore
begin

text \<open>
  The stores of the ledger (\<open>store/budget/disk.ts\<close>, \<open>store/budget/memory.ts\<close>): the
  scope check, the refusal of a stale snapshot (\<open>assertSameRoot\<close>), the in-memory
  store, the disk store over a file map, what both promise (\<open>budget_store\<close>), and
  \<open>openSessionTokenBudget\<close>.
\<close>

subsection \<open>Checks of a save\<close>

datatype store_error =
    BadSnapshot ledger_error
  | BadScope
  | ScopeMismatch
  | DifferentRoot
  | ReopenUnresolved
  | AccountReplaced
  | UsageReduced
  | ReceiptRemoved
  | RequestForgotten
  | LedgerMissing
  | LimitRequired
  | LimitMismatch
  | WriteFailed

type_synonym scope = "string \<times> string"     \<comment> \<open>root session id, root turn id\<close>

definition lift_ledger :: "(ledger_error, 'a) outcome \<Rightarrow> (store_error, 'a) outcome" where
  "lift_ledger m = (case m of Inl e \<Rightarrow> Inl (BadSnapshot e) | Inr x \<Rightarrow> Inr x)"

definition validate_budget_scope :: "scope \<Rightarrow> (store_error, scope) outcome" where
  "validate_budget_scope sc =
     (if is_uuid (fst sc) \<and> is_uuid (snd sc) then Inr sc else Inl BadScope)"

definition validate_snapshot_scope :: "json \<Rightarrow> scope \<Rightarrow> (store_error, snapshot) outcome" where
  "validate_snapshot_scope v sc =
     bindE (lift_ledger (validate_snapshot v)) (\<lambda>s.
     bindE (require (sn_root_session s = fst sc \<and> sn_root_turn s = snd sc) ScopeMismatch) (\<lambda>_. Inr s))"

text \<open>\<open>new Map(xs.map(...))\<close>: a later entry replaces an earlier one of the same id.\<close>

definition latest :: "('a \<Rightarrow> string) \<Rightarrow> string \<Rightarrow> 'a list \<Rightarrow> 'a option" where
  "latest key k xs = kfind key k (rev xs)"

definition account_kept :: "account list \<Rightarrow> account \<Rightarrow> (store_error, unit) outcome" where
  "account_kept accs previous =
     (case latest acc_id (acc_id previous) accs of
        None \<Rightarrow> Inl AccountReplaced
      | Some current \<Rightarrow>
          if (acc_limit previous > 0 \<and> (acc_limit current = 0 \<or> acc_limit current > acc_limit previous))
             \<or> acc_parent current \<noteq> acc_parent previous
             \<or> (acc_turn previous \<noteq> None \<and> acc_turn current \<noteq> acc_turn previous)
             \<or> (acc_settled previous \<and> \<not> acc_settled current)
          then Inl AccountReplaced
          else bindE (mapE (\<lambda>(turn, spent). require
                 (usage_at_least (map_of (acc_usage current) turn) (Some spent)) UsageReduced)
                 (acc_usage previous)) (\<lambda>_. Inr ()))"

definition receipt_kept :: "request list \<Rightarrow> request \<Rightarrow> (store_error, unit) outcome" where
  "receipt_kept completed previous =
     (case latest req_id (req_id previous) completed of
        None \<Rightarrow> Inl ReceiptRemoved
      | Some current \<Rightarrow> require (req_account current = req_account previous
          \<and> req_turn current = req_turn previous
          \<and> usage_at_least (req_usage current) (req_usage previous)) ReceiptRemoved)"

definition request_kept :: "bool \<Rightarrow> request list \<Rightarrow> request list \<Rightarrow> request \<Rightarrow> (store_error, unit) outcome" where
  "request_kept reconciled active completed previous =
     (case (case latest req_id (req_id previous) active of
              Some c \<Rightarrow> Some c | None \<Rightarrow> latest req_id (req_id previous) completed) of
        None \<Rightarrow> Inl RequestForgotten
      | Some current \<Rightarrow> require (\<not> (req_account current \<noteq> req_account previous
          \<or> req_turn current \<noteq> req_turn previous
          \<or> (req_unresolved previous \<and> \<not> req_unresolved current
             \<and> (latest req_id (req_id previous) active \<noteq> None \<or> req_usage current = None))
          \<or> (reconciled \<and> req_usage current = None)
          \<or> \<not> usage_at_least (req_usage current) (req_usage previous))) RequestForgotten)"

definition assert_same_root :: "snapshot \<Rightarrow> snapshot \<Rightarrow> (store_error, unit) outcome" where
  "assert_same_root before after =
     (let reconciled = sn_poisoned before \<and> \<not> sn_poisoned after in
      bindE (require (sn_root_account before = sn_root_account after) DifferentRoot) (\<lambda>_.
      bindE (require (\<not> (reconciled \<and> sn_requests after \<noteq> [])) ReopenUnresolved) (\<lambda>_.
      bindE (mapE (account_kept (sn_accounts after)) (sn_accounts before)) (\<lambda>_.
      bindE (mapE (receipt_kept (sn_completed after)) (sn_completed before)) (\<lambda>_.
      bindE (mapE (request_kept reconciled (sn_requests after) (sn_completed after)) (sn_requests before))
        (\<lambda>_. Inr ()))))))"

subsection \<open>What a save keeps\<close>

lemma mapE_Inr_ex: "(\<exists>ys. mapE f xs = Inr ys) \<longleftrightarrow> (\<forall>x \<in> set xs. \<exists>y. f x = Inr y)"
  by (induction xs) (auto simp: bindE_Inr_iff)

lemma latest_distinct: "distinct_keys key xs \<Longrightarrow> latest key k xs = Some x \<longleftrightarrow> x \<in> set xs \<and> key x = k"
  using kfind_iff [of key "rev xs"] by (simp add: latest_def rev_map [symmetric])

lemma latest_none: "latest key k xs = None \<longleftrightarrow> k \<notin> key ` set xs"
  by (simp add: latest_def kfind_None_iff)

definition account_grows :: "account \<Rightarrow> account \<Rightarrow> bool" where
  "account_grows p c \<longleftrightarrow> acc_id c = acc_id p \<and> acc_parent c = acc_parent p
     \<and> (acc_limit p > 0 \<longrightarrow> acc_limit c \<noteq> 0 \<and> acc_limit c \<le> acc_limit p)
     \<and> (acc_turn p \<noteq> None \<longrightarrow> acc_turn c = acc_turn p) \<and> (acc_settled p \<longrightarrow> acc_settled c)
     \<and> (\<forall>(t, u) \<in> set (acc_usage p). usage_at_least (map_of (acc_usage c) t) (Some u))"

definition request_grows :: "request \<Rightarrow> request \<Rightarrow> bool" where
  "request_grows p c \<longleftrightarrow> req_id c = req_id p \<and> req_account c = req_account p \<and> req_turn c = req_turn p
     \<and> usage_at_least (req_usage c) (req_usage p)"

lemma account_kept_iff:
  assumes "distinct_keys acc_id accs"
  shows "account_kept accs p = Inr () \<longleftrightarrow> (\<exists>c \<in> set accs. account_grows p c)"
proof (cases "latest acc_id (acc_id p) accs")
  case None
  then have "acc_id p \<notin> acc_id ` set accs" by (simp add: latest_none)
  with None show ?thesis by (auto simp: account_kept_def account_grows_def rev_image_eqI)
next
  case (Some c)
  then have c: "c \<in> set accs" "acc_id c = acc_id p" using assms by (simp_all add: latest_distinct)
  have "(\<exists>ys. mapE (\<lambda>(turn, spent). require
      (usage_at_least (map_of (acc_usage c) turn) (Some spent)) UsageReduced) (acc_usage p) = Inr ys)
    \<longleftrightarrow> (\<forall>(t, u) \<in> set (acc_usage p). usage_at_least (map_of (acc_usage c) t) (Some u))"
    unfolding mapE_Inr_ex by auto
  then have m: "account_kept accs p = Inr () \<longleftrightarrow> account_grows p c"
    using c(2) by (auto simp: account_kept_def Some account_grows_def bindE_Inr_iff)
  have "x = c" if "x \<in> set accs" "account_grows p x" for x
    using distinct_keys_inj [OF assms that(1) c(1)] c(2) that(2) by (simp add: account_grows_def)
  with m show ?thesis using c(1) by blast
qed

lemma receipt_kept_iff:
  assumes "distinct_keys req_id rs"
  shows "receipt_kept rs p = Inr () \<longleftrightarrow> (\<exists>c \<in> set rs. request_grows p c)"
proof (cases "latest req_id (req_id p) rs")
  case None
  then have "req_id p \<notin> req_id ` set rs" by (simp add: latest_none)
  with None show ?thesis by (auto simp: receipt_kept_def request_grows_def rev_image_eqI)
next
  case (Some c)
  then have c: "c \<in> set rs" "req_id c = req_id p" using assms by (simp_all add: latest_distinct)
  have "x = c" if "x \<in> set rs" "request_grows p x" for x
    using distinct_keys_inj [OF assms that(1) c(1)] c(2) that(2) by (simp add: request_grows_def)
  moreover have "receipt_kept rs p = Inr () \<longleftrightarrow> request_grows p c"
    using c(2) by (simp add: receipt_kept_def Some request_grows_def)
  ultimately show ?thesis using c(1) by blast
qed

text \<open>The acceptance of a save, said over the two snapshots' contents.\<close>

definition grows :: "snapshot \<Rightarrow> snapshot \<Rightarrow> bool" where
  "grows p s \<longleftrightarrow> sn_root_account p = sn_root_account s
     \<and> (sn_poisoned p \<and> \<not> sn_poisoned s \<longrightarrow> sn_requests s = [])
     \<and> (\<forall>a \<in> set (sn_accounts p). \<exists>c \<in> set (sn_accounts s). account_grows a c)
     \<and> (\<forall>r \<in> set (sn_completed p). \<exists>c \<in> set (sn_completed s). request_grows r c)
     \<and> (\<forall>r \<in> set (sn_requests p).
          (\<exists>c \<in> set (sn_requests s). request_grows r c \<and> (req_unresolved r \<longrightarrow> req_unresolved c))
          \<or> (req_id r \<notin> req_id ` set (sn_requests s)
             \<and> (\<exists>c \<in> set (sn_completed s). request_grows r c
                 \<and> (req_unresolved r \<longrightarrow> req_unresolved c \<or> req_usage c \<noteq> None)
                 \<and> (sn_poisoned p \<and> \<not> sn_poisoned s \<longrightarrow> req_usage c \<noteq> None))))"

lemma request_kept_active:
  assumes "distinct_keys req_id active" and "c \<in> set active" and "request_grows p c"
    and "req_unresolved p \<longrightarrow> req_unresolved c" and "rec \<longrightarrow> active = []"
  shows "request_kept rec active completed p = Inr ()"
proof -
  have "latest req_id (req_id p) active = Some c"
    using assms by (simp add: latest_distinct request_grows_def)
  moreover have "\<not> rec" using assms by auto
  ultimately show ?thesis using assms by (auto simp: request_kept_def request_grows_def)
qed

lemma request_kept_completed:
  assumes "distinct_keys req_id completed" and "req_id p \<notin> req_id ` set active" and "c \<in> set completed"
    and "request_grows p c" and "req_unresolved p \<longrightarrow> req_unresolved c \<or> req_usage c \<noteq> None"
    and "rec \<longrightarrow> req_usage c \<noteq> None"
  shows "request_kept rec active completed p = Inr ()"
proof -
  have "latest req_id (req_id p) completed = Some c"
    using assms by (simp add: latest_distinct request_grows_def)
  moreover have "latest req_id (req_id p) active = None" using assms(2) by (simp add: latest_none)
  ultimately show ?thesis using assms by (auto simp: request_kept_def request_grows_def)
qed

lemma grows_accepted:
  assumes "grows p s" and "distinct_keys acc_id (sn_accounts s)"
    and "distinct_keys req_id (sn_requests s)" and "distinct_keys req_id (sn_completed s)"
  shows "assert_same_root p s = Inr ()"
proof -
  have "\<forall>a \<in> set (sn_accounts p). account_kept (sn_accounts s) a = Inr ()"
    using assms(1) account_kept_iff [OF assms(2)] unfolding grows_def by blast
  note a = mapE_values [OF this]
  have "\<forall>r \<in> set (sn_completed p). receipt_kept (sn_completed s) r = Inr ()"
    using assms(1) receipt_kept_iff [OF assms(4)] unfolding grows_def by blast
  note c = mapE_values [OF this]
  have "\<forall>r \<in> set (sn_requests p). request_kept (sn_poisoned p \<and> \<not> sn_poisoned s)
      (sn_requests s) (sn_completed s) r = Inr ()"
  proof
    fix r
    assume "r \<in> set (sn_requests p)"
    with assms(1) consider c where "c \<in> set (sn_requests s)" "request_grows r c" "req_unresolved r \<longrightarrow> req_unresolved c"
      | c where "req_id r \<notin> req_id ` set (sn_requests s)" "c \<in> set (sn_completed s)" "request_grows r c"
          "req_unresolved r \<longrightarrow> req_unresolved c \<or> req_usage c \<noteq> None"
          "sn_poisoned p \<and> \<not> sn_poisoned s \<longrightarrow> req_usage c \<noteq> None"
      unfolding grows_def by blast
    then show "request_kept (sn_poisoned p \<and> \<not> sn_poisoned s) (sn_requests s) (sn_completed s) r = Inr ()"
    proof cases
      case (1 c)
      have "sn_poisoned p \<and> \<not> sn_poisoned s \<longrightarrow> sn_requests s = []"
        using assms(1) unfolding grows_def by blast
      then show ?thesis by (rule request_kept_active [OF assms(3) 1])
    next
      case (2 c)
      then show ?thesis by (rule request_kept_completed [OF assms(4)])
    qed
  qed
  note r = mapE_values [OF this]
  have "sn_root_account p = sn_root_account s"
    "\<not> ((sn_poisoned p \<and> \<not> sn_poisoned s) \<and> sn_requests s \<noteq> [])"
    using assms(1) unfolding grows_def by blast+
  then show ?thesis unfolding assert_same_root_def Let_def a c r require_def by simp
qed

subsection \<open>Every step of the ledger is accepted\<close>

lemma account_grows_refl [simp]: "distinct (map fst (acc_usage a)) \<Longrightarrow> account_grows a a"
  by (auto simp: account_grows_def)

lemma request_grows_refl [simp]: "request_grows r r"
  by (simp add: request_grows_def)

lemma same_receipt: "r \<in> set rs \<Longrightarrow> \<exists>c \<in> set rs. request_grows r c"
  using request_grows_refl by blast

lemma same_request:
  "r \<in> set rs \<Longrightarrow> \<exists>c \<in> set rs. request_grows r c \<and> (req_unresolved r \<longrightarrow> req_unresolved c)"
  using request_grows_refl by blast

lemma account_ok_usage: "account_ok a \<Longrightarrow> distinct (map fst (acc_usage a))"
  unfolding account_ok_def by (auto elim: bound_cases)

lemma inv_account_grows:
  "ledger_inv L \<Longrightarrow> a \<in> set (lg_accounts L) \<Longrightarrow> account_grows a a"
  using account_ok_usage by (simp add: ledger_inv_def accounts_inv_def)

definition accounts_grow :: "ledger \<Rightarrow> ledger \<Rightarrow> bool" where
  "accounts_grow L M \<longleftrightarrow> (\<forall>a \<in> set (lg_accounts L). \<exists>c \<in> set (lg_accounts M). account_grows a c)"

lemma accounts_grow_same: "ledger_inv L \<Longrightarrow> lg_accounts M = lg_accounts L \<Longrightarrow> accounts_grow L M"
  using inv_account_grows by (auto simp: accounts_grow_def)

lemma accounts_grow_put:
  assumes inv: "ledger_inv L" and ip: "in_place L a a'" and g: "account_grows a a'"
    and m: "lg_accounts M = lg_accounts (put_account a' L)"
  shows "accounts_grow L M"
  unfolding accounts_grow_def
proof
  fix x
  assume x: "x \<in> set (lg_accounts L)"
  then have "swap_to a' x \<in> set (lg_accounts M)" using mem_put [OF ip] m by simp
  moreover have "account_grows x (swap_to a' x)"
    using g swap_self [OF ip] swap_other [OF ip x] inv_account_grows [OF inv x] by (cases "x = a") auto
  ultimately show "\<exists>c \<in> set (lg_accounts M). account_grows x c" by blast
qed

lemma set_usage_grows:
  assumes "bound_ok a" and "own_usage_of a (Some t) = Inr u" and "usage_at_least (Some u') (Some u)"
  shows "account_grows a (set_usage t u' a)"
  using own_of_lookup [OF assms(1,2)] assms(3)
  by (auto simp: account_grows_def set_usage_def)

lemma charge_grows:
  assumes inv: "ledger_inv L" and ch: "charges L a r a' r'"
    and m: "lg_accounts M = lg_accounts (put_account a' L)"
  shows "accounts_grow L M"
proof -
  have ai: "accounts_inv L" using inv by (simp add: ledger_inv_def)
  from ch obtain u u' where find: "find_account L (req_account r) = Some a"
    and own: "own_usage_of a (Some (req_turn r)) = Inr u" and a': "a' = set_usage (req_turn r) u' a"
    and more: "usage_at_least (Some u') (Some u)"
    by (auto simp: charges_def)
  have "bound_ok a" using inv_account [OF ai find] by (simp add: account_ok_def)
  then have "account_grows a a'" unfolding a' using own more by (rule set_usage_grows)
  then show "accounts_grow L M" using accounts_grow_put [OF inv charge_change(1) [OF ai ch] _ m] by blast
qed

lemma charge_request_grows: "charges L a r a' r' \<Longrightarrow> request_grows r r'"
  by (simp add: charges_def request_grows_def)

lemma grows_intro:
  assumes "lg_root M = lg_root L" and "accounts_grow L M"
    and "lg_poisoned L \<and> \<not> lg_poisoned M \<longrightarrow> lg_requests M = [] \<and> lg_requests L = []"
    and "\<And>r. r \<in> set (lg_finished L) \<Longrightarrow> \<exists>c \<in> set (lg_finished M). request_grows r c"
    and "\<And>r. r \<in> set (lg_requests L) \<Longrightarrow>
       (\<exists>c \<in> set (lg_requests M). request_grows r c \<and> (req_unresolved r \<longrightarrow> req_unresolved c))
       \<or> (req_id r \<notin> req_id ` set (lg_requests M)
          \<and> (\<exists>c \<in> set (lg_finished M). request_grows r c
               \<and> (req_unresolved r \<longrightarrow> req_unresolved c \<or> req_usage c \<noteq> None)))"
  shows "grows (take_snapshot L) (take_snapshot M)"
proof -
  have "(\<exists>c \<in> set (lg_requests M). request_grows r c \<and> (req_unresolved r \<longrightarrow> req_unresolved c))
      \<or> (req_id r \<notin> req_id ` set (lg_requests M) \<and> (\<exists>c \<in> set (lg_finished M). request_grows r c
               \<and> (req_unresolved r \<longrightarrow> req_unresolved c \<or> req_usage c \<noteq> None)
               \<and> (lg_poisoned L \<and> \<not> lg_poisoned M \<longrightarrow> req_usage c \<noteq> None)))"
    if r: "r \<in> set (lg_requests L)" for r
  proof -
    have "\<not> (lg_poisoned L \<and> \<not> lg_poisoned M)" using assms(3) r by auto
    with assms(5) [OF r] show ?thesis by blast
  qed
  with assms(1-4) show ?thesis by (simp add: grows_def accounts_grow_def take_snapshot_def)
qed

lemma grows_more_requests:
  assumes "lg_root M = lg_root L" and "accounts_grow L M"
    and "lg_poisoned L \<and> \<not> lg_poisoned M \<longrightarrow> lg_requests M = [] \<and> lg_requests L = []"
    and "set (lg_finished L) \<subseteq> set (lg_finished M)" and "set (lg_requests L) \<subseteq> set (lg_requests M)"
  shows "grows (take_snapshot L) (take_snapshot M)"
  by (rule grows_intro [OF assms(1-3)]) (use assms(4,5) request_grows_refl in blast)+

lemma put_grows:
  assumes "ledger_inv L" and "in_place L a a'" and "account_grows a a'"
  shows "grows (take_snapshot L) (take_snapshot (put_account a' L))"
  by (rule grows_more_requests) (use accounts_grow_put [OF assms refl] in auto)

lemma kput_keeps:
  assumes "r \<in> set rs" and "x \<in> set rs" and "request_grows r r'" and "distinct_keys req_id rs"
    and "req_unresolved r \<longrightarrow> req_unresolved r' \<or> ok"
  shows "\<exists>c \<in> set (kput req_id r' rs). request_grows x c \<and> (req_unresolved x \<longrightarrow> req_unresolved c \<or> ok)"
proof -
  have s: "set (kput req_id r' rs) = insert r' (set rs - {r})"
    using assms by (intro kput_set) (auto simp: request_grows_def)
  show ?thesis
  proof (cases "x = r")
    case True
    with assms show ?thesis unfolding s by blast
  next
    case False
    with assms(2) have "x \<in> set (kput req_id r' rs)" unfolding s by blast
    then show ?thesis using request_grows_refl by blast
  qed
qed

theorem core_step_grows:
  assumes "core_step L M" and inv: "ledger_inv L"
  shows "grows (take_snapshot L) (take_snapshot M)"
proof -
  have ai: "accounts_inv L" and ri: "requests_inv L" using inv by (simp_all add: ledger_inv_def)
  note d = requests_distinct [OF ri]
  from assms(1) show ?thesis
  proof cases
    case (cs_flags b)
    then show ?thesis using accounts_grow_same [OF inv, of M] by (intro grows_more_requests) auto
  next
    case (cs_label i a a')
    then have "in_place L a a'" "account_grows a a'"
      using in_placeI [OF inv_tree [OF ai]] account_ok_usage [OF inv_account [OF ai]]
      by (auto simp: relabels_def account_grows_def)
    then show ?thesis using put_grows [OF inv] cs_label by simp
  next
    case (cs_bind i a s t)
    have "acc_usage a = []"
      using inv_account [OF ai cs_bind(2)] cs_bind(3) by (simp add: account_ok_def bound_ok_def)
    then have "account_grows a (a\<lparr>acc_turn := Some (s, t), acc_usage := [(t, empty_usage)]\<rparr>)"
      using cs_bind by (simp add: account_grows_def)
    moreover have "in_place L a (a\<lparr>acc_turn := Some (s, t), acc_usage := [(t, empty_usage)]\<rparr>)"
      by (rule in_placeI [OF inv_tree [OF ai] cs_bind(2)]) simp_all
    ultimately show ?thesis unfolding cs_bind(1) by (intro put_grows [OF inv])
  next
    case (cs_open a n)
    have "accounts_grow L M"
      using inv_account_grows [OF inv] by (auto simp: accounts_grow_def cs_open(1) opens_accounts [OF cs_open(2)])
    then show ?thesis by (intro grows_more_requests) (auto simp: cs_open(1))
  next
    case (cs_spend i a t u u')
    have "account_grows a (set_usage t u' a)"
      using inv_account [OF ai cs_spend(2)] cs_spend by (intro set_usage_grows) (auto simp: account_ok_def)
    then show ?thesis
      using put_grows [OF inv] usage_change(1) [OF ai cs_spend(2,3,4,6)] cs_spend(1) by simp
  next
    case (cs_begin r a)
    have "kput req_id r (lg_requests L) = lg_requests L @ [r]"
      using cs_begin by (intro kput_new) (auto simp: all_requests_def)
    then show ?thesis
      using accounts_grow_same [OF inv, of M] cs_begin(1) by (intro grows_more_requests) auto
  next
    case (cs_active r a a' r' b)
    note g = charge_grows [OF inv cs_active(3), of M] and g' = charge_request_grows [OF cs_active(3)]
    show ?thesis
    proof (rule grows_intro)
      fix x
      assume "x \<in> set (lg_requests L)"
      then have "\<exists>c \<in> set (kput req_id r' (lg_requests L)).
          request_grows x c \<and> (req_unresolved x \<longrightarrow> req_unresolved c \<or> False)"
        using kput_keeps [of r _ x r' False] g' d cs_active by simp
      then show "(\<exists>c \<in> set (lg_requests M). request_grows x c \<and> (req_unresolved x \<longrightarrow> req_unresolved c))
        \<or> (req_id x \<notin> req_id ` set (lg_requests M)
          \<and> (\<exists>c \<in> set (lg_finished M). request_grows x c
               \<and> (req_unresolved x \<longrightarrow> req_unresolved c \<or> req_usage c \<noteq> None)))"
        by (simp add: cs_active(1))
    qed (use g cs_active in \<open>auto intro: same_receipt\<close>)
  next
    case (cs_finish r a a' r')
    note g = charge_grows [OF inv cs_finish(3), of M] and g' = charge_request_grows [OF cs_finish(3)]
    have "req_id r \<in> req_id ` set (lg_requests L)" using cs_finish by simp
    then have "req_id r' \<notin> req_id ` set (lg_finished L)"
      using d cs_finish(3) unfolding charges_def by (metis disjoint_iff)
    then have fin: "lg_finished M = lg_finished L @ [r']" by (simp add: cs_finish(1) kput_new)
    have rq: "lg_requests M = kdel req_id (req_id r) (lg_requests L)" by (simp add: cs_finish(1))
    show ?thesis
    proof (rule grows_intro)
      fix x
      assume x: "x \<in> set (lg_requests L)"
      show "(\<exists>c \<in> set (lg_requests M). request_grows x c \<and> (req_unresolved x \<longrightarrow> req_unresolved c))
        \<or> (req_id x \<notin> req_id ` set (lg_requests M)
          \<and> (\<exists>c \<in> set (lg_finished M). request_grows x c
               \<and> (req_unresolved x \<longrightarrow> req_unresolved c \<or> req_usage c \<noteq> None)))"
      proof (cases "x = r")
        case True
        then show ?thesis using g' cs_finish(4) by (auto simp: rq fin set_kdel)
      next
        case False
        then have "req_id x \<noteq> req_id r" using distinct_keys_inj d x cs_finish(2) by metis
        with x show ?thesis by (auto simp: rq set_kdel)
      qed
    next
      show "accounts_grow L M" using g by (simp add: cs_finish(1))
      show "\<exists>c \<in> set (lg_finished M). request_grows x c" if "x \<in> set (lg_finished L)" for x
        using same_receipt [OF that] unfolding fin set_append by blast
    qed (simp_all add: cs_finish(1))
  next
    case (cs_receipt r a a' r')
    note g = charge_grows [OF inv cs_receipt(3), of M] and g' = charge_request_grows [OF cs_receipt(3)]
    show ?thesis
    proof (rule grows_intro)
      fix x
      assume "x \<in> set (lg_finished L)"
      then show "\<exists>c \<in> set (lg_finished M). request_grows x c"
        using kput_keeps [of r _ x r' True] g' d cs_receipt by auto
    qed (use g cs_receipt in \<open>auto intro: same_request\<close>)
  qed
qed

subsection \<open>The two stores\<close>

text \<open>\<open>InMemorySessionTokenBudgetStore\<close>: snapshots under \<open>rootSessionId/rootTurnId\<close>.\<close>

type_synonym memory_store = "(string \<times> snapshot) list"

definition store_key :: "scope \<Rightarrow> string" where
  "store_key sc = fst sc @ ''/'' @ snd sc"

definition mem_load :: "memory_store \<Rightarrow> scope \<Rightarrow> (store_error, snapshot option) outcome" where
  "mem_load st sc = bindE (validate_budget_scope sc) (\<lambda>c. Inr (map_of st (store_key c)))"

definition mem_save ::
    "memory_store \<Rightarrow> scope \<Rightarrow> snapshot \<Rightarrow> (memory_store, store_error, unit) step_result" where
  "mem_save st sc s =
     (case bindE (validate_budget_scope sc) (\<lambda>c.
           bindE (validate_snapshot_scope (encode_snapshot s) c) (\<lambda>checked.
           bindE (case map_of st (store_key c) of None \<Rightarrow> Inr ()
                  | Some existing \<Rightarrow> assert_same_root existing checked) (\<lambda>_.
             Inr (AList.update (store_key c) checked st)))) of
        Inl e \<Rightarrow> (st, Inl e) | Inr st' \<Rightarrow> (st', Inr ()))"

text \<open>
  \<open>DiskSessionTokenBudgetStore\<close> over the documents on disk, by path. A document is
  the JSON value its text parses to. Whether creating and renaming a sidecar
  succeeds is the file system's to decide: the list says, save by save.
\<close>

type_synonym documents = "(string \<times> json) list"
type_synonym disk_store = "documents \<times> bool list"

definition io_next :: "bool list \<Rightarrow> bool" where
  "io_next io = (case io of [] \<Rightarrow> True | ok # _ \<Rightarrow> ok)"

definition budget_file :: "string \<Rightarrow> scope \<Rightarrow> string" where
  "budget_file dir sc = dir @ ''/'' @ fst sc @ ''/budgets/'' @ snd sc @ ''.json''"

definition disk_read :: "string \<Rightarrow> documents \<Rightarrow> scope \<Rightarrow> (store_error, snapshot option) outcome" where
  "disk_read dir docs sc =
     (case map_of docs (budget_file dir sc) of
        None \<Rightarrow> Inr None
      | Some doc \<Rightarrow> bindE (validate_snapshot_scope doc sc) (\<lambda>s. Inr (Some s)))"

definition disk_load :: "string \<Rightarrow> disk_store \<Rightarrow> scope \<Rightarrow> (store_error, snapshot option) outcome" where
  "disk_load dir st sc = bindE (validate_budget_scope sc) (disk_read dir (fst st))"

definition disk_save ::
    "string \<Rightarrow> disk_store \<Rightarrow> scope \<Rightarrow> snapshot \<Rightarrow> (disk_store, store_error, unit) step_result" where
  "disk_save dir st sc s =
     (case bindE (validate_budget_scope sc) (\<lambda>c.
           bindE (validate_snapshot_scope (encode_snapshot s) c) (\<lambda>checked.
           bindE (disk_read dir (fst st) c) (\<lambda>existing.
           bindE (case existing of None \<Rightarrow> Inr () | Some e \<Rightarrow> assert_same_root e checked) (\<lambda>_.
           bindE (require (io_next (snd st)) WriteFailed) (\<lambda>_.
             Inr (AList.update (budget_file dir c) (encode_snapshot checked) (fst st))))))) of
        Inl e \<Rightarrow> ((fst st, tl (snd st)), Inl e) | Inr docs \<Rightarrow> ((docs, tl (snd st)), Inr ()))"

subsection \<open>What a store promises\<close>

text \<open>
  The contract of \<open>SessionTokenBudgetStore\<close>: a refused save changes nothing; an
  accepted one is what the next load returns, extends what the store held, and
  leaves every other ledger alone.
\<close>

locale budget_store =
  fixes load :: "'st \<Rightarrow> scope \<Rightarrow> (store_error, snapshot option) outcome"
    and save :: "'st \<Rightarrow> scope \<Rightarrow> snapshot \<Rightarrow> ('st, store_error, unit) step_result"
  assumes save_refused: "save st sc s = (st', Inl e) \<Longrightarrow> load st' sc' = load st sc'"
    and save_accepted: "save st sc s = (st', Inr ()) \<Longrightarrow>
      \<exists>c. validate_snapshot (encode_snapshot s) = Inr c \<and> load st' sc = Inr (Some c)
        \<and> (\<forall>old. load st sc = Inr (Some old) \<longrightarrow> assert_same_root old c = Inr ())"
    and save_elsewhere: "sc \<noteq> sc' \<Longrightarrow> validate_budget_scope sc' = Inr sc'
      \<Longrightarrow> load (fst (save st sc s)) sc' = load st sc'"

definition survives :: "snapshot \<Rightarrow> snapshot \<Rightarrow> bool" where
  "survives p s \<longleftrightarrow> sn_root_account p = sn_root_account s
     \<and> (\<forall>a \<in> set (sn_accounts p). \<exists>c \<in> set (sn_accounts s). account_grows a c)
     \<and> (\<forall>r \<in> set (sn_completed p). \<exists>c \<in> set (sn_completed s). request_grows r c)"

lemma usage_at_least_counts:
  "usage_at_least (Some c) (Some p) \<longleftrightarrow>
     prompt_tokens p \<le> prompt_tokens c \<and> completion_tokens p \<le> completion_tokens c
     \<and> total_tokens p \<le> total_tokens c \<and> cached_tokens p \<le> cached_tokens c
     \<and> cache_write_tokens p \<le> cache_write_tokens c
     \<and> (reasoning_tokens p = None \<or> reasoning_count p \<le> reasoning_count c)"
  by (cases "reasoning_tokens p") (simp_all add: usage_at_least_def reasoning_count_def)

lemma usage_at_least_trans:
  "usage_at_least c b \<Longrightarrow> usage_at_least b a
   \<Longrightarrow> (\<And>u. c = Some u \<Longrightarrow> usage_ok u) \<Longrightarrow> usage_at_least c a"
proof -
  assume cb: "usage_at_least c b" and ba: "usage_at_least b a"
    and ok: "\<And>u. c = Some u \<Longrightarrow> usage_ok u"
  show "usage_at_least c a"
  proof (cases a)
    case (Some x)
    then obtain y where y: "b = Some y" using ba by (cases b) (auto simp: usage_at_least_def)
    then obtain z where z: "c = Some z" using cb by (cases c) (auto simp: usage_at_least_def)
    have nn: "0 \<le> reasoning_count z"
      using counter_nonneg [OF _ ok [OF z]] by (simp add: counters_def)
    have "reasoning_tokens x = None \<or> reasoning_count x \<le> reasoning_count z"
    proof (cases "reasoning_tokens y")
      case None
      then have "reasoning_count y = 0" by (simp add: reasoning_count_def)
      moreover have "reasoning_tokens x = None \<or> reasoning_count x \<le> reasoning_count y"
        using ba unfolding \<open>a = Some x\<close> y usage_at_least_counts by blast
      ultimately show ?thesis using nn by auto
    next
      case (Some r)
      with cb have "reasoning_count y \<le> reasoning_count z"
        unfolding y z usage_at_least_counts by simp
      moreover have "reasoning_tokens x = None \<or> reasoning_count x \<le> reasoning_count y"
        using ba unfolding \<open>a = Some x\<close> y usage_at_least_counts by blast
      ultimately show ?thesis by auto
    qed
    then show ?thesis
      using cb ba unfolding Some y z usage_at_least_counts
      by (elim conjE) (intro conjI; (assumption | (erule (1) order_trans)))
  qed simp
qed

lemma account_grows_trans:
  assumes "account_grows a b" and "account_grows b c" and "account_ok c" and "account_ok b"
  shows "account_grows a c"
proof -
  have "usage_at_least (map_of (acc_usage c) t) (Some u)" if "(t, u) \<in> set (acc_usage a)" for t u
  proof (rule usage_at_least_trans)
    have ab: "usage_at_least (map_of (acc_usage b) t) (Some u)"
      using assms(1) that by (auto simp: account_grows_def)
    then obtain v where v: "map_of (acc_usage b) t = Some v"
      by (cases "map_of (acc_usage b) t") (auto simp: usage_at_least_def)
    show "usage_at_least (map_of (acc_usage b) t) (Some u)" using ab .
    show "usage_at_least (map_of (acc_usage c) t) (map_of (acc_usage b) t)"
      using assms(2) v map_of_SomeD [OF v] by (auto simp: account_grows_def)
    show "usage_ok w" if "map_of (acc_usage c) t = Some w" for w
      using account_usage_ok [OF assms(3) map_of_SomeD [OF that]] .
  qed
  then have u: "\<forall>(t, u) \<in> set (acc_usage a). usage_at_least (map_of (acc_usage c) t) (Some u)" by blast
  have "acc_id c = acc_id a" "acc_parent c = acc_parent a"
    "acc_limit a > 0 \<longrightarrow> acc_limit c \<noteq> 0 \<and> acc_limit c \<le> acc_limit a"
    "acc_turn a \<noteq> None \<longrightarrow> acc_turn c = acc_turn a" "acc_settled a \<longrightarrow> acc_settled c"
    using assms unfolding account_grows_def account_ok_def safe_count_def by force+
  with u show ?thesis unfolding account_grows_def by blast
qed

lemma survives_trans:
  assumes "survives p q" and "survives q s" and "snapshot_ok q" and "snapshot_ok s"
  shows "survives p s"
proof -
  have ok: "account_ok a" if "a \<in> set (sn_accounts q) \<union> set (sn_accounts s)" for a
    using assms(3,4) that by (auto simp: snapshot_ok_def)
  have rok: "usage_ok u" if "r \<in> set (sn_completed s)" "req_usage r = Some u" for r u
    using assms(4) that by (auto simp: snapshot_ok_def request_ok_def)
  have "\<exists>c \<in> set (sn_accounts s). account_grows a c" if a: "a \<in> set (sn_accounts p)" for a
  proof -
    obtain b where b: "b \<in> set (sn_accounts q)" "account_grows a b"
      using assms(1) a unfolding survives_def by blast
    obtain c where c: "c \<in> set (sn_accounts s)" "account_grows b c"
      using assms(2) b unfolding survives_def by blast
    show ?thesis using account_grows_trans [OF b(2) c(2)] ok b(1) c(1) by blast
  qed
  moreover have "\<exists>c \<in> set (sn_completed s). request_grows r c" if r: "r \<in> set (sn_completed p)" for r
  proof -
    obtain b where b: "b \<in> set (sn_completed q)" "request_grows r b"
      using assms(1) r unfolding survives_def by blast
    obtain c where c: "c \<in> set (sn_completed s)" "request_grows b c"
      using assms(2) b unfolding survives_def by blast
    have "request_grows r c"
      using b c usage_at_least_trans [of "req_usage c" "req_usage b" "req_usage r"] rok [OF c(1)]
      by (auto simp: request_grows_def)
    with c(1) show ?thesis by blast
  qed
  ultimately show ?thesis using assms(1,2) by (simp add: survives_def)
qed

lemma accepted_survives:
  assumes acc: "assert_same_root p s = Inr ()" and "snapshot_ok s"
  shows "survives p s"
proof -
  have d: "distinct_keys acc_id (sn_accounts s)" "distinct_keys req_id (sn_completed s)"
    using assms(2) by (simp_all add: snapshot_ok_def)
  from acc have r: "sn_root_account p = sn_root_account s"
    and a: "\<exists>ys. mapE (account_kept (sn_accounts s)) (sn_accounts p) = Inr ys"
    and c: "\<exists>ys. mapE (receipt_kept (sn_completed s)) (sn_completed p) = Inr ys"
    by (auto simp: assert_same_root_def Let_def bindE_Inr_iff split: if_splits)
  show ?thesis
    using r a c unfolding survives_def mapE_Inr_ex
    by (auto simp: account_kept_iff [OF d(1)] receipt_kept_iff [OF d(2)])
qed

lemma survives_refl:
  assumes "snapshot_ok s"
  shows "survives s s"
proof -
  have "account_grows a a" if "a \<in> set (sn_accounts s)" for a
    using assms that account_ok_usage by (simp add: snapshot_ok_def)
  then show ?thesis using request_grows_refl unfolding survives_def by blast
qed

context budget_store
begin

lemma save_step:
  assumes "load st sc = Inr (Some old)" and "snapshot_ok old" and "validate_budget_scope sc = Inr sc"
  shows "\<exists>new. load (fst (save st sc' s)) sc = Inr (Some new) \<and> snapshot_ok new \<and> survives old new"
proof (cases "snd (save st sc' s)")
  case (Inl e)
  then have "save st sc' s = (fst (save st sc' s), Inl e)" by (cases "save st sc' s") simp
  then have "load (fst (save st sc' s)) sc = load st sc" by (rule save_refused)
  then show ?thesis using assms survives_refl by simp
next
  case (Inr u)
  show ?thesis
  proof (cases "sc' = sc")
    case True
    have "save st sc s = (fst (save st sc s), Inr ())" using Inr True by (cases "save st sc s") simp
    from save_accepted [OF this] obtain c where c: "validate_snapshot (encode_snapshot s) = Inr c"
      "load (fst (save st sc s)) sc = Inr (Some c)" "assert_same_root old c = Inr ()"
      using assms(1) by blast
    then show ?thesis using validate_accepts [OF c(1)] accepted_survives True by blast
  next
    case False
    with save_elsewhere [OF False assms(3)] assms survives_refl show ?thesis by simp
  qed
qed

text \<open>Whatever writers save, in any order: a stored ledger survives.\<close>

lemma saves_survive:
  assumes "load st sc = Inr (Some old)" and "snapshot_ok old" and "validate_budget_scope sc = Inr sc"
  shows "\<exists>new. load (fold (\<lambda>(sc', s) st. fst (save st sc' s)) ops st) sc = Inr (Some new)
    \<and> snapshot_ok new \<and> survives old new"
  using assms(1,2)
proof (induction ops arbitrary: st old)
  case Nil
  with survives_refl show ?case by simp
next
  case (Cons op ops)
  obtain sc' s where op: "op = (sc', s)" by (cases op)
  from save_step [OF Cons.prems assms(3)] obtain mid where
    mid: "load (fst (save st sc' s)) sc = Inr (Some mid)" "snapshot_ok mid" "survives old mid" by blast
  from Cons.IH [OF mid(1,2)] obtain new where
    "load (fold (\<lambda>(sc', s) st. fst (save st sc' s)) ops (fst (save st sc' s))) sc = Inr (Some new)"
    "snapshot_ok new" "survives mid new" by blast
  with survives_trans [OF mid(3) this(3) mid(2)] show ?case by (auto simp: op)
qed

end

subsection \<open>Both stores keep the promise\<close>

lemma scope_valid: "validate_budget_scope sc = Inr c \<longleftrightarrow> c = sc \<and> is_uuid (fst sc) \<and> is_uuid (snd sc)"
  by (auto simp: validate_budget_scope_def)

lemma lift_ledger_Inr [simp]: "lift_ledger m = Inr x \<longleftrightarrow> m = Inr x"
  by (cases m) (auto simp: lift_ledger_def)

lemma scope_snapshot: "validate_snapshot_scope v sc = Inr s \<longleftrightarrow>
    validate_snapshot v = Inr s \<and> sn_root_session s = fst sc \<and> sn_root_turn s = snd sc"
  by (auto simp: validate_snapshot_scope_def bindE_Inr_iff)

lemma uuid_length: "is_uuid s \<Longrightarrow> length s = 36"
  by (simp add: is_uuid_def)

lemma scope_path_inj:
  "is_uuid a \<Longrightarrow> is_uuid a' \<Longrightarrow> is_uuid b \<Longrightarrow> is_uuid b'
   \<Longrightarrow> a @ mid @ b @ suffix = a' @ mid @ b' @ suffix \<longleftrightarrow> a = a' \<and> b = b'"
  using uuid_length by fastforce

lemma store_key_inj:
  "validate_budget_scope sc = Inr c \<Longrightarrow> validate_budget_scope sc' = Inr c'
   \<Longrightarrow> store_key sc = store_key sc' \<longleftrightarrow> sc = sc'"
  using scope_path_inj [of "fst sc" "fst sc'" "snd sc" "snd sc'" "''/''" "[]"]
  by (auto simp: scope_valid store_key_def prod_eq_iff)

lemma budget_file_inj:
  "validate_budget_scope sc = Inr c \<Longrightarrow> validate_budget_scope sc' = Inr c'
   \<Longrightarrow> budget_file dir sc = budget_file dir sc' \<longleftrightarrow> sc = sc'"
  using scope_path_inj [of "fst sc" "fst sc'" "snd sc" "snd sc'" "''/budgets/''" "''.json''"]
  by (auto simp: scope_valid budget_file_def prod_eq_iff)

lemma map_of_update: "map_of (AList.update k v al) = (map_of al)(k \<mapsto> v)"
  by (rule update_conv')

interpretation memory_ledgers: budget_store mem_load mem_save
proof
  fix st :: memory_store and sc s st' e sc'
  assume "mem_save st sc s = (st', Inl e)"
  then have "st' = st" by (auto simp: mem_save_def split: sum.splits)
  then show "mem_load st' sc' = mem_load st sc'" by simp
next
  fix st :: memory_store and sc s st'
  assume a: "mem_save st sc s = (st', Inr ())"
  then obtain c where ok: "validate_budget_scope sc = Inr sc"
    and c: "validate_snapshot_scope (encode_snapshot s) sc = Inr c"
    and old: "(case map_of st (store_key sc) of None \<Rightarrow> Inr () | Some e \<Rightarrow> assert_same_root e c) = Inr ()"
    and st': "st' = AList.update (store_key sc) c st"
    by (auto simp: mem_save_def bindE_Inr_iff scope_valid split: sum.splits)
  have "mem_load st' sc = Inr (Some c)" by (simp add: mem_load_def ok st' map_of_update)
  moreover have "assert_same_root o' c = Inr ()" if "mem_load st sc = Inr (Some o')" for o'
    using old that by (simp add: mem_load_def ok)
  ultimately show "\<exists>c. validate_snapshot (encode_snapshot s) = Inr c \<and> mem_load st' sc = Inr (Some c)
      \<and> (\<forall>old. mem_load st sc = Inr (Some old) \<longrightarrow> assert_same_root old c = Inr ())"
    using c by (auto simp: scope_snapshot)
next
  fix st :: memory_store and sc sc' s
  assume a: "sc \<noteq> sc'" "validate_budget_scope sc' = Inr sc'"
  show "mem_load (fst (mem_save st sc s)) sc' = mem_load st sc'"
  proof (cases "validate_budget_scope sc")
    case (Inl e)
    then show ?thesis by (simp add: mem_save_def)
  next
    case (Inr c)
    then have "store_key sc' \<noteq> store_key sc" "c = sc" using a store_key_inj by (auto simp: scope_valid)
    then show ?thesis by (auto simp: a(2) mem_save_def mem_load_def map_of_update bindE_Inr_iff scope_valid split: sum.splits)
  qed
qed

interpretation disk_ledgers: budget_store "disk_load dir" "disk_save dir" for dir
proof
  fix st :: disk_store and sc s st' e sc'
  assume "disk_save dir st sc s = (st', Inl e)"
  then have "fst st' = fst st" by (auto simp: disk_save_def split: sum.splits)
  then show "disk_load dir st' sc' = disk_load dir st sc'" by (simp add: disk_load_def)
next
  fix st :: disk_store and sc s st'
  assume a: "disk_save dir st sc s = (st', Inr ())"
  then obtain c ex where ok: "validate_budget_scope sc = Inr sc"
    and c: "validate_snapshot_scope (encode_snapshot s) sc = Inr c"
    and ex: "disk_read dir (fst st) sc = Inr ex"
    and old: "(case ex of None \<Rightarrow> Inr () | Some e \<Rightarrow> assert_same_root e c) = Inr ()"
    and st': "fst st' = AList.update (budget_file dir sc) (encode_snapshot c) (fst st)"
    by (auto simp: disk_save_def bindE_Inr_iff scope_valid split: sum.splits if_splits)
  have "validate_snapshot_scope (encode_snapshot c) sc = Inr c"
    using c validate_accepts validate_encode by (auto simp: scope_snapshot)
  then have "disk_load dir st' sc = Inr (Some c)"
    by (simp add: disk_load_def ok disk_read_def st' map_of_update)
  moreover have "assert_same_root o' c = Inr ()" if "disk_load dir st sc = Inr (Some o')" for o'
    using old that ex by (simp add: disk_load_def ok)
  ultimately show "\<exists>c. validate_snapshot (encode_snapshot s) = Inr c \<and> disk_load dir st' sc = Inr (Some c)
      \<and> (\<forall>old. disk_load dir st sc = Inr (Some old) \<longrightarrow> assert_same_root old c = Inr ())"
    using c by (auto simp: scope_snapshot)
next
  fix st :: disk_store and sc sc' s
  assume a: "sc \<noteq> sc'" "validate_budget_scope sc' = Inr sc'"
  show "disk_load dir (fst (disk_save dir st sc s)) sc' = disk_load dir st sc'"
  proof (cases "validate_budget_scope sc")
    case (Inl e)
    then show ?thesis by (simp add: disk_save_def disk_load_def)
  next
    case (Inr c)
    then have "budget_file dir sc' \<noteq> budget_file dir sc" "c = sc"
      using a budget_file_inj by (auto simp: scope_valid)
    then show ?thesis
      using Inr by (auto simp: a(2) disk_save_def disk_load_def disk_read_def map_of_update bindE_Inr_iff
          scope_valid split: sum.splits)
  qed
qed

subsection \<open>Opening a ledger\<close>

text \<open>
  \<open>openSessionTokenBudget\<close>, given what the store's \<open>load\<close> returned for the scope
  and the rule its \<open>save\<close> follows.
\<close>

definition open_budget ::
    "save_rule \<Rightarrow> scope \<Rightarrow> int option \<Rightarrow> string option \<Rightarrow> bool \<Rightarrow> string \<Rightarrow> snapshot option
     \<Rightarrow> (store_error, ledger \<times> string) outcome" where
  "open_budget save sc limit account require_existing fresh saved =
     bindE (validate_budget_scope sc) (\<lambda>c.
     bindE (case saved of
         None \<Rightarrow>
           bindE (require (\<not> (require_existing \<or> account \<noteq> None)) LedgerMissing) (\<lambda>_.
           (case limit of None \<Rightarrow> Inl LimitRequired
            | Some n \<Rightarrow> lift_ledger (create_ledger fresh True n (fst c) (snd c))))
       | Some s \<Rightarrow>
           bindE (validate_snapshot_scope (encode_snapshot s) c) (\<lambda>snap.
           bindE (require (case limit of None \<Rightarrow> True | Some n \<Rightarrow> sn_limit snap = n) LimitMismatch) (\<lambda>_.
             lift_ledger (restore_ledger True snap)))) (\<lambda>L.
     bindE (case account of None \<Rightarrow> Inr (lg_root L)
            | Some j \<Rightarrow> lift_ledger (sub_account L (lg_root L) j)) (\<lambda>i.
       (case flush_writes save L of
          (L', Inl e) \<Rightarrow> Inl (BadSnapshot e)
        | (L', Inr _) \<Rightarrow> Inr (L', i)))))"

end
