(* ===== verification/LedgerRefine.thy ===== *)
theory LedgerRefine
  imports LedgerStore
begin

text \<open>
  The operations of a ledger refine the abstract budget: whatever an operation
  does, errors included, is a sequence of abstract steps, each persisted, and of
  writes reaching the store. So the invariant holds in every ledger a run
  reaches, and no save such a run issues is refused as stale.
\<close>

subsection \<open>Sequences of steps and writes\<close>

definition pop_write :: "save_rule \<Rightarrow> ledger \<Rightarrow> ledger" where
  "pop_write save L = (case lg_queue L of [] \<Rightarrow> L | s # rest \<Rightarrow> run_write save s (L\<lparr>lg_queue := rest\<rparr>))"

inductive evolves :: "save_rule \<Rightarrow> ledger \<Rightarrow> ledger \<Rightarrow> bool" for save where
  ev_refl: "evolves save L L"
| ev_step: "evolves save L M \<Longrightarrow> core_step M N \<Longrightarrow> evolves save L (persist N)"
| ev_write: "evolves save L M \<Longrightarrow> evolves save L (pop_write save M)"

lemma evolves_trans: "evolves save M N \<Longrightarrow> evolves save L M \<Longrightarrow> evolves save L N"
  by (induction rule: evolves.induct) (auto intro: evolves.intros)

lemma pop_write_drain: "lg_queue L = s # rest \<Longrightarrow> drain_writes save (pop_write save L) = drain_writes save L"
proof -
  have q: "lg_queue (run_write save s M) = lg_queue M" for s M by (simp add: run_write_def)
  have one: "run_write save s (M\<lparr>lg_queue := k\<rparr>) = (run_write save s M)\<lparr>lg_queue := k\<rparr>" for s M k
    by (simp add: run_write_def)
  have q': "fold (run_write save) xs (M\<lparr>lg_queue := k\<rparr>) = (fold (run_write save) xs M)\<lparr>lg_queue := k\<rparr>" for xs M k
    by (induction xs arbitrary: M) (simp_all add: one)
  show "lg_queue L = s # rest \<Longrightarrow> drain_writes save (pop_write save L) = drain_writes save L"
    by (simp add: drain_writes_def pop_write_def one q')
qed

lemma evolves_drain: "evolves save L M \<Longrightarrow> evolves save L (drain_writes save M)"
proof (induction "lg_queue M" arbitrary: M)
  case Nil
  then have "drain_writes save M = M" by (simp add: drain_writes_def Nil.hyps [symmetric])
  with Nil.prems show ?case by simp
next
  case (Cons s rest)
  have "lg_queue (pop_write save M) = rest"
    using Cons.hyps(2) [symmetric] by (simp add: pop_write_def run_write_def)
  then have "evolves save L (drain_writes save (pop_write save M))"
    using Cons.hyps(1) ev_write [OF Cons.prems] by simp
  then show ?case using pop_write_drain Cons.hyps(2) by metis
qed

lemma persist_core [simp]:
  "lg_accounts (persist L) = lg_accounts L" "lg_root (persist L) = lg_root L"
  "lg_root_session (persist L) = lg_root_session L" "lg_root_turn (persist L) = lg_root_turn L"
  "lg_requests (persist L) = lg_requests L" "lg_finished (persist L) = lg_finished L"
  "lg_poisoned (persist L) = lg_poisoned L" "lg_persist_error (persist L) = lg_persist_error L"
  "lg_stored (persist L) = lg_stored L" "lg_persistent (persist L) = lg_persistent L"
  by (simp_all add: persist_def)

lemma pop_write_core [simp]:
  "lg_accounts (pop_write save L) = lg_accounts L" "lg_root (pop_write save L) = lg_root L"
  "lg_root_session (pop_write save L) = lg_root_session L" "lg_root_turn (pop_write save L) = lg_root_turn L"
  "lg_requests (pop_write save L) = lg_requests L" "lg_finished (pop_write save L) = lg_finished L"
  "lg_persistent (pop_write save L) = lg_persistent L"
  by (simp_all add: pop_write_def run_write_def split: list.splits)

lemma persist_inv: "ledger_inv L \<Longrightarrow> ledger_inv (persist L)"
  by (erule ledger_core) simp_all

lemma pop_write_inv: "ledger_inv L \<Longrightarrow> ledger_inv (pop_write save L)"
  by (erule ledger_core) simp_all

lemma evolves_inv: "evolves save L M \<Longrightarrow> ledger_inv L \<Longrightarrow> ledger_inv M"
  by (induction rule: evolves.induct) (auto intro: persist_inv pop_write_inv core_step_inv)

subsection \<open>Building sequences\<close>

lemma ev_persist: "core_step L N \<Longrightarrow> evolves save L (persist N)"
  using ev_step [OF ev_refl] .

lemma ev_flush: "evolves save L M \<Longrightarrow> evolves save L (fst (flush_writes save M))"
  by (simp add: flush_writes_def Let_def evolves_drain)

lemma ev_persist_flush: "core_step L N \<Longrightarrow> evolves save L (fst (persist_and_flush save N))"
  by (simp add: persist_and_flush_def ev_flush ev_persist)

lemma fst_poison: "fst (poison_and_throw save e N) = fst (persist_and_flush save (N\<lparr>lg_poisoned := True\<rparr>))"
  unfolding poison_and_throw_def
  by (cases "persist_and_flush save (N\<lparr>lg_poisoned := True\<rparr>)" rule: prod.exhaust,
      rename_tac a b, case_tac b) auto

lemma ev_andThen:
  assumes "evolves save L (fst m)" and "\<And>s x. m = (s, Inr x) \<Longrightarrow> evolves save L (fst (f s x))"
  shows "evolves save L (fst (andThen m f))"
  using assms by (cases m rule: prod.exhaust, rename_tac a b, case_tac b) auto

lemma ev_guard:
  "(\<And>x. m = Inr x \<Longrightarrow> evolves save L (fst (f x))) \<Longrightarrow> evolves save L (fst (guard_step L m f))"
  by (auto simp: guard_step_def ev_refl split: sum.splits)

lemma ev_node:
  "(\<And>a. find_account L i = Some a \<Longrightarrow> evolves save L (fst (f a))) \<Longrightarrow> evolves save L (fst (with_node L i f))"
  by (auto simp: with_node_def ev_refl split: option.splits)

lemmas ev_rules = ev_guard ev_node

lemma cs_same: "core_step L L"
  using cs_flags [of L "lg_poisoned L"] by simp

subsection \<open>Charges\<close>

lemma charges_flags [simp]:
  "charges L a (r\<lparr>req_unresolved := b\<rparr>) a' r' = charges L a r a' r'"
  "charges L a r a' (r'\<lparr>req_unresolved := b\<rparr>) = charges L a r a' r'"
  by (simp_all add: charges_def observed_usage_def)

lemma charge_nothing:
  assumes inv: "ledger_inv L" and r: "r \<in> set (all_requests L)"
    and find: "find_account L (req_account r) = Some a"
  shows "charges L a r a r"
proof -
  have ai: "accounts_inv L" and "belongs L r" using inv r by (auto simp: ledger_inv_def requests_inv_def)
  then have b: "bound_ok a" and t: "turn_of a = Some (req_turn r)" and u: "\<forall>u. req_usage r = Some u \<longrightarrow> usage_ok u"
    using inv_account [OF ai find] find by (auto simp: account_ok_def belongs_def)
  obtain u where own: "own_usage_of a (Some (req_turn r)) = Inr u"
    using b t by (cases rule: bound_cases) (auto simp: own_usage_of_def turn_of_def)
  note l = own_of_lookup [OF b own]
  have "safe_count (tree_total L)"
    using ai tree_total_is_sum [OF inv_tree [OF ai]] by (simp add: accounts_inv_def)
  then show ?thesis
    using find own l u by (auto simp: charges_def set_usage_def intro!: exI [of _ u])
qed

lemma delta_grows:
  assumes ok: "usage_ok p" and ob: "usage_ok obs" and m: "max_usage obs w = Inr m"
    and v: "add_usage p (usage_delta m obs) = Inr v"
  shows "usage_ok v" and "usage_at_least (Some v) (Some p)"
    and "f \<in> counters \<Longrightarrow> f p + f m - f obs \<le> f v"
proof -
  show "usage_ok v" using v by (rule add_usage_ok)
  have al: "usage_at_least (Some m) (Some obs)" using m by (rule max_usage_at_least)
  have r: "case_option 0 id (reasoning_tokens obs) \<le> x" if "reasoning_tokens m = Some x" for x
  proof -
    have "0 \<le> x" using max_usage_ok [OF m] that by (simp add: usage_ok_def safe_count_def)
    with al that show ?thesis by (auto simp: usage_at_least_def split: option.splits)
  qed
  show "usage_at_least (Some v) (Some p)" by (rule accumulate_delta_at_least [OF ok al v r])
  have mr: "reasoning_tokens m = None \<Longrightarrow> reasoning_tokens obs = None"
    using m by (auto simp: max_usage_def usage_value_Inr split: if_splits)
  show "f \<in> counters \<Longrightarrow> f p + f m - f obs \<le> f v"
    using v mr
    by (cases "reasoning_tokens p"; cases "reasoning_tokens m"; cases "reasoning_tokens obs")
      (auto simp: counters_def add_usage_def usage_value_Inr accumulate_usage_def usage_delta_def
        reasoning_count_def)
qed

lemma record_charges:
  assumes inv: "ledger_inv L" and rec: "record_request_usage L a r u = Inr (a', r')"
    and find: "find_account L (req_account r) = Some a"
    and ok: "\<forall>u. req_usage r = Some u \<longrightarrow> usage_ok u"
  shows "charges L a r a' r'" and "req_unresolved r' = req_unresolved r" and "req_usage r' \<noteq> None"
proof -
  have ai: "accounts_inv L" using inv by (simp add: ledger_inv_def)
  have b: "bound_ok a" using inv_account [OF ai find] by (simp add: account_ok_def)
  from rec obtain w m p v k where
    m: "max_usage (observed_usage r) w = Inr m" and p: "own_usage_of a (Some (req_turn r)) = Inr p"
    and v: "add_usage p (usage_delta m (observed_usage r)) = Inr v" and k: "check_aggregate L p v = Inr k"
    and a': "a' = set_usage (req_turn r) v a" and r': "r' = r\<lparr>req_usage := Some m\<rparr>"
    by (auto simp: record_request_usage_def Let_def bindE_Inr_iff observed_usage_def)
  show "req_unresolved r' = req_unresolved r" "req_usage r' \<noteq> None" by (simp_all add: r')
  have ob: "usage_ok (observed_usage r)" using ok by (simp add: observed_usage_def split: option.splits)
  note d = delta_grows [OF _ ob m v]
  have "usage_ok p" using own_of_lookup [OF b p] by simp
  note d = d [OF this]
  have "observed_usage r' = m" by (simp add: r' observed_usage_def)
  moreover have "usage_at_least (Some m) (req_usage r)"
    using max_usage_at_least [OF m] by (cases "req_usage r") (simp_all add: observed_usage_def)
  moreover have "safe_count (tree_total L - total_tokens p + total_tokens v)"
    using k by (simp add: check_aggregate_def)
  ultimately show "charges L a r a' r'"
    using find p a' d max_usage_ok [OF m] by (auto simp: charges_def r')
qed

lemma put_same: "ledger_inv L \<Longrightarrow> find_account L i = Some a \<Longrightarrow> put_account a L = L"
proof -
  assume inv: "ledger_inv L" and find: "find_account L i = Some a"
  have "kput acc_id a xs = xs" if "a \<in> set xs" "distinct_keys acc_id xs" for xs
    using that by (induction xs) (auto simp: rev_image_eqI)
  then show "put_account a L = L"
    using inv find find_account_mem [OF find]
    by (simp add: put_account_def ledger_inv_def accounts_inv_def tree_ok_def)
qed

subsection \<open>Each operation\<close>

lemma bind_turn_refines:
  assumes inv: "ledger_inv L"
  shows "evolves save L (fst (bind_turn L i s t))"
  unfolding bind_turn_def
proof (intro ev_rules)
  fix s' t' :: string and c and a and u v :: unit
  assume s: "check_uuid s ''bound session id'' = Inr s'" "check_uuid t ''bound turn id'' = Inr t'"
    and free: "(case List.find (\<lambda>b. map_of (acc_usage b) t \<noteq> None) (lg_accounts L) of
                     None \<Rightarrow> Inr () | Some b \<Rightarrow> require (acc_id b = i) TurnBelongsToAnother) = Inr u"
    and find: "find_account L i = Some a"
    and bound: "(case acc_turn a of None \<Rightarrow> Inr ()
                   | Some (s', t') \<Rightarrow> require (t' = t \<and> s' = s) BindingImmutable) = Inr v"
  have ai: "accounts_inv L" using inv by (simp add: ledger_inv_def)
  have b: "bound_ok a" using inv_account [OF ai find] by (simp add: account_ok_def)
  let ?a = "a\<lparr>acc_turn := Some (s, t), acc_usage := (if map_of (acc_usage a) t = None
      then AList.update t empty_usage (acc_usage a) else acc_usage a)\<rparr>"
  have "evolves save L (persist (put_account ?a L))"
    using b
  proof (cases rule: bound_cases)
    case unbound
    have "t \<notin> set (turns_of (lg_accounts L))"
    proof (cases "List.find (\<lambda>b. map_of (acc_usage b) t \<noteq> None) (lg_accounts L)")
      case None
      then show ?thesis by (auto simp: find_None_iff turns_of_def map_of_eq_None_iff)
    next
      case (Some x)
      then have x: "x \<in> set (lg_accounts L)" "map_of (acc_usage x) t \<noteq> None"
        using find_SomeD [OF Some] by simp_all
      have "acc_id x = i" using free unfolding Some by simp
      then have "find_account L i = Some x" using tree_find [OF inv_tree [OF ai] x(1)] by simp
      then have "x = a" using find by simp
      with x(2) show ?thesis using unbound by simp
    qed
    then have "core_step L (put_account (a\<lparr>acc_turn := Some (s, t), acc_usage := [(t, empty_usage)]\<rparr>) L)"
      using s by (intro cs_bind [OF find unbound(1)]) auto
    then show ?thesis using unbound by (simp add: ev_persist)
  next
    case (bound s0 t0 u)
    then have "acc_turn a = Some (s, t)" "map_of (acc_usage a) t = Some u"
      using \<open>_ = Inr v\<close> by simp_all
    then have "?a = a" by simp
    then show ?thesis using put_same [OF inv find] ev_persist [OF cs_same] by simp
  qed
  then show "evolves save L (fst (persist (put_account ?a L), Inr ()))" by simp
qed

definition fresh_account :: "ledger \<Rightarrow> string \<Rightarrow> bool" where
  "fresh_account L j \<longleftrightarrow> is_uuid j \<and> find_account L j = None"

definition fresh_request :: "ledger \<Rightarrow> string \<Rightarrow> bool" where
  "fresh_request L q \<longleftrightarrow> is_uuid q \<and> q \<notin> req_id ` set (all_requests L)"

lemma reserve_refines:
  assumes inv: "ledger_inv L" and fresh: "fresh_account L j"
  shows "evolves save L (fst (reserve L i j n))"
  unfolding reserve_def Let_def
proof (intro ev_rules)
  fix k a
  assume n: "count_int n ''reservation'' = Inr k" and find: "find_account L i = Some a"
  have ai: "accounts_inv L" using inv by (simp add: ledger_inv_def)
  let ?n = "\<lparr>acc_id = j, acc_parent = Some i, acc_limit = n, acc_settled = False,
               acc_turn = None, acc_usage = []\<rparr>"
  have "account_ok ?n"
    using n fresh inv_account [OF ai find] find_account_mem [OF find]
    by (auto simp: account_ok_def fresh_account_def bound_ok_def)
  moreover have "opens L a ?n"
    using inv_tree [OF ai] fresh find_account_mem [OF find] by (simp add: opens_def fresh_account_def)
  ultimately have "core_step L (put_account ?n L)" by (intro cs_open) simp_all
  then show "evolves save L (fst (persist (put_account ?n L), sub_account (persist (put_account ?n L)) i j))"
    by (simp add: ev_persist)
qed

lemma narrow_refines:
  assumes inv: "ledger_inv L"
  shows "evolves save L (fst (narrow L i n))"
proof -
  have "core_step L (put_account (a\<lparr>acc_limit := n\<rparr>) L)"
    if "find_account L i = Some a" "count_int n ''limit'' = Inr k" "n \<noteq> 0"
      "\<not> (acc_limit a \<noteq> 0 \<and> n > acc_limit a)" for a k
  proof (rule cs_label [OF that(1)])
    show "relabels a (a\<lparr>acc_limit := n\<rparr>)"
      using that(2-4) unfolding relabels_def by (intro exI [of _ n] exI [of _ "acc_settled a"]) auto
  qed
  then show ?thesis
    unfolding narrow_def by (intro ev_rules) (auto simp: ev_refl ev_persist intro!: ev_rules)
qed

lemma record_usage_refines:
  assumes inv: "ledger_inv L"
  shows "evolves save L (fst (record_usage L i u turn))"
  unfolding record_usage_def Let_def
proof (intro ev_rules)
  fix a p v k
  let ?t = "case turn of None \<Rightarrow> turn_of a | Some x \<Rightarrow> Some x"
  assume find: "find_account L i = Some a" and p: "own_usage_of a ?t = Inr p"
    and v: "bindE (usage_value u) (max_usage p) = Inr v" and k: "check_aggregate L p v = Inr k"
  from v obtain w where w: "max_usage p w = Inr v" by (auto simp: bindE_Inr_iff)
  obtain t where t: "?t = Some t" using p by (cases ?t) (auto simp: own_usage_of_def)
  have "core_step L (put_account (set_usage t v a) L)"
    using cs_spend [OF find p [unfolded t] max_usage_ok [OF w] max_usage_at_least [OF w]] k
    by (simp add: check_aggregate_def)
  then show "evolves save L (fst (persist (put_account (set_usage (the ?t) v a) L), Inr ()))"
    using t by (simp add: ev_persist)
qed

lemma begin_request_refines:
  assumes inv: "ledger_inv L" and fresh: "fresh_request L q"
  shows "evolves save L (fst (begin_request save L i q))"
  unfolding begin_request_def
proof (intro ev_rules)
  fix a t and x :: unit
  assume find: "find_account L i = Some a" and idle: "require (\<not> has_request L a) RequestInFlight = Inr x"
    and t: "(case turn_of a of None \<Rightarrow> Inl TurnNotBound | Some t \<Rightarrow> Inr t) = Inr t"
  let ?r = "\<lparr>req_id = q, req_account = i, req_turn = t, req_usage = None, req_unresolved = False\<rparr>"
  have "turn_of a = Some t" using t by (simp split: option.splits)
  then have "core_step L (L\<lparr>lg_requests := kput req_id ?r (lg_requests L)\<rparr>)"
    using fresh find idle by (intro cs_begin [of _ _ a]) (simp_all add: fresh_request_def)
  then have e: "evolves save L (fst (persist_and_flush save
      (L\<lparr>lg_requests := kput req_id ?r (lg_requests L)\<rparr>)))" by (rule ev_persist_flush)
  show "evolves save L (fst (andThen (persist_and_flush save
      (L\<lparr>lg_requests := kput req_id ?r (lg_requests L)\<rparr>)) (\<lambda>L' _. (L', Inr q))))"
    by (rule ev_andThen [OF e]) (use e in simp)
qed

lemma mark_settled_refines:
  assumes inv: "ledger_inv L"
  shows "evolves save L (fst (mark_settled L i))"
  unfolding mark_settled_def
proof (intro ev_rules)
  fix a
  assume find: "find_account L i = Some a"
  have "account_ok a" using inv inv_account [OF _ find] by (simp add: ledger_inv_def)
  then have "relabels a (a\<lparr>acc_settled := True\<rparr>)"
    unfolding relabels_def by (intro exI [of _ "acc_limit a"] exI [of _ True]) (auto simp: account_ok_def)
  then show "evolves save L (fst (persist (put_account (a\<lparr>acc_settled := True\<rparr>) L), Inr ()))"
    using ev_persist [OF cs_label [OF find]] by simp
qed

lemma settle_refines:
  assumes inv: "ledger_inv L"
  shows "evolves save L (fst (settle L i own))"
proof (cases own)
  case None
  then show ?thesis by (simp add: settle_def mark_settled_refines [OF inv])
next
  case (Some n)
  have "evolves save L (fst (andThen (record_usage L i w None) (\<lambda>L' _. mark_settled L' i)))" for w
  proof (rule ev_andThen)
    show "evolves save L (fst (record_usage L i w None))" by (rule record_usage_refines [OF inv])
    fix M x
    assume "record_usage L i w None = (M, Inr x)"
    then have m: "evolves save L M" using record_usage_refines [OF inv, of save i w None] by simp
    then show "evolves save L (fst (mark_settled M i))"
      using mark_settled_refines [OF evolves_inv [OF m inv]] evolves_trans by blast
  qed
  then show ?thesis
    unfolding settle_def Some option.case
    by (intro ev_rules) (auto simp: mark_settled_refines [OF inv] intro!: ev_rules)
qed

text \<open>What the request lookups return.\<close>

lemma has_receipt_Some:
  "has_receipt L i q = Inr (Some r) \<Longrightarrow> r \<in> set (lg_finished L) \<and> req_id r = q \<and> req_account r = i"
  by (auto simp: has_receipt_def dest: kfind_SomeD split: option.splits if_splits)

lemma require_request_Some:
  "require_request L i q = Inr r \<Longrightarrow> r \<in> set (lg_requests L) \<and> req_id r = q \<and> req_account r = i"
  by (auto simp: require_request_def dest: kfind_SomeD split: option.splits if_splits)

lemma request_usage_ok: "ledger_inv L \<Longrightarrow> r \<in> set (all_requests L) \<Longrightarrow> \<forall>u. req_usage r = Some u \<longrightarrow> usage_ok u"
  by (auto simp: ledger_inv_def requests_inv_def belongs_def)

lemma receipt_step:
  assumes inv: "ledger_inv L" and r: "r \<in> set (lg_finished L)" and find: "find_account L (req_account r) = Some a"
    and rec: "record_request_usage L a r u = Inr (a', r')"
  shows "core_step L (put_account a' L\<lparr>lg_finished := kput req_id r' (lg_finished L)\<rparr>)"
proof -
  have "r \<in> set (all_requests L)" using r by (simp add: all_requests_def)
  from cs_receipt [OF r record_charges(1) [OF inv rec find request_usage_ok [OF inv this]]]
  show ?thesis .
qed

lemma poison_flush: "evolves save L (fst (poison_and_throw save e L))"
  unfolding fst_poison by (intro ev_persist_flush cs_flags) simp

lemma record_elsewhere:
  assumes "same_tree L M" and "tree_ok L"
  shows "record_request_usage M a r u = record_request_usage L a r u"
  using same_tree_tree_total [OF assms] by (simp add: record_request_usage_def check_aggregate_def)

lemma put_with_requests:
  "put_account a (L\<lparr>lg_requests := x\<rparr>) = put_account a L\<lparr>lg_requests := x\<rparr>"
  by (simp add: put_account_def)

lemma fail_in_flight:
  assumes inv: "ledger_inv L" and r0: "r0 \<in> set (lg_requests L)" and find: "find_account L (req_account r0) = Some a"
    and ch: "charges L a r0 a' r'" and un: "req_unresolved r'"
    and L2: "L2 = put_account a' L\<lparr>lg_requests := kput req_id r' (lg_requests L)\<rparr>"
  shows "evolves save L (fst (persist_and_flush save L2))"
    and "evolves save L (fst (persist_and_flush save (retain_unresolved r' L2)))"
proof -
  have id: "req_id r' = req_id r0" using ch by (simp add: charges_def)
  have "core_step L (put_account a' L\<lparr>lg_requests := kput req_id r' (lg_requests L), lg_poisoned := lg_poisoned L\<rparr>)"
    using un by (intro cs_active [OF r0 ch]) simp_all
  moreover have "L2 = put_account a' L\<lparr>lg_requests := kput req_id r' (lg_requests L), lg_poisoned := lg_poisoned L\<rparr>"
    by (simp add: L2 put_account_def)
  ultimately show "evolves save L (fst (persist_and_flush save L2))" by (simp add: ev_persist_flush)
  have "retain_unresolved r' L2 = put_account a' L\<lparr>lg_requests := kdel req_id (req_id r0) (lg_requests L),
      lg_finished := kput req_id (r'\<lparr>req_unresolved := True\<rparr>) (lg_finished L)\<rparr>"
    using id by (simp add: L2 retain_unresolved_def)
  moreover have "core_step L (put_account a' L\<lparr>lg_requests := kdel req_id (req_id r0) (lg_requests L),
      lg_finished := kput req_id (r'\<lparr>req_unresolved := True\<rparr>) (lg_finished L)\<rparr>)"
    using ch by (intro cs_finish [OF r0]) simp_all
  ultimately show "evolves save L (fst (persist_and_flush save (retain_unresolved r' L2)))"
    by (simp add: ev_persist_flush)
qed

lemma fail_receipt_refines:
  assumes inv: "ledger_inv L" and r: "r \<in> set (lg_finished L)" "req_account r = i"
  shows "evolves save L (fst (fail_receipt save L i r usage))"
proof -
  have "evolves save L (fst (case record_request_usage L a r u of
          Inl e \<Rightarrow> poison_and_throw save e L
        | Inr (a', r') \<Rightarrow> persist_and_flush save
            (put_account a' L\<lparr>lg_finished := kput req_id r' (lg_finished L)\<rparr>)))"
    if "find_account L i = Some a" for a u
    using receipt_step [OF inv r(1)] r(2) that
    by (auto intro: ev_persist_flush poison_flush split: sum.split)
  then show ?thesis
    by (auto simp: fail_receipt_def intro!: ev_node ev_flush ev_refl split: option.split)
qed

lemma fail_active_refines:
  assumes inv: "ledger_inv L" and r0: "r0 \<in> set (lg_requests L)" "req_account r0 = i"
  shows "evolves save L (fst (fail_active save L i r0 usage))"
proof -
  have ai: "accounts_inv L" and ri: "requests_inv L" using inv by (simp_all add: ledger_inv_def)
  have all: "r0 \<in> set (all_requests L)" using r0 by (simp add: all_requests_def)
  let ?r = "r0\<lparr>req_unresolved := True\<rparr>"
  let ?L1 = "L\<lparr>lg_requests := kput req_id ?r (lg_requests L)\<rparr>"
  obtain a where find: "find_account L i = Some a"
    using ri all r0(2) by (auto simp: requests_inv_def belongs_def)
  have st: "same_tree L ?L1" by (simp add: same_tree_def)
  have find1: "find_account ?L1 i = Some a" using find same_tree_find [OF st] by simp
  have unmeasured: "charges L a r0 a ?r" using charge_nothing [OF inv all] find r0(2) by simp
  have "core_step L (put_account a L\<lparr>lg_requests := kput req_id ?r (lg_requests L), lg_poisoned := True\<rparr>)"
    by (rule cs_active [OF r0(1) unmeasured]) simp_all
  then have poison: "evolves save L (fst (poison_and_throw save e ?L1))" for e
    unfolding fst_poison using put_same [OF inv find] by (simp add: ev_persist_flush)
  have measured: "evolves save L (fst (let L2 = put_account a' ?L1\<lparr>lg_requests := kput req_id r' (lg_requests ?L1)\<rparr> in
      persist_and_flush save (if bounded L2 a' then L2 else retain_unresolved r' L2)))"
    if ch: "charges L a r0 a' r'" and un: "req_unresolved r'" for a' r'
  proof -
    have "req_id r' = req_id ?r" using ch by (simp add: charges_def)
    then have "put_account a' ?L1\<lparr>lg_requests := kput req_id r' (lg_requests ?L1)\<rparr>
        = put_account a' L\<lparr>lg_requests := kput req_id r' (lg_requests L)\<rparr>"
      by (simp add: put_with_requests)
    then show ?thesis
      using fail_in_flight [OF inv r0(1) _ ch un] find r0(2) unfolding Let_def by simp
  qed
  have rec: "charges L a r0 a' r' \<and> req_unresolved r'"
    if "record_request_usage ?L1 a ?r u = Inr (a', r')" for u a' r'
  proof -
    have "record_request_usage L a ?r u = Inr (a', r')"
      using that record_elsewhere [OF st inv_tree [OF ai]] by simp
    from record_charges [OF inv this] find r0(2) request_usage_ok [OF inv all] show ?thesis by simp
  qed
  show ?thesis
    unfolding fail_active_def Let_def [of ?r] Let_def [of ?L1]
    using measured [OF unmeasured] measured rec poison
    by (auto simp: with_node_def find1 split: option.split sum.split)
qed

lemma fail_request_refines:
  assumes inv: "ledger_inv L"
  shows "evolves save L (fst (fail_request save L i q usage))"
  unfolding fail_request_def
proof (rule ev_guard)
  fix receipt
  assume hr: "has_receipt L i q = Inr receipt"
  have "evolves save L (fst (guard_step L (require_request L i q) (\<lambda>r. fail_active save L i r usage)))"
    using fail_active_refines [OF inv] require_request_Some by (intro ev_guard) blast
  then show "evolves save L (fst (case receipt of
         Some r \<Rightarrow> fail_receipt save L i r usage
       | None \<Rightarrow> guard_step L (require_request L i q) (\<lambda>r. fail_active save L i r usage)))"
    using fail_receipt_refines [OF inv] has_receipt_Some hr by (cases receipt) auto
qed

lemma finish_active_refines:
  assumes inv: "ledger_inv L" and r: "r \<in> set (lg_requests L)" "req_id r = q" "req_account r = i"
  shows "evolves save L (fst (with_node L i (\<lambda>a.
               case record_request_usage L a r usage of
                 Inl e \<Rightarrow> poison_and_throw save e L
               | Inr (a', r') \<Rightarrow> persist_and_flush save
                   (put_account a' L\<lparr>lg_requests := kdel req_id q (lg_requests L),
                      lg_finished := kput req_id r' (lg_finished L)\<rparr>))))"
proof (rule ev_node)
  fix a
  assume find: "find_account L i = Some a"
  have all: "r \<in> set (all_requests L)" using r by (simp add: all_requests_def)
  have "core_step L (put_account a' L\<lparr>lg_requests := kdel req_id q (lg_requests L),
      lg_finished := kput req_id r' (lg_finished L)\<rparr>)"
    if "record_request_usage L a r usage = Inr (a', r')" for a' r'
    using cs_finish [OF r(1)] record_charges [OF inv that] find r request_usage_ok [OF inv all] by auto
  then show "evolves save L (fst (case record_request_usage L a r usage of
                 Inl e \<Rightarrow> poison_and_throw save e L
               | Inr (a', r') \<Rightarrow> persist_and_flush save
                   (put_account a' L\<lparr>lg_requests := kdel req_id q (lg_requests L),
                      lg_finished := kput req_id r' (lg_finished L)\<rparr>)))"
    by (auto intro: ev_persist_flush poison_flush split: sum.split)
qed

lemma finish_request_refines:
  assumes inv: "ledger_inv L"
  shows "evolves save L (fst (finish_request save L i q usage))"
  unfolding finish_request_def
proof (rule ev_guard)
  fix receipt
  assume hr: "has_receipt L i q = Inr receipt"
  show "evolves save L (fst (case receipt of
         Some r \<Rightarrow> if req_unresolved r then fail_request save L i q (Some usage)
                   else flush_writes save L
       | None \<Rightarrow> guard_step L (require_request L i q) (\<lambda>r. with_node L i (\<lambda>a.
               case record_request_usage L a r usage of
                 Inl e \<Rightarrow> poison_and_throw save e L
               | Inr (a', r') \<Rightarrow> persist_and_flush save
                   (put_account a' L\<lparr>lg_requests := kdel req_id q (lg_requests L),
                      lg_finished := kput req_id r' (lg_finished L)\<rparr>)))))"
  proof (cases receipt)
    case None
    have "evolves save L (fst (guard_step L (require_request L i q) (\<lambda>r. with_node L i (\<lambda>a.
               case record_request_usage L a r usage of
                 Inl e \<Rightarrow> poison_and_throw save e L
               | Inr (a', r') \<Rightarrow> persist_and_flush save
                   (put_account a' L\<lparr>lg_requests := kdel req_id q (lg_requests L),
                      lg_finished := kput req_id r' (lg_finished L)\<rparr>)))))"
    proof (rule ev_guard)
      fix r
      assume "require_request L i q = Inr r"
      then have r: "r \<in> set (lg_requests L)" "req_id r = q" "req_account r = i"
        using require_request_Some by blast+
      show "evolves save L (fst (with_node L i (\<lambda>a.
               case record_request_usage L a r usage of
                 Inl e \<Rightarrow> poison_and_throw save e L
               | Inr (a', r') \<Rightarrow> persist_and_flush save
                   (put_account a' L\<lparr>lg_requests := kdel req_id q (lg_requests L),
                      lg_finished := kput req_id r' (lg_finished L)\<rparr>))))"
        by (rule finish_active_refines [OF inv r])
    qed
    then show ?thesis using None by simp
  next
    case (Some r)
    then show ?thesis using fail_request_refines [OF inv] ev_flush [OF ev_refl] by simp
  qed
qed

lemma receipt_flag:
  assumes inv: "ledger_inv L" and r: "r \<in> set (lg_finished L)"
  shows "core_step L (L\<lparr>lg_finished := kput req_id (r\<lparr>req_unresolved := b\<rparr>) (lg_finished L)\<rparr>)"
proof -
  have all: "r \<in> set (all_requests L)" using r by (simp add: all_requests_def)
  then obtain a where find: "find_account L (req_account r) = Some a"
    using inv by (auto simp: ledger_inv_def requests_inv_def belongs_def)
  have "charges L a r a (r\<lparr>req_unresolved := b\<rparr>)" using charge_nothing [OF inv all find] by simp
  from cs_receipt [OF r this] show ?thesis using put_same [OF inv find] by simp
qed

lemma clear_marker_refines:
  assumes inv: "ledger_inv L"
  shows "evolves save L (fst (clear_marker save q L))"
proof -
  define L1 where "L1 = (case kfind req_id q (lg_finished L) of None \<Rightarrow> L
      | Some r \<Rightarrow> L\<lparr>lg_finished := kput req_id (r\<lparr>req_unresolved := False\<rparr>) (lg_finished L)\<rparr>)"
  have "core_step L L1"
    using receipt_flag [OF inv] cs_same by (auto simp: L1_def dest: kfind_mem split: option.split)
  then have e: "evolves save L (fst (persist_and_flush save L1))" by (rule ev_persist_flush)
  have "evolves save L (fst (if lg_requests M = [] \<and> \<not> lg_persist_error M
           then persist_and_flush save (M\<lparr>lg_poisoned := False\<rparr>) else (M, Inr ())))"
    if "evolves save L M" for M
    using ev_persist_flush [OF cs_flags [of M False]] evolves_trans [OF _ that] that by simp
  then show ?thesis
    unfolding clear_marker_def Let_def L1_def [symmetric] using e
    by (intro ev_andThen [OF e]) (metis fst_conv)
qed

lemma reconcile_request_refines:
  assumes inv: "ledger_inv L"
  shows "evolves save L (fst (reconcile_request save L i q usage))"
  unfolding reconcile_request_def
proof (intro ev_guard ev_andThen)
  fix measured receipt
  assume hr: "has_receipt L i q = Inr receipt"
  let ?first = "case receipt of
            Some r \<Rightarrow> with_node L i (\<lambda>a.
              guard_step L (record_request_usage L a r measured) (\<lambda>(a', r').
                persist_and_flush save
                  (put_account a' L\<lparr>lg_finished := kput req_id r' (lg_finished L)\<rparr>)))
          | None \<Rightarrow> finish_request save L i q measured"
  show first: "evolves save L (fst ?first)"
  proof (cases receipt)
    case None
    then show ?thesis using finish_request_refines [OF inv] by simp
  next
    case (Some r)
    then have r: "r \<in> set (lg_finished L)" "req_account r = i" using has_receipt_Some hr by blast+
    have "evolves save L (fst (with_node L i (\<lambda>a.
              guard_step L (record_request_usage L a r measured) (\<lambda>(a', r').
                persist_and_flush save
                  (put_account a' L\<lparr>lg_finished := kput req_id r' (lg_finished L)\<rparr>)))))"
      using receipt_step [OF inv r(1)] r(2) by (intro ev_rules) (auto intro: ev_persist_flush)
    then show ?thesis using Some by simp
  qed
  fix M x
  assume "?first = (M, Inr x)"
  then have m: "evolves save L M" using first by simp
  show "evolves save L (fst (clear_marker save q M))"
    using evolves_trans [OF clear_marker_refines [OF evolves_inv [OF m inv]] m] .
qed

end
