(* ===== verification/LedgerRuns.thy ===== *)
theory LedgerRuns
  imports LedgerRefine
begin

text \<open>
  Runs of a ledger: created for a root turn, then any operations on any handles
  in any order, with writes reaching the store between them. Invariant, durable
  and never refused as stale.
\<close>

subsection \<open>Steps and runs\<close>

inductive ledger_step :: "save_rule \<Rightarrow> ledger \<Rightarrow> ledger \<Rightarrow> bool" for save where
  st_bind: "ledger_step save L (fst (bind_turn L i s t))"
| st_reserve: "fresh_account L j \<Longrightarrow> ledger_step save L (fst (reserve L i j n))"
| st_narrow: "ledger_step save L (fst (narrow L i n))"
| st_record: "ledger_step save L (fst (record_usage L i u turn))"
| st_begin: "fresh_request L q \<Longrightarrow> ledger_step save L (fst (begin_request save L i q))"
| st_finish: "ledger_step save L (fst (finish_request save L i q u))"
| st_fail: "ledger_step save L (fst (fail_request save L i q u'))"
| st_reconcile: "ledger_step save L (fst (reconcile_request save L i q u))"
| st_settle: "ledger_step save L (fst (settle L i own))"
| st_flush: "ledger_step save L (fst (flush_writes save L))"
| st_write: "ledger_step save L (pop_write save L)"

inductive_cases ledger_stepE: "ledger_step save L M"

inductive ledger_run :: "save_rule \<Rightarrow> ledger \<Rightarrow> bool" for save where
  run_create: "is_uuid j \<Longrightarrow> create_ledger j persistent limit s t = Inr L \<Longrightarrow> ledger_run save L"
| run_step: "ledger_run save L \<Longrightarrow> ledger_step save L M \<Longrightarrow> ledger_run save M"

lemma step_refines: "ledger_step save L M \<Longrightarrow> ledger_inv L \<Longrightarrow> evolves save L M"
  by (elim ledger_stepE)
    (simp_all add: bind_turn_refines reserve_refines narrow_refines record_usage_refines
      begin_request_refines finish_request_refines fail_request_refines reconcile_request_refines
      settle_refines ev_flush ev_refl ev_write)

lemma create_fields:
  assumes "create_ledger j persistent limit s t = Inr L"
  shows "L = persist \<lparr>lg_root = j, lg_root_session = s, lg_root_turn = t,
         lg_accounts = [\<lparr>acc_id = j, acc_parent = None, acc_limit = limit,
           acc_settled = False, acc_turn = Some (s, t), acc_usage = [(t, empty_usage)]\<rparr>],
         lg_requests = [], lg_finished = [], lg_poisoned = False,
         lg_persistent = persistent, lg_queue = [], lg_stored = None,
         lg_persist_error = False\<rparr>"
    and "is_uuid s" and "is_uuid t" and "safe_count limit"
  using assms by (auto simp: create_ledger_def bindE_Inr_iff)

lemma create_inv:
  assumes c: "create_ledger j persistent limit s t = Inr L" and j: "is_uuid j"
  shows "ledger_inv L"
proof -
  note f = create_fields [OF c]
  let ?a = "\<lparr>acc_id = j, acc_parent = None, acc_limit = limit,
           acc_settled = False, acc_turn = Some (s, t), acc_usage = [(t, empty_usage)]\<rparr>"
  let ?L = "\<lparr>lg_root = j, lg_root_session = s, lg_root_turn = t, lg_accounts = [?a],
         lg_requests = [], lg_finished = [], lg_poisoned = False,
         lg_persistent = persistent, lg_queue = [], lg_stored = None, lg_persist_error = False\<rparr>"
  have find: "find_account ?L j = Some ?a" by (simp add: find_account_def)
  then have "anchored ?L j 0" using anchored_root [of ?L ?a] by simp
  then have "tree_ok ?L" using find by (auto simp: tree_ok_def root_ok_def)
  then have "accounts_inv ?L"
    using f j find counter_empty [of total_tokens]
    by (simp add: accounts_inv_def account_ok_def bound_ok_def own_tokens_def counters_def)
  moreover have "requests_inv ?L" "watermark_inv ?L"
    by (simp_all add: requests_inv_def watermark_inv_def all_requests_def charged_def own_of_def)
  ultimately have "ledger_inv ?L" by (simp add: ledger_inv_def)
  then show ?thesis unfolding f(1) by (rule persist_inv)
qed

lemma run_inv: "ledger_run save L \<Longrightarrow> ledger_inv L"
  by (induction rule: ledger_run.induct) (auto intro: create_inv evolves_inv step_refines)

subsection \<open>Every save is accepted\<close>

definition same_root_rule :: save_rule where
  "same_root_rule prev s = (case prev of None \<Rightarrow> True | Some p \<Rightarrow> assert_same_root p s = Inr ())"

text \<open>What the store holds and what is on its way there, oldest first.\<close>

definition history :: "ledger \<Rightarrow> snapshot list" where
  "history L = (case lg_stored L of None \<Rightarrow> [] | Some s \<Rightarrow> [s]) @ lg_queue L"

definition saved_ok :: "ledger \<Rightarrow> bool" where
  "saved_ok L \<longleftrightarrow> \<not> lg_persist_error L
     \<and> (if lg_persistent L
        then history L \<noteq> [] \<and> last (history L) = take_snapshot L
          \<and> successively (\<lambda>p s. assert_same_root p s = Inr ()) (history L)
        else lg_queue L = [])"

lemma core_step_store:
  "core_step L M \<Longrightarrow> lg_queue M = lg_queue L \<and> lg_stored M = lg_stored L
   \<and> lg_persistent M = lg_persistent L \<and> lg_persist_error M = lg_persist_error L"
  by (induction rule: core_step.induct) (simp_all add: put_account_def)

lemma persist_snapshot [simp]: "take_snapshot (persist N) = take_snapshot N"
  by (simp add: take_snapshot_def root_limit_def find_account_def)

lemma snapshot_accepted:
  assumes "core_step L M" and inv: "ledger_inv L"
  shows "assert_same_root (take_snapshot L) (take_snapshot M) = Inr ()"
proof (rule grows_accepted [OF core_step_grows [OF assms]])
  have m: "ledger_inv M" by (rule core_step_inv [OF assms])
  then have "requests_inv M" by (simp add: ledger_inv_def)
  note d = requests_distinct [OF this]
  show "distinct_keys acc_id (sn_accounts (take_snapshot M))"
    using m by (simp add: take_snapshot_def ledger_inv_def accounts_inv_def tree_ok_def)
  show "distinct_keys req_id (sn_requests (take_snapshot M))"
    "distinct_keys req_id (sn_completed (take_snapshot M))"
    using d by (simp_all add: take_snapshot_def)
qed

lemma saved_step:
  assumes "core_step L M" and "ledger_inv L" and "saved_ok L"
  shows "saved_ok (persist M)"
proof (cases "lg_persistent L")
  case True
  note st = core_step_store [OF assms(1)]
  have "history (persist M) = history L @ [take_snapshot M]"
    using st True by (simp add: history_def persist_def)
  then show ?thesis
    using assms(3) st True snapshot_accepted [OF assms(1,2)]
    by (auto simp: saved_ok_def successively_append_iff)
next
  case False
  with assms(3) core_step_store [OF assms(1)] show ?thesis by (simp add: saved_ok_def persist_def)
qed

lemma saved_write:
  assumes "saved_ok L"
  shows "saved_ok (pop_write same_root_rule L)"
proof (cases "lg_queue L")
  case Nil
  with assms show ?thesis by (simp add: pop_write_def)
next
  case (Cons s rest)
  have p: "lg_persistent L" using assms Cons by (simp add: saved_ok_def split: if_splits)
  have acc: "same_root_rule (lg_stored L) s"
    using assms Cons p by (auto simp: same_root_rule_def saved_ok_def history_def split: option.splits)
  then have pop: "pop_write same_root_rule L = L\<lparr>lg_queue := rest, lg_stored := Some s\<rparr>"
    using assms Cons by (simp add: pop_write_def run_write_def saved_ok_def)
  have "successively (\<lambda>p s. assert_same_root p s = Inr ()) (s # rest)" "last (s # rest) = take_snapshot L"
    using assms Cons p by (auto simp: saved_ok_def history_def successively_append_iff split: option.splits)
  then show ?thesis
    using assms p unfolding pop by (simp add: saved_ok_def history_def take_snapshot_def root_limit_def find_account_def)
qed

lemma saved_evolves:
  "evolves same_root_rule L M \<Longrightarrow> ledger_inv L \<Longrightarrow> saved_ok L \<Longrightarrow> saved_ok M"
proof (induction rule: evolves.induct)
  case (ev_step L M N)
  then show ?case using saved_step [OF _ evolves_inv [OF ev_step(1)]] by blast
next
  case (ev_write L M)
  then show ?case using saved_write by blast
qed

lemma create_saved: "create_ledger j persistent limit s t = Inr L \<Longrightarrow> saved_ok L"
  using create_fields(1) [of j persistent limit s t L]
  by (simp add: saved_ok_def history_def persist_def take_snapshot_def root_limit_def find_account_def)

lemma run_saved: "ledger_run same_root_rule L \<Longrightarrow> saved_ok L"
proof (induction rule: ledger_run.induct)
  case (run_create j persistent limit s t L)
  then show ?case using create_saved by blast
next
  case (run_step L M)
  then show ?case using saved_evolves [OF step_refines] run_inv by blast
qed

end
