(* ===== verification/LedgerAccept.thy ===== *)
theory LedgerAccept
  imports LedgerRuns
begin

text \<open>
  A ledger's own snapshots pass validation. Beside the invariant this takes two
  bounds no operation checks: the sums of the cached, cache-write and reasoning
  counters, and the allowance reserved under an account, are safe integers.
\<close>

subsection \<open>Shape\<close>

lemma walk_reaches_root:
  assumes tree: "tree_ok L"
  shows "anchored L (acc_id a) n \<Longrightarrow> a \<in> set (lg_accounts L)
    \<Longrightarrow> (\<And>v m. v \<in> set visited \<Longrightarrow> anchored L v m \<Longrightarrow> n < m)
    \<Longrightarrow> walk_to_root (lg_accounts L) (lg_root L) visited a = Inr ()"
proof (induction n arbitrary: a visited)
  case 0
  then have "acc_id a = lg_root L" by (auto elim: anchored_ZeroE)
  then show ?case by (simp add: walk_to_root.simps)
next
  case (Suc n)
  then obtain p where p: "acc_parent a = Some p" "anchored L p n"
    using tree_find [OF tree Suc.prems(2)] by (auto elim: anchored_SucE)
  obtain b where b: "find_account L p = Some b" "b \<in> set (lg_accounts L)"
    using parent_found [OF tree Suc.prems(2) p(1)] by blast
  have ab: "anchored L (acc_id b) n" using p(2) find_account_mem [OF b(1)] by simp
  have root: "root_ok L" using tree by (simp add: tree_ok_def)
  have "acc_id a \<notin> set visited" using Suc.prems(1,3) by blast
  moreover have "walk_to_root (lg_accounts L) (lg_root L) (acc_id a # visited) b = Inr ()"
  proof (rule Suc.IH [OF ab b(2)])
    fix v m
    assume "v \<in> set (acc_id a # visited)" "anchored L v m"
    then consider "m = Suc n" | "v \<in> set visited"
      using anchored_unique [OF root _ Suc.prems(1)] by auto
    then show "n < m" using Suc.prems(3) \<open>anchored L v m\<close> by cases (simp, fastforce)
  qed
  ultimately show ?case
    using p b by (simp add: walk_to_root.simps find_account_def)
qed

lemma reservations_agree:
  assumes tree: "tree_ok L"
    and safe: "\<And>b. b \<in> set (lg_accounts L) \<Longrightarrow> safe_count (tot_reserved (totals L b))"
  shows "a \<in> set (lg_accounts L) \<Longrightarrow> anchored L (acc_id a) n \<Longrightarrow> length (lg_accounts L) \<le> k + n
    \<Longrightarrow> check_reservations k (lg_accounts L) (lg_requests L) a
       = Inr (tot_tree (totals L a), tot_closed (totals L a))"
proof (induction k arbitrary: a n)
  case 0
  then show ?case using anchored_depth tree by (fastforce simp: tree_ok_def)
next
  case (Suc k)
  let ?g = "\<lambda>c. (c, tot_tree (totals L c), tot_closed (totals L c))"
  have "mapE (\<lambda>c. bindE (check_reservations k (lg_accounts L) (lg_requests L) c) (\<lambda>m. Inr (c, m)))
      (children L a) = Inr (map ?g (children L a))"
  proof (intro mapE_values ballI)
    fix c assume c: "c \<in> set (children L a)"
    have "check_reservations k (lg_accounts L) (lg_requests L) c
        = Inr (tot_tree (totals L c), tot_closed (totals L c))"
      using Suc.IH [OF child_mem [OF c] child_anchored [OF tree c Suc.prems(2)]] Suc.prems(3) by simp
    then show "bindE (check_reservations k (lg_accounts L) (lg_requests L) c) (\<lambda>m. Inr (c, m)) = Inr (?g c)"
      by simp
  qed
  moreover have "(\<Sum>(c, tree, closed)\<leftarrow>map ?g (children L a). if closed then 0 else max 0 (acc_limit c - tree))
      = tot_reserved (totals L a)"
    by (simp add: totals_simps [OF tree Suc.prems(1)] held_by_def o_def)
  moreover have "(\<Sum>(c, tree, closed)\<leftarrow>map ?g (children L a). tree) = (\<Sum>c\<leftarrow>children L a. tot_tree (totals L c))"
    by (simp add: o_def)
  moreover have "list_all (\<lambda>(c, tree, closed). closed) (map ?g (children L a))
      \<longleftrightarrow> (\<forall>c \<in> set (children L a). tot_closed (totals L c))"
    by (simp add: list_all_iff)
  ultimately show ?case
    using safe [OF Suc.prems(1)]
    by (simp add: children_def [symmetric] has_request_def [symmetric] count_int_def
        totals_simps [OF tree Suc.prems(1)])
qed

lemma one_request_each:
  "distinct (map req_account rs) \<Longrightarrow> set (map req_account rs) \<inter> set seen = {}
   \<Longrightarrow> \<exists>seen'. foldE check_one_request seen rs = Inr seen'"
  by (induction rs arbitrary: seen) (auto simp: check_one_request_def require_def)

subsection \<open>Sums of usage\<close>

lemma add_within:
  assumes "usage_ok p" and "usage_ok u" and "\<And>f. f \<in> counters \<Longrightarrow> safe_count (f p + f u)"
  shows "add_usage p u = Inr (accumulate_usage p u)" and "usage_ok (accumulate_usage p u)"
    and "f \<in> counters \<Longrightarrow> f (accumulate_usage p u) = f p + f u"
proof -
  have s: "safe_count (prompt_tokens p + prompt_tokens u)" "safe_count (completion_tokens p + completion_tokens u)"
    "safe_count (total_tokens p + total_tokens u)" "safe_count (cached_tokens p + cached_tokens u)"
    "safe_count (cache_write_tokens p + cache_write_tokens u)"
    "safe_count (reasoning_count p + reasoning_count u)"
    using assms(3) by (simp_all add: counters_def)
  have le: "prompt_tokens p + completion_tokens p \<le> total_tokens p"
    "prompt_tokens u + completion_tokens u \<le> total_tokens u"
    using assms(1,2) by (simp_all add: usage_ok_def)
  show ok: "usage_ok (accumulate_usage p u)"
    using s le by (auto simp: usage_ok_def accumulate_usage_def reasoning_count_def split: option.splits)
  then show "add_usage p u = Inr (accumulate_usage p u)"
    unfolding add_usage_def by (rule usage_value_id)
  show "f \<in> counters \<Longrightarrow> f (accumulate_usage p u) = f p + f u"
    by (erule counter_cases) (auto simp: accumulate_usage_def reasoning_count_def)
qed

lemma add_all_within:
  "usage_ok p \<Longrightarrow> (\<And>u. u \<in> set us \<Longrightarrow> usage_ok u)
   \<Longrightarrow> (\<And>f. f \<in> counters \<Longrightarrow> safe_count (f p + (\<Sum>u\<leftarrow>us. f u)))
   \<Longrightarrow> \<exists>v. foldE add_usage p us = Inr v"
proof (induction us arbitrary: p)
  case (Cons u us)
  have safe: "safe_count (f p + f u)" if f: "f \<in> counters" for f
  proof (rule safe_count_mono [OF Cons.prems(3) [OF f]])
    have "0 \<le> (\<Sum>u\<leftarrow>us. f u)"
      using Cons.prems(2) counter_nonneg [OF f] by (intro sum_list_map_nonneg) simp
    then show "f p + f u \<le> f p + (\<Sum>u\<leftarrow>u # us. f u)" by simp
    show "0 \<le> f p + f u"
      using counter_nonneg [OF f] Cons.prems(1,2) by simp
  qed
  have ok: "usage_ok u" using Cons.prems(2) by simp
  have a: "add_usage p u = Inr (accumulate_usage p u)" "usage_ok (accumulate_usage p u)"
    "\<And>f. f \<in> counters \<Longrightarrow> f (accumulate_usage p u) = f p + f u"
    using add_within [of p u] Cons.prems(1) ok safe by blast+
  have "\<exists>v. foldE add_usage (accumulate_usage p u) us = Inr v"
  proof (rule Cons.IH [OF a(2)])
    show "usage_ok x" if "x \<in> set us" for x using Cons.prems(2) that by simp
    show "safe_count (f (accumulate_usage p u) + (\<Sum>u\<leftarrow>us. f u))" if "f \<in> counters" for f
      using Cons.prems(3) [OF that] a(3) [OF that] by (simp add: add.assoc)
  qed
  with a(1) show ?case by simp
qed simp

text \<open>\<open>by_turn\<close> holds, per turn, the sums of its requests read so far.\<close>

definition measured_so_far :: "(string \<times> token_usage) list \<Rightarrow> request list \<Rightarrow> request \<Rightarrow> bool" where
  "measured_so_far by_turn seen r \<longleftrightarrow>
     (let m = case_option empty_usage id (map_of by_turn (req_turn r))
      in usage_ok m \<and> (\<forall>f \<in> counters. f m = charged f (req_account r) seen))"

lemma charged_Cons: "charged f i (r # rs) = (if req_account r = i then f (observed_usage r) else 0) + charged f i rs"
  by (simp add: charged_def)

lemma observed_ok: "ledger_inv L \<Longrightarrow> r \<in> set (all_requests L) \<Longrightarrow> usage_ok (observed_usage r)"
  using request_usage_ok [of L r] by (simp add: observed_usage_def split: option.splits)

lemma request_own:
  assumes inv: "ledger_inv L" and r: "r \<in> set (all_requests L)"
  obtains a where "find_account L (req_account r) = Some a" "map_of (acc_usage a) (req_turn r) = Some (own_of a)"
    "account_ok a"
proof -
  from inv r obtain a where a: "find_account L (req_account r) = Some a" "turn_of a = Some (req_turn r)"
    by (auto simp: ledger_inv_def requests_inv_def belongs_def)
  have "account_ok a" using inv inv_account [OF _ a(1)] by (simp add: ledger_inv_def)
  then have "map_of (acc_usage a) (req_turn r) = Some (own_of a)"
    using a(2) by (auto simp: account_ok_def bound_ok_def turn_of_def own_of_def split: option.splits)
  with a(1) \<open>account_ok a\<close> that show thesis by blast
qed

lemma same_turn_same_account:
  assumes inv: "ledger_inv L" and "r \<in> set (all_requests L)" and "r' \<in> set (all_requests L)"
  shows "req_turn r = req_turn r' \<longleftrightarrow> req_account r = req_account r'"
proof -
  obtain a where a: "find_account L (req_account r) = Some a" "map_of (acc_usage a) (req_turn r) = Some (own_of a)"
      "account_ok a"
    by (rule request_own [OF inv assms(2)])
  obtain a' where a': "find_account L (req_account r') = Some a'" "map_of (acc_usage a') (req_turn r') = Some (own_of a')"
      "account_ok a'"
    by (rule request_own [OF inv assms(3)])
  have d: "distinct (turns_of (lg_accounts L))" using inv by (simp add: ledger_inv_def accounts_inv_def)
  have "map_of (owners_of (lg_accounts L)) (req_turn r) = Some (req_account r)"
    using owners_lookup [OF d, of a "req_turn r"] find_account_mem [OF a(1)] map_of_SomeD [OF a(2)] by force
  moreover have "map_of (owners_of (lg_accounts L)) (req_turn r') = Some (req_account r')"
    using owners_lookup [OF d, of a' "req_turn r'"] find_account_mem [OF a'(1)] map_of_SomeD [OF a'(2)] by force
  ultimately have "req_turn r = req_turn r' \<Longrightarrow> req_account r = req_account r'" by simp
  moreover have "req_account r = req_account r' \<Longrightarrow> req_turn r = req_turn r'"
  proof -
    assume "req_account r = req_account r'"
    then have "turn_of a = Some (req_turn r)" "turn_of a = Some (req_turn r')"
      using assms a(1) by (auto simp: ledger_inv_def requests_inv_def belongs_def)
    then show "req_turn r = req_turn r'" by simp
  qed
  ultimately show ?thesis by blast
qed

lemma measured_within:
  assumes inv: "ledger_inv L"
  shows "all_requests L = seen @ rest \<Longrightarrow> (\<And>r. r \<in> set (all_requests L) \<Longrightarrow> measured_so_far by_turn seen r)
    \<Longrightarrow> \<exists>m. foldE (check_measured (lg_accounts L)) by_turn rest = Inr m"
proof (induction rest arbitrary: by_turn seen)
  case (Cons r rest)
  have r: "r \<in> set (all_requests L)" using Cons.prems(1) by simp
  show ?case
  proof (cases "req_usage r")
    case None
    have "measured_so_far by_turn (seen @ [r]) x" if "x \<in> set (all_requests L)" for x
      using Cons.prems(2) [OF that] None
      by (auto simp: measured_so_far_def charged_Cons charged_def [of _ _ "[]"] observed_usage_def Let_def)
    then show ?thesis
      using Cons.IH [of "seen @ [r]" by_turn] Cons.prems(1) None by (simp add: check_measured_def)
  next
    case (Some u)
    then have ou: "observed_usage r = u" by (simp add: observed_usage_def)
    have uok: "usage_ok u" using observed_ok [OF inv r] ou by simp
    obtain a where a: "find_account L (req_account r) = Some a"
      "map_of (acc_usage a) (req_turn r) = Some (own_of a)" "account_ok a"
      by (rule request_own [OF inv r])
    have oka: "usage_ok (own_of a)" using a(3) own_of_ok by (simp add: account_ok_def)
    let ?m = "case_option empty_usage id (map_of by_turn (req_turn r))"
    have m: "usage_ok ?m" "f \<in> counters \<Longrightarrow> f ?m = charged f (req_account r) seen" for f
      using Cons.prems(2) [OF r] by (simp_all add: measured_so_far_def Let_def)
    have le: "f ?m + f u \<le> f (own_of a)" if f: "f \<in> counters" for f
    proof -
      have "0 \<le> charged f (req_account r) rest"
        using Cons.prems(1) request_usage_ok [OF inv] by (intro charged_nonneg [OF f]) auto
      moreover have "charged f (req_account r) (all_requests L) \<le> f (own_of a)"
        using inv f find_account_mem [OF a(1)] by (auto simp: ledger_inv_def watermark_inv_def)
      ultimately show ?thesis using m(2) [OF f] ou unfolding Cons.prems(1) by (simp add: charged_Cons)
    qed
    have safe: "safe_count (f ?m + f u)" if f: "f \<in> counters" for f
      using safe_count_mono [OF counter_safe [OF f oka] _ le [OF f]]
        counter_nonneg [OF f m(1)] counter_nonneg [OF f uok] by simp
    have s: "add_usage ?m u = Inr (accumulate_usage ?m u)" "usage_ok (accumulate_usage ?m u)"
      "\<And>f. f \<in> counters \<Longrightarrow> f (accumulate_usage ?m u) = f ?m + f u"
      using add_within [of ?m u] m(1) uok safe by blast+
    have "measured_so_far (AList.update (req_turn r) (accumulate_usage ?m u) by_turn) (seen @ [r]) x"
      if x: "x \<in> set (all_requests L)" for x
    proof (cases "req_turn x = req_turn r")
      case True
      then have "req_account x = req_account r" using same_turn_same_account [OF inv x r] by simp
      with True s(2,3) m(2) ou show ?thesis
        by (simp add: measured_so_far_def Let_def map_of_update charged_Cons charged_def [of _ _ "[]"])
    next
      case False
      then have "req_account x \<noteq> req_account r" using same_turn_same_account [OF inv x r] by simp
      with False Cons.prems(2) [OF x] show ?thesis
        by (simp add: measured_so_far_def Let_def map_of_update charged_Cons charged_def [of _ _ "[]"])
    qed
    then have "\<exists>k. foldE (check_measured (lg_accounts L))
        (AList.update (req_turn r) (accumulate_usage ?m u) by_turn) rest = Inr k"
      using Cons.prems(1) by (intro Cons.IH [of "seen @ [r]"]) simp_all
    moreover have "check_measured (lg_accounts L) by_turn r
        = Inr (AList.update (req_turn r) (accumulate_usage ?m u) by_turn)"
      using a(1,2) le s(1) s(3)
      by (simp add: check_measured_def Some find_account_def require_def counters_def)
    ultimately show ?thesis by simp
  qed
qed simp

subsection \<open>The whole snapshot\<close>

definition all_usage :: "ledger \<Rightarrow> token_usage list" where
  "all_usage L = concat (map (\<lambda>a. map snd (acc_usage a)) (lg_accounts L))"

text \<open>The two bounds no operation checks.\<close>

definition representable :: "ledger \<Rightarrow> bool" where
  "representable L \<longleftrightarrow>
     (\<forall>a \<in> set (lg_accounts L). safe_count (tot_reserved (totals L a)))
     \<and> safe_count (\<Sum>u\<leftarrow>all_usage L. cached_tokens u)
     \<and> safe_count (\<Sum>u\<leftarrow>all_usage L. cache_write_tokens u)
     \<and> safe_count (\<Sum>u\<leftarrow>all_usage L. reasoning_count u)"

lemma all_usage_ok: "accounts_inv L \<Longrightarrow> u \<in> set (all_usage L) \<Longrightarrow> usage_ok u"
  unfolding all_usage_def accounts_inv_def using account_usage_ok by fastforce

lemma all_usage_total: "(\<Sum>u\<leftarrow>all_usage L. total_tokens u) = (\<Sum>a\<leftarrow>lg_accounts L. own_tokens a)"
proof -
  have "(\<Sum>u\<leftarrow>concat (map (\<lambda>a. map snd (acc_usage a)) as). total_tokens u) = (\<Sum>a\<leftarrow>as. own_tokens a)" for as
    by (induction as) (auto simp: own_tokens_def split_def o_def)
  then show ?thesis by (simp add: all_usage_def)
qed

lemma aggregate_within:
  assumes inv: "accounts_inv L" and rep: "representable L"
  shows "\<exists>u. foldE add_usage empty_usage (all_usage L) = Inr u"
proof (rule add_all_within)
  show "usage_ok empty_usage" by simp
  show ok: "usage_ok u" if "u \<in> set (all_usage L)" for u using all_usage_ok [OF inv that] .
  have total: "safe_count (\<Sum>u\<leftarrow>all_usage L. total_tokens u)"
    using inv by (simp add: all_usage_total accounts_inv_def)
  have part: "safe_count (\<Sum>u\<leftarrow>all_usage L. f u)"
    if "\<And>u. usage_ok u \<Longrightarrow> 0 \<le> f u \<and> f u \<le> total_tokens u" for f
    using that ok by (intro safe_count_mono [OF total] sum_list_map_nonneg sum_list_map_mono_int) auto
  have "safe_count (\<Sum>u\<leftarrow>all_usage L. f u)" if "f \<in> counters" for f
    using that
  proof (cases rule: counter_cases)
    case 1
    then show ?thesis using part [of prompt_tokens] by (auto simp: usage_ok_def safe_count_def)
  next
    case 2
    then show ?thesis using part [of completion_tokens] by (auto simp: usage_ok_def safe_count_def)
  qed (use total rep in \<open>simp_all add: representable_def\<close>)
  then show "safe_count (f empty_usage + (\<Sum>u\<leftarrow>all_usage L. f u))" if "f \<in> counters" for f
    using that by simp
qed

lemma belongs_request_ok:
  assumes inv: "ledger_inv L" and r: "r \<in> set (all_requests L)"
  shows "request_ok (owners_of (lg_accounts L)) (lg_accounts L) r"
proof -
  obtain a where a: "find_account L (req_account r) = Some a"
    "map_of (acc_usage a) (req_turn r) = Some (own_of a)" "account_ok a"
    by (rule request_own [OF inv r])
  have d: "distinct (turns_of (lg_accounts L))" using inv by (simp add: ledger_inv_def accounts_inv_def)
  have am: "a \<in> set (lg_accounts L)" "acc_id a = req_account r" using find_account_mem [OF a(1)] by simp_all
  have t: "req_turn r \<in> fst ` set (acc_usage a)" using map_of_SomeD [OF a(2)] by force
  then have "is_uuid (req_turn r)"
    using a(3) by (auto simp: account_ok_def bound_ok_def split: option.splits)
  moreover have "map_of (owners_of (lg_accounts L)) (req_turn r) = Some (req_account r)"
    using owners_lookup [OF d am(1) t] am(2) by simp
  moreover have "is_uuid (req_account r)" using a(3) am(2) by (simp add: account_ok_def)
  moreover have "belongs L r" using inv r by (simp add: ledger_inv_def requests_inv_def)
  moreover have "khas acc_id (req_account r) (lg_accounts L)"
    unfolding khas_set am(2) [symmetric] by (rule imageI [OF am(1)])
  ultimately show ?thesis by (simp add: request_ok_def belongs_def)
qed

lemma snapshot_valid:
  assumes inv: "ledger_inv L" and rep: "representable L"
  shows "snapshot_ok (take_snapshot L)"
proof -
  have ai: "accounts_inv L" and ri: "requests_inv L" using inv by (simp_all add: ledger_inv_def)
  have tree: "tree_ok L" using ai by (rule inv_tree)
  obtain r where r: "find_account L (lg_root L) = Some r" "acc_parent r = None"
    using tree by (auto simp: tree_ok_def root_ok_def)
  have rm: "r \<in> set (lg_accounts L)" "acc_id r = lg_root L" using find_account_mem [OF r(1)] by simp_all
  have rok: "account_ok r" using inv_account [OF ai r(1)] .
  have rt: "acc_turn r = Some (lg_root_session L, lg_root_turn L)" using ai r(1) by (simp add: accounts_inv_def)
  have ids: "is_uuid (lg_root_session L)" "is_uuid (lg_root_turn L)" "is_uuid (lg_root L)" "safe_count (acc_limit r)"
    using rok rt rm(2) by (auto simp: account_ok_def bound_ok_def)
  have lim: "root_limit L = acc_limit r" by (simp add: root_limit_def r(1))
  have root: "check_root (lg_accounts L) (lg_root L) (lg_root_session L) (lg_root_turn L) = Inr r"
    using r rt by (simp add: check_root_def find_account_def)
  have "anchored L (acc_id r) 0" using r anchored_root rm(2) by metis
  then have res: "check_reservations (length (lg_accounts L)) (lg_accounts L) (lg_requests L) r
      = Inr (tot_tree (totals L r), tot_closed (totals L r))"
    using rep by (intro reservations_agree [OF tree _ rm(1)]) (auto simp: representable_def)
  have walk: "mapE (walk_to_root (lg_accounts L) (lg_root L) []) (lg_accounts L)
      = Inr (map (\<lambda>_. ()) (lg_accounts L))"
    using tree_depth [OF tree] walk_reaches_root [OF tree] by (intro mapE_values ballI) fastforce
  obtain seen where one: "foldE check_one_request [] (lg_requests L) = Inr seen"
    using one_request_each [of "lg_requests L" "[]"] ri by (auto simp: requests_inv_def)
  have "measured_so_far [] [] x" for x by (simp add: measured_so_far_def charged_def)
  then obtain m where m: "foldE (check_measured (lg_accounts L)) [] (all_requests L) = Inr m"
    using measured_within [OF inv, of "[]" "all_requests L" "[]"] by auto
  obtain u where u: "foldE add_usage empty_usage (all_usage L) = Inr u"
    using aggregate_within [OF ai rep] by blast
  show ?thesis
    unfolding snapshot_ok_def take_snapshot_def snapshot.simps all_requests_def [symmetric] all_usage_def [symmetric]
    using ids lim root res walk one m u ai ri belongs_request_ok [OF inv]
    by (simp add: accounts_inv_def tree_ok_def requests_inv_def)
qed

text \<open>And the other way: what validation accepts of a ledger reserves a safe count under every account.\<close>

lemma reservations_checked:
  assumes tree: "tree_ok L"
  shows "check_reservations k (lg_accounts L) (lg_requests L) a = Inr m \<Longrightarrow> a \<in> set (lg_accounts L) \<Longrightarrow> anchored L (acc_id a) n
    \<Longrightarrow> length (lg_accounts L) \<le> k + n
    \<Longrightarrow> m = (tot_tree (totals L a), tot_closed (totals L a)) \<and> (\<forall>b \<in> under_set L a. safe_count (tot_reserved (totals L b)))"
proof (induction k arbitrary: a n m)
  case 0
  then show ?case using anchored_depth tree by (fastforce simp: tree_ok_def)
next
  case (Suc k)
  let ?f = "\<lambda>c. bindE (check_reservations k (lg_accounts L) (lg_requests L) c) (\<lambda>m. Inr (c, m))"
    and ?g = "\<lambda>c. (c, tot_tree (totals L c), tot_closed (totals L c))"
  obtain ds where ds: "mapE ?f (children L a) = Inr ds" using Suc.prems(1) by (auto simp: bindE_Inr_iff children_def)
  have c: "check_reservations k (lg_accounts L) (lg_requests L) c = Inr (tot_tree (totals L c), tot_closed (totals L c))
      \<and> (\<forall>b \<in> under_set L c. safe_count (tot_reserved (totals L b)))" if "c \<in> set (children L a)" for c
  proof -
    have "\<exists>y. ?f c = Inr y" using mapE_Inr_ex [of ?f "children L a"] ds that by blast
    then obtain m' where "check_reservations k (lg_accounts L) (lg_requests L) c = Inr m'" by (auto simp: bindE_Inr_iff)
    with Suc.IH [OF this child_mem [OF that] child_anchored [OF tree that Suc.prems(3)]] Suc.prems(4)
    show ?thesis by simp
  qed
  have m: "mapE ?f (children L a) = Inr (map ?g (children L a))" using c by (intro mapE_values) simp
  have sums: "(\<Sum>(c, tree, closed)\<leftarrow>map ?g (children L a). if closed then 0 else max 0 (acc_limit c - tree))
      = tot_reserved (totals L a)"
    "(\<Sum>(c, tree, closed)\<leftarrow>map ?g (children L a). tree) = (\<Sum>c\<leftarrow>children L a. tot_tree (totals L c))"
    "list_all (\<lambda>(c, tree, closed). closed) (map ?g (children L a)) \<longleftrightarrow> (\<forall>c \<in> set (children L a). tot_closed (totals L c))"
    by (simp_all add: totals_simps [OF tree Suc.prems(2)] held_by_def o_def list_all_iff)
  have "safe_count (tot_reserved (totals L a)) \<and> m = (tot_tree (totals L a), tot_closed (totals L a))"
    using Suc.prems(1) m sums
    by (auto simp: children_def [symmetric] has_request_def [symmetric] bindE_Inr_iff count_int_def
        totals_simps [OF tree Suc.prems(2)] split: if_splits)
  then show ?case using c unfolding under_set_unfold [OF tree Suc.prems(2)] by auto
qed

lemma snapshot_reserves_safely:
  assumes inv: "ledger_inv L" and v: "validate_snapshot (encode_snapshot (take_snapshot L)) = Inr s"
    and b: "b \<in> set (lg_accounts L)"
  shows "safe_count (tot_reserved (totals L b))"
proof -
  have ai: "accounts_inv L" and ri: "requests_inv L" using inv by (simp_all add: ledger_inv_def)
  have tree: "tree_ok L" using ai by (rule inv_tree)
  obtain r where r: "find_account L (lg_root L) = Some r" "acc_parent r = None"
    using tree by (auto simp: tree_ok_def root_ok_def)
  have rm: "r \<in> set (lg_accounts L)" "acc_id r = lg_root L" using find_account_mem [OF r(1)] by simp_all
  have f: "sn_accounts (take_snapshot L) = lg_accounts L" "sn_requests (take_snapshot L) = lg_requests L"
    "sn_completed (take_snapshot L) = lg_finished L" "sn_root_account (take_snapshot L) = lg_root L"
    by (simp_all add: take_snapshot_def)
  have "s = take_snapshot L"
    by (rule encoded_comes_back [OF _ _ _ _ v])
      (use ai ri belongs_request_ok [OF inv] in \<open>simp_all add: f all_requests_def accounts_inv_def requests_inv_def\<close>)
  then have "snapshot_ok (take_snapshot L)" using validate_accepts [OF v] by simp
  then obtain m where "check_reservations (length (lg_accounts L)) (lg_accounts L) (lg_requests L) r = Inr m"
    using r by (auto simp: snapshot_ok_def f check_root_def find_account_def split: if_splits)
  moreover have "anchored L (acc_id r) 0" using r anchored_root rm(2) by metis
  moreover have "b \<in> under_set L r" using root_above_all [OF tree r(1) b] by (simp add: under_set_def)
  ultimately show ?thesis using reservations_checked [OF tree _ rm(1)] by fastforce
qed

subsection \<open>Restarting from a snapshot\<close>

lemma restored_inv:
  assumes inv: "ledger_inv L"
  shows "ledger_inv (ledger_of_snapshot p (take_snapshot L))" (is "ledger_inv ?M")
proof -
  have m: "lg_accounts ?M = lg_accounts L" "lg_root ?M = lg_root L" "lg_root_session ?M = lg_root_session L"
    "lg_root_turn ?M = lg_root_turn L" by (simp_all add: ledger_of_snapshot_def take_snapshot_def)
  let ?f = "\<lambda>r. r\<lparr>req_unresolved := True\<rparr>"
  have rq: "lg_requests ?M = map ?f (lg_requests L)" "lg_finished ?M = lg_finished L" "all_requests ?M = map ?f (lg_requests L) @ lg_finished L"
    by (simp_all add: ledger_of_snapshot_def take_snapshot_def all_requests_def)
  have am: "accounts_inv ?M" using inv by (intro accounts_core [OF _ m]) (simp add: ledger_inv_def)
  have "belongs ?M (?f r) = belongs L r" for r
    unfolding belongs_core [OF m(1)] by (simp add: belongs_def)
  moreover have "belongs ?M r = belongs L r" for r by (rule belongs_core [OF m(1)])
  ultimately have rm: "requests_inv ?M"
    using inv by (auto simp: ledger_inv_def requests_inv_def rq all_requests_def o_def)
  have "charged f i (all_requests ?M) = charged f i (all_requests L)" for f i
    by (simp add: rq all_requests_def) (simp add: charged_def o_def observed_usage_def cong: if_cong)
  then have "watermark_inv ?M" using inv m by (simp add: ledger_inv_def watermark_inv_def)
  with am rm show ?thesis by (simp add: ledger_inv_def)
qed

lemma retain_step:
  assumes inv: "ledger_inv L" and r: "r \<in> set (lg_requests L)"
  shows "core_step L (retain_unresolved r L)"
proof -
  have all: "r \<in> set (all_requests L)" using r by (simp add: all_requests_def)
  then obtain a where find: "find_account L (req_account r) = Some a"
    using inv by (auto simp: ledger_inv_def requests_inv_def belongs_def)
  have "charges L a r a (r\<lparr>req_unresolved := True\<rparr>)" using charge_nothing [OF inv all find] by simp
  from cs_finish [OF r this] show ?thesis
    using put_same [OF inv find] by (simp add: retain_unresolved_def)
qed

text \<open>Which requests a ledger still knows about, and that each is marked.\<close>

definition still_uncertain :: "ledger \<Rightarrow> string \<Rightarrow> bool" where
  "still_uncertain L q \<longleftrightarrow> (\<exists>r \<in> set (uncertain_requests L). req_id r = q)"

lemma retain_uncertain:
  assumes d: "distinct_keys req_id (all_requests L)" and r: "r \<in> set (lg_requests L)"
  shows "still_uncertain L q \<Longrightarrow> still_uncertain (retain_unresolved r L) q"
proof -
  assume "still_uncertain L q"
  then obtain x where x: "x \<in> set (lg_requests L) \<union> set (lg_finished L)" "req_unresolved x" "req_id x = q"
    by (auto simp: still_uncertain_def uncertain_requests_def)
  have new: "req_id r \<notin> req_id ` set (lg_finished L)"
    using d r by (auto simp: all_requests_def)
  show "still_uncertain (retain_unresolved r L) q"
  proof (cases "q = req_id r")
    case True
    then show ?thesis
      using new by (auto simp: still_uncertain_def uncertain_requests_def retain_unresolved_def kput_new)
  next
    case False
    then have "x \<in> set (lg_requests (retain_unresolved r L)) \<union> set (lg_finished (retain_unresolved r L))"
      using x new by (auto simp: retain_unresolved_def kput_new set_kdel)
    with x show ?thesis by (auto simp: still_uncertain_def uncertain_requests_def)
  qed
qed

lemma retain_rest:
  "ledger_inv L \<Longrightarrow> r \<in> set (lg_requests L) \<Longrightarrow> x \<in> set (lg_requests L) \<Longrightarrow> x \<noteq> r
   \<Longrightarrow> x \<in> set (lg_requests (retain_unresolved r L))"
  using requests_distinct distinct_keys_inj
  by (fastforce simp: ledger_inv_def retain_unresolved_def set_kdel)

lemma retained_inv:
  "ledger_inv L \<Longrightarrow> set rs \<subseteq> set (lg_requests L) \<Longrightarrow> distinct rs
   \<Longrightarrow> ledger_inv (fold retain_unbounded rs L)
     \<and> lg_accounts (fold retain_unbounded rs L) = lg_accounts L
     \<and> (\<forall>q. still_uncertain L q \<longrightarrow> still_uncertain (fold retain_unbounded rs L) q)"
proof (induction rs arbitrary: L)
  case (Cons r rs)
  let ?M = "retain_unbounded r L"
  have r: "r \<in> set (lg_requests L)" using Cons.prems(2) by simp
  have d: "distinct_keys req_id (all_requests L)"
    using Cons.prems(1) by (simp add: ledger_inv_def requests_inv_def)
  have "ledger_inv ?M \<and> lg_accounts ?M = lg_accounts L \<and> set rs \<subseteq> set (lg_requests ?M)
      \<and> (\<forall>q. still_uncertain L q \<longrightarrow> still_uncertain ?M q)"
  proof (cases "?M = L")
    case True
    with Cons.prems show ?thesis by simp
  next
    case False
    then have m: "?M = retain_unresolved r L"
      by (auto simp: retain_unbounded_def split: option.splits if_splits)
    have "ledger_inv ?M" unfolding m by (rule core_step_inv [OF retain_step [OF Cons.prems(1) r] Cons.prems(1)])
    moreover have "set rs \<subseteq> set (lg_requests ?M)"
      unfolding m using retain_rest [OF Cons.prems(1) r] Cons.prems(2,3) by auto
    moreover have "lg_accounts ?M = lg_accounts L" by (simp add: m retain_unresolved_def)
    ultimately show ?thesis using retain_uncertain [OF d r] m by simp
  qed
  with Cons.IH [of ?M] Cons.prems(3) show ?case by simp
qed simp

lemma restart:
  assumes inv: "ledger_inv L" and rep: "representable L"
  shows "\<exists>M. restore_ledger p (take_snapshot L) = Inr M \<and> ledger_inv M
    \<and> lg_accounts M = lg_accounts L
    \<and> (\<forall>r \<in> set (lg_requests L). still_uncertain M (req_id r))"
proof -
  let ?N = "ledger_of_snapshot p (take_snapshot L)"
  have v: "validate_snapshot (encode_snapshot (take_snapshot L)) = Inr (take_snapshot L)"
    by (rule validate_encode [OF snapshot_valid [OF assms]])
  have n: "ledger_inv ?N" by (rule restored_inv [OF inv])
  have "requests_inv ?N" using n by (simp add: ledger_inv_def)
  then have "distinct (lg_requests ?N)" using requests_distinct by (auto simp: distinct_map)
  from retained_inv [OF n subset_refl this]
  have f: "ledger_inv (fold retain_unbounded (lg_requests ?N) ?N)"
    "lg_accounts (fold retain_unbounded (lg_requests ?N) ?N) = lg_accounts ?N"
    "\<forall>q. still_uncertain ?N q \<longrightarrow> still_uncertain (fold retain_unbounded (lg_requests ?N) ?N) q" by auto
  have a: "lg_accounts ?N = lg_accounts L" by (simp add: ledger_of_snapshot_def take_snapshot_def)
  have "still_uncertain ?N (req_id r)" if "r \<in> set (lg_requests L)" for r
  proof -
    let ?x = "r\<lparr>req_unresolved := True\<rparr>"
    have "?x \<in> set (uncertain_requests ?N)"
      using that by (auto simp: uncertain_requests_def ledger_of_snapshot_def take_snapshot_def)
    then show ?thesis unfolding still_uncertain_def by (intro bexI [of _ ?x]) simp_all
  qed
  with f a show ?thesis by (simp add: restore_ledger_def v Let_def)
qed

end
