(* ===== verification/LedgerProperties.thy ===== *)
theory LedgerProperties
  imports LedgerAccept
begin

text \<open>
  The properties of the session token budget, each with a run of the operations
  on a small ledger that meets its hypotheses.
\<close>

subsection \<open>A small ledger\<close>

definition ex_root :: string where "ex_root = ''00000000-0000-7000-8000-000000000001''"
definition ex_session :: string where "ex_session = ''00000000-0000-7000-8000-000000000002''"
definition ex_turn :: string where "ex_turn = ''00000000-0000-7000-8000-000000000003''"
definition ex_child :: string where "ex_child = ''00000000-0000-7000-8000-000000000004''"
definition ex_request :: string where "ex_request = ''00000000-0000-7000-8000-000000000005''"
definition ex_child_turn :: string where "ex_child_turn = ''00000000-0000-7000-8000-000000000006''"

definition ex_usage :: token_usage where
  "ex_usage = \<lparr>prompt_tokens = 10, completion_tokens = 20, total_tokens = 30,
     cached_tokens = 4, cache_write_tokens = 2, reasoning_tokens = Some 5\<rparr>"

text \<open>Created with 1000 tokens; 400 reserved for a child; a request sent; answered.\<close>

definition ex_created :: ledger where
  "ex_created = (case create_ledger ex_root True 1000 ex_session ex_turn of Inl _ \<Rightarrow> undefined | Inr L \<Rightarrow> L)"
definition ex_reserved :: ledger where
  "ex_reserved = fst (reserve ex_created ex_root ex_child 400)"
definition ex_asked :: ledger where
  "ex_asked = fst (begin_request same_root_rule ex_reserved ex_root ex_request)"
definition ex_answered :: ledger where
  "ex_answered = fst (finish_request same_root_rule ex_asked ex_root ex_request ex_usage)"

lemma ex_created_eq: "create_ledger ex_root True 1000 ex_session ex_turn = Inr ex_created"
  by code_simp

lemma ex_root_uuid: "is_uuid ex_root"
  by code_simp

lemma ex_fresh: "fresh_account ex_created ex_child" "fresh_request ex_reserved ex_request"
  by code_simp+

lemma ex_run_created: "ledger_run save ex_created"
  using run_create [OF ex_root_uuid ex_created_eq] .

lemma ex_run_reserved: "ledger_run save ex_reserved"
  unfolding ex_reserved_def by (rule run_step [OF ex_run_created st_reserve [OF ex_fresh(1)]])

lemma ex_run_asked: "ledger_run same_root_rule ex_asked"
  unfolding ex_asked_def by (rule run_step [OF ex_run_reserved st_begin [OF ex_fresh(2)]])

lemma ex_run_answered: "ledger_run same_root_rule ex_answered"
  unfolding ex_answered_def by (rule run_step [OF ex_run_asked st_finish])

subsection \<open>Invariant and persistence\<close>

text \<open>C20: every ledger a run of operations reaches keeps the invariant: the accounts
  form a tree under the root, each bound to at most one turn whose usage it holds,
  no turn in two accounts, every request belongs to the account its turn is bound
  to, at most one request in flight per account, the spend of the tree is a safe
  integer, and every account was charged at least what its requests measured.\<close>

theorem ledger_invariant: "ledger_run save L \<Longrightarrow> ledger_inv L"
  by (rule run_inv)

theorem ledger_invariant_witness: "ledger_inv ex_answered"
  by (rule ledger_invariant [OF ex_run_answered])

text \<open>C23: no save a run issues is refused as stale. Against a store that applies
  \<open>assertSameRoot\<close> to what it holds, the ledger never sees a persistence error, and
  the last snapshot stored or queued is the ledger as it is now.\<close>

theorem saves_never_stale:
  assumes "ledger_run same_root_rule L"
  shows "\<not> lg_persist_error L \<and> (lg_persistent L \<longrightarrow> last (history L) = take_snapshot L)"
  using run_saved [OF assms] by (simp add: saved_ok_def split: if_splits)

theorem saves_never_stale_witness:
  "lg_persistent ex_answered \<and> \<not> lg_persist_error ex_answered \<and> last (history ex_answered) = take_snapshot ex_answered"
proof -
  have "lg_persistent ex_answered" by code_simp
  with saves_never_stale [OF ex_run_answered] show ?thesis by simp
qed

lemma drained_queue: "lg_queue (drain_writes save L) = []"
  by (simp add: drain_writes_def)

text \<open>C8: durability. After \<open>flush\<close> the store holds the ledger as it is now.\<close>

theorem flush_is_durable:
  assumes "ledger_run same_root_rule L" and "lg_persistent L"
  shows "snd (flush_writes same_root_rule L) = Inr ()
    \<and> lg_stored (fst (flush_writes same_root_rule L)) = Some (take_snapshot L)"
proof -
  have e: "evolves same_root_rule L (drain_writes same_root_rule L)" by (rule evolves_drain [OF ev_refl])
  have ok: "saved_ok (drain_writes same_root_rule L)"
    by (rule saved_evolves [OF e run_inv [OF assms(1)] run_saved [OF assms(1)]])
  have core: "lg_persistent (drain_writes same_root_rule L) = lg_persistent L"
    "take_snapshot (drain_writes same_root_rule L) = take_snapshot L"
  proof -
    have "lg_persistent (fold (run_write s) xs M) = lg_persistent M
      \<and> lg_accounts (fold (run_write s) xs M) = lg_accounts M \<and> lg_root (fold (run_write s) xs M) = lg_root M
      \<and> lg_root_session (fold (run_write s) xs M) = lg_root_session M
      \<and> lg_root_turn (fold (run_write s) xs M) = lg_root_turn M
      \<and> lg_requests (fold (run_write s) xs M) = lg_requests M
      \<and> lg_finished (fold (run_write s) xs M) = lg_finished M" for s xs M
      by (induction xs arbitrary: M) (simp_all add: run_write_def)
    moreover have "lg_poisoned (fold (run_write s) xs M) = lg_poisoned M"
      if "\<not> lg_persist_error (fold (run_write s) xs M)" for s xs M
      using that
    proof (induction xs arbitrary: M)
      case (Cons x xs)
      have stuck: "lg_persist_error M \<Longrightarrow> lg_persist_error (fold (run_write s) ys M)" for ys M
        by (induction ys arbitrary: M) (simp_all add: run_write_def)
      have "\<not> lg_persist_error (run_write s x M)" using Cons.prems stuck by auto
      then have "lg_poisoned (run_write s x M) = lg_poisoned M" by (auto simp: run_write_def split: if_splits)
      with Cons show ?case by simp
    qed simp
    ultimately show "lg_persistent (drain_writes same_root_rule L) = lg_persistent L"
      "take_snapshot (drain_writes same_root_rule L) = take_snapshot L"
      using ok by (simp_all add: drain_writes_def saved_ok_def take_snapshot_def root_limit_def find_account_def)
  qed
  then have "lg_stored (drain_writes same_root_rule L) = Some (take_snapshot L)"
    using ok assms(2) drained_queue [of same_root_rule L]
    by (simp add: saved_ok_def history_def split: option.splits)
  then show ?thesis using ok by (simp add: flush_writes_def Let_def saved_ok_def)
qed

theorem flush_is_durable_witness:
  "lg_stored (fst (flush_writes same_root_rule ex_answered)) = Some (take_snapshot ex_answered)"
proof -
  have "lg_persistent ex_answered" by code_simp
  with flush_is_durable [OF ex_run_answered] show ?thesis by simp
qed

text \<open>a ledger's own snapshot passes the validation of the document format and
  reads back unchanged, as long as the cached, cache-write and reasoning counters
  and the allowance reserved under each account sum to safe integers.\<close>

theorem own_snapshot_valid:
  assumes "ledger_run save L" and "representable L"
  shows "validate_snapshot (encode_snapshot (take_snapshot L)) = Inr (take_snapshot L)"
  by (rule validate_encode [OF snapshot_valid [OF run_inv [OF assms(1)] assms(2)]])

theorem own_snapshot_valid_witness:
  "validate_snapshot (encode_snapshot (take_snapshot ex_answered)) = Inr (take_snapshot ex_answered)"
proof -
  have "representable ex_answered" by code_simp
  with own_snapshot_valid [OF ex_run_answered] show ?thesis .
qed

text \<open>a restart loses nothing. Restoring a ledger's snapshot succeeds, keeps every
  account as it was, and every request that was in flight is afterwards recorded
  as unresolved spend: none is forgotten.\<close>

theorem restart_keeps_requests:
  assumes "ledger_run save L" and "representable L"
  shows "\<exists>M. restore_ledger p (take_snapshot L) = Inr M \<and> ledger_inv M
    \<and> lg_accounts M = lg_accounts L
    \<and> (\<forall>r \<in> set (lg_requests L). \<exists>u \<in> set (uncertain_requests M). req_id u = req_id r)"
  using restart [OF run_inv [OF assms(1)] assms(2)] unfolding still_uncertain_def .

theorem restart_keeps_requests_witness:
  "\<exists>M. restore_ledger True (take_snapshot ex_asked) = Inr M \<and> ledger_inv M
    \<and> lg_accounts M = lg_accounts ex_asked
    \<and> (\<forall>r \<in> set (lg_requests ex_asked). \<exists>u \<in> set (uncertain_requests M). req_id u = req_id r)"
proof -
  have "representable ex_asked" by code_simp
  with restart_keeps_requests [OF ex_run_asked] show ?thesis .
qed

text \<open>the document format round trips. Whatever validation accepts, written
  again, is accepted as the same snapshot.\<close>

theorem snapshot_roundtrip:
  assumes "validate_snapshot v = Inr s"
  shows "validate_snapshot (encode_snapshot s) = Inr s"
  by (rule validate_encode [OF validate_accepts [OF assms]])

theorem snapshot_roundtrip_witness:
  "validate_snapshot (encode_snapshot (take_snapshot ex_asked)) = Inr (take_snapshot ex_asked)"
proof -
  have "validate_snapshot (encode_snapshot (take_snapshot ex_asked)) = Inr (take_snapshot ex_asked)"
    by code_simp
  then show ?thesis by (rule snapshot_roundtrip)
qed

text \<open>a stored ledger survives. Whatever snapshots writers save into the in-memory
  store, stale or foreign, for whatever scopes, a ledger once stored keeps its root
  account, every account with at least its spend and its binding, and every receipt.\<close>

theorem memory_ledger_survives:
  assumes "mem_load st sc = Inr (Some old)" and "snapshot_ok old" and "validate_budget_scope sc = Inr sc"
  shows "\<exists>new. mem_load (fold (\<lambda>(sc', s) st. fst (mem_save st sc' s)) ops st) sc = Inr (Some new)
    \<and> survives old new"
  using memory_ledgers.saves_survive [OF assms, of ops] by blast

text \<open>A ledger stored on disk survives. Whatever snapshots writers save into the disk store, stale
  or foreign, for whatever scopes, whichever of the writes the file system fails, a ledger once stored keeps its root
  account, every account with at least its spend and its binding, and every receipt.\<close>

theorem disk_ledger_survives:
  assumes "disk_load dir st sc = Inr (Some old)" and "validate_budget_scope sc = Inr sc"
  shows "\<exists>new. disk_load dir (fold (\<lambda>(sc', s) st. fst (disk_save dir st sc' s)) ops st) sc = Inr (Some new)
    \<and> survives old new"
proof -
  have "snapshot_ok old"
    using assms by (auto simp: disk_load_def disk_read_def scope_snapshot bindE_Inr_iff
        intro: validate_accepts split: option.splits)
  from disk_ledgers.saves_survive [OF assms(1) this assms(2), of ops] show ?thesis by blast
qed

definition ex_scope :: scope where "ex_scope = (ex_session, ex_turn)"

theorem memory_ledger_survives_witness:
  "\<exists>new. mem_load (fold (\<lambda>(sc', s) st. fst (mem_save st sc' s))
      [(ex_scope, take_snapshot ex_created)] [(store_key ex_scope, take_snapshot ex_answered)]) ex_scope = Inr (Some new)
    \<and> survives (take_snapshot ex_answered) new"
proof (rule memory_ledger_survives)
  show "mem_load [(store_key ex_scope, take_snapshot ex_answered)] ex_scope = Inr (Some (take_snapshot ex_answered))"
    by code_simp
  have "validate_snapshot (encode_snapshot (take_snapshot ex_answered)) = Inr (take_snapshot ex_answered)"
    by code_simp
  then show "snapshot_ok (take_snapshot ex_answered)" by (rule validate_accepts)
  show "validate_budget_scope ex_scope = Inr ex_scope" by code_simp
qed

theorem disk_ledger_survives_witness:
  "\<exists>new. disk_load ''/p'' (fold (\<lambda>(sc', s) st. fst (disk_save ''/p'' st sc' s))
      [(ex_scope, take_snapshot ex_created)]
      ([(budget_file ''/p'' ex_scope, encode_snapshot (take_snapshot ex_answered))], [])) ex_scope = Inr (Some new)
    \<and> survives (take_snapshot ex_answered) new"
proof (rule disk_ledger_survives)
  show "disk_load ''/p'' ([(budget_file ''/p'' ex_scope, encode_snapshot (take_snapshot ex_answered))], []) ex_scope
    = Inr (Some (take_snapshot ex_answered))"
    by code_simp
  show "validate_budget_scope ex_scope = Inr ex_scope" by code_simp
qed

end
