(* ===== verification/LedgerConservation.thy ===== *)
theory LedgerConservation
  imports LedgerProperties
begin

text \<open>
  Conservation of tokens: what a reservation, a spend, a settlement and a failed
  request do to what every account has free.
\<close>

subsection \<open>What an operation leaves behind\<close>

lemma flush_core [simp]:
  "lg_accounts (fst (flush_writes save L)) = lg_accounts L" "lg_root (fst (flush_writes save L)) = lg_root L"
  "lg_requests (fst (flush_writes save L)) = lg_requests L" "lg_finished (fst (flush_writes save L)) = lg_finished L"
proof -
  have "lg_accounts (fold (run_write s) xs M) = lg_accounts M \<and> lg_root (fold (run_write s) xs M) = lg_root M
      \<and> lg_requests (fold (run_write s) xs M) = lg_requests M
      \<and> lg_finished (fold (run_write s) xs M) = lg_finished M" for s xs M
    by (induction xs arbitrary: M) (simp_all add: run_write_def)
  then show "lg_accounts (fst (flush_writes save L)) = lg_accounts L" "lg_root (fst (flush_writes save L)) = lg_root L"
    "lg_requests (fst (flush_writes save L)) = lg_requests L" "lg_finished (fst (flush_writes save L)) = lg_finished L"
    by (simp_all add: flush_writes_def drain_writes_def Let_def)
qed

lemma persist_and_flush_core [simp]:
  "lg_accounts (fst (persist_and_flush save L)) = lg_accounts L"
  "lg_root (fst (persist_and_flush save L)) = lg_root L"
  "lg_requests (fst (persist_and_flush save L)) = lg_requests L"
  "lg_finished (fst (persist_and_flush save L)) = lg_finished L"
  by (simp_all add: persist_and_flush_def)

lemma poison_fails: "snd (poison_and_throw save e L) \<noteq> Inr x"
  unfolding poison_and_throw_def
  by (cases "persist_and_flush save (L\<lparr>lg_poisoned := True\<rparr>)" rule: prod.exhaust,
      rename_tac a b, case_tac b) auto

lemma guard_step_Inr: "guard_step L m f = (M, Inr y) \<longleftrightarrow> (\<exists>x. m = Inr x \<and> f x = (M, Inr y))"
  by (cases m) (auto simp: guard_step_def)

lemma with_node_Inr: "with_node L i f = (M, Inr y) \<longleftrightarrow> (\<exists>a. find_account L i = Some a \<and> f a = (M, Inr y))"
  by (auto simp: with_node_def split: option.splits)

lemmas succeeds = guard_step_Inr with_node_Inr

definition same_core :: "ledger \<Rightarrow> ledger \<Rightarrow> bool" where
  "same_core L M \<longleftrightarrow> same_tree L M \<and> lg_requests L = lg_requests M"

lemma same_core_totals: "same_core L M \<Longrightarrow> totals L = totals M"
  by (auto simp: same_core_def intro: same_tree_totals)

lemma same_core_free: "same_core L M \<Longrightarrow> free L a = free M a"
  using same_core_totals [of L M] by (simp add: free_def)

lemma same_core_no_overdraft: "same_core L M \<Longrightarrow> no_overdraft L = no_overdraft M"
  using same_core_totals [of L M] by (simp add: no_overdraft_def same_core_def same_tree_def)

lemma persist_same [simp]: "same_core (persist L) L"
  by (simp add: same_core_def same_tree_def)

lemma flush_same: "lg_accounts M = lg_accounts L \<Longrightarrow> lg_root M = lg_root L \<Longrightarrow> lg_requests M = lg_requests L \<Longrightarrow> same_core M L"
  by (simp add: same_core_def same_tree_def)

subsection \<open>Spending\<close>

lemma spends_tree: "spends L a a' d \<Longrightarrow> tree_ok (put_account a' L)"
  unfolding spends_def by (blast intro: tree_put)

lemma usage_spends:
  assumes inv: "ledger_inv L" and find: "find_account L i = Some a" and own: "own_usage_of a (Some t) = Inr p"
    and v: "usage_ok v" "usage_at_least (Some v) (Some p)"
    and safe: "safe_count (tree_total L - total_tokens p + total_tokens v)"
  shows "spends L a (set_usage t v a) (total_tokens v - total_tokens p)"
    and "tree_total (put_account (set_usage t v a) L) = tree_total L + (total_tokens v - total_tokens p)"
proof -
  have ai: "accounts_inv L" using inv by (simp add: ledger_inv_def)
  note c = usage_change [OF ai find own v(1) safe]
  have b: "bound_ok a" using inv_account [OF ai find] by (simp add: account_ok_def)
  have own: "own_tokens a = total_tokens p" "own_tokens (set_usage t v a) = total_tokens v"
    using own_of_tokens [OF b] c(3) own_of_lookup [OF b own] by (simp_all add: own_tokens_def set_usage_def)
  have "total_tokens p \<le> total_tokens v" using v(2) by (simp add: usage_at_least_counts)
  then show sp: "spends L a (set_usage t v a) (total_tokens v - total_tokens p)"
    using c(1) own by (simp add: spends_def)
  obtain ys zs where s: "lg_accounts L = ys @ a # zs"
    "lg_accounts (put_account (set_usage t v a) L) = ys @ set_usage t v a # zs"
    using put_split [OF c(1)] by blast
  show "tree_total (put_account (set_usage t v a) L) = tree_total L + (total_tokens v - total_tokens p)"
    unfolding tree_total_is_sum [OF inv_tree [OF ai]] tree_total_is_sum [OF tree_put [OF c(1)]] s
    by (simp add: own)
qed

lemma record_usage_result:
  assumes inv: "ledger_inv L" and find: "find_account L i = Some a"
    and rec: "record_usage L i u turn = (M, Inr ())"
  shows "\<exists>a'. spends L a a' (tree_total M - tree_total L) \<and> same_core M (put_account a' L)"
proof -
  let ?t = "case turn of None \<Rightarrow> turn_of a | Some x \<Rightarrow> Some x"
  from rec find obtain p v k where p: "own_usage_of a ?t = Inr p" and v: "bindE (usage_value u) (max_usage p) = Inr v"
    and k: "check_aggregate L p v = Inr k" and M: "M = persist (put_account (set_usage (the ?t) v a) L)"
    unfolding record_usage_def Let_def succeeds by auto
  obtain w where w: "max_usage p w = Inr v" using v by (auto simp: bindE_Inr_iff)
  obtain t where t: "?t = Some t" using p by (cases ?t) (auto simp: own_usage_of_def)
  have safe: "safe_count (tree_total L - total_tokens p + total_tokens v)" using k by (simp add: check_aggregate_def)
  note s = usage_spends [OF inv find p [unfolded t] max_usage_ok [OF w] max_usage_at_least [OF w] safe]
  have sc: "same_core M (put_account (set_usage t v a) L)" by (simp add: M t)
  moreover have "tree_ok (put_account (set_usage t v a) L)" using spends_tree [OF s(1)] .
  then have "tree_total M = tree_total (put_account (set_usage t v a) L)"
    using sc same_tree_tree_total same_tree_sym by (metis same_core_def)
  ultimately show ?thesis using s by auto
qed

text \<open>C5: an account that spends no more than \<open>remaining\<close> offered it overdraws no limit
  anywhere: if no limited account's spend and reservations exceed its limit before
  \<open>recordUsage\<close>, none do after.\<close>

theorem record_usage_within_remaining:
  assumes "ledger_inv L" and "no_overdraft L" and "find_account L i = Some a"
    and "record_usage L i u turn = (M, Inr ())" and "covers (remaining L a) (tree_total M - tree_total L)"
  shows "no_overdraft M"
  using record_usage_result [OF assms(1,3,4)] spend_within_remaining [OF _ assms(5,2)]
    same_core_no_overdraft by blast

definition ex_recorded :: ledger where
  "ex_recorded = fst (record_usage ex_reserved ex_root ex_usage None)"

theorem record_usage_within_remaining_witness: "no_overdraft ex_recorded"
proof (rule record_usage_within_remaining)
  show "ledger_inv ex_reserved" by (rule run_inv [OF ex_run_reserved])
  show "no_overdraft ex_reserved" by code_simp
  show "find_account ex_reserved ex_root = Some (the (find_account ex_reserved ex_root))" by code_simp
  show "record_usage ex_reserved ex_root ex_usage None = (ex_recorded, Inr ())" by code_simp
  show "covers (remaining ex_reserved (the (find_account ex_reserved ex_root)))
    (tree_total ex_recorded - tree_total ex_reserved)" by code_simp
qed

subsection \<open>Finishing a request\<close>

lemma finish_request_result:
  assumes inv: "ledger_inv L" and none: "kfind req_id q (lg_finished L) = None"
    and fin: "finish_request save L i q u = (M, Inr ())"
  shows "\<exists>a r a' r'. find_account L i = Some a \<and> r \<in> set (lg_requests L) \<and> req_id r = q \<and> req_account r = i
    \<and> record_request_usage L a r u = Inr (a', r')
    \<and> lg_accounts M = lg_accounts (put_account a' L) \<and> lg_root M = lg_root L
    \<and> lg_requests M = kdel req_id q (lg_requests L) \<and> lg_finished M = kput req_id r' (lg_finished L)"
proof -
  have "has_receipt L i q = Inr None" using none by (simp add: has_receipt_def)
  with fin obtain r a where r: "require_request L i q = Inr r" and a: "find_account L i = Some a"
    and rest: "(case record_request_usage L a r u of
                 Inl e \<Rightarrow> poison_and_throw save e L
               | Inr (a', r') \<Rightarrow> persist_and_flush save
                   (put_account a' L\<lparr>lg_requests := kdel req_id q (lg_requests L),
                      lg_finished := kput req_id r' (lg_finished L)\<rparr>)) = (M, Inr ())"
    unfolding finish_request_def by (auto simp: succeeds)
  show ?thesis
  proof (cases "record_request_usage L a r u")
    case (Inl e)
    then show ?thesis using rest poison_fails [of save e L "()"] by simp
  next
    case (Inr p)
    obtain a' r' where p: "p = (a', r')" by (cases p)
    have "M = fst (persist_and_flush save (put_account a' L\<lparr>lg_requests := kdel req_id q (lg_requests L),
                      lg_finished := kput req_id r' (lg_finished L)\<rparr>))"
      using rest Inr p by simp
    then show ?thesis using a Inr p require_request_Some [OF r] by auto
  qed
qed

lemma record_request_result:
  assumes inv: "ledger_inv L" and find: "find_account L i = Some a" and rec: "record_request_usage L a r u = Inr (a', r')"
    and r: "r \<in> set (all_requests L)" "req_account r = i"
  shows "\<exists>d. spends L a a' d \<and> tree_total (put_account a' L) = tree_total L + d"
proof -
  have "charges L a r a' r'" using record_charges(1) [OF inv rec] find r request_usage_ok [OF inv r(1)] by simp
  then obtain p v where "own_usage_of a (Some (req_turn r)) = Inr p" "a' = set_usage (req_turn r) v a"
    "usage_ok v" "usage_at_least (Some v) (Some p)" "safe_count (tree_total L - total_tokens p + total_tokens v)"
    by (auto simp: charges_def)
  with usage_spends [OF inv find this(1,3,4,5)] show ?thesis by blast
qed

text \<open>C21: In a tree no limit of which is overdrawn, a provider request whose answer adds no more to what the tree has used than
  \<open>remaining\<close> says of its account at the moment the answer is recorded overdraws no limit anywhere. What \<open>remaining\<close> said when
  the request was made may be more: siblings that have spent since, or a root narrowed since, leave less.\<close>

theorem finish_request_within_remaining:
  assumes "ledger_inv L" and "no_overdraft L" and "find_account L i = Some a"
    and "kfind req_id q (lg_finished L) = None" and "finish_request save L i q u = (M, Inr ())"
    and "covers (remaining L a) (tree_total M - tree_total L)"
  shows "no_overdraft M"
proof -
  from finish_request_result [OF assms(1,4,5)] assms(3) obtain r a' r' where
    r: "r \<in> set (lg_requests L)" "req_account r = i" and rec: "record_request_usage L a r u = Inr (a', r')"
    and M: "lg_accounts M = lg_accounts (put_account a' L)" "lg_root M = lg_root L"
      "lg_requests M = kdel req_id q (lg_requests L)"
    by auto
  have "r \<in> set (all_requests L)" using r by (simp add: all_requests_def)
  from record_request_result [OF assms(1,3) rec this r(2)] obtain d where
    sp: "spends L a a' d" and d: "tree_total (put_account a' L) = tree_total L + d" by blast
  have tree: "tree_ok (put_account a' L)" using sp by (rule spends_tree)
  have st: "same_tree (put_account a' L) M" using M by (simp add: same_tree_def)
  have "tree_total M = tree_total L + d" using same_tree_tree_total [OF st tree] d by simp
  then have "no_overdraft (put_account a' L)"
    using spend_within_remaining [OF sp _ assms(2)] assms(6) by simp
  moreover have "has_request M x \<Longrightarrow> has_request (put_account a' L) x" for x
    using M(3) by (auto simp: has_request_def list_ex_iff set_kdel)
  ultimately show ?thesis using fewer_requests_no_overdraft [OF tree st] by blast
qed

theorem finish_request_within_remaining_witness: "no_overdraft ex_answered"
proof (rule finish_request_within_remaining)
  show "ledger_inv ex_asked" by (rule run_inv [OF ex_run_asked])
  show "no_overdraft ex_asked" by code_simp
  show "find_account ex_asked ex_root = Some (the (find_account ex_asked ex_root))" by code_simp
  show "kfind req_id ex_request (lg_finished ex_asked) = None" by code_simp
  show "finish_request same_root_rule ex_asked ex_root ex_request ex_usage = (ex_answered, Inr ())" by code_simp
  show "covers (remaining ex_asked (the (find_account ex_asked ex_root)))
    (tree_total ex_answered - tree_total ex_asked)" by code_simp
qed

text \<open>a duplicate completion is not another spend. Once a request is finished,
  finishing it again, with any usage, changes no account, request or receipt.\<close>

theorem finish_request_idempotent:
  assumes "ledger_inv L" and "kfind req_id q (lg_finished L) = None"
    and "finish_request save L i q u = (M, Inr ())"
    and "\<forall>r \<in> set (lg_requests L). req_id r = q \<longrightarrow> \<not> req_unresolved r"
  shows "\<exists>N x. finish_request save M i q u' = (N, x) \<and> lg_accounts N = lg_accounts M
    \<and> lg_requests N = lg_requests M \<and> lg_finished N = lg_finished M"
proof -
  from finish_request_result [OF assms(1-3)] obtain a r a' r' where
    r: "find_account L i = Some a" "r \<in> set (lg_requests L)" "req_id r = q" "req_account r = i"
      "record_request_usage L a r u = Inr (a', r')"
    and fin: "lg_finished M = kput req_id r' (lg_finished L)" by auto
  have all: "r \<in> set (all_requests L)" using r by (simp add: all_requests_def)
  have "find_account L (req_account r) = Some a" using r by simp
  note c = record_charges [OF assms(1) r(5) this request_usage_ok [OF assms(1) all]]
  have id: "req_id r' = q" "req_account r' = i" "\<not> req_unresolved r'"
    using c r assms(4) by (simp_all add: charges_def)
  then have "has_receipt M i q = Inr (Some r')" by (simp add: has_receipt_def fin)
  then have "finish_request save M i q u' = flush_writes save M"
    using id by (simp add: finish_request_def guard_step_def)
  then show ?thesis using flush_core [of save M] by (metis prod.collapse)
qed

theorem finish_request_idempotent_witness:
  "\<exists>N x. finish_request same_root_rule ex_answered ex_root ex_request empty_usage = (N, x)
    \<and> lg_accounts N = lg_accounts ex_answered \<and> lg_requests N = lg_requests ex_answered
    \<and> lg_finished N = lg_finished ex_answered"
proof (rule finish_request_idempotent)
  show "ledger_inv ex_asked" by (rule run_inv [OF ex_run_asked])
  show "kfind req_id ex_request (lg_finished ex_asked) = None" by code_simp
  show "finish_request same_root_rule ex_asked ex_root ex_request ex_usage = (ex_answered, Inr ())" by code_simp
  show "\<forall>r \<in> set (lg_requests ex_asked). req_id r = ex_request \<longrightarrow> \<not> req_unresolved r" by code_simp
qed

subsection \<open>Reserving\<close>

lemma remaining_positive:
  assumes inv: "ledger_inv L" and am: "a \<in> set (lg_accounts L)"
    and ok: "\<not> ((n = 0 \<and> remaining L a \<noteq> Infinite) \<or> \<not> covers (remaining L a) n)" and n: "0 \<le> n"
  shows "\<not> acc_settled a" and "covers (free L a) n"
proof -
  have tree: "tree_ok L" using inv by (simp add: ledger_inv_def accounts_inv_def)
  have "\<not> acc_settled a \<and> covers (free L a) n"
  proof (cases "n = 0")
    case True
    then have "covers (remaining L a) 1" using ok by auto
    from remaining_covers [OF tree am this] show ?thesis using covers_mono True by force
  next
    case False
    then show ?thesis using remaining_covers [OF tree am] ok n by auto
  qed
  then show "\<not> acc_settled a" "covers (free L a) n" by simp_all
qed

text \<open>C22: A reservation that is made moves tokens and makes none. The account it is reserved from has exactly that much less
  free, every other account has what it had, and a tree no limit of which was overdrawn stays so.\<close>

theorem reserve_conserves:
  assumes inv: "ledger_inv L" and fresh: "fresh_account L j" and find: "find_account L i = Some a"
    and res: "reserve L i j n = (M, x)" and done_ok: "lg_accounts M \<noteq> lg_accounts L"
  shows "x = Inr j \<and> (\<forall>b \<in> set (lg_accounts L).
      free M b = (if b = a then amount_plus (free L a) (- n) else free L b))
    \<and> (no_overdraft L \<longrightarrow> no_overdraft M)"
proof -
  let ?n = "\<lparr>acc_id = j, acc_parent = Some i, acc_limit = n, acc_settled = False,
               acc_turn = None, acc_usage = []\<rparr>"
  let ?M = "put_account ?n L"
  have am: "a \<in> set (lg_accounts L)" "acc_id a = i" using find_account_mem [OF find] by simp_all
  have tree: "tree_ok L" using inv by (simp add: ledger_inv_def accounts_inv_def)
  from res done_ok find have n: "0 \<le> n"
    and rem: "\<not> ((n = 0 \<and> remaining L a \<noteq> Infinite) \<or> \<not> covers (remaining L a) n)"
    and M: "M = persist ?M" and x: "x = sub_account (persist ?M) i j"
    by (auto simp: reserve_def guard_step_def with_node_def Let_def require_def safe_count_def count_int_def
        split: sum.splits if_splits)
  note r = remaining_positive [OF inv am(1) rem n]
  have op: "opens L a ?n" using tree am fresh by (simp add: opens_def fresh_account_def)
  have own: "own_tokens ?n = 0" by (simp add: own_tokens_def)
  have sc: "same_core M ?M" by (simp add: M)
  have tree': "tree_ok ?M" by (rule tree_open [OF op])
  have "a \<in> set (lg_accounts ?M)" "?n \<in> set (lg_accounts ?M)" "?n \<in> set (children ?M a)"
    using am(1) opens_accounts [OF op] opens_children [OF op am(1)] by simp_all
  then have "under ?M ?n a" using under_child by blast
  then have "j \<in> set (descendants ?M a)"
    using under_descendants [OF tree' \<open>a \<in> set (lg_accounts ?M)\<close>] by force
  moreover have "find_account ?M i = Some a" using opens_find [OF op] find fresh by (auto simp: fresh_account_def)
  moreover have "descendants (persist ?M) a = descendants ?M a"
  proof -
    have "children (persist ?M) = children ?M" by (rule ext) (simp add: children_def)
    then have "descendants_depth k (persist ?M) = descendants_depth k ?M" for k
      by (induction k) (rule ext, simp)+
    then show ?thesis by (simp add: descendants_def)
  qed
  ultimately have "x = Inr j" by (simp add: x sub_account_def find_account_def)
  moreover have "free M b = (if b = a then amount_plus (free L a) (- n) else free L b)"
    if "b \<in> set (lg_accounts L)" for b
    using open_free [OF op own _ r(1) _ that] n same_core_free [OF sc] by simp
  moreover have "no_overdraft M" if "no_overdraft L"
    using open_no_overdraft [OF op own _ r(1) _ _ that] n r(2) same_core_no_overdraft [OF sc] by simp
  ultimately show ?thesis by blast
qed

theorem reserve_conserves_witness:
  "snd (reserve ex_created ex_root ex_child 400) = Inr ex_child \<and> no_overdraft ex_reserved"
proof -
  have "find_account ex_created ex_root = Some (the (find_account ex_created ex_root))" by code_simp
  moreover have "lg_accounts ex_reserved \<noteq> lg_accounts ex_created" by code_simp
  moreover have "no_overdraft ex_created" by code_simp
  moreover have "reserve ex_created ex_root ex_child 400
    = (ex_reserved, snd (reserve ex_created ex_root ex_child 400))" by (simp add: ex_reserved_def)
  ultimately show ?thesis
    using reserve_conserves [OF run_inv [OF ex_run_created] ex_fresh(1)] by blast
qed

text \<open>isolation of siblings. While a branch of the tree spends within what was
  reserved for it, nothing above the branch notices: the account above it has as
  much free after the spend as before, whatever the branch records.\<close>

theorem branch_spend_isolated:
  assumes inv: "ledger_inv L" and find: "find_account L i = Some a" and rec: "record_usage L i u turn = (M, Inr ())"
    and p: "p \<in> set (lg_accounts L)" and c: "c \<in> set (children L p)" "under L a c"
    and open_branch: "\<not> tot_closed (totals L c)"
    and within: "tot_tree (totals L c) + (tree_total M - tree_total L) \<le> acc_limit c"
    and p': "find_account M (acc_id p) = Some p'"
  shows "free M p' = free L p"
proof -
  from record_usage_result [OF inv find rec] obtain a' where
    sp: "spends L a a' (tree_total M - tree_total L)" and sc: "same_core M (put_account a' L)" by blast
  have ip: "in_place L a a'" using sp by (simp add: spends_def)
  have "find_account M (acc_id p) = find_account (put_account a' L) (acc_id p)"
    using sc same_tree_find by (metis same_core_def)
  then have "p' = swap_to a' p"
    using p' p find_put [OF ip] tree_find [OF _ p] ip by (simp add: in_place_def)
  then show ?thesis
    using spend_isolated [OF sp p c open_branch within] same_core_free [OF sc] by simp
qed

definition ex_bound :: ledger where
  "ex_bound = fst (bind_turn ex_reserved ex_child ex_session ex_child_turn)"
definition ex_child_spent :: ledger where
  "ex_child_spent = fst (record_usage ex_bound ex_child ex_usage None)"

lemma ex_run_bound: "ledger_run save ex_bound"
  unfolding ex_bound_def by (rule run_step [OF ex_run_reserved st_bind])

theorem branch_spend_isolated_witness:
  "free ex_child_spent (the (find_account ex_child_spent ex_root)) = free ex_bound (the (find_account ex_bound ex_root))"
proof (rule branch_spend_isolated)
  let ?c = "the (find_account ex_bound ex_child)" and ?p = "the (find_account ex_bound ex_root)"
  show "ledger_inv ex_bound" by (rule run_inv [OF ex_run_bound])
  show "find_account ex_bound ex_child = Some ?c" by code_simp
  show "record_usage ex_bound ex_child ex_usage None = (ex_child_spent, Inr ())" by code_simp
  show "?p \<in> set (lg_accounts ex_bound)" by code_simp
  show "?c \<in> set (children ex_bound ?p)" by code_simp
  have "?c \<in> set (lg_accounts ex_bound)" by code_simp
  then show "under ex_bound ?c ?c" by (rule under_self)
  show "\<not> tot_closed (totals ex_bound ?c)" by code_simp
  show "tot_tree (totals ex_bound ?c) + (tree_total ex_child_spent - tree_total ex_bound) \<le> acc_limit ?c"
    by code_simp
  show "find_account ex_child_spent (acc_id ?p) = Some (the (find_account ex_child_spent ex_root))" by code_simp
qed

subsection \<open>Spend is never refunded\<close>

lemma core_step_total:
  assumes "core_step L M" and inv: "ledger_inv L"
  shows "tree_total L \<le> tree_total M \<and> accounts_grow L M"
proof -
  have ai: "accounts_inv L" using inv by (simp add: ledger_inv_def)
  have am: "accounts_inv M" using core_step_inv [OF assms] by (simp add: ledger_inv_def)
  have g: "accounts_grow L M"
    using core_step_grows [OF assms] by (simp add: grows_def accounts_grow_def take_snapshot_def)
  have "own_tokens a \<le> own_tokens c"
    if mem: "a \<in> set (lg_accounts L)" "c \<in> set (lg_accounts M)" and ac: "account_grows a c" for a c
  proof -
    have b: "bound_ok a" "bound_ok c" "account_ok c"
      using ai am mem by (auto simp: accounts_inv_def account_ok_def)
    show ?thesis
      using b(1)
    proof (cases rule: bound_cases)
      case unbound
      then show ?thesis
        using own_of_ok [OF b(2)] own_of_tokens [OF b(2)]
        by (simp add: own_tokens_def [of a] usage_ok_def safe_count_def)
    next
      case (bound s t u)
      then obtain v where "map_of (acc_usage c) t = Some v" "total_tokens u \<le> total_tokens v" "acc_turn c = Some (s, t)"
        using ac by (cases "map_of (acc_usage c) t") (auto simp: account_grows_def usage_at_least_def)
      moreover from this b(2) have "acc_usage c = [(t, v)]"
        by (auto simp: bound_ok_def)
      ultimately show ?thesis by (simp add: own_tokens_def bound)
    qed
  qed
  note le = this
  have d: "distinct (lg_accounts L)" "distinct (lg_accounts M)"
    using inv_tree [OF ai] inv_tree [OF am] by (simp_all add: tree_ok_def distinct_map)
  have "\<forall>a \<in> set (lg_accounts L). \<exists>c. c \<in> set (lg_accounts M) \<and> account_grows a c"
    using g by (auto simp: accounts_grow_def)
  then obtain h where h: "\<And>a. a \<in> set (lg_accounts L) \<Longrightarrow> h a \<in> set (lg_accounts M) \<and> account_grows a (h a)"
    by metis
  have inj: "inj_on h (set (lg_accounts L))"
  proof (rule inj_onI)
    fix x y
    assume "x \<in> set (lg_accounts L)" "y \<in> set (lg_accounts L)" "h x = h y"
    moreover from this have "acc_id x = acc_id y" using h by (metis account_grows_def)
    ultimately show "x = y" using tree_same_id [OF inv_tree [OF ai]] by blast
  qed
  have nn: "0 \<le> own_tokens c" if "c \<in> set (lg_accounts M)" for c
  proof -
    have "bound_ok c" using am that by (simp add: accounts_inv_def account_ok_def)
    then show ?thesis using own_of_ok own_of_tokens by (simp add: usage_ok_def safe_count_def)
  qed
  have "(\<Sum>a \<in> set (lg_accounts L). own_tokens a) \<le> (\<Sum>a \<in> set (lg_accounts L). own_tokens (h a))"
    using h le by (intro sum_mono) blast
  also have "\<dots> = (\<Sum>c \<in> h ` set (lg_accounts L). own_tokens c)"
    using inj by (simp add: sum.reindex)
  also have "\<dots> \<le> (\<Sum>c \<in> set (lg_accounts M). own_tokens c)"
    using h nn by (intro sum_mono2) auto
  finally have "tree_total L \<le> tree_total M"
    using d by (simp add: tree_total_is_sum [OF inv_tree [OF ai]] tree_total_is_sum [OF inv_tree [OF am]]
        sum_list_distinct_conv_sum_set)
  with g show ?thesis by simp
qed

lemma evolves_total: "evolves save L M \<Longrightarrow> ledger_inv L \<Longrightarrow> tree_total L \<le> tree_total M"
proof (induction rule: evolves.induct)
  case (ev_step L M N)
  have m: "ledger_inv M" by (rule evolves_inv [OF ev_step(1,4)])
  have "tree_ok N" using core_step_inv [OF ev_step(2) m] by (simp add: ledger_inv_def accounts_inv_def)
  then have "tree_total (persist N) = tree_total N"
    using same_tree_tree_total [of N "persist N"] by (simp add: same_tree_def)
  with ev_step core_step_total [OF ev_step(2) m] show ?case by simp
next
  case (ev_write L M)
  have "tree_ok M" using evolves_inv [OF ev_write(1,3)] by (simp add: ledger_inv_def accounts_inv_def)
  then have "tree_total (pop_write save M) = tree_total M"
    using same_tree_tree_total [of M "pop_write save M"] by (simp add: same_tree_def)
  with ev_write show ?case by simp
qed simp

text \<open>spend is never refunded. No operation, failing or not, settling, retrying or
  reconciling, makes the tokens the tree has spent fewer.\<close>

theorem spend_never_refunded:
  assumes "ledger_run save L" and "ledger_step save L M"
  shows "tree_total L \<le> tree_total M"
  using evolves_total [OF step_refines [OF assms(2) run_inv [OF assms(1)]] run_inv [OF assms(1)]] .

theorem spend_never_refunded_witness: "tree_total ex_asked \<le> tree_total ex_answered"
  unfolding ex_answered_def by (rule spend_never_refunded [OF ex_run_asked st_finish])

end
