(* ===== verification/LedgerSettlement.thy ===== *)
theory LedgerSettlement
  imports LedgerConservation
begin

text \<open>
  How a branch ends: settlement hands back what was not spent, a failed request
  blocks its limited branch until it is reconciled, a missing ledger is never
  replaced by a fresh one; and the run in which narrowing breaks the persistence.
\<close>

subsection \<open>Settling\<close>

lemma mark_settled_result:
  "mark_settled L i = (M, Inr ()) \<Longrightarrow> \<exists>a. find_account L i = Some a
     \<and> same_core M (put_account (a\<lparr>acc_settled := True\<rparr>) L)"
  by (auto simp: mark_settled_def succeeds)

lemma settle_closed:
  assumes tree: "tree_ok L" and find: "find_account L i = Some a" and x: "x \<in> set (lg_accounts L)"
  defines "a' \<equiv> a\<lparr>acc_settled := True\<rparr>"
  shows "tot_closed (totals (put_account a' L) (swap_to a' x))
    \<longleftrightarrow> (\<forall>b. under L b x \<longrightarrow> (acc_settled b \<or> b = a) \<and> \<not> has_request L b)"
proof -
  have ip: "in_place L a a'" unfolding a'_def by (rule in_placeI [OF tree find]) simp_all
  have s: "acc_settled (swap_to a' b) \<longleftrightarrow> acc_settled b \<or> b = a" if "b \<in> set (lg_accounts L)" for b
    using swap_self [OF ip] swap_other [OF ip that] by (cases "b = a") (auto simp: a'_def)
  have r: "has_request (put_account a' L) (swap_to a' b) = has_request L b" for b
    by (simp add: has_request_def)
  have "(\<forall>b. under (put_account a' L) b (swap_to a' x) \<longrightarrow> acc_settled b \<and> \<not> has_request (put_account a' L) b)
      \<longleftrightarrow> (\<forall>b \<in> swap_to a' ` under_set L x. acc_settled b \<and> \<not> has_request (put_account a' L) b)"
    unfolding under_set_put [OF ip x, symmetric] by (simp add: under_set_def)
  also have "\<dots> \<longleftrightarrow> (\<forall>b. under L b x \<longrightarrow> (acc_settled b \<or> b = a) \<and> \<not> has_request L b)"
    using s r under_mem by (auto simp: under_set_def)
  finally show ?thesis using closed_iff [OF tree_put [OF ip] mem_put [OF ip x]] by simp
qed

text \<open>settlement returns what was not spent. When the last open account of a
  branch settles, with nothing in flight in the branch, the account above gets
  back exactly what the branch still held: its limit less what it spent.\<close>

theorem settle_returns_reservation:
  assumes inv: "ledger_inv L" and find: "find_account L i = Some c" and settled: "settle L i None = (M, Inr ())"
    and p: "p \<in> set (lg_accounts L)" "c \<in> set (children L p)" and lim: "acc_limit p \<noteq> 0"
    and idle: "\<forall>b. under L b c \<longrightarrow> (acc_settled b \<or> b = c) \<and> \<not> has_request L b"
    and open_before: "\<not> acc_settled c"
    and p': "find_account M (acc_id p) = Some p'"
  shows "free M p' = amount_plus (free L p) (max 0 (acc_limit c - tot_tree (totals L c)))"
proof -
  have tree: "tree_ok L" using inv by (simp add: ledger_inv_def accounts_inv_def)
  let ?c = "c\<lparr>acc_settled := True\<rparr>"
  let ?M = "put_account ?c L"
  have sc: "same_core M ?M"
    using mark_settled_result [of L i M] settled find by (auto simp: settle_def)
  have ip: "in_place L c ?c" by (rule in_placeI [OF tree find]) simp_all
  have same_tree_tot: "tot_tree (totals ?M (swap_to ?c x)) = tot_tree (totals L x)" if "x \<in> set (lg_accounts L)" for x
    using tree_total_put [OF ip that] by (simp add: own_tokens_def)
  have lim_same: "acc_limit (swap_to ?c x) = acc_limit x" if "x \<in> set (lg_accounts L)" for x
    using swap_self [OF ip] swap_other [OF ip that] by (cases "x = c") auto
  have "find_account ?M (acc_id p) = Some (swap_to ?c p)"
    using find_put [OF ip] tree_find [OF tree p(1)] by simp
  moreover have "find_account M (acc_id p) = find_account ?M (acc_id p)"
    using sc same_tree_find by (metis same_core_def)
  ultimately have pp: "p' = swap_to ?c p" using p' by simp
  have closed_c: "tot_closed (totals ?M (swap_to ?c c))"
    using settle_closed [OF tree find child_mem [OF p(2)]] idle by simp
  have open_c: "\<not> tot_closed (totals L c)"
    using open_before totals_simps(4) [OF tree child_mem [OF p(2)]] by simp
  have other: "tot_closed (totals ?M (swap_to ?c x)) = tot_closed (totals L x)"
    if x: "x \<in> set (children L p)" "x \<noteq> c" for x
  proof -
    have "\<not> under L c x"
      using under_one_child [OF tree p(1) x(1) p(2) _ _ ] x(2) under_self [OF child_mem [OF p(2)]] by blast
    then show ?thesis
      using settle_closed [OF tree find child_mem [OF x(1)]] closed_iff [OF tree child_mem [OF x(1)]] by auto
  qed
  let ?h = "\<lambda>x. held_by (swap_to ?c x) (totals ?M (swap_to ?c x))"
  have split: "sum_list (map f (children L p)) = f c + sum f (set (children L p) - {c})"
    for f :: "account \<Rightarrow> int"
    using distinct_children [OF tree] p(2) by (simp add: sum_list_distinct_conv_sum_set sum.remove)
  have "tot_reserved (totals ?M (swap_to ?c p)) = (\<Sum>x\<leftarrow>children L p. ?h x)"
    by (simp add: totals_simps(3) [OF tree_put [OF ip] mem_put [OF ip p(1)]] children_put [OF ip] o_def)
  also have "\<dots> = (\<Sum>x \<in> set (children L p) - {c}. ?h x)"
    using closed_c by (simp add: split held_by_def)
  also have "\<dots> = (\<Sum>x \<in> set (children L p) - {c}. held_by x (totals L x))"
    using other same_tree_tot [OF child_mem] lim_same [OF child_mem]
    by (intro sum.cong) (auto simp: held_by_def)
  also have "\<dots> = tot_reserved (totals L p) - max 0 (acc_limit c - tot_tree (totals L c))"
    using open_c by (simp add: totals_simps(3) [OF tree p(1)] split held_by_def)
  finally show ?thesis
    unfolding same_core_free [OF sc] pp
    using lim same_tree_tot [OF p(1)] lim_same [OF p(1)] by (simp add: free_def)
qed

definition ex_settled :: ledger where
  "ex_settled = fst (settle ex_child_spent ex_child None)"

lemma ex_run_child_spent: "ledger_run save ex_child_spent"
  unfolding ex_child_spent_def by (rule run_step [OF ex_run_bound st_record])

theorem settle_returns_reservation_witness:
  "free ex_settled (the (find_account ex_settled ex_root)) = Tokens 970"
proof -
  let ?c = "the (find_account ex_child_spent ex_child)" and ?p = "the (find_account ex_child_spent ex_root)"
  have kids: "children ex_child_spent ?c = []" by code_simp
  have inv: "ledger_inv ex_child_spent" by (rule run_inv [OF ex_run_child_spent])
  have "free ex_settled (the (find_account ex_settled ex_root))
      = amount_plus (free ex_child_spent ?p) (max 0 (acc_limit ?c - tot_tree (totals ex_child_spent ?c)))"
  proof (rule settle_returns_reservation [OF inv])
    show "find_account ex_child_spent ex_child = Some ?c" by code_simp
    show "settle ex_child_spent ex_child None = (ex_settled, Inr ())" by code_simp
    show "?p \<in> set (lg_accounts ex_child_spent)" by code_simp
    show "?c \<in> set (children ex_child_spent ?p)" by code_simp
    show "acc_limit ?p \<noteq> 0" by code_simp
    have "b = ?c" if "under ex_child_spent b ?c" for b
      using under_last [OF that] kids by auto
    moreover have "\<not> has_request ex_child_spent ?c" by code_simp
    ultimately show "\<forall>b. under ex_child_spent b ?c \<longrightarrow> (acc_settled b \<or> b = ?c) \<and> \<not> has_request ex_child_spent b"
      by blast
    show "\<not> acc_settled ?c" by code_simp
    show "find_account ex_settled (acc_id ?p) = Some (the (find_account ex_settled ex_root))" by code_simp
  qed
  also have "\<dots> = Tokens 970" by code_simp
  finally show ?thesis .
qed

subsection \<open>Unknown spend\<close>

lemma blocked_by:
  assumes tree: "tree_ok L" and a: "a \<in> set (lg_accounts L)" "under L a b" "acc_limit b > 0"
    and r: "r \<in> set (uncertain_requests L)" "req_account r = acc_id a"
  shows "admission_blocked L a"
proof -
  have b: "b \<in> set (lineage L a)" using under_lineage [OF tree a(1)] a(2) by simp
  have "b \<in> set (lg_accounts L)" using under_mem [OF a(2)] by simp
  then have "acc_id a \<in> set (descendants L b)"
    by (rule iffD2 [OF under_descendants [OF tree]]) (use a(2) in blast)
  then have "req_account r \<in> set (descendants L b)" by (simp add: r(2))
  then have "list_ex (\<lambda>r. req_account r \<in> set (descendants L b)) (uncertain_requests L)"
    unfolding list_ex_iff using r(1) by blast
  then have "list_ex (\<lambda>b. acc_limit b > 0 \<and> list_ex (\<lambda>r. req_account r \<in> set (descendants L b)) (uncertain_requests L))
      (lineage L a)"
    unfolding list_ex_iff [of _ "lineage L a"] using a(3) b by blast
  moreover have "uncertain_requests L \<noteq> []" using r(1) by auto
  ultimately show ?thesis unfolding admission_blocked_def by blast
qed

text \<open>unknown spend blocks. When a request of an account under a finite limit fails
  with no usage, the account cannot begin another request: its spend may already be
  past the limit, so admission is refused until the request is reconciled.\<close>

theorem failed_request_blocks:
  assumes inv: "ledger_inv L" and find: "find_account L i = Some a" and lim: "under L a b" "acc_limit b > 0"
    and r: "kfind req_id q (lg_requests L) = Some r" "req_account r = i"
    and failed: "fail_request save L i q None = (M, Inr ())"
  shows "begin_request save M i q' = (M, Inl AdmissionBlocked)"
proof -
  have ai: "accounts_inv L" and ri: "requests_inv L" using inv by (simp_all add: ledger_inv_def)
  have tree: "tree_ok L" by (rule inv_tree [OF ai])
  have rm: "r \<in> set (lg_requests L)" "req_id r = q" using kfind_SomeD [OF r(1)] by simp_all
  have "q \<notin> req_id ` set (lg_finished L)"
    using requests_distinct [OF ri] rm by (metis disjoint_iff imageI)
  then have none: "has_receipt L i q = Inr None" by (simp add: has_receipt_def kfind_None_iff [THEN iffD2])
  have req: "require_request L i q = Inr r" using r by (simp add: require_request_def)
  let ?r = "r\<lparr>req_unresolved := True\<rparr>"
  let ?L1 = "L\<lparr>lg_requests := kput req_id ?r (lg_requests L)\<rparr>"
  have find1: "find_account ?L1 i = Some a" using find by (simp add: find_account_def)
  have put: "put_account a ?L1\<lparr>lg_requests := kput req_id ?r (lg_requests ?L1)\<rparr> = ?L1"
    using put_same [OF inv find] by (simp add: put_with_requests)
  have bnd: "bounded ?L1 a"
  proof -
    have st: "same_tree L ?L1" by (simp add: same_tree_def)
    have "b \<in> set (lineage ?L1 a)"
      using under_lineage [OF same_tree_ok [OF st tree]] same_tree_under [OF lim(1) st] under_mem [OF lim(1)] by simp
    with lim(2) show ?thesis by (auto simp: bounded_def list_ex_iff)
  qed
  have "fail_request save L i q None = fail_active save L i r None"
    by (simp add: fail_request_def guard_step_def none req)
  also have "\<dots> = persist_and_flush save ?L1"
    unfolding fail_active_def Let_def with_node_def find1 option.case sum.case prod.case put
    using bnd by simp
  finally have M: "M = fst (persist_and_flush save ?L1)" using failed by (metis fst_conv)
  have acc: "lg_accounts M = lg_accounts L" "lg_root M = lg_root L" "lg_requests M = kput req_id ?r (lg_requests L)"
    by (simp_all add: M)
  have st: "same_tree L M" using acc by (simp add: same_tree_def)
  have "?r \<in> set (uncertain_requests M)"
  proof -
    have "?r \<in> set (kput req_id ?r (lg_requests L))"
      using requests_distinct [OF ri] by (simp add: set_kput)
    then show ?thesis by (simp add: uncertain_requests_def acc)
  qed
  moreover have "acc_id a = i" using find_account_mem [OF find] by simp
  ultimately have "admission_blocked M a"
    using blocked_by [OF same_tree_ok [OF st tree] _ same_tree_under [OF lim(1) st] lim(2), of ?r]
      under_mem [OF lim(1)] acc r(2) by simp
  moreover have "find_account M i = Some a" using find same_tree_find [OF st] by simp
  ultimately show ?thesis by (simp add: begin_request_def with_node_def guard_step_def require_def)
qed

definition ex_failed :: ledger where
  "ex_failed = fst (fail_request same_root_rule ex_asked ex_root ex_request None)"

theorem failed_request_blocks_witness:
  "begin_request same_root_rule ex_failed ex_root ex_child = (ex_failed, Inl AdmissionBlocked)"
proof (rule failed_request_blocks)
  let ?a = "the (find_account ex_asked ex_root)"
  show "ledger_inv ex_asked" by (rule run_inv [OF ex_run_asked])
  show "find_account ex_asked ex_root = Some ?a" by code_simp
  have "?a \<in> set (lg_accounts ex_asked)" by code_simp
  then show "under ex_asked ?a ?a" by (rule under_self)
  show "acc_limit ?a > 0" by code_simp
  show "kfind req_id ex_request (lg_requests ex_asked) = Some (hd (lg_requests ex_asked))" by code_simp
  show "req_account (hd (lg_requests ex_asked)) = ex_root" by code_simp
  show "fail_request same_root_rule ex_asked ex_root ex_request None = (ex_failed, Inr ())" by code_simp
qed

text \<open>reconciling ends the block. After the failed request of the small ledger is
  reconciled with its usage, the ledger has charged that usage, nothing is
  uncertain, and the next request is admitted.\<close>

theorem reconcile_readmits:
  "snd (reconcile_request same_root_rule ex_failed ex_root ex_request ex_usage) = Inr ()
   \<and> (let M = fst (reconcile_request same_root_rule ex_failed ex_root ex_request ex_usage) in
      uncertain_requests M = [] \<and> tree_total M = total_tokens ex_usage
      \<and> snd (begin_request same_root_rule M ex_root ex_child) = Inr ex_child)"
  by code_simp

subsection \<open>Opening\<close>

text \<open>a checkpoint's binding never starts a fresh ledger. Opened for an account, or
  with an existing ledger required, when the store holds none, the budget is refused;
  and a stored ledger is never opened under a limit other than its own.\<close>

theorem open_never_replaces:
  "((require_existing \<or> account \<noteq> None) \<longrightarrow>
      (\<forall>r. open_budget save sc limit account require_existing fresh None \<noteq> Inr r))
   \<and> (snapshot_ok s \<and> n \<noteq> sn_limit s \<longrightarrow>
      (\<forall>r. open_budget save sc (Some n) account require_existing fresh (Some s) \<noteq> Inr r))"
  by (auto simp: open_budget_def bindE_Inr_iff scope_snapshot dest: validate_encode)

theorem open_never_replaces_witness:
  "open_budget same_root_rule ex_scope (Some 7) (Some ex_child) False ex_root None \<noteq> Inr (ex_created, ex_root)"
  using open_never_replaces [of False "Some ex_child" same_root_rule ex_scope "Some 7" ex_root] by simp

subsection \<open>Narrowing from no limit\<close>

text \<open>The save rule of both stores: a valid snapshot that extends the one held.\<close>

definition store_rule :: save_rule where
  "store_rule prev s = (case validate_snapshot (encode_snapshot s) of Inl _ \<Rightarrow> False | Inr c \<Rightarrow> same_root_rule prev c)"

lemma count_max: "safe_count n \<Longrightarrow> n \<le> max_safe_integer"
  by (simp add: safe_count_def)

text \<open>Narrowing a child that had no limit adds what is left of the new limit to what its parent has reserved.\<close>

lemma narrow_reserves:
  assumes tree: "tree_ok L" and c: "find_account L i = Some c" "acc_limit c = 0" "\<not> acc_settled c"
    and p: "p \<in> set (lg_accounts L)" "c \<in> set (children L p)"
  shows "tot_reserved (totals (put_account (c\<lparr>acc_limit := n\<rparr>) L) (swap_to (c\<lparr>acc_limit := n\<rparr>) p))
    = tot_reserved (totals L p) - max 0 (- tot_tree (totals L c)) + max 0 (n - tot_tree (totals L c))"
proof -
  let ?c = "c\<lparr>acc_limit := n\<rparr>"
  let ?M = "put_account ?c L"
  have ip: "in_place L c ?c" by (rule in_placeI [OF tree c(1)]) simp_all
  have same: "tot_tree (totals ?M (swap_to ?c x)) = tot_tree (totals L x)"
    "tot_closed (totals ?M (swap_to ?c x)) = tot_closed (totals L x)" if "x \<in> set (lg_accounts L)" for x
    using tree_total_put [OF ip that] closed_put [OF ip that] by (simp_all add: own_tokens_def)
  let ?h = "\<lambda>x. held_by (swap_to ?c x) (totals ?M (swap_to ?c x))"
  have split: "sum_list (map f (children L p)) = f c + sum f (set (children L p) - {c})" for f :: "account \<Rightarrow> int"
    using distinct_children [OF tree] p(2) by (simp add: sum_list_distinct_conv_sum_set sum.remove)
  have open_c: "\<not> tot_closed (totals L c)" using c(3) totals_simps(4) [OF tree child_mem [OF p(2)]] by simp
  have "?h x = held_by x (totals L x)" if x: "x \<in> set (children L p) - {c}" for x
  proof -
    have "x \<in> set (lg_accounts L)" "x \<noteq> c" using x child_mem by auto
    then show ?thesis using same [of x] swap_other [OF ip, of x] by (simp add: held_by_def)
  qed
  moreover have "?h c = max 0 (n - tot_tree (totals L c))"
    using same [OF child_mem [OF p(2)]] swap_self [OF ip] open_c by (simp add: held_by_def)
  moreover have "held_by c (totals L c) = max 0 (- tot_tree (totals L c))" using open_c c(2) by (simp add: held_by_def)
  moreover have "tot_reserved (totals ?M (swap_to ?c p)) = (\<Sum>x\<leftarrow>children L p. ?h x)"
    by (simp add: totals_simps(3) [OF tree_put [OF ip] mem_put [OF ip p(1)]] children_put [OF ip] o_def)
  ultimately show ?thesis by (simp add: totals_simps(3) [OF tree p(1)] split)
qed

lemma tree_nonneg:
  assumes "ledger_inv L" "a \<in> set (lg_accounts L)"
  shows "0 \<le> tot_tree (totals L a)"
proof -
  have tree: "tree_ok L" using assms(1) by (simp add: ledger_inv_def accounts_inv_def)
  have "0 \<le> own_tokens x" if "x \<in> set (lg_accounts L)" for x
  proof -
    have "bound_ok x" using assms(1) that by (simp add: ledger_inv_def accounts_inv_def account_ok_def)
    then show ?thesis using own_of_ok own_of_tokens by (simp add: usage_ok_def safe_count_def)
  qed
  then show ?thesis unfolding tree_is_sum [OF tree assms(2)] using under_mem by (intro sum_nonneg) (auto simp: under_set_def)
qed

lemma failing_save: "\<not> save (lg_stored (fold (run_write save) q L)) x \<Longrightarrow> lg_persist_error (fold (run_write save) (q @ [x]) L)"
  by (simp add: run_write_def)

lemma error_poisons: "(lg_persist_error L \<longrightarrow> lg_poisoned L) \<Longrightarrow> lg_persist_error (fold (run_write save) q L) \<longrightarrow> lg_poisoned (fold (run_write save) q L)"
  by (induction q arbitrary: L) (simp_all add: run_write_def)

text \<open>C24: Narrowing checks the new limit of one account and not what its parent then has reserved. Where an open child without
  a limit is narrowed and the reservations under its parent come to more than the largest safe integer, the call
  succeeds, but validation refuses the ledger's own snapshot from then on, so its next flush fails and poisons it.\<close>

theorem narrowing_breaks_persistence:
  assumes "ledger_inv L" "lg_persistent L" "\<not> lg_persist_error L"
    and "find_account L i = Some c" "acc_limit c = 0" "\<not> acc_settled c" "p \<in> set (lg_accounts L)" "c \<in> set (children L p)"
    and "0 < limit" "limit \<le> max_safe_integer"
    and "max_safe_integer < tot_reserved (totals L p) + (limit - tot_tree (totals L c))"
  shows "\<exists>M. narrow L i limit = (M, Inr ()) \<and> (\<forall>s. validate_snapshot (encode_snapshot (take_snapshot M)) \<noteq> Inr s)
    \<and> snd (flush_writes store_rule M) = Inl PersistenceFailed \<and> lg_poisoned (fst (flush_writes store_rule M))"
proof -
  let ?c = "c\<lparr>acc_limit := limit\<rparr>"
  let ?M = "put_account ?c L"
  have tree: "tree_ok L" using assms(1) by (simp add: ledger_inv_def accounts_inv_def)
  have n: "narrow L i limit = (persist ?M, Inr ())"
    using assms(4,5,9,10) by (simp add: narrow_def guard_step_def with_node_def count_int_def safe_count_def require_def)
  have inv: "ledger_inv (persist ?M)"
    using evolves_inv [OF narrow_refines [OF assms(1), of store_rule i limit] assms(1)] n by simp
  have ip: "in_place L c ?c" by (rule in_placeI [OF tree assms(4)]) simp_all
  have m: "swap_to ?c p \<in> set (lg_accounts (persist ?M))" using mem_put [OF ip assms(7)] by simp
  have "totals (persist ?M) = totals ?M" by (rule same_core_totals) simp
  then have r: "max_safe_integer < tot_reserved (totals (persist ?M) (swap_to ?c p))"
    using narrow_reserves [OF tree assms(4-8), of limit] tree_nonneg [OF assms(1) child_mem [OF assms(8)]] assms(11) by simp
  have v: "validate_snapshot (encode_snapshot (take_snapshot (persist ?M))) \<noteq> Inr s" for s
    using snapshot_reserves_safely [OF inv _ m, of s] count_max r by fastforce
  let ?q = "lg_queue ?M"
  have q: "lg_queue (persist ?M) = ?q @ [take_snapshot ?M]" using assms(2) by (simp add: persist_def put_account_def)
  have t: "take_snapshot (persist ?M) = take_snapshot ?M" by (simp add: take_snapshot_def persist_def root_limit_def find_account_def)
  have "\<not> store_rule prev (take_snapshot ?M)" for prev
    using v unfolding t by (auto simp: store_rule_def split: sum.split)
  then have e: "lg_persist_error (drain_writes store_rule (persist ?M))"
    unfolding drain_writes_def q using failing_save by simp
  have "lg_poisoned (drain_writes store_rule (persist ?M))"
    using error_poisons [of "persist ?M" store_rule "lg_queue (persist ?M)"] e assms(3) by (simp add: drain_writes_def)
  then show ?thesis using n v e by (intro exI [of _ "persist ?M"]) (simp add: flush_writes_def Let_def)
qed

text \<open>An unlimited root with two unlimited children, of which the first is narrowed to the largest safe integer: then the second.\<close>

definition ex_unlimited :: ledger where
  "ex_unlimited = (case create_ledger ex_root True 0 ex_session ex_turn of Inl _ \<Rightarrow> undefined | Inr L \<Rightarrow> L)"
definition ex_two_children :: ledger where
  "ex_two_children = fst (reserve (fst (reserve ex_unlimited ex_root ex_child 0)) ex_root ex_child_turn 0)"
definition ex_narrowed :: ledger where
  "ex_narrowed = fst (narrow ex_two_children ex_child max_safe_integer)"

lemma ex_run_narrowed: "ledger_run save ex_narrowed"
proof -
  have c: "create_ledger ex_root True 0 ex_session ex_turn = Inr ex_unlimited" by code_simp
  have "fresh_account ex_unlimited ex_child" "fresh_account (fst (reserve ex_unlimited ex_root ex_child 0)) ex_child_turn"
    by code_simp+
  then show ?thesis unfolding ex_narrowed_def ex_two_children_def
    by (intro run_step [OF _ st_narrow] run_step [OF _ st_reserve] run_create [OF ex_root_uuid c])
qed

theorem narrowing_breaks_persistence_witness:
  "\<exists>M. narrow ex_narrowed ex_child_turn max_safe_integer = (M, Inr ()) \<and> snd (flush_writes store_rule M) = Inl PersistenceFailed"
proof -
  let ?c = "the (find_account ex_narrowed ex_child_turn)" and ?p = "the (find_account ex_narrowed ex_root)"
  have "lg_persistent ex_narrowed" "\<not> lg_persist_error ex_narrowed" "find_account ex_narrowed ex_child_turn = Some ?c"
    "acc_limit ?c = 0" "\<not> acc_settled ?c" "?p \<in> set (lg_accounts ex_narrowed)" "?c \<in> set (children ex_narrowed ?p)"
    "0 < max_safe_integer" "max_safe_integer < tot_reserved (totals ex_narrowed ?p) + (max_safe_integer - tot_tree (totals ex_narrowed ?c))"
    by code_simp+
  then show ?thesis using narrowing_breaks_persistence [OF run_inv [OF ex_run_narrowed]] by blast
qed

end
