(* ===== verification/ToolHistory.thy ===== *)
theory ToolHistory
  imports Prelude "HOL-Library.Multiset" "HOL-Library.Sublist"
begin

text \<open>
  Tool-call pairing in a message history (\<open>compaction/dangling.ts\<close>): the scan for
  dangling calls and results, their removal, the repair before a provider request,
  and the choice of a trim point. The provider's rule itself is stated apart from
  the code, as \<open>wire_valid\<close>.
\<close>

subsection \<open>Messages\<close>

text \<open>The fields of \<open>types/message\<close> the code reads; an absent \<open>toolCalls\<close> is an empty list.\<close>

record tool_call =
  call_id :: string
  call_name :: string
  call_arguments :: string

datatype message =
    SystemMessage string "int option"
  | UserMessage string "int option"
  | AssistantMessage "string option" "tool_call list" "int option"
  | ToolMessage string string bool "int option"     \<comment> \<open>toolCallId, content, isError\<close>

fun tool_calls :: "message \<Rightarrow> tool_call list" where
  "tool_calls (AssistantMessage content calls ts) = calls"
| "tool_calls _ = []"

fun is_tool_message :: "message \<Rightarrow> bool" where
  "is_tool_message (ToolMessage i c e ts) = True"
| "is_tool_message _ = False"

fun is_user :: "message \<Rightarrow> bool" where
  "is_user (UserMessage c ts) = True"
| "is_user _ = False"

fun tool_call_id :: "message \<Rightarrow> string" where
  "tool_call_id (ToolMessage i c e ts) = i"
| "tool_call_id _ = []"

definition has_tool_calls :: "message \<Rightarrow> bool" where
  "has_tool_calls m \<longleftrightarrow> tool_calls m \<noteq> []"

definition call_ids :: "message \<Rightarrow> string list" where
  "call_ids m = map call_id (tool_calls m)"

subsection \<open>The scan\<close>

text \<open>The loop over the calls of one assistant message: an empty or repeated id spoils it.\<close>

fun invalid_owner :: "string list \<Rightarrow> string list \<Rightarrow> tool_call list \<Rightarrow> bool" where
  "invalid_owner seen own [] = False"
| "invalid_owner seen own (c # cs) =
     ((call_id c = [] \<or> call_id c \<in> set own \<or> call_id c \<in> set seen)
      \<or> invalid_owner (call_id c # seen) (call_id c # own) cs)"

text \<open>\<open>lastResultById\<close>: setting a key again replaces its index.\<close>

definition last_result :: "nat \<Rightarrow> message list \<Rightarrow> string \<Rightarrow> nat option" where
  "last_result start batch = map_of (rev (zip (map tool_call_id batch) [start..<start + length batch]))"

text \<open>One batch of results: the indices of the orphans, and the ids answered.\<close>

fun scan_results ::
    "(string \<Rightarrow> nat option) \<Rightarrow> bool \<Rightarrow> string list \<Rightarrow> nat \<Rightarrow> message list \<Rightarrow> nat list \<times> string list" where
  "scan_results lasts bad ids i [] = ([], [])"
| "scan_results lasts bad ids i (m # ms) =
     (let (orphans, answered) = scan_results lasts bad ids (Suc i) ms in
      if bad \<or> tool_call_id m \<notin> set ids \<or> lasts (tool_call_id m) \<noteq> Some i
      then (i # orphans, answered) else (orphans, tool_call_id m # answered))"

function find_dangling_from :: "string list \<Rightarrow> nat \<Rightarrow> message list \<Rightarrow> nat list \<times> nat list" where
  "find_dangling_from seen i [] = ([], [])"
| "find_dangling_from seen i (m # ms) =
     (if \<not> has_tool_calls m then
        (let (assistants, orphans) = find_dangling_from seen (Suc i) ms
         in (assistants, if is_tool_message m then i # orphans else orphans))
      else
        (let ids = call_ids m;
             bad = invalid_owner seen [] (tool_calls m);
             batch = takeWhile is_tool_message ms;
             (orphans, answered) = scan_results (last_result (Suc i) batch) bad ids (Suc i) batch;
             (assistants', orphans') =
               find_dangling_from (ids @ seen) (Suc i + length batch) (dropWhile is_tool_message ms)
         in ((if bad \<or> list_ex (\<lambda>c. call_id c \<notin> set answered) (tool_calls m) then [i] else []) @ assistants',
             orphans @ orphans')))"
  by pat_completeness auto
termination
  by (relation "measure (\<lambda>(seen, i, ms). length ms)") (auto simp: le_imp_less_Suc length_dropWhile_le)

record dangling_result =
  assistants_with_unmatched_calls :: "nat list"
  orphaned_tool_messages :: "nat list"
  is_valid :: bool

definition find_dangling_messages :: "message list \<Rightarrow> dangling_result" where
  "find_dangling_messages ms =
     (let (assistants, orphans) = find_dangling_from [] 0 ms
      in \<lparr>assistants_with_unmatched_calls = assistants, orphaned_tool_messages = orphans,
          is_valid = (assistants = [] \<and> orphans = [])\<rparr>)"

subsection \<open>Removal\<close>

definition remove_dangling_messages :: "message list \<Rightarrow> message list" where
  "remove_dangling_messages ms =
     (let result = find_dangling_messages ms in
      if is_valid result then ms
      else
        (let removed = (\<lambda>k. k \<in> set (orphaned_tool_messages result)
               \<or> k \<in> set (assistants_with_unmatched_calls result)
               \<or> list_ex (\<lambda>a. a < k \<and> is_tool_message (ms ! k) \<and> tool_call_id (ms ! k) \<in> set (call_ids (ms ! a)))
                   (assistants_with_unmatched_calls result))
         in map snd (filter (\<lambda>(k, m). \<not> removed k) (enumerate 0 ms))))"

subsection \<open>Repair\<close>

datatype history_error = EmptyCallId nat nat | RepeatedCallId nat nat string

text \<open>The two nested loops of \<open>validateToolCallIds\<close>: message index, then call index.\<close>

fun check_call_ids :: "nat \<Rightarrow> nat \<Rightarrow> string list \<Rightarrow> tool_call list \<Rightarrow> (history_error, string list) outcome" where
  "check_call_ids mi ci seen [] = Inr seen"
| "check_call_ids mi ci seen (c # cs) =
     (if call_id c = [] then Inl (EmptyCallId mi ci)
      else if call_id c \<in> set seen then Inl (RepeatedCallId mi ci (call_id c))
      else check_call_ids mi (Suc ci) (call_id c # seen) cs)"

fun validate_tool_call_ids :: "nat \<Rightarrow> string list \<Rightarrow> message list \<Rightarrow> (history_error, string list) outcome" where
  "validate_tool_call_ids mi seen [] = Inr seen"
| "validate_tool_call_ids mi seen (m # ms) =
     bindE (check_call_ids mi 0 seen (tool_calls m)) (\<lambda>seen'. validate_tool_call_ids (Suc mi) seen' ms)"

record repair_report =
  duplicates_removed :: nat
  orphans_removed :: nat
  synthetic_inserted :: nat
  never_ran_inserted :: nat      \<comment> \<open>0 is the source's absent field\<close>

definition tool_history_repair_changed :: "repair_report \<Rightarrow> bool" where
  "tool_history_repair_changed r \<longleftrightarrow>
     duplicates_removed r > 0 \<or> orphans_removed r > 0 \<or> synthetic_inserted r > 0"

fun timestamp_of :: "message \<Rightarrow> int option" where
  "timestamp_of (SystemMessage c ts) = ts"
| "timestamp_of (UserMessage c ts) = ts"
| "timestamp_of (AssistantMessage c cs ts) = ts"
| "timestamp_of (ToolMessage i c e ts) = ts"

definition unknown_outcome_result :: "tool_call \<Rightarrow> message \<Rightarrow> bool \<Rightarrow> message" where
  "unknown_outcome_result c assistant never_ran =
     ToolMessage (call_id c)
       (if never_ran
        then ''The `'' @ call_name c @ ''` call did not run: the session ended before it started (it may have been waiting for the user's approval, which was never given). Nothing was changed. If it is still needed, call it again.''
        else ''Tool execution was interrupted and no durable result is available for `'' @ call_name c @ ''`. Its outcome is unknown. Retry only if the tool is read-only or idempotent; otherwise verify external state or ask the user before retrying.'')
       True (timestamp_of assistant)"

text \<open>One batch of results under repair: kept results, duplicates and orphans dropped.\<close>

fun repair_results ::
    "(string \<Rightarrow> nat option) \<Rightarrow> string list \<Rightarrow> nat \<Rightarrow> message list \<Rightarrow> message list \<times> nat \<times> nat" where
  "repair_results lasts ids i [] = ([], 0, 0)"
| "repair_results lasts ids i (m # ms) =
     (let (kept, dups, orphans) = repair_results lasts ids (Suc i) ms in
      if lasts (tool_call_id m) \<noteq> Some i then (kept, Suc dups, orphans)
      else if tool_call_id m \<notin> set ids then (kept, dups, Suc orphans)
      else (m # kept, dups, orphans))"

function repair_from :: "(string \<Rightarrow> bool) \<Rightarrow> nat \<Rightarrow> message list \<Rightarrow> message list \<times> repair_report" where
  "repair_from never_ran i [] =
     ([], \<lparr>duplicates_removed = 0, orphans_removed = 0, synthetic_inserted = 0, never_ran_inserted = 0\<rparr>)"
| "repair_from never_ran i (m # ms) =
     (if \<not> has_tool_calls m then
        (let (out, report) = repair_from never_ran (Suc i) ms in
         if is_tool_message m then (out, report\<lparr>orphans_removed := Suc (orphans_removed report)\<rparr>)
         else (m # out, report))
      else
        (let batch = takeWhile is_tool_message ms;
             (kept, dups, orphans) = repair_results (last_result (Suc i) batch) (call_ids m) (Suc i) batch;
             missing = filter (\<lambda>c. call_id c \<notin> set (map tool_call_id kept)) (tool_calls m);
             (out, report) = repair_from never_ran (Suc i + length batch) (dropWhile is_tool_message ms)
         in (m # kept @ map (\<lambda>c. unknown_outcome_result c m (never_ran (call_id c))) missing @ out,
             \<lparr>duplicates_removed = dups + duplicates_removed report,
              orphans_removed = orphans + orphans_removed report,
              synthetic_inserted = length missing + synthetic_inserted report,
              never_ran_inserted = length (filter (\<lambda>c. never_ran (call_id c)) missing) + never_ran_inserted report\<rparr>)))"
  by pat_completeness auto
termination
  by (relation "measure (\<lambda>(never, i, ms). length ms)") (auto simp: le_imp_less_Suc length_dropWhile_le)

definition repair_tool_message_history ::
    "(string \<Rightarrow> bool) \<Rightarrow> message list \<Rightarrow> (history_error, message list \<times> repair_report) outcome" where
  "repair_tool_message_history never_ran ms =
     bindE (validate_tool_call_ids 0 [] ms) (\<lambda>_. Inr (repair_from never_ran 0 ms))"

subsection \<open>Choosing a trim point\<close>

text \<open>Skips the results of an assistant message's own calls.\<close>

fun skip_results :: "string list \<Rightarrow> message list \<Rightarrow> nat" where
  "skip_results ids [] = 0"
| "skip_results ids (m # ms) =
     (if is_tool_message m \<and> tool_call_id m \<in> set ids then Suc (skip_results ids ms) else 0)"

text \<open>The loop, with its own bound on the attempts.\<close>

fun trim_loop :: "message list \<Rightarrow> nat \<Rightarrow> nat \<Rightarrow> nat" where
  "trim_loop ms 0 i = i"
| "trim_loop ms (Suc attempts) i =
     (if i \<ge> length ms then i
      else if is_tool_message (ms ! i) then trim_loop ms attempts (Suc i)
      else
        (let r = find_dangling_messages (take i ms);
             dangling = assistants_with_unmatched_calls r @ orphaned_tool_messages r in
         if is_valid r then i
         else if dangling = [] then i
         else
           (let d = Max (set dangling);
                next_i = (if has_tool_calls (ms ! d) then Suc d + skip_results (call_ids (ms ! d)) (drop (Suc d) ms)
                          else Suc d)
            in trim_loop ms attempts next_i)))"

text \<open>The backward search: the last index below \<open>i\<close> with a user message and a clean suffix.\<close>

fun back_to_user :: "message list \<Rightarrow> nat \<Rightarrow> nat option" where
  "back_to_user ms 0 = None"
| "back_to_user ms (Suc i) =
     (if is_user (ms ! i) \<and> is_valid (find_dangling_messages (drop i ms)) then Some i
      else back_to_user ms i)"

definition align_to_user_turn :: "message list \<Rightarrow> nat \<Rightarrow> nat" where
  "align_to_user_turn ms i =
     (let forward = i + length (takeWhile (\<lambda>m. \<not> is_user m) (drop i ms)) in
      if forward < length ms then forward
      else (case back_to_user ms (min i (length ms)) of Some b \<Rightarrow> b | None \<Rightarrow> forward))"

definition find_safe_trim_index :: "message list \<Rightarrow> int \<Rightarrow> nat" where
  "find_safe_trim_index ms target =
     (let clamped = nat (max 0 (min target (int (length ms)))) in
      if clamped \<ge> length ms then length ms
      else align_to_user_turn ms (min (trim_loop ms (length ms) clamped) (length ms)))"

subsection \<open>The provider's rule\<close>

text \<open>
  A history a provider accepts: results stand only in the run right after the
  assistant message that made the calls, one for each call and none besides, and
  no call id is empty or used twice in the conversation.
\<close>

function wire_valid :: "string list \<Rightarrow> message list \<Rightarrow> bool" where
  "wire_valid seen [] = True"
| "wire_valid seen (m # ms) =
     (\<not> is_tool_message m
      \<and> [] \<notin> set (call_ids m) \<and> distinct (call_ids m) \<and> set (call_ids m) \<inter> set seen = {}
      \<and> (let batch = (if has_tool_calls m then takeWhile is_tool_message ms else []) in
          mset (map tool_call_id batch) = mset (call_ids m)
          \<and> wire_valid (call_ids m @ seen) (drop (length batch) ms)))"
  by pat_completeness auto
termination
  by (relation "measure (\<lambda>(seen, ms). length ms)") auto

end
