(* ===== verification/ToolHistoryProofs.thy ===== *)
theory ToolHistoryProofs
  imports ToolHistory
begin

text \<open>
  Facts of the scan, the removal and the repair: each is related to a plain
  recursion over the batches of a history, and that to the provider's rule.
\<close>

declare upt_Suc [simp del]

subsection \<open>Ids of one assistant message\<close>

lemma invalid_owner_iff:
  "invalid_owner seen own cs \<longleftrightarrow> \<not> ([] \<notin> call_id ` set cs \<and> distinct (map call_id cs)
     \<and> call_id ` set cs \<inter> (set own \<union> set seen) = {})"
  by (induction cs arbitrary: seen own) auto

lemma invalid_call_ids:
  "invalid_owner seen [] (tool_calls m) \<longleftrightarrow> \<not> ([] \<notin> set (call_ids m) \<and> distinct (call_ids m)
     \<and> set (call_ids m) \<inter> set seen = {})"
  by (simp add: invalid_owner_iff call_ids_def)

lemma no_calls [simp]: "\<not> has_tool_calls m \<Longrightarrow> call_ids m = []" "\<not> has_tool_calls m \<Longrightarrow> tool_calls m = []"
  by (simp_all add: has_tool_calls_def call_ids_def)

lemma tool_no_calls: "is_tool_message m \<Longrightarrow> \<not> has_tool_calls m"
  by (cases m) (simp_all add: has_tool_calls_def)

lemma list_ex_missing:
  "list_ex (\<lambda>c. call_id c \<notin> set answered) (tool_calls m) \<longleftrightarrow> \<not> set (call_ids m) \<subseteq> set answered"
  by (auto simp: list_ex_iff call_ids_def)

subsection \<open>Results of one batch\<close>

text \<open>The results the scan keeps: of a call of the owner, and the last of its id.\<close>

fun kept_results :: "string set \<Rightarrow> message list \<Rightarrow> message list" where
  "kept_results ids [] = []"
| "kept_results ids (m # ms) =
     (if tool_call_id m \<notin> ids \<or> tool_call_id m \<in> tool_call_id ` set ms then kept_results ids ms
      else m # kept_results ids ms)"

lemma dom_rev_zip: "length xs = length ys \<Longrightarrow> dom (map_of (rev (zip xs ys))) = set xs"
  by (simp add: dom_map_of_conv_image_fst) (metis map_fst_zip set_map)

lemma last_result_at:
  "last_result start (pre @ m # post) (tool_call_id m) = Some (start + length pre)
   \<longleftrightarrow> tool_call_id m \<notin> tool_call_id ` set post"
proof -
  let ?ids = "\<lambda>xs. map tool_call_id xs" and ?k = "start + length pre"
  have r1: "[start..<?k + Suc (length post)] = [start..<?k] @ [?k..<?k + Suc (length post)]"
    by (rule upt_add_eq_append) simp
  have r2: "[?k..<?k + Suc (length post)] = ?k # [Suc ?k..<?k + Suc (length post)]"
    by (rule upt_conv_Cons) simp
  have r: "[start..<start + length (pre @ m # post)] = [start..<?k] @ ?k # [Suc ?k..<Suc ?k + length post]"
    using r1 r2 by (simp add: add.assoc)
  have z: "zip (?ids (pre @ m # post)) [start..<start + length (pre @ m # post)]
      = zip (?ids pre) [start..<?k] @ (tool_call_id m, ?k) # zip (?ids post) [Suc ?k..<Suc ?k + length post]"
    unfolding r by simp
  let ?post = "map_of (rev (zip (?ids post) [Suc ?k..<Suc ?k + length post]))"
  have dom: "dom ?post = tool_call_id ` set post"
    by (subst dom_rev_zip) (simp_all del: upt_Suc)
  have ran: "v \<ge> Suc ?k" if "?post x = Some v" for x v
    using map_of_SomeD [OF that] by (auto simp del: upt_Suc dest!: set_zip_rightD)
  have l: "last_result start (pre @ m # post) (tool_call_id m)
      = (case ?post (tool_call_id m) of None \<Rightarrow> Some ?k | Some v \<Rightarrow> Some v)"
    unfolding last_result_def z by (simp add: map_add_def split: option.splits)
  show ?thesis
  proof (cases "?post (tool_call_id m)")
    case None
    then have "tool_call_id m \<notin> tool_call_id ` set post" by (metis dom domIff)
    with None show ?thesis unfolding l by simp
  next
    case (Some v)
    then have "tool_call_id m \<in> tool_call_id ` set post" by (metis dom domI)
    with Some ran [OF Some] show ?thesis unfolding l by simp
  qed
qed

lemma scan_bad: "scan_results lasts True ids i b = ([i..<i + length b], [])"
proof (induction b arbitrary: i)
  case (Cons m b)
  have "[i..<i + length (m # b)] = i # [Suc i..<Suc i + length b]"
    by (subst upt_conv_Cons) simp_all
  with Cons.IH [of "Suc i"] show ?case by (simp del: upt_Suc)
qed simp

lemma scan_kept:
  "map snd (filter (\<lambda>(k, m). k \<notin> set (fst (scan_results (last_result start (pre @ b)) False ids (start + length pre) b)))
      (enumerate (start + length pre) b)) = kept_results (set ids) b
   \<and> snd (scan_results (last_result start (pre @ b)) False ids (start + length pre) b)
      = map tool_call_id (kept_results (set ids) b)
   \<and> set (fst (scan_results (last_result start (pre @ b)) False ids (start + length pre) b))
      \<subseteq> {start + length pre..<start + length pre + length b}"
proof (induction b arbitrary: pre)
  case (Cons m b)
  let ?k = "start + length pre"
  let ?s = "scan_results (last_result start (pre @ m # b)) False ids (Suc ?k) b"
  have IH: "map snd (filter (\<lambda>(k, m). k \<notin> set (fst ?s)) (enumerate (Suc ?k) b)) = kept_results (set ids) b"
    "snd ?s = map tool_call_id (kept_results (set ids) b)" "set (fst ?s) \<subseteq> {Suc ?k..<Suc ?k + length b}"
    using Cons.IH [of "pre @ [m]"] by simp_all
  have neq: "j \<noteq> ?k" if "(j, x) \<in> set (enumerate (Suc ?k) b)" for j x
    using that by (auto simp: in_set_enumerate_eq)
  have f: "filter (\<lambda>(k, m). k \<notin> insert ?k (set (fst ?s))) (enumerate (Suc ?k) b)
      = filter (\<lambda>(k, m). k \<notin> set (fst ?s)) (enumerate (Suc ?k) b)"
    using neq by (intro filter_cong) auto
  have k: "?k \<notin> set (fst ?s)" using IH(3) by auto
  obtain os as where s: "?s = (os, as)" by (cases ?s)
  show ?case
    using IH f k last_result_at [of start pre m b] unfolding s
    by (auto simp: s)
qed simp

lemma repair_kept:
  "fst (repair_results (last_result start (pre @ b)) ids (start + length pre) b) = kept_results (set ids) b"
proof (induction b arbitrary: pre)
  case (Cons m b)
  then have "fst (repair_results (last_result start (pre @ m # b)) ids (Suc (start + length pre)) b)
      = kept_results (set ids) b"
    using Cons.IH [of "pre @ [m]"] by simp
  then show ?case
    using last_result_at [of start pre m b] by (auto simp: split_def Let_def)
qed simp

lemma repair_counts:
  "length b = length (fst (repair_results lasts ids i b)) + fst (snd (repair_results lasts ids i b))
     + snd (snd (repair_results lasts ids i b))"
  by (induction b arbitrary: i) (auto simp: split_def Let_def)

lemma kept_subset: "set (kept_results ids b) \<subseteq> set b"
  by (induction b) auto

lemma kept_ids: "tool_call_id ` set (kept_results ids b) = ids \<inter> tool_call_id ` set b"
  by (induction b) auto

lemma kept_distinct: "distinct (map tool_call_id (kept_results ids b))"
  by (induction b) (use kept_subset in \<open>force+\<close>)

lemma kept_all_iff: "kept_results ids b = b \<longleftrightarrow> tool_call_id ` set b \<subseteq> ids \<and> distinct (map tool_call_id b)"
proof
  assume "kept_results ids b = b"
  then show "tool_call_id ` set b \<subseteq> ids \<and> distinct (map tool_call_id b)"
    using kept_ids [of ids b] kept_distinct [of ids b] by auto
next
  assume "tool_call_id ` set b \<subseteq> ids \<and> distinct (map tool_call_id b)"
  then show "kept_results ids b = b" by (induction b) auto
qed

lemma kept_tools: "\<forall>m \<in> set b. is_tool_message m \<Longrightarrow> \<forall>m \<in> set (kept_results ids b). is_tool_message m"
  using kept_subset by blast

lemma kept_subseq: "subseq (kept_results ids b) b"
  by (induction b) auto

lemma batch_tools: "\<forall>m \<in> set (takeWhile is_tool_message ms). is_tool_message m"
  by (auto dest: set_takeWhileD)

lemma batch_mset:
  "distinct ids \<Longrightarrow> mset (map tool_call_id b) = mset ids
   \<longleftrightarrow> kept_results (set ids) b = b \<and> set ids \<subseteq> set (map tool_call_id b)"
  using set_eq_iff_mset_eq_distinct [of "map tool_call_id b" ids] mset_eq_setD
    mset_eq_imp_distinct_iff [of "map tool_call_id b" ids]
  unfolding kept_all_iff by auto

lemma orphans_empty:
  "fst (scan_results (last_result start b) False ids start b) = [] \<longleftrightarrow> kept_results (set ids) b = b"
proof -
  let ?o = "fst (scan_results (last_result start b) False ids start b)"
  have k: "map snd (filter (\<lambda>(k, m). k \<notin> set ?o) (enumerate start b)) = kept_results (set ids) b"
    and s: "set ?o \<subseteq> {start..<start + length b}"
    using scan_kept [of start "[]" b ids] by simp_all
  show ?thesis
  proof
    assume "?o = []"
    then show "kept_results (set ids) b = b" using k by (simp add: split_def)
  next
    assume eq: "kept_results (set ids) b = b"
    have "k \<notin> set ?o" if "(k, m) \<in> set (enumerate start b)" for k m
    proof
      assume "k \<in> set ?o"
      then have "length (filter (\<lambda>(k, m). k \<notin> set ?o) (enumerate start b)) < length (enumerate start b)"
        using that by (intro length_filter_less [of "(k, m)"]) auto
      with k eq show False by (metis length_map length_enumerate less_irrefl)
    qed
    then have n: "k \<notin> set ?o" if "start \<le> k" "k < start + length b" for k
      using that by (force simp: in_set_enumerate_eq)
    show "?o = []"
    proof (rule ccontr)
      assume "?o \<noteq> []"
      then have "hd ?o \<in> set ?o" by simp
      with s n show False by (meson atLeastLessThan_iff subsetD)
    qed
  qed
qed

subsection \<open>The scan decides the provider's rule\<close>

lemma scan_empty_iff: "find_dangling_from seen i ms = ([], []) \<longleftrightarrow> wire_valid seen ms"
proof (induction seen i ms rule: find_dangling_from.induct)
  case (2 seen i m ms)
  show ?case
  proof (cases "has_tool_calls m")
    case False
    then show ?thesis using "2.IH"(1) by (cases "find_dangling_from seen (Suc i) ms") auto
  next
    case True
    let ?batch = "takeWhile is_tool_message ms"
    let ?bad = "invalid_owner seen [] (tool_calls m)"
    let ?s = "scan_results (last_result (Suc i) ?batch) ?bad (call_ids m) (Suc i) ?batch"
    obtain os as where s: "?s = (os, as)" by (cases ?s)
    let ?r = "find_dangling_from (call_ids m @ seen) (Suc i + length ?batch) (dropWhile is_tool_message ms)"
    have IH: "?r = ([], []) \<longleftrightarrow> wire_valid (call_ids m @ seen) (dropWhile is_tool_message ms)"
      using "2.IH"(2) [OF _ refl refl refl s [symmetric]] True s by auto
    have nt: "\<not> is_tool_message m" using tool_no_calls True by blast
    have d: "drop (length ?batch) ms = dropWhile is_tool_message ms"
      by (rule dropWhile_eq_drop [symmetric])
    have lhs: "find_dangling_from seen i (m # ms) = ([], [])
        \<longleftrightarrow> \<not> ?bad \<and> set (call_ids m) \<subseteq> set as \<and> os = [] \<and> ?r = ([], [])"
      using True s by (auto simp: Let_def list_ex_missing split: prod.splits)
    show ?thesis
    proof (cases ?bad)
      case bad: True
      then show ?thesis unfolding lhs using invalid_call_ids [of seen m] by auto
    next
      case False
      have o: "os = [] \<longleftrightarrow> kept_results (set (call_ids m)) ?batch = ?batch"
        using orphans_empty [of "Suc i" ?batch "call_ids m"] s False by simp
      have a: "as = map tool_call_id (kept_results (set (call_ids m)) ?batch)"
        using scan_kept [of "Suc i" "[]" ?batch "call_ids m"] s False by simp
      have dist: "distinct (call_ids m)" using False invalid_call_ids by blast
      have "set (call_ids m) \<subseteq> set as \<and> os = [] \<longleftrightarrow> mset (map tool_call_id ?batch) = mset (call_ids m)"
        unfolding batch_mset [OF dist] o a by auto
      then show ?thesis
        unfolding lhs using True False nt IH invalid_call_ids [of seen m] by (auto simp: Let_def d)
    qed
  qed
qed simp

lemma valid_iff_wire: "is_valid (find_dangling_messages ms) \<longleftrightarrow> wire_valid [] ms"
  using scan_empty_iff [of "[]" 0 ms]
  by (cases "find_dangling_from [] 0 ms") (simp add: find_dangling_messages_def)

end
