(* ===== verification/ToolHistoryRepair.thy ===== *)
theory ToolHistoryRepair
  imports ToolHistoryProofs
begin

text \<open>
  The removal of dangling messages, the repair before a request and the choice of
  a trim point (\<open>compaction/dangling.ts\<close>): what each leaves is a history the
  provider accepts, and what each may take away or add is bounded.
\<close>

subsection \<open>Facts of the provider's rule\<close>

lemma wire_valid_antimono: "wire_valid seen ms \<Longrightarrow> set seen' \<subseteq> set seen \<Longrightarrow> wire_valid seen' ms"
proof (induction seen ms arbitrary: seen' rule: wire_valid.induct)
  case (2 seen m ms)
  let ?batch = "if has_tool_calls m then takeWhile is_tool_message ms else []"
  have v: "wire_valid (call_ids m @ seen) (drop (length ?batch) ms)"
    and ids: "set (call_ids m) \<inter> set seen = {}"
    using "2.prems"(1) by (simp_all add: Let_def)
  have "set (call_ids m @ seen') \<subseteq> set (call_ids m @ seen)" using "2.prems"(2) by auto
  from "2.IH" [OF refl v this] have "wire_valid (call_ids m @ seen') (drop (length ?batch) ms)" .
  moreover have "set (call_ids m) \<inter> set seen' = {}" using ids "2.prems"(2) by blast
  ultimately show ?case using "2.prems"(1) by (simp add: Let_def)
qed simp

lemma takeWhile_batch:
  "\<forall>m \<in> set b. is_tool_message m \<Longrightarrow> (\<forall>x xs. ms = x # xs \<longrightarrow> \<not> is_tool_message x)
   \<Longrightarrow> takeWhile is_tool_message (b @ ms) = b"
  by (cases ms) auto

text \<open>One exchange put in front of a valid history.\<close>

lemma wire_valid_exchange:
  assumes "\<not> is_tool_message m" and "has_tool_calls m"
    and "[] \<notin> set (call_ids m)" "distinct (call_ids m)" "set (call_ids m) \<inter> set seen = {}"
    and "\<forall>x \<in> set b. is_tool_message x" and "mset (map tool_call_id b) = mset (call_ids m)"
    and "\<forall>x xs. ms = x # xs \<longrightarrow> \<not> is_tool_message x" and "wire_valid (call_ids m @ seen) ms"
  shows "wire_valid seen (m # b @ ms)"
proof -
  have "takeWhile is_tool_message (b @ ms) = b" by (rule takeWhile_batch) (use assms in auto)
  then show ?thesis using assms by (simp add: Let_def)
qed

lemma distinct_ids_mset:
  "distinct xs \<Longrightarrow> distinct ys \<Longrightarrow> set xs = set ys \<Longrightarrow> mset xs = mset ys"
  by (simp add: set_eq_iff_mset_eq_distinct)

subsection \<open>Removal as one recursion\<close>

definition plain :: "message \<Rightarrow> bool" where
  "plain m \<longleftrightarrow> \<not> is_tool_message m \<and> \<not> has_tool_calls m"

function clean :: "string list \<Rightarrow> message list \<Rightarrow> message list" where
  "clean seen [] = []"
| "clean seen (m # ms) =
     (if \<not> has_tool_calls m then (if is_tool_message m then clean seen ms else m # clean seen ms)
      else
        (let kept = kept_results (set (call_ids m)) (takeWhile is_tool_message ms);
             out = clean (call_ids m @ seen) (dropWhile is_tool_message ms)
         in if invalid_owner seen [] (tool_calls m) \<or> \<not> set (call_ids m) \<subseteq> tool_call_id ` set kept
            then out else m # kept @ out))"
  by pat_completeness auto
termination
  by (relation "measure (\<lambda>(seen, ms). length ms)") (auto simp: le_imp_less_Suc length_dropWhile_le)

lemma clean_head: "clean seen ms = x # xs \<Longrightarrow> \<not> is_tool_message x"
proof (induction seen ms arbitrary: x xs rule: clean.induct)
  case (2 seen m ms)
  show ?case
  proof (cases "has_tool_calls m")
    case True
    have "\<not> is_tool_message m" using True tool_no_calls by blast
    then show ?thesis
      using "2.prems" "2.IH"(3) [OF _ refl] True by (simp add: Let_def split: if_splits)
  next
    case False
    show ?thesis
    proof (cases "is_tool_message m")
      case True
      then have "clean seen ms = x # xs" using "2.prems" False by simp
      then show ?thesis by (rule "2.IH"(1) [OF False True])
    next
      case nt: False
      then show ?thesis using "2.prems" False by simp
    qed
  qed
qed simp

lemma clean_valid: "wire_valid seen (clean seen ms)"
proof (induction seen ms rule: clean.induct)
  case (2 seen m ms)
  let ?kept = "kept_results (set (call_ids m)) (takeWhile is_tool_message ms)"
  let ?out = "clean (call_ids m @ seen) (dropWhile is_tool_message ms)"
  show ?case
  proof (cases "has_tool_calls m")
    case calls: True
    have out: "wire_valid (call_ids m @ seen) ?out" using "2.IH"(3) [OF _ refl] calls by simp
    show ?thesis
    proof (cases "invalid_owner seen [] (tool_calls m) \<or> \<not> set (call_ids m) \<subseteq> tool_call_id ` set ?kept")
      case True
      then show ?thesis using calls wire_valid_antimono [OF out] by (simp add: Let_def)
    next
      case False
      then have ids: "[] \<notin> set (call_ids m)" "distinct (call_ids m)" "set (call_ids m) \<inter> set seen = {}"
        using invalid_call_ids by blast+
      have "mset (map tool_call_id ?kept) = mset (call_ids m)"
        using False kept_ids ids(2) kept_distinct by (intro distinct_ids_mset) auto
      then have "wire_valid seen (m # ?kept @ ?out)"
        using ids calls tool_no_calls kept_tools [OF batch_tools] clean_head out
        by (intro wire_valid_exchange) blast+
      then show ?thesis using False calls by (simp add: Let_def)
    qed
  qed (use "2.IH"(1,2) in \<open>auto\<close>)
qed simp

lemma subseq_exchange: "subseq k b \<Longrightarrow> subseq c d \<Longrightarrow> subseq (m # k @ c) (m # b @ d)"
  by (simp add: list_emb_append_mono)

lemma clean_subseq: "subseq (clean seen ms) ms"
proof (induction seen ms rule: clean.induct)
  case (2 seen m ms)
  let ?kept = "kept_results (set (call_ids m)) (takeWhile is_tool_message ms)"
  let ?out = "clean (call_ids m @ seen) (dropWhile is_tool_message ms)"
  show ?case
  proof (cases "has_tool_calls m")
    case calls: True
    have out: "subseq ?out (dropWhile is_tool_message ms)" using "2.IH"(3) [OF _ refl] calls by simp
    have "subseq (m # ?kept @ ?out) (m # takeWhile is_tool_message ms @ dropWhile is_tool_message ms)"
      by (rule subseq_exchange [OF kept_subseq out])
    moreover have "subseq ?out (m # takeWhile is_tool_message ms @ dropWhile is_tool_message ms)"
      using out by (metis append_Cons list_emb_append2)
    ultimately show ?thesis using calls by (simp add: Let_def)
  qed (use "2.IH"(1,2) in \<open>auto\<close>)
qed simp

lemma filter_plain_tools: "\<forall>m \<in> set b. is_tool_message m \<Longrightarrow> filter plain b = []"
  by (simp add: plain_def filter_empty_conv)

lemma filter_plain_dropWhile: "filter plain (dropWhile is_tool_message ms) = filter plain ms"
  by (induction ms) (auto simp: plain_def)

lemma clean_plain: "filter plain (clean seen ms) = filter plain ms"
proof (induction seen ms rule: clean.induct)
  case (2 seen m ms)
  show ?case
  proof (cases "has_tool_calls m")
    case True
    then have "\<not> plain m" by (simp add: plain_def)
    with True "2.IH"(3) [OF _ refl] show ?thesis
      by (simp add: Let_def filter_plain_tools [OF kept_tools [OF batch_tools]] filter_plain_dropWhile)
  qed (use "2.IH"(1,2) in \<open>auto simp: plain_def\<close>)
qed simp

subsection \<open>The removal computes it\<close>

text \<open>
  What the code marks, with the ids \<open>D\<close> of the assistants marked earlier;
  \<open>at\<close> reads the whole history by index.
\<close>

definition marked ::
    "(nat \<Rightarrow> message) \<Rightarrow> string set \<Rightarrow> nat list \<Rightarrow> nat list \<Rightarrow> nat \<times> message \<Rightarrow> bool" where
  "marked at D A Q = (\<lambda>(k, m). k \<in> set Q \<or> k \<in> set A
     \<or> is_tool_message m \<and> (tool_call_id m \<in> D \<or> (\<exists>a \<in> set A. a < k \<and> tool_call_id m \<in> set (call_ids (at a)))))"

lemma scan_range:
  "set (fst (scan_results lasts bad ids i b)) \<subseteq> {i..<i + length b}"
proof (induction b arbitrary: i)
  case (Cons m b)
  from Cons.IH [of "Suc i"] show ?case by (auto simp: split_def Let_def)
qed simp

lemma find_range:
  "set (fst (find_dangling_from seen i ms)) \<subseteq> {i..} \<and> set (snd (find_dangling_from seen i ms)) \<subseteq> {i..}"
proof (induction seen i ms rule: find_dangling_from.induct)
  case (2 seen i m ms)
  show ?case
  proof (cases "has_tool_calls m")
    case False
    then show ?thesis
      using "2.IH"(1) by (cases "find_dangling_from seen (Suc i) ms") (auto simp: subset_iff Suc_le_eq)
  next
    case True
    let ?b = "takeWhile is_tool_message ms"
    let ?bad = "invalid_owner seen [] (tool_calls m)"
    let ?s = "scan_results (last_result (Suc i) ?b) ?bad (call_ids m) (Suc i) ?b"
    let ?r = "find_dangling_from (call_ids m @ seen) (Suc i + length ?b) (dropWhile is_tool_message ms)"
    obtain os as where s: "?s = (os, as)" by (cases ?s)
    obtain A Q' where r: "?r = (A, Q')" by (cases ?r)
    have "set A \<subseteq> {Suc i + length ?b..} \<and> set Q' \<subseteq> {Suc i + length ?b..}"
      using "2.IH"(2) [OF _ refl refl refl s [symmetric]] True r by simp
    moreover have "set os \<subseteq> {i..}"
      using scan_range [of "last_result (Suc i) ?b" ?bad "call_ids m" "Suc i" ?b] s by auto
    ultimately show ?thesis using True s r by (auto simp: Let_def)
  qed
qed simp

lemma enumerate_split:
  "enumerate i (m # ms) = (i, m) # enumerate (Suc i) (takeWhile P ms)
     @ enumerate (Suc i + length (takeWhile P ms)) (dropWhile P ms)"
  by (metis enumerate_append_eq enumerate_simps(2) takeWhile_dropWhile_id)

lemma enumerate_at: "(k, x) \<in> set (enumerate i xs) \<longleftrightarrow> i \<le> k \<and> k < i + length xs \<and> x = xs ! (k - i)"
  by (auto simp: in_set_enumerate_eq)

text \<open>The results of one batch that stay unmarked.\<close>

lemma batch_marked:
  assumes tools: "\<forall>x \<in> set b. is_tool_message x"
    and Q: "\<forall>k \<in> {Suc i..<Suc i + length b}. k \<in> set Q \<longleftrightarrow> k \<in> set os"
    and A: "\<forall>k \<in> {Suc i..<Suc i + length b}. k \<notin> set A"
    and E: "\<forall>k \<in> {Suc i..<Suc i + length b}.
      {x. \<exists>a \<in> set A. a < k \<and> x \<in> set (call_ids (at a))} = E"
  shows "map snd (filter (\<lambda>p. \<not> marked at D A Q p) (enumerate (Suc i) b))
    = filter (\<lambda>m. tool_call_id m \<notin> D \<union> E)
        (map snd (filter (\<lambda>(k, m). k \<notin> set os) (enumerate (Suc i) b)))"
proof -
  have "marked at D A Q (k, x) \<longleftrightarrow> k \<in> set os \<or> tool_call_id x \<in> D \<union> E"
    if "(k, x) \<in> set (enumerate (Suc i) b)" for k x
  proof -
    have k: "k \<in> {Suc i..<Suc i + length b}" and x: "x \<in> set b"
      using that by (auto simp: enumerate_at)
    have "tool_call_id x \<in> E \<longleftrightarrow> (\<exists>a \<in> set A. a < k \<and> tool_call_id x \<in> set (call_ids (at a)))"
      using E k by blast
    then show ?thesis unfolding marked_def using Q A k tools x by auto
  qed
  then have "filter (\<lambda>p. \<not> marked at D A Q p) (enumerate (Suc i) b)
      = filter (\<lambda>p. tool_call_id (snd p) \<notin> D \<union> E) (filter (\<lambda>(k, m). k \<notin> set os) (enumerate (Suc i) b))"
    by (subst filter_filter, intro filter_cong) auto
  then show ?thesis by (simp add: filter_map o_def)
qed

lemma marked_rest:
  assumes "set A0 \<subseteq> {i}" and "(if A0 = [] then {} else set (call_ids (at i))) = E"
    and "set os \<subseteq> {..<j}" and "i < j" and "j \<le> k"
  shows "marked at D (A0 @ A) (os @ Q) (k, x) \<longleftrightarrow> marked at (D \<union> E) A Q (k, x)"
proof -
  have "A0 = [] \<or> set A0 = {i}" using assms(1) by (cases A0) auto
  then show ?thesis using assms by (auto simp: marked_def split: if_splits)
qed

lemma kept_unmarked:
  assumes bad: "bad \<longleftrightarrow> \<not> (P \<and> ids \<inter> set seen = {})" and "D \<subseteq> set seen"
    and all: "bad \<Longrightarrow> xs = []" and kept: "\<not> bad \<Longrightarrow> xs = kept_results ids b"
    and lost: "lost \<longleftrightarrow> bad \<or> Q"
  shows "filter (\<lambda>x. tool_call_id x \<notin> D \<union> (if lost then ids else {})) xs
    = (if lost then [] else kept_results ids b)"
proof (cases bad)
  case False
  have "tool_call_id x \<in> ids" if "x \<in> set xs" for x
    using that kept [OF False] kept_ids [of ids b] by auto
  then have "\<forall>x \<in> set xs. tool_call_id x \<notin> D \<union> (if lost then ids else {}) \<longleftrightarrow> \<not> lost"
    using bad False assms(2) by auto
  then show ?thesis
    using kept [OF False] by (cases lost) (auto simp: filter_empty_conv filter_id_conv)
qed (use all lost in simp)

lemma filter_parts:
  "(P p \<longleftrightarrow> \<not> lost) \<Longrightarrow> map snd (filter P xs) = (if lost then [] else k) \<Longrightarrow> map snd (filter P ys) = out
   \<Longrightarrow> map snd (filter P (p # xs @ ys)) = (if lost then out else snd p # k @ out)"
  by simp

lemma removal_clean:
  "\<forall>(k, x) \<in> set (enumerate i ms). at k = x \<Longrightarrow> D \<subseteq> set seen
   \<Longrightarrow> map snd (filter (\<lambda>p. \<not> marked at D (fst (find_dangling_from seen i ms))
        (snd (find_dangling_from seen i ms)) p) (enumerate i ms)) = clean seen ms"
proof (induction seen i ms arbitrary: D rule: find_dangling_from.induct)
  case (2 seen i m ms)
  have at: "at i = m" "\<forall>(k, x) \<in> set (enumerate (Suc i) ms). at k = x"
    using "2.prems"(1) by auto
  show ?case
  proof (cases "has_tool_calls m")
    case False
    let ?r = "find_dangling_from seen (Suc i) ms"
    let ?Q = "if is_tool_message m then i # snd ?r else snd ?r"
    have r: "find_dangling_from seen i (m # ms) = (fst ?r, ?Q)"
      using False by (simp add: split_def Let_def)
    have range: "i \<notin> set (fst ?r)" "i \<notin> set (snd ?r)" "\<forall>a \<in> set (fst ?r). i < a"
      using find_range [of seen "Suc i" ms] by auto
    have "marked at D (fst ?r) ?Q (k, x) \<longleftrightarrow> marked at D (fst ?r) (snd ?r) (k, x)"
      if "(k, x) \<in> set (enumerate (Suc i) ms)" for k x
      using that by (auto simp: marked_def enumerate_at)
    then have "filter (\<lambda>p. \<not> marked at D (fst ?r) ?Q p) (enumerate (Suc i) ms)
        = filter (\<lambda>p. \<not> marked at D (fst ?r) (snd ?r) p) (enumerate (Suc i) ms)"
      by (intro filter_cong) auto
    moreover have "marked at D (fst ?r) ?Q (i, m) \<longleftrightarrow> is_tool_message m"
      using range by (auto simp: marked_def)
    moreover note "2.IH"(1) [OF False at(2) "2.prems"(2)]
    ultimately show ?thesis using False r by (cases "is_tool_message m") simp_all
  next
    case True
    let ?b = "takeWhile is_tool_message ms" and ?w = "dropWhile is_tool_message ms"
    let ?j = "Suc i + length ?b"
    let ?bad = "invalid_owner seen [] (tool_calls m)"
    let ?s = "scan_results (last_result (Suc i) ?b) ?bad (call_ids m) (Suc i) ?b"
    let ?kept = "kept_results (set (call_ids m)) ?b"
    obtain os as where s: "?s = (os, as)" by (cases ?s)
    let ?r = "find_dangling_from (call_ids m @ seen) ?j ?w"
    let ?lost = "?bad \<or> \<not> set (call_ids m) \<subseteq> set as"
    let ?A0 = "if ?lost then [i] else []" and ?E = "if ?lost then set (call_ids m) else {}"
    have r: "find_dangling_from seen i (m # ms) = (?A0 @ fst ?r, os @ snd ?r)"
      using True s by (simp add: Let_def split_def list_ex_missing)
    have en: "enumerate i (m # ms) = (i, m) # enumerate (Suc i) ?b @ enumerate ?j ?w"
      by (rule enumerate_split)
    have range: "set (fst ?r) \<subseteq> {?j..}" "set (snd ?r) \<subseteq> {?j..}" "set os \<subseteq> {Suc i..<?j}"
      using find_range [of "call_ids m @ seen" ?j ?w]
        scan_range [of "last_result (Suc i) ?b" ?bad "call_ids m" "Suc i" ?b] s by simp_all
    have rest: "filter (\<lambda>p. \<not> marked at D (?A0 @ fst ?r) (os @ snd ?r) p) (enumerate ?j ?w)
        = filter (\<lambda>p. \<not> marked at (D \<union> ?E) (fst ?r) (snd ?r) p) (enumerate ?j ?w)"
    proof (intro filter_cong refl)
      fix p assume "p \<in> set (enumerate ?j ?w)"
      then obtain k x where p: "p = (k, x)" "?j \<le> k" by (metis enumerate_at surj_pair)
      have "marked at D (?A0 @ fst ?r) (os @ snd ?r) (k, x) \<longleftrightarrow> marked at (D \<union> ?E) (fst ?r) (snd ?r) (k, x)"
        using at(1) range(3) p(2) by (intro marked_rest [where i = i and j = ?j]) auto
      then show "(\<not> marked at D (?A0 @ fst ?r) (os @ snd ?r) p) = (\<not> marked at (D \<union> ?E) (fst ?r) (snd ?r) p)"
        using p(1) by simp
    qed
    have IH: "map snd (filter (\<lambda>p. \<not> marked at (D \<union> ?E) (fst ?r) (snd ?r) p) (enumerate ?j ?w))
        = clean (call_ids m @ seen) ?w"
    proof (rule "2.IH"(2) [OF _ refl refl refl s [symmetric]])
      show "\<not> \<not> has_tool_calls m" using True by simp
      show "\<forall>(k, x) \<in> set (enumerate ?j ?w). at k = x" using "2.prems"(1) unfolding en by auto
      show "D \<union> ?E \<subseteq> set (call_ids m @ seen)" using "2.prems"(2) by auto
    qed (rule refl)
    have head: "marked at D (?A0 @ fst ?r) (os @ snd ?r) (i, m) \<longleftrightarrow> ?lost"
      using range tool_no_calls True by (auto simp: marked_def)
    have batch: "map snd (filter (\<lambda>p. \<not> marked at D (?A0 @ fst ?r) (os @ snd ?r) p) (enumerate (Suc i) ?b))
        = filter (\<lambda>x. tool_call_id x \<notin> D \<union> ?E)
           (map snd (filter (\<lambda>(k, m). k \<notin> set os) (enumerate (Suc i) ?b)))"
    proof (rule batch_marked)
      show "\<forall>x \<in> set ?b. is_tool_message x" by (rule batch_tools)
      show "\<forall>k \<in> {Suc i..<Suc i + length ?b}. k \<in> set (os @ snd ?r) \<longleftrightarrow> k \<in> set os"
        and "\<forall>k \<in> {Suc i..<Suc i + length ?b}. k \<notin> set (?A0 @ fst ?r)"
        using range by auto
      show "\<forall>k \<in> {Suc i..<Suc i + length ?b}.
          {x. \<exists>a \<in> set (?A0 @ fst ?r). a < k \<and> x \<in> set (call_ids (at a))} = ?E"
        using range(1) at(1) by auto
    qed
    have kept: "filter (\<lambda>x. tool_call_id x \<notin> D \<union> ?E)
         (map snd (filter (\<lambda>(k, m). k \<notin> set os) (enumerate (Suc i) ?b))) = (if ?lost then [] else ?kept)"
    proof (rule kept_unmarked [where bad = ?bad and seen = seen and P = "[] \<notin> set (call_ids m) \<and> distinct (call_ids m)"])
      show "?bad \<longleftrightarrow> \<not> (([] \<notin> set (call_ids m) \<and> distinct (call_ids m)) \<and> set (call_ids m) \<inter> set seen = {})"
        unfolding invalid_call_ids by blast
      show "map snd (filter (\<lambda>(k, m). k \<notin> set os) (enumerate (Suc i) ?b)) = []" if ?bad
        using s that by (auto simp: scan_bad filter_empty_conv enumerate_at)
      show "map snd (filter (\<lambda>(k, m). k \<notin> set os) (enumerate (Suc i) ?b)) = ?kept" if "\<not> ?bad"
        using scan_kept [of "Suc i" "[]" ?b "call_ids m"] s that by simp
    qed (use "2.prems"(2) in auto)
    have lost: "?lost \<longleftrightarrow> ?bad \<or> \<not> set (call_ids m) \<subseteq> tool_call_id ` set ?kept"
      using scan_kept [of "Suc i" "[]" ?b "call_ids m"] s by (cases ?bad) auto
    have "map snd (filter (\<lambda>p. \<not> marked at D (?A0 @ fst ?r) (os @ snd ?r) p)
        ((i, m) # enumerate (Suc i) ?b @ enumerate ?j ?w))
        = (if ?lost then clean (call_ids m @ seen) ?w else m # ?kept @ clean (call_ids m @ seen) ?w)"
      by (rule filter_parts [of _ "(i, m)", unfolded snd_conv, OF _ batch [unfolded kept] IH [folded rest]])
        (simp only: head)
    also have "\<dots> = clean seen (m # ms)"
      using True unfolding lost by (simp add: Let_def)
    finally show ?thesis unfolding r en fst_conv snd_conv .
  qed
qed simp

lemma remove_clean: "remove_dangling_messages ms = (if wire_valid [] ms then ms else clean [] ms)"
proof -
  let ?r = "find_dangling_from [] 0 ms"
  let ?P = "\<lambda>k. k \<in> set (snd ?r) \<or> k \<in> set (fst ?r)
      \<or> list_ex (\<lambda>a. a < k \<and> is_tool_message (ms ! k) \<and> tool_call_id (ms ! k) \<in> set (call_ids (ms ! a))) (fst ?r)"
  have "(\<not> ?P k) = (\<not> marked ((!) ms) {} (fst ?r) (snd ?r) (k, x))"
    if "(k, x) \<in> set (enumerate 0 ms)" for k x
    using that by (auto simp: marked_def list_ex_iff enumerate_at)
  then have "filter (\<lambda>(k, m). \<not> ?P k) (enumerate 0 ms)
      = filter (\<lambda>p. \<not> marked ((!) ms) {} (fst ?r) (snd ?r) p) (enumerate 0 ms)"
    by (intro filter_cong refl) auto
  moreover have "map snd (filter (\<lambda>p. \<not> marked ((!) ms) {} (fst ?r) (snd ?r) p) (enumerate 0 ms)) = clean [] ms"
    by (rule removal_clean) (auto simp: enumerate_at)
  moreover have "is_valid (find_dangling_messages ms) \<longleftrightarrow> wire_valid [] ms" by (rule valid_iff_wire)
  ultimately show ?thesis
    unfolding remove_dangling_messages_def by (simp add: Let_def find_dangling_messages_def split_def)
qed

subsection \<open>Repair\<close>

text \<open>What \<open>validateToolCallIds\<close> accepts.\<close>

definition ids_ok :: "string list \<Rightarrow> message list \<Rightarrow> bool" where
  "ids_ok seen ms \<longleftrightarrow> (let ids = concat (map call_ids ms) in
     [] \<notin> set ids \<and> distinct ids \<and> set ids \<inter> set seen = {})"

lemma check_call_ids_iff:
  "(\<exists>s. check_call_ids mi ci seen cs = Inr s) \<longleftrightarrow>
     [] \<notin> call_id ` set cs \<and> distinct (map call_id cs) \<and> call_id ` set cs \<inter> set seen = {}"
  by (induction cs arbitrary: ci seen) auto

lemma check_call_ids_seen:
  "check_call_ids mi ci seen cs = Inr s \<Longrightarrow> s = rev (map call_id cs) @ seen"
  by (induction cs arbitrary: ci seen) (auto split: if_splits)

lemma ids_ok_Cons:
  "ids_ok seen (m # ms) \<longleftrightarrow> [] \<notin> set (call_ids m) \<and> distinct (call_ids m)
     \<and> set (call_ids m) \<inter> set seen = {} \<and> ids_ok (rev (call_ids m) @ seen) ms"
  unfolding ids_ok_def Let_def by auto

lemma validate_iff: "(\<exists>s. validate_tool_call_ids mi seen ms = Inr s) \<longleftrightarrow> ids_ok seen ms"
proof (induction ms arbitrary: mi seen)
  case (Cons m ms)
  show ?case
  proof (cases "check_call_ids mi 0 seen (tool_calls m)")
    case (Inl e)
    then show ?thesis
      using check_call_ids_iff [of mi 0 seen "tool_calls m"] by (auto simp: ids_ok_Cons call_ids_def)
  next
    case (Inr s)
    then show ?thesis
      using check_call_ids_iff [of mi 0 seen "tool_calls m"] check_call_ids_seen [OF Inr]
        Cons.IH [of "Suc mi" s] by (auto simp: ids_ok_Cons call_ids_def)
  qed
qed (simp add: ids_ok_def)

lemma ids_ok_tools:
  "ids_ok seen ms \<Longrightarrow> ids_ok seen (dropWhile is_tool_message ms)"
proof (induction ms)
  case (Cons m ms)
  then show ?case by (cases "is_tool_message m") (auto simp: ids_ok_Cons tool_no_calls)
qed simp

lemma ids_ok_seen: "ids_ok seen ms \<longleftrightarrow> ids_ok seen' ms" if "set seen = set seen'"
  unfolding ids_ok_def using that by simp

text \<open>The results a repair leaves after one assistant message, and the calls it had to answer itself.\<close>

definition unanswered :: "message \<Rightarrow> message list \<Rightarrow> tool_call list" where
  "unanswered m b = filter (\<lambda>c. call_id c \<notin> tool_call_id ` set (kept_results (set (call_ids m)) b)) (tool_calls m)"

definition answers :: "(string \<Rightarrow> bool) \<Rightarrow> message \<Rightarrow> message list \<Rightarrow> message list" where
  "answers never m b = kept_results (set (call_ids m)) b
     @ map (\<lambda>c. unknown_outcome_result c m (never (call_id c))) (unanswered m b)"

lemma synthetic_id [simp]: "tool_call_id (unknown_outcome_result c m n) = call_id c"
  and synthetic_tool [simp]: "is_tool_message (unknown_outcome_result c m n)"
  by (simp_all add: unknown_outcome_result_def)

lemma answers_tools:
  "\<forall>x \<in> set b. is_tool_message x \<Longrightarrow> \<forall>x \<in> set (answers never m b). is_tool_message x"
  using kept_tools by (auto simp: answers_def)

lemma answers_ids:
  assumes "distinct (call_ids m)"
  shows "mset (map tool_call_id (answers never m b)) = mset (call_ids m)"
proof (rule distinct_ids_mset)
  let ?k = "kept_results (set (call_ids m)) b"
  have ids: "map tool_call_id (answers never m b) = map tool_call_id ?k @ map call_id (unanswered m b)"
    by (simp add: answers_def o_def)
  have "distinct (map call_id (unanswered m b))"
    using assms unfolding unanswered_def call_ids_def by (rule distinct_map_filter)
  then show "distinct (map tool_call_id (answers never m b))"
    unfolding ids using kept_distinct [of "set (call_ids m)" b] by (auto simp: unanswered_def) (metis imageI)
  show "set (map tool_call_id (answers never m b)) = set (call_ids m)"
    unfolding ids using kept_ids [of "set (call_ids m)" b] by (auto simp: unanswered_def call_ids_def)
qed (rule assms)

lemma repair_step:
  assumes "has_tool_calls m"
  shows "fst (repair_from never i (m # ms)) = m # answers never m (takeWhile is_tool_message ms)
    @ fst (repair_from never (Suc i + length (takeWhile is_tool_message ms)) (dropWhile is_tool_message ms))"
proof -
  let ?b = "takeWhile is_tool_message ms"
  have "fst (repair_results (last_result (Suc i) ?b) (call_ids m) (Suc i) ?b) = kept_results (set (call_ids m)) ?b"
    using repair_kept [of "Suc i" "[]" ?b "call_ids m"] by simp
  then show ?thesis
    using assms by (simp add: Let_def split_def answers_def unanswered_def)
qed

lemma repair_other:
  assumes "\<not> has_tool_calls m"
  shows "fst (repair_from never i (m # ms))
    = (if is_tool_message m then [] else [m]) @ fst (repair_from never (Suc i) ms)"
  using assms by (simp add: split_def Let_def)

lemma repair_head: "fst (repair_from never i ms) = x # xs \<Longrightarrow> \<not> is_tool_message x"
proof (induction ms arbitrary: i)
  case (Cons m ms)
  show ?case
  proof (cases "has_tool_calls m")
    case True
    then show ?thesis using Cons.prems tool_no_calls unfolding repair_step [OF True] by auto
  next
    case False
    show ?thesis
    proof (cases "is_tool_message m")
      case True
      then show ?thesis
        using Cons.prems Cons.IH [of "Suc i"] unfolding repair_other [OF False] by simp
    next
      case nt: False
      then show ?thesis using Cons.prems unfolding repair_other [OF False] by simp
    qed
  qed
qed simp

lemma repair_valid: "ids_ok seen ms \<Longrightarrow> wire_valid seen (fst (repair_from never i ms))"
proof (induction never i ms arbitrary: seen rule: repair_from.induct)
  case (2 never i m ms)
  show ?case
  proof (cases "has_tool_calls m")
    case True
    let ?b = "takeWhile is_tool_message ms" and ?w = "dropWhile is_tool_message ms"
    have ok: "[] \<notin> set (call_ids m)" "distinct (call_ids m)" "set (call_ids m) \<inter> set seen = {}"
      "ids_ok (rev (call_ids m) @ seen) ms"
      using "2.prems" by (simp_all add: ids_ok_Cons)
    have "ids_ok (call_ids m @ seen) ?w"
      using ids_ok_tools [OF ok(4)] ids_ok_seen [of "call_ids m @ seen" "rev (call_ids m) @ seen"] by simp
    then have "wire_valid (call_ids m @ seen) (fst (repair_from never (Suc i + length ?b) ?w))"
      using "2.IH"(2) True by (metis (no_types, lifting) prod.collapse)
    then show ?thesis
      unfolding repair_step [OF True] using ok True tool_no_calls
      by (intro wire_valid_exchange answers_tools batch_tools answers_ids) (use repair_head in blast)+
  next
    case False
    have "ids_ok seen ms" using "2.prems" False by (simp add: ids_ok_Cons)
    then have "wire_valid seen (fst (repair_from never (Suc i) ms))" using "2.IH"(1) False by blast
    then show ?thesis unfolding repair_other [OF False] using False by auto
  qed
qed simp

text \<open>Every message that is not a result stays, in its place.\<close>

lemma filter_tools: "\<forall>x \<in> set b. is_tool_message x \<Longrightarrow> filter (\<lambda>x. \<not> is_tool_message x) b = []"
  by (simp add: filter_empty_conv)

lemma filter_dropWhile: "filter (\<lambda>x. \<not> P x) (dropWhile P xs) = filter (\<lambda>x. \<not> P x) xs"
  by (induction xs) auto

lemma repair_non_tools:
  "filter (\<lambda>x. \<not> is_tool_message x) (fst (repair_from never i ms)) = filter (\<lambda>x. \<not> is_tool_message x) ms"
proof (induction never i ms rule: repair_from.induct)
  case (2 never i m ms)
  show ?case
  proof (cases "has_tool_calls m")
    case True
    let ?b = "takeWhile is_tool_message ms" and ?w = "dropWhile is_tool_message ms"
    have "filter (\<lambda>x. \<not> is_tool_message x) (fst (repair_from never (Suc i + length ?b) ?w))
        = filter (\<lambda>x. \<not> is_tool_message x) ms"
      using "2.IH"(2) True filter_dropWhile [of is_tool_message ms] by (metis (no_types, lifting) prod.collapse)
    then show ?thesis
      unfolding repair_step [OF True] using tool_no_calls [of m] True
      by (simp add: filter_tools [OF answers_tools [OF batch_tools]])
  next
    case False
    then show ?thesis using "2.IH"(1) [OF False] unfolding repair_other [OF False] by simp
  qed
qed simp

text \<open>The report accounts for every message taken and added.\<close>

lemma length_takeWhile_dropWhile: "length (takeWhile P xs) + length (dropWhile P xs) = length xs"
  by (metis length_append takeWhile_dropWhile_id)

text \<open>
  What a repair has to do, message by message: a result in the run after a message with calls is superseded when a later
  result of that run has its id, and it is unowned when no call of that message has its id or when it stands after no such message;
  everything else stays. A call is open when no result of the run after its message has its id.
\<close>

datatype fate = Stays | Superseded | Unowned

fun fates :: "message option \<Rightarrow> message list \<Rightarrow> fate list" where
  "fates owner [] = []"
| "fates owner (m # ms) =
     (if \<not> is_tool_message m then Stays # fates (if has_tool_calls m then Some m else None) ms
      else (case owner of None \<Rightarrow> Unowned
            | Some a \<Rightarrow> if tool_call_id m \<in> tool_call_id ` set (takeWhile is_tool_message ms) then Superseded
                else if tool_call_id m \<in> set (call_ids a) then Stays else Unowned) # fates owner ms)"

fun open_calls :: "message list \<Rightarrow> (message \<times> tool_call) list" where
  "open_calls [] = []"
| "open_calls (m # ms) =
     map (Pair m) (filter (\<lambda>c. call_id c \<notin> tool_call_id ` set (takeWhile is_tool_message ms)) (tool_calls m)) @ open_calls ms"

definition staying :: "message list \<Rightarrow> fate list \<Rightarrow> message list" where
  "staying ms fs = map fst (filter (\<lambda>(m, f). f = Stays) (zip ms fs))"

lemma staying_simps [simp]:
  "staying [] fs = []" "staying (m # ms) (f # fs) = (if f = Stays then m # staying ms fs else staying ms fs)"
  by (simp_all add: staying_def)

lemma staying_append: "length ms = length fs \<Longrightarrow> staying (ms @ ms') (fs @ fs') = staying ms fs @ staying ms' fs'"
  by (simp add: staying_def)

lemma fates_length [simp]: "length (fates owner ms) = length ms"
  by (induction owner ms rule: fates.induct) auto

lemma fates_run:
  assumes "\<forall>m \<in> set b. is_tool_message m" "w = [] \<or> \<not> is_tool_message (hd w)"
  shows "fates (Some a) (b @ w) = fates (Some a) b @ fates None w"
  using assms(1)
proof (induction b)
  case Nil
  show ?case using assms(2) by (cases w) auto
next
  case (Cons m b)
  have b: "takeWhile is_tool_message b = b" using Cons.prems by (simp add: takeWhile_eq_all_conv)
  have w: "takeWhile is_tool_message w = []" using assms(2) by (cases w) auto
  show ?case using Cons by (simp add: takeWhile_append b w)
qed

lemma repair_by_fates:
  assumes "\<forall>m \<in> set b. is_tool_message m"
  shows "repair_results (last_result start (pre @ b)) (call_ids a) (start + length pre) b
    = (staying b (fates (Some a) b), count_list (fates (Some a) b) Superseded, count_list (fates (Some a) b) Unowned)"
  using assms
proof (induction b arbitrary: pre)
  case (Cons m b)
  have t: "takeWhile is_tool_message b = b" using Cons.prems by (simp add: takeWhile_eq_all_conv)
  have "repair_results (last_result start (pre @ m # b)) (call_ids a) (Suc (start + length pre)) b
    = (staying b (fates (Some a) b), count_list (fates (Some a) b) Superseded, count_list (fates (Some a) b) Unowned)"
    using Cons.IH [of "pre @ [m]"] Cons.prems by simp
  then show ?case using last_result_at [of start pre m b] Cons.prems by (auto simp: t)
qed simp

lemma open_calls_run: "\<forall>m \<in> set b. is_tool_message m \<Longrightarrow> open_calls (b @ w) = open_calls w"
  by (induction b) (simp_all add: tool_no_calls)

text \<open>The one a repair inserts for an open call.\<close>

definition inserted_result :: "(string \<Rightarrow> bool) \<Rightarrow> message \<times> tool_call \<Rightarrow> message" where
  "inserted_result never mc = unknown_outcome_result (snd mc) (fst mc) (never (call_id (snd mc)))"

definition repaired_as :: "(string \<Rightarrow> bool) \<Rightarrow> message list \<Rightarrow> message list \<times> repair_report \<Rightarrow> bool" where
  "repaired_as never ms r \<longleftrightarrow>
     subseq (staying ms (fates None ms)) (fst r)
   \<and> mset (fst r) = mset (staying ms (fates None ms)) + mset (map (inserted_result never) (open_calls ms))
   \<and> duplicates_removed (snd r) = count_list (fates None ms) Superseded
   \<and> orphans_removed (snd r) = count_list (fates None ms) Unowned
   \<and> synthetic_inserted (snd r) = length (open_calls ms)
   \<and> never_ran_inserted (snd r) = length (filter (\<lambda>(m, c). never (call_id c)) (open_calls ms))"

lemma repair_does: "repaired_as never ms (repair_from never i ms)"
proof (induction never i ms rule: repair_from.induct)
  case (2 never i m ms)
  show ?case
  proof (cases "has_tool_calls m")
    case True
    let ?b = "takeWhile is_tool_message ms" and ?w = "dropWhile is_tool_message ms"
    let ?r = "repair_from never (Suc i + length ?b) ?w"
    let ?open = "filter (\<lambda>c. call_id c \<notin> tool_call_id ` set ?b) (tool_calls m)"
    have IH: "repaired_as never ?w ?r" using "2.IH"(2) True by (metis (no_types, lifting) prod.collapse)
    have t: "\<not> is_tool_message m" using True tool_no_calls by blast
    have w: "?w = [] \<or> \<not> is_tool_message (hd ?w)" using hd_dropWhile by blast
    have f: "fates (Some m) ms = fates (Some m) ?b @ fates None ?w" using fates_run [OF batch_tools [of ms] w, of m] by simp
    have p: "repair_results (last_result (Suc i) ?b) (call_ids m) (Suc i) ?b
        = (staying ?b (fates (Some m) ?b), count_list (fates (Some m) ?b) Superseded, count_list (fates (Some m) ?b) Unowned)"
      using repair_by_fates [OF batch_tools, of "Suc i" "[]"] by simp
    have ids: "tool_call_id ` set (staying ?b (fates (Some m) ?b)) = set (call_ids m) \<inter> tool_call_id ` set ?b"
      using repair_kept [of "Suc i" "[]" ?b "call_ids m"] kept_ids p by simp
    have o: "filter (\<lambda>c. call_id c \<notin> tool_call_id ` set (staying ?b (fates (Some m) ?b))) (tool_calls m) = ?open"
      by (rule filter_cong) (auto simp: ids call_ids_def)
    have r: "repair_from never i (m # ms) =
        (m # staying ?b (fates (Some m) ?b) @ map (\<lambda>c. inserted_result never (m, c)) ?open @ fst ?r,
         \<lparr>duplicates_removed = count_list (fates (Some m) ?b) Superseded + duplicates_removed (snd ?r),
          orphans_removed = count_list (fates (Some m) ?b) Unowned + orphans_removed (snd ?r),
          synthetic_inserted = length ?open + synthetic_inserted (snd ?r),
          never_ran_inserted = length (filter (\<lambda>c. never (call_id c)) ?open) + never_ran_inserted (snd ?r)\<rparr>)"
      using True by (simp add: Let_def split_def p o inserted_result_def del: filter_filter)
    have s: "staying ms (fates (Some m) ms) = staying ?b (fates (Some m) ?b) @ staying ?w (fates None ?w)"
      using staying_append [of ?b "fates (Some m) ?b" ?w "fates None ?w"] f by simp
    have "subseq (staying ?w (fates None ?w)) (fst ?r)" using IH by (simp add: repaired_as_def)
    then have q: "subseq (staying ms (fates (Some m) ms))
        (staying ?b (fates (Some m) ?b) @ map (\<lambda>c. inserted_result never (m, c)) ?open @ fst ?r)"
      unfolding s by (intro list_emb_append_mono list_emb_append2 subseq_order.refl)
    have n: "count_list (fates (Some m) ms) x = count_list (fates (Some m) ?b) x + count_list (fates None ?w) x" for x
      using f by simp
    have c: "open_calls (m # ms) = map (Pair m) ?open @ open_calls ?w"
      using open_calls_run [OF batch_tools, of ms ?w] by simp
    show ?thesis
      using IH t True q unfolding repaired_as_def r c
      by (simp add: s n o_def ac_simps filter_map)
  next
    case False
    show ?thesis
      using "2.IH"(1) [OF False] False unfolding repaired_as_def
      by (cases "is_tool_message m") (simp_all add: split_def Let_def tool_no_calls)
  qed
qed (simp add: repaired_as_def)

lemma repair_report_counts:
  "length (fst (repair_from never i ms)) + duplicates_removed (snd (repair_from never i ms))
     + orphans_removed (snd (repair_from never i ms))
   = length ms + synthetic_inserted (snd (repair_from never i ms))
   \<and> never_ran_inserted (snd (repair_from never i ms)) \<le> synthetic_inserted (snd (repair_from never i ms))"
proof (induction never i ms rule: repair_from.induct)
  case (2 never i m ms)
  show ?case
  proof (cases "has_tool_calls m")
    case True
    let ?b = "takeWhile is_tool_message ms" and ?w = "dropWhile is_tool_message ms"
    let ?r = "repair_from never (Suc i + length ?b) ?w"
    let ?p = "repair_results (last_result (Suc i) ?b) (call_ids m) (Suc i) ?b"
    have IH: "length (fst ?r) + duplicates_removed (snd ?r) + orphans_removed (snd ?r)
        = length ?w + synthetic_inserted (snd ?r) \<and> never_ran_inserted (snd ?r) \<le> synthetic_inserted (snd ?r)"
      using "2.IH"(2) True by (metis (no_types, lifting) prod.collapse)
    let ?missing = "filter (\<lambda>c. call_id c \<notin> set (map tool_call_id (fst ?p))) (tool_calls m)"
    have r: "repair_from never i (m # ms) =
        (m # fst ?p @ map (\<lambda>c. unknown_outcome_result c m (never (call_id c))) ?missing @ fst ?r,
         \<lparr>duplicates_removed = fst (snd ?p) + duplicates_removed (snd ?r),
          orphans_removed = snd (snd ?p) + orphans_removed (snd ?r),
          synthetic_inserted = length ?missing + synthetic_inserted (snd ?r),
          never_ran_inserted = length (filter (\<lambda>c. never (call_id c)) ?missing) + never_ran_inserted (snd ?r)\<rparr>)"
      using True by (simp add: Let_def split_def)
    show ?thesis
      unfolding r using IH repair_counts [of ?b "last_result (Suc i) ?b" "call_ids m" "Suc i"]
        length_takeWhile_dropWhile [of is_tool_message ms]
        length_filter_le [of "\<lambda>c. never (call_id c)" ?missing]
      by (simp del: length_filter_le)
  next
    case False
    then show ?thesis
      using "2.IH"(1) [OF False] by (cases "is_tool_message m") (auto simp: split_def Let_def)
  qed
qed simp

text \<open>A history in order is left alone.\<close>

lemma valid_ids_ok: "wire_valid seen ms \<Longrightarrow> ids_ok seen ms"
proof (induction seen ms rule: wire_valid.induct)
  case (2 seen m ms)
  let ?b = "if has_tool_calls m then takeWhile is_tool_message ms else []"
  have ok: "ids_ok (call_ids m @ seen) (drop (length ?b) ms)" using "2.IH" [OF refl] "2.prems" by (simp add: Let_def)
  have b: "ms = ?b @ drop (length ?b) ms"
    by (metis append_take_drop_id append_Nil drop0 list.size(3) takeWhile_eq_take)
  have "concat (map call_ids ?b) = []" using tool_no_calls by (auto dest: set_takeWhileD)
  then have c: "concat (map call_ids ms) = concat (map call_ids (drop (length ?b) ms))"
    by (subst b) simp
  have "ids_ok (call_ids m @ seen) ms" using ok unfolding ids_ok_def c .
  then show ?case
    using "2.prems" ids_ok_seen [of "call_ids m @ seen" "rev (call_ids m) @ seen"] by (simp add: ids_ok_Cons Let_def)
qed (simp add: ids_ok_def)

lemma valid_batch:
  assumes "wire_valid seen (m # ms)" and "has_tool_calls m"
  shows "kept_results (set (call_ids m)) (takeWhile is_tool_message ms) = takeWhile is_tool_message ms"
    and "unanswered m (takeWhile is_tool_message ms) = []"
    and "wire_valid (call_ids m @ seen) (dropWhile is_tool_message ms)"
proof -
  have eq: "mset (map tool_call_id (takeWhile is_tool_message ms)) = mset (call_ids m)" and d: "distinct (call_ids m)"
    using assms by (simp_all add: Let_def)
  from eq show k: "kept_results (set (call_ids m)) (takeWhile is_tool_message ms) = takeWhile is_tool_message ms"
    using batch_mset [OF d] by blast
  have "set (call_ids m) \<subseteq> tool_call_id ` set (takeWhile is_tool_message ms)"
    using mset_eq_setD [OF eq] by simp
  then show "unanswered m (takeWhile is_tool_message ms) = []"
    unfolding unanswered_def k by (auto simp: filter_empty_conv call_ids_def)
  show "wire_valid (call_ids m @ seen) (dropWhile is_tool_message ms)"
    using assms by (simp add: Let_def dropWhile_eq_drop)
qed

lemma repair_fixed: "wire_valid seen ms \<Longrightarrow> fst (repair_from never i ms) = ms"
proof (induction never i ms arbitrary: seen rule: repair_from.induct)
  case (2 never i m ms)
  show ?case
  proof (cases "has_tool_calls m")
    case True
    let ?b = "takeWhile is_tool_message ms" and ?w = "dropWhile is_tool_message ms"
    note v = valid_batch [OF "2.prems" True]
    have "fst (repair_from never (Suc i + length ?b) ?w) = ?w"
      using "2.IH"(2) True v(3) by (metis (no_types, lifting) prod.collapse)
    then show ?thesis unfolding repair_step [OF True] answers_def v(1,2) by simp
  next
    case False
    then have "\<not> is_tool_message m" "wire_valid seen ms" using "2.prems" by (simp_all add: Let_def)
    then show ?thesis using "2.IH"(1) [OF False] unfolding repair_other [OF False] by simp
  qed
qed simp

lemma repair_unchanged:
  assumes "wire_valid seen ms"
  shows "\<not> tool_history_repair_changed (snd (repair_from never i ms))"
proof -
  have "synthetic_inserted (snd (repair_from never i ms)) = 0"
    using assms
  proof (induction never i ms arbitrary: seen rule: repair_from.induct)
    case (2 never i m ms)
    show ?case
    proof (cases "has_tool_calls m")
      case True
      let ?b = "takeWhile is_tool_message ms" and ?w = "dropWhile is_tool_message ms"
      let ?p = "repair_results (last_result (Suc i) ?b) (call_ids m) (Suc i) ?b"
      note v = valid_batch [OF "2.prems" True]
      have "synthetic_inserted (snd (repair_from never (Suc i + length ?b) ?w)) = 0"
        using "2.IH"(2) True v(3) by (metis (no_types, lifting) prod.collapse)
      moreover have "filter (\<lambda>c. call_id c \<notin> set (map tool_call_id (fst ?p))) (tool_calls m) = []"
        using v(2) repair_kept [of "Suc i" "[]" ?b "call_ids m"] by (simp add: unanswered_def)
      ultimately show ?thesis using True by (simp add: Let_def split_def)
    next
      case False
      then have "\<not> is_tool_message m" "wire_valid seen ms" using "2.prems" by (simp_all add: Let_def)
      then show ?thesis using "2.IH"(1) [OF False] False by (simp add: split_def Let_def)
    qed
  qed simp
  then show ?thesis
    using repair_report_counts [of never i ms] repair_fixed [OF assms]
    by (simp add: tool_history_repair_changed_def)
qed

subsection \<open>Trim points\<close>

text \<open>What follows a message that is not a result is itself a history in order.\<close>

lemma wire_valid_suffix:
  "wire_valid seen ms \<Longrightarrow> k < length ms \<Longrightarrow> \<not> is_tool_message (ms ! k) \<Longrightarrow> wire_valid [] (drop k ms)"
proof (induction seen ms arbitrary: k rule: wire_valid.induct)
  case (2 seen m ms)
  let ?b = "if has_tool_calls m then takeWhile is_tool_message ms else []"
  show ?case
  proof (cases k)
    case 0
    then show ?thesis using wire_valid_antimono [OF "2.prems"(1), of "[]"] by simp
  next
    case (Suc j)
    have "\<not> j < length ?b"
    proof
      assume j: "j < length ?b"
      then have "ms ! j = ?b ! j" by (auto simp: takeWhile_nth split: if_splits)
      with j have "is_tool_message (ms ! j)" by (metis batch_tools nth_mem list.size(3) not_less_zero)
      with "2.prems"(3) Suc show False by simp
    qed
    then obtain d where d: "j = length ?b + d" using le_Suc_ex not_less by blast
    have "wire_valid [] (drop d (drop (length ?b) ms))"
      using "2.prems" Suc d by (intro "2.IH" [OF refl]) (auto simp: Let_def)
    then show ?thesis using Suc d by (simp add: add.commute)
  qed
qed simp

lemma takeWhile_take: "takeWhile P (take n xs) = take n (takeWhile P xs)"
  by (induction xs arbitrary: n) (auto simp: take_Cons split: nat.splits)

lemma wire_valid_prefix:
  "wire_valid seen ms \<Longrightarrow> k < length ms \<Longrightarrow> \<not> is_tool_message (ms ! k) \<Longrightarrow> wire_valid seen (take k ms)"
proof (induction seen ms arbitrary: k rule: wire_valid.induct)
  case (2 seen m ms)
  let ?b = "if has_tool_calls m then takeWhile is_tool_message ms else []"
  show ?case
  proof (cases k)
    case (Suc j)
    have nj: "\<not> j < length ?b"
    proof
      assume j: "j < length ?b"
      then have "ms ! j = ?b ! j" by (auto simp: takeWhile_nth split: if_splits)
      with j have "is_tool_message (ms ! j)" by (metis batch_tools nth_mem list.size(3) not_less_zero)
      with "2.prems"(3) Suc show False by simp
    qed
    then obtain d where d: "j = length ?b + d" using le_Suc_ex not_less by blast
    have t: "(if has_tool_calls m then takeWhile is_tool_message (take j ms) else []) = ?b"
    proof (cases "has_tool_calls m")
      case True
      have "takeWhile is_tool_message (take j ms) = take j (takeWhile is_tool_message ms)"
        by (rule takeWhile_take)
      with nj True show ?thesis by simp
    qed simp
    have "wire_valid (call_ids m @ seen) (take d (drop (length ?b) ms))"
      using "2.prems" Suc d by (intro "2.IH" [OF refl]) (auto simp: Let_def)
    moreover have "take d (drop (length ?b) ms) = drop (length ?b) (take j ms)"
      using d by (simp add: drop_take)
    ultimately show ?thesis using "2.prems"(1) Suc t by (simp add: Let_def)
  qed simp
qed simp

lemma back_to_user_Some:
  "back_to_user ms i = Some b \<Longrightarrow> b < i \<and> is_user (ms ! b) \<and> wire_valid [] (drop b ms)"
  by (induction i) (auto simp: valid_iff_wire split: if_splits)

lemma align_cases:
  assumes "i \<le> length ms"
  obtains (end_of) "align_to_user_turn ms i = length ms"
    | (ahead) k where "align_to_user_turn ms i = k" "i \<le> k" "k < length ms" "is_user (ms ! k)"
    | (behind) k where "align_to_user_turn ms i = k" "k < i" "is_user (ms ! k)" "wire_valid [] (drop k ms)"
proof -
  let ?n = "length (takeWhile (\<lambda>m. \<not> is_user m) (drop i ms))"
  have le: "i + ?n \<le> length ms" using length_takeWhile_le [of "\<lambda>m. \<not> is_user m" "drop i ms"] assms by simp
  show ?thesis
  proof (cases "i + ?n < length ms")
    case True
    then have "?n < length (drop i ms)" by simp
    from nth_length_takeWhile [OF this] True have "is_user (ms ! (i + ?n))" by simp
    with True show ?thesis by (intro ahead [of "i + ?n"]) (simp_all add: align_to_user_turn_def Let_def)
  next
    case False
    show ?thesis
    proof (cases "back_to_user ms (min i (length ms))")
      case None
      with False le show ?thesis by (intro end_of) (simp add: align_to_user_turn_def Let_def)
    next
      case (Some b)
      with False back_to_user_Some [OF Some] show ?thesis
        by (intro behind [of b]) (simp_all add: align_to_user_turn_def Let_def)
    qed
  qed
qed

lemma user_not_tool: "is_user m \<Longrightarrow> \<not> is_tool_message m"
  by (cases m) simp_all

lemma align_keeps_valid:
  assumes "wire_valid [] ms" and "i \<le> length ms"
  shows "align_to_user_turn ms i \<le> length ms
    \<and> (align_to_user_turn ms i = length ms \<or> is_user (ms ! align_to_user_turn ms i))
    \<and> wire_valid [] (drop (align_to_user_turn ms i) ms)"
  using assms(2)
proof (cases rule: align_cases)
  case (ahead k)
  then show ?thesis using wire_valid_suffix [OF assms(1), of k] user_not_tool by simp
next
  case (behind k)
  then show ?thesis using assms(2) by simp
qed simp

end
