(* ===== verification/ToolHistoryProperties.thy ===== *)
theory ToolHistoryProperties
  imports ToolHistoryRepair
begin

text \<open>
  The properties of the message-history code (\<open>compaction/dangling.ts\<close>), with the
  example histories their witnesses run on.
\<close>

definition ex_call :: "string \<Rightarrow> tool_call" where
  "ex_call i = \<lparr>call_id = i, call_name = ''read'', call_arguments = ''{}''\<rparr>"

text \<open>Call \<open>b\<close> is unanswered, call \<open>a\<close> has two results, and the last result has no owner.\<close>

definition ex_broken :: "message list" where
  "ex_broken =
     [UserMessage ''go'' None,
      AssistantMessage None [ex_call ''a'', ex_call ''b''] None,
      ToolMessage ''a'' ''cancelled'' True None,
      ToolMessage ''a'' ''done'' False None,
      UserMessage ''next'' None,
      ToolMessage ''a'' ''late'' False None,
      AssistantMessage (Some ''ok'') [] None]"

definition ex_history :: "message list" where
  "ex_history =
     [UserMessage ''go'' None,
      AssistantMessage None [ex_call ''a''] None,
      ToolMessage ''a'' ''done'' False None,
      UserMessage ''next'' None,
      AssistantMessage (Some ''ok'') [] None]"

subsection \<open>The scan\<close>

text \<open>C25: The scan calls a history valid exactly when the provider's rule accepts it: every result stands in the run after its own call, one for each call, and no call id is empty or reused.\<close>

theorem dangling_scan_exact:
  "is_valid (find_dangling_messages ms) \<longleftrightarrow> wire_valid [] ms"
  by (rule valid_iff_wire)

subsection \<open>Removal\<close>

text \<open>Removing the dangling messages of any history leaves a history the provider accepts, made of messages of the input in their order, with every message kept that neither calls a tool nor answers a call; doing it again changes nothing.\<close>

theorem removal_yields_valid:
  "wire_valid [] (remove_dangling_messages ms)
   \<and> subseq (remove_dangling_messages ms) ms
   \<and> filter plain (remove_dangling_messages ms) = filter plain ms
   \<and> remove_dangling_messages (remove_dangling_messages ms) = remove_dangling_messages ms"
proof -
  have v: "wire_valid [] (remove_dangling_messages ms)" by (simp add: remove_clean clean_valid)
  then have "remove_dangling_messages (remove_dangling_messages ms) = remove_dangling_messages ms"
    by (subst remove_clean) simp
  with v show ?thesis by (simp add: remove_clean clean_subseq clean_plain)
qed

text \<open>The removal does not remove the minimum: where a complete exchange reuses the call id of an exchange that is removed for its missing result, the complete one is removed too, although keeping it is valid.\<close>

theorem removal_is_not_minimal:
  "let incomplete = AssistantMessage None [ex_call ''a''] None;
       exchange = [AssistantMessage None [ex_call ''a''] None, ToolMessage ''a'' ''done'' False None]
   in wire_valid [] exchange \<and> remove_dangling_messages (incomplete # UserMessage ''go'' None # exchange)
       = [UserMessage ''go'' None]"
  by code_simp

subsection \<open>Repair\<close>

text \<open>C26: A repair that returns gives a history the provider accepts. Every message stays, in its order and unchanged, but the
  results that a later one of their run supersedes and those no call owns, and added is one error result for each call without a
  result and nothing else; the report counts exactly the superseded, the unowned, the added, and of these the ones for calls known not to have
  run. Repairing the repaired history returns it with a report of no change.\<close>

theorem repair_yields_valid:
  assumes "repair_tool_message_history never_ran ms = Inr (out, report)"
  shows "wire_valid [] out
    \<and> filter (\<lambda>m. \<not> is_tool_message m) out = filter (\<lambda>m. \<not> is_tool_message m) ms
    \<and> subseq (staying ms (fates None ms)) out
    \<and> mset out = mset (staying ms (fates None ms)) + mset (map (inserted_result never_ran) (open_calls ms))
    \<and> duplicates_removed report = count_list (fates None ms) Superseded
    \<and> orphans_removed report = count_list (fates None ms) Unowned
    \<and> synthetic_inserted report = length (open_calls ms)
    \<and> never_ran_inserted report = length (filter (\<lambda>(m, c). never_ran (call_id c)) (open_calls ms))
    \<and> (\<exists>again. repair_tool_message_history never_ran out = Inr (out, again) \<and> \<not> tool_history_repair_changed again)"
proof -
  have r: "repair_from never_ran 0 ms = (out, report)" and ok: "ids_ok [] ms"
    using assms validate_iff [of 0 "[]" ms] by (auto simp: repair_tool_message_history_def result_simps)
  have v: "wire_valid [] out" using repair_valid [OF ok, of never_ran 0] r by simp
  obtain s where s: "validate_tool_call_ids 0 [] out = Inr s"
    using validate_iff [of 0 "[]" out] valid_ids_ok [OF v] by blast
  have "repair_tool_message_history never_ran out = Inr (out, snd (repair_from never_ran 0 out))"
    using s repair_fixed [OF v, of never_ran 0]
    by (simp add: repair_tool_message_history_def) (metis prod.collapse)
  then show ?thesis
    using v r repair_unchanged [OF v] repair_non_tools [of never_ran 0 ms]
      repair_does [of never_ran ms 0] by (auto simp: repaired_as_def)
qed

theorem repair_yields_valid_witness:
  "\<exists>out report. repair_tool_message_history (\<lambda>i. i = ''b'') ex_broken = Inr (out, report) \<and> wire_valid [] out
     \<and> length out = 6 \<and> duplicates_removed report = 1 \<and> orphans_removed report = 1 \<and> never_ran_inserted report = 1
     \<and> map (call_id \<circ> snd) (open_calls ex_broken) = [''b'']"
proof -
  have e: "\<exists>out report. repair_tool_message_history (\<lambda>i. i = ''b'') ex_broken = Inr (out, report)
      \<and> length out = 6 \<and> duplicates_removed report = 1 \<and> orphans_removed report = 1 \<and> never_ran_inserted report = 1"
    by (simp add: ex_broken_def ex_call_def repair_tool_message_history_def call_ids_def has_tool_calls_def
        last_result_def upt_conv_Cons)
  then obtain out report where r: "repair_tool_message_history (\<lambda>i. i = ''b'') ex_broken = Inr (out, report)"
    "length out = 6" "duplicates_removed report = 1" "orphans_removed report = 1" "never_ran_inserted report = 1" by blast
  have "wire_valid [] out" using repair_yields_valid [OF r(1)] by (rule conjunct1)
  moreover have "map (call_id \<circ> snd) (open_calls ex_broken) = [''b'']" by code_simp
  ultimately show ?thesis using r by (intro exI conjI)
qed

text \<open>The repair goes through exactly when no call id of the history is empty and none is used twice, whatever its results are.\<close>

theorem repair_refuses_only_bad_ids:
  "(\<exists>r. repair_tool_message_history never_ran ms = Inr r)
   \<longleftrightarrow> [] \<notin> set (concat (map call_ids ms)) \<and> distinct (concat (map call_ids ms))"
proof -
  have "(\<exists>s. validate_tool_call_ids 0 [] ms = Inr s) \<longleftrightarrow> ids_ok [] ms" by (rule validate_iff)
  then show ?thesis
    by (cases "validate_tool_call_ids 0 [] ms")
      (auto simp: repair_tool_message_history_def ids_ok_def Let_def)
qed

subsection \<open>Trimming\<close>

text \<open>C27: The trim point chosen in a history the provider accepts is within it, and what is kept from there on is again acceptable and begins with a user message, whatever target was asked for.\<close>

theorem trim_keeps_valid:
  assumes "wire_valid [] ms"
  shows "find_safe_trim_index ms target \<le> length ms
    \<and> (find_safe_trim_index ms target = length ms \<or> is_user (ms ! find_safe_trim_index ms target))
    \<and> wire_valid [] (drop (find_safe_trim_index ms target) ms)"
proof (cases "nat (max 0 (min target (int (length ms)))) \<ge> length ms")
  case True
  then show ?thesis by (simp add: find_safe_trim_index_def Let_def)
next
  case False
  let ?i = "min (trim_loop ms (length ms) (nat (max 0 (min target (int (length ms)))))) (length ms)"
  have r: "find_safe_trim_index ms target = align_to_user_turn ms ?i"
    by (simp only: find_safe_trim_index_def Let_def False if_False)
  have "?i \<le> length ms" by simp
  then show ?thesis unfolding r by (rule align_keeps_valid [OF assms])
qed

theorem trim_keeps_valid_witness:
  "find_safe_trim_index ex_history 2 = 3 \<and> wire_valid [] (drop (find_safe_trim_index ex_history 2) ex_history)"
proof -
  have v: "wire_valid [] ex_history" by code_simp
  have "find_safe_trim_index ex_history 2 = 3" by code_simp
  then show ?thesis using trim_keeps_valid [OF v, of 2] by simp
qed

text \<open>A target that is already a user message of an acceptable history is kept as the trim point.\<close>

theorem trim_keeps_user_boundary:
  assumes "wire_valid [] ms" and "k < length ms" and "is_user (ms ! k)"
  shows "find_safe_trim_index ms (int k) = k"
proof -
  have "wire_valid [] (take k ms)" using wire_valid_prefix [OF assms(1,2)] user_not_tool [OF assms(3)] .
  then have "trim_loop ms (length ms) k = k"
    using assms(2) user_not_tool [OF assms(3)] by (cases "length ms") (simp_all add: valid_iff_wire)
  moreover have "takeWhile (\<lambda>m. \<not> is_user m) (drop k ms) = []"
    using assms(2,3) by (simp add: Cons_nth_drop_Suc [symmetric])
  ultimately show ?thesis
    using assms(2) by (simp add: find_safe_trim_index_def align_to_user_turn_def)
qed

theorem trim_keeps_user_boundary_witness: "find_safe_trim_index ex_history (int 3) = 3"
  by (rule trim_keeps_user_boundary) code_simp+

end
