(* ===== verification/AuthGateProperties.thy ===== *)
theory AuthGateProperties
  imports AuthGate
begin

text \<open>
  The gate without its indices: the patterns and names a rule is evaluated with are those the rule
  itself gives, and the evaluation is the search for the first rule with a decision.
  Then the properties of the authorization gate: which rule decides, what no rule can open, what an
  allowance of a command line claims, what a restriction reaches, and what the default for
  read-only tools comes after.
\<close>

subsection \<open>A rule on its own\<close>

definition own_pattern :: "regexp \<Rightarrow> rule \<Rightarrow> pattern option" where
  "own_pattern re r = (case r of
      Custom_pattern p _ _ \<Rightarrow> if length p > max_custom_pattern_length then None else re p
    | Argument_pattern _ _ p _ \<Rightarrow> if length p > max_custom_pattern_length then None else re p
    | _ \<Rightarrow> None)"

definition own_names :: "regexp \<Rightarrow> rule \<Rightarrow> string list option" where
  "own_names re r = (case r of
      Argument_pattern ns _ p _ \<Rightarrow> if own_pattern re r = None then None else Some ns
    | Allow_by_name ns \<Rightarrow> Some ns
    | Deny_by_name ns \<Rightarrow> Some ns
    | _ \<Rightarrow> None)"

lemma index_rule_at:
  "fst (index_rule re i r idx) j = (if j = i \<and> own_pattern re r \<noteq> None then own_pattern re r else fst idx j)"
  "snd (index_rule re i r idx) j = (if j = i \<and> own_names re r \<noteq> None then own_names re r else snd idx j)"
  by (cases idx; cases r; auto simp: index_rule_def own_pattern_def own_names_def split: option.splits)+

lemma index_rules_before:
  "j < i \<Longrightarrow> fst (index_rules re i rs idx) j = fst idx j \<and> snd (index_rules re i rs idx) j = snd idx j"
  by (induction rs arbitrary: i idx) (auto simp: index_rule_at)

lemma index_rules_at:
  assumes "\<forall>j \<ge> i. fst idx j = None \<and> snd idx j = None" "k < length rs"
  shows "fst (index_rules re i rs idx) (i + k) = own_pattern re (rs ! k)
    \<and> snd (index_rules re i rs idx) (i + k) = own_names re (rs ! k)"
  using assms
proof (induction rs arbitrary: i idx k)
  case (Cons r rs)
  have fresh: "\<forall>j \<ge> Suc i. fst (index_rule re i r idx) j = None \<and> snd (index_rule re i r idx) j = None"
    using Cons.prems(1) by (simp add: index_rule_at)
  show ?case
  proof (cases k)
    case 0
    then show ?thesis using Cons.prems(1) by (auto simp: index_rules_before index_rule_at)
  next
    case (Suc m)
    then show ?thesis using Cons.IH [OF fresh, of m] Cons.prems(2) by simp
  qed
qed simp

text \<open>What a rule says of a call.\<close>

definition rule_verdict :: "regexp \<Rightarrow> lexer \<Rightarrow> call_context \<Rightarrow> rule \<Rightarrow> gate_decision option answer" where
  "rule_verdict re rd ctx r = evaluate_rule re rd r (cc_tool_name ctx) (cc_tool_input ctx) (cc_tool_def ctx)
    (own_pattern re r) (own_names re r) \<lparr>ro_dialect = cc_dialect ctx, ro_source = cc_source ctx\<rparr>"

fun first_verdict :: "regexp \<Rightarrow> lexer \<Rightarrow> call_context \<Rightarrow> rule list \<Rightarrow> gate_result answer" where
  "first_verdict re rd ctx [] = Answered \<lparr>gr_decision = Review, gr_rule = None, gr_reason = No_matching_rule\<rparr>"
| "first_verdict re rd ctx (r # rs) = (case rule_verdict re rd ctx r of
      Threw \<Rightarrow> Threw
    | Answered None \<Rightarrow> first_verdict re rd ctx rs
    | Answered (Some d) \<Rightarrow> Answered \<lparr>gr_decision = d, gr_rule = Some r, gr_reason = describe_rule r ctx\<rparr>)"

lemma evaluate_from_first:
  assumes "\<forall>k < length rs. ga_compiled G (i + k) = own_pattern re (rs ! k) \<and> ga_names G (i + k) = own_names re (rs ! k)"
  shows "evaluate_from re rd G ctx i rs = first_verdict re rd ctx rs"
  using assms
proof (induction rs arbitrary: i)
  case (Cons r rs)
  have "ga_compiled G i = own_pattern re r" "ga_names G i = own_names re r"
    using Cons.prems [THEN spec, of 0] by simp_all
  moreover have "evaluate_from re rd G ctx (Suc i) rs = first_verdict re rd ctx rs"
  proof (rule Cons.IH, intro allI impI)
    fix k assume "k < length rs"
    then show "ga_compiled G (Suc i + k) = own_pattern re (rs ! k) \<and> ga_names G (Suc i + k) = own_names re (rs ! k)"
      using Cons.prems [THEN spec, of "Suc k"] by simp
  qed
  ultimately show ?case by (simp add: rule_verdict_def split: answer.splits option.splits)
qed simp

theorem evaluate_first:
  assumes "new_gate re cfg = Some G"
  shows "evaluate re rd G ctx = (if gc_enabled cfg then first_verdict re rd ctx (expanded_rules cfg)
    else Answered \<lparr>gr_decision = Review, gr_rule = None, gr_reason = Gate_disabled\<rparr>)"
proof -
  have G: "ga_rules G = expanded_rules cfg" "ga_enabled G = gc_enabled cfg"
    "ga_compiled G = fst (index_rules re 0 (expanded_rules cfg) (Map.empty, Map.empty))"
    "ga_names G = snd (index_rules re 0 (expanded_rules cfg) (Map.empty, Map.empty))"
    using assms by (auto simp: new_gate_def Let_def split: if_splits prod.splits)
  have "evaluate_from re rd G ctx 0 (ga_rules G) = first_verdict re rd ctx (ga_rules G)"
    by (rule evaluate_from_first) (simp add: G index_rules_at [where i = 0, simplified])
  then show ?thesis by (simp add: evaluate_def G)
qed

text \<open>The first decision, said without a search.\<close>

definition passes :: "regexp \<Rightarrow> lexer \<Rightarrow> call_context \<Rightarrow> rule list \<Rightarrow> bool" where
  "passes re rd ctx rs \<longleftrightarrow> (\<forall>r \<in> set rs. rule_verdict re rd ctx r = Answered None)"

lemma first_verdict_append:
  "passes re rd ctx pre \<Longrightarrow> first_verdict re rd ctx (pre @ rs) = first_verdict re rd ctx rs"
  by (induction pre) (auto simp: passes_def)

lemma first_verdict_decides:
  "passes re rd ctx pre \<Longrightarrow> rule_verdict re rd ctx r = Answered (Some d)
    \<Longrightarrow> first_verdict re rd ctx (pre @ r # post) = Answered \<lparr>gr_decision = d, gr_rule = Some r, gr_reason = describe_rule r ctx\<rparr>"
  by (simp add: first_verdict_append)

lemma first_verdict_cases:
  assumes "first_verdict re rd ctx rs = Answered g"
  obtains (by_default) "passes re rd ctx rs" "g = \<lparr>gr_decision = Review, gr_rule = None, gr_reason = No_matching_rule\<rparr>"
  | (by_rule) pre r post d where "rs = pre @ r # post" "passes re rd ctx pre" "rule_verdict re rd ctx r = Answered (Some d)"
      "g = \<lparr>gr_decision = d, gr_rule = Some r, gr_reason = describe_rule r ctx\<rparr>"
proof -
  have "(passes re rd ctx rs \<and> g = \<lparr>gr_decision = Review, gr_rule = None, gr_reason = No_matching_rule\<rparr>)
    \<or> (\<exists>pre r post d. rs = pre @ r # post \<and> passes re rd ctx pre \<and> rule_verdict re rd ctx r = Answered (Some d)
        \<and> g = \<lparr>gr_decision = d, gr_rule = Some r, gr_reason = describe_rule r ctx\<rparr>)"
    using assms
  proof (induction rs)
    case (Cons r rs)
    consider d where "rule_verdict re rd ctx r = Answered (Some d)" | "rule_verdict re rd ctx r = Answered None"
      using Cons.prems by (auto split: answer.splits option.splits)
    then show ?case
    proof cases
      case 1
      then have "r # rs = [] @ r # rs \<and> passes re rd ctx [] \<and> rule_verdict re rd ctx r = Answered (Some d)
        \<and> g = \<lparr>gr_decision = d, gr_rule = Some r, gr_reason = describe_rule r ctx\<rparr>"
        using Cons.prems by (simp add: passes_def)
      then show ?thesis by blast
    next
      case 2
      then have "first_verdict re rd ctx rs = Answered g" using Cons.prems by simp
      from Cons.IH [OF this] show ?thesis
      proof (elim disjE exE conjE)
        fix pre r' post d
        assume *: "rs = pre @ r' # post" "passes re rd ctx pre" "rule_verdict re rd ctx r' = Answered (Some d)"
          "g = \<lparr>gr_decision = d, gr_rule = Some r', gr_reason = describe_rule r' ctx\<rparr>"
        from * 2 have "r # rs = (r # pre) @ r' # post \<and> passes re rd ctx (r # pre)
          \<and> rule_verdict re rd ctx r' = Answered (Some d)
          \<and> g = \<lparr>gr_decision = d, gr_rule = Some r', gr_reason = describe_rule r' ctx\<rparr>"
          by (simp add: passes_def)
        then show ?thesis by blast
      qed (use 2 in \<open>simp add: passes_def\<close>)
    qed
  qed (simp add: passes_def)
  then show ?thesis using that by blast
qed

subsection \<open>Which rule decides\<close>

text \<open>C5: The gate decides by the first rule that has a decision, with the floor before the operator's rules and
  the default for read-only tools after them; a call no rule decides is reviewed.\<close>

theorem first_rule_decides:
  assumes "new_gate re cfg = Some G" "gc_enabled cfg"
  shows "evaluate re rd G ctx = Answered g \<longleftrightarrow>
    (passes re rd ctx (expanded_rules cfg) \<and> g = \<lparr>gr_decision = Review, gr_rule = None, gr_reason = No_matching_rule\<rparr>)
    \<or> (\<exists>pre r post d. expanded_rules cfg = pre @ r # post \<and> passes re rd ctx pre
        \<and> rule_verdict re rd ctx r = Answered (Some d)
        \<and> g = \<lparr>gr_decision = d, gr_rule = Some r, gr_reason = describe_rule r ctx\<rparr>)"
    (is "?e \<longleftrightarrow> ?r")
proof
  assume ?e
  then have "first_verdict re rd ctx (expanded_rules cfg) = Answered g"
    using evaluate_first [OF assms(1)] assms(2) by simp
  then show ?r by (rule first_verdict_cases) blast+
next
  assume ?r
  then have "first_verdict re rd ctx (expanded_rules cfg) = Answered g"
    using first_verdict_append [where rs = "[]"] first_verdict_decides by fastforce
  then show ?e using evaluate_first [OF assms(1)] assms(2) by simp
qed

text \<open>An engine for the witnesses: a pattern is a text to find anywhere, or at the start after a caret; a lone
  parenthesis is no pattern. Its reader of lines takes what stands between semicolons for commands.\<close>

definition occurs_in :: "string \<Rightarrow> string \<Rightarrow> bool" where
  "occurs_in p s \<longleftrightarrow> list_ex (\<lambda>n. starts_with p (drop n s)) [0..<Suc (length s)]"

definition demo_regexp :: regexp where
  "demo_regexp p = (case p of
      [] \<Rightarrow> Some (\<lambda>s. True)
    | c # q \<Rightarrow> if p = ''('' then None else if c = CHR ''^'' then Some (starts_with q) else Some (occurs_in p))"

definition demo_command :: "string \<Rightarrow> shell_command" where
  "demo_command s = \<lparr>sc_words = map (\<lambda>w. \<lparr>sw_text = w, sw_value = filter (\<lambda>c. c \<noteq> CHR 0x27) w, sw_expands = False\<rparr>) (split_spaces s),
    sc_assignments = 0, sc_text = s, sc_origin = In_line\<rparr>"

definition demo_lexer :: lexer where
  "demo_lexer s d = \<lparr>lx_commands = map (\<lambda>p. demo_command (trim p)) (split_on (CHR '';'') s), lx_redirections = [],
    lx_opaque = (CHR ''`'' \<in> set s), lx_complete = True, lx_reasons = []\<rparr>"

definition bash_tool :: tool_def where
  "bash_tool = \<lparr>td_command_argument = Some ''command'', td_path_argument = None, td_url_argument = None,
    td_category = Some ''shell'', td_tier = None, td_is_read_only = Some (\<lambda>v. Some False), td_captures_screen = None\<rparr>"

definition run_bash :: "string \<Rightarrow> call_context" where
  "run_bash line = \<lparr>cc_tool_name = ''bash'', cc_tool_input = V_object [(''command'', V_string line)],
    cc_tool_def = Some bash_tool, cc_dialect = Some Bash, cc_source = None\<rparr>"

definition demo_config :: gate_config where
  "demo_config = \<lparr>gc_enabled = True,
    gc_rules = [Argument_pattern [''bash''] ''command'' ''^git push'' Deny,
                Argument_pattern [''bash''] ''command'' ''^git'' Allow],
    gc_allow_read_only = True, gc_exclude_categories = None, gc_deny_dangerous = True\<rparr>"

definition demo_gate :: gate where
  "demo_gate = the (new_gate demo_regexp demo_config)"

lemma demo_gate_new: "new_gate demo_regexp demo_config = Some demo_gate"
proof -
  have "new_gate demo_regexp demo_config \<noteq> None"
    by (simp add: new_gate_def demo_config_def rule_schema_def max_custom_pattern_length_def Let_def split: prod.splits)
  then show ?thesis by (simp add: demo_gate_def)
qed

lemma demo_expanded: "expanded_rules demo_config =
    [Deny_dangerous_patterns, Argument_pattern [''bash''] ''command'' ''^git push'' Deny,
     Argument_pattern [''bash''] ''command'' ''^git'' Allow, Allow_read_only None]"
  by (simp add: expanded_rules_def demo_config_def)

theorem first_rule_decides_witness:
  "evaluate demo_regexp demo_lexer demo_gate (run_bash ''git status'')
    = Answered \<lparr>gr_decision = Allow, gr_rule = Some (Argument_pattern [''bash''] ''command'' ''^git'' Allow),
        gr_reason = Rule_reason (Argument_pattern [''bash''] ''command'' ''^git'' Allow)\<rparr>"
proof -
  let ?r = "Argument_pattern [''bash''] ''command'' ''^git'' Allow"
  let ?pre = "[Deny_dangerous_patterns, Argument_pattern [''bash''] ''command'' ''^git push'' Deny]"
  have p: "passes demo_regexp demo_lexer (run_bash ''git status'') ?pre"
    unfolding passes_def by code_simp
  have v: "rule_verdict demo_regexp demo_lexer (run_bash ''git status'') ?r = Answered (Some Allow)"
    by code_simp
  have "expanded_rules demo_config = ?pre @ ?r # [Allow_read_only None]" by (simp add: demo_expanded)
  with p v have "\<exists>pre r post d. expanded_rules demo_config = pre @ r # post
      \<and> passes demo_regexp demo_lexer (run_bash ''git status'') pre
      \<and> rule_verdict demo_regexp demo_lexer (run_bash ''git status'') r = Answered (Some d)
      \<and> \<lparr>gr_decision = Allow, gr_rule = Some ?r, gr_reason = Rule_reason ?r\<rparr>
        = \<lparr>gr_decision = d, gr_rule = Some r, gr_reason = describe_rule r (run_bash ''git status'')\<rparr>"
    by (intro exI conjI) (assumption+, simp add: describe_rule_def)
  then show ?thesis
    using first_rule_decides [OF demo_gate_new, where ctx = "run_bash ''git status''"] by (simp add: demo_config_def)
qed

subsection \<open>The floor\<close>

text \<open>Whatever rules an operator writes, and whatever the tool declares of itself, a call that executes a text
  with a dangerous pattern in it is denied once the floor is on.\<close>

theorem dangerous_text_denied:
  assumes "new_gate re cfg = Some G" "gc_enabled cfg" "gc_deny_dangerous cfg"
    and "executed_text (cc_tool_def ctx) (cc_tool_input ctx) = Some text"
    and "p \<in> set dangerous_patterns" "re p = Some test" "test text"
  shows "evaluate re rd G ctx = Answered \<lparr>gr_decision = Deny, gr_rule = Some Deny_dangerous_patterns,
    gr_reason = Rule_reason Deny_dangerous_patterns\<rparr>"
proof -
  have "rule_verdict re rd ctx Deny_dangerous_patterns = Answered (Some Deny)"
    using assms(4-7) by (auto simp: rule_verdict_def evaluate_rule_def test_source_def list_ex_iff intro!: bexI [of _ p])
  then have "first_verdict re rd ctx (expanded_rules cfg) = Answered \<lparr>gr_decision = Deny,
      gr_rule = Some Deny_dangerous_patterns, gr_reason = Rule_reason Deny_dangerous_patterns\<rparr>"
    using assms(3) by (simp add: expanded_rules_def describe_rule_def)
  then show ?thesis using evaluate_first [OF assms(1)] assms(2) by simp
qed

theorem dangerous_text_denied_witness:
  "evaluate demo_regexp demo_lexer demo_gate (run_bash ''git status; mkfs /dev/sda'')
    = Answered \<lparr>gr_decision = Deny, gr_rule = Some Deny_dangerous_patterns, gr_reason = Rule_reason Deny_dangerous_patterns\<rparr>"
proof (rule dangerous_text_denied [OF demo_gate_new])
  show "executed_text (cc_tool_def (run_bash ''git status; mkfs /dev/sda'')) (cc_tool_input (run_bash ''git status; mkfs /dev/sda''))
    = Some ''git status; mkfs /dev/sda''" by code_simp
  show "''mkfs'' \<in> set dangerous_patterns" by (simp add: dangerous_patterns_def)
  show "demo_regexp ''mkfs'' = Some (occurs_in ''mkfs'')" by (simp add: demo_regexp_def)
  show "occurs_in ''mkfs'' ''git status; mkfs /dev/sda''" by code_simp
qed (simp_all add: demo_config_def)

subsection \<open>Command lines\<close>

text \<open>What an argument pattern says of a subject that is neither a declared path nor a declared URL.\<close>

abbreviation dialect_of :: "call_context \<Rightarrow> dialect" where
  "dialect_of ctx \<equiv> (case cc_dialect ctx of Some d \<Rightarrow> d | None \<Rightarrow> Sh)"

lemma argument_rule_verdict:
  "rule_verdict re rd ctx (Argument_pattern ns argument p decision) = Answered (Some d) \<Longrightarrow>
    \<exists>test subject. re p = Some test \<and> length p \<le> max_custom_pattern_length \<and> cc_tool_name ctx \<in> set ns
      \<and> argument_subject (cc_tool_input ctx) argument = Some subject
      \<and> (if declared_path (cc_tool_def ctx) (cc_tool_input ctx) argument then d = decision \<and> test subject
         else pattern_verdict rd test decision (Option.bind (cc_tool_def ctx) td_url_argument = Some argument)
           (dialect_of ctx) subject = Some d)"
  by (auto simp: rule_verdict_def evaluate_rule_def argument_pattern_verdict_def own_pattern_def own_names_def
      split: option.splits if_splits)

lemma pattern_verdict_decision: "pattern_verdict rd test decision url d s = Some d' \<Longrightarrow> d' = decision"
  by (auto simp: pattern_verdict_def Let_def split: if_splits)

text \<open>C7: A call that a pattern for its command line allows is allowed for every command of the line: the lexer
  accounts for the whole line, no command runs text assembled at run time, and the pattern matches the line
  as it stands or each of its commands.\<close>

theorem allow_covers_whole_line:
  assumes "new_gate re cfg = Some G" "evaluate re rd G ctx = Answered g" "gr_decision g = Allow"
    and "gr_rule g = Some (Argument_pattern ns argument p decision)"
    and "Option.bind (cc_tool_def ctx) td_command_argument = Some argument"
    and "Option.bind (cc_tool_def ctx) td_url_argument \<noteq> Some argument"
  shows "\<exists>line test. argument_subject (cc_tool_input ctx) argument = Some line \<and> re p = Some test
    \<and> cc_tool_name ctx \<in> set ns \<and> \<not> lx_opaque (rd line (dialect_of ctx))
    \<and> (\<forall>c \<in> set (lx_commands (rd line (dialect_of ctx))). \<not> evaluates_at_runtime c
         \<and> (lx_complete (rd line (dialect_of ctx)) \<longrightarrow>
              test (sc_text c) \<or> (lx_commands (rd line (dialect_of ctx)) = [c] \<and> sc_text c = trim line \<and> test line)))
    \<and> (lx_complete (rd line (dialect_of ctx)) \<or> test line)"
proof -
  let ?r = "Argument_pattern ns argument p decision"
  have en: "gc_enabled cfg" using evaluate_first [OF assms(1)] assms(2,4) by (auto split: if_splits)
  have "rule_verdict re rd ctx ?r = Answered (Some Allow)"
    using assms(2)[unfolded first_rule_decides [OF assms(1) en]] assms(3,4) by auto
  from argument_rule_verdict [OF this] obtain test line where t: "re p = Some test" "cc_tool_name ctx \<in> set ns"
      "argument_subject (cc_tool_input ctx) argument = Some line"
    and v: "pattern_verdict rd test decision False (dialect_of ctx) line = Some Allow"
    using assms(5,6) by (auto simp: declared_path_def split: option.splits if_splits)
  have dec: "decision = Allow" using pattern_verdict_decision [OF v] by simp
  let ?dc = "decompose_command_line rd line (dialect_of ctx)"
  have op: "\<not> dc_opaque ?dc" and all: "list_all test (dc_segments ?dc)"
    using v dec by (auto simp: pattern_verdict_def Let_def split: if_splits)
  have clear: "\<not> lx_opaque (rd line (dialect_of ctx))" "\<And>c. c \<in> set (lx_commands (rd line (dialect_of ctx))) \<Longrightarrow> \<not> evaluates_at_runtime c"
    using decompose_opaque [OF op] by (auto simp: list_ex_iff)
  have covered: "test (sc_text c) \<or> (lx_commands (rd line (dialect_of ctx)) = [c] \<and> sc_text c = trim line \<and> test line)"
    if "c \<in> set (lx_commands (rd line (dialect_of ctx)))" "lx_complete (rd line (dialect_of ctx))" for c
    using decompose_covers [OF op that] all by (auto simp: list_all_iff)
  have whole: "lx_complete (rd line (dialect_of ctx)) \<or> test line"
    using all by (auto simp: decompose_command_line_def Let_def split: if_splits)
  show ?thesis using t clear covered whole by blast
qed

theorem allow_covers_whole_line_witness:
  "\<exists>line test. argument_subject (cc_tool_input (run_bash ''git status'')) ''command'' = Some line \<and> demo_regexp ''^git'' = Some test
    \<and> \<not> lx_opaque (demo_lexer line Bash)"
proof -
  have "Option.bind (cc_tool_def (run_bash ''git status'')) td_command_argument = Some ''command''"
    "Option.bind (cc_tool_def (run_bash ''git status'')) td_url_argument \<noteq> Some ''command''"
    by (simp_all add: run_bash_def bash_tool_def)
  from allow_covers_whole_line [OF demo_gate_new first_rule_decides_witness _ _ this]
  show ?thesis by (simp add: run_bash_def) blast
qed

text \<open>C6: A restriction reaches every command of a line however it is quoted: when no earlier rule decides, a
  deny or review pattern for the tool that matches the line, or the words of any of its commands as the shell passes
  them, with or without the assignments in front, decides the call.\<close>

theorem restriction_reaches_every_command:
  assumes "new_gate re cfg = Some G" "gc_enabled cfg"
    and "expanded_rules cfg = pre @ Argument_pattern ns argument p decision # post" "passes re rd ctx pre"
    and "decision \<noteq> Allow" "re p = Some test" "length p \<le> max_custom_pattern_length" "cc_tool_name ctx \<in> set ns"
    and "cc_tool_input ctx = V_object fs" "property (cc_tool_input ctx) argument = V_string line"
    and "Option.bind (cc_tool_def ctx) td_command_argument = Some argument"
    and "Option.bind (cc_tool_def ctx) td_url_argument \<noteq> Some argument"
    and "test line \<or> (\<exists>c \<in> set (lx_commands (rd line (dialect_of ctx))). \<exists>t \<in> set (decoded_command c). test t)"
  shows "\<exists>g. evaluate re rd G ctx = Answered g \<and> gr_decision g = decision"
proof -
  let ?r = "Argument_pattern ns argument p decision"
  have s: "argument_subject (cc_tool_input ctx) argument = Some line"
    using assms(9,10) by (simp add: argument_subject_def)
  have np: "\<not> declared_path (cc_tool_def ctx) (cc_tool_input ctx) argument"
    using assms(11) by (auto simp: declared_path_def split: option.splits)
  have "test line \<or> list_ex test (decoded_commands rd line (dialect_of ctx))"
    using assms(13) by (auto simp: decoded_commands_def list_ex_iff)
  then have "pattern_verdict rd test decision False (dialect_of ctx) line = Some decision"
    using assms(5) by (auto simp: pattern_verdict_def Let_def)
  then have "rule_verdict re rd ctx ?r = Answered (Some decision)"
    using assms(6,7,8,12) s np
    by (simp add: rule_verdict_def evaluate_rule_def argument_pattern_verdict_def own_pattern_def own_names_def)
  from first_verdict_decides [OF assms(4) this, of post] show ?thesis
    using evaluate_first [OF assms(1)] assms(2,3) by simp
qed

theorem restriction_reaches_every_command_witness:
  "\<exists>g. evaluate demo_regexp demo_lexer demo_gate (run_bash [CHR ''l'', CHR ''s'', CHR '';'', CHR 0x27, CHR ''g'', CHR ''i'', CHR ''t'', CHR 0x27,
      CHR '' '', CHR ''p'', CHR ''u'', CHR ''s'', CHR ''h'']) = Answered g \<and> gr_decision g = Deny"
proof -
  let ?line = "[CHR ''l'', CHR ''s'', CHR '';'', CHR 0x27, CHR ''g'', CHR ''i'', CHR ''t'', CHR 0x27, CHR '' '',
    CHR ''p'', CHR ''u'', CHR ''s'', CHR ''h'']"
  have e: "expanded_rules demo_config = [Deny_dangerous_patterns] @ Argument_pattern [''bash''] ''command'' ''^git push'' Deny
      # [Argument_pattern [''bash''] ''command'' ''^git'' Allow, Allow_read_only None]"
    by (simp add: demo_expanded)
  have p: "passes demo_regexp demo_lexer (run_bash ?line) [Deny_dangerous_patterns]" unfolding passes_def by code_simp
  have c: "list_ex (\<lambda>c. list_ex (starts_with ''git push'') (decoded_command c)) (lx_commands (demo_lexer ?line Bash))" by code_simp
  show ?thesis
  proof (rule restriction_reaches_every_command [OF demo_gate_new _ e p])
    show "demo_regexp ''^git push'' = Some (starts_with ''git push'')" by (simp add: demo_regexp_def)
    show "starts_with ''git push'' ?line \<or> (\<exists>c \<in> set (lx_commands (demo_lexer ?line (dialect_of (run_bash ?line)))).
        \<exists>t \<in> set (decoded_command c). starts_with ''git push'' t)"
      using c by (simp add: list_ex_iff run_bash_def)
  qed (simp_all add: demo_config_def run_bash_def bash_tool_def max_custom_pattern_length_def)
qed

subsection \<open>The default for read-only tools\<close>

text \<open>A call allowed as read-only is one the tool itself says only reads, with the word of a server counted only
  where the operator trusts it, on no excluded channel and showing no screen; and when the operator wrote
  no such rule, every rule they did write was asked first and passed.\<close>

theorem read_only_comes_last:
  assumes "new_gate re cfg = Some G" "evaluate re rd G ctx = Answered g" "gr_rule g = Some (Allow_read_only excluded)"
  shows "gr_decision g = Allow
    \<and> (\<exists>d f. cc_tool_def ctx = Some d \<and> td_is_read_only d = Some f \<and> f (cc_tool_input ctx) = Some True
        \<and> (\<forall>c. td_category d = Some c \<longrightarrow> c = [] \<or> c \<notin> set (case excluded of Some cs \<Rightarrow> cs | None \<Rightarrow> [])))
    \<and> (\<forall>s. cc_source ctx = Some s \<longrightarrow> ts_kind s = Mcp_server \<longrightarrow> ts_read_only_trusted s = Some True)
    \<and> \<not> captures_screen (cc_tool_def ctx) (cc_tool_input ctx)
    \<and> ((\<forall>ex. Allow_read_only ex \<notin> set (gc_rules cfg)) \<longrightarrow> passes re rd ctx (gc_rules cfg))"
proof -
  let ?r = "Allow_read_only excluded"
  have en: "gc_enabled cfg" using evaluate_first [OF assms(1)] assms(2,3) by (auto split: if_splits)
  obtain pre post d where e: "expanded_rules cfg = pre @ ?r # post" "passes re rd ctx pre"
      "rule_verdict re rd ctx ?r = Answered (Some d)" "gr_decision g = d"
    using assms(2)[unfolded first_rule_decides [OF assms(1) en]] assms(3) by auto
  have t: "is_trusted_read_only (cc_tool_def ctx) (cc_tool_input ctx) (cc_source ctx) = Some True"
    and d: "d = Allow" and screen: "\<not> captures_screen (cc_tool_def ctx) (cc_tool_input ctx)"
    and cat: "\<forall>c. Option.bind (cc_tool_def ctx) td_category = Some c \<longrightarrow> c = [] \<or> c \<notin> set (case excluded of Some cs \<Rightarrow> cs | None \<Rightarrow> [])"
    using e(3) by (auto simp: rule_verdict_def evaluate_rule_def split: option.splits bool.splits if_splits)
  have last: "passes re rd ctx (gc_rules cfg)" if "\<forall>ex. Allow_read_only ex \<notin> set (gc_rules cfg)"
  proof -
    let ?floor = "if gc_deny_dangerous cfg then [Deny_dangerous_patterns] else []"
    have n: "?r \<notin> set (?floor @ gc_rules cfg)" using that by auto
    let ?T = "if gc_allow_read_only cfg then [Allow_read_only (gc_exclude_categories cfg)] else []"
    have "pre @ ?r # post = (?floor @ gc_rules cfg) @ ?T"
      using e(1) by (simp add: expanded_rules_def)
    then obtain us where us: "(pre = (?floor @ gc_rules cfg) @ us \<and> us @ ?r # post = ?T)
        \<or> (pre @ us = ?floor @ gc_rules cfg \<and> ?r # post = us @ ?T)"
      unfolding append_eq_append_conv2 by blast
    have "pre = ?floor @ gc_rules cfg"
    proof (cases "pre = (?floor @ gc_rules cfg) @ us \<and> us @ ?r # post = ?T")
      case True
      then show ?thesis by (auto split: if_splits simp: Cons_eq_append_conv append_eq_Cons_conv)
    next
      case False
      then have f: "pre @ us = ?floor @ gc_rules cfg" "?r # post = us @ ?T" using us by blast+
      have "us = []"
      proof (rule ccontr)
        assume "us \<noteq> []"
        then have "?r \<in> set us" using f(2) by (cases us) auto
        then show False using n f(1) by (metis Un_iff set_append)
      qed
      then show ?thesis using f(1) by simp
    qed
    then show ?thesis using e(2) by (auto simp: passes_def)
  qed
  show ?thesis
    using t d screen cat last e(4)
    by (auto simp: is_trusted_read_only_def split: option.splits if_splits)
qed

definition reader_tool :: tool_def where
  "reader_tool = bash_tool\<lparr>td_command_argument := None, td_category := Some ''filesystem'', td_is_read_only := Some (\<lambda>v. Some True)\<rparr>"

definition read_notes :: call_context where
  "read_notes = \<lparr>cc_tool_name = ''read'', cc_tool_input = V_object [(''path'', V_string ''notes'')], cc_tool_def = Some reader_tool,
    cc_dialect = None, cc_source = Some \<lparr>ts_id = ''mcp:files'', ts_kind = Mcp_server, ts_read_only_trusted = Some True\<rparr>\<rparr>"

lemma read_notes_allowed:
  "evaluate demo_regexp demo_lexer demo_gate read_notes = Answered \<lparr>gr_decision = Allow, gr_rule = Some (Allow_read_only None),
    gr_reason = Rule_reason (Allow_read_only None)\<rparr>"
proof -
  have p: "passes demo_regexp demo_lexer read_notes [Deny_dangerous_patterns, Argument_pattern [''bash''] ''command'' ''^git push'' Deny,
     Argument_pattern [''bash''] ''command'' ''^git'' Allow]" unfolding passes_def by code_simp
  have v: "rule_verdict demo_regexp demo_lexer read_notes (Allow_read_only None) = Answered (Some Allow)" by code_simp
  have "evaluate demo_regexp demo_lexer demo_gate read_notes = first_verdict demo_regexp demo_lexer read_notes (expanded_rules demo_config)"
    unfolding evaluate_first [OF demo_gate_new] by (simp add: demo_config_def)
  also have "expanded_rules demo_config = [Deny_dangerous_patterns, Argument_pattern [''bash''] ''command'' ''^git push'' Deny,
     Argument_pattern [''bash''] ''command'' ''^git'' Allow] @ Allow_read_only None # []" by (simp add: demo_expanded)
  also note first_verdict_decides [OF p v, of "[]"]
  finally show ?thesis by (simp add: describe_rule_def)
qed

theorem read_only_comes_last_witness: "passes demo_regexp demo_lexer read_notes (gc_rules demo_config)"
  using read_only_comes_last [OF demo_gate_new read_notes_allowed] by (simp add: demo_config_def)

subsection \<open>Patterns that do not compile\<close>

text \<open>A pattern rule whose pattern is no regular expression.\<close>

definition broken :: "regexp \<Rightarrow> rule \<Rightarrow> bool" where
  "broken re r = (case r of Custom_pattern p _ _ \<Rightarrow> re p = None | Argument_pattern _ _ p _ \<Rightarrow> re p = None | _ \<Rightarrow> False)"

lemma broken_passes: "broken re r \<Longrightarrow> rule_verdict re rd ctx r = Answered None"
  by (cases r) (auto simp: broken_def rule_verdict_def evaluate_rule_def own_pattern_def argument_pattern_verdict_def)

lemma first_verdict_filter:
  "first_verdict re rd ctx (filter (\<lambda>r. \<not> broken re r) rs) = first_verdict re rd ctx rs"
  by (induction rs) (auto simp: broken_passes split: answer.splits option.splits)

text \<open>A rule whose pattern does not compile is as if it had not been written: the gate without it decides
  every call the same way, by the same rule, for the same reason.\<close>

theorem broken_patterns_are_absent:
  assumes "new_gate re cfg = Some G"
  shows "\<exists>H. new_gate re (cfg\<lparr>gc_rules := filter (\<lambda>r. \<not> broken re r) (gc_rules cfg)\<rparr>) = Some H
    \<and> (\<forall>ctx. evaluate re rd H ctx = evaluate re rd G ctx)"
proof -
  let ?cfg = "cfg\<lparr>gc_rules := filter (\<lambda>r. \<not> broken re r) (gc_rules cfg)\<rparr>"
  have "list_all rule_schema (gc_rules cfg)" using assms by (auto simp: new_gate_def split: if_splits)
  then have "new_gate re ?cfg \<noteq> None" by (auto simp: new_gate_def Let_def list_all_iff split: prod.splits)
  then obtain H where H: "new_gate re ?cfg = Some H" by auto
  have "expanded_rules ?cfg = filter (\<lambda>r. \<not> broken re r) (expanded_rules cfg)"
    by (auto simp: expanded_rules_def broken_def)
  then have "evaluate re rd H ctx = evaluate re rd G ctx" for ctx
    unfolding evaluate_first [OF H] evaluate_first [OF assms] by (simp add: first_verdict_filter)
  then show ?thesis using H by blast
qed

theorem broken_patterns_are_absent_witness:
  "\<exists>H. new_gate demo_regexp (demo_config\<lparr>gc_rules := filter (\<lambda>r. \<not> broken demo_regexp r) (gc_rules demo_config)\<rparr>) = Some H
    \<and> evaluate demo_regexp demo_lexer H read_notes = evaluate demo_regexp demo_lexer demo_gate read_notes"
  using broken_patterns_are_absent [OF demo_gate_new, of demo_lexer] by metis

subsection \<open>Source ids\<close>

text \<open>The pieces of a glob with a run in each place between two of them.\<close>

fun fill :: "string list \<Rightarrow> string list \<Rightarrow> string" where
  "fill [p] [] = p"
| "fill (p # ps) (w # ws) = p @ w @ fill ps ws"
| "fill _ _ = []"

lemma matches_pieces_fill:
  "ps \<noteq> [] \<Longrightarrow> matches_pieces ps s \<longleftrightarrow>
    (\<exists>ws. Suc (length ws) = length ps \<and> (\<forall>w \<in> set ws. \<forall>c \<in> set w. \<not> line_end c) \<and> s = fill ps ws)"
proof (induction ps arbitrary: s)
  case (Cons p rest)
  show ?case
  proof (cases rest)
  case (Cons q ps)
  have step: "matches_pieces (p # q # ps) s \<longleftrightarrow>
      (\<exists>w t. s = p @ w @ t \<and> (\<forall>c \<in> set w. \<not> line_end c) \<and> matches_pieces (q # ps) t)" (is "?m \<longleftrightarrow> ?e")
  proof
    assume ?m
    then obtain n where "starts_with p s" "\<forall>c \<in> set (take n (drop (length p) s)). \<not> line_end c"
        "matches_pieces (q # ps) (drop n (drop (length p) s))"
      by (auto simp: Let_def list_ex_iff list_all_iff simp del: upt_Suc)
    moreover from this have "s = p @ take n (drop (length p) s) @ drop n (drop (length p) s)"
      unfolding starts_with_def by (metis append_take_drop_id)
    ultimately show ?e by blast
  next
    assume ?e
    then obtain w t where w: "s = p @ w @ t" "\<forall>c \<in> set w. \<not> line_end c" "matches_pieces (q # ps) t" by blast
    have "\<exists>n \<in> set [0..<Suc (length (w @ t))]. list_all (\<lambda>c. \<not> line_end c) (take n (w @ t)) \<and> matches_pieces (q # ps) (drop n (w @ t))"
      using w(2,3) by (intro bexI [of _ "length w"]) (auto simp: list_all_iff)
    then show ?m using w(1) by (simp only: matches_pieces.simps Let_def list_ex_iff) (simp add: starts_with_def)
  qed
  have IH: "matches_pieces (q # ps) t \<longleftrightarrow>
      (\<exists>ws. Suc (length ws) = length (q # ps) \<and> (\<forall>w \<in> set ws. \<forall>c \<in> set w. \<not> line_end c) \<and> t = fill (q # ps) ws)" for t
    using Cons.IH [of t] Cons by simp
  show ?thesis unfolding Cons step IH
  proof
    assume "\<exists>w t. s = p @ w @ t \<and> (\<forall>c \<in> set w. \<not> line_end c) \<and> (\<exists>ws. Suc (length ws) = length (q # ps)
      \<and> (\<forall>w \<in> set ws. \<forall>c \<in> set w. \<not> line_end c) \<and> t = fill (q # ps) ws)"
    then obtain w ws where "s = p @ w @ fill (q # ps) ws" "\<forall>c \<in> set w. \<not> line_end c" "Suc (length ws) = length (q # ps)"
        "\<forall>w \<in> set ws. \<forall>c \<in> set w. \<not> line_end c" by blast
    then show "\<exists>ws. Suc (length ws) = length (p # q # ps) \<and> (\<forall>w \<in> set ws. \<forall>c \<in> set w. \<not> line_end c) \<and> s = fill (p # q # ps) ws"
      by (intro exI [of _ "w # ws"]) simp
  next
    assume "\<exists>ws. Suc (length ws) = length (p # q # ps) \<and> (\<forall>w \<in> set ws. \<forall>c \<in> set w. \<not> line_end c) \<and> s = fill (p # q # ps) ws"
    then obtain w ws where "s = p @ w @ fill (q # ps) ws" "\<forall>c \<in> set w. \<not> line_end c" "Suc (length ws) = length (q # ps)"
        "\<forall>w \<in> set ws. \<forall>c \<in> set w. \<not> line_end c"
      by (auto simp: length_Suc_conv)
    then show "\<exists>w t. s = p @ w @ t \<and> (\<forall>c \<in> set w. \<not> line_end c) \<and> (\<exists>ws. Suc (length ws) = length (q # ps)
      \<and> (\<forall>w \<in> set ws. \<forall>c \<in> set w. \<not> line_end c) \<and> t = fill (q # ps) ws)" by blast
  qed
  qed (auto simp: length_Suc_conv)
qed simp

text \<open>A source id matches a glob exactly when it is the glob with every star replaced by some run of characters
  within one line.\<close>

theorem source_glob_meaning:
  "matches_source_id_glob sid glob \<longleftrightarrow>
    (\<exists>ws. Suc (length ws) = length (split_on (CHR ''*'') glob) \<and> (\<forall>w \<in> set ws. \<forall>c \<in> set w. \<not> line_end c)
      \<and> sid = fill (split_on (CHR ''*'') glob) ws)"
proof (cases "CHR ''*'' \<in> set glob")
  case True
  then show ?thesis by (simp add: matches_source_id_glob_def matches_pieces_fill)
next
  case False
  then show ?thesis by (simp add: matches_source_id_glob_def)
qed

theorem source_glob_meaning_witness:
  "matches_source_id_glob ''plugin:acme/mcp:db'' ''plugin:acme/*''"
  unfolding source_glob_meaning by (intro exI [of _ "[''mcp:db'']"]) code_simp

subsection \<open>Predicates\<close>

text \<open>A predicate that throws denies the call it was asked about, when no earlier rule decided.\<close>

theorem throwing_predicate_denies:
  assumes "new_gate re cfg = Some G" "gc_enabled cfg" "expanded_rules cfg = pre @ Predicate what decide describe # post"
    and "passes re rd ctx pre" "decide (predicate_call_of ctx) = Threw"
  shows "\<exists>g. evaluate re rd G ctx = Answered g \<and> gr_decision g = Deny"
proof -
  have "rule_verdict re rd ctx (Predicate what decide describe) = Answered (Some Deny)"
    using assms(5) by (simp add: rule_verdict_def evaluate_rule_def predicate_call_of_def)
  from first_verdict_decides [OF assms(4) this, of post] show ?thesis
    using evaluate_first [OF assms(1)] assms(2,3) by simp
qed

definition strict_config :: gate_config where
  "strict_config = demo_config\<lparr>gc_rules := [Predicate ''refuses'' (\<lambda>call. Threw) None]\<rparr>"

theorem throwing_predicate_denies_witness:
  "\<exists>G g. new_gate demo_regexp strict_config = Some G \<and> evaluate demo_regexp demo_lexer G read_notes = Answered g \<and> gr_decision g = Deny"
proof -
  have "new_gate demo_regexp strict_config \<noteq> None"
    by (simp add: new_gate_def strict_config_def demo_config_def rule_schema_def Let_def split: prod.splits)
  then obtain G where G: "new_gate demo_regexp strict_config = Some G" by auto
  have "expanded_rules strict_config = [Deny_dangerous_patterns] @ Predicate ''refuses'' (\<lambda>call. Threw) None # [Allow_read_only None]"
    by (simp add: expanded_rules_def strict_config_def demo_config_def)
  moreover have "passes demo_regexp demo_lexer read_notes [Deny_dangerous_patterns]" unfolding passes_def by code_simp
  moreover have "gc_enabled strict_config" by (simp add: strict_config_def demo_config_def)
  ultimately show ?thesis using throwing_predicate_denies [OF G] G by blast
qed

end
