(* ===== verification/ReviewPolicyProperties.thy ===== *)
theory ReviewPolicyProperties
  imports ReviewPolicyProofs
begin

text \<open>
  The properties of the review policy: what it never approves without a person, when it confirms an
  escape, what the strict and the planning mode let through, and that a person is asked at most once.
\<close>

subsection \<open>The modes that ask\<close>

lemma asking_reply:
  assumes "review_asking opts calls answered st evs = (d, st', evs')" "known answered evs"
  shows "approves d \<Longrightarrow> person_approved evs'
      \<or> ((\<forall>tc \<in> set calls. \<not> reaches_a_floor tc \<and> \<not> outside_roots tc \<and> \<not> sm_requires_approval tc \<and> \<not> unknown_program tc)
         \<and> (escape_ids calls = [] \<or> (po_prompt opts = None \<and> po_escape_unattended opts)))"
    and "confirmed d \<noteq> [] \<Longrightarrow> set (confirmed d) \<subseteq> set (escape_ids calls)
      \<and> (person_approved evs' \<or> (po_prompt opts = None \<and> po_escape_unattended opts))"
proof -
  note q = questioned [OF _ assms(2)] and s = settled [OF _ assms(2)]
  have u: "approves (unattended_escape opts calls ids) \<Longrightarrow> po_escape_unattended opts
      \<and> (\<forall>tc \<in> set calls. \<not> reaches_a_floor tc \<and> \<not> outside_roots tc \<and> \<not> sm_requires_approval tc \<and> \<not> unknown_program tc)"
    "confirmed (unattended_escape opts calls ids) \<noteq> [] \<Longrightarrow> po_escape_unattended opts \<and> confirmed (unattended_escape opts calls ids) = ids"
    for ids by (auto simp: unattended_escape_def list_ex_iff split: if_splits)
  show "person_approved evs'
      \<or> ((\<forall>tc \<in> set calls. \<not> reaches_a_floor tc \<and> \<not> outside_roots tc \<and> \<not> sm_requires_approval tc \<and> \<not> unknown_program tc)
         \<and> (escape_ids calls = [] \<or> (po_prompt opts = None \<and> po_escape_unattended opts)))" if a: "approves d"
  proof (cases "escape_ids calls = []")
    case True
    then show ?thesis
      using assms(1) a unfolding review_asking_def Let_def escape_ids_def [symmetric]
      by (auto simp: list_ex_iff split: if_splits dest: q(1))
  next
    case False
    then show ?thesis
      using assms(1) a unfolding review_asking_def Let_def escape_ids_def [symmetric]
      by (auto split: option.splits dest: s(1) u(1))
  qed
  show "set (confirmed d) \<subseteq> set (escape_ids calls)
      \<and> (person_approved evs' \<or> (po_prompt opts = None \<and> po_escape_unattended opts))" if c: "confirmed d \<noteq> []"
  proof (cases "escape_ids calls = []")
    case True
    have qn: "question opts calls a approve_plain r st evs = (d, st', evs') \<Longrightarrow> a = answered \<Longrightarrow> confirmed d = []" for a r
      using q(2) by fastforce
    show ?thesis
      using assms(1) c True unfolding review_asking_def Let_def escape_ids_def [symmetric]
      by (auto split: if_splits dest: qn)
  next
    case False
    then show ?thesis
      using assms(1) c unfolding review_asking_def Let_def escape_ids_def [symmetric]
      by (auto split: option.splits dest: s(2) u(2))
  qed
qed

subsection \<open>The whole handler\<close>

text \<open>The handler after the screen question, as the one case every property splits on.\<close>

lemma review_tools_cases:
  assumes "review_tools opts session calls st = (d, st', evs')" "approves d \<or> confirmed d \<noteq> []"
  obtains answered st0 evs where "known answered evs" "after_screen opts session calls answered st0 evs = (d, st', evs')"
  using assms
proof (cases "screen_question opts session calls st")
  case False
  then show ?thesis using assms that [of None "[]" st] by (simp add: review_tools_def known_def)
next
  case True
  obtain prompt where p: "po_prompt opts = Some prompt" and m: "mode_of opts \<noteq> Mode_strict"
    using assms True by (auto simp: review_tools_def split: if_splits option.splits)
  let ?a = "prompt calls True"
  have "\<not> (\<exists>r. ?a = Reject r)" using assms True p m by (auto simp: review_tools_def Let_def)
  then have y: "says_yes ?a" by (cases ?a) (auto simp: says_yes_def)
  have "after_screen opts session calls (Some ?a) (remember_all ?a (st\<lparr>ps_consented := session # ps_consented st\<rparr>)) [Prompted True ?a]
    = (d, st', evs')"
    using assms(1) True p m y by (auto simp: review_tools_def Let_def says_yes_def split: review_answer.splits)
  then show ?thesis using that [of "Some ?a" "[Prompted True ?a]"] y by (simp add: known_def)
qed

text \<open>A question a mode reserves for a person. In every mode: a catastrophic removal, a check that did not finish, and a
  tool that requires approval. The permissive modes (\<open>bypass\<close>, \<open>classify\<close>) reserve a rule's or hook's own question
  besides; the other modes a protected write, a path outside the roots, and a program that nobody can name. This is the
  table of docs/sdk/review-policy.md, which gives a protected write to the permissive modes; that the code keeps it from
  them too is a divergence, and nothing is claimed of it here. A sandbox escape has a theorem of its own.\<close>

definition persons_question :: "review_mode \<Rightarrow> call_summary \<Rightarrow> bool" where
  "persons_question m tc \<longleftrightarrow> dangerous_removal tc \<or> unfinished_check tc \<or> sm_requires_approval tc
    \<or> (if is_permissive m then ask_rule tc \<and> explicit_review tc
        else protected_write tc \<or> outside_roots tc \<or> unknown_program tc)"

lemma persons_question_reviewed:
  assumes "persons_question (mode_of opts) tc" "tc \<in> set calls" "\<not> is_plan_file_write opts tc"
  shows "batch_needs_review opts (reviewable opts calls)" "\<not> accept_edits_allows opts session (edit_only tc)"
proof -
  have e: "sm_escalation tc \<noteq> None \<or> sm_requires_approval tc \<or> explicit_review tc"
    using assms(1) by (auto simp: persons_question_def summary_defs split: option.splits if_splits)
  then have "tc \<in> set (reviewable opts calls)"
    using assms(2,3) by (auto simp: reviewable_def is_scratchpad_write_def)
  then show "batch_needs_review opts (reviewable opts calls)"
    using e by (auto simp: batch_needs_review_def list_ex_iff needs_review_def)
  show "\<not> accept_edits_allows opts session (edit_only tc)"
    using e by (auto simp: accept_edits_allows_def edit_only_def explicit_review_def)
qed

lemma persons_question_approved:
  assumes "review_tools opts session calls st = (d, st', evs)" "approves d"
    and "tc \<in> set calls" "persons_question (mode_of opts) tc" "\<not> authorized Deny tc" "\<not> is_plan_file_write opts tc"
  shows "person_approved evs"
proof -
  obtain answered st0 evs0 where k: "known answered evs0"
    and a: "after_screen opts session calls answered st0 evs0 = (d, st', evs)"
    using review_tools_cases [OF assms(1)] assms(2) by blast
  note n = persons_question_reviewed [OF assms(4,3,6)]
  have ac: "\<not> list_all (\<lambda>tc. accept_edits_allows opts session (edit_only tc)) calls"
    using n(2) assms(3) by (auto simp: list_all_iff)
  from a n(1) ac assms(2) have "(is_permissive (mode_of opts) \<and> review_permissive opts session calls answered st0 evs0 = (d, st', evs))
      \<or> (\<not> is_permissive (mode_of opts) \<and> review_asking opts calls answered st0 evs0 = (d, st', evs))"
    by (auto simp: after_screen_def Let_def split: if_splits)
  then show ?thesis
  proof (elim disjE conjE)
    assume m: "is_permissive (mode_of opts)" and r: "review_permissive opts session calls answered st0 evs0 = (d, st', evs)"
    have live: "tc \<in> set (live_calls calls)" using assms(3,5) by (simp add: live_calls_def)
    have "is_bypass_immune tc" using assms(4) m by (auto simp: persons_question_def is_bypass_immune_def)
    moreover have "immune_refusal (live_calls calls) (po_escape_unattended opts) \<noteq> None"
      using live assms(4) m by (auto simp: immune_refusal_def list_ex_iff persons_question_def)
    ultimately show ?thesis using permissive_reply(1) [OF r k assms(2)] live by (metis (no_types))
  next
    assume m: "\<not> is_permissive (mode_of opts)" and r: "review_asking opts calls answered st0 evs0 = (d, st', evs)"
    show ?thesis using asking_reply(1) [OF r k assms(2)] assms(3,4) m
      by (auto simp: persons_question_def reaches_a_floor_def)
  qed
qed

text \<open>C4: A batch with a call that its mode reserves for a person is approved only on a person's yes to this batch. In every
  mode these are a catastrophic removal, a check that did not finish, and a tool that requires approval; in \<open>bypass\<close> and
  \<open>classify\<close> also a rule's or hook's own question, in the other modes a protected write, a path outside the roots and a
  program that nobody can name. No mode, answer remembered from before, classifier or unattended setting stands for that
  yes. Two kinds of call are left out: one that a rule has denied, which the review drops and does not run, and the write
  of the plan file, which a host gives to the planning mode.\<close>

theorem only_a_person_approves:
  assumes "review_tools opts session calls st = (d, st', evs)" "approves d"
    and "tc \<in> set calls" "persons_question (mode_of opts) tc" "\<not> authorized Deny tc" "\<not> is_plan_file_write opts tc"
  shows "person_approved evs"
  using persons_question_approved [OF assms] .

lemma escapes_by_person:
  assumes "review_tools opts session calls st = (d, st', evs)" "i \<in> set (confirmed d)"
  shows "(\<exists>tc \<in> set calls. sm_id tc = i \<and> sandbox_escape tc)
    \<and> (person_approved evs \<or> (po_prompt opts = None \<and> po_escape_unattended opts))"
proof -
  have c: "confirmed d \<noteq> []" using assms(2) by auto
  obtain answered st0 evs0 where k: "known answered evs0"
    and a: "after_screen opts session calls answered st0 evs0 = (d, st', evs)"
    using review_tools_cases [OF assms(1)] c by blast
  from a c have "review_permissive opts session calls answered st0 evs0 = (d, st', evs)
      \<or> review_asking opts calls answered st0 evs0 = (d, st', evs)"
    by (auto simp: after_screen_def Let_def split: if_splits)
  then have "set (confirmed d) \<subseteq> set (escape_ids calls)
      \<and> (person_approved evs \<or> (po_prompt opts = None \<and> po_escape_unattended opts))"
    using permissive_reply(2) [OF _ k c] asking_reply(2) [OF _ k c] by blast
  then show ?thesis using assms(2) by (auto simp: escape_ids_def)
qed

text \<open>An escape from the sandbox is confirmed only for calls that ask for one, and only after a person's yes to this batch
  or where nobody can be asked and the operator allowed escapes in configuration.\<close>

theorem escapes_confirmed_by_person:
  assumes "review_tools opts session calls st = (d, st', evs)" "i \<in> set (confirmed d)"
  shows "(\<exists>tc \<in> set calls. sm_id tc = i \<and> sandbox_escape tc)
    \<and> (person_approved evs \<or> (po_prompt opts = None \<and> po_escape_unattended opts))"
  using escapes_by_person [OF assms] .

text \<open>The strict mode asks nobody, and approves a batch only when every call of it is exempt from review and carries
  nothing that would bring it there.\<close>

theorem strict_only_runs_exempt_calls:
  assumes "mode_of opts = Mode_strict" "review_tools opts session calls st = (d, st', evs)"
  shows "evs = [] \<and> st' = st \<and> (approves d \<longrightarrow> (\<forall>tc \<in> set calls. \<not> needs_review opts tc))"
proof -
  have r: "reviewable opts calls = calls"
    using assms(1) by (simp add: reviewable_def is_plan_file_write_def is_scratchpad_write_def)
  show ?thesis
    using assms(2) by (auto simp: review_tools_def after_screen_def Let_def r assms(1) batch_needs_review_def list_ex_iff
        split: if_splits)
qed

text \<open>The planning mode approves no change: each call of a batch it approves is the plan file's own write, a write to the
  session's scratch folder, or a call that is exempt as a read, not destructive and not put to review by a rule.\<close>

theorem plan_mode_changes_nothing:
  assumes "mode_of opts = Mode_plan" "review_tools opts session calls st = (d, st', evs)" "approves d" "tc \<in> set calls"
  shows "is_plan_file_write opts tc \<or> is_scratchpad_write opts tc
    \<or> (exempt opts tc \<and> \<not> sm_destructive tc \<and> \<not> explicit_review tc)"
proof -
  obtain answered st0 evs0 where a: "after_screen opts session calls answered st0 evs0 = (d, st', evs)"
    using review_tools_cases [OF assms(2)] assms(3) by blast
  have "\<not> batch_needs_review opts (reviewable opts calls) \<or> only_reads_outside_roots opts
      (filter (\<lambda>tc. \<not> is_plan_file_write opts tc \<and> \<not> is_scratchpad_write opts tc) (reviewable opts calls))"
    using a assms(1,3) by (auto simp: after_screen_def Let_def split: if_splits)
  then show ?thesis
    using assms(4)
    by (auto simp: batch_needs_review_def list_ex_iff needs_review_def only_reads_outside_roots_def list_all_iff reviewable_def)
qed

subsection \<open>Runs\<close>

definition no_shell :: shell_reader where
  "no_shell = \<lparr>sh_unknown_program = (\<lambda>l d. None), sh_read_line = (\<lambda>l d. \<lparr>rd_invocations = [], rd_complete = False\<rparr>),
    sh_unresolved = (\<lambda>r. True), sh_escalations = (\<lambda>l d rs c. \<lparr>pe_outside = [], pe_protected = [], pe_removal = None\<rparr>),
    sh_bash_directory = (\<lambda>s r. r)\<rparr>"

definition demo_options :: "review_mode \<Rightarrow> review_options" where
  "demo_options m = \<lparr>po_mode = Some m, po_prompt = Some (\<lambda>calls screen. Approve), po_exempt = Some (\<lambda>name input. name = ''read''),
    po_registry = None, po_escape_unattended = False, po_skills_honoured = True, po_screen_consent = False,
    po_captures_screen = None, po_plan_mode_write = None, po_classifier = None, po_safe_tools = [], po_roots = [],
    po_regexp = (\<lambda>p. None), po_shell = no_shell\<rparr>"

definition fresh_policy :: policy_state where
  "fresh_policy = \<lparr>ps_remembered_all = True, ps_too_long = False, ps_consented = []\<rparr>"

definition plain_call :: "string \<Rightarrow> string \<Rightarrow> call_summary" where
  "plain_call i name = \<lparr>sm_id = i, sm_name = name, sm_input = V_object [], sm_destructive = False,
    sm_authorization = Some \<lparr>au_decision = Review, au_explicit_review = False, au_ask_rule = False, au_allow_scope = None\<rparr>,
    sm_escalation = None, sm_requires_approval = False, sm_skill_grant = None, sm_scratchpad_write = False,
    sm_hook_permission = None, sm_hook_grant = False\<rparr>"

definition no_escalation :: escalation where
  "no_escalation = \<lparr>es_outside_paths = [], es_sandbox_escape = False, es_unknown_program = None, es_protected_paths = [],
    es_dangerous_removal = None, es_unfinished_check = None\<rparr>"

definition removal_call :: call_summary where
  "removal_call = (plain_call ''c1'' ''bash'')\<lparr>sm_escalation := Some (no_escalation\<lparr>es_dangerous_removal := Some ''home''\<rparr>)\<rparr>"

definition escape_call :: call_summary where
  "escape_call = (plain_call ''c2'' ''bash'')\<lparr>sm_escalation := Some (no_escalation\<lparr>es_sandbox_escape := True\<rparr>)\<rparr>"

lemmas demo_defs = demo_options_def fresh_policy_def plain_call_def no_escalation_def removal_call_def escape_call_def

lemmas policy_defs = review_tools_def after_screen_def screen_question_def reviewable_def is_plan_file_write_def
  is_scratchpad_write_def batch_needs_review_def needs_review_def exempt_def mode_of_def is_permissive_def review_permissive_def
  review_asking_def question_def ask_def settle_answer_def remember_all_def summary_defs is_bypass_immune_def reaches_a_floor_def
  only_reads_outside_roots_def

lemma bypass_asks: "review_tools (demo_options Mode_bypass) ''s'' [plain_call ''c0'' ''edit'', removal_call] fresh_policy
    = (approve_plain, fresh_policy, [Prompted False Approve])"
  by (simp add: policy_defs demo_defs Let_def)

theorem only_a_person_approves_witness: "person_approved [Prompted False Approve]"
proof (rule only_a_person_approves [OF bypass_asks])
  show "removal_call \<in> set [plain_call ''c0'' ''edit'', removal_call]" by simp
qed (simp_all add: persons_question_def policy_defs demo_defs)

lemma auto_asks_for_escape: "review_tools (demo_options Mode_auto) ''s'' [escape_call] fresh_policy
    = (approve_escapes [''c2''], fresh_policy, [Prompted False Approve])"
  by (simp add: policy_defs demo_defs Let_def)

theorem escapes_confirmed_by_person_witness: "sandbox_escape escape_call \<and> person_approved [Prompted False Approve]"
  using escapes_confirmed_by_person [OF auto_asks_for_escape, of "''c2''"] by (simp add: demo_options_def)

theorem strict_only_runs_exempt_calls_witness:
  "\<not> needs_review (demo_options Mode_strict) (plain_call ''c0'' ''read'')"
proof -
  have "review_tools (demo_options Mode_strict) ''s'' [plain_call ''c0'' ''read''] fresh_policy = (approve_plain, fresh_policy, [])"
    by (simp add: policy_defs demo_defs Let_def)
  from strict_only_runs_exempt_calls [OF _ this] show ?thesis by (simp add: mode_of_def demo_options_def)
qed

theorem plan_mode_changes_nothing_witness: "exempt (demo_options Mode_plan) (plain_call ''c0'' ''read'')"
proof -
  have "review_tools (demo_options Mode_plan) ''s'' [plain_call ''c0'' ''read''] fresh_policy = (approve_plain, fresh_policy, [])"
    by (simp add: policy_defs demo_defs Let_def)
  from plan_mode_changes_nothing [OF _ this, of "plain_call ''c0'' ''read''"]
  show ?thesis by (simp add: mode_of_def is_plan_file_write_def is_scratchpad_write_def demo_options_def plain_call_def)
qed

text \<open>Where the modes differ on a rule's own question: \<open>auto\<close>, and an answer remembered, settle it with nobody asked; \<open>bypass\<close> asks.\<close>

definition asked_call :: call_summary where
  "asked_call = (plain_call ''c3'' ''bash'')\<lparr>sm_authorization :=
    Some \<lparr>au_decision = Review, au_explicit_review = True, au_ask_rule = True, au_allow_scope = None\<rparr>\<rparr>"

lemma auto_settles_ask_rules:
  "review_tools (demo_options Mode_auto) ''s'' [asked_call] fresh_policy = (approve_plain, fresh_policy, [])"
  "review_tools (demo_options Mode_prompt) ''s'' [asked_call] fresh_policy = (approve_plain, fresh_policy, [])"
  "review_tools (demo_options Mode_bypass) ''s'' [asked_call] fresh_policy = (approve_plain, fresh_policy, [Prompted False Approve])"
  by (simp_all add: policy_defs demo_defs asked_call_def Let_def)

subsection \<open>One question for a batch\<close>

definition prompts :: "policy_event list \<Rightarrow> nat" where
  "prompts evs = length (filter (\<lambda>e. case e of Prompted _ _ \<Rightarrow> True | _ \<Rightarrow> False) evs)"

lemma prompts_append [simp]: "prompts (evs @ evs') = prompts evs + prompts evs'"
  by (simp add: prompts_def)

lemma prompts_one [simp]: "prompts [] = 0" "prompts [Prompted b a] = 1" "prompts [Classified i v] = 0"
  "prompts [Told_too_long] = 0" "prompts [Told_limit l] = 0"
  by (simp_all add: prompts_def)

text \<open>What has been asked stays within one question, and an answer given rules out another.\<close>

definition asked_once :: "review_answer option \<Rightarrow> policy_event list \<Rightarrow> bool" where
  "asked_once answered evs \<longleftrightarrow> prompts evs \<le> (if answered = None then 0 else 1)"

abbreviation asks :: "reply \<Rightarrow> nat" where
  "asks r \<equiv> prompts (snd (snd r))"

lemma asked_once_le: "asked_once answered evs \<Longrightarrow> prompts evs \<le> Suc 0"
  by (simp add: asked_once_def split: if_splits)

lemma settle_asks_once: "asked_once answered evs \<Longrightarrow> asks (settle_answer app st evs (ask prompt calls answered)) \<le> Suc 0"
  by (auto simp: settle_answer_def ask_def Let_def asked_once_def split: review_answer.splits option.splits if_splits)

lemma question_asks_once: "asked_once answered evs \<Longrightarrow> asks (question opts calls answered app r st evs) \<le> Suc 0"
  by (auto simp: question_def asked_once_le settle_asks_once split: option.splits)

lemma classify_asks_once:
  assumes person: "\<And>f s e. person = Some f \<Longrightarrow> asked_once answered e \<Longrightarrow> asks (f s e) \<le> Suc 0"
  shows "asked_once answered evs \<Longrightarrow>
    (case classify_calls opts session classifier person calls st evs of
       Inl (st', evs') \<Rightarrow> asked_once answered evs' | Inr r \<Rightarrow> asks r \<le> Suc 0)"
proof (induction calls arbitrary: st evs)
  case (Cons tc calls)
  have later: "asked_once answered (evs @ [Classified i v])" "asked_once answered (evs @ [Classified i v, Told_limit l])"
    "prompts evs \<le> Suc 0" for i v l
    using Cons.prems by (auto simp: asked_once_def prompts_def split: if_splits)
  have p1: "prompts [Classified i v, e] = prompts [e]" for i v e by (simp add: prompts_def)
  note asked = person
  show ?case
    using Cons.IH Cons.prems
    by (auto simp: Let_def later p1 intro!: asked split: verdict.splits option.splits)
qed simp

lemma permissive_asks_once:
  assumes "asked_once answered evs"
  shows "asks (review_permissive opts session calls answered st evs) \<le> Suc 0"
proof -
  let ?live = "filter (\<lambda>tc. \<not> authorized Deny tc) calls"
  let ?app = "approve_escapes (map sm_id (filter sandbox_escape ?live))"
  let ?person = "map_option (\<lambda>prompt st evs. settle_answer ?app st evs (ask prompt calls answered)) (po_prompt opts)"
  have person: "asks (f s e) \<le> Suc 0" if "?person = Some f" "asked_once answered e" for f s e
    using that settle_asks_once by auto
  let ?c = "if mode_of opts = Mode_classify
           then (case po_classifier opts of
               Some classifier \<Rightarrow> classify_calls opts session classifier ?person ?live st evs
             | None \<Rightarrow> Inl (st, evs))
           else Inl (st, evs)"
  have on: "case classify_calls opts session classifier ?person ?live st evs of
      Inl (st', evs') \<Rightarrow> asked_once answered evs' | Inr r \<Rightarrow> asks r \<le> Suc 0" for classifier
    using person assms by (intro classify_asks_once) blast+
  have c: "case ?c of Inl (st', evs') \<Rightarrow> asked_once answered evs' | Inr r \<Rightarrow> asks r \<le> Suc 0"
    using on assms by (simp split: option.split)
  have r: "asks (if \<not> list_ex is_bypass_immune ?live then (approve_plain, s, e)
      else (case ?person of Some f \<Rightarrow> f s e
        | None \<Rightarrow> (case immune_refusal ?live (po_escape_unattended opts) of
            Some r \<Rightarrow> (refuse r, s, e) | None \<Rightarrow> (?app, s, e)))) \<le> Suc 0" if "asked_once answered e" for s e
    using that by (auto simp: asked_once_le settle_asks_once split: option.split)
  show ?thesis
  proof (cases ?c)
    case (Inl p)
    then have "asked_once answered (snd p)" using c by (simp split: prod.splits)
    from r [OF this, of "fst p"] show ?thesis
      unfolding review_permissive_def Let_def Inl by (simp add: case_prod_beta)
  next
    case (Inr q)
    then show ?thesis using c unfolding review_permissive_def Let_def Inr by simp
  qed
qed

lemma asking_asks_once: "asked_once answered evs \<Longrightarrow> asks (review_asking opts calls answered st evs) \<le> Suc 0"
  unfolding review_asking_def Let_def
  by (auto simp: asked_once_le question_asks_once settle_asks_once split: option.splits)

lemma after_screen_asks_once: "asked_once answered evs \<Longrightarrow> asks (after_screen opts session calls answered st evs) \<le> Suc 0"
  unfolding after_screen_def Let_def
  by (simp add: asked_once_le permissive_asks_once asking_asks_once)

text \<open>A person is asked at most once about a batch, whatever it holds: the answer to the question about the screen also
  answers what the rest of the policy would ask.\<close>

theorem person_asked_once: "prompts (snd (snd (review_tools opts session calls st))) \<le> 1"
proof -
  have "asked_once None []" "asked_once (Some a) [Prompted True a]" for a by (simp_all add: asked_once_def)
  then show ?thesis
    unfolding review_tools_def Let_def
    by (auto simp: after_screen_asks_once split: option.splits review_answer.splits)
qed

end
