(* ===== verification/ToolReviewProperties.thy ===== *)
theory ToolReviewProperties
  imports ToolReviewProofs ReviewPolicyProperties AuthGateProperties
begin

text \<open>
  The properties of the review of a batch: what no reviewer can release, and, with a reviewer that keeps the
  contract of the locale below, that a call with a person's question runs only after a person's yes.
  The shipped policy keeps that contract in every mode.
\<close>

text \<open>The executor prepares the calls of the batch: each prepared call answers one of them.\<close>

definition prepares :: "review_context \<Rightarrow> tool_call list \<Rightarrow> bool" where
  "prepares ctx calls \<longleftrightarrow> pc_id ` set (rc_prepared ctx) \<subseteq> ca_id ` set calls"

subsection \<open>What no reviewer can release\<close>

lemma ran_not_denied_before:
  assumes "run_tool_review ctx decide calls grants s = Some (r, s', evs)" "prepares ctx calls" "tc \<in> set (rv_ran r)"
  shows "sm_id tc \<notin> prepared_denied ctx"
  using assms(1)
proof (cases rule: run_tool_review_cases)
  case (unasked e ds sums as)
  then show ?thesis using assms(3) ran_not_denied by (fastforce simp: put_to_review_def)
next
  case (decided asked denied audits d)
  then have "set denied \<subseteq> ca_id ` set calls" "prepared_denied ctx \<subseteq> set denied"
    using assms(2) by (auto simp: put_to_review_def prepares_def)
  then show ?thesis using conclude_denied [OF decided(3) assms(3)] by blast
qed (use assms(3) in simp)

text \<open>C1: A call the authorization gate denied never runs: no decision of the reviewer, no modification of a person, no grant of the
  turn, no skill and no hook releases it.\<close>

theorem gate_denial_is_final:
  assumes "run_tool_review ctx decide calls grants s = Some (r, s', evs)" "prepares ctx calls"
    and "p \<in> set (rc_prepared ctx)" "gate_denies ctx p"
  shows "pc_id p \<notin> sm_id ` set (rv_ran r)"
proof -
  have "pc_id p \<in> prepared_denied ctx" using assms(3,4) by (simp add: prepared_denied_def)
  then show ?thesis using ran_not_denied_before [OF assms(1,2)] by auto
qed

lemma conclude_confirmed:
  assumes "conclude ctx calls sums denied audits grants d = Some r" "tc \<in> set (rv_ran r)" "sandbox_escape tc"
  shows "sm_id tc \<in> set (confirmed d)"
  using assms(1)
proof (cases rule: conclude_cases)
  case (rejected ds as e)
  note n = ran_settled [OF rejected(3) assms(2)]
  show ?thesis using settle_escalations_escape [OF rejected(2) _ assms(3)] n by simp
next
  case (modified ms ids ds m sums' ds1 as1 ds2 as2 e)
  note n = ran_settled [OF modified(6) assms(2)]
  show ?thesis using settle_escalations_escape [OF modified(5) _ assms(3)] n unfolding modified(1) by simp
next
  case (settled as0 ds as e gs)
  note n = ran_settled [OF settled(5) assms(2)]
  show ?thesis using settle_escalations_escape [OF settled(4) _ assms(3)] n by simp
qed (use assms(2) in simp)

lemma escape_confirmed:
  assumes "run_tool_review ctx decide calls grants s = Some (r, s', evs)" "tc \<in> set (rv_ran r)" "sandbox_escape tc"
  shows "\<exists>asked d. decide asked s = (d, s', evs) \<and> sm_id tc \<in> set (confirmed d)"
  using assms(1)
proof (cases rule: run_tool_review_cases)
  case (unasked e ds sums as)
  have "sm_escalation tc = None" using unasked(3) ran_settled [OF unasked(1) assms(2)] by (simp add: reviewed_anew_def)
  then show ?thesis using assms(3) by (simp add: sandbox_escape_def)
next
  case (decided asked denied audits d)
  show ?thesis using conclude_confirmed [OF decided(3) assms(2,3)] decided(1) by blast
qed (use assms(2) in simp)

text \<open>C3: A call runs outside the sandbox only when the reviewer was asked about the batch and confirmed that call by its id:
  an allowing rule, a grant of the turn, a skill, a hook or a blanket approval does not let it out.\<close>

theorem escape_runs_confirmed:
  assumes "run_tool_review ctx decide calls grants s = Some (r, s', evs)" "tc \<in> set (rv_ran r)" "sandbox_escape tc"
  shows "\<exists>asked d. decide asked s = (d, s', evs) \<and> sm_id tc \<in> set (confirmed d)"
  using escape_confirmed [OF assms] .

text \<open>What a call that ran reached past its boundary for is in the audit log as approved: each outside path, protected
  path, escape, unknown program, dangerous removal and unfinished check of it.\<close>

theorem crossings_of_runs_on_record:
  assumes "run_tool_review ctx decide calls grants s = Some (r, s', evs)" "tc \<in> set (rv_ran r)"
  shows "set (crossing_audits True tc) \<subseteq> set (rv_audits r)"
  using assms(1)
proof (cases rule: run_tool_review_cases)
  case (unasked e ds sums as)
  have "sm_escalation tc = None" using unasked(3) ran_settled [OF unasked(1) assms(2)] by (simp add: reviewed_anew_def)
  then show ?thesis by (simp add: crossing_audits_def)
next
  case (decided asked denied audits d)
  from decided(3) show ?thesis
  proof (cases rule: conclude_cases)
    case (rejected ds as e)
    note n = ran_settled [OF rejected(3) assms(2)]
    show ?thesis using settle_escalations_recorded [OF rejected(2)] n unfolding rejected(3) by simp
  next
    case (modified ms ids ds m sums' ds1 as1 ds2 as2 e)
    note n = ran_settled [OF modified(6) assms(2)]
    show ?thesis using settle_escalations_recorded [OF modified(5)] n unfolding modified(6) by simp
  next
    case (settled as0 ds as e gs)
    note n = ran_settled [OF settled(5) assms(2)]
    show ?thesis using settle_escalations_recorded [OF settled(4)] n unfolding settled(5) by simp
  qed (use assms(2) in simp)
qed (use assms(2) in simp)

text \<open>Every call of a batch is answered with a result unless the reviewer paused or aborted: then nothing of the batch runs
  and the review ends the turn.\<close>

theorem unanswered_only_when_stopped:
  assumes "run_tool_review ctx decide calls grants s = Some (r, s', evs)" "\<not> rv_answered r"
  shows "rv_ran r = [] \<and> rv_end r = Stopped \<and> (\<exists>asked d. decide asked s = (d, s', evs) \<and> stops d)"
  using assms(1)
proof (cases rule: run_tool_review_cases)
  case (decided asked denied audits d)
  from decided(3) show ?thesis
    by (cases rule: conclude_cases) (use assms(2) decided(1) in \<open>auto simp: unanswered_def\<close>)
qed (use assms(2) in auto)

text \<open>A call whose input a person rewrote runs only when the gate allows the rewritten call: a question of the gate is no
  allowance for a value nobody was shown.\<close>

theorem rewritten_call_needs_allowance:
  assumes "conclude ctx calls sums denied audits grants (Modify_tools ms ids) = Some r" "rc_gate ctx = Some G"
    and "Modify_call (sm_id tc) (Some v) \<in> set ms" "sm_id tc \<in> ca_id ` set calls" "tc \<in> set (rv_ran r)"
  shows "\<exists>g. gate_verdict ctx G tc = Answered g \<and> gr_decision g = Allow"
  using assms(1)
proof (cases rule: conclude_cases)
  case (modified ms' ids' ds m sums' ds1 as1 ds2 as2 e)
  have n: "tc \<in> set sums'" "sm_id tc \<notin> set ds1"
    using assms(5) modified(6) ran_not_denied [of tc] settle_escalations_mono [OF modified(5)] by auto
  moreover have "sm_id tc \<notin> set ds" using n recheck_mono [OF modified(4)] by blast
  then have "sm_id tc \<in> set (map fst m)"
    using apply_modifications_rewritten [OF modified(2)] modified(1) assms(3,4) by auto
  ultimately show ?thesis using recheck_allows [OF modified(4) assms(2)] by blast
qed (use assms(5) in simp_all)

subsection \<open>A reviewer that asks a person\<close>

text \<open>
  What a review relies on of a reviewer: it approves, rejects or aborts; it approves a batch with a person's question in it
  only when a person said yes to the batch, a call already denied aside; it confirms an escape only on a person's
  yes, or unattended where the operator said so.
\<close>

locale reviewer =
  fixes decide :: "'s reviewer" and personal :: "call_summary \<Rightarrow> bool" and unattended :: bool
  assumes shape: "decide calls s = (d, s', evs) \<Longrightarrow> approves d \<or> rejects d \<or> stops d"
    and asks_person: "decide calls s = (d, s', evs) \<Longrightarrow> approves d \<Longrightarrow> tc \<in> set calls \<Longrightarrow> personal tc
      \<Longrightarrow> \<not> authorized Deny tc \<Longrightarrow> person_approved evs"
    and confirms: "decide calls s = (d, s', evs) \<Longrightarrow> i \<in> set (confirmed d) \<Longrightarrow> person_approved evs \<or> unattended"
    and personal_anew: "personal tc \<Longrightarrow> reviewed_anew tc"
begin

lemma runs_on_a_yes:
  assumes "run_tool_review ctx decide calls grants s = Some (r, s', evs)" "prepares ctx calls" "tc \<in> set (rv_ran r)" "personal tc"
  shows "person_approved evs"
  using assms(1)
proof (cases rule: run_tool_review_cases)
  case (unasked e ds sums as)
  then show ?thesis using assms(3,4) ran_not_denied [of tc] personal_anew by blast
next
  case (decided asked denied audits d)
  have ids: "sm_id ` set asked \<subseteq> ca_id ` set calls" using decided(2) assms(2) by (auto simp: put_to_review_def prepares_def)
  from decided(3) show ?thesis
  proof (cases rule: conclude_cases)
    case (rejected ds as e)
    then have "tc \<in> set asked" "sm_id tc \<notin> set ds" using assms(3) ran_not_denied [of tc] by auto
    then show ?thesis using ids settle_escalations_mono [OF rejected(2)] by auto
  next
    case (modified ms ids ds m sums' ds1 as1 ds2 as2 e)
    then show ?thesis using shape [OF decided(1)] by simp
  next
    case (settled as0 ds as e gs)
    then have t: "tc \<in> set asked" "sm_id tc \<notin> set denied"
      using assms(3) ran_not_denied [of tc] settle_escalations_mono [OF settled(4)] by auto
    then have "\<not> authorized Deny tc" using decided(2) by (auto simp: put_to_review_def)
    moreover have "approves d" using shape [OF decided(1)] settled(1,2) by simp
    ultimately show ?thesis using asks_person [OF decided(1)] t(1) assms(4) by blast
  qed (use assms(3) in simp)
qed (use assms(3) in simp)

lemma escapes_on_a_yes:
  assumes "run_tool_review ctx decide calls grants s = Some (r, s', evs)" "tc \<in> set (rv_ran r)" "sandbox_escape tc"
  shows "person_approved evs \<or> unattended"
  using escape_confirmed [OF assms] confirms by blast

end

subsection \<open>The shipped policy\<close>

text \<open>Its replies have the shape a review relies on: whatever branch answers.\<close>

definition plain_reply :: "reply \<Rightarrow> bool" where
  "plain_reply r \<longleftrightarrow> approves (fst r) \<or> rejects (fst r) \<or> stops (fst r)"

lemma plain_simps [simp]:
  "plain_reply (approve_plain, st, evs)" "plain_reply (approve_escapes ids, st, evs)" "plain_reply (refuse f, st, evs)"
  "plain_reply (rejected f rj, st, evs)" "plain_reply (unattended_escape opts calls ids, st, evs)"
  "plain_reply (Approve_tools a b c d, st, evs)" "plain_reply (Abort reason, st, evs)"
  by (simp_all add: plain_reply_def rejected_def unattended_escape_def)

lemma settle_answer_plain: "approves app \<Longrightarrow> plain_reply (settle_answer app st evs ans)"
  by (simp add: settle_answer_def plain_reply_def rejected_def split: review_answer.split)

lemma question_plain: "approves app \<Longrightarrow> plain_reply (question opts calls answered app f st evs)"
  by (simp add: question_def settle_answer_plain split: option.split)

lemma classify_plain:
  assumes "\<And>f s e. person = Some f \<Longrightarrow> plain_reply (f s e)"
  shows "classify_calls opts session classifier person calls st evs = Inr r \<Longrightarrow> plain_reply r"
proof (induction calls arbitrary: st evs)
  case (Cons tc calls)
  then show ?case by (auto simp: Let_def assms split: if_splits verdict.splits option.splits)
qed simp

lemma permissive_plain: "plain_reply (review_permissive opts session calls answered st evs)"
proof -
  let ?live = "filter (\<lambda>tc. \<not> authorized Deny tc) calls"
  let ?app = "approve_escapes (map sm_id (filter sandbox_escape ?live))"
  let ?person = "map_option (\<lambda>prompt st evs. settle_answer ?app st evs (ask prompt calls answered)) (po_prompt opts)"
  have person: "plain_reply (f s e)" if "?person = Some f" for f s e
    using that by (auto simp: settle_answer_plain)
  have on: "plain_reply r" if "classify_calls opts session classifier ?person ?live st evs = Inr r" for classifier r
  proof (rule classify_plain [OF _ that])
    show "plain_reply (f s e)" if p: "?person = Some f" for f s e by (rule person [OF p])
  qed
  have c: "plain_reply r" if "(if mode_of opts = Mode_classify
           then (case po_classifier opts of
               Some classifier \<Rightarrow> classify_calls opts session classifier ?person ?live st evs
             | None \<Rightarrow> Inl (st, evs))
           else Inl (st, evs)) = Inr r" for r
    using that on by (auto split: if_splits option.splits)
  show ?thesis
    unfolding review_permissive_def Let_def
    by (auto simp: c settle_answer_plain split: sum.split option.split)
qed

lemma asking_plain: "plain_reply (review_asking opts calls answered st evs)"
  unfolding review_asking_def Let_def
  by (simp add: question_plain settle_answer_plain split: option.split)

lemma after_screen_plain: "plain_reply (after_screen opts session calls answered st evs)"
  unfolding after_screen_def Let_def by (simp add: permissive_plain asking_plain)

lemma review_tools_plain: "plain_reply (review_tools opts session calls st)"
  unfolding review_tools_def Let_def
  by (simp add: after_screen_plain split: option.split review_answer.split)

definition policy_question :: "review_options \<Rightarrow> call_summary \<Rightarrow> bool" where
  "policy_question opts tc \<longleftrightarrow> persons_question (mode_of opts) tc \<and> \<not> is_plan_file_write opts tc"

interpretation shipped: reviewer "review_tools opts session" "policy_question opts"
  "po_prompt opts = None \<and> po_escape_unattended opts" for opts session
proof
  show "approves d \<or> rejects d \<or> stops d" if "review_tools opts session calls s = (d, s', evs)" for calls s d s' evs
    using review_tools_plain [of opts session calls s] that by (simp add: plain_reply_def)
  show "person_approved evs" if "review_tools opts session calls s = (d, s', evs)" "approves d" "tc \<in> set calls"
    "policy_question opts tc" "\<not> authorized Deny tc" for calls s d s' evs tc
    using persons_question_approved [OF that(1-3) _ that(5)] that(4) by (simp add: policy_question_def)
  show "person_approved evs \<or> po_prompt opts = None \<and> po_escape_unattended opts"
    if "review_tools opts session calls s = (d, s', evs)" "i \<in> set (confirmed d)" for calls s d s' evs i
    using escapes_by_person [OF that] by blast
  show "reviewed_anew tc" if "policy_question opts tc" for tc
    using that by (auto simp: policy_question_def persons_question_def reviewed_anew_def summary_defs
        split: option.splits if_splits)
qed

text \<open>C2: With the shipped policy, in any of its modes, a call that the mode reserves for a person runs only when a person said
  yes to the batch in that review: no allowing rule, grant of the turn, skill or hook lets it run. The calls reserved are
  those of the policy's own property: a catastrophic removal, an unfinished check and a tool that requires approval in
  every mode, a rule's or hook's own question in the permissive modes, and a protected write, a path outside the roots
  and an unknown program in the others. The write of the plan file that a host gives to the planning mode is left out: it
  runs without a question. What was prepared are calls of the batch.\<close>

theorem persons_question_runs_on_a_yes:
  assumes "run_tool_review ctx (review_tools opts session) calls grants s = Some (r, s', evs)" "prepares ctx calls"
    and "tc \<in> set (rv_ran r)" "persons_question (mode_of opts) tc" "\<not> is_plan_file_write opts tc"
  shows "person_approved evs"
  using shipped.runs_on_a_yes [OF assms(1-3)] assms(4,5) by (simp add: policy_question_def)

text \<open>With the shipped policy a call runs outside the sandbox only after a person's yes to the batch, or where there is nobody
  to ask and the operator allowed it.\<close>

theorem escape_runs_on_a_yes:
  assumes "run_tool_review ctx (review_tools opts session) calls grants s = Some (r, s', evs)"
    and "tc \<in> set (rv_ran r)" "sandbox_escape tc"
  shows "person_approved evs \<or> (po_prompt opts = None \<and> po_escape_unattended opts)"
  by (rule shipped.escapes_on_a_yes [OF assms])

subsection \<open>Runs\<close>

text \<open>A batch of two calls under the bypass mode: a rule denies the first; the second removes something catastrophic outside the
  sandbox and is approved by a person, and confirmed by its id.\<close>

definition prepared :: "string \<Rightarrow> string \<Rightarrow> escalation option \<Rightarrow> prepared_call" where
  "prepared i name e = \<lparr>pc_id = i, pc_name = name, pc_input = V_object [], pc_escalation = e, pc_hook_permission = None,
    pc_scratchpad_write = False\<rparr>"

definition two_gate :: gate where
  "two_gate = \<lparr>ga_rules = [Deny_by_name [''wipe''], Allow_by_name [''edit'']], ga_compiled = Map.empty,
    ga_names = [0 \<mapsto> [''wipe''], 1 \<mapsto> [''edit'']], ga_enabled = True\<rparr>"

definition no_tools :: tool_registry where
  "no_tools = \<lparr>rg_get = (\<lambda>name. None), rg_source_of = (\<lambda>name. None), rg_dialect = (\<lambda>name. Bash), rg_shipped_bash = (\<lambda>name. False)\<rparr>"

definition crossing :: escalation where
  "crossing = no_escalation\<lparr>es_sandbox_escape := True, es_dangerous_removal := Some ''home''\<rparr>"

definition two_calls :: "tool_call list" where
  "two_calls = [\<lparr>ca_id = ''c1'', ca_name = ''wipe''\<rparr>, \<lparr>ca_id = ''c2'', ca_name = ''bash''\<rparr>]"

definition two_context :: review_context where
  "two_context = \<lparr>rc_regexp = (\<lambda>p. None), rc_lexer = demo_lexer, rc_gate = Some two_gate, rc_tools = no_tools,
    rc_destructive = (\<lambda>name input. False), rc_requires_approval = (\<lambda>name input. False),
    rc_prepared = [prepared ''c1'' ''wipe'' None, prepared ''c2'' ''bash'' (Some crossing)],
    rc_reprepared = (\<lambda>m. [prepared ''c1'' ''edit'' None]),
    rc_covering_skill = None, rc_permission_hooks = None, rc_review_allowed = False,
    rc_repeat_refusal = (\<lambda>tc. None), rc_budget_refusal = None\<rparr>"

lemmas two_defs = two_context_def two_calls_def two_gate_def prepared_def crossing_def no_tools_def no_escalation_def

lemmas review_defs = run_tool_review_def after_gate_def conclude_def summary_of_def gate_verdict_def gate_context_def
  authorize_def mark_skill_def mark_hook_def may_mark_def covered_by_grants_def settle_batch_def runs_def
  crossing_audits_def add_id_def grant_audits_def everything_denied_def tool_audit_def unanswered_def
  evaluate_def evaluate_rule_def describe_rule_def allow_rule_scope_def

definition crossing_call :: call_summary where
  "crossing_call = \<lparr>sm_id = ''c2'', sm_name = ''bash'', sm_input = V_object [], sm_destructive = False,
    sm_authorization = Some \<lparr>au_decision = Review, au_explicit_review = False, au_ask_rule = False, au_allow_scope = None\<rparr>,
    sm_escalation = Some crossing, sm_requires_approval = False, sm_skill_grant = None, sm_scratchpad_write = False,
    sm_hook_permission = None, sm_hook_grant = False\<rparr>"

definition two_outcome :: review_outcome where
  "two_outcome = \<lparr>rv_end = Executed, rv_answered = True, rv_ran = [crossing_call], rv_denied = [''c1''],
    rv_audits = [Audit ''tool_call'' ''wipe'' [] False, Audit ''sandbox_escape'' ''bash'' [] True,
      Audit ''dangerous_removal'' ''bash'' ''home'' True], rv_grants = None\<rparr>"

lemma two_run: "run_tool_review two_context (review_tools (demo_options Mode_bypass) ''s'') two_calls None fresh_policy
    = Some (two_outcome, fresh_policy, [Prompted False Approve])"
  by (simp add: review_defs two_defs policy_defs demo_options_def fresh_policy_def two_outcome_def crossing_call_def Let_def)

lemma two_prepares: "prepares two_context two_calls"
  by (simp add: prepares_def two_defs)

lemma crossing_ran: "crossing_call \<in> set (rv_ran two_outcome)"
  by (simp add: two_outcome_def)

lemma crossing_escapes: "sandbox_escape crossing_call"
  by (simp add: sandbox_escape_def crossing_call_def crossing_def)

theorem gate_denial_is_final_witness: "''c1'' \<notin> sm_id ` set (rv_ran two_outcome)"
proof -
  let ?p = "prepared ''c1'' ''wipe'' None"
  have "gate_denies two_context ?p" by (simp add: gate_denies_def review_defs two_defs)
  from gate_denial_is_final [OF two_run two_prepares _ this] show ?thesis by (simp add: two_defs)
qed

theorem escape_runs_confirmed_witness:
  "\<exists>asked d. review_tools (demo_options Mode_bypass) ''s'' asked fresh_policy = (d, fresh_policy, [Prompted False Approve])
    \<and> ''c2'' \<in> set (confirmed d)"
  using escape_runs_confirmed [OF two_run crossing_ran crossing_escapes] by (simp add: crossing_call_def)

theorem crossings_of_runs_on_record_witness: "Audit ''dangerous_removal'' ''bash'' ''home'' True \<in> set (rv_audits two_outcome)"
  using crossings_of_runs_on_record [OF two_run crossing_ran] by (simp add: crossing_audits_def crossing_call_def crossing_def)

theorem persons_question_runs_on_a_yes_witness:
  "persons_question Mode_bypass crossing_call \<and> person_approved [Prompted False Approve]"
proof -
  have q: "persons_question Mode_bypass crossing_call"
    by (simp add: persons_question_def summary_defs crossing_call_def crossing_def)
  then have "person_approved [Prompted False Approve]"
    by (intro persons_question_runs_on_a_yes [OF two_run two_prepares crossing_ran])
      (simp_all add: mode_of_def is_plan_file_write_def demo_options_def)
  then show ?thesis using q by blast
qed

theorem escape_runs_on_a_yes_witness: "sandbox_escape crossing_call \<and> person_approved [Prompted False Approve]"
  using escape_runs_on_a_yes [OF two_run crossing_ran crossing_escapes] crossing_escapes by (simp add: demo_options_def)

text \<open>A reviewer that aborts, and a person who rewrites the denied call into one the gate allows.\<close>

definition stopping :: "nat reviewer" where
  "stopping calls n = (Abort ''stopped'', Suc n, [])"

lemma stopped_run: "run_tool_review two_context stopping two_calls None 0
    = Some (unanswered [Audit ''tool_call'' ''wipe'' [] False] None, 1, [])"
  by (simp add: review_defs two_defs stopping_def Let_def authorized_def)

theorem unanswered_only_when_stopped_witness: "\<exists>asked d. stopping asked 0 = (d, 1, []) \<and> stops d"
  using unanswered_only_when_stopped [OF stopped_run] by (simp only: none_ran) blast

definition rewritten_call :: call_summary where
  "rewritten_call = summary_of two_context (prepared ''c1'' ''edit'' None)"

lemma rewritten_run:
  "\<exists>r. conclude two_context two_calls [] [] [] None (Modify_tools [Modify_call ''c1'' (Some (V_object []))] []) = Some r
    \<and> rewritten_call \<in> set (rv_ran r)"
  by (simp add: review_defs two_defs rewritten_call_def Let_def)

theorem rewritten_call_needs_allowance_witness:
  "\<exists>g. gate_verdict two_context two_gate rewritten_call = Answered g \<and> gr_decision g = Allow"
proof -
  obtain r where r: "conclude two_context two_calls [] [] [] None (Modify_tools [Modify_call ''c1'' (Some (V_object []))] []) = Some r"
    "rewritten_call \<in> set (rv_ran r)" using rewritten_run by blast
  have i: "sm_id rewritten_call = ''c1''" by (simp add: rewritten_call_def summary_of_def prepared_def Let_def)
  show ?thesis
    by (rule rewritten_call_needs_allowance [OF r(1) _ _ _ r(2), where v = "V_object []"]) (simp_all add: i two_defs)
qed

end
