(* ===== verification/SessionLease.thy ===== *)
theory SessionLease
  imports Prelude
begin

text \<open>
  The writer lease of a session (\<open>store/session-log/lease.ts\<close>): the claim rule, the
  in-memory store, and the disk store, whose holdings are files named by their
  fence. Each store operation runs here without interruption; \<open>LeaseRace\<close> breaks
  the disk operations into the steps another process can come between.

  A file system call that fails for another reason than \<open>EEXIST\<close> ends the
  operation with an error; those ends are the aborts of \<open>LeaseRace\<close>.
\<close>

subsection \<open>The claim rule\<close>

record lease =
  lease_holder :: string
  lease_fence :: nat
  lease_expires :: int

record claim_options =
  claim_holder :: string
  claim_ttl :: int
  claim_now :: int

record claim_context =
  ctx_renew :: "lease option"
  ctx_above :: nat              \<comment> \<open>0 when absent\<close>

datatype claim_decision = Renew nat | Refuse | Mint nat

definition is_lease_live :: "lease option \<Rightarrow> int \<Rightarrow> bool" where
  "is_lease_live l now =
     (case l of None \<Rightarrow> False | Some l \<Rightarrow> lease_holder l \<noteq> [] \<and> now < lease_expires l)"

definition presented :: "lease option \<Rightarrow> claim_options \<Rightarrow> claim_context \<Rightarrow> bool" where
  "presented held opts ctx =
     (case (held, ctx_renew ctx) of
        (Some h, Some r) \<Rightarrow> lease_holder h \<noteq> [] \<and> lease_fence h = lease_fence r
          \<and> lease_holder h = lease_holder r \<and> lease_holder h = claim_holder opts
      | _ \<Rightarrow> False)"

definition fence_of :: "lease option \<Rightarrow> nat" where
  "fence_of l = (case l of None \<Rightarrow> 0 | Some l \<Rightarrow> lease_fence l)"

definition decide_claim :: "lease option \<Rightarrow> claim_options \<Rightarrow> claim_context \<Rightarrow> claim_decision" where
  "decide_claim held opts ctx =
     (if presented held opts ctx \<and> fence_of held \<ge> ctx_above ctx then Renew (fence_of held)
      else if \<not> presented held opts ctx \<and> is_lease_live held (claim_now opts) then Refuse
      else Mint (max (fence_of held) (ctx_above ctx) + 1))"

text \<open>The lease a successful claim returns, at the fence decided.\<close>

definition claimed :: "claim_options \<Rightarrow> nat \<Rightarrow> lease" where
  "claimed opts f = \<lparr>lease_holder = claim_holder opts, lease_fence = f,
     lease_expires = claim_now opts + claim_ttl opts\<rparr>"

text \<open>What a release leaves: nobody's, expired, one fence up.\<close>

definition tombstone :: "nat \<Rightarrow> lease" where
  "tombstone f = \<lparr>lease_holder = [], lease_fence = f + 1, lease_expires = 0\<rparr>"

subsection \<open>In process\<close>

type_synonym mem_leases = "lease option"

definition mem_fence :: "mem_leases \<Rightarrow> nat" where
  "mem_fence s = fence_of s"

definition mem_current :: "mem_leases \<Rightarrow> lease option" where
  "mem_current s = s"

definition mem_claim :: "claim_options \<Rightarrow> claim_context \<Rightarrow> mem_leases \<Rightarrow> mem_leases \<times> lease option" where
  "mem_claim opts ctx s =
     (case decide_claim s opts ctx of
        Refuse \<Rightarrow> (s, None)
      | Renew f \<Rightarrow> (Some (claimed opts f), Some (claimed opts f))
      | Mint f \<Rightarrow> (Some (claimed opts f), Some (claimed opts f)))"

definition mem_release :: "lease \<Rightarrow> mem_leases \<Rightarrow> mem_leases" where
  "mem_release l s =
     (case s of
        None \<Rightarrow> s
      | Some c \<Rightarrow> if lease_fence c \<noteq> lease_fence l then s else Some (tombstone (lease_fence l)))"

subsection \<open>On disk\<close>

text \<open>
  \<open>lease.<fence>.json\<close> holds a holder and an expiry, or something that does not
  read as that. The directory also has the view \<open>lease.json\<close>, which no decision
  reads.
\<close>

record lease_file =
  file_fence :: nat
  file_body :: "(string \<times> int) option"

record lease_dir =
  fence_files :: "lease_file list"
  lease_view :: "lease option"

definition keep_below_max :: nat where
  "keep_below_max = 8"

text \<open>The first of the fence names sorted from the highest down.\<close>

definition top_fence :: "lease_file list \<Rightarrow> nat option" where
  "top_fence files = (if files = [] then None else Some (Max (set (map file_fence files))))"

definition read_body :: "lease_file list \<Rightarrow> nat \<Rightarrow> (string \<times> int) option" where
  "read_body files f =
     (case kfind file_fence f files of None \<Rightarrow> None | Some x \<Rightarrow> file_body x)"

text \<open>An unreadable body leaves the fence, which the name tells, and no holder.\<close>

definition lease_at :: "lease_file list \<Rightarrow> nat \<Rightarrow> lease" where
  "lease_at files f =
     (case read_body files f of
        None \<Rightarrow> \<lparr>lease_holder = [], lease_fence = f, lease_expires = 0\<rparr>
      | Some (h, e) \<Rightarrow> \<lparr>lease_holder = h, lease_fence = f, lease_expires = e\<rparr>)"

definition disk_fence :: "lease_dir \<Rightarrow> nat" where
  "disk_fence d = (case top_fence (fence_files d) of None \<Rightarrow> 0 | Some f \<Rightarrow> f)"

definition disk_current :: "lease_dir \<Rightarrow> lease option" where
  "disk_current d = map_option (lease_at (fence_files d)) (top_fence (fence_files d))"

text \<open>\<open>link\<close> makes the whole file appear, or fails with \<open>EEXIST\<close>.\<close>

definition publish :: "nat \<Rightarrow> string \<times> int \<Rightarrow> lease_file list \<Rightarrow> lease_file list option" where
  "publish f body files =
     (if khas file_fence f files then None
      else Some (files @ [\<lparr>file_fence = f, file_body = Some body\<rparr>]))"

definition replace_body :: "nat \<Rightarrow> string \<times> int \<Rightarrow> lease_file list \<Rightarrow> lease_file list" where
  "replace_body f body files = kput file_fence \<lparr>file_fence = f, file_body = Some body\<rparr> files"

definition prune :: "nat \<Rightarrow> lease_file list \<Rightarrow> lease_file list" where
  "prune m files = filter (\<lambda>x. \<not> file_fence x < m - keep_below_max) files"

definition write_view :: "lease \<Rightarrow> lease_dir \<Rightarrow> lease_dir" where
  "write_view l d = d\<lparr>lease_view := Some (if lease_holder l = [] then l\<lparr>lease_holder := ''released''\<rparr> else l)\<rparr>"

definition body_of :: "claim_options \<Rightarrow> string \<times> int" where
  "body_of opts = (claim_holder opts, claim_now opts + claim_ttl opts)"

fun disk_claim_loop ::
    "nat \<Rightarrow> claim_options \<Rightarrow> claim_context \<Rightarrow> lease_dir \<Rightarrow> lease_dir \<times> lease option" where
  "disk_claim_loop 0 opts ctx d = (d, None)"
| "disk_claim_loop (Suc attempts) opts ctx d =
     (case decide_claim (disk_current d) opts ctx of
        Refuse \<Rightarrow> (d, None)
      | Renew f \<Rightarrow>
          (let d' = d\<lparr>fence_files := replace_body f (body_of opts) (fence_files d)\<rparr> in
           if disk_fence d' \<noteq> f then (d', None)
           else (write_view (claimed opts f) d', Some (claimed opts f)))
      | Mint f \<Rightarrow>
          (case publish f (body_of opts) (fence_files d) of
             None \<Rightarrow> disk_claim_loop attempts opts ctx d
           | Some files \<Rightarrow>
               ((write_view (claimed opts f) d)\<lparr>fence_files := prune f files\<rparr>, Some (claimed opts f))))"

definition disk_claim :: "claim_options \<Rightarrow> claim_context \<Rightarrow> lease_dir \<Rightarrow> lease_dir \<times> lease option" where
  "disk_claim = disk_claim_loop 8"

definition disk_release :: "lease \<Rightarrow> lease_dir \<Rightarrow> lease_dir" where
  "disk_release l d =
     (if disk_fence d \<noteq> lease_fence l then d
      else (case publish (lease_fence l + 1) ([], 0) (fence_files d) of
              None \<Rightarrow> d
            | Some files \<Rightarrow> write_view (tombstone (lease_fence l)) (d\<lparr>fence_files := files\<rparr>)))"

subsection \<open>What a lease store promises\<close>

lemma decision_cases:
  obtains (refuse) "decide_claim h opts ctx = Refuse" "is_lease_live h (claim_now opts)" "\<not> presented h opts ctx"
  | (renew) f where "decide_claim h opts ctx = Renew f" "f = fence_of h" "presented h opts ctx"
  | (mint) f where "decide_claim h opts ctx = Mint f" "fence_of h < f" "ctx_above ctx < f"
proof -
  consider "presented h opts ctx \<and> fence_of h \<ge> ctx_above ctx"
    | "\<not> presented h opts ctx \<and> is_lease_live h (claim_now opts)"
    | "\<not> (presented h opts ctx \<and> fence_of h \<ge> ctx_above ctx)"
      "\<not> (\<not> presented h opts ctx \<and> is_lease_live h (claim_now opts))" by blast
  then show ?thesis
  proof cases
    case 1
    then show ?thesis using renew [of "fence_of h"] by (simp add: decide_claim_def)
  next
    case 2
    then show ?thesis using refuse by (simp add: decide_claim_def)
  next
    case 3
    have "decide_claim h opts ctx = Mint (max (fence_of h) (ctx_above ctx) + 1)"
      unfolding decide_claim_def using 3 by (simp only: if_False)
    then show ?thesis using mint by simp
  qed
qed

text \<open>A sequence of operations, with the leases it granted, in order.\<close>

datatype lease_op = Claim claim_options claim_context | Release lease

fun run_leases ::
    "(claim_options \<Rightarrow> claim_context \<Rightarrow> 's \<Rightarrow> 's \<times> lease option) \<Rightarrow> (lease \<Rightarrow> 's \<Rightarrow> 's)
      \<Rightarrow> lease_op list \<Rightarrow> 's \<Rightarrow> 's \<times> lease list" where
  "run_leases claim release [] s = (s, [])"
| "run_leases claim release (Claim opts ctx # ops) s =
     (let (s', r) = claim opts ctx s; (t, granted) = run_leases claim release ops s'
      in (t, (case r of None \<Rightarrow> granted | Some l \<Rightarrow> l # granted)))"
| "run_leases claim release (Release l # ops) s = run_leases claim release ops (release l s)"

text \<open>Leases handed back are leases once granted, whose fence is not 0.\<close>

definition releases_granted :: "lease_op list \<Rightarrow> bool" where
  "releases_granted ops \<longleftrightarrow> (\<forall>l. Release l \<in> set ops \<longrightarrow> 0 < lease_fence l)"

locale lease_store =
  fixes claim :: "claim_options \<Rightarrow> claim_context \<Rightarrow> 's \<Rightarrow> 's \<times> lease option"
    and release :: "lease \<Rightarrow> 's \<Rightarrow> 's"
    and current :: "'s \<Rightarrow> lease option"
    and fence :: "'s \<Rightarrow> nat"
    and ok :: "'s \<Rightarrow> bool"
  assumes fence_current: "ok s \<Longrightarrow> fence s = fence_of (current s)"
    and claim_refuse: "ok s \<Longrightarrow> decide_claim (current s) opts ctx = Refuse \<Longrightarrow> claim opts ctx s = (s, None)"
    and claim_take: "ok s \<Longrightarrow> decide_claim (current s) opts ctx \<in> {Renew f, Mint f} \<Longrightarrow>
      \<exists>s'. claim opts ctx s = (s', Some (claimed opts f)) \<and> current s' = Some (claimed opts f) \<and> ok s'"
    and release_current: "ok s \<Longrightarrow> current s = Some l' \<Longrightarrow> lease_fence l' = lease_fence l \<Longrightarrow>
      current (release l s) = Some (tombstone (lease_fence l)) \<and> ok (release l s)"
    and release_stale: "ok s \<Longrightarrow> 0 < lease_fence l \<Longrightarrow> fence_of (current s) \<noteq> lease_fence l \<Longrightarrow> release l s = s"
begin

lemma claim_ok: "ok s \<Longrightarrow> claim opts ctx s = (s', r) \<Longrightarrow> ok s'"
  by (rule decision_cases [of "current s" opts ctx])
    (use claim_refuse claim_take in \<open>fastforce+\<close>)

lemma claim_fence:
  assumes "ok s" and "claim opts ctx s = (s', r)"
  shows "fence s \<le> fence s'" and "r = Some l \<Longrightarrow> current s' = Some l \<and> lease_fence l = fence s'"
proof -
  have ok': "ok s'" using claim_ok [OF assms] .
  have "fence s \<le> fence s' \<and> (r = Some l \<longrightarrow> current s' = Some l \<and> lease_fence l = fence s')"
  proof (rule decision_cases [of "current s" opts ctx])
    assume "decide_claim (current s) opts ctx = Refuse"
    then show ?thesis using claim_refuse assms by auto
  next
    fix f assume "decide_claim (current s) opts ctx = Renew f" "f = fence_of (current s)"
    then show ?thesis
      using claim_take [of s opts ctx f] assms fence_current ok' by (auto simp: fence_of_def claimed_def)
  next
    fix f assume "decide_claim (current s) opts ctx = Mint f" "fence_of (current s) < f"
    then show ?thesis
      using claim_take [of s opts ctx f] assms fence_current ok' by (auto simp: fence_of_def claimed_def)
  qed
  then show "fence s \<le> fence s'" and "r = Some l \<Longrightarrow> current s' = Some l \<and> lease_fence l = fence s'"
    by auto
qed

text \<open>A live lease is not taken from the holder by a claim that does not present it.\<close>

lemma live_excludes:
  "ok s \<Longrightarrow> is_lease_live (current s) (claim_now opts) \<Longrightarrow> \<not> presented (current s) opts ctx
   \<Longrightarrow> claim opts ctx s = (s, None)"
  by (rule claim_refuse) (simp_all add: decide_claim_def)

text \<open>A claim that changes hands, or finds no holding it presents, takes a fence above all before.\<close>

lemma taking_raises:
  assumes "ok s" "claim opts ctx s = (s', Some l)" "\<not> presented (current s) opts ctx"
  shows "fence s < lease_fence l \<and> ctx_above ctx < lease_fence l"
proof (rule decision_cases [of "current s" opts ctx])
  assume "decide_claim (current s) opts ctx = Refuse"
  then show ?thesis using claim_refuse assms by auto
next
  fix f assume "decide_claim (current s) opts ctx = Mint f" "fence_of (current s) < f" "ctx_above ctx < f"
  then show ?thesis
    using claim_take [of s opts ctx f] assms fence_current by (auto simp: claimed_def)
qed (use assms(3) in simp)

lemma release_ok: "ok s \<Longrightarrow> 0 < lease_fence l \<Longrightarrow> ok (release l s)"
  using release_current [of s "the (current s)" l] release_stale [of s l]
  by (cases "current s"; cases "fence_of (current s) = lease_fence l") (auto simp: fence_of_def)

lemma release_fence:
  assumes "ok s" "0 < lease_fence l"
  shows "fence s \<le> fence (release l s)" and "fence (release l s) \<noteq> lease_fence l"
proof -
  have "fence s \<le> fence (release l s) \<and> fence (release l s) \<noteq> lease_fence l"
  proof (cases "fence_of (current s) = lease_fence l")
    case True
    then obtain c where "current s = Some c" "lease_fence c = lease_fence l"
      using assms(2) by (cases "current s") (auto simp: fence_of_def)
    then show ?thesis
      using release_current [of s c l] assms fence_current by (auto simp: fence_of_def tombstone_def)
  next
    case False
    then show ?thesis using release_stale [of s l] assms fence_current by auto
  qed
  then show "fence s \<le> fence (release l s)" and "fence (release l s) \<noteq> lease_fence l" by auto
qed

lemma claim_same_fence:
  assumes "ok s" "claim opts ctx s = (s', Some l)" "lease_fence l = fence s"
  shows "\<exists>c. current s = Some c \<and> lease_holder c = lease_holder l"
proof (rule decision_cases [of "current s" opts ctx])
  fix f assume "decide_claim (current s) opts ctx = Renew f" "presented (current s) opts ctx"
  then show ?thesis
    using claim_take [of s opts ctx f] assms
    by (auto simp: claimed_def presented_def split: option.splits)
next
  fix f assume "decide_claim (current s) opts ctx = Mint f" "fence_of (current s) < f"
  then show ?thesis using claim_take [of s opts ctx f] assms fence_current by (auto simp: claimed_def)
qed (use claim_refuse assms in auto)

text \<open>
  Along a run the fences granted never go back, and one fence has one holder.
\<close>

lemma run_granted:
  "ok s \<Longrightarrow> releases_granted ops \<Longrightarrow> run_leases claim release ops s = (t, granted) \<Longrightarrow>
   ok t \<and> fence s \<le> fence t \<and>
   (\<forall>l \<in> set granted. fence s \<le> lease_fence l \<and>
      (lease_fence l = fence s \<longrightarrow> (\<exists>c. current s = Some c \<and> lease_holder c = lease_holder l))) \<and>
   sorted_wrt (\<lambda>l l'. lease_fence l < lease_fence l'
      \<or> lease_fence l = lease_fence l' \<and> lease_holder l = lease_holder l') granted"
proof (induction ops arbitrary: s t granted)
  case (Cons op ops)
  have rel: "releases_granted ops" using Cons.prems(2) by (simp add: releases_granted_def)
  show ?case
  proof (cases op)
    case (Claim opts ctx)
    obtain s' r where c: "claim opts ctx s = (s', r)" by (cases "claim opts ctx s")
    obtain g where g: "run_leases claim release ops s' = (t, g)"
      and granted: "granted = (case r of None \<Rightarrow> g | Some l \<Rightarrow> l # g)"
      using Cons.prems(3) Claim c by (auto simp: Let_def split: prod.splits)
    have ok': "ok s'" using claim_ok [OF Cons.prems(1) c] .
    note IH = Cons.IH [OF ok' rel g]
    have le: "fence s \<le> fence s'" using claim_fence(1) [OF Cons.prems(1) c] .
    show ?thesis
    proof (cases r)
      case None
      then have "decide_claim (current s) opts ctx = Refuse"
        using claim_take [OF Cons.prems(1), of opts ctx] c
        by (cases "decide_claim (current s) opts ctx") auto
      then have "s' = s" using claim_refuse [OF Cons.prems(1)] c by simp
      with IH None granted show ?thesis by simp
    next
      case (Some l)
      have l: "current s' = Some l" "lease_fence l = fence s'"
        using claim_fence(2) [OF Cons.prems(1) c Some] by simp_all
      have rest: "\<forall>x \<in> set g. lease_fence l < lease_fence x
          \<or> lease_fence l = lease_fence x \<and> lease_holder l = lease_holder x"
        using IH l by fastforce
      have same: "lease_fence x = fence s \<Longrightarrow> \<exists>c. current s = Some c \<and> lease_holder c = lease_holder x"
        if "x = l \<or> x \<in> set g" for x
        using that claim_same_fence [OF Cons.prems(1) c [unfolded Some]] rest l le by fastforce
      show ?thesis using IH Some granted rest l le same by fastforce
    qed
  next
    case (Release l)
    have pos: "0 < lease_fence l" using Cons.prems(2) Release by (auto simp: releases_granted_def)
    have run: "run_leases claim release ops (release l s) = (t, granted)"
      using Cons.prems(3) Release by simp
    note IH = Cons.IH [OF release_ok [OF Cons.prems(1) pos] rel run]
    have le: "fence s \<le> fence (release l s)" using release_fence(1) [OF Cons.prems(1) pos] .
    show ?thesis
    proof (cases "fence_of (current s) = lease_fence l")
      case True
      then obtain c where "current s = Some c" "lease_fence c = lease_fence l"
        using pos by (cases "current s") (auto simp: fence_of_def)
      then have "fence s < fence (release l s)"
        using release_current [of s c l] Cons.prems(1) fence_current by (auto simp: fence_of_def tombstone_def)
      with IH show ?thesis by fastforce
    next
      case False
      then have "release l s = s" using release_stale [OF Cons.prems(1) pos] by simp
      with IH show ?thesis by simp
    qed
  qed
qed (simp add: releases_granted_def)

end

subsection \<open>Both stores keep it\<close>

interpretation mem_leases: lease_store mem_claim mem_release mem_current mem_fence "\<lambda>s. True"
  by unfold_locales
    (auto simp: mem_fence_def mem_current_def mem_claim_def mem_release_def fence_of_def split: option.splits)

definition dir_ok :: "lease_dir \<Rightarrow> bool" where
  "dir_ok d \<longleftrightarrow> distinct_keys file_fence (fence_files d) \<and> (\<forall>x \<in> set (fence_files d). 0 < file_fence x)"

text \<open>Facts of the fence names.\<close>

lemma top_fence_Some: "top_fence files = Some f \<longleftrightarrow> files \<noteq> [] \<and> f = Max (file_fence ` set files)"
  by (auto simp: top_fence_def)

lemma top_fence_cong: "file_fence ` set files = file_fence ` set files' \<Longrightarrow> top_fence files = top_fence files'"
  unfolding top_fence_def by (metis empty_set image_is_empty set_empty set_map)

lemma top_fence_is:
  "x \<in> set files \<Longrightarrow> file_fence x = f \<Longrightarrow> \<forall>y \<in> set files. file_fence y \<le> f \<Longrightarrow> top_fence files = Some f"
  unfolding top_fence_def by (force intro!: Max_eqI)

lemma top_fence_ge: "x \<in> set files \<Longrightarrow> \<exists>f. top_fence files = Some f \<and> file_fence x \<le> f"
  by (auto simp: top_fence_def)

lemma disk_fence_ge: "x \<in> set (fence_files d) \<Longrightarrow> file_fence x \<le> disk_fence d"
  using top_fence_ge [of x "fence_files d"] by (auto simp: disk_fence_def)

lemma fence_lease_at [simp]: "lease_fence (lease_at files f) = f"
  by (simp add: lease_at_def split: option.splits prod.splits)

lemma disk_fence_current: "disk_fence d = fence_of (disk_current d)"
  by (simp add: disk_fence_def disk_current_def fence_of_def split: option.splits)

lemma current_is:
  assumes "kfind file_fence f files = Some x" "file_body x = Some (h, e)" "top_fence files = Some f"
  shows "disk_current (d\<lparr>fence_files := files\<rparr>) = Some \<lparr>lease_holder = h, lease_fence = f, lease_expires = e\<rparr>"
  using assms by (simp add: disk_current_def lease_at_def read_body_def)

lemma view_files [simp]: "fence_files (write_view l d) = fence_files d"
  by (simp add: write_view_def)

lemma view_current [simp]:
  "disk_current (write_view l d) = disk_current d" "dir_ok (write_view l d) = dir_ok d"
  "disk_current (write_view l d\<lparr>fence_files := files\<rparr>) = disk_current (d\<lparr>fence_files := files\<rparr>)"
  "dir_ok (write_view l d\<lparr>fence_files := files\<rparr>) = dir_ok (d\<lparr>fence_files := files\<rparr>)"
  by (simp_all add: disk_current_def dir_ok_def)

text \<open>A file published above every fence becomes the top, alone and after pruning.\<close>

lemma publish_top:
  assumes "dir_ok d" "disk_fence d < f"
  obtains files where "publish f (h, e) (fence_files d) = Some files"
    "disk_current (d\<lparr>fence_files := files\<rparr>) = Some \<lparr>lease_holder = h, lease_fence = f, lease_expires = e\<rparr>"
    "dir_ok (d\<lparr>fence_files := files\<rparr>)"
    "disk_current (d\<lparr>fence_files := prune f files\<rparr>) = Some \<lparr>lease_holder = h, lease_fence = f, lease_expires = e\<rparr>"
    "dir_ok (d\<lparr>fence_files := prune f files\<rparr>)"
proof -
  let ?x = "\<lparr>file_fence = f, file_body = Some (h, e)\<rparr>" and ?old = "fence_files d"
  have below: "\<forall>y \<in> set ?old. file_fence y < f" using assms disk_fence_ge by fastforce
  have new: "\<not> khas file_fence f ?old" using below by (auto simp: khas_def)
  let ?files = "?old @ [?x]"
  have pub: "publish f (h, e) ?old = Some ?files" using new by (simp add: publish_def)
  have dist: "distinct_keys file_fence ?files" using assms(1) below by (auto simp: dir_ok_def)
  have dist': "distinct_keys file_fence (prune f ?files)"
    unfolding prune_def using dist by (rule distinct_map_filter)
  have top: "top_fence ?files = Some f" "top_fence (prune f ?files) = Some f"
    using below by (auto intro!: top_fence_is [of ?x] simp: prune_def dest: less_imp_le)
  have find: "kfind file_fence f ?files = Some ?x" "kfind file_fence f (prune f ?files) = Some ?x"
    using dist dist' by (auto simp: kfind_iff prune_def)
  show ?thesis
  proof (rule that [OF pub])
    show "dir_ok (d\<lparr>fence_files := ?files\<rparr>)"
      using dist assms by (auto simp: dir_ok_def)
    show "dir_ok (d\<lparr>fence_files := prune f ?files\<rparr>)"
      using dist' assms by (auto simp: dir_ok_def prune_def)
  qed (simp_all add: current_is [OF find(1) _ top(1)] current_is [OF find(2) _ top(2)])
qed

lemma renew_top:
  assumes "dir_ok d" "top_fence (fence_files d) = Some f"
  shows "disk_current (d\<lparr>fence_files := replace_body f (h, e) (fence_files d)\<rparr>)
      = Some \<lparr>lease_holder = h, lease_fence = f, lease_expires = e\<rparr>"
    and "dir_ok (d\<lparr>fence_files := replace_body f (h, e) (fence_files d)\<rparr>)"
    and "disk_fence (d\<lparr>fence_files := replace_body f (h, e) (fence_files d)\<rparr>) = f"
proof -
  have m: "f \<in> file_fence ` set (fence_files d)"
    using assms(2) by (auto simp: top_fence_def split: if_splits)
  have keys: "map file_fence (replace_body f (h, e) (fence_files d)) = map file_fence (fence_files d)"
    using m by (simp add: replace_body_def keys_kput)
  then have top: "top_fence (replace_body f (h, e) (fence_files d)) = Some f"
    using assms(2) top_fence_cong [of "replace_body f (h, e) (fence_files d)" "fence_files d"]
    by (metis set_map)
  show "disk_current (d\<lparr>fence_files := replace_body f (h, e) (fence_files d)\<rparr>)
      = Some \<lparr>lease_holder = h, lease_fence = f, lease_expires = e\<rparr>"
    by (rule current_is [where x = "\<lparr>file_fence = f, file_body = Some (h, e)\<rparr>", OF _ _ top])
      (simp_all add: replace_body_def)
  have img: "file_fence ` set (replace_body f (h, e) (fence_files d)) = file_fence ` set (fence_files d)"
    using keys by (metis list.set_map)
  have "0 < file_fence x" if x: "x \<in> set (replace_body f (h, e) (fence_files d))" for x
  proof -
    have "file_fence x \<in> file_fence ` set (fence_files d)" unfolding img [symmetric] using x by simp
    then show ?thesis using assms(1) by (auto simp: dir_ok_def)
  qed
  then show "dir_ok (d\<lparr>fence_files := replace_body f (h, e) (fence_files d)\<rparr>)"
    using keys assms(1) by (simp add: dir_ok_def)
  show "disk_fence (d\<lparr>fence_files := replace_body f (h, e) (fence_files d)\<rparr>) = f"
    using top by (simp add: disk_fence_def)
qed

lemma disk_claim_step:
  "disk_claim opts ctx d = disk_claim_loop (Suc 7) opts ctx d"
proof -
  have "8 = Suc (7::nat)" by simp
  then show ?thesis unfolding disk_claim_def by (rule arg_cong [of _ _ "\<lambda>n. disk_claim_loop n opts ctx d"])
qed

interpretation disk_leases: lease_store disk_claim disk_release disk_current disk_fence dir_ok
proof
  fix d :: lease_dir and opts ctx f and l l' :: lease
  assume ok: "dir_ok d"
  show "disk_fence d = fence_of (disk_current d)" by (rule disk_fence_current)
  {
    assume "decide_claim (disk_current d) opts ctx = Refuse"
    then show "disk_claim opts ctx d = (d, None)"
      unfolding disk_claim_step disk_claim_loop.simps by simp
  }
  {
    assume dec: "decide_claim (disk_current d) opts ctx \<in> {Renew f, Mint f}"
    show "\<exists>d'. disk_claim opts ctx d = (d', Some (claimed opts f))
        \<and> disk_current d' = Some (claimed opts f) \<and> dir_ok d'"
    proof (rule decision_cases [of "disk_current d" opts ctx])
      fix g assume r: "decide_claim (disk_current d) opts ctx = Renew g" "g = fence_of (disk_current d)"
        "presented (disk_current d) opts ctx"
      then have g: "g = f" and top: "top_fence (fence_files d) = Some f"
        using dec by (auto simp: presented_def disk_current_def fence_of_def split: option.splits)
      note n = renew_top [OF ok top, of "claim_holder opts" "claim_now opts + claim_ttl opts"]
      show ?thesis using r n unfolding g
        unfolding disk_claim_step disk_claim_loop.simps by (simp add: body_of_def claimed_def)
    next
      fix g assume m: "decide_claim (disk_current d) opts ctx = Mint g" "fence_of (disk_current d) < g"
      then have g: "g = f" and lt: "disk_fence d < f" using dec disk_fence_current by auto
      from publish_top [OF ok lt, of "claim_holder opts" "claim_now opts + claim_ttl opts"]
      obtain files where n: "publish f (body_of opts) (fence_files d) = Some files"
        "disk_current (d\<lparr>fence_files := prune f files\<rparr>) = Some (claimed opts f)"
        "dir_ok (d\<lparr>fence_files := prune f files\<rparr>)"
        by (auto simp: body_of_def claimed_def)
      show ?thesis using m n unfolding g
        unfolding disk_claim_step disk_claim_loop.simps by simp
    qed (use dec in simp)
  }
  {
    assume c: "disk_current d = Some l'" "lease_fence l' = lease_fence l"
    then have f: "disk_fence d = lease_fence l" by (simp add: disk_fence_current fence_of_def)
    from publish_top [OF ok, of "lease_fence l + 1" "[]" 0] f obtain files where
      n: "publish (lease_fence l + 1) ([], 0) (fence_files d) = Some files"
      "disk_current (d\<lparr>fence_files := files\<rparr>) = Some (tombstone (lease_fence l))"
      "dir_ok (d\<lparr>fence_files := files\<rparr>)"
      by (auto simp: tombstone_def)
    show "disk_current (disk_release l d) = Some (tombstone (lease_fence l)) \<and> dir_ok (disk_release l d)"
      using n f by (simp add: disk_release_def)
  }
  {
    assume "fence_of (disk_current d) \<noteq> lease_fence l"
    then show "disk_release l d = d" by (simp add: disk_release_def disk_fence_current)
  }
qed

end
