(* ===== verification/LeaseRace.thy ===== *)
theory LeaseRace
  imports SessionLease
begin

text \<open>
  The disk lease store under concurrency (\<open>store/session-log/lease.ts\<close>): any number
  of log instances, in one process or several, run \<open>claim\<close> and \<open>release\<close> against
  one session directory, and every file system call is a step others can come
  between. An instance presents to \<open>claim\<close> only a holding it was given
  (\<open>SessionLogCore.claim\<close>). An abort at any point stands for a crash and for a
  file system call that throws. \<open>lease.json\<close> is left out: nothing reads it.
\<close>

subsection \<open>Steps\<close>

text \<open>Where one instance is in its operation; \<open>n\<close> counts the attempts that are left.\<close>

datatype phase =
    Idle
  | Starting claim_options claim_context nat              \<comment> \<open>about to list the directory\<close>
  | Listed claim_options claim_context nat "nat option"   \<comment> \<open>the highest fence listed\<close>
  | Minting claim_options claim_context nat nat           \<comment> \<open>about to link the fence\<close>
  | Linked claim_options nat                              \<comment> \<open>linked, pruning\<close>
  | Renewing claim_options nat
  | Renewed claim_options nat                             \<comment> \<open>replaced, about to check the fence\<close>
  | Releasing nat                                         \<comment> \<open>its fence was the current one\<close>

record race =
  race_files :: "lease_file list"
  race_phase :: "nat \<Rightarrow> phase"
  race_held :: "nat \<Rightarrow> lease option"
  race_minted :: "(nat \<times> nat) list"     \<comment> \<open>history: who linked which fence\<close>

datatype race_action =
    StartClaim nat claim_options nat     \<comment> \<open>instance, options, \<open>above\<close>\<close>
  | ListDir nat
  | ReadTop nat
  | LinkFence nat
  | Unlink nat nat
  | ReturnMinted nat
  | ReplaceTop nat
  | CheckTop nat
  | StartRelease nat
  | LinkTombstone nat
  | Abort nat
  | Forget nat

definition to_phase :: "nat \<Rightarrow> phase \<Rightarrow> race \<Rightarrow> race" where
  "to_phase p ph s = s\<lparr>race_phase := (race_phase s)(p := ph)\<rparr>"

definition top_of :: "lease_file list \<Rightarrow> nat" where
  "top_of files = (case top_fence files of None \<Rightarrow> 0 | Some f \<Rightarrow> f)"

abbreviation race_top :: "race \<Rightarrow> nat" where
  "race_top s \<equiv> top_of (race_files s)"

fun after_read :: "claim_options \<Rightarrow> claim_context \<Rightarrow> nat \<Rightarrow> claim_decision \<Rightarrow> phase" where
  "after_read opts ctx n Refuse = Idle"
| "after_read opts ctx n (Renew f) = Renewing opts f"
| "after_read opts ctx n (Mint f) = Minting opts ctx n f"

fun race_step :: "race_action \<Rightarrow> race \<Rightarrow> race option" where
  "race_step (StartClaim p opts floor_gen) s =
     (case race_phase s p of
        Idle \<Rightarrow> Some (to_phase p (Starting opts \<lparr>ctx_renew = race_held s p, ctx_above = floor_gen\<rparr> 7) s)
      | _ \<Rightarrow> None)"
| "race_step (ListDir p) s =
     (case race_phase s p of
        Starting opts ctx n \<Rightarrow> Some (to_phase p (Listed opts ctx n (top_fence (race_files s))) s)
      | _ \<Rightarrow> None)"
| "race_step (ReadTop p) s =
     (case race_phase s p of
        Listed opts ctx n seen \<Rightarrow>
          Some (to_phase p (after_read opts ctx n
            (decide_claim (map_option (lease_at (race_files s)) seen) opts ctx)) s)
      | _ \<Rightarrow> None)"
| "race_step (LinkFence p) s =
     (case race_phase s p of
        Minting opts ctx n f \<Rightarrow>
          (case publish f (body_of opts) (race_files s) of
             None \<Rightarrow> Some (to_phase p (if n = 0 then Idle else Starting opts ctx (n - 1)) s)
           | Some files \<Rightarrow> Some (to_phase p (Linked opts f)
               (s\<lparr>race_files := files, race_minted := (p, f) # race_minted s\<rparr>)))
      | _ \<Rightarrow> None)"
| "race_step (Unlink p g) s =
     (case race_phase s p of
        Linked opts f \<Rightarrow>
          if g < f - keep_below_max then Some (s\<lparr>race_files := kdel file_fence g (race_files s)\<rparr>) else None
      | _ \<Rightarrow> None)"
| "race_step (ReturnMinted p) s =
     (case race_phase s p of
        Linked opts f \<Rightarrow> Some (to_phase p Idle (s\<lparr>race_held := (race_held s)(p := Some (claimed opts f))\<rparr>))
      | _ \<Rightarrow> None)"
| "race_step (ReplaceTop p) s =
     (case race_phase s p of
        Renewing opts f \<Rightarrow>
          Some (to_phase p (Renewed opts f) (s\<lparr>race_files := replace_body f (body_of opts) (race_files s)\<rparr>))
      | _ \<Rightarrow> None)"
| "race_step (CheckTop p) s =
     (case race_phase s p of
        Renewed opts f \<Rightarrow>
          Some (to_phase p Idle
            (if race_top s \<noteq> f then s else s\<lparr>race_held := (race_held s)(p := Some (claimed opts f))\<rparr>))
      | _ \<Rightarrow> None)"
| "race_step (StartRelease p) s =
     (case (race_phase s p, race_held s p) of
        (Idle, Some l) \<Rightarrow>
          Some (to_phase p (if race_top s \<noteq> lease_fence l then Idle else Releasing (lease_fence l))
            (s\<lparr>race_held := (race_held s)(p := None)\<rparr>))
      | _ \<Rightarrow> None)"
| "race_step (LinkTombstone p) s =
     (case race_phase s p of
        Releasing f \<Rightarrow>
          Some (to_phase p Idle
            (case publish (f + 1) ([], 0) (race_files s) of None \<Rightarrow> s | Some files \<Rightarrow> s\<lparr>race_files := files\<rparr>))
      | _ \<Rightarrow> None)"
| "race_step (Abort p) s = Some (to_phase p Idle s)"
| "race_step (Forget p) s = Some (to_phase p Idle (s\<lparr>race_held := (race_held s)(p := None)\<rparr>))"

definition race_start :: race where
  "race_start = \<lparr>race_files = [], race_phase = (\<lambda>_. Idle), race_held = (\<lambda>_. None), race_minted = []\<rparr>"

inductive race_reach :: "race \<Rightarrow> bool" where
  reach_start: "race_reach race_start"
| reach_step: "race_reach s \<Longrightarrow> race_step a s = Some t \<Longrightarrow> race_reach t"

fun race_run :: "race_action list \<Rightarrow> race \<Rightarrow> race option" where
  "race_run [] s = Some s"
| "race_run (a # acts) s = (case race_step a s of None \<Rightarrow> None | Some t \<Rightarrow> race_run acts t)"

lemma run_reach: "race_reach s \<Longrightarrow> race_run acts s = Some t \<Longrightarrow> race_reach t"
  by (induction acts s rule: race_run.induct) (auto split: option.splits intro: reach_step)

subsection \<open>The invariant\<close>

text \<open>What an instance carries through a claim was given to it.\<close>

definition mine :: "race \<Rightarrow> nat \<Rightarrow> lease option \<Rightarrow> bool" where
  "mine s p l \<longleftrightarrow> (\<forall>x. l = Some x \<longrightarrow> (p, lease_fence x) \<in> set (race_minted s))"

fun phase_ok :: "race \<Rightarrow> nat \<Rightarrow> phase \<Rightarrow> bool" where
  "phase_ok s p Idle = True"
| "phase_ok s p (Starting opts ctx n) = mine s p (ctx_renew ctx)"
| "phase_ok s p (Listed opts ctx n seen) = mine s p (ctx_renew ctx)"
| "phase_ok s p (Minting opts ctx n f) = (mine s p (ctx_renew ctx) \<and> 0 < f)"
| "phase_ok s p (Linked opts f) = ((p, f) \<in> set (race_minted s))"
| "phase_ok s p (Renewing opts f) = ((p, f) \<in> set (race_minted s))"
| "phase_ok s p (Renewed opts f) = ((p, f) \<in> set (race_minted s))"
| "phase_ok s p (Releasing f) = True"

definition race_inv :: "race \<Rightarrow> bool" where
  "race_inv s \<longleftrightarrow> distinct_keys file_fence (race_files s)
     \<and> (\<forall>p f. (p, f) \<in> set (race_minted s) \<longrightarrow> 0 < f \<and> f \<le> race_top s)
     \<and> (\<forall>p q. (p, race_top s) \<in> set (race_minted s) \<longrightarrow> (q, race_top s) \<in> set (race_minted s) \<longrightarrow> p = q)
     \<and> (\<forall>p. mine s p (race_held s p)) \<and> (\<forall>p. phase_ok s p (race_phase s p))"

lemmas race_invD =
  race_inv_def [THEN iffD1, THEN conjunct1]
  race_inv_def [THEN iffD1, THEN conjunct2, THEN conjunct1, rule_format]
  race_inv_def [THEN iffD1, THEN conjunct2, THEN conjunct2, THEN conjunct1, rule_format]
  race_inv_def [THEN iffD1, THEN conjunct2, THEN conjunct2, THEN conjunct2, THEN conjunct1, rule_format]
  race_inv_def [THEN iffD1, THEN conjunct2, THEN conjunct2, THEN conjunct2, THEN conjunct2, rule_format]

subsection \<open>The top fence\<close>

lemma top_of_Nil [simp]: "top_of [] = 0"
  by (simp add: top_of_def top_fence_def)

lemma top_of_Max: "files \<noteq> [] \<Longrightarrow> top_of files = Max (file_fence ` set files)"
  by (simp add: top_of_def top_fence_def)

lemma top_of_ge: "x \<in> set files \<Longrightarrow> file_fence x \<le> top_of files"
  using top_fence_ge [of x files] by (auto simp: top_of_def)

lemma top_of_mem: "0 < top_of files \<Longrightarrow> top_of files \<in> file_fence ` set files"
  by (cases "files = []") (simp_all add: top_of_Max)

lemma top_of_eqI:
  "\<forall>x \<in> set files. file_fence x \<le> t \<Longrightarrow> 0 < t \<Longrightarrow> t \<in> file_fence ` set files \<Longrightarrow> top_of files = t"
  by (subst top_of_Max) (auto intro!: Max_eqI)

lemma top_of_publish:
  assumes "publish f b files = Some files'"
  shows "top_of files' = max (top_of files) f" and "f \<notin> file_fence ` set files"
    and "distinct_keys file_fence files \<Longrightarrow> distinct_keys file_fence files'"
proof -
  have f: "files' = files @ [\<lparr>file_fence = f, file_body = Some b\<rparr>]" "f \<notin> file_fence ` set files"
    using assms by (auto simp: publish_def khas_set split: if_splits)
  show "f \<notin> file_fence ` set files" by (rule f(2))
  show "distinct_keys file_fence files \<Longrightarrow> distinct_keys file_fence files'" using f by auto
  show "top_of files' = max (top_of files) f"
  proof (cases "files = []")
    case False
    then show ?thesis unfolding f(1) by (simp add: top_of_Max)
  qed (simp add: f top_of_Max)
qed

lemma top_of_unlink:
  assumes "g < f - keep_below_max" "f \<le> top_of files"
  shows "top_of (kdel file_fence g files) = top_of files"
proof -
  have g: "g < top_of files" "0 < top_of files" using assms by simp_all
  then obtain x where "x \<in> set files" "file_fence x = top_of files" using top_of_mem [of files] by force
  with g show ?thesis by (intro top_of_eqI) (auto simp: set_kdel intro: rev_image_eqI [of x] dest: top_of_ge)
qed

lemma top_of_replace:
  assumes "f \<le> top_of files" "0 < f"
  shows "top_of (replace_body f b files) = top_of files"
proof (rule top_of_eqI)
  let ?x = "\<lparr>file_fence = f, file_body = Some b\<rparr>"
  show "\<forall>x \<in> set (replace_body f b files). file_fence x \<le> top_of files"
    using set_kput_subset [of file_fence ?x files] assms(1) top_of_ge by (fastforce simp: replace_body_def)
  show "0 < top_of files" using assms by simp
  have "file_fence ` set files \<subseteq> file_fence ` set (replace_body f b files)"
    using keys_kput [of file_fence ?x files] unfolding replace_body_def
    by (metis Un_upper1 list.set_map order_refl set_append)
  then show "top_of files \<in> file_fence ` set (replace_body f b files)"
    using top_of_mem [of files] assms by auto
qed

subsection \<open>Every step keeps it\<close>

lemma race_top_phase [simp]: "race_files (to_phase p ph s) = race_files s"
  "race_minted (to_phase p ph s) = race_minted s" "race_held (to_phase p ph s) = race_held s"
  "race_phase (to_phase p ph s) q = (if q = p then ph else race_phase s q)"
  by (simp_all add: to_phase_def)

lemma phase_ok_mono: "phase_ok s p ph \<Longrightarrow> set (race_minted s) \<subseteq> set (race_minted t) \<Longrightarrow> phase_ok t p ph"
  by (cases ph) (auto simp: mine_def)

lemma phase_ok_same: "race_minted s = race_minted t \<Longrightarrow> phase_ok s p ph \<longleftrightarrow> phase_ok t p ph"
  by (cases ph) (auto simp: mine_def)

lemma inv_to_phase: "race_inv s \<Longrightarrow> phase_ok s p ph \<Longrightarrow> race_inv (to_phase p ph s)"
  using phase_ok_same [of "to_phase p ph s" s] by (simp add: race_inv_def mine_def)

lemma inv_held:
  assumes "race_inv s" "mine s p l"
  shows "race_inv (s\<lparr>race_held := (race_held s)(p := l)\<rparr>)"
proof -
  have "phase_ok (s\<lparr>race_held := (race_held s)(p := l)\<rparr>) q ph = phase_ok s q ph" for q ph
    by (rule phase_ok_same) simp
  with assms show ?thesis by (simp add: race_inv_def mine_def)
qed

lemma inv_files:
  assumes "race_inv s" "distinct_keys file_fence files" "race_top s \<le> top_of files"
  shows "race_inv (s\<lparr>race_files := files\<rparr>)"
proof -
  have ok: "phase_ok (s\<lparr>race_files := files\<rparr>) q ph = phase_ok s q ph" for q ph
    by (rule phase_ok_same) simp
  have "p = q" if "(p, top_of files) \<in> set (race_minted s)" "(q, top_of files) \<in> set (race_minted s)" for p q
  proof -
    have "top_of files = race_top s" using race_invD(2) [OF assms(1) that(1)] assms(3) by simp
    with that show ?thesis using race_invD(3) [OF assms(1)] by simp
  qed
  moreover have "0 < f \<and> f \<le> top_of files" if "(p, f) \<in> set (race_minted s)" for p f
    using race_invD(2) [OF assms(1) that] assms(3) by simp
  ultimately show ?thesis
    using assms(1,2) ok unfolding race_inv_def mine_def by simp
qed

lemma inv_link:
  assumes "race_inv s" "publish f b (race_files s) = Some files" "0 < f"
  shows "race_inv (s\<lparr>race_files := files, race_minted := (p, f) # race_minted s\<rparr>)"
proof -
  note pub = top_of_publish [OF assms(2)]
  let ?t = "s\<lparr>race_files := files, race_minted := (p, f) # race_minted s\<rparr>"
  have ok: "phase_ok s q ph \<Longrightarrow> phase_ok ?t q ph" for q ph
    by (rule phase_ok_mono) auto
  have new: "f \<noteq> race_top s"
    using pub(2) top_of_mem [of "race_files s"] assms(3) by auto
  have u: "q = r" if "(q, race_top ?t) \<in> set (race_minted ?t)" "(r, race_top ?t) \<in> set (race_minted ?t)" for q r
  proof (cases "f < race_top s")
    case True
    then have "top_of files = race_top s" using pub(1) by simp
    with True that show ?thesis using race_invD(3) [OF assms(1)] by auto
  next
    case False
    then have "top_of files = f" "(x, f) \<notin> set (race_minted s)" for x
      using pub(1) new race_invD(2) [OF assms(1), of x f] by auto
    with that show ?thesis by simp
  qed
  have m: "0 < g \<and> g \<le> race_top ?t" if "(q, g) \<in> set (race_minted ?t)" for q g
    using that race_invD(2) [OF assms(1), of q g] assms(3) pub(1) by auto
  have d: "distinct_keys file_fence (race_files ?t)" using pub(3) [OF race_invD(1) [OF assms(1)]] by simp
  have h: "mine ?t q (race_held ?t q)" for q using race_invD(4) [OF assms(1), of q] by (simp add: mine_def)
  have k: "phase_ok ?t q (race_phase ?t q)" for q using ok [OF race_invD(5) [OF assms(1)], of q] by simp
  show ?thesis unfolding race_inv_def using d m u h k by blast
qed

text \<open>A lease presented and renewed was given to the instance that presents it.\<close>

lemma renew_mine:
  assumes "decide_claim held opts ctx = Renew f" "mine s p (ctx_renew ctx)"
  shows "(p, f) \<in> set (race_minted s)"
proof -
  have "presented held opts ctx" "f = fence_of held"
    using assms(1) by (auto simp: decide_claim_def split: if_splits)
  then show ?thesis using assms(2) by (auto simp: presented_def mine_def fence_of_def split: option.splits)
qed

lemma mint_pos: "decide_claim held opts ctx = Mint f \<Longrightarrow> 0 < f"
  by (auto simp: decide_claim_def split: if_splits)

lemma after_read_ok:
  "mine s p (ctx_renew ctx) \<Longrightarrow> phase_ok s p (after_read opts ctx n (decide_claim held opts ctx))"
  using renew_mine mint_pos by (cases "decide_claim held opts ctx") simp_all

lemma race_step_inv:
  assumes "race_step a s = Some t" "race_inv s"
  shows "race_inv t \<and> race_top s \<le> race_top t"
proof -
  have ph: "phase_ok s p (race_phase s p)" for p by (rule race_invD(5) [OF assms(2)])
  show ?thesis
  proof (cases a)
    case (StartClaim p opts g)
    then have "t = to_phase p (Starting opts \<lparr>ctx_renew = race_held s p, ctx_above = g\<rparr> 7) s"
      using assms(1) by (auto split: phase.splits)
    then show ?thesis using inv_to_phase [OF assms(2)] race_invD(4) [OF assms(2)] by simp
  next
    case (ListDir p)
    then obtain opts ctx n where "race_phase s p = Starting opts ctx n"
      "t = to_phase p (Listed opts ctx n (top_fence (race_files s))) s"
      using assms(1) by (auto split: phase.splits)
    then show ?thesis using inv_to_phase [OF assms(2)] ph [of p] by simp
  next
    case (ReadTop p)
    then obtain opts ctx n seen where "race_phase s p = Listed opts ctx n seen"
      "t = to_phase p (after_read opts ctx n
            (decide_claim (map_option (lease_at (race_files s)) seen) opts ctx)) s"
      using assms(1) by (auto split: phase.splits)
    then show ?thesis using inv_to_phase [OF assms(2) after_read_ok] ph [of p] by simp
  next
    case (LinkFence p)
    then obtain opts ctx n f where m: "race_phase s p = Minting opts ctx n f"
      using assms(1) by (auto split: phase.splits)
    then have f: "0 < f" "mine s p (ctx_renew ctx)" using ph [of p] by simp_all
    show ?thesis
    proof (cases "publish f (body_of opts) (race_files s)")
      case None
      then have "t = to_phase p (if n = 0 then Idle else Starting opts ctx (n - 1)) s"
        using assms(1) LinkFence m by simp
      then show ?thesis using inv_to_phase [OF assms(2)] f(2) by simp
    next
      case (Some files)
      then have "t = to_phase p (Linked opts f) (s\<lparr>race_files := files, race_minted := (p, f) # race_minted s\<rparr>)"
        using assms(1) LinkFence m by simp
      then show ?thesis using inv_to_phase [OF inv_link [OF assms(2) Some f(1)]] top_of_publish(1) [OF Some] by simp
    qed
  next
    case (Unlink p g)
    then obtain opts f where l: "race_phase s p = Linked opts f" "g < f - keep_below_max"
      "t = s\<lparr>race_files := kdel file_fence g (race_files s)\<rparr>"
      using assms(1) by (auto split: phase.splits if_splits)
    have "f \<le> race_top s" using ph [of p] l(1) race_invD(2) [OF assms(2)] by simp
    then have "top_of (kdel file_fence g (race_files s)) = race_top s" using top_of_unlink l(2) by blast
    then show ?thesis using inv_files [OF assms(2)] race_invD(1) [OF assms(2)] l(3) by simp
  next
    case (ReturnMinted p)
    then obtain opts f where l: "race_phase s p = Linked opts f"
      "t = to_phase p Idle (s\<lparr>race_held := (race_held s)(p := Some (claimed opts f))\<rparr>)"
      using assms(1) by (auto split: phase.splits)
    have "mine s p (Some (claimed opts f))" using ph [of p] l(1) by (simp add: mine_def claimed_def)
    then show ?thesis using inv_to_phase [OF inv_held [OF assms(2)]] l(2) by simp
  next
    case (ReplaceTop p)
    then obtain opts f where l: "race_phase s p = Renewing opts f"
      "t = to_phase p (Renewed opts f) (s\<lparr>race_files := replace_body f (body_of opts) (race_files s)\<rparr>)"
      using assms(1) by (auto split: phase.splits)
    have f: "(p, f) \<in> set (race_minted s)" using ph [of p] l(1) by simp
    then have "top_of (replace_body f (body_of opts) (race_files s)) = race_top s"
      using top_of_replace race_invD(2) [OF assms(2) f] by blast
    moreover have "distinct_keys file_fence (replace_body f (body_of opts) (race_files s))"
      using race_invD(1) [OF assms(2)] by (simp add: replace_body_def)
    ultimately show ?thesis
      using inv_to_phase [OF inv_files [OF assms(2)]] f l(2) by simp
  next
    case (CheckTop p)
    then obtain opts f where l: "race_phase s p = Renewed opts f"
      "t = to_phase p Idle (if race_top s \<noteq> f then s
         else s\<lparr>race_held := (race_held s)(p := Some (claimed opts f))\<rparr>)"
      using assms(1) by (auto split: phase.splits)
    have "mine s p (Some (claimed opts f))" using ph [of p] l(1) by (simp add: mine_def claimed_def)
    then show ?thesis using inv_to_phase [OF inv_held [OF assms(2)]] inv_to_phase [OF assms(2)] l(2) by simp
  next
    case (StartRelease p)
    then obtain l where "race_held s p = Some l" and
      t: "t = to_phase p (if race_top s \<noteq> lease_fence l then Idle else Releasing (lease_fence l))
         (s\<lparr>race_held := (race_held s)(p := None)\<rparr>)"
      using assms(1) by (auto split: phase.splits option.splits)
    have "race_inv (s\<lparr>race_held := (race_held s)(p := None)\<rparr>)" by (rule inv_held [OF assms(2)]) (simp add: mine_def)
    from inv_to_phase [OF this] show ?thesis unfolding t by simp
  next
    case (LinkTombstone p)
    then obtain f where t: "t = to_phase p Idle
        (case publish (f + 1) ([], 0) (race_files s) of None \<Rightarrow> s | Some files \<Rightarrow> s\<lparr>race_files := files\<rparr>)"
      using assms(1) by (auto split: phase.splits)
    show ?thesis
    proof (cases "publish (f + 1) ([], 0) (race_files s)")
      case None
      then show ?thesis using inv_to_phase [OF assms(2)] t by simp
    next
      case (Some files)
      note pub = top_of_publish [OF Some]
      have "race_inv (s\<lparr>race_files := files\<rparr>)"
        using pub race_invD(1) [OF assms(2)] by (intro inv_files [OF assms(2)]) simp_all
      from inv_to_phase [OF this] show ?thesis unfolding t using Some pub(1) by simp
    qed
  next
    case (Abort p)
    then show ?thesis using assms(1) inv_to_phase [OF assms(2)] by auto
  next
    case (Forget p)
    have "race_inv (s\<lparr>race_held := (race_held s)(p := None)\<rparr>)" by (rule inv_held [OF assms(2)]) (simp add: mine_def)
    from inv_to_phase [OF this] show ?thesis using assms(1) Forget by auto
  qed
qed

lemma race_reach_inv: "race_reach s \<Longrightarrow> race_inv s"
proof (induction rule: race_reach.induct)
  case reach_start
  show ?case by (simp add: race_inv_def race_start_def mine_def)
next
  case (reach_step s a t)
  then show ?case using race_step_inv by blast
qed

end
