(* ===== verification/LeaseProperties.thy ===== *)
theory LeaseProperties
  imports LeaseRace
begin

text \<open>
  The properties of the writer lease (\<open>store/session-log/lease.ts\<close>).
\<close>

definition ex_options :: "string \<Rightarrow> int \<Rightarrow> claim_options" where
  "ex_options h t = \<lparr>claim_holder = h, claim_ttl = 10, claim_now = t\<rparr>"

definition ex_no_context :: claim_context where
  "ex_no_context = \<lparr>ctx_renew = None, ctx_above = 0\<rparr>"

text \<open>Two workers take turns: a claim, a refused one, a takeover after the expiry, a stale release.\<close>

definition ex_ops :: "lease_op list" where
  "ex_ops =
     [Claim (ex_options ''a'' 0) ex_no_context,
      Claim (ex_options ''b'' 5) ex_no_context,
      Claim (ex_options ''a'' 8) \<lparr>ctx_renew = Some \<lparr>lease_holder = ''a'', lease_fence = 1, lease_expires = 10\<rparr>, ctx_above = 0\<rparr>,
      Claim (ex_options ''b'' 30) ex_no_context,
      Release \<lparr>lease_holder = ''a'', lease_fence = 1, lease_expires = 18\<rparr>]"

definition ex_dir :: lease_dir where
  "ex_dir = \<lparr>fence_files = [], lease_view = None\<rparr>"

subsection \<open>Without interruption\<close>

text \<open>The fences the disk store grants never go back, a granted fence belongs to one holder, and a directory that is in order stays so, whatever is claimed and released in which order.\<close>

theorem disk_fences_monotone:
  assumes "dir_ok d" and "releases_granted ops" and "run_leases disk_claim disk_release ops d = (e, granted)"
  shows "dir_ok e \<and> disk_fence d \<le> disk_fence e
    \<and> sorted_wrt (\<lambda>l l'. lease_fence l < lease_fence l'
        \<or> lease_fence l = lease_fence l' \<and> lease_holder l = lease_holder l') granted"
  using disk_leases.run_granted [OF assms] by simp

theorem disk_fences_monotone_witness:
  "map lease_fence (snd (run_leases disk_claim disk_release ex_ops ex_dir)) = [1, 1, 2]
   \<and> dir_ok (fst (run_leases disk_claim disk_release ex_ops ex_dir))"
proof -
  have "dir_ok ex_dir" "releases_granted ex_ops"
    by (simp_all add: ex_dir_def dir_ok_def releases_granted_def ex_ops_def)
  then have "dir_ok (fst (run_leases disk_claim disk_release ex_ops ex_dir))"
    using disk_fences_monotone [of ex_dir ex_ops] by (metis prod.collapse)
  moreover have "map lease_fence (snd (run_leases disk_claim disk_release ex_ops ex_dir)) = [1, 1, 2]"
    by code_simp
  ultimately show ?thesis by simp
qed

text \<open>The two lease stores cannot be told apart: from the same holding, the same claims and releases are granted the same leases.\<close>

theorem lease_stores_agree:
  assumes "dir_ok d" and "releases_granted ops"
  shows "snd (run_leases disk_claim disk_release ops d)
    = snd (run_leases mem_claim mem_release ops (disk_current d))"
  using assms
proof (induction ops arbitrary: d)
  case (Cons op ops)
  have rel: "releases_granted ops" using Cons.prems(2) by (simp add: releases_granted_def)
  have mem: "mem_current s = s" for s by (simp add: mem_current_def)
  show ?case
  proof (cases op)
    case (Claim opts ctx)
    show ?thesis
    proof (cases "decide_claim (disk_current d) opts ctx = Refuse")
      case True
      then show ?thesis
        using disk_leases.claim_refuse [OF Cons.prems(1) True] mem_leases.claim_refuse [of "disk_current d" opts ctx]
          Cons.IH [OF Cons.prems(1) rel] Claim by (simp add: mem split_def)
    next
      case False
      then obtain f where f: "decide_claim (disk_current d) opts ctx \<in> {Renew f, Mint f}"
        by (cases "decide_claim (disk_current d) opts ctx") auto
      from disk_leases.claim_take [OF Cons.prems(1) f] obtain d' where
        d': "disk_claim opts ctx d = (d', Some (claimed opts f))" "disk_current d' = Some (claimed opts f)" "dir_ok d'"
        by blast
      have m: "mem_claim opts ctx (disk_current d) = (Some (claimed opts f), Some (claimed opts f))"
        using f by (auto simp: mem_claim_def)
      show ?thesis using d' m Claim Cons.IH [OF d'(3) rel] by (simp add: split_def Let_def)
    qed
  next
    case (Release l)
    then have pos: "0 < lease_fence l" using Cons.prems(2) by (auto simp: releases_granted_def)
    have "disk_current (disk_release l d) = mem_release l (disk_current d)"
    proof (cases "disk_current d")
      case None
      then show ?thesis
        using disk_leases.release_stale [OF Cons.prems(1) pos] pos by (simp add: mem_release_def fence_of_def)
    next
      case (Some c)
      then show ?thesis
        using disk_leases.release_stale [OF Cons.prems(1) pos] disk_leases.release_current [OF Cons.prems(1) Some]
        by (cases "lease_fence c = lease_fence l") (simp_all add: mem_release_def fence_of_def)
    qed
    then show ?thesis
      using Release Cons.IH [OF disk_leases.release_ok [OF Cons.prems(1) pos] rel] by simp
  qed
qed simp

theorem lease_stores_agree_witness:
  "map lease_holder (snd (run_leases mem_claim mem_release ex_ops (disk_current ex_dir))) = [''a'', ''a'', ''b'']"
proof -
  have "dir_ok ex_dir" "releases_granted ex_ops"
    by (simp_all add: ex_dir_def dir_ok_def releases_granted_def ex_ops_def)
  then have "snd (run_leases mem_claim mem_release ex_ops (disk_current ex_dir))
      = snd (run_leases disk_claim disk_release ex_ops ex_dir)"
    using lease_stores_agree by simp
  moreover have "map lease_holder (snd (run_leases disk_claim disk_release ex_ops ex_dir)) = [''a'', ''a'', ''b'']"
    by code_simp
  ultimately show ?thesis by simp
qed

subsection \<open>With interleaving\<close>

text \<open>A claim from an empty directory, and one that found it expired; \<open>claim_steps\<close> runs a claim that mints.\<close>

definition claim_steps :: "nat \<Rightarrow> claim_options \<Rightarrow> race_action list" where
  "claim_steps p opts = [StartClaim p opts 0, ListDir p, ReadTop p, LinkFence p, ReturnMinted p]"

definition release_steps :: "nat \<Rightarrow> race_action list" where
  "release_steps p = [StartRelease p, LinkTombstone p]"

definition ex_takeover :: "race_action list" where
  "ex_takeover = claim_steps 0 (ex_options ''a'' 0) @ claim_steps 1 (ex_options ''b'' 20)"

text \<open>C28: However the steps of concurrent claims and releases interleave, and wherever instances crash, the current fence is held by one instance at most: two that hold it are one.\<close>

theorem current_fence_one_holder:
  assumes "race_reach s" and "race_held s p = Some l" and "race_held s q = Some m"
    and "lease_fence l = race_top s" and "lease_fence m = race_top s"
  shows "p = q"
proof -
  note inv = race_reach_inv [OF assms(1)]
  show ?thesis
    using race_invD(3) [OF inv, of p q] race_invD(4) [OF inv, of p] race_invD(4) [OF inv, of q] assms(2-5)
    by (simp add: mine_def)
qed

theorem current_fence_one_holder_witness:
  "race_held (the (race_run ex_takeover race_start)) 1 = Some \<lparr>lease_holder = ''b'', lease_fence = 2, lease_expires = 30\<rparr>
   \<and> race_top (the (race_run ex_takeover race_start)) = 2
   \<and> (0::nat) \<notin> {p. \<exists>l. race_held (the (race_run ex_takeover race_start)) p = Some l \<and> lease_fence l = 2}"
proof -
  let ?s = "the (race_run ex_takeover race_start)"
  have run: "race_run ex_takeover race_start \<noteq> None" by code_simp
  then have r: "race_reach ?s" using run_reach [OF reach_start, of ex_takeover ?s] by simp
  have h: "race_held ?s 1 = Some \<lparr>lease_holder = ''b'', lease_fence = 2, lease_expires = 30\<rparr>" by code_simp
  have t: "race_top ?s = 2" by code_simp
  have "p = 1" if "race_held ?s p = Some l" "lease_fence l = 2" for p l
    by (rule current_fence_one_holder [OF r that(1) h]) (simp_all add: t that)
  then have "(0::nat) \<notin> {p. \<exists>l. race_held ?s p = Some l \<and> lease_fence l = 2}" by fastforce
  with h t show ?thesis by simp
qed

text \<open>The current fence never goes back, whatever step is taken: an instance whose fence was passed stays stale.\<close>

theorem fence_never_rewinds:
  assumes "race_reach s" and "race_step a s = Some t"
  shows "race_top s \<le> race_top t"
  using race_step_inv [OF assms(2) race_reach_inv [OF assms(1)]] by simp

theorem fence_never_rewinds_witness:
  "race_top (the (race_run ex_takeover race_start))
   \<le> race_top (the (race_step (Abort 0) (the (race_run ex_takeover race_start))))"
proof -
  have run: "race_run ex_takeover race_start \<noteq> None" by code_simp
  then have "race_reach (the (race_run ex_takeover race_start))"
    using run_reach [OF reach_start, of ex_takeover "the (race_run ex_takeover race_start)"] by simp
  from fence_never_rewinds [OF this, of "Abort 0"] show ?thesis by simp
qed

text \<open>
  Instance 0 lists the directory at fence 1 and stalls. Instance 1 takes fence 2;
  instance 2 takes and gives up the lease until fence 11, whose pruning removes
  fences 1 and 2. Then instance 0 goes on.
\<close>

definition ex_stalled :: "race_action list" where
  "ex_stalled =
     claim_steps 2 (ex_options ''c'' 0)
     @ [StartClaim 0 (ex_options ''a'' 20) 0, ListDir 0]
     @ claim_steps 1 (ex_options ''b'' 20)
     @ claim_steps 2 (ex_options ''c'' 40) @ release_steps 2
     @ claim_steps 2 (ex_options ''c'' 40) @ release_steps 2
     @ claim_steps 2 (ex_options ''c'' 40) @ release_steps 2
     @ claim_steps 2 (ex_options ''c'' 40) @ release_steps 2
     @ [StartClaim 2 (ex_options ''c'' 40) 0, ListDir 2, ReadTop 2, LinkFence 2, Unlink 2 1, Unlink 2 2, ReturnMinted 2]
     @ [ReadTop 0, LinkFence 0, ReturnMinted 0]"

text \<open>A fence below the current one can be won twice: an instance that stalls between listing the directory and linking, for so long that the fence it aims at was taken and pruned, is granted that fence again, while its first winner still holds it. Both are stale by then.\<close>

theorem pruned_fence_won_twice:
  "\<exists>s l m. race_run ex_stalled race_start = Some s
     \<and> race_held s 0 = Some l \<and> race_held s 1 = Some m
     \<and> lease_fence l = 2 \<and> lease_fence m = 2 \<and> lease_holder l = ''a'' \<and> lease_holder m = ''b'' \<and> race_top s = 11"
proof -
  let ?s = "the (race_run ex_stalled race_start)"
  have "race_run ex_stalled race_start \<noteq> None" by code_simp
  then obtain s where s: "race_run ex_stalled race_start = Some s" by blast
  have "race_held ?s 0 = Some (claimed (ex_options ''a'' 20) 2)" by code_simp
  moreover have "race_held ?s 1 = Some (claimed (ex_options ''b'' 20) 2)" by code_simp
  moreover have "race_top ?s = 11" by code_simp
  ultimately have "race_held s 0 = Some (claimed (ex_options ''a'' 20) 2)"
    "race_held s 1 = Some (claimed (ex_options ''b'' 20) 2)" "race_top s = 11"
    unfolding s option.sel by this+
  with s show ?thesis by (auto simp: claimed_def ex_options_def)
qed

end
