(* ===== verification/SessionRecord.thy ===== *)
theory SessionRecord
  imports Prelude "HOL-Library.Word"
begin

text \<open>
  The records of a session log (\<open>types/session/records.ts\<close>) and the byte rules of
  one line (\<open>session/log-hash.ts\<close>). UTF-8, JSON and the zod schemas are a codec the
  definitions take as an argument, and so is SHA-256; what is used of them is
  stated where it is used. A record keeps the fields the log's code reads, with
  the rest of a message or a payload as text.
\<close>

type_synonym bytes = "8 word list"

definition session_record_max_bytes :: nat where
  "session_record_max_bytes = 4 * 1024 * 1024"

text \<open>The bound is compared in binary when an example is evaluated.\<close>

lemma max_bytes_code [code_unfold]:
  "session_record_max_bytes < n \<longleftrightarrow> 4194304 < int n" "n \<le> session_record_max_bytes \<longleftrightarrow> int n \<le> 4194304"
  by (simp_all add: session_record_max_bytes_def)

abbreviation newline :: "8 word" where
  "newline \<equiv> 10"

record record_pointer =
  ptr_seq :: nat
  ptr_offset :: nat
  ptr_length :: nat
  ptr_sha :: string

record spill_ref =
  spill_path :: string
  spill_manifest :: string
  spill_bytes :: nat
  spill_sha :: string

text \<open>
  A message: its id, role, content as text (a string, or the JSON of its parts), the
  call a tool result answers, and whatever else it has.
\<close>

record stored_message =
  sm_id :: "string option"
  sm_role :: string
  sm_text :: string
  sm_call :: "string option"
  sm_rest :: string

text \<open>A tool's input in a record: its JSON, or a stand-in for a spilled one.\<close>

datatype tool_input = PlainInput string | SpilledInput spill_ref string

datatype summary = InlineSummary "stored_message list" | SpilledSummary spill_ref

datatype payload =
    SessionStarted
  | MessageRecord string stored_message "spill_ref option"        \<comment> \<open>messageId, content, spill\<close>
  | MessageReplaced string stored_message "spill_ref option"      \<comment> \<open>targetMessageId, content, spill\<close>
  | CompactionRecord string nat "string list" "string list" summary   \<comment> \<open>id, end of the range, kept, pinned\<close>
  | TurnStarted string
  | TurnPaused string                                             \<comment> \<open>checkpointId\<close>
  | TurnResuming
  | TurnCompleted string "spill_ref option"                       \<comment> \<open>result, resultSpill\<close>
  | TurnFailed "(string \<times> bool) option"            \<comment> \<open>failure code, messagesWithdrawn\<close>
  | LogRepaired nat nat                                           \<comment> \<open>truncatedBytes, lastGoodSeq\<close>
  | OtherRecord string "tool_input list"                          \<comment> \<open>its type, the tool inputs it carries\<close>

record session_record =
  rec_id :: string
  rec_session :: string
  rec_seq :: nat
  rec_ts :: int
  rec_prev :: "record_pointer option"
  rec_prev_text :: "record_pointer option option"     \<comment> \<open>outer \<open>None\<close>: no such property\<close>
  rec_gen :: nat
  rec_turn :: "string option"
  rec_payload :: payload

fun type_name :: "payload \<Rightarrow> string" where
  "type_name SessionStarted = ''session_started''"
| "type_name (MessageRecord i m s) = ''message''"
| "type_name (MessageReplaced i m s) = ''message_replaced''"
| "type_name (CompactionRecord i n k p s) = ''compaction''"
| "type_name (TurnStarted d) = ''turn_started''"
| "type_name (TurnPaused c) = ''turn_paused''"
| "type_name TurnResuming = ''turn_resuming''"
| "type_name (TurnCompleted x s) = ''turn_completed''"
| "type_name (TurnFailed f) = ''turn_failed''"
| "type_name (LogRepaired n s) = ''log_repaired''"
| "type_name (OtherRecord t inputs) = t"

subsection \<open>One line\<close>

datatype line_fault = TornLine | TooLarge | NotUtf8 | NotJson | NotARecord

text \<open>
  \<open>decode\<close> is what \<open>parseSessionLogLine\<close> does with the bytes before the newline:
  UTF-8, then JSON, then the schema. \<open>encode\<close> is \<open>JSON.stringify\<close> in UTF-8, \<open>schema\<close>
  what \<open>SessionRecordSchema.safeParse\<close> accepts, \<open>utf8\<close> the bytes of a text, and the
  other two the JSON of a message and of a list of messages.
\<close>

record codec =
  decode :: "bytes \<Rightarrow> (line_fault, session_record) outcome"
  encode :: "session_record \<Rightarrow> bytes"
  sha256 :: "bytes \<Rightarrow> string"
  schema :: "session_record \<Rightarrow> bool"
  utf8 :: "string \<Rightarrow> bytes"
  message_json :: "stored_message \<Rightarrow> string"
  messages_json :: "stored_message list \<Rightarrow> string"
  input_json :: "tool_input \<Rightarrow> string"

record parsed_line =
  pl_record :: session_record
  pl_length :: nat
  pl_sha :: string

definition index_of :: "'a \<Rightarrow> 'a list \<Rightarrow> nat option" where
  "index_of x xs = (let n = length (takeWhile (\<lambda>y. y \<noteq> x) xs) in if n < length xs then Some n else None)"

definition format_line :: "codec \<Rightarrow> session_record \<Rightarrow> (line_fault, bytes) outcome" where
  "format_line c r =
     (let line = encode c r @ [newline]
      in if length line > session_record_max_bytes then Inl TooLarge else Inr line)"

definition parse_line :: "codec \<Rightarrow> bytes \<Rightarrow> (line_fault, parsed_line) outcome" where
  "parse_line c line =
     (if length line > session_record_max_bytes then Inl TooLarge
      else case index_of newline line of
        None \<Rightarrow> Inl TornLine
      | Some e \<Rightarrow>
          if e + 1 \<noteq> length line then Inl TornLine
          else bindE (decode c (take e line)) (\<lambda>r.
            Inr \<lparr>pl_record = r, pl_length = length line, pl_sha = sha256 c line\<rparr>))"

text \<open>
  What the log needs of the codec for a record it writes: its text has no newline,
  and reads back as the record.
\<close>

definition writes_back :: "codec \<Rightarrow> session_record \<Rightarrow> bool" where
  "writes_back c r \<longleftrightarrow> newline \<notin> set (encode c r) \<and> decode c (encode c r) = Inr r"

lemma index_of_end: "newline \<notin> set xs \<Longrightarrow> index_of newline (xs @ [newline]) = Some (length xs)"
proof -
  assume n: "newline \<notin> set xs"
  have "takeWhile (\<lambda>y. y \<noteq> newline) (xs @ [newline]) = xs"
    using n by (subst takeWhile_append2) auto
  then show ?thesis by (simp add: index_of_def)
qed

lemma parse_format:
  assumes "writes_back c r" "format_line c r = Inr line"
  shows "parse_line c line = Inr \<lparr>pl_record = r, pl_length = length line, pl_sha = sha256 c line\<rparr>"
proof -
  have l: "line = encode c r @ [newline]" "length line \<le> session_record_max_bytes"
    using assms(2) by (auto simp: format_line_def Let_def split: if_splits)
  then show ?thesis
    using assms(1) by (simp add: parse_line_def index_of_end writes_back_def)
qed

lemma parse_lineD:
  assumes "parse_line c line = Inr p"
  shows "pl_length p = length line" "pl_sha p = sha256 c line" "0 < length line"
    "line \<noteq> []" "last line = newline" "newline \<notin> set (butlast line)"
    "decode c (butlast line) = Inr (pl_record p)"
proof -
  obtain e where e: "index_of newline line = Some e" "e + 1 = length line"
    and p: "bindE (decode c (take e line)) (\<lambda>r.
            Inr \<lparr>pl_record = r, pl_length = length line, pl_sha = sha256 c line\<rparr>) = Inr p"
    using assms by (auto simp: parse_line_def split: if_splits option.splits)
  let ?w = "takeWhile (\<lambda>y. y \<noteq> newline) line"
  have le: "length ?w = e" "e < length line"
    using e(1) by (auto simp: index_of_def Let_def split: if_splits)
  then have w: "take e line = ?w" by (metis takeWhile_eq_take)
  have b: "butlast line = ?w" by (metis Suc_eq_plus1 butlast_conv_take diff_Suc_1 e(2) w)
  have "line ! e = newline" using nth_length_takeWhile [of "\<lambda>y. y \<noteq> newline" line] le by simp
  then show "last line = newline" using e(2) by (metis add_diff_cancel_right' last_conv_nth length_0_conv add_is_0 one_neq_zero)
  show "newline \<notin> set (butlast line)" unfolding b by (metis (full_types) set_takeWhileD)
  show "pl_length p = length line" "pl_sha p = sha256 c line" "decode c (butlast line) = Inr (pl_record p)"
    using p unfolding w b by (auto simp: result_simps)
  show "0 < length line" unfolding e(2) [symmetric] by simp
  show "line \<noteq> []"
  proof
    assume "line = []"
    with e(2) show False by simp
  qed
qed

end
