(* ===== verification/SessionChain.thy ===== *)
theory SessionChain
  imports SessionRecord
begin

text \<open>
  The hash chain of a session log (\<open>store/session-log/chain.ts\<close>): the check of one
  line against the head, the splitting of a byte stream into lines, the reading of
  a tail, and the check of a pointer; and the walk over a log's bytes that
  verifies it (\<open>walkSessionLog\<close> of \<open>core.ts\<close>).
\<close>

subsection \<open>The check of a line\<close>

datatype break_reason =
    BadLine line_fault | BadStart | SeqGap | PrevMismatch | SessionMismatch
  | GenRegressed | BadTextLink | AnchorMismatch | OverlongLine

record log_break =
  break_reason :: break_reason
  break_seq :: nat
  break_offset :: nat

record entry =
  entry_record :: session_record
  entry_pointer :: record_pointer

record chain =
  chain_head :: "record_pointer option"
  chain_session :: "string option"
  chain_gen :: nat

definition start_chain :: chain where
  "start_chain = \<lparr>chain_head = None, chain_session = None, chain_gen = 0\<rparr>"

definition chain_end :: "chain \<Rightarrow> nat" where
  "chain_end ch = (case chain_head ch of None \<Rightarrow> 0 | Some p \<Rightarrow> ptr_offset p + ptr_length p)"

definition head_seq :: "chain \<Rightarrow> nat" where
  "head_seq ch = (case chain_head ch of None \<Rightarrow> 0 | Some p \<Rightarrow> ptr_seq p)"

definition same_pointer :: "record_pointer option \<Rightarrow> record_pointer option \<Rightarrow> bool" where
  "same_pointer a b =
     (case (a, b) of
        (Some p, Some q) \<Rightarrow> ptr_seq p = ptr_seq q \<and> ptr_offset p = ptr_offset q
          \<and> ptr_length p = ptr_length q \<and> ptr_sha p = ptr_sha q
      | (None, None) \<Rightarrow> True
      | _ \<Rightarrow> False)"

lemma same_pointer_eq [simp]: "same_pointer a b \<longleftrightarrow> a = b"
  by (cases a; cases b) (auto simp: same_pointer_def)

definition text_link_ok :: "session_record \<Rightarrow> record_pointer \<Rightarrow> bool" where
  "text_link_ok r p =
     (case rec_prev_text r of
        None \<Rightarrow> True
      | Some text_link \<Rightarrow>
          (case (text_link, rec_prev r) of
             (None, None) \<Rightarrow> True
           | (None, Some _) \<Rightarrow> False
           | (Some _, None) \<Rightarrow> False
           | (Some t, Some q) \<Rightarrow>
               \<not> (ptr_seq t \<ge> ptr_seq p \<or> ptr_offset t + ptr_length t > ptr_offset p
                  \<or> (ptr_seq t = ptr_seq q \<and> \<not> same_pointer (Some t) (Some q)))))"

definition chain_accept :: "codec \<Rightarrow> chain \<Rightarrow> bytes \<Rightarrow> nat \<Rightarrow> (log_break, chain \<times> entry) outcome" where
  "chain_accept c ch line offset =
     (let expected = head_seq ch + 1;
          err = (\<lambda>reason. \<lparr>break_reason = reason, break_seq = expected, break_offset = offset\<rparr>)
      in
        bindE (require (offset = chain_end ch) (err SeqGap)) (\<lambda>_.
        case parse_line c line of
          Inl fault \<Rightarrow> Inl (err (BadLine fault))
        | Inr parsed \<Rightarrow>
            (let r = pl_record parsed;
                 p = \<lparr>ptr_seq = rec_seq r, ptr_offset = offset, ptr_length = pl_length parsed, ptr_sha = pl_sha parsed\<rparr>
             in
               bindE
                 (case chain_head ch of
                    None \<Rightarrow> require (\<not> (offset \<noteq> 0 \<or> rec_seq r \<noteq> 1 \<or> rec_payload r \<noteq> SessionStarted)) (err BadStart)
                  | Some h \<Rightarrow>
                      bindE (require (rec_seq r = expected) (err SeqGap)) (\<lambda>_.
                        require (same_pointer (rec_prev r) (Some h)) (err PrevMismatch))) (\<lambda>_.
               bindE (require (\<not> (chain_session ch \<noteq> None \<and> Some (rec_session r) \<noteq> chain_session ch)) (err SessionMismatch)) (\<lambda>_.
               bindE (require (\<not> rec_gen r < chain_gen ch) (err GenRegressed)) (\<lambda>_.
               bindE (require (text_link_ok r p) (err BadTextLink)) (\<lambda>_.
               Inr (\<lparr>chain_head = Some p,
                     chain_session = (case chain_session ch of None \<Rightarrow> Some (rec_session r) | Some s \<Rightarrow> Some s),
                     chain_gen = rec_gen r\<rparr>,
                    \<lparr>entry_record = r, entry_pointer = p\<rparr>)))))))) "

subsection \<open>Splitting a stream\<close>

record splitter =
  sp_pending :: bytes
  sp_offset :: nat

definition start_splitter :: "nat \<Rightarrow> splitter" where
  "start_splitter offset = \<lparr>sp_pending = [], sp_offset = offset\<rparr>"

text \<open>The lines a chunk completes, with their offsets, and what is left.\<close>

function split_chunk :: "splitter \<Rightarrow> bytes \<Rightarrow> (bytes \<times> nat) list \<times> splitter" where
  "split_chunk sp chunk =
     (case index_of newline chunk of
        None \<Rightarrow> ([], sp\<lparr>sp_pending := sp_pending sp @ chunk\<rparr>)
      | Some n \<Rightarrow>
          (let line = sp_pending sp @ take (n + 1) chunk;
               (lines, sp') = split_chunk \<lparr>sp_pending = [], sp_offset = sp_offset sp + length line\<rparr> (drop (n + 1) chunk)
           in ((line, sp_offset sp) # lines, sp')))"
  by pat_completeness auto
termination
  by (relation "measure (\<lambda>(sp, chunk). length chunk)") (auto simp: index_of_def Let_def split: if_splits)

declare split_chunk.simps [simp del]

text \<open>
  A chunk that leaves a rest, with the rest longer than any record, is refused
  after its lines.
\<close>

definition push_chunk :: "splitter \<Rightarrow> bytes \<Rightarrow> (bytes \<times> nat) list \<times> (log_break, splitter) outcome" where
  "push_chunk sp chunk =
     (let (lines, sp') = split_chunk sp chunk;
          rest_added = (chunk \<noteq> [] \<and> last chunk \<noteq> newline)
      in (lines,
          if rest_added \<and> length (sp_pending sp') > session_record_max_bytes
          then Inl \<lparr>break_reason = OverlongLine, break_seq = 0, break_offset = sp_offset sp'\<rparr>
          else Inr sp'))"

subsection \<open>Tails and pointers\<close>

definition read_bytes :: "bytes \<Rightarrow> nat \<Rightarrow> nat \<Rightarrow> bytes" where
  "read_bytes file offset len = take len (drop offset file)"

text \<open>
  \<open>lastIndexOf(0x0a, byteLength - 2) + 1\<close>; for a single byte the negative index
  counts from the end and finds that byte.
\<close>

definition tail_start :: "bytes \<Rightarrow> nat" where
  "tail_start tail_bytes =
     (let body = (if length tail_bytes = 1 then tail_bytes else butlast tail_bytes) in length body - length (takeWhile (\<lambda>b. b \<noteq> newline) (rev body)))"

definition read_log_tail :: "codec \<Rightarrow> bytes \<Rightarrow> (entry \<times> nat) option" where
  "read_log_tail c file =
     (let size = length file in
      if size = 0 then None
      else
        (let offset = size - (session_record_max_bytes + 1);
             tail_bytes = read_bytes file offset (size - offset);
             start = tail_start tail_bytes in
         if last tail_bytes \<noteq> newline then None
         else if start = 0 \<and> offset \<noteq> 0 then None
         else (case parse_line c (drop start tail_bytes) of
             Inl _ \<Rightarrow> None
           | Inr parsed \<Rightarrow>
               Some (\<lparr>entry_record = pl_record parsed,
                      entry_pointer = \<lparr>ptr_seq = rec_seq (pl_record parsed), ptr_offset = offset + start,
                        ptr_length = pl_length parsed, ptr_sha = pl_sha parsed\<rparr>\<rparr>, size))))"

definition verify_pointer :: "codec \<Rightarrow> bytes \<Rightarrow> record_pointer \<Rightarrow> bool" where
  "verify_pointer c file p =
     (if ptr_offset p + ptr_length p > length file then False
      else (let raw = read_bytes file (ptr_offset p) (ptr_length p)
            in length raw = ptr_length p \<and> sha256 c raw = ptr_sha p))"

subsection \<open>The walk\<close>

record walk_options =
  wo_strict :: bool
  wo_after :: "record_pointer option"
  wo_expect :: "record_pointer option"
  wo_through :: "nat option"

record log_head =
  lh_pointer :: record_pointer
  lh_gen :: nat
  lh_bytes :: nat

record read_summary =
  rs_intact :: bool
  rs_through :: nat
  rs_head :: "log_head option"
  rs_torn :: nat
  rs_break :: "log_break option"

datatype walk_error = LogBroken log_break | LineUnreadable line_fault

text \<open>Where the loop over the lines stands: going on, stopped at \<open>throughSeq\<close>, or at a break.\<close>

datatype walk_state = Going chain bool | Stopped chain | BrokenAt chain log_break

definition anchor_differs :: "record_pointer \<Rightarrow> record_pointer \<Rightarrow> bool" where
  "anchor_differs e p \<longleftrightarrow> ptr_offset e \<noteq> ptr_offset p \<or> ptr_length e \<noteq> ptr_length p \<or> ptr_sha e \<noteq> ptr_sha p"

definition names_seq :: "record_pointer option \<Rightarrow> record_pointer \<Rightarrow> bool" where
  "names_seq expect p = (case expect of None \<Rightarrow> False | Some e \<Rightarrow> ptr_seq p = ptr_seq e)"

definition reaches :: "nat option \<Rightarrow> record_pointer \<Rightarrow> bool" where
  "reaches through p = (case through of None \<Rightarrow> False | Some n \<Rightarrow> ptr_seq p \<ge> n)"

fun walk_lines ::
    "codec \<Rightarrow> record_pointer option \<Rightarrow> nat option \<Rightarrow> chain \<Rightarrow> bool \<Rightarrow> (bytes \<times> nat) list
      \<Rightarrow> entry list \<times> walk_state" where
  "walk_lines c expect through ch seen [] = ([], Going ch seen)"
| "walk_lines c expect through ch seen ((line, offset) # lines) =
     (case chain_accept c ch line offset of
        Inl e \<Rightarrow> ([], BrokenAt ch e)
      | Inr (ch', en) \<Rightarrow>
          (let p = entry_pointer en in
           if names_seq expect p \<and> anchor_differs (the expect) p then
             ([], BrokenAt ch' \<lparr>break_reason = AnchorMismatch, break_seq = ptr_seq (the expect),
                               break_offset = ptr_offset p\<rparr>)
           else if reaches through p then ([en], Stopped ch')
           else (let (es, st) = walk_lines c expect through ch' (seen \<or> names_seq expect p) lines in (en # es, st))))"

fun walk_chunks ::
    "codec \<Rightarrow> record_pointer option \<Rightarrow> nat option \<Rightarrow> chain \<Rightarrow> bool \<Rightarrow> splitter \<Rightarrow> bytes list
      \<Rightarrow> entry list \<times> walk_state \<times> splitter" where
  "walk_chunks c expect through ch seen sp [] = ([], Going ch seen, sp)"
| "walk_chunks c expect through ch seen sp (chunk # chunks) =
     (let (lines, pushed) = push_chunk sp chunk;
          (es, st) = walk_lines c expect through ch seen lines
      in case st of
           Going ch' seen' \<Rightarrow>
             (case pushed of
                Inl e \<Rightarrow> (es, BrokenAt ch' e, sp)
              | Inr sp' \<Rightarrow>
                  (let (es', st', sp'') = walk_chunks c expect through ch' seen' sp' chunks
                   in (es @ es', st', sp'')))
         | _ \<Rightarrow> (es, st, sp))"

definition summarise :: "chain \<Rightarrow> nat \<Rightarrow> log_break option \<Rightarrow> read_summary" where
  "summarise ch torn brk =
     \<lparr>rs_intact = (brk = None), rs_through = head_seq ch,
      rs_head = map_option (\<lambda>p. \<lparr>lh_pointer = p, lh_gen = chain_gen ch, lh_bytes = chain_end ch\<rparr>) (chain_head ch),
      rs_torn = torn, rs_break = brk\<rparr>"

definition walk_from ::
    "codec \<Rightarrow> walk_options \<Rightarrow> chain \<Rightarrow> nat \<Rightarrow> bytes list \<Rightarrow> entry list \<times> (walk_error, read_summary) outcome" where
  "walk_from c opts ch start chunks =
     (let (es, st, sp) = walk_chunks c (wo_expect opts) (wo_through opts) ch False (start_splitter start) chunks;
          failed = (\<lambda>ch e torn. if wo_strict opts then Inl (LogBroken e) else Inr (summarise ch torn (Some e)))
      in (es,
          case st of
            Stopped ch' \<Rightarrow> Inr (summarise ch' 0 None)
          | BrokenAt ch' e \<Rightarrow> failed ch' e 0
          | Going ch' seen \<Rightarrow>
              (case wo_expect opts of
                 Some e \<Rightarrow>
                   if \<not> seen then failed ch' \<lparr>break_reason = AnchorMismatch, break_seq = ptr_seq e,
                                             break_offset = chain_end ch'\<rparr> (length (sp_pending sp))
                   else Inr (summarise ch' (length (sp_pending sp)) None)
               | None \<Rightarrow> Inr (summarise ch' (length (sp_pending sp)) None))))"

text \<open>
  \<open>walkSessionLog\<close> over the bytes of a file, streamed in the chunks the given
  function cuts them into.
\<close>

definition walk_session_log ::
    "codec \<Rightarrow> (bytes \<Rightarrow> bytes list) \<Rightarrow> walk_options \<Rightarrow> string option \<Rightarrow> bytes
      \<Rightarrow> entry list \<times> (walk_error, read_summary) outcome" where
  "walk_session_log c chunked opts session file =
     (case wo_after opts of
        None \<Rightarrow> walk_from c opts (start_chain\<lparr>chain_session := session\<rparr>) 0 (chunked file)
      | Some p \<Rightarrow>
          if \<not> verify_pointer c file p then
            ([], let e = \<lparr>break_reason = AnchorMismatch, break_seq = ptr_seq p, break_offset = ptr_offset p\<rparr>
                 in if wo_strict opts then Inl (LogBroken e)
                    else Inr \<lparr>rs_intact = False, rs_through = 0, rs_head = None, rs_torn = 0, rs_break = Some e\<rparr>)
          else
            (case parse_line c (read_bytes file (ptr_offset p) (ptr_length p)) of
               Inl fault \<Rightarrow> ([], Inl (LineUnreadable fault))
             | Inr parsed \<Rightarrow>
                 walk_from c opts
                   \<lparr>chain_head = Some p,
                    chain_session = (case session of None \<Rightarrow> Some (rec_session (pl_record parsed)) | Some s \<Rightarrow> Some s),
                    chain_gen = rec_gen (pl_record parsed)\<rparr>
                   (ptr_offset p + ptr_length p)
                   (chunked (drop (ptr_offset p + ptr_length p) file))))"

end
