(* ===== verification/SessionChainProofs.thy ===== *)
theory SessionChainProofs
  imports SessionChain
begin

text \<open>
  Facts of the hash chain: splitting does not depend on the chunks, an accepted
  log is a chain from its first record to its head, and a head fixes the bytes of
  the whole log.
\<close>

subsection \<open>Splitting\<close>

lemma index_of_Some:
  "index_of x xs = Some n \<Longrightarrow> n < length xs \<and> xs ! n = x \<and> x \<notin> set (take n xs)"
  unfolding index_of_def Let_def
  by (auto split: if_splits simp: takeWhile_eq_take [symmetric] dest: set_takeWhileD
      nth_length_takeWhile [of "\<lambda>y. y \<noteq> x"])

lemma index_of_None: "index_of x xs = None \<longleftrightarrow> x \<notin> set xs"
proof -
  have "length (takeWhile (\<lambda>y. y \<noteq> x) xs) < length xs \<longleftrightarrow> x \<in> set xs"
    by (induction xs) auto
  then show ?thesis by (simp add: index_of_def Let_def)
qed

lemma index_of_append:
  "index_of x (xs @ ys) = (case index_of x xs of Some n \<Rightarrow> Some n
     | None \<Rightarrow> map_option (\<lambda>n. length xs + n) (index_of x ys))"
  by (induction xs) (auto simp: index_of_def Let_def split: option.splits if_splits)

lemma split_none: "index_of newline chunk = None \<Longrightarrow> split_chunk sp chunk = ([], sp\<lparr>sp_pending := sp_pending sp @ chunk\<rparr>)"
  by (subst split_chunk.simps) simp

lemma split_some:
  "index_of newline chunk = Some n \<Longrightarrow> split_chunk sp chunk =
     ((sp_pending sp @ take (Suc n) chunk, sp_offset sp)
        # fst (split_chunk \<lparr>sp_pending = [], sp_offset = sp_offset sp + (length (sp_pending sp) + Suc n)\<rparr> (drop (Suc n) chunk)),
      snd (split_chunk \<lparr>sp_pending = [], sp_offset = sp_offset sp + (length (sp_pending sp) + Suc n)\<rparr> (drop (Suc n) chunk)))"
  by (subst split_chunk.simps) (auto simp: split_def Let_def dest!: index_of_Some)

text \<open>Pushing one chunk after another is pushing them at once.\<close>

lemma split_append:
  "split_chunk sp (a @ b) =
     (fst (split_chunk sp a) @ fst (split_chunk (snd (split_chunk sp a)) b),
      snd (split_chunk (snd (split_chunk sp a)) b))"
proof (induction sp a rule: split_chunk.induct)
  case (1 sp a)
  show ?case
  proof (cases "index_of newline a")
    case (Some n)
    then have "n < length a" and ab: "index_of newline (a @ b) = Some n"
      using index_of_Some [OF Some] by (simp_all add: index_of_append)
    then have d: "drop (Suc n) (a @ b) = drop (Suc n) a @ b" "take (Suc n) (a @ b) = take (Suc n) a" by simp_all
    show ?thesis
      using "1.IH" [OF Some refl] \<open>n < length a\<close>
      unfolding split_some [OF Some] split_some [OF ab] d
      by (simp add: min_absorb2 Suc_le_eq)
  next
    case None
    show ?thesis
    proof (cases "index_of newline b")
      case N: None
      then have "index_of newline (a @ b) = None" using None by (simp add: index_of_append)
      then show ?thesis by (simp add: split_none N None)
    next
      case (Some n)
      then have ab: "index_of newline (a @ b) = Some (length a + n)" using None by (simp add: index_of_append)
      show ?thesis
        unfolding split_some [OF ab] split_none [OF None] snd_conv fst_conv split_some [OF Some]
        by (simp add: add_ac)
    qed
  qed
qed

lemma split_bytes:
  "concat (map fst (fst (split_chunk sp a))) @ sp_pending (snd (split_chunk sp a)) = sp_pending sp @ a"
proof (induction sp a rule: split_chunk.induct)
  case (1 sp a)
  show ?case
  proof (cases "index_of newline a")
    case (Some n)
    then have "n < length a" using index_of_Some [OF Some] by simp
    with "1.IH" [OF Some refl] show ?thesis
      unfolding split_some [OF Some] by (simp add: min_absorb2 Suc_le_eq)
  qed (simp add: split_none)
qed

text \<open>A file whose lines, the last unfinished one included, all fit a record.\<close>

definition short_lines :: "splitter \<Rightarrow> bytes \<Rightarrow> bool" where
  "short_lines sp a \<longleftrightarrow> (\<forall>l \<in> fst ` set (fst (split_chunk sp a)). length l \<le> session_record_max_bytes)
     \<and> length (sp_pending (snd (split_chunk sp a))) \<le> session_record_max_bytes"

lemma short_prefix: "short_lines sp (a @ b) \<Longrightarrow> length (sp_pending (snd (split_chunk sp a))) \<le> session_record_max_bytes"
proof -
  assume s: "short_lines sp (a @ b)"
  let ?q = "snd (split_chunk sp a)"
  show ?thesis
  proof (cases "index_of newline b")
    case None
    then show ?thesis using s by (auto simp: short_lines_def split_append [of sp a b] split_none)
  next
    case (Some n)
    then have "length (sp_pending ?q @ take (Suc n) b) \<le> session_record_max_bytes"
      using s by (simp add: short_lines_def split_append [of sp a b] split_some [OF Some])
    then show ?thesis by simp
  qed
qed

lemma short_rest: "short_lines sp (a @ b) \<Longrightarrow> short_lines (snd (split_chunk sp a)) b"
  by (auto simp: short_lines_def split_append [of sp a b])

lemma short_push: "short_lines sp (a @ b) \<Longrightarrow> push_chunk sp a = (fst (split_chunk sp a), Inr (snd (split_chunk sp a)))"
  using short_prefix [of sp a b] by (simp add: push_chunk_def split_def Let_def)

subsection \<open>The walk over chunks is the walk over lines\<close>

lemma walk_lines_append:
  "walk_lines c ex th ch seen (xs @ ys) =
     (case walk_lines c ex th ch seen xs of
        (es, Going ch' seen') \<Rightarrow>
          (es @ fst (walk_lines c ex th ch' seen' ys), snd (walk_lines c ex th ch' seen' ys))
      | r \<Rightarrow> r)"
proof (induction c ex th ch seen xs rule: walk_lines.induct)
  case (2 c ex th ch seen line offset lines)
  show ?case
  proof (cases "chain_accept c ch line offset")
    case (Inr r)
    obtain ch' en where r: "r = (ch', en)" by (cases r)
    let ?p = "entry_pointer en"
    let ?named = "names_seq ex ?p"
    show ?thesis
    proof (cases "(?named \<and> anchor_differs (the ex) ?p) \<or> reaches th ?p")
      case True
      then show ?thesis using Inr r by (auto simp: Let_def)
    next
      case False
      then have n: "\<not> (?named \<and> anchor_differs (the ex) ?p)"
        "\<not> reaches th ?p" by blast+
      note IH = "2.IH" [OF Inr r [symmetric] refl n]
      have acc: "chain_accept c ch line offset = Inr (ch', en)" using Inr r by simp
      have step: "walk_lines c ex th ch seen ((line, offset) # zs)
          = (en # fst (walk_lines c ex th ch' (seen \<or> ?named) zs), snd (walk_lines c ex th ch' (seen \<or> ?named) zs))" for zs
        using acc n by (simp add: Let_def split_def)
      obtain es st where l: "walk_lines c ex th ch' (seen \<or> ?named) lines = (es, st)"
        by (cases "walk_lines c ex th ch' (seen \<or> ?named) lines")
      show ?thesis
        unfolding append_Cons step IH l by (cases st) simp_all
    qed
  qed simp
qed simp

lemma walk_chunks_short:
  "short_lines sp (concat chunks) \<Longrightarrow>
   (let w = walk_chunks c ex th ch seen sp chunks; l = walk_lines c ex th ch seen (fst (split_chunk sp (concat chunks)))
    in fst w = fst l \<and> fst (snd w) = snd l
       \<and> (\<forall>ch' seen'. snd l = Going ch' seen' \<longrightarrow> snd (snd w) = snd (split_chunk sp (concat chunks))))"
proof (induction c ex th ch seen sp chunks rule: walk_chunks.induct)
  case (1 c ex th ch seen sp)
  have "split_chunk sp [] = ([], sp)" by (subst split_none) (simp_all add: index_of_None)
  then show ?case by simp
next
  case (2 c ex th ch seen sp chunk chunks)
  have s: "short_lines sp (chunk @ concat chunks)" using "2.prems" by simp
  note push = short_push [OF s]
  let ?sp = "snd (split_chunk sp chunk)"
  let ?l = "walk_lines c ex th ch seen (fst (split_chunk sp chunk))"
  have app: "walk_lines c ex th ch seen (fst (split_chunk sp (chunk @ concat chunks)))
     = (case ?l of
        (es, Going ch' seen') \<Rightarrow>
          (es @ fst (walk_lines c ex th ch' seen' (fst (split_chunk ?sp (concat chunks)))),
           snd (walk_lines c ex th ch' seen' (fst (split_chunk ?sp (concat chunks)))))
      | r \<Rightarrow> r)"
    by (simp add: split_append [of sp chunk] walk_lines_append)
  have sp: "snd (split_chunk sp (chunk @ concat chunks)) = snd (split_chunk ?sp (concat chunks))"
    by (simp add: split_append [of sp chunk])
  obtain es st where l: "?l = (es, st)" by (cases ?l)
  show ?case
  proof (cases st)
    case (Going ch' seen')
    note IH = "2.IH" [OF refl push [symmetric] refl l [symmetric] Going refl short_rest [OF s]]
    show ?thesis using IH l Going app sp push by (simp add: Let_def split_def)
  qed (use l app push in \<open>simp_all add: Let_def split_def\<close>)
qed

lemma walk_chunking:
  assumes "short_lines (start_splitter start) (concat chunks)"
  shows "walk_from c opts ch start chunks = walk_from c opts ch start [concat chunks]"
proof -
  let ?w = "\<lambda>cs. walk_chunks c (wo_expect opts) (wo_through opts) ch False (start_splitter start) cs"
  let ?l = "walk_lines c (wo_expect opts) (wo_through opts) ch False (fst (split_chunk (start_splitter start) (concat chunks)))"
  note a = walk_chunks_short [OF assms, of c "wo_expect opts" "wo_through opts" ch False, unfolded Let_def]
  note b = walk_chunks_short [of "start_splitter start" "[concat chunks]" c "wo_expect opts" "wo_through opts" ch False,
      unfolded Let_def, simplified, OF assms]
  obtain es st where l: "?l = (es, st)" by (cases ?l)
  have e: "fst (?w chunks) = es" "fst (?w [concat chunks]) = es"
    and t: "fst (snd (?w chunks)) = st" "fst (snd (?w [concat chunks])) = st"
    using a b l by simp_all
  show ?thesis
  proof (cases st)
    case (Going ch' seen')
    then have "snd (snd (?w chunks)) = snd (snd (?w [concat chunks]))" using a b l by simp
    then have "?w chunks = ?w [concat chunks]" using e t by (simp add: prod_eq_iff del: walk_chunks.simps)
    then show ?thesis by (simp only: walk_from_def)
  qed (use e t in \<open>simp_all add: walk_from_def split_def Let_def del: walk_chunks.simps\<close>)
qed

subsection \<open>An accepted log is a chain\<close>

lemma acceptD:
  assumes "chain_accept c ch line offset = Inr (ch', e)"
  obtains parsed where
    "offset = chain_end ch" "parse_line c line = Inr parsed"
    "entry_record e = pl_record parsed"
    "entry_pointer e = \<lparr>ptr_seq = rec_seq (pl_record parsed), ptr_offset = offset,
       ptr_length = length line, ptr_sha = sha256 c line\<rparr>"
    "rec_seq (entry_record e) = head_seq ch + 1"
    "chain_head ch = None \<longrightarrow> offset = 0 \<and> rec_payload (entry_record e) = SessionStarted"
    "\<forall>h. chain_head ch = Some h \<longrightarrow> rec_prev (entry_record e) = Some h"
    "\<forall>s. chain_session ch = Some s \<longrightarrow> rec_session (entry_record e) = s"
    "chain_gen ch \<le> rec_gen (entry_record e)"
    "text_link_ok (entry_record e) (entry_pointer e)"
    "ch' = \<lparr>chain_head = Some (entry_pointer e), chain_session = Some (rec_session (entry_record e)),
       chain_gen = rec_gen (entry_record e)\<rparr>"
proof -
  obtain parsed where p: "offset = chain_end ch" "parse_line c line = Inr parsed"
    using assms by (auto simp: chain_accept_def Let_def split: sum.splits if_splits)
  note pl = parse_lineD(1,2) [OF p(2)]
  show ?thesis
    using assms p pl
    by (intro that [OF p])
      (auto simp: chain_accept_def Let_def head_seq_def split: if_splits option.splits)
qed

text \<open>Without an anchor or a bound the walk that goes on is the same.\<close>

lemma walk_lines_plain:
  "walk_lines c ex th ch seen ls = (es, Going ch' seen') \<Longrightarrow> walk_lines c None None ch t ls = (es, Going ch' t)"
proof (induction c ex th ch seen ls arbitrary: es t rule: walk_lines.induct)
  case (2 c ex th ch seen line offset lines)
  then obtain ch1 en where acc: "chain_accept c ch line offset = Inr (ch1, en)"
    by (auto split: sum.splits prod.splits)
  let ?p = "entry_pointer en"
  have n: "\<not> (names_seq ex ?p \<and> anchor_differs (the ex) ?p)" "\<not> reaches th ?p"
    using "2.prems" acc by (auto simp: Let_def split: if_splits)
  obtain es1 where es: "es = en # es1" "walk_lines c ex th ch1 (seen \<or> names_seq ex ?p) lines = (es1, Going ch' seen')"
    using "2.prems" acc n by (auto simp: Let_def split: prod.splits)
  note IH = "2.IH" [OF acc refl refl n es(2), of t]
  show ?case using acc es(1) IH by (simp add: names_seq_def reaches_def Let_def)
qed simp

lemma going_snoc:
  assumes "walk_lines c None None ch t (ls @ [(line, offset)]) = (es, Going ch' t')"
  obtains es1 ch1 e where "walk_lines c None None ch t ls = (es1, Going ch1 t)" "es = es1 @ [e]" "t' = t"
    "chain_accept c ch1 line offset = Inr (ch', e)"
proof -
  obtain es1 st where w: "walk_lines c None None ch t ls = (es1, st)" by (cases "walk_lines c None None ch t ls")
  then obtain ch1 t1 where st: "st = Going ch1 t1"
    using assms by (cases st) (auto simp: walk_lines_append)
  then have t1: "t1 = t" using walk_lines_plain [OF w [unfolded st], of t] w by simp
  obtain e where "chain_accept c ch1 line offset = Inr (ch', e)" "es = es1 @ [e]" "t' = t"
    using assms w st t1 by (auto simp: walk_lines_append names_seq_def reaches_def Let_def split: sum.splits prod.splits)
  with w st t1 show ?thesis by (intro that) simp_all
qed

text \<open>
  What the entries of a walk from the start are, given the lines: record by
  record decoded from its line, numbered from 1, each pointing back at the line
  before by its place and hash, of one session, with generations that never fall.
\<close>

definition is_chain :: "codec \<Rightarrow> bytes list \<Rightarrow> entry list \<Rightarrow> bool" where
  "is_chain c lines es \<longleftrightarrow> length es = length lines \<and>
     (\<forall>i < length es.
        decode c (butlast (lines ! i)) = Inr (entry_record (es ! i))
        \<and> entry_pointer (es ! i) = \<lparr>ptr_seq = i + 1, ptr_offset = length (concat (take i lines)),
             ptr_length = length (lines ! i), ptr_sha = sha256 c (lines ! i)\<rparr>
        \<and> rec_seq (entry_record (es ! i)) = i + 1
        \<and> rec_session (entry_record (es ! i)) = rec_session (entry_record (es ! 0))
        \<and> (if i = 0 then rec_payload (entry_record (es ! i)) = SessionStarted
           else rec_prev (entry_record (es ! i)) = Some (entry_pointer (es ! (i - 1)))
             \<and> rec_gen (entry_record (es ! (i - 1))) \<le> rec_gen (entry_record (es ! i))))"

lemma is_chain_snoc:
  assumes prior: "is_chain c ls es"
    and dec: "decode c (butlast line) = Inr (entry_record e)"
    and e: "entry_pointer e = \<lparr>ptr_seq = length ls + 1, ptr_offset = length (concat ls),
      ptr_length = length line, ptr_sha = sha256 c line\<rparr>" "rec_seq (entry_record e) = length ls + 1"
    and behind: "if ls = [] then rec_payload (entry_record e) = SessionStarted
     else rec_prev (entry_record e) = Some (entry_pointer (last es))
       \<and> rec_gen (entry_record (last es)) \<le> rec_gen (entry_record e)
       \<and> rec_session (entry_record e) = rec_session (entry_record (last es))"
  shows "is_chain c (ls @ [line]) (es @ [e])"
proof -
  have len: "length es = length ls" using prior by (simp add: is_chain_def)
  have new: "(es @ [e]) ! length ls = e" "(ls @ [line]) ! length ls = line"
    and old: "\<And>i. i < length ls \<Longrightarrow> (es @ [e]) ! i = es ! i" "\<And>i. i < length ls \<Longrightarrow> (ls @ [line]) ! i = ls ! i"
    using len by (auto simp: nth_append)
  have lastE: "ls \<noteq> [] \<Longrightarrow> last es = es ! (length ls - 1)"
    using len by (metis last_conv_nth list.size(3) length_0_conv)
  have sess: "rec_session (entry_record (es ! i)) = rec_session (entry_record (es ! 0))" if "i < length ls" for i
    using prior that len unfolding is_chain_def by metis
  show ?thesis
    unfolding is_chain_def
  proof (intro conjI allI impI)
    fix i assume "i < length (es @ [e])"
    then consider (1) "i < length ls" | (2) "i = length ls" using len by fastforce
    note i = this
    from i show "decode c (butlast ((ls @ [line]) ! i)) = Inr (entry_record ((es @ [e]) ! i))"
      by cases (use prior len dec new old in \<open>simp_all add: is_chain_def\<close>)
    from i show "entry_pointer ((es @ [e]) ! i) = \<lparr>ptr_seq = i + 1,
        ptr_offset = length (concat (take i (ls @ [line]))),
        ptr_length = length ((ls @ [line]) ! i), ptr_sha = sha256 c ((ls @ [line]) ! i)\<rparr>"
      by cases (use prior len e new old in \<open>simp_all add: is_chain_def\<close>)
    from i show "rec_seq (entry_record ((es @ [e]) ! i)) = i + 1"
      by cases (use prior len e new old in \<open>simp_all add: is_chain_def\<close>)
    from i show "rec_session (entry_record ((es @ [e]) ! i)) = rec_session (entry_record ((es @ [e]) ! 0))"
    proof cases
      case 1
      then have "0 < length ls" by linarith
      with 1 show ?thesis using sess old by metis
    next
      case 2
      then show ?thesis
        using new old behind lastE sess [of "length ls - 1"] by (cases "ls = []") simp_all
    qed
    from i show "if i = 0 then rec_payload (entry_record ((es @ [e]) ! i)) = SessionStarted
        else rec_prev (entry_record ((es @ [e]) ! i)) = Some (entry_pointer ((es @ [e]) ! (i - 1)))
          \<and> rec_gen (entry_record ((es @ [e]) ! (i - 1))) \<le> rec_gen (entry_record ((es @ [e]) ! i))"
    proof cases
      case 1
      then have "(es @ [e]) ! i = es ! i" "(es @ [e]) ! (i - 1) = es ! (i - 1)" using old by simp_all
      then show ?thesis using prior len 1 unfolding is_chain_def by metis
    next
      case 2
      then show ?thesis using behind lastE new old by (cases "ls = []") simp_all
    qed
  qed (simp add: len)
qed

definition fresh_chain :: "chain \<Rightarrow> bool" where
  "fresh_chain ch \<longleftrightarrow> chain_head ch = None \<and> chain_gen ch = 0"

lemma walk_is_chain:
  assumes "fresh_chain ch"
  shows "walk_lines c None None ch t ls = (es, Going ch' t') \<Longrightarrow>
    is_chain c (map fst ls) es
    \<and> (if ls = [] then ch' = ch
       else chain_head ch' = Some (entry_pointer (last es)) \<and> chain_gen ch' = rec_gen (entry_record (last es))
         \<and> chain_session ch' = Some (rec_session (entry_record (last es))))
    \<and> chain_end ch' = length (concat (map fst ls)) \<and> head_seq ch' = length ls"
proof (induction ls arbitrary: es ch' t' rule: rev_induct)
  case Nil
  then show ?case using assms by (simp add: is_chain_def fresh_chain_def chain_end_def head_seq_def)
next
  case (snoc x ls)
  obtain line offset where x: "x = (line, offset)" by (cases x)
  from going_snoc [OF snoc.prems [unfolded x]] obtain es1 ch1 e where
    w: "walk_lines c None None ch t ls = (es1, Going ch1 t)" and es: "es = es1 @ [e]"
    and acc: "chain_accept c ch1 line offset = Inr (ch', e)" .
  note IH = snoc.IH [OF w]
  from acceptD [OF acc] obtain parsed where
    a: "offset = chain_end ch1" "parse_line c line = Inr parsed" "entry_record e = pl_record parsed"
    "entry_pointer e = \<lparr>ptr_seq = rec_seq (pl_record parsed), ptr_offset = offset,
       ptr_length = length line, ptr_sha = sha256 c line\<rparr>"
    "rec_seq (entry_record e) = head_seq ch1 + 1"
    "chain_head ch1 = None \<longrightarrow> offset = 0 \<and> rec_payload (entry_record e) = SessionStarted"
    "\<forall>h. chain_head ch1 = Some h \<longrightarrow> rec_prev (entry_record e) = Some h"
    "\<forall>s. chain_session ch1 = Some s \<longrightarrow> rec_session (entry_record e) = s"
    "chain_gen ch1 \<le> rec_gen (entry_record e)"
    "ch' = \<lparr>chain_head = Some (entry_pointer e), chain_session = Some (rec_session (entry_record e)),
       chain_gen = rec_gen (entry_record e)\<rparr>" .
  have len: "length es1 = length ls" using IH by (simp add: is_chain_def)
  have e: "entry_pointer e = \<lparr>ptr_seq = length ls + 1, ptr_offset = length (concat (map fst ls)),
      ptr_length = length line, ptr_sha = sha256 c line\<rparr>" "rec_seq (entry_record e) = length ls + 1"
    using a IH by auto
  have behind: "if ls = [] then rec_payload (entry_record e) = SessionStarted
     else rec_prev (entry_record e) = Some (entry_pointer (last es1))
       \<and> rec_gen (entry_record (last es1)) \<le> rec_gen (entry_record e)
       \<and> rec_session (entry_record e) = rec_session (entry_record (last es1))"
    using a(6-9) IH assms by (auto simp: fresh_chain_def)
  have "is_chain c (map fst ls @ [line]) (es1 @ [e])"
    by (rule is_chain_snoc)
      (use IH behind e parse_lineD(7) [OF a(2)] a(3) in \<open>simp_all\<close>)
  then show ?case using es x a(10) e by (simp add: chain_end_def head_seq_def)
qed

subsection \<open>A head fixes the log\<close>

lemma anchor_fixes:
  assumes "fresh_chain ch" "fresh_chain ch'"
  shows "walk_lines c None None ch t xs = (es, Going d t1) \<Longrightarrow> walk_lines c None None ch' t' ys = (es', Going d' t1')
    \<Longrightarrow> chain_head d = chain_head d'
    \<Longrightarrow> \<forall>x \<in> fst ` set xs. \<forall>y \<in> fst ` set ys. sha256 c x = sha256 c y \<longrightarrow> x = y
    \<Longrightarrow> map fst xs = map fst ys"
proof (induction xs arbitrary: ys es es' d d' t1 t1' rule: rev_induct)
  case Nil
  then have "chain_head d = None" using assms(1) by (simp add: fresh_chain_def)
  then have "ys = []"
    using walk_is_chain [OF assms(2) Nil.prems(2)] Nil.prems(3) by (simp split: if_splits)
  then show ?case by simp
next
  case (snoc x xs)
  have n: "length ys = Suc (length xs)"
  proof -
    have "head_seq d = length (xs @ [x])" "head_seq d' = length ys"
      using walk_is_chain [OF assms(1) snoc.prems(1)] walk_is_chain [OF assms(2) snoc.prems(2)] by blast+
    then show ?thesis using snoc.prems(3) by (simp add: head_seq_def)
  qed
  then obtain zs y where ys: "ys = zs @ [y]" by (cases ys rule: rev_cases) auto
  obtain xl xo yl yo where xy: "x = (xl, xo)" "y = (yl, yo)" by (cases x; cases y)
  from going_snoc [OF snoc.prems(1) [unfolded xy]] obtain es1 d1 e where
    w: "walk_lines c None None ch t xs = (es1, Going d1 t)" "es = es1 @ [e]" and acc: "chain_accept c d1 xl xo = Inr (d, e)" .
  from going_snoc [OF snoc.prems(2) [unfolded ys xy]] obtain fs1 d2 f where
    w': "walk_lines c None None ch' t' zs = (fs1, Going d2 t')" "es' = fs1 @ [f]" and acc': "chain_accept c d2 yl yo = Inr (d', f)" .
  have p: "entry_pointer e = entry_pointer f"
    using walk_is_chain [OF assms(1) snoc.prems(1)] walk_is_chain [OF assms(2) snoc.prems(2)] snoc.prems(3) w(2) w'(2) ys
    by simp
  from acceptD [OF acc] obtain q where q: "parse_line c xl = Inr q" "entry_record e = pl_record q"
    "ptr_sha (entry_pointer e) = sha256 c xl" "\<forall>h. chain_head d1 = Some h \<longrightarrow> rec_prev (entry_record e) = Some h"
    by (metis record_pointer.select_convs(4))
  from acceptD [OF acc'] obtain q' where q': "parse_line c yl = Inr q'" "entry_record f = pl_record q'"
    "ptr_sha (entry_pointer f) = sha256 c yl" "\<forall>h. chain_head d2 = Some h \<longrightarrow> rec_prev (entry_record f) = Some h"
    by (metis record_pointer.select_convs(4))
  have line: "xl = yl" using snoc.prems(4) q(3) q'(3) p xy ys by simp
  then have rec: "entry_record e = entry_record f" using q q' by simp
  have "chain_head d1 = None \<longleftrightarrow> xs = []" "chain_head d2 = None \<longleftrightarrow> zs = []"
    using walk_is_chain [OF assms(1) w(1)] walk_is_chain [OF assms(2) w'(1)] assms by (auto simp: fresh_chain_def split: if_splits)
  then have "chain_head d1 = chain_head d2"
    using q(4) q'(4) rec n ys by (cases "chain_head d1"; cases "chain_head d2") auto
  then have "map fst xs = map fst zs"
    by (rule snoc.IH [OF w(1) w'(1)]) (use snoc.prems(4) ys in auto)
  then show ?case using line xy ys by simp
qed

text \<open>A walk over chunks that goes on to the end has walked the lines of the whole.\<close>

lemma walk_chunks_going:
  "walk_chunks c ex th ch seen sp chunks = (es, Going ch' seen', sp') \<Longrightarrow>
   walk_lines c ex th ch seen (fst (split_chunk sp (concat chunks))) = (es, Going ch' seen')
   \<and> sp' = snd (split_chunk sp (concat chunks))"
proof (induction c ex th ch seen sp chunks arbitrary: es rule: walk_chunks.induct)
  case (1 c ex th ch seen sp)
  have "split_chunk sp [] = ([], sp)" by (subst split_none) (simp_all add: index_of_None)
  with 1 show ?case by simp
next
  case (2 c ex th ch seen sp chunk chunks)
  obtain lines pushed where p: "push_chunk sp chunk = (lines, pushed)" by (cases "push_chunk sp chunk")
  obtain es1 st where l: "walk_lines c ex th ch seen lines = (es1, st)" by (cases "walk_lines c ex th ch seen lines")
  obtain ch1 seen1 where st: "st = Going ch1 seen1"
    using "2.prems" p l by (cases st) (auto simp: Let_def)
  obtain sp1 where s: "pushed = Inr sp1"
    using "2.prems" p l st by (cases pushed) (auto simp: Let_def)
  obtain es2 where w: "walk_chunks c ex th ch1 seen1 sp1 chunks = (es2, Going ch' seen', sp')" "es = es1 @ es2"
    using "2.prems" p l st s by (auto simp: Let_def split: prod.splits)
  note IH = "2.IH" [OF p [symmetric] refl refl l [symmetric] st s w(1)]
  have "lines = fst (split_chunk sp chunk)" "sp1 = snd (split_chunk sp chunk)"
    using p s by (auto simp: push_chunk_def split_def Let_def split: if_splits)
  then show ?case using IH l st w(2) by (simp add: split_append [of sp chunk] walk_lines_append)
qed

definition file_lines :: "bytes \<Rightarrow> bytes list" where
  "file_lines file = map fst (fst (split_chunk (start_splitter 0) file))"

lemma lines_never_stop: "snd (walk_lines c ex None ch seen ls) \<noteq> Stopped x"
proof (induction c ex "None :: nat option" ch seen ls rule: walk_lines.induct)
  case (2 c ex ch seen line offset lines)
  show ?case
  proof (cases "chain_accept c ch line offset")
    case (Inr r)
    then show ?thesis using "2.hyps" [OF Inr] by (cases r) (auto simp: Let_def reaches_def split_def)
  qed simp
qed simp

lemma never_stops: "fst (snd (walk_chunks c ex None ch seen sp chunks)) \<noteq> Stopped x"
proof (induction c ex "None :: nat option" ch seen sp chunks rule: walk_chunks.induct)
  case (2 c ex ch seen sp chunk chunks)
  obtain lines pushed where p: "push_chunk sp chunk = (lines, pushed)" by (cases "push_chunk sp chunk")
  obtain es1 st where l: "walk_lines c ex None ch seen lines = (es1, st)" by (cases "walk_lines c ex None ch seen lines")
  have ns: "st \<noteq> Stopped x" using lines_never_stop [of c ex ch seen lines x] l by simp
  show ?case
  proof (cases st)
    case (Going ch1 seen1)
    show ?thesis
    proof (cases pushed)
      case (Inr sp1)
      then show ?thesis using "2.hyps" [OF p [symmetric] refl refl l [symmetric] Going Inr] p l Going
        by (simp add: split_def Let_def)
    qed (simp add: p l Going)
  qed (use p l ns in simp_all)
qed simp

text \<open>What a read to the end without a break has seen.\<close>

lemma full_walk:
  assumes "walk_session_log c chunked opts session file = (es, Inr sm)" "concat (chunked file) = file"
    "wo_after opts = None" "wo_through opts = None" "rs_break sm = None"
  obtains ch seen where
    "walk_lines c None None (start_chain\<lparr>chain_session := session\<rparr>) False
       (fst (split_chunk (start_splitter 0) file)) = (es, Going ch False)"
    "rs_head sm = map_option (\<lambda>p. \<lparr>lh_pointer = p, lh_gen = chain_gen ch, lh_bytes = chain_end ch\<rparr>) (chain_head ch)"
    "rs_torn sm = length (sp_pending (snd (split_chunk (start_splitter 0) file)))"
proof -
  let ?ch = "start_chain\<lparr>chain_session := session\<rparr>"
  obtain st sp where w: "walk_chunks c (wo_expect opts) None ?ch False (start_splitter 0) (chunked file) = (es, st, sp)"
    using assms by (auto simp: walk_session_log_def walk_from_def split: prod.splits)
  have not_stopped: "st \<noteq> Stopped x" for x
    using w never_stops by (metis fst_conv snd_conv)
  obtain ch seen where st: "st = Going ch seen"
    using assms w not_stopped
    by (cases st) (auto simp: walk_session_log_def walk_from_def summarise_def split: if_splits)
  have sm: "sm = summarise ch (length (sp_pending sp)) None"
    using assms w st by (auto simp: walk_session_log_def walk_from_def summarise_def split: option.splits if_splits)
  from walk_chunks_going [OF w [unfolded st]] have l:
    "walk_lines c (wo_expect opts) None ?ch False (fst (split_chunk (start_splitter 0) file)) = (es, Going ch seen)"
    "sp = snd (split_chunk (start_splitter 0) file)"
    using assms(2) by simp_all
  show ?thesis
    by (rule that [OF walk_lines_plain [OF l(1)]]) (simp_all add: sm summarise_def l(2))
qed

end
