(* ===== verification/SessionChainProperties.thy ===== *)
theory SessionChainProperties
  imports SessionChainProofs
begin

text \<open>
  The properties of the hash chain (\<open>store/session-log/chain.ts\<close> and the walk of
  \<open>core.ts\<close>), with a log of two records under a codec given by a table.
\<close>

definition ex_pointer :: record_pointer where
  "ex_pointer = \<lparr>ptr_seq = 1, ptr_offset = 0, ptr_length = 2, ptr_sha = ''h1''\<rparr>"

definition ex_first :: session_record where
  "ex_first = \<lparr>rec_id = ''r1'', rec_session = ''s'', rec_seq = 1, rec_ts = 0, rec_prev = None,
     rec_prev_text = None, rec_gen = 1, rec_turn = None, rec_payload = SessionStarted\<rparr>"

definition ex_second :: session_record where
  "ex_second = \<lparr>rec_id = ''r2'', rec_session = ''s'', rec_seq = 2, rec_ts = 5, rec_prev = Some ex_pointer,
     rec_prev_text = None, rec_gen = 1, rec_turn = None, rec_payload = OtherRecord ''audit'' []\<rparr>"

definition ex_codec :: codec where
  "ex_codec = \<lparr>decode = (\<lambda>b. if b = [1] then Inr ex_first else if b = [2] then Inr ex_second else Inl NotJson),
     encode = (\<lambda>r. if rec_seq r = 1 then [1] else [2]),
     sha256 = (\<lambda>b. if b = [1, 10] then ''h1'' else ''h2''),
     schema = (\<lambda>r. True), utf8 = (\<lambda>t. []), message_json = sm_text, messages_json = (\<lambda>ms. []), input_json = (\<lambda>i. [])\<rparr>"

definition ex_file :: bytes where
  "ex_file = [1, 10, 2, 10]"

definition ex_read :: walk_options where
  "ex_read = \<lparr>wo_strict = True, wo_after = None, wo_expect = None, wo_through = None\<rparr>"

definition ex_bytewise :: "bytes \<Rightarrow> bytes list" where
  "ex_bytewise data = map (\<lambda>b. [b]) data"

lemma ex_bytewise_whole: "concat (ex_bytewise data) = data"
  by (induction data) (simp_all add: ex_bytewise_def)

definition ex_summary :: read_summary where
  "ex_summary = \<lparr>rs_intact = True, rs_through = 2,
     rs_head = Some \<lparr>lh_pointer = \<lparr>ptr_seq = 2, ptr_offset = 2, ptr_length = 2, ptr_sha = ''h2''\<rparr>, lh_gen = 1, lh_bytes = 4\<rparr>,
     rs_torn = 0, rs_break = None\<rparr>"

lemma ex_walk: "snd (walk_session_log ex_codec ex_bytewise ex_read (Some ''s'') ex_file) = Inr ex_summary"
  by code_simp

lemma ex_walk_entries: "length (fst (walk_session_log ex_codec ex_bytewise ex_read (Some ''s'') ex_file)) = 2"
  by code_simp

subsection \<open>What a read establishes\<close>

text \<open>C29: A read to the end of a log that reports no break has yielded a chain: each entry decodes its own line, records are numbered from 1 without a gap, each names the place and hash of the line before it, all name one session, and generations never fall. What is left after the last line is what it calls torn.\<close>

theorem verified_read_is_chain:
  assumes "walk_session_log c chunked opts session data = (es, Inr sm)" and "concat (chunked data) = data"
    and "wo_after opts = None" and "wo_through opts = None" and "rs_break sm = None"
  shows "is_chain c (file_lines data) es
    \<and> (\<exists>torn. data = concat (file_lines data) @ torn \<and> rs_torn sm = length torn)"
proof -
  from full_walk [OF assms] obtain ch where
    w: "walk_lines c None None (start_chain\<lparr>chain_session := session\<rparr>) False
       (fst (split_chunk (start_splitter 0) data)) = (es, Going ch False)"
    and torn: "rs_torn sm = length (sp_pending (snd (split_chunk (start_splitter 0) data)))" .
  have "fresh_chain (start_chain\<lparr>chain_session := session\<rparr>)" by (simp add: fresh_chain_def start_chain_def)
  from walk_is_chain [OF this w] have "is_chain c (file_lines data) es" by (simp add: file_lines_def)
  moreover have "data = concat (file_lines data) @ sp_pending (snd (split_chunk (start_splitter 0) data))"
    using split_bytes [of "start_splitter 0" data] by (simp add: file_lines_def start_splitter_def)
  ultimately show ?thesis using torn by blast
qed

theorem verified_read_is_chain_witness:
  "is_chain ex_codec (file_lines ex_file) (fst (walk_session_log ex_codec ex_bytewise ex_read (Some ''s'') ex_file))"
proof -
  let ?w = "walk_session_log ex_codec ex_bytewise ex_read (Some ''s'') ex_file"
  have "?w = (fst ?w, Inr ex_summary)" using ex_walk by (metis prod.collapse)
  from verified_read_is_chain [OF this ex_bytewise_whole] show ?thesis
    by (simp add: ex_read_def ex_summary_def)
qed

text \<open>How the stream is cut into chunks makes no difference to a read of a log whose lines fit a record: the same entries, and the same summary or break.\<close>

theorem read_ignores_chunking:
  assumes "concat (chunked data) = data" and "concat (chunked' data) = data" and "wo_after opts = None"
    and "short_lines (start_splitter 0) data"
  shows "walk_session_log c chunked opts session data = walk_session_log c chunked' opts session data"
  using walk_chunking [of 0 "chunked data" c opts "start_chain\<lparr>chain_session := session\<rparr>"]
    walk_chunking [of 0 "chunked' data" c opts "start_chain\<lparr>chain_session := session\<rparr>"] assms
  by (simp add: walk_session_log_def)

theorem read_ignores_chunking_witness:
  "walk_session_log ex_codec (\<lambda>data. [data]) ex_read (Some ''s'') ex_file
   = walk_session_log ex_codec ex_bytewise ex_read (Some ''s'') ex_file"
proof (rule read_ignores_chunking)
  show "concat (ex_bytewise ex_file) = ex_file" by (rule ex_bytewise_whole)
  show "short_lines (start_splitter 0) ex_file" by code_simp
qed (simp_all add: ex_read_def)

text \<open>A head fixes the whole log: two logs that both read to the end without a break and without a torn tail, with the same head, are byte for byte the same, unless SHA-256 has a collision between two of their lines.\<close>

theorem head_fixes_log:
  assumes "walk_session_log c chunked opts session data = (es, Inr sm)" and "concat (chunked data) = data"
    and "wo_after opts = None" and "wo_through opts = None" and "rs_break sm = None" and "rs_torn sm = 0"
    and "walk_session_log c chunked' opts' session' data' = (es', Inr sm')" and "concat (chunked' data') = data'"
    and "wo_after opts' = None" and "wo_through opts' = None" and "rs_break sm' = None" and "rs_torn sm' = 0"
    and "map_option lh_pointer (rs_head sm) = map_option lh_pointer (rs_head sm')"
    and "\<forall>x \<in> set (file_lines data). \<forall>y \<in> set (file_lines data'). sha256 c x = sha256 c y \<longrightarrow> x = y"
  shows "data = data'"
proof -
  from full_walk [OF assms(1-5)] obtain ch where
    w: "walk_lines c None None (start_chain\<lparr>chain_session := session\<rparr>) False
       (fst (split_chunk (start_splitter 0) data)) = (es, Going ch False)"
    and h: "rs_head sm = map_option (\<lambda>p. \<lparr>lh_pointer = p, lh_gen = chain_gen ch, lh_bytes = chain_end ch\<rparr>) (chain_head ch)"
    and torn: "rs_torn sm = length (sp_pending (snd (split_chunk (start_splitter 0) data)))" .
  from full_walk [OF assms(7-11)] obtain ch' where
    w': "walk_lines c None None (start_chain\<lparr>chain_session := session'\<rparr>) False
       (fst (split_chunk (start_splitter 0) data')) = (es', Going ch' False)"
    and h': "rs_head sm' = map_option (\<lambda>p. \<lparr>lh_pointer = p, lh_gen = chain_gen ch', lh_bytes = chain_end ch'\<rparr>) (chain_head ch')"
    and torn': "rs_torn sm' = length (sp_pending (snd (split_chunk (start_splitter 0) data')))" .
  have "chain_head ch = chain_head ch'"
    using assms(13) unfolding h h' by (cases "chain_head ch"; cases "chain_head ch'") auto
  then have "file_lines data = file_lines data'"
    unfolding file_lines_def
    by (intro anchor_fixes [OF _ _ w w'])
      (use assms(14) in \<open>auto simp: fresh_chain_def start_chain_def file_lines_def\<close>)
  then show ?thesis
    using split_bytes [of "start_splitter 0" data] split_bytes [of "start_splitter 0" data']
      torn torn' assms(6,12) by (simp add: file_lines_def start_splitter_def)
qed

theorem head_fixes_log_witness: "concat (ex_bytewise ex_file) = ex_file"
proof -
  let ?w = "walk_session_log ex_codec ex_bytewise ex_read (Some ''s'') ex_file"
  have w: "?w = (fst ?w, Inr ex_summary)" using ex_walk by (metis prod.collapse)
  have o: "wo_after ex_read = None" "wo_through ex_read = None" "rs_break ex_summary = None" "rs_torn ex_summary = 0"
    by (simp_all add: ex_read_def ex_summary_def)
  have "walk_session_log ex_codec ex_bytewise ex_read (Some ''s'') (concat (ex_bytewise ex_file)) = (fst ?w, Inr ex_summary)"
    using w by (simp only: ex_bytewise_whole)
  moreover have "\<forall>x \<in> set (file_lines (concat (ex_bytewise ex_file))). \<forall>y \<in> set (file_lines ex_file).
      sha256 ex_codec x = sha256 ex_codec y \<longrightarrow> x = y" by code_simp
  ultimately show ?thesis
    by (intro head_fixes_log [OF _ ex_bytewise_whole o w ex_bytewise_whole o]) simp_all
qed

text \<open>An altered record is found: where a line of the example log is changed, a strict read stops at the first record whose bytes or whose predecessor no longer match.\<close>

theorem altered_line_detected:
  "snd (walk_session_log (ex_codec\<lparr>decode := (\<lambda>b. if b = [3] then Inr (ex_first\<lparr>rec_id := ''x''\<rparr>) else decode ex_codec b)\<rparr>)
     ex_bytewise ex_read (Some ''s'') [3, 10, 2, 10])
   = Inl (LogBroken \<lparr>break_reason = PrevMismatch, break_seq = 2, break_offset = 2\<rparr>)"
  by code_simp

end
