(* ===== verification/SessionFold.thy ===== *)
theory SessionFold
  imports SessionRecord
begin

text \<open>
  The folds over a session log's records (\<open>store/session-log/fold.ts\<close>): the
  conversation a model sees, and the active turn. The message fold keeps each slot
  in a list in order and in a map by message id; both refer to one mutable object,
  so the slots live in a store and the list and the map hold addresses.
\<close>

subsection \<open>The message fold\<close>

record slot =
  slot_turn :: "string option"
  slot_id :: "string option"
  slot_seq :: nat
  slot_message :: stored_message
  slot_spill :: "spill_ref option"
  slot_replaced :: "nat option"

record replacement =
  rp_target :: string
  rp_message :: stored_message
  rp_seq :: nat
  rp_spill :: "spill_ref option"

record fold_state =
  fs_heap :: "slot list"
  fs_slots :: "nat list"
  fs_by_id :: "(string \<times> nat) list"
  fs_replacements :: "replacement list"
  fs_spilled :: "(nat \<times> spill_ref) option"
  fs_through :: nat

definition start_fold :: fold_state where
  "start_fold = \<lparr>fs_heap = [], fs_slots = [], fs_by_id = [], fs_replacements = [], fs_spilled = None, fs_through = 0\<rparr>"

definition with_message_id :: "stored_message \<Rightarrow> string option \<Rightarrow> stored_message" where
  "with_message_id m i = (if sm_id m = i then m else m\<lparr>sm_id := i\<rparr>)"

text \<open>The slot a \<open>message\<close> record makes, under the replacement of its id if there is one.\<close>

definition message_slot ::
    "replacement option \<Rightarrow> session_record \<Rightarrow> string \<Rightarrow> stored_message \<Rightarrow> spill_ref option \<Rightarrow> slot" where
  "message_slot replaced r mid content spill =
     \<lparr>slot_turn = rec_turn r, slot_id = Some mid, slot_seq = rec_seq r,
      slot_message = (case replaced of None \<Rightarrow> content | Some p \<Rightarrow> rp_message p),
      slot_spill = (case replaced of None \<Rightarrow> spill | Some p \<Rightarrow> rp_spill p),
      slot_replaced = map_option rp_seq replaced\<rparr>"

text \<open>The fields a second record of the same message overwrites.\<close>

definition overwrite_slot :: "slot \<Rightarrow> slot \<Rightarrow> slot" where
  "overwrite_slot new old = old\<lparr>slot_seq := slot_seq new, slot_message := slot_message new,
     slot_spill := slot_spill new, slot_replaced := slot_replaced new\<rparr>"

definition replace_slot :: "session_record \<Rightarrow> stored_message \<Rightarrow> spill_ref option \<Rightarrow> slot \<Rightarrow> slot" where
  "replace_slot r content spill old =
     old\<lparr>slot_message := content, slot_replaced := Some (rec_seq r), slot_spill := spill\<rparr>"

definition summary_slot :: "nat \<Rightarrow> stored_message \<Rightarrow> slot" where
  "summary_slot sq m = \<lparr>slot_turn = None, slot_id = None, slot_seq = sq, slot_message = m,
     slot_spill = None, slot_replaced = None\<rparr>"

definition fold_message ::
    "session_record \<Rightarrow> string \<Rightarrow> stored_message \<Rightarrow> spill_ref option \<Rightarrow> fold_state \<Rightarrow> fold_state" where
  "fold_message r mid content spill st =
     (let new = message_slot (kfind rp_target mid (fs_replacements st)) r mid content spill in
      case kfind fst mid (fs_by_id st) of
        Some (i, a) \<Rightarrow> st\<lparr>fs_heap := (fs_heap st)[a := overwrite_slot new (fs_heap st ! a)]\<rparr>
      | None \<Rightarrow> st\<lparr>fs_heap := fs_heap st @ [new], fs_slots := fs_slots st @ [length (fs_heap st)],
                   fs_by_id := kput fst (mid, length (fs_heap st)) (fs_by_id st)\<rparr>)"

definition fold_replaced ::
    "session_record \<Rightarrow> string \<Rightarrow> stored_message \<Rightarrow> spill_ref option \<Rightarrow> fold_state \<Rightarrow> fold_state" where
  "fold_replaced r target content spill st =
     (let st' = st\<lparr>fs_replacements := kput rp_target
            \<lparr>rp_target = target, rp_message = content, rp_seq = rec_seq r, rp_spill = spill\<rparr> (fs_replacements st)\<rparr> in
      case kfind fst target (fs_by_id st) of
        None \<Rightarrow> st'
      | Some (i, a) \<Rightarrow> st'\<lparr>fs_heap := (fs_heap st)[a := replace_slot r content spill (fs_heap st ! a)]\<rparr>)"

definition fold_withdraw :: "string option \<Rightarrow> fold_state \<Rightarrow> fold_state" where
  "fold_withdraw turn st =
     st\<lparr>fs_slots := filter (\<lambda>a. slot_turn (fs_heap st ! a) \<noteq> turn) (fs_slots st),
        fs_by_id := filter (\<lambda>(i, a). slot_turn (fs_heap st ! a) \<noteq> turn) (fs_by_id st)\<rparr>"

text \<open>\<open>#byId\<close> is cleared and filled again from the slots that have an id.\<close>

definition index_slots :: "slot list \<Rightarrow> nat list \<Rightarrow> (string \<times> nat) list" where
  "index_slots store addrs =
     fold (\<lambda>a m. case slot_id (store ! a) of None \<Rightarrow> m | Some i \<Rightarrow> kput fst (i, a) m) addrs []"

definition fold_compaction ::
    "session_record \<Rightarrow> nat \<Rightarrow> string list \<Rightarrow> string list \<Rightarrow> summary \<Rightarrow> fold_state \<Rightarrow> fold_state" where
  "fold_compaction r to_seq kept_ids pinned summary st =
     (let keep = kept_ids @ pinned;
          fresh = (case summary of InlineSummary ms \<Rightarrow> map (summary_slot (rec_seq r)) ms | SpilledSummary ref \<Rightarrow> []);
          store = fs_heap st @ fresh;
          kept = filter (\<lambda>a. case slot_id (fs_heap st ! a) of None \<Rightarrow> False | Some i \<Rightarrow> i \<in> set keep) (fs_slots st);
          after = filter (\<lambda>a. case slot_id (fs_heap st ! a) of None \<Rightarrow> False
              | Some i \<Rightarrow> slot_seq (fs_heap st ! a) > to_seq \<and> i \<notin> set keep) (fs_slots st);
          addrs = [length (fs_heap st)..<length store] @ kept @ after
      in st\<lparr>fs_heap := store, fs_slots := addrs, fs_by_id := index_slots store addrs,
           fs_spilled := (case summary of InlineSummary ms \<Rightarrow> None | SpilledSummary ref \<Rightarrow> Some (rec_seq r, ref))\<rparr>)"

definition fold_record :: "session_record \<Rightarrow> fold_state \<Rightarrow> fold_state" where
  "fold_record r st =
     (let st' = st\<lparr>fs_through := rec_seq r\<rparr> in
      case rec_payload r of
        MessageRecord mid content spill \<Rightarrow> fold_message r mid content spill st'
      | MessageReplaced target content spill \<Rightarrow> fold_replaced r target content spill st'
      | CompactionRecord cid to_seq kept pinned summary \<Rightarrow> fold_compaction r to_seq kept pinned summary st'
      | TurnFailed (Some (code, withdrawn)) \<Rightarrow>
          if code = ''abandoned'' \<and> withdrawn then fold_withdraw (rec_turn r) st' else st'
      | _ \<Rightarrow> st')"

definition fold_entries :: "fold_state \<Rightarrow> slot list" where
  "fold_entries st = map (\<lambda>a. fs_heap st ! a) (fs_slots st)"

definition fold_messages :: "fold_state \<Rightarrow> stored_message list" where
  "fold_messages st = map slot_message (fold_entries st)"

subsection \<open>The conversation, spills read back\<close>

datatype fold_error = SpillUnavailable string | SpillUnreadable string

text \<open>The reader of spilled text is given or not; parsing the text is JSON.\<close>

record body_parser =
  parse_message :: "string \<Rightarrow> (fold_error, stored_message) outcome"
  parse_messages :: "string \<Rightarrow> (fold_error, stored_message list) outcome"

type_synonym spill_reader = "(spill_ref \<Rightarrow> (fold_error, string) outcome) option"

definition read_spilled :: "spill_reader \<Rightarrow> spill_ref \<Rightarrow> (fold_error, string) outcome" where
  "read_spilled reader ref = (case reader of None \<Rightarrow> Inl (SpillUnavailable (spill_path ref)) | Some read \<Rightarrow> read ref)"

definition slot_body :: "spill_reader \<Rightarrow> body_parser \<Rightarrow> slot \<Rightarrow> (fold_error, stored_message) outcome" where
  "slot_body reader bodies s =
     bindE (case slot_spill s of
              None \<Rightarrow> Inr (slot_message s)
            | Some ref \<Rightarrow> bindE (read_spilled reader ref) (parse_message bodies))
       (\<lambda>m. Inr (with_message_id m (slot_id s)))"

definition records_through :: "nat option \<Rightarrow> session_record list \<Rightarrow> session_record list" where
  "records_through bound rs = (case bound of None \<Rightarrow> rs | Some n \<Rightarrow> takeWhile (\<lambda>r. rec_seq r \<le> n) rs)"

definition fold_session_messages ::
    "spill_reader \<Rightarrow> body_parser \<Rightarrow> nat option \<Rightarrow> session_record list \<Rightarrow> (fold_error, stored_message list) outcome" where
  "fold_session_messages reader bodies bound rs =
     (let st = fold fold_record (records_through bound rs) start_fold in
      bindE (case fs_spilled st of
               None \<Rightarrow> Inr []
             | Some (sq, ref) \<Rightarrow> bindE (read_spilled reader ref) (\<lambda>t. bindE (parse_messages bodies t)
                 (\<lambda>ms. Inr (map (\<lambda>m. with_message_id m None) ms))))
        (\<lambda>summary. bindE (mapE (slot_body reader bodies) (fold_entries st)) (\<lambda>ms. Inr (summary @ ms))))"

subsection \<open>The active turn\<close>

record active_turn =
  at_turn :: "string option"
  at_started_seq :: nat
  at_started :: int
  at_paused :: bool
  at_checkpoint :: "string option"
  at_owner :: nat

record turn_state =
  ts_active :: "active_turn option"
  ts_last :: "string option"
  ts_started :: bool

definition start_turns :: turn_state where
  "start_turns = \<lparr>ts_active = None, ts_last = None, ts_started = False\<rparr>"

datatype turn_error =
    StartedTwice | NotStarted | TurnStillActive "string option" | NoActiveTurn string
  | OtherTurnActive string "string option" | TurnIsPaused "string option" | AlreadyPaused "string option"

definition closes_or_decides :: "string list" where
  "closes_or_decides =
     [''turn_completed'', ''turn_failed'', ''decision_requested'', ''decision_resolved'', ''decision_expired'',
      ''checkpoint_pruned'', ''audit'', ''log_repaired'', ''message_replaced'', ''session_updated'']"

definition check_turn :: "turn_state \<Rightarrow> string option \<Rightarrow> payload \<Rightarrow> (turn_error, unit) outcome" where
  "check_turn st turn p =
     (if p = SessionStarted then require (\<not> ts_started st) StartedTwice
      else
        bindE (require (ts_started st) NotStarted) (\<lambda>_.
        if type_name p = ''turn_started'' then
          (case ts_active st of None \<Rightarrow> Inr () | Some a \<Rightarrow> Inl (TurnStillActive (at_turn a)))
        else
          (case turn of
             None \<Rightarrow> Inr ()
           | Some t \<Rightarrow>
               (case ts_active st of
                  None \<Rightarrow> Inl (NoActiveTurn t)
                | Some a \<Rightarrow>
                    bindE (require (at_turn a = Some t) (OtherTurnActive t (at_turn a))) (\<lambda>_.
                    if p = TurnResuming \<and> \<not> at_paused a then Inr ()
                    else
                      bindE (require (\<not> (at_paused a \<and> p \<noteq> TurnResuming \<and> type_name p \<notin> set closes_or_decides))
                        (TurnIsPaused (at_turn a))) (\<lambda>_.
                      require (\<not> (type_name p = ''turn_paused'' \<and> at_paused a)) (AlreadyPaused (at_turn a))))))))"

text \<open>\<open>this.#active?.turnId === record.turnId\<close>\<close>

definition is_active :: "turn_state \<Rightarrow> string option \<Rightarrow> bool" where
  "is_active st turn \<longleftrightarrow> (case ts_active st of None \<Rightarrow> False | Some a \<Rightarrow> at_turn a = turn)"

definition apply_turn :: "session_record \<Rightarrow> turn_state \<Rightarrow> turn_state" where
  "apply_turn r st =
     (case rec_payload r of
        SessionStarted \<Rightarrow> st\<lparr>ts_started := True\<rparr>
      | TurnStarted d \<Rightarrow>
          st\<lparr>ts_active := Some \<lparr>at_turn = rec_turn r, at_started_seq = rec_seq r, at_started = rec_ts r,
               at_paused = False, at_checkpoint = None, at_owner = rec_gen r\<rparr>,
             ts_last := rec_turn r\<rparr>
      | TurnPaused cp \<Rightarrow>
          if is_active st (rec_turn r)
          then st\<lparr>ts_active := map_option (\<lambda>a. a\<lparr>at_paused := True, at_checkpoint := Some cp\<rparr>) (ts_active st)\<rparr>
          else st
      | TurnResuming \<Rightarrow>
          if is_active st (rec_turn r)
          then st\<lparr>ts_active := map_option (\<lambda>a. a\<lparr>at_paused := False, at_checkpoint := None, at_owner := rec_gen r\<rparr>)
                    (ts_active st)\<rparr>
          else st
      | TurnCompleted x sp \<Rightarrow> if is_active st (rec_turn r) then st\<lparr>ts_active := None\<rparr> else st
      | TurnFailed f \<Rightarrow> if is_active st (rec_turn r) then st\<lparr>ts_active := None\<rparr> else st
      | _ \<Rightarrow> st)"

text \<open>\<open>apply\<close> in strict mode.\<close>

definition apply_strict :: "turn_state \<Rightarrow> session_record \<Rightarrow> (turn_error, turn_state) outcome" where
  "apply_strict st r = bindE (check_turn st (rec_turn r) (rec_payload r)) (\<lambda>_. Inr (apply_turn r st))"

end
