(* ===== verification/SessionFoldProofs.thy ===== *)
theory SessionFoldProofs
  imports SessionFold
begin

text \<open>
  The message fold refines a fold on plain lists in which a slot is a value: the
  list and the map of the code stay in step, so that changing a slot through the
  map is changing it in its place in the list. Then the facts of the plain fold,
  and of the turn rules.
\<close>

subsection \<open>The plain fold\<close>

record conversation =
  cx_slots :: "slot list"
  cx_replacements :: "replacement list"
  cx_spilled :: "(nat \<times> spill_ref) option"

definition on_id :: "string \<Rightarrow> (slot \<Rightarrow> slot) \<Rightarrow> slot list \<Rightarrow> slot list" where
  "on_id i f ss = map (\<lambda>s. if slot_id s = Some i then f s else s) ss"

definition in_context :: "string \<Rightarrow> slot list \<Rightarrow> bool" where
  "in_context i ss \<longleftrightarrow> Some i \<in> slot_id ` set ss"

definition keeps :: "string list \<Rightarrow> slot \<Rightarrow> bool" where
  "keeps keep s = (case slot_id s of None \<Rightarrow> False | Some i \<Rightarrow> i \<in> set keep)"

definition comes_after :: "nat \<Rightarrow> string list \<Rightarrow> slot \<Rightarrow> bool" where
  "comes_after to_seq keep s = (case slot_id s of None \<Rightarrow> False | Some i \<Rightarrow> slot_seq s > to_seq \<and> i \<notin> set keep)"

definition plain_message ::
    "session_record \<Rightarrow> string \<Rightarrow> stored_message \<Rightarrow> spill_ref option \<Rightarrow> conversation \<Rightarrow> conversation" where
  "plain_message r mid content spill cx =
     (let new = message_slot (kfind rp_target mid (cx_replacements cx)) r mid content spill in
      cx\<lparr>cx_slots := (if in_context mid (cx_slots cx) then on_id mid (overwrite_slot new) (cx_slots cx)
                      else cx_slots cx @ [new])\<rparr>)"

definition plain_replaced ::
    "session_record \<Rightarrow> string \<Rightarrow> stored_message \<Rightarrow> spill_ref option \<Rightarrow> conversation \<Rightarrow> conversation" where
  "plain_replaced r target content spill cx =
     cx\<lparr>cx_slots := on_id target (replace_slot r content spill) (cx_slots cx),
        cx_replacements := kput rp_target
          \<lparr>rp_target = target, rp_message = content, rp_seq = rec_seq r, rp_spill = spill\<rparr> (cx_replacements cx)\<rparr>"

definition plain_compaction ::
    "session_record \<Rightarrow> nat \<Rightarrow> string list \<Rightarrow> summary \<Rightarrow> conversation \<Rightarrow> conversation" where
  "plain_compaction r to_seq keep summary cx =
     cx\<lparr>cx_slots := (case summary of InlineSummary ms \<Rightarrow> map (summary_slot (rec_seq r)) ms | SpilledSummary ref \<Rightarrow> [])
          @ filter (keeps keep) (cx_slots cx) @ filter (comes_after to_seq keep) (cx_slots cx),
        cx_spilled := (case summary of InlineSummary ms \<Rightarrow> None | SpilledSummary ref \<Rightarrow> Some (rec_seq r, ref))\<rparr>"

definition plain_record :: "session_record \<Rightarrow> conversation \<Rightarrow> conversation" where
  "plain_record r cx =
     (case rec_payload r of
        MessageRecord mid content spill \<Rightarrow> plain_message r mid content spill cx
      | MessageReplaced target content spill \<Rightarrow> plain_replaced r target content spill cx
      | CompactionRecord cid to_seq kept pinned summary \<Rightarrow> plain_compaction r to_seq (kept @ pinned) summary cx
      | TurnFailed (Some (code, withdrawn)) \<Rightarrow>
          if code = ''abandoned'' \<and> withdrawn
          then cx\<lparr>cx_slots := filter (\<lambda>s. slot_turn s \<noteq> rec_turn r) (cx_slots cx)\<rparr> else cx
      | _ \<Rightarrow> cx)"

definition conversation_of :: "fold_state \<Rightarrow> conversation" where
  "conversation_of st = \<lparr>cx_slots = fold_entries st, cx_replacements = fs_replacements st, cx_spilled = fs_spilled st\<rparr>"

subsection \<open>List and map in step\<close>

definition fold_ok :: "fold_state \<Rightarrow> bool" where
  "fold_ok st \<longleftrightarrow> distinct (fs_slots st) \<and> (\<forall>a \<in> set (fs_slots st). a < length (fs_heap st))
     \<and> distinct_keys fst (fs_by_id st)
     \<and> (\<forall>i a. (i, a) \<in> set (fs_by_id st) \<longleftrightarrow> a \<in> set (fs_slots st) \<and> slot_id (fs_heap st ! a) = Some i)"

lemma fold_okD:
  assumes "fold_ok st"
  shows "distinct (fs_slots st)" "a \<in> set (fs_slots st) \<Longrightarrow> a < length (fs_heap st)"
    "distinct_keys fst (fs_by_id st)"
    "(i, a) \<in> set (fs_by_id st) \<longleftrightarrow> a \<in> set (fs_slots st) \<and> slot_id (fs_heap st ! a) = Some i"
  using assms by (auto simp: fold_ok_def)

lemma address_unique:
  assumes "fold_ok st" "a \<in> set (fs_slots st)" "b \<in> set (fs_slots st)"
    "slot_id (fs_heap st ! a) = Some i" "slot_id (fs_heap st ! b) = Some i"
  shows "a = b"
proof -
  have "(i, a) \<in> set (fs_by_id st)" "(i, b) \<in> set (fs_by_id st)"
    using fold_okD(4) [OF assms(1)] assms(2-5) by simp_all
  then show ?thesis using distinct_keys_inj [OF fold_okD(3) [OF assms(1)]] by fastforce
qed

lemma by_id_lookup:
  assumes "fold_ok st"
  shows "kfind fst i (fs_by_id st) = Some (j, a) \<longleftrightarrow> j = i \<and> a \<in> set (fs_slots st) \<and> slot_id (fs_heap st ! a) = Some i"
  using kfind_iff [OF fold_okD(3) [OF assms], of i "(j, a)"] fold_okD(4) [OF assms, of j a] by auto

lemma by_id_none:
  assumes "fold_ok st"
  shows "kfind fst i (fs_by_id st) = None \<longleftrightarrow> \<not> in_context i (fold_entries st)"
proof
  assume "kfind fst i (fs_by_id st) = None"
  then have "a \<in> set (fs_slots st) \<Longrightarrow> slot_id (fs_heap st ! a) \<noteq> Some i" for a
    using by_id_lookup [OF assms, of i i a] by auto
  then show "\<not> in_context i (fold_entries st)" by (force simp: in_context_def fold_entries_def)
next
  assume n: "\<not> in_context i (fold_entries st)"
  show "kfind fst i (fs_by_id st) = None"
  proof (cases "kfind fst i (fs_by_id st)")
    case (Some p)
    then show ?thesis
      using by_id_lookup [OF assms, of i "fst p" "snd p"] n
      by (auto simp: in_context_def fold_entries_def image_iff)
  qed
qed

text \<open>Changing the object the map names changes that slot of the list and no other.\<close>

lemma update_address:
  assumes "fold_ok st" "a \<in> set (fs_slots st)" "slot_id (fs_heap st ! a) = Some i"
    and "\<And>s. slot_id (f s) = slot_id s"
  shows "map (\<lambda>b. (fs_heap st)[a := f (fs_heap st ! a)] ! b) (fs_slots st) = on_id i f (fold_entries st)"
    and "fold_ok (st\<lparr>fs_heap := (fs_heap st)[a := f (fs_heap st ! a)]\<rparr>)"
proof -
  have "(fs_heap st)[a := f (fs_heap st ! a)] ! b
      = (if slot_id (fs_heap st ! b) = Some i then f (fs_heap st ! b) else fs_heap st ! b)"
    if "b \<in> set (fs_slots st)" for b
    using address_unique [OF assms(1,2) that assms(3)] fold_okD(2) [OF assms(1)] assms(2,3) that
    by (cases "a = b") auto
  then show "map (\<lambda>b. (fs_heap st)[a := f (fs_heap st ! a)] ! b) (fs_slots st) = on_id i f (fold_entries st)"
    by (simp add: on_id_def fold_entries_def)
  have "slot_id ((fs_heap st)[a := f (fs_heap st ! a)] ! b) = slot_id (fs_heap st ! b)" for b
    using assms(4) fold_okD(2) [OF assms(1,2)] by (cases "a = b") simp_all
  then show "fold_ok (st\<lparr>fs_heap := (fs_heap st)[a := f (fs_heap st ! a)]\<rparr>)"
    using assms(1) by (simp add: fold_ok_def)
qed

lemma index_slots_distinct: "distinct_keys fst (index_slots store addrs)"
proof -
  have "distinct_keys fst m \<Longrightarrow> distinct_keys fst (fold (\<lambda>a m. case slot_id (store ! a) of None \<Rightarrow> m
      | Some i \<Rightarrow> kput fst (i, a) m) addrs m)" for m
    by (induction addrs arbitrary: m) (auto split: option.splits)
  then show ?thesis by (simp add: index_slots_def)
qed

lemma index_slots_mem:
  assumes "\<forall>a \<in> set addrs. \<forall>b \<in> set addrs. slot_id (store ! a) = slot_id (store ! b) \<longrightarrow> slot_id (store ! a) \<noteq> None \<longrightarrow> a = b"
  shows "(i, a) \<in> set (index_slots store addrs) \<longleftrightarrow> a \<in> set addrs \<and> slot_id (store ! a) = Some i"
  using assms
proof (induction addrs rule: rev_induct)
  case (snoc b addrs)
  have step: "index_slots store (addrs @ [b]) = (case slot_id (store ! b) of None \<Rightarrow> index_slots store addrs
      | Some j \<Rightarrow> kput fst (j, b) (index_slots store addrs))"
    by (simp add: index_slots_def split: option.splits)
  have IH: "(i, a) \<in> set (index_slots store addrs) \<longleftrightarrow> a \<in> set addrs \<and> slot_id (store ! a) = Some i"
    using snoc by simp
  show ?case
  proof (cases "slot_id (store ! b)")
    case (Some j)
    have "a \<in> set addrs \<Longrightarrow> slot_id (store ! a) = Some j \<Longrightarrow> a = b" using snoc.prems Some by simp
    then show ?thesis unfolding step using Some IH by (auto simp: set_kput [OF index_slots_distinct])
  qed (auto simp: step IH)
qed (simp add: index_slots_def)

subsection \<open>Each record refines\<close>

lemma entries_append:
  "\<forall>a \<in> set addrs. a < length store \<Longrightarrow> map ((!) (store @ new)) addrs = map ((!) store) addrs"
  by (simp add: nth_append)

lemma message_refines:
  assumes ok: "fold_ok st"
  shows "fold_ok (fold_message r mid content spill st)
    \<and> conversation_of (fold_message r mid content spill st) = plain_message r mid content spill (conversation_of st)"
proof -
  let ?new = "message_slot (kfind rp_target mid (fs_replacements st)) r mid content spill"
  show ?thesis
  proof (cases "kfind fst mid (fs_by_id st)")
    case (Some p)
    obtain i a where p: "p = (i, a)" by (cases p)
    have a: "a \<in> set (fs_slots st)" "slot_id (fs_heap st ! a) = Some mid"
      using Some p by_id_lookup [OF ok, of mid i a] by simp_all
    have ids: "slot_id (overwrite_slot ?new s) = slot_id s" for s by (simp add: overwrite_slot_def)
    have "in_context mid (fold_entries st)" using Some by_id_none [OF ok, of mid] by auto
    then show ?thesis
      using update_address [OF ok a ids] Some p
      by (simp add: fold_message_def plain_message_def conversation_of_def fold_entries_def)
  next
    case None
    then have n: "\<not> in_context mid (fold_entries st)" using by_id_none [OF ok] by blast
    let ?st = "st\<lparr>fs_heap := fs_heap st @ [?new], fs_slots := fs_slots st @ [length (fs_heap st)],
        fs_by_id := kput fst (mid, length (fs_heap st)) (fs_by_id st)\<rparr>"
    have lt: "a \<in> set (fs_slots st) \<Longrightarrow> a < length (fs_heap st)" for a using fold_okD(2) [OF ok] .
    then have fresh: "length (fs_heap st) \<notin> set (fs_slots st)" by blast
    have old: "a \<in> set (fs_slots st) \<Longrightarrow> (fs_heap st @ [?new]) ! a = fs_heap st ! a" for a
      using lt by (simp add: nth_append)
    have new_id: "slot_id ?new = Some mid" by (simp add: message_slot_def)
    have no: "a \<in> set (fs_slots st) \<Longrightarrow> slot_id (fs_heap st ! a) \<noteq> Some mid" for a
      using n by (auto simp: in_context_def fold_entries_def image_iff)
    have mem: "(i, a) \<in> set (fs_by_id ?st) \<longleftrightarrow> a \<in> set (fs_slots ?st) \<and> slot_id (fs_heap ?st ! a) = Some i" for i a
      using fold_okD(4) [OF ok, of i a] fresh old [of a] new_id no [of a]
      by (cases "a = length (fs_heap st)") (auto simp: set_kput [OF fold_okD(3) [OF ok]])
    have "fold_ok ?st"
      unfolding fold_ok_def using mem fold_okD(1,3) [OF ok] fresh lt by (auto simp: less_SucI)
    moreover have "fold_entries ?st = fold_entries st @ [?new]"
      using old by (simp add: fold_entries_def)
    ultimately show ?thesis
      using None n by (simp add: fold_message_def plain_message_def conversation_of_def Let_def)
  qed
qed

lemma replaced_refines:
  assumes ok: "fold_ok st"
  shows "fold_ok (fold_replaced r target content spill st)
    \<and> conversation_of (fold_replaced r target content spill st) = plain_replaced r target content spill (conversation_of st)"
proof (cases "kfind fst target (fs_by_id st)")
  case (Some p)
  obtain i a where p: "p = (i, a)" by (cases p)
  have a: "a \<in> set (fs_slots st)" "slot_id (fs_heap st ! a) = Some target"
    using Some p by_id_lookup [OF ok, of target i a] by simp_all
  have ids: "slot_id (replace_slot r content spill s) = slot_id s" for s by (simp add: replace_slot_def)
  show ?thesis
    using update_address [OF ok a ids] Some p
    by (simp add: fold_replaced_def plain_replaced_def conversation_of_def fold_entries_def fold_ok_def)
next
  case None
  then have "\<not> in_context target (fold_entries st)" using by_id_none [OF ok] by blast
  then have "on_id target (replace_slot r content spill) (fold_entries st) = fold_entries st"
    by (auto simp: on_id_def in_context_def image_iff intro!: map_idI)
  then show ?thesis
    using None ok by (simp add: fold_replaced_def plain_replaced_def conversation_of_def fold_entries_def fold_ok_def)
qed

lemma withdraw_refines:
  assumes ok: "fold_ok st"
  shows "fold_ok (fold_withdraw turn st)
    \<and> fold_entries (fold_withdraw turn st) = filter (\<lambda>s. slot_turn s \<noteq> turn) (fold_entries st)"
proof -
  have "distinct_keys fst (filter (\<lambda>(i, a). slot_turn (fs_heap st ! a) \<noteq> turn) (fs_by_id st))"
    using fold_okD(3) [OF ok] by (rule distinct_map_filter)
  then show ?thesis
    using ok by (auto simp: fold_ok_def fold_withdraw_def fold_entries_def filter_map o_def)
qed

lemma compaction_refines:
  assumes ok: "fold_ok st"
  shows "fold_ok (fold_compaction r to_seq kept pinned summary st)
    \<and> conversation_of (fold_compaction r to_seq kept pinned summary st)
      = plain_compaction r to_seq (kept @ pinned) summary (conversation_of st)"
proof -
  let ?keep = "kept @ pinned" and ?n = "length (fs_heap st)"
  define fresh where "fresh = (case summary of InlineSummary ms \<Rightarrow> map (summary_slot (rec_seq r)) ms | SpilledSummary ref \<Rightarrow> [])"
  define store where "store = fs_heap st @ fresh"
  define old where "old = filter (\<lambda>a. keeps ?keep (fs_heap st ! a)) (fs_slots st)
      @ filter (\<lambda>a. comes_after to_seq ?keep (fs_heap st ! a)) (fs_slots st)"
  define addrs where "addrs = [?n..<length store] @ old"
  have lt: "a \<in> set (fs_slots st) \<Longrightarrow> a < ?n" for a using fold_okD(2) [OF ok] .
  have subset: "set old \<subseteq> set (fs_slots st)" by (auto simp: old_def)
  have at_old: "store ! a = fs_heap st ! a" if "a \<in> set old" for a
    using that subset lt by (auto simp: store_def nth_append)
  have at_new: "slot_id (store ! a) = None" if "a \<in> {?n..<length store}" for a
    using that by (auto simp: store_def fresh_def nth_append summary_slot_def split: summary.splits)
  have compact: "fold_compaction r to_seq kept pinned summary st
      = st\<lparr>fs_heap := store, fs_slots := addrs, fs_by_id := index_slots store addrs,
          fs_spilled := (case summary of InlineSummary ms \<Rightarrow> None | SpilledSummary ref \<Rightarrow> Some (rec_seq r, ref))\<rparr>"
    by (simp add: fold_compaction_def Let_def store_def fresh_def addrs_def old_def keeps_def comes_after_def)
  have uniq: "a = b" if "a \<in> set addrs" "b \<in> set addrs" "slot_id (store ! a) = Some i" "slot_id (store ! b) = Some i" for a b i
  proof -
    have "a \<in> set old" "b \<in> set old" using that at_new by (auto simp: addrs_def)
    then show ?thesis using address_unique [OF ok, of a b i] at_old that subset by auto
  qed
  have "distinct old"
    using fold_okD(1) [OF ok] by (auto simp: old_def keeps_def comes_after_def split: option.splits)
  moreover have "set old \<inter> {?n..<length store} = {}" using subset lt by fastforce
  ultimately have dist: "distinct addrs" by (auto simp: addrs_def)
  have idx: "(i, a) \<in> set (index_slots store addrs) \<longleftrightarrow> a \<in> set addrs \<and> slot_id (store ! a) = Some i" for i a
    by (rule index_slots_mem) (use uniq in \<open>metis option.exhaust\<close>)
  have "\<forall>a \<in> set addrs. a < length store"
    using subset lt by (fastforce simp: addrs_def store_def)
  then have ok': "fold_ok (fold_compaction r to_seq kept pinned summary st)"
    unfolding compact fold_ok_def using dist idx index_slots_distinct by simp
  have "map ((!) store) [?n..<length store] = fresh"
    by (auto simp: store_def nth_append intro!: nth_equalityI)
  moreover have "map ((!) store) old = map ((!) (fs_heap st)) old" using at_old by simp
  moreover have "map ((!) (fs_heap st)) old
      = filter (keeps ?keep) (fold_entries st) @ filter (comes_after to_seq ?keep) (fold_entries st)"
    by (simp add: old_def fold_entries_def filter_map o_def)
  ultimately have "map ((!) store) addrs = fresh @ filter (keeps ?keep) (fold_entries st)
      @ filter (comes_after to_seq ?keep) (fold_entries st)"
    by (simp add: addrs_def)
  then have "conversation_of (fold_compaction r to_seq kept pinned summary st)
      = plain_compaction r to_seq ?keep summary (conversation_of st)"
    unfolding compact by (simp add: conversation_of_def plain_compaction_def fold_entries_def fresh_def)
  with ok' show ?thesis by blast
qed

lemma through_ok [simp]: "fold_ok (st\<lparr>fs_through := n\<rparr>) = fold_ok st"
  "conversation_of (st\<lparr>fs_through := n\<rparr>) = conversation_of st"
  by (simp_all add: fold_ok_def conversation_of_def fold_entries_def)

lemma record_refines:
  assumes "fold_ok st"
  shows "fold_ok (fold_record r st) \<and> conversation_of (fold_record r st) = plain_record r (conversation_of st)"
proof -
  let ?st = "st\<lparr>fs_through := rec_seq r\<rparr>"
  have ok: "fold_ok ?st" using assms by simp
  show ?thesis
  proof (cases "rec_payload r")
    case (MessageRecord mid content spill)
    then show ?thesis using message_refines [OF ok, of r mid content spill] by (simp add: fold_record_def plain_record_def)
  next
    case (MessageReplaced target content spill)
    then show ?thesis using replaced_refines [OF ok, of r target content spill] by (simp add: fold_record_def plain_record_def)
  next
    case (CompactionRecord cid to_seq kept pinned summary)
    then show ?thesis
      using compaction_refines [OF ok, of r to_seq kept pinned summary] by (simp add: fold_record_def plain_record_def)
  next
    case (TurnFailed f)
    have w: "conversation_of (fold_withdraw (rec_turn r) ?st)
        = (conversation_of st)\<lparr>cx_slots := filter (\<lambda>s. slot_turn s \<noteq> rec_turn r) (cx_slots (conversation_of st))\<rparr>"
      using withdraw_refines [OF ok, of "rec_turn r"]
      by (simp add: conversation_of_def fold_withdraw_def) (simp add: fold_entries_def)
    show ?thesis
      using TurnFailed assms withdraw_refines [OF ok, of "rec_turn r"] w
      by (cases f) (auto simp: fold_record_def plain_record_def Let_def)
  qed (use assms in \<open>simp_all add: fold_record_def plain_record_def\<close>)
qed

lemma start_ok: "fold_ok start_fold"
  by (simp add: fold_ok_def start_fold_def)

definition start_conversation :: conversation where
  "start_conversation = \<lparr>cx_slots = [], cx_replacements = [], cx_spilled = None\<rparr>"

lemma fold_refines:
  "fold_ok (fold fold_record rs start_fold)
   \<and> conversation_of (fold fold_record rs start_fold) = fold plain_record rs start_conversation"
proof (induction rs rule: rev_induct)
  case Nil
  show ?case using start_ok by (simp add: conversation_of_def start_fold_def start_conversation_def fold_entries_def)
next
  case (snoc r rs)
  then show ?case using record_refines [of "fold fold_record rs start_fold" r] by simp
qed

end
