(* ===== verification/SessionFoldProperties.thy ===== *)
theory SessionFoldProperties
  imports SessionFoldProofs
begin

text \<open>
  Properties of the folds: the aliased list and map of the message fold show what a
  fold on plain values shows; a message is shown once, under its last replacement;
  turns of a strictly accepted log do not overlap.
\<close>

subsection \<open>The plain fold\<close>

lemma on_id_ids [simp]: "(\<And>s. slot_id (f s) = slot_id s) \<Longrightarrow> map slot_id (on_id i f ss) = map slot_id ss"
  by (simp add: on_id_def)

lemma on_id_mem: "s \<in> set (on_id i f ss) \<longleftrightarrow> (\<exists>s0 \<in> set ss. s = (if slot_id s0 = Some i then f s0 else s0))"
  by (auto simp: on_id_def)

definition ids_of :: "slot list \<Rightarrow> string option list" where
  "ids_of ss = filter (\<lambda>i. i \<noteq> None) (map slot_id ss)"

lemma ids_of_append [simp]: "ids_of (xs @ ys) = ids_of xs @ ids_of ys"
  by (simp add: ids_of_def)

lemma set_ids_of: "set (ids_of ss) = {i \<in> slot_id ` set ss. i \<noteq> None}"
  by (auto simp: ids_of_def)

lemma ids_of_Cons: "ids_of (s # ss) = (if slot_id s = None then ids_of ss else slot_id s # ids_of ss)"
  by (simp add: ids_of_def)

lemma ids_of_filter: "distinct (ids_of ss) \<Longrightarrow> distinct (ids_of (filter P ss))"
proof (induction ss)
  case (Cons s ss)
  have "set (ids_of (filter P ss)) \<subseteq> set (ids_of ss)" by (auto simp: set_ids_of)
  with Cons show ?case by (auto simp: ids_of_Cons)
qed (simp add: ids_of_def)

lemma on_id_ids_of: "(\<And>s. slot_id (f s) = slot_id s) \<Longrightarrow> ids_of (on_id i f ss) = ids_of ss"
  by (simp add: ids_of_def)

lemma slot_id_update [simp]:
  "slot_id (overwrite_slot new old) = slot_id old" "slot_id (replace_slot r c sp old) = slot_id old"
  "slot_id (message_slot p r mid c sp) = Some mid" "slot_id (summary_slot q m) = None"
  by (simp_all add: overwrite_slot_def replace_slot_def message_slot_def summary_slot_def)

lemma summary_ids: "ids_of (map (summary_slot q) ms) = []"
  by (simp add: ids_of_def filter_empty_conv)

text \<open>A slot shows its replacement, if its id has one.\<close>

definition displays :: "replacement list \<Rightarrow> slot \<Rightarrow> bool" where
  "displays ps s = (case slot_id s of None \<Rightarrow> True
     | Some i \<Rightarrow> (case kfind rp_target i ps of
                    None \<Rightarrow> slot_replaced s = None
                  | Some p \<Rightarrow> slot_message s = rp_message p \<and> slot_spill s = rp_spill p
                      \<and> slot_replaced s = Some (rp_seq p)))"

definition conversation_ok :: "conversation \<Rightarrow> bool" where
  "conversation_ok cx \<longleftrightarrow> distinct (ids_of (cx_slots cx)) \<and> (\<forall>s \<in> set (cx_slots cx). displays (cx_replacements cx) s)"

lemma plain_record_ok:
  assumes ok: "conversation_ok cx"
  shows "conversation_ok (plain_record r cx)"
proof (cases "rec_payload r")
  case (MessageRecord mid content spill)
  let ?new = "message_slot (kfind rp_target mid (cx_replacements cx)) r mid content spill"
  have new: "displays (cx_replacements cx) ?new"
    by (simp add: displays_def message_slot_def split: option.splits)
  have over: "displays (cx_replacements cx) (overwrite_slot ?new s)" if "slot_id s = Some mid" for s
    using new that by (simp add: displays_def overwrite_slot_def message_slot_def split: option.splits)
  show ?thesis
    using ok over new MessageRecord
    by (auto simp: conversation_ok_def plain_record_def plain_message_def on_id_mem on_id_ids_of set_ids_of
        in_context_def ids_of_def [of "[?new]"] Let_def)
next
  case (MessageReplaced target content spill)
  let ?ps = "kput rp_target \<lparr>rp_target = target, rp_message = content, rp_seq = rec_seq r, rp_spill = spill\<rparr>
      (cx_replacements cx)"
  have "displays ?ps (if slot_id s = Some target then replace_slot r content spill s else s)"
    if "displays (cx_replacements cx) s" for s
    using that by (auto simp: displays_def replace_slot_def split: option.splits)
  then show ?thesis
    using ok MessageReplaced
    by (auto simp: conversation_ok_def plain_record_def plain_replaced_def on_id_mem on_id_ids_of simp del: kfind_kput)
next
  case (CompactionRecord cid to_seq kept pinned summary)
  let ?keep = "kept @ pinned"
  have "set (ids_of (filter (keeps ?keep) (cx_slots cx))) \<inter> set (ids_of (filter (comes_after to_seq ?keep) (cx_slots cx))) = {}"
    by (auto simp: set_ids_of keeps_def comes_after_def split: option.splits)
  then have "distinct (ids_of (cx_slots (plain_compaction r to_seq ?keep summary cx)))"
    using ok ids_of_filter by (auto simp: conversation_ok_def plain_compaction_def summary_ids ids_of_def [of "[]"] split: summary.splits)
  moreover have "displays ps (summary_slot q m)" for ps q m by (simp add: displays_def)
  ultimately show ?thesis
    using ok CompactionRecord
    by (auto simp: conversation_ok_def plain_record_def plain_compaction_def split: summary.splits)
next
  case (TurnFailed f)
  then show ?thesis
    using ok ids_of_filter
    by (cases f) (auto simp: conversation_ok_def plain_record_def)
qed (use ok in \<open>simp_all add: plain_record_def\<close>)

lemma plain_fold_ok: "conversation_ok (fold plain_record rs start_conversation)"
proof (induction rs rule: rev_induct)
  case Nil
  show ?case by (simp add: conversation_ok_def start_conversation_def ids_of_def)
qed (simp add: plain_record_ok)

text \<open>The last replacement a list of records makes of a message.\<close>

definition last_replacement :: "string \<Rightarrow> session_record list \<Rightarrow> replacement option" where
  "last_replacement i rs = fold (\<lambda>r p. case rec_payload r of
       MessageReplaced target content spill \<Rightarrow>
         if target = i then Some \<lparr>rp_target = i, rp_message = content, rp_seq = rec_seq r, rp_spill = spill\<rparr> else p
     | _ \<Rightarrow> p) rs None"

lemma replacements_of:
  "kfind rp_target i (cx_replacements (fold plain_record rs start_conversation)) = last_replacement i rs"
proof (induction rs rule: rev_induct)
  case Nil
  show ?case by (simp add: start_conversation_def last_replacement_def)
next
  case (snoc r rs)
  then show ?case
    by (cases "rec_payload r")
      (auto simp: last_replacement_def plain_record_def plain_message_def plain_replaced_def plain_compaction_def
        Let_def split: option.splits)
qed

subsection \<open>Turns\<close>

definition starts :: "session_record \<Rightarrow> bool" where
  "starts r \<longleftrightarrow> (case rec_payload r of TurnStarted d \<Rightarrow> True | _ \<Rightarrow> False)"

definition ends :: "string option \<Rightarrow> session_record \<Rightarrow> bool" where
  "ends turn r \<longleftrightarrow> rec_turn r = turn \<and> (case rec_payload r of TurnCompleted x sp \<Rightarrow> True | TurnFailed f \<Rightarrow> True | _ \<Rightarrow> False)"

text \<open>Every turn started in the list has ended in it.\<close>

definition all_ended :: "session_record list \<Rightarrow> bool" where
  "all_ended rs \<longleftrightarrow> (\<forall>xs s ys. rs = xs @ s # ys \<longrightarrow> starts s \<longrightarrow> (\<exists>r \<in> set ys. ends (rec_turn s) r))"

definition open_since :: "string option \<Rightarrow> session_record list \<Rightarrow> bool" where
  "open_since turn rs \<longleftrightarrow> (\<exists>xs s ys. rs = xs @ s # ys \<and> starts s \<and> rec_turn s = turn \<and> all_ended xs
     \<and> (\<forall>r \<in> set ys. \<not> starts r \<and> \<not> ends turn r))"

lemma all_ended_snoc: "all_ended rs \<Longrightarrow> \<not> starts r \<Longrightarrow> all_ended (rs @ [r])"
  unfolding all_ended_def
proof (intro allI impI)
  fix xs s ys
  assume h: "\<forall>xs s ys. rs = xs @ s # ys \<longrightarrow> starts s \<longrightarrow> (\<exists>r \<in> set ys. ends (rec_turn s) r)"
    "\<not> starts r" "rs @ [r] = xs @ s # ys" "starts s"
  then obtain zs where "ys = zs @ [r]" "rs = xs @ s # zs" by (cases ys rule: rev_cases) auto
  then show "\<exists>r \<in> set ys. ends (rec_turn s) r" using h(1,4) by fastforce
qed

lemma open_since_snoc: "open_since turn rs \<Longrightarrow> \<not> starts r \<Longrightarrow> \<not> ends turn r \<Longrightarrow> open_since turn (rs @ [r])"
  unfolding open_since_def
proof (elim exE conjE)
  fix xs s ys
  assume "rs = xs @ s # ys" "starts s" "rec_turn s = turn" "all_ended xs" "\<forall>r \<in> set ys. \<not> starts r \<and> \<not> ends turn r"
    "\<not> starts r" "\<not> ends turn r"
  then show "\<exists>xs s ys. rs @ [r] = xs @ s # ys \<and> starts s \<and> rec_turn s = turn \<and> all_ended xs
      \<and> (\<forall>r \<in> set ys. \<not> starts r \<and> \<not> ends turn r)"
    by (intro exI [of _ xs] exI [of _ s] exI [of _ "ys @ [r]"]) auto
qed

lemma open_since_ended:
  assumes "open_since turn rs" "ends turn r" "\<not> starts r"
  shows "all_ended (rs @ [r])"
proof -
  obtain xs s ys where rs: "rs = xs @ s # ys" "rec_turn s = turn" "all_ended xs" "\<forall>r \<in> set ys. \<not> starts r"
    using assms(1) by (auto simp: open_since_def)
  show ?thesis
    unfolding all_ended_def
  proof (intro allI impI)
    fix zs b cs assume eq: "rs @ [r] = zs @ b # cs" and b: "starts b"
    then have "xs @ (s # ys @ [r]) = zs @ b # cs" using rs by simp
    then consider (inside) ws where "xs = zs @ b # ws" "cs = ws @ s # ys @ [r]"
      | (here) "b = s" "cs = ys @ [r]" | (later) "b \<in> set (ys @ [r])"
      by (auto simp: append_eq_append_conv2 Cons_eq_append_conv append_eq_Cons_conv)
    then show "\<exists>r \<in> set cs. ends (rec_turn b) r"
    proof cases
      case inside
      then show ?thesis using rs(3) b by (fastforce simp: all_ended_def)
    next
      case here
      then show ?thesis using assms(2) rs(2) by auto
    next
      case later
      then show ?thesis using rs(4) b assms(3) by auto
    qed
  qed
qed

lemma check_started: "check_turn st turn (TurnStarted d) = Inr u \<Longrightarrow> ts_active st = None"
  by (auto simp: check_turn_def bindE_Inr_iff split: option.splits if_splits)

definition turns_ok :: "session_record list \<Rightarrow> turn_state \<Rightarrow> bool" where
  "turns_ok rs st = (case ts_active st of None \<Rightarrow> all_ended rs | Some a \<Rightarrow> open_since (at_turn a) rs)"

lemma turns_ok_step:
  assumes ok: "turns_ok rs st" and step: "apply_strict st r = Inr st'"
  shows "turns_ok (rs @ [r]) st'"
proof -
  have st': "st' = apply_turn r st" and check: "check_turn st (rec_turn r) (rec_payload r) = Inr ()"
    using step by (auto simp: apply_strict_def bindE_Inr_iff)
  have skip: "turns_ok (rs @ [r]) st''"
    if "\<not> starts r" "map_option at_turn (ts_active st'') = map_option at_turn (ts_active st)"
      "\<And>a. ts_active st = Some a \<Longrightarrow> \<not> ends (at_turn a) r" for st''
    using that ok all_ended_snoc open_since_snoc
    by (auto simp: turns_ok_def split: option.splits)
  have close: "turns_ok (rs @ [r]) st'"
    if "\<not> starts r" "ends (rec_turn r) r" "ts_active st' = (if is_active st (rec_turn r) then None else ts_active st)"
    using that ok all_ended_snoc open_since_snoc open_since_ended
    by (auto simp: turns_ok_def is_active_def ends_def split: option.splits)
  show ?thesis
  proof (cases "rec_payload r")
    case (TurnStarted d)
    then have "ts_active st = None" using check check_started by simp
    then have "all_ended rs" using ok by (simp add: turns_ok_def)
    then have "open_since (rec_turn r) (rs @ [r])"
      unfolding open_since_def using TurnStarted
      by (intro exI [of _ rs] exI [of _ r] exI [of _ "[]"]) (simp add: starts_def)
    then show ?thesis
      using st' TurnStarted by (simp add: turns_ok_def apply_turn_def)
  next
    case (TurnCompleted x sp)
    then show ?thesis using st' by (intro close) (simp_all add: apply_turn_def starts_def ends_def)
  next
    case (TurnFailed f)
    then show ?thesis using st' by (intro close) (simp_all add: apply_turn_def starts_def ends_def)
  qed (use st' in \<open>auto intro!: skip simp: apply_turn_def starts_def ends_def is_active_def split: option.splits\<close>)
qed

lemma strict_turns_ok: "foldE apply_strict start_turns rs = Inr st \<Longrightarrow> turns_ok rs st"
proof (induction rs arbitrary: st rule: rev_induct)
  case Nil
  then show ?case by (auto simp: turns_ok_def start_turns_def all_ended_def)
next
  case (snoc r rs)
  then obtain st0 where "foldE apply_strict start_turns rs = Inr st0" "apply_strict st0 r = Inr st"
    by (auto simp: foldE_append bindE_Inr_iff)
  with snoc.IH show ?case using turns_ok_step by blast
qed

subsection \<open>The properties\<close>

text \<open>C30: Whatever records are folded, the slots the code keeps in a list and in a map
  of the same objects are those of the fold in which a slot is a value and the map
  does not exist, and so are the pending replacements and the spilled summary.
\<close>

theorem message_fold_refines:
  "conversation_of (fold fold_record rs start_fold) = fold plain_record rs start_conversation"
  using fold_refines by blast

text \<open>In the folded conversation no message id stands twice, and a message shows
  its last replacement: body, spill and the sequence number of the replacing
  record, also when the message itself was appended again, or was compacted away
  and appended, after the replacement. Without a replacement it is not marked.
\<close>

theorem last_replacement_shown:
  assumes "s \<in> set (fold_entries (fold fold_record rs start_fold))" and "slot_id s = Some i"
  shows "distinct (ids_of (fold_entries (fold fold_record rs start_fold)))
    \<and> (case last_replacement i rs of
         None \<Rightarrow> slot_replaced s = None
       | Some p \<Rightarrow> slot_message s = rp_message p \<and> slot_spill s = rp_spill p \<and> slot_replaced s = Some (rp_seq p))"
proof -
  let ?cx = "fold plain_record rs start_conversation"
  have slots: "fold_entries (fold fold_record rs start_fold) = cx_slots ?cx"
    using fold_refines [of rs] by (metis conversation.select_convs(1) conversation_of_def)
  have ok: "conversation_ok ?cx" by (rule plain_fold_ok)
  then have "displays (cx_replacements ?cx) s" using assms(1) slots by (simp add: conversation_ok_def)
  then show ?thesis using ok slots assms(2) by (simp add: conversation_ok_def displays_def replacements_of)
qed

definition example_record :: "nat \<Rightarrow> string option \<Rightarrow> payload \<Rightarrow> session_record" where
  "example_record n turn p =
     \<lparr>rec_id = ''r'', rec_session = ''s'', rec_seq = n, rec_ts = 0, rec_prev = None, rec_prev_text = None,
      rec_gen = 1, rec_turn = turn, rec_payload = p\<rparr>"

definition redacted :: "session_record list" where
  "redacted =
     [example_record 1 None (MessageRecord ''m'' \<lparr>sm_id = Some ''m'', sm_role = ''user'', sm_text = ''secret'', sm_call = None, sm_rest = []\<rparr> None),
      example_record 2 None (MessageReplaced ''m'' \<lparr>sm_id = Some ''m'', sm_role = ''user'', sm_text = ''gone'', sm_call = None, sm_rest = []\<rparr> None),
      example_record 3 None (CompactionRecord ''c'' 2 [] [] (InlineSummary [])),
      example_record 4 None (MessageRecord ''m'' \<lparr>sm_id = Some ''m'', sm_role = ''user'', sm_text = ''secret'', sm_call = None, sm_rest = []\<rparr> None)]"

lemma last_replacement_shown_witness:
  "map (sm_text \<circ> slot_message) (fold_entries (fold fold_record redacted start_fold)) = [''gone'']
   \<and> slot_replaced (hd (fold_entries (fold fold_record redacted start_fold))) = Some 2"
proof -
  let ?es = "fold_entries (fold fold_record redacted start_fold)"
  have es: "length ?es = 1" "slot_id (hd ?es) = Some ''m''" by code_simp+
  have p: "last_replacement ''m'' redacted
      = Some \<lparr>rp_target = ''m'', rp_message = \<lparr>sm_id = Some ''m'', sm_role = ''user'', sm_text = ''gone'', sm_call = None, sm_rest = []\<rparr>, rp_seq = 2, rp_spill = None\<rparr>"
    by code_simp
  have "hd ?es \<in> set ?es" using es(1) by (intro hd_in_set) auto
  then have "slot_message (hd ?es) = \<lparr>sm_id = Some ''m'', sm_role = ''user'', sm_text = ''gone'', sm_call = None, sm_rest = []\<rparr>" "slot_replaced (hd ?es) = Some 2"
    using last_replacement_shown [of "hd ?es" redacted "''m''"] es(2) p by simp_all
  then show ?thesis using es(1) by (cases ?es) auto
qed

text \<open>C31: In a log the strict turn rules accept, a turn starts only after every turn
  before it has ended, and a record that names a turn, other than one that starts
  it, stands after the start of that turn and before its end.
\<close>

theorem turns_do_not_overlap:
  assumes "foldE apply_strict start_turns (xs @ r # ys) = Inr st"
  shows "(starts r \<longrightarrow> all_ended xs)
    \<and> (rec_turn r \<noteq> None \<and> type_name (rec_payload r) \<notin> {''session_started'', ''turn_started''}
         \<longrightarrow> open_since (rec_turn r) xs)"
proof -
  obtain st0 st1 where run: "foldE apply_strict start_turns xs = Inr st0" and step: "apply_strict st0 r = Inr st1"
    using assms by (auto simp: foldE_append bindE_Inr_iff)
  have ok: "turns_ok xs st0" using run by (rule strict_turns_ok)
  have check: "check_turn st0 (rec_turn r) (rec_payload r) = Inr ()"
    using step by (auto simp: apply_strict_def bindE_Inr_iff)
  have "all_ended xs" if "starts r"
    using that ok check check_started
    by (auto simp: starts_def turns_ok_def split: payload.splits)
  moreover have "open_since (rec_turn r) xs"
    if "rec_turn r \<noteq> None" "type_name (rec_payload r) \<notin> {''session_started'', ''turn_started''}"
    using that ok check
    by (auto simp: check_turn_def turns_ok_def bindE_Inr_iff split: option.splits if_splits)
  ultimately show ?thesis by blast
qed

definition two_turns :: "session_record list" where
  "two_turns =
     [example_record 1 None SessionStarted, example_record 2 (Some ''t'') (TurnStarted ''d''),
      example_record 3 (Some ''t'') (TurnPaused ''c''), example_record 4 (Some ''t'') TurnResuming,
      example_record 5 (Some ''t'') (TurnFailed None)]"

lemma turns_do_not_overlap_witness:
  "all_ended two_turns \<and> open_since (Some ''t'') (take 4 two_turns)"
proof -
  let ?r = "example_record 6 (Some ''u'') (TurnStarted ''d'')" and ?e = "example_record 5 (Some ''t'') (TurnFailed None)"
  have run: "\<exists>st. foldE apply_strict start_turns (two_turns @ ?r # []) = Inr st"
    and run': "\<exists>st. foldE apply_strict start_turns (take 4 two_turns @ ?e # []) = Inr st"
    by (simp_all add: two_turns_def example_record_def start_turns_def apply_strict_def check_turn_def apply_turn_def
        is_active_def closes_or_decides_def)
  have "starts ?r" "rec_turn ?e = Some ''t''" "type_name (rec_payload ?e) \<notin> {''session_started'', ''turn_started''}"
    by (simp_all add: starts_def example_record_def)
  then show ?thesis
    using turns_do_not_overlap [of two_turns ?r "[]"] turns_do_not_overlap [of "take 4 two_turns" ?e "[]"] run run'
    by auto
qed

end
