(* ===== verification/SessionSpill.thy ===== *)
theory SessionSpill
  imports SessionRecord
begin

text \<open>
  Bodies too large for a record (\<open>store/session-log/spill.ts\<close>): the name a key spills
  to, the write that refuses to replace other content, and the read that checks
  place, length and hash; in memory and on disk. File names and keys are texts, the
  directory a list of named files.
\<close>

subsection \<open>Paths\<close>

text \<open>\<open>path.normalize\<close> of POSIX on the segments of a path.\<close>

fun split_path :: "string \<Rightarrow> string list" where
  "split_path [] = [[]]"
| "split_path (x # xs) =
     (if x = CHR ''/'' then [] # split_path xs
      else (case split_path xs of [] \<Rightarrow> [[x]] | seg # segs \<Rightarrow> (x # seg) # segs))"

fun join_path :: "string list \<Rightarrow> string" where
  "join_path [] = []"
| "join_path [seg] = seg"
| "join_path (seg # segs) = seg @ ''/'' @ join_path segs"

text \<open>The result so far is kept last segment first.\<close>

fun normal_segments :: "bool \<Rightarrow> string list \<Rightarrow> string list \<Rightarrow> string list" where
  "normal_segments absolute res [] = rev res"
| "normal_segments absolute res (seg # segs) =
     (if seg = [] \<or> seg = ''.'' then normal_segments absolute res segs
      else if seg = ''..'' then
        (if res \<noteq> [] \<and> hd res \<noteq> ''..'' then normal_segments absolute (tl res) segs
         else if absolute then normal_segments absolute res segs
         else normal_segments absolute (seg # res) segs)
      else normal_segments absolute (seg # res) segs)"

definition is_absolute :: "string \<Rightarrow> bool" where
  "is_absolute path \<longleftrightarrow> path \<noteq> [] \<and> hd path = CHR ''/''"

definition normalize :: "string \<Rightarrow> string" where
  "normalize path =
     (if path = [] then ''.''
      else
        (let absolute = is_absolute path;
             trailing = (last path = CHR ''/'');
             body = join_path (normal_segments absolute [] (split_path path));
             body = (if body = [] \<and> \<not> absolute then (if trailing then ''./'' else ''.'')
                     else if body \<noteq> [] \<and> trailing then body @ ''/'' else body)
         in if absolute then CHR ''/'' # body else body))"

subsection \<open>Checks\<close>

definition spill_dir :: string where
  "spill_dir = ''tool-results''"

datatype spill_error =
    KeyRequired | SpillDiffers string | SpillAbsent string | OutsideSpills string | BadReadLimit
  | OverLimit string | SizeDiffers string | HashDiffers string | SpillRefused string

definition check_relative :: "string \<Rightarrow> (spill_error, string) outcome" where
  "check_relative path =
     (let normal = normalize path in
      if is_absolute normal \<or> take 2 normal = ''..'' \<or> take (length spill_dir + 1) normal \<noteq> spill_dir @ ''/''
      then Inl (OutsideSpills path) else Inr normal)"

text \<open>A limit that is given is an integer; \<open>maxBytes\<close> of the options.\<close>

definition checked_read_limit :: "spill_ref \<Rightarrow> int option \<Rightarrow> (spill_error, int option) outcome" where
  "checked_read_limit ref limit =
     (case limit of
        None \<Rightarrow> Inr None
      | Some n \<Rightarrow>
          if \<not> safe_count n then Inl BadReadLimit
          else if int (spill_bytes ref) > max_safe_integer then Inl (SizeDiffers (spill_path ref))
          else if int (spill_bytes ref) > n then Inl (OverLimit (spill_path ref))
          else Inr (Some n))"

definition check_actual_size :: "spill_ref \<Rightarrow> nat \<Rightarrow> int \<Rightarrow> (spill_error, unit) outcome" where
  "check_actual_size ref n limit =
     (if int n > limit then Inl (OverLimit (spill_path ref))
      else if n \<noteq> spill_bytes ref then Inl (SizeDiffers (spill_path ref))
      else Inr ())"

definition verify_spill :: "codec \<Rightarrow> spill_ref \<Rightarrow> string \<Rightarrow> (spill_error, string) outcome" where
  "verify_spill c ref content =
     (if length (utf8 c content) \<noteq> spill_bytes ref then Inl (SizeDiffers (spill_path ref))
      else if sha256 c (utf8 c content) \<noteq> spill_sha ref then Inl (HashDiffers (spill_path ref))
      else Inr content)"

definition spill_file_name :: "codec \<Rightarrow> string \<Rightarrow> (spill_error, string) outcome" where
  "spill_file_name c key = (if key = [] then Inl KeyRequired else Inr (sha256 c (utf8 c key) @ ''.txt''))"

definition spill_ref_of :: "codec \<Rightarrow> string \<Rightarrow> string \<Rightarrow> spill_ref" where
  "spill_ref_of c name content =
     \<lparr>spill_path = spill_dir @ ''/'' @ name, spill_manifest = spill_dir @ ''/'' @ name @ ''.manifest.json'',
      spill_bytes = length (utf8 c content), spill_sha = sha256 c (utf8 c content)\<rparr>"

subsection \<open>In memory\<close>

type_synonym spill_files = "(string \<times> string) list"

definition mem_spill_write ::
    "codec \<Rightarrow> string \<Rightarrow> string \<Rightarrow> spill_files \<Rightarrow> spill_files \<times> (spill_error, spill_ref) outcome" where
  "mem_spill_write c key content files =
     (case spill_file_name c key of
        Inl e \<Rightarrow> (files, Inl e)
      | Inr name \<Rightarrow>
          (let ref = spill_ref_of c name content in
           case kfind fst (spill_path ref) files of
             Some (path, existing) \<Rightarrow>
               if sha256 c (utf8 c existing) \<noteq> spill_sha ref then (files, Inl (SpillDiffers (spill_path ref)))
               else (kput fst (spill_path ref, content) files, Inr ref)
           | None \<Rightarrow> (kput fst (spill_path ref, content) files, Inr ref)))"

definition mem_spill_read ::
    "codec \<Rightarrow> spill_ref \<Rightarrow> int option \<Rightarrow> spill_files \<Rightarrow> (spill_error, string) outcome" where
  "mem_spill_read c ref limit files =
     bindE (checked_read_limit ref limit) (\<lambda>bound.
     bindE (check_relative (spill_path ref)) (\<lambda>path.
     case kfind fst path files of
       None \<Rightarrow> Inl (SpillAbsent (spill_path ref))
     | Some (name, content) \<Rightarrow>
         bindE (case bound of None \<Rightarrow> Inr () | Some n \<Rightarrow> check_actual_size ref (length (utf8 c content)) n) (\<lambda>_.
         verify_spill c ref content)))"

subsection \<open>On disk\<close>

text \<open>
  Each call on the file system works, or fails with an error code; \<open>durableCreateFile\<close>
  publishes a whole body under a name nothing has.
\<close>

record spill_disk =
  sd_bodies :: spill_files
  sd_manifests :: "(string \<times> string \<times> nat \<times> string) list"   \<comment> \<open>name, key, bytes, hash\<close>
  sd_synced :: "string list"

record spill_faults =
  sf_mkdir :: "string option"
  sf_body :: "string option"
  sf_read_back :: "string option"
  sf_manifest :: "string option"
  sf_sync :: "string option"

definition no_spill_faults :: spill_faults where
  "no_spill_faults = \<lparr>sf_mkdir = None, sf_body = None, sf_read_back = None, sf_manifest = None, sf_sync = None\<rparr>"

definition fails_with :: "string option \<Rightarrow> (spill_error, unit) outcome" where
  "fails_with fault = (case fault of None \<Rightarrow> Inr () | Some code \<Rightarrow> Inl (SpillRefused code))"

definition create_body ::
    "codec \<Rightarrow> spill_faults \<Rightarrow> spill_ref \<Rightarrow> string \<Rightarrow> spill_disk \<Rightarrow> (spill_disk, spill_error, unit) step_result" where
  "create_body c faults ref content d =
     (case fails_with (sf_body faults) of
        Inl e \<Rightarrow> (d, Inl e)
      | Inr u \<Rightarrow>
          (case kfind fst (spill_path ref) (sd_bodies d) of
             None \<Rightarrow> (d\<lparr>sd_bodies := sd_bodies d @ [(spill_path ref, content)]\<rparr>, Inr ())
           | Some (path, existing) \<Rightarrow>
               (d, bindE (fails_with (sf_read_back faults)) (\<lambda>_.
                   require (sha256 c (utf8 c existing) = spill_sha ref) (SpillDiffers (spill_path ref))))))"

definition create_manifest ::
    "spill_faults \<Rightarrow> spill_ref \<Rightarrow> string \<Rightarrow> spill_disk \<Rightarrow> (spill_disk, spill_error, unit) step_result" where
  "create_manifest faults ref key d =
     (case fails_with (sf_manifest faults) of
        Inl e \<Rightarrow> (d, Inl e)
      | Inr u \<Rightarrow>
          ((if khas fst (spill_manifest ref) (sd_manifests d) then d
            else d\<lparr>sd_manifests := sd_manifests d @ [(spill_manifest ref, key, spill_bytes ref, spill_sha ref)]\<rparr>),
           Inr ()))"

definition sync_spills :: "spill_faults \<Rightarrow> spill_disk \<Rightarrow> (spill_disk, spill_error, unit) step_result" where
  "sync_spills faults d =
     (case fails_with (sf_sync faults) of
        Inl e \<Rightarrow> (d, Inl e)
      | Inr u \<Rightarrow> (d\<lparr>sd_synced := map fst (sd_bodies d) @ map fst (sd_manifests d)\<rparr>, Inr ()))"

definition disk_spill_write ::
    "codec \<Rightarrow> spill_faults \<Rightarrow> string \<Rightarrow> string \<Rightarrow> spill_disk \<Rightarrow> (spill_disk, spill_error, spill_ref) step_result" where
  "disk_spill_write c faults key content d =
     (case bindE (fails_with (sf_mkdir faults)) (\<lambda>_. spill_file_name c key) of
        Inl e \<Rightarrow> (d, Inl e)
      | Inr name \<Rightarrow>
          (let ref = spill_ref_of c name content in
           andThen (create_body c faults ref content d) (\<lambda>d1 _.
           andThen (create_manifest faults ref key d1) (\<lambda>d2 _.
           andThen (sync_spills faults d2) (\<lambda>d3 _. (d3, Inr ref))))))"

text \<open>A read that finds the file; the bounded one also checks the size of the file it opened.\<close>

definition disk_spill_read ::
    "codec \<Rightarrow> spill_ref \<Rightarrow> int option \<Rightarrow> spill_disk \<Rightarrow> (spill_error, string) outcome" where
  "disk_spill_read c ref limit d =
     bindE (checked_read_limit ref limit) (\<lambda>bound.
     bindE (check_relative (spill_path ref)) (\<lambda>path.
     case kfind fst path (sd_bodies d) of
       None \<Rightarrow> Inl (SpillAbsent (spill_path ref))
     | Some (name, content) \<Rightarrow>
         bindE (case bound of None \<Rightarrow> Inr () | Some n \<Rightarrow> check_actual_size ref (length (utf8 c content)) n) (\<lambda>_.
         verify_spill c ref content)))"

end
