(* ===== verification/SessionLogState.thy ===== *)
theory SessionLogState
  imports SessionFold SessionChain SessionLease SessionSpill
begin

text \<open>
  The state of one instance of a session log and of what it shares with others (the
  bytes of the log, the lease, the spills), and the steps below the records
  (\<open>store/session-log/core.ts\<close>, \<open>memory.ts\<close>, \<open>disk.ts\<close>): the medium, catching up with it,
  the buffer of records it refused, and the spilling of large bodies. Every call on
  the file system takes what goes wrong in it from a list.
\<close>

subsection \<open>State\<close>

datatype sync_mode = SyncBoundaries | SyncAll | SyncNone

record log_config =
  lc_codec :: codec
  lc_session :: string
  lc_chunked :: "bytes \<Rightarrow> bytes list"       \<comment> \<open>how a stream is cut into chunks\<close>
  lc_record_id :: "nat \<Rightarrow> string"          \<comment> \<open>the ids \<open>generateRecordId\<close> gives, in turn\<close>
  lc_spill_above :: nat
  lc_compaction_above :: nat
  lc_sync :: sync_mode
  lc_buffer :: nat

datatype degraded_cause = DiskFull | QuotaExceeded | ReadOnlyDisk

definition degraded_cause_of :: "string \<Rightarrow> degraded_cause option" where
  "degraded_cause_of code =
     (if code = ''ENOSPC'' then Some DiskFull
      else if code = ''EDQUOT'' then Some QuotaExceeded
      else if code = ''EROFS'' then Some ReadOnlyDisk
      else None)"

datatype write_health =
    Degraded degraded_cause nat nat bool     \<comment> \<open>buffered records, buffered bytes, dropping\<close>
  | Recovered nat nat                        \<comment> \<open>flushed, dropped\<close>

record writer =
  w_chain :: chain
  w_turns :: turn_state
  w_held :: "lease option"
  w_synced :: nat
  w_torn :: nat
  w_pending :: "(bytes \<times> bool) list"
  w_pending_bytes :: nat
  w_disk_bytes :: nat
  w_cause :: "degraded_cause option"
  w_dropped :: nat
  w_noticed :: bool
  w_flushed :: nat
  w_events :: "write_health list"
  w_exiting :: bool                          \<comment> \<open>its process gave its leases back\<close>

definition new_writer :: writer where
  "new_writer = \<lparr>w_chain = start_chain, w_turns = start_turns, w_held = None, w_synced = 0, w_torn = 0,
     w_pending = [], w_pending_bytes = 0, w_disk_bytes = 0, w_cause = None, w_dropped = 0, w_noticed = False,
     w_flushed = 0, w_events = [], w_exiting = False\<rparr>"

text \<open>
  A call on the log file works; or fails to open it; or fails after some bytes landed
  (all of them, where the sync failed); or writes short without an error.
\<close>

datatype fault = Works | OpenFails string | FailsAfter nat string | WritesShort nat

record world =
  lw_file :: bytes
  lw_leases :: mem_leases
  lw_spills :: spill_disk
  lw_faults :: "fault list"
  lw_spill_faults :: "spill_faults list"
  lw_ids :: nat
  lw_now :: int

datatype turn_activity = TurnRunning | TurnPausedState | TurnInterrupted

datatype log_error =
    StaleLease nat nat | LogBreaks log_break | RuleBroken turn_error | UseBeginTurn
  | InterruptedOwner "string option" nat | NotActive string | InProgress "string option" turn_activity
  | InvalidRecord | Conflict | WriteFailed string | SpillFails spill_error | LeasesGivenBack

type_synonym log_state = "writer \<times> world"
type_synonym 'a log_step = "log_state \<Rightarrow> (log_state, log_error, 'a) step_result"

subsection \<open>The medium\<close>

definition next_fault :: "world \<Rightarrow> fault \<times> world" where
  "next_fault lw = (case lw_faults lw of [] \<Rightarrow> (Works, lw) | f # fs \<Rightarrow> (f, lw\<lparr>lw_faults := fs\<rparr>))"

text \<open>What lands of a write, and how it ends when the file is as long as expected.\<close>

definition landed :: "fault \<Rightarrow> bytes \<Rightarrow> bytes \<times> (log_error, unit) outcome" where
  "landed f data =
     (case f of
        FailsAfter n code \<Rightarrow> (take n data, Inl (WriteFailed code))
      | WritesShort n \<Rightarrow>
          (take n data,
           require (take n data @ replicate (length data - n) 0 = data) Conflict)
      | _ \<Rightarrow> (data, Inr ()))"

definition medium_append :: "bytes \<Rightarrow> nat \<Rightarrow> world \<Rightarrow> (world, log_error, unit) step_result" where
  "medium_append data expected lw =
     (let (f, lw) = next_fault lw in
      case f of
        OpenFails code \<Rightarrow> (lw, Inl (WriteFailed code))
      | _ \<Rightarrow>
          if length (lw_file lw) \<noteq> expected then (lw, Inl Conflict)
          else (let (there, r) = landed f data in (lw\<lparr>lw_file := lw_file lw @ there\<rparr>, r)))"

definition medium_truncate :: "nat \<Rightarrow> nat \<Rightarrow> world \<Rightarrow> (world, log_error, unit) step_result" where
  "medium_truncate n expected lw =
     (let (f, lw) = next_fault lw in
      case f of
        OpenFails code \<Rightarrow> (lw, Inl (WriteFailed code))
      | _ \<Rightarrow>
          if length (lw_file lw) \<noteq> expected then (lw, Inl Conflict)
          else (lw\<lparr>lw_file := take n (lw_file lw)\<rparr>,
                case f of FailsAfter k code \<Rightarrow> Inl (WriteFailed code) | _ \<Rightarrow> Inr ()))"

subsection \<open>Catching up\<close>

definition reset_writer :: "writer \<Rightarrow> writer" where
  "reset_writer w = w\<lparr>w_chain := start_chain, w_turns := start_turns, w_synced := 0, w_torn := 0,
     w_pending := [], w_pending_bytes := 0\<rparr>"

fun apply_lines ::
    "codec \<Rightarrow> string \<Rightarrow> (bytes \<times> nat) list \<Rightarrow> writer \<Rightarrow> (writer, log_error, unit) step_result" where
  "apply_lines c session [] w = (w, Inr ())"
| "apply_lines c session ((line, offset) # lines) w =
     (case chain_accept c (w_chain w) line offset of
        Inl e \<Rightarrow> (w, Inl (LogBreaks e))
      | Inr (ch, en) \<Rightarrow>
          if chain_session ch \<noteq> Some session then
            (w\<lparr>w_chain := ch\<rparr>,
             Inl (LogBreaks \<lparr>break_reason = SessionMismatch, break_seq = ptr_seq (entry_pointer en), break_offset = offset\<rparr>))
          else
            apply_lines c session lines
              (w\<lparr>w_chain := ch, w_turns := apply_turn (entry_record en) (w_turns w), w_synced := offset + length line\<rparr>))"

fun apply_chunks ::
    "codec \<Rightarrow> string \<Rightarrow> splitter \<Rightarrow> bytes list \<Rightarrow> writer \<Rightarrow> (writer, log_error, nat) step_result" where
  "apply_chunks c session sp [] w = (w, Inr (length (sp_pending sp)))"
| "apply_chunks c session sp (chunk # chunks) w =
     (let (lines, pushed) = push_chunk sp chunk in
      case apply_lines c session lines w of
        (w', Inl e) \<Rightarrow> (w', Inl e)
      | (w', Inr u) \<Rightarrow>
          (case pushed of
             Inl e \<Rightarrow> (w', Inl (LogBreaks e))
           | Inr sp' \<Rightarrow> apply_chunks c session sp' chunks w'))"

definition catch_up_with :: "log_config \<Rightarrow> bytes \<Rightarrow> writer \<Rightarrow> (writer, log_error, unit) step_result" where
  "catch_up_with cfg file w =
     (if w_pending w \<noteq> [] then (w, Inr ())
      else if length file = w_synced w + w_torn w then (w, Inr ())
      else
        (let w1 = (if length file < w_synced w then reset_writer w else w) in
         andThen (apply_chunks (lc_codec cfg) (lc_session cfg) (start_splitter (w_synced w1))
                   (lc_chunked cfg (drop (w_synced w1) file)) w1)
           (\<lambda>w2 torn. (w2\<lparr>w_torn := torn\<rparr>, Inr ()))))"

definition catch_up :: "log_config \<Rightarrow> unit log_step" where
  "catch_up cfg st = (let (w', r) = catch_up_with cfg (lw_file (snd st)) (fst st) in ((w', snd st), r))"

definition require_current :: "lease \<Rightarrow> unit log_step" where
  "require_current l st =
     (let fence = mem_fence (lw_leases (snd st)) in
      if lease_fence l \<noteq> fence then (st, Inl (StaleLease (lease_fence l) fence)) else (st, Inr ()))"

subsection \<open>The buffer of a refused volume\<close>

definition notify :: "write_health \<Rightarrow> writer \<Rightarrow> writer" where
  "notify h w = w\<lparr>w_events := w_events w @ [h]\<rparr>"

text \<open>The oldest waiting records are discarded until the rest fits; the newest stays.\<close>

fun drop_oldest :: "nat \<Rightarrow> (bytes \<times> bool) list \<Rightarrow> nat \<Rightarrow> (bytes \<times> bool) list \<times> nat \<times> nat" where
  "drop_oldest bound (q # r # qs) bytes_held =
     (if bytes_held > bound
      then (let (kept, left, n) = drop_oldest bound (r # qs) (bytes_held - length (fst q)) in (kept, left, n + 1))
      else (q # r # qs, bytes_held, 0))"
| "drop_oldest bound qs bytes_held = (qs, bytes_held, 0)"

definition buffer_record :: "log_config \<Rightarrow> bytes \<Rightarrow> bool \<Rightarrow> writer \<Rightarrow> writer" where
  "buffer_record cfg data sync w =
     (let (kept, left, n) = drop_oldest (lc_buffer cfg) (w_pending w @ [(data, sync)]) (w_pending_bytes w + length data);
          w1 = w\<lparr>w_pending := kept, w_pending_bytes := left, w_dropped := w_dropped w + n\<rparr>
      in case w_cause w1 of
           Some cause \<Rightarrow>
             if n > 0 \<and> \<not> w_noticed w1
             then notify (Degraded cause (length kept) left True) (w1\<lparr>w_noticed := True\<rparr>) else w1
         | None \<Rightarrow> w1)"

fun flush_queue :: "(bytes \<times> bool) list \<Rightarrow> unit log_step" where
  "flush_queue [] (w, lw) = ((w, lw), Inr ())"
| "flush_queue ((data, sync) # qs) (w, lw) =
     (case medium_append data (w_disk_bytes w) lw of
        (lw', Inl e) \<Rightarrow> ((w, lw'), Inl e)
      | (lw', Inr u) \<Rightarrow>
          flush_queue qs
            (w\<lparr>w_disk_bytes := w_disk_bytes w + length data, w_pending_bytes := w_pending_bytes w - length data,
               w_pending := qs, w_flushed := w_flushed w + 1\<rparr>, lw'))"

definition flush_pending :: "unit log_step" where
  "flush_pending st =
     andThen
       (if length (lw_file (snd st)) > w_disk_bytes (fst st)
        then (let (lw', r) = medium_truncate (w_disk_bytes (fst st)) (length (lw_file (snd st))) (snd st)
              in ((fst st, lw'), r))
        else (st, Inr ()))
       (\<lambda>st1 _. andThen (flush_queue (w_pending (fst st1)) st1)
       (\<lambda>(w, lw) _.
         ((notify (Recovered (w_flushed w) (w_dropped w))
             (w\<lparr>w_flushed := 0, w_cause := None, w_dropped := 0, w_noticed := False, w_pending_bytes := 0\<rparr>), lw),
          Inr ())))"

definition degrades :: "log_error \<Rightarrow> degraded_cause option" where
  "degrades e = (case e of WriteFailed code \<Rightarrow> degraded_cause_of code | _ \<Rightarrow> None)"

definition persist :: "log_config \<Rightarrow> bytes \<Rightarrow> bool \<Rightarrow> unit log_step" where
  "persist cfg data sync st =
     (let (w, lw) = st in
      if w_pending w = [] then
        (case medium_append data (w_synced w) lw of
           (lw', Inr u) \<Rightarrow> ((w, lw'), Inr ())
         | (lw', Inl e) \<Rightarrow>
             (case degrades e of
                None \<Rightarrow> ((w, lw'), Inl e)
              | Some cause \<Rightarrow>
                  (let w1 = buffer_record cfg data sync (w\<lparr>w_disk_bytes := w_synced w, w_cause := Some cause\<rparr>)
                   in ((notify (Degraded cause (length (w_pending w1)) (w_pending_bytes w1) False) w1, lw'), Inr ()))))
      else
        (case flush_pending (buffer_record cfg data sync w, lw) of
           (st', Inr u) \<Rightarrow> (st', Inr ())
         | ((w1, lw'), Inl e) \<Rightarrow>
             (case degrades e of
                Some cause \<Rightarrow> ((w1, lw'), Inr ())
              | None \<Rightarrow>
                  ((if w_pending w1 = [] then w1
                    else w1\<lparr>w_pending := butlast (w_pending w1), w_pending_bytes := w_pending_bytes w1 - length data\<rparr>,
                    lw'), Inl e))))"

end
