(* ===== verification/SessionLogCore.thy ===== *)
theory SessionLogCore
  imports SessionLogState Text
begin

text \<open>
  The records of a session log (\<open>store/session-log/core.ts\<close>, \<open>heal.ts\<close>): spilling a
  large body, writing a record, repairing a torn tail, taking and giving up the
  lease, and the operations on turns. The option that spills structured results is
  off, as it is by default.
\<close>

subsection \<open>Spilling\<close>

definition preview_chars :: nat where
  "preview_chars = 2000"

definition input_preview_chars :: nat where
  "input_preview_chars = 200"

text \<open>The ellipsis of the source, as its three bytes of UTF-8.\<close>

definition ellipsis :: string where
  "ellipsis = [CHR 0xE2, CHR 0x80, CHR 0xA6]"

definition not_saved_note :: string where
  "not_saved_note = ''['' @ ellipsis @ '' the rest of this output could not be saved: the disk is full]''"

definition spilled_note :: "spill_ref \<Rightarrow> string" where
  "spilled_note ref = ''['' @ ellipsis @ '' '' @ decimal (spill_bytes ref) @ '' bytes spilled to '' @ spill_path ref @ '']''"

definition preview_with :: "string \<Rightarrow> string \<Rightarrow> string" where
  "preview_with note content = take preview_chars content @ [CHR 0x0A] @ note"

text \<open>The message a record keeps when its body is elsewhere: role, preview, and the call it answers.\<close>

definition preview_message :: "string \<Rightarrow> stored_message \<Rightarrow> stored_message" where
  "preview_message note m = \<lparr>sm_id = None, sm_role = sm_role m, sm_text = preview_with note (sm_text m),
     sm_call = sm_call m, sm_rest = []\<rparr>"

definition record_size :: "codec \<Rightarrow> session_record \<Rightarrow> nat" where
  "record_size c r = length (encode c r) + 1"

definition tool_input_types :: "string list" where
  "tool_input_types = [''tool_review_requested'', ''decision_requested'', ''tool_executing'', ''tool_input_completed'']"

definition next_spill_fault :: "world \<Rightarrow> spill_faults \<times> world" where
  "next_spill_fault lw =
     (case lw_spill_faults lw of [] \<Rightarrow> (no_spill_faults, lw) | f # fs \<Rightarrow> (f, lw\<lparr>lw_spill_faults := fs\<rparr>))"

definition write_spill :: "log_config \<Rightarrow> string \<Rightarrow> string \<Rightarrow> world \<Rightarrow> (world, log_error, spill_ref) step_result" where
  "write_spill cfg key content lw =
     (let (f, lw) = next_spill_fault lw;
          (d, r) = disk_spill_write (lc_codec cfg) f key content (lw_spills lw)
      in (lw\<lparr>lw_spills := d\<rparr>, map_sum SpillFails id r))"

definition spill_degrades :: "log_error \<Rightarrow> bool" where
  "spill_degrades e = (case e of SpillFails (SpillRefused code) \<Rightarrow> degraded_cause_of code \<noteq> None | _ \<Rightarrow> False)"

text \<open>A body the volume refuses is given up; any other failure is the write's.\<close>

definition spill_or_lose ::
    "log_config \<Rightarrow> string \<Rightarrow> string \<Rightarrow> world \<Rightarrow> (world, log_error, spill_ref option) step_result" where
  "spill_or_lose cfg key content lw =
     (case write_spill cfg key content lw of
        (lw', Inr ref) \<Rightarrow> (lw', Inr (Some ref))
      | (lw', Inl e) \<Rightarrow> (lw', if spill_degrades e then Inr None else Inl e))"

fun spill_inputs ::
    "log_config \<Rightarrow> session_record \<Rightarrow> string \<Rightarrow> nat list \<Rightarrow> string list \<Rightarrow> tool_input list \<Rightarrow> world
      \<Rightarrow> (world, log_error, tool_input list) step_result" where
  "spill_inputs cfg r ty [] bodies inputs lw = (lw, Inr inputs)"
| "spill_inputs cfg r ty (i # order) bodies inputs lw =
     andThen (write_spill cfg (''input:'' @ rec_id r @ '':'' @ decimal i) (bodies ! i) lw) (\<lambda>lw ref.
       (let inputs' = inputs[i := SpilledInput ref (take input_preview_chars (bodies ! i))] in
        if record_size (lc_codec cfg) (r\<lparr>rec_payload := OtherRecord ty inputs'\<rparr>) \<le> lc_spill_above cfg
        then (lw, Inr inputs')
        else spill_inputs cfg r ty order bodies inputs' lw))"

definition spill_tool_inputs ::
    "log_config \<Rightarrow> session_record \<Rightarrow> string \<Rightarrow> tool_input list \<Rightarrow> world \<Rightarrow> (world, log_error, session_record) step_result" where
  "spill_tool_inputs cfg r ty inputs lw =
     (if record_size (lc_codec cfg) r \<le> lc_spill_above cfg then (lw, Inr r)
      else
        (let bodies = map (input_json (lc_codec cfg)) inputs;
             order = sort_key (\<lambda>i. - int (length (bodies ! i))) [0..<length inputs]
         in andThen (spill_inputs cfg r ty order bodies inputs lw) (\<lambda>lw inputs'.
              (lw, Inr (r\<lparr>rec_payload := OtherRecord ty inputs'\<rparr>)))))"

definition message_key :: "stored_message \<Rightarrow> string \<Rightarrow> string" where
  "message_key m other =
     (case sm_call m of Some call \<Rightarrow> if sm_role m = ''tool'' then call else other | None \<Rightarrow> other)"

definition spill_if_large :: "log_config \<Rightarrow> session_record \<Rightarrow> world \<Rightarrow> (world, log_error, session_record) step_result" where
  "spill_if_large cfg r lw =
     (let c = lc_codec cfg; size_now = record_size c r in
      case rec_payload r of
        OtherRecord ty inputs \<Rightarrow>
          if ty \<in> set tool_input_types then spill_tool_inputs cfg r ty inputs lw else (lw, Inr r)
      | MessageRecord mid m spill \<Rightarrow>
          if size_now \<le> lc_spill_above cfg then (lw, Inr r)
          else andThen (spill_or_lose cfg (message_key m (''message:'' @ mid)) (message_json c m) lw) (\<lambda>lw ref.
            (lw, Inr (r\<lparr>rec_payload :=
              (case ref of
                 None \<Rightarrow> MessageRecord mid (preview_message not_saved_note m) spill
               | Some s \<Rightarrow> MessageRecord mid (preview_message (spilled_note s) m) (Some s))\<rparr>)))
      | MessageReplaced mid m spill \<Rightarrow>
          if size_now \<le> lc_spill_above cfg then (lw, Inr r)
          else andThen (spill_or_lose cfg (message_key m (''record:'' @ rec_id r)) (message_json c m) lw) (\<lambda>lw ref.
            (lw, Inr (r\<lparr>rec_payload :=
              (case ref of
                 None \<Rightarrow> MessageReplaced mid (preview_message not_saved_note m) spill
               | Some s \<Rightarrow> MessageReplaced mid (preview_message (spilled_note s) m) (Some s))\<rparr>)))
      | CompactionRecord cid to_seq kept pinned summary \<Rightarrow>
          if size_now \<le> lc_compaction_above cfg then (lw, Inr r)
          else
            (case summary of
               SpilledSummary ref \<Rightarrow> (lw, Inr r)
             | InlineSummary ms \<Rightarrow>
                 andThen (write_spill cfg (''compaction:'' @ cid) (messages_json c ms) lw) (\<lambda>lw ref.
                   (lw, Inr (r\<lparr>rec_payload := CompactionRecord cid to_seq kept pinned (SpilledSummary ref)\<rparr>))))
      | TurnCompleted result spill \<Rightarrow>
          if size_now \<le> lc_spill_above cfg then (lw, Inr r)
          else andThen (spill_or_lose cfg (''record:'' @ rec_id r) result lw) (\<lambda>lw ref.
            (lw, Inr (r\<lparr>rec_payload :=
              (case ref of
                 None \<Rightarrow> TurnCompleted (preview_with not_saved_note result) spill
               | Some s \<Rightarrow> TurnCompleted (preview_with (spilled_note s) result) (Some s))\<rparr>)))
      | _ \<Rightarrow> (lw, Inr r))"

subsection \<open>Writing a record\<close>

record draft =
  dr_turn :: "string option"
  dr_payload :: payload

definition boundary_types :: "string list" where
  "boundary_types =
     [''session_started'', ''turn_started'', ''turn_paused'', ''turn_resuming'', ''turn_completed'', ''turn_failed'',
      ''checkpoint_written'', ''decision_requested'', ''decision_resolved'', ''decision_expired'', ''log_repaired'']"

definition syncs :: "log_config \<Rightarrow> payload \<Rightarrow> bool" where
  "syncs cfg p \<longleftrightarrow>
     (case lc_sync cfg of SyncAll \<Rightarrow> True | SyncNone \<Rightarrow> False | SyncBoundaries \<Rightarrow> type_name p \<in> set boundary_types)"

definition enveloped :: "log_config \<Rightarrow> lease \<Rightarrow> draft \<Rightarrow> log_state \<Rightarrow> session_record" where
  "enveloped cfg l dr st =
     \<lparr>rec_id = lc_record_id cfg (lw_ids (snd st)), rec_session = lc_session cfg,
      rec_seq = head_seq (w_chain (fst st)) + 1, rec_ts = lw_now (snd st), rec_prev = chain_head (w_chain (fst st)),
      rec_prev_text = None, rec_gen = lease_fence l, rec_turn = dr_turn dr, rec_payload = dr_payload dr\<rparr>"

text \<open>The record is accepted into the chain and the turns once the medium has it.\<close>

definition accept_written :: "log_config \<Rightarrow> bytes \<Rightarrow> entry log_step" where
  "accept_written cfg line st =
     (case chain_accept (lc_codec cfg) (w_chain (fst st)) line (w_synced (fst st)) of
        Inl e \<Rightarrow> (st, Inl (LogBreaks e))
      | Inr (ch, en) \<Rightarrow>
          (((fst st)\<lparr>w_chain := ch, w_turns := apply_turn (entry_record en) (w_turns (fst st)),
              w_synced := w_synced (fst st) + length line\<rparr>, snd st), Inr en))"

definition write_checked :: "log_config \<Rightarrow> session_record \<Rightarrow> entry log_step" where
  "write_checked cfg r st =
     (if \<not> schema (lc_codec cfg) r then (st, Inl InvalidRecord)
      else
        (case check_turn (w_turns (fst st)) (rec_turn r) (rec_payload r) of
           Inl e \<Rightarrow> (st, Inl (RuleBroken e))
         | Inr u \<Rightarrow>
             (case format_line (lc_codec cfg) r of
                Inl e \<Rightarrow> (st, Inl InvalidRecord)
              | Inr line \<Rightarrow>
                  andThen (persist cfg line (syncs cfg (rec_payload r)) st) (\<lambda>st2 _. accept_written cfg line st2))))"

definition write_record :: "log_config \<Rightarrow> lease \<Rightarrow> draft \<Rightarrow> entry log_step" where
  "write_record cfg l dr st =
     (if lease_fence l < chain_gen (w_chain (fst st))
      then (st, Inl (StaleLease (lease_fence l) (chain_gen (w_chain (fst st)))))
      else
        (case spill_if_large cfg (enveloped cfg l dr st) ((snd st)\<lparr>lw_ids := lw_ids (snd st) + 1\<rparr>) of
           (lw1, Inl e) \<Rightarrow> ((fst st, lw1), Inl e)
         | (lw1, Inr r) \<Rightarrow> write_checked cfg r (fst st, lw1)))"

text \<open>\<open>repairRecordDraft\<close>\<close>

definition repair_draft :: "nat \<Rightarrow> nat \<Rightarrow> string option \<Rightarrow> draft option" where
  "repair_draft truncated good turn =
     (if truncated = 0 \<or> good = 0 then None
      else Some \<lparr>dr_turn = turn, dr_payload = LogRepaired truncated good\<rparr>)"

definition active_turn_id :: "turn_state \<Rightarrow> string option" where
  "active_turn_id ts = (case ts_active ts of None \<Rightarrow> None | Some a \<Rightarrow> at_turn a)"

definition heal :: "log_config \<Rightarrow> lease \<Rightarrow> unit log_step" where
  "heal cfg l st =
     (if w_torn (fst st) = 0 then (st, Inr ())
      else
        (let torn = w_torn (fst st);
             (lw1, r) = medium_truncate (w_synced (fst st)) (w_synced (fst st) + torn) (snd st)
         in case r of
              Inl e \<Rightarrow> ((fst st, lw1), Inl e)
            | Inr u \<Rightarrow>
                (let w1 = (fst st)\<lparr>w_torn := 0\<rparr> in
                 case repair_draft torn (head_seq (w_chain w1)) (active_turn_id (w_turns w1)) of
                   None \<Rightarrow> ((w1, lw1), Inr ())
                 | Some dr \<Rightarrow> andThen (write_record cfg l dr (w1, lw1)) (\<lambda>st2 _. (st2, Inr ())))))"

subsection \<open>Operations\<close>

text \<open>The first steps of every write.\<close>

definition ready :: "log_config \<Rightarrow> lease \<Rightarrow> unit log_step" where
  "ready cfg l st =
     andThen (require_current l st) (\<lambda>st1 _. andThen (catch_up cfg st1) (\<lambda>st2 _. heal cfg l st2))"

definition check_ownership :: "lease \<Rightarrow> draft \<Rightarrow> turn_state \<Rightarrow> (log_error, unit) outcome" where
  "check_ownership l dr ts =
     (case ts_active ts of
        None \<Rightarrow> Inr ()
      | Some a \<Rightarrow>
          if dr_turn dr \<noteq> at_turn a \<or> at_paused a then Inr ()
          else if at_owner a = lease_fence l then Inr ()
          else if type_name (dr_payload dr) \<in> {''turn_resuming'', ''turn_failed'', ''turn_completed''} then Inr ()
          else Inl (InterruptedOwner (at_turn a) (at_owner a)))"

text \<open>
  Each operation is one step: what it awaits (the fence, the size of the file, the write) is not interleaved with other
  processes. The source says of this window (\<open>disk.ts\<close>, lines 33 to 36) that a stale holder may still write in it.
\<close>

definition append :: "log_config \<Rightarrow> lease \<Rightarrow> draft \<Rightarrow> entry log_step" where
  "append cfg l dr st =
     andThen (ready cfg l st) (\<lambda>st1 _.
       if type_name (dr_payload dr) = ''turn_started'' then (st1, Inl UseBeginTurn)
       else (case check_ownership l dr (w_turns (fst st1)) of
               Inl e \<Rightarrow> (st1, Inl e)
             | Inr u \<Rightarrow> write_record cfg l dr st1))"

definition state_for :: "active_turn \<Rightarrow> nat \<Rightarrow> turn_activity" where
  "state_for a fence = (if at_paused a then TurnPausedState else if at_owner a = fence then TurnRunning else TurnInterrupted)"

definition failed_draft :: "active_turn \<Rightarrow> string \<Rightarrow> bool \<Rightarrow> draft" where
  "failed_draft a code withdraw = \<lparr>dr_turn = at_turn a, dr_payload = TurnFailed (Some (code, withdraw))\<rparr>"

definition begin_turn :: "log_config \<Rightarrow> lease \<Rightarrow> string option \<Rightarrow> string \<Rightarrow> bool \<Rightarrow> entry log_step" where
  "begin_turn cfg l turn body abandon_interrupted st =
     andThen (ready cfg l st) (\<lambda>st1 _.
       andThen
         (case ts_active (w_turns (fst st1)) of
            None \<Rightarrow> (st1, Inr ())
          | Some a \<Rightarrow>
              if state_for a (lease_fence l) \<noteq> TurnInterrupted \<or> \<not> abandon_interrupted
              then (st1, Inl (InProgress (at_turn a) (state_for a (lease_fence l))))
              else andThen (write_record cfg l (failed_draft a ''interrupted'' False) st1) (\<lambda>st2 _. (st2, Inr ())))
         (\<lambda>st2 _. write_record cfg l \<lparr>dr_turn = turn, dr_payload = TurnStarted body\<rparr> st2))"

definition abandon_turn :: "log_config \<Rightarrow> lease \<Rightarrow> string \<Rightarrow> bool \<Rightarrow> entry log_step" where
  "abandon_turn cfg l turn withdraw st =
     andThen (ready cfg l st) (\<lambda>st1 _.
       case ts_active (w_turns (fst st1)) of
         None \<Rightarrow> (st1, Inl (NotActive turn))
       | Some a \<Rightarrow>
           if at_turn a \<noteq> Some turn then (st1, Inl (NotActive turn))
           else if state_for a (lease_fence l) = TurnRunning
           then (st1, Inl (InProgress (Some turn) TurnRunning))
           else write_record cfg l (failed_draft a ''abandoned'' withdraw) st1)"

definition release_lease :: "lease \<Rightarrow> world \<Rightarrow> world" where
  "release_lease l lw = lw\<lparr>lw_leases := mem_release l (lw_leases lw)\<rparr>"

definition claim :: "log_config \<Rightarrow> claim_options \<Rightarrow> bool \<Rightarrow> lease option log_step" where
  "claim cfg opts repair st =
     (if w_exiting (fst st) then (st, Inl LeasesGivenBack)
      else
        (let (st1, ignored) = catch_up cfg st;
             (w1, lw1) = st1;
             (leases, taken) = mem_claim opts \<lparr>ctx_renew = w_held w1, ctx_above = chain_gen (w_chain w1)\<rparr> (lw_leases lw1);
             lw2 = lw1\<lparr>lw_leases := leases\<rparr>
         in case taken of
              None \<Rightarrow> ((w1, lw2), Inr None)
            | Some l \<Rightarrow>
                (case andThen (catch_up cfg (w1\<lparr>w_held := Some l\<rparr>, lw2))
                        (\<lambda>st3 _. if repair then heal cfg l st3 else (st3, Inr ())) of
                   (st4, Inr u) \<Rightarrow> (st4, Inr (Some l))
                 | ((w4, lw4), Inl e) \<Rightarrow> ((w4\<lparr>w_held := None\<rparr>, release_lease l lw4), Inl e))))"

definition holds_fence :: "writer \<Rightarrow> lease \<Rightarrow> bool" where
  "holds_fence w l \<longleftrightarrow> (case w_held w of None \<Rightarrow> False | Some h \<Rightarrow> lease_fence h = lease_fence l)"

definition release :: "lease \<Rightarrow> log_state \<Rightarrow> log_state" where
  "release l st =
     (let (w1, lw1) = (if w_pending (fst st) \<noteq> [] then fst (flush_pending st) else st);
          w2 = (if holds_fence w1 l then w1\<lparr>w_held := None\<rparr> else w1)
      in (w2, release_lease l lw1))"

text \<open>\<open>releaseHeldSessionLeases\<close>, for the one holding of this instance.\<close>

definition give_back :: "log_state \<Rightarrow> log_state" where
  "give_back st =
     (case w_held (fst st) of
        None \<Rightarrow> ((fst st)\<lparr>w_exiting := True\<rparr>, snd st)
      | Some l \<Rightarrow> ((fst st)\<lparr>w_exiting := True, w_held := None\<rparr>, release_lease l (snd st)))"

subsection \<open>Reads\<close>

definition active_turn_state :: "log_config \<Rightarrow> lease option \<Rightarrow> int option \<Rightarrow> (active_turn \<times> turn_activity) option log_step" where
  "active_turn_state cfg given now st =
     andThen (catch_up cfg st) (\<lambda>st1 _.
       (st1, Inr
         (case ts_active (w_turns (fst st1)) of
            None \<Rightarrow> None
          | Some a \<Rightarrow>
              if at_paused a then Some (a, TurnPausedState)
              else
                (let l = (case given of Some x \<Rightarrow> Some x | None \<Rightarrow> mem_current (lw_leases (snd st1)));
                     live = (given \<noteq> None \<or> is_lease_live l (case now of None \<Rightarrow> lw_now (snd st1) | Some n \<Rightarrow> n))
                 in Some (a, if live \<and> map_option lease_fence l = Some (at_owner a) then TurnRunning else TurnInterrupted)))))"

definition head :: "log_config \<Rightarrow> log_head option log_step" where
  "head cfg st =
     andThen (catch_up cfg st) (\<lambda>st1 _.
       (st1, Inr (map_option (\<lambda>p. \<lparr>lh_pointer = p, lh_gen = chain_gen (w_chain (fst st1)), lh_bytes = w_synced (fst st1)\<rparr>)
               (chain_head (w_chain (fst st1))))))"

text \<open>A strict read of the whole log, and the conversation it folds to.\<close>

definition strict_read :: "log_config \<Rightarrow> nat option \<Rightarrow> bytes \<Rightarrow> entry list \<times> (walk_error, read_summary) outcome" where
  "strict_read cfg bound file =
     walk_session_log (lc_codec cfg) (lc_chunked cfg)
       \<lparr>wo_strict = True, wo_after = None, wo_expect = None, wo_through = bound\<rparr> (Some (lc_session cfg)) file"

datatype read_error = ReadBroken walk_error | ReadFold fold_error

definition spill_reader :: "log_config \<Rightarrow> spill_disk \<Rightarrow> spill_ref \<Rightarrow> (fold_error, string) outcome" where
  "spill_reader cfg d ref =
     (case disk_spill_read (lc_codec cfg) ref None d of
        Inl e \<Rightarrow> Inl (SpillUnreadable (spill_path ref)) | Inr t \<Rightarrow> Inr t)"

definition messages :: "log_config \<Rightarrow> body_parser \<Rightarrow> nat option \<Rightarrow> world \<Rightarrow> (read_error, stored_message list) outcome" where
  "messages cfg bodies bound lw =
     (case strict_read cfg bound (lw_file lw) of
        (es, Inl e) \<Rightarrow> Inl (ReadBroken e)
      | (es, Inr sm) \<Rightarrow>
          map_sum ReadFold id
            (fold_session_messages (Some (spill_reader cfg (lw_spills lw))) bodies bound (map entry_record es)))"

end
