(* ===== verification/SessionLogProofs.thy ===== *)
theory SessionLogProofs
  imports SessionLogCore SessionChainProofs SessionFoldProperties
begin

text \<open>
  What an instance knows of the log: the bytes it has taken in are a verified log
  whose records the strict turn rules accept, and its chain and turns are those of
  these bytes. Catching up, writing a record and every operation keep that, for the
  instance that acts and for the others.
\<close>

subsection \<open>A verified log\<close>

definition lines_of :: "bytes \<Rightarrow> (bytes \<times> nat) list" where
  "lines_of data = fst (split_chunk (start_splitter 0) data)"

definition verified :: "log_config \<Rightarrow> bytes \<Rightarrow> entry list \<Rightarrow> chain \<Rightarrow> turn_state \<Rightarrow> bool" where
  "verified cfg data es ch ts \<longleftrightarrow>
     walk_lines (lc_codec cfg) None None start_chain False (lines_of data) = (es, Going ch False)
     \<and> sp_pending (snd (split_chunk (start_splitter 0) data)) = []
     \<and> foldE apply_strict start_turns (map entry_record es) = Inr ts
     \<and> (\<forall>e \<in> set es. rec_session (entry_record e) = lc_session cfg)
     \<and> (\<forall>l \<in> set (lines_of data). length (fst l) \<le> session_record_max_bytes)"

lemma verifiedD:
  assumes "verified cfg data es ch ts"
  shows "walk_lines (lc_codec cfg) None None start_chain False (lines_of data) = (es, Going ch False)"
    "sp_pending (snd (split_chunk (start_splitter 0) data)) = []"
    "foldE apply_strict start_turns (map entry_record es) = Inr ts"
    "\<And>e. e \<in> set es \<Longrightarrow> rec_session (entry_record e) = lc_session cfg"
    "\<And>l. l \<in> set (lines_of data) \<Longrightarrow> length (fst l) \<le> session_record_max_bytes"
  using assms by (auto simp: verified_def)

lemma lines_of_Nil [simp]: "lines_of [] = []"
  by (simp add: lines_of_def split_none index_of_None)

lemma verified_empty: "verified cfg [] [] start_chain start_turns"
  by (simp add: verified_def split_none index_of_None start_splitter_def)

lemma fresh_start: "fresh_chain start_chain"
  by (simp add: fresh_chain_def start_chain_def)

lemma verified_lines: "verified cfg data es ch ts \<Longrightarrow> concat (map fst (lines_of data)) = data"
  using split_bytes [of "start_splitter 0" data] by (simp add: verified_def lines_of_def start_splitter_def)

lemma verified_end:
  assumes "verified cfg data es ch ts"
  shows "chain_end ch = length data" "data = [] \<Longrightarrow> es = [] \<and> ch = start_chain \<and> ts = start_turns"
    "data \<noteq> [] \<Longrightarrow> chain_session ch = Some (lc_session cfg) \<and> es \<noteq> [] \<and> chain_head ch = Some (entry_pointer (last es))
       \<and> chain_gen ch = rec_gen (entry_record (last es))"
proof -
  note w = walk_is_chain [OF fresh_start verifiedD(1) [OF assms]]
  show "chain_end ch = length data" using w verified_lines [OF assms] by simp
  show "es = [] \<and> ch = start_chain \<and> ts = start_turns" if "data = []"
    using that verifiedD(1,3) [OF assms] by simp
  show "chain_session ch = Some (lc_session cfg) \<and> es \<noteq> [] \<and> chain_head ch = Some (entry_pointer (last es))
      \<and> chain_gen ch = rec_gen (entry_record (last es))" if "data \<noteq> []"
  proof -
    have "lines_of data \<noteq> []" using that verified_lines [OF assms] by auto
    moreover have "length es = length (lines_of data)" using w by (simp add: is_chain_def)
    ultimately have "es \<noteq> []" by auto
    then show ?thesis using w verifiedD(4) [OF assms, of "last es"] \<open>lines_of data \<noteq> []\<close> by simp
  qed
qed

lemma verified_unique: "verified cfg data es ch ts \<Longrightarrow> verified cfg data es' ch' ts' \<Longrightarrow> es' = es \<and> ch' = ch \<and> ts' = ts"
  by (auto simp: verified_def)

lemma split_offset:
  "sp_offset (snd (split_chunk sp a)) + length (sp_pending (snd (split_chunk sp a)))
   = sp_offset sp + length (sp_pending sp) + length a"
proof (induction sp a rule: split_chunk.induct)
  case (1 sp a)
  show ?case
  proof (cases "index_of newline a")
    case (Some n)
    then have "n < length a" using index_of_Some [OF Some] by simp
    with "1.IH" [OF Some refl] show ?thesis
      unfolding split_some [OF Some] by (simp add: min_absorb2 Suc_le_eq)
  qed (simp add: split_none)
qed

lemma split_after:
  assumes "sp_pending (snd (split_chunk (start_splitter 0) a)) = []"
  shows "snd (split_chunk (start_splitter 0) a) = start_splitter (length a)"
  using split_offset [of "start_splitter 0" a] assms
  by (cases "snd (split_chunk (start_splitter 0) a)") (simp add: start_splitter_def)

lemma lines_of_append:
  assumes "sp_pending (snd (split_chunk (start_splitter 0) a)) = []"
  shows "lines_of (a @ b) = lines_of a @ fst (split_chunk (start_splitter (length a)) b)"
    "snd (split_chunk (start_splitter 0) (a @ b)) = snd (split_chunk (start_splitter (length a)) b)"
  using split_append [of "start_splitter 0" a b] split_after [OF assms] by (simp_all add: lines_of_def)

lemma one_line:
  assumes "newline \<notin> set xs"
  shows "split_chunk (start_splitter n) (xs @ [newline])
    = ([(xs @ [newline], n)], start_splitter (n + length xs + 1))"
proof -
  have i: "index_of newline (xs @ [newline]) = Some (length xs)" using assms by (rule index_of_end)
  show ?thesis by (subst split_some [OF i]) (simp add: start_splitter_def split_none index_of_None)
qed

text \<open>One ext line that the chain and the turn rules accept.\<close>

lemma verified_snoc:
  assumes v: "verified cfg data es ch ts" and line: "newline \<notin> set xs" "length (xs @ [newline]) \<le> session_record_max_bytes"
    and acc: "chain_accept (lc_codec cfg) ch (xs @ [newline]) (length data) = Inr (ch', en)"
    and turn: "apply_strict ts (entry_record en) = Inr ts'" and session: "rec_session (entry_record en) = lc_session cfg"
  shows "verified cfg (data @ xs @ [newline]) (es @ [en]) ch' ts'"
proof -
  note app = lines_of_append [OF verifiedD(2) [OF v], of "xs @ [newline]", unfolded one_line [OF line(1)]]
  have "walk_lines (lc_codec cfg) None None start_chain False (lines_of (data @ xs @ [newline]))
      = (es @ [en], Going ch' False)"
    using verifiedD(1) [OF v] acc by (simp add: app walk_lines_append names_seq_def reaches_def)
  then show ?thesis
    using verifiedD(2-5) [OF v] app(2) line(2) turn session
    unfolding verified_def app by (auto simp: foldE_append start_splitter_def)
qed

subsection \<open>Catching up\<close>

lemma foldE_apply_turn: "foldE apply_strict ts rs = Inr ts' \<Longrightarrow> ts' = fold apply_turn rs ts"
  by (induction rs arbitrary: ts) (auto simp: apply_strict_def bindE_Inr_iff)

lemma apply_lines_walk:
  "walk_lines c None None (w_chain w) False ls = (es, Going ch False) \<Longrightarrow>
   \<forall>e \<in> set es. rec_session (entry_record e) = session \<Longrightarrow>
   (ls \<noteq> [] \<Longrightarrow> chain_session (w_chain w) \<in> {None, Some session}) \<Longrightarrow>
   apply_lines c session ls w =
     (w\<lparr>w_chain := ch, w_turns := fold apply_turn (map entry_record es) (w_turns w),
        w_synced := (if ls = [] then w_synced w else snd (last ls) + length (fst (last ls)))\<rparr>, Inr ())"
proof (induction ls arbitrary: w es)
  case (Cons l ls)
  obtain line offset where l: "l = (line, offset)" by (cases l)
  obtain ch1 en where acc: "chain_accept c (w_chain w) line offset = Inr (ch1, en)"
    using Cons.prems(1) by (auto simp: l split: sum.splits)
  obtain es1 where es: "es = en # es1" and rest: "walk_lines c None None ch1 False ls = (es1, Going ch False)"
    using Cons.prems(1) by (cases "walk_lines c None None ch1 False ls")
      (auto simp: l acc names_seq_def reaches_def Let_def)
  have s: "chain_session ch1 = Some session"
    by (rule acceptD [OF acc]) (use Cons.prems(2) in \<open>simp add: es\<close>)
  show ?case
    using Cons.IH [of "w\<lparr>w_chain := ch1, w_turns := apply_turn (entry_record en) (w_turns w), w_synced := offset + length line\<rparr>" es1]
      rest Cons.prems(2) s
    by (simp add: l acc es)
qed simp

lemma apply_chunks_short:
  "short_lines sp (concat chunks) \<Longrightarrow> apply_lines c session (fst (split_chunk sp (concat chunks))) w = (w', Inr ()) \<Longrightarrow>
   apply_chunks c session sp chunks w = (w', Inr (length (sp_pending (snd (split_chunk sp (concat chunks))))))"
proof (induction chunks arbitrary: sp w)
  case Nil
  then show ?case by (simp add: split_none index_of_None)
next
  case (Cons chunk chunks)
  have append: "apply_lines c session (xs @ ys) w = (w', Inr ()) \<longleftrightarrow>
      (\<exists>w1. apply_lines c session xs w = (w1, Inr ()) \<and> apply_lines c session ys w1 = (w', Inr ()))" for xs ys w
    by (induction xs arbitrary: w) (auto split: sum.splits if_splits)
  let ?sp = "snd (split_chunk sp chunk)"
  obtain w1 where w1: "apply_lines c session (fst (split_chunk sp chunk)) w = (w1, Inr ())"
    and rest: "apply_lines c session (fst (split_chunk ?sp (concat chunks))) w1 = (w', Inr ())"
    using Cons.prems(2) by (auto simp: split_append append)
  show ?case
    using Cons.IH [OF short_rest [of sp chunk "concat chunks"] rest] Cons.prems(1) w1
      short_push [of sp chunk "concat chunks"]
    by (simp add: split_append)
qed

lemma last_line_end:
  assumes v: "verified cfg data es ch ts" and ne: "lines_of data \<noteq> []"
  shows "snd (last (lines_of data)) + length (fst (last (lines_of data))) = length data"
proof -
  obtain ls line off where ls: "lines_of data = ls @ [(line, off)]" using ne by (cases "lines_of data" rule: rev_cases) auto
  from going_snoc [OF verifiedD(1) [OF v, unfolded ls]] obtain es2 ch2 e where
    "chain_accept (lc_codec cfg) ch2 line off = Inr (ch, e)" by metis
  then have "off + length line = chain_end ch" by (rule acceptD) (simp add: chain_end_def)
  then show ?thesis using verified_end(1) [OF v] by (simp add: ls)
qed

text \<open>What an instance has taken in is a verified beginning of the log, and nothing waits.\<close>

definition instance_ok :: "log_config \<Rightarrow> bytes \<Rightarrow> writer \<Rightarrow> bool" where
  "instance_ok cfg data w \<longleftrightarrow> w_pending w = [] \<and> w_torn w = 0 \<and>
     (\<exists>pre suf es. data = pre @ suf \<and> w_synced w = length pre \<and> verified cfg pre es (w_chain w) (w_turns w))"

lemma instance_ok_append: "instance_ok cfg data w \<Longrightarrow> instance_ok cfg (data @ ext) w"
  by (fastforce simp: instance_ok_def)

lemma new_writer_ok: "instance_ok cfg data new_writer"
  using verified_empty [of cfg] by (auto simp: instance_ok_def new_writer_def)

definition cuts_whole :: "log_config \<Rightarrow> bool" where
  "cuts_whole cfg \<longleftrightarrow> (\<forall>b. concat (lc_chunked cfg b) = b)"

lemma catch_up_ok:
  assumes v: "verified cfg data es ch ts" and w: "instance_ok cfg data w" and cuts: "cuts_whole cfg"
  shows "catch_up_with cfg data w = (w\<lparr>w_chain := ch, w_turns := ts, w_synced := length data\<rparr>, Inr ())"
proof -
  obtain pre suf es0 where data: "data = pre @ suf" and n: "w_synced w = length pre"
    and v0: "verified cfg pre es0 (w_chain w) (w_turns w)" and rest: "w_pending w = []" "w_torn w = 0"
    using w by (auto simp: instance_ok_def)
  show ?thesis
  proof (cases "suf = []")
    case True
    then have "ch = w_chain w" "ts = w_turns w" using verified_unique [of cfg data] v v0 data by auto
    then show ?thesis using True n rest data by (simp add: catch_up_with_def)
  next
    case False
    let ?ls = "fst (split_chunk (start_splitter (length pre)) suf)"
    note app = lines_of_append [OF verifiedD(2) [OF v0], of suf]
    have end_file: "sp_pending (snd (split_chunk (start_splitter (length pre)) suf)) = []"
      using verifiedD(2) [OF v] by (simp add: data app(2))
    obtain es1 where es: "es = es0 @ es1" and walk: "walk_lines (lc_codec cfg) None None (w_chain w) False ?ls = (es1, Going ch False)"
      using verifiedD(1) [OF v] verifiedD(1) [OF v0]
      by (cases "walk_lines (lc_codec cfg) None None (w_chain w) False ?ls") (auto simp: data app(1) walk_lines_append)
    have short: "short_lines (start_splitter (length pre)) suf"
      using verifiedD(5) [OF v] end_file by (auto simp: short_lines_def data app(1))
    have "concat (map fst ?ls) = suf"
      using split_bytes [of "start_splitter (length pre)" suf] end_file by (simp add: start_splitter_def)
    with False have ne: "?ls \<noteq> []" by auto
    have ts: "ts = fold apply_turn (map entry_record es1) (w_turns w)"
      using verifiedD(3) [OF v] verifiedD(3) [OF v0] by (auto simp: es foldE_append dest: foldE_apply_turn)
    have sess: "chain_session (w_chain w) \<in> {None, Some (lc_session cfg)}"
      using verified_end(2,3) [OF v0] by (cases "pre = []") (auto simp: start_chain_def)
    have "lines_of data \<noteq> []" "last (lines_of data) = last ?ls" using ne by (simp_all add: data app(1))
    with last_line_end [OF v] have synced: "snd (last ?ls) + length (fst (last ?ls)) = length data" by metis
    have lines: "apply_lines (lc_codec cfg) (lc_session cfg) ?ls w
        = (w\<lparr>w_chain := ch, w_turns := ts, w_synced := length data\<rparr>, Inr ())"
    proof -
      have "apply_lines (lc_codec cfg) (lc_session cfg) ?ls w
          = (w\<lparr>w_chain := ch, w_turns := fold apply_turn (map entry_record es1) (w_turns w),
               w_synced := (if ?ls = [] then w_synced w else snd (last ?ls) + length (fst (last ?ls)))\<rparr>, Inr ())"
      proof (rule apply_lines_walk [OF walk])
        show "\<forall>e \<in> set es1. rec_session (entry_record e) = lc_session cfg"
          using verifiedD(4) [OF v] es by simp
      qed (rule sess)
      then show ?thesis by (simp only: ne if_False synced ts)
    qed
    have cut: "concat (lc_chunked cfg suf) = suf" using cuts by (simp add: cuts_whole_def)
    have "apply_chunks (lc_codec cfg) (lc_session cfg) (start_splitter (length pre)) (lc_chunked cfg suf) w
        = (w\<lparr>w_chain := ch, w_turns := ts, w_synced := length data\<rparr>, Inr 0)"
      using apply_chunks_short [of "start_splitter (length pre)" "lc_chunked cfg suf"] short lines end_file
      unfolding cut by simp
    then show ?thesis using rest n False by (simp add: catch_up_with_def data)
  qed
qed

subsection \<open>Writing a record\<close>

text \<open>What is used of the codec: a record the schema accepts reads back, and its text is one line.\<close>

definition codec_ok :: "log_config \<Rightarrow> bool" where
  "codec_ok cfg \<longleftrightarrow> (\<forall>r. schema (lc_codec cfg) r \<longrightarrow> writes_back (lc_codec cfg) r)"

text \<open>The spill step leaves the log alone.\<close>

definition same_log :: "world \<Rightarrow> world \<Rightarrow> bool" where
  "same_log lw lw' \<longleftrightarrow> lw_file lw' = lw_file lw \<and> lw_leases lw' = lw_leases lw \<and> lw_faults lw' = lw_faults lw
     \<and> lw_now lw' = lw_now lw"

lemma same_log_refl [simp]: "same_log lw lw" and same_log_trans: "same_log a b \<Longrightarrow> same_log b d \<Longrightarrow> same_log a d"
  by (simp_all add: same_log_def)

lemma andThen_same:
  assumes "andThen m f = (lw', r)" and "same_log lw (fst m)"
    and "\<And>lw1 x lw2 q. f lw1 x = (lw2, q) \<Longrightarrow> same_log lw1 lw2"
  shows "same_log lw lw'"
proof (cases "snd m")
  case (Inl e)
  then show ?thesis using assms(1,2) by (cases m) simp
next
  case (Inr x)
  then have "f (fst m) x = (lw', r)" using assms(1) by (cases m) simp
  then show ?thesis using assms(2,3) same_log_trans by blast
qed

lemma write_spill_same: "same_log lw (fst (write_spill cfg key content lw))"
  by (auto simp: write_spill_def next_spill_fault_def same_log_def split: prod.splits list.splits)

lemma spill_or_lose_same: "same_log lw (fst (spill_or_lose cfg key content lw))"
  using write_spill_same [of lw cfg key content]
  by (auto simp: spill_or_lose_def split: prod.splits sum.splits)

lemma spill_inputs_same: "spill_inputs cfg r ty order bodies inputs lw = (lw', res) \<Longrightarrow> same_log lw lw'"
proof (induction order arbitrary: inputs lw lw' res)
  case (Cons i order)
  show ?case
    by (rule andThen_same [OF Cons.prems [unfolded spill_inputs.simps(2)] write_spill_same])
      (auto simp: Let_def intro: Cons.IH split: if_splits)
qed simp

lemma spill_same:
  assumes "spill_if_large cfg r lw = (lw', res)"
  shows "same_log lw lw'"
proof -
  have end_same: "\<And>lw1 x lw2 q. (lw1, h x) = (lw2, q) \<Longrightarrow> same_log lw1 lw2" for h :: "'h \<Rightarrow> (log_error, session_record) outcome"
    by simp
  show ?thesis
  proof (cases "rec_payload r")
    case (OtherRecord ty inputs)
    then show ?thesis
      using assms by (auto simp: spill_if_large_def spill_tool_inputs_def Let_def split: if_splits
          elim!: andThen_same [OF _ _ end_same] intro: spill_inputs_same prod.collapse [symmetric])
  next
    case (CompactionRecord cid to_seq kept pinned summary)
    then show ?thesis
      using assms by (auto simp: spill_if_large_def Let_def split: if_splits summary.splits
          elim!: andThen_same [OF _ write_spill_same end_same])
  qed (use assms in \<open>auto simp: spill_if_large_def Let_def split: if_splits
        elim!: andThen_same [OF _ spill_or_lose_same end_same]\<close>)
qed

lemma spill_payload:
  assumes "spill_if_large cfg r lw = (lw', Inr r')"
  shows "\<exists>p. r' = r\<lparr>rec_payload := p\<rparr>"
proof -
  have "\<exists>p. r = r\<lparr>rec_payload := p\<rparr>" by (rule exI [of _ "rec_payload r"]) simp
  then show ?thesis
    using assms unfolding spill_if_large_def Let_def
    by (cases "rec_payload r")
      (auto simp: spill_tool_inputs_def Let_def andThen_Inr_iff split: if_splits summary.splits)
qed

text \<open>An instance level with a log whose medium works.\<close>

definition caught_up :: "log_config \<Rightarrow> entry list \<Rightarrow> log_state \<Rightarrow> bool" where
  "caught_up cfg es st \<longleftrightarrow> verified cfg (lw_file (snd st)) es (w_chain (fst st)) (w_turns (fst st))
     \<and> w_synced (fst st) = length (lw_file (snd st)) \<and> w_pending (fst st) = [] \<and> w_torn (fst st) = 0
     \<and> lw_faults (snd st) = []"

lemma check_first:
  assumes "check_turn start_turns turn p = Inr u"
  shows "p = SessionStarted"
  using assms by (auto simp: check_turn_def start_turns_def bindE_Inr_iff split: if_splits)

lemma accept_next:
  assumes v: "verified cfg data es ch ts" and wb: "writes_back (lc_codec cfg) r"
    and fmt: "format_line (lc_codec cfg) r = Inr line" and turn: "check_turn ts (rec_turn r) (rec_payload r) = Inr u"
    and r: "rec_session r = lc_session cfg" "rec_seq r = head_seq ch + 1" "rec_prev r = chain_head ch"
      "rec_prev_text r = None" "chain_gen ch \<le> rec_gen r"
  obtains ch' where "chain_accept (lc_codec cfg) ch line (length data)
      = Inr (ch', \<lparr>entry_record = r, entry_pointer = \<lparr>ptr_seq = rec_seq r, ptr_offset = length data,
           ptr_length = length line, ptr_sha = sha256 (lc_codec cfg) line\<rparr>\<rparr>)"
    "verified cfg (data @ line) (es @ [\<lparr>entry_record = r, entry_pointer = \<lparr>ptr_seq = rec_seq r, ptr_offset = length data,
           ptr_length = length line, ptr_sha = sha256 (lc_codec cfg) line\<rparr>\<rparr>]) ch' (apply_turn r ts)"
proof -
  let ?c = "lc_codec cfg"
  have line: "line = encode ?c r @ [newline]" and short: "length line \<le> session_record_max_bytes"
    and nl: "newline \<notin> set (encode ?c r)" and dec: "decode ?c (encode ?c r) = Inr r"
    using fmt wb by (auto simp: format_line_def writes_back_def Let_def split: if_splits)
  have parse: "parse_line ?c line = Inr \<lparr>pl_record = r, pl_length = length line, pl_sha = sha256 ?c line\<rparr>"
    using short dec index_of_end [OF nl] by (simp add: parse_line_def line)
  have "ch = start_chain \<and> ts = start_turns \<or> chain_session ch = Some (lc_session cfg) \<and> chain_head ch \<noteq> None"
    using verified_end(2,3) [OF v] by (cases "data = []") auto
  moreover have "rec_payload r = SessionStarted" if "ts = start_turns" using turn that check_first by simp
  ultimately obtain ch' where acc: "chain_accept ?c ch line (length data)
      = Inr (ch', \<lparr>entry_record = r, entry_pointer = \<lparr>ptr_seq = rec_seq r, ptr_offset = length data,
           ptr_length = length line, ptr_sha = sha256 ?c line\<rparr>\<rparr>)"
    using r verified_end(1) [OF v]
    by (auto simp: chain_accept_def parse Let_def text_link_ok_def start_chain_def head_seq_def chain_end_def
        split: option.splits)
  have "apply_strict ts r = Inr (apply_turn r ts)" using turn by (simp add: apply_strict_def)
  then have "verified cfg (data @ line) (es @ [\<lparr>entry_record = r, entry_pointer = \<lparr>ptr_seq = rec_seq r,
      ptr_offset = length data, ptr_length = length line, ptr_sha = sha256 ?c line\<rparr>\<rparr>]) ch' (apply_turn r ts)"
    unfolding line using acc short r(1) by (intro verified_snoc [OF v nl]) (simp_all add: line)
  with acc show ?thesis by (rule that)
qed

lemma write_ok:
  assumes cu: "caught_up cfg es st" and codec: "codec_ok cfg" and run: "write_record cfg l dr st = (st', res)"
  shows "lw_leases (snd st') = lw_leases (snd st)"
    and "res = Inl e \<Longrightarrow> caught_up cfg es st' \<and> lw_file (snd st') = lw_file (snd st)"
    and "res = Inr en \<Longrightarrow> caught_up cfg (es @ [en]) st' \<and> (\<exists>line. lw_file (snd st') = lw_file (snd st) @ line)
      \<and> rec_turn (entry_record en) = dr_turn dr \<and> rec_gen (entry_record en) = lease_fence l"
proof -
  let ?w = "fst st" and ?lw = "snd st"
  have v: "verified cfg (lw_file ?lw) es (w_chain ?w) (w_turns ?w)" and rest: "w_synced ?w = length (lw_file ?lw)"
    "w_pending ?w = []" "w_torn ?w = 0" "lw_faults ?lw = []"
    using cu by (simp_all add: caught_up_def)
  have "lw_leases (snd st') = lw_leases ?lw
    \<and> (\<forall>e. res = Inl e \<longrightarrow> caught_up cfg es st' \<and> lw_file (snd st') = lw_file ?lw)
    \<and> (\<forall>en. res = Inr en \<longrightarrow> caught_up cfg (es @ [en]) st' \<and> (\<exists>line. lw_file (snd st') = lw_file ?lw @ line)
      \<and> rec_turn (entry_record en) = dr_turn dr \<and> rec_gen (entry_record en) = lease_fence l)"
  proof (cases "lease_fence l < chain_gen (w_chain ?w)")
    case True
    then show ?thesis using run cu by (auto simp: write_record_def)
  next
    case False
    obtain lw1 spilled where sp: "spill_if_large cfg (enveloped cfg l dr st) (?lw\<lparr>lw_ids := lw_ids ?lw + 1\<rparr>) = (lw1, spilled)"
      by (cases "spill_if_large cfg (enveloped cfg l dr st) (?lw\<lparr>lw_ids := lw_ids ?lw + 1\<rparr>)")
    have same: "lw_file lw1 = lw_file ?lw" "lw_leases lw1 = lw_leases ?lw" "lw_faults lw1 = []"
      using spill_same [OF sp] rest by (simp_all add: same_log_def)
    have cu1: "caught_up cfg es (?w, lw1)" using cu same by (simp add: caught_up_def)
    have run1: "(case spilled of Inl e \<Rightarrow> ((?w, lw1), Inl e) | Inr r \<Rightarrow> write_checked cfg r (?w, lw1)) = (st', res)"
      using run False sp by (auto simp: write_record_def split: sum.splits)
    show ?thesis
    proof (cases "\<exists>r u line. spilled = Inr r \<and> schema (lc_codec cfg) r
        \<and> check_turn (w_turns ?w) (rec_turn r) (rec_payload r) = Inr u \<and> format_line (lc_codec cfg) r = Inr line")
      case True
      then obtain r u line where r: "spilled = Inr r" "schema (lc_codec cfg) r"
        and turn: "check_turn (w_turns ?w) (rec_turn r) (rec_payload r) = Inr u"
        and fmt: "format_line (lc_codec cfg) r = Inr line" by blast
      obtain p where p: "r = (enveloped cfg l dr st)\<lparr>rec_payload := p\<rparr>" using spill_payload sp r(1) by blast
      have env: "rec_session r = lc_session cfg" "rec_seq r = head_seq (w_chain ?w) + 1" "rec_prev r = chain_head (w_chain ?w)"
        "rec_prev_text r = None" "chain_gen (w_chain ?w) \<le> rec_gen r" "rec_turn r = dr_turn dr" "rec_gen r = lease_fence l"
        using False by (simp_all add: p enveloped_def)
      have wb: "writes_back (lc_codec cfg) r" using codec r(2) by (simp add: codec_ok_def)
      let ?en = "\<lparr>entry_record = r, entry_pointer = \<lparr>ptr_seq = rec_seq r, ptr_offset = length (lw_file ?lw),
           ptr_length = length line, ptr_sha = sha256 (lc_codec cfg) line\<rparr>\<rparr>"
      obtain ch' where acc: "chain_accept (lc_codec cfg) (w_chain ?w) line (length (lw_file ?lw)) = Inr (ch', ?en)"
        and v': "verified cfg (lw_file ?lw @ line) (es @ [?en]) ch' (apply_turn r (w_turns ?w))"
        by (rule accept_next [OF v wb fmt turn env(1-5)])
      have "persist cfg line (syncs cfg (rec_payload r)) (?w, lw1) = ((?w, lw1\<lparr>lw_file := lw_file ?lw @ line\<rparr>), Inr ())"
        using rest same by (simp add: persist_def medium_append_def next_fault_def landed_def)
      then have "st' = (?w\<lparr>w_chain := ch', w_turns := apply_turn r (w_turns ?w), w_synced := length (lw_file ?lw) + length line\<rparr>,
          lw1\<lparr>lw_file := lw_file ?lw @ line\<rparr>)" and "res = Inr ?en"
        using run1 r turn fmt acc rest(1) by (simp_all add: accept_written_def write_checked_def)
      then show ?thesis using v' rest same env by (simp add: caught_up_def)
    next
      case none: False
      then have "st' = (?w, lw1) \<and> (\<exists>e. res = Inl e)"
        using run1 by (auto simp: write_checked_def split: sum.splits if_splits)
      then show ?thesis using cu1 same by auto
    qed
  qed
  then show "lw_leases (snd st') = lw_leases (snd st)"
    and "res = Inl e \<Longrightarrow> caught_up cfg es st' \<and> lw_file (snd st') = lw_file (snd st)"
    and "res = Inr en \<Longrightarrow> caught_up cfg (es @ [en]) st' \<and> (\<exists>line. lw_file (snd st') = lw_file (snd st) @ line)
      \<and> rec_turn (entry_record en) = dr_turn dr \<and> rec_gen (entry_record en) = lease_fence l" by simp_all
qed

text \<open>A repair is written as it is: nothing of it is spilled.\<close>

lemma repair_written:
  assumes "write_record cfg l \<lparr>dr_turn = turn, dr_payload = LogRepaired n k\<rparr> st = (st', Inr en)"
    and "codec_ok cfg" and "caught_up cfg es st"
  shows "rec_payload (entry_record en) = LogRepaired n k"
proof -
  let ?dr = "\<lparr>dr_turn = turn, dr_payload = LogRepaired n k\<rparr>"
  let ?lw = "(snd st)\<lparr>lw_ids := lw_ids (snd st) + 1\<rparr>"
  have "spill_if_large cfg (enveloped cfg l ?dr st) ?lw = (?lw, Inr (enveloped cfg l ?dr st))"
    by (simp add: spill_if_large_def enveloped_def Let_def)
  then have "write_checked cfg (enveloped cfg l ?dr st) (fst st, ?lw) = (st', Inr en)"
    using assms(1) by (simp add: write_record_def split: if_splits)
  then obtain line st2 where "format_line (lc_codec cfg) (enveloped cfg l ?dr st) = Inr line"
    and "schema (lc_codec cfg) (enveloped cfg l ?dr st)" and acc: "accept_written cfg line st2 = (st', Inr en)"
    by (auto simp: write_checked_def andThen_Inr_iff split: if_splits sum.splits)
  then have parse: "parse_line (lc_codec cfg) line
      = Inr \<lparr>pl_record = enveloped cfg l ?dr st, pl_length = length line, pl_sha = sha256 (lc_codec cfg) line\<rparr>"
    using assms(2) index_of_end by (auto simp: codec_ok_def writes_back_def format_line_def parse_line_def Let_def split: if_splits)
  obtain ch where "chain_accept (lc_codec cfg) (w_chain (fst st2)) line (w_synced (fst st2)) = Inr (ch, en)"
    using acc by (auto simp: accept_written_def split: sum.splits)
  then have "entry_record en = enveloped cfg l ?dr st" by (rule acceptD) (auto simp: parse)
  then show ?thesis by (simp add: enveloped_def)
qed

subsection \<open>Operations\<close>

text \<open>A step that ends level with a log that only grew.\<close>

definition level :: "log_config \<Rightarrow> log_state \<Rightarrow> bool" where
  "level cfg st \<longleftrightarrow> (\<exists>es. caught_up cfg es st)"

definition grown :: "world \<Rightarrow> world \<Rightarrow> bool" where
  "grown lw lw' \<longleftrightarrow> (\<exists>ext. lw_file lw' = lw_file lw @ ext)"

lemma grown_refl [simp]: "grown lw lw" and grown_trans: "grown a b \<Longrightarrow> grown b d \<Longrightarrow> grown a d"
  by (auto simp: grown_def)

definition ends_level :: "log_config \<Rightarrow> world \<Rightarrow> (log_state, log_error, 'a) step_result \<Rightarrow> bool" where
  "ends_level cfg lw m \<longleftrightarrow> level cfg (fst m) \<and> grown lw (snd (fst m))"

lemma ends_level_return [simp]: "ends_level cfg lw (st, r) \<longleftrightarrow> level cfg st \<and> grown lw (snd st)"
  by (simp add: ends_level_def)

lemma ends_level_andThen:
  "ends_level cfg lw m \<Longrightarrow> (\<And>st x. level cfg st \<Longrightarrow> grown lw (snd st) \<Longrightarrow> ends_level cfg lw (f st x))
    \<Longrightarrow> ends_level cfg lw (andThen m f)"
  by (cases m rule: prod.exhaust, rename_tac a b, case_tac b) (auto simp: ends_level_def)

lemma write_level:
  assumes "codec_ok cfg" and "level cfg st" and "grown lw (snd st)"
  shows "ends_level cfg lw (write_record cfg l dr st)"
proof -
  obtain es where cu: "caught_up cfg es st" using assms(2) by (auto simp: level_def)
  obtain st' res where run: "write_record cfg l dr st = (st', res)" by (cases "write_record cfg l dr st")
  have "level cfg st' \<and> grown (snd st) (snd st')"
    using write_ok(2,3) [OF cu assms(1) run] by (cases res) (auto simp: level_def grown_def)
  then show ?thesis using run grown_trans [OF assms(3)] by simp
qed

lemma heal_level: "level cfg st \<Longrightarrow> heal cfg l st = (st, Inr ())"
  by (auto simp: level_def caught_up_def heal_def)

text \<open>A log that can be taken up by an instance.\<close>

definition log_good :: "log_config \<Rightarrow> log_state \<Rightarrow> bool" where
  "log_good cfg st \<longleftrightarrow> (\<exists>es ch ts. verified cfg (lw_file (snd st)) es ch ts) \<and> lw_faults (snd st) = []
     \<and> instance_ok cfg (lw_file (snd st)) (fst st)"

lemma level_good:
  assumes "level cfg st"
  shows "log_good cfg st"
proof -
  obtain es where cu: "caught_up cfg es st" using assms by (auto simp: level_def)
  have "instance_ok cfg (lw_file (snd st)) (fst st)"
    unfolding instance_ok_def using cu
    by (intro conjI exI [of _ "lw_file (snd st)"] exI [of _ "[]"] exI [of _ es]) (simp_all add: caught_up_def)
  then show ?thesis using cu by (auto simp: log_good_def caught_up_def)
qed

lemma catch_up_level:
  assumes "log_good cfg st" and "cuts_whole cfg"
  shows "\<exists>w. catch_up cfg st = ((w, snd st), Inr ()) \<and> level cfg (w, snd st) \<and> w_held w = w_held (fst st)
    \<and> w_exiting w = w_exiting (fst st)"
proof -
  obtain es ch ts where v: "verified cfg (lw_file (snd st)) es ch ts" and w: "instance_ok cfg (lw_file (snd st)) (fst st)"
    and f: "lw_faults (snd st) = []"
    using assms(1) by (auto simp: log_good_def)
  let ?w = "(fst st)\<lparr>w_chain := ch, w_turns := ts, w_synced := length (lw_file (snd st))\<rparr>"
  have "catch_up cfg st = ((?w, snd st), Inr ())" by (simp add: catch_up_def catch_up_ok [OF v w assms(2)])
  moreover have "w_pending (fst st) = []" "w_torn (fst st) = 0" using w by (simp_all add: instance_ok_def)
  then have "caught_up cfg es (?w, snd st)" using v f by (simp add: caught_up_def)
  then have "level cfg (?w, snd st)" by (auto simp: level_def)
  ultimately show ?thesis by (intro exI [of _ ?w]) simp
qed

lemma ready_good:
  assumes "log_good cfg st" and "cuts_whole cfg"
  shows "(\<exists>e. ready cfg l st = (st, Inl e)) \<or> (\<exists>st'. ready cfg l st = (st', Inr ()) \<and> level cfg st' \<and> snd st' = snd st)"
proof (cases "lease_fence l = mem_fence (lw_leases (snd st))")
  case True
  obtain w where "catch_up cfg st = ((w, snd st), Inr ())" and l: "level cfg (w, snd st)"
    using catch_up_level [OF assms] by blast
  then have "ready cfg l st = ((w, snd st), Inr ())"
    using True heal_level [OF l] by (simp add: ready_def require_current_def)
  then show ?thesis using l by auto
qed (simp add: ready_def require_current_def)

lemma ready_then:
  assumes "log_good cfg st" and "cuts_whole cfg"
    and "andThen (ready cfg l st) f = (st2, r)"
    and f: "\<And>st' x. level cfg st' \<Longrightarrow> grown (snd st) (snd st') \<Longrightarrow> ends_level cfg (snd st) (f st' x)"
  shows "log_good cfg st2 \<and> grown (snd st) (snd st2)"
proof (cases "\<exists>e. ready cfg l st = (st, Inl e)")
  case True
  then have "st2 = st" using assms(3) by auto
  then show ?thesis using assms(1) by simp
next
  case False
  then obtain st' where "ready cfg l st = (st', Inr ())" and l: "level cfg st'" "snd st' = snd st"
    using ready_good [OF assms(1,2), of l] by blast
  then have "ends_level cfg (snd st) (st2, r)" using f [OF l(1), of "()"] assms(3) by simp
  then show ?thesis using level_good by simp
qed

lemma append_good:
  assumes "log_good cfg st" "cuts_whole cfg" "codec_ok cfg" "append cfg l dr st = (st', r)"
  shows "log_good cfg st' \<and> grown (snd st) (snd st')"
  using assms(4) unfolding append_def
  by (rule ready_then [OF assms(1,2)]) (auto intro: write_level [OF assms(3)] split: sum.splits)

lemma begin_good:
  assumes "log_good cfg st" "cuts_whole cfg" "codec_ok cfg" "begin_turn cfg l turn body ab st = (st', r)"
  shows "log_good cfg st' \<and> grown (snd st) (snd st')"
  using assms(4) unfolding begin_turn_def
  by (rule ready_then [OF assms(1,2)])
    (auto intro!: ends_level_andThen write_level [OF assms(3)] split: option.splits)

lemma abandon_good:
  assumes "log_good cfg st" "cuts_whole cfg" "codec_ok cfg" "abandon_turn cfg l turn wd st = (st', r)"
  shows "log_good cfg st' \<and> grown (snd st) (snd st')"
  using assms(4) unfolding abandon_turn_def
  by (rule ready_then [OF assms(1,2)]) (auto intro: write_level [OF assms(3)] split: option.splits)

lemma good_leases [simp]: "log_good cfg (w, lw\<lparr>lw_leases := x\<rparr>) = log_good cfg (w, lw)"
  "log_good cfg (w\<lparr>w_held := h\<rparr>, lw) = log_good cfg (w, lw)" "log_good cfg (w\<lparr>w_exiting := b\<rparr>, lw) = log_good cfg (w, lw)"
  "log_good cfg (w, lw\<lparr>lw_now := t\<rparr>) = log_good cfg (w, lw)"
  by (simp_all add: log_good_def instance_ok_def)

lemma claim_good:
  assumes good: "log_good cfg st" and cuts: "cuts_whole cfg" and run: "claim cfg opts repair st = (st', r)"
  shows "log_good cfg st' \<and> lw_file (snd st') = lw_file (snd st)"
proof (cases "w_exiting (fst st)")
  case False
  obtain w1 where c1: "catch_up cfg st = ((w1, snd st), Inr ())" and l1: "level cfg (w1, snd st)"
    using catch_up_level [OF good cuts] by blast
  obtain leases taken where cl: "mem_claim opts \<lparr>ctx_renew = w_held w1, ctx_above = chain_gen (w_chain w1)\<rparr> (lw_leases (snd st))
      = (leases, taken)"
    by (cases "mem_claim opts \<lparr>ctx_renew = w_held w1, ctx_above = chain_gen (w_chain w1)\<rparr> (lw_leases (snd st))")
  show ?thesis
  proof (cases taken)
    case None
    then show ?thesis using run False c1 cl level_good [OF l1] by (auto simp: claim_def)
  next
    case (Some l)
    have "log_good cfg (w1\<lparr>w_held := Some l\<rparr>, snd st\<lparr>lw_leases := leases\<rparr>)" using level_good [OF l1] by simp
    from catch_up_level [OF this cuts] obtain w2 where
      c2: "catch_up cfg (w1\<lparr>w_held := Some l\<rparr>, snd st\<lparr>lw_leases := leases\<rparr>) = ((w2, snd st\<lparr>lw_leases := leases\<rparr>), Inr ())"
      and l2: "level cfg (w2, snd st\<lparr>lw_leases := leases\<rparr>)" by auto
    then show ?thesis
      using run False c1 cl Some heal_level [OF l2] level_good [OF l2]
      by (cases repair) (auto simp: claim_def)
  qed
qed (use run good in \<open>auto simp: claim_def\<close>)

lemma release_good: "log_good cfg st \<Longrightarrow> log_good cfg (release l st) \<and> lw_file (snd (release l st)) = lw_file (snd st)"
  by (cases st) (auto simp: release_def release_lease_def log_good_def instance_ok_def)

lemma give_back_good: "log_good cfg st \<Longrightarrow> log_good cfg (give_back st) \<and> lw_file (snd (give_back st)) = lw_file (snd st)"
  by (cases st) (auto simp: give_back_def release_lease_def split: option.splits)

end
