(* ===== verification/SessionLogProperties.thy ===== *)
theory SessionLogProperties
  imports SessionLogProofs
begin

text \<open>
  Properties of the session log: what any sequence of operations of several instances, each of
  them whole, leaves in the file; the repair of a torn tail; and the places where the buffer of a
  refused volume and the memory of a torn tail lose records.
\<close>

subsection \<open>Runs of several instances\<close>

datatype log_op =
    ClaimLog claim_options bool | ReleaseLog lease | AppendLog lease draft | BeginLog lease "string option" string bool
  | AbandonLog lease string bool | GiveBackLog | ReadActive | Tick int

definition run_op :: "log_config \<Rightarrow> log_op \<Rightarrow> log_state \<Rightarrow> log_state" where
  "run_op cfg op st =
     (case op of
        ClaimLog opts repair \<Rightarrow> fst (claim cfg opts repair st)
      | ReleaseLog l \<Rightarrow> release l st
      | AppendLog l dr \<Rightarrow> fst (append cfg l dr st)
      | BeginLog l turn body ab \<Rightarrow> fst (begin_turn cfg l turn body ab st)
      | AbandonLog l turn wd \<Rightarrow> fst (abandon_turn cfg l turn wd st)
      | GiveBackLog \<Rightarrow> give_back st
      | ReadActive \<Rightarrow> fst (active_turn_state cfg None None st)
      | Tick n \<Rightarrow> (fst st, (snd st)\<lparr>lw_now := lw_now (snd st) + n\<rparr>))"

fun run_instances ::
    "log_config \<Rightarrow> (nat \<times> log_op) list \<Rightarrow> (nat \<Rightarrow> writer) \<Rightarrow> world \<Rightarrow> (nat \<Rightarrow> writer) \<times> world" where
  "run_instances cfg [] ws lw = (ws, lw)"
| "run_instances cfg ((i, op) # ops) ws lw =
     (let (w, lw') = run_op cfg op (ws i, lw) in run_instances cfg ops (ws(i := w)) lw')"

lemma op_good:
  assumes "log_good cfg st" "cuts_whole cfg" "codec_ok cfg"
  shows "log_good cfg (run_op cfg op st) \<and> grown (snd st) (snd (run_op cfg op st))"
proof (cases op)
  case (ClaimLog opts repair)
  then show ?thesis using claim_good [OF assms(1,2) prod.collapse [symmetric]] by (simp add: run_op_def grown_def)
next
  case (ReleaseLog l)
  then show ?thesis using release_good [OF assms(1)] by (simp add: run_op_def grown_def)
next
  case (AppendLog l dr)
  then show ?thesis using append_good [OF assms prod.collapse [symmetric]] by (simp add: run_op_def)
next
  case (BeginLog l turn body ab)
  then show ?thesis using begin_good [OF assms prod.collapse [symmetric]] by (simp add: run_op_def)
next
  case (AbandonLog l turn wd)
  then show ?thesis using abandon_good [OF assms prod.collapse [symmetric]] by (simp add: run_op_def)
next
  case GiveBackLog
  then show ?thesis using give_back_good [OF assms(1)] by (simp add: run_op_def grown_def)
next
  case ReadActive
  obtain w where "catch_up cfg st = ((w, snd st), Inr ())" and l: "level cfg (w, snd st)"
    using catch_up_level [OF assms(1,2)] by blast
  then show ?thesis using ReadActive level_good [OF l] by (simp add: run_op_def active_turn_state_def)
next
  case (Tick n)
  then show ?thesis using assms(1) by (cases st) (simp add: run_op_def grown_def)
qed

lemma run_good:
  assumes "\<forall>i. log_good cfg (ws i, lw)" "cuts_whole cfg" "codec_ok cfg" "run_instances cfg ops ws lw = (ws', lw')"
  shows "(\<forall>i. log_good cfg (ws' i, lw')) \<and> grown lw lw'"
  using assms(1,4)
proof (induction ops arbitrary: ws lw)
  case (Cons op ops)
  obtain i a where op: "op = (i, a)" by (cases op)
  obtain w lw1 where step: "run_op cfg a (ws i, lw) = (w, lw1)" by (cases "run_op cfg a (ws i, lw)")
  have one: "log_good cfg (w, lw1)" "grown lw lw1" using op_good [of cfg "(ws i, lw)" a] Cons.prems(1) assms(2,3) step by auto
  have "log_good cfg (ws j, lw1)" for j
    using Cons.prems(1) one instance_ok_append by (fastforce simp: log_good_def grown_def)
  then have "\<forall>j. log_good cfg ((ws(i := w)) j, lw1)" using one by simp
  moreover have "run_instances cfg ops (ws(i := w)) lw1 = (ws', lw')" using Cons.prems(2) by (simp add: op step)
  ultimately have "(\<forall>i. log_good cfg (ws' i, lw')) \<and> grown lw1 lw'" by (rule Cons.IH)
  then show ?case using one(2) grown_trans by blast
qed simp

text \<open>A verified log is read to its end.\<close>

lemma accept_session:
  assumes acc: "chain_accept c ch line offset = Inr (ch', en)" and "rec_session (entry_record en) = session"
    and "chain_session ch \<in> {None, Some session}"
  shows "chain_accept c (ch\<lparr>chain_session := Some session\<rparr>) line offset = Inr (ch', en)"
proof -
  obtain parsed where "offset = chain_end ch" and p: "parse_line c line = Inr parsed" and "entry_record en = pl_record parsed"
    by (rule acceptD [OF acc])
  then show ?thesis
    using acc assms(2,3)
    by (auto simp: chain_accept_def Let_def chain_end_def head_seq_def split: option.splits if_splits)
qed

lemma walk_session:
  "walk_lines c None None ch False ls = (es, Going ch' False) \<Longrightarrow>
   \<forall>e \<in> set es. rec_session (entry_record e) = session \<Longrightarrow> chain_session ch \<in> {None, Some session} \<Longrightarrow>
   walk_lines c None None (ch\<lparr>chain_session := Some session\<rparr>) False ls
     = (es, Going (ch'\<lparr>chain_session := Some session\<rparr>) False)"
proof (induction ls arbitrary: ch es)
  case (Cons l ls)
  obtain line offset where l: "l = (line, offset)" by (cases l)
  obtain ch1 en where acc: "chain_accept c ch line offset = Inr (ch1, en)"
    using Cons.prems(1) by (auto simp: l split: sum.splits)
  obtain es1 where es: "es = en # es1" and rest: "walk_lines c None None ch1 False ls = (es1, Going ch' False)"
    using Cons.prems(1) by (cases "walk_lines c None None ch1 False ls")
      (auto simp: l acc names_seq_def reaches_def Let_def)
  have s: "chain_session ch1 = Some session"
    by (rule acceptD [OF acc]) (use Cons.prems(2) in \<open>simp add: es\<close>)
  then have "ch1\<lparr>chain_session := Some session\<rparr> = ch1" by simp
  with Cons.IH [OF rest] s Cons.prems(2)
  have "walk_lines c None None ch1 False ls = (es1, Going (ch'\<lparr>chain_session := Some session\<rparr>) False)"
    by (simp add: es)
  then show ?case
    using accept_session [OF acc _ Cons.prems(3)] Cons.prems(2) by (simp add: l es names_seq_def reaches_def)
qed auto

lemma verified_read:
  assumes v: "verified cfg data es ch ts" and cuts: "cuts_whole cfg"
  shows "strict_read cfg None data = (es, Inr (summarise (ch\<lparr>chain_session := Some (lc_session cfg)\<rparr>) 0 None))"
proof -
  let ?ch = "start_chain\<lparr>chain_session := Some (lc_session cfg)\<rparr>"
  have cut: "concat (lc_chunked cfg data) = data" using cuts by (simp add: cuts_whole_def)
  have short: "short_lines (start_splitter 0) (concat (lc_chunked cfg data))"
    using verifiedD(2,5) [OF v] by (auto simp: short_lines_def cut lines_of_def)
  have walk: "walk_lines (lc_codec cfg) None None ?ch False (fst (split_chunk (start_splitter 0) data))
      = (es, Going (ch\<lparr>chain_session := Some (lc_session cfg)\<rparr>) False)"
    using walk_session [OF verifiedD(1) [OF v]] verifiedD(4) [OF v] by (simp add: start_chain_def lines_of_def)
  obtain sp where "walk_chunks (lc_codec cfg) None None ?ch False (start_splitter 0) (lc_chunked cfg data)
      = (es, Going (ch\<lparr>chain_session := Some (lc_session cfg)\<rparr>) False, sp)" and "sp_pending sp = []"
    using walk_chunks_short [OF short, of "lc_codec cfg" None None ?ch False] walk verifiedD(2) [OF v]
    by (cases "walk_chunks (lc_codec cfg) None None ?ch False (start_splitter 0) (lc_chunked cfg data)")
      (auto simp: cut Let_def)
  then show ?thesis by (simp add: strict_read_def walk_session_log_def walk_from_def)
qed

text \<open>C32: A log that starts empty on a medium whose calls do not fail, and on which several instances work under current and stale
  leases, in any order but one operation after the other, is an unbroken chain without a torn tail, whatever spills fail: a strict
  read of it succeeds, its records satisfy the strict turn rules, and what was in the log stays its beginning. Operations that
  overlap in two processes are not covered: the source re-reads the fence before it writes, and a stale holder can still slip in between.\<close>

theorem appended_log_verifies:
  assumes "codec_ok cfg" and "cuts_whole cfg" and "lw_file lw = []" and "lw_faults lw = []"
    and "run_instances cfg ops (\<lambda>i. new_writer) lw = (ws, lw1)" and "run_instances cfg ops' ws lw1 = (ws', lw2)"
  shows "\<exists>es sm ts ext. strict_read cfg None (lw_file lw2) = (es, Inr sm) \<and> rs_intact sm \<and> rs_torn sm = 0
    \<and> foldE apply_strict start_turns (map entry_record es) = Inr ts \<and> lw_file lw2 = lw_file lw1 @ ext"
proof -
  have "\<forall>i. log_good cfg ((\<lambda>i. new_writer) (i :: nat), lw)"
    using verified_empty assms(3,4) new_writer_ok by (auto simp: log_good_def)
  from run_good [OF this assms(2,1,5)] have g: "\<forall>i. log_good cfg (ws i, lw1)" by blast
  from run_good [OF g assms(2,1,6)] have g2: "\<forall>i. log_good cfg (ws' i, lw2)" "grown lw1 lw2" by auto
  then obtain es ch ts where v: "verified cfg (lw_file lw2) es ch ts" by (auto simp: log_good_def)
  show ?thesis
    using verified_read [OF v assms(2)] verifiedD(3) [OF v] g2(2) by (fastforce simp: summarise_def grown_def)
qed

subsection \<open>A torn tail\<close>

lemma torn_catch_up:
  assumes v: "verified cfg good es ch ts" and cuts: "cuts_whole cfg"
    and torn: "newline \<notin> set torn" "torn \<noteq> []" "length torn \<le> session_record_max_bytes"
  shows "catch_up_with cfg (good @ torn) new_writer
    = (new_writer\<lparr>w_chain := ch, w_turns := ts, w_synced := length good, w_torn := length torn\<rparr>, Inr ())"
proof -
  note app = lines_of_append [OF verifiedD(2) [OF v], of torn, unfolded split_none [OF iffD2 [OF index_of_None torn(1)]]]
  let ?w = "new_writer\<lparr>w_chain := ch, w_turns := ts, w_synced := length good\<rparr>"
  have w0: "w_chain new_writer = start_chain" "w_turns new_writer = start_turns" "w_synced new_writer = 0"
    "w_torn new_writer = 0" "w_pending new_writer = []" by (simp_all add: new_writer_def)
  have short: "short_lines (start_splitter 0) (good @ torn)"
    using verifiedD(5) [OF v] torn(3) app by (auto simp: short_lines_def lines_of_def start_splitter_def)
  have walk: "walk_lines (lc_codec cfg) None None (w_chain new_writer) False (lines_of (good @ torn)) = (es, Going ch False)"
    using verifiedD(1) [OF v] app w0 by simp
  have "apply_lines (lc_codec cfg) (lc_session cfg) (lines_of (good @ torn)) new_writer = (?w, Inr ())"
  proof (cases "lines_of good = []")
    case True
    then have "good = []" using verified_lines [OF v] by simp
    then show ?thesis using True verified_end(2) [OF v] app w0 by (simp add: new_writer_def)
  next
    case False
    have "apply_lines (lc_codec cfg) (lc_session cfg) (lines_of (good @ torn)) new_writer
        = (new_writer\<lparr>w_chain := ch, w_turns := fold apply_turn (map entry_record es) (w_turns new_writer),
             w_synced := (if lines_of (good @ torn) = [] then w_synced new_writer
               else snd (last (lines_of (good @ torn))) + length (fst (last (lines_of (good @ torn)))))\<rparr>, Inr ())"
      by (rule apply_lines_walk [OF walk]) (use verifiedD(4) [OF v] in \<open>auto simp: w0 start_chain_def\<close>)
    moreover have "fold apply_turn (map entry_record es) start_turns = ts"
      using foldE_apply_turn [OF verifiedD(3) [OF v]] by simp
    ultimately show ?thesis using last_line_end [OF v False] app False w0 by simp
  qed
  then have "apply_chunks (lc_codec cfg) (lc_session cfg) (start_splitter 0) (lc_chunked cfg (good @ torn)) new_writer
      = (?w, Inr (length torn))"
    using apply_chunks_short [of "start_splitter 0" "lc_chunked cfg (good @ torn)"] short cuts app(2)
    by (simp add: cuts_whole_def lines_of_def start_splitter_def)
  then show ?thesis using torn(2) w0 by (simp add: catch_up_with_def)
qed

text \<open>The repair an instance makes of the tail it has found.\<close>

lemma torn_heal:
  assumes cu: "caught_up cfg es (w\<lparr>w_torn := 0\<rparr>, lw\<lparr>lw_file := good\<rparr>)" and codec: "codec_ok cfg"
    and torn: "lw_file lw = good @ torn" "torn \<noteq> []" "w_torn w = length torn" and run: "heal cfg l (w, lw) = (st, r)"
    and ch: "w_chain w = ch"
  shows "\<exists>new. caught_up cfg (es @ new) st
    \<and> (case r of Inl e \<Rightarrow> new = [] \<and> lw_file (snd st) = good
       | Inr u \<Rightarrow> if es = [] then new = [] \<and> lw_file (snd st) = []
           else \<exists>en line. new = [en] \<and> lw_file (snd st) = good @ line
             \<and> rec_payload (entry_record en) = LogRepaired (length torn) (head_seq ch))"
proof -
  let ?st = "(w\<lparr>w_torn := 0\<rparr>, lw\<lparr>lw_file := good\<rparr>)"
  have v: "verified cfg good es (w_chain w) (w_turns w)" and len: "w_synced w = length good" and f: "lw_faults lw = []"
    using cu by (simp_all add: caught_up_def)
  have cut: "medium_truncate (w_synced w) (w_synced w + length torn) lw = (lw\<lparr>lw_file := good\<rparr>, Inr ())"
    using torn(1) f len by (simp add: medium_truncate_def next_fault_def)
  have seq: "head_seq (w_chain w) = length es"
    using walk_is_chain [OF fresh_start verifiedD(1) [OF v]] by (simp add: is_chain_def)
  show ?thesis
  proof (cases "es = []")
    case True
    then have "good = []" using verified_end(3) [OF v] by blast
    then have "st = ?st" "r = Inr ()" using run cut torn(2,3) seq True by (simp_all add: heal_def repair_draft_def)
    then show ?thesis using cu True \<open>good = []\<close> by auto
  next
    case False
    let ?dr = "\<lparr>dr_turn = active_turn_id (w_turns w), dr_payload = LogRepaired (length torn) (head_seq (w_chain w))\<rparr>"
    obtain st2 res where wr: "write_record cfg l ?dr ?st = (st2, res)" by (cases "write_record cfg l ?dr ?st")
    then have "andThen (st2, res) (\<lambda>st2 _. (st2, Inr ())) = (st, r)"
      using run cut torn(2,3) seq False by (simp add: heal_def repair_draft_def)
    then have st: "st = st2" "r = map_sum id (\<lambda>_. ()) res" by (cases res; simp)+
    show ?thesis
    proof (cases res)
      case (Inl e)
      then show ?thesis using write_ok(2) [OF cu codec wr] st False by auto
    next
      case (Inr en)
      then show ?thesis
        using write_ok(3) [OF cu codec wr] repair_written [OF wr [unfolded Inr] codec cu] st False ch by auto
    qed
  qed
qed

text \<open>A new instance that takes the lease of a log with a torn tail cuts the tail off and nothing else: every complete record stays, and when the claim is granted the log goes on with one record that says how many bytes were cut and after which record; a log torn in its first record becomes empty.\<close>

theorem torn_tail_repaired:
  assumes "codec_ok cfg" and "cuts_whole cfg" and "verified cfg good es ch ts"
    and "newline \<notin> set torn" and "torn \<noteq> []" and "length torn \<le> session_record_max_bytes"
    and "lw_file lw = good @ torn" and "lw_faults lw = []" and "claim cfg opts True (new_writer, lw) = (st, r)"
    and "r \<noteq> Inr None"
  shows "\<exists>new. caught_up cfg (es @ new) st
    \<and> (case r of Inl e \<Rightarrow> new = [] \<and> lw_file (snd st) = good
       | Inr l \<Rightarrow> if es = [] then new = [] \<and> lw_file (snd st) = []
           else \<exists>en line. new = [en] \<and> lw_file (snd st) = good @ line
             \<and> rec_payload (entry_record en) = LogRepaired (length torn) (head_seq ch))"
proof -
  let ?w = "new_writer\<lparr>w_chain := ch, w_turns := ts, w_synced := length good, w_torn := length torn\<rparr>"
  have c1: "catch_up cfg (new_writer, lw) = ((?w, lw), Inr ())"
    by (simp add: catch_up_def assms(7) torn_catch_up [OF assms(3,2,4-6)])
  have new: "\<not> w_exiting new_writer" "w_pending new_writer = []" by (simp_all add: new_writer_def)
  obtain leases taken where cl: "mem_claim opts \<lparr>ctx_renew = w_held ?w, ctx_above = chain_gen ch\<rparr> (lw_leases lw) = (leases, taken)"
    by (cases "mem_claim opts \<lparr>ctx_renew = w_held ?w, ctx_above = chain_gen ch\<rparr> (lw_leases lw)")
  have "taken \<noteq> None" using assms(9,10) c1 cl new by (cases taken) (auto simp: claim_def)
  then obtain l where l: "taken = Some l" by blast
  let ?st1 = "(?w\<lparr>w_held := Some l\<rparr>, lw\<lparr>lw_leases := leases\<rparr>)"
  have c2: "catch_up cfg ?st1 = (?st1, Inr ())" by (simp add: catch_up_def catch_up_with_def assms(7) new)
  obtain st4 r4 where heal: "heal cfg l ?st1 = (st4, r4)" by (cases "heal cfg l ?st1")
  have "caught_up cfg es (?w\<lparr>w_held := Some l, w_torn := 0\<rparr>, lw\<lparr>lw_leases := leases, lw_file := good\<rparr>)"
    using assms(3,8) new by (simp add: caught_up_def)
  from torn_heal [OF this assms(1) _ assms(5) _ heal, of ch] assms(7)
  obtain new where n: "caught_up cfg (es @ new) st4" "case r4 of Inl e \<Rightarrow> new = [] \<and> lw_file (snd st4) = good
       | Inr u \<Rightarrow> if es = [] then new = [] \<and> lw_file (snd st4) = []
           else \<exists>en line. new = [en] \<and> lw_file (snd st4) = good @ line
             \<and> rec_payload (entry_record en) = LogRepaired (length torn) (head_seq ch)"
    by auto
  show ?thesis
  proof (cases r4)
    case (Inl e)
    then have "st = ((fst st4)\<lparr>w_held := None\<rparr>, release_lease l (snd st4))" "r = Inl e"
      using assms(9) c1 c2 cl l new heal by (cases st4; simp add: claim_def)+
    then show ?thesis using n Inl by (auto simp: caught_up_def release_lease_def)
  next
    case (Inr u)
    then have "st = st4" "r = Inr (Some l)" using assms(9) c1 c2 cl l new heal by (simp_all add: claim_def)
    then show ?thesis using n Inr by auto
  qed
qed

subsection \<open>A codec for examples\<close>

text \<open>Nine bytes a record, each above the newline: its numbers and the kind of its payload.\<close>

definition toy_kind :: "payload \<Rightarrow> nat \<times> nat \<times> nat" where
  "toy_kind p = (case p of SessionStarted \<Rightarrow> (1, 0, 0) | OtherRecord ty inputs \<Rightarrow> (2, 0, 0) | TurnStarted d \<Rightarrow> (3, 0, 0)
     | TurnCompleted x sp \<Rightarrow> (4, 0, 0) | LogRepaired n k \<Rightarrow> (5, n, k) | TurnFailed f \<Rightarrow> (6, 0, 0) | _ \<Rightarrow> (0, 0, 0))"

definition toy_payload :: "nat \<Rightarrow> nat \<Rightarrow> nat \<Rightarrow> payload" where
  "toy_payload kind n k =
     (if kind = 1 then SessionStarted else if kind = 2 then OtherRecord ''audit'' []
      else if kind = 3 then TurnStarted ''d'' else if kind = 4 then TurnCompleted ''x'' None
      else if kind = 5 then LogRepaired n k else if kind = 6 then TurnFailed (Some (''interrupted'', False))
      else TurnResuming)"

definition toy_encode :: "session_record \<Rightarrow> bytes" where
  "toy_encode r =
     (let (kind, n, k) = toy_kind (rec_payload r);
          (flag, off, len) = (case rec_prev r of None \<Rightarrow> (0, 0, 0) | Some p \<Rightarrow> (1, ptr_offset p, ptr_length p))
      in map (\<lambda>x. word_of_nat (x + 100))
           [rec_seq r, rec_gen r, if rec_turn r = None then 0 else 1, flag, off, len, kind, n, k])"

definition toy_decode :: "bytes \<Rightarrow> (line_fault, session_record) outcome" where
  "toy_decode line =
     (case map (\<lambda>b. unat b - 100) line of
        [sq, gen, turn, flag, off, len, kind, n, k] \<Rightarrow>
          Inr \<lparr>rec_id = ''r'', rec_session = ''s'', rec_seq = sq, rec_ts = 0,
               rec_prev = (if flag = 0 then None else Some \<lparr>ptr_seq = sq - 1, ptr_offset = off, ptr_length = len, ptr_sha = ''h''\<rparr>),
               rec_prev_text = None, rec_gen = gen, rec_turn = (if turn = 0 then None else Some ''t''),
               rec_payload = toy_payload kind n k\<rparr>
      | _ \<Rightarrow> Inl NotARecord)"

definition toy_codec :: codec where
  "toy_codec = \<lparr>decode = toy_decode, encode = toy_encode, sha256 = (\<lambda>b. ''h''),
     schema = (\<lambda>r. newline \<notin> set (toy_encode r) \<and> toy_decode (toy_encode r) = Inr r),
     utf8 = (\<lambda>t. []), message_json = sm_text, messages_json = (\<lambda>ms. []), input_json = (\<lambda>i. [])\<rparr>"

definition toy_config :: "nat \<Rightarrow> log_config" where
  "toy_config buffer = \<lparr>lc_codec = toy_codec, lc_session = ''s'', lc_chunked = (\<lambda>data. [data]), lc_record_id = (\<lambda>n. ''r''),
     lc_spill_above = 1000, lc_compaction_above = 1000, lc_sync = SyncNone, lc_buffer = buffer\<rparr>"

definition toy_world :: "bytes \<Rightarrow> fault list \<Rightarrow> world" where
  "toy_world data faults = \<lparr>lw_file = data, lw_leases = None,
     lw_spills = \<lparr>sd_bodies = [], sd_manifests = [], sd_synced = []\<rparr>, lw_faults = faults, lw_spill_faults = [],
     lw_ids = 0, lw_now = 0\<rparr>"

lemma toy_ok: "codec_ok (toy_config n)" "cuts_whole (toy_config n)"
  by (simp_all add: codec_ok_def writes_back_def toy_config_def toy_codec_def cuts_whole_def)

abbreviation holding :: "string \<Rightarrow> nat \<Rightarrow> lease" where
  "holding who fence \<equiv> \<lparr>lease_holder = who, lease_fence = fence, lease_expires = 10\<rparr>"

abbreviation claims :: "string \<Rightarrow> int \<Rightarrow> bool \<Rightarrow> log_op" where
  "claims who at repair \<equiv> ClaimLog \<lparr>claim_holder = who, claim_ttl = 10, claim_now = at\<rparr> repair"

abbreviation session_start :: draft where
  "session_start \<equiv> \<lparr>dr_turn = None, dr_payload = SessionStarted\<rparr>"

abbreviation audit :: draft where
  "audit \<equiv> \<lparr>dr_turn = None, dr_payload = OtherRecord ''audit'' []\<rparr>"

definition takeover :: "(nat \<times> log_op) list" where
  "takeover =
     [(0, claims ''a'' 0 True), (0, AppendLog (holding ''a'' 1) session_start),
      (0, BeginLog (holding ''a'' 1) (Some ''t'') ''d'' False), (1, claims ''b'' 5 True), (1, claims ''b'' 20 True),
      (0, AppendLog (holding ''a'' 1) audit), (1, BeginLog (holding ''b'' 2) (Some ''t'') ''d'' True)]"

lemma toy_run:
  "\<exists>ws lw. run_instances (toy_config 100) takeover (\<lambda>i. new_writer) (toy_world [] []) = (ws, lw) \<and> length (lw_file lw) = 40"
proof -
  have "length (lw_file (snd (run_instances (toy_config 100) takeover (\<lambda>i. new_writer) (toy_world [] [])))) = 40"
    by code_simp
  then show ?thesis by (metis prod.collapse)
qed

theorem appended_log_verifies_witness:
  "\<exists>es sm. strict_read (toy_config 100) None
     (lw_file (snd (run_instances (toy_config 100) takeover (\<lambda>i. new_writer) (toy_world [] [])))) = (es, Inr sm)
   \<and> rs_intact sm \<and> length (lw_file (snd (run_instances (toy_config 100) takeover (\<lambda>i. new_writer) (toy_world [] [])))) = 40"
proof -
  obtain ws lw where run: "run_instances (toy_config 100) takeover (\<lambda>i. new_writer) (toy_world [] []) = (ws, lw)"
    and n: "length (lw_file lw) = 40"
    using toy_run by blast
  have start: "lw_file (toy_world [] []) = []" "lw_faults (toy_world [] []) = []" by (simp_all add: toy_world_def)
  have "run_instances (toy_config 100) [] ws lw = (ws, lw)" by simp
  from appended_log_verifies [OF toy_ok start run this] show ?thesis using n run by auto
qed

definition first_line :: bytes where
  "first_line = [101, 101, 100, 100, 100, 100, 101, 100, 100, 10]"

definition torn_bytes :: bytes where
  "torn_bytes = replicate 20 65"

lemma first_line_verified:
  "\<exists>es ch ts. verified (toy_config 100) first_line es ch ts \<and> es \<noteq> []"
proof -
  let ?c = "toy_config 100"
  let ?w = "walk_lines toy_codec None None start_chain False (lines_of first_line)"
  have w: "length (fst ?w) = 1 \<and> (case snd ?w of Going ch seen \<Rightarrow> \<not> seen | _ \<Rightarrow> False)
      \<and> (case foldE apply_strict start_turns (map entry_record (fst ?w)) of Inr ts \<Rightarrow> True | _ \<Rightarrow> False)
      \<and> map (\<lambda>e. rec_session (entry_record e)) (fst ?w) = [''s'']"
    by code_simp
  obtain es ch where walk: "?w = (es, Going ch False)" using w by (cases ?w) (auto split: walk_state.splits)
  obtain ts where "foldE apply_strict start_turns (map entry_record es) = Inr ts"
    using w walk by (auto split: sum.splits)
  moreover have "sp_pending (snd (split_chunk (start_splitter 0) first_line)) = []" by code_simp
  moreover have "map (length \<circ> fst) (lines_of first_line) = [10]" by code_simp
  then have "\<forall>l \<in> set (lines_of first_line). length (fst l) \<le> session_record_max_bytes"
    by (auto simp: session_record_max_bytes_def)
  moreover have "\<forall>e \<in> set es. rec_session (entry_record e) = ''s''" "es \<noteq> []" using w walk by auto
  ultimately show ?thesis using walk by (auto simp: verified_def toy_config_def)
qed

theorem torn_tail_repaired_witness:
  "\<exists>st r es en line. claim (toy_config 100) \<lparr>claim_holder = ''a'', claim_ttl = 10, claim_now = 0\<rparr> True
       (new_writer, toy_world (first_line @ torn_bytes) []) = (st, r)
     \<and> caught_up (toy_config 100) (es @ [en]) st \<and> lw_file (snd st) = first_line @ line
     \<and> rec_payload (entry_record en) = LogRepaired 20 1"
proof -
  let ?claim = "claim (toy_config 100) \<lparr>claim_holder = ''a'', claim_ttl = 10, claim_now = 0\<rparr> True
       (new_writer, toy_world (first_line @ torn_bytes) [])"
  obtain es ch ts where v: "verified (toy_config 100) first_line es ch ts" and ne: "es \<noteq> []" using first_line_verified by blast
  have "case snd ?claim of Inr (Some l) \<Rightarrow> True | _ \<Rightarrow> False" by code_simp
  then obtain st l where run: "?claim = (st, Inr (Some l))"
    by (cases ?claim) (auto split: sum.splits option.splits)
  have "length (lines_of first_line) = 1" by code_simp
  then have head: "head_seq ch = 1" using walk_is_chain [OF fresh_start verifiedD(1) [OF v]] by simp
  have torn: "newline \<notin> set torn_bytes" "torn_bytes \<noteq> []" "length torn_bytes \<le> session_record_max_bytes"
    "length torn_bytes = 20"
    by (simp_all add: torn_bytes_def session_record_max_bytes_def)
  from torn_tail_repaired [OF toy_ok v torn(1-3) _ _ run] show ?thesis
    using ne head torn(4) run by (auto simp: toy_world_def)
qed

subsection \<open>Where records are lost\<close>

definition file_after :: "nat \<Rightarrow> (nat \<times> log_op) list \<Rightarrow> world \<Rightarrow> bytes" where
  "file_after buffer ops lw = lw_file (snd (run_instances (toy_config buffer) ops (\<lambda>i. new_writer) lw))"

definition refused_then_taken :: "(nat \<times> log_op) list" where
  "refused_then_taken =
     [(0, claims ''a'' 0 True), (0, AppendLog (holding ''a'' 1) session_start), (0, AppendLog (holding ''a'' 1) audit),
      (1, claims ''b'' 20 True), (1, AppendLog (holding ''b'' 2) audit)]"

lemma flush_appends:
  assumes "lw_faults lw = []" "length (lw_file lw) = w_disk_bytes w"
  shows "\<exists>w' lw'. flush_queue qs (w, lw) = ((w', lw'), Inr ()) \<and> lw_file lw' = lw_file lw @ concat (map fst qs)"
  using assms
proof (induction qs arbitrary: w lw)
  case (Cons q qs)
  obtain data sync where q: "q = (data, sync)" by (cases q)
  have m: "medium_append data (w_disk_bytes w) lw = (lw\<lparr>lw_file := lw_file lw @ data\<rparr>, Inr ())"
    using Cons.prems by (simp add: medium_append_def next_fault_def landed_def)
  let ?w = "w\<lparr>w_disk_bytes := w_disk_bytes w + length data, w_pending_bytes := w_pending_bytes w - length data,
    w_pending := qs, w_flushed := w_flushed w + 1\<rparr>"
  have "\<exists>w' lw'. flush_queue qs (?w, lw\<lparr>lw_file := lw_file lw @ data\<rparr>) = ((w', lw'), Inr ())
      \<and> lw_file lw' = (lw_file lw @ data) @ concat (map fst qs)"
    using Cons.IH [of "lw\<lparr>lw_file := lw_file lw @ data\<rparr>" ?w] Cons.prems by simp
  then show ?case by (simp add: q m)
qed simp

text \<open>C33: A release does not ask whether its lease is still the current one before it writes what waits for a volume that was full. Whatever
  successors have appended since to the log the instance knew is erased, and the records of the stale instance stand in its place.\<close>

theorem stale_release_erases_records:
  assumes "lease_fence l < mem_fence (lw_leases lw)" "w_pending w \<noteq> []" "lw_faults lw = []"
    and "lw_file lw = known @ successors" "length known = w_disk_bytes w"
  shows "lw_file (snd (release l (w, lw))) = known @ concat (map fst (w_pending w))"
proof -
  let ?lw = "lw\<lparr>lw_file := known\<rparr>"
  have cut: "(if length (lw_file lw) > w_disk_bytes w
        then (let (lw', r) = medium_truncate (w_disk_bytes w) (length (lw_file lw)) lw in ((w, lw'), r))
        else ((w, lw), Inr ())) = ((w, ?lw), Inr ())"
    using assms(3-5) by (cases "successors = []") (auto simp: medium_truncate_def next_fault_def)
  obtain w' lw' where f: "flush_queue (w_pending w) (w, ?lw) = ((w', lw'), Inr ())"
    "lw_file lw' = known @ concat (map fst (w_pending w))"
    using flush_appends [of ?lw w "w_pending w"] assms(3,5) by auto
  have "snd (fst (flush_pending (w, lw))) = lw'"
    unfolding flush_pending_def fst_conv snd_conv cut by (simp add: f(1))
  then show ?thesis
    using assms(2) f(2) by (simp add: release_def release_lease_def Let_def case_prod_beta)
qed

text \<open>An instance is refused its second record by a full volume; its lease runs out, another instance takes the session under fence 2 and
  appends a record; then the first gives its stale lease back, and that record is gone.\<close>

lemma successor_appended:
  "case run_instances (toy_config 100) refused_then_taken (\<lambda>i. new_writer) (toy_world [] [Works, FailsAfter 0 ''ENOSPC'']) of (ws, lw) \<Rightarrow>
     mem_fence (lw_leases lw) = 2 \<and> lw_faults lw = [] \<and> w_disk_bytes (ws 0) = 10
   \<and> map fst (w_pending (ws 0)) = [[102, 101, 100, 101, 100, 110, 102, 100, 100, 10]]
   \<and> lw_file lw = first_line @ [102, 102, 100, 101, 100, 110, 102, 100, 100, 10]"
  by code_simp

theorem stale_release_erases_records_witness:
  "\<exists>w lw. run_instances (toy_config 100) refused_then_taken (\<lambda>i. new_writer) (toy_world [] [Works, FailsAfter 0 ''ENOSPC'']) = (w, lw)
     \<and> lw_file lw = first_line @ [102, 102, 100, 101, 100, 110, 102, 100, 100, 10]
     \<and> lw_file (snd (release (holding ''a'' 1) (w 0, lw))) = first_line @ [102, 101, 100, 101, 100, 110, 102, 100, 100, 10]"
proof -
  obtain w lw where run: "run_instances (toy_config 100) refused_then_taken (\<lambda>i. new_writer) (toy_world [] [Works, FailsAfter 0 ''ENOSPC'']) = (w, lw)"
    by fastforce
  then have s: "mem_fence (lw_leases lw) = 2" "lw_faults lw = []" "w_disk_bytes (w 0) = 10"
    "map fst (w_pending (w 0)) = [[102, 101, 100, 101, 100, 110, 102, 100, 100, 10]]"
    "lw_file lw = first_line @ [102, 102, 100, 101, 100, 110, 102, 100, 100, 10]"
    using successor_appended by simp_all
  have "lease_fence (holding ''a'' 1) < mem_fence (lw_leases lw)" "w_pending (w 0) \<noteq> []" "length first_line = w_disk_bytes (w 0)"
    using s(1,3,4) by (auto simp: first_line_def)
  then have "lw_file (snd (release (holding ''a'' 1) (w 0, lw))) = first_line @ concat (map fst (w_pending (w 0)))"
    using stale_release_erases_records [OF _ _ s(2,5)] by blast
  then show ?thesis using run s(4,5) by auto
qed

definition dropping :: "(nat \<times> log_op) list" where
  "dropping =
     [(0, claims ''a'' 0 True), (0, AppendLog (holding ''a'' 1) session_start), (0, AppendLog (holding ''a'' 1) audit),
      (0, AppendLog (holding ''a'' 1) audit), (0, AppendLog (holding ''a'' 1) audit)]"

definition full_volume :: "fault list" where
  "full_volume = [Works, FailsAfter 0 ''ENOSPC'', FailsAfter 0 ''ENOSPC'']"

text \<open>A volume that was full for longer than the buffer lasts leaves a log that is refused for good. The oldest waiting records are dropped, the rest is written when there is room, and the log reports that it recovered; but the record after the gap does not continue the chain: every strict read of the log fails, and so does every later append, of this and of any new instance.\<close>

theorem dropped_records_break_log:
  "w_events (fst (run_instances (toy_config 15) dropping (\<lambda>i. new_writer) (toy_world [] full_volume)) 0)
     = [Degraded DiskFull 1 10 False, Degraded DiskFull 1 10 True, Recovered 1 2]
   \<and> snd (strict_read (toy_config 15) None (file_after 15 dropping (toy_world [] full_volume)))
     = Inl (LogBroken \<lparr>break_reason = SeqGap, break_seq = 2, break_offset = 10\<rparr>)
   \<and> file_after 15 (dropping @ [(0, AppendLog (holding ''a'' 1) audit), (1, claims ''b'' 20 True),
        (1, AppendLog (holding ''b'' 2) audit)]) (toy_world [] full_volume)
     = file_after 15 dropping (toy_world [] full_volume)"
  by (intro conjI; code_simp)

definition seen_torn :: "(nat \<times> log_op) list" where
  "seen_torn = [(0, claims ''a'' 0 False), (1, claims ''b'' 20 True), (1, AppendLog (holding ''b'' 3) audit)]"

text \<open>An instance that remembers a torn tail takes new records for it when they are exactly as long. It saw twenty torn bytes without repairing them; another instance cut them off, recorded the repair and appended a record, twenty bytes in all. When the first takes the lease again the log has the length it remembers, so it reads nothing, and cuts the two records off as the torn tail.\<close>

theorem remembered_tail_cuts_records:
  "file_after 100 seen_torn (toy_world (first_line @ torn_bytes) [])
     = first_line @ [102, 103, 100, 101, 100, 110, 105, 120, 101, 10] @ [103, 103, 100, 101, 110, 110, 102, 100, 100, 10]
   \<and> file_after 100 (seen_torn @ [(0, claims ''a'' 40 True)]) (toy_world (first_line @ torn_bytes) [])
     = first_line @ [102, 104, 100, 101, 100, 110, 105, 120, 101, 10]"
  by (rule conjI; code_simp)

end
