(* ===== verification/SessionSpillProperties.thy ===== *)
theory SessionSpillProperties
  imports SessionSpill
begin

text \<open>
  What the two spill stores promise: a body that was written is read back, after
  whatever later writes; a read stays inside the directory of spills.
\<close>

subsection \<open>Paths\<close>

lemma split_path_plain: "CHR ''/'' \<notin> set xs \<Longrightarrow> split_path xs = [xs]"
  by (induction xs) auto

lemma split_path_append: "CHR ''/'' \<notin> set xs \<Longrightarrow> split_path (xs @ CHR ''/'' # ys) = xs # split_path ys"
  by (induction xs) auto

lemma split_path_nonempty: "split_path xs \<noteq> []"
  by (induction xs) (auto split: list.splits)

lemma split_path_segments: "seg \<in> set (split_path xs) \<Longrightarrow> CHR ''/'' \<notin> set seg"
  by (induction xs arbitrary: seg) (force split: if_splits list.splits)+

lemma split_join: "\<forall>seg \<in> set segs. CHR ''/'' \<notin> set seg \<Longrightarrow> segs \<noteq> [] \<Longrightarrow> split_path (join_path segs) = segs"
  by (induction segs rule: join_path.induct) (auto simp: split_path_plain split_path_append)

lemma take_append_eq: "n = length xs \<Longrightarrow> take n (xs @ ys) = xs"
  by simp

lemma spill_path_relative:
  assumes "CHR ''/'' \<notin> set name" and "3 \<le> length name" and "last name \<noteq> CHR ''/''"
  shows "check_relative (spill_dir @ ''/'' @ name) = Inr (spill_dir @ ''/'' @ name)"
proof -
  have n: "name \<noteq> []" "name \<noteq> ''.''" "name \<noteq> ''..''" using assms(2) by auto
  have s: "split_path (spill_dir @ ''/'' @ name) = [spill_dir, name]"
    using assms(1) by (simp add: split_path_append spill_dir_def split_path_plain)
  have "normalize (spill_dir @ ''/'' @ name) = spill_dir @ ''/'' @ name"
    unfolding normalize_def s using n assms(3) by (simp add: is_absolute_def spill_dir_def)
  then show ?thesis by (simp add: check_relative_def is_absolute_def spill_dir_def)
qed

text \<open>In the segments kept last first, parents stand only at the bottom.\<close>

fun stack_ok :: "string list \<Rightarrow> bool" where
  "stack_ok [] \<longleftrightarrow> True"
| "stack_ok (seg # res) \<longleftrightarrow> (if seg = ''..'' then set res \<subseteq> {''..''} else stack_ok res)"

lemma stack_parents: "set res \<subseteq> {''..''} \<Longrightarrow> stack_ok res"
  by (cases res) auto

lemma stack_bottom: "stack_ok res \<Longrightarrow> res \<noteq> [] \<Longrightarrow> last res \<noteq> ''..'' \<Longrightarrow> ''..'' \<notin> set res"
proof (induction res)
  case (Cons seg res)
  show ?case
  proof (cases "res = []")
    case False
    then have "last res \<in> set res" "last res \<noteq> ''..''" using Cons.prems(3) by simp_all
    then have "\<not> set res \<subseteq> {''..''}" by blast
    then show ?thesis using Cons False by (auto split: if_splits)
  qed (use Cons in auto)
qed simp

definition plain_segment :: "string \<Rightarrow> bool" where
  "plain_segment seg \<longleftrightarrow> CHR ''/'' \<notin> set seg \<and> seg \<noteq> [] \<and> seg \<noteq> ''.''"

lemma normal_stack:
  assumes "stack_ok res" and "\<forall>seg \<in> set res. plain_segment seg" and "\<forall>seg \<in> set segs. CHR ''/'' \<notin> set seg"
  shows "\<exists>res'. normal_segments False res segs = rev res' \<and> stack_ok res' \<and> (\<forall>seg \<in> set res'. plain_segment seg)"
  using assms
proof (induction segs arbitrary: res)
  case (Cons seg segs)
  have tl: "stack_ok (tl res)" "\<forall>seg \<in> set (tl res). plain_segment seg"
    using Cons.prems(1,2) stack_parents by (cases res; auto split: if_splits)+
  have all: "set res \<subseteq> {''..''}" if "\<not> (res \<noteq> [] \<and> hd res \<noteq> ''..'')"
    using that Cons.prems(1) by (cases res) auto
  show ?case
  proof (cases "seg = [] \<or> seg = ''.''")
    case True
    then show ?thesis using Cons.IH [of res] Cons.prems by auto
  next
    case False
    then have seg: "plain_segment seg" using Cons.prems(3) by (simp add: plain_segment_def)
    show ?thesis
    proof (cases "seg = ''..'' \<and> res \<noteq> [] \<and> hd res \<noteq> ''..''")
      case True
      then show ?thesis using Cons.IH [of "tl res"] Cons.prems(3) False tl by auto
    next
      case push: False
      have "stack_ok (seg # res)" using all push Cons.prems(1) by auto
      then show ?thesis
        using Cons.IH [of "seg # res"] Cons.prems(2,3) False push seg by (auto split: if_splits)
    qed
  qed
qed simp

lemma split_join_plain: "\<forall>seg \<in> set segs. plain_segment seg \<Longrightarrow> segs \<noteq> [] \<Longrightarrow> split_path (join_path segs) = segs"
  by (rule split_join) (auto simp: plain_segment_def)

lemma split_slash: "split_path (xs @ ''/'') = split_path xs @ [[]]"
  by (induction xs) (use split_path_nonempty in \<open>auto split: list.splits\<close>)

text \<open>Whatever path a record names, a spill read opens a file inside the directory of spills: a path that passes the check has that directory as its first segment and no parent segment after it.\<close>

theorem spill_stays_inside:
  assumes "check_relative path = Inr normal"
  shows "\<exists>segs. split_path normal = spill_dir # segs \<and> ''..'' \<notin> set segs"
proof -
  have n: "normal = normalize path" and rel: "\<not> is_absolute (normalize path)"
    and pre: "take (length spill_dir + 1) normal = spill_dir @ ''/''"
    using assms by (auto simp: check_relative_def Let_def split: if_splits)
  obtain rest where rest: "normal = spill_dir @ CHR ''/'' # rest"
    using append_take_drop_id [of "length spill_dir + 1" normal] pre by (metis append.assoc append_Cons append_Nil)
  then have first: "split_path normal = spill_dir # split_path rest" by (simp add: split_path_append spill_dir_def)
  have path: "path \<noteq> []" and np: "\<not> is_absolute path"
    using rel n pre by (auto simp: normalize_def is_absolute_def Let_def spill_dir_def split: if_splits)
  obtain res where segs: "normal_segments False [] (split_path path) = rev res" and ok: "stack_ok res"
    and plain: "\<forall>seg \<in> set res. plain_segment seg"
    using normal_stack [of "[]" "split_path path"] split_path_segments by auto
  show ?thesis
  proof (cases "join_path (rev res) = []")
    case True
    then have "normal = ''./'' \<or> normal = ''.''" using n path np segs by (auto simp: normalize_def)
    then show ?thesis using rest by (auto simp: spill_dir_def)
  next
    case False
    then have "res \<noteq> []" by auto
    then have split: "split_path (join_path (rev res)) = rev res" using plain split_join_plain by simp
    have "normal = join_path (rev res) \<or> normal = join_path (rev res) @ ''/''"
      using n path np segs False by (auto simp: normalize_def Let_def)
    then have cases: "split_path normal = rev res \<or> split_path normal = rev res @ [[]]"
      using split split_slash by metis
    then have "hd (rev res) = spill_dir" using first \<open>res \<noteq> []\<close> by (metis hd_append list.sel(1) rev_is_Nil_conv)
    then have "last res \<noteq> ''..''" using \<open>res \<noteq> []\<close> by (simp add: hd_rev spill_dir_def)
    then have "''..'' \<notin> set (split_path normal)" using stack_bottom [OF ok \<open>res \<noteq> []\<close>] cases by auto
    then show ?thesis using first by auto
  qed
qed

theorem spill_stays_inside_witness: "''..'' \<notin> set (tl (split_path ''tool-results/a/b''))"
proof -
  have "check_relative ''tool-results/./x/..//a/b'' = Inr ''tool-results/a/b''" by code_simp
  from spill_stays_inside [OF this] show ?thesis by auto
qed

subsection \<open>Reading back\<close>

text \<open>Writes one after another, each with its key, its text and what goes wrong in it.\<close>

fun run_spills :: "('f \<Rightarrow> string \<Rightarrow> string \<Rightarrow> 's \<Rightarrow> 's \<times> 'r) \<Rightarrow> ('f \<times> string \<times> string) list \<Rightarrow> 's \<Rightarrow> 's" where
  "run_spills put [] s = s"
| "run_spills put ((f, key, content) # ws) s = run_spills put ws (fst (put f key content s))"

definition text_sha :: "codec \<Rightarrow> string \<Rightarrow> string" where
  "text_sha c content = sha256 c (utf8 c content)"

locale spill_store =
  fixes c :: codec
    and put :: "'f \<Rightarrow> string \<Rightarrow> string \<Rightarrow> 's \<Rightarrow> 's \<times> (spill_error, spill_ref) outcome"
    and get :: "spill_ref \<Rightarrow> int option \<Rightarrow> 's \<Rightarrow> (spill_error, string) outcome"
    and body :: "'s \<Rightarrow> string \<Rightarrow> string option"
  assumes put_puts: "put f key content s = (s', Inr ref) \<Longrightarrow>
      key \<noteq> [] \<and> ref = spill_ref_of c (text_sha c key @ ''.txt'') content
      \<and> (\<exists>u. body s' (spill_path ref) = Some u \<and> text_sha c u = spill_sha ref)"
    and put_keeps: "put f key content s = (s', r) \<Longrightarrow> body s path = Some u \<Longrightarrow>
      \<exists>u'. body s' path = Some u' \<and> text_sha c u' = text_sha c u"
    and get_body: "check_relative (spill_path ref) = Inr (spill_path ref) \<Longrightarrow> body s (spill_path ref) = Some u \<Longrightarrow>
      get ref None s = verify_spill c ref u"
begin

lemma run_keeps: "body s path = Some u \<Longrightarrow> \<exists>u'. body (run_spills put ws s) path = Some u' \<and> text_sha c u' = text_sha c u"
proof (induction ws arbitrary: s u)
  case (Cons w ws)
  obtain f key content where w: "w = (f, key, content)" by (cases w)
  obtain s' r where s': "put f key content s = (s', r)" by (cases "put f key content s")
  obtain u' where "body s' path = Some u'" "text_sha c u' = text_sha c u"
    using put_keeps [OF s' Cons.prems] by blast
  then show ?case using Cons.IH [of s' u'] w s' by simp
qed simp

lemma read_back:
  assumes "put f key content s = (s1, Inr ref)"
    and plain: "CHR ''/'' \<notin> set (text_sha c key)" and unique: "\<And>u. text_sha c u = text_sha c content \<Longrightarrow> u = content"
  shows "get ref None (run_spills put ws s1) = Inr content"
proof -
  have ref: "ref = spill_ref_of c (text_sha c key @ ''.txt'') content" using put_puts [OF assms(1)] by blast
  then have sha: "spill_sha ref = text_sha c content" by (simp add: spill_ref_of_def text_sha_def)
  have inside: "check_relative (spill_path ref) = Inr (spill_path ref)"
    using spill_path_relative [of "text_sha c key @ ''.txt''"] plain by (simp add: ref spill_ref_of_def)
  obtain u where "body (run_spills put ws s1) (spill_path ref) = Some u" "text_sha c u = text_sha c content"
    using put_puts [OF assms(1)] run_keeps sha by metis
  then have "get ref None (run_spills put ws s1) = verify_spill c ref content"
    using get_body [OF inside] unique by blast
  then show ?thesis by (simp add: verify_spill_def ref spill_ref_of_def)
qed

end

interpretation mem_spills: spill_store c "\<lambda>u :: unit. mem_spill_write c" "mem_spill_read c"
    "\<lambda>files path. map_option snd (kfind fst path files)" for c
proof (unfold_locales, goal_cases)
  case (1 f key content s s' ref)
  then show ?case
    by (auto simp: mem_spill_write_def spill_file_name_def text_sha_def spill_ref_of_def Let_def
        split: sum.splits option.splits if_splits)
next
  case (2 f key content s s' r path u)
  then show ?case
    by (auto simp: mem_spill_write_def spill_file_name_def text_sha_def spill_ref_of_def Let_def
        split: sum.splits option.splits if_splits)
next
  case (3 ref s u)
  then show ?case by (auto simp: mem_spill_read_def checked_read_limit_def)
qed

lemma kfind_append: "kfind key k (xs @ ys) = (case kfind key k xs of None \<Rightarrow> kfind key k ys | r \<Rightarrow> r)"
  by (induction xs) auto

lemma create_body_keeps:
  "create_body c faults ref content d = (d', r) \<Longrightarrow> kfind fst path (sd_bodies d) = Some b \<Longrightarrow> kfind fst path (sd_bodies d') = Some b"
  by (auto simp: create_body_def kfind_append split: sum.splits option.splits)

lemma create_body_puts:
  "create_body c faults ref content d = (d', Inr u) \<Longrightarrow> spill_sha ref = text_sha c content \<Longrightarrow>
   \<exists>path b. kfind fst (spill_path ref) (sd_bodies d') = Some (path, b) \<and> text_sha c b = spill_sha ref"
  by (auto simp: create_body_def kfind_append bindE_Inr_iff text_sha_def split: sum.splits option.splits)

lemma later_bodies:
  "create_manifest faults ref key d = (d', r) \<Longrightarrow> sd_bodies d' = sd_bodies d"
  "sync_spills faults d = (d', r') \<Longrightarrow> sd_bodies d' = sd_bodies d"
  by (auto simp: create_manifest_def sync_spills_def split: sum.splits if_splits)

lemma disk_spill_bodies:
  assumes "disk_spill_write c faults key content d = (d', r)" and "kfind fst path (sd_bodies d) = Some b"
  shows "kfind fst path (sd_bodies d') = Some b"
proof (cases "bindE (fails_with (sf_mkdir faults)) (\<lambda>_. spill_file_name c key)")
  case (Inr name)
  let ?ref = "spill_ref_of c name content"
  obtain d1 r1 where 1: "create_body c faults ?ref content d = (d1, r1)" by (cases "create_body c faults ?ref content d")
  obtain d2 r2 where 2: "create_manifest faults ?ref key d1 = (d2, r2)" by (cases "create_manifest faults ?ref key d1")
  obtain d3 r3 where 3: "sync_spills faults d2 = (d3, r3)" by (cases "sync_spills faults d2")
  have "d' \<in> {d1, d2, d3}"
    using assms(1) 1 2 3 by (cases r1; cases r2; cases r3; auto simp: disk_spill_write_def Inr)
  moreover have "kfind fst path (sd_bodies d1) = Some b" using create_body_keeps [OF 1 assms(2)] .
  ultimately show ?thesis using later_bodies(1) [OF 2] later_bodies(2) [OF 3] by auto
qed (use assms in \<open>auto simp: disk_spill_write_def\<close>)

lemma disk_spill_puts:
  assumes "disk_spill_write c faults key content d = (d', Inr ref)"
  shows "key \<noteq> [] \<and> ref = spill_ref_of c (text_sha c key @ ''.txt'') content
    \<and> (\<exists>path b. kfind fst (spill_path ref) (sd_bodies d') = Some (path, b) \<and> text_sha c b = spill_sha ref)"
proof (cases "bindE (fails_with (sf_mkdir faults)) (\<lambda>_. spill_file_name c key)")
  case (Inr name)
  let ?ref = "spill_ref_of c name content"
  have name: "key \<noteq> []" "name = text_sha c key @ ''.txt''"
    using Inr by (auto simp: bindE_Inr_iff spill_file_name_def text_sha_def split: if_splits)
  have "andThen (create_body c faults ?ref content d) (\<lambda>d1 _.
      andThen (create_manifest faults ?ref key d1) (\<lambda>d2 _.
      andThen (sync_spills faults d2) (\<lambda>d3 _. (d3, Inr ?ref)))) = (d', Inr ref)"
    using assms by (simp add: disk_spill_write_def Inr Let_def)
  then obtain d1 u d2 v w where 1: "create_body c faults ?ref content d = (d1, Inr u)"
    and 2: "create_manifest faults ?ref key d1 = (d2, Inr v)" and 3: "sync_spills faults d2 = (d', Inr w)"
    and ref: "ref = ?ref"
    unfolding andThen_Inr_iff by blast
  have "\<exists>path b. kfind fst (spill_path ?ref) (sd_bodies d1) = Some (path, b) \<and> text_sha c b = spill_sha ?ref"
    by (rule create_body_puts [OF 1]) (simp add: spill_ref_of_def text_sha_def)
  then show ?thesis using name ref later_bodies(1) [OF 2] later_bodies(2) [OF 3] by simp
qed (use assms in \<open>simp add: disk_spill_write_def\<close>)

interpretation disk_spills: spill_store c "disk_spill_write c" "disk_spill_read c"
    "\<lambda>d path. map_option snd (kfind fst path (sd_bodies d))" for c
proof (unfold_locales, goal_cases)
  case (1 f key content s s' ref)
  then show ?case using disk_spill_puts [OF 1] by fastforce
next
  case (2 f key content s s' r path u)
  then show ?case using disk_spill_bodies [OF 2(1)] by fastforce
next
  case (3 ref s u)
  then show ?case by (auto simp: disk_spill_read_def checked_read_limit_def)
qed

text \<open>A body that a spill store took is read back whole under the reference it returned, whatever is written to the store afterwards, on disk also by writes that fail at any step; as long as no other text has the hash of the body.\<close>

theorem spill_read_back:
  assumes "CHR ''/'' \<notin> set (text_sha c key)" and "\<And>u. text_sha c u = text_sha c content \<Longrightarrow> u = content"
    and "disk_spill_write c faults key content d = (d', Inr ref)"
    and "mem_spill_write c key content m = (m', Inr ref')"
  shows "disk_spill_read c ref None (run_spills (disk_spill_write c) later d') = Inr content
    \<and> mem_spill_read c ref' None (run_spills (\<lambda>u :: unit. mem_spill_write c) later' m') = Inr content"
  using disk_spills.read_back [OF assms(3,1,2)] mem_spills.read_back [OF assms(4,1,2)] by blast

definition spill_codec :: codec where
  "spill_codec = \<lparr>decode = (\<lambda>b. Inl NotJson), encode = (\<lambda>r. []), sha256 = map (\<lambda>b. char_of (unat b)),
     schema = (\<lambda>r. True), utf8 = map (\<lambda>x. word_of_nat (of_char x)), message_json = sm_text, messages_json = (\<lambda>ms. []), input_json = (\<lambda>i. [])\<rparr>"

lemma spill_codec_sha: "text_sha spill_codec content = content"
proof -
  have "char_of (unat (word_of_nat (of_char x) :: 8 word)) = x" for x :: char
    by (simp add: unsigned_of_nat take_bit_nat_eq_self)
  then show ?thesis by (simp add: text_sha_def spill_codec_def o_def)
qed

definition full_disk :: spill_faults where
  "full_disk = no_spill_faults\<lparr>sf_manifest := Some ''ENOSPC''\<rparr>"

theorem spill_read_back_witness:
  "disk_spill_read spill_codec (spill_ref_of spill_codec ''k.txt'' ''body'') None
     (run_spills (disk_spill_write spill_codec) [(no_spill_faults, ''k'', ''other''), (full_disk, ''j'', ''more'')]
       (fst (disk_spill_write spill_codec no_spill_faults ''k'' ''body''
         \<lparr>sd_bodies = [], sd_manifests = [], sd_synced = []\<rparr>))) = Inr ''body''"
proof -
  let ?d = "\<lparr>sd_bodies = [], sd_manifests = [], sd_synced = []\<rparr>"
  let ?ref = "spill_ref_of spill_codec ''k.txt'' ''body''"
  have "disk_spill_write spill_codec no_spill_faults ''k'' ''body'' ?d
      = (fst (disk_spill_write spill_codec no_spill_faults ''k'' ''body'' ?d), Inr ?ref)"
    by code_simp
  moreover have "mem_spill_write spill_codec ''k'' ''body'' [] = (fst (mem_spill_write spill_codec ''k'' ''body'' []), Inr ?ref)"
    by code_simp
  ultimately show ?thesis
    by (intro spill_read_back [where content = "''body''", THEN conjunct1]) (simp_all add: spill_codec_sha)
qed

end
