(* ===== verification/SchedCron.thy ===== *)
theory SchedCron
  imports Text
begin

text \<open>
  Five-field cron expressions (\<open>schedules/cron.ts\<close>): a field is read part by part into
  the set of values it allows; an expression is the five sets, with the flags that
  decide how the day fields and daylight saving changes are treated. The error of a
  refused text keeps the check that refused it and the token.
\<close>

subsection \<open>Errors of the schedule engine\<close>

datatype refusal =
    Not_a_number | Outside_range | Empty_field | Empty_entry | Unsupported_token
  | More_than_one_step | Bad_step | Not_a_range | Backwards_range
  | Empty_expression | Unknown_macro | Six_fields | Not_five_fields
  | Bad_zone | Unknown_zone | Bad_anchor | Bad_interval | In_the_past | Never_fires
  | Not_a_duration | Too_short | Not_whole_minutes | Not_a_date | Not_a_time_of_day
  | Skipped_time | Not_soon | Not_a_time | Required | Reboot

datatype schedule_error = Schedule_validation refusal string | Range_error

subsection \<open>Fields\<close>

record field_spec =
  fs_label :: string
  fs_min :: nat
  fs_max :: nat
  fs_names :: "string list"
  fs_name_base :: nat

definition month_names :: "string list" where
  "month_names = [''jan'', ''feb'', ''mar'', ''apr'', ''may'', ''jun'', ''jul'', ''aug'', ''sep'', ''oct'', ''nov'', ''dec'']"

definition day_names :: "string list" where
  "day_names = [''sun'', ''mon'', ''tue'', ''wed'', ''thu'', ''fri'', ''sat'']"

definition minute_field :: field_spec where
  "minute_field = \<lparr>fs_label = ''minute'', fs_min = 0, fs_max = 59, fs_names = [], fs_name_base = 0\<rparr>"

definition hour_field :: field_spec where
  "hour_field = \<lparr>fs_label = ''hour'', fs_min = 0, fs_max = 23, fs_names = [], fs_name_base = 0\<rparr>"

definition dom_field :: field_spec where
  "dom_field = \<lparr>fs_label = ''day of month'', fs_min = 1, fs_max = 31, fs_names = [], fs_name_base = 0\<rparr>"

definition month_field :: field_spec where
  "month_field = \<lparr>fs_label = ''month'', fs_min = 1, fs_max = 12, fs_names = month_names, fs_name_base = 1\<rparr>"

definition dow_field :: field_spec where
  "dow_field = \<lparr>fs_label = ''day of week'', fs_min = 0, fs_max = 7, fs_names = day_names, fs_name_base = 0\<rparr>"

fun index_of :: "string \<Rightarrow> string list \<Rightarrow> nat option" where
  "index_of x [] = None"
| "index_of x (y # ys) = (if x = y then Some 0 else map_option Suc (index_of x ys))"

definition parse_value :: "string \<Rightarrow> field_spec \<Rightarrow> (schedule_error, nat) outcome" where
  "parse_value raw f = (case index_of (to_lower raw) (fs_names f) of
      Some i \<Rightarrow> Inr (i + fs_name_base f)
    | None \<Rightarrow>
        if \<not> is_number raw then Inl (Schedule_validation Not_a_number raw)
        else let n = number_of raw in
          if n < fs_min f \<or> n > fs_max f then Inl (Schedule_validation Outside_range raw)
          else Inr n)"

text \<open>Names are removed three letters at a time, from the left.\<close>

fun without_names :: "string list \<Rightarrow> string \<Rightarrow> string" where
  "without_names names (a # b # c # s) =
    (if is_letter a \<and> is_letter b \<and> is_letter c
     then (if to_lower [a, b, c] \<in> set names then [] else [a, b, c]) @ without_names names s
     else a # without_names names (b # c # s))"
| "without_names names s = s"

definition refused_token :: "string \<Rightarrow> string option" where
  "refused_token s =
    (if CHR ''L'' \<in> set s \<or> CHR ''l'' \<in> set s then Some ''L''
     else if CHR ''W'' \<in> set s \<or> CHR ''w'' \<in> set s then Some ''W''
     else if CHR ''#'' \<in> set s then Some ''#''
     else if CHR ''?'' \<in> set s then Some ''?'' else None)"

text \<open>\<open>for (let v = lo; v <= hi; v += step)\<close>; the step is positive.\<close>

function steps :: "nat \<Rightarrow> nat \<Rightarrow> nat \<Rightarrow> nat list" where
  "steps lo hi step = (if hi < lo \<or> step = 0 then [] else lo # steps (lo + step) hi step)"
  by auto
termination by (relation "measure (\<lambda>(lo, hi, step). Suc hi - lo)") auto

declare steps.simps [simp del]

definition top_of :: "field_spec \<Rightarrow> nat" where
  "top_of f = (if fs_label f = ''day of week'' then 6 else fs_max f)"

text \<open>The two ends of the range a part names.\<close>

definition parse_range :: "field_spec \<Rightarrow> string \<Rightarrow> bool \<Rightarrow> string \<Rightarrow> (schedule_error, nat \<times> nat) outcome" where
  "parse_range f range_text stepped part =
    (if range_text = ''*'' then Inr (fs_min f, top_of f)
     else if CHR ''-'' \<in> set range_text then
       (let ends = split_on (CHR ''-'') range_text in
        if 2 < length ends then Inl (Schedule_validation Not_a_range part)
        else bindE (parse_value (ends ! 0) f) (\<lambda>lo.
             bindE (parse_value (ends ! 1) f) (\<lambda>hi.
             if hi < lo then Inl (Schedule_validation Backwards_range range_text) else Inr (lo, hi))))
     else bindE (parse_value range_text f) (\<lambda>lo. Inr (lo, if stepped then top_of f else lo)))"

definition parse_part :: "field_spec \<Rightarrow> string \<Rightarrow> (schedule_error, nat list) outcome" where
  "parse_part f part =
    (if part = [] then Inl (Schedule_validation Empty_entry [])
     else case refused_token (without_names (fs_names f) part) of
       Some t \<Rightarrow> Inl (Schedule_validation Unsupported_token t)
     | None \<Rightarrow>
        let pieces = split_on (CHR ''/'') part; stepped = 1 < length pieces in
        if 2 < length pieces then Inl (Schedule_validation More_than_one_step part)
        else if stepped \<and> (\<not> is_number (pieces ! 1) \<or> number_of (pieces ! 1) = 0)
          then Inl (Schedule_validation Bad_step part)
        else let step = (if stepped then number_of (pieces ! 1) else 1) in
          bindE (parse_range f (pieces ! 0) stepped part) (\<lambda>(lo, hi). Inr (steps lo hi step)))"

text \<open>Adding to a \<open>Set\<close>, which keeps the order of insertion.\<close>

definition add_value :: "nat \<Rightarrow> nat list \<Rightarrow> nat list" where
  "add_value v vs = (if v \<in> set vs then vs else vs @ [v])"

definition parse_field :: "string \<Rightarrow> field_spec \<Rightarrow> (schedule_error, nat list) outcome" where
  "parse_field text f =
    (if text = [] then Inl (Schedule_validation Empty_field [])
     else bindE (foldE (\<lambda>vs part. bindE (parse_part f part) (\<lambda>new. Inr (fold add_value new vs)))
                   [] (split_on (CHR '','') text))
            (\<lambda>vs. Inr (sort vs)))"

subsection \<open>Expressions\<close>

record cron_expression =
  ce_source :: string
  ce_minutes :: "nat list"
  ce_hours :: "nat list"
  ce_days_of_month :: "nat list"
  ce_months :: "nat list"
  ce_days_of_week :: "nat list"
  ce_dom_restricted :: bool
  ce_dow_restricted :: bool
  ce_fixed_time :: bool

definition macros :: "(string \<times> string) list" where
  "macros =
    [(''@yearly'', ''0 0 1 1 *''), (''@annually'', ''0 0 1 1 *''), (''@monthly'', ''0 0 1 * *''),
     (''@weekly'', ''0 0 * * 0''), (''@daily'', ''0 0 * * *''), (''@midnight'', ''0 0 * * *''),
     (''@hourly'', ''0 * * * *'')]"

definition normal_weekdays :: "nat list \<Rightarrow> nat list" where
  "normal_weekdays ds = sort (fold add_value (map (\<lambda>d. if d = 7 then 0 else d) ds) [])"

definition fixed_text :: "string \<Rightarrow> bool" where
  "fixed_text s \<longleftrightarrow> CHR ''*'' \<notin> set s \<and> CHR ''/'' \<notin> set s"

definition parse_fields :: "string list \<Rightarrow> (schedule_error, cron_expression) outcome" where
  "parse_fields fs =
    bindE (parse_field (fs ! 0) minute_field) (\<lambda>minutes.
    bindE (parse_field (fs ! 1) hour_field) (\<lambda>hours.
    bindE (parse_field (fs ! 2) dom_field) (\<lambda>doms.
    bindE (parse_field (fs ! 3) month_field) (\<lambda>months.
    bindE (parse_field (fs ! 4) dow_field) (\<lambda>dows.
    Inr \<lparr>ce_source = join_with '' '' fs, ce_minutes = minutes, ce_hours = hours,
      ce_days_of_month = doms, ce_months = months, ce_days_of_week = normal_weekdays dows,
      ce_dom_restricted = \<not> starts_with ''*'' (fs ! 2),
      ce_dow_restricted = \<not> starts_with ''*'' (fs ! 4),
      ce_fixed_time = (fixed_text (fs ! 0) \<and> fixed_text (fs ! 1))\<rparr>)))))"

definition parse_cron_expression :: "string \<Rightarrow> (schedule_error, cron_expression) outcome" where
  "parse_cron_expression input =
    (let trimmed = trim input in
     if trimmed = [] then Inl (Schedule_validation Empty_expression [])
     else bindE
       (if starts_with ''@'' trimmed
        then case map_of macros (to_lower trimmed) of
            None \<Rightarrow> Inl (Schedule_validation Unknown_macro trimmed)
          | Some m \<Rightarrow> Inr m
        else Inr trimmed)
       (\<lambda>text. let fs = split_spaces text in
         if length fs = 6 then Inl (Schedule_validation Six_fields (fs ! 0))
         else if length fs \<noteq> 5 then Inl (Schedule_validation Not_five_fields text)
         else parse_fields fs))"

text \<open>The rule for the two day fields: when both are restricted, either suffices.\<close>

definition cron_matches_day :: "cron_expression \<Rightarrow> nat \<Rightarrow> nat \<Rightarrow> nat \<Rightarrow> bool" where
  "cron_matches_day e month day weekday \<longleftrightarrow>
    month \<in> set (ce_months e) \<and>
    (let dom_match = day \<in> set (ce_days_of_month e); dow_match = weekday \<in> set (ce_days_of_week e) in
     if ce_dom_restricted e \<and> ce_dow_restricted e then dom_match \<or> dow_match
     else dom_match \<and> dow_match)"

end
