(* ===== verification/SchedClock.thy ===== *)
theory SchedClock
  imports SchedCron
begin

text \<open>
  Time zone arithmetic (\<open>schedules/tz.ts\<close>). Instants and wall clock readings are
  milliseconds; a wall reading is a local date and time written as if it were UTC.
  What \<open>Intl\<close> shows for an instant in a zone is a parameter. \<open>Date.UTC\<close> and the UTC
  getters of \<open>Date\<close> are defined as the language defines them.
\<close>

abbreviation minute_ms :: int where "minute_ms \<equiv> 60000"
abbreviation hour_ms :: int where "hour_ms \<equiv> 3600000"
abbreviation day_ms :: int where "day_ms \<equiv> 86400000"

subsection \<open>Dates of the language\<close>

definition day_from_year :: "int \<Rightarrow> int" where
  "day_from_year y = 365 * (y - 1970) + (y - 1969) div 4 - (y - 1901) div 100 + (y - 1601) div 400"

definition leap_year :: "int \<Rightarrow> bool" where
  "leap_year y \<longleftrightarrow> y mod 4 = 0 \<and> (y mod 100 \<noteq> 0 \<or> y mod 400 = 0)"

text \<open>The largest year that starts on or before a day; the estimate is off by one at most.\<close>

definition year_from_day :: "int \<Rightarrow> int" where
  "year_from_day d = (let y = 1970 + (400 * d) div 146097 in
    if d < day_from_year y then y - 1 else if day_from_year (y + 1) \<le> d then y + 1 else y)"

text \<open>Days of a year before its month \<open>m\<close>, counted from 0.\<close>

definition days_before :: "bool \<Rightarrow> nat \<Rightarrow> int" where
  "days_before leap m = [0, 31, 59, 90, 120, 151, 181, 212, 243, 273, 304, 334] ! m
    + (if leap \<and> 2 \<le> m then 1 else 0)"

definition month_in_year :: "bool \<Rightarrow> int \<Rightarrow> nat" where
  "month_in_year leap doy = length (filter (\<lambda>m. days_before leap m \<le> doy) [1..<12])"

text \<open>\<open>Date.UTC\<close>: months count from 0, a year of two digits is of the last century.\<close>

definition date_utc :: "int \<Rightarrow> int \<Rightarrow> int \<Rightarrow> int \<Rightarrow> int \<Rightarrow> int" where
  "date_utc y m d h mi =
    (let y = (if 0 \<le> y \<and> y \<le> 99 then 1900 + y else y);
         ym = y + m div 12;
         day = day_from_year ym + days_before (leap_year ym) (nat (m mod 12)) + d - 1
     in day * day_ms + h * hour_ms + mi * minute_ms)"

record civil_time =
  cv_year :: int
  cv_month :: nat
  cv_day :: nat
  cv_hour :: nat
  cv_minute :: nat
  cv_weekday :: nat

definition civil :: "int \<Rightarrow> civil_time" where
  "civil wall =
    (let day = wall div day_ms; t = wall mod day_ms;
         y = year_from_day day; doy = day - day_from_year y;
         m = month_in_year (leap_year y) doy
     in \<lparr>cv_year = y, cv_month = m + 1, cv_day = nat (doy - days_before (leap_year y) m + 1),
         cv_hour = nat (t div hour_ms), cv_minute = nat (t mod hour_ms div minute_ms),
         cv_weekday = nat ((4 + day) mod 7)\<rparr>)"

subsection \<open>The platform\<close>

text \<open>What \<open>formatToParts\<close> shows, as numbers.\<close>

record wall_parts =
  wp_year :: int
  wp_month :: int
  wp_day :: int
  wp_hour :: int
  wp_minute :: int

text \<open>
  What the runtime supplies: the parts \<open>Intl\<close> shows for an instant in a zone, the name it
  resolves a zone to, its own zone, and the reading of a date text by \<open>Date.parse\<close>.
\<close>

record platform =
  pl_parts :: "string \<Rightarrow> int \<Rightarrow> wall_parts"
  pl_resolve :: "string \<Rightarrow> string option"
  pl_host :: string
  pl_date_parse :: "string \<Rightarrow> int option"

definition validate_time_zone :: "platform \<Rightarrow> string \<Rightarrow> (schedule_error, string) outcome" where
  "validate_time_zone P tz =
    (if trim tz = [] then Inl (Schedule_validation Bad_zone tz)
     else case pl_resolve P (trim tz) of
         Some z \<Rightarrow> Inr z
       | None \<Rightarrow> Inl (Schedule_validation Unknown_zone tz))"

definition host_time_zone :: "platform \<Rightarrow> string" where
  "host_time_zone P = (if pl_host P = [] then ''UTC'' else pl_host P)"

definition wall_of :: "platform \<Rightarrow> string \<Rightarrow> int \<Rightarrow> int" where
  "wall_of P tz t = (let p = pl_parts P tz t in
    date_utc (wp_year p) (wp_month p - 1) (wp_day p) (wp_hour p mod 24) (wp_minute p))"

definition offset_at :: "platform \<Rightarrow> string \<Rightarrow> int \<Rightarrow> int" where
  "offset_at P tz t = (let floored = t div minute_ms * minute_ms in wall_of P tz floored - floored)"

text \<open>Every instant whose wall clock reads \<open>wall\<close>, earliest first.\<close>

definition instants_for_wall :: "platform \<Rightarrow> string \<Rightarrow> int \<Rightarrow> int list" where
  "instants_for_wall P tz wall =
    (let offsets = remdups [offset_at P tz (wall - 26 * hour_ms), offset_at P tz wall,
                            offset_at P tz (wall + 26 * hour_ms)]
     in sort (filter (\<lambda>c. wall_of P tz c = wall) (map (\<lambda>offset. wall - offset) offsets)))"

text \<open>The search for the smallest minute of a range whose wall reading is past \<open>wall\<close>.\<close>

function first_minute_past :: "platform \<Rightarrow> string \<Rightarrow> int \<Rightarrow> int \<Rightarrow> int \<Rightarrow> int" where
  "first_minute_past P tz wall lo hi =
    (if lo < hi then
       let mid = (lo + hi) div 2 in
       if wall_of P tz (mid * minute_ms) > wall then first_minute_past P tz wall lo mid
       else first_minute_past P tz wall (mid + 1) hi
     else lo)"
  by auto
termination by (relation "measure (\<lambda>(P, tz, wall, lo, hi). nat (hi - lo))") auto

declare first_minute_past.simps [simp del]

definition first_instant_after_gap :: "platform \<Rightarrow> string \<Rightarrow> int \<Rightarrow> int" where
  "first_instant_after_gap P tz wall =
    (let a = offset_at P tz (wall - 26 * hour_ms);
         b = offset_at P tz (wall + 26 * hour_ms);
         lo = (wall - max a b) div minute_ms;
         hi = - ((- (wall - min a b)) div minute_ms)
     in first_minute_past P tz wall lo hi * minute_ms)"

definition pad2 :: "nat \<Rightarrow> string" where
  "pad2 n = (let s = decimal n in replicate (2 - length s) (CHR ''0'') @ s)"

definition format_wall :: "platform \<Rightarrow> string \<Rightarrow> int \<Rightarrow> string" where
  "format_wall P tz t = (let c = civil (wall_of P tz t) in
    int_text (cv_year c) @ ''-'' @ pad2 (cv_month c) @ ''-'' @ pad2 (cv_day c) @ '' ''
      @ pad2 (cv_hour c) @ '':'' @ pad2 (cv_minute c))"

subsection \<open>What zones are taken to do\<close>

text \<open>
  From 1973 on, every zone of the database is off UTC by whole minutes, by at most
  fourteen hours, and does not change twice within 52 hours.
\<close>

definition zone_start :: int where
  "zone_start = 94694400000"

definition zone_rules :: "platform \<Rightarrow> string \<Rightarrow> bool" where
  "zone_rules P tz \<longleftrightarrow>
    (\<forall>t \<ge> zone_start. wall_of P tz t = wall_of P tz (t div minute_ms * minute_ms)) \<and>
    (\<forall>t \<ge> zone_start. \<bar>offset_at P tz t\<bar> \<le> 14 * hour_ms) \<and>
    (\<forall>a b c. zone_start \<le> a \<and> a \<le> b \<and> b \<le> c \<and> c \<le> a + 52 * hour_ms
      \<longrightarrow> offset_at P tz b = offset_at P tz a \<or> offset_at P tz b = offset_at P tz c)"

definition day_start :: "int \<Rightarrow> int" where
  "day_start wall = wall div day_ms * day_ms"

text \<open>
  Between two instants no change of the clocks leads back across midnight. No zone is taken to do this always:
  America/St_Johns went back from 00:01 to 23:01 of the day before until 2011, and Goose_Bay, Moncton and Casey have done the
  like. A property that needs it names the span in which it does.
\<close>

definition days_in_order :: "platform \<Rightarrow> string \<Rightarrow> int \<Rightarrow> int \<Rightarrow> bool" where
  "days_in_order P tz a b \<longleftrightarrow>
    (\<forall>s t. a \<le> s \<and> s \<le> t \<and> t \<le> b \<longrightarrow> day_start (wall_of P tz s) \<le> day_start (wall_of P tz t))"

lemma days_in_orderD: "days_in_order P tz a b \<Longrightarrow> a \<le> s \<Longrightarrow> s \<le> t \<Longrightarrow> t \<le> b \<Longrightarrow> day_start (wall_of P tz s) \<le> day_start (wall_of P tz t)"
  by (simp add: days_in_order_def)

end
