(* ===== verification/SchedFire.thy ===== *)
theory SchedFire
  imports SchedClock
begin

text \<open>
  When a schedule fires (\<open>schedules/next-fire.ts\<close>): the instants of one local day, the
  next instant, the previous one, and how many fall in a window. A date text of a spec
  stands as what \<open>Date.parse\<close> makes of it. Instants are whole milliseconds;
  arithmetic on them is exact, as it is in the code below \<open>2 ^ 53\<close>.
\<close>

subsection \<open>Specs\<close>

datatype date = Valid int | Invalid_date

text \<open>\<open>new Date(t)\<close> of an instant out of range is the invalid date.\<close>

definition new_date :: "int \<Rightarrow> date" where
  "new_date t = (if \<bar>t\<bar> \<le> 8640000000000000 then Valid t else Invalid_date)"

datatype schedule_spec =
    At_spec date
  | Every_spec int date
  | Cron_spec string string

definition cron_horizon_days :: nat where
  "cron_horizon_days = 366 * 5 + 2"

definition occurrence_count_cap :: int where
  "occurrence_count_cap = 100000"

subsection \<open>One day of a cron expression\<close>

text \<open>The instants of one slot of a day the offset changes on, or next to.\<close>

definition slot_instants :: "platform \<Rightarrow> cron_expression \<Rightarrow> string \<Rightarrow> int \<Rightarrow> int list" where
  "slot_instants P e tz wall =
    (let instants = instants_for_wall P tz wall in
     if instants = [] then
       (if ce_fixed_time e then [first_instant_after_gap P tz wall] else [])
     else if ce_fixed_time e then take 1 instants else instants)"

definition add_instant :: "int \<Rightarrow> int list \<Rightarrow> int list" where
  "add_instant t out = (if t \<in> set out then out else out @ [t])"

definition day_slots :: "cron_expression \<Rightarrow> int \<Rightarrow> int list" where
  "day_slots e day = concat (map (\<lambda>h. map (\<lambda>m. day + int h * hour_ms + int m * minute_ms) (ce_minutes e)) (ce_hours e))"

definition cron_instants_on_day :: "platform \<Rightarrow> cron_expression \<Rightarrow> string \<Rightarrow> int \<Rightarrow> int list" where
  "cron_instants_on_day P e tz day =
    (let c = civil day in
     if \<not> cron_matches_day e (cv_month c) (cv_day c) (cv_weekday c) then []
     else
       let earlier = offset_at P tz (day - 14 * hour_ms);
           later = offset_at P tz (day + day_ms + 14 * hour_ms)
       in if earlier = later then map (\<lambda>wall. wall - earlier) (day_slots e day)
          else sort (fold (\<lambda>wall out. fold add_instant (slot_instants P e tz wall) out) (day_slots e day) []))"

subsection \<open>Next and previous\<close>

definition valid_every :: "int \<Rightarrow> date \<Rightarrow> (schedule_error, int) outcome" where
  "valid_every every_ms anchor_at = (case anchor_at of
      Invalid_date \<Rightarrow> Inl (Schedule_validation Bad_anchor [])
    | Valid anchor \<Rightarrow>
        if \<bar>every_ms\<bar> > max_safe_integer \<or> every_ms < minute_ms \<or> every_ms mod minute_ms \<noteq> 0
        then Inl (Schedule_validation Bad_interval [])
        else Inr anchor)"

text \<open>The walk over days, forward and backward; the last argument is the days left.\<close>

fun first_after :: "platform \<Rightarrow> cron_expression \<Rightarrow> string \<Rightarrow> int \<Rightarrow> int \<Rightarrow> nat \<Rightarrow> int option" where
  "first_after P e tz after day 0 = None"
| "first_after P e tz after day (Suc n) =
    (case find (\<lambda>t. t > after) (cron_instants_on_day P e tz day) of
       Some t \<Rightarrow> Some t
     | None \<Rightarrow> first_after P e tz after (day + day_ms) n)"

fun last_before :: "platform \<Rightarrow> cron_expression \<Rightarrow> string \<Rightarrow> int \<Rightarrow> int \<Rightarrow> nat \<Rightarrow> int option" where
  "last_before P e tz before day 0 = None"
| "last_before P e tz before day (Suc n) =
    (case find (\<lambda>t. t \<le> before) (rev (cron_instants_on_day P e tz day)) of
       Some t \<Rightarrow> Some t
     | None \<Rightarrow> last_before P e tz before (day - day_ms) n)"

definition next_fire_time :: "platform \<Rightarrow> schedule_spec \<Rightarrow> int \<Rightarrow> (schedule_error, date option) outcome" where
  "next_fire_time P spec after = (case spec of
      At_spec d \<Rightarrow> (case d of
          Valid at \<Rightarrow> Inr (if at > after then Some (new_date at) else None)
        | Invalid_date \<Rightarrow> Inr None)
    | Every_spec every_ms anchor_at \<Rightarrow>
        bindE (valid_every every_ms anchor_at) (\<lambda>anchor.
          let k = (if after < anchor then 1 else (after - anchor) div every_ms + 1)
          in Inr (Some (new_date (anchor + max 1 k * every_ms))))
    | Cron_spec expr tz \<Rightarrow>
        bindE (parse_cron_expression expr) (\<lambda>e.
          Inr (map_option new_date (first_after P e tz after
            (day_start (after + offset_at P tz after) - day_ms) (Suc cron_horizon_days)))))"

definition previous_fire_time :: "platform \<Rightarrow> schedule_spec \<Rightarrow> int \<Rightarrow> (schedule_error, int option) outcome" where
  "previous_fire_time P spec before = (case spec of
      At_spec d \<Rightarrow> (case d of
          Valid at \<Rightarrow> Inr (if at \<le> before then Some at else None)
        | Invalid_date \<Rightarrow> Inr None)
    | Every_spec every_ms anchor_at \<Rightarrow>
        bindE (valid_every every_ms anchor_at) (\<lambda>anchor.
          let k = (before - anchor) div every_ms
          in Inr (if k \<ge> 1 then Some (anchor + k * every_ms) else None))
    | Cron_spec expr tz \<Rightarrow>
        bindE (parse_cron_expression expr) (\<lambda>e.
          Inr (last_before P e tz before
            (day_start (before + offset_at P tz before) + day_ms) (Suc cron_horizon_days))))"

subsection \<open>Counting\<close>

record occurrence_count =
  oc_count :: int
  oc_capped :: bool
  oc_first :: "int option"
  oc_latest :: "int option"

definition no_occurrence :: occurrence_count where
  "no_occurrence = \<lparr>oc_count = 0, oc_capped = False, oc_first = None, oc_latest = None\<rparr>"

text \<open>
  One day of the count. Once the first occurrence is known, a day without a change of
  offset that lies in the window counts by a product.
\<close>

definition count_day :: "platform \<Rightarrow> cron_expression \<Rightarrow> string \<Rightarrow> int \<Rightarrow> int \<Rightarrow> int
    \<Rightarrow> int \<times> int option \<Rightarrow> int \<times> int option" where
  "count_day P e tz from_ms to_ms day acc =
    (let (count, first) = acc; c = civil day in
     if \<not> cron_matches_day e (cv_month c) (cv_day c) (cv_weekday c) then acc
     else
       let o1 = offset_at P tz (day - 14 * hour_ms);
           o2 = offset_at P tz (day + day_ms + 14 * hour_ms)
       in if first \<noteq> None \<and> o1 = o2 \<and> day - o1 > from_ms \<and> day + day_ms - o1 \<le> to_ms
          then (count + int (length (ce_hours e)) * int (length (ce_minutes e)), first)
          else
            let hits = filter (\<lambda>t. from_ms < t \<and> t \<le> to_ms) (cron_instants_on_day P e tz day)
            in (count + int (length hits),
                if first = None \<and> hits \<noteq> [] then Some (hd hits) else first))"

fun count_days :: "platform \<Rightarrow> cron_expression \<Rightarrow> string \<Rightarrow> int \<Rightarrow> int \<Rightarrow> int \<Rightarrow> int \<Rightarrow> nat
    \<Rightarrow> int \<times> int option \<Rightarrow> int \<times> int option" where
  "count_days P e tz from_ms to_ms cap day 0 acc = acc"
| "count_days P e tz from_ms to_ms cap day (Suc n) acc =
    (let acc' = count_day P e tz from_ms to_ms day acc in
     if fst acc' > cap then acc' else count_days P e tz from_ms to_ms cap (day + day_ms) n acc')"

definition count_occurrences :: "platform \<Rightarrow> schedule_spec \<Rightarrow> int \<Rightarrow> int \<Rightarrow> int
    \<Rightarrow> (schedule_error, occurrence_count) outcome" where
  "count_occurrences P spec from_ms to_ms cap =
    (if to_ms \<le> from_ms then Inr no_occurrence
     else case spec of
      At_spec d \<Rightarrow> (case d of
          Valid at \<Rightarrow> Inr (if at > from_ms \<and> at \<le> to_ms
            then \<lparr>oc_count = 1, oc_capped = False, oc_first = Some at, oc_latest = Some at\<rparr>
            else no_occurrence)
        | Invalid_date \<Rightarrow> Inr no_occurrence)
    | Every_spec every_ms anchor_at \<Rightarrow>
        bindE (valid_every every_ms anchor_at) (\<lambda>anchor.
          let first_k = (if from_ms < anchor then 1 else (from_ms - anchor) div every_ms + 1);
              last_k = (to_ms - anchor) div every_ms;
              k0 = max 1 first_k
          in if last_k < k0 then Inr no_occurrence
             else let total = last_k - k0 + 1 in
               Inr \<lparr>oc_count = min total cap, oc_capped = (total > cap),
                 oc_first = Some (anchor + k0 * every_ms), oc_latest = Some (anchor + last_k * every_ms)\<rparr>)
    | Cron_spec expr tz \<Rightarrow>
        bindE (parse_cron_expression expr) (\<lambda>e.
        bindE (previous_fire_time P spec to_ms) (\<lambda>previous. case previous of
            None \<Rightarrow> Inr no_occurrence
          | Some latest \<Rightarrow>
              if latest \<le> from_ms then Inr no_occurrence
              else
                let last_day = day_start (to_ms + offset_at P tz to_ms) + day_ms;
                    day = day_start (from_ms + offset_at P tz from_ms) - day_ms;
                    (count, first) = count_days P e tz from_ms to_ms cap day
                      (nat ((last_day - day) div day_ms + 1)) (0, None)
                in Inr \<lparr>oc_count = min count cap, oc_capped = (count > cap),
                     oc_first = first, oc_latest = Some latest\<rparr>)))"

text \<open>Whether a spec may be accepted: its zone and expression are valid and it has a next fire time.\<close>

definition assert_spec_fires :: "platform \<Rightarrow> schedule_spec \<Rightarrow> int \<Rightarrow> (schedule_error, unit) outcome" where
  "assert_spec_fires P spec now =
    bindE (case spec of
        Cron_spec expr tz \<Rightarrow>
          bindE (validate_time_zone P tz) (\<lambda>_. bindE (parse_cron_expression expr) (\<lambda>_. Inr ()))
      | _ \<Rightarrow> Inr ())
    (\<lambda>_. bindE (next_fire_time P spec now) (\<lambda>next_time.
      if next_time = None
      then Inl (case spec of
          At_spec _ \<Rightarrow> Schedule_validation In_the_past []
        | Every_spec _ _ \<Rightarrow> Schedule_validation Never_fires []
        | Cron_spec expr _ \<Rightarrow> Schedule_validation Never_fires expr)
      else Inr ()))"

text \<open>The next few fire times. An interval measured from the invalid date gives it again.\<close>

fun upcoming_fire_times :: "platform \<Rightarrow> schedule_spec \<Rightarrow> int \<Rightarrow> nat \<Rightarrow> (schedule_error, date list) outcome" where
  "upcoming_fire_times P spec after 0 = Inr []"
| "upcoming_fire_times P spec after (Suc n) =
    bindE (next_fire_time P spec after) (\<lambda>next_time. case next_time of
        None \<Rightarrow> Inr []
      | Some Invalid_date \<Rightarrow> Inr (replicate (Suc n) Invalid_date)
      | Some (Valid t) \<Rightarrow> bindE (upcoming_fire_times P spec t n) (\<lambda>ts. Inr (Valid t # ts)))"

end
