(* ===== verification/SchedClockProofs.thy ===== *)
theory SchedClockProofs
  imports SchedClock
begin

text \<open>
  The calendar arithmetic is exact in both directions, and under the rules of zones
  the search for the instants of a wall reading is complete and the search for the end
  of a gap finds it.
\<close>

subsection \<open>The calendar\<close>

lemma div_step:
  fixes x n :: int
  assumes n: "0 < n"
  shows "(x + 1) div n = x div n + (if (x + 1) mod n = 0 then 1 else 0)"
proof -
  define q r where "q = x div n" and "r = x mod n"
  have x: "x = n * q + r" and r: "0 \<le> r" "r < n"
    using n by (simp_all add: q_def r_def)
  show ?thesis
  proof (cases "r + 1 = n")
    case True
    then have e: "x + 1 = n * (q + 1) + 0" using x by (simp add: algebra_simps)
    then have "(x + 1) div n = q + 1" "(x + 1) mod n = 0"
      using n int_div_pos_eq [OF e] int_mod_pos_eq [OF e] by simp_all
    then show ?thesis by (simp add: q_def)
  next
    case False
    then have e: "x + 1 = n * q + (r + 1)" "r + 1 < n" using x r by simp_all
    then have "(x + 1) div n = q" "(x + 1) mod n = r + 1"
      using r int_div_pos_eq [OF e(1)] int_mod_pos_eq [OF e(1)] by simp_all
    then show ?thesis using r by (simp add: q_def)
  qed
qed

lemma mod_shift: "n dvd c \<Longrightarrow> (y - c) mod n = 0 \<longleftrightarrow> y mod n = 0" for y c n :: int
  by (simp add: mod_eq_0_iff_dvd dvd_diff_left_iff)

lemma div_at:
  fixes y c d n :: int
  assumes "0 < n" "n dvd c" "d = c + 1"
  shows "(y - c) div n = (y - d) div n + (if y mod n = 0 then 1 else 0)"
  using div_step [OF assms(1), of "y - d"] mod_shift [OF assms(2), of y] assms(3)
  by (simp only: diff_add_eq add_diff_cancel_right)

lemma numeral_shift:
  "y + 1 - 1970 = y - (1969 :: int)" "y + 1 - 1969 = y - (1968 :: int)"
  "y + 1 - 1901 = y - (1900 :: int)" "y + 1 - 1601 = y - (1600 :: int)"
  by simp_all

lemma year_sum: "365 * (y - 1969) + (a + x) - (b + u) + (c + v)
    = 365 * (y - 1970) + a - b + c + (365 + x - u + v)" for a :: int
  by simp

lemma year_length: "day_from_year (y + 1) = day_from_year y + (if leap_year y then 366 else 365)"
proof -
  have s4: "(y - 1968) div 4 = (y - 1969) div 4 + (if y mod 4 = 0 then 1 else 0)"
    by (rule div_at) simp_all
  have s100: "(y - 1900) div 100 = (y - 1901) div 100 + (if y mod 100 = 0 then 1 else 0)"
    by (rule div_at) simp_all
  have s400: "(y - 1600) div 400 = (y - 1601) div 400 + (if y mod 400 = 0 then 1 else 0)"
    by (rule div_at) simp_all
  have i: "y mod 400 = 0 \<Longrightarrow> y mod 100 = 0" "y mod 100 = 0 \<Longrightarrow> y mod 4 = 0"
    using dvd_trans [of 100 400 y] dvd_trans [of 4 100 y] by (simp_all add: mod_eq_0_iff_dvd)
  have "day_from_year (y + 1) = 365 * (y - 1969) + (y - 1968) div 4 - (y - 1900) div 100 + (y - 1600) div 400"
    unfolding day_from_year_def by (simp only: numeral_shift)
  also have "\<dots> = day_from_year y + (365 + (if y mod 4 = 0 then 1 else 0) - (if y mod 100 = 0 then 1 else 0)
      + (if y mod 400 = 0 then 1 else 0))"
    unfolding s4 s100 s400 day_from_year_def by (rule year_sum)
  also have "365 + (if y mod 4 = 0 then 1 else 0) - (if y mod 100 = 0 then 1 else 0)
      + (if y mod 400 = 0 then 1 else 0) = (if leap_year y then 366 else 365 :: int)"
    unfolding leap_year_def using i
    by (cases "y mod 4 = 0"; cases "y mod 100 = 0"; cases "y mod 400 = 0"; simp)
  finally show ?thesis .
qed

lemma day_from_year_step: "day_from_year y < day_from_year (y + 1)"
  by (simp add: year_length)

lemma day_from_year_mono: "x \<le> y \<Longrightarrow> day_from_year x \<le> day_from_year y"
proof (induction y rule: int_ge_induct)
  case (step i)
  then show ?case using day_from_year_step [of i] by simp
qed simp

lemma year_unique:
  assumes "day_from_year x \<le> d" "d < day_from_year (x + 1)"
    "day_from_year y \<le> d" "d < day_from_year (y + 1)"
  shows "x = y"
proof -
  have "\<not> x + 1 \<le> y" using day_from_year_mono [of "x + 1" y] assms by linarith
  moreover have "\<not> y + 1 \<le> x" using day_from_year_mono [of "y + 1" x] assms by linarith
  ultimately show ?thesis by linarith
qed

lemma year_from_day_bounds:
  "day_from_year (year_from_day d) \<le> d \<and> d < day_from_year (year_from_day d + 1)"
proof -
  define q where "q = (400 * d) div 146097"
  have q: "146097 * q \<le> 400 * d" "400 * d < 146097 * q + 146097"
    using pos_mod_bound [of 146097 "400 * d"] pos_mod_sign [of 146097 "400 * d"]
      mult_div_mod_eq [of 146097 "400 * d"] by (simp_all add: q_def)
  have low: "day_from_year (1970 + q - 1) \<le> d"
    using q unfolding day_from_year_def by simp
  have high: "d < day_from_year (1970 + q + 2)"
    using q unfolding day_from_year_def by simp
  show ?thesis
    using low high by (auto simp: year_from_day_def q_def Let_def algebra_simps)
qed

lemma year_from_day: "day_from_year y \<le> d \<Longrightarrow> d < day_from_year (y + 1) \<Longrightarrow> year_from_day d = y"
  using year_from_day_bounds [of d] year_unique by blast

lemma twelve: "m < 12 \<Longrightarrow> m = 0 \<or> m = 1 \<or> m = 2 \<or> m = 3 \<or> m = 4 \<or> m = 5 \<or> m = 6 \<or> m = 7
    \<or> m = 8 \<or> m = 9 \<or> m = 10 \<or> m = (11::nat)"
  by presburger

definition days_until :: "bool \<Rightarrow> nat \<Rightarrow> int" where
  "days_until leap m = (if m = 12 then (if leap then 366 else 365) else days_before leap m)"

lemma month_in_year:
  assumes "m < 12" "days_before leap m \<le> doy" "doy < days_until leap (m + 1)"
  shows "month_in_year leap doy = m"
  using twelve [OF assms(1)] assms(2,3)
  by (elim disjE) (auto simp: month_in_year_def days_until_def days_before_def upt_rec split: if_splits)

lemma month_in_year_bounds:
  assumes "0 \<le> doy" "doy < (if leap then 366 else 365)"
  shows "month_in_year leap doy < 12 \<and> days_before leap (month_in_year leap doy) \<le> doy
    \<and> doy < days_until leap (month_in_year leap doy + 1)"
proof -
  have "\<exists>m<12. days_before leap m \<le> doy \<and> doy < days_until leap (m + 1)"
  proof (rule ccontr)
    assume none: "\<not> ?thesis"
    have "m < 12 \<Longrightarrow> days_before leap m \<le> doy" for m
    proof (induction m)
      case 0
      then show ?case using assms by (simp add: days_before_def)
    next
      case (Suc m)
      then have "\<not> doy < days_until leap (m + 1)" using none by auto
      then show ?case using Suc by (simp add: days_until_def)
    qed
    then have "days_before leap 11 \<le> doy" by simp
    moreover have "\<not> (days_before leap 11 \<le> doy \<and> doy < days_until leap (11 + 1))"
      using none by fastforce
    ultimately show False using assms by (simp add: days_until_def)
  qed
  then show ?thesis using month_in_year by auto
qed

lemma days_before_bounds: "m < 12 \<Longrightarrow> 0 \<le> days_before leap m \<and> days_before leap m < days_until leap (m + 1)
    \<and> days_until leap (m + 1) \<le> (if leap then 366 else 365)"
  by (drule twelve) (elim disjE; simp add: days_before_def days_until_def)

text \<open>A wall reading, taken apart and put together again, is itself, to the minute.\<close>

definition civil_utc :: "civil_time \<Rightarrow> int" where
  "civil_utc c = date_utc (cv_year c) (int (cv_month c) - 1) (int (cv_day c)) (int (cv_hour c)) (int (cv_minute c))"

lemma day_split: "x = x div day_ms * day_ms + x mod day_ms" for x :: int
  by (simp only: div_mult_mod_eq)

lemma time_split:
  assumes "0 \<le> t"
  shows "t div hour_ms * hour_ms + t mod hour_ms div minute_ms * minute_ms = t div minute_ms * minute_ms"
proof -
  have "t div hour_ms = t div minute_ms div 60" by (simp add: zdiv_zmult2_eq [symmetric])
  moreover have "t mod hour_ms = minute_ms * (t div minute_ms mod 60) + t mod minute_ms"
    using zmod_zmult2_eq [of 60 t minute_ms] by simp
  then have "t mod hour_ms div minute_ms = t div minute_ms mod 60" by simp
  moreover have "t div minute_ms div 60 * hour_ms = t div minute_ms div 60 * 60 * minute_ms" by simp
  ultimately show ?thesis
    by (metis distrib_right div_mult_mod_eq)
qed

lemma civil_fields:
  fixes wall :: int
  defines "c \<equiv> civil wall" and "day \<equiv> wall div day_ms"
  shows "1 \<le> cv_month c" "cv_month c \<le> 12" "1 \<le> cv_day c" "cv_day c \<le> 31" "cv_hour c < 24" "cv_minute c < 60"
    and "cv_weekday c = nat ((4 + day) mod 7)"
    and "day = day_from_year (cv_year c) + days_before (leap_year (cv_year c)) (cv_month c - 1) + int (cv_day c) - 1"
    and "int (cv_hour c) = wall mod day_ms div hour_ms"
    and "int (cv_minute c) = wall mod day_ms mod hour_ms div minute_ms"
proof -
  define y where "y = year_from_day day"
  define doy where "doy = day - day_from_year y"
  define m where "m = month_in_year (leap_year y) doy"
  have doy: "0 \<le> doy" "doy < (if leap_year y then 366 else 365)"
    using year_from_day_bounds [of day] year_length [of y] by (auto simp: doy_def y_def)
  note m = month_in_year_bounds [OF doy, folded m_def]
  have span: "days_until (leap_year y) (m + 1) \<le> days_before (leap_year y) m + 31"
    using twelve [of m] m by (auto simp: days_until_def days_before_def)
  define h mi where "h = wall mod day_ms div hour_ms" and "mi = wall mod day_ms mod hour_ms div minute_ms"
  have h: "0 \<le> h" "h < 24" "0 \<le> mi" "mi < 60"
    by (simp_all add: h_def mi_def)
  have c: "cv_year c = y" "cv_month c = m + 1" "cv_day c = nat (doy - days_before (leap_year y) m + 1)"
    "cv_weekday c = nat ((4 + day) mod 7)" "cv_hour c = nat h" "cv_minute c = nat mi"
    by (simp_all add: c_def civil_def Let_def day_def y_def doy_def m_def h_def mi_def)
  show "1 \<le> cv_month c" "cv_month c \<le> 12" "1 \<le> cv_day c" "cv_day c \<le> 31"
    using m span by (auto simp: c nat_le_iff Suc_le_eq)
  show "cv_hour c < 24" "cv_minute c < 60" "cv_weekday c = nat ((4 + day) mod 7)"
    "int (cv_hour c) = wall mod day_ms div hour_ms"
    "int (cv_minute c) = wall mod day_ms mod hour_ms div minute_ms"
    unfolding h_def [symmetric] mi_def [symmetric] using h by (simp_all add: c nat_less_iff)
  show "day = day_from_year (cv_year c) + days_before (leap_year (cv_year c)) (cv_month c - 1) + int (cv_day c) - 1"
    using m by (simp add: c doy_def)
qed

theorem civil_utc_civil:
  assumes "100 \<le> cv_year (civil wall)"
  shows "civil_utc (civil wall) = wall div minute_ms * minute_ms"
proof -
  let ?c = "civil wall"
  note f = civil_fields [of wall]
  have m: "(int (cv_month ?c) - 1) div 12 = 0" "nat ((int (cv_month ?c) - 1) mod 12) = cv_month ?c - 1"
    using f(1,2) by (auto simp: nat_diff_distrib)
  have "civil_utc ?c = wall div day_ms * day_ms + int (cv_hour ?c) * hour_ms + int (cv_minute ?c) * minute_ms"
    using assms m f(8) by (simp add: civil_utc_def date_utc_def Let_def)
  also have "\<dots> = wall div day_ms * day_ms + wall mod day_ms div minute_ms * minute_ms"
    unfolding f(9,10) add.assoc by (simp only: time_split [OF pos_mod_sign] zero_less_numeral)
  also have "wall div day_ms * day_ms + wall mod day_ms div minute_ms * minute_ms = wall div minute_ms * minute_ms"
  proof -
    have "wall mod day_ms = minute_ms * (wall div minute_ms mod 1440) + wall mod minute_ms"
      using zmod_zmult2_eq [of 1440 wall minute_ms] by simp
    then have "wall mod day_ms div minute_ms = wall div minute_ms mod 1440" by simp
    moreover have "wall div day_ms = wall div minute_ms div 1440" by (simp add: zdiv_zmult2_eq [symmetric])
    moreover have "wall div minute_ms div 1440 * day_ms = wall div minute_ms div 1440 * 1440 * minute_ms" by simp
    ultimately show ?thesis by (metis distrib_right div_mult_mod_eq)
  qed
  finally show ?thesis .
qed

subsection \<open>Zones under the rules\<close>

lemma floor_minute: "t mod minute_ms = 0 \<Longrightarrow> t div minute_ms * minute_ms = t" for t :: int
  by (metis add.right_neutral div_mult_mod_eq)

lemma date_utc_minutes: "date_utc y m d h mi mod minute_ms = 0"
proof -
  have "day * day_ms + h * hour_ms + mi * minute_ms = (day * 1440 + h * 60 + mi) * minute_ms" for day
    by (simp add: algebra_simps)
  then show ?thesis by (simp only: date_utc_def Let_def mod_mult_self2_is_0)
qed

lemma wall_of_minutes [simp]: "wall_of P tz t mod minute_ms = 0"
  by (simp only: wall_of_def Let_def date_utc_minutes)

lemma floor_bounds: "t div minute_ms * minute_ms \<le> t \<and> t < t div minute_ms * minute_ms + minute_ms" for t :: int
  using div_mult_mod_eq [of t minute_ms] pos_mod_sign [of minute_ms t] pos_mod_bound [of minute_ms t] by linarith

lemma offset_minutes [simp]: "offset_at P tz t mod minute_ms = 0"
  unfolding offset_at_def Let_def
  by (metis diff_0_right mod_diff_left_eq mod_diff_right_eq mod_mult_self2_is_0 wall_of_minutes)

lemma zone_wall:
  assumes "zone_rules P tz" "zone_start \<le> t"
  shows "wall_of P tz t = t div minute_ms * minute_ms + offset_at P tz t"
  using assms by (simp add: zone_rules_def offset_at_def Let_def)

lemma zone_wall_minute:
  assumes "zone_rules P tz" "zone_start \<le> t" "t mod minute_ms = 0"
  shows "wall_of P tz t = t + offset_at P tz t"
  using zone_wall [OF assms(1,2)] floor_minute [OF assms(3)] by simp

lemma zone_offset:
  assumes "zone_rules P tz" "zone_start \<le> t"
  shows "- (14 * hour_ms) \<le> offset_at P tz t" "offset_at P tz t \<le> 14 * hour_ms"
  using assms unfolding zone_rules_def by (force simp: abs_le_iff)+

lemma zone_change:
  assumes "zone_rules P tz" "zone_start \<le> a" "a \<le> b" "b \<le> c" "c \<le> a + 52 * hour_ms"
  shows "offset_at P tz b = offset_at P tz a \<or> offset_at P tz b = offset_at P tz c"
  using assms unfolding zone_rules_def by blast

text \<open>An instant and its wall reading are at most fourteen hours and a minute apart.\<close>

lemma wall_near:
  assumes "zone_rules P tz" "zone_start \<le> t"
  shows "wall_of P tz t \<le> t + 14 * hour_ms" "t - 14 * hour_ms - minute_ms < wall_of P tz t"
  using zone_wall [OF assms] zone_offset [OF assms] floor_bounds [of t] by linarith+

lemma instants_for_wall_iff:
  assumes z: "zone_rules P tz" and w: "wall mod minute_ms = 0" "zone_start + 26 * hour_ms \<le> wall"
  shows "t \<in> set (instants_for_wall P tz wall)
    \<longleftrightarrow> zone_start \<le> t \<and> t mod minute_ms = 0 \<and> wall_of P tz t = wall"
proof
  let ?o = "offset_at P tz"
  have set_eq: "t \<in> set (instants_for_wall P tz wall)
      \<longleftrightarrow> wall_of P tz t = wall
        \<and> (\<exists>u \<in> {wall - 26 * hour_ms, wall, wall + 26 * hour_ms}. t = wall - ?o u)"
    unfolding instants_for_wall_def Let_def by auto
  {
    assume "t \<in> set (instants_for_wall P tz wall)"
    then obtain u where u: "u \<in> {wall - 26 * hour_ms, wall, wall + 26 * hour_ms}" "t = wall - ?o u"
      and r: "wall_of P tz t = wall"
      using set_eq by blast
    have "zone_start \<le> u" using u(1) w(2) by auto
    then have "zone_start \<le> t" using zone_offset [OF z, of u] w(2) u(2) by linarith
    moreover have "t mod minute_ms = 0"
      using w(1) u(2) offset_minutes [of P tz u] by (metis diff_0_right mod_diff_left_eq mod_diff_right_eq)
    ultimately show "zone_start \<le> t \<and> t mod minute_ms = 0 \<and> wall_of P tz t = wall" using r by simp
  next
    assume t: "zone_start \<le> t \<and> t mod minute_ms = 0 \<and> wall_of P tz t = wall"
    then have e: "t = wall - ?o t" using zone_wall_minute [OF z, of t] by simp
    have "?o t = ?o (wall - 26 * hour_ms) \<or> ?o t = ?o (wall + 26 * hour_ms)"
      by (rule zone_change [OF z]) (use w(2) t e zone_offset [OF z, of t] in linarith)+
    then show "t \<in> set (instants_for_wall P tz wall)" using set_eq t e by auto
  }
qed

lemma sorted_distinct_less: "sorted xs \<Longrightarrow> distinct xs \<Longrightarrow> sorted_wrt (<) xs" for xs :: "'a :: linorder list"
  by (simp add: strict_sorted_iff)

lemma instants_for_wall_sorted: "sorted_wrt (<) (instants_for_wall P tz wall)"
  unfolding instants_for_wall_def Let_def
  by (rule sorted_distinct_less) (simp_all add: distinct_map inj_on_def)

text \<open>A reading the clocks skip: the instants before and after it, and the search for the change.\<close>

lemma first_minute_past:
  assumes "lo \<le> hi" "wall_of P tz (hi * minute_ms) > wall"
    and "\<And>a b. lo \<le> a \<Longrightarrow> a \<le> b \<Longrightarrow> b \<le> hi \<Longrightarrow> wall_of P tz (a * minute_ms) > wall
        \<Longrightarrow> wall_of P tz (b * minute_ms) > wall"
  defines "m \<equiv> first_minute_past P tz wall lo hi"
  shows "lo \<le> m \<and> m \<le> hi \<and> wall_of P tz (m * minute_ms) > wall
    \<and> (\<forall>k. lo \<le> k \<and> k < m \<longrightarrow> wall_of P tz (k * minute_ms) \<le> wall)"
  using assms(1-3) unfolding m_def
proof (induction P tz wall lo hi rule: first_minute_past.induct)
  case (1 P tz wall lo hi)
  show ?case
  proof (cases "lo < hi")
    case False
    then show ?thesis using "1.prems" by (subst (1 2 3 4) first_minute_past.simps) auto
  next
    case lt: True
    define mid where "mid = (lo + hi) div 2"
    have mid: "lo \<le> mid" "mid < hi" using lt by (auto simp: mid_def)
    show ?thesis
    proof (cases "wall_of P tz (mid * minute_ms) > wall")
      case True
      have e: "first_minute_past P tz wall lo hi = first_minute_past P tz wall lo mid"
        using lt True by (subst first_minute_past.simps) (simp add: mid_def Let_def)
      have "lo \<le> first_minute_past P tz wall lo mid
          \<and> first_minute_past P tz wall lo mid \<le> mid
          \<and> wall_of P tz (first_minute_past P tz wall lo mid * minute_ms) > wall
          \<and> (\<forall>k. lo \<le> k \<and> k < first_minute_past P tz wall lo mid
              \<longrightarrow> wall_of P tz (k * minute_ms) \<le> wall)"
      proof (rule "1.IH"(1) [OF lt mid_def True mid(1) True])
        fix a b
        assume "lo \<le> a" "a \<le> b" "b \<le> mid" "wall_of P tz (a * minute_ms) > wall"
        then show "wall_of P tz (b * minute_ms) > wall"
          using mid by (intro "1.prems"(3) [of a b]) linarith+
      qed
      then show ?thesis
        unfolding e using mid by (elim conjE, intro conjI) (assumption | linarith)+
    next
      case False
      have e: "first_minute_past P tz wall lo hi = first_minute_past P tz wall (mid + 1) hi"
        using lt False by (subst first_minute_past.simps) (simp add: mid_def Let_def)
      have below: "wall_of P tz (k * minute_ms) \<le> wall" if "lo \<le> k" "k \<le> mid" for k
        using "1.prems"(3) [of k mid] that mid False by force
      have "mid + 1 \<le> first_minute_past P tz wall (mid + 1) hi
          \<and> first_minute_past P tz wall (mid + 1) hi \<le> hi
          \<and> wall_of P tz (first_minute_past P tz wall (mid + 1) hi * minute_ms) > wall
          \<and> (\<forall>k. mid + 1 \<le> k \<and> k < first_minute_past P tz wall (mid + 1) hi
              \<longrightarrow> wall_of P tz (k * minute_ms) \<le> wall)"
      proof (rule "1.IH"(2) [OF lt mid_def False])
        fix a b
        assume "mid + 1 \<le> a" "a \<le> b" "b \<le> hi" "wall_of P tz (a * minute_ms) > wall"
        then show "wall_of P tz (b * minute_ms) > wall"
          using mid by (intro "1.prems"(3) [of a b]) linarith+
      qed (use mid "1.prems"(2) in linarith)+
      then show ?thesis unfolding e using below mid by (smt (verit, best))
    qed
  qed
qed

text \<open>Around a reading the clocks skip they change once, forward.\<close>

lemma gap_change:
  assumes z: "zone_rules P tz" and w: "wall mod minute_ms = 0" "zone_start + 26 * hour_ms \<le> wall"
    and gap: "instants_for_wall P tz wall = []"
  defines "a \<equiv> offset_at P tz (wall - 26 * hour_ms)" and "b \<equiv> offset_at P tz (wall + 26 * hour_ms)"
  shows "a < b"
    and "\<And>t. t mod minute_ms = 0 \<Longrightarrow> wall - b \<le> t \<Longrightarrow> t \<le> wall - a
      \<Longrightarrow> wall_of P tz t > wall \<longleftrightarrow> offset_at P tz t = b"
    and "\<And>s t. wall - 26 * hour_ms \<le> s \<Longrightarrow> s \<le> t \<Longrightarrow> t \<le> wall + 26 * hour_ms
      \<Longrightarrow> offset_at P tz s = b \<Longrightarrow> offset_at P tz t = b"
    and "\<And>t. t mod minute_ms = 0 \<Longrightarrow> zone_start \<le> t \<Longrightarrow> wall_of P tz t \<noteq> wall"
    and "\<And>t. wall - 26 * hour_ms \<le> t \<Longrightarrow> t \<le> wall + 26 * hour_ms \<Longrightarrow> offset_at P tz t = a \<or> offset_at P tz t = b"
proof -
  let ?o = "offset_at P tz"
  have never: "t mod minute_ms = 0 \<Longrightarrow> zone_start \<le> t \<Longrightarrow> wall_of P tz t \<noteq> wall" for t
    using instants_for_wall_iff [OF z w] gap by force
  have two: "?o t = a \<or> ?o t = b" if "wall - 26 * hour_ms \<le> t" "t \<le> wall + 26 * hour_ms" for t
    unfolding a_def b_def by (rule zone_change [OF z]) (use that w in linarith)+
  have range: "- (14 * hour_ms) \<le> a" "a \<le> 14 * hour_ms" "- (14 * hour_ms) \<le> b" "b \<le> 14 * hour_ms"
    using zone_offset [OF z, of "wall - 26 * hour_ms"] zone_offset [OF z, of "wall + 26 * hour_ms"] w(2)
    by (simp_all add: a_def b_def)
  have al: "(wall - a) mod minute_ms = 0" "(wall - b) mod minute_ms = 0"
    using w(1) unfolding a_def b_def by (metis diff_0_right mod_diff_eq offset_minutes mod_0)+
  have oa: "?o (wall - a) = b" and ob: "?o (wall - b) = a"
    using never [OF al(1)] never [OF al(2)] two [of "wall - a"] two [of "wall - b"] range w(2)
      zone_wall_minute [OF z _ al(1)] zone_wall_minute [OF z _ al(2)] by auto
  have ne: "a \<noteq> b"
    using oa never [OF al(1)] zone_wall_minute [OF z _ al(1)] range w(2) by auto
  have once: "?o t = b" if "wall - 26 * hour_ms \<le> s" "s \<le> t" "t \<le> wall + 26 * hour_ms" "?o s = b" for s t
  proof -
    have "?o s = a \<or> ?o s = ?o t"
      unfolding a_def by (rule zone_change [OF z]) (use that w in linarith)+
    then show ?thesis using that(4) ne by auto
  qed
  show less: "a < b"
  proof (rule ccontr)
    assume "\<not> a < b"
    then have "?o (wall - b) = b" using once [of "wall - a" "wall - b"] oa range by auto
    then show False using ob ne by simp
  qed
  show "wall_of P tz t > wall \<longleftrightarrow> ?o t = b"
    if t: "t mod minute_ms = 0" "wall - b \<le> t" "t \<le> wall - a" for t
  proof -
    have s: "zone_start \<le> t" using t range w(2) by linarith
    then have "wall_of P tz t = t + ?o t" "wall_of P tz t \<noteq> wall"
      using zone_wall_minute [OF z s t(1)] never [OF t(1) s] by auto
    moreover have "?o t = a \<or> ?o t = b" by (rule two) (use t range in linarith)+
    ultimately show ?thesis using t less by auto
  qed
  show "\<And>s t. wall - 26 * hour_ms \<le> s \<Longrightarrow> s \<le> t \<Longrightarrow> t \<le> wall + 26 * hour_ms \<Longrightarrow> ?o s = b \<Longrightarrow> ?o t = b"
    by (rule once)
  show "\<And>t. t mod minute_ms = 0 \<Longrightarrow> zone_start \<le> t \<Longrightarrow> wall_of P tz t \<noteq> wall"
    by (rule never)
  show "\<And>t. wall - 26 * hour_ms \<le> t \<Longrightarrow> t \<le> wall + 26 * hour_ms \<Longrightarrow> ?o t = a \<or> ?o t = b"
    by (rule two)
qed

lemma ceil_minute: "t mod minute_ms = 0 \<Longrightarrow> - ((- t) div minute_ms) * minute_ms = t" for t :: int
  using zmod_zminus1_eq_if [of t minute_ms] div_mult_mod_eq [of "- t" minute_ms] by simp

theorem gap_end:
  assumes z: "zone_rules P tz" and w: "wall mod minute_ms = 0" "zone_start + 26 * hour_ms \<le> wall"
    and gap: "instants_for_wall P tz wall = []"
  defines "r \<equiv> first_instant_after_gap P tz wall"
  shows "r mod minute_ms = 0" "wall - 14 * hour_ms \<le> r" "r \<le> wall + 14 * hour_ms" "wall < wall_of P tz r"
    "\<And>t. zone_start \<le> t \<Longrightarrow> t < r \<Longrightarrow> wall_of P tz t < wall"
proof -
  define a where "a = offset_at P tz (wall - 26 * hour_ms)"
  define b where "b = offset_at P tz (wall + 26 * hour_ms)"
  note g = gap_change [OF z w gap, folded a_def b_def]
  have range: "- (14 * hour_ms) \<le> a" "b \<le> 14 * hour_ms"
    using zone_offset [OF z, of "wall - 26 * hour_ms"] zone_offset [OF z, of "wall + 26 * hour_ms"] w(2)
    by (simp_all add: a_def b_def)
  define lo where "lo = (wall - b) div minute_ms"
  define hi where "hi = - ((- (wall - a)) div minute_ms)"
  have al: "(wall - a) mod minute_ms = 0" "(wall - b) mod minute_ms = 0"
    using w(1) unfolding a_def b_def by (metis diff_0_right mod_diff_eq offset_minutes mod_0)+
  have lo: "lo * minute_ms = wall - b" unfolding lo_def by (rule floor_minute [OF al(2)])
  have hi: "hi * minute_ms = wall - a" unfolding hi_def by (rule ceil_minute [OF al(1)])
  have r: "r = first_minute_past P tz wall lo hi * minute_ms"
    using g(1) by (simp add: r_def first_instant_after_gap_def Let_def lo_def hi_def a_def b_def max_def min_def)
  have past: "wall_of P tz (k * minute_ms) > wall \<longleftrightarrow> offset_at P tz (k * minute_ms) = b"
    if "lo \<le> k" "k \<le> hi" for k
    by (rule g(2) [OF mod_mult_self2_is_0]) (use that lo hi in linarith)+
  have end_past: "wall_of P tz (hi * minute_ms) > wall"
  proof -
    have "wall_of P tz (wall - a) \<noteq> wall" "zone_start \<le> wall - a"
      using g(4) [OF al(1)] g(1) range w(2) by auto
    then have "offset_at P tz (wall - a) \<noteq> a"
      using zone_wall_minute [OF z _ al(1)] by auto
    then have "offset_at P tz (wall - a) = b"
      using g(5) [of "wall - a"] g(1) range by auto
    then show ?thesis using past [of hi] lo hi g(1) by auto
  qed
  have order: "lo \<le> hi" using lo hi g(1) by linarith
  have mono: "wall_of P tz (v * minute_ms) > wall"
    if "lo \<le> u" "u \<le> v" "v \<le> hi" "wall_of P tz (u * minute_ms) > wall" for u v
  proof -
    have "offset_at P tz (u * minute_ms) = b"
      using past [of u] that by linarith
    then have "offset_at P tz (v * minute_ms) = b"
      by (rule g(3) [rotated 3]) (use that lo hi range in linarith)+
    then show ?thesis using past [of v] that by linarith
  qed
  have m: "lo \<le> first_minute_past P tz wall lo hi \<and> first_minute_past P tz wall lo hi \<le> hi
      \<and> wall_of P tz (first_minute_past P tz wall lo hi * minute_ms) > wall
      \<and> (\<forall>k. lo \<le> k \<and> k < first_minute_past P tz wall lo hi
          \<longrightarrow> wall_of P tz (k * minute_ms) \<le> wall)"
    by (rule first_minute_past [OF order end_past]) (rule mono)
  show "r mod minute_ms = 0" by (simp add: r)
  have "lo * minute_ms \<le> r" "r \<le> hi * minute_ms" using m by (auto simp: r)
  then show "wall - 14 * hour_ms \<le> r" "r \<le> wall + 14 * hour_ms" using lo hi range by linarith+
  show "wall < wall_of P tz r" using m by (simp add: r)
  show "wall_of P tz t < wall" if t: "zone_start \<le> t" "t < r" for t
  proof -
    define k where "k = t div minute_ms"
    have k: "k * minute_ms \<le> t" "t < k * minute_ms + minute_ms" using floor_bounds [of t] by (auto simp: k_def)
    have ks: "zone_start \<le> k * minute_ms"
      using zdiv_mono1 [OF t(1), of minute_ms] by (simp add: k_def zone_start_def)
    have e: "wall_of P tz t = wall_of P tz (k * minute_ms)"
      using z t(1) by (simp add: zone_rules_def k_def)
    have ne: "wall_of P tz (k * minute_ms) \<noteq> wall" using g(4) [of "k * minute_ms"] ks by simp
    show ?thesis
    proof (cases "lo \<le> k")
      case True
      have "k * minute_ms < r" using k(1) t(2) by linarith
      then have "k < first_minute_past P tz wall lo hi" by (simp add: r)
      then have "wall_of P tz (k * minute_ms) \<le> wall" using m True by blast
      then show ?thesis using e ne by linarith
    next
      case False
      then have before: "k * minute_ms < wall - b" using lo by linarith
      have le: "wall_of P tz (k * minute_ms) = k * minute_ms + offset_at P tz (k * minute_ms)"
        by (rule zone_wall_minute [OF z ks]) simp
      show ?thesis
      proof (cases "wall - 26 * hour_ms \<le> k * minute_ms")
        case True
        then have "offset_at P tz (k * minute_ms) \<le> b"
          using g(5) [of "k * minute_ms"] g(1) before range by auto
        then show ?thesis using e le before by linarith
      next
        case False
        then show ?thesis using e le zone_offset [OF z ks] by linarith
      qed
    qed
  qed
qed

end
