(* ===== verification/SchedCronProofs.thy ===== *)
theory SchedCronProofs
  imports SchedCron
begin

text \<open>
  What the cron parser accepts and what it returns: the sets of an accepted expression
  are sorted, free of duplicates and in range; and an expression written out from its
  parts parses to the union of what its parts denote.
\<close>

subsection \<open>Values of a part\<close>

lemma set_steps: "0 < step \<Longrightarrow> set (steps lo hi step) = {v. lo \<le> v \<and> v \<le> hi \<and> step dvd v - lo}"
proof (induction lo hi step rule: steps.induct)
  case (1 lo hi step)
  show ?case
  proof (cases "hi < lo")
    case True
    then show ?thesis by (subst steps.simps) auto
  next
    case False
    have "step dvd v - (lo + step) \<longleftrightarrow> step dvd v - lo" if "lo + step \<le> v" for v
      using that dvd_diff_nat [of step "v - lo" step] dvd_add_right_iff [of step step "v - (lo + step)"]
      by (auto simp: add.commute)
    moreover have "v = lo" if "lo \<le> v" "step dvd v - lo" "\<not> lo + step \<le> v" for v
      using that "1.prems" dvd_imp_le [of step "v - lo"] by (cases "v - lo = 0") auto
    ultimately have "{v. lo \<le> v \<and> v \<le> hi \<and> step dvd v - lo}
        = insert lo {v. lo + step \<le> v \<and> v \<le> hi \<and> step dvd v - (lo + step)}"
      using False by auto
    then show ?thesis using 1 False by (subst steps.simps) auto
  qed
qed

lemma set_add_values [simp]: "set (fold add_value new vs) = set vs \<union> set new"
  by (induction new arbitrary: vs) (auto simp: add_value_def)

lemma distinct_add_values: "distinct vs \<Longrightarrow> distinct (fold add_value new vs)"
  by (induction new arbitrary: vs) (auto simp: add_value_def)

lemma sort_sorted_list: "distinct vs \<Longrightarrow> sort vs = sorted_list_of_set (set vs)" for vs :: "nat list"
  by (simp add: sorted_list_of_set_sort_remdups distinct_remdups_id)

definition values_ok :: "nat \<Rightarrow> nat \<Rightarrow> nat list \<Rightarrow> bool" where
  "values_ok lo hi vs \<longleftrightarrow> sorted_wrt (<) vs \<and> (\<forall>v \<in> set vs. lo \<le> v \<and> v \<le> hi)"

definition field_ok :: "field_spec \<Rightarrow> bool" where
  "field_ok f \<longleftrightarrow> top_of f \<le> fs_max f \<and> (fs_names f = [] \<or> fs_min f \<le> fs_name_base f)
    \<and> fs_name_base f + length (fs_names f) \<le> Suc (fs_max f) \<and> (\<forall>nm \<in> set (fs_names f). \<not> is_number nm)"

lemmas field_defs = minute_field_def hour_field_def dom_field_def month_field_def dow_field_def

lemma fields_ok [simp]:
  "field_ok minute_field" "field_ok hour_field" "field_ok dom_field" "field_ok month_field" "field_ok dow_field"
  by (simp_all add: field_ok_def top_of_def field_defs month_names_def day_names_def is_number_def
      is_digit_def char_code_def)

lemma field_ends [simp]:
  "fs_min minute_field = 0" "fs_max minute_field = 59" "fs_min hour_field = 0" "fs_max hour_field = 23"
  "fs_min dom_field = 1" "fs_max dom_field = 31" "fs_min month_field = 1" "fs_max month_field = 12"
  "fs_min dow_field = 0" "fs_max dow_field = 7"
  by (simp_all add: field_defs)

lemma index_of_bound: "index_of x xs = Some i \<Longrightarrow> i < length xs"
  by (induction x xs arbitrary: i rule: index_of.induct) (auto split: if_splits)

lemma name_index_None: "x \<notin> set xs \<Longrightarrow> index_of x xs = None"
  by (induction x xs rule: index_of.induct) auto

lemma parse_value_bounds: "field_ok f \<Longrightarrow> parse_value raw f = Inr n \<Longrightarrow> fs_min f \<le> n \<and> n \<le> fs_max f"
  by (auto simp: parse_value_def field_ok_def Let_def split: option.splits if_splits dest!: index_of_bound)

lemma parse_range_bounds:
  "field_ok f \<Longrightarrow> parse_range f r stepped part = Inr (lo, hi) \<Longrightarrow> fs_min f \<le> lo \<and> hi \<le> fs_max f"
  by (auto simp: parse_range_def field_ok_def Let_def result_simps dest: parse_value_bounds [rotated] split: if_splits)

lemma parse_part_bounds:
  assumes "field_ok f" "parse_part f part = Inr vs" "v \<in> set vs"
  shows "fs_min f \<le> v \<and> v \<le> fs_max f"
proof -
  define pieces where "pieces = split_on (CHR ''/'') part"
  define step where "step = (if 1 < length pieces then number_of (pieces ! 1) else 1)"
  from assms(2) obtain lo hi where
    r: "parse_range f (pieces ! 0) (1 < length pieces) part = Inr (lo, hi)" and vs: "vs = steps lo hi step"
    and s: "0 < step"
    by (auto simp: parse_part_def Let_def pieces_def step_def result_simps split: if_splits option.splits)
  show ?thesis using parse_range_bounds [OF assms(1) r] assms(3) s by (auto simp: vs set_steps)
qed

lemma foldE_invariant:
  assumes "foldE f s xs = Inr t" "I s" "\<And>s x t. I s \<Longrightarrow> f s x = Inr t \<Longrightarrow> I t"
  shows "I t"
  using assms(1,2) by (induction xs arbitrary: s) (auto simp: result_simps dest: assms(3))

lemma parse_field_ok:
  assumes f: "field_ok f" and p: "parse_field text f = Inr vs"
  shows "values_ok (fs_min f) (fs_max f) vs"
proof -
  obtain ws where e: "foldE (\<lambda>vs part. bindE (parse_part f part) (\<lambda>new. Inr (fold add_value new vs)))
      [] (split_on (CHR '','') text) = Inr ws" and vs: "vs = sort ws"
    using p by (auto simp: parse_field_def result_simps split: if_splits)
  have "distinct ws \<and> (\<forall>v \<in> set ws. fs_min f \<le> v \<and> v \<le> fs_max f)"
    by (rule foldE_invariant [OF e, where I = "\<lambda>ws. distinct ws \<and> (\<forall>v \<in> set ws. fs_min f \<le> v \<and> v \<le> fs_max f)"])
      (auto simp: result_simps distinct_add_values dest: parse_part_bounds [OF f])
  then show ?thesis by (simp add: vs values_ok_def strict_sorted_iff)
qed

definition cron_ok :: "cron_expression \<Rightarrow> bool" where
  "cron_ok e \<longleftrightarrow> values_ok 0 59 (ce_minutes e) \<and> values_ok 0 23 (ce_hours e) \<and> values_ok 1 31 (ce_days_of_month e)
    \<and> values_ok 1 12 (ce_months e) \<and> values_ok 0 6 (ce_days_of_week e)"

lemma parse_fields_ok:
  assumes "parse_fields fs = Inr e"
  shows "cron_ok e"
proof -
  have minutes: "parse_field s minute_field = Inr vs \<Longrightarrow> values_ok 0 59 vs"
    and hours: "parse_field s hour_field = Inr vs \<Longrightarrow> values_ok 0 23 vs"
    and doms: "parse_field s dom_field = Inr vs \<Longrightarrow> values_ok (Suc 0) 31 vs"
    and months: "parse_field s month_field = Inr vs \<Longrightarrow> values_ok (Suc 0) 12 vs"
    and dows: "parse_field s dow_field = Inr vs \<Longrightarrow> values_ok 0 7 vs" for s vs
    using parse_field_ok [of minute_field s vs] parse_field_ok [of hour_field s vs] parse_field_ok [of dom_field s vs]
      parse_field_ok [of month_field s vs] parse_field_ok [of dow_field s vs]
    by simp_all
  have week: "values_ok 0 6 (normal_weekdays ds)" if "values_ok 0 7 ds" for ds
  proof -
    have "d \<le> 7 \<Longrightarrow> d \<noteq> 7 \<Longrightarrow> d \<le> (6 :: nat)" for d by simp
    then show ?thesis
      using that by (auto simp: values_ok_def normal_weekdays_def strict_sorted_iff distinct_add_values split: if_splits)
  qed
  show ?thesis
    using assms
    by (auto simp: parse_fields_def result_simps cron_ok_def elim: minutes hours doms months dows
        intro!: week [OF dows])
qed

lemma parse_cron_ok: "parse_cron_expression s = Inr e \<Longrightarrow> cron_ok e"
  by (auto simp: parse_cron_expression_def Let_def result_simps split: if_splits option.splits intro: parse_fields_ok)

subsection \<open>Expressions written out from their parts\<close>

text \<open>A part is a star, a value or a range, with a step or without.\<close>

datatype cron_item = Any | One nat | Span nat nat

type_synonym cron_part = "cron_item \<times> nat option"

fun print_item :: "cron_item \<Rightarrow> string" where
  "print_item Any = ''*''"
| "print_item (One n) = decimal n"
| "print_item (Span a b) = decimal a @ ''-'' @ decimal b"

definition print_part :: "cron_part \<Rightarrow> string" where
  "print_part p = print_item (fst p) @ (case snd p of None \<Rightarrow> [] | Some s \<Rightarrow> ''/'' @ decimal s)"

definition print_field :: "cron_part list \<Rightarrow> string" where
  "print_field ps = join_with '','' (map print_part ps)"

fun item_ends :: "field_spec \<Rightarrow> cron_item \<Rightarrow> bool \<Rightarrow> nat \<times> nat" where
  "item_ends f Any stepped = (fs_min f, top_of f)"
| "item_ends f (One n) stepped = (n, if stepped then top_of f else n)"
| "item_ends f (Span a b) stepped = (a, b)"

definition part_values :: "field_spec \<Rightarrow> cron_part \<Rightarrow> nat set" where
  "part_values f p = (let (lo, hi) = item_ends f (fst p) (snd p \<noteq> None) in
    {v. lo \<le> v \<and> v \<le> hi \<and> (case snd p of None \<Rightarrow> 1 | Some s \<Rightarrow> s) dvd v - lo})"

fun item_ok :: "field_spec \<Rightarrow> cron_item \<Rightarrow> bool" where
  "item_ok f Any \<longleftrightarrow> True"
| "item_ok f (One n) \<longleftrightarrow> fs_min f \<le> n \<and> n \<le> fs_max f"
| "item_ok f (Span a b) \<longleftrightarrow> fs_min f \<le> a \<and> a \<le> b \<and> b \<le> fs_max f"

definition part_ok :: "field_spec \<Rightarrow> cron_part \<Rightarrow> bool" where
  "part_ok f p \<longleftrightarrow> item_ok f (fst p) \<and> snd p \<noteq> Some 0"

definition plain_char :: "char \<Rightarrow> bool" where
  "plain_char c \<longleftrightarrow> is_digit c \<or> c = CHR ''*'' \<or> c = CHR ''-'' \<or> c = CHR ''/''"

lemma plain_part: "\<forall>c \<in> set (print_part p). plain_char c"
proof -
  have d: "\<forall>c \<in> set (decimal n). plain_char c" for n
    using is_digit_decimal [of n] by (simp add: plain_char_def list_all_iff)
  have "\<forall>c \<in> set (print_item i). plain_char c" for i
    using d by (cases i) (auto simp: plain_char_def)
  then show ?thesis
    using d by (auto simp: print_part_def plain_char_def split: option.splits)
qed

lemma print_part_not_Nil [simp]: "print_part p \<noteq> []"
  by (cases p; cases "fst p") (simp_all add: print_part_def)

lemma set_without_names: "set (without_names names s) \<subseteq> set s"
  by (induction names s rule: without_names.induct) auto

lemma plain_not:
  "plain_char c \<Longrightarrow> c \<notin> {CHR ''L'', CHR ''l'', CHR ''W'', CHR ''w'', CHR ''#'', CHR ''?'', CHR '','', CHR '' '', CHR ''@''}"
  "plain_char c \<Longrightarrow> \<not> is_space c"
  by (auto simp: plain_char_def is_digit_def is_space_def char_code_def)

lemma refused_plain: "\<forall>c \<in> set s. plain_char c \<Longrightarrow> refused_token (without_names names s) = None"
  using set_without_names [of names s] plain_not(1) unfolding refused_token_def by (auto simp: subset_iff)

lemma no_sep: "\<not> is_digit (CHR ''-'')" "\<not> is_digit (CHR ''/'')" "\<not> is_digit (CHR ''*'')" "\<not> is_digit (CHR '','')"
  by (simp_all add: is_digit_def char_code_def)

lemma decimal_no_sep [simp]:
  "CHR ''-'' \<notin> set (decimal n)" "CHR ''/'' \<notin> set (decimal n)" "CHR ''*'' \<notin> set (decimal n)"
  by (simp_all add: decimal_no no_sep)

lemma lower_decimal: "to_lower (decimal n) = decimal n"
  using is_digit_decimal [of n]
  by (auto simp: to_lower_def list_all_iff is_digit_def lower_char_def intro!: map_idI)

lemma parse_value_decimal:
  assumes f: "field_ok f" and n: "fs_min f \<le> n" "n \<le> fs_max f"
  shows "parse_value (decimal n) f = Inr n"
proof -
  have "decimal n \<notin> set (fs_names f)" using f is_number_decimal [of n] unfolding field_ok_def by blast
  then show ?thesis using n by (simp add: parse_value_def lower_decimal name_index_None)
qed

lemma parse_item:
  assumes "field_ok f" "item_ok f i"
  shows "parse_range f (print_item i) stepped part = Inr (item_ends f i stepped)"
proof (cases i)
  case Any
  then show ?thesis by (simp add: parse_range_def)
next
  case (One n)
  moreover have "decimal n \<noteq> ''*''" using decimal_no_sep(3) [of n] by (metis list.set_intros(1))
  ultimately show ?thesis using assms by (simp add: parse_range_def parse_value_decimal)
next
  case (Span a b)
  moreover have "decimal a @ ''-'' @ decimal b \<noteq> ''*''"
    by (cases "decimal a") auto
  moreover have "split_on (CHR ''-'') (decimal a @ CHR ''-'' # decimal b) = [decimal a, decimal b]"
    by (simp add: split_on_sep)
  ultimately show ?thesis using assms by (simp add: parse_range_def parse_value_decimal Let_def)
qed

lemma parse_part_print:
  assumes f: "field_ok f" and p: "part_ok f p"
  shows "\<exists>vs. parse_part f (print_part p) = Inr vs \<and> set vs = part_values f p"
proof -
  obtain i st where ps: "p = (i, st)" by (cases p)
  have item: "CHR ''/'' \<notin> set (print_item i)" by (cases i) auto
  note r = refused_plain [OF plain_part [of p], of "fs_names f"]
  obtain lo hi where e: "item_ends f i (st \<noteq> None) = (lo, hi)" by (cases "item_ends f i (st \<noteq> None)")
  show ?thesis
  proof (cases st)
    case None
    have "split_on (CHR ''/'') (print_part p) = [print_item i]"
      using item by (simp add: print_part_def ps None)
    then show ?thesis
      using parse_item [OF f, of i False "print_part p"] p r e None
      by (simp add: parse_part_def part_ok_def ps part_values_def set_steps)
  next
    case (Some s)
    have "split_on (CHR ''/'') (print_part p) = [print_item i, decimal s]"
      using item by (simp add: print_part_def ps Some split_on_sep)
    then show ?thesis
      using parse_item [OF f, of i True "print_part p"] p r e Some
      by (simp add: parse_part_def part_ok_def ps part_values_def set_steps)
  qed
qed

lemma parse_parts_print:
  assumes f: "field_ok f" and "\<forall>p \<in> set ps. part_ok f p"
  shows "distinct vs \<Longrightarrow> \<exists>ws. foldE (\<lambda>vs part. bindE (parse_part f part) (\<lambda>new. Inr (fold add_value new vs)))
      vs (map print_part ps) = Inr ws \<and> distinct ws \<and> set ws = set vs \<union> (\<Union>p \<in> set ps. part_values f p)"
  using assms(2)
proof (induction ps arbitrary: vs)
  case (Cons p ps)
  obtain new where new: "parse_part f (print_part p) = Inr new" "set new = part_values f p"
    using parse_part_print [OF f, of p] Cons.prems(2) by (meson list.set_intros(1))
  then show ?case
    using Cons.IH [of "fold add_value new vs"] Cons.prems by (auto simp: distinct_add_values Un_assoc)
qed simp

lemma parse_field_print:
  assumes f: "field_ok f" and ps: "ps \<noteq> []" "\<forall>p \<in> set ps. part_ok f p"
  shows "parse_field (print_field ps) f = Inr (sorted_list_of_set (\<Union>p \<in> set ps. part_values f p))"
proof -
  have "split_on (CHR '','') (print_field ps) = map print_part ps"
    unfolding print_field_def using ps(1) plain_part plain_not(1) by (intro split_on_join) auto
  moreover have "print_field ps \<noteq> []"
    using ps(1) by (cases ps rule: remdups_adj.cases) (simp_all add: print_field_def)
  ultimately show ?thesis
    using parse_parts_print [OF f ps(2), of "[]"] by (auto simp: parse_field_def sort_sorted_list)
qed

text \<open>An expression of five lists of parts, and what it means.\<close>

record cron_ast =
  ca_minutes :: "cron_part list"
  ca_hours :: "cron_part list"
  ca_days_of_month :: "cron_part list"
  ca_months :: "cron_part list"
  ca_days_of_week :: "cron_part list"

definition print_cron :: "cron_ast \<Rightarrow> string" where
  "print_cron a = join_with '' '' (map print_field
    [ca_minutes a, ca_hours a, ca_days_of_month a, ca_months a, ca_days_of_week a])"

definition field_values :: "field_spec \<Rightarrow> cron_part list \<Rightarrow> nat set" where
  "field_values f ps = (\<Union>p \<in> set ps. part_values f p)"

definition parts_ok :: "field_spec \<Rightarrow> cron_part list \<Rightarrow> bool" where
  "parts_ok f ps \<longleftrightarrow> ps \<noteq> [] \<and> (\<forall>p \<in> set ps. part_ok f p)"

text \<open>A step that starts from Sunday written as 7, as in \<open>7/2\<close>, is left out: the code gives it no day.\<close>

definition sunday_step :: "cron_part \<Rightarrow> bool" where
  "sunday_step p \<longleftrightarrow> fst p = One 7 \<and> snd p \<noteq> None"

definition ast_ok :: "cron_ast \<Rightarrow> bool" where
  "ast_ok a \<longleftrightarrow> parts_ok minute_field (ca_minutes a) \<and> parts_ok hour_field (ca_hours a)
    \<and> parts_ok dom_field (ca_days_of_month a) \<and> parts_ok month_field (ca_months a)
    \<and> parts_ok dow_field (ca_days_of_week a) \<and> \<not> list_ex sunday_step (ca_days_of_week a)"

text \<open>
  The meaning is the documented one (\<open>docs/sdk/schedules.md\<close> and the head of \<open>cron.ts\<close>): minutes 0 to 59, hours 0 to 23, days 1
  to 31, months 1 to 12; a star is the whole range, a value with a step runs from it to the end of the range, and of the
  weekdays 0 and 7 are both Sunday, the first day of the week.
\<close>

definition denotes :: "nat \<Rightarrow> nat \<Rightarrow> cron_part \<Rightarrow> nat set" where
  "denotes first final p = (case p of
      (Any, None) \<Rightarrow> {first..final}
    | (Any, Some s) \<Rightarrow> {v. first \<le> v \<and> v \<le> final \<and> (v - first) mod s = 0}
    | (One n, None) \<Rightarrow> {n}
    | (One n, Some s) \<Rightarrow> {v. n \<le> v \<and> v \<le> final \<and> (v - n) mod s = 0}
    | (Span a b, None) \<Rightarrow> {a..b}
    | (Span a b, Some s) \<Rightarrow> {v. a \<le> v \<and> v \<le> b \<and> (v - a) mod s = 0})"

definition denotes_all :: "nat \<Rightarrow> nat \<Rightarrow> cron_part list \<Rightarrow> nat list" where
  "denotes_all first final ps = sorted_list_of_set (\<Union>p \<in> set ps. denotes first final p)"

definition sunday_first :: "nat \<Rightarrow> nat" where
  "sunday_first d = (if d = 7 then 0 else d)"

definition weekdays :: "cron_part \<Rightarrow> nat set" where
  "weekdays p = (case p of
      (One n, st) \<Rightarrow> denotes 0 6 (One (sunday_first n), st)
    | _ \<Rightarrow> sunday_first ` denotes 0 6 p)"

lemma denotes_part: "part_values f p = denotes (fs_min f) (top_of f) p"
  by (cases p rule: prod.exhaust; cases "fst p"; cases "snd p")
    (auto simp: part_values_def denotes_def dvd_eq_mod_eq_0)

lemma weekdays_part:
  assumes "part_ok dow_field p" "\<not> sunday_step p"
  shows "sunday_first ` part_values dow_field p = weekdays p"
proof (cases "fst p")
  case (One n)
  then show ?thesis
    using assms by (cases p; cases "snd p")
      (auto simp: denotes_part weekdays_def denotes_def sunday_first_def sunday_step_def part_ok_def top_of_def dow_field_def
        image_iff)
qed (cases p; simp add: denotes_part weekdays_def top_of_def dow_field_def)+

definition fixed_parts :: "cron_part list \<Rightarrow> bool" where
  "fixed_parts ps \<longleftrightarrow> (\<forall>p \<in> set ps. fst p \<noteq> Any \<and> snd p = None)"

definition cron_meaning :: "cron_ast \<Rightarrow> cron_expression" where
  "cron_meaning a = \<lparr>ce_source = print_cron a,
    ce_minutes = denotes_all 0 59 (ca_minutes a),
    ce_hours = denotes_all 0 23 (ca_hours a),
    ce_days_of_month = denotes_all 1 31 (ca_days_of_month a),
    ce_months = denotes_all 1 12 (ca_months a),
    ce_days_of_week = sorted_list_of_set (\<Union>p \<in> set (ca_days_of_week a). weekdays p),
    ce_dom_restricted = (fst (hd (ca_days_of_month a)) \<noteq> Any),
    ce_dow_restricted = (fst (hd (ca_days_of_week a)) \<noteq> Any),
    ce_fixed_time = (fixed_parts (ca_minutes a) \<and> fixed_parts (ca_hours a))\<rparr>"

lemma join_set: "set (join_with g xs) \<subseteq> set g \<union> (\<Union>x \<in> set xs. set x)"
  by (induction g xs rule: join_with.induct) auto

lemma join_contains: "c \<notin> set g \<Longrightarrow> c \<in> set (join_with g xs) \<longleftrightarrow> (\<exists>x \<in> set xs. c \<in> set x)"
  by (induction g xs rule: join_with.induct) auto

lemma field_chars: "c \<in> set (print_field ps) \<Longrightarrow> plain_char c \<or> c = CHR '',''"
  using join_set [of "'',''" "map print_part ps"] plain_part by (auto simp: print_field_def)

lemma comma_plain: "\<not> is_space (CHR '','')"
  by (simp add: is_space_def char_code_def)

lemma field_no_space: "c \<in> set (print_field ps) \<Longrightarrow> \<not> is_space c \<and> c \<noteq> CHR ''@''"
proof -
  assume "c \<in> set (print_field ps)"
  then consider "plain_char c" | "c = CHR '',''" using field_chars by blast
  then show ?thesis
  proof cases
    case 1
    then show ?thesis using plain_not(1) [OF 1] plain_not(2) [OF 1] by simp
  next
    case 2
    then show ?thesis using comma_plain by simp
  qed
qed

lemma print_field_not_Nil [simp]: "ps \<noteq> [] \<Longrightarrow> print_field ps \<noteq> []"
  using join_with_not_Nil [of "map print_part ps" "'',''"] by (cases ps) (simp_all add: print_field_def)

lemma print_field_Nil [simp]: "ps \<noteq> [] \<Longrightarrow> [] \<noteq> print_field ps"
  using print_field_not_Nil [of ps] by metis

lemma fixed_text_print: "fixed_text (print_field ps) \<longleftrightarrow> fixed_parts ps"
proof -
  have "CHR ''*'' \<in> set (print_item i) \<longleftrightarrow> i = Any" "CHR ''/'' \<notin> set (print_item i)" for i
    by (cases i; simp)+
  then have "CHR ''*'' \<in> set (print_part p) \<longleftrightarrow> fst p = Any" "CHR ''/'' \<in> set (print_part p) \<longleftrightarrow> snd p \<noteq> None" for p
    by (cases "snd p"; simp add: print_part_def)+
  then show ?thesis by (auto simp: fixed_text_def fixed_parts_def print_field_def join_contains)
qed

lemma starred_print: "ps \<noteq> [] \<Longrightarrow> starts_with ''*'' (print_field ps) \<longleftrightarrow> fst (hd ps) = Any"
proof -
  assume "ps \<noteq> []"
  then obtain p qs where ps: "ps = p # qs" by (cases ps) auto
  have d: "starts_with ''*'' (decimal n @ s) = False" for n s
    using decimal_no_sep(3) [of n] decimal_not_Nil [of n] by (cases "decimal n") (auto simp: starts_with_def)
  have "starts_with ''*'' (print_part p @ s) \<longleftrightarrow> fst p = Any" for s
    using d by (cases "fst p") (simp_all add: print_part_def, simp add: starts_with_def)
  from this [of "[]"] this show ?thesis by (cases qs) (simp_all add: ps print_field_def)
qed

lemma normal_weekdays_values:
  assumes "vs = sorted_list_of_set V" "V \<subseteq> {..7}"
  shows "normal_weekdays vs = sorted_list_of_set (sunday_first ` V)"
proof -
  have "finite V" using assms(2) finite_subset by blast
  then show ?thesis
    by (simp add: normal_weekdays_def sort_sorted_list distinct_add_values assms(1) sunday_first_def cong: image_cong)
qed

lemma field_denotes:
  "sorted_list_of_set (field_values minute_field ps) = denotes_all 0 59 ps"
  "sorted_list_of_set (field_values hour_field ps) = denotes_all 0 23 ps"
  "sorted_list_of_set (field_values dom_field ps) = denotes_all (Suc 0) 31 ps"
  "sorted_list_of_set (field_values month_field ps) = denotes_all (Suc 0) 12 ps"
  by (simp_all add: field_values_def denotes_all_def denotes_part top_of_def field_defs)

lemma field_weekdays:
  assumes "parts_ok dow_field ps" "\<not> list_ex sunday_step ps"
  shows "sunday_first ` field_values dow_field ps = (\<Union>p \<in> set ps. weekdays p)"
  using assms weekdays_part unfolding field_values_def image_UN parts_ok_def list_ex_iff by (intro SUP_cong) auto

theorem parse_print_cron:
  assumes "ast_ok a"
  shows "parse_cron_expression (print_cron a) = Inr (cron_meaning a)"
proof -
  define fs where "fs = map print_field
    [ca_minutes a, ca_hours a, ca_days_of_month a, ca_months a, ca_days_of_week a]"
  note ok = assms [unfolded ast_ok_def parts_ok_def]
  have dow: "parts_ok dow_field (ca_days_of_week a) \<and> \<not> list_ex sunday_step (ca_days_of_week a)"
    using assms by (simp add: ast_ok_def)
  have line: "print_cron a = join_with '' '' fs" by (simp add: print_cron_def fs_def)
  have ne: "f \<noteq> []" if "f \<in> set fs" for f using that ok by (auto simp: fs_def)
  have chars: "\<not> is_space c \<and> c \<noteq> CHR ''@''" if "f \<in> set fs" "c \<in> set f" for f c
    using that field_no_space by (auto simp: fs_def)
  obtain f0 f1 f2 f3 f4 where five: "fs = [f0, f1, f2, f3, f4]" by (simp add: fs_def)
  have split: "split_spaces (print_cron a) = fs"
    unfolding line using ne chars by (intro split_spaces_join) (auto simp: fs_def)
  have first: "print_cron a \<noteq> []" "hd (print_cron a) = hd f0" "last (print_cron a) = last f4"
    using ne join_with_not_Nil [of fs "'' ''"] last_join_with [of "'' ''" fs] by (simp_all add: line five)
  have "\<not> is_space (hd f0)" "\<not> is_space (last f4)" "hd f0 \<noteq> CHR ''@''"
    using chars [of f0 "hd f0"] chars [of f4 "last f4"] ne by (auto simp: five)
  then have trimmed: "trim (print_cron a) = print_cron a" "\<not> starts_with ''@'' (print_cron a)"
    using first trim_id [of "print_cron a"] by (auto simp: starts_with_def neq_Nil_conv)
  have "field_values dow_field (ca_days_of_week a) \<subseteq> {..7}"
  proof -
    have "part_values dow_field p \<subseteq> {..7}" if "part_ok dow_field p" for p
      using that by (cases "fst p")
        (auto simp: part_values_def part_ok_def field_defs top_of_def split: if_splits)
    then show ?thesis using ok unfolding field_values_def by blast
  qed
  note week = normal_weekdays_values [OF refl this, unfolded field_weekdays [OF dow [THEN conjunct1] dow [THEN conjunct2]]]
  show ?thesis
    using ok trimmed first(1)
    by (simp add: parse_cron_expression_def split Let_def)
      (simp add: fs_def parse_fields_def parse_field_print field_values_def [symmetric] field_denotes week starred_print
        fixed_text_print cron_meaning_def print_cron_def)
qed

end
