(* ===== verification/SchedFireProofs.thy ===== *)
theory SchedFireProofs
  imports SchedFire SchedClockProofs SchedCronProofs
begin

text \<open>
  One day of a cron expression. The instants of a day are those of its slots, also on
  the days counted by one offset; a slot of a fixed-time expression fires at the first
  instant at which the wall clock reads it or later, and the days follow each other.
\<close>

subsection \<open>Slots\<close>

lemma day_slots_iff: "w \<in> set (day_slots e day)
    \<longleftrightarrow> (\<exists>h \<in> set (ce_hours e). \<exists>m \<in> set (ce_minutes e). w = day + int h * hour_ms + int m * minute_ms)"
  by (auto simp: day_slots_def)

lemma cron_ok_bounds: "cron_ok e \<Longrightarrow> h \<in> set (ce_hours e) \<Longrightarrow> h < 24" "cron_ok e \<Longrightarrow> m \<in> set (ce_minutes e) \<Longrightarrow> m < 60"
  by (auto simp: cron_ok_def values_ok_def)

lemma slot_bounds:
  assumes "cron_ok e" "w \<in> set (day_slots e day)"
  shows "day \<le> w" "w \<le> day + day_ms - minute_ms"
proof -
  obtain h m where w: "h \<in> set (ce_hours e)" "m \<in> set (ce_minutes e)" "w = day + int h * hour_ms + int m * minute_ms"
    using assms(2) by (auto simp: day_slots_iff)
  then have "int h \<le> 23" "int m \<le> 59" using cron_ok_bounds [OF assms(1)] by fastforce+
  then show "day \<le> w" "w \<le> day + day_ms - minute_ms" using w(3) by simp_all
qed

lemma day_minutes: "day mod day_ms = 0 \<Longrightarrow> day mod minute_ms = 0" for day :: int
  using dvd_trans [of minute_ms day_ms day] by (simp add: mod_eq_0_iff_dvd)

lemma slot_minutes:
  assumes "day mod day_ms = 0" "w \<in> set (day_slots e day)"
  shows "w mod minute_ms = 0"
proof -
  obtain k where "day = minute_ms * k" using day_minutes [OF assms(1)] by (auto simp: mod_eq_0_iff_dvd dvd_def)
  moreover obtain h m :: nat where "w = day + int h * hour_ms + int m * minute_ms"
    using assms(2) by (auto simp: day_slots_iff)
  ultimately have "w = minute_ms * (k + 60 * int h + int m)" by (simp add: algebra_simps)
  then show ?thesis by simp
qed

lemma day_start_unique: "day mod day_ms = 0 \<Longrightarrow> day \<le> w \<Longrightarrow> w < day + day_ms \<Longrightarrow> day_start w = day"
proof -
  assume "day mod day_ms = 0" and w: "day \<le> w" "w < day + day_ms"
  then obtain k where k: "day = day_ms * k" by (auto simp: mod_eq_0_iff_dvd dvd_def)
  then have "w div day_ms = k" using w by (intro int_div_pos_eq [of _ _ _ "w - day"]) auto
  then show ?thesis by (simp add: day_start_def k)
qed

lemma day_start_bounds: "day_start w \<le> w" "w < day_start w + day_ms" "day_start w mod day_ms = 0"
  unfolding day_start_def using div_mult_mod_eq [of w day_ms] pos_mod_bound [of day_ms w] pos_mod_sign [of day_ms w]
  by linarith+ simp

lemma slot_day:
  assumes "cron_ok e" "day mod day_ms = 0" "w \<in> set (day_slots e day)"
  shows "day_start w = day"
  using slot_bounds [OF assms(1,3)] by (intro day_start_unique assms) simp_all

lemma sorted_slots:
  assumes "cron_ok e"
  shows "sorted_wrt (<) (day_slots e day)"
proof -
  have m: "sorted_wrt (<) (map (\<lambda>m. c + int m * minute_ms) (ce_minutes e))" for c
    using assms by (auto simp: cron_ok_def values_ok_def sorted_wrt_map elim: sorted_wrt_mono_rel [rotated])
  have "sorted_wrt (<) hs \<Longrightarrow> \<forall>h \<in> set hs. h < 24
      \<Longrightarrow> sorted_wrt (<) (concat (map (\<lambda>h. map (\<lambda>m. day + int h * hour_ms + int m * minute_ms) (ce_minutes e)) hs))" for hs
  proof (induction hs)
    case (Cons h hs)
    have "day + int h * hour_ms + int x * minute_ms < day + int h' * hour_ms + int y * minute_ms"
      if "x \<in> set (ce_minutes e)" "y \<in> set (ce_minutes e)" "h < h'" for x y h'
      using cron_ok_bounds(2) [OF assms that(1)] that(3) by simp
    then show ?case using Cons m by (force simp: sorted_wrt_append)
  qed simp
  then show ?thesis
    using assms cron_ok_bounds(1) [OF assms] unfolding day_slots_def by (auto simp: cron_ok_def values_ok_def)
qed

lemma length_slots: "length (day_slots e day) = length (ce_hours e) * length (ce_minutes e)"
  by (simp add: day_slots_def length_concat comp_def sum_list_triv)

subsection \<open>The instants of a slot\<close>

text \<open>The first instant at which the clock reads \<open>w\<close> or later.\<close>

definition first_reading :: "platform \<Rightarrow> string \<Rightarrow> int \<Rightarrow> int \<Rightarrow> bool" where
  "first_reading P tz w t \<longleftrightarrow> zone_start \<le> t \<and> t mod minute_ms = 0 \<and> w \<le> wall_of P tz t
    \<and> (\<forall>s. zone_start \<le> s \<and> s < t \<longrightarrow> wall_of P tz s < w)"

lemma first_reading_unique: "first_reading P tz w s \<Longrightarrow> first_reading P tz w t \<Longrightarrow> s = t"
  unfolding first_reading_def by (meson linorder_not_less linorder_neqE)

lemma aligned_diff: "a mod n = 0 \<Longrightarrow> b mod n = 0 \<Longrightarrow> (a - b) mod n = 0" for a b n :: int
  by (simp add: mod_eq_0_iff_dvd)

lemma first_instant_reads:
  assumes z: "zone_rules P tz" and w: "w mod minute_ms = 0" "zone_start + 26 * hour_ms \<le> w"
    and i: "instants_for_wall P tz w = t # ts"
  shows "first_reading P tz w t"
proof -
  let ?o = "offset_at P tz"
  have mem: "u \<in> set (t # ts) \<longleftrightarrow> zone_start \<le> u \<and> u mod minute_ms = 0 \<and> wall_of P tz u = w" for u
    using instants_for_wall_iff [OF z w] i by simp
  have least: "u \<in> set (t # ts) \<Longrightarrow> t \<le> u" for u
    using instants_for_wall_sorted [of P tz w] i by auto
  have t: "zone_start \<le> t" "t mod minute_ms = 0" "wall_of P tz t = w" using mem [of t] by auto
  have wt: "w = t + ?o t" using zone_wall_minute [OF z t(1,2)] t(3) by simp
  have "wall_of P tz s < w" if s: "zone_start \<le> s" "s < t" for s
  proof (rule ccontr)
    assume "\<not> wall_of P tz s < w"
    define f where "f = s div minute_ms * minute_ms"
    have f: "zone_start \<le> f" "f \<le> s" "f mod minute_ms = 0"
      using floor_bounds [of s] zdiv_mono1 [OF s(1), of minute_ms] by (auto simp: f_def zone_start_def)
    have wf: "wall_of P tz f = f + ?o f" by (rule zone_wall_minute [OF z f(1,3)])
    have "wall_of P tz f = wall_of P tz s"
      using z s(1) by (simp add: zone_rules_def f_def)
    then have "w \<le> wall_of P tz f" using \<open>\<not> wall_of P tz s < w\<close> by simp
    moreover have "wall_of P tz f \<noteq> w" using mem [of f] least [of f] f s by auto
    ultimately have past: "w < f + ?o f" using wf by simp
    have near: "w - 14 * hour_ms \<le> f" "t \<le> w + 14 * hour_ms"
      using past zone_offset [OF z f(1)] wt zone_offset [OF z t(1)] by linarith+
    have start: "?o (w - 26 * hour_ms) = ?o f"
      using zone_change [OF z, of "w - 26 * hour_ms" f t] w(2) near f s past wt by linarith
    define u where "u = w - ?o f"
    have u: "zone_start \<le> u" "u < f" "w - 26 * hour_ms \<le> u"
      using zone_offset [OF z f(1)] w(2) past unfolding u_def by linarith+
    have um: "u mod minute_ms = 0" unfolding u_def by (rule aligned_diff [OF w(1) offset_minutes])
    have "?o u = ?o f"
      using zone_change [OF z, of "w - 26 * hour_ms" u f] start u w(2) near f s by linarith
    then have "u \<in> set (t # ts)" using mem [of u] u(1) um zone_wall_minute [OF z u(1) um] u_def by simp
    then show False using least [of u] u(2) f(2) s(2) by linarith
  qed
  then show ?thesis using t unfolding first_reading_def by auto
qed

lemma fixed_slot:
  assumes z: "zone_rules P tz" and w: "w mod minute_ms = 0" "zone_start + 26 * hour_ms \<le> w" and "ce_fixed_time e"
  shows "\<exists>t. slot_instants P e tz w = [t] \<and> first_reading P tz w t"
proof (cases "instants_for_wall P tz w")
  case Nil
  have "first_reading P tz w (first_instant_after_gap P tz w)"
    using gap_end [OF z w Nil] w(2) unfolding first_reading_def by auto
  then show ?thesis using Nil assms(4) by (simp add: slot_instants_def)
next
  case (Cons t ts)
  then show ?thesis using first_instant_reads [OF z w Cons] assms(4) by (simp add: slot_instants_def)
qed

lemma wildcard_slot:
  assumes z: "zone_rules P tz" and w: "w mod minute_ms = 0" "zone_start + 26 * hour_ms \<le> w" and "\<not> ce_fixed_time e"
  shows "t \<in> set (slot_instants P e tz w) \<longleftrightarrow> zone_start \<le> t \<and> t mod minute_ms = 0 \<and> wall_of P tz t = w"
  using instants_for_wall_iff [OF z w, of t] assms(4) by (auto simp: slot_instants_def Let_def)

subsection \<open>The instants of a day\<close>

text \<open>Days far enough from the start of the rules.\<close>

definition day_ok :: "int \<Rightarrow> bool" where
  "day_ok day \<longleftrightarrow> day mod day_ms = 0 \<and> zone_start + 4 * day_ms \<le> day"

lemma only_element: "set xs = {x} \<Longrightarrow> distinct xs \<Longrightarrow> xs = [x]"
  by (cases xs rule: remdups_adj.cases) auto

lemma uniform_slot:
  assumes z: "zone_rules P tz" and d: "day_ok day" and w: "w mod minute_ms = 0" "day \<le> w" "w < day + day_ms"
    and same: "offset_at P tz (day - 14 * hour_ms) = offset_at P tz (day + day_ms + 14 * hour_ms)"
  shows "slot_instants P e tz w = [w - offset_at P tz (day - 14 * hour_ms)]"
proof -
  define off where "off = offset_at P tz (day - 14 * hour_ms)"
  have start: "zone_start + 26 * hour_ms \<le> w" using d w(2) by (simp add: day_ok_def)
  have const: "offset_at P tz u = off" if "day - 14 * hour_ms \<le> u" "u \<le> day + day_ms + 14 * hour_ms" for u
    using zone_change [OF z, of "day - 14 * hour_ms" u "day + day_ms + 14 * hour_ms"] that d same
    by (auto simp: off_def day_ok_def)
  have range: "- (14 * hour_ms) \<le> off" "off \<le> 14 * hour_ms"
    using zone_offset [OF z, of "day - 14 * hour_ms"] d by (auto simp: off_def day_ok_def)
  have u: "(w - off) mod minute_ms = 0" "zone_start \<le> w - off"
    using aligned_diff [OF w(1) offset_minutes] range start by (simp_all add: off_def)
  have "t \<in> set (instants_for_wall P tz w) \<longleftrightarrow> t = w - off" for t
  proof
    assume "t \<in> set (instants_for_wall P tz w)"
    then have t: "zone_start \<le> t" "t mod minute_ms = 0" "wall_of P tz t = w"
      using instants_for_wall_iff [OF z w(1) start] by auto
    then have "w = t + offset_at P tz t" using zone_wall_minute [OF z t(1,2)] by simp
    moreover have "offset_at P tz t = off"
      using calculation zone_offset [OF z t(1)] w by (intro const) linarith+
    ultimately show "t = w - off" by simp
  next
    assume "t = w - off"
    moreover have "offset_at P tz (w - off) = off" using range w by (intro const) linarith+
    ultimately show "t \<in> set (instants_for_wall P tz w)"
      using instants_for_wall_iff [OF z w(1) start] u zone_wall_minute [OF z u(2,1)] by simp
  qed
  then have "set (instants_for_wall P tz w) = {w - off}" by blast
  moreover have "distinct (instants_for_wall P tz w)"
    using instants_for_wall_sorted [of P tz w] by (simp add: strict_sorted_iff)
  ultimately have "instants_for_wall P tz w = [w - off]"
    by (rule only_element)
  then show ?thesis by (simp add: slot_instants_def off_def Let_def)
qed

lemma set_add_instants: "set (fold (\<lambda>w out. fold add_instant (f w) out) ws out) = set out \<union> (\<Union>w \<in> set ws. set (f w))"
proof (induction ws arbitrary: out)
  case (Cons w ws)
  have "set (fold add_instant ts out) = set out \<union> set ts" for ts out
    by (induction ts arbitrary: out) (auto simp: add_instant_def)
  then show ?case using Cons by auto
qed simp

lemma distinct_add_instants: "distinct out \<Longrightarrow> distinct (fold (\<lambda>w out. fold add_instant (f w) out) ws out)"
proof (induction ws arbitrary: out)
  case (Cons w ws)
  have "distinct out \<Longrightarrow> distinct (fold add_instant ts out)" for ts out
    by (induction ts arbitrary: out) (auto simp: add_instant_def)
  then show ?case using Cons by auto
qed simp

definition matches_day :: "cron_expression \<Rightarrow> int \<Rightarrow> bool" where
  "matches_day e day \<longleftrightarrow> cron_matches_day e (cv_month (civil day)) (cv_day (civil day)) (cv_weekday (civil day))"

lemma sorted_on_day:
  assumes "cron_ok e"
  shows "sorted_wrt (<) (cron_instants_on_day P e tz day)"
proof -
  have "sorted_wrt (<) (map (\<lambda>w. w - c) (day_slots e day))" for c
    using sorted_slots [OF assms, of day] by (simp add: sorted_wrt_map)
  then show ?thesis
    by (auto simp: cron_instants_on_day_def Let_def strict_sorted_iff distinct_add_instants)
qed

lemma set_on_day:
  assumes z: "zone_rules P tz" and e: "cron_ok e" and d: "day_ok day"
  shows "set (cron_instants_on_day P e tz day)
    = (if matches_day e day then \<Union>w \<in> set (day_slots e day). set (slot_instants P e tz w) else {})"
proof (cases "offset_at P tz (day - 14 * hour_ms) = offset_at P tz (day + day_ms + 14 * hour_ms)")
  case True
  have "slot_instants P e tz w = [w - offset_at P tz (day - 14 * hour_ms)]" if "w \<in> set (day_slots e day)" for w
    using slot_bounds [OF e that] slot_minutes [OF _ that] d
    by (intro uniform_slot [OF z d _ _ _ True]) (auto simp: day_ok_def)
  then show ?thesis using True by (auto simp: cron_instants_on_day_def Let_def matches_day_def)
next
  case False
  then show ?thesis by (simp add: cron_instants_on_day_def Let_def matches_day_def set_add_instants)
qed

lemma slot_start: "day_ok day \<Longrightarrow> cron_ok e \<Longrightarrow> w \<in> set (day_slots e day) \<Longrightarrow> zone_start + 26 * hour_ms \<le> w"
  using slot_bounds(1) [of e w day] by (simp add: day_ok_def)

theorem fixed_on_day:
  assumes z: "zone_rules P tz" and e: "cron_ok e" "ce_fixed_time e" and d: "day_ok day"
  shows "t \<in> set (cron_instants_on_day P e tz day)
    \<longleftrightarrow> matches_day e day \<and> (\<exists>w \<in> set (day_slots e day). first_reading P tz w t)"
proof -
  have "t \<in> set (slot_instants P e tz w) \<longleftrightarrow> first_reading P tz w t" if w: "w \<in> set (day_slots e day)" for w
    using fixed_slot [OF z slot_minutes [OF _ w] slot_start [OF d e(1) w] e(2)] d first_reading_unique
    by (auto simp: day_ok_def)
  then show ?thesis using set_on_day [OF z e(1) d] by auto
qed

theorem wildcard_on_day:
  assumes z: "zone_rules P tz" and e: "cron_ok e" "\<not> ce_fixed_time e" and d: "day_ok day"
  shows "t \<in> set (cron_instants_on_day P e tz day)
    \<longleftrightarrow> matches_day e day \<and> zone_start \<le> t \<and> t mod minute_ms = 0 \<and> wall_of P tz t \<in> set (day_slots e day)"
proof -
  have "t \<in> set (slot_instants P e tz w) \<longleftrightarrow> zone_start \<le> t \<and> t mod minute_ms = 0 \<and> wall_of P tz t = w"
    if w: "w \<in> set (day_slots e day)" for w
    using wildcard_slot [OF z slot_minutes [OF _ w] slot_start [OF d e(1) w] e(2)] d by (simp add: day_ok_def)
  then show ?thesis using set_on_day [OF z e(1) d] by auto
qed

end
