(* ===== verification/SchedSearch.thy ===== *)
theory SchedSearch
  imports SchedFireProofs
begin

text \<open>
  The search for the next and the previous fire time is exact: it returns the least
  occurrence after, and the greatest at or before, an instant.
\<close>

subsection \<open>The order of days\<close>

definition cron_occurs :: "platform \<Rightarrow> cron_expression \<Rightarrow> string \<Rightarrow> int \<Rightarrow> bool" where
  "cron_occurs P e tz t \<longleftrightarrow> (\<exists>day. day_ok day \<and> t \<in> set (cron_instants_on_day P e tz day))"

text \<open>What the searches rely on: the rules of zones, and sets in range.\<close>

definition cron_zone_ok :: "platform \<Rightarrow> cron_expression \<Rightarrow> string \<Rightarrow> bool" where
  "cron_zone_ok P e tz \<longleftrightarrow> zone_rules P tz \<and> cron_ok e"

lemma day_start_mono: "v \<le> w \<Longrightarrow> day_start v \<le> day_start w"
  by (simp add: day_start_def zdiv_mono1)

lemma day_start_self: "day mod day_ms = 0 \<Longrightarrow> day_start day = day"
  by (rule day_start_unique) simp_all

text \<open>The local day of an instant.\<close>

lemma local_day:
  assumes "zone_rules P tz" "zone_start \<le> t"
  shows "day_start (t + offset_at P tz t) = day_start (wall_of P tz t)"
proof -
  define w where "w = wall_of P tz t"
  have w: "w = t div minute_ms * minute_ms + offset_at P tz t" using zone_wall [OF assms] by (simp add: w_def)
  have "w mod minute_ms = 0" by (simp add: w_def)
  then have "(w - day_start w) mod minute_ms = 0"
    using day_minutes [OF day_start_bounds(3)] by (rule aligned_diff)
  then obtain k where "w - day_start w = minute_ms * k" by (auto simp: mod_eq_0_iff_dvd dvd_def)
  moreover have "minute_ms * k < minute_ms * 1440" using calculation day_start_bounds(2) [of w] by linarith
  ultimately have "w \<le> day_start w + day_ms - minute_ms" by simp
  then have "day_start (t + offset_at P tz t) = day_start w"
    using floor_bounds [of t] w day_start_bounds [of w] by (intro day_start_unique) linarith+
  then show ?thesis by (simp add: w_def)
qed

lemma local_day_near:
  assumes "zone_rules P tz" "zone_start \<le> t"
  shows "day_start (wall_of P tz t) \<le> t + 14 * hour_ms"
    "t - 14 * hour_ms - minute_ms - day_ms < day_start (wall_of P tz t)"
  using wall_near [OF assms] day_start_bounds [of "wall_of P tz t"] by linarith+

lemma day_between:
  assumes "day mod day_ms = 0" "d mod day_ms = 0" "day \<le> d" "d < day + int n * day_ms"
  shows "\<exists>i<n. d = day + int i * day_ms"
proof -
  obtain a b where ab: "day = day_ms * a" "d = day_ms * b"
    using assms(1,2) by (auto simp: mod_eq_0_iff_dvd dvd_def)
  then have "d = day + int (nat (b - a)) * day_ms" "nat (b - a) < n"
    using assms(3,4) by (simp_all add: nat_less_iff algebra_simps)
  then show ?thesis by blast
qed

text \<open>
  An instant on a day reads that day or, after a gap, a later one; and an instant that reads a later day does not come before it,
  unless the clocks lead back across midnight in between.
\<close>

lemma on_day_reading:
  assumes k: "cron_zone_ok P e tz" and d: "day_ok day" and t: "t \<in> set (cron_instants_on_day P e tz day)"
  shows "zone_start \<le> t" "day \<le> day_start (wall_of P tz t)" "t \<le> day + 2 * day_ms + 14 * hour_ms + minute_ms"
    "\<And>s. zone_start \<le> s \<Longrightarrow> day < day_start (wall_of P tz s)
      \<Longrightarrow> (s \<le> t \<Longrightarrow> day_start (wall_of P tz s) \<le> day_start (wall_of P tz t)) \<Longrightarrow> t \<le> s"
proof -
  have z: "zone_rules P tz" and e: "cron_ok e" using k by (auto simp: cron_zone_ok_def)
  have dm: "day mod day_ms = 0" and dz: "zone_start + 4 * day_ms \<le> day" using d by (simp_all add: day_ok_def)
  define v where "v = day + 2 * day_ms + 14 * hour_ms + minute_ms"
  have v: "zone_start \<le> v" "day < day_start (wall_of P tz v)"
    using dz local_day_near(2) [OF z, of v] by (simp_all add: v_def)
  have "zone_start \<le> t \<and> day \<le> day_start (wall_of P tz t) \<and> t \<le> v
    \<and> (\<forall>s. zone_start \<le> s \<and> day < day_start (wall_of P tz s)
        \<and> (s \<le> t \<longrightarrow> day_start (wall_of P tz s) \<le> day_start (wall_of P tz t)) \<longrightarrow> t \<le> s)"
  proof (cases "ce_fixed_time e")
    case True
    then obtain w where w: "w \<in> set (day_slots e day)" and r: "first_reading P tz w t"
      using fixed_on_day [OF z e True d] t by blast
    have "day \<le> day_start (wall_of P tz t)"
      using r day_start_mono [of day "wall_of P tz t"] slot_bounds(1) [OF e w] day_start_self [OF dm]
      by (simp add: first_reading_def)
    moreover have le: "t \<le> s" if s: "zone_start \<le> s" "day < day_start (wall_of P tz s)" for s
    proof (rule ccontr)
      assume "\<not> t \<le> s"
      then have "wall_of P tz s < w" using r s(1) by (simp add: first_reading_def)
      then have "day_start (wall_of P tz s) \<le> day_start w" by (intro day_start_mono) simp
      then show False using s(2) slot_day [OF e dm w] by simp
    qed
    ultimately show ?thesis using r le [OF v] by (simp add: first_reading_def)
  next
    case False
    then have w: "wall_of P tz t \<in> set (day_slots e day)" and zt: "zone_start \<le> t"
      using wildcard_on_day [OF z e False d] t by auto
    have same: "day_start (wall_of P tz t) = day" by (rule slot_day [OF e dm w])
    moreover have "t \<le> v" using local_day_near(2) [OF z zt] same by (simp add: v_def)
    ultimately show ?thesis using zt by auto
  qed
  then show "zone_start \<le> t" "day \<le> day_start (wall_of P tz t)" "t \<le> day + 2 * day_ms + 14 * hour_ms + minute_ms"
    "\<And>s. zone_start \<le> s \<Longrightarrow> day < day_start (wall_of P tz s)
      \<Longrightarrow> (s \<le> t \<Longrightarrow> day_start (wall_of P tz s) \<le> day_start (wall_of P tz t)) \<Longrightarrow> t \<le> s"
    by (auto simp: v_def)
qed

lemma days_follow:
  assumes "cron_zone_ok P e tz" "day_ok d" "day_ok d'" "d < d'"
    "t \<in> set (cron_instants_on_day P e tz d)" "t' \<in> set (cron_instants_on_day P e tz d')"
    and o: "t' \<le> t \<Longrightarrow> day_start (wall_of P tz t') \<le> day_start (wall_of P tz t)"
  shows "t \<le> t'"
  using on_day_reading(4) [OF assms(1,2,5), of t'] on_day_reading(1,2) [OF assms(1,3,6)] assms(4) o by simp

subsection \<open>Forward\<close>

lemma find_least:
  fixes t :: int
  assumes "sorted_wrt (<) xs" "find Q xs = Some t"
  shows "t \<in> set xs \<and> Q t \<and> (\<forall>u \<in> set xs. Q u \<longrightarrow> t \<le> u)"
  using assms by (induction xs) (auto split: if_splits)

lemma find_greatest:
  fixes t :: int
  assumes "sorted_wrt (<) xs" "find Q (rev xs) = Some t"
  shows "t \<in> set xs \<and> Q t \<and> (\<forall>u \<in> set xs. Q u \<longrightarrow> u \<le> t)"
proof -
  have "sorted_wrt (\<lambda>x y. y < x) ys \<Longrightarrow> find Q ys = Some t
      \<Longrightarrow> t \<in> set ys \<and> Q t \<and> (\<forall>u \<in> set ys. Q u \<longrightarrow> u \<le> t)" for ys
    by (induction ys) (auto split: if_splits)
  from this [of "rev xs"] show ?thesis using assms by (simp add: sorted_wrt_rev)
qed

lemma first_after_Some:
  assumes "cron_ok e"
  shows "first_after P e tz after day n = Some t \<Longrightarrow>
    \<exists>i<n. t \<in> set (cron_instants_on_day P e tz (day + int i * day_ms)) \<and> t > after
      \<and> (\<forall>j<i. \<forall>u \<in> set (cron_instants_on_day P e tz (day + int j * day_ms)). u \<le> after)
      \<and> (\<forall>u \<in> set (cron_instants_on_day P e tz (day + int i * day_ms)). u > after \<longrightarrow> t \<le> u)"
proof (induction n arbitrary: day)
  case (Suc n)
  show ?case
  proof (cases "find (\<lambda>t. t > after) (cron_instants_on_day P e tz day)")
    case None
    then have "first_after P e tz after (day + day_ms) n = Some t" using Suc.prems by simp
    from Suc.IH [OF this] obtain i where i: "i < n"
      "t \<in> set (cron_instants_on_day P e tz (day + day_ms + int i * day_ms))" "t > after"
      "\<forall>j<i. \<forall>u \<in> set (cron_instants_on_day P e tz (day + day_ms + int j * day_ms)). u \<le> after"
      "\<forall>u \<in> set (cron_instants_on_day P e tz (day + day_ms + int i * day_ms)). u > after \<longrightarrow> t \<le> u"
      by blast
    have shift: "day + day_ms + int j * day_ms = day + int (Suc j) * day_ms" for j by simp
    have "\<forall>j<Suc i. \<forall>u \<in> set (cron_instants_on_day P e tz (day + int j * day_ms)). u \<le> after"
    proof (intro allI impI)
      fix j assume "j < Suc i"
      then show "\<forall>u \<in> set (cron_instants_on_day P e tz (day + int j * day_ms)). u \<le> after"
        using None i(4) shift by (cases j) (auto simp: find_None_iff)
    qed
    then show ?thesis using i(1-3,5) unfolding shift by (intro exI [of _ "Suc i"]) simp
  next
    case (Some u)
    then have "u = t" using Suc.prems by simp
    then show ?thesis
      using find_least [OF sorted_on_day [OF assms] Some] by (intro exI [of _ 0]) auto
  qed
qed simp

lemma first_after_None:
  "first_after P e tz after day n = None \<Longrightarrow> i < n
    \<Longrightarrow> u \<in> set (cron_instants_on_day P e tz (day + int i * day_ms)) \<Longrightarrow> u \<le> after"
proof (induction n arbitrary: day i)
  case (Suc n)
  then have "find (\<lambda>t. t > after) (cron_instants_on_day P e tz day) = None"
    and "first_after P e tz after (day + day_ms) n = None" by (auto split: option.splits)
  moreover have "day + int i * day_ms = day + day_ms + int (i - 1) * day_ms" if "i \<noteq> 0"
    using that by (cases i) simp_all
  ultimately show ?case using Suc.IH [of "day + day_ms" "i - 1"] Suc.prems
    by (cases "i = 0") (auto simp: find_None_iff)
qed simp

text \<open>The walk forward from the day before that of \<open>after\<close>.\<close>

theorem cron_next:
  assumes k: "cron_zone_ok P e tz" and a: "zone_start + 7 * day_ms \<le> after"
  defines "start \<equiv> day_start (after + offset_at P tz after) - day_ms"
  shows "first_after P e tz after start n = Some t \<Longrightarrow> cron_occurs P e tz t \<and> t > after"
    and "first_after P e tz after start n = Some t \<Longrightarrow> days_in_order P tz after t
      \<Longrightarrow> cron_occurs P e tz u \<Longrightarrow> u > after \<Longrightarrow> t \<le> u"
    and "first_after P e tz after start n = None \<Longrightarrow> cron_occurs P e tz u \<Longrightarrow> u > after \<Longrightarrow> days_in_order P tz after u
      \<Longrightarrow> u > after + (int n - 4) * day_ms"
proof -
  have z: "zone_rules P tz" and e: "cron_ok e" using k by (auto simp: cron_zone_ok_def)
  have az: "zone_start \<le> after" using a by simp
  have start: "start = day_start (wall_of P tz after) - day_ms" by (simp add: start_def local_day [OF z az])
  have sm: "start mod day_ms = 0" using day_start_bounds(3) [of "wall_of P tz after"] by (simp add: start)
  have sok: "day_ok (start + int i * day_ms)" for i
    using sm local_day_near(2) [OF z az] a by (simp add: day_ok_def start)
  have early: "start \<le> d" if "day_ok d" "u \<in> set (cron_instants_on_day P e tz d)" "u > after"
    "day_start (wall_of P tz after) \<le> day_start (wall_of P tz u)" for d u
  proof (rule ccontr)
    assume "\<not> start \<le> d"
    then have "u \<le> after" using on_day_reading(4) [OF k that(1,2) az] that(4) by (simp add: start)
    then show False using that(3) by simp
  qed
  show found: "cron_occurs P e tz t \<and> t > after" if f: "first_after P e tz after start n = Some t" for t
    using first_after_Some [OF e f] sok by (auto simp: cron_occurs_def)
  show "t \<le> u" if f: "first_after P e tz after start n = Some t" and o: "days_in_order P tz after t"
    and u: "cron_occurs P e tz u" "u > after" for t u
  proof (rule ccontr)
    assume lt: "\<not> t \<le> u"
    obtain d where d: "day_ok d" "u \<in> set (cron_instants_on_day P e tz d)" using u(1) by (auto simp: cron_occurs_def)
    obtain i where i: "i < n" "t \<in> set (cron_instants_on_day P e tz (start + int i * day_ms))" "t > after"
      "\<forall>j<i. \<forall>u \<in> set (cron_instants_on_day P e tz (start + int j * day_ms)). u \<le> after"
      "\<forall>u \<in> set (cron_instants_on_day P e tz (start + int i * day_ms)). u > after \<longrightarrow> t \<le> u"
      using first_after_Some [OF e f] by blast
    have le: "start \<le> d" by (rule early [OF d u(2)]) (use days_in_orderD [OF o] lt u(2) in simp)
    have "\<not> d < start + int i * day_ms"
    proof
      assume "d < start + int i * day_ms"
      then obtain j where "j < i" "d = start + int j * day_ms"
        using day_between [OF sm _ le, of i] d(1) by (auto simp: day_ok_def)
      then show False using i(4) d(2) u(2) by force
    qed
    then consider "d = start + int i * day_ms" | "start + int i * day_ms < d" by linarith
    then show False
    proof cases
      case 1
      then show ?thesis using i(5) d(2) u(2) lt by simp
    next
      case 2
      have "t \<le> u"
        by (rule days_follow [OF k sok d(1) 2 i(2) d(2)]) (use days_in_orderD [OF o] u(2) in simp)
      then show ?thesis using lt by simp
    qed
  qed
  show "u > after + (int n - 4) * day_ms"
    if f: "first_after P e tz after start n = None" and u: "cron_occurs P e tz u" "u > after" and o: "days_in_order P tz after u" for u
  proof -
    obtain d where d: "day_ok d" "u \<in> set (cron_instants_on_day P e tz d)" using u(1) by (auto simp: cron_occurs_def)
    have "start \<le> d" by (rule early [OF d u(2)]) (use days_in_orderD [OF o] u(2) in simp)
    have "\<not> d < start + int n * day_ms"
      using day_between [OF sm _ \<open>start \<le> d\<close>, of n] first_after_None [OF f _] d u(2) by (force simp: day_ok_def)
    moreover note on_day_reading(1,2) [OF k d] local_day_near(2) [OF z az]
    ultimately show ?thesis
      using local_day_near(1) [OF z, of u] by (simp add: start algebra_simps)
  qed
qed

subsection \<open>Backward\<close>

lemma last_before_Some:
  assumes "cron_ok e"
  shows "last_before P e tz before day n = Some t \<Longrightarrow>
    \<exists>i<n. t \<in> set (cron_instants_on_day P e tz (day - int i * day_ms)) \<and> t \<le> before
      \<and> (\<forall>j<i. \<forall>u \<in> set (cron_instants_on_day P e tz (day - int j * day_ms)). before < u)
      \<and> (\<forall>u \<in> set (cron_instants_on_day P e tz (day - int i * day_ms)). u \<le> before \<longrightarrow> u \<le> t)"
proof (induction n arbitrary: day)
  case (Suc n)
  show ?case
  proof (cases "find (\<lambda>t. t \<le> before) (rev (cron_instants_on_day P e tz day))")
    case None
    then have "last_before P e tz before (day - day_ms) n = Some t" using Suc.prems by simp
    from Suc.IH [OF this] obtain i where i: "i < n"
      "t \<in> set (cron_instants_on_day P e tz (day - day_ms - int i * day_ms))" "t \<le> before"
      "\<forall>j<i. \<forall>u \<in> set (cron_instants_on_day P e tz (day - day_ms - int j * day_ms)). before < u"
      "\<forall>u \<in> set (cron_instants_on_day P e tz (day - day_ms - int i * day_ms)). u \<le> before \<longrightarrow> u \<le> t"
      by blast
    have shift: "day - day_ms - int j * day_ms = day - int (Suc j) * day_ms" for j by simp
    have "\<forall>j<Suc i. \<forall>u \<in> set (cron_instants_on_day P e tz (day - int j * day_ms)). before < u"
    proof (intro allI impI)
      fix j assume "j < Suc i"
      then show "\<forall>u \<in> set (cron_instants_on_day P e tz (day - int j * day_ms)). before < u"
        using None i(4) shift by (cases j) (auto simp: find_None_iff)
    qed
    then show ?thesis using i(1-3,5) unfolding shift by (intro exI [of _ "Suc i"]) simp
  next
    case (Some u)
    then have "u = t" using Suc.prems by simp
    then show ?thesis
      using find_greatest [OF sorted_on_day [OF assms] Some] by (intro exI [of _ 0]) auto
  qed
qed simp

lemma last_before_None:
  "last_before P e tz before day n = None \<Longrightarrow> i < n
    \<Longrightarrow> u \<in> set (cron_instants_on_day P e tz (day - int i * day_ms)) \<Longrightarrow> before < u"
proof (induction n arbitrary: day i)
  case (Suc n)
  then have "find (\<lambda>t. t \<le> before) (rev (cron_instants_on_day P e tz day)) = None"
    and "last_before P e tz before (day - day_ms) n = None" by (auto split: option.splits)
  moreover have "day - int i * day_ms = day - day_ms - int (i - 1) * day_ms" if "i \<noteq> 0"
    using that by (cases i) simp_all
  ultimately show ?case using Suc.IH [of "day - day_ms" "i - 1"] Suc.prems
    by (cases "i = 0") (auto simp: find_None_iff)
qed simp

lemma last_before_le: "last_before P e tz before day n = Some t \<Longrightarrow> t \<le> before"
proof (induction n arbitrary: day)
  case (Suc n)
  then show ?case by (auto simp: find_Some_iff split: option.splits)
qed simp

text \<open>The walk back from the day after that of \<open>before\<close>.\<close>

theorem cron_previous:
  assumes k: "cron_zone_ok P e tz" and a: "zone_start + (int n + 8) * day_ms \<le> before" and o: "days_in_order P tz lo before"
  defines "start \<equiv> day_start (before + offset_at P tz before) + day_ms"
  shows "last_before P e tz before start n = Some t \<Longrightarrow> cron_occurs P e tz t \<and> t \<le> before"
    and "last_before P e tz before start n = Some t \<Longrightarrow> cron_occurs P e tz u \<Longrightarrow> lo + 2 * day_ms \<le> u \<Longrightarrow> u \<le> before \<Longrightarrow> u \<le> t"
    and "last_before P e tz before start n = None \<Longrightarrow> cron_occurs P e tz u \<Longrightarrow> lo \<le> u \<Longrightarrow> u \<le> before
      \<Longrightarrow> u < before - (int n - 5) * day_ms"
proof -
  have z: "zone_rules P tz" and e: "cron_ok e" using k by (auto simp: cron_zone_ok_def)
  have az: "zone_start \<le> before" using a by simp
  have start: "start = day_start (wall_of P tz before) + day_ms" by (simp add: start_def local_day [OF z az])
  have sm: "start mod day_ms = 0" using day_start_bounds(3) [of "wall_of P tz before"] by (simp add: start)
  have sok: "day_ok (start - int i * day_ms)" if "i < n" for i
  proof -
    have "start - int i * day_ms \<ge> zone_start + 4 * day_ms"
      using local_day_near(2) [OF z az] a that by (simp add: start algebra_simps)
    moreover have "(start - int i * day_ms) mod day_ms = 0" by (rule aligned_diff [OF sm]) simp
    ultimately show ?thesis by (simp add: day_ok_def)
  qed
  have late: "d \<le> start" if "day_ok d" "u \<in> set (cron_instants_on_day P e tz d)" "u \<le> before" "lo \<le> u" for d u
    using on_day_reading(2) [OF k that(1,2)] days_in_orderD [OF o that(4,3)] by (simp add: start)
  show found: "cron_occurs P e tz t \<and> t \<le> before" if f: "last_before P e tz before start n = Some t" for t
    using last_before_Some [OF e f] sok by (auto simp: cron_occurs_def)
  show "u \<le> t" if f: "last_before P e tz before start n = Some t"
    and u: "cron_occurs P e tz u" "lo + 2 * day_ms \<le> u" "u \<le> before" for t u
  proof -
    obtain d where d: "day_ok d" "u \<in> set (cron_instants_on_day P e tz d)" using u(1) by (auto simp: cron_occurs_def)
    obtain i where i: "i < n" "t \<in> set (cron_instants_on_day P e tz (start - int i * day_ms))" "t \<le> before"
      "\<forall>j<i. \<forall>u \<in> set (cron_instants_on_day P e tz (start - int j * day_ms)). before < u"
      "\<forall>u \<in> set (cron_instants_on_day P e tz (start - int i * day_ms)). u \<le> before \<longrightarrow> u \<le> t"
      using last_before_Some [OF e f] by blast
    have le: "d \<le> start" by (rule late [OF d u(3)]) (use u(2) in simp)
    have dm: "d mod day_ms = 0" using d(1) by (simp add: day_ok_def)
    have "\<not> start - int i * day_ms < d"
    proof
      assume lt: "start - int i * day_ms < d"
      have "\<exists>j<i. start = d + int j * day_ms"
        by (rule day_between [OF dm sm le]) (use lt in linarith)
      then obtain j where "j < i" "d = start - int j * day_ms" by auto
      then show False using i(4) d(2) u(3) by force
    qed
    then consider "d = start - int i * day_ms" | "d < start - int i * day_ms" by linarith
    then show ?thesis
    proof cases
      case 1
      then show ?thesis using i(5) d(2) u(3) by simp
    next
      case 2
      have zt: "zone_start \<le> t" "zone_start \<le> u" using on_day_reading(1) [OF k sok [OF i(1)] i(2)] on_day_reading(1) [OF k d] by auto
      have "day_start (wall_of P tz t) \<le> day_start (wall_of P tz u)" if "t \<le> u"
      proof (cases "lo \<le> t")
        case True
        then show ?thesis by (rule days_in_orderD [OF o _ that u(3)])
      next
        case False
        then show ?thesis using wall_near(1) [OF z zt(1)] wall_near(2) [OF z zt(2)] u(2) by (intro day_start_mono) simp
      qed
      from days_follow [OF k d(1) sok [OF i(1)] 2 d(2) i(2) this] show ?thesis .
    qed
  qed
  show "u < before - (int n - 5) * day_ms"
    if f: "last_before P e tz before start n = None" and u: "cron_occurs P e tz u" "lo \<le> u" "u \<le> before" for u
  proof -
    obtain d where d: "day_ok d" "u \<in> set (cron_instants_on_day P e tz d)" using u(1) by (auto simp: cron_occurs_def)
    have le: "d \<le> start" by (rule late [OF d u(3,2)])
    have dm: "d mod day_ms = 0" using d(1) by (simp add: day_ok_def)
    have far: "d \<le> start - int n * day_ms"
    proof (rule ccontr)
      assume "\<not> ?thesis"
      then obtain j where "j < n" "start = d + int j * day_ms"
        using day_between [OF dm sm le, of n] by auto
      then show False using last_before_None [OF f, of j u] d(2) u(3) by simp
    qed
    then show ?thesis using on_day_reading(3) [OF k d] local_day_near(1) [OF z az] by (simp add: start algebra_simps)
  qed
qed

end
