(* ===== verification/SchedCount.thy ===== *)
theory SchedCount
  imports SchedSearch
begin

text \<open>
  The count of occurrences in a window is the number of occurrences in it, up to the
  cap: the shortcut for days without a change of offset and the early end of the count
  change nothing, in windows whose days come in order and whose gaps do not skip the end of a day.
\<close>

subsection \<open>The days of the count\<close>

definition days_from :: "int \<Rightarrow> nat \<Rightarrow> int list" where
  "days_from day n = map (\<lambda>i. day + int i * day_ms) [0..<n]"

definition hits :: "platform \<Rightarrow> cron_expression \<Rightarrow> string \<Rightarrow> int \<Rightarrow> int \<Rightarrow> int list \<Rightarrow> int list" where
  "hits P e tz from_ms to_ms days =
    filter (\<lambda>t. from_ms < t \<and> t \<le> to_ms) (concat (map (cron_instants_on_day P e tz) days))"

lemma days_from_0 [simp]: "days_from day 0 = []"
  by (simp add: days_from_def)

lemma days_from_Suc [simp]: "days_from day (Suc n) = day # days_from (day + day_ms) n"
  by (simp add: days_from_def upt_conv_Cons map_Suc_upt [symmetric] comp_def algebra_simps del: upt_Suc)

lemma hits_Nil [simp]: "hits P e tz f t [] = []"
  by (simp add: hits_def)

lemma hits_Cons [simp]: "hits P e tz f t (d # ds)
    = filter (\<lambda>u. f < u \<and> u \<le> t) (cron_instants_on_day P e tz d) @ hits P e tz f t ds"
  by (simp add: hits_def)

lemma uniform_day:
  assumes "offset_at P tz (day - 14 * hour_ms) = offset_at P tz (day + day_ms + 14 * hour_ms)" "matches_day e day"
  shows "cron_instants_on_day P e tz day = map (\<lambda>w. w - offset_at P tz (day - 14 * hour_ms)) (day_slots e day)"
  using assms by (simp add: cron_instants_on_day_def Let_def matches_day_def)

lemma count_day:
  fixes from_ms to_ms :: int
  assumes e: "cron_ok e" and "h = filter (\<lambda>t. from_ms < t \<and> t \<le> to_ms) (cron_instants_on_day P e tz day)"
  shows "count_day P e tz from_ms to_ms day (c, f)
    = (c + int (length h), if f = None \<and> h \<noteq> [] then Some (hd h) else f)"
proof (cases "matches_day e day")
  case False
  then show ?thesis by (simp add: count_day_def Let_def matches_day_def assms(2) cron_instants_on_day_def)
next
  case m: True
  let ?o1 = "offset_at P tz (day - 14 * hour_ms)"
  let ?o2 = "offset_at P tz (day + day_ms + 14 * hour_ms)"
  show ?thesis
  proof (cases "f \<noteq> None \<and> ?o1 = ?o2 \<and> day - ?o1 > from_ms \<and> day + day_ms - ?o1 \<le> to_ms")
    case True
    have uni: "cron_instants_on_day P e tz day = map (\<lambda>w. w - ?o1) (day_slots e day)"
      by (rule uniform_day [OF _ m]) (use True in blast)
    have "from_ms < t \<and> t \<le> to_ms" if t: "t \<in> set (cron_instants_on_day P e tz day)" for t
    proof -
      obtain w where "w \<in> set (day_slots e day)" "t = w - ?o1"
        using t unfolding uni set_map by blast
      then show ?thesis using slot_bounds [OF e, of w day] True by linarith
    qed
    then have "h = cron_instants_on_day P e tz day" unfolding assms(2) by (intro filter_True) blast
    then have "length h = length (ce_hours e) * length (ce_minutes e)"
      unfolding uni by (simp add: length_slots)
    then show ?thesis using True m by (auto simp: count_day_def Let_def matches_day_def)
  next
    case False
    then show ?thesis using m by (auto simp: count_day_def Let_def matches_day_def assms(2))
  qed
qed

lemma count_days:
  assumes e: "cron_ok e" and cap: "0 \<le> cap"
  shows "0 \<le> c \<Longrightarrow> c \<le> cap \<Longrightarrow> (f = None \<longrightarrow> c = 0) \<Longrightarrow>
    count_days P e tz from_ms to_ms cap day n (c, f) = (c', f') \<Longrightarrow>
    w = hits P e tz from_ms to_ms (days_from day n) \<Longrightarrow>
    min c' cap = min (c + int (length w)) cap \<and> (c' > cap \<longleftrightarrow> c + int (length w) > cap)
      \<and> f' = (if f = None \<and> w \<noteq> [] then Some (hd w) else f)"
proof (induction n arbitrary: c f day w)
  case (Suc n)
  define h where "h = filter (\<lambda>t. from_ms < t \<and> t \<le> to_ms) (cron_instants_on_day P e tz day)"
  define c1 where "c1 = c + int (length h)"
  define f1 where "f1 = (if f = None \<and> h \<noteq> [] then Some (hd h) else f)"
  define r where "r = hits P e tz from_ms to_ms (days_from (day + day_ms) n)"
  have day: "count_day P e tz from_ms to_ms day (c, f) = (c1, f1)"
    unfolding c1_def f1_def by (rule count_day [OF e h_def])
  have w: "w = h @ r" using Suc.prems(5) by (simp add: h_def r_def)
  show ?case
  proof (cases "c1 > cap")
    case True
    then have "(c', f') = (c1, f1)" using Suc.prems(4) day by simp
    moreover have "f1 \<noteq> None" using True Suc.prems(3) cap by (cases f; cases h) (auto simp: f1_def c1_def)
    moreover have "h = [] \<Longrightarrow> f \<noteq> None" using True Suc.prems(3) cap by (auto simp: c1_def)
    ultimately show ?thesis using True by (auto simp: w c1_def f1_def)
  next
    case False
    then have rest: "count_days P e tz from_ms to_ms cap (day + day_ms) n (c1, f1) = (c', f')"
      using Suc.prems(4) day by simp
    have "min c' cap = min (c1 + int (length r)) cap \<and> (c' > cap \<longleftrightarrow> c1 + int (length r) > cap)
      \<and> f' = (if f1 = None \<and> r \<noteq> [] then Some (hd r) else f1)"
      by (rule Suc.IH [OF _ _ _ rest r_def])
        (use False Suc.prems(1,3) in \<open>auto simp: c1_def f1_def split: if_splits\<close>)
    then show ?thesis by (auto simp: w c1_def f1_def split: if_splits)
  qed
qed auto

subsection \<open>The window of a count\<close>

text \<open>
  When the clocks skip a part of a day at an instant of the window, they do not skip its end. No zone is taken to do this
  always: America/Nuuk and Scoresbysund skip the last hour of a day every spring, and Pacific/Apia and Kiritimati have skipped
  a whole day. A property that needs it names the span in which it does.
\<close>

definition gaps_within_day :: "platform \<Rightarrow> string \<Rightarrow> int \<Rightarrow> int \<Rightarrow> bool" where
  "gaps_within_day P tz a b \<longleftrightarrow> (\<forall>w t. zone_start + 26 * hour_ms \<le> w \<and> w mod minute_ms = 0 \<and> first_reading P tz w t
    \<and> a < t \<and> t \<le> b \<longrightarrow> day_start (wall_of P tz t) = day_start w)"

lemma on_day_local:
  assumes k: "cron_zone_ok P e tz" and s: "gaps_within_day P tz a b" and d: "day_ok day"
    and t: "t \<in> set (cron_instants_on_day P e tz day)" "a < t" "t \<le> b"
  shows "day_start (wall_of P tz t) = day"
proof -
  have z: "zone_rules P tz" and e: "cron_ok e" using k by (auto simp: cron_zone_ok_def)
  have dm: "day mod day_ms = 0" using d by (simp add: day_ok_def)
  show ?thesis
  proof (cases "ce_fixed_time e")
    case True
    then obtain w where w: "w \<in> set (day_slots e day)" "first_reading P tz w t"
      using fixed_on_day [OF z e True d] t(1) by blast
    then show ?thesis
      using s t(2,3) slot_start [OF d e w(1)] slot_minutes [OF dm w(1)] slot_day [OF e dm w(1)]
      unfolding gaps_within_day_def by metis
  next
    case False
    then show ?thesis using wildcard_on_day [OF z e False d] t(1) slot_day [OF e dm] by blast
  qed
qed

lemma days_from_ok: "day_ok day \<Longrightarrow> d \<in> set (days_from day n) \<Longrightarrow> day_ok d"
  by (auto simp: days_from_def day_ok_def)

lemma sorted_hits:
  assumes k: "cron_zone_ok P e tz" and s: "gaps_within_day P tz from_ms to_ms"
    and o: "days_in_order P tz from_ms to_ms"
  shows "day_ok day \<Longrightarrow> sorted_wrt (<) (hits P e tz from_ms to_ms (days_from day n))"
proof (induction n arbitrary: day)
  case (Suc n)
  have e: "cron_ok e" using k by (simp add: cron_zone_ok_def)
  have ok: "day_ok (day + day_ms)" using Suc.prems by (simp add: day_ok_def)
  have "t < u" if t: "t \<in> set (cron_instants_on_day P e tz day)" "from_ms < t" "t \<le> to_ms"
    and u: "u \<in> set (hits P e tz from_ms to_ms (days_from (day + day_ms) n))" for t u
  proof -
    obtain d where d: "d \<in> set (days_from (day + day_ms) n)" "u \<in> set (cron_instants_on_day P e tz d)" "from_ms < u" "u \<le> to_ms"
      using u by (auto simp: hits_def)
    have "day < d" using d(1) by (auto simp: days_from_def)
    have "day_ok d" by (rule days_from_ok [OF ok d(1)])
    have "t \<le> u"
      by (rule days_follow [OF k Suc.prems \<open>day_ok d\<close> \<open>day < d\<close> t(1) d(2)])
        (use days_in_orderD [OF o] d(3) t(3) in simp)
    moreover have "t \<noteq> u"
      using on_day_local [OF k s Suc.prems t] on_day_local [OF k s \<open>day_ok d\<close> d(2-4)] \<open>day < d\<close> by auto
    ultimately show ?thesis by simp
  qed
  moreover have "sorted_wrt (<) (filter (\<lambda>t. from_ms < t \<and> t \<le> to_ms) (cron_instants_on_day P e tz day))"
    by (rule sorted_wrt_filter [OF sorted_on_day [OF e]])
  ultimately show ?case using Suc.IH [OF ok] by (auto simp: sorted_wrt_append)
qed simp

text \<open>The days walked are enough: no occurrence of the window is on another day.\<close>

lemma set_hits:
  assumes k: "cron_zone_ok P e tz" and f: "zone_start + 7 * day_ms \<le> from_ms" "from_ms < to_ms"
    and o: "days_in_order P tz from_ms to_ms"
  defines "first_day \<equiv> day_start (from_ms + offset_at P tz from_ms) - day_ms"
    and "last_day \<equiv> day_start (to_ms + offset_at P tz to_ms) + day_ms"
  shows "day_ok first_day"
    "set (hits P e tz from_ms to_ms (days_from first_day (nat ((last_day - first_day) div day_ms + 1))))
      = {t. cron_occurs P e tz t \<and> from_ms < t \<and> t \<le> to_ms}"
proof -
  have z: "zone_rules P tz" using k by (auto simp: cron_zone_ok_def)
  have zf: "zone_start \<le> from_ms" "zone_start \<le> to_ms" using f by simp_all
  have fd: "first_day = day_start (wall_of P tz from_ms) - day_ms"
    and ld: "last_day = day_start (wall_of P tz to_ms) + day_ms"
    by (simp_all add: first_day_def last_day_def local_day [OF z zf(1)] local_day [OF z zf(2)])
  have fm: "first_day mod day_ms = 0" "last_day mod day_ms = 0"
    using day_start_bounds(3) [of "wall_of P tz from_ms"] day_start_bounds(3) [of "wall_of P tz to_ms"]
    by (simp_all add: fd ld)
  show ok: "day_ok first_day"
    using fm(1) local_day_near(2) [OF z zf(1)] f(1) by (simp add: day_ok_def fd)
  define n where "n = nat ((last_day - first_day) div day_ms + 1)"
  have "d \<in> set (days_from first_day n)"
    if d: "day_ok d" "t \<in> set (cron_instants_on_day P e tz d)" "from_ms < t" "t \<le> to_ms" for d t
  proof -
    have "first_day \<le> d"
      using on_day_reading(4) [OF k d(1,2) zf(1)] days_in_orderD [OF o order.refl _ d(4)] d(3) by (force simp: fd)
    moreover have "d \<le> last_day"
      using on_day_reading(2) [OF k d(1,2)] days_in_orderD [OF o _ d(4)] d(3) by (force simp: ld)
    moreover obtain a b where "first_day = day_ms * a" "last_day = day_ms * b"
      using fm by (auto simp: mod_eq_0_iff_dvd dvd_def)
    then have "last_day - first_day = day_ms * (b - a)" by (simp add: algebra_simps)
    then have "(last_day - first_day) div day_ms = b - a" by simp
    then have "last_day < first_day + int n * day_ms"
      using \<open>first_day \<le> d\<close> \<open>d \<le> last_day\<close> \<open>last_day - first_day = day_ms * (b - a)\<close>
      by (simp add: n_def algebra_simps)
    ultimately obtain i where "i < n" "d = first_day + int i * day_ms"
      using day_between [OF fm(1), of d n] d(1) by (auto simp: day_ok_def)
    then show ?thesis by (auto simp: days_from_def)
  qed
  then show "set (hits P e tz from_ms to_ms (days_from first_day n))
      = {t. cron_occurs P e tz t \<and> from_ms < t \<and> t \<le> to_ms}"
    by (auto simp: hits_def cron_occurs_def intro: days_from_ok [OF ok])
qed

end
