(* ===== verification/SchedZones.thy ===== *)
theory SchedZones
  imports SchedCount
begin

text \<open>
  A platform on which the rules of zones hold: UTC, and a zone that is an hour ahead
  between 31 March and 27 October 2024, as London is.
\<close>

definition summer_start :: int where
  "summer_start = 1711846800000"

definition summer_end :: int where
  "summer_end = 1729990800000"

definition demo_offset :: "string \<Rightarrow> int \<Rightarrow> int" where
  "demo_offset tz t = (if tz = ''Europe/London'' \<and> summer_start \<le> t \<and> t < summer_end then hour_ms else 0)"

definition parts_of :: "civil_time \<Rightarrow> wall_parts" where
  "parts_of c = \<lparr>wp_year = cv_year c, wp_month = int (cv_month c), wp_day = int (cv_day c),
    wp_hour = int (cv_hour c), wp_minute = int (cv_minute c)\<rparr>"

definition demo_parts :: "string \<Rightarrow> int \<Rightarrow> wall_parts" where
  "demo_parts tz t = parts_of (civil (t + demo_offset tz t))"

definition demo_zone :: "string \<Rightarrow> string option" where
  "demo_zone tz = (if tz = ''UTC'' \<or> tz = ''Europe/London'' then Some tz else None)"

definition demo_platform :: platform where
  "demo_platform = \<lparr>pl_parts = demo_parts, pl_resolve = demo_zone, pl_host = ''UTC'',
    pl_date_parse = Map.empty\<rparr>"

lemma civil_year: "0 \<le> w \<Longrightarrow> 1970 \<le> cv_year (civil w)"
proof (rule ccontr)
  assume w: "0 \<le> w" and "\<not> 1970 \<le> cv_year (civil w)"
  then have "year_from_day (w div day_ms) + 1 \<le> 1970" by (simp add: civil_def Let_def)
  then have "day_from_year (year_from_day (w div day_ms) + 1) \<le> day_from_year 1970" by (rule day_from_year_mono)
  also have "\<dots> = 0" by (simp add: day_from_year_def)
  finally have "day_from_year (year_from_day (w div day_ms) + 1) \<le> 0" .
  moreover have "0 \<le> w div day_ms" using w by (simp add: pos_imp_zdiv_nonneg_iff)
  ultimately show False using year_from_day_bounds [of "w div day_ms"] by linarith
qed

lemma demo_offset_cases: "demo_offset tz t = 0 \<or> demo_offset tz t = hour_ms"
  by (simp add: demo_offset_def)

lemma demo_wall:
  assumes "zone_start \<le> t"
  shows "wall_of demo_platform tz t = t div minute_ms * minute_ms + demo_offset tz t"
proof -
  define c where "c = civil (t + demo_offset tz t)"
  have pos: "0 \<le> t + demo_offset tz t" using assms demo_offset_cases [of tz t] by (auto simp: zone_start_def)
  have h: "cv_hour c < 24" using civil_fields(5) by (simp add: c_def)
  have "wall_of demo_platform tz t = civil_utc c"
    using h by (simp add: wall_of_def demo_platform_def demo_parts_def parts_of_def civil_utc_def c_def)
  also have "\<dots> = (t + demo_offset tz t) div minute_ms * minute_ms"
    using civil_utc_civil [of "t + demo_offset tz t"] civil_year [OF pos] by (simp add: c_def)
  also have "\<dots> = t div minute_ms * minute_ms + demo_offset tz t"
    using demo_offset_cases [of tz t] div_add1_eq [of t hour_ms minute_ms] by auto
  finally show ?thesis .
qed

lemma floor_start:
  assumes "zone_start \<le> t"
  shows "zone_start \<le> t div minute_ms * minute_ms"
  using zdiv_mono1 [OF assms, of minute_ms] by (simp add: zone_start_def)

lemma summer_minutes: "summer_start = 28530780 * minute_ms" "summer_end = 28833180 * minute_ms"
  by (simp_all add: summer_start_def summer_end_def)

lemma demo_offset_floor: "demo_offset tz (t div minute_ms * minute_ms) = demo_offset tz t"
proof -
  have "n * minute_ms \<le> t div minute_ms * minute_ms \<longleftrightarrow> n * minute_ms \<le> t" for n
  proof
    assume "n * minute_ms \<le> t"
    then show "n * minute_ms \<le> t div minute_ms * minute_ms"
      using zdiv_mono1 [of "n * minute_ms" t minute_ms] by simp
  qed (use floor_bounds [of t] in linarith)
  from this [of 28530780] this [of 28833180] show ?thesis
    unfolding demo_offset_def summer_minutes by (simp add: not_le [symmetric])
qed

lemma demo_offset_at: "zone_start \<le> t \<Longrightarrow> offset_at demo_platform tz t = demo_offset tz t"
  using demo_wall [OF floor_start, of t tz] by (simp add: offset_at_def Let_def demo_offset_floor)

lemma demo_zone_rules: "zone_rules demo_platform tz"
  unfolding zone_rules_def
proof (intro conjI allI impI)
  fix t assume t: "zone_start \<le> t"
  show "wall_of demo_platform tz t = wall_of demo_platform tz (t div minute_ms * minute_ms)"
    by (simp add: demo_wall [OF t] demo_wall [OF floor_start [OF t]] demo_offset_floor)
  show "\<bar>offset_at demo_platform tz t\<bar> \<le> 14 * hour_ms"
    using demo_offset_cases [of tz t] by (auto simp: demo_offset_at [OF t])
next
  fix a b c
  assume "zone_start \<le> a \<and> a \<le> b \<and> b \<le> c \<and> c \<le> a + 52 * hour_ms"
  then show "offset_at demo_platform tz b = offset_at demo_platform tz a
      \<or> offset_at demo_platform tz b = offset_at demo_platform tz c"
    by (auto simp: demo_offset_at demo_offset_def summer_start_def summer_end_def)
qed

lemma day_start_at: "k * day_ms \<le> w \<Longrightarrow> w < k * day_ms + day_ms \<Longrightarrow> day_start w = k * day_ms"
  by (rule day_start_unique) simp_all

lemma demo_days_in_order: "zone_start \<le> a \<Longrightarrow> days_in_order demo_platform tz a b"
  unfolding days_in_order_def
proof (intro allI impI)
  fix s t assume "zone_start \<le> a" "a \<le> s \<and> s \<le> t \<and> t \<le> b"
  then have st: "zone_start \<le> s \<and> s \<le> t" by simp
  then have zt: "zone_start \<le> s" "zone_start \<le> t" by auto
  have fl: "s div minute_ms * minute_ms \<le> t div minute_ms * minute_ms"
    using st by (simp add: zdiv_mono1)
  note ws = demo_wall [OF zt(1), of tz] and wt = demo_wall [OF zt(2), of tz]
  show "day_start (wall_of demo_platform tz s) \<le> day_start (wall_of demo_platform tz t)"
  proof (cases "wall_of demo_platform tz s \<le> wall_of demo_platform tz t")
    case True
    then show ?thesis by (rule day_start_mono)
  next
    case False
    then have "demo_offset tz s = hour_ms" "demo_offset tz t = 0"
      using ws wt fl demo_offset_cases [of tz s] demo_offset_cases [of tz t] by auto
    then have "s < summer_end" "summer_start \<le> s" "summer_end \<le> t"
      using st by (auto simp: demo_offset_def split: if_splits)
    then have "20023 * day_ms \<le> wall_of demo_platform tz t" "wall_of demo_platform tz s < 20023 * day_ms + day_ms"
      using ws wt floor_bounds [of s] zdiv_mono1 [of summer_end t minute_ms]
        \<open>demo_offset tz s = hour_ms\<close> \<open>demo_offset tz t = 0\<close>
      by (simp_all add: summer_end_def)
    then show ?thesis
      using False day_start_at [of 20023 "wall_of demo_platform tz t"] day_start_at [of 20023 "wall_of demo_platform tz s"]
      by simp
  qed
qed

lemma demo_gaps_within_day: "gaps_within_day demo_platform tz a b"
  unfolding gaps_within_day_def
proof (intro allI impI)
  fix w t
  assume "zone_start + 26 * hour_ms \<le> w \<and> w mod minute_ms = 0 \<and> first_reading demo_platform tz w t
    \<and> a < t \<and> t \<le> b"
  then have w: "zone_start + 26 * hour_ms \<le> w" "w mod minute_ms = 0" and t: "zone_start \<le> t" "t mod minute_ms = 0"
    and le: "w \<le> wall_of demo_platform tz t"
    and before: "zone_start \<le> s \<Longrightarrow> s < t \<Longrightarrow> wall_of demo_platform tz s < w" for s
    unfolding first_reading_def by auto
  define s where "s = t - minute_ms"
  have wt: "wall_of demo_platform tz t = t + demo_offset tz t"
    using demo_wall [OF t(1)] floor_minute [OF t(2)] by simp
  have zs: "zone_start \<le> s"
    using w(1) le wt demo_offset_cases [of tz t] by (auto simp: s_def)
  have sm: "s mod minute_ms = 0" unfolding s_def by (rule aligned_diff [OF t(2)]) simp
  have ws: "wall_of demo_platform tz s = s + demo_offset tz s"
    using demo_wall [OF zs] floor_minute [OF sm] by simp
  have lt: "s + demo_offset tz s < w" using before [OF zs] ws by (simp add: s_def)
  have "(w - wall_of demo_platform tz s) mod minute_ms = 0" by (rule aligned_diff [OF w(2)]) simp
  then obtain k where "w - (s + demo_offset tz s) = minute_ms * k" by (auto simp: ws mod_eq_0_iff_dvd dvd_def)
  moreover have "0 < k" using calculation lt by linarith
  ultimately have step: "s + demo_offset tz s + minute_ms \<le> w" by simp
  show "day_start (wall_of demo_platform tz t) = day_start w"
  proof (cases "demo_offset tz t = demo_offset tz s")
    case True
    then show ?thesis using step le wt by (simp add: s_def)
  next
    case False
    then have o: "demo_offset tz t = hour_ms" "demo_offset tz s = 0"
      using step le wt demo_offset_cases [of tz t] demo_offset_cases [of tz s] by (auto simp: s_def)
    then have "summer_start \<le> t" "t < summer_end" "\<not> (summer_start \<le> s \<and> s < summer_end)"
      by (auto simp: demo_offset_def split: if_splits)
    moreover obtain j where "t = minute_ms * j" using t(2) by (auto simp: mod_eq_0_iff_dvd dvd_def)
    ultimately have "t = summer_start" by (auto simp: s_def summer_minutes)
    then have "19813 * day_ms \<le> w" "w \<le> 19813 * day_ms + 2 * hour_ms"
      "wall_of demo_platform tz t = 19813 * day_ms + 2 * hour_ms"
      using step le wt o by (simp_all add: s_def summer_start_def)
    then show ?thesis
      using day_start_at [of 19813 w] day_start_at [of 19813 "wall_of demo_platform tz t"] by simp
  qed
qed

text \<open>Evaluating the search on this platform, with the conversions rewritten to offsets.\<close>

definition late_march :: cron_expression where
  "late_march = \<lparr>ce_source = ''0 3 31 3 0'', ce_minutes = [0], ce_hours = [3], ce_days_of_month = [31],
    ce_months = [3], ce_days_of_week = [0], ce_dom_restricted = True, ce_dow_restricted = True, ce_fixed_time = True\<rparr>"

lemma parse_late_march: "parse_cron_expression ''0 3 31 3 0'' = Inr late_march"
  by code_simp

lemmas demo_eval = demo_offset_at demo_wall zone_start_def demo_offset_def summer_start_def summer_end_def
  slot_instants_def instants_for_wall_def day_slots_def add_instant_def Let_def cron_matches_day_def

lemma late_march_days:
  "cron_instants_on_day demo_platform late_march ''Europe/London'' 1711670400000 = []"
  "cron_instants_on_day demo_platform late_march ''Europe/London'' 1711756800000 = []"
  "cron_instants_on_day demo_platform late_march ''Europe/London'' 1711843200000 = [1711850400000]"
  "cron_instants_on_day demo_platform late_march ''Europe/London'' 1711929600000 = []"
proof -
  have "cv_month (civil 1711670400000) = 3" "cv_day (civil 1711670400000) = 29" "cv_weekday (civil 1711670400000) = 5"
    "cv_month (civil 1711756800000) = 3" "cv_day (civil 1711756800000) = 30" "cv_weekday (civil 1711756800000) = 6"
    "cv_month (civil 1711843200000) = 3" "cv_day (civil 1711843200000) = 31" "cv_weekday (civil 1711843200000) = 0"
    "cv_month (civil 1711929600000) = 4"
    by (code_simp, code_simp, code_simp, code_simp, code_simp, code_simp, code_simp, code_simp, code_simp, code_simp)
  then show "cron_instants_on_day demo_platform late_march ''Europe/London'' 1711670400000 = []"
    "cron_instants_on_day demo_platform late_march ''Europe/London'' 1711756800000 = []"
    "cron_instants_on_day demo_platform late_march ''Europe/London'' 1711843200000 = [1711850400000]"
    "cron_instants_on_day demo_platform late_march ''Europe/London'' 1711929600000 = []"
    by (simp_all add: cron_instants_on_day_def late_march_def demo_eval)
qed

lemma late_march_search:
  "first_after demo_platform late_march ''Europe/London'' 1711836000000 1711670400000 (Suc (Suc (Suc n)))
    = Some 1711850400000"
  by (simp add: late_march_days)

lemma late_march_next:
  "next_fire_time demo_platform (Cron_spec ''0 3 31 3 0'' ''Europe/London'') 1711836000000
    = Inr (Some (Valid 1711850400000))"
proof -
  have "Suc cron_horizon_days = Suc (Suc (Suc 1830))" by (simp add: cron_horizon_days_def)
  moreover have "day_start (1711836000000 + offset_at demo_platform ''Europe/London'' 1711836000000) - day_ms = 1711670400000"
    by (simp add: demo_eval day_start_def)
  ultimately show ?thesis
    using late_march_search [of 1830] by (simp only: next_fire_time_def parse_late_march schedule_spec.case bindE.simps
        option.map new_date_def) simp
qed

text \<open>The count over the same night, from ten in the evening to six in the morning, UTC.\<close>

lemma late_march_ok: "cron_ok late_march"
  by (rule parse_cron_ok [OF parse_late_march])

lemma late_march_back:
  "last_before demo_platform late_march ''Europe/London'' 1711864800000 1711929600000 (Suc (Suc n)) = Some 1711850400000"
  by (simp add: late_march_days)

lemma late_march_count_days:
  "count_days demo_platform late_march ''Europe/London'' 1711836000000 1711864800000 100000 1711670400000
    (Suc (Suc (Suc (Suc 0)))) (0, None) = (1, Some 1711850400000)"
  by (simp add: Let_def late_march_days count_day [OF late_march_ok refl])

definition late_march_counted :: occurrence_count where
  "late_march_counted = \<lparr>oc_count = 1, oc_capped = False, oc_first = Some 1711850400000, oc_latest = Some 1711850400000\<rparr>"

lemma late_march_count:
  "count_occurrences demo_platform (Cron_spec ''0 3 31 3 0'' ''Europe/London'') 1711836000000 1711864800000 100000
    = Inr late_march_counted"
proof -
  have days: "day_start (1711836000000 + offset_at demo_platform ''Europe/London'' 1711836000000) - day_ms = 1711670400000"
    "day_start (1711864800000 + offset_at demo_platform ''Europe/London'' 1711864800000) + day_ms = 1711929600000"
    by (simp_all add: demo_eval day_start_def)
  have n: "nat ((1711929600000 - 1711670400000) div day_ms + 1) = Suc (Suc (Suc (Suc 0)))" by simp
  have h: "Suc cron_horizon_days = Suc (Suc 1831)" by (simp add: cron_horizon_days_def)
  have "previous_fire_time demo_platform (Cron_spec ''0 3 31 3 0'' ''Europe/London'') 1711864800000
      = Inr (Some 1711850400000)"
    by (simp only: previous_fire_time_def schedule_spec.case parse_late_march bindE.simps days h late_march_back)
  then show ?thesis
    by (simp only: count_occurrences_def schedule_spec.case parse_late_march bindE.simps Let_def days n
        late_march_count_days) (simp add: late_march_counted_def)
qed

end
