(* ===== verification/SchedFireProperties.thy ===== *)
theory SchedFireProperties
  imports SchedZones
begin

text \<open>
  Properties of the time engine of schedules: the next fire time is the least occurrence, and the count of a window is exact.
\<close>

subsection \<open>Occurrences\<close>

text \<open>When a spec fires, said without a search.\<close>

definition occurs :: "platform \<Rightarrow> schedule_spec \<Rightarrow> int \<Rightarrow> bool" where
  "occurs P spec t = (case spec of
      At_spec d \<Rightarrow> d = Valid t
    | Every_spec every_ms d \<Rightarrow> (\<exists>anchor k. d = Valid anchor \<and> 1 \<le> k \<and> t = anchor + k * every_ms)
    | Cron_spec expr tz \<Rightarrow> (\<exists>e. parse_cron_expression expr = Inr e \<and> cron_occurs P e tz t))"

text \<open>
  What a cron expression takes of its zone: the rules of zones throughout, and, in a span, that its days come in order and that
  no gap skips the end of a day. A single instant and an interval take nothing of a zone.
\<close>

definition zone_of_ok :: "platform \<Rightarrow> schedule_spec \<Rightarrow> bool" where
  "zone_of_ok P spec = (case spec of Cron_spec expr tz \<Rightarrow> zone_rules P tz | _ \<Rightarrow> True)"

definition order_ok :: "platform \<Rightarrow> schedule_spec \<Rightarrow> int \<Rightarrow> int \<Rightarrow> bool" where
  "order_ok P spec a b = (case spec of Cron_spec expr tz \<Rightarrow> days_in_order P tz a b | _ \<Rightarrow> True)"

definition gaps_ok :: "platform \<Rightarrow> schedule_spec \<Rightarrow> int \<Rightarrow> int \<Rightarrow> bool" where
  "gaps_ok P spec a b = (case spec of Cron_spec expr tz \<Rightarrow> gaps_within_day P tz a b | _ \<Rightarrow> True)"

lemma valid_every_Inr: "valid_every ms d = Inr a \<longleftrightarrow> d = Valid a \<and> minute_ms \<le> ms \<and> ms \<le> max_safe_integer \<and> ms mod minute_ms = 0"
  by (auto simp: valid_every_def split: date.splits)

lemma zone_cron_ok: "zone_of_ok P (Cron_spec expr tz) \<Longrightarrow> parse_cron_expression expr = Inr e \<Longrightarrow> cron_zone_ok P e tz"
  by (simp add: zone_of_ok_def cron_zone_ok_def parse_cron_ok)

text \<open>The multiples of an interval after an instant.\<close>

lemma multiple_after:
  fixes ms :: int
  assumes "0 < ms"
  shows "x < a + k * ms \<longleftrightarrow> (x - a) div ms + 1 \<le> k"
proof -
  define q where "q = (x - a) div ms"
  have q: "ms * q \<le> x - a" "x - a < ms * q + ms"
    using mult_div_mod_eq [of ms "x - a"] pos_mod_sign [OF assms, of "x - a"] pos_mod_bound [OF assms, of "x - a"]
    unfolding q_def by linarith+
  have "x < a + k * ms" if "q + 1 \<le> k"
    using mult_left_mono [OF that, of ms] assms q(2) by (simp add: algebra_simps)
  moreover have "q + 1 \<le> k" if "x < a + k * ms"
  proof (rule ccontr)
    assume "\<not> q + 1 \<le> k"
    then have "k * ms \<le> q * ms" using assms by (intro mult_right_mono) auto
    then show False using q(1) that by (simp add: algebra_simps)
  qed
  ultimately show ?thesis unfolding q_def by blast
qed

lemma first_multiple:
  fixes ms :: int
  assumes "0 < ms"
  shows "max 1 (if x < a then 1 else (x - a) div ms + 1) = max 1 ((x - a) div ms + 1)"
  using assms by (auto simp: max_def pos_imp_zdiv_neg_iff)
    (use pos_imp_zdiv_neg_iff [OF assms, of "x - a"] in linarith)

subsection \<open>The next fire time\<close>

lemma next_fire:
  assumes z: "zone_of_ok P spec" and a: "zone_start + 7 * day_ms \<le> after"
    and n: "next_fire_time P spec after = Inr (Some (Valid t))"
  shows "occurs P spec t \<and> after < t
    \<and> (order_ok P spec after t \<longrightarrow> (\<forall>u. occurs P spec u \<and> after < u \<longrightarrow> t \<le> u))"
proof (cases spec)
  case (At_spec at)
  then show ?thesis using n by (auto simp: next_fire_time_def occurs_def new_date_def split: date.splits if_splits)
next
  case (Every_spec ms at)
  then obtain anchor where v: "at = Valid anchor" "0 < ms"
    and d: "Valid t = new_date (anchor + max 1 ((after - anchor) div ms + 1) * ms)"
    using n by (auto simp: next_fire_time_def result_simps valid_every_Inr Let_def first_multiple)
  define k where "k = max 1 ((after - anchor) div ms + 1)"
  have "after < anchor + j * ms \<and> 1 \<le> j \<longleftrightarrow> k \<le> j" for j
    using multiple_after [OF v(2), of after anchor j] by (auto simp: k_def)
  then have "after < anchor + k * ms \<and> 1 \<le> k"
    and "\<forall>j. 1 \<le> j \<and> after < anchor + j * ms \<longrightarrow> anchor + k * ms \<le> anchor + j * ms"
    using v(2) by (auto intro: mult_right_mono)
  moreover have "t = anchor + k * ms" using d unfolding k_def [symmetric] by (simp add: new_date_def split: if_splits)
  ultimately show ?thesis using v(1) Every_spec by (auto simp: occurs_def)
next
  case (Cron_spec expr tz)
  then obtain e where e: "parse_cron_expression expr = Inr e"
    and f: "first_after P e tz after (day_start (after + offset_at P tz after) - day_ms) (Suc cron_horizon_days) = Some t"
    using n by (auto simp: next_fire_time_def result_simps new_date_def split: if_splits)
  have k: "cron_zone_ok P e tz" using zone_cron_ok e z Cron_spec by blast
  have "occurs P spec u \<longleftrightarrow> cron_occurs P e tz u" for u using e by (auto simp: occurs_def Cron_spec)
  then show ?thesis using cron_next(1,2) [OF k a f] by (auto simp: order_ok_def Cron_spec)
qed

text \<open>C34: The valid next fire time of a spec is an occurrence after the given instant, whatever the kind of the
  spec, and the least of them. For a cron expression its zone keeps the rules of zones, and the time is the least if no
  change of the clocks leads back across midnight between the instant and it, as one does in America/St_Johns until
  2011: there the walk over the days passes occurrences by.\<close>

theorem next_fire_least:
  assumes z: "zone_of_ok P spec" and a: "zone_start + 7 * day_ms \<le> after"
    and n: "next_fire_time P spec after = Inr (Some (Valid t))"
  shows "occurs P spec t \<and> after < t
    \<and> (order_ok P spec after t \<longrightarrow> (\<forall>u. occurs P spec u \<and> after < u \<longrightarrow> t \<le> u))"
  by (rule next_fire [OF z a n])

theorem next_fire_least_witness:
  "occurs demo_platform (Cron_spec ''0 3 31 3 0'' ''Europe/London'') 1711850400000 \<and> 1711836000000 < (1711850400000 :: int)
    \<and> \<not> (\<exists>u. occurs demo_platform (Cron_spec ''0 3 31 3 0'' ''Europe/London'') u \<and> 1711836000000 < u \<and> u < 1711850400000)"
proof -
  have "order_ok demo_platform (Cron_spec ''0 3 31 3 0'' ''Europe/London'') 1711836000000 1711850400000"
    by (simp add: order_ok_def demo_days_in_order zone_start_def)
  then show ?thesis
    using next_fire_least [OF _ _ late_march_next]
    by (force simp: zone_of_ok_def demo_zone_rules zone_start_def)
qed

text \<open>A spec without a next fire time does not fire within the five years that follow, if the days of its zone come
  in order in them.\<close>

theorem no_next_fire:
  assumes z: "zone_of_ok P spec" and a: "zone_start + 7 * day_ms \<le> after"
    and o: "order_ok P spec after (after + 1827 * day_ms)"
    and n: "next_fire_time P spec after = Inr None"
  shows "\<not> (\<exists>u. occurs P spec u \<and> after < u \<and> u \<le> after + 1827 * day_ms)"
proof
  assume "\<exists>u. occurs P spec u \<and> after < u \<and> u \<le> after + 1827 * day_ms"
  then obtain u where u: "occurs P spec u" "after < u" "u \<le> after + 1827 * day_ms" by blast
  show False
proof (cases spec)
  case (At_spec at)
  then show ?thesis using n u by (auto simp: next_fire_time_def occurs_def split: date.splits)
next
  case (Every_spec ms at)
  then show ?thesis using n by (auto simp: next_fire_time_def result_simps Let_def)
next
  case (Cron_spec expr tz)
  then obtain e where e: "parse_cron_expression expr = Inr e"
    and f: "first_after P e tz after (day_start (after + offset_at P tz after) - day_ms) (Suc cron_horizon_days) = None"
    using n by (auto simp: next_fire_time_def result_simps)
  have k: "cron_zone_ok P e tz" using zone_cron_ok e z Cron_spec by blast
  have "cron_occurs P e tz u" using u(1) e by (auto simp: occurs_def Cron_spec)
  moreover have "days_in_order P tz after u" using o u(3) by (simp add: order_ok_def Cron_spec days_in_order_def)
  ultimately show ?thesis using cron_next(3) [OF k a f _ u(2)] u(3) by (simp add: cron_horizon_days_def)
qed
qed

theorem no_next_fire_witness:
  "\<not> (\<exists>u. occurs demo_platform (At_spec (Valid 1609164800000)) u
    \<and> 1709164800000 < u \<and> u \<le> 1709164800000 + 1827 * day_ms)"
  by (rule no_next_fire) (simp_all add: zone_of_ok_def order_ok_def next_fire_time_def zone_start_def)

subsection \<open>Counting\<close>

lemma strict_list:
  fixes w :: "int list"
  assumes "sorted_wrt (<) w" "w \<noteq> []"
  shows "card (set w) = length w" "Min (set w) = hd w" "Max (set w) = last w"
proof -
  show "card (set w) = length w"
    using assms by (simp add: strict_sorted_iff distinct_card)
  show "Min (set w) = hd w"
  proof (rule Min_eqI)
    show "\<And>x. x \<in> set w \<Longrightarrow> hd w \<le> x" using assms by (cases w) auto
  qed (use assms in auto)
  show "Max (set w) = last w"
  proof (rule Max_eqI)
    show "\<And>x. x \<in> set w \<Longrightarrow> x \<le> last w"
      using assms by (cases w rule: rev_cases) (auto simp: sorted_wrt_append dest: bspec)
  qed (use assms in auto)
qed

text \<open>What a count promises, of the set of occurrences in its window.\<close>

definition counts :: "int set \<Rightarrow> int \<Rightarrow> occurrence_count \<Rightarrow> bool" where
  "counts S cap c \<longleftrightarrow> finite S \<and> oc_count c = min (int (card S)) cap \<and> (oc_capped c \<longleftrightarrow> int (card S) > cap)
    \<and> oc_first c = (if S = {} then None else Some (Min S)) \<and> oc_latest c = (if S = {} then None else Some (Max S))"

lemma counts_nothing: "0 \<le> cap \<Longrightarrow> counts {} cap no_occurrence"
  by (simp add: counts_def no_occurrence_def)

lemma count_every:
  fixes a from_ms to_ms ms cap :: int
  assumes ms: "0 < ms" and cap: "0 \<le> cap"
  defines "k0 \<equiv> max 1 ((from_ms - a) div ms + 1)" and "k1 \<equiv> (to_ms - a) div ms"
  shows "counts {t. (\<exists>k. 1 \<le> k \<and> t = a + k * ms) \<and> from_ms < t \<and> t \<le> to_ms} cap
    (if k1 < k0 then no_occurrence
     else \<lparr>oc_count = min (k1 - k0 + 1) cap, oc_capped = (k1 - k0 + 1 > cap),
       oc_first = Some (a + k0 * ms), oc_latest = Some (a + k1 * ms)\<rparr>)"
proof -
  define S where "S = {t. (\<exists>k. 1 \<le> k \<and> t = a + k * ms) \<and> from_ms < t \<and> t \<le> to_ms}"
  have in_S: "1 \<le> k \<and> from_ms < a + k * ms \<and> a + k * ms \<le> to_ms \<longleftrightarrow> k0 \<le> k \<and> k \<le> k1" for k
  proof -
    have "a + k * ms \<le> to_ms \<longleftrightarrow> k \<le> k1"
      using multiple_after [OF ms, of to_ms a k] unfolding k1_def by linarith
    moreover have "1 \<le> k \<and> from_ms < a + k * ms \<longleftrightarrow> k0 \<le> k"
      using multiple_after [OF ms, of from_ms a k] unfolding k0_def max.bounded_iff by blast
    ultimately show ?thesis by blast
  qed
  have S: "S = (\<lambda>k. a + k * ms) ` {k0..k1}"
  proof (intro set_eqI iffI)
    fix t assume "t \<in> S"
    then obtain k where k: "1 \<le> k" "t = a + k * ms" "from_ms < a + k * ms" "a + k * ms \<le> to_ms"
      by (auto simp: S_def)
    then have "k0 \<le> k \<and> k \<le> k1" using in_S by blast
    then show "t \<in> (\<lambda>k. a + k * ms) ` {k0..k1}" using k(2) by (intro image_eqI [of _ _ k]) simp_all
  next
    fix t assume "t \<in> (\<lambda>k. a + k * ms) ` {k0..k1}"
    then obtain k where k: "k0 \<le> k \<and> k \<le> k1" "t = a + k * ms" by auto
    then have "1 \<le> k \<and> from_ms < t \<and> t \<le> to_ms" using in_S by blast
    then show "t \<in> S" using k(2) by (auto simp: S_def)
  qed
  have "inj_on (\<lambda>k. a + k * ms) {k0..k1}" using ms by (auto simp: inj_on_def)
  then have card: "int (card S) = (if k1 < k0 then 0 else k1 - k0 + 1)" by (simp add: S card_image)
  have ends: "Min S = a + k0 * ms" "Max S = a + k1 * ms" if "k0 \<le> k1"
  proof -
    have ge: "a + k0 * ms \<le> y" and le: "y \<le> a + k1 * ms" if "y \<in> S" for y
      using that ms by (auto simp: S mult_right_mono)
    have fin: "finite S" by (simp add: S)
    show "Min S = a + k0 * ms" using fin ge that by (intro Min_eqI) (auto simp: S)
    show "Max S = a + k1 * ms" using fin le that by (intro Max_eqI) (auto simp: S)
  qed
  show ?thesis
  proof (cases "k1 < k0")
    case True
    then have "S = {}" by (simp add: S)
    then show ?thesis
      unfolding S_def [symmetric] using True cap by (simp add: counts_nothing)
  next
    case False
    moreover have "finite S" "S \<noteq> {}" using False by (simp_all add: S)
    ultimately show ?thesis
      unfolding S_def [symmetric] using card ends by (simp add: counts_def)
  qed
qed

text \<open>The count of a cron expression, with the walk back and the walk over the days named.\<close>

lemma count_cronE:
  assumes "count_occurrences P (Cron_spec expr tz) from_ms to_ms cap = Inr c" "from_ms < to_ms"
  obtains e prev day n count first where "parse_cron_expression expr = Inr e"
    "prev = last_before P e tz to_ms (day_start (to_ms + offset_at P tz to_ms) + day_ms) (Suc cron_horizon_days)"
    "day = day_start (from_ms + offset_at P tz from_ms) - day_ms"
    "n = nat ((day_start (to_ms + offset_at P tz to_ms) + day_ms - day) div day_ms + 1)"
    "count_days P e tz from_ms to_ms cap day n (0, None) = (count, first)"
    "c = (case prev of None \<Rightarrow> no_occurrence
      | Some latest \<Rightarrow> if latest \<le> from_ms then no_occurrence
          else \<lparr>oc_count = min count cap, oc_capped = (count > cap), oc_first = first, oc_latest = Some latest\<rparr>)"
proof -
  obtain e where e: "parse_cron_expression expr = Inr e"
    using assms by (auto simp: count_occurrences_def result_simps)
  define prev where "prev = last_before P e tz to_ms (day_start (to_ms + offset_at P tz to_ms) + day_ms) (Suc cron_horizon_days)"
  define day where "day = day_start (from_ms + offset_at P tz from_ms) - day_ms"
  define n where "n = nat ((day_start (to_ms + offset_at P tz to_ms) + day_ms - day) div day_ms + 1)"
  obtain count first where cd: "count_days P e tz from_ms to_ms cap day n (0, None) = (count, first)"
    by (cases "count_days P e tz from_ms to_ms cap day n (0, None)")
  have "c = (case prev of None \<Rightarrow> no_occurrence
      | Some latest \<Rightarrow> if latest \<le> from_ms then no_occurrence
          else \<lparr>oc_count = min count cap, oc_capped = (count > cap), oc_first = first, oc_latest = Some latest\<rparr>)"
    using assms e cd
    by (auto simp: count_occurrences_def previous_fire_time_def prev_def Let_def day_def n_def
        split: option.splits if_splits)
  then show thesis using that e prev_def day_def n_def cd by blast
qed

text \<open>C35: A count over a window of at most 1827 days is exact: it is the number of occurrences in the window, up to
  the cap, with the least and the greatest of them. The products that stand for whole days, and the end of the count at the
  cap, change nothing. For a cron expression the zone keeps the rules of zones; from two days before the window to its end
  no change of the clocks leads back across midnight, and no gap in the window skips the end of a day, as one does every
  spring in America/Nuuk: there one instant stands on two days and is counted twice.\<close>

theorem count_is_exact:
  assumes z: "zone_of_ok P spec" "order_ok P spec (from_ms - 2 * day_ms) to_ms" "gaps_ok P spec from_ms to_ms"
    and a: "zone_start + 1841 * day_ms \<le> from_ms"
    and w: "to_ms \<le> from_ms + 1827 * day_ms" and cap: "1 \<le> cap"
    and c: "count_occurrences P spec from_ms to_ms cap = Inr c"
  shows "counts {t. occurs P spec t \<and> from_ms < t \<and> t \<le> to_ms} cap c"
proof (cases "to_ms \<le> from_ms")
  case True
  then have none: "{t. occurs P spec t \<and> from_ms < t \<and> t \<le> to_ms} = {}" by auto
  show ?thesis
    unfolding none using True c cap counts_nothing [of cap] by (simp add: count_occurrences_def)
next
  case False
  show ?thesis
  proof (cases spec)
    case (At_spec d)
    show ?thesis
    proof (cases "\<exists>at. d = Valid at \<and> from_ms < at \<and> at \<le> to_ms")
      case True
      then obtain at where at: "d = Valid at" "from_ms < at" "at \<le> to_ms" by blast
      then have only: "{t. occurs P spec t \<and> from_ms < t \<and> t \<le> to_ms} = {at}" by (auto simp: occurs_def At_spec)
      have "c = \<lparr>oc_count = 1, oc_capped = False, oc_first = Some at, oc_latest = Some at\<rparr>"
        using at c False by (simp add: count_occurrences_def At_spec)
      then show ?thesis unfolding only using cap by (simp add: counts_def)
    next
      case none: False
      then have empty: "{t. occurs P spec t \<and> from_ms < t \<and> t \<le> to_ms} = {}" by (auto simp: occurs_def At_spec)
      have "c = no_occurrence"
        using none c False by (auto simp: count_occurrences_def At_spec split: date.splits if_splits)
      then show ?thesis unfolding empty using cap by (simp add: counts_nothing)
    qed
  next
    case (Every_spec ms d)
    then obtain anchor where v: "valid_every ms d = Inr anchor"
      using c False by (auto simp: count_occurrences_def result_simps)
    then have ms: "0 < ms" and d: "d = Valid anchor" by (auto simp: valid_every_Inr)
    have occ: "{t. occurs P spec t \<and> from_ms < t \<and> t \<le> to_ms}
        = {t. (\<exists>k. 1 \<le> k \<and> t = anchor + k * ms) \<and> from_ms < t \<and> t \<le> to_ms}"
      by (auto simp: occurs_def Every_spec d)
    have "c = (if (to_ms - anchor) div ms < max 1 ((from_ms - anchor) div ms + 1) then no_occurrence
      else \<lparr>oc_count = min ((to_ms - anchor) div ms - max 1 ((from_ms - anchor) div ms + 1) + 1) cap,
        oc_capped = ((to_ms - anchor) div ms - max 1 ((from_ms - anchor) div ms + 1) + 1 > cap),
        oc_first = Some (anchor + max 1 ((from_ms - anchor) div ms + 1) * ms),
        oc_latest = Some (anchor + (to_ms - anchor) div ms * ms)\<rparr>)"
      using c False v by (simp only: count_occurrences_def Every_spec schedule_spec.case bindE.simps Let_def
          first_multiple [OF ms] if_False split: if_splits) simp_all
    then show ?thesis
      unfolding occ using count_every [OF ms, of cap anchor from_ms to_ms] cap by simp
  next
    case (Cron_spec expr tz)
    obtain e prev day n count first where e: "parse_cron_expression expr = Inr e"
      and prev: "prev = last_before P e tz to_ms (day_start (to_ms + offset_at P tz to_ms) + day_ms) (Suc cron_horizon_days)"
      and day: "day = day_start (from_ms + offset_at P tz from_ms) - day_ms"
      and n: "n = nat ((day_start (to_ms + offset_at P tz to_ms) + day_ms - day) div day_ms + 1)"
      and cd: "count_days P e tz from_ms to_ms cap day n (0, None) = (count, first)"
      and result: "c = (case prev of None \<Rightarrow> no_occurrence
      | Some latest \<Rightarrow> if latest \<le> from_ms then no_occurrence
          else \<lparr>oc_count = min count cap, oc_capped = (count > cap), oc_first = first, oc_latest = Some latest\<rparr>)"
      using False by (rule_tac count_cronE [OF c [unfolded Cron_spec]]) (simp, blast)
    have k: "cron_zone_ok P e tz" using zone_cron_ok e z(1) Cron_spec by blast
    have o: "days_in_order P tz (from_ms - 2 * day_ms) to_ms" and s: "gaps_within_day P tz from_ms to_ms"
      using z(2,3) by (simp_all add: order_ok_def gaps_ok_def Cron_spec)
    have o1: "days_in_order P tz from_ms to_ms" using o by (simp add: days_in_order_def)
    define S where "S = {t. cron_occurs P e tz t \<and> from_ms < t \<and> t \<le> to_ms}"
    have occ: "{t. occurs P spec t \<and> from_ms < t \<and> t \<le> to_ms} = S"
      using e by (auto simp: occurs_def Cron_spec S_def)
    have far: "zone_start + (int (Suc cron_horizon_days) + 8) * day_ms \<le> to_ms"
      using a False by (simp add: cron_horizon_days_def)
    note back_some = cron_previous(1,2) [OF k far o, folded prev] and back_none = cron_previous(3) [OF k far o, folded prev]
    define h where "h = hits P e tz from_ms to_ms (days_from day n)"
    have from7: "zone_start + 7 * day_ms \<le> from_ms" using a by simp
    have ft: "from_ms < to_ms" using False by simp
    note window = set_hits [OF k from7 ft o1, folded day, folded n]
    have set_h: "set h = S" "sorted_wrt (<) h"
      using window sorted_hits [OF k s o1 window(1)] by (simp_all add: h_def S_def)
    have cnt: "min count cap = min (int (length h)) cap" "count > cap \<longleftrightarrow> int (length h) > cap"
      "first = (if h \<noteq> [] then Some (hd h) else None)"
      using count_days [OF parse_cron_ok [OF e] _ _ _ _ cd h_def] cap by simp_all
    show ?thesis
    proof (cases "\<exists>latest. prev = Some latest \<and> from_ms < latest")
      case True
      then obtain latest where l: "prev = Some latest" "from_ms < latest" by blast
      have g: "cron_occurs P e tz latest" "latest \<le> to_ms" "\<And>u. cron_occurs P e tz u \<Longrightarrow> from_ms < u \<Longrightarrow> u \<le> to_ms \<Longrightarrow> u \<le> latest"
        using back_some [of latest] l(1) by auto
      have "latest \<in> S" using g l(2) by (simp add: S_def)
      then have h: "h \<noteq> []" using set_h(1) by auto
      have "Max S = latest"
        using \<open>latest \<in> S\<close> g(3) set_h(1) by (intro Max_eqI) (auto simp: S_def intro: finite_subset [of _ "set h"])
      then show ?thesis
        unfolding occ counts_def using strict_list [OF set_h(2) h] l result cnt h set_h(1) \<open>latest \<in> S\<close>
        by (auto simp: not_le)
    next
      case False
      have "S = {}"
      proof (rule ccontr)
        assume "S \<noteq> {}"
        then obtain u where u: "cron_occurs P e tz u" "from_ms < u" "u \<le> to_ms" by (auto simp: S_def)
        show False
        proof (cases prev)
          case None
          then show False using back_none [of u] u w by (simp add: cron_horizon_days_def)
        next
          case (Some latest)
          then show False using back_some [of latest] u False by force
        qed
      qed
      moreover have "c = no_occurrence" using result False by (auto split: option.splits)
      ultimately show ?thesis using counts_nothing [of cap] cap by (simp add: occ)
    qed
  qed
qed

theorem count_is_exact_witness:
  "counts {t. occurs demo_platform (Cron_spec ''0 3 31 3 0'' ''Europe/London'') t
      \<and> 1711836000000 < t \<and> t \<le> 1711864800000} 100000 late_march_counted"
  by (rule count_is_exact [OF _ _ _ _ _ _ late_march_count])
    (simp_all add: zone_of_ok_def order_ok_def gaps_ok_def demo_zone_rules demo_days_in_order demo_gaps_within_day zone_start_def)

end
