(* ===== verification/SchedClockProperties.thy ===== *)
theory SchedClockProperties
  imports SchedFireProperties
begin

text \<open>
  Properties of cron expressions and wall clocks: what a written expression means, the
  instants of a wall reading, and which instants an expression fires at around a change
  of the clocks; and two inputs the code accepts that never fire.
\<close>

subsection \<open>Expressions\<close>

text \<open>C40: A cron expression written out from values, ranges, stars and steps is parsed into the sets the documentation
  says they denote, sorted and without duplicates, with 0 and 7 both Sunday, and with the flags of its day and time fields.
  One form is left out: a step that starts from Sunday written as 7 (\<open>7/2\<close>), which the code reads as no day.\<close>

theorem cron_round_trip:
  assumes "ast_ok a"
  shows "parse_cron_expression (print_cron a) = Inr (cron_meaning a)"
  using assms by (rule parse_print_cron)

definition quarter_hours :: cron_ast where
  "quarter_hours = \<lparr>ca_minutes = [(Any, Some 15)], ca_hours = [(Span 9 17, None)],
    ca_days_of_month = [(One 1, None), (One 15, None)], ca_months = [(Any, None)],
    ca_days_of_week = [(Span 5 7, None)]\<rparr>"

theorem cron_round_trip_witness:
  "print_cron quarter_hours = ''*/15 9-17 1,15 * 5-7''
    \<and> parse_cron_expression ''*/15 9-17 1,15 * 5-7'' = Inr (cron_meaning quarter_hours)"
proof -
  have "print_cron quarter_hours = ''*/15 9-17 1,15 * 5-7''" by code_simp
  moreover have "ast_ok quarter_hours" by code_simp
  ultimately show ?thesis using cron_round_trip [of quarter_hours] by metis
qed

text \<open>C38: The sets of every accepted expression are sorted, without duplicates and in range: minutes below 60, hours below
  24, days from 1 to 31, months from 1 to 12, weekdays below 7.\<close>

theorem accepted_expression_in_range:
  assumes "parse_cron_expression s = Inr e"
  shows "cron_ok e"
  using assms by (rule parse_cron_ok)

theorem accepted_expression_in_range_witness: "cron_ok late_march"
  using accepted_expression_in_range [OF parse_late_march] .

text \<open>A step from Sunday written as 7 is accepted and allows no day at all, where the same step from Sunday written as 0
  allows at least Sunday.\<close>

theorem sunday_step_is_empty:
  assumes "0 < s"
  shows "parse_field (''7/'' @ decimal s) dow_field = Inr []
    \<and> (\<exists>vs. parse_field (''0/'' @ decimal s) dow_field = Inr vs \<and> 0 \<in> set vs)"
proof -
  have d: "decimal 7 = ''7''" "decimal 0 = ''0''" by (code_simp, code_simp)
  have seven: "part_ok dow_field (One 7, Some s)" and zero: "part_ok dow_field (One 0, Some s)"
    using assms by (simp_all add: part_ok_def)
  have v: "part_values dow_field (One 7, Some s) = {}" "0 \<in> part_values dow_field (One 0, Some s)"
    using assms by (auto simp: part_values_def top_of_def dow_field_def)
  have p: "print_field [(One 7, Some s)] = ''7/'' @ decimal s" "print_field [(One 0, Some s)] = ''0/'' @ decimal s"
    by (simp_all add: print_field_def print_part_def d)
  have fin: "finite (part_values dow_field (One 0, Some s))"
    by (rule finite_subset [of _ "{..6}"]) (auto simp: part_values_def top_of_def dow_field_def)
  show ?thesis
    using parse_field_print [of dow_field "[(One 7, Some s)]"] parse_field_print [of dow_field "[(One 0, Some s)]"]
      seven zero v fin unfolding p by simp
qed

theorem sunday_step_is_empty_witness:
  "parse_field (''7/'' @ decimal 2) dow_field = Inr []
    \<and> (\<exists>vs. parse_field (''0/'' @ decimal 2) dow_field = Inr vs \<and> 0 \<in> set vs)"
  by (rule sunday_step_is_empty) simp

subsection \<open>Wall readings\<close>

text \<open>The instants found for a wall reading are all there are: those minutes from 1973 on at which the clock of the zone
  shows it, in ascending order. Three offsets around the reading are enough.\<close>

theorem wall_reading_complete:
  assumes z: "zone_rules P tz" and w: "wall mod minute_ms = 0" "zone_start + 26 * hour_ms \<le> wall"
  shows "sorted_wrt (<) (instants_for_wall P tz wall)
    \<and> set (instants_for_wall P tz wall) = {t. zone_start \<le> t \<and> t mod minute_ms = 0 \<and> wall_of P tz t = wall}"
proof (intro conjI set_eqI)
  show "sorted_wrt (<) (instants_for_wall P tz wall)" by (rule instants_for_wall_sorted)
  show "t \<in> set (instants_for_wall P tz wall)
    \<longleftrightarrow> t \<in> {t. zone_start \<le> t \<and> t mod minute_ms = 0 \<and> wall_of P tz t = wall}" for t
    unfolding mem_Collect_eq by (rule instants_for_wall_iff [OF assms])
qed

theorem wall_reading_complete_witness:
  "{t. zone_start \<le> t \<and> t mod minute_ms = 0 \<and> wall_of demo_platform ''Europe/London'' t = 1729992600000}
    = {1729989000000, 1729992600000}"
proof -
  have "instants_for_wall demo_platform ''Europe/London'' 1729992600000 = [1729989000000, 1729992600000]"
    by (simp add: demo_eval)
  moreover have "set (instants_for_wall demo_platform ''Europe/London'' 1729992600000)
      = {t. zone_start \<le> t \<and> t mod minute_ms = 0 \<and> wall_of demo_platform ''Europe/London'' t = 1729992600000}"
    by (rule wall_reading_complete [OF demo_zone_rules, THEN conjunct2]) (simp_all add: zone_start_def)
  ultimately show ?thesis by (metis list.set)
qed

text \<open>For a wall reading the clocks skip, the binary search ends at the first instant at which the clock is past it:
  before that instant the clock never reads it or later.\<close>

theorem skipped_reading_resumes:
  assumes z: "zone_rules P tz" and w: "wall mod minute_ms = 0" "zone_start + 26 * hour_ms \<le> wall"
    and gap: "instants_for_wall P tz wall = []"
  defines "r \<equiv> first_instant_after_gap P tz wall"
  shows "r mod minute_ms = 0 \<and> wall < wall_of P tz r \<and> (\<forall>t. zone_start \<le> t \<and> t < r \<longrightarrow> wall_of P tz t < wall)"
  using gap_end [OF z w gap] unfolding r_def by blast

theorem skipped_reading_resumes_witness:
  "wall_of demo_platform ''Europe/London'' (first_instant_after_gap demo_platform ''Europe/London'' 1711848600000) > 1711848600000"
  using skipped_reading_resumes [OF demo_zone_rules, of 1711848600000 "''Europe/London''"]
  by (simp add: demo_eval)

subsection \<open>One day of an expression\<close>

text \<open>C39: On a day its day fields match, an accepted expression of fixed times fires once for each of its times: at the first
  instant at which the clock reads that time or later. A time the clocks skip fires when they resume, a time they repeat
  fires at its first reading. The zone keeps the rules of zones.\<close>

theorem fixed_time_fires_once:
  assumes z: "zone_rules P tz" and e: "parse_cron_expression s = Inr e" "ce_fixed_time e" and d: "day_ok day"
  shows "set (cron_instants_on_day P e tz day)
    = {t. matches_day e day \<and> (\<exists>w \<in> set (day_slots e day). first_reading P tz w t)}"
  by (intro set_eqI, unfold mem_Collect_eq) (rule fixed_on_day [OF z parse_cron_ok [OF e(1)] e(2) d])

theorem fixed_time_fires_once_witness:
  "{t. matches_day late_march 1711843200000
      \<and> (\<exists>w \<in> set (day_slots late_march 1711843200000). first_reading demo_platform ''Europe/London'' w t)}
    = {1711850400000}"
proof -
  have "set (cron_instants_on_day demo_platform late_march ''Europe/London'' 1711843200000)
      = {t. matches_day late_march 1711843200000
        \<and> (\<exists>w \<in> set (day_slots late_march 1711843200000). first_reading demo_platform ''Europe/London'' w t)}"
    by (rule fixed_time_fires_once [OF demo_zone_rules parse_late_march])
      (simp_all add: late_march_def day_ok_def zone_start_def)
  then show ?thesis by (metis late_march_days(3) list.set)
qed

text \<open>On a day its day fields match, an expression with a star or a step in its time fires at every instant whose wall
  reading on that day has one of its hours and one of its minutes: skipped readings do not fire, repeated ones fire twice.\<close>

theorem wildcard_fires_at_every_reading:
  assumes z: "zone_rules P tz" and e: "parse_cron_expression s = Inr e" "\<not> ce_fixed_time e" and d: "day_ok day"
  shows "set (cron_instants_on_day P e tz day)
    = {t. matches_day e day \<and> zone_start \<le> t \<and> t mod minute_ms = 0 \<and> wall_of P tz t \<in> set (day_slots e day)}"
  by (intro set_eqI, unfold mem_Collect_eq) (rule wildcard_on_day [OF z parse_cron_ok [OF e(1)] e(2) d])

text \<open>Half past and full one o'clock on the day the clocks of London go back: both fire twice.\<close>

definition late_october :: cron_expression where
  "late_october = \<lparr>ce_source = ''*/30 1 27 10 0'', ce_minutes = [0, 30], ce_hours = [1], ce_days_of_month = [27],
    ce_months = [10], ce_days_of_week = [0], ce_dom_restricted = True, ce_dow_restricted = True, ce_fixed_time = False\<rparr>"

lemma parse_late_october: "parse_cron_expression ''*/30 1 27 10 0'' = Inr late_october"
  by code_simp

lemma late_october_day:
  "cron_instants_on_day demo_platform late_october ''Europe/London'' 1729987200000
    = [1729987200000, 1729989000000, 1729990800000, 1729992600000]"
proof -
  have "cv_month (civil 1729987200000) = 10" "cv_day (civil 1729987200000) = 27" "cv_weekday (civil 1729987200000) = 0"
    by (code_simp, code_simp, code_simp)
  then show ?thesis by (simp add: cron_instants_on_day_def late_october_def demo_eval)
qed

theorem wildcard_fires_at_every_reading_witness:
  "{t. matches_day late_october 1729987200000 \<and> zone_start \<le> t \<and> t mod minute_ms = 0
      \<and> wall_of demo_platform ''Europe/London'' t \<in> set (day_slots late_october 1729987200000)}
    = {1729987200000, 1729989000000, 1729990800000, 1729992600000}"
proof -
  have "set (cron_instants_on_day demo_platform late_october ''Europe/London'' 1729987200000)
      = {t. matches_day late_october 1729987200000 \<and> zone_start \<le> t \<and> t mod minute_ms = 0
        \<and> wall_of demo_platform ''Europe/London'' t \<in> set (day_slots late_october 1729987200000)}"
    by (rule wildcard_fires_at_every_reading [OF demo_zone_rules parse_late_october])
      (simp_all add: late_october_def day_ok_def zone_start_def)
  then show ?thesis by (metis late_october_day list.set)
qed

subsection \<open>An accepted interval that never fires\<close>

text \<open>An interval so long that its first multiple is past the last date the language has is accepted as one that fires,
  with the invalid date as its next fire time.\<close>

theorem endless_interval_accepted:
  assumes "minute_ms \<le> ms" "ms \<le> max_safe_integer" "ms mod minute_ms = 0"
    and "now \<le> a" "8640000000000000 < a + ms"
  shows "assert_spec_fires P (Every_spec ms (Valid a)) now = Inr ()
    \<and> next_fire_time P (Every_spec ms (Valid a)) now = Inr (Some Invalid_date)"
proof -
  have ms: "0 < ms" using assms(1) by simp
  have "(if now < a then 1 else (now - a) div ms + 1) \<le> 1"
    using ms assms(4) by (auto simp: not_less)
  then have "next_fire_time P (Every_spec ms (Valid a)) now = Inr (Some (new_date (a + ms)))"
    using valid_every_Inr [of ms "Valid a" a] assms by (simp add: next_fire_time_def Let_def max_def)
  moreover have "new_date (a + ms) = Invalid_date" using assms(5) by (simp add: new_date_def)
  ultimately show ?thesis by (simp add: assert_spec_fires_def)
qed

theorem endless_interval_accepted_witness:
  "assert_spec_fires demo_platform (Every_spec 8640000000000000 (Valid 1711846800000)) 1711846800000 = Inr ()"
  by (rule endless_interval_accepted [THEN conjunct1]) (simp_all add: max_safe_integer_def)

end
