(* ===== verification/SchedEvaluate.thy ===== *)
theory SchedEvaluate
  imports SchedFire
begin

text \<open>
  What to do about one job now (\<open>schedules/evaluate.ts\<close>). The instants a host keeps as
  texts stand as what \<open>Date.parse\<close> makes of them; those of the job itself (creation,
  last change) are valid instants.
\<close>

definition catch_up_window_ms :: int where
  "catch_up_window_ms = 7 * 24 * 60 * 60 * 1000"

definition late_grace_default_ms :: int where
  "late_grace_default_ms = 120000"

definition late_threshold_ms :: int where
  "late_threshold_ms = 5000"

datatype lifecycle = Pending_confirmation | Active | Paused | Completed | Expired

datatype skip_reason =
    Previous_run_active | Previous_run_awaiting_approval | Is_paused | Awaiting_confirmation
  | Beyond_catch_up_window | One_shot_expired | Quota_hold

datatype missed_reason = Daemon_not_running | Machine_asleep | Clock_jumped_forward

datatype run_status = Run_queued | Run_running | Run_awaiting_approval

datatype gap_kind = Gap_asleep | Gap_clock_forward | Gap_clock_backward

datatype fire_trigger = Scheduled | Late | Catch_up

record job =
  jb_spec :: schedule_spec
  jb_state :: lifecycle
  jb_catch_up :: "int option"
  jb_created_at :: int
  jb_updated_at :: int
  jb_revision :: int

record evaluation_state =
  ev_last_evaluated_at :: "date option"
  ev_job_revision :: "int option"
  ev_active_run :: "run_status option"
  ev_quota_hold_until :: "date option"

record observed_gap =
  gp_from :: int
  gp_to :: int
  gp_kind :: gap_kind

record evaluation_input =
  in_job :: job
  in_state :: evaluation_state
  in_now :: int
  in_gap :: "observed_gap option"
  in_late_grace :: "int option"
  in_claimed :: "string \<Rightarrow> bool"

record fire =
  fi_key :: string
  fi_scheduled_for :: int
  fi_trigger :: fire_trigger

record skip_entry =
  sk_scheduled_for :: int
  sk_reason :: skip_reason
  sk_count :: int

record missed_entry =
  mi_from :: int
  mi_to :: int
  mi_count :: int
  mi_capped :: bool
  mi_reason :: missed_reason

datatype job_transition = To_completed | To_expired

record next_state =
  ns_last_evaluated_at :: date
  ns_next_fire_at :: "date option"
  ns_job_revision :: int

record decision =
  de_fire :: "fire option"
  de_skip :: "skip_entry list"
  de_missed :: "missed_entry option"
  de_transition :: "job_transition option"
  de_next_state :: next_state

definition missed_reason_of :: "evaluation_input \<Rightarrow> int \<Rightarrow> missed_reason" where
  "missed_reason_of inp first_missed = (case in_gap inp of
      Some gap \<Rightarrow>
        if first_missed \<ge> gp_from gap then
          (case gp_kind gap of
             Gap_asleep \<Rightarrow> Machine_asleep
           | Gap_clock_forward \<Rightarrow> Clock_jumped_forward
           | Gap_clock_backward \<Rightarrow> Daemon_not_running)
        else Daemon_not_running
    | None \<Rightarrow> Daemon_not_running)"

definition is_one_shot :: "schedule_spec \<Rightarrow> bool" where
  "is_one_shot spec = (case spec of At_spec _ \<Rightarrow> True | _ \<Rightarrow> False)"

text \<open>The instant up to which everything has been decided.\<close>

definition base_instant :: "job \<Rightarrow> evaluation_state \<Rightarrow> int" where
  "base_instant job st =
    (let base = (case ev_last_evaluated_at st of Some (Valid t) \<Rightarrow> t | _ \<Rightarrow> jb_created_at job)
     in if ev_job_revision st \<noteq> None \<and> ev_job_revision st \<noteq> Some (jb_revision job)
        then max base (jb_updated_at job) else base)"

definition next_state_at :: "platform \<Rightarrow> job \<Rightarrow> int \<Rightarrow> (schedule_error, next_state) outcome" where
  "next_state_at P job evaluated =
    bindE (next_fire_time P (jb_spec job) evaluated) (\<lambda>next_time.
      Inr \<lparr>ns_last_evaluated_at = new_date evaluated, ns_next_fire_at = next_time,
        ns_job_revision = jb_revision job\<rparr>)"

text \<open>A decision, once the next state is known.\<close>

definition decide :: "platform \<Rightarrow> job \<Rightarrow> int \<Rightarrow> fire option \<Rightarrow> skip_entry list \<Rightarrow> missed_entry option
    \<Rightarrow> job_transition option \<Rightarrow> (schedule_error, decision) outcome" where
  "decide P job evaluated fire skip missed transition =
    bindE (next_state_at P job evaluated) (\<lambda>ns.
      Inr \<lparr>de_fire = fire, de_skip = skip, de_missed = missed, de_transition = transition, de_next_state = ns\<rparr>)"

text \<open>The record of what was missed before the occurrence that fires.\<close>

definition missed_before :: "platform \<Rightarrow> evaluation_input \<Rightarrow> occurrence_count \<Rightarrow> int
    \<Rightarrow> (schedule_error, missed_entry option) outcome" where
  "missed_before P inp due latest =
    (let earlier = oc_count due - 1 in
     case oc_first due of
       None \<Rightarrow> Inr None
     | Some first \<Rightarrow>
        if earlier \<le> 0 then Inr None
        else bindE (previous_fire_time P (jb_spec (in_job inp)) (latest - 1)) (\<lambda>previous.
          Inr (Some \<lparr>mi_from = first, mi_to = (case previous of Some t \<Rightarrow> t | None \<Rightarrow> first),
            mi_count = earlier, mi_capped = oc_capped due, mi_reason = missed_reason_of inp first\<rparr>)))"

text \<open>An active job with something due, no hold and no unfinished run.\<close>

definition decide_due :: "platform \<Rightarrow> evaluation_input \<Rightarrow> occurrence_count \<Rightarrow> int
    \<Rightarrow> (schedule_error, decision) outcome" where
  "decide_due P inp due latest =
    (let job = in_job inp; now = in_now inp;
         grace = (case in_late_grace inp of Some g \<Rightarrow> g | None \<Rightarrow> late_grace_default_ms);
         window = (case jb_catch_up job of Some w \<Rightarrow> w | None \<Rightarrow> catch_up_window_ms);
         key = int_text latest; late_by = now - latest;
         completes = (if is_one_shot (jb_spec job) then Some To_completed else None)
     in if in_claimed inp key then decide P job now None [] None completes
        else if late_by \<le> grace \<or> late_by \<le> window then
          let trigger = (if late_by \<le> grace then (if late_by > late_threshold_ms then Late else Scheduled) else Catch_up)
          in bindE (missed_before P inp due latest) (\<lambda>missed.
               decide P job now (Some \<lparr>fi_key = key, fi_scheduled_for = latest, fi_trigger = trigger\<rparr>)
                 [] missed completes)
        else
          let first = (case oc_first due of Some t \<Rightarrow> t | None \<Rightarrow> latest)
          in decide P job now None
               [\<lparr>sk_scheduled_for = latest,
                 sk_reason = (if is_one_shot (jb_spec job) then One_shot_expired else Beyond_catch_up_window),
                 sk_count = 1\<rparr>]
               (Some \<lparr>mi_from = first, mi_to = latest, mi_count = oc_count due, mi_capped = oc_capped due,
                 mi_reason = missed_reason_of inp first\<rparr>)
               (if is_one_shot (jb_spec job) then Some To_expired else None))"

definition holds_until :: "evaluation_state \<Rightarrow> int \<Rightarrow> bool" where
  "holds_until st now = (case ev_quota_hold_until st of Some (Valid h) \<Rightarrow> h > now | _ \<Rightarrow> False)"

definition one_shot_past :: "schedule_spec \<Rightarrow> int \<Rightarrow> bool" where
  "one_shot_past spec base = (case spec of At_spec (Valid at) \<Rightarrow> at \<le> base | _ \<Rightarrow> False)"

definition evaluate_job :: "platform \<Rightarrow> evaluation_input \<Rightarrow> (schedule_error, decision) outcome" where
  "evaluate_job P inp =
    (let job = in_job inp; st = in_state inp; now = in_now inp; base = base_instant job st in
     if jb_state job = Completed \<or> jb_state job = Expired then
       Inr \<lparr>de_fire = None, de_skip = [], de_missed = None, de_transition = None,
         de_next_state = \<lparr>ns_last_evaluated_at = new_date (max base now), ns_next_fire_at = None,
           ns_job_revision = jb_revision job\<rparr>\<rparr>
     else if now \<le> base then decide P job base None [] None None
     else bindE (count_occurrences P (jb_spec job) base now occurrence_count_cap) (\<lambda>due.
       (case (if oc_count due = 0 then None else oc_latest due) of
         None \<Rightarrow> decide P job now None [] None
           (if one_shot_past (jb_spec job) base \<and> jb_state job \<noteq> Active then Some To_expired else None)
       | Some latest \<Rightarrow>
         let collapsed = (\<lambda>reason. [\<lparr>sk_scheduled_for = latest, sk_reason = reason, sk_count = oc_count due\<rparr>])
         in if jb_state job = Paused \<or> jb_state job = Pending_confirmation then
              decide P job now None
                (collapsed (if jb_state job = Paused then Is_paused else Awaiting_confirmation)) None
                (if is_one_shot (jb_spec job) then Some To_expired else None)
            else if holds_until st now then decide P job now None (collapsed Quota_hold) None None
            else (case ev_active_run st of
                Some status \<Rightarrow> decide P job now None
                  (collapsed (if status = Run_awaiting_approval then Previous_run_awaiting_approval
                     else Previous_run_active)) None None
              | None \<Rightarrow> decide_due P inp due latest))))"

end
