(* ===== verification/SchedEvaluateProperties.thy ===== *)
theory SchedEvaluateProperties
  imports SchedFireProperties SchedEvaluate
begin

text \<open>
  Properties of the evaluation of a job: no occurrence fires twice, whatever the clock,
  the edits of the job and the claims do; the counts a decision reports add up; the next wake
  up comes at the next occurrence.
\<close>

subsection \<open>One evaluation\<close>

lemma count_latest:
  "count_occurrences P spec from_ms to_ms cap = Inr c \<Longrightarrow> oc_latest c = Some l \<Longrightarrow> from_ms < l \<and> l \<le> to_ms"
proof -
  assume c: "count_occurrences P spec from_ms to_ms cap = Inr c" and l: "oc_latest c = Some l"
  then have lt: "from_ms < to_ms" by (auto simp: count_occurrences_def no_occurrence_def split: if_splits)
  show ?thesis
  proof (cases spec)
    case (At_spec d)
    then show ?thesis
      using c l lt by (auto simp: count_occurrences_def no_occurrence_def split: date.splits if_splits)
  next
    case (Every_spec ms d)
    then obtain a where v: "valid_every ms d = Inr a"
      using c lt by (auto simp: count_occurrences_def result_simps)
    then have ms: "0 < ms" by (auto simp: valid_every_Inr)
    define q where "q = (to_ms - a) div ms"
    define k where "k = max 1 ((from_ms - a) div ms + 1)"
    have "k \<le> q \<and> l = a + q * ms"
      using c l lt v by (auto simp: count_occurrences_def Every_spec Let_def first_multiple [OF ms] no_occurrence_def
          q_def k_def split: if_splits)
    then show ?thesis
      using multiple_after [OF ms, of from_ms a q] multiple_after [OF ms, of to_ms a q]
      by (auto simp: q_def k_def)
  next
    case (Cron_spec expr tz)
    obtain e prev count first where
      prev: "prev = last_before P e tz to_ms (day_start (to_ms + offset_at P tz to_ms) + day_ms) (Suc cron_horizon_days)"
      and result: "c = (case prev of None \<Rightarrow> no_occurrence
      | Some latest \<Rightarrow> if latest \<le> from_ms then no_occurrence
          else \<lparr>oc_count = min count cap, oc_capped = (count > cap), oc_first = first, oc_latest = Some latest\<rparr>)"
      by (rule count_cronE [OF c [unfolded Cron_spec] lt]) blast
    have "prev = Some x \<Longrightarrow> x \<le> to_ms" for x using last_before_le prev by metis
    then show ?thesis using result l by (auto simp: no_occurrence_def split: option.splits if_splits)
  qed
qed

lemma count_first:
  assumes c: "count_occurrences P spec from_ms to_ms cap = Inr c" and pos: "0 < oc_count c" "0 \<le> cap"
  shows "oc_first c \<noteq> None"
proof -
  have lt: "from_ms < to_ms"
    using c pos(1) by (auto simp: count_occurrences_def no_occurrence_def split: if_splits)
  show ?thesis
  proof (cases spec)
    case (Cron_spec expr tz)
    obtain e prev day n count first where e: "parse_cron_expression expr = Inr e"
      and cd: "count_days P e tz from_ms to_ms cap day n (0, None) = (count, first)"
      and result: "c = (case prev of None \<Rightarrow> no_occurrence
      | Some latest \<Rightarrow> if latest \<le> from_ms then no_occurrence
          else \<lparr>oc_count = min count cap, oc_capped = (count > cap), oc_first = first, oc_latest = Some latest\<rparr>)"
      by (rule count_cronE [OF c [unfolded Cron_spec] lt]) blast
    have "oc_count c = min count cap" "oc_first c = first"
      using result pos(1) by (auto simp: no_occurrence_def split: option.splits if_splits)
    moreover have "min count cap = min (int (length (hits P e tz from_ms to_ms (days_from day n)))) cap"
      "first = (if hits P e tz from_ms to_ms (days_from day n) \<noteq> [] then Some (hd (hits P e tz from_ms to_ms (days_from day n))) else None)"
      using count_days [OF parse_cron_ok [OF e] pos(2) _ _ _ cd refl] pos(2) by simp_all
    ultimately show ?thesis using pos(1) by (auto split: if_splits)
  qed (use c pos lt in \<open>auto simp: count_occurrences_def no_occurrence_def result_simps Let_def split: date.splits if_splits\<close>)
qed

lemma decide_Inr: "decide P job now f s m tr = Inr d \<longleftrightarrow> (\<exists>ns. next_state_at P job now = Inr ns
    \<and> d = \<lparr>de_fire = f, de_skip = s, de_missed = m, de_transition = tr, de_next_state = ns\<rparr>)"
  by (auto simp: decide_def result_simps)

lemma next_state_at_last: "next_state_at P job t = Inr ns \<Longrightarrow> ns_last_evaluated_at ns = new_date t \<and> ns_job_revision ns = jb_revision job"
  by (auto simp: next_state_at_def result_simps)

lemma decide_last: "decide P job t f s m tr = Inr d \<Longrightarrow> ns_last_evaluated_at (de_next_state d) = new_date t"
  by (auto simp: decide_Inr next_state_at_last)

lemma decide_due_last:
  "decide_due P inp due latest = Inr d \<Longrightarrow> ns_last_evaluated_at (de_next_state d) = new_date (in_now inp)"
  by (auto simp: decide_due_def Let_def result_simps decide_last split: if_splits)

text \<open>However an evaluation ends, everything up to the later of its base and now is decided.\<close>

lemma evaluate_last:
  assumes "evaluate_job P inp = Inr d"
  shows "ns_last_evaluated_at (de_next_state d) = new_date (max (base_instant (in_job inp) (in_state inp)) (in_now inp))"
  using assms
  by (auto simp: evaluate_job_def Let_def result_simps decide_last decide_due_last max_def
      split: if_splits option.splits)

text \<open>What must hold for an occurrence to fire.\<close>

lemma decide_due_fire:
  assumes "decide_due P inp due latest = Inr d" "de_fire d = Some f"
  shows "fi_scheduled_for f = latest" "fi_key f = int_text latest" "\<not> in_claimed inp (fi_key f)"
    "in_now inp - latest \<le> max (case in_late_grace inp of Some g \<Rightarrow> g | None \<Rightarrow> late_grace_default_ms)
        (case jb_catch_up (in_job inp) of Some w \<Rightarrow> w | None \<Rightarrow> catch_up_window_ms)"
  using assms by (auto simp: decide_due_def Let_def result_simps decide_Inr split: if_splits)

lemma evaluate_fire:
  assumes e: "evaluate_job P inp = Inr d" and f: "de_fire d = Some f"
  shows "base_instant (in_job inp) (in_state inp) < fi_scheduled_for f" "fi_scheduled_for f \<le> in_now inp"
    "fi_key f = int_text (fi_scheduled_for f)" "\<not> in_claimed inp (fi_key f)"
    "jb_state (in_job inp) = Active" "ev_active_run (in_state inp) = None"
    "\<not> holds_until (in_state inp) (in_now inp)"
    "in_now inp - fi_scheduled_for f \<le> max (case in_late_grace inp of Some g \<Rightarrow> g | None \<Rightarrow> late_grace_default_ms)
        (case jb_catch_up (in_job inp) of Some w \<Rightarrow> w | None \<Rightarrow> catch_up_window_ms)"
proof -
  obtain due latest where due: "count_occurrences P (jb_spec (in_job inp))
      (base_instant (in_job inp) (in_state inp)) (in_now inp) occurrence_count_cap = Inr due"
    and l: "oc_latest due = Some latest" and dd: "decide_due P inp due latest = Inr d"
    and st: "jb_state (in_job inp) = Active" "ev_active_run (in_state inp) = None"
      "\<not> holds_until (in_state inp) (in_now inp)"
    using e f by (cases "jb_state (in_job inp)")
      (auto simp: evaluate_job_def Let_def result_simps decide_Inr split: if_splits option.splits)
  note r = decide_due_fire [OF dd f]
  show "base_instant (in_job inp) (in_state inp) < fi_scheduled_for f" "fi_scheduled_for f \<le> in_now inp"
    using count_latest [OF due l] r by simp_all
  show "fi_key f = int_text (fi_scheduled_for f)" "\<not> in_claimed inp (fi_key f)"
    "jb_state (in_job inp) = Active" "ev_active_run (in_state inp) = None"
    "\<not> holds_until (in_state inp) (in_now inp)"
    "in_now inp - fi_scheduled_for f \<le> max (case in_late_grace inp of Some g \<Rightarrow> g | None \<Rightarrow> late_grace_default_ms)
        (case jb_catch_up (in_job inp) of Some w \<Rightarrow> w | None \<Rightarrow> catch_up_window_ms)"
    using r st by simp_all
qed

subsection \<open>Runs\<close>

text \<open>
  A host evaluates a job again and again: it keeps the next state of each evaluation,
  anything else may change in between (the clock, the job and its revision, a run, a
  hold, the claims). An evaluation that throws leaves what was kept.
\<close>

definition carry :: "next_state \<Rightarrow> evaluation_input \<Rightarrow> evaluation_input" where
  "carry ns inp = inp\<lparr>in_state := (in_state inp)\<lparr>ev_last_evaluated_at := Some (ns_last_evaluated_at ns),
    ev_job_revision := Some (ns_job_revision ns)\<rparr>\<rparr>"

fun evaluate_run :: "platform \<Rightarrow> next_state \<Rightarrow> evaluation_input list \<Rightarrow> decision list" where
  "evaluate_run P ns [] = []"
| "evaluate_run P ns (inp # inps) = (case evaluate_job P (carry ns inp) of
      Inl err \<Rightarrow> evaluate_run P ns inps
    | Inr d \<Rightarrow> d # evaluate_run P (de_next_state d) inps)"

definition fires :: "decision list \<Rightarrow> fire list" where
  "fires ds = List.map_filter de_fire ds"

lemma fires_Nil [simp]: "fires [] = []"
  by (simp add: fires_def List.map_filter_def)

lemma fires_Cons [simp]: "fires (d # ds) = (case de_fire d of None \<Rightarrow> fires ds | Some f \<Rightarrow> f # fires ds)"
  by (simp add: fires_def List.map_filter_def split: option.splits)

definition in_range :: "int \<Rightarrow> bool" where
  "in_range t \<longleftrightarrow> \<bar>t\<bar> \<le> 8640000000000000"

definition input_ok :: "evaluation_input \<Rightarrow> bool" where
  "input_ok inp \<longleftrightarrow> in_range (in_now inp) \<and> in_range (jb_updated_at (in_job inp))"

lemma base_carry:
  assumes "ns_last_evaluated_at ns = Valid b" "in_range b" "input_ok inp"
  shows "b \<le> base_instant (in_job (carry ns inp)) (in_state (carry ns inp))"
    "in_range (base_instant (in_job (carry ns inp)) (in_state (carry ns inp)))"
  using assms by (auto simp: carry_def base_instant_def Let_def max_def input_ok_def)

lemma run_fires_later:
  assumes "ns_last_evaluated_at ns = Valid b" "in_range b" "\<forall>inp \<in> set inps. input_ok inp"
  shows "sorted_wrt (<) (map fi_scheduled_for (fires (evaluate_run P ns inps)))
    \<and> (\<forall>f \<in> set (fires (evaluate_run P ns inps)). b < fi_scheduled_for f)"
  using assms
proof (induction inps arbitrary: ns b)
  case (Cons inp inps)
  show ?case
  proof (cases "evaluate_job P (carry ns inp)")
    case (Inl err)
    then show ?thesis using Cons by simp
  next
    case (Inr d)
    define base where "base = base_instant (in_job (carry ns inp)) (in_state (carry ns inp))"
    have ok: "input_ok inp" using Cons.prems(3) by simp
    have base: "b \<le> base" "in_range base" unfolding base_def using base_carry [OF Cons.prems(1,2) ok] by auto
    define m where "m = max base (in_now inp)"
    have "in_range m" using base ok by (simp add: m_def input_ok_def max_def)
    moreover have now: "in_now (carry ns inp) = in_now inp" by (simp add: carry_def)
    ultimately have last: "ns_last_evaluated_at (de_next_state d) = Valid m"
      using evaluate_last [OF Inr] by (simp add: m_def base_def new_date_def in_range_def)
    have rest: "sorted_wrt (<) (map fi_scheduled_for (fires (evaluate_run P (de_next_state d) inps)))"
      "\<forall>f \<in> set (fires (evaluate_run P (de_next_state d) inps)). m < fi_scheduled_for f"
      using Cons.IH [OF last \<open>in_range m\<close>] Cons.prems(3) by auto
    have "b \<le> m" using base by (simp add: m_def)
    moreover have "b < fi_scheduled_for f \<and> fi_scheduled_for f \<le> m" if "de_fire d = Some f" for f
      using evaluate_fire(1,2) [OF Inr that] base now by (auto simp: base_def m_def)
    ultimately show ?thesis
      using rest Inr by (cases "de_fire d") force+
  qed
qed simp

lemma run_keys:
  "f \<in> set (fires (evaluate_run P ns inps)) \<Longrightarrow> fi_key f = int_text (fi_scheduled_for f)"
proof (induction inps arbitrary: ns)
  case (Cons inp inps)
  then show ?case
    using evaluate_fire(3) [of P "carry ns inp"] by (auto split: sum.splits option.splits)
qed simp

text \<open>C36: However a job is evaluated again and again, with any clock readings (forward or backward), edits of the
  job, unfinished runs, holds and claims in between, the occurrences that fire come later and later, so no
  occurrence key fires twice.\<close>

theorem no_occurrence_fires_twice:
  assumes "ns_last_evaluated_at ns = Valid b" "in_range b" "\<forall>inp \<in> set inps. input_ok inp"
  shows "sorted_wrt (<) (map fi_scheduled_for (fires (evaluate_run P ns inps)))
    \<and> distinct (map fi_key (fires (evaluate_run P ns inps)))"
proof -
  let ?fs = "fires (evaluate_run P ns inps)"
  have sorted: "sorted_wrt (<) (map fi_scheduled_for ?fs)" using run_fires_later [OF assms] by blast
  then have "distinct (map fi_scheduled_for ?fs)" by (simp only: strict_sorted_iff)
  then have "distinct (map int_text (map fi_scheduled_for ?fs))"
    unfolding distinct_map [of int_text] by (simp add: inj_on_def)
  moreover have "map fi_key ?fs = map int_text (map fi_scheduled_for ?fs)"
    using run_keys by auto
  ultimately show ?thesis using sorted by metis
qed

definition hourly_job :: job where
  "hourly_job = \<lparr>jb_spec = Every_spec 3600000 (Valid 1711836000000), jb_state = Active, jb_catch_up = None,
    jb_created_at = 1711836000000, jb_updated_at = 1711836000000, jb_revision = 1\<rparr>"

definition hourly_input :: "int \<Rightarrow> evaluation_input" where
  "hourly_input now = \<lparr>in_job = hourly_job,
    in_state = \<lparr>ev_last_evaluated_at = None, ev_job_revision = None, ev_active_run = None, ev_quota_hold_until = None\<rparr>,
    in_now = now, in_gap = None, in_late_grace = None, in_claimed = (\<lambda>k. False)\<rparr>"

definition hourly_start :: next_state where
  "hourly_start = \<lparr>ns_last_evaluated_at = Valid 1711836000000, ns_next_fire_at = None, ns_job_revision = 1\<rparr>"

text \<open>The clock goes back by an hour after the first fire; the second is the next hour's.\<close>

theorem no_occurrence_fires_twice_witness:
  "length (fires (evaluate_run demo_platform hourly_start (map hourly_input [1711839601000, 1711836001000, 1711843201000]))) = 2
    \<and> distinct (map fi_key (fires (evaluate_run demo_platform hourly_start
        (map hourly_input [1711839601000, 1711836001000, 1711843201000]))))"
proof
  show "distinct (map fi_key (fires (evaluate_run demo_platform hourly_start
      (map hourly_input [1711839601000, 1711836001000, 1711843201000]))))"
    by (rule no_occurrence_fires_twice [of hourly_start 1711836000000, THEN conjunct2])
      (auto simp: hourly_start_def hourly_input_def hourly_job_def input_ok_def in_range_def)
qed (simp add: hourly_start_def hourly_input_def hourly_job_def carry_def evaluate_job_def base_instant_def
    count_occurrences_def valid_every_def max_safe_integer_def decide_due_def missed_before_def decide_def
    next_state_at_def next_fire_time_def new_date_def no_occurrence_def holds_until_def is_one_shot_def
    late_grace_default_ms_def catch_up_window_ms_def late_threshold_ms_def occurrence_count_cap_def)

subsection \<open>Accounting\<close>

text \<open>How many occurrences a decision reports as fired, skipped or missed.\<close>

definition reported :: "decision \<Rightarrow> int" where
  "reported d = (if de_fire d = None then 0 else 1) + sum_list (map sk_count (de_skip d))
    + (case de_missed d of None \<Rightarrow> 0 | Some m \<Rightarrow> mi_count m)"

text \<open>An active job, free to run, whose latest occurrence is older than the catch-up window.\<close>

definition beyond_window :: "evaluation_input \<Rightarrow> int \<Rightarrow> bool" where
  "beyond_window inp latest \<longleftrightarrow> jb_state (in_job inp) = Active \<and> \<not> holds_until (in_state inp) (in_now inp)
    \<and> ev_active_run (in_state inp) = None
    \<and> in_now inp - latest > (case in_late_grace inp of Some g \<Rightarrow> g | None \<Rightarrow> late_grace_default_ms)
    \<and> in_now inp - latest > (case jb_catch_up (in_job inp) of Some w \<Rightarrow> w | None \<Rightarrow> catch_up_window_ms)"

lemma missed_before_count:
  assumes "missed_before P inp due latest = Inr m" "0 < oc_count due" "oc_first due \<noteq> None"
  shows "(case m of None \<Rightarrow> 0 | Some e \<Rightarrow> mi_count e) = oc_count due - 1"
  using assms by (auto simp: missed_before_def Let_def result_simps split: if_splits option.splits)

lemma decide_due_reported:
  assumes "decide_due P inp due latest = Inr d" "0 < oc_count due" "oc_first due \<noteq> None"
    "\<not> in_claimed inp (int_text latest)" "jb_state (in_job inp) = Active"
    "\<not> holds_until (in_state inp) (in_now inp)" "ev_active_run (in_state inp) = None"
  shows "reported d = oc_count due + (if beyond_window inp latest then 1 else 0)"
  using assms missed_before_count [of P inp due latest]
  by (auto simp: decide_due_def Let_def result_simps decide_Inr reported_def beyond_window_def split: if_splits)

text \<open>The counts a decision reports as fired, skipped and missed add up to the occurrences that came due since the last
  evaluation, as long as the latest of them was not claimed by someone else: then none of them is reported. The latest
  occurrence of an active job is reported twice when it lies beyond the catch-up window, as skipped and as missed. The count
  of a window is itself capped.\<close>

theorem due_occurrences_reported:
  assumes e: "evaluate_job P inp = Inr d" and open_job: "jb_state (in_job inp) \<noteq> Completed" "jb_state (in_job inp) \<noteq> Expired"
    and later: "base_instant (in_job inp) (in_state inp) < in_now inp"
    and due: "count_occurrences P (jb_spec (in_job inp)) (base_instant (in_job inp) (in_state inp)) (in_now inp)
      occurrence_count_cap = Inr due" "0 < oc_count due" "oc_latest due = Some latest"
    and unclaimed: "\<not> in_claimed inp (int_text latest)"
  shows "reported d = oc_count due + (if beyond_window inp latest then 1 else 0)"
proof -
  have first: "oc_first due \<noteq> None"
    by (rule count_first [OF due(1,2)]) (simp add: occurrence_count_cap_def)
  show ?thesis
  proof (cases "jb_state (in_job inp) = Active \<and> \<not> holds_until (in_state inp) (in_now inp)
      \<and> ev_active_run (in_state inp) = None")
    case True
    then have "decide_due P inp due latest = Inr d"
      using e later due by (simp add: evaluate_job_def Let_def)
    then show ?thesis using decide_due_reported [OF _ due(2) first unclaimed] True by blast
  next
    case False
    then have "\<not> beyond_window inp latest" by (auto simp: beyond_window_def)
    then show ?thesis
      using e open_job later due False
      by (cases "jb_state (in_job inp)")
        (auto simp: evaluate_job_def Let_def result_simps decide_Inr reported_def split: if_splits option.splits)
  qed
qed

text \<open>Three hours after the last evaluation, an hour late: one occurrence fires, two were missed.\<close>

definition hourly_decision :: decision where
  "hourly_decision = \<lparr>de_fire = Some \<lparr>fi_key = int_text 1711846800000, fi_scheduled_for = 1711846800000, fi_trigger = Catch_up\<rparr>,
    de_skip = [],
    de_missed = Some \<lparr>mi_from = 1711839600000, mi_to = 1711843200000, mi_count = 2, mi_capped = False,
      mi_reason = Daemon_not_running\<rparr>,
    de_transition = None,
    de_next_state = \<lparr>ns_last_evaluated_at = Valid 1711848600000, ns_next_fire_at = Some (Valid 1711850400000),
      ns_job_revision = 1\<rparr>\<rparr>"

lemmas hourly_eval = hourly_input_def hourly_job_def evaluate_job_def base_instant_def
    count_occurrences_def valid_every_def max_safe_integer_def decide_due_def missed_before_def decide_def
    next_state_at_def next_fire_time_def new_date_def no_occurrence_def holds_until_def is_one_shot_def
    late_grace_default_ms_def catch_up_window_ms_def late_threshold_ms_def occurrence_count_cap_def
    previous_fire_time_def missed_reason_of_def

lemma hourly_decision: "evaluate_job demo_platform (hourly_input 1711848600000) = Inr hourly_decision"
  by (simp add: hourly_eval hourly_decision_def)

theorem due_occurrences_reported_witness: "reported hourly_decision = 3"
proof -
  have "reported hourly_decision = 3 + (if beyond_window (hourly_input 1711848600000) 1711846800000 then 1 else 0)"
    using due_occurrences_reported [OF hourly_decision, of
        "\<lparr>oc_count = 3, oc_capped = False, oc_first = Some 1711839600000, oc_latest = Some 1711846800000\<rparr>" 1711846800000]
    by (simp add: hourly_eval)
  then show ?thesis by (simp add: beyond_window_def hourly_eval)
qed

text \<open>Only an active job fires, and only an occurrence that came due after the last evaluation and not after now, that
  nobody has claimed, no later than the late grace or the catch-up window allows, while no run of the job is unfinished and no
  quota hold lasts.\<close>

theorem fire_is_guarded:
  assumes "evaluate_job P inp = Inr d" "de_fire d = Some f"
  shows "jb_state (in_job inp) = Active \<and> ev_active_run (in_state inp) = None
    \<and> \<not> holds_until (in_state inp) (in_now inp) \<and> \<not> in_claimed inp (fi_key f)
    \<and> base_instant (in_job inp) (in_state inp) < fi_scheduled_for f \<and> fi_scheduled_for f \<le> in_now inp
    \<and> in_now inp - fi_scheduled_for f \<le> max (case in_late_grace inp of Some g \<Rightarrow> g | None \<Rightarrow> late_grace_default_ms)
        (case jb_catch_up (in_job inp) of Some w \<Rightarrow> w | None \<Rightarrow> catch_up_window_ms)"
  using evaluate_fire [OF assms] by blast

theorem fire_is_guarded_witness:
  "\<not> in_claimed (hourly_input 1711848600000) (int_text 1711846800000)
    \<and> base_instant hourly_job (in_state (hourly_input 1711848600000)) < 1711846800000"
  using fire_is_guarded [OF hourly_decision, of "\<lparr>fi_key = int_text 1711846800000, fi_scheduled_for = 1711846800000, fi_trigger = Catch_up\<rparr>"]
  by (simp add: hourly_decision_def hourly_input_def)

text \<open>C37: A host that sleeps from an evaluation until the valid instant the decision names for the next fire wakes at an
  occurrence, and sleeps through none. For a cron expression its zone keeps the rules of zones, and nothing is slept
  through if no change of the clocks leads back across midnight during the sleep.\<close>

theorem wake_up_misses_nothing:
  assumes e: "evaluate_job P inp = Inr d" and z: "zone_of_ok P (jb_spec (in_job inp))"
    and l: "ns_last_evaluated_at (de_next_state d) = Valid l" "zone_start + 7 * day_ms \<le> l"
    and w: "ns_next_fire_at (de_next_state d) = Some (Valid t)"
  shows "occurs P (jb_spec (in_job inp)) t \<and> l < t
    \<and> (order_ok P (jb_spec (in_job inp)) l t \<longrightarrow> \<not> (\<exists>u. occurs P (jb_spec (in_job inp)) u \<and> l < u \<and> u < t))"
proof -
  have ns: "next_state_at P job l' = Inr ns \<Longrightarrow> ns_next_fire_at ns = Some (Valid t)
      \<Longrightarrow> ns_last_evaluated_at ns = Valid l \<Longrightarrow> next_fire_time P (jb_spec job) l = Inr (Some (Valid t))" for job l' ns
    by (auto simp: next_state_at_def result_simps new_date_def split: if_splits)
  have dd: "decide_due P inp due latest = Inr d \<Longrightarrow> \<exists>l'. next_state_at P (in_job inp) l' = Inr (de_next_state d)" for due latest
    by (auto simp: decide_due_def Let_def result_simps decide_Inr split: if_splits)
  have "\<exists>l'. next_state_at P (in_job inp) l' = Inr (de_next_state d)"
    using e w by (auto simp: evaluate_job_def Let_def result_simps decide_Inr intro: dd split: if_splits option.splits)
  then have "next_fire_time P (jb_spec (in_job inp)) l = Inr (Some (Valid t))"
    using ns l w by blast
  from next_fire [OF z l(2) this] show ?thesis by force
qed

theorem wake_up_misses_nothing_witness:
  "\<not> (\<exists>u. occurs demo_platform (jb_spec hourly_job) u \<and> 1711848600000 < u \<and> u < 1711850400000)"
  using wake_up_misses_nothing [OF hourly_decision, of 1711848600000 1711850400000]
  by (simp add: hourly_decision_def hourly_input_def hourly_job_def zone_of_ok_def order_ok_def zone_start_def)

end
