(* ===== verification/SchedSpec.thy ===== *)
theory SchedSpec
  imports SchedFire
begin

text \<open>
  The words of a schedule (\<open>schedules/spec.ts\<close>): durations, local times, instants and
  expressions, turned into a spec that is checked to fire. The instant of an \<open>at\<close> spec
  and the anchor of an interval, which the code keeps as texts, are kept as the instants
  they were written from.
\<close>

subsection \<open>Durations\<close>

definition unit_ms :: "(string \<times> int) list" where
  "unit_ms =
    [(''s'', 1000), (''sec'', 1000), (''secs'', 1000), (''second'', 1000), (''seconds'', 1000),
     (''m'', minute_ms), (''min'', minute_ms), (''mins'', minute_ms), (''minute'', minute_ms), (''minutes'', minute_ms),
     (''h'', hour_ms), (''hr'', hour_ms), (''hrs'', hour_ms), (''hour'', hour_ms), (''hours'', hour_ms),
     (''d'', day_ms), (''day'', day_ms), (''days'', day_ms),
     (''w'', 7 * day_ms), (''week'', 7 * day_ms), (''weeks'', 7 * day_ms)]"

text \<open>
  The table of units is an object of the language, so looking up \<open>constructor\<close> finds a
  function; a number times a function is not a number.
\<close>

datatype duration = Millis int | Not_a_number_ms

definition duration_of :: "nat \<Rightarrow> string \<Rightarrow> duration option" where
  "duration_of n unit = (case map_of unit_ms unit of
      Some ms \<Rightarrow> Some (Millis (int n * ms))
    | None \<Rightarrow> if unit = ''constructor'' then Some Not_a_number_ms else None)"

definition parse_duration :: "string \<Rightarrow> (schedule_error, duration) outcome" where
  "parse_duration text =
    (let s = trim text;
         digits = takeWhile is_digit s;
         letters = dropWhile is_space (dropWhile is_digit s)
     in if digits = [] \<or> letters = [] \<or> \<not> list_all is_letter letters
        then Inl (Schedule_validation Not_a_duration text)
        else case duration_of (number_of digits) (to_lower letters) of
          Some d \<Rightarrow> Inr d
        | None \<Rightarrow> Inl (Schedule_validation Not_a_duration text))"

definition format_interval :: "int \<Rightarrow> string" where
  "format_interval ms =
    (if ms mod day_ms = 0 then int_text (ms div day_ms) @ ''d''
     else if ms mod hour_ms = 0 then int_text (ms div hour_ms) @ ''h''
     else int_text (ms div minute_ms) @ ''m'')"

definition every_spec :: "string \<Rightarrow> int \<Rightarrow> (schedule_error, schedule_spec) outcome" where
  "every_spec text now = bindE (parse_duration text) (\<lambda>d. case d of
      Not_a_number_ms \<Rightarrow> Inl (Schedule_validation Not_whole_minutes text)
    | Millis ms \<Rightarrow>
        if ms < minute_ms then Inl (Schedule_validation Too_short text)
        else if ms mod minute_ms \<noteq> 0 then Inl (Schedule_validation Not_whole_minutes text)
        else Inr (Every_spec ms (Valid (now div minute_ms * minute_ms))))"

subsection \<open>Instants and local times\<close>

text \<open>Matching a text from its start: so many digits, one character of a few.\<close>

definition eat_digits :: "nat \<Rightarrow> string \<Rightarrow> (nat \<times> string) option" where
  "eat_digits n s = (if n \<le> length s \<and> list_all is_digit (take n s)
    then Some (number_of (take n s), drop n s) else None)"

fun eat_char :: "string \<Rightarrow> string \<Rightarrow> string option" where
  "eat_char cs [] = None"
| "eat_char cs (c # s) = (if c \<in> set cs then Some s else None)"

text \<open>One or two digits before a colon, and two after it, to the end.\<close>

definition clock_time :: "string \<Rightarrow> (nat \<times> nat) option" where
  "clock_time s =
    (let h = (if Option.bind (eat_digits 2 s) (\<lambda>(_, r). eat_char '':'' r) \<noteq> None then eat_digits 2 s else eat_digits 1 s)
     in Option.bind h (\<lambda>(h, r). Option.bind (eat_char '':'' r) (\<lambda>r.
        Option.bind (eat_digits 2 r) (\<lambda>(mi, r). if r = [] then Some (h, mi) else None))))"

text \<open>\<open>YYYY-MM-DD\<close>, and what follows it.\<close>

definition date_part :: "string \<Rightarrow> ((nat \<times> nat \<times> nat) \<times> string) option" where
  "date_part s =
    Option.bind (eat_digits 4 s) (\<lambda>(y, r). Option.bind (eat_char ''-'' r) (\<lambda>r.
    Option.bind (eat_digits 2 r) (\<lambda>(mo, r). Option.bind (eat_char ''-'' r) (\<lambda>r.
    Option.bind (eat_digits 2 r) (\<lambda>(d, r). Some ((y, mo, d), r))))))"

definition local_time :: "string \<Rightarrow> (nat \<times> nat \<times> nat \<times> nat \<times> nat) option" where
  "local_time s =
    Option.bind (date_part s) (\<lambda>((y, mo, d), r). Option.bind (eat_char ''T '' r) (\<lambda>r.
    map_option (\<lambda>(h, mi). (y, mo, d, h, mi)) (clock_time r)))"

definition eat_seconds :: "string \<Rightarrow> string" where
  "eat_seconds s = (case Option.bind (eat_char '':'' s) (eat_digits 2) of
      None \<Rightarrow> s
    | Some (_, r) \<Rightarrow> (case eat_char ''.'' r of
          None \<Rightarrow> r
        | Some f \<Rightarrow> if takeWhile is_digit f = [] then r else dropWhile is_digit f))"

definition zone_suffix :: "string \<Rightarrow> bool" where
  "zone_suffix s \<longleftrightarrow> s = ''Z'' \<or> s = ''z'' \<or>
    (case Option.bind (eat_char ''+-'' s) (eat_digits 2) of
       None \<Rightarrow> False
     | Some (_, r) \<Rightarrow>
         (case eat_digits 2 (case eat_char '':'' r of Some r' \<Rightarrow> r' | None \<Rightarrow> r) of
            Some (_, e) \<Rightarrow> e = []
          | None \<Rightarrow> False))"

definition iso_instant :: "string \<Rightarrow> bool" where
  "iso_instant s \<longleftrightarrow> (case Option.bind (date_part s) (\<lambda>(_, r). Option.bind (eat_char ''Tt'' r) (\<lambda>r.
      Option.bind (eat_digits 2 r) (\<lambda>(_, r). Option.bind (eat_char '':'' r) (eat_digits 2)))) of
    None \<Rightarrow> False
  | Some (_, r) \<Rightarrow> zone_suffix (eat_seconds r))"

definition starts_iso :: "string \<Rightarrow> bool" where
  "starts_iso s \<longleftrightarrow> Option.bind (date_part s) (\<lambda>(_, r). eat_char ''Tt'' r) \<noteq> None"

definition local_to_instant :: "platform \<Rightarrow> nat \<Rightarrow> nat \<Rightarrow> nat \<Rightarrow> nat \<Rightarrow> nat \<Rightarrow> string \<Rightarrow> string \<Rightarrow> (schedule_error, int) outcome" where
  "local_to_instant P y mo d h mi tz token =
    (let wall = date_utc (int y) (int mo - 1) (int d) (int h) (int mi); c = civil wall in
     if cv_year c \<noteq> int y \<or> cv_month c \<noteq> mo \<or> cv_day c \<noteq> d \<or> h > 23 \<or> mi > 59
     then Inl (Schedule_validation Not_a_date token)
     else case instants_for_wall P tz wall of
         [] \<Rightarrow> Inl (Schedule_validation Skipped_time token)
       | t # _ \<Rightarrow> Inr t)"

text \<open>The next instant the clock reads a time of day: today, tomorrow or the day after.\<close>

fun next_reading :: "platform \<Rightarrow> string \<Rightarrow> int \<Rightarrow> civil_time \<Rightarrow> nat \<Rightarrow> nat \<Rightarrow> nat list \<Rightarrow> int option" where
  "next_reading P tz now today h mi [] = None"
| "next_reading P tz now today h mi (add # adds) =
    (let day = civil (date_utc (cv_year today) (int (cv_month today) - 1) (int (cv_day today + add)) 0 0);
         instants = instants_for_wall P tz
           (date_utc (cv_year day) (int (cv_month day) - 1) (int (cv_day day)) (int h) (int mi))
     in case find (\<lambda>i. i > now) instants of
          Some t \<Rightarrow> Some t
        | None \<Rightarrow> next_reading P tz now today h mi adds)"

text \<open>\<open>new Date(t).toISOString()\<close> throws on an invalid date.\<close>

definition at_instant :: "int \<Rightarrow> (schedule_error, schedule_spec) outcome" where
  "at_instant t = (case new_date t of Valid t \<Rightarrow> Inr (At_spec (Valid t)) | Invalid_date \<Rightarrow> Inl Range_error)"

definition at_spec :: "platform \<Rightarrow> string \<Rightarrow> int \<Rightarrow> string \<Rightarrow> (schedule_error, schedule_spec) outcome" where
  "at_spec P text now tz =
    (let t = trim text in
     if iso_instant t then
       (case pl_date_parse P t of
          None \<Rightarrow> Inl (Schedule_validation Not_a_date t)
        | Some at \<Rightarrow> at_instant at)
     else (case local_time t of
       Some (y, mo, d, h, mi) \<Rightarrow> bindE (local_to_instant P y mo d h mi tz t) at_instant
     | None \<Rightarrow> (case clock_time t of
         Some (h, mi) \<Rightarrow>
           if h > 23 \<or> mi > 59 then Inl (Schedule_validation Not_a_time_of_day t)
           else (case next_reading P tz now (civil (wall_of P tz now)) h mi [0, 1, 2] of
               Some first \<Rightarrow> at_instant first
             | None \<Rightarrow> Inl (Schedule_validation Not_soon t))
       | None \<Rightarrow> Inl (Schedule_validation Not_a_time t))))"

subsection \<open>Specs\<close>

definition in_spec :: "string \<Rightarrow> int \<Rightarrow> (schedule_error, schedule_spec) outcome" where
  "in_spec text now = bindE (parse_duration text) (\<lambda>d. case d of
      Not_a_number_ms \<Rightarrow> Inl Range_error
    | Millis ms \<Rightarrow>
        if ms < minute_ms then Inl (Schedule_validation Too_short text)
        else at_instant (now + ms))"

definition read_spec :: "platform \<Rightarrow> string \<Rightarrow> int \<Rightarrow> string \<Rightarrow> (schedule_error, schedule_spec) outcome" where
  "read_spec P text now tz =
    (let lower = to_lower text in
     if starts_with ''every '' lower then every_spec (trim (drop 6 text)) now
     else if starts_with ''in '' lower then in_spec (trim (drop 3 text)) now
     else if starts_with ''at '' lower then at_spec P (drop 3 text) now tz
     else if starts_iso text then at_spec P text now tz
     else if lower = ''@reboot'' then Inl (Schedule_validation Reboot text)
     else bindE (parse_cron_expression text) (\<lambda>e. Inr (Cron_spec (ce_source e) tz)))"

definition parse_schedule_spec :: "platform \<Rightarrow> string \<Rightarrow> int \<Rightarrow> string option \<Rightarrow> (schedule_error, schedule_spec) outcome" where
  "parse_schedule_spec P input now zone =
    bindE (validate_time_zone P (case zone of Some z \<Rightarrow> z | None \<Rightarrow> host_time_zone P)) (\<lambda>tz.
    let text = trim input in
    if text = [] then Inl (Schedule_validation Required [])
    else bindE (read_spec P text now tz) (\<lambda>spec. bindE (assert_spec_fires P spec now) (\<lambda>_. Inr spec)))"

end
