(* ===== verification/SchedSpecProperties.thy ===== *)
theory SchedSpecProperties
  imports SchedSpec SchedFireProperties
begin

text \<open>
  Properties of schedule words: an interval written out is read back, a time of day is its next reading; and a word that makes
  the reader throw an error of the wrong kind.
\<close>

subsection \<open>Durations\<close>

lemma digits_then:
  assumes "\<not> is_digit c"
  shows "takeWhile is_digit (decimal n @ c # s) = decimal n" "dropWhile is_digit (decimal n @ c # s) = c # s"
  using is_digit_decimal [of n] assms by (simp_all add: list_all_iff)

lemma unit_letter: "is_letter (CHR ''d'')" "is_letter (CHR ''h'')" "is_letter (CHR ''m'')"
  "\<not> is_digit (CHR ''d'')" "\<not> is_digit (CHR ''h'')" "\<not> is_digit (CHR ''m'')"
  "\<not> is_space (CHR ''d'')" "\<not> is_space (CHR ''h'')" "\<not> is_space (CHR ''m'')"
  by (simp_all add: is_letter_def is_digit_def is_space_def char_code_def)

lemma digit_not_space: "is_digit c \<Longrightarrow> \<not> is_space c"
  by (auto simp: is_digit_def is_space_def)

lemma parse_unit:
  assumes c: "c \<in> {CHR ''d'', CHR ''h'', CHR ''m''}"
  shows "parse_duration (decimal n @ [c]) = (case duration_of n [c] of
    Some d \<Rightarrow> Inr d | None \<Rightarrow> Inl (Schedule_validation Not_a_duration (decimal n @ [c])))"
proof -
  have k: "is_letter c" "\<not> is_digit c" "\<not> is_space c" using c unit_letter by auto
  have "hd (decimal n @ [c]) = hd (decimal n)" "is_digit (hd (decimal n))"
    using is_digit_decimal [of n] by (simp_all add: list_all_iff)
  then have "trim (decimal n @ [c]) = decimal n @ [c]"
    using k by (intro trim_id) (auto simp: digit_not_space)
  moreover have "to_lower [c] = [c]"
    using c by (auto simp: to_lower_def lower_char_def char_code_def)
  ultimately show ?thesis
    using k by (simp add: parse_duration_def digits_then Let_def)
qed

text \<open>The text a whole number of minutes is written as in a refusal is read back as that many milliseconds.\<close>

theorem interval_round_trip:
  assumes "0 < ms" "ms mod minute_ms = 0"
  shows "parse_duration (format_interval ms) = Inr (Millis ms)"
proof -
  have written: "int_text (ms div k) = decimal (nat (ms div k))" if "0 < k" for k
    using assms(1) that by (simp add: int_text_def pos_imp_zdiv_neg_iff not_less [symmetric])
  have units: "duration_of n ''d'' = Some (Millis (int n * day_ms))" "duration_of n ''h'' = Some (Millis (int n * hour_ms))"
    "duration_of n ''m'' = Some (Millis (int n * minute_ms))" for n
    by (simp_all add: duration_of_def unit_ms_def)
  have exact: "ms mod k = 0 \<Longrightarrow> 0 < k \<Longrightarrow> int (nat (ms div k)) * k = ms" for k
    using assms(1) div_mult_mod_eq [of ms k] by (simp add: pos_imp_zdiv_nonneg_iff)
  consider "ms mod day_ms = 0" | "ms mod day_ms \<noteq> 0" "ms mod hour_ms = 0" | "ms mod day_ms \<noteq> 0" "ms mod hour_ms \<noteq> 0"
    by blast
  then show ?thesis
  proof cases
    case 1
    then show ?thesis
      using parse_unit [of "CHR ''d''" "nat (ms div day_ms)"] exact [of day_ms]
      by (simp only: format_interval_def if_True written units option.case) simp
  next
    case 2
    then show ?thesis
      using parse_unit [of "CHR ''h''" "nat (ms div hour_ms)"] exact [of hour_ms]
      by (simp only: format_interval_def if_True if_False written units option.case) simp
  next
    case 3
    then show ?thesis
      using parse_unit [of "CHR ''m''" "nat (ms div minute_ms)"] exact [of minute_ms] assms(2)
      by (simp only: format_interval_def if_True if_False written units option.case) simp
  qed
qed

theorem interval_round_trip_witness: "parse_duration (format_interval 5400000) = Inr (Millis 5400000)"
  by (rule interval_round_trip) simp_all

text \<open>The unit \<open>constructor\<close>, which no interval has, is not refused as a word that is not a duration: \<open>in\<close> with any number
  of it throws the error of an invalid date, as the table of units inherits a function of that name.\<close>

theorem inherited_unit_throws:
  "in_spec (decimal n @ '' constructor'') now = Inl Range_error"
proof -
  have sp: "is_space (CHR '' '')" "\<not> is_digit (CHR '' '')" "\<not> is_space (CHR ''r'')" "\<not> is_space (CHR ''c'')"
    by (simp_all add: is_space_def is_digit_def char_code_def)
  have hd: "hd (decimal n @ '' constructor'') = hd (decimal n)" "is_digit (hd (decimal n))"
    using is_digit_decimal [of n] by (simp_all add: list_all_iff)
  have t: "trim (decimal n @ '' constructor'') = decimal n @ '' constructor''"
    using hd sp by (intro trim_id) (auto simp: digit_not_space)
  have "list_all is_letter ''constructor''" "to_lower ''constructor'' = ''constructor''"
    "duration_of (number_of (decimal n)) ''constructor'' = Some Not_a_number_ms"
    by (code_simp, code_simp, simp add: duration_of_def unit_ms_def)
  then have "parse_duration (decimal n @ '' constructor'') = Inr Not_a_number_ms"
    using sp unfolding parse_duration_def t by (simp add: digits_then [OF sp(2)] Let_def)
  then show ?thesis by (simp add: in_spec_def)
qed

subsection \<open>Accepted specs\<close>

lemma at_instant_At: "at_instant t = Inr spec \<Longrightarrow> \<exists>u. spec = At_spec (Valid u)"
  by (auto simp: at_instant_def split: date.splits)

lemma in_spec_At: "in_spec text now = Inr spec \<Longrightarrow> \<exists>u. spec = At_spec (Valid u)"
  by (cases "parse_duration text"; cases "projr (parse_duration text)")
    (auto simp: in_spec_def split: if_splits dest: at_instant_At)

lemma at_spec_At: "at_spec P text now tz = Inr spec \<Longrightarrow> \<exists>u. spec = At_spec (Valid u)"
  by (auto simp: at_spec_def result_simps Let_def split: option.splits if_splits dest: at_instant_At)

lemma every_spec_Every: "every_spec text now = Inr spec \<Longrightarrow> \<exists>ms. spec = Every_spec ms (Valid (now div minute_ms * minute_ms))
    \<and> minute_ms \<le> ms \<and> ms mod minute_ms = 0"
  by (cases "parse_duration text"; cases "projr (parse_duration text)")
    (auto simp: every_spec_def split: if_splits)

lemma read_spec_cases:
  assumes "read_spec P text now tz = Inr spec"
  obtains u where "spec = At_spec (Valid u)"
  | ms where "spec = Every_spec ms (Valid (now div minute_ms * minute_ms))" "minute_ms \<le> ms" "ms mod minute_ms = 0"
  | e where "parse_cron_expression text = Inr e" "spec = Cron_spec (ce_source e) tz"
  using assms unfolding read_spec_def Let_def
  by (auto simp: result_simps split: if_splits dest!: in_spec_At at_spec_At every_spec_Every)

subsection \<open>Times of day\<close>

text \<open>The wall reading of a time of day on a day is that day's slot.\<close>

lemma date_utc_days:
  assumes "\<not> (0 \<le> y \<and> y \<le> 99)"
  shows "date_utc y m (d + n) 0 0 = date_utc y m d 0 0 + n * day_ms"
    "date_utc y m d (int h) (int mi) = date_utc y m d 0 0 + int h * hour_ms + int mi * minute_ms"
  using assms by (simp_all add: date_utc_def Let_def algebra_simps)

lemma date_utc_civil:
  assumes "100 \<le> cv_year (civil w)"
  shows "date_utc (cv_year (civil w)) (int (cv_month (civil w)) - 1) (int (cv_day (civil w))) 0 0 = day_start w"
proof -
  note f = civil_fields [of w]
  have m: "(int (cv_month (civil w)) - 1) div 12 = 0"
    "nat ((int (cv_month (civil w)) - 1) mod 12) = cv_month (civil w) - 1"
    using f(1,2) by (auto simp: nat_diff_distrib)
  show ?thesis using assms m f(8) by (simp add: date_utc_def Let_def day_start_def)
qed

text \<open>What the reader computes for a day is the slot of that day.\<close>

lemma reading_wall:
  fixes add h mi :: nat and w :: int
  assumes w: "0 \<le> w"
  defines "today \<equiv> civil w"
  defines "day \<equiv> civil (date_utc (cv_year today) (int (cv_month today) - 1) (int (cv_day today + add)) 0 0)"
  shows "date_utc (cv_year day) (int (cv_month day) - 1) (int (cv_day day)) (int h) (int mi)
    = day_start w + int add * day_ms + int h * hour_ms + int mi * minute_ms"
proof -
  have y: "1970 \<le> cv_year today" using civil_year [OF w] by (simp add: today_def)
  define v where "v = day_start w + int add * day_ms"
  have "0 \<le> day_start w" using w by (simp add: day_start_def pos_imp_zdiv_nonneg_iff)
  then have v: "0 \<le> v" "v mod day_ms = 0" by (simp_all add: v_def day_start_def)
  have "date_utc (cv_year today) (int (cv_month today) - 1) (int (cv_day today + add)) 0 0 = v"
    using date_utc_days(1) [of "cv_year today" "int (cv_month today) - 1" "int (cv_day today)" "int add"] y
      date_utc_civil [of w] by (simp add: today_def v_def)
  then have day: "day = civil v" by (simp add: day_def)
  have "1970 \<le> cv_year day" using civil_year [OF v(1)] by (simp add: day)
  then show ?thesis
    using date_utc_days(2) [of "cv_year day" "int (cv_month day) - 1" "int (cv_day day)" h mi]
      date_utc_civil [of v] day_start_self [OF v(2)] by (simp add: day v_def)
qed

lemma next_reading_step:
  assumes "0 \<le> w"
  shows "next_reading P tz now (civil w) h mi (add # adds) =
    (case find (\<lambda>i. i > now)
        (instants_for_wall P tz (day_start w + int add * day_ms + int h * hour_ms + int mi * minute_ms)) of
       Some t \<Rightarrow> Some t
     | None \<Rightarrow> next_reading P tz now (civil w) h mi adds)"
  using reading_wall [OF assms, of add h mi] by (simp add: Let_def)

definition reads :: "platform \<Rightarrow> string \<Rightarrow> nat \<Rightarrow> nat \<Rightarrow> int \<Rightarrow> bool" where
  "reads P tz h mi t \<longleftrightarrow> zone_start \<le> t \<and> t mod minute_ms = 0
    \<and> wall_of P tz t = day_start (wall_of P tz t) + int h * hour_ms + int mi * minute_ms"

lemma next_reading_Some:
  assumes z: "zone_rules P tz" and now: "zone_start + 7 * day_ms \<le> now" and hm: "h < 24" "mi < 60"
  defines "d0 \<equiv> day_start (wall_of P tz now)"
  shows "next_reading P tz now (civil (wall_of P tz now)) h mi adds = Some t \<Longrightarrow>
    \<exists>pre add post. adds = pre @ add # post \<and> reads P tz h mi t \<and> now < t
      \<and> day_start (wall_of P tz t) = d0 + int add * day_ms
      \<and> (\<forall>u. reads P tz h mi u \<and> now < u \<and> day_start (wall_of P tz u) = d0 + int add * day_ms \<longrightarrow> t \<le> u)
      \<and> (\<forall>a \<in> set pre. \<not> (\<exists>u. reads P tz h mi u \<and> now < u \<and> day_start (wall_of P tz u) = d0 + int a * day_ms))"
proof (induction adds)
  case (Cons add adds)
  define slot where "slot = d0 + int add * day_ms + int h * hour_ms + int mi * minute_ms"
  have zs: "zone_start \<le> now" using now by simp
  have pos: "0 \<le> wall_of P tz now" "zone_start + 5 * day_ms \<le> d0"
    using local_day_near(2) [OF z zs] day_start_bounds(1) [of "wall_of P tz now"] now
    by (simp_all add: d0_def zone_start_def)
  have d0m: "d0 mod day_ms = 0" using day_start_bounds(3) by (simp add: d0_def)
  have within: "0 \<le> int h * hour_ms + int mi * minute_ms" "int h * hour_ms + int mi * minute_ms < day_ms"
    using hm by simp_all
  have ds: "day_start slot = d0 + int add * day_ms"
    using within d0m by (intro day_start_unique) (simp_all add: slot_def)
  have sm: "slot mod minute_ms = 0"
  proof -
    obtain k where "d0 = day_ms * k" using d0m by (auto simp: mod_eq_0_iff_dvd dvd_def)
    then have "slot = minute_ms * (1440 * k + 1440 * int add + 60 * int h + int mi)" by (simp add: slot_def algebra_simps)
    then show ?thesis by simp
  qed
  have ss: "zone_start + 26 * hour_ms \<le> slot" using pos(2) by (simp add: slot_def)
  define ts where "ts = instants_for_wall P tz slot"
  have mem: "u \<in> set ts \<longleftrightarrow> reads P tz h mi u \<and> day_start (wall_of P tz u) = d0 + int add * day_ms" for u
    using instants_for_wall_iff [OF z sm ss, of u] ds by (auto simp: ts_def reads_def slot_def)
  have step: "next_reading P tz now (civil (wall_of P tz now)) h mi (add # adds) =
    (case find (\<lambda>i. i > now) ts of Some t \<Rightarrow> Some t
      | None \<Rightarrow> next_reading P tz now (civil (wall_of P tz now)) h mi adds)"
    using next_reading_step [OF pos(1)] by (simp add: ts_def slot_def d0_def del: next_reading.simps)
  show ?case
  proof (cases "find (\<lambda>i. i > now) ts")
    case None
    then obtain pre a post where "adds = pre @ a # post" "reads P tz h mi t" "now < t"
      "day_start (wall_of P tz t) = d0 + int a * day_ms"
      "\<forall>u. reads P tz h mi u \<and> now < u \<and> day_start (wall_of P tz u) = d0 + int a * day_ms \<longrightarrow> t \<le> u"
      "\<forall>a \<in> set pre. \<not> (\<exists>u. reads P tz h mi u \<and> now < u \<and> day_start (wall_of P tz u) = d0 + int a * day_ms)"
      using Cons step by auto
    moreover have "\<not> (\<exists>u. reads P tz h mi u \<and> now < u \<and> day_start (wall_of P tz u) = d0 + int add * day_ms)"
      using None mem by (auto simp: find_None_iff)
    ultimately show ?thesis by (intro exI [of _ "add # pre"] exI [of _ a] exI [of _ post]) auto
  next
    case (Some u)
    then have "u = t" using Cons.prems step by simp
    moreover have "sorted_wrt (<) ts" unfolding ts_def by (rule instants_for_wall_sorted)
    ultimately show ?thesis
      using find_least [OF _ Some] mem by (intro exI [of _ "[]"] exI [of _ add] exI [of _ adds]) auto
  qed
qed simp

lemma clock_not_date:
  assumes "eat_digits 4 r \<noteq> None"
  shows "clock_time r = None"
proof -
  have "4 \<le> length r" "list_all is_digit (take 4 r)" using assms by (auto simp: eat_digits_def split: if_splits)
  then obtain a b c d e where r: "r = a # b # c # d # e"
    by (auto simp: numeral_eq_Suc Suc_le_length_iff)
  then have dig: "is_digit a" "is_digit b" "is_digit c" using \<open>list_all is_digit (take 4 r)\<close> by simp_all
  have "\<not> is_digit (CHR '':'')" by (simp add: is_digit_def char_code_def)
  then have ne: "b \<noteq> CHR '':''" "c \<noteq> CHR '':''" using dig by auto
  have "eat_digits 2 r = Some (number_of [a, b], c # d # e)" "eat_digits 1 r = Some (number_of [a], b # c # d # e)"
    using dig by (simp_all add: eat_digits_def r)
  then show ?thesis using ne by (simp add: clock_time_def)
qed

text \<open>A time of day is read as an instant later than now at which the clock of the zone shows it. The zone keeps the
  rules of zones; if no change of its clocks leads back across midnight between now and that instant, the clock shows the
  time at no whole minute between.\<close>

theorem time_of_day_is_next_reading:
  assumes z: "zone_rules P tz" and now: "zone_start + 7 * day_ms \<le> now"
    and s: "clock_time (trim text) = Some (h, mi)" "at_spec P text now tz = Inr spec"
  shows "\<exists>t. spec = At_spec (Valid t) \<and> now < t \<and> reads P tz h mi t
    \<and> (days_in_order P tz now t \<longrightarrow> \<not> (\<exists>u. reads P tz h mi u \<and> now < u \<and> u < t))"
proof -
  have no_date: "date_part (trim text) = None"
  proof -
    have "eat_digits 4 (trim text) = None"
    proof (rule ccontr)
      assume "eat_digits 4 (trim text) \<noteq> None"
      then have "clock_time (trim text) = None" by (rule clock_not_date)
      then show False using s(1) by simp
    qed
    then show ?thesis unfolding date_part_def by (simp only: bind.simps)
  qed
  have no_iso: "iso_instant (trim text) = False" and no_local: "local_time (trim text) = None"
    by (simp_all add: iso_instant_def local_time_def no_date)
  have spec: "at_spec P text now tz = (if h > 23 \<or> mi > 59 then Inl (Schedule_validation Not_a_time_of_day (trim text))
      else (case next_reading P tz now (civil (wall_of P tz now)) h mi [0, 1, 2] of
          Some first \<Rightarrow> at_instant first
        | None \<Rightarrow> Inl (Schedule_validation Not_soon (trim text))))"
    by (simp only: at_spec_def Let_def no_iso no_local s(1) if_False option.case prod.case)
  then have hm: "h < 24" "mi < 60" using s(2) by (auto split: if_splits)
  then obtain t where t: "next_reading P tz now (civil (wall_of P tz now)) h mi [0, 1, 2] = Some t" "at_instant t = Inr spec"
    using s(2) unfolding spec by (cases "next_reading P tz now (civil (wall_of P tz now)) h mi [0, 1, 2]")
      (simp_all del: next_reading.simps)
  define d0 where "d0 = day_start (wall_of P tz now)"
  obtain pre add post where a: "[0, 1, 2] = pre @ add # post" "reads P tz h mi t" "now < t"
    "day_start (wall_of P tz t) = d0 + int add * day_ms"
    "\<forall>u. reads P tz h mi u \<and> now < u \<and> day_start (wall_of P tz u) = d0 + int add * day_ms \<longrightarrow> t \<le> u"
    "\<forall>a \<in> set pre. \<not> (\<exists>u. reads P tz h mi u \<and> now < u \<and> day_start (wall_of P tz u) = d0 + int a * day_ms)"
    using next_reading_Some [OF z now hm t(1)] unfolding d0_def by blast
  have "\<not> (reads P tz h mi u \<and> now < u \<and> u < t)" if o: "days_in_order P tz now t" for u
  proof
    assume u: "reads P tz h mi u \<and> now < u \<and> u < t"
    define d where "d = day_start (wall_of P tz u)"
    have "d0 \<le> d" "d \<le> d0 + int add * day_ms"
      using days_in_orderD [OF o, of now u] days_in_orderD [OF o, of u t] u a(4) by (simp_all add: d_def d0_def)
    moreover have "d mod day_ms = 0" "d0 mod day_ms = 0" by (simp_all add: d_def d0_def day_start_bounds(3))
    ultimately obtain i where i: "i < Suc add" "d = d0 + int i * day_ms"
      using day_between [of d0 d "Suc add"] by auto
    moreover have "set pre = {..<add}"
      using a(1) by (auto simp: Cons_eq_append_conv)
    ultimately show False using a(5,6) u unfolding d_def by (cases "i = add") force+
  qed
  moreover have "spec = At_spec (Valid t)"
    using t(2) by (auto simp: at_instant_def new_date_def split: if_splits)
  ultimately show ?thesis using a(2,3) by blast
qed

text \<open>Half past one, asked for in the evening before the clocks of London skip it: it is the day after next's.\<close>

theorem time_of_day_is_next_reading_witness:
  "\<exists>t. At_spec (Valid 1711931400000) = At_spec (Valid t) \<and> 1711836000000 < t \<and> reads demo_platform ''Europe/London'' 1 30 t
    \<and> \<not> (\<exists>u. reads demo_platform ''Europe/London'' 1 30 u \<and> 1711836000000 < u \<and> u < t)"
proof -
  have c: "trim ''1:30'' = ''1:30''" "clock_time ''1:30'' = Some (1, 30)" "iso_instant ''1:30'' = False" "local_time ''1:30'' = None"
    by (code_simp, code_simp, code_simp, code_simp)
  have w: "wall_of demo_platform ''Europe/London'' 1711836000000 = 1711836000000"
    by (simp add: demo_wall zone_start_def demo_offset_def summer_start_def summer_end_def)
  have "next_reading demo_platform ''Europe/London'' 1711836000000 (civil 1711836000000) 1 30 [0, 1, 2] = Some 1711931400000"
    by (simp add: next_reading_step day_start_def demo_eval del: next_reading.simps)
  then have "at_spec demo_platform ''1:30'' 1711836000000 ''Europe/London'' = Inr (At_spec (Valid 1711931400000))"
    by (simp add: at_spec_def c w at_instant_def new_date_def)
  then have "\<exists>t. At_spec (Valid 1711931400000) = At_spec (Valid t) \<and> 1711836000000 < t \<and> reads demo_platform ''Europe/London'' 1 30 t
    \<and> (days_in_order demo_platform ''Europe/London'' 1711836000000 t
      \<longrightarrow> \<not> (\<exists>u. reads demo_platform ''Europe/London'' 1 30 u \<and> 1711836000000 < u \<and> u < t))"
    by (rule time_of_day_is_next_reading [OF demo_zone_rules, rotated 2]) (simp_all add: c zone_start_def)
  moreover have "days_in_order demo_platform ''Europe/London'' 1711836000000 t" for t
    by (rule demo_days_in_order) (simp add: zone_start_def)
  ultimately show ?thesis by blast
qed

end
