(* ===== verification/Spec2Isabelle.thy ===== *)
theory Spec2Isabelle
  imports RepeatCall CallBudget CallWalkProperties BatchRunProperties LedgerProperties LedgerConservation LedgerSettlement ToolHistoryProperties
    AuthGateProperties ReviewPolicyProperties ToolReviewProperties LeaseProperties SessionChainProperties SessionFoldProperties SessionLogProperties SessionSpillProperties
    SchedClockProperties SchedEvaluateProperties SchedSpecProperties
begin

text \<open>
  A model of the parts of the namzu SDK (\<open>src/packages/sdk/src\<close>) on which a session
  stands or falls when processes are killed, race or misbehave: what it may spend,
  what it has recorded, who may write, what is sent to a provider, which tool calls run
  and who was asked, and when work that was scheduled runs.

  The program. A session runs turns of an agent. Before a request goes to a model
  provider the runtime repairs the message history, so that every tool call is
  answered once and in its place (\<open>compaction/dangling.ts\<close>), and reserves tokens from
  the account of the branch that asks (\<open>store/budget/ledger.ts\<close>); after it, the usage
  the provider reports is recorded. The ledger is written to a store after every
  change (\<open>store/budget/disk.ts\<close>, \<open>memory.ts\<close>). The turn itself is appended to the
  session log, one line per record, each line holding the hash of the line before
  (\<open>store/session-log\<close>, \<open>session/log-hash.ts\<close>). One process at a time holds the lease
  of a session; its fence rises with every claim (\<open>lease.ts\<close>).

  The tool calls a model asks for are reviewed before they run. The authorization gate
  (\<open>authorization/gate.ts\<close>, \<open>rules.ts\<close>) holds them against the rules of the operator, which read a
  shell line command by command (\<open>command-line.ts\<close>). What it neither allows nor denies goes, with what
  hooks, skills and remembered grants say of it, to a review handler; the one the SDK ships
  (\<open>runtime/query/review-policy.ts\<close>) knows seven modes, from asking a person about everything to
  asking about nearly nothing. \<open>runtime/query/iteration/phases/tool-review.ts\<close> puts these together: what of a
  batch runs, what is answered with a refusal, and what the audit log says of it.

  What is to run of a batch the executor (\<open>runtime/query/executor.ts\<close>) runs side by side or in turn, as the tools allow,
  and when the operator writes meanwhile it hands the unfinished calls back, whose results come later
  (\<open>detached-calls.ts\<close>). A host may also have each call asked about on its own while the batch runs
  (\<open>per-call-review.ts\<close>): the executor then walks the calls in order, and answers, changed rules and refusals meet
  while calls are under way. How many calls a turn may make is counted in its log (\<open>tool-call-budget.ts\<close>), and a call that
  keeps failing alike is refused (\<open>repeat-call.ts\<close>).

  Sessions are also started by schedules (\<open>schedules\<close>). A text of the user becomes a spec:
  an instant, an interval, or a cron expression in a time zone (\<open>spec.ts\<close>, \<open>cron.ts\<close>). The
  wall clock of a zone is read through the platform (\<open>tz.ts\<close>), the next and the previous fire
  time and the number of occurrences of a window come from a walk over local days
  (\<open>next-fire.ts\<close>), and \<open>evaluate.ts\<close> decides, from a job, its state and the clock, what fires,
  what is skipped and what was missed.

  The theories, in the order they build on one another.

  \<^item> Prelude: results of fallible code (\<open>Inl\<close> an error, \<open>Inr\<close> a value), the safe integers
    of JavaScript, JSON values, the insertion-ordered \<open>Map\<close> as a keyed list.
  \<^item> Usage: the counters of \<open>TokenUsage\<close>, with their bounds.
  \<^item> Ledger, LedgerSnapshot, LedgerStore: \<open>ledger.ts\<close> with its accounts, reservations,
    requests and receipts; the JSON document and every check
    of \<open>validateSessionTokenBudgetSnapshot\<close>; the two stores and \<open>openSessionTokenBudget\<close>.
    LedgerTree and LedgerTotals relate the recursions over parents and children to the
    tree of accounts; LedgerCore is the abstract budget, LedgerRefine shows that every
    operation is a sequence of its steps, LedgerRuns draws the consequences for every
    run; LedgerCodec and LedgerAccept treat the document; LedgerSpend, LedgerConservation
    and LedgerSettlement what happens to free tokens; LedgerProperties states the rest.
  \<^item> ToolHistory, ToolHistoryRepair, ToolHistoryProofs, ToolHistoryProperties:
    \<open>dangling.ts\<close>, against the provider's rule stated on its own.
  \<^item> SessionLease: the rule of a claim, the in-memory store, and the disk store as a
    whole operation; LeaseRace: the single file system steps of any number of claims,
    releases and prunings, interleaved; LeaseProperties.
  \<^item> SessionRecord: the line of a record; SessionChain: the splitter, the
    chain, pointers and the verifying walk; SessionFold: the messages and turns a
    log stands for; SessionSpill: bodies kept outside the log; each with its proofs and
    properties.
  \<^item> SessionLogState, SessionLogCore: what an instance of the log (\<open>core.ts\<close>) knows and what
    it does, over a shared medium, lease and spill store; SessionLogProofs and
    SessionLogProperties: what any interleaving of several instances keeps.
  \<^item> ToolCall: the values of arguments, what a tool declares, its source, the keys of grants
    (\<open>tool-grants.ts\<close>, \<open>trusted-read-only.ts\<close>). CommandLine: a shell line as rules read it. AuthRule: the rules and the
    verdict of one of them; AuthGate: the gate; AuthGateProperties: its compiled form decides
    as the rules themselves do, in order.
  \<^item> ReviewCall: the summary of a call, escalations, answers, decisions (\<open>types/hitl/index.ts\<close>). ReviewShell: exemptions and the
    shell lines that only edit files; ReviewPolicy: the shipped handler; ReviewPolicyProofs and ReviewPolicyProperties: what
    an approval of it rests on, branch by branch.
  \<^item> ToolReview: the review of a batch over any reviewer; ToolReviewProofs: the ways it ends as one case rule;
    ToolReviewProperties: what no reviewer releases, and the locale \<open>reviewer\<close>, the contract a review relies on,
    interpreted on the shipped handler in all its modes.
  \<^item> BatchRun: the plan of a batch as promises, the semaphore, and its run as a step relation; BatchPlanProofs: which
    promise waits for which; BatchRunProofs, BatchAnswerProofs, BatchLateProofs: what every reachable state keeps, of the tasks and
    permits, of the results, of the calls handed back; BatchRunProperties: that a run ends, and the properties, with one run as the witness.
  \<^item> CallReview: what an answer about a call means and which calls need one; CallWalk: the walk of the executor and the review that
    answers it as one step relation; CallWalkProofs, CallWalkGrounds: the stages of a call, which calls are under
    way together and the end of a walk, and what a call that runs rests on; CallWalkProperties.
  \<^item> CallBudget and RepeatCall: the budget of calls over the log of a turn, and the tracker of repeated calls,
    each with its properties.
  \<^item> Text: decimals, trimming and splitting of texts, shared by the log and the schedules.
  \<^item> SchedCron: the cron parser; SchedClock: \<open>Date.UTC\<close>, the civil calendar and the readings of a
    zone; SchedFire: fire times and counts; SchedEvaluate: the decision about a job; SchedSpec:
    the texts of specs. SchedCronProofs, SchedClockProofs and SchedFireProofs treat each of
    these, SchedSearch the walk over days, SchedCount the count, SchedZones is a platform
    with two zones for the witnesses. SchedFireProperties, SchedClockProperties,
    SchedEvaluateProperties and SchedSpecProperties state the properties.
\<close>

text \<open>
  How state corresponds. An object with private fields is a record; a \<open>Map\<close> whose
  order is read is a keyed list (\<open>kv\<close>), otherwise a map or a finite list. Methods are
  functions from the state to a result and the new state; a thrown error is \<open>Inl\<close>
  with the state the code leaves behind. The objects the code shares are shared in the
  model: the handles of a ledger name one ledger by account id, and the message fold
  keeps slots in a store to which its list and its map both point.

  Asynchrony. In the ledger and the log an operation runs with its awaits
  completed inside one step. The code serialises these operations itself, by a queue of
  promises, so steps of different operations do not interleave within a process.
  What may happen between them is explicit: writes of the ledger reach the store later
  (\<open>Drain\<close>), other instances of a log act, calls of the file system fail (a list of
  outcomes is an argument). Only in the disk lease, where processes race over a
  directory, is every file system call a step of its own (LeaseRace). Instances of a log in other processes are not kept
  apart by that queue: between the check of the fence and the write of a record a stale holder may still write, as \<open>disk.ts\<close>
  says of itself. The model has no such window; its steps are whole operations, and what is shown of the log is shown of
  operations that follow one another.

  Parameters. The codec of a record line (UTF-8 decoding, \<open>JSON.parse\<close> and
  \<open>stringify\<close>, the schema, SHA-256) is a record of functions; what the proofs take of it
  is named where it is used: printing is inverted by parsing, printed text holds
  no line feed, the hash does not collide on the texts at hand. Chunk boundaries,
  clocks, random tokens, record ids and the outcomes of file system calls
  are arguments. The platform of the schedules is a record: the parts
  \<open>Intl.DateTimeFormat\<close> gives for an instant, the name it resolves a zone to, the zone of the
  host, and \<open>Date.parse\<close>; its witness has UTC and the London rules of 2024. Of a zone the
  proofs take (\<open>zone_rules\<close>) that from 1973 on its offset is whole minutes,
  at most fourteen hours, and does not change twice within 52 hours. Two more assumptions are not made of a zone
  but of a span of time, which each property names: that no change of the clocks in it leads back across midnight
  (\<open>days_in_order\<close>), and that no gap in it skips the end of a day (\<open>gaps_within_day\<close>). Real zones break them now and
  then (America/St_Johns until 2011, America/Nuuk every spring), and there the code errs. Date texts of a spec stand as what \<open>Date.parse\<close>
  makes of them; numbers are exact, as they are below 2 to the 53. Texts are lists of characters, each counted as one unit.

  Of the review, \<open>RegExp\<close> is a function from a source text to a test, absent where the text does not compile;
  the lexer of shell lines and the readers of programs and paths are functions; so are what
  tools declare of a call, the prompt, the classifier and the hooks. A person's answer and a classifier's verdict are
  events the handler leaves, so that a theorem can say that a person said yes. What the executor prepared of a batch is given,
  with the hypothesis (\<open>prepares\<close>) that it prepared calls of that batch.

  Bounds. Recursions on the tree of accounts carry the number of accounts as depth,
  which LedgerTree shows is enough in every ledger that meets the invariant. The loop of a
  claim on disk makes eight attempts, as the code does; \<open>lease_stores_agree\<close> shows that
  without a rival the first suffices. The in-memory lease is the one the log model uses;
  by the same theorem the disk lease gives equal grants. The search for a fire time
  walks 1832 days, as the code does, which covers every day of a leap cycle but for
  the year 2100; the search inside a gap halves a range of minutes.

  What the theorems show. For the ledger: its invariant in every reachable state, that
  the last successful save is what a restart finds, that no save is refused as stale in a run
  without narrowing, that no reservation oversubscribes and no token is minted, that a
  finished request cannot be replayed, that the document round-trips. For histories: the
  repaired history obeys the provider's rule, is a fixed point of the repair,
  and the trim point never splits a call from its answer. For the lease: a fence has at
  most one live holder and never falls, as long as old fences are not pruned. For the
  log: what is accepted is a chain, a head fixes every byte before it, a torn tail is cut and the cut recorded,
  the aliased fold computes the plain one, a spilled body is read back whole. For the
  schedules: a printed expression is parsed to its documented meaning, but for weekday steps from 7, the instants of a wall
  reading are all found, a fixed time fires once on each of its days and a wildcard at every reading; in spans whose days come in
  order the next fire time is the least occurrence, a host that wakes at the announced instant misses none, and, where no gap skips
  the end of a day, the count with its shortcut is exact; an occurrence fires at most once whatever the clock does.

  For the review: the first rule with a verdict decides, the floor before the rules of the operator; an allowing pattern covers
  every command of a line and a restricting one is not evaded by quoting; what the gate denied runs under no
  decision; what crosses the sandbox was confirmed by its id; a question that a mode of the shipped handler reserves for a person
  (\<open>persons_question\<close>, after the table of \<open>docs/sdk/review-policy.md\<close>) is settled by a person's yes alone, except for the plan
  file; a call a person rewrote needs the gate's allowance;
  planning changes nothing; a person is asked once about a batch.

  For a batch, in whatever order its calls begin and end: a barrier stands alone and calls that are not safe follow
  one another, the limit is kept, each call is answered once and in its place, a call handed back is reported once, with the outcome that
  the labelled history of the run (\<open>batch_history\<close>) gives it or as lost, and a run ends
  after at most three steps for each promise and two more. Under a review of each call, the answers alone decide about
  a call that needs a person, a No stands, nothing begins to run once a refusal has ended the turn, and the walk ends after at most eight
  transitions for a call when its questions are answered. The budget of calls holds across failed appends and restarts; a call is
  refused as a repetition exactly when its last executions failed alike.

  Where the code falls short, the development proves that too, in general where it can: narrowing an
  allowance past what a parent can reserve makes the ledger's saves fail; a removed pair is not a least removal; a fence is
  granted twice once its file is pruned; releasing with an old lease and records waiting erases the records of
  successors; records buffered on a refused volume are dropped when another
  writer appended meanwhile, and what follows names a record that is not there; a torn tail that is
  remembered cuts records written after it; a denied call that was handed back is reported as
  lost; a question that is being prepared when the turn ends opens after it; a weekday step from 7 names no day; a unit
  named like an inherited property throws a range error; an interval without a
  representable multiple is accepted. \<open>appended_log_verifies\<close> is therefore
  stated for a medium whose calls succeed.

  Not modelled: the lexer of shell lines and the readers built on it (\<open>shell-lexer.ts\<close>, \<open>shell-paths.ts\<close>, \<open>program.ts\<close>,
  \<open>removal.ts\<close>, some six thousand lines of grammar and tables), the presets, the events, notices and reasons of a review, and in the review handler a tool whose
  declaration throws, which fails the handler without a decision; the execution of one call in the executor (retries, timeouts,
  hooks); the agent loop and tools, which are I/O around providers and
  processes; the user interfaces; adapters of third-party packages. Inside the
  modelled files: abort signals, manifest times and scratch file names of the spill
  store (the names are unique), the sentences that describe a spec, the cache of date
  formats, the option \<open>structuredResultSpilling\<close> (off by default),
  more than one log instance inside one process.
\<close>

end
